(* ===== verification/Jos_Prelude.thy ===== *)
theory Jos_Prelude
  imports Main "HOL-Library.Word"
begin

text \<open>
  Shared ground of the development: the machine integer types of \<^verbatim>\<open>inc/types.h\<close>, the
  rounding macros, the state monad in which every stateful function of the kernel, of the
  file server and of the user library is written, its Hoare rules, and the generic lemmas on
  words, linked lists and finite reference sets that the component theories share.
\<close>

unbundle bit_operations_syntax

section \<open>Machine integers\<close>

type_synonym u8 = "8 word"
type_synonym u16 = "16 word"
type_synonym u32 = "32 word"
type_synonym u64 = "64 word"
type_synonym i32 = "32 word"

named_theorems kconst \<open>constants of the headers, unfolded only on request\<close>
named_theorems spec_intros \<open>Hoare rules of the state monad\<close>

text \<open>
  \<^verbatim>\<open>ROUNDDOWN\<close>, \<^verbatim>\<open>ROUNDUP\<close>, \<^verbatim>\<open>MIN\<close> of \<^verbatim>\<open>inc/types.h\<close>: all arithmetic is on
  \<open>uint32_t\<close>, so rounding up wraps around at the top of the address space.
\<close>

definition ROUNDDOWN :: "u32 \<Rightarrow> u32 \<Rightarrow> u32" where
  "ROUNDDOWN a n = a - a mod n"

definition ROUNDUP :: "u32 \<Rightarrow> u32 \<Rightarrow> u32" where
  "ROUNDUP a n = ROUNDDOWN (a + n - 1) n"

definition MIN_u32 :: "u32 \<Rightarrow> u32 \<Rightarrow> u32" where
  "MIN_u32 a b = (if a \<le> b then a else b)"

lemma MIN_eq_min [simp]: "MIN_u32 a b = min a b"
  by (simp add: MIN_u32_def min_def)

lemma unat_ROUNDDOWN: "unat (ROUNDDOWN a n) = unat a - unat a mod unat n"
  by (simp add: ROUNDDOWN_def unat_sub unat_mod word_le_nat_alt)

lemma ROUNDDOWN_le: "ROUNDDOWN a n \<le> a"
  by (simp add: word_le_nat_alt unat_ROUNDDOWN)

lemma ROUNDDOWN_dvd: "unat n dvd unat (ROUNDDOWN a n)"
  by (simp add: unat_ROUNDDOWN dvd_minus_mod)

lemma unat_ROUNDUP:
  assumes "unat a + unat n \<le> 2 ^ 32" and "0 < unat n"
  shows "unat (ROUNDUP a n) = (unat a + unat n - 1) div unat n * unat n"
proof -
  have eq: "a + n - 1 = a + (n - 1)" by simp
  have "unat (n - 1) = unat n - 1"
    using assms(2) by (metis unat_gt_0 unat_minus_one)
  moreover have "unat a + (unat n - 1) < 2 ^ 32" using assms by linarith
  moreover have "unat (a + (n - 1)) = (unat a + unat (n - 1)) mod 2 ^ 32"
    by (simp add: unat_word_ariths)
  ultimately have "unat (a + (n - 1)) = unat a + unat n - 1"
    using assms(2) by simp
  then have "unat (a + n - 1) = unat a + unat n - 1"
    by (simp only: eq)
  then show ?thesis
    by (simp add: ROUNDUP_def unat_ROUNDDOWN minus_mod_eq_div_mult)
qed

section \<open>State monad with early exit\<close>

text \<open>
  A C function that reads and writes the globals is a function from the state to an outcome
  and the new state. \<open>Ret v\<close> is a normal return. \<open>Stop e\<close> is any exit that does not
  come back to the caller: a \<^verbatim>\<open>panic\<close>, a switch to user mode, a halted processor.
\<close>

datatype ('x, 'a) outcome = Ret 'a | Stop 'x

type_synonym ('s, 'x, 'a) prog = "'s \<Rightarrow> ('x, 'a) outcome \<times> 's"

definition ret :: "'a \<Rightarrow> ('s, 'x, 'a) prog" where
  "ret a = (\<lambda>s. (Ret a, s))"

definition stop :: "'x \<Rightarrow> ('s, 'x, 'a) prog" where
  "stop x = (\<lambda>s. (Stop x, s))"

definition bindM :: "('s, 'x, 'a) prog \<Rightarrow> ('a \<Rightarrow> ('s, 'x, 'b) prog) \<Rightarrow> ('s, 'x, 'b) prog" where
  "bindM m f = (\<lambda>s. case m s of (Ret a, t) \<Rightarrow> f a t | (Stop x, t) \<Rightarrow> (Stop x, t))"

definition thenM :: "('s, 'x, 'a) prog \<Rightarrow> ('s, 'x, 'b) prog \<Rightarrow> ('s, 'x, 'b) prog" where
  "thenM m k = bindM m (\<lambda>_. k)"

definition getsM :: "('s \<Rightarrow> 'a) \<Rightarrow> ('s, 'x, 'a) prog" where
  "getsM f = (\<lambda>s. (Ret (f s), s))"

definition modifyM :: "('s \<Rightarrow> 's) \<Rightarrow> ('s, 'x, unit) prog" where
  "modifyM f = (\<lambda>s. (Ret (), f s))"

definition whenM :: "bool \<Rightarrow> ('s, 'x, unit) prog \<Rightarrow> ('s, 'x, unit) prog" where
  "whenM b m = (if b then m else ret ())"

text \<open>A counting loop over the listed indices, body first to last.\<close>

fun forM :: "'i list \<Rightarrow> ('i \<Rightarrow> ('s, 'x, unit) prog) \<Rightarrow> ('s, 'x, unit) prog" where
  "forM [] f = ret ()"
| "forM (i # is) f = thenM (f i) (forM is f)"

text \<open>A loop that is left as soon as a body has a result.\<close>

fun firstM :: "'i list \<Rightarrow> ('i \<Rightarrow> ('s, 'x, 'a option) prog) \<Rightarrow> ('s, 'x, 'a option) prog" where
  "firstM [] f = ret None"
| "firstM (i # is) f = bindM (f i) (\<lambda>r. case r of None \<Rightarrow> firstM is f | Some a \<Rightarrow> ret (Some a))"

lemma ret_apply [simp]: "ret a s = (Ret a, s)"
  by (simp add: ret_def)

lemma stop_apply [simp]: "stop x s = (Stop x, s)"
  by (simp add: stop_def)

lemma bindM_apply [simp]:
  "bindM m f s = (case m s of (Ret a, t) \<Rightarrow> f a t | (Stop x, t) \<Rightarrow> (Stop x, t))"
  by (simp add: bindM_def)

lemma thenM_apply [simp]:
  "thenM m k s = (case m s of (Ret a, t) \<Rightarrow> k t | (Stop x, t) \<Rightarrow> (Stop x, t))"
  by (simp add: thenM_def)

lemma getsM_apply [simp]: "getsM f s = (Ret (f s), s)"
  by (simp add: getsM_def)

lemma modifyM_apply [simp]: "modifyM f s = (Ret (), f s)"
  by (simp add: modifyM_def)

lemma whenM_apply [simp]: "whenM b m s = (if b then m s else (Ret (), s))"
  by (simp add: whenM_def)

text \<open>
  \<open>spec P m Q E\<close>: from a state with \<open>P\<close>, a return satisfies \<open>Q\<close> and an exit
  satisfies \<open>E\<close>. As programs are total functions this is total correctness of the model.
\<close>

definition spec ::
  "('s \<Rightarrow> bool) \<Rightarrow> ('s, 'x, 'a) prog \<Rightarrow> ('a \<Rightarrow> 's \<Rightarrow> bool) \<Rightarrow> ('x \<Rightarrow> 's \<Rightarrow> bool) \<Rightarrow> bool" where
  "spec P m Q E \<longleftrightarrow>
     (\<forall>s. P s \<longrightarrow> (case m s of (Ret a, t) \<Rightarrow> Q a t | (Stop x, t) \<Rightarrow> E x t))"

lemma specI:
  assumes "\<And>s a t. P s \<Longrightarrow> m s = (Ret a, t) \<Longrightarrow> Q a t"
    and "\<And>s x t. P s \<Longrightarrow> m s = (Stop x, t) \<Longrightarrow> E x t"
  shows "spec P m Q E"
  using assms by (auto simp: spec_def split: prod.splits outcome.splits)

lemma specD_Ret: "spec P m Q E \<Longrightarrow> P s \<Longrightarrow> m s = (Ret a, t) \<Longrightarrow> Q a t"
  by (auto simp: spec_def split: prod.splits outcome.splits)

lemma specD_Stop: "spec P m Q E \<Longrightarrow> P s \<Longrightarrow> m s = (Stop x, t) \<Longrightarrow> E x t"
  by (auto simp: spec_def split: prod.splits outcome.splits)

lemma spec_weaken:
  assumes "spec P m Q E" and "\<And>s. P' s \<Longrightarrow> P s" and "\<And>a s. Q a s \<Longrightarrow> Q' a s"
    and "\<And>x s. E x s \<Longrightarrow> E' x s"
  shows "spec P' m Q' E'"
  using assms by (fastforce simp: spec_def split: prod.splits outcome.splits)

lemma spec_bind [spec_intros]:
  assumes "spec P m Q E" and "\<And>a. spec (Q a) (f a) R E"
  shows "spec P (bindM m f) R E"
  using assms by (fastforce simp: spec_def split: prod.splits outcome.splits)

lemma spec_then [spec_intros]:
  assumes "spec P m (\<lambda>_. Q) E" and "spec Q k R E"
  shows "spec P (thenM m k) R E"
  using assms by (fastforce simp: spec_def split: prod.splits outcome.splits)

lemma spec_ret: "(\<And>s. P s \<Longrightarrow> Q a s) \<Longrightarrow> spec P (ret a) Q E"
  by (simp add: spec_def)

lemma spec_gets: "(\<And>s. P s \<Longrightarrow> Q (f s) s) \<Longrightarrow> spec P (getsM f) Q E"
  by (simp add: spec_def)

lemma spec_modify: "(\<And>s. P s \<Longrightarrow> Q () (f s)) \<Longrightarrow> spec P (modifyM f) Q E"
  by (simp add: spec_def)

lemma spec_forM [spec_intros]:
  assumes "\<And>i. i \<in> set is \<Longrightarrow> spec P (f i) (\<lambda>_. P) E"
  shows "spec P (forM is f) (\<lambda>_. P) E"
  using assms
proof (induction "is")
  case Nil
  show ?case by (simp add: spec_def)
next
  case (Cons i "is")
  then have "spec P (thenM (f i) (forM is f)) (\<lambda>_. P) E"
    by (intro spec_then) simp_all
  then show ?case by (simp only: forM.simps)
qed

lemma forM_append: "forM (is @ js) f = thenM (forM is f) (forM js f)"
  by (induction "is") (auto simp: fun_eq_iff split: prod.splits outcome.splits)

lemma forM_modify:
  "forM is (\<lambda>i. modifyM (f i)) s = (Ret (), fold f is s)"
  by (induction "is" arbitrary: s) simp_all

lemma forM_snoc: "forM (is @ [i]) f s = (case forM is f s of (Ret _, t) \<Rightarrow> f i t | (Stop x, t) \<Rightarrow> (Stop x, t))"
  by (simp add: forM_append split: prod.splits outcome.splits)

lemma forM_invariant:
  assumes "P 0 s" and "\<And>i t. i < n \<Longrightarrow> P i t \<Longrightarrow> \<exists>u. f i t = (Ret (), u) \<and> P (Suc i) u"
  shows "\<exists>u. forM [0 ..< n] f s = (Ret (), u) \<and> P n u"
  using assms(2)
proof (induction n)
  case 0
  then show ?case using assms(1) by simp
next
  case (Suc n)
  then obtain t where t: "forM [0 ..< n] f s = (Ret (), t)" "P n t" by auto
  then obtain u where "f n t = (Ret (), u)" "P (Suc n) u" using Suc.prems [of n t] by auto
  then show ?case using t by (simp add: forM_snoc)
qed

section \<open>Chains of next pointers\<close>

text \<open>
  \<open>chain nxt p0 xs\<close>: following \<open>nxt\<close> from the head pointer \<open>p0\<close> visits exactly
  the nodes \<open>xs\<close> and then meets a null pointer. Used for the free page list and the
  free environment list.
\<close>

fun chain :: "('n \<Rightarrow> 'n option) \<Rightarrow> 'n option \<Rightarrow> 'n list \<Rightarrow> bool" where
  "chain nxt p0 [] \<longleftrightarrow> p0 = None"
| "chain nxt p0 (x # xs) \<longleftrightarrow> p0 = Some x \<and> chain nxt (nxt x) xs"

lemma chain_None [simp]: "chain nxt None xs \<longleftrightarrow> xs = []"
  by (cases xs) auto

lemma chain_Some: "chain nxt (Some x) xs \<longleftrightarrow> (\<exists>ys. xs = x # ys \<and> chain nxt (nxt x) ys)"
  by (cases xs) auto

lemma chain_upd [simp]: "x \<notin> set xs \<Longrightarrow> chain (nxt(x := v)) p0 xs = chain nxt p0 xs"
  by (induction xs arbitrary: p0) auto

lemma chain_cong: "(\<And>x. x \<in> set xs \<Longrightarrow> nxt x = nxt' x) \<Longrightarrow> chain nxt p0 xs = chain nxt' p0 xs"
  by (induction xs arbitrary: p0) auto

lemma chain_unique: "chain nxt p0 xs \<Longrightarrow> chain nxt p0 ys \<Longrightarrow> xs = ys"
  by (induction xs arbitrary: p0 ys) (auto simp: chain_Some)

section \<open>Words\<close>

lemma unat_and_mask: "unat (w AND mask n :: 'a::len word) = unat w mod 2 ^ n"
  unfolding take_bit_eq_mask [symmetric] unsigned_take_bit_eq by (rule take_bit_eq_mod)

lemma unat_drop_bit: "unat (drop_bit n w :: 'a::len word) = unat w div 2 ^ n"
  unfolding unat_drop_bit_eq by (rule drop_bit_eq_div)

lemma bit_less_exp:
  assumes "(w :: 'a::len word) < 2 ^ n" and "n < LENGTH('a)" and "n \<le> m"
  shows "\<not> bit w m"
proof -
  have "uint w < 2 ^ n" using assms(1,2) by (simp add: word_2p_lem word_size)
  then have "unat w < 2 ^ n" by (metis of_nat_less_numeral_power_cancel_iff of_nat_unat)
  also have "(2::nat) ^ n \<le> 2 ^ m" using assms(3) by simp
  finally have "\<not> bit (unat w) m" by (simp add: bit_iff_odd)
  then show ?thesis by (simp add: bit_unsigned_iff)
qed

lemma u32_bound: "unat (w :: 32 word) < 4294967296"
  using unsigned_less [of w] by simp

lemma u16_bound: "unat (w :: 16 word) < 65536"
  using unsigned_less [of w] by simp

lemma u8_bound: "unat (w :: 8 word) < 256"
  using unsigned_less [of w] by simp

lemma unat_dec: "w \<noteq> 0 \<Longrightarrow> unat (w - 1 :: 'a::len word) + 1 = unat w"
  by (simp add: unat_minus_one unat_gt_0 Suc_leI)

lemma unat_inc: "unat w < 2 ^ LENGTH('a) - 1 \<Longrightarrow> unat (w + 1 :: 'a::len word) = unat w + 1"
  by (simp add: unat_word_ariths)

lemma word_eq_bitI:
  "(\<And>n. n < LENGTH('a) \<Longrightarrow> bit v n = bit w n) \<Longrightarrow> v = (w :: 'a::len word)"
  by (rule bit_word_eqI) simp

section \<open>Counting references\<close>

text \<open>
  Changing one entry of a table changes the set of entries that point to a given target by
  at most that one entry.
\<close>

lemma card_point_upd:
  assumes fin: "finite {x. f x = Some p}"
  shows "card {x. (f(a := Some p)) x = Some p}
           = card {x. f x = Some p} + (if f a = Some p then 0 else 1)"
proof -
  have "{x. (f(a := Some p)) x = Some p} = insert a {x. f x = Some p}" by auto
  then show ?thesis using fin by (simp add: insert_absorb)
qed

lemma card_point_del:
  assumes fin: "finite {x. f x = Some p}" and ne: "v \<noteq> Some p"
  shows "card {x. (f(a := v)) x = Some p}
           = card {x. f x = Some p} - (if f a = Some p then 1 else 0)"
proof -
  have "{x. (f(a := v)) x = Some p} = {x. f x = Some p} - {a}" using ne by auto
  then show ?thesis using fin by simp
qed

lemma card_point:
  assumes fin: "finite {x. f x = Some p}"
  shows "card {x. (f(a := v)) x = Some p} + (if f a = Some p then 1 else 0)
           = card {x. f x = Some p} + (if v = Some p then 1 else 0)"
proof -
  have pos: "0 < card {x. f x = Some p}" if "f a = Some p"
    using that fin by (auto simp: card_gt_0_iff)
  show ?thesis
    using card_point_upd [OF fin, of a] card_point_del [OF fin, of v a] pos by (cases "v = Some p") auto
qed

section \<open>Bounded queues\<close>

text \<open>
  The interface of a first-in first-out buffer of limited capacity. \<open>contents\<close> is its
  abstraction to a list; \<open>takes\<close> removes several elements one after the other.
\<close>

primrec takes :: "('s \<Rightarrow> 'a option \<times> 's) \<Rightarrow> nat \<Rightarrow> 's \<Rightarrow> 'a option list \<times> 's" where
  "takes g 0 s = ([], s)"
| "takes g (Suc n) s = (case g s of (x, t) \<Rightarrow> case takes g n t of (xs, u) \<Rightarrow> (x # xs, u))"

locale bounded_fifo =
  fixes put :: "'a \<Rightarrow> 's \<Rightarrow> 's"
    and get :: "'s \<Rightarrow> 'a option \<times> 's"
    and contents :: "'s \<Rightarrow> 'a list"
    and inv :: "'s \<Rightarrow> bool"
    and cap :: nat
  assumes inv_put: "inv s \<Longrightarrow> inv (put x s)"
    and inv_get: "inv s \<Longrightarrow> inv (snd (get s))"
    and contents_put:
      "inv s \<Longrightarrow> length (contents s) < cap \<Longrightarrow> contents (put x s) = contents s @ [x]"
    and get_Nil: "inv s \<Longrightarrow> contents s = [] \<Longrightarrow> get s = (None, s)"
    and get_Cons: "inv s \<Longrightarrow> contents s = x # xs \<Longrightarrow>
      fst (get s) = Some x \<and> contents (snd (get s)) = xs"
begin

lemma fold_put:
  assumes "inv s" and "length (contents s) + length xs \<le> cap"
  shows "inv (fold put xs s) \<and> contents (fold put xs s) = contents s @ xs"
  using assms
proof (induction xs arbitrary: s)
  case Nil
  then show ?case by simp
next
  case (Cons x xs)
  then have "inv (put x s)" and "contents (put x s) = contents s @ [x]"
    by (simp_all add: inv_put contents_put)
  with Cons.IH [of "put x s"] Cons.prems show ?case by simp
qed

lemma takes_contents:
  assumes "inv s" and "n \<le> length (contents s)"
  shows "fst (takes get n s) = map Some (take n (contents s)) \<and> inv (snd (takes get n s))
    \<and> contents (snd (takes get n s)) = drop n (contents s)"
  using assms
proof (induction n arbitrary: s)
  case 0
  then show ?case by simp
next
  case (Suc n)
  then obtain x xs where c: "contents s = x # xs" by (cases "contents s") auto
  obtain y t where g: "get s = (y, t)" by (cases "get s")
  from get_Cons [OF Suc.prems(1) c] inv_get [OF Suc.prems(1)] g
  have y: "y = Some x" "contents t = xs" "inv t" by auto
  with Suc.IH [of t] Suc.prems c g show ?case by (auto split: prod.splits)
qed

lemma fold_put_takes:
  assumes "inv s" and "contents s = []" and "length xs \<le> cap"
  shows "fst (takes get (length xs) (fold put xs s)) = map Some xs"
  using fold_put [of s xs] takes_contents [of "fold put xs s" "length xs"] assms by simp

end

section \<open>Stores that implement a map\<close>

text \<open>
  The interface of a data structure that implements a finite map: insertions and deletions
  that may fail, a \<open>view\<close> of the state as a map, and an invariant. A history of successful
  operations then behaves as the same updates of the map.
\<close>

datatype ('k, 'v) mop = Ins 'k 'v | Del 'k

fun mop_apply :: "('k, 'v) mop \<Rightarrow> ('k \<Rightarrow> 'v option) \<Rightarrow> 'k \<Rightarrow> 'v option" where
  "mop_apply (Ins k v) m = m(k := Some v)"
| "mop_apply (Del k) m = m(k := None)"

fun mop_key :: "('k, 'v) mop \<Rightarrow> 'k" where
  "mop_key (Ins k v) = k"
| "mop_key (Del k) = k"

fun mruns :: "('o \<Rightarrow> 's \<Rightarrow> bool) \<Rightarrow> ('o \<Rightarrow> 's \<Rightarrow> 's option) \<Rightarrow> 'o list \<Rightarrow> 's \<Rightarrow> 's option" where
  "mruns legal step [] s = Some s"
| "mruns legal step (x # xs) s =
     (if legal x s then case step x s of None \<Rightarrow> None | Some t \<Rightarrow> mruns legal step xs t else None)"

locale map_store =
  fixes step :: "('k, 'v) mop \<Rightarrow> 's \<Rightarrow> 's option"
    and legal :: "('k, 'v) mop \<Rightarrow> 's \<Rightarrow> bool"
    and view :: "'s \<Rightarrow> 'k \<Rightarrow> 'v option"
    and inv :: "'s \<Rightarrow> bool"
    and keys :: "'k set"
  assumes step_inv: "inv s \<Longrightarrow> legal x s \<Longrightarrow> step x s = Some t \<Longrightarrow> inv t"
    and step_view: "inv s \<Longrightarrow> legal x s \<Longrightarrow> step x s = Some t \<Longrightarrow> k \<in> keys \<Longrightarrow>
      view t k = mop_apply x (view s) k"
begin

lemma runs_inv: "inv s \<Longrightarrow> mruns legal step xs s = Some t \<Longrightarrow> inv t"
proof (induction xs arbitrary: s)
  case (Cons x xs)
  then obtain u where "legal x s" "step x s = Some u" "mruns legal step xs u = Some t"
    by (auto split: if_splits option.splits)
  then show ?case using Cons.IH step_inv [OF Cons.prems(1)] by blast
qed simp

lemma runs_view:
  assumes "inv s" and "mruns legal step xs s = Some t" and "k \<in> keys"
  shows "view t k = fold mop_apply xs (view s) k"
proof -
  have agree: "fold mop_apply ys m k = fold mop_apply ys m' k" if "m k = m' k"
    for ys :: "('k, 'v) mop list" and m m' :: "'k \<Rightarrow> 'v option"
    using that
  proof (induction ys arbitrary: m m')
    case (Cons y ys)
    have "mop_apply y m k = mop_apply y m' k" using Cons.prems by (cases y) auto
    then have "fold mop_apply ys (mop_apply y m) k = fold mop_apply ys (mop_apply y m') k"
      by (rule Cons.IH)
    then show ?case by simp
  qed simp
  show ?thesis
    using assms(1,2)
  proof (induction xs arbitrary: s)
    case (Cons x xs)
    then obtain u where u: "legal x s" "step x s = Some u" "mruns legal step xs u = Some t"
      by (auto split: if_splits option.splits)
    then have "view t k = fold mop_apply xs (view u) k"
      using Cons.IH step_inv [OF Cons.prems(1)] by blast
    also have "\<dots> = fold mop_apply xs (mop_apply x (view s)) k"
      using step_view [OF Cons.prems(1) u(1,2) assms(3)] by (rule agree)
    finally show ?case by simp
  qed simp
qed

lemma untouched:
  assumes "inv s" and "mruns legal step xs s = Some t" and "k \<in> keys"
    and "\<And>x. x \<in> set xs \<Longrightarrow> mop_key x \<noteq> k"
  shows "view t k = view s k"
proof -
  have "fold mop_apply xs m k = m k" for m
    using assms(4)
  proof (induction xs arbitrary: m)
    case (Cons x xs)
    have "mop_apply x m k = m k" using Cons.prems [of x] by (cases x) auto
    then show ?case using Cons.IH [of "mop_apply x m"] Cons.prems by simp
  qed simp
  then show ?thesis using runs_view [OF assms(1-3)] by simp
qed

lemma last_insert_wins:
  assumes "inv s" and "mruns legal step (xs @ Ins k v # ys) s = Some t" and "k \<in> keys"
    and "\<And>y. y \<in> set ys \<Longrightarrow> mop_key y \<noteq> k"
  shows "view t k = Some v"
proof -
  have "fold mop_apply ys m k = m k" for m
    using assms(4)
  proof (induction ys arbitrary: m)
    case (Cons y ys)
    have "mop_apply y m k = m k" using Cons.prems [of y] by (cases y) auto
    then show ?case using Cons.IH [of "mop_apply y m"] Cons.prems by simp
  qed simp
  then show ?thesis using runs_view [OF assms(1-3)] by simp
qed

end

end
