(* ===== verification/Jos_Mmu.thy ===== *)
theory Jos_Mmu
  imports Jos_Prelude
begin

text \<open>
  The header constants and macros the kernel and the user library are written with:
  \<^verbatim>\<open>inc/mmu.h\<close> (linear addresses, page table entries, flags), \<^verbatim>\<open>inc/memlayout.h\<close>
  (the virtual memory map) and \<^verbatim>\<open>inc/error.h\<close> (error codes), with the decomposition and
  round-trip lemmas of linear addresses and of page table entries.
\<close>

section \<open>Linear addresses\<close>

definition PGSIZE :: u32 where [kconst]: "PGSIZE = 4096"
definition PTSIZE :: u32 where [kconst]: "PTSIZE = 0x400000"
definition NPDENTRIES :: nat where [kconst]: "NPDENTRIES = 1024"
definition NPTENTRIES :: nat where [kconst]: "NPTENTRIES = 1024"

definition PGNUM :: "u32 \<Rightarrow> nat" where
  "PGNUM la = unat (drop_bit 12 la)"

definition PDX :: "u32 \<Rightarrow> nat" where
  "PDX la = unat (drop_bit 22 la AND 0x3FF)"

definition PTX :: "u32 \<Rightarrow> nat" where
  "PTX la = unat (drop_bit 12 la AND 0x3FF)"

definition PGOFF :: "u32 \<Rightarrow> nat" where
  "PGOFF la = unat (la AND 0xFFF)"

definition PGADDR :: "nat \<Rightarrow> nat \<Rightarrow> nat \<Rightarrow> u32" where
  "PGADDR d t p = push_bit 22 (of_nat d) OR push_bit 12 (of_nat t) OR of_nat p"

section \<open>Page table entries\<close>

definition PTE_P :: u32 where [kconst]: "PTE_P = 0x001"
definition PTE_W :: u32 where [kconst]: "PTE_W = 0x002"
definition PTE_U :: u32 where [kconst]: "PTE_U = 0x004"
definition PTE_PWT :: u32 where [kconst]: "PTE_PWT = 0x008"
definition PTE_PCD :: u32 where [kconst]: "PTE_PCD = 0x010"
definition PTE_D :: u32 where [kconst]: "PTE_D = 0x040"
definition PTE_AVAIL :: u32 where [kconst]: "PTE_AVAIL = 0xE00"
definition PTE_SYSCALL :: u32 where [kconst]: "PTE_SYSCALL = 0xE07"
definition PTE_COW :: u32 where [kconst]: "PTE_COW = 0x800"

definition PTE_ADDR :: "u32 \<Rightarrow> u32" where
  "PTE_ADDR pte = pte AND NOT 0xFFF"

text \<open>The frame a page table entry points to, \<^verbatim>\<open>PGNUM(PTE_ADDR(pte))\<close>.\<close>

abbreviation pte_frame :: "u32 \<Rightarrow> nat" where
  "pte_frame pte \<equiv> PGNUM (PTE_ADDR pte)"

section \<open>Memory layout\<close>

definition KERNBASE :: u32 where [kconst]: "KERNBASE = 0xF0000000"
definition IOPHYSMEM :: u32 where [kconst]: "IOPHYSMEM = 0x0A0000"
definition EXTPHYSMEM :: u32 where [kconst]: "EXTPHYSMEM = 0x100000"
definition KSTACKTOP :: u32 where [kconst]: "KSTACKTOP = 0xF0000000"
definition KSTKSIZE :: u32 where [kconst]: "KSTKSIZE = 0x8000"
definition KSTKGAP :: u32 where [kconst]: "KSTKGAP = 0x8000"
definition MMIOLIM :: u32 where [kconst]: "MMIOLIM = 0xEFC00000"
definition MMIOBASE :: u32 where [kconst]: "MMIOBASE = 0xEF800000"
definition ULIM :: u32 where [kconst]: "ULIM = 0xEF800000"
definition UVPT :: u32 where [kconst]: "UVPT = 0xEF400000"
definition UPAGES :: u32 where [kconst]: "UPAGES = 0xEF000000"
definition UENVS :: u32 where [kconst]: "UENVS = 0xEEC00000"
definition UTOP :: u32 where [kconst]: "UTOP = 0xEEC00000"
definition UXSTACKTOP :: u32 where [kconst]: "UXSTACKTOP = 0xEEC00000"
definition USTACKTOP :: u32 where [kconst]: "USTACKTOP = 0xEEBFE000"
definition UTEXT :: u32 where [kconst]: "UTEXT = 0x800000"
definition UTEMP :: u32 where [kconst]: "UTEMP = 0x400000"
definition PFTEMP :: u32 where [kconst]: "PFTEMP = 0x7FF000"
definition USTABDATA :: u32 where [kconst]: "USTABDATA = 0x200000"
definition MPENTRY_PADDR :: u32 where [kconst]: "MPENTRY_PADDR = 0x7000"

definition GD_KT :: u16 where [kconst]: "GD_KT = 0x08"
definition GD_KD :: u16 where [kconst]: "GD_KD = 0x10"
definition GD_UT :: u16 where [kconst]: "GD_UT = 0x18"
definition GD_UD :: u16 where [kconst]: "GD_UD = 0x20"

definition FL_TF :: u32 where [kconst]: "FL_TF = 0x100"
definition FL_IF :: u32 where [kconst]: "FL_IF = 0x200"
definition FL_IOPL_MASK :: u32 where [kconst]: "FL_IOPL_MASK = 0x3000"

text \<open>The first page directory index that user code cannot map, \<^verbatim>\<open>PDX(UTOP)\<close>.\<close>

definition UPDX :: nat where [kconst]: "UPDX = 955"

lemma UPDX_eq: "UPDX = PDX UTOP"
  by (simp add: kconst PDX_def)

section \<open>Error codes\<close>

text \<open>Functions return the negated code as a 32-bit signed integer.\<close>

definition E_UNSPECIFIED :: i32 where [kconst]: "E_UNSPECIFIED = 1"
definition E_BAD_ENV :: i32 where [kconst]: "E_BAD_ENV = 2"
definition E_INVAL :: i32 where [kconst]: "E_INVAL = 3"
definition E_NO_MEM :: i32 where [kconst]: "E_NO_MEM = 4"
definition E_NO_FREE_ENV :: i32 where [kconst]: "E_NO_FREE_ENV = 5"
definition E_FAULT :: i32 where [kconst]: "E_FAULT = 6"
definition E_IPC_NOT_RECV :: i32 where [kconst]: "E_IPC_NOT_RECV = 7"
definition E_EOF :: i32 where [kconst]: "E_EOF = 8"
definition E_NO_DISK :: i32 where [kconst]: "E_NO_DISK = 9"
definition E_MAX_OPEN :: i32 where [kconst]: "E_MAX_OPEN = 10"
definition E_NOT_FOUND :: i32 where [kconst]: "E_NOT_FOUND = 11"
definition E_BAD_PATH :: i32 where [kconst]: "E_BAD_PATH = 12"
definition E_FILE_EXISTS :: i32 where [kconst]: "E_FILE_EXISTS = 13"
definition E_NOT_EXEC :: i32 where [kconst]: "E_NOT_EXEC = 14"
definition E_NOT_SUPP :: i32 where [kconst]: "E_NOT_SUPP = 15"
definition MAXERROR :: i32 where [kconst]: "MAXERROR = 16"

text \<open>The C test \<^verbatim>\<open>r < 0\<close> on a signed 32-bit result.\<close>

definition is_neg :: "i32 \<Rightarrow> bool" where
  "is_neg r \<longleftrightarrow> sint r < 0"

lemma is_neg_zero [simp]: "\<not> is_neg 0"
  by (simp add: is_neg_def)

lemma is_neg_err [simp]:
  "is_neg (- E_BAD_ENV)" "is_neg (- E_INVAL)" "is_neg (- E_NO_MEM)" "is_neg (- E_NO_FREE_ENV)"
  "is_neg (- E_FAULT)" "is_neg (- E_IPC_NOT_RECV)" "is_neg (- E_NO_DISK)" "is_neg (- E_MAX_OPEN)"
  "is_neg (- E_NOT_FOUND)" "is_neg (- E_BAD_PATH)" "is_neg (- E_FILE_EXISTS)"
  "is_neg (- E_NOT_EXEC)" "is_neg (- E_NOT_SUPP)"
  by (simp_all add: is_neg_def kconst)

lemma err_nonzero [simp]:
  "- E_BAD_ENV \<noteq> 0" "- E_INVAL \<noteq> 0" "- E_NO_MEM \<noteq> 0" "- E_NO_FREE_ENV \<noteq> 0" "- E_FAULT \<noteq> 0"
  "- E_IPC_NOT_RECV \<noteq> 0" "- E_NO_DISK \<noteq> 0" "- E_MAX_OPEN \<noteq> 0" "- E_NOT_FOUND \<noteq> 0"
  by (simp_all add: kconst)

section \<open>Decomposition of linear addresses\<close>

lemma PGNUM_eq: "PGNUM la = unat la div 4096"
  by (simp add: PGNUM_def unat_drop_bit)

lemma mask_10: "(0x3FF :: u32) = mask 10"
  by (simp add: mask_eq_exp_minus_1)

lemma mask_12: "(0xFFF :: u32) = mask 12"
  by (simp add: mask_eq_exp_minus_1)

lemma PTX_eq: "PTX la = unat la div 4096 mod 1024"
  by (simp only: PTX_def mask_10 unat_and_mask unat_drop_bit) simp

lemma PDX_eq: "PDX la = unat la div 4194304"
proof -
  have "unat la < 4294967296" by (rule u32_bound)
  then have "unat la div 4194304 < 1024" by simp
  then show ?thesis
    by (simp only: PDX_def mask_10 unat_and_mask unat_drop_bit) simp
qed

lemma PGOFF_eq: "PGOFF la = unat la mod 4096"
  by (simp only: PGOFF_def mask_12 unat_and_mask) simp

lemma PDX_less [simp]: "PDX la < 1024"
proof -
  have "unat la < 4294967296" by (rule u32_bound)
  then show ?thesis by (simp add: PDX_eq)
qed

lemma PTX_less [simp]: "PTX la < 1024"
  by (simp add: PTX_eq)

lemma PGOFF_less [simp]: "PGOFF la < 4096"
  by (simp add: PGOFF_eq)

lemma PDX_of_PGNUM: "PDX la = PGNUM la div 1024"
  by (simp add: PDX_eq PGNUM_eq div_mult2_eq [symmetric])

lemma PTX_of_PGNUM: "PTX la = PGNUM la mod 1024"
  by (simp add: PTX_eq PGNUM_eq)

lemma PGNUM_decompose: "PGNUM la = PDX la * 1024 + PTX la"
  unfolding PDX_of_PGNUM PTX_of_PGNUM by simp

lemma unat_decompose: "unat la = PDX la * 4194304 + PTX la * 4096 + PGOFF la"
proof -
  have "unat la = PGNUM la * 4096 + PGOFF la"
    unfolding PGNUM_eq PGOFF_eq by simp
  then show ?thesis by (simp add: PGNUM_decompose)
qed

lemma same_page_iff: "PDX a = PDX b \<and> PTX a = PTX b \<longleftrightarrow> PGNUM a = PGNUM b"
  by (metis PDX_of_PGNUM PTX_of_PGNUM PGNUM_decompose)

lemma below_UTOP_iff: "va < UTOP \<longleftrightarrow> PDX va < UPDX"
  by (simp add: PDX_eq word_less_nat_alt kconst) arith

section \<open>Round trips\<close>

text \<open>
  \<^verbatim>\<open>page2pa(pp) | perm | PTE_P\<close> stores a frame and permission bits in one word: below
  frame \<open>2^20\<close> and permission \<open>2^12\<close> both can be read back.
\<close>

definition mk_pte :: "nat \<Rightarrow> u32 \<Rightarrow> u32" where
  "mk_pte f perm = push_bit 12 (of_nat f) OR perm OR PTE_P"

lemma bit_perm: "perm < 0x1000 \<Longrightarrow> 12 \<le> n \<Longrightarrow> \<not> bit (perm :: u32) n"
  by (rule bit_less_exp [of _ 12]) simp_all

lemma bit_PTE_ADDR: "bit (PTE_ADDR pte) n \<longleftrightarrow> bit pte n \<and> 12 \<le> n"
proof -
  have "bit (NOT 0xFFF :: u32) n \<longleftrightarrow> 12 \<le> n \<and> n < 32"
    by (subst mask_12, subst bit_not_iff, subst bit_mask_iff) auto
  then show ?thesis
    unfolding PTE_ADDR_def bit_and_iff by (auto dest: bit_imp_le_length)
qed

lemma bit_PTE_P: "bit PTE_P n \<longleftrightarrow> n = 0"
  by (simp add: PTE_P_def bit_1_iff)

lemma PTE_ADDR_mk_pte:
  assumes "perm < 0x1000"
  shows "PTE_ADDR (mk_pte f perm) = push_bit 12 (of_nat f)"
proof (rule word_eq_bitI)
  fix n :: nat assume "n < LENGTH(32)"
  then show "bit (PTE_ADDR (mk_pte f perm)) n = bit (push_bit 12 (of_nat f) :: u32) n"
    using bit_perm [OF assms, of n]
    by (auto simp: bit_PTE_ADDR mk_pte_def bit_PTE_P bit_or_iff bit_push_bit_iff)
qed

lemma PGNUM_push_bit:
  assumes "f < 0x100000"
  shows "PGNUM (push_bit 12 (of_nat f)) = f"
proof -
  have "unat (push_bit 12 (of_nat f) :: u32) = f * 4096"
    using assms by (simp add: push_bit_eq_mult unat_word_ariths unat_of_nat take_bit_eq_mod)
  then show ?thesis by (simp add: PGNUM_eq)
qed

lemma pte_frame_mk_pte [simp]:
  "perm < 0x1000 \<Longrightarrow> f < 0x100000 \<Longrightarrow> pte_frame (mk_pte f perm) = f"
  by (simp add: PTE_ADDR_mk_pte PGNUM_push_bit)

lemma mk_pte_present [simp]: "mk_pte f perm AND PTE_P \<noteq> 0"
proof
  assume "mk_pte f perm AND PTE_P = 0"
  then have "\<not> bit (mk_pte f perm AND PTE_P) 0" by simp
  then show False by (simp add: mk_pte_def bit_PTE_P bit_or_iff bit_and_iff)
qed

lemma mk_pte_flag:
  assumes "flag < 0x1000" and "perm < 0x1000"
  shows "mk_pte f perm AND flag = (perm OR PTE_P) AND flag"
proof (rule word_eq_bitI)
  fix n :: nat assume "n < LENGTH(32)"
  show "bit (mk_pte f perm AND flag) n = bit ((perm OR PTE_P) AND flag) n"
    using bit_perm [OF assms(1), of n]
    by (auto simp: mk_pte_def bit_and_iff bit_or_iff bit_push_bit_iff)
qed

lemma pte_frame_less: "pte_frame pte < 0x100000"
  using u32_bound [of "PTE_ADDR pte"] by (simp add: PGNUM_eq)

lemma PGADDR_round:
  assumes "d < 1024" and "t < 1024"
  shows "PDX (PGADDR d t 0) = d" and "PTX (PGADDR d t 0) = t"
proof -
  have nb: "\<not> bit t m" if "10 \<le> m" for m
  proof -
    have "(2::nat) ^ 10 \<le> 2 ^ m" using that by (rule power_increasing) simp
    then show ?thesis using assms(2) by (simp add: bit_iff_odd)
  qed
  have "PGADDR d t 0 = push_bit 22 (of_nat d) + push_bit 12 (of_nat t)"
    unfolding PGADDR_def
    by (subst disjunctive_add) (use nb in \<open>auto simp: bit_push_bit_iff bit_simps\<close>)
  moreover have "unat (push_bit 22 (of_nat d) + push_bit 12 (of_nat t) :: u32)
      = d * 4194304 + t * 4096"
    using assms by (simp add: push_bit_eq_mult unat_word_ariths unat_of_nat take_bit_eq_mod)
  ultimately have u: "unat (PGADDR d t 0) = d * 4194304 + t * 4096" by simp
  show "PDX (PGADDR d t 0) = d" using assms by (simp add: PDX_eq u)
  have "(d * 4194304 + t * 4096) div 4096 = d * 1024 + t" by simp
  then show "PTX (PGADDR d t 0) = t" using assms by (simp add: PTX_eq u)
qed

end
