(* ===== verification/Jos_Console.thy ===== *)
theory Jos_Console
  imports Jos_Prelude
begin

text \<open>
  The console driver \<^verbatim>\<open>kern/console.c\<close>: the keyboard decoder with its shift state and
  translation tables, the circular input buffer \<^verbatim>\<open>cons\<close> that interrupts fill and
  \<^verbatim>\<open>cons_getc\<close> drains, the serial and parallel output ports, and the text screen with its
  cursor and scrolling. Devices are the lists of bytes they still hold or have received; the
  bounded polling delays of the output routines have no other effect and are left out.

  Results: the input buffer refines a bounded queue (interface \<open>bounded_fifo\<close>) and delivers
  typed characters in order as long as fewer than 512 are waiting; draining a device always
  ends; the screen cursor never leaves the screen, so every store goes inside \<^verbatim>\<open>crt_buf\<close>.
\<close>

section \<open>State\<close>

record console =
  cons_buf :: "nat \<Rightarrow> u8"
  rpos :: nat
  wpos :: nat
  kbd_shift :: u32
  serial_exists :: bool
  serial_rx :: "u8 list"
  kbd_rx :: "u8 list"
  serial_tx :: "u8 list"
  lpt_tx :: "u8 list"
  crt_buf :: "nat \<Rightarrow> u16"
  crt_pos :: u16
  rebooted :: bool

definition CONSBUFSIZE :: nat where [kconst]: "CONSBUFSIZE = 512"
definition CRT_COLS :: u16 where [kconst]: "CRT_COLS = 80"
definition CRT_SIZE :: u16 where [kconst]: "CRT_SIZE = 2000"

section \<open>Keyboard tables\<close>

definition kb_SHIFT :: u32 where [kconst]: "kb_SHIFT = 1"
definition kb_CTL :: u32 where [kconst]: "kb_CTL = 2"
definition kb_ALT :: u32 where [kconst]: "kb_ALT = 4"
definition kb_CAPSLOCK :: u32 where [kconst]: "kb_CAPSLOCK = 8"
definition kb_NUMLOCK :: u32 where [kconst]: "kb_NUMLOCK = 16"
definition kb_SCROLLLOCK :: u32 where [kconst]: "kb_SCROLLLOCK = 32"
definition kb_E0ESC :: u32 where [kconst]: "kb_E0ESC = 64"
definition KEY_DEL :: u8 where [kconst]: "KEY_DEL = 0xE9"

definition shiftcode :: "u8 \<Rightarrow> u32" where
  "shiftcode d = (if d = 0x1D \<or> d = 0x9D then kb_CTL
     else if d = 0x2A \<or> d = 0x36 then kb_SHIFT
     else if d = 0x38 \<or> d = 0xB8 then kb_ALT else 0)"

definition togglecode :: "u8 \<Rightarrow> u32" where
  "togglecode d = (if d = 0x3A then kb_CAPSLOCK else if d = 0x45 then kb_NUMLOCK
     else if d = 0x46 then kb_SCROLLLOCK else 0)"

text \<open>An array initialiser: the listed cells, then the designated ones, zero elsewhere.\<close>

definition table_of :: "u8 list \<Rightarrow> (u8 \<times> u8) list \<Rightarrow> u8 \<Rightarrow> u8" where
  "table_of row0 designated d =
     (if unat d < length row0 then row0 ! unat d
      else case map_of designated d of Some v \<Rightarrow> v | None \<Rightarrow> 0)"

definition ascii :: "string \<Rightarrow> u8 list" where
  "ascii s = map of_char s"

definition keypad_row :: "u8 list" where
  "keypad_row = replicate 13 0 @ ascii ''789-456+1230.'' @ replicate 4 0"

definition normalmap :: "u8 \<Rightarrow> u8" where
  "normalmap = table_of
     ([0, 0x1B] @ ascii ''1234567890-='' @ [8, 9] @ ascii ''qwertyuiop[]'' @ [10, 0] @
      ascii ''asdfghjkl;'' @ [0x27, 0x60, 0, 0x5C] @ ascii ''zxcvbnm,./'' @ [0, 0x2A, 0, 0x20] @
      keypad_row)
     [(0xC7, 0xE0), (0x9C, 10), (0xB5, 0x2F), (0xC8, 0xE2), (0xC9, 0xE6), (0xCB, 0xE4),
      (0xCD, 0xE5), (0xCF, 0xE1), (0xD0, 0xE3), (0xD1, 0xE7), (0xD2, 0xE8), (0xD3, 0xE9)]"

definition shiftmap :: "u8 \<Rightarrow> u8" where
  "shiftmap = table_of
     ([0, 0x1B] @ ascii ''!@#$%^&*()_+'' @ [8, 9] @ ascii ''QWERTYUIOP{}'' @ [10, 0] @
      ascii ''ASDFGHJKL:'' @ [0x22, 0x7E, 0, 0x7C] @ ascii ''ZXCVBNM<>?'' @ [0, 0x2A, 0, 0x20] @
      keypad_row)
     [(0xC7, 0xE0), (0x9C, 10), (0xB5, 0x2F), (0xC8, 0xE2), (0xC9, 0xE6), (0xCB, 0xE4),
      (0xCD, 0xE5), (0xCF, 0xE1), (0xD0, 0xE3), (0xD1, 0xE7), (0xD2, 0xE8), (0xD3, 0xE9)]"

definition key_C :: "char \<Rightarrow> u8" where
  "key_C x = of_char x - 0x40"

definition ctlmap :: "u8 \<Rightarrow> u8" where
  "ctlmap = table_of
     (replicate 16 0 @ map key_C ''QWERTYUIOP'' @ [0, 0, 13, 0] @ map key_C ''ASDFGHJKL'' @
      [0, 0, 0, 0] @ [key_C (CHR 0x5C)] @ map key_C ''ZXCVBNM'' @ [0, 0, key_C (CHR ''/''), 0, 0])
     [(0x97, 0xE0), (0xB5, key_C (CHR ''/'')), (0xC8, 0xE2), (0xC9, 0xE6), (0xCB, 0xE4),
      (0xCD, 0xE5), (0xCF, 0xE1), (0xD0, 0xE3), (0xD1, 0xE7), (0xD2, 0xE8), (0xD3, 0xE9)]"

definition charcode :: "u32 \<Rightarrow> u8 \<Rightarrow> u8" where
  "charcode k = (if k = 0 then normalmap else if k = 1 then shiftmap else ctlmap)"

section \<open>Input devices\<close>

text \<open>
  Each returns \<open>None\<close> for the \<^verbatim>\<open>-1\<close> of an empty device and the character, possibly 0,
  otherwise.
\<close>

definition serial_proc_data :: "console \<Rightarrow> u8 option \<times> console" where
  "serial_proc_data c = (case serial_rx c of [] \<Rightarrow> (None, c)
     | b # bs \<Rightarrow> (Some b, c\<lparr>serial_rx := bs\<rparr>))"

definition kbd_decode :: "u8 \<Rightarrow> u32 \<Rightarrow> u8 \<times> u32 \<times> bool" where
  "kbd_decode data0 shift =
     (if data0 = 0xE0 then (0, shift OR kb_E0ESC, False)
      else if data0 AND 0x80 \<noteq> 0 then
        (let data = (if shift AND kb_E0ESC \<noteq> 0 then data0 else data0 AND 0x7F)
         in (0, shift AND NOT (shiftcode data OR kb_E0ESC), False))
      else
        (let data = (if shift AND kb_E0ESC \<noteq> 0 then data0 OR 0x80 else data0);
             sh0 = (if shift AND kb_E0ESC \<noteq> 0 then shift AND NOT kb_E0ESC else shift);
             sh1 = sh0 OR shiftcode data;
             sh = sh1 XOR togglecode data;
             c0 = charcode (sh AND (kb_CTL OR kb_SHIFT)) data;
             c = (if sh AND kb_CAPSLOCK \<noteq> 0 then
                    (if 0x61 \<le> c0 \<and> c0 \<le> 0x7A then c0 + 0x41 - 0x61
                     else if 0x41 \<le> c0 \<and> c0 \<le> 0x5A then c0 + 0x61 - 0x41 else c0)
                  else c0)
         in (c, sh, NOT sh AND (kb_CTL OR kb_ALT) = 0 \<and> c = KEY_DEL)))"

definition kbd_proc_data :: "console \<Rightarrow> u8 option \<times> console" where
  "kbd_proc_data c = (case kbd_rx c of [] \<Rightarrow> (None, c)
     | b # bs \<Rightarrow> (case kbd_decode b (kbd_shift c) of (ch, sh, rb) \<Rightarrow>
         (Some ch, c\<lparr>kbd_rx := bs, kbd_shift := sh, rebooted := rebooted c \<or> rb\<rparr>)))"

section \<open>The circular input buffer\<close>

definition cons_put :: "u8 \<Rightarrow> console \<Rightarrow> console" where
  "cons_put ch c =
     (let w = Suc (wpos c)
      in c\<lparr>cons_buf := (cons_buf c)(wpos c := ch), wpos := (if w = CONSBUFSIZE then 0 else w)\<rparr>)"

text \<open>The loop has no bound of its own: not returning is \<open>None\<close>.\<close>

partial_function (option) cons_intr ::
  "(console \<Rightarrow> u8 option \<times> console) \<Rightarrow> console \<Rightarrow> console option" where
  "cons_intr proc c =
     (case proc c of
        (None, c') \<Rightarrow> Some c'
      | (Some ch, c') \<Rightarrow> cons_intr proc (if ch = 0 then c' else cons_put ch c'))"

definition serial_intr :: "console \<Rightarrow> console option" where
  "serial_intr c = (if serial_exists c then cons_intr serial_proc_data c else Some c)"

definition kbd_intr :: "console \<Rightarrow> console option" where
  "kbd_intr c = cons_intr kbd_proc_data c"

text \<open>The part of \<^verbatim>\<open>cons_getc\<close> after the two polls.\<close>

definition cons_take :: "console \<Rightarrow> u8 option \<times> console" where
  "cons_take c =
     (if rpos c \<noteq> wpos c then
        (let r = Suc (rpos c)
         in (Some (cons_buf c (rpos c)), c\<lparr>rpos := (if r = CONSBUFSIZE then 0 else r)\<rparr>))
      else (None, c))"

definition cons_getc :: "console \<Rightarrow> (u8 \<times> console) option" where
  "cons_getc c =
     (case serial_intr c of None \<Rightarrow> None
      | Some c1 \<Rightarrow> (case kbd_intr c1 of None \<Rightarrow> None
        | Some c2 \<Rightarrow> (case cons_take c2 of (Some ch, c3) \<Rightarrow> Some (ch, c3)
          | (None, c3) \<Rightarrow> Some (0, c3))))"

section \<open>Output\<close>

definition serial_putc :: "u32 \<Rightarrow> console \<Rightarrow> console" where
  "serial_putc ch c = c\<lparr>serial_tx := serial_tx c @ [ucast ch]\<rparr>"

definition lpt_putc :: "u32 \<Rightarrow> console \<Rightarrow> console" where
  "lpt_putc ch c = c\<lparr>lpt_tx := lpt_tx c @ [ucast ch]\<rparr>"

definition crt_store :: "u16 \<Rightarrow> u16 \<Rightarrow> console \<Rightarrow> console" where
  "crt_store i v c = c\<lparr>crt_buf := (crt_buf c)(unat i := v)\<rparr>"

definition crt_scroll :: "console \<Rightarrow> console" where
  "crt_scroll c =
     (if CRT_SIZE \<le> crt_pos c then
        c\<lparr>crt_buf := (\<lambda>i. if i < unat (CRT_SIZE - CRT_COLS) then crt_buf c (i + unat CRT_COLS)
                           else if i < unat CRT_SIZE then 0x0700 OR 0x20 else crt_buf c i),
          crt_pos := crt_pos c - CRT_COLS\<rparr>
      else c)"

text \<open>
  One character on the screen. A tab prints five blanks through the whole console, which for
  a blank is \<open>serial\<close>, \<open>lpt\<close> and the default case below.
\<close>

definition cga_attr :: "u32 \<Rightarrow> u32" where
  "cga_attr ch = (if ch AND NOT 0xFF = 0 then ch OR 0x0700 else ch)"

definition cga_plain :: "u32 \<Rightarrow> console \<Rightarrow> console" where
  "cga_plain ch c = crt_store (crt_pos c) (ucast ch) c\<lparr>crt_pos := crt_pos c + 1\<rparr>"

definition cons_blank :: "console \<Rightarrow> console" where
  "cons_blank c = crt_scroll (cga_plain (cga_attr 0x20) (lpt_putc 0x20 (serial_putc 0x20 c)))"

definition cga_putc :: "u32 \<Rightarrow> console \<Rightarrow> console" where
  "cga_putc ch0 c =
     (let ch = cga_attr ch0; k = ch AND 0xFF in
      crt_scroll
        (if k = 8 then
           (if 0 < crt_pos c then
              crt_store (crt_pos c - 1) (ucast (ch AND NOT 0xFF OR 0x20)) c\<lparr>crt_pos := crt_pos c - 1\<rparr>
            else c)
         else if k = 10 then
           (let p = crt_pos c + CRT_COLS in c\<lparr>crt_pos := p - p mod CRT_COLS\<rparr>)
         else if k = 13 then c\<lparr>crt_pos := crt_pos c - crt_pos c mod CRT_COLS\<rparr>
         else if k = 9 then cons_blank (cons_blank (cons_blank (cons_blank (cons_blank c))))
         else cga_plain ch c))"

definition cons_putc :: "u32 \<Rightarrow> console \<Rightarrow> console" where
  "cons_putc ch c = cga_putc ch (lpt_putc ch (serial_putc ch c))"

definition cputchar :: "u32 \<Rightarrow> console \<Rightarrow> console" where
  "cputchar ch c = cons_putc ch c"

lemma cons_blank_is_cons_putc: "cons_blank c = cons_putc 0x20 c"
  by (simp add: cons_blank_def cons_putc_def cga_putc_def cga_attr_def)

section \<open>The buffer is a bounded queue\<close>

definition cons_inv :: "console \<Rightarrow> bool" where
  "cons_inv c \<longleftrightarrow> rpos c < CONSBUFSIZE \<and> wpos c < CONSBUFSIZE"

definition pending :: "console \<Rightarrow> u8 list" where
  "pending c =
     (if rpos c \<le> wpos c then map (cons_buf c) [rpos c ..< wpos c]
      else map (cons_buf c) ([rpos c ..< CONSBUFSIZE] @ [0 ..< wpos c]))"

lemma length_pending:
  "cons_inv c \<Longrightarrow> length (pending c) = (wpos c + CONSBUFSIZE - rpos c) mod CONSBUFSIZE"
  by (auto simp: pending_def cons_inv_def mod_if kconst)

lemma pending_less: "cons_inv c \<Longrightarrow> length (pending c) < CONSBUFSIZE"
  by (simp add: length_pending kconst)

lemma map_upd_upt: "i \<notin> {a ..< b} \<Longrightarrow> map (f(i := v)) [a ..< b] = map f [a ..< b]"
  by auto

lemma cons_put_inv: "cons_inv c \<Longrightarrow> cons_inv (cons_put ch c)"
  by (auto simp: cons_inv_def cons_put_def Let_def kconst)

lemma pending_cons_put:
  assumes inv: "cons_inv c" and room: "length (pending c) < CONSBUFSIZE - 1"
  shows "pending (cons_put ch c) = pending c @ [ch]"
proof -
  consider (low) "rpos c \<le> wpos c" "Suc (wpos c) < CONSBUFSIZE"
    | (edge) "0 < rpos c" "rpos c \<le> wpos c" "Suc (wpos c) = CONSBUFSIZE"
    | (wrap) "wpos c < rpos c" "Suc (wpos c) < rpos c"
    using inv room
    by (cases "rpos c \<le> wpos c"; cases "Suc (wpos c) = CONSBUFSIZE"; cases "rpos c")
       (auto simp: cons_inv_def pending_def kconst)
  then show ?thesis
  proof cases
    case low
    then show ?thesis by (simp add: pending_def cons_put_def Let_def map_upd_upt)
  next
    case edge
    then have "[rpos c ..< CONSBUFSIZE] = [rpos c ..< wpos c] @ [wpos c]"
      by (metis upt_Suc_append)
    with edge show ?thesis by (simp add: pending_def cons_put_def Let_def map_upd_upt)
  next
    case wrap
    with inv show ?thesis
      by (simp add: pending_def cons_put_def Let_def map_upd_upt cons_inv_def)
  qed
qed

lemma cons_take_inv: "cons_inv c \<Longrightarrow> cons_inv (snd (cons_take c))"
  by (auto simp: cons_inv_def cons_take_def Let_def kconst)

lemma pending_Nil_iff: "cons_inv c \<Longrightarrow> pending c = [] \<longleftrightarrow> rpos c = wpos c"
  by (auto simp: pending_def cons_inv_def)

lemma cons_take_pending:
  assumes inv: "cons_inv c" and ne: "pending c = x # xs"
  shows "fst (cons_take c) = Some x \<and> pending (snd (cons_take c)) = xs"
proof -
  have d: "rpos c \<noteq> wpos c" using inv ne pending_Nil_iff [of c] by auto
  consider (low) "rpos c < wpos c" | (edge) "wpos c < rpos c" "Suc (rpos c) = CONSBUFSIZE"
    | (wrap) "wpos c < rpos c" "Suc (rpos c) < CONSBUFSIZE"
    using d inv by (fastforce simp: cons_inv_def)
  then show ?thesis
  proof cases
    case low
    then show ?thesis using ne inv
      by (auto simp: pending_def cons_take_def Let_def upt_conv_Cons cons_inv_def)
  next
    case edge
    then show ?thesis using ne inv
      by (auto simp: pending_def cons_take_def Let_def upt_conv_Cons cons_inv_def)
  next
    case wrap
    then show ?thesis using ne inv
      by (auto simp: pending_def cons_take_def Let_def upt_conv_Cons cons_inv_def)
  qed
qed

interpretation consq: bounded_fifo cons_put cons_take pending cons_inv "CONSBUFSIZE - 1"
proof unfold_locales
  fix c :: console and ch
  show "cons_inv c \<Longrightarrow> cons_inv (cons_put ch c)" by (rule cons_put_inv)
  show "cons_inv c \<Longrightarrow> cons_inv (snd (cons_take c))" by (rule cons_take_inv)
  show "cons_inv c \<Longrightarrow> length (pending c) < CONSBUFSIZE - 1 \<Longrightarrow>
      pending (cons_put ch c) = pending c @ [ch]" by (rule pending_cons_put)
  show "cons_inv c \<Longrightarrow> pending c = [] \<Longrightarrow> cons_take c = (None, c)"
    by (simp add: pending_Nil_iff cons_take_def)
  show "cons_inv c \<Longrightarrow> pending c = x # xs \<Longrightarrow>
      fst (cons_take c) = Some x \<and> pending (snd (cons_take c)) = xs" for x xs
    by (rule cons_take_pending)
qed

text \<open>One character too many makes the full buffer look empty: all 512 are lost.\<close>

lemma pending_overflow:
  assumes inv: "cons_inv c" and full: "length (pending c) = CONSBUFSIZE - 1"
  shows "pending (cons_put ch c) = []"
proof -
  have "wpos (cons_put ch c) = rpos c" using inv full
    by (auto simp: length_pending cons_inv_def cons_put_def Let_def kconst mod_if split: if_splits)
  then show ?thesis
    by (simp add: pending_Nil_iff cons_put_inv [OF inv]) (simp add: cons_put_def Let_def)
qed

section \<open>Draining a device\<close>

lemma cons_put_frame [simp]:
  "serial_rx (cons_put ch c) = serial_rx c" "kbd_rx (cons_put ch c) = kbd_rx c"
  "kbd_shift (cons_put ch c) = kbd_shift c" "serial_exists (cons_put ch c) = serial_exists c"
  "rpos (cons_put ch c) = rpos c" "rebooted (cons_put ch c) = rebooted c"
  "crt_buf (cons_put ch c) = crt_buf c" "crt_pos (cons_put ch c) = crt_pos c"
  by (simp_all add: cons_put_def Let_def)

lemma fold_cons_put_frame [simp]:
  "serial_rx (fold cons_put xs c) = serial_rx c" "kbd_rx (fold cons_put xs c) = kbd_rx c"
  "kbd_shift (fold cons_put xs c) = kbd_shift c"
  "serial_exists (fold cons_put xs c) = serial_exists c"
  by (induction xs arbitrary: c) simp_all

lemma cons_put_rx:
  "cons_put ch (c\<lparr>serial_rx := bs\<rparr>) = cons_put ch c\<lparr>serial_rx := bs\<rparr>"
  "cons_put ch (c\<lparr>kbd_rx := bs, kbd_shift := sh, rebooted := r\<rparr>)
     = cons_put ch c\<lparr>kbd_rx := bs, kbd_shift := sh, rebooted := r\<rparr>"
  by (simp_all add: cons_put_def Let_def)

lemma pending_rx [simp]:
  "pending (c\<lparr>serial_rx := bs\<rparr>) = pending c"
  "pending (c\<lparr>kbd_rx := bs, kbd_shift := sh, rebooted := r\<rparr>) = pending c"
  "cons_inv (c\<lparr>serial_rx := bs\<rparr>) = cons_inv c"
  "cons_inv (c\<lparr>kbd_rx := bs, kbd_shift := sh, rebooted := r\<rparr>) = cons_inv c"
  by (simp_all add: pending_def cons_inv_def)

text \<open>What the keyboard sends for a sequence of scan codes, and the shift state it ends in.\<close>

fun kbd_stream :: "u8 list \<Rightarrow> u32 \<Rightarrow> bool \<Rightarrow> u8 list \<times> u32 \<times> bool" where
  "kbd_stream [] sh rb = ([], sh, rb)"
| "kbd_stream (b # bs) sh rb =
     (case kbd_decode b sh of (ch, sh1, rb1) \<Rightarrow>
        case kbd_stream bs sh1 (rb \<or> rb1) of (chs, r) \<Rightarrow> (if ch = 0 then chs else ch # chs, r))"

definition typed_serial :: "console \<Rightarrow> u8 list" where
  "typed_serial c = (if serial_exists c then filter (\<lambda>b. b \<noteq> 0) (serial_rx c) else [])"

definition typed_kbd :: "console \<Rightarrow> u8 list" where
  "typed_kbd c = fst (kbd_stream (kbd_rx c) (kbd_shift c) (rebooted c))"

lemma cons_intr_serial:
  "cons_intr serial_proc_data c
     = Some (fold cons_put (filter (\<lambda>b. b \<noteq> 0) (serial_rx c)) c\<lparr>serial_rx := []\<rparr>)"
proof (induction "serial_rx c" arbitrary: c)
  case Nil
  then show ?case by (simp add: cons_intr.simps serial_proc_data_def)
next
  case (Cons b bs)
  then have rx: "serial_rx c = b # bs" by simp
  let ?d = "if b = 0 then c\<lparr>serial_rx := bs\<rparr> else cons_put b (c\<lparr>serial_rx := bs\<rparr>)"
  have "cons_intr serial_proc_data c = cons_intr serial_proc_data ?d"
    by (subst cons_intr.simps) (simp add: serial_proc_data_def rx)
  also have "\<dots> = Some (fold cons_put (filter (\<lambda>b. b \<noteq> 0) bs) ?d\<lparr>serial_rx := []\<rparr>)"
    using Cons.hyps(1) [of ?d] by simp
  also have "fold cons_put (filter (\<lambda>b. b \<noteq> 0) bs) ?d
      = fold cons_put (filter (\<lambda>b. b \<noteq> 0) (b # bs)) c\<lparr>serial_rx := bs\<rparr>"
  proof -
    have "fold cons_put xs (e\<lparr>serial_rx := bs\<rparr>) = fold cons_put xs e\<lparr>serial_rx := bs\<rparr>" for xs e
      by (induction xs arbitrary: e) (simp_all add: cons_put_rx)
    then show ?thesis by (simp add: cons_put_rx)
  qed
  finally show ?case by (simp add: rx)
qed

lemma cons_intr_kbd:
  "cons_intr kbd_proc_data c
     = (case kbd_stream (kbd_rx c) (kbd_shift c) (rebooted c) of (chs, sh, rb) \<Rightarrow>
          Some (fold cons_put chs c\<lparr>kbd_rx := [], kbd_shift := sh, rebooted := rb\<rparr>))"
proof (induction "kbd_rx c" arbitrary: c)
  case Nil
  then show ?case by (simp add: cons_intr.simps kbd_proc_data_def)
next
  case (Cons b bs)
  then have rx: "kbd_rx c = b # bs" by simp
  obtain ch sh rb where dec: "kbd_decode b (kbd_shift c) = (ch, sh, rb)"
    by (metis prod_cases3)
  define e where "e = c\<lparr>kbd_rx := bs, kbd_shift := sh, rebooted := rebooted c \<or> rb\<rparr>"
  define d where "d = (if ch = 0 then e else cons_put ch e)"
  obtain chs sh' rb' where st: "kbd_stream bs sh (rebooted c \<or> rb) = (chs, sh', rb')"
    by (metis prod_cases3)
  have "cons_intr kbd_proc_data c = cons_intr kbd_proc_data d"
    by (subst cons_intr.simps) (simp add: kbd_proc_data_def rx dec d_def e_def)
  also have "\<dots> = Some (fold cons_put chs d\<lparr>kbd_rx := [], kbd_shift := sh', rebooted := rb'\<rparr>)"
    using Cons.hyps(1) [of d] st by (simp add: d_def e_def)
  also have "fold cons_put chs d = fold cons_put (if ch = 0 then chs else ch # chs) c
      \<lparr>kbd_rx := bs, kbd_shift := sh, rebooted := rebooted c \<or> rb\<rparr>"
  proof -
    have "fold cons_put xs (f\<lparr>kbd_rx := bs, kbd_shift := sh, rebooted := rebooted c \<or> rb\<rparr>)
        = fold cons_put xs f\<lparr>kbd_rx := bs, kbd_shift := sh, rebooted := rebooted c \<or> rb\<rparr>" for xs f
      by (induction xs arbitrary: f) (simp_all add: cons_put_rx)
    then show ?thesis by (simp add: d_def e_def cons_put_rx)
  qed
  finally show ?case by (simp add: rx dec st)
qed

definition all_typed :: "console \<Rightarrow> u8 list" where
  "all_typed c = pending c @ typed_serial c @ typed_kbd c"

lemma cons_getc_returns: "\<exists>ch c'. cons_getc c = Some (ch, c')"
  by (simp add: cons_getc_def serial_intr_def kbd_intr_def cons_intr_serial cons_intr_kbd
      split: prod.splits option.splits)

lemma cons_getc_steps:
  assumes inv: "cons_inv c" and room: "length (all_typed c) < CONSBUFSIZE"
  shows "\<exists>c2. cons_inv c2 \<and> pending c2 = all_typed c \<and> serial_rx c2 = (if serial_exists c then [] else serial_rx c)
     \<and> kbd_rx c2 = [] \<and> cons_getc c
       = (case cons_take c2 of (Some ch, c3) \<Rightarrow> Some (ch, c3) | (None, c3) \<Rightarrow> Some (0, c3))"
proof -
  obtain chs sh rb where st: "kbd_stream (kbd_rx c) (kbd_shift c) (rebooted c) = (chs, sh, rb)"
    by (metis prod_cases3)
  define c1 where "c1 = (if serial_exists c
    then fold cons_put (typed_serial c) c\<lparr>serial_rx := []\<rparr> else c)"
  define c2 where "c2 = fold cons_put chs c1\<lparr>kbd_rx := [], kbd_shift := sh, rebooted := rb\<rparr>"
  have len: "length (pending c) + length (typed_serial c) + length chs \<le> CONSBUFSIZE - 1"
    using room by (simp add: all_typed_def typed_kbd_def st kconst)
  have c1: "cons_inv c1 \<and> pending c1 = pending c @ typed_serial c"
    using consq.fold_put [OF inv, of "typed_serial c"] len inv
    by (auto simp: c1_def typed_serial_def)
  then have c2: "cons_inv c2 \<and> pending c2 = all_typed c"
    using consq.fold_put [of c1 chs] len by (simp add: c2_def all_typed_def typed_kbd_def st)
  have s1: "serial_intr c = Some c1"
    by (simp add: serial_intr_def cons_intr_serial c1_def typed_serial_def)
  have fr: "rebooted (fold cons_put xs e) = rebooted e" for xs e
    by (induction xs arbitrary: e) simp_all
  have s2: "kbd_intr c1 = Some c2"
    by (simp add: kbd_intr_def cons_intr_kbd c2_def st c1_def fr split: if_splits)
  from c2 s1 s2 show ?thesis
    by (intro exI [of _ c2]) (auto simp: cons_getc_def c2_def c1_def split: option.splits prod.splits)
qed

section \<open>The screen\<close>

lemma u16_ge0 [simp]: "(0 :: u16) \<le> w" by simp

lemma crt_scroll_pos:
  "unat (crt_pos c) < 2080 \<Longrightarrow> unat (crt_pos (crt_scroll c)) < 2000"
  by (auto simp: crt_scroll_def kconst word_le_nat_alt unat_sub)

lemma cga_plain_pos:
  "unat (crt_pos c) < 2000 \<Longrightarrow> unat (crt_pos (cga_plain ch c)) < 2001"
  by (simp add: cga_plain_def crt_store_def unat_word_ariths)

lemma put_tx_crt [simp]:
  "crt_pos (serial_putc ch c) = crt_pos c" "crt_pos (lpt_putc ch c) = crt_pos c"
  "crt_buf (serial_putc ch c) = crt_buf c" "crt_buf (lpt_putc ch c) = crt_buf c"
  by (simp_all add: serial_putc_def lpt_putc_def)

lemma cons_blank_pos: "unat (crt_pos c) < 2000 \<Longrightarrow> unat (crt_pos (cons_blank c)) < 2000"
  using cga_plain_pos [of "lpt_putc 0x20 (serial_putc 0x20 c)" "cga_attr 0x20"]
  by (simp add: cons_blank_def crt_scroll_pos)

lemma cga_putc_pos:
  assumes lt: "unat (crt_pos c) < 2000"
  shows "unat (crt_pos (cga_putc ch c)) < 2000"
proof -
  have m: "unat (p - p mod 80) \<le> unat p" for p :: u16
    by (simp add: unat_sub word_le_nat_alt unat_mod)
  have a: "unat (crt_pos c + 80) = unat (crt_pos c) + 80" using lt by (simp add: unat_word_ariths)
  have b: "unat (crt_pos c - 1) < 2080" if "0 < crt_pos c"
    using lt that by (simp add: unat_sub word_le_nat_alt word_less_nat_alt)
  have n: "unat (crt_pos c + 80 - (crt_pos c + 80) mod 80) < 2080"
    using m [of "crt_pos c + 80"] a lt by linarith
  have r: "unat (crt_pos c - crt_pos c mod 80) < 2080" using m [of "crt_pos c"] lt by linarith
  have t: "unat (crt_pos (cons_blank (cons_blank (cons_blank (cons_blank (cons_blank c)))))) < 2080"
    by (rule less_trans [OF cons_blank_pos]) (simp_all add: cons_blank_pos lt)
  have d: "unat (crt_pos (cga_plain x c)) < 2080" for x using cga_plain_pos [OF lt, of x] by linarith
  show ?thesis
    unfolding cga_putc_def Let_def CRT_COLS_def
    by (rule crt_scroll_pos) (use b n r t d lt in \<open>auto simp: crt_store_def\<close>)
qed

lemma cputchar_pos: "unat (crt_pos c) < 2000 \<Longrightarrow> unat (crt_pos (cputchar ch c)) < 2000"
  using cga_putc_pos [of "lpt_putc ch (serial_putc ch c)"] by (simp add: cputchar_def cons_putc_def)

lemma fold_cputchar_pos:
  "unat (crt_pos c) < 2000 \<Longrightarrow> unat (crt_pos (fold cputchar chs c)) < 2000"
  by (induction chs arbitrary: c) (simp_all add: cputchar_pos)

section \<open>Reading characters\<close>

lemma cons_getc_delivers:
  assumes inv: "cons_inv c" and room: "length (all_typed c) < CONSBUFSIZE"
  shows "\<exists>ch c'. cons_getc c = Some (ch, c') \<and> cons_inv c'
    \<and> (case all_typed c of [] \<Rightarrow> ch = 0 \<and> pending c' = [] | x # xs \<Rightarrow> ch = x \<and> pending c' = xs)"
proof -
  obtain c2 where c2: "cons_inv c2" "pending c2 = all_typed c" "cons_getc c
       = (case cons_take c2 of (Some ch, c3) \<Rightarrow> Some (ch, c3) | (None, c3) \<Rightarrow> Some (0, c3))"
    using cons_getc_steps [OF assms] by blast
  show ?thesis
  proof (cases "all_typed c")
    case Nil
    then show ?thesis using c2 consq.get_Nil [OF c2(1)] by simp
  next
    case (Cons x xs)
    then show ?thesis
      using c2 cons_take_pending [OF c2(1), of x xs] cons_take_inv [OF c2(1)]
      by (auto split: prod.splits)
  qed
qed

end
