(* ===== verification/Jos_State.thy ===== *)
theory Jos_State
  imports Jos_Mmu Jos_Console
begin

text \<open>
  The global state of the kernel: physical memory and the \<^verbatim>\<open>struct PageInfo\<close> array of
  \<^verbatim>\<open>kern/pmap.c\<close>, the \<^verbatim>\<open>struct Env\<close> array of \<^verbatim>\<open>kern/env.c\<close>, the per-CPU
  records of \<^verbatim>\<open>kern/cpu.h\<close>, the big kernel lock and the hardware registers the code reads
  and writes. Pointers into the arrays are indices, a null pointer is \<open>None\<close>. Physical
  memory is a function from frame number and word index (0 to 1023) to 32-bit words; the kernel
  virtual address of a page-aligned object is represented by its frame number, so a
  \<^verbatim>\<open>pde_t *pgdir\<close> is a frame and a \<^verbatim>\<open>pte_t *\<close> a frame with an index.
\<close>

section \<open>Structures\<close>

record PageInfo =
  pp_link :: "nat option"
  pp_ref :: u16

record PushRegs =
  reg_edi :: u32
  reg_esi :: u32
  reg_ebp :: u32
  reg_oesp :: u32
  reg_ebx :: u32
  reg_edx :: u32
  reg_ecx :: u32
  reg_eax :: u32

record Trapframe =
  tf_regs :: PushRegs
  tf_es :: u16
  tf_ds :: u16
  tf_trapno :: u32
  tf_err :: u32
  tf_eip :: u32
  tf_cs :: u16
  tf_eflags :: u32
  tf_esp :: u32
  tf_ss :: u16

record UTrapframe =
  utf_fault_va :: u32
  utf_err :: u32
  utf_regs :: PushRegs
  utf_eip :: u32
  utf_eflags :: u32
  utf_esp :: u32

datatype EnvStatus = ENV_FREE | ENV_DYING | ENV_RUNNABLE | ENV_RUNNING | ENV_NOT_RUNNABLE

datatype EnvType = ENV_TYPE_USER | ENV_TYPE_IDLE | ENV_TYPE_FS | ENV_TYPE_GUEST

record Env =
  env_tf :: Trapframe
  env_link :: "nat option"
  env_id :: i32
  env_parent_id :: i32
  env_type :: EnvType
  env_status :: EnvStatus
  env_runs :: u32
  env_cpunum :: nat
  env_pgdir :: "nat option"
  env_pgfault_upcall :: u32
  env_ipc_recving :: bool
  env_ipc_dstva :: u32
  env_ipc_value :: u32
  env_ipc_from :: i32
  env_ipc_perm :: u32

datatype CpuStatus = CPU_UNUSED | CPU_STARTED | CPU_HALTED

record CpuInfo =
  cpu_status :: CpuStatus
  cpu_env :: "nat option"

record spinlock =
  locked :: bool
  lk_cpu :: "nat option"

text \<open>The enumerations carry the numeric order of their C values.\<close>

fun status_code :: "EnvStatus \<Rightarrow> u32" where
  "status_code ENV_FREE = 0"
| "status_code ENV_DYING = 1"
| "status_code ENV_RUNNABLE = 2"
| "status_code ENV_RUNNING = 3"
| "status_code ENV_NOT_RUNNABLE = 4"

lemma status_code_inj: "status_code a = status_code b \<Longrightarrow> a = b"
  by (cases a; cases b) simp_all

instantiation EnvStatus :: linorder
begin

definition less_eq_EnvStatus :: "EnvStatus \<Rightarrow> EnvStatus \<Rightarrow> bool" where
  "less_eq_EnvStatus a b \<longleftrightarrow> status_code a \<le> status_code b"

definition less_EnvStatus :: "EnvStatus \<Rightarrow> EnvStatus \<Rightarrow> bool" where
  "less_EnvStatus a b \<longleftrightarrow> status_code a < status_code b"

instance
  by standard (auto simp: less_eq_EnvStatus_def less_EnvStatus_def intro: status_code_inj)

end

section \<open>Kernel state\<close>

record kstate =
  npages :: nat
  npages_basemem :: nat
  link_end :: u32
  nextfree :: u32
  pages :: "nat \<Rightarrow> PageInfo"
  page_free_list :: "nat option"
  ram :: "nat \<Rightarrow> nat \<Rightarrow> u32"
  kern_pgdir :: nat
  mmio_base :: u32
  user_mem_check_addr :: u32
  tlb_flushes :: "u32 list"
  envs :: "nat \<Rightarrow> Env"
  env_free_list :: "nat option"
  cpus :: "nat \<Rightarrow> CpuInfo"
  cpunum :: nat
  kernel_lock :: spinlock
  cr3 :: nat
  cr2 :: u32
  kcons :: console

text \<open>
  How kernel code stops without returning to its caller: a panic (which enters the monitor for
  good), the \<^verbatim>\<open>iret\<close> into an environment, the halt loop, or the monitor loop of an idle
  machine. \<open>BadPointer\<close> is a C access outside an array or through a null pointer, and
  \<open>Spinning\<close> a processor that waits for a lock another one holds.
\<close>

datatype kstop = Panic string | EnterUser nat | CpuHalt | InMonitor | BadPointer string | Spinning | KstackOverflow

type_synonym 'a kernel = "(kstate, kstop, 'a) prog"

definition panic :: "string \<Rightarrow> 'a kernel" where
  "panic msg = stop (Panic msg)"

lemma panic_apply [simp]: "panic msg s = (Stop (Panic msg), s)"
  by (simp add: panic_def)

definition curenv :: "kstate \<Rightarrow> nat option" where
  "curenv s = cpu_env (cpus s (cpunum s))"

definition set_curenv :: "nat option \<Rightarrow> kstate \<Rightarrow> kstate" where
  "set_curenv e s = s\<lparr>cpus := (cpus s)(cpunum s := cpus s (cpunum s)\<lparr>cpu_env := e\<rparr>)\<rparr>"

definition upd_page :: "nat \<Rightarrow> (PageInfo \<Rightarrow> PageInfo) \<Rightarrow> kstate \<Rightarrow> kstate" where
  "upd_page p f s = s\<lparr>pages := (pages s)(p := f (pages s p))\<rparr>"

definition upd_env :: "nat \<Rightarrow> (Env \<Rightarrow> Env) \<Rightarrow> kstate \<Rightarrow> kstate" where
  "upd_env e f s = s\<lparr>envs := (envs s)(e := f (envs s e))\<rparr>"

definition store_word :: "nat \<Rightarrow> nat \<Rightarrow> u32 \<Rightarrow> kstate \<Rightarrow> kstate" where
  "store_word f i v s = s\<lparr>ram := (ram s)(f := (ram s f)(i := v))\<rparr>"

definition zero_frame :: "nat \<Rightarrow> kstate \<Rightarrow> kstate" where
  "zero_frame f s = s\<lparr>ram := (ram s)(f := (\<lambda>_. 0))\<rparr>"

text \<open>Access to \<^verbatim>\<open>*curenv\<close>: a null \<^verbatim>\<open>curenv\<close> is a bad pointer.\<close>

definition get_curenv :: "nat kernel" where
  "get_curenv = (\<lambda>s. case curenv s of Some e \<Rightarrow> (Ret e, s) | None \<Rightarrow> (Stop (BadPointer ''curenv''), s))"

definition NENV :: nat where [kconst]: "NENV = 1024"
definition NCPU :: nat where [kconst]: "NCPU = 1"
definition LOG2NENV :: nat where [kconst]: "LOG2NENV = 10"
definition ENVGENSHIFT :: nat where [kconst]: "ENVGENSHIFT = 12"

definition ENVX :: "i32 \<Rightarrow> nat" where
  "ENVX envid = unat (envid AND (of_nat NENV - 1))"

lemma ENVX_eq: "ENVX envid = unat envid mod 1024"
proof -
  have "(of_nat NENV - 1 :: i32) = mask 10" by (simp add: kconst mask_eq_exp_minus_1)
  then show ?thesis by (simp only: ENVX_def unat_and_mask) simp
qed

lemma ENVX_less [simp]: "ENVX envid < NENV"
  by (simp add: ENVX_eq kconst)

section \<open>Frame lemmas of the state updates\<close>

lemma upd_page_simps [simp]:
  "pages (upd_page p f s) = (pages s)(p := f (pages s p))"
  "npages (upd_page p f s) = npages s" "page_free_list (upd_page p f s) = page_free_list s"
  "ram (upd_page p f s) = ram s" "kern_pgdir (upd_page p f s) = kern_pgdir s"
  "envs (upd_page p f s) = envs s" "cpus (upd_page p f s) = cpus s"
  "cpunum (upd_page p f s) = cpunum s" "env_free_list (upd_page p f s) = env_free_list s"
  "nextfree (upd_page p f s) = nextfree s" "mmio_base (upd_page p f s) = mmio_base s"
  by (simp_all add: upd_page_def)

lemma upd_env_simps [simp]:
  "envs (upd_env e f s) = (envs s)(e := f (envs s e))"
  "npages (upd_env e f s) = npages s" "page_free_list (upd_env e f s) = page_free_list s"
  "ram (upd_env e f s) = ram s" "kern_pgdir (upd_env e f s) = kern_pgdir s"
  "pages (upd_env e f s) = pages s" "cpus (upd_env e f s) = cpus s"
  "cpunum (upd_env e f s) = cpunum s" "env_free_list (upd_env e f s) = env_free_list s"
  "nextfree (upd_env e f s) = nextfree s" "mmio_base (upd_env e f s) = mmio_base s"
  by (simp_all add: upd_env_def)

lemma store_word_simps [simp]:
  "ram (store_word f i v s) = (ram s)(f := (ram s f)(i := v))"
  "npages (store_word f i v s) = npages s" "page_free_list (store_word f i v s) = page_free_list s"
  "pages (store_word f i v s) = pages s" "kern_pgdir (store_word f i v s) = kern_pgdir s"
  "envs (store_word f i v s) = envs s" "cpus (store_word f i v s) = cpus s"
  "cpunum (store_word f i v s) = cpunum s" "env_free_list (store_word f i v s) = env_free_list s"
  "nextfree (store_word f i v s) = nextfree s" "mmio_base (store_word f i v s) = mmio_base s"
  by (simp_all add: store_word_def)

lemma zero_frame_simps [simp]:
  "ram (zero_frame f s) = (ram s)(f := (\<lambda>_. 0))"
  "npages (zero_frame f s) = npages s" "page_free_list (zero_frame f s) = page_free_list s"
  "pages (zero_frame f s) = pages s" "kern_pgdir (zero_frame f s) = kern_pgdir s"
  "envs (zero_frame f s) = envs s" "cpus (zero_frame f s) = cpus s"
  "cpunum (zero_frame f s) = cpunum s" "env_free_list (zero_frame f s) = env_free_list s"
  "nextfree (zero_frame f s) = nextfree s" "mmio_base (zero_frame f s) = mmio_base s"
  by (simp_all add: zero_frame_def)

lemma curenv_simps [simp]:
  "curenv (upd_page p f s) = curenv s" "curenv (upd_env e g s) = curenv s"
  "curenv (store_word a i v s) = curenv s" "curenv (zero_frame a s) = curenv s"
  "curenv (s\<lparr>page_free_list := l\<rparr>) = curenv s" "curenv (s\<lparr>tlb_flushes := fl\<rparr>) = curenv s"
  by (simp_all add: curenv_def)

end
