(* ===== verification/Jos_Pmap.thy ===== *)
theory Jos_Pmap
  imports Jos_State
begin

text \<open>
  Physical and virtual memory, \<^verbatim>\<open>kern/pmap.c\<close> and the inline functions of
  \<^verbatim>\<open>kern/pmap.h\<close>: boot-time allocation, the page free list with reference counts, the
  two-level page tables and the checks of user pointers. This theory holds the definitions and
  the facts that need no invariant; \<open>Jos_Pmap_Inv\<close> holds the invariant and what follows.
\<close>

section \<open>Address conversions\<close>

definition PADDR :: "u32 \<Rightarrow> u32 kernel" where
  "PADDR kva = (if kva < KERNBASE then panic ''PADDR called with invalid kva''
                else ret (kva - KERNBASE))"

text \<open>\<^verbatim>\<open>KADDR\<close> of a page-aligned physical address: the frame behind the virtual address.\<close>

definition KADDR :: "u32 \<Rightarrow> nat kernel" where
  "KADDR pa = (\<lambda>s. if npages s \<le> PGNUM pa then panic ''KADDR called with invalid pa'' s
                    else (Ret (PGNUM pa), s))"

definition page2pa :: "nat \<Rightarrow> u32" where
  "page2pa pp = push_bit 12 (of_nat pp)"

definition pa2page :: "u32 \<Rightarrow> nat kernel" where
  "pa2page pa = (\<lambda>s. if npages s \<le> PGNUM pa then panic ''pa2page called with invalid pa'' s
                      else (Ret (PGNUM pa), s))"

definition page2kva :: "nat \<Rightarrow> nat kernel" where
  "page2kva pp = KADDR (page2pa pp)"

section \<open>Detecting memory\<close>

text \<open>\<open>cmos r\<close> is the byte register \<open>r\<close> of the clock chip returns.\<close>

definition nvram_read :: "(nat \<Rightarrow> u8) \<Rightarrow> nat \<Rightarrow> u32" where
  "nvram_read cmos r = ucast (cmos r) OR push_bit 8 (ucast (cmos (r + 1)))"

definition NVRAM_BASELO :: nat where [kconst]: "NVRAM_BASELO = 0x15"
definition NVRAM_EXTLO :: nat where [kconst]: "NVRAM_EXTLO = 0x17"

definition i386_detect_memory :: "(nat \<Rightarrow> u8) \<Rightarrow> unit kernel" where
  "i386_detect_memory cmos =
     (let base = unat (nvram_read cmos NVRAM_BASELO * 1024 div PGSIZE);
          ext = unat (nvram_read cmos NVRAM_EXTLO * 1024 div PGSIZE)
      in modifyM (\<lambda>s. s\<lparr>npages_basemem := base,
           npages := (if ext \<noteq> 0 then unat (EXTPHYSMEM div PGSIZE) + ext else base)\<rparr>))"

section \<open>Boot-time allocation\<close>

definition boot_alloc :: "u32 \<Rightarrow> u32 kernel" where
  "boot_alloc n =
     thenM (modifyM (\<lambda>s. if nextfree s = 0 then s\<lparr>nextfree := ROUNDUP (link_end s) PGSIZE\<rparr> else s))
       (if 0 < n then
          bindM (getsM nextfree) (\<lambda>final.
            let next = final + ROUNDUP n PGSIZE in
            thenM (modifyM (\<lambda>s. s\<lparr>nextfree := next\<rparr>))
              (if 0xF0400000 < next then panic ''Out of memory'' else ret final))
        else getsM nextfree)"

section \<open>Page allocation\<close>

definition link_free_page :: "nat \<Rightarrow> kstate \<Rightarrow> kstate" where
  "link_free_page i s =
     upd_page i (\<lambda>_. \<lparr>pp_link = page_free_list s, pp_ref = 0\<rparr>) s\<lparr>page_free_list := Some i\<rparr>"

definition page_init_range :: "nat list \<Rightarrow> unit kernel" where
  "page_init_range is =
     forM is (\<lambda>i. whenM (i \<noteq> unat (MPENTRY_PADDR div PGSIZE)) (modifyM (link_free_page i)))"

definition page_init :: "unit kernel" where
  "page_init =
     bindM (getsM npages_basemem) (\<lambda>base.
     thenM (page_init_range [1 ..< base])
     (bindM (boot_alloc 0) (\<lambda>free_mem.
      bindM (PADDR free_mem) (\<lambda>pa.
      bindM (getsM npages) (\<lambda>n.
        page_init_range
          [unat (ROUNDUP EXTPHYSMEM PGSIZE div PGSIZE) + unat (pa div PGSIZE) ..< n])))))"

definition ALLOC_ZERO :: u32 where [kconst]: "ALLOC_ZERO = 1"

definition page_alloc :: "u32 \<Rightarrow> nat option kernel" where
  "page_alloc alloc_flags =
     bindM (getsM page_free_list) (\<lambda>res.
       case res of
         Some p \<Rightarrow>
           thenM (modifyM (\<lambda>s. s\<lparr>page_free_list := pp_link (pages s p)\<rparr>))
           (thenM (modifyM (upd_page p (\<lambda>pg. pg\<lparr>pp_link := None\<rparr>)))
           (bindM (page2kva p) (\<lambda>kva.
            thenM (modifyM (zero_frame kva)) (ret (Some p)))))
       | None \<Rightarrow> ret None)"

definition page_free :: "nat \<Rightarrow> unit kernel" where
  "page_free pp = (\<lambda>s.
     if pp_ref (pages s pp) \<noteq> 0 then panic ''Page still mapped'' s
     else if pp_link (pages s pp) \<noteq> None then panic ''Page already in the free list'' s
     else (Ret (), upd_page pp (\<lambda>pg. pg\<lparr>pp_link := page_free_list s\<rparr>) s
                     \<lparr>page_free_list := Some pp\<rparr>))"

definition page_incref :: "nat \<Rightarrow> unit kernel" where
  "page_incref pp = modifyM (upd_page pp (\<lambda>pg. pg\<lparr>pp_ref := pp_ref pg + 1\<rparr>))"

definition page_decref :: "nat \<Rightarrow> unit kernel" where
  "page_decref pp =
     thenM (modifyM (upd_page pp (\<lambda>pg. pg\<lparr>pp_ref := pp_ref pg - 1\<rparr>)))
       (\<lambda>s. if pp_ref (pages s pp) = 0 then page_free pp s else (Ret (), s))"

section \<open>Page tables\<close>

text \<open>A \<^verbatim>\<open>pte_t *\<close>: frame of the page table and index in it.\<close>

type_synonym pte_ptr = "nat \<times> nat"

definition load_pte :: "pte_ptr \<Rightarrow> u32 kernel" where
  "load_pte p = getsM (\<lambda>s. ram s (fst p) (snd p))"

definition store_pte :: "pte_ptr \<Rightarrow> u32 \<Rightarrow> unit kernel" where
  "store_pte p v = modifyM (store_word (fst p) (snd p) v)"

definition pgdir_walk :: "nat \<Rightarrow> u32 \<Rightarrow> bool \<Rightarrow> pte_ptr option kernel" where
  "pgdir_walk pgdir va create =
     bindM (load_pte (pgdir, PDX va)) (\<lambda>pd.
       if pd AND PTE_P = 0 then
         (if \<not> create then ret None
          else bindM (page_alloc ALLOC_ZERO) (\<lambda>pg.
            case pg of
              Some p \<Rightarrow>
                thenM (page_incref p)
                (thenM (store_pte (pgdir, PDX va) (page2pa p OR PTE_P OR PTE_W OR PTE_U))
                (bindM (KADDR (page2pa p)) (\<lambda>pt. ret (Some (pt, PTX va)))))
            | None \<Rightarrow> ret None))
       else bindM (KADDR (PTE_ADDR pd)) (\<lambda>pt. ret (Some (pt, PTX va))))"

definition boot_map_region :: "nat \<Rightarrow> u32 \<Rightarrow> u32 \<Rightarrow> u32 \<Rightarrow> u32 \<Rightarrow> unit kernel" where
  "boot_map_region pgdir va0 size0 pa0 perm =
     (let va = ROUNDUP va0 PGSIZE; pa = ROUNDUP pa0 PGSIZE; size = ROUNDUP size0 PGSIZE in
      forM [0 ..< unat size div 4096] (\<lambda>k.
        let i = of_nat k * PGSIZE in
        bindM (pgdir_walk pgdir (va + i) True) (\<lambda>pt.
          case pt of
            Some p \<Rightarrow> store_pte p ((pa + i) OR perm OR PTE_P)
          | None \<Rightarrow> stop (BadPointer ''boot_map_region''))))"

definition tlb_invalidate :: "nat \<Rightarrow> u32 \<Rightarrow> unit kernel" where
  "tlb_invalidate pgdir va = modifyM (\<lambda>s.
     if (case curenv s of None \<Rightarrow> True | Some e \<Rightarrow> env_pgdir (envs s e) = Some pgdir)
     then s\<lparr>tlb_flushes := va # tlb_flushes s\<rparr> else s)"

definition page_lookup :: "nat \<Rightarrow> u32 \<Rightarrow> (nat \<times> pte_ptr) option kernel" where
  "page_lookup pgdir va =
     bindM (pgdir_walk pgdir va False) (\<lambda>pt.
       case pt of
         None \<Rightarrow> ret None
       | Some p \<Rightarrow> bindM (load_pte p) (\<lambda>pte.
           if pte AND PTE_P = 0 then ret None
           else bindM (pa2page (PTE_ADDR pte)) (\<lambda>pg. ret (Some (pg, p)))))"

definition page_remove :: "nat \<Rightarrow> u32 \<Rightarrow> unit kernel" where
  "page_remove pgdir va =
     bindM (page_lookup pgdir va) (\<lambda>r.
       case r of
         None \<Rightarrow> ret ()
       | Some (pg, pstore) \<Rightarrow>
           thenM (page_decref pg) (thenM (store_pte pstore 0) (tlb_invalidate pgdir va)))"

definition page_insert :: "nat \<Rightarrow> nat \<Rightarrow> u32 \<Rightarrow> u32 \<Rightarrow> i32 kernel" where
  "page_insert pgdir pp va perm =
     bindM (pgdir_walk pgdir va True) (\<lambda>pt.
       case pt of
         None \<Rightarrow> ret (- E_NO_MEM)
       | Some p \<Rightarrow> bindM (load_pte p) (\<lambda>pte.
           if pte AND PTE_P = 0 then
             thenM (store_pte p (page2pa pp OR perm OR PTE_P))
             (thenM (page_incref pp) (ret 0))
           else
             thenM (page_incref pp)
             (thenM (page_remove pgdir va)
             (thenM (tlb_invalidate pgdir va)
             (thenM (store_pte p (page2pa pp OR perm OR PTE_P)) (ret 0))))))"

definition mmio_map_region :: "u32 \<Rightarrow> u32 \<Rightarrow> u32 kernel" where
  "mmio_map_region pa size0 =
     (let size = ROUNDUP size0 PGSIZE in
      bindM (getsM mmio_base) (\<lambda>base.
        if MMIOLIM < base + size then panic ''Size greater than io memory exists''
        else bindM (getsM kern_pgdir) (\<lambda>kpd.
          thenM (boot_map_region kpd base size pa (PTE_P OR PTE_W OR PTE_PCD OR PTE_PWT))
          (thenM (modifyM (\<lambda>s. s\<lparr>mmio_base := base + size\<rparr>)) (ret base)))))"

section \<open>Checking user pointers\<close>

text \<open>The loop of \<^verbatim>\<open>user_mem_check\<close> from offset \<open>i\<close> with \<open>n\<close> bytes to go.\<close>

fun user_mem_check_from :: "nat \<Rightarrow> nat \<Rightarrow> u32 \<Rightarrow> u32 \<Rightarrow> u32 \<Rightarrow> i32 kernel" where
  "user_mem_check_from 0 pgdir va i perm = ret 0"
| "user_mem_check_from (Suc n) pgdir va i perm =
     bindM (pgdir_walk pgdir (va + i) False) (\<lambda>pte.
     bindM (case pte of None \<Rightarrow> ret 0 | Some p \<Rightarrow> load_pte p) (\<lambda>v.
       if pte = None \<or> ULIM \<le> va + i \<or> v AND perm = 0 then
         thenM (modifyM (\<lambda>s. s\<lparr>user_mem_check_addr := va + i\<rparr>)) (ret (- E_FAULT))
       else user_mem_check_from n pgdir va (i + 1) perm))"

definition user_mem_check :: "nat \<Rightarrow> u32 \<Rightarrow> u32 \<Rightarrow> u32 \<Rightarrow> i32 kernel" where
  "user_mem_check env va len perm = (\<lambda>s.
     case env_pgdir (envs s env) of
       None \<Rightarrow> (Stop (BadPointer ''env_pgdir''), s)
     | Some pgdir \<Rightarrow> user_mem_check_from (unat len) pgdir va 0 perm s)"

definition check_va2pa :: "nat \<Rightarrow> u32 \<Rightarrow> u32 kernel" where
  "check_va2pa pgdir va =
     bindM (load_pte (pgdir, PDX va)) (\<lambda>pd.
       if pd AND PTE_P = 0 then ret (NOT 0)
       else bindM (KADDR (PTE_ADDR pd)) (\<lambda>pt.
         bindM (load_pte (pt, PTX va)) (\<lambda>pte.
           if pte AND PTE_P = 0 then ret (NOT 0) else ret (PTE_ADDR pte))))"

end
