(* ===== verification/Jos_Pmap_Inv.thy ===== *)
theory Jos_Pmap_Inv
  imports Jos_Pmap
begin

text \<open>
  The memory invariant of the kernel and its preservation by the operations of
  \<^verbatim>\<open>kern/pmap.c\<close>. Every place that holds a counted pointer to a physical page is a
  slot: the page directory of an address space, a directory entry below \<^verbatim>\<open>UTOP\<close>, an entry
  of a user page table. The invariant says that \<^verbatim>\<open>pp_ref\<close> is the number of slots that
  point to the page, that directories and page tables are pointed to by one slot only (no user
  mapping reaches them), that no slot points to a frame of the kernel itself, and that the free
  list is a chain of distinct unreferenced pages.
\<close>

section \<open>Slots and what they point to\<close>

datatype slot = Dir nat | Tab nat nat | Pg nat nat nat

definition present :: "u32 \<Rightarrow> bool" where
  "present e \<longleftrightarrow> e AND PTE_P \<noteq> 0"

definition entry_frame :: "u32 \<Rightarrow> nat option" where
  "entry_frame e = (if present e then Some (pte_frame e) else None)"

definition tab_of :: "kstate \<Rightarrow> nat \<Rightarrow> nat \<Rightarrow> nat option" where
  "tab_of s d i = entry_frame (ram s d i)"

fun target :: "kstate \<Rightarrow> nat set \<Rightarrow> slot \<Rightarrow> nat option" where
  "target s D (Dir d) = (if d \<in> D then Some d else None)"
| "target s D (Tab d i) = (if d \<in> D \<and> i < UPDX then tab_of s d i else None)"
| "target s D (Pg d i j) =
     (if d \<in> D \<and> i < UPDX \<and> j < 1024 then
        (case tab_of s d i of None \<Rightarrow> None | Some t \<Rightarrow> entry_frame (ram s t j))
      else None)"

definition refs :: "kstate \<Rightarrow> nat set \<Rightarrow> nat \<Rightarrow> slot set" where
  "refs s D p = {x. target s D x = Some p}"

definition is_Pg :: "slot \<Rightarrow> bool" where
  "is_Pg x \<longleftrightarrow> (case x of Pg _ _ _ \<Rightarrow> True | _ \<Rightarrow> False)"

lemma is_Pg_simps [simp]: "is_Pg (Pg d i j)" "\<not> is_Pg (Dir d)" "\<not> is_Pg (Tab d i)"
  by (simp_all add: is_Pg_def)

section \<open>The invariant\<close>

definition free_pages :: "kstate \<Rightarrow> nat list \<Rightarrow> bool" where
  "free_pages s fl \<longleftrightarrow> chain (\<lambda>p. pp_link (pages s p)) (page_free_list s) fl \<and> distinct fl
     \<and> (\<forall>p \<in> set fl. p < npages s \<and> pp_ref (pages s p) = 0)
     \<and> (\<forall>p < npages s. p \<notin> set fl \<longrightarrow> pp_link (pages s p) = None)"

definition owned_once :: "kstate \<Rightarrow> nat set \<Rightarrow> bool" where
  "owned_once s D \<longleftrightarrow> (\<forall>x y p. target s D x = Some p \<longrightarrow> target s D y = Some p \<longrightarrow>
     x = y \<or> is_Pg x \<and> is_Pg y)"

definition counted :: "kstate \<Rightarrow> nat set \<Rightarrow> nat set \<Rightarrow> bool" where
  "counted s D K \<longleftrightarrow>
     (\<forall>p < npages s. p \<notin> K \<longrightarrow> unat (pp_ref (pages s p)) = card (refs s D p))"

definition mem_inv :: "kstate \<Rightarrow> nat set \<Rightarrow> nat set \<Rightarrow> nat list \<Rightarrow> bool" where
  "mem_inv s D K fl \<longleftrightarrow> finite D \<and> npages s \<le> 0x100000 \<and> free_pages s fl \<and> set fl \<inter> K = {}
     \<and> (\<forall>x p. target s D x = Some p \<longrightarrow> p < npages s \<and> p \<notin> K)
     \<and> owned_once s D \<and> counted s D K"

lemma mem_invD:
  assumes "mem_inv s D K fl"
  shows "finite D" and "npages s \<le> 0x100000" and "free_pages s fl" and "set fl \<inter> K = {}"
    and "\<And>x p. target s D x = Some p \<Longrightarrow> p < npages s"
    and "\<And>x p. target s D x = Some p \<Longrightarrow> p \<notin> K"
    and "owned_once s D" and "counted s D K"
  using assms by (auto simp: mem_inv_def)

lemma finite_slots: "finite D \<Longrightarrow> finite {x. \<exists>p. target s D x = Some p}"
proof -
  assume fin: "finite D"
  have "{x. \<exists>p. target s D x = Some p}
      \<subseteq> Dir ` D \<union> (\<lambda>(d, i). Tab d i) ` (D \<times> {..<UPDX})
        \<union> (\<lambda>(d, i, j). Pg d i j) ` (D \<times> {..<UPDX} \<times> {..<1024})"
  proof
    fix x assume "x \<in> {x. \<exists>p. target s D x = Some p}"
    then show "x \<in> Dir ` D \<union> (\<lambda>(d, i). Tab d i) ` (D \<times> {..<UPDX})
        \<union> (\<lambda>(d, i, j). Pg d i j) ` (D \<times> {..<UPDX} \<times> {..<1024})"
      by (cases x) (auto split: if_splits simp: image_iff)
  qed
  then show ?thesis by (rule finite_subset) (use fin in auto)
qed

lemma finite_refs: "finite D \<Longrightarrow> finite {x. target s D x = Some p}"
  by (rule finite_subset [OF _ finite_slots [of D s]]) auto

lemma unreferenced:
  assumes "mem_inv s D K fl" and "p < npages s" and "p \<notin> K"
  shows "pp_ref (pages s p) = 0 \<longleftrightarrow> (\<forall>x. target s D x \<noteq> Some p)"
proof -
  have "unat (pp_ref (pages s p)) = card (refs s D p)"
    using mem_invD(8) [OF assms(1)] assms(2,3) by (simp add: counted_def)
  moreover have "finite (refs s D p)"
    using finite_refs [OF mem_invD(1) [OF assms(1)]] by (simp add: refs_def)
  ultimately show ?thesis by (auto simp: refs_def card_eq_0_iff unat_eq_0)
qed

lemma free_unreferenced:
  assumes "mem_inv s D K fl" and "p \<in> set fl"
  shows "target s D x \<noteq> Some p"
proof -
  have "p < npages s" "pp_ref (pages s p) = 0" "p \<notin> K"
    using mem_invD(3,4) [OF assms(1)] assms(2) by (auto simp: free_pages_def)
  then show ?thesis using unreferenced [OF assms(1)] by blast
qed

lemma target_cong:
  assumes "target s D x = target s' D x"
  shows "target s D x = Some p \<longleftrightarrow> target s' D x = Some p"
  using assms by simp

text \<open>A change that leaves every slot, every count and the free list as they are.\<close>

lemma mem_inv_same:
  assumes "mem_inv s D K fl" and "\<And>x. target s' D x = target s D x"
    and "npages s' = npages s" and "pages s' = pages s" and "page_free_list s' = page_free_list s"
  shows "mem_inv s' D K fl"
  using assms by (simp add: mem_inv_def owned_once_def counted_def refs_def free_pages_def)

section \<open>How updates move the targets\<close>

lemma target_ram: "ram s' = ram s \<Longrightarrow> target s' D x = target s D x"
  by (cases x) (simp_all add: tab_of_def split: option.splits)

lemma target_frame:
  assumes "f \<notin> D" and "\<And>d i. target s D (Tab d i) \<noteq> Some f"
    and "\<And>g. g \<noteq> f \<Longrightarrow> ram s' g = ram s g"
  shows "target s' D x = target s D x"
proof -
  have D: "ram s' d = ram s d" if "d \<in> D" for d
    using that assms(1,3) by metis
  then have tab: "tab_of s' d i = tab_of s d i" if "d \<in> D" for d i
    using that by (simp add: tab_of_def)
  have "ram s' t = ram s t" if "d \<in> D" "i < UPDX" "tab_of s d i = Some t" for d i t
    using assms(2) [of d i] assms(3) [of t] that by auto
  then show ?thesis
    by (cases x) (auto simp: tab split: option.splits)
qed

lemma owned_onceD:
  "owned_once s D \<Longrightarrow> target s D x = Some p \<Longrightarrow> target s D y = Some p \<Longrightarrow>
    x = y \<or> is_Pg x \<and> is_Pg y"
  by (auto simp: owned_once_def)

lemma tab_notin_D:
  assumes "owned_once s D" and "target s D (Tab d i) = Some t"
  shows "t \<notin> D"
proof
  assume "t \<in> D"
  then have "target s D (Dir t) = Some t" by simp
  with owned_onceD [OF assms(1,2) this] show False by simp
qed

lemma target_store:
  assumes "owned_once s D" and "target s D (Tab d i) = Some t" and "j < 1024"
    and "ram s' = (ram s)(t := (ram s t)(j := v))"
  shows "target s' D x = ((target s D)(Pg d i j := entry_frame v)) x"
proof -
  have nD: "t \<notin> D" by (rule tab_notin_D [OF assms(1,2)])
  then have tab: "tab_of s' a b = tab_of s a b" if "a \<in> D" for a b
    using that assms(4) by (auto simp: tab_of_def)
  have dD: "d \<in> D" "i < UPDX" "tab_of s d i = Some t"
    using assms(2) by (auto split: if_splits)
  have other: "t' \<noteq> t" if "a \<in> D" "b < UPDX" "tab_of s a b = Some t'" "(a, b) \<noteq> (d, i)" for a b t'
    using owned_onceD [OF assms(1,2), of "Tab a b"] that by auto
  show ?thesis
  proof (cases x)
    case (Pg a b c)
    show ?thesis
    proof (cases "a \<in> D \<and> b < UPDX \<and> c < 1024")
      case True
      show ?thesis
      proof (cases "(a, b) = (d, i)")
        case True
        then show ?thesis using Pg dD assms(3,4) tab by auto
      next
        case False
        then have "ram s' t' = ram s t'" if "tab_of s a b = Some t'" for t'
          using other [of a b t'] that \<open>a \<in> D \<and> b < UPDX \<and> c < 1024\<close> assms(4) by auto
        then have "target s' D (Pg a b c) = target s D (Pg a b c)"
          using \<open>a \<in> D \<and> b < UPDX \<and> c < 1024\<close> tab by (auto split: option.split)
        then show ?thesis using Pg False by auto
      qed
    next
      case False
      then show ?thesis using Pg dD assms(3) by auto
    qed
  qed (use tab in auto)
qed

section \<open>Page allocation\<close>

lemma KADDR_page2pa [simp]:
  "p < npages s \<Longrightarrow> npages s \<le> 0x100000 \<Longrightarrow> KADDR (page2pa p) s = (Ret p, s)"
  by (simp add: KADDR_def page2pa_def PGNUM_push_bit)

definition alloc_state :: "nat \<Rightarrow> kstate \<Rightarrow> kstate" where
  "alloc_state p s = zero_frame p (upd_page p (\<lambda>pg. pg\<lparr>pp_link := None\<rparr>)
     (s\<lparr>page_free_list := pp_link (pages s p)\<rparr>))"

lemma page_alloc_None: "mem_inv s D K [] \<Longrightarrow> page_alloc fl s = (Ret None, s)"
  by (simp add: page_alloc_def mem_inv_def free_pages_def)

lemma page_alloc_Some:
  assumes "mem_inv s D K (p # fl)"
  shows "page_alloc fg s = (Ret (Some p), alloc_state p s)"
proof -
  have "page_free_list s = Some p" "p < npages s" "npages s \<le> 0x100000"
    using assms by (auto simp: mem_inv_def free_pages_def)
  then show ?thesis
    by (simp add: page_alloc_def page2kva_def alloc_state_def)
qed

lemma alloc_state_simps [simp]:
  "npages (alloc_state p s) = npages s"
  "pages (alloc_state p s) = (pages s)(p := (pages s p)\<lparr>pp_link := None\<rparr>)"
  "page_free_list (alloc_state p s) = pp_link (pages s p)"
  "ram (alloc_state p s) = (ram s)(p := (\<lambda>_. 0))"
  "envs (alloc_state p s) = envs s" "cpus (alloc_state p s) = cpus s"
  "cpunum (alloc_state p s) = cpunum s" "kern_pgdir (alloc_state p s) = kern_pgdir s"
  "env_free_list (alloc_state p s) = env_free_list s"
  by (simp_all add: alloc_state_def)

lemma curenv_alloc_state [simp]: "curenv (alloc_state p s) = curenv s"
  by (simp add: curenv_def)

lemma target_alloc_state:
  assumes "mem_inv s D K (p # fl)"
  shows "target (alloc_state p s) D x = target s D x"
proof (rule target_frame [where f = p])
  show "p \<notin> D" using free_unreferenced [OF assms, of p "Dir p"] by auto
  show "target s D (Tab d i) \<noteq> Some p" for d i
    by (rule free_unreferenced [OF assms]) simp
qed simp

lemma free_pages_alloc:
  assumes "free_pages s (p # fl)"
  shows "free_pages (alloc_state p s) fl"
proof -
  have "chain (\<lambda>q. pp_link (pages (alloc_state p s) q)) (pp_link (pages s p)) fl
      = chain (\<lambda>q. pp_link (pages s q)) (pp_link (pages s p)) fl"
    by (rule chain_cong) (use assms in \<open>auto simp: free_pages_def\<close>)
  then show ?thesis using assms by (auto simp: free_pages_def)
qed

lemma mem_inv_alloc:
  assumes "mem_inv s D K (p # fl)"
  shows "mem_inv (alloc_state p s) D K fl"
  using assms free_pages_alloc [OF mem_invD(3) [OF assms]]
  by (auto simp: mem_inv_def owned_once_def counted_def refs_def target_alloc_state [OF assms])

section \<open>Giving a fresh page an owner\<close>

text \<open>
  A page that no slot points to gets exactly one reference when one slot \<open>x\<close> is made to
  point to it: a new page table in a directory, a new directory.
\<close>

lemma mem_inv_own:
  assumes inv: "mem_inv s D K fl" and p: "p < npages s" "p \<notin> K" "p \<notin> set fl"
    and ref: "pp_ref (pages s p) = 0"
    and fin: "finite D'" and x: "target s D x = None"
    and tgt: "\<And>y. target s' D' y = ((target s D)(x := Some p)) y"
    and st: "npages s' = npages s" "page_free_list s' = page_free_list s"
      "pages s' = (pages s)(p := (pages s p)\<lparr>pp_ref := 1\<rparr>)"
  shows "mem_inv s' D' K fl"
proof -
  have unref: "target s D y \<noteq> Some p" for y
    using unreferenced [OF inv p(1,2)] ref by blast
  have "counted s' D' K"
    unfolding counted_def
  proof (intro allI impI)
    fix q assume q: "q < npages s'" "q \<notin> K"
    have old: "unat (pp_ref (pages s q)) = card (refs s D q)"
      using q st mem_invD(8) [OF inv] by (simp add: counted_def)
    show "unat (pp_ref (pages s' q)) = card (refs s' D' q)"
    proof (cases "q = p")
      case True
      then have "refs s' D' q = {x}"
        using unref by (auto simp: refs_def tgt split: if_splits)
      then show ?thesis using True st by simp
    next
      case False
      then have "refs s' D' q = refs s D q"
        using x by (auto simp: refs_def tgt)
      then show ?thesis using old False st by simp
    qed
  qed
  moreover have "owned_once s' D'"
    unfolding owned_once_def tgt
    using mem_invD(7) [OF inv] unref by (auto simp: owned_once_def)
  moreover have "free_pages s' fl"
  proof -
    have "chain (\<lambda>q. pp_link (pages s' q)) (page_free_list s') fl
        = chain (\<lambda>q. pp_link (pages s q)) (page_free_list s) fl"
      unfolding st(2) by (rule chain_cong) (simp add: st)
    then show ?thesis
      using mem_invD(3) [OF inv] p(3) by (auto simp: free_pages_def st)
  qed
  moreover have "q < npages s' \<and> q \<notin> K" if "target s' D' y = Some q" for y q
    using that mem_invD(5,6) [OF inv] p st(1) by (auto simp: tgt split: if_splits)
  ultimately show ?thesis
    using inv fin st(1) by (auto simp: mem_inv_def)
qed

section \<open>Closed forms of the page table walk\<close>

lemma tab_present:
  "tab_of s d i = Some t \<longleftrightarrow> ram s d i AND PTE_P \<noteq> 0 \<and> pte_frame (ram s d i) = t"
  by (simp add: tab_of_def entry_frame_def present_def)

lemma tab_absent: "tab_of s d i = None \<longleftrightarrow> ram s d i AND PTE_P = 0"
  by (simp add: tab_of_def entry_frame_def present_def)

lemma pgdir_walk_present:
  assumes "tab_of s d (PDX va) = Some t" and "t < npages s"
  shows "pgdir_walk d va c s = (Ret (Some (t, PTX va)), s)"
  using assms by (simp add: pgdir_walk_def load_pte_def tab_present KADDR_def)

lemma pgdir_walk_absent:
  assumes "tab_of s d (PDX va) = None"
  shows "pgdir_walk d va False s = (Ret None, s)"
  using assms by (simp add: pgdir_walk_def load_pte_def tab_absent)

lemma pgdir_walk_no_mem:
  assumes "tab_of s d (PDX va) = None" and "mem_inv s D K []"
  shows "pgdir_walk d va True s = (Ret None, s)"
  using assms by (simp add: pgdir_walk_def load_pte_def tab_absent page_alloc_None)

definition new_table :: "nat \<Rightarrow> nat \<Rightarrow> nat \<Rightarrow> kstate \<Rightarrow> kstate" where
  "new_table d i p s = store_word d i (mk_pte p 7)
     (upd_page p (\<lambda>pg. pg\<lparr>pp_ref := pp_ref pg + 1\<rparr>) (alloc_state p s))"

lemma table_entry: "page2pa p OR PTE_P OR PTE_W OR PTE_U = mk_pte p 7"
  by (simp add: mk_pte_def page2pa_def kconst)

lemma page_entry: "page2pa p OR perm OR PTE_P = mk_pte p perm"
  by (simp add: mk_pte_def page2pa_def)

lemma pgdir_walk_create:
  assumes "tab_of s d (PDX va) = None" and "mem_inv s D K (p # fl)"
  shows "pgdir_walk d va True s = (Ret (Some (p, PTX va)), new_table d (PDX va) p s)"
proof -
  have "p < npages s" "npages s \<le> 0x100000"
    using assms(2) by (auto simp: mem_inv_def free_pages_def)
  then show ?thesis
    using assms(1) page_alloc_Some [OF assms(2)]
    by (simp add: pgdir_walk_def load_pte_def store_pte_def tab_absent page_incref_def
        table_entry new_table_def)
qed

lemma entry_frame_mk_pte [simp]:
  "perm < 0x1000 \<Longrightarrow> f < 0x100000 \<Longrightarrow> entry_frame (mk_pte f perm) = Some f"
  by (simp add: entry_frame_def present_def)

lemma entry_frame_0 [simp]: "entry_frame 0 = None" "\<not> present 0"
  by (simp_all add: entry_frame_def present_def)

lemma new_table_simps [simp]:
  "npages (new_table d i p s) = npages s"
  "page_free_list (new_table d i p s) = pp_link (pages s p)"
  "ram (new_table d i p s) = (let r = (ram s)(p := (\<lambda>_. 0)) in r(d := (r d)(i := mk_pte p 7)))"
  "envs (new_table d i p s) = envs s" "cpus (new_table d i p s) = cpus s"
  "cpunum (new_table d i p s) = cpunum s"
  by (simp_all add: new_table_def Let_def)

lemma pages_new_table:
  "pp_ref (pages s p) = 0 \<Longrightarrow>
   pages (new_table d i p s) = (pages s)(p := \<lparr>pp_link = None, pp_ref = 1\<rparr>)"
  by (cases "pages s p") (simp add: new_table_def fun_eq_iff)

lemma target_new_table:
  assumes inv: "mem_inv s D K (p # fl)" and d: "d \<in> D" "i < UPDX" and none: "tab_of s d i = None"
  shows "target (new_table d i p s) D x = ((target s D)(Tab d i := Some p)) x"
proof -
  have pD: "p \<notin> D" using free_unreferenced [OF inv, of p "Dir p"] by auto
  have pt: "target s D y \<noteq> Some p" for y
    by (rule free_unreferenced [OF inv]) simp
  have "p < 0x100000" using inv by (auto simp: mem_inv_def free_pages_def)
  then have new: "entry_frame (mk_pte p 7) = Some p" by simp
  have tD: "t \<notin> D" if "target s D (Tab a b) = Some t" for a b t
    using tab_notin_D [OF mem_invD(7) [OF inv] that] .
  have tab: "tab_of (new_table d i p s) a b = (if a = d \<and> b = i then Some p else tab_of s a b)"
    if "a \<in> D" for a b
    using that pD new by (auto simp: tab_of_def Let_def)
  have row: "ram (new_table d i p s) t = ram s t" if "target s D (Tab a b) = Some t" for a b t
    using tD [OF that] pt [of "Tab a b"] that d(1) by (auto simp: Let_def)
  show ?thesis
  proof (cases x)
    case (Dir a)
    then show ?thesis by simp
  next
    case (Tab a b)
    then show ?thesis using tab d by simp
  next
    case (Pg a b c)
    show ?thesis
    proof (cases "a \<in> D \<and> b < UPDX \<and> c < 1024 \<and> \<not> (a = d \<and> b = i)")
      case True
      then show ?thesis
        using Pg tab row [of a b] by (auto simp del: new_table_simps split: option.splits)
    next
      case False
      then show ?thesis
        using Pg tab d none pD by (auto simp: Let_def)
    qed
  qed
qed

lemma mem_inv_new_table:
  assumes inv: "mem_inv s D K (p # fl)" and d: "d \<in> D" "i < UPDX" and none: "tab_of s d i = None"
  shows "mem_inv (new_table d i p s) D K fl"
proof -
  have p: "p < npages s" "p \<notin> K" "p \<notin> set fl" "pp_ref (pages s p) = 0"
    using inv by (auto simp: mem_inv_def free_pages_def)
  show ?thesis
  proof (rule mem_inv_own [OF mem_inv_alloc [OF inv], where p = p and x = "Tab d i"])
    show "target (alloc_state p s) D (Tab d i) = None"
      using none by (simp add: target_alloc_state [OF inv] del: target.simps) simp
    show "target (new_table d i p s) D y = ((target (alloc_state p s) D)(Tab d i := Some p)) y" for y
      using target_new_table [OF assms] target_alloc_state [OF inv] by simp
  qed (use p inv in \<open>auto simp: new_table_def mem_inv_def fun_eq_iff\<close>)
qed

section \<open>Writing one entry of a user page table\<close>

lemma mem_inv_write:
  assumes inv: "mem_inv s D K fl" and tab: "target s D (Tab d i) = Some t" "j < 1024"
    and ram: "ram s' = (ram s)(t := (ram s t)(j := v))" and np: "npages s' = npages s"
    and new: "\<And>p. entry_frame v = Some p \<Longrightarrow>
      p < npages s \<and> p \<notin> K \<and> (\<forall>x. target s D x = Some p \<longrightarrow> is_Pg x)"
    and cnt: "\<And>q. q < npages s \<Longrightarrow> q \<notin> K \<Longrightarrow>
      unat (pp_ref (pages s' q)) + (if target s D (Pg d i j) = Some q then 1 else 0)
        = unat (pp_ref (pages s q)) + (if entry_frame v = Some q then 1 else 0)"
    and fl: "free_pages s' fl'" "set fl' \<inter> K = {}"
  shows "mem_inv s' D K fl'"
proof -
  have tgt: "target s' D x = ((target s D)(Pg d i j := entry_frame v)) x" for x
    by (rule target_store [OF mem_invD(7) [OF inv] tab ram])
  have "counted s' D K"
    unfolding counted_def np
  proof (intro allI impI)
    fix q assume q: "q < npages s" "q \<notin> K"
    have "unat (pp_ref (pages s q)) = card {x. target s D x = Some q}"
      using q mem_invD(8) [OF inv] by (simp add: counted_def refs_def)
    moreover have "refs s' D q = {x. ((target s D)(Pg d i j := entry_frame v)) x = Some q}"
      unfolding refs_def tgt ..
    ultimately show "unat (pp_ref (pages s' q)) = card (refs s' D q)"
      using cnt [OF q] card_point [where f = "target s D" and p = q and a = "Pg d i j"
          and v = "entry_frame v", OF finite_refs [OF mem_invD(1) [OF inv]]]
      by (metis add_right_cancel)
  qed
  moreover have "owned_once s' D"
    unfolding owned_once_def tgt
  proof (intro allI impI)
    fix x y p
    assume x: "((target s D)(Pg d i j := entry_frame v)) x = Some p"
      and y: "((target s D)(Pg d i j := entry_frame v)) y = Some p"
    show "x = y \<or> is_Pg x \<and> is_Pg y"
      using owned_onceD [OF mem_invD(7) [OF inv], of x p y] new [of p] x y
      by (auto split: if_splits)
  qed
  moreover have "p < npages s' \<and> p \<notin> K" if "target s' D x = Some p" for x p
    using that mem_invD(5,6) [OF inv] new by (auto simp: tgt np split: if_splits)
  ultimately show ?thesis
    using mem_invD(1,2) [OF inv] fl np by (auto simp: mem_inv_def)
qed

section \<open>Removing a mapping\<close>

definition tlb_state :: "nat \<Rightarrow> u32 \<Rightarrow> kstate \<Rightarrow> kstate" where
  "tlb_state d va s =
     (if (case curenv s of None \<Rightarrow> True | Some e \<Rightarrow> env_pgdir (envs s e) = Some d)
      then s\<lparr>tlb_flushes := va # tlb_flushes s\<rparr> else s)"

lemma tlb_invalidate_eq [simp]: "tlb_invalidate d va s = (Ret (), tlb_state d va s)"
  by (simp add: tlb_invalidate_def tlb_state_def)

lemma tlb_state_simps [simp]:
  "ram (tlb_state d va s) = ram s" "pages (tlb_state d va s) = pages s"
  "npages (tlb_state d va s) = npages s" "page_free_list (tlb_state d va s) = page_free_list s"
  "envs (tlb_state d va s) = envs s" "cpus (tlb_state d va s) = cpus s"
  "cpunum (tlb_state d va s) = cpunum s" "kern_pgdir (tlb_state d va s) = kern_pgdir s"
  "env_free_list (tlb_state d va s) = env_free_list s" "curenv (tlb_state d va s) = curenv s"
  by (simp_all add: tlb_state_def curenv_def)

definition decref_state :: "nat \<Rightarrow> kstate \<Rightarrow> kstate" where
  "decref_state q s =
     (let s1 = upd_page q (\<lambda>pg. pg\<lparr>pp_ref := pp_ref pg - 1\<rparr>) s in
      if pp_ref (pages s q) = 1
      then upd_page q (\<lambda>pg. pg\<lparr>pp_link := page_free_list s\<rparr>) s1\<lparr>page_free_list := Some q\<rparr>
      else s1)"

lemma page_decref_eq:
  "pp_link (pages s q) = None \<Longrightarrow> page_decref q s = (Ret (), decref_state q s)"
  by (simp add: page_decref_def page_free_def decref_state_def)

lemma decref_state_simps [simp]:
  "ram (decref_state q s) = ram s" "npages (decref_state q s) = npages s"
  "envs (decref_state q s) = envs s" "cpus (decref_state q s) = cpus s"
  "cpunum (decref_state q s) = cpunum s" "curenv (decref_state q s) = curenv s"
  "kern_pgdir (decref_state q s) = kern_pgdir s"
  "env_free_list (decref_state q s) = env_free_list s"
  by (simp_all add: decref_state_def Let_def curenv_def)

lemma pp_ref_decref [simp]:
  "pp_ref (pages (decref_state q s) p)
     = (if p = q then pp_ref (pages s q) - 1 else pp_ref (pages s p))"
  by (simp add: decref_state_def Let_def)

definition freed :: "nat \<Rightarrow> kstate \<Rightarrow> nat list \<Rightarrow> nat list" where
  "freed q s fl = (if pp_ref (pages s q) = 1 then q # fl else fl)"

lemma free_pages_decref:
  assumes "free_pages s fl" and "q \<notin> set fl" and "q < npages s"
  shows "free_pages (decref_state q s) (freed q s fl)"
proof -
  have "chain (\<lambda>p. pp_link (pages (decref_state q s) p)) (page_free_list s) fl
      = chain (\<lambda>p. pp_link (pages s p)) (page_free_list s) fl"
    by (rule chain_cong) (use assms(2) in \<open>auto simp: decref_state_def Let_def\<close>)
  then show ?thesis
    using assms by (auto simp: free_pages_def freed_def decref_state_def Let_def)
qed

lemma mapped_page:
  assumes inv: "mem_inv s D K fl" and x: "target s D x = Some q"
  shows "q < npages s" and "q \<notin> K" and "q \<notin> set fl" and "pp_link (pages s q) = None"
    and "pp_ref (pages s q) \<noteq> 0"
proof -
  show q: "q < npages s" "q \<notin> K" using mem_invD(5,6) [OF inv x] by auto
  show fl: "q \<notin> set fl" using free_unreferenced [OF inv] x by blast
  show "pp_link (pages s q) = None"
    using mem_invD(3) [OF inv] q fl by (auto simp: free_pages_def)
  show "pp_ref (pages s q) \<noteq> 0" using unreferenced [OF inv q] x by blast
qed

lemma user_slot:
  assumes "target s D (Pg d i j) = Some q"
  obtains t where "target s D (Tab d i) = Some t" and "tab_of s d i = Some t"
    and "entry_frame (ram s t j) = Some q" and "d \<in> D" and "i < UPDX" and "j < 1024"
  using assms by (auto split: if_splits option.splits)

lemma page_lookup_mapped:
  assumes inv: "mem_inv s D K fl" and x: "target s D (Pg d (PDX va) (PTX va)) = Some q"
    and t: "tab_of s d (PDX va) = Some t"
  shows "page_lookup d va s = (Ret (Some (q, t, PTX va)), s)"
proof -
  obtain t' where t': "target s D (Tab d (PDX va)) = Some t'" "tab_of s d (PDX va) = Some t'"
    "entry_frame (ram s t' (PTX va)) = Some q" using x by (rule user_slot)
  then have [simp]: "t' = t" using t by simp
  have "t < npages s" using mem_invD(5) [OF inv t'(1)] by simp
  moreover have "q < npages s" using mapped_page(1) [OF inv x] .
  moreover have "ram s t (PTX va) AND PTE_P \<noteq> 0" "pte_frame (ram s t (PTX va)) = q"
    using t'(3) by (auto simp: entry_frame_def present_def split: if_splits)
  ultimately show ?thesis
    by (simp add: page_lookup_def pgdir_walk_present [OF t] load_pte_def pa2page_def)
qed

lemma page_lookup_unmapped:
  assumes inv: "mem_inv s D K fl" and d: "d \<in> D" "PDX va < UPDX"
    and x: "target s D (Pg d (PDX va) (PTX va)) = None"
  shows "page_lookup d va s = (Ret None, s)"
proof (cases "tab_of s d (PDX va)")
  case None
  then show ?thesis by (simp add: page_lookup_def pgdir_walk_absent)
next
  case (Some t)
  then have "t < npages s" using mem_invD(5) [OF inv, of "Tab d (PDX va)"] d by simp
  then show ?thesis
    using Some x d
    by (simp add: page_lookup_def pgdir_walk_present [OF Some] load_pte_def entry_frame_def
        present_def split: if_splits)
qed

definition remove_state :: "nat \<Rightarrow> u32 \<Rightarrow> nat \<Rightarrow> nat \<Rightarrow> kstate \<Rightarrow> kstate" where
  "remove_state d va t q s = tlb_state d va (store_word t (PTX va) 0 (decref_state q s))"

lemma page_remove_mapped:
  assumes inv: "mem_inv s D K fl" and x: "target s D (Pg d (PDX va) (PTX va)) = Some q"
    and t: "tab_of s d (PDX va) = Some t"
  shows "page_remove d va s = (Ret (), remove_state d va t q s)
    \<and> mem_inv (remove_state d va t q s) D K (freed q s fl)"
proof
  note q = mapped_page [OF inv x]
  show "page_remove d va s = (Ret (), remove_state d va t q s)"
    by (simp add: page_remove_def page_lookup_mapped [OF inv x t] page_decref_eq [OF q(4)]
        store_pte_def remove_state_def)
  obtain t' where tt: "target s D (Tab d (PDX va)) = Some t'" "tab_of s d (PDX va) = Some t'"
    using x by (rule user_slot)
  then have tt: "target s D (Tab d (PDX va)) = Some t" using t by simp
  have q1: "unat (pp_ref (pages s q) - 1) + 1 = unat (pp_ref (pages s q))"
    using q(5) by (rule unat_dec)
  show "mem_inv (remove_state d va t q s) D K (freed q s fl)"
  proof (rule mem_inv_write [OF inv tt PTX_less, where v = 0])
    have "free_pages (decref_state q s) (freed q s fl)"
      by (rule free_pages_decref [OF mem_invD(3) [OF inv] q(3,1)])
    then show "free_pages (remove_state d va t q s) (freed q s fl)"
      by (simp add: free_pages_def remove_state_def)
    show "set (freed q s fl) \<inter> K = {}"
      using mem_invD(4) [OF inv] q(2) by (auto simp: freed_def)
    show "unat (pp_ref (pages (remove_state d va t q s) p))
          + (if target s D (Pg d (PDX va) (PTX va)) = Some p then 1 else 0)
        = unat (pp_ref (pages s p)) + (if entry_frame 0 = Some p then 1 else 0)" for p
      using q1 by (auto simp add: remove_state_def x simp del: target.simps)
  qed (simp_all add: remove_state_def)
qed

text \<open>No page is lost: every page without references that the kernel does not own is free.\<close>

definition leak_free :: "kstate \<Rightarrow> nat set \<Rightarrow> nat list \<Rightarrow> bool" where
  "leak_free s K fl \<longleftrightarrow>
     (\<forall>p < npages s. p \<notin> K \<longrightarrow> pp_ref (pages s p) = 0 \<longrightarrow> p \<in> set fl)"

lemma leak_free_decref:
  assumes "leak_free s K fl" and "pp_ref (pages s q) \<noteq> 0"
    and "npages s' = npages s" and "\<And>p. pp_ref (pages s' p) = pp_ref (pages (decref_state q s) p)"
  shows "leak_free s' K (freed q s fl)"
proof -
  have "pp_ref (pages s q) - 1 = 0 \<longleftrightarrow> pp_ref (pages s q) = 1"
    by (simp add: eq_iff_diff_eq_0 [symmetric])
  then show ?thesis using assms by (auto simp: leak_free_def freed_def)
qed

section \<open>Inserting a mapping\<close>

text \<open>
  Inserting into an existing table. The reference count is raised before the old page is
  dropped, so re-inserting the mapped page never frees it.
\<close>

definition insert_state :: "nat \<Rightarrow> u32 \<Rightarrow> nat \<Rightarrow> nat \<Rightarrow> u32 \<Rightarrow> kstate \<Rightarrow> kstate" where
  "insert_state d va t p perm s =
     (let s1 = upd_page p (\<lambda>pg. pg\<lparr>pp_ref := pp_ref pg + 1\<rparr>) s;
          s2 = (if present (ram s t (PTX va))
                then tlb_state d va (remove_state d va t (pte_frame (ram s t (PTX va))) s1) else s1)
      in store_word t (PTX va) (mk_pte p perm) s2)"

definition insertable :: "kstate \<Rightarrow> nat set \<Rightarrow> nat set \<Rightarrow> nat list \<Rightarrow> nat \<Rightarrow> bool" where
  "insertable s D K fl p \<longleftrightarrow> p < npages s \<and> p \<notin> K \<and> p \<notin> set fl
     \<and> unat (pp_ref (pages s p)) < 65535 \<and> (\<forall>x. target s D x = Some p \<longrightarrow> is_Pg x)"

lemma ref_up: "unat (pp_ref (pages s p)) < 65535 \<Longrightarrow>
    unat (pp_ref (pages s p) + 1) = unat (pp_ref (pages s p)) + 1"
  by (rule unat_inc) simp

lemma free_pages_incref:
  "free_pages s fl \<Longrightarrow> p \<notin> set fl \<Longrightarrow>
    free_pages (upd_page p (\<lambda>pg. pg\<lparr>pp_ref := f pg\<rparr>) s) fl"
proof -
  assume a: "free_pages s fl" "p \<notin> set fl"
  let ?s = "upd_page p (\<lambda>pg. pg\<lparr>pp_ref := f pg\<rparr>) s"
  have "chain (\<lambda>q. pp_link (pages ?s q)) (page_free_list s) fl
      = chain (\<lambda>q. pp_link (pages s q)) (page_free_list s) fl"
    by (rule chain_cong) simp
  then show ?thesis using a by (auto simp: free_pages_def)
qed

definition insert_frees :: "nat \<Rightarrow> nat \<Rightarrow> kstate \<Rightarrow> nat \<Rightarrow> nat list \<Rightarrow> nat list" where
  "insert_frees t j s p fl = (case entry_frame (ram s t j) of
     None \<Rightarrow> fl | Some q \<Rightarrow> if q = p then fl else freed q s fl)"

lemma page_insert_free_slot:
  assumes t: "tab_of s d (PDX va) = Some t" "t < npages s"
    and ab: "\<not> present (ram s t (PTX va))"
  shows "page_insert d p va perm s = (Ret 0, insert_state d va t p perm s)"
  using ab by (simp add: page_insert_def pgdir_walk_present [OF t] load_pte_def store_pte_def
      page_incref_def page_entry insert_state_def present_def Let_def store_word_def upd_page_def)

lemma page_insert_used_slot:
  assumes inv: "mem_inv s D K fl" and x: "target s D (Pg d (PDX va) (PTX va)) = Some q"
    and t: "tab_of s d (PDX va) = Some t" "t < npages s"
  shows "page_insert d p va perm s = (Ret 0, insert_state d va t p perm s)"
proof -
  note q = mapped_page [OF inv x]
  obtain t' where "tab_of s d (PDX va) = Some t'" "entry_frame (ram s t' (PTX va)) = Some q"
    using x by (rule user_slot)
  then have e: "present (ram s t (PTX va))" "pte_frame (ram s t (PTX va)) = q"
    using t by (auto simp: entry_frame_def split: if_splits)
  define s1 where "s1 = upd_page p (\<lambda>pg. pg\<lparr>pp_ref := pp_ref pg + 1\<rparr>) s"
  have s1: "ram s1 = ram s" "npages s1 = npages s" "pp_link (pages s1 q) = None"
    using q(4) by (auto simp: s1_def)
  have t1: "tab_of s1 d (PDX va) = Some t" "t < npages s1"
    using t s1 by (simp_all add: tab_of_def)
  have "page_lookup d va s1 = (Ret (Some (q, t, PTX va)), s1)"
    using e q(1) s1
    by (simp add: page_lookup_def pgdir_walk_present [OF t1] load_pte_def pa2page_def present_def)
  then have rem: "page_remove d va s1 = (Ret (), remove_state d va t q s1)"
    by (simp add: page_remove_def page_decref_eq [OF s1(3)] store_pte_def remove_state_def)
  have inc: "page_incref p s = (Ret (), s1)"
    by (simp add: page_incref_def s1_def)
  show ?thesis
    using e by (simp add: page_insert_def pgdir_walk_present [OF t] load_pte_def store_pte_def
        inc rem page_entry insert_state_def present_def Let_def s1_def [symmetric])
qed

lemma insert_state_simps [simp]:
  "npages (insert_state d va t p perm s) = npages s"
  "ram (insert_state d va t p perm s) = (ram s)(t := (ram s t)(PTX va := mk_pte p perm))"
  "envs (insert_state d va t p perm s) = envs s" "cpus (insert_state d va t p perm s) = cpus s"
  "cpunum (insert_state d va t p perm s) = cpunum s"
  "kern_pgdir (insert_state d va t p perm s) = kern_pgdir s"
  "env_free_list (insert_state d va t p perm s) = env_free_list s"
  by (simp_all add: insert_state_def remove_state_def Let_def)

lemma insert_state_refs:
  assumes inv: "mem_inv s D K fl" and p: "insertable s D K fl p" and perm: "perm < 0x1000"
    and tab: "target s D (Tab d (PDX va)) = Some t"
  shows "unat (pp_ref (pages (insert_state d va t p perm s) q))
      + (if target s D (Pg d (PDX va) (PTX va)) = Some q then 1 else 0)
    = unat (pp_ref (pages s q)) + (if entry_frame (mk_pte p perm) = Some q then 1 else 0)"
proof -
  have x: "target s D (Pg d (PDX va) (PTX va)) = entry_frame (ram s t (PTX va))"
    using tab by (auto split: if_splits)
  have pn: "p < 0x100000" using p mem_invD(2) [OF inv] by (simp add: insertable_def)
  have refp: "unat (pp_ref (pages s p) + 1) = unat (pp_ref (pages s p)) + 1"
    by (rule ref_up) (use p in \<open>simp add: insertable_def\<close>)
  show ?thesis
  proof (cases "entry_frame (ram s t (PTX va))")
    case None
    then have "\<not> present (ram s t (PTX va))" by (simp add: entry_frame_def split: if_splits)
    then show ?thesis
      using None refp x perm pn by (auto simp add: insert_state_def Let_def simp del: target.simps)
  next
    case (Some r)
    then have pr: "present (ram s t (PTX va))" "pte_frame (ram s t (PTX va)) = r"
      by (auto simp: entry_frame_def split: if_splits)
    have "pp_ref (pages s r) \<noteq> 0" using mapped_page(5) [OF inv] x Some by metis
    then have "unat (pp_ref (pages s r) - 1) + 1 = unat (pp_ref (pages s r))" by (rule unat_dec)
    then show ?thesis
      using Some refp x perm pn pr
      by (auto simp: insert_state_def remove_state_def Let_def simp del: target.simps)
  qed
qed

lemma leak_free_insert:
  assumes inv: "mem_inv s D K fl" and p: "insertable s D K fl p" and perm: "perm < 0x1000"
    and tab: "target s D (Tab d (PDX va)) = Some t" and leak: "leak_free s (insert p K) fl"
  shows "leak_free (insert_state d va t p perm s) K (insert_frees t (PTX va) s p fl)"
  unfolding leak_free_def
proof (intro allI impI)
  fix q assume q: "q < npages (insert_state d va t p perm s)" "q \<notin> K"
    "pp_ref (pages (insert_state d va t p perm s) q) = 0"
  have x: "target s D (Pg d (PDX va) (PTX va)) = entry_frame (ram s t (PTX va))"
    using tab by (auto split: if_splits)
  have pn: "p < 0x100000" using p mem_invD(2) [OF inv] by (simp add: insertable_def)
  have e: "(if entry_frame (ram s t (PTX va)) = Some q then 1 else 0)
      = unat (pp_ref (pages s q)) + (if p = q then 1 else 0)"
    using insert_state_refs [OF inv p perm tab, of q] q(3) perm pn x by simp
  show "q \<in> set (insert_frees t (PTX va) s p fl)"
  proof (cases "entry_frame (ram s t (PTX va)) = Some q")
    case True
    then have "pp_ref (pages s q) \<noteq> 0" using mapped_page(5) [OF inv] x by metis
    then have "unat (pp_ref (pages s q)) \<noteq> 0" by (simp add: unat_eq_0)
    then have one: "unat (pp_ref (pages s q)) = 1" "p \<noteq> q" using e True by (auto split: if_splits)
    then have "pp_ref (pages s q) = 1" by (metis of_nat_1 of_nat_unat ucast_id)
    then show ?thesis using True one(2) by (simp add: insert_frees_def freed_def)
  next
    case False
    then have "pp_ref (pages s q) = 0" "p \<noteq> q" using e by (auto simp: unat_eq_0 split: if_splits)
    then have "q \<in> set fl" using leak q(1,2) by (simp add: leak_free_def)
    then show ?thesis by (auto simp: insert_frees_def freed_def split: option.split)
  qed
qed

lemma leak_free_alloc:
  assumes "mem_inv s D K (p # fl)" and "leak_free s K (p # fl)"
  shows "leak_free (alloc_state p s) (insert p K) fl"
  using assms(2) by (auto simp: leak_free_def)

lemma leak_free_new_table:
  assumes "mem_inv s D K (q # fl)" and "leak_free s K' (q # fl)" and "K \<subseteq> K'"
  shows "leak_free (new_table d i q s) K' fl"
proof -
  have "pp_ref (pages s q) = 0" using assms(1) by (auto simp: mem_inv_def free_pages_def)
  then show ?thesis using assms(2) by (auto simp: leak_free_def pages_new_table)
qed

lemma page_insert_mapped:
  assumes inv: "mem_inv s D K fl" and p: "insertable s D K fl p" and perm: "perm < 0x1000"
    and tab: "target s D (Tab d (PDX va)) = Some t"
  shows "page_insert d p va perm s = (Ret 0, insert_state d va t p perm s)
    \<and> mem_inv (insert_state d va t p perm s) D K (insert_frees t (PTX va) s p fl)"
proof
  have t: "tab_of s d (PDX va) = Some t" "t < npages s" and dD: "d \<in> D" "PDX va < UPDX"
    using tab mem_invD(5) [OF inv tab] by (auto split: if_splits)
  define e where "e = ram s t (PTX va)"
  have x: "target s D (Pg d (PDX va) (PTX va)) = entry_frame e"
    using t dD by (simp add: e_def)
  show "page_insert d p va perm s = (Ret 0, insert_state d va t p perm s)"
  proof (cases "entry_frame e")
    case None
    then show ?thesis
      by (intro page_insert_free_slot [OF t]) (simp add: e_def entry_frame_def split: if_splits)
  next
    case (Some q)
    then show ?thesis using page_insert_used_slot [OF inv _ t] x by simp
  qed
  have pn: "p < 0x100000" using p mem_invD(2) [OF inv] by (simp add: insertable_def)
  define s1 where "s1 = upd_page p (\<lambda>pg. pg\<lparr>pp_ref := pp_ref pg + 1\<rparr>) s"
  have fp1: "free_pages s1 fl"
    using free_pages_incref [OF mem_invD(3) [OF inv]] p by (simp add: insertable_def s1_def)
  have refp: "unat (pp_ref (pages s p) + 1) = unat (pp_ref (pages s p)) + 1"
    by (rule ref_up) (use p in \<open>simp add: insertable_def\<close>)
  show "mem_inv (insert_state d va t p perm s) D K (insert_frees t (PTX va) s p fl)"
  proof (rule mem_inv_write [OF inv tab PTX_less, where v = "mk_pte p perm"])
    show "ram (insert_state d va t p perm s) = (ram s)(t := (ram s t)(PTX va := mk_pte p perm))"
      by simp
    show "q < npages s \<and> q \<notin> K \<and> (\<forall>x. target s D x = Some q \<longrightarrow> is_Pg x)"
      if "entry_frame (mk_pte p perm) = Some q" for q
      using that p pn perm by (simp add: insertable_def)
    show "unat (pp_ref (pages (insert_state d va t p perm s) q))
          + (if target s D (Pg d (PDX va) (PTX va)) = Some q then 1 else 0)
        = unat (pp_ref (pages s q)) + (if entry_frame (mk_pte p perm) = Some q then 1 else 0)"
      for q by (rule insert_state_refs [OF inv p perm tab])
    show fp: "free_pages (insert_state d va t p perm s) (insert_frees t (PTX va) s p fl)"
    proof (cases "entry_frame e")
      case None
      then have "\<not> present (ram s t (PTX va))" by (simp add: e_def entry_frame_def split: if_splits)
      then show ?thesis
        using None fp1 by (simp add: insert_frees_def e_def insert_state_def free_pages_def
            Let_def s1_def)
    next
      case (Some r)
      then have pr: "present (ram s t (PTX va))" "pte_frame (ram s t (PTX va)) = r"
        by (auto simp: e_def entry_frame_def split: if_splits)
      note r = mapped_page [OF inv, unfolded x, OF x [unfolded Some]]
      have "free_pages (decref_state r s1) (freed r s1 fl)"
        by (rule free_pages_decref [OF fp1 r(3)]) (simp add: s1_def r(1))
      moreover have "freed r s1 fl = insert_frees t (PTX va) s p fl"
      proof (cases "r = p")
        case True
        then have "pp_ref (pages s p) + 1 \<noteq> 1" using r(5) by simp
        then show ?thesis using True Some by (simp add: freed_def insert_frees_def e_def s1_def)
      next
        case False
        then show ?thesis using Some by (simp add: freed_def insert_frees_def e_def s1_def)
      qed
      ultimately show ?thesis
        using pr by (simp add: insert_state_def free_pages_def remove_state_def Let_def s1_def)
    qed
    show "set (insert_frees t (PTX va) s p fl) \<inter> K = {}"
      using mem_invD(4) [OF inv] mem_invD(6) [OF inv] x
      by (auto simp: insert_frees_def freed_def e_def split: option.splits simp del: target.simps)
  qed simp
qed

section \<open>The user part of an address space as a map\<close>

text \<open>
  What the paging hardware sees below \<^verbatim>\<open>UTOP\<close>: the page table entry of each page number,
  and the kernel's operations as updates of that map.
\<close>

definition umap :: "kstate \<Rightarrow> nat \<Rightarrow> nat \<Rightarrow> u32 option" where
  "umap s d n = (case tab_of s d (n div 1024) of
     None \<Rightarrow> None
   | Some t \<Rightarrow> (let e = ram s t (n mod 1024) in if present e then Some e else None))"

lemma target_umap:
  assumes "d \<in> D" and "PDX va < UPDX"
  shows "target s D (Pg d (PDX va) (PTX va)) = map_option pte_frame (umap s d (PGNUM va))"
  using assms by (simp add: umap_def entry_frame_def Let_def PDX_of_PGNUM [symmetric]
      PTX_of_PGNUM [symmetric] split: option.split)

lemma umap_store:
  assumes own: "owned_once s D" and tab: "target s D (Tab d (PDX va)) = Some t"
    and ram: "ram s' = (ram s)(t := (ram s t)(PTX va := v))"
    and a: "a \<in> D" "n div 1024 < UPDX"
  shows "umap s' a n = (if a = d \<and> n = PGNUM va then (if present v then Some v else None)
                        else umap s a n)"
proof -
  have tD: "t \<notin> D" by (rule tab_notin_D [OF own tab])
  then have T: "tab_of s' a (n div 1024) = tab_of s a (n div 1024)"
    using a(1) ram by (auto simp: tab_of_def)
  have dt: "tab_of s d (PDX va) = Some t" using tab by (auto split: if_splits)
  show ?thesis
  proof (cases "a = d \<and> n div 1024 = PDX va")
    case True
    have "n = PGNUM va \<longleftrightarrow> n mod 1024 = PTX va"
      using True PGNUM_decompose [of va] div_mult_mod_eq [of n 1024] by (auto simp: PTX_of_PGNUM)
    then show ?thesis using True dt T ram by (auto simp: umap_def Let_def)
  next
    case False
    have "t' \<noteq> t" if "tab_of s a (n div 1024) = Some t'" for t'
      using owned_onceD [OF own tab, of "Tab a (n div 1024)"] that a False by auto
    then have "umap s' a n = umap s a n"
      using T ram by (auto simp: umap_def split: option.split)
    moreover have "\<not> (a = d \<and> n = PGNUM va)" using False by (auto simp: PDX_of_PGNUM)
    ultimately show ?thesis by auto
  qed
qed

lemma umap_frame:
  assumes "a \<in> D" and "n div 1024 < UPDX"
    and "ram s' a (n div 1024) = ram s a (n div 1024)"
    and "\<And>t. target s D (Tab a (n div 1024)) = Some t \<Longrightarrow> ram s' t = ram s t"
  shows "umap s' a n = umap s a n"
  using assms by (auto simp: umap_def tab_of_def split: option.split)

lemma umap_new_table:
  assumes inv: "mem_inv s D K (p # fl)" and d: "d \<in> D" "i < UPDX" and none: "tab_of s d i = None"
    and a: "a \<in> D" "n div 1024 < UPDX"
  shows "umap (new_table d i p s) a n = umap s a n"
proof -
  have pD: "p \<notin> D" using free_unreferenced [OF inv, of p "Dir p"] by auto
  have pn: "p < 0x100000" using inv by (auto simp: mem_inv_def free_pages_def)
  show ?thesis
  proof (cases "a = d \<and> n div 1024 = i")
    case True
    then have "tab_of (new_table d i p s) a (n div 1024) = Some p"
      using pD d pn by (auto simp: tab_of_def Let_def)
    then show ?thesis using True none pD d by (auto simp: umap_def Let_def)
  next
    case False
    show ?thesis
    proof (rule umap_frame [OF a])
      show "ram (new_table d i p s) a (n div 1024) = ram s a (n div 1024)"
        using False pD a by (auto simp: Let_def)
      show "ram (new_table d i p s) t = ram s t"
        if t: "target s D (Tab a (n div 1024)) = Some t" for t
        using tab_notin_D [OF mem_invD(7) [OF inv] t] free_unreferenced [OF inv, of p] t d
        by (auto simp: Let_def simp del: target.simps)
    qed
  qed
qed

text \<open>Frames whose contents an operation on the address spaces may change.\<close>

definition structural :: "kstate \<Rightarrow> nat set \<Rightarrow> nat \<Rightarrow> bool" where
  "structural s D f \<longleftrightarrow> (\<exists>x. target s D x = Some f \<and> \<not> is_Pg x)"

definition maps_agree :: "kstate \<Rightarrow> kstate \<Rightarrow> nat set \<Rightarrow> nat \<Rightarrow> nat \<Rightarrow> u32 option \<Rightarrow> bool" where
  "maps_agree s s' D d n v \<longleftrightarrow> (\<forall>a \<in> D. \<forall>m < 1024 * UPDX.
     umap s' a m = (if a = d \<and> m = n then v else umap s a m))"

text \<open>
  The directory entries of user tables allow user access and writing, so that the entries of the
  tables decide.
\<close>

text \<open>
  The directories are laid out for user programs: every table below \<^verbatim>\<open>UTOP\<close> may be
  walked in user mode and grants writes, and the directory maps itself, read-only, as the table
  of \<^verbatim>\<open>UVPT\<close>.
\<close>

definition open_tables :: "kstate \<Rightarrow> nat set \<Rightarrow> bool" where
  "open_tables s D \<longleftrightarrow> (\<forall>d \<in> D. ram s d (PDX UVPT) = (page2pa d OR PTE_P OR PTE_U)
     \<and> (\<forall>i < UPDX. present (ram s d i) \<longrightarrow> ram s d i AND PTE_W \<noteq> 0 \<and> ram s d i AND PTE_U \<noteq> 0))"

lemma UPDX_UVPT: "UPDX < PDX UVPT" "PDX UVPT < 1024"
  by (simp_all add: kconst PDX_eq)

lemma open_tables_store:
  assumes "owned_once s D" and "target s D (Tab d i) = Some t" and "ram s' = (ram s)(t := w)"
  shows "open_tables s' D \<longleftrightarrow> open_tables s D"
  using tab_notin_D [OF assms(1,2)] by (auto simp: open_tables_def assms(3))

lemma open_tables_new_table:
  assumes inv: "mem_inv s D K (p # fl)" and d: "d \<in> D" and op: "open_tables s D" and i: "i < UPDX"
  shows "open_tables (new_table d i p s) D"
proof -
  have pD: "p \<notin> D" using free_unreferenced [OF inv, of p "Dir p"] by auto
  have bits: "mk_pte p 7 AND PTE_W \<noteq> 0" "mk_pte p 7 AND PTE_U \<noteq> 0"
    by (simp_all add: mk_pte_flag kconst)
  have "ram (new_table d i p s) a j = (if a = d \<and> j = i then mk_pte p 7 else ram s a j)" if "a \<in> D" for a j
    using that pD by (auto simp: new_table_def)
  then show ?thesis using op bits i UPDX_UVPT by (auto simp: open_tables_def)
qed

text \<open>
  What the page operations leave alone: every component of the state other than physical
  memory, the page array, the free list and the TLB.
\<close>

definition rest :: "kstate \<Rightarrow> kstate" where
  "rest s = s\<lparr>pages := (\<lambda>_. \<lparr>pp_link = None, pp_ref = 0\<rparr>), page_free_list := None,
     ram := (\<lambda>_ _. 0), tlb_flushes := []\<rparr>"

definition rest_same :: "kstate \<Rightarrow> kstate \<Rightarrow> bool" where
  "rest_same s s' \<longleftrightarrow> rest s' = rest s"

lemma rest_update [simp]:
  "rest (upd_page p f s) = rest s" "rest (store_word d i v s) = rest s"
  "rest (zero_frame g s) = rest s" "rest (s\<lparr>page_free_list := l\<rparr>) = rest s"
  "rest (tlb_state d va s) = rest s" "rest (alloc_state p s) = rest s"
  "rest (new_table d i p s) = rest s" "rest (decref_state p s) = rest s"
  by (simp_all add: rest_def upd_page_def store_word_def zero_frame_def tlb_state_def alloc_state_def
      new_table_def decref_state_def Let_def)

lemma rest_update2 [simp]:
  "rest (remove_state d va t q s) = rest s" "rest (insert_state d va t p perm s) = rest s"
  by (simp_all add: remove_state_def insert_state_def Let_def)

lemma rest_sameI [simp]: "rest_same s s"
  by (simp add: rest_same_def)

lemma rest_same_trans: "rest_same s t \<Longrightarrow> rest_same t u \<Longrightarrow> rest_same s u"
  by (simp add: rest_same_def)

lemma rest_sameD:
  assumes "rest_same s s'"
  shows "npages s' = npages s" and "envs s' = envs s" and "cpus s' = cpus s"
    and "cpunum s' = cpunum s" and "kern_pgdir s' = kern_pgdir s"
    and "env_free_list s' = env_free_list s" and "cr3 s' = cr3 s"
    and "kernel_lock s' = kernel_lock s" and "curenv s' = curenv s" and "kcons s' = kcons s"
proof -
  have r: "rest s' = rest s" using assms by (simp add: rest_same_def)
  have e: "npages s = npages (rest s)" "envs s = envs (rest s)" "cpus s = cpus (rest s)"
    "cpunum s = cpunum (rest s)" "kern_pgdir s = kern_pgdir (rest s)"
    "env_free_list s = env_free_list (rest s)" "cr3 s = cr3 (rest s)"
    "kernel_lock s = kernel_lock (rest s)" "curenv s = curenv (rest s)" "kcons s = kcons (rest s)"
    for s by (simp_all add: rest_def curenv_def)
  show "npages s' = npages s" "envs s' = envs s" "cpus s' = cpus s" "cpunum s' = cpunum s"
    "kern_pgdir s' = kern_pgdir s" "env_free_list s' = env_free_list s" "cr3 s' = cr3 s"
    "kernel_lock s' = kernel_lock s" "curenv s' = curenv s" "kcons s' = kcons s"
    by (subst (1 2) e, simp only: r)+
qed

lemma div_UPDX: "m < 1024 * UPDX \<Longrightarrow> m div 1024 < UPDX"
  by (simp add: less_mult_imp_div_less mult.commute)

lemma insertable_new_table:
  assumes inv: "mem_inv s D K (q # fl)" and d: "d \<in> D" "i < UPDX" and none: "tab_of s d i = None"
    and p: "insertable s D K (q # fl) p"
  shows "insertable (new_table d i q s) D K fl p"
proof -
  have "pp_ref (pages s q) = 0" using inv by (auto simp: mem_inv_def free_pages_def)
  then have "pages (new_table d i q s) p = pages s p"
    using p by (simp add: pages_new_table insertable_def)
  then show ?thesis
    using p by (auto simp: insertable_def target_new_table [OF inv d none] split: if_splits)
qed

lemma page_insert_via_new_table:
  assumes inv: "mem_inv s D K (q # fl)" and d: "d \<in> D" "PDX va < UPDX"
    and none: "tab_of s d (PDX va) = None"
  shows "page_insert d p va perm s = page_insert d p va perm (new_table d (PDX va) q s)"
proof -
  let ?s = "new_table d (PDX va) q s"
  have inv': "mem_inv ?s D K fl" by (rule mem_inv_new_table [OF inv d none])
  have "target ?s D (Tab d (PDX va)) = Some q"
    using target_new_table [OF inv d none, of "Tab d (PDX va)"] by simp
  then have "tab_of ?s d (PDX va) = Some q" "q < npages ?s"
    using mem_invD(5) [OF inv', of "Tab d (PDX va)"] by (auto split: if_splits)
  from pgdir_walk_present [OF this] show ?thesis
    unfolding page_insert_def bindM_apply pgdir_walk_create [OF none inv] by simp
qed

theorem page_insert_full:
  assumes inv: "mem_inv s D K fl" and d: "d \<in> D" and va: "va < UTOP"
    and p: "insertable s D K fl p" and perm: "perm < 0x1000"
  shows "if tab_of s d (PDX va) = None \<and> fl = []
     then page_insert d p va perm s = (Ret (- E_NO_MEM), s)
     else \<exists>s' fl'. page_insert d p va perm s = (Ret 0, s') \<and> mem_inv s' D K fl'
       \<and> maps_agree s s' D d (PGNUM va) (Some (mk_pte p perm)) \<and> rest_same s s'
       \<and> (leak_free s (insert p K) fl \<longrightarrow> leak_free s' K fl')
       \<and> (\<forall>f. f \<notin> set fl \<longrightarrow> \<not> structural s D f \<longrightarrow> ram s' f = ram s f)
       \<and> (open_tables s D \<longrightarrow> open_tables s' D)"
proof -
  have va: "PDX va < UPDX" using va by (simp add: below_UTOP_iff)
  have main: "\<exists>s' fl'. page_insert d p va perm s0 = (Ret 0, s') \<and> mem_inv s' D K fl'
       \<and> maps_agree s0 s' D d (PGNUM va) (Some (mk_pte p perm)) \<and> rest_same s0 s'
       \<and> (leak_free s0 (insert p K) fl0 \<longrightarrow> leak_free s' K fl')
       \<and> ram s' = (ram s0)(t := (ram s0 t)(PTX va := mk_pte p perm))"
    if inv0: "mem_inv s0 D K fl0" and p0: "insertable s0 D K fl0 p"
      and t: "target s0 D (Tab d (PDX va)) = Some t" for s0 fl0 t
    using page_insert_mapped [OF inv0 p0 perm t]
      umap_store [OF mem_invD(7) [OF inv0] t insert_state_simps(2)]
      leak_free_insert [OF inv0 p0 perm t]
    by (auto simp: maps_agree_def rest_same_def div_UPDX present_def)
  show ?thesis
  proof (cases "tab_of s d (PDX va)")
    case (Some t)
    then have t: "target s D (Tab d (PDX va)) = Some t" using d va by simp
    then have "structural s D t" by (auto simp: structural_def simp del: target.simps)
    then show ?thesis
      using main [OF inv p t] Some open_tables_store [OF mem_invD(7) [OF inv] t] by fastforce
  next
    case None
    show ?thesis
    proof (cases fl)
      case Nil
      then show ?thesis
        using None pgdir_walk_no_mem [OF None] inv by (simp add: page_insert_def)
    next
      case (Cons q fl')
      let ?s = "new_table d (PDX va) q s"
      note invq = inv [unfolded Cons]
      have tq: "target ?s D (Tab d (PDX va)) = Some q"
        using target_new_table [OF invq d va None, of "Tab d (PDX va)"] by simp
      from main [OF mem_inv_new_table [OF invq d va None]
          insertable_new_table [OF invq d va None p [unfolded Cons]] tq]
      obtain s' fl'' where s': "page_insert d p va perm ?s = (Ret 0, s')" "mem_inv s' D K fl''"
        "maps_agree ?s s' D d (PGNUM va) (Some (mk_pte p perm))" "rest_same ?s s'"
        "leak_free ?s (insert p K) fl' \<longrightarrow> leak_free s' K fl''"
        "ram s' = (ram ?s)(q := (ram ?s q)(PTX va := mk_pte p perm))" by blast
      have "maps_agree s s' D d (PGNUM va) (Some (mk_pte p perm))"
        using s'(3) umap_new_table [OF invq d va None] by (simp add: maps_agree_def div_UPDX)
      moreover have "rest_same s s'" using s'(4) by (simp add: rest_same_def)
      moreover have "structural s D d"
        using d unfolding structural_def by (intro exI [of _ "Dir d"]) simp
      then have "ram s' f = ram s f" if "f \<notin> set fl" "\<not> structural s D f" for f
        using that s'(6) Cons by (auto simp: Let_def)
      moreover have "leak_free s (insert p K) fl \<longrightarrow> leak_free s' K fl''"
        using leak_free_new_table [OF invq] s'(5) Cons by auto
      moreover have "open_tables s D \<longrightarrow> open_tables s' D"
        using open_tables_store [OF mem_invD(7) [OF mem_inv_new_table [OF invq d va None]] tq s'(6)]
          open_tables_new_table [OF invq d _ va] by blast
      ultimately show ?thesis
        using s'(1,2) page_insert_via_new_table [OF invq d va None] Cons by auto
    qed
  qed
qed

theorem page_insert_spec:
  assumes "mem_inv s D K fl" and "d \<in> D" and "va < UTOP"
    and "insertable s D K fl p" and "perm < 0x1000"
  shows "if tab_of s d (PDX va) = None \<and> fl = []
     then page_insert d p va perm s = (Ret (- E_NO_MEM), s)
     else \<exists>s' fl'. page_insert d p va perm s = (Ret 0, s') \<and> mem_inv s' D K fl'
       \<and> maps_agree s s' D d (PGNUM va) (Some (mk_pte p perm)) \<and> rest_same s s'
       \<and> (leak_free s (insert p K) fl \<longrightarrow> leak_free s' K fl')
       \<and> (\<forall>f. f \<notin> set fl \<longrightarrow> \<not> structural s D f \<longrightarrow> ram s' f = ram s f)"
proof (cases "tab_of s d (PDX va) = None \<and> fl = []")
  case True
  then show ?thesis using page_insert_full [OF assms] by simp
next
  case False
  show ?thesis using page_insert_full [OF assms] unfolding if_not_P [OF False] by blast
qed

theorem page_remove_full:
  assumes inv: "mem_inv s D K fl" and d: "d \<in> D" and va: "va < UTOP"
  shows "\<exists>s' fl'. page_remove d va s = (Ret (), s') \<and> mem_inv s' D K fl'
     \<and> maps_agree s s' D d (PGNUM va) None \<and> rest_same s s' \<and> set fl \<subseteq> set fl'
     \<and> (leak_free s K fl \<longrightarrow> leak_free s' K fl')
     \<and> (\<forall>f. \<not> structural s D f \<longrightarrow> ram s' f = ram s f)
     \<and> (open_tables s D \<longrightarrow> open_tables s' D)"
proof -
  have va: "PDX va < UPDX" using va by (simp add: below_UTOP_iff)
  show ?thesis
  proof (cases "umap s d (PGNUM va)")
    case None
    then have "page_lookup d va s = (Ret None, s)"
      using page_lookup_unmapped [OF inv d va] target_umap [OF d va, of s] by simp
    then have "page_remove d va s = (Ret (), s)" by (simp add: page_remove_def)
    then show ?thesis using inv None by (auto simp: maps_agree_def)
  next
    case (Some e)
    then have x: "target s D (Pg d (PDX va) (PTX va)) = Some (pte_frame e)"
      using target_umap [OF d va, of s] by simp
    obtain t where t: "target s D (Tab d (PDX va)) = Some t" "tab_of s d (PDX va) = Some t"
      using x by (rule user_slot)
    let ?s = "remove_state d va t (pte_frame e) s"
    note rm = page_remove_mapped [OF inv x t(2)]
    have ram: "ram ?s = (ram s)(t := (ram s t)(PTX va := 0))" by (simp add: remove_state_def)
    have "maps_agree s ?s D d (PGNUM va) None"
      using umap_store [OF mem_invD(7) [OF inv] t(1) ram] by (simp add: maps_agree_def div_UPDX)
    moreover have "structural s D t"
      using t(1) by (auto simp: structural_def simp del: target.simps)
    moreover have "set fl \<subseteq> set (freed (pte_frame e) s fl)" by (auto simp: freed_def)
    moreover have "rest_same s ?s" by (simp add: rest_same_def)
    moreover have "leak_free s K fl \<longrightarrow> leak_free ?s K (freed (pte_frame e) s fl)"
      using leak_free_decref [OF _ mapped_page(5) [OF inv x], of K fl ?s]
      by (simp add: remove_state_def)
    moreover have "open_tables s D \<longrightarrow> open_tables ?s D"
      using open_tables_store [OF mem_invD(7) [OF inv] t(1) ram] by blast
    ultimately show ?thesis using rm ram by auto
  qed
qed

theorem page_remove_spec:
  assumes "mem_inv s D K fl" and "d \<in> D" and "va < UTOP"
  shows "\<exists>s' fl'. page_remove d va s = (Ret (), s') \<and> mem_inv s' D K fl'
     \<and> maps_agree s s' D d (PGNUM va) None \<and> rest_same s s' \<and> set fl \<subseteq> set fl'
     \<and> (leak_free s K fl \<longrightarrow> leak_free s' K fl')
     \<and> (\<forall>f. \<not> structural s D f \<longrightarrow> ram s' f = ram s f)"
  using page_remove_full [OF assms] by blast

theorem page_lookup_spec:
  assumes inv: "mem_inv s D K fl" and d: "d \<in> D" and va: "va < UTOP"
  shows "\<exists>r. page_lookup d va s = (Ret r, s) \<and> map_option fst r = map_option pte_frame (umap s d (PGNUM va))
     \<and> (\<forall>p t j. r = Some (p, t, j) \<longrightarrow> umap s d (PGNUM va) = Some (ram s t j))"
proof -
  have va: "PDX va < UPDX" using va by (simp add: below_UTOP_iff)
  show ?thesis
  proof (cases "umap s d (PGNUM va)")
    case None
    then show ?thesis
      using page_lookup_unmapped [OF inv d va] target_umap [OF d va, of s] by simp
  next
    case (Some e)
    then have x: "target s D (Pg d (PDX va) (PTX va)) = Some (pte_frame e)"
      using target_umap [OF d va, of s] by simp
    obtain t where t: "tab_of s d (PDX va) = Some t" using x by (rule user_slot)
    then have "e = ram s t (PTX va)"
      using Some by (auto simp: umap_def PDX_of_PGNUM PTX_of_PGNUM Let_def split: if_splits)
    then show ?thesis using page_lookup_mapped [OF inv x t] Some by simp
  qed
qed

lemma umap_alloc_state:
  assumes inv: "mem_inv s D K (p # fl)" and a: "a \<in> D" "n div 1024 < UPDX"
  shows "umap (alloc_state p s) a n = umap s a n"
proof (rule umap_frame [OF a])
  have "p \<notin> D" using free_unreferenced [OF inv, of p "Dir p"] by auto
  then show "ram (alloc_state p s) a (n div 1024) = ram s a (n div 1024)" using a by auto
  show "ram (alloc_state p s) t = ram s t" if "target s D (Tab a (n div 1024)) = Some t" for t
    using free_unreferenced [OF inv, of p "Tab a (n div 1024)"] that by auto
qed

theorem page_alloc_spec:
  assumes inv: "mem_inv s D K fl"
  shows "case fl of [] \<Rightarrow> page_alloc flags s = (Ret None, s)
    | p # fl' \<Rightarrow> \<exists>s'. page_alloc flags s = (Ret (Some p), s') \<and> mem_inv s' D K fl'
        \<and> insertable s' D K fl' p \<and> pp_ref (pages s' p) = 0
        \<and> ram s' = (ram s)(p := (\<lambda>_. 0)) \<and> rest_same s s'
        \<and> (leak_free s K fl \<longrightarrow> leak_free s' (insert p K) fl')
        \<and> (\<forall>x. target s' D x = target s D x)
        \<and> (\<forall>a \<in> D. \<forall>m < 1024 * UPDX. umap s' a m = umap s a m)"
proof (cases fl)
  case Nil
  then show ?thesis using page_alloc_None inv by simp
next
  case (Cons p fl')
  note invp = inv [unfolded Cons]
  have p: "p < npages s" "p \<notin> K" "p \<notin> set fl'" "pp_ref (pages s p) = 0"
    using invp by (auto simp: mem_inv_def free_pages_def)
  then have "insertable (alloc_state p s) D K fl' p"
    using target_alloc_state [OF invp] free_unreferenced [OF invp, of p]
    by (auto simp: insertable_def simp del: target.simps)
  then show ?thesis
    using Cons page_alloc_Some [OF invp] mem_inv_alloc [OF invp] target_alloc_state [OF invp] p(4)
      leak_free_alloc [OF invp] umap_alloc_state [OF invp]
    by (simp add: rest_same_def div_UPDX)
qed

section \<open>User address spaces are maps\<close>

text \<open>
  One operation of a history on the address space \<open>d\<close>: \<open>Ins n (p, perm)\<close> is
  \<^verbatim>\<open>page_insert\<close> of page \<open>p\<close> at page number \<open>n\<close>, \<open>Del n\<close> is
  \<^verbatim>\<open>page_remove\<close>.
\<close>

definition page_va :: "nat \<Rightarrow> u32" where
  "page_va n = push_bit 12 (of_nat n)"

definition as_step :: "nat \<Rightarrow> (nat, u32) mop \<Rightarrow> kstate \<Rightarrow> kstate option" where
  "as_step d x s = (case x of
     Ins n e \<Rightarrow> (case page_insert d (pte_frame e) (page_va n) (e AND 0xFFF) s of
       (Ret r, s') \<Rightarrow> if r = 0 then Some s' else None | _ \<Rightarrow> None)
   | Del n \<Rightarrow> (case page_remove d (page_va n) s of (Ret _, s') \<Rightarrow> Some s' | _ \<Rightarrow> None))"

definition as_inv :: "nat set \<Rightarrow> nat set \<Rightarrow> kstate \<Rightarrow> bool" where
  "as_inv D K s \<longleftrightarrow> (\<exists>fl. mem_inv s D K fl)"

definition as_legal :: "nat set \<Rightarrow> nat set \<Rightarrow> (nat, u32) mop \<Rightarrow> kstate \<Rightarrow> bool" where
  "as_legal D K x s = (case x of
     Ins n e \<Rightarrow> n < 1024 * UPDX \<and> present e \<and> (\<forall>fl. mem_inv s D K fl \<longrightarrow> insertable s D K fl (pte_frame e))
   | Del n \<Rightarrow> n < 1024 * UPDX)"

lemma PGNUM_page_va [simp]: "n < 1024 * 1024 \<Longrightarrow> PGNUM (page_va n) = n"
  unfolding page_va_def by (rule PGNUM_push_bit) simp

lemma page_va_UTOP: "n < 1024 * UPDX \<Longrightarrow> page_va n < UTOP"
  unfolding below_UTOP_iff PDX_of_PGNUM by (subst PGNUM_page_va) (simp_all add: kconst)

lemma mk_pte_split: "present e \<Longrightarrow> mk_pte (pte_frame e) (e AND 0xFFF) = e"
proof (rule word_eq_bitI)
  fix n :: nat assume e: "present e" and n: "n < LENGTH(32)"
  have "push_bit 12 (of_nat (pte_frame e)) = PTE_ADDR e"
  proof -
    have "unat (PTE_ADDR e) mod 4096 = 0"
    proof -
      have "PTE_ADDR e AND 0xFFF = 0"
        by (rule word_eq_bitI) (simp add: bit_and_iff bit_PTE_ADDR mask_12 bit_mask_iff)
      then show ?thesis by (metis PGOFF_def PGOFF_eq unat_0)
    qed
    then have "unat (PTE_ADDR e) = pte_frame e * 4096" unfolding PGNUM_eq by auto
    then have "PTE_ADDR e = of_nat (pte_frame e * 4096)" by (metis of_nat_unat ucast_id)
    then show ?thesis by (simp add: push_bit_eq_mult mult.commute)
  qed
  moreover have "bit (e AND 0xFFF) n \<longleftrightarrow> bit e n \<and> n < 12"
    using n by (simp add: mask_12 bit_and_iff bit_mask_iff)
  moreover have "bit e 0"
  proof (rule ccontr)
    assume "\<not> bit e 0"
    then have "e AND PTE_P = 0"
      by (intro word_eq_bitI) (auto simp: bit_and_iff bit_PTE_P intro!: gr0I)
    then show False using e by (simp add: present_def)
  qed
  ultimately show "bit (mk_pte (pte_frame e) (e AND 0xFFF)) n = bit e n"
    by (auto simp: mk_pte_def bit_or_iff bit_PTE_P bit_PTE_ADDR)
qed

lemma low_bits_small: "(e AND 0xFFF :: u32) < 0x1000"
proof -
  have "unat (e AND 0xFFF) < 4096" using PGOFF_less [of e] by (simp add: PGOFF_def)
  then show ?thesis by (simp add: word_less_nat_alt)
qed

lemma as_step_correct:
  assumes inv: "as_inv D K s" and d: "d \<in> D" and legal: "as_legal D K x s"
    and step: "as_step d x s = Some t"
  shows "as_inv D K t \<and> maps_agree s t D d (mop_key x) (case x of Ins n e \<Rightarrow> Some e | Del n \<Rightarrow> None)"
proof -
  obtain fl where fl: "mem_inv s D K fl" using inv by (auto simp: as_inv_def)
  show ?thesis
  proof (cases x)
    case (Ins n e)
    then have n: "n < 1024 * UPDX" "n < 1024 * 1024" and e: "present e"
      and p: "insertable s D K fl (pte_frame e)"
      using legal fl by (auto simp: as_legal_def kconst)
    have "page_insert d (pte_frame e) (page_va n) (e AND 0xFFF) s = (Ret 0, t)"
      using step Ins by (auto simp: as_step_def split: prod.splits outcome.splits if_splits)
    with page_insert_spec [OF fl d page_va_UTOP [OF n(1)] p low_bits_small [of e]]
    obtain fl' where "mem_inv t D K fl'"
      "maps_agree s t D d (PGNUM (page_va n)) (Some (mk_pte (pte_frame e) (e AND 0xFFF)))"
      by (auto simp: E_NO_MEM_def split: if_splits)
    then show ?thesis using Ins n e by (auto simp: as_inv_def mk_pte_split)
  next
    case (Del n)
    then have n: "n < 1024 * UPDX" "n < 1024 * 1024" using legal by (auto simp: as_legal_def kconst)
    have "page_remove d (page_va n) s = (Ret (), t)"
      using step Del by (auto simp: as_step_def split: prod.splits outcome.splits)
    with page_remove_spec [OF fl d page_va_UTOP [OF n(1)]]
    obtain fl' where "mem_inv t D K fl'" "maps_agree s t D d (PGNUM (page_va n)) None" by auto
    then show ?thesis using Del n by (auto simp: as_inv_def)
  qed
qed

definition as_guard :: "nat set \<Rightarrow> nat set \<Rightarrow> nat \<Rightarrow> (nat, u32) mop \<Rightarrow> kstate \<Rightarrow> bool" where
  "as_guard D K d x s \<longleftrightarrow> d \<in> D \<and> as_legal D K x s"

interpretation uspace: map_store "as_step d" "as_guard D K d" "\<lambda>s. umap s d" "as_inv D K"
  "{..<1024 * UPDX}" for D K d
proof
  fix s x t
  assume a: "as_inv D K s" "as_guard D K d x s" "as_step d x s = Some t"
  show "as_inv D K t" using as_step_correct [OF a(1) _ _ a(3)] a(2) by (simp add: as_guard_def)
  fix k assume "k \<in> {..<1024 * UPDX}"
  moreover have "maps_agree s t D d (mop_key x) (case x of Ins n e \<Rightarrow> Some e | Del n \<Rightarrow> None)"
    using as_step_correct [OF a(1) _ _ a(3)] a(2) by (simp add: as_guard_def)
  ultimately show "umap t d k = mop_apply x (umap s d) k"
    using a(2) by (cases x) (auto simp: maps_agree_def as_guard_def)
qed

section \<open>The boot-time free list\<close>

lemma free_pages_link:
  assumes "free_pages s fl" and "i \<notin> set fl" and "i < npages s"
  shows "free_pages (link_free_page i s) (i # fl)"
proof -
  have "chain (\<lambda>p. pp_link (pages (link_free_page i s) p)) (page_free_list s) fl
      = chain (\<lambda>p. pp_link (pages s p)) (page_free_list s) fl"
    by (rule chain_cong) (use assms(2) in \<open>auto simp: link_free_page_def\<close>)
  then show ?thesis
    using assms by (auto simp: free_pages_def link_free_page_def)
qed

lemma link_free_page_simps [simp]:
  "npages (link_free_page i s) = npages s" "nextfree (link_free_page i s) = nextfree s"
  "npages_basemem (link_free_page i s) = npages_basemem s" "ram (link_free_page i s) = ram s"
  by (simp_all add: link_free_page_def upd_page_def)

lemma page_init_range_spec:
  assumes "free_pages s fl" and "distinct is" and "set is \<inter> set fl = {}"
    and "\<forall>i \<in> set is. i < npages s"
  shows "\<exists>s'. page_init_range is s = (Ret (), s')
    \<and> free_pages s' (rev [i \<leftarrow> is. i \<noteq> 7] @ fl)
    \<and> npages s' = npages s \<and> nextfree s' = nextfree s \<and> ram s' = ram s
    \<and> npages_basemem s' = npages_basemem s"
  using assms
proof (induction "is" arbitrary: s fl)
  case Nil
  then show ?case by (simp add: page_init_range_def)
next
  case (Cons i "is")
  have seven: "unat (MPENTRY_PADDR div PGSIZE) = 7" by (simp add: kconst unat_div)
  show ?case
  proof (cases "i = 7")
    case True
    then show ?thesis
      using Cons.IH [OF Cons.prems(1)] Cons.prems seven by (simp add: page_init_range_def)
  next
    case False
    have "free_pages (link_free_page i s) (i # fl)"
      by (rule free_pages_link) (use Cons.prems in auto)
    from Cons.IH [OF this] Cons.prems False seven show ?thesis
      by (auto simp: page_init_range_def)
  qed
qed

definition boot_free :: "nat \<Rightarrow> nat \<Rightarrow> nat \<Rightarrow> nat list" where
  "boot_free base first n =
     rev [i \<leftarrow> [256 + first ..< n]. i \<noteq> 7] @ rev [i \<leftarrow> [1 ..< base]. i \<noteq> 7]"

theorem page_init_establishes:
  assumes zero: "\<forall>p. pages s p = \<lparr>pp_link = None, pp_ref = 0\<rparr>" and l: "page_free_list s = None"
    and n: "npages s \<le> 0x100000" "npages_basemem s \<le> 256" "npages_basemem s \<le> npages s"
    and nf: "nextfree s \<noteq> 0" "KERNBASE \<le> nextfree s"
  defines "fl \<equiv> boot_free (npages_basemem s) (unat ((nextfree s - KERNBASE) div PGSIZE)) (npages s)"
  shows "\<exists>s'. page_init s = (Ret (), s') \<and> mem_inv s' {} {p. p \<notin> set fl} fl"
proof -
  have f0: "free_pages s []" using zero l by (simp add: free_pages_def)
  have r1: "\<exists>s1. page_init_range [1 ..< npages_basemem s] s = (Ret (), s1)
    \<and> free_pages s1 (rev [i \<leftarrow> [1 ..< npages_basemem s]. i \<noteq> 7] @ [])
    \<and> npages s1 = npages s \<and> nextfree s1 = nextfree s \<and> ram s1 = ram s
    \<and> npages_basemem s1 = npages_basemem s"
    by (rule page_init_range_spec [OF f0]) (use n in auto)
  then obtain s1 where s1: "page_init_range [1 ..< npages_basemem s] s = (Ret (), s1)"
    "free_pages s1 (rev [i \<leftarrow> [1 ..< npages_basemem s]. i \<noteq> 7])"
    "npages s1 = npages s" "nextfree s1 = nextfree s" by auto
  let ?k = "unat ((nextfree s - KERNBASE) div PGSIZE)"
  have r2: "\<exists>s2. page_init_range [256 + ?k ..< npages s] s1 = (Ret (), s2)
    \<and> free_pages s2 (rev [i \<leftarrow> [256 + ?k ..< npages s]. i \<noteq> 7]
        @ rev [i \<leftarrow> [1 ..< npages_basemem s]. i \<noteq> 7])
    \<and> npages s2 = npages s1 \<and> nextfree s2 = nextfree s1 \<and> ram s2 = ram s1
    \<and> npages_basemem s2 = npages_basemem s1"
    by (rule page_init_range_spec [OF s1(2)]) (use n s1 in auto)
  have e: "unat (ROUNDUP EXTPHYSMEM PGSIZE div PGSIZE) = 256"
    by (simp add: kconst ROUNDUP_def ROUNDDOWN_def unat_div)
  have "\<exists>s'. page_init s = (Ret (), s') \<and> free_pages s' fl \<and> npages s' = npages s"
    using r2 s1 nf by (auto simp: page_init_def boot_alloc_def PADDR_def e fl_def boot_free_def)
  then obtain s' where s': "page_init s = (Ret (), s')" "free_pages s' fl" "npages s' = npages s"
    by blast
  have none: "target s' {} x = None" for x by (cases x) simp_all
  have "mem_inv s' {} {p. p \<notin> set fl} fl"
    unfolding mem_inv_def owned_once_def counted_def refs_def none
    using s' n by (auto simp: free_pages_def)
  then show ?thesis using s'(1) by blast
qed

section \<open>Checking user pointers\<close>

definition pte_at :: "kstate \<Rightarrow> nat \<Rightarrow> u32 \<Rightarrow> u32 option" where
  "pte_at s d a = (case tab_of s d (PDX a) of None \<Rightarrow> None | Some t \<Rightarrow> Some (ram s t (PTX a)))"

text \<open>The test of the code: one of the requested bits is enough.\<close>

definition user_ok :: "kstate \<Rightarrow> nat \<Rightarrow> u32 \<Rightarrow> u32 \<Rightarrow> bool" where
  "user_ok s d perm a \<longleftrightarrow>
     a < ULIM \<and> (case pte_at s d a of None \<Rightarrow> False | Some e \<Rightarrow> e AND perm \<noteq> 0)"

text \<open>The test the comment describes: all of \<open>perm | PTE_P\<close>. It is the stronger one.\<close>

definition user_may :: "kstate \<Rightarrow> nat \<Rightarrow> u32 \<Rightarrow> u32 \<Rightarrow> bool" where
  "user_may s d perm a \<longleftrightarrow>
     a < ULIM \<and> (case pte_at s d a of None \<Rightarrow> False | Some e \<Rightarrow> e AND (perm OR PTE_P) = perm OR PTE_P)"

lemma user_may_ok:
  assumes "user_may s d perm a" and "perm \<noteq> 0"
  shows "user_ok s d perm a"
proof -
  have "e AND perm = perm" if "e AND (perm OR PTE_P) = perm OR PTE_P" for e
  proof -
    have "e AND perm = (e AND (perm OR PTE_P)) AND perm" by (simp add: and.assoc word_ao_absorbs)
    also have "\<dots> = (perm OR PTE_P) AND perm" by (simp only: that)
    also have "\<dots> = perm" by (simp add: word_ao_absorbs)
    finally show ?thesis .
  qed
  then show ?thesis using assms by (auto simp: user_may_def user_ok_def split: option.splits)
qed

definition tables_in_ram :: "kstate \<Rightarrow> nat \<Rightarrow> bool" where
  "tables_in_ram s d \<longleftrightarrow> (\<forall>i < 1024. \<forall>t. tab_of s d i = Some t \<longrightarrow> t < npages s)"

lemma user_mem_check_from_spec:
  assumes "tables_in_ram s d"
  shows "(\<forall>k < n. user_ok s d perm (va + i + of_nat k)) \<and> user_mem_check_from n d va i perm s = (Ret 0, s)
    \<or> (\<exists>k < n. \<not> user_ok s d perm (va + i + of_nat k)
         \<and> (\<forall>j < k. user_ok s d perm (va + i + of_nat j))
         \<and> user_mem_check_from n d va i perm s
             = (Ret (- E_FAULT), s\<lparr>user_mem_check_addr := va + i + of_nat k\<rparr>))"
proof (induction n arbitrary: i)
  case 0
  show ?case by simp
next
  case (Suc n)
  have walk: "pgdir_walk d (va + i) False s
      = (Ret (map_option (\<lambda>t. (t, PTX (va + i))) (tab_of s d (PDX (va + i)))), s)"
  proof (cases "tab_of s d (PDX (va + i))")
    case None
    then show ?thesis by (simp add: pgdir_walk_absent)
  next
    case (Some t)
    then have "t < npages s" using assms PDX_less unfolding tables_in_ram_def by blast
    with Some show ?thesis by (simp add: pgdir_walk_present)
  qed
  show ?case
  proof (cases "user_ok s d perm (va + i)")
    case True
    then have step: "user_mem_check_from (Suc n) d va i perm s
        = user_mem_check_from n d va (i + 1) perm s"
      using walk by (auto simp: user_ok_def pte_at_def load_pte_def not_le [symmetric]
          split: option.splits)
    have sh: "va + (i + 1) + of_nat k = va + i + of_nat (Suc k)" for k by simp
    from Suc.IH [of "i + 1"] show ?thesis
    proof
      assume a: "(\<forall>k<n. user_ok s d perm (va + (i + 1) + of_nat k)) \<and>
        user_mem_check_from n d va (i + 1) perm s = (Ret 0, s)"
      have "user_ok s d perm (va + i + of_nat k)" if "k < Suc n" for k
      proof (cases k)
        case 0
        then show ?thesis using True by simp
      next
        case (Suc m)
        with a that have "user_ok s d perm (va + (i + 1) + of_nat m)" by auto
        then show ?thesis unfolding Suc sh .
      qed
      then show ?thesis using a step by auto
    next
      assume "\<exists>k<n. \<not> user_ok s d perm (va + (i + 1) + of_nat k)
         \<and> (\<forall>j < k. user_ok s d perm (va + (i + 1) + of_nat j))
         \<and> user_mem_check_from n d va (i + 1) perm s
             = (Ret (- E_FAULT), s\<lparr>user_mem_check_addr := va + (i + 1) + of_nat k\<rparr>)"
      then obtain k where k: "k < n" "\<not> user_ok s d perm (va + i + of_nat (Suc k))"
        "\<forall>j < k. user_ok s d perm (va + i + of_nat (Suc j))"
        "user_mem_check_from n d va (i + 1) perm s
             = (Ret (- E_FAULT), s\<lparr>user_mem_check_addr := va + i + of_nat (Suc k)\<rparr>)"
        unfolding sh by blast
      have "user_ok s d perm (va + i + of_nat j)" if "j < Suc k" for j
        using that True k(3) by (cases j) (auto simp del: of_nat_Suc)
      then show ?thesis using k step by (intro disjI2 exI [of _ "Suc k"]) simp
    qed
  next
    case False
    then have "user_mem_check_from (Suc n) d va i perm s
        = (Ret (- E_FAULT), s\<lparr>user_mem_check_addr := va + i\<rparr>)"
      using walk by (auto simp: user_ok_def pte_at_def load_pte_def split: option.splits)
    then show ?thesis using False by (intro disjI2 exI [of _ 0]) simp
  qed
qed

theorem user_mem_check_spec:
  assumes "env_pgdir (envs s e) = Some d" and "tables_in_ram s d"
  shows "(\<forall>k < unat len. user_ok s d perm (va + of_nat k)) \<and> user_mem_check e va len perm s = (Ret 0, s)
    \<or> (\<exists>k < unat len. \<not> user_ok s d perm (va + of_nat k)
         \<and> (\<forall>j < k. user_ok s d perm (va + of_nat j))
         \<and> user_mem_check e va len perm s
             = (Ret (- E_FAULT), s\<lparr>user_mem_check_addr := va + of_nat k\<rparr>))"
  using user_mem_check_from_spec [OF assms(2), of "unat len" perm va 0] assms(1)
  by (simp add: user_mem_check_def)

section \<open>Bounds\<close>

theorem i386_detect_memory_bound:
  "\<exists>s'. i386_detect_memory cmos s = (Ret (), s') \<and> npages s' \<le> 16639 \<and> npages_basemem s' \<le> 16383"
proof -
  have r: "unat (nvram_read cmos r * 1024 div PGSIZE) \<le> 16383" for r
  proof -
    have "nvram_read cmos r = (nvram_read cmos r AND mask 16)"
    proof (rule word_eq_bitI)
      fix n :: nat assume "n < LENGTH(32)"
      have b: "\<not> bit (cmos q) m" if "8 \<le> m" for q m
        using that bit_imp_le_length [of "cmos q" m] by auto
      have "n < 16" if "bit (cmos q) n" for q using b [of n q] that by force
      moreover have "n < 16" if "bit (cmos q) (n - 8)" for q using b [of "n - 8" q] that by force
      ultimately show "bit (nvram_read cmos r) n = bit (nvram_read cmos r AND mask 16) n"
        by (auto simp: nvram_read_def bit_and_iff bit_or_iff bit_mask_iff
            bit_push_bit_iff bit_ucast_iff)
    qed
    then have "unat (nvram_read cmos r) = unat (nvram_read cmos r) mod 2 ^ 16"
      by (metis unat_and_mask)
    moreover have "unat (nvram_read cmos r) mod 2 ^ 16 < 65536" by simp
    ultimately have lt: "unat (nvram_read cmos r) < 65536" by metis
    then have "unat (nvram_read cmos r * 1024) = unat (nvram_read cmos r) * 1024"
      by (simp add: unat_word_ariths)
    then show ?thesis using lt by (simp add: unat_div PGSIZE_def)
  qed
  show ?thesis
    using r [of NVRAM_BASELO] r [of NVRAM_EXTLO]
    by (auto simp: i386_detect_memory_def Let_def EXTPHYSMEM_def PGSIZE_def unat_div)
qed

end
