(* ===== verification/Jos_Vm.thy ===== *)
theory Jos_Vm
  imports Jos_Pmap_Inv
begin

text \<open>
  Kernel accesses to user memory. Kernel code reads and writes user virtual addresses through
  the page directory loaded in \<^verbatim>\<open>cr3\<close>; \<^verbatim>\<open>CR0_WP\<close> is set, so a write needs
  \<^verbatim>\<open>PTE_W\<close> in both levels. A missing translation is a page fault in kernel mode, on
  which \<^verbatim>\<open>page_fault_handler\<close> panics.
\<close>

section \<open>Bytes in words\<close>

definition get_byte :: "u32 \<Rightarrow> nat \<Rightarrow> u8" where
  "get_byte w k = ucast (drop_bit (8 * k) w)"

definition set_byte :: "u32 \<Rightarrow> nat \<Rightarrow> u8 \<Rightarrow> u32" where
  "set_byte w k b = (w AND NOT (push_bit (8 * k) 0xFF)) OR push_bit (8 * k) (ucast b)"

lemma byte_mask: "(0xFF :: u32) = mask 8"
  by (simp add: mask_eq_exp_minus_1)

lemma bit_u8: "8 \<le> n \<Longrightarrow> \<not> bit (b :: u8) n"
  using bit_imp_le_length [of b n] by auto

lemma get_set_byte:
  assumes "j < 4" and "k < 4"
  shows "get_byte (set_byte w k b) j = (if j = k then b else get_byte w j)"
proof (rule word_eq_bitI)
  fix n :: nat assume n: "n < LENGTH(8)"
  have "8 * j + n < 32" using assms n by simp
  moreover have "8 * k \<le> 8 * j + n \<longleftrightarrow> k \<le> j" using n by auto
  moreover have "8 * j + n - 8 * k < 8 \<longleftrightarrow> j \<le> k" if "k \<le> j" using that n by auto
  ultimately show "bit (get_byte (set_byte w k b) j) n = bit (if j = k then b else get_byte w j) n"
    using n by (auto simp: get_byte_def set_byte_def byte_mask bit_ucast_iff bit_drop_bit_eq
        bit_or_iff bit_and_iff bit_not_iff bit_push_bit_iff bit_mask_iff bit_u8)
qed

section \<open>Translation\<close>

definition translate :: "kstate \<Rightarrow> nat \<Rightarrow> bool \<Rightarrow> u32 \<Rightarrow> (nat \<times> nat) option" where
  "translate s d wr va =
     (let pde = ram s d (PDX va) in
      if pde AND PTE_P = 0 \<or> wr \<and> pde AND PTE_W = 0 then None
      else let pte = ram s (pte_frame pde) (PTX va) in
        if pte AND PTE_P = 0 \<or> wr \<and> pte AND PTE_W = 0 then None
        else Some (pte_frame pte, PGOFF va))"

definition vload8 :: "u32 \<Rightarrow> u8 kernel" where
  "vload8 va = (\<lambda>s. case translate s (cr3 s) False va of
     None \<Rightarrow> panic ''page fault in kernel'' s
   | Some (f, off) \<Rightarrow> (Ret (get_byte (ram s f (off div 4)) (off mod 4)), s))"

definition vstore8 :: "u32 \<Rightarrow> u8 \<Rightarrow> unit kernel" where
  "vstore8 va b = (\<lambda>s. case translate s (cr3 s) True va of
     None \<Rightarrow> panic ''page fault in kernel'' s
   | Some (f, off) \<Rightarrow>
       (Ret (), store_word f (off div 4) (set_byte (ram s f (off div 4)) (off mod 4) b) s))"

definition vload32 :: "u32 \<Rightarrow> u32 kernel" where
  "vload32 va =
     bindM (vload8 va) (\<lambda>b0. bindM (vload8 (va + 1)) (\<lambda>b1.
     bindM (vload8 (va + 2)) (\<lambda>b2. bindM (vload8 (va + 3)) (\<lambda>b3.
       ret (ucast b0 OR push_bit 8 (ucast b1) OR push_bit 16 (ucast b2) OR push_bit 24 (ucast b3))))))"

definition vstore32 :: "u32 \<Rightarrow> u32 \<Rightarrow> unit kernel" where
  "vstore32 va w =
     thenM (vstore8 va (get_byte w 0)) (thenM (vstore8 (va + 1) (get_byte w 1))
     (thenM (vstore8 (va + 2) (get_byte w 2)) (vstore8 (va + 3) (get_byte w 3))))"

definition lcr3 :: "nat option \<Rightarrow> unit kernel" where
  "lcr3 pgdir = (case pgdir of
     None \<Rightarrow> panic ''PADDR called with invalid kva''
   | Some d \<Rightarrow> modifyM (\<lambda>s. s\<lparr>cr3 := d\<rparr>))"

section \<open>Reading back what was written\<close>

lemma store_word_same_frame:
  "translate s d wr va = Some (f, off) \<Longrightarrow> d \<noteq> g \<Longrightarrow> pte_frame (ram s d (PDX va)) \<noteq> g \<Longrightarrow>
   translate (store_word g i v s) d wr va = Some (f, off)"
  by (simp add: translate_def Let_def split: if_splits)

lemma translate_store_user:
  assumes inv: "mem_inv s D K fl" and d: "d \<in> D" and va: "PDX va < UPDX" "PDX va' < UPDX"
    and t: "translate s d wr va = Some (f, off)"
  shows "translate (store_word f i v s) d wr' va' = translate s d wr' va'"
proof -
  have "ram s d (PDX va) AND PTE_P \<noteq> 0" using t by (auto simp: translate_def Let_def split: if_splits)
  then have tab: "tab_of s d (PDX va) = Some (pte_frame (ram s d (PDX va)))"
    by (simp add: tab_of_def entry_frame_def present_def)
  then have pg: "target s D (Pg d (PDX va) (PTX va)) = Some f"
    using t d va by (auto simp: translate_def Let_def entry_frame_def present_def split: if_splits)
  have nf: "target s D x = Some f \<Longrightarrow> is_Pg x" for x
    using owned_onceD [OF mem_invD(7) [OF inv] _ pg, of x] by auto
  have "f \<noteq> d" using nf [of "Dir d"] d by auto
  moreover have "pte_frame (ram s d (PDX va')) \<noteq> f" if "ram s d (PDX va') AND PTE_P \<noteq> 0"
  proof
    assume "pte_frame (ram s d (PDX va')) = f"
    then have "target s D (Tab d (PDX va')) = Some f"
      using that d va by (simp add: tab_of_def entry_frame_def present_def)
    then show False using nf [of "Tab d (PDX va')"] by simp
  qed
  ultimately show ?thesis
    by (cases "ram s d (PDX va') AND PTE_P = 0") (simp_all add: translate_def Let_def)
qed

theorem vload_vstore:
  assumes inv: "mem_inv s D K fl" and cr: "cr3 s \<in> D" and va: "va < UTOP"
    and st: "vstore8 va b s = (Ret (), s')"
  shows "vload8 va s' = (Ret b, s')"
proof -
  have va: "PDX va < UPDX" using va by (simp add: below_UTOP_iff)
  obtain f off where t: "translate s (cr3 s) True va = Some (f, off)"
    and s': "s' = store_word f (off div 4) (set_byte (ram s f (off div 4)) (off mod 4) b) s"
    using st by (auto simp: vstore8_def split: option.splits)
  have "translate s (cr3 s) False va = Some (f, off)"
    using t by (auto simp: translate_def Let_def split: if_splits)
  then have "translate s' (cr3 s) False va = Some (f, off)"
    using translate_store_user [OF inv cr va va t] s' by simp
  moreover have "cr3 s' = cr3 s" using s' by (simp add: store_word_def)
  ultimately show ?thesis
    using s' by (simp add: vload8_def get_set_byte)
qed

end
