(* ===== verification/Jos_Env.thy ===== *)
theory Jos_Env
  imports Jos_Vm
begin

text \<open>
  Environments, \<^verbatim>\<open>kern/env.c\<close>, the scheduler \<^verbatim>\<open>kern/sched.c\<close> and the big kernel
  lock \<^verbatim>\<open>kern/spinlock.c\<close>: the operations. An environment is its index in
  \<^verbatim>\<open>envs[]\<close>. The messages these functions print are not modelled. The theories
  \<open>Jos_Env_Inv\<close> and \<open>Jos_Sched\<close> hold the theorems.
\<close>

section \<open>The kernel lock\<close>

definition spin_initlock :: "unit kernel" where
  "spin_initlock = modifyM (\<lambda>s. s\<lparr>kernel_lock := \<lparr>locked = False, lk_cpu = None\<rparr>\<rparr>)"

definition holding :: "kstate \<Rightarrow> bool" where
  "holding s \<longleftrightarrow> locked (kernel_lock s) \<and> lk_cpu (kernel_lock s) = Some (cpunum s)"

definition lock_kernel :: "unit kernel" where
  "lock_kernel = (\<lambda>s.
     if holding s then panic ''CPU cannot acquire kernel_lock: already holding'' s
     else if locked (kernel_lock s) then (Stop Spinning, s)
     else (Ret (), s\<lparr>kernel_lock := \<lparr>locked = True, lk_cpu = Some (cpunum s)\<rparr>\<rparr>))"

definition unlock_kernel :: "unit kernel" where
  "unlock_kernel = (\<lambda>s.
     if \<not> holding s then panic ''spin_unlock'' s
     else (Ret (), s\<lparr>kernel_lock := \<lparr>locked = False, lk_cpu = None\<rparr>\<rparr>))"

section \<open>Environment identifiers\<close>

definition envid2env :: "i32 \<Rightarrow> bool \<Rightarrow> (i32 \<times> nat option) kernel" where
  "envid2env envid checkperm = (\<lambda>s.
     if envid = 0 then (Ret (0, curenv s), s)
     else let e = ENVX envid in
       if env_status (envs s e) = ENV_FREE \<or> env_id (envs s e) \<noteq> envid
       then (Ret (- E_BAD_ENV, None), s)
       else if checkperm \<and> curenv s \<noteq> Some e then
         (case curenv s of
            None \<Rightarrow> (Stop (BadPointer ''curenv''), s)
          | Some c \<Rightarrow>
              if env_parent_id (envs s e) \<noteq> env_id (envs s c) then (Ret (- E_BAD_ENV, None), s)
              else (Ret (0, Some e), s))
       else (Ret (0, Some e), s))"

definition env_init :: "unit kernel" where
  "env_init =
     thenM (forM [0 ..< NENV] (\<lambda>i. modifyM (upd_env i (\<lambda>e. e\<lparr>
         env_id := 0, env_status := ENV_FREE, env_runs := 0, env_parent_id := 0,
         env_link := (if i \<noteq> NENV then Some (i + 1) else None)\<rparr>))))
       (modifyM (\<lambda>s. s\<lparr>env_free_list := Some 0\<rparr>))"

section \<open>Allocation\<close>

definition env_setup_vm :: "nat \<Rightarrow> i32 kernel" where
  "env_setup_vm e =
     bindM (page_alloc ALLOC_ZERO) (\<lambda>pg.
       case pg of
         None \<Rightarrow> ret (- E_NO_MEM)
       | Some p \<Rightarrow>
           bindM (page2kva p) (\<lambda>d.
           thenM (modifyM (upd_env e (\<lambda>v. v\<lparr>env_pgdir := Some d\<rparr>)))
           (thenM (forM [0 ..< NPDENTRIES] (\<lambda>i. whenM (PDX UTOP \<le> i)
              (modifyM (\<lambda>s. store_word d i (ram s (kern_pgdir s) i) s))))
           (thenM (page_incref p)
           (thenM (modifyM (store_word d (PDX UVPT) (page2pa d OR PTE_P OR PTE_U)))
             (ret 0))))))"

text \<open>
  The identifier of the next environment in a slot: a generation number above the index bits,
  and never zero or negative.
\<close>

definition next_env_id :: "i32 \<Rightarrow> nat \<Rightarrow> i32" where
  "next_env_id eid e =
     (let g = (eid + push_bit ENVGENSHIFT 1) AND NOT (of_nat NENV - 1);
          generation = (if sint g \<le> 0 then push_bit ENVGENSHIFT 1 else g)
      in generation OR of_nat e)"

definition zero_regs :: PushRegs where
  "zero_regs = \<lparr>reg_edi = 0, reg_esi = 0, reg_ebp = 0, reg_oesp = 0, reg_ebx = 0, reg_edx = 0,
     reg_ecx = 0, reg_eax = 0\<rparr>"

definition fresh_tf :: Trapframe where
  "fresh_tf = \<lparr>tf_regs = zero_regs, tf_es = GD_UD OR 3, tf_ds = GD_UD OR 3, tf_trapno = 0,
     tf_err = 0, tf_eip = 0, tf_cs = GD_UT OR 3, tf_eflags = 0 OR FL_IF, tf_esp = USTACKTOP,
     tf_ss = GD_UD OR 3\<rparr>"

definition env_alloc_as :: "EnvType \<Rightarrow> i32 \<Rightarrow> (i32 \<times> nat option) kernel" where
  "env_alloc_as typ parent_id =
     bindM (getsM env_free_list) (\<lambda>l.
       case l of
         None \<Rightarrow> ret (- E_NO_FREE_ENV, None)
       | Some e \<Rightarrow>
           if NENV \<le> e then stop (BadPointer ''envs'')
           else bindM (env_setup_vm e) (\<lambda>r.
             if is_neg r then ret (r, None)
             else
               thenM (modifyM (upd_env e (\<lambda>v. v\<lparr>
                 env_id := next_env_id (env_id v) e, env_parent_id := parent_id,
                 env_type := typ, env_status := ENV_RUNNABLE, env_runs := 0,
                 env_tf := fresh_tf, env_pgfault_upcall := 0, env_ipc_recving := False\<rparr>)))
               (thenM (modifyM (\<lambda>s. s\<lparr>env_free_list := env_link (envs s e)\<rparr>))
                 (ret (0, Some e)))))"

definition env_alloc :: "i32 \<Rightarrow> (i32 \<times> nat option) kernel" where
  "env_alloc parent_id = env_alloc_as ENV_TYPE_USER parent_id"

definition env_guest_alloc :: "i32 \<Rightarrow> (i32 \<times> nat option) kernel" where
  "env_guest_alloc parent_id = env_alloc_as ENV_TYPE_GUEST parent_id"

section \<open>Loading a program\<close>

definition the_pgdir :: "nat \<Rightarrow> nat kernel" where
  "the_pgdir e = (\<lambda>s. case env_pgdir (envs s e) of
     Some d \<Rightarrow> (Ret d, s) | None \<Rightarrow> (Stop (BadPointer ''env_pgdir''), s))"

definition region_alloc :: "nat \<Rightarrow> u32 \<Rightarrow> u32 \<Rightarrow> unit kernel" where
  "region_alloc e va len =
     (let upper = ROUNDUP (va + len) PGSIZE; v = ROUNDDOWN va PGSIZE;
          no_pages = (upper - v) div PGSIZE
      in forM [0 ..< unat no_pages] (\<lambda>i.
           bindM (page_alloc 0) (\<lambda>pg.
             case pg of
               None \<Rightarrow> panic ''Can't allocate required length bytes''
             | Some p \<Rightarrow> bindM (the_pgdir e) (\<lambda>d.
                 bindM (page_insert d p (v + of_nat i * PGSIZE) (PTE_U OR PTE_W)) (\<lambda>_. ret ())))))"

text \<open>A program image is a function from offsets to bytes.\<close>

definition le16 :: "(nat \<Rightarrow> u8) \<Rightarrow> nat \<Rightarrow> u16" where
  "le16 b i = ucast (b i) OR push_bit 8 (ucast (b (i + 1)))"

definition le32 :: "(nat \<Rightarrow> u8) \<Rightarrow> nat \<Rightarrow> u32" where
  "le32 b i = ucast (b i) OR push_bit 8 (ucast (b (i + 1)))
     OR push_bit 16 (ucast (b (i + 2))) OR push_bit 24 (ucast (b (i + 3)))"

definition ELF_MAGIC :: u32 where [kconst]: "ELF_MAGIC = 0x464C457F"
definition ELF_PROG_LOAD :: u32 where [kconst]: "ELF_PROG_LOAD = 1"

record Elf =
  e_magic :: u32
  e_entry :: u32
  e_phoff :: u32
  e_phnum :: u16

record Proghdr =
  p_type :: u32
  p_offset :: u32
  p_va :: u32
  p_filesz :: u32
  p_memsz :: u32
  p_flags :: u32

definition elf_header :: "(nat \<Rightarrow> u8) \<Rightarrow> Elf" where
  "elf_header b = \<lparr>e_magic = le32 b 0, e_entry = le32 b 24, e_phoff = le32 b 28,
     e_phnum = le16 b 44\<rparr>"

definition prog_header :: "(nat \<Rightarrow> u8) \<Rightarrow> nat \<Rightarrow> Proghdr" where
  "prog_header b o' = \<lparr>p_type = le32 b o', p_offset = le32 b (o' + 4), p_va = le32 b (o' + 8),
     p_filesz = le32 b (o' + 16), p_memsz = le32 b (o' + 20), p_flags = le32 b (o' + 24)\<rparr>"

definition load_segment :: "nat \<Rightarrow> (nat \<Rightarrow> u8) \<Rightarrow> Proghdr \<Rightarrow> unit kernel" where
  "load_segment e binary ph =
     thenM (region_alloc e (p_va ph) (p_memsz ph))
     (if p_memsz ph < p_filesz ph then panic ''Not well formed''
      else thenM
        (forM [0 ..< unat (p_filesz ph)] (\<lambda>i.
           vstore8 (p_va ph + of_nat i) (binary (unat (p_offset ph) + i))))
        (forM [0 ..< unat (p_memsz ph - p_filesz ph)] (\<lambda>i.
           vstore8 (p_va ph + p_filesz ph + of_nat i) 0)))"

definition load_icode :: "nat \<Rightarrow> (nat \<Rightarrow> u8) \<Rightarrow> unit kernel" where
  "load_icode e binary =
     (let bin = elf_header binary in
      if e_magic bin \<noteq> ELF_MAGIC then panic ''Elf not well formed''
      else
        thenM (bindM (getsM (\<lambda>s. env_pgdir (envs s e))) lcr3)
        (thenM (forM [0 ..< unat (e_phnum bin)] (\<lambda>k.
           let ph = prog_header binary (unat (e_phoff bin) + 32 * k) in
           whenM (p_type ph = ELF_PROG_LOAD) (load_segment e binary ph)))
        (thenM (modifyM (upd_env e (\<lambda>v. v\<lparr>env_tf := (env_tf v)\<lparr>tf_eip := e_entry bin\<rparr>\<rparr>)))
          (region_alloc e (USTACKTOP - PGSIZE) PGSIZE))))"

definition env_create :: "(nat \<Rightarrow> u8) \<Rightarrow> EnvType \<Rightarrow> unit kernel" where
  "env_create binary typ =
     bindM (env_alloc 0) (\<lambda>(p, e).
       if is_neg p then panic ''First env not allocated''
       else case e of
         None \<Rightarrow> stop (BadPointer ''env_create'')
       | Some e \<Rightarrow>
           thenM (load_icode e binary)
           (thenM (modifyM (upd_env e (\<lambda>v. v\<lparr>env_type := typ\<rparr>)))
           (whenM (typ = ENV_TYPE_FS) (modifyM (upd_env e (\<lambda>v. v\<lparr>env_tf :=
              (env_tf v)\<lparr>tf_eflags := tf_eflags (env_tf v) OR FL_IOPL_MASK\<rparr>\<rparr>))))))"

section \<open>Running\<close>

definition env_pop_tf :: "nat \<Rightarrow> unit kernel" where
  "env_pop_tf e =
     bindM get_curenv (\<lambda>c.
     thenM (modifyM (\<lambda>s. upd_env c (\<lambda>v. v\<lparr>env_cpunum := cpunum s\<rparr>) s)) (stop (EnterUser e)))"

definition demote_curenv :: "kstate \<Rightarrow> kstate" where
  "demote_curenv s = (case curenv s of
     None \<Rightarrow> s
   | Some c \<Rightarrow> if env_status (envs s c) = ENV_RUNNING
       then upd_env c (\<lambda>v. v\<lparr>env_status := ENV_RUNNABLE\<rparr>) s else s)"

definition env_run :: "nat \<Rightarrow> unit kernel" where
  "env_run e =
     thenM (modifyM demote_curenv)
     (thenM (modifyM (set_curenv (Some e)))
     (thenM (modifyM (\<lambda>s. upd_env e (\<lambda>v. v\<lparr>env_cpunum := cpunum s\<rparr>) s))
     (thenM (modifyM (upd_env e (\<lambda>v. v\<lparr>env_status := ENV_RUNNING, env_runs := env_runs v + 1\<rparr>)))
     (thenM unlock_kernel
     (thenM (bindM (getsM (\<lambda>s. env_pgdir (envs s e))) lcr3)
       (env_pop_tf e))))))"

section \<open>Scheduling\<close>

definition sched_halt :: "unit kernel" where
  "sched_halt = (\<lambda>s.
     if (\<forall>i < NENV. env_status (envs s i) \<notin> {ENV_RUNNABLE, ENV_RUNNING, ENV_DYING})
     then (Stop InMonitor, s)
     else thenM (modifyM (set_curenv None))
       (thenM (modifyM (\<lambda>s. s\<lparr>cr3 := kern_pgdir s\<rparr>))
       (thenM (modifyM (\<lambda>s. s\<lparr>cpus := (cpus s)(cpunum s := (cpus s (cpunum s))\<lparr>cpu_status := CPU_HALTED\<rparr>)\<rparr>))
       (thenM unlock_kernel (stop CpuHalt)))) s)"

definition sched_start :: "kstate \<Rightarrow> nat" where
  "sched_start s =
     ((case curenv s of None \<Rightarrow> 0 | Some e \<Rightarrow> ENVX (env_id (envs s e))) + 1) mod NENV"

definition sched_order :: "nat \<Rightarrow> nat list" where
  "sched_order first = map (\<lambda>i. (first + i) mod NENV) [0 ..< NENV]"

definition sched_ready :: "kstate \<Rightarrow> nat \<Rightarrow> bool" where
  "sched_ready s j \<longleftrightarrow> env_type (envs s j) \<noteq> ENV_TYPE_IDLE \<and> env_status (envs s j) = ENV_RUNNABLE"

definition sched_mine :: "kstate \<Rightarrow> nat \<Rightarrow> bool" where
  "sched_mine s j \<longleftrightarrow> env_type (envs s j) \<noteq> ENV_TYPE_IDLE \<and> env_status (envs s j) = ENV_RUNNING
     \<and> env_cpunum (envs s j) = cpunum s"

definition sched_yield :: "unit kernel" where
  "sched_yield = (\<lambda>s.
     let order = sched_order (sched_start s) in
     case find (sched_ready s) order of
       Some j \<Rightarrow> env_run j s
     | None \<Rightarrow> (case find (sched_mine s) order of
         Some j \<Rightarrow> env_run j s
       | None \<Rightarrow>
           let idle = cpunum s in
           if \<not> (env_status (envs s idle) = ENV_RUNNABLE \<or> env_status (envs s idle) = ENV_RUNNING)
           then sched_halt s else env_run idle s))"

section \<open>Freeing\<close>

definition env_free_table :: "nat \<Rightarrow> nat \<Rightarrow> unit kernel" where
  "env_free_table d pdeno =
     bindM (load_pte (d, pdeno)) (\<lambda>pde.
       if pde AND PTE_P = 0 then ret ()
       else let pa = PTE_ADDR pde in
         bindM (KADDR pa) (\<lambda>pt.
         thenM (forM [0 ..< 1024] (\<lambda>pteno.
           bindM (load_pte (pt, pteno)) (\<lambda>pte.
             whenM (pte AND PTE_P \<noteq> 0) (page_remove d (PGADDR pdeno pteno 0)))))
         (thenM (store_pte (d, pdeno) 0)
           (bindM (pa2page pa) page_decref))))"

definition env_free :: "nat \<Rightarrow> unit kernel" where
  "env_free e =
     thenM (modifyM (\<lambda>s. if curenv s = Some e then s\<lparr>cr3 := kern_pgdir s\<rparr> else s))
     (bindM (the_pgdir e) (\<lambda>d.
      thenM (forM [0 ..< PDX UTOP] (env_free_table d))
      (thenM (modifyM (upd_env e (\<lambda>v. v\<lparr>env_pgdir := None\<rparr>)))
      (thenM (bindM (pa2page (page2pa d)) page_decref)
      (thenM (modifyM (\<lambda>s. upd_env e (\<lambda>v. v\<lparr>env_status := ENV_FREE, env_link := env_free_list s\<rparr>) s))
        (modifyM (\<lambda>s. s\<lparr>env_free_list := Some e\<rparr>)))))))"

definition env_destroy :: "nat \<Rightarrow> unit kernel" where
  "env_destroy e = (\<lambda>s.
     if env_status (envs s e) = ENV_RUNNING \<and> curenv s \<noteq> Some e
     then (Ret (), upd_env e (\<lambda>v. v\<lparr>env_status := ENV_DYING\<rparr>) s)
     else thenM (env_free e)
       (\<lambda>s. if curenv s = Some e then sched_yield (set_curenv None s) else (Ret (), s)) s)"

definition user_mem_assert :: "nat \<Rightarrow> u32 \<Rightarrow> u32 \<Rightarrow> u32 \<Rightarrow> unit kernel" where
  "user_mem_assert e va len perm =
     bindM (user_mem_check e va len (perm OR PTE_U OR PTE_P)) (\<lambda>r.
       whenM (is_neg r) (env_destroy e))"

end
