(* ===== verification/Jos_Env_Inv.thy ===== *)
theory Jos_Env_Inv
  imports Jos_Env
begin

text \<open>
  Environments: identifiers, creation and destruction of address spaces, and the invariant that
  ties the environment table to the memory invariant of \<open>Jos_Pmap_Inv\<close>.
\<close>

section \<open>Identifiers\<close>

lemma mask_gen: "(of_nat NENV - 1 :: i32) = mask 10"
  by (simp add: kconst mask_eq_exp_minus_1)

lemma gen_4096: "push_bit ENVGENSHIFT (1 :: i32) = 4096"
  by (simp add: kconst push_bit_eq_mult)

lemma sint_pos_iff: "0 < sint (w :: i32) \<longleftrightarrow> w \<noteq> 0 \<and> \<not> bit w 31"
proof -
  have "sint w < 0 \<longleftrightarrow> bit w 31" using bit_last_iff [of w] by simp
  moreover have "sint w = 0 \<longleftrightarrow> w = 0" by (metis signed_0 word_eq_iff_signed)
  ultimately show ?thesis by linarith
qed

lemma bit_index: "e < NENV \<Longrightarrow> 10 \<le> n \<Longrightarrow> \<not> bit (of_nat e :: i32) n"
proof -
  assume a: "e < NENV" "10 \<le> n"
  have "(2::nat) ^ 10 \<le> 2 ^ n" using a(2) by (rule power_increasing) simp
  then have "\<not> bit e n" using a(1) by (simp add: bit_iff_odd kconst)
  then show ?thesis by (simp add: bit_of_nat_iff)
qed

definition generation :: "i32 \<Rightarrow> i32" where
  "generation eid = (let g = (eid + 4096) AND NOT (mask 10) in if sint g \<le> 0 then 4096 else g)"

lemma next_env_id_eq: "next_env_id eid e = generation eid OR of_nat e"
  unfolding next_env_id_def generation_def Let_def gen_4096 mask_gen ..

lemma generation_bits:
  "n < 10 \<Longrightarrow> \<not> bit (generation eid) n" "\<not> bit (generation eid) 31" "generation eid \<noteq> 0"
proof -
  have p: "0 < sint (generation eid)"
    by (simp add: generation_def Let_def)
  then show "\<not> bit (generation eid) 31" "generation eid \<noteq> 0" by (simp_all add: sint_pos_iff)
  show "\<not> bit (generation eid) n" if "n < 10"
  proof -
    have "n \<noteq> 12" using that by simp
    moreover have "(4096 :: i32) = push_bit 12 1" by (simp add: push_bit_eq_mult)
    ultimately have "\<not> bit (4096 :: i32) n"
      by (simp only: bit_push_bit_iff) (simp add: bit_1_iff)
    then show ?thesis
      using that by (simp add: generation_def Let_def bit_and_iff bit_not_iff bit_mask_iff)
  qed
qed

theorem next_env_id_wf:
  assumes "e < NENV"
  shows "ENVX (next_env_id eid e) = e" and "0 < sint (next_env_id eid e)"
proof -
  have "(generation eid OR of_nat e) AND mask 10 = (of_nat e :: i32)"
  proof (rule word_eq_bitI)
    fix n :: nat assume n: "n < LENGTH(32)"
    show "bit ((generation eid OR of_nat e) AND mask 10) n = bit (of_nat e :: i32) n"
      using n generation_bits(1) [of n eid] bit_index [OF assms, of n]
      by (cases "n < 10") (auto simp: bit_and_iff bit_or_iff bit_mask_iff)
  qed
  moreover have "unat (of_nat e :: i32) = e"
    using assms by (simp add: unat_of_nat take_bit_eq_mod kconst)
  ultimately show "ENVX (next_env_id eid e) = e"
    unfolding next_env_id_eq ENVX_def mask_gen by simp
  have "generation eid OR of_nat e \<noteq> 0"
    using generation_bits(3) [of eid] by (simp add: or_eq_0_iff)
  moreover have "\<not> bit (generation eid OR of_nat e) 31"
    using generation_bits(2) bit_index [OF assms, of 31] by (simp add: bit_or_iff)
  ultimately show "0 < sint (next_env_id eid e)"
    unfolding next_env_id_eq by (simp add: sint_pos_iff)
qed

section \<open>Taking a structural page away\<close>

text \<open>
  A directory or page table \<open>p\<close> that the single slot \<open>x\<close> points to, and in which no
  entry is in use, loses that slot: its count drops to zero and it goes to the free list.
\<close>

lemma structural_ref:
  assumes inv: "mem_inv s D K fl" and x: "target s D x = Some p" and np: "\<not> is_Pg x"
  shows "pp_ref (pages s p) = 1" and "target s D y = Some p \<longleftrightarrow> y = x"
proof -
  have only: "target s D y = Some p \<longleftrightarrow> y = x" for y
    using owned_onceD [OF mem_invD(7) [OF inv] x, of y] x np by auto
  then show "target s D y = Some p \<longleftrightarrow> y = x" .
  have "refs s D p = {x}" using only by (auto simp: refs_def)
  then have "unat (pp_ref (pages s p)) = 1"
    using mem_invD(8) [OF inv] mapped_page(1,2) [OF inv x] by (simp add: counted_def)
  then show "pp_ref (pages s p) = 1" by (metis of_nat_1 of_nat_unat ucast_id)
qed

lemma mem_inv_disown:
  assumes inv: "mem_inv s D K fl" and x: "target s D x = Some p" and np: "\<not> is_Pg x"
    and sub: "D' \<subseteq> D" and tgt: "\<And>y. target s' D' y = ((target s D)(x := None)) y"
    and st: "npages s' = npages s" "pages s' = pages (decref_state p s)"
      "page_free_list s' = page_free_list (decref_state p s)"
  shows "mem_inv s' D' K (p # fl)"
proof -
  note p = mapped_page [OF inv x]
  note only = structural_ref(2) [OF inv x np]
  have fr: "freed p s fl = p # fl"
    using structural_ref(1) [OF inv x np] by (simp add: freed_def)
  have "free_pages (decref_state p s) (p # fl)"
    using free_pages_decref [OF mem_invD(3) [OF inv] p(3,1)] fr by simp
  then have "free_pages s' (p # fl)" using st by (simp add: free_pages_def)
  moreover have "counted s' D' K"
    unfolding counted_def st
  proof (intro allI impI)
    fix q assume q: "q < npages s" "q \<notin> K"
    have old: "unat (pp_ref (pages s q)) = card (refs s D q)"
      using q mem_invD(8) [OF inv] by (simp add: counted_def)
    show "unat (pp_ref (pages (decref_state p s) q)) = card (refs s' D' q)"
    proof (cases "q = p")
      case True
      then have "refs s' D' q = {}" using only by (auto simp: refs_def tgt)
      then show ?thesis using True structural_ref(1) [OF inv x np] by simp
    next
      case False
      then have "refs s' D' q = refs s D q" using x by (auto simp: refs_def tgt)
      then show ?thesis using old False by simp
    qed
  qed
  moreover have "owned_once s' D'"
    unfolding owned_once_def tgt
    using mem_invD(7) [OF inv] by (auto simp: owned_once_def)
  moreover have "q < npages s' \<and> q \<notin> K" if "target s' D' y = Some q" for y q
    using that mem_invD(5,6) [OF inv] st(1) by (auto simp: tgt split: if_splits)
  ultimately show ?thesis
    using inv st(1) p(2) finite_subset [OF sub] by (auto simp: mem_inv_def)
qed

lemma target_drop_table:
  assumes inv: "mem_inv s D K fl" and x: "target s D (Tab d i) = Some t"
    and empty: "\<forall>j < 1024. \<not> present (ram s t j)"
    and ram: "ram s' = (ram s)(d := (ram s d)(i := 0))"
  shows "target s' D y = ((target s D)(Tab d i := None)) y"
proof -
  have d: "d \<in> D" "i < UPDX" "tab_of s d i = Some t" using x by (auto split: if_splits)
  have tab: "tab_of s' a b = (if a = d \<and> b = i then None else tab_of s a b)" for a b
    using ram by (auto simp: tab_of_def)
  have row: "ram s' u = ram s u" if "target s D (Tab a b) = Some u" for a b u
    using tab_notin_D [OF mem_invD(7) [OF inv] that] d(1) ram by auto
  show ?thesis
  proof (cases y)
    case (Pg a b c)
    show ?thesis
    proof (cases "a \<in> D \<and> b < UPDX \<and> c < 1024")
      case True
      then have "target s' D (Pg a b c) = target s D (Pg a b c)"
        using row [of a b] d empty by (auto simp: tab entry_frame_def split: option.split)
      then show ?thesis using Pg by simp
    next
      case False
      then show ?thesis using Pg by auto
    qed
  qed (use tab d in auto)
qed

lemma target_drop_dir:
  assumes d: "d \<in> D" and empty: "\<forall>i < UPDX. tab_of s d i = None" and ram: "ram s' = ram s"
  shows "target s' (D - {d}) y = ((target s D)(Dir d := None)) y"
  using d empty by (cases y) (auto simp: tab_of_def ram split: option.split)

section \<open>Emptying one page table\<close>

lemma PGADDR_parts:
  assumes "i < UPDX" and "j < 1024"
  shows "PDX (PGADDR i j 0) = i" and "PTX (PGADDR i j 0) = j"
  using PGADDR_round [of i j] assms by (simp_all add: kconst)

definition cleared :: "kstate \<Rightarrow> nat \<Rightarrow> nat set \<Rightarrow> nat set \<Rightarrow> nat list \<Rightarrow> nat \<Rightarrow> kstate \<Rightarrow> bool" where
  "cleared s t D K fl k u \<longleftrightarrow> (\<exists>fl'. mem_inv u D K fl' \<and> (leak_free s K fl \<longrightarrow> leak_free u K fl')
     \<and> set fl \<subseteq> set fl')
     \<and> rest_same s u \<and> (\<forall>g. g \<noteq> t \<longrightarrow> ram u g = ram s g) \<and> (\<forall>j < k. \<not> present (ram u t j))"

lemma clear_step:
  assumes x: "target s D (Tab d i) = Some t" and j: "j < 1024"
    and inv: "cleared s t D K fl j u" and td: "t \<noteq> d"
  shows "\<exists>v. bindM (load_pte (t, j)) (\<lambda>pte.
      whenM (pte AND PTE_P \<noteq> 0) (page_remove d (PGADDR i j 0))) u = (Ret (), v)
    \<and> cleared s t D K fl (Suc j) v"
proof -
  obtain fl' where fl': "mem_inv u D K fl'" "leak_free s K fl \<longrightarrow> leak_free u K fl'" "set fl \<subseteq> set fl'"
    and r: "rest_same s u" "\<forall>g. g \<noteq> t \<longrightarrow> ram u g = ram s g" "\<forall>k < j. \<not> present (ram u t k)"
    using inv by (auto simp: cleared_def)
  have d: "d \<in> D" "i < UPDX" "tab_of s d i = Some t" using x by (auto split: if_splits)
  then have tu: "tab_of u d i = Some t" using r(2) td by (simp add: tab_of_def)
  note va = PGADDR_parts [OF d(2) j]
  show ?thesis
  proof (cases "present (ram u t j)")
    case False
    have "k < Suc j \<Longrightarrow> \<not> present (ram u t k)" for k
      using False r(3) by (cases "k = j") auto
    then have "cleared s t D K fl (Suc j) u" using inv by (auto simp: cleared_def)
    then show ?thesis using False by (simp add: load_pte_def present_def)
  next
    case True
    let ?q = "pte_frame (ram u t j)" and ?va = "PGADDR i j 0"
    let ?v = "remove_state d ?va t ?q u"
    have tgt: "target u D (Pg d (PDX ?va) (PTX ?va)) = Some ?q"
      using d tu True j by (simp add: va entry_frame_def)
    have "page_remove d ?va u = (Ret (), ?v) \<and> mem_inv ?v D K (freed ?q u fl')"
      by (rule page_remove_mapped [OF fl'(1) tgt]) (simp add: va tu)
    moreover have ram: "ram ?v = (ram u)(t := (ram u t)(j := 0))"
      by (simp add: remove_state_def va)
    moreover have "leak_free s K fl \<longrightarrow> leak_free ?v K (freed ?q u fl')"
      using leak_free_decref [OF _ mapped_page(5) [OF fl'(1) tgt], of K fl' ?v] fl'(2)
      by (simp add: remove_state_def)
    moreover have "rest_same s ?v" using r(1) by (simp add: rest_same_def)
    moreover have "set fl \<subseteq> set (freed ?q u fl')" using fl'(3) by (auto simp: freed_def)
    moreover have "k < Suc j \<Longrightarrow> \<not> present (ram ?v t k)" for k
      using r(3) by (cases "k = j") (auto simp: ram)
    ultimately have "page_remove d ?va u = (Ret (), ?v) \<and> cleared s t D K fl (Suc j) ?v"
      using r(2) unfolding cleared_def by auto
    then show ?thesis using True by (auto simp: load_pte_def present_def)
  qed
qed

section \<open>Destroying an address space\<close>

definition shrunk :: "kstate \<Rightarrow> nat \<Rightarrow> nat set \<Rightarrow> nat set \<Rightarrow> nat list \<Rightarrow> kstate \<Rightarrow> bool" where
  "shrunk s d D K fl u \<longleftrightarrow> (\<exists>fl'. mem_inv u D K fl' \<and> (leak_free s K fl \<longrightarrow> leak_free u K fl')
     \<and> set fl \<subseteq> set fl') \<and> rest_same s u
     \<and> (\<forall>a \<in> D - {d}. ram u a = ram s a \<and> (\<forall>m < 1024 * UPDX. umap u a m = umap s a m))"

lemma shrunk_trans:
  assumes "shrunk s d D K fl u" and "\<And>fl'. mem_inv u D K fl' \<Longrightarrow> shrunk u d D K fl' v"
  shows "shrunk s d D K fl v"
proof -
  obtain fl' where f: "mem_inv u D K fl'" "leak_free s K fl \<longrightarrow> leak_free u K fl'" "set fl \<subseteq> set fl'"
    using assms(1) by (auto simp: shrunk_def)
  obtain fl'' where g: "mem_inv v D K fl''" "leak_free u K fl' \<longrightarrow> leak_free v K fl''"
    "set fl' \<subseteq> set fl''"
    using assms(2) [OF f(1)] by (auto simp: shrunk_def)
  have "\<exists>fl''. mem_inv v D K fl'' \<and> (leak_free s K fl \<longrightarrow> leak_free v K fl'') \<and> set fl \<subseteq> set fl''"
    using f g by blast
  then show ?thesis
    using assms(1) assms(2) [OF f(1)] by (auto simp: shrunk_def rest_same_def)
qed

lemma env_free_table_spec:
  assumes inv: "mem_inv s D K fl" and d: "d \<in> D" "i < UPDX"
  shows "\<exists>u. env_free_table d i s = (Ret (), u) \<and> shrunk s d D K fl u
    \<and> (\<forall>b < UPDX. tab_of u d b = (if b = i then None else tab_of s d b))"
proof (cases "tab_of s d i")
  case None
  then have "env_free_table d i s = (Ret (), s)"
    by (simp add: env_free_table_def load_pte_def tab_absent)
  then show ?thesis using inv None by (auto simp: shrunk_def)
next
  case (Some t)
  then have x: "target s D (Tab d i) = Some t" using d by simp
  have tD: "t \<notin> D" by (rule tab_notin_D [OF mem_invD(7) [OF inv] x])
  then have td: "t \<noteq> d" using d by blast
  have tn: "t < npages s" using mem_invD(5) [OF inv x] .
  have pf: "pte_frame (ram s d i) = t" "ram s d i AND PTE_P \<noteq> 0"
    using Some by (simp_all add: tab_present)
  have "\<exists>u. forM [0 ..< 1024] (\<lambda>j. bindM (load_pte (t, j)) (\<lambda>pte.
      whenM (pte AND PTE_P \<noteq> 0) (page_remove d (PGADDR i j 0)))) s = (Ret (), u)
      \<and> cleared s t D K fl 1024 u"
  proof (rule forM_invariant)
    show "cleared s t D K fl 0 s" using inv by (auto simp: cleared_def)
  qed (rule clear_step [OF x _ _ td])
  then obtain u where u: "forM [0 ..< 1024] (\<lambda>j. bindM (load_pte (t, j)) (\<lambda>pte.
      whenM (pte AND PTE_P \<noteq> 0) (page_remove d (PGADDR i j 0)))) s = (Ret (), u)"
      "cleared s t D K fl 1024 u" by blast
  then obtain fl' where fl': "mem_inv u D K fl'" "leak_free s K fl \<longrightarrow> leak_free u K fl'"
      "set fl \<subseteq> set fl'"
    and r: "rest_same s u" "\<forall>g. g \<noteq> t \<longrightarrow> ram u g = ram s g" "\<forall>j < 1024. \<not> present (ram u t j)"
    by (auto simp: cleared_def)
  have tu: "tab_of u d i = Some t" using Some r(2) td by (simp add: tab_of_def)
  then have xu: "target u D (Tab d i) = Some t" using d by simp
  let ?v = "decref_state t (store_word d i 0 u)"
  have link: "pp_link (pages (store_word d i 0 u) t) = None"
    using mapped_page(4) [OF fl'(1) xu] by simp
  have run: "env_free_table d i s = (Ret (), ?v)"
    using pf tn u(1) rest_sameD(1) [OF r(1)] page_decref_eq [OF link]
    by (simp add: env_free_table_def load_pte_def Let_def KADDR_def store_pte_def pa2page_def)
  have ram: "ram ?v = (ram u)(d := (ram u d)(i := 0))" by simp
  have inv_v: "mem_inv ?v D K (t # fl')"
  proof (rule mem_inv_disown [OF fl'(1) xu, where D' = D])
    show "target ?v D y = ((target u D)(Tab d i := None)) y" for y
      by (rule target_drop_table [OF fl'(1) xu r(3) ram])
  qed (simp_all add: decref_state_def Let_def)
  have "leak_free ?v K (t # fl')" if "leak_free s K fl"
  proof -
    have "freed t u fl' = t # fl'"
      using structural_ref(1) [OF fl'(1) xu] by (simp add: freed_def)
    then show ?thesis
      using leak_free_decref [OF _ mapped_page(5) [OF fl'(1) xu], of K fl' ?v] fl'(2) that by simp
  qed
  moreover have "rest_same s ?v" using r(1) by (simp add: rest_same_def)
  moreover have others: "ram ?v a = ram s a" if "a \<in> D - {d}" for a
    using that r(2) tD by auto
  moreover have "umap ?v a m = umap s a m" if a: "a \<in> D - {d}" and m: "m < 1024 * UPDX" for a m
  proof (rule umap_frame)
    show "a \<in> D" "m div 1024 < UPDX" using a div_UPDX [OF m] by auto
    show "ram ?v a (m div 1024) = ram s a (m div 1024)" using others [OF a] by simp
    fix t' assume t': "target s D (Tab a (m div 1024)) = Some t'"
    then have "t' \<noteq> t" using owned_onceD [OF mem_invD(7) [OF inv] t', of "Tab d i"] x a by auto
    moreover have "t' \<noteq> d" using tab_notin_D [OF mem_invD(7) [OF inv] t'] d by auto
    ultimately show "ram ?v t' = ram s t'" using r(2) by simp
  qed
  ultimately have "shrunk s d D K fl ?v"
    using inv_v fl'(3) unfolding shrunk_def by (auto intro!: exI [of _ "t # fl'"])
  moreover have "\<forall>b < UPDX. tab_of ?v d b = (if b = i then None else tab_of s d b)"
    using r(2) td by (simp add: tab_of_def)
  ultimately show ?thesis using run by blast
qed

text \<open>All user mappings and all page tables of one address space are released.\<close>

lemma free_user_space:
  assumes inv: "mem_inv s D K fl" and d: "d \<in> D"
  shows "\<exists>u. forM [0 ..< PDX UTOP] (env_free_table d) s = (Ret (), u) \<and> shrunk s d D K fl u
    \<and> (\<forall>b < UPDX. tab_of u d b = None)"
proof -
  define P where "P k u \<longleftrightarrow> shrunk s d D K fl u
    \<and> (\<forall>b < UPDX. b < k \<longrightarrow> tab_of u d b = None)" for k u
  have "\<exists>u. forM [0 ..< UPDX] (env_free_table d) s = (Ret (), u) \<and> P UPDX u"
  proof (rule forM_invariant)
    show "P 0 s" using inv by (auto simp: P_def shrunk_def)
    fix i u assume i: "i < UPDX" and P: "P i u"
    obtain fl' where fl': "mem_inv u D K fl'" using P by (auto simp: P_def shrunk_def)
    obtain v where v: "env_free_table d i u = (Ret (), v)" "shrunk u d D K fl' v"
      "\<forall>b < UPDX. tab_of v d b = (if b = i then None else tab_of u d b)"
      using env_free_table_spec [OF fl' d i] by blast
    have "shrunk u d D K fl'' v" if "mem_inv u D K fl''" for fl''
      using env_free_table_spec [OF that d i] v(1) by auto
    then have "shrunk s d D K fl v" using P shrunk_trans by (auto simp: P_def)
    moreover have "\<forall>b < UPDX. b < Suc i \<longrightarrow> tab_of v d b = None"
      using v(3) P by (auto simp: P_def less_Suc_eq)
    ultimately show "\<exists>v. env_free_table d i u = (Ret (), v) \<and> P (Suc i) v"
      using v(1) by (auto simp: P_def)
  qed
  then show ?thesis by (auto simp: P_def UPDX_eq [symmetric])
qed

lemma umap_ram: "ram s' = ram s \<Longrightarrow> umap s' = umap s"
  by (intro ext) (simp add: umap_def tab_of_def split: option.split)

lemma mem_inv_cong:
  assumes "ram s' = ram s" and "npages s' = npages s" and "pages s' = pages s"
    and "page_free_list s' = page_free_list s"
  shows "mem_inv s' D K fl \<longleftrightarrow> mem_inv s D K fl" and "leak_free s' K fl \<longleftrightarrow> leak_free s K fl"
    and "umap s' = umap s"
proof -
  have t: "target s' D x = target s D x" for x using assms(1) by (rule target_ram)
  show "mem_inv s' D K fl \<longleftrightarrow> mem_inv s D K fl"
    using assms t by (simp add: mem_inv_def owned_once_def counted_def refs_def free_pages_def)
  show "leak_free s' K fl \<longleftrightarrow> leak_free s K fl" using assms by (simp add: leak_free_def)
  show "umap s' = umap s" using assms(1) by (rule umap_ram)
qed

definition freed_env :: "nat option \<Rightarrow> Env \<Rightarrow> Env" where
  "freed_env l v = v\<lparr>env_pgdir := None, env_status := ENV_FREE, env_link := l\<rparr>"

theorem env_free_spec:
  assumes inv: "mem_inv s D K fl" and d: "d \<in> D" and e: "env_pgdir (envs s e) = Some d"
  shows "\<exists>u fl'. env_free e s = (Ret (), u) \<and> mem_inv u (D - {d}) K fl'
    \<and> (leak_free s K fl \<longrightarrow> leak_free u K fl') \<and> insert d (set fl) \<subseteq> set fl'
    \<and> (\<forall>a \<in> D - {d}. \<forall>m < 1024 * UPDX. umap u a m = umap s a m)
    \<and> envs u = (envs s)(e := freed_env (env_free_list s) (envs s e))
    \<and> env_free_list u = Some e \<and> cpus u = cpus s \<and> cpunum u = cpunum s
    \<and> npages u = npages s \<and> kern_pgdir u = kern_pgdir s \<and> kernel_lock u = kernel_lock s
    \<and> cr3 u = (if curenv s = Some e then kern_pgdir s else cr3 s)"
proof -
  define s0 where "s0 = (if curenv s = Some e then s\<lparr>cr3 := kern_pgdir s\<rparr> else s)"
  have s0: "ram s0 = ram s" "npages s0 = npages s" "pages s0 = pages s" "envs s0 = envs s"
    "page_free_list s0 = page_free_list s" "cpus s0 = cpus s" "cpunum s0 = cpunum s"
    "env_free_list s0 = env_free_list s" "kern_pgdir s0 = kern_pgdir s"
    "kernel_lock s0 = kernel_lock s"
    "cr3 s0 = (if curenv s = Some e then kern_pgdir s else cr3 s)"
    by (simp_all add: s0_def)
  note c0 = mem_inv_cong [OF s0(1,2,3,5)]
  have inv0: "mem_inv s0 D K fl" using inv c0 by simp
  obtain u where u: "forM [0 ..< PDX UTOP] (env_free_table d) s0 = (Ret (), u)"
    "shrunk s0 d D K fl u" "\<forall>b < UPDX. tab_of u d b = None"
    using free_user_space [OF inv0 d] by blast
  obtain fl' where fl': "mem_inv u D K fl'" "leak_free s0 K fl \<longrightarrow> leak_free u K fl'"
    "set fl \<subseteq> set fl'"
    and r: "rest_same s0 u"
    and um: "\<forall>a \<in> D - {d}. ram u a = ram s0 a \<and> (\<forall>m < 1024 * UPDX. umap u a m = umap s0 a m)"
    using u(2) by (auto simp: shrunk_def)
  note rs = rest_sameD [OF r]
  have x: "target u D (Dir d) = Some d" using d by simp
  define w where "w = upd_env e (\<lambda>v. v\<lparr>env_pgdir := None\<rparr>) u"
  have w: "ram w = ram u" "npages w = npages u" "pages w = pages u"
    "page_free_list w = page_free_list u" by (simp_all add: w_def)
  note cw = mem_inv_cong [OF w]
  have xw: "target w D (Dir d) = Some d" using d by simp
  have inv_w: "mem_inv w D K fl'" using fl'(1) cw by simp
  have dn: "d < npages w" "npages w \<le> 0x100000" "pp_link (pages w d) = None"
    using mapped_page(1,4) [OF inv_w xw] mem_invD(2) [OF inv_w] by auto
  define v where "v = decref_state d w"
  have "pa2page (page2pa d) w = (Ret d, w)"
    using dn by (simp add: pa2page_def page2pa_def PGNUM_push_bit)
  then have dec: "bindM (pa2page (page2pa d)) page_decref w = (Ret (), v)"
    by (simp add: page_decref_eq [OF dn(3)] v_def)
  let ?z = "upd_env e (\<lambda>n. n\<lparr>env_status := ENV_FREE, env_link := env_free_list v\<rparr>) v
      \<lparr>env_free_list := Some e\<rparr>"
  have run: "env_free e s = (Ret (), ?z)"
    using u(1) dec e rs(2)
    by (simp add: env_free_def the_pgdir_def s0_def [symmetric] s0 w_def [symmetric])
  have inv_v: "mem_inv v (D - {d}) K (d # fl')"
  proof (rule mem_inv_disown [OF inv_w xw])
    show "target v (D - {d}) y = ((target w D)(Dir d := None)) y" for y
      by (rule target_drop_dir [OF d]) (use u(3) in \<open>simp_all add: v_def tab_of_def w\<close>)
  qed (auto simp: v_def)
  have "freed d w fl' = d # fl'" using structural_ref(1) [OF inv_w xw] by (simp add: freed_def)
  then have leak: "leak_free s K fl \<longrightarrow> leak_free v K (d # fl')"
    using leak_free_decref [OF _ mapped_page(5) [OF inv_w xw], of K fl' v] fl'(2) c0(2) cw(2)
    by (simp add: v_def)
  have z: "ram ?z = ram v" "npages ?z = npages v" "pages ?z = pages v"
    "page_free_list ?z = page_free_list v" by simp_all
  note cz = mem_inv_cong [OF z]
  have "umap ?z a m = umap s a m" if "a \<in> D - {d}" "m < 1024 * UPDX" for a m
  proof -
    have "umap v = umap u" by (rule umap_ram) (simp add: v_def w)
    then show ?thesis using that um cz(3) c0(3) by simp
  qed
  moreover have "envs ?z = (envs s)(e := freed_env (env_free_list s) (envs s e))"
    using rs s0 by (simp add: v_def w_def freed_env_def)
  ultimately show ?thesis
    using run inv_v leak cz fl'(3) rs s0
    by (intro exI [of _ ?z] exI [of _ "d # fl'"])
      (auto simp: v_def w_def upd_env_def decref_state_def Let_def upd_page_def)
qed

section \<open>Creating an address space\<close>

definition copy_kernel_part :: "nat \<Rightarrow> nat \<Rightarrow> kstate \<Rightarrow> kstate" where
  "copy_kernel_part d n s = s\<lparr>ram := (ram s)(d :=
     (\<lambda>i. if UPDX \<le> i \<and> i < n then ram s (kern_pgdir s) i else ram s d i))\<rparr>"

lemma copy_loop:
  assumes "d \<noteq> kern_pgdir s"
  shows "forM [0 ..< n] (\<lambda>i. whenM (PDX UTOP \<le> i)
      (modifyM (\<lambda>s. store_word d i (ram s (kern_pgdir s) i) s) :: unit kernel)) s
    = (Ret (), copy_kernel_part d n s)"
proof -
  define f where "f = (\<lambda>i. whenM (PDX UTOP \<le> i)
      (modifyM (\<lambda>s. store_word d i (ram s (kern_pgdir s) i) s)) :: unit kernel)"
  have "\<exists>u. forM [0 ..< n] f s = (Ret (), u) \<and> u = copy_kernel_part d n s"
  proof (rule forM_invariant)
    have "(ram s)(d := ram s d) = ram s" by simp
    then show "s = copy_kernel_part d 0 s" by (simp add: copy_kernel_part_def)
  next
    fix i u assume u: "u = copy_kernel_part d i s"
    have row: "(\<lambda>k. if UPDX \<le> k \<and> k < Suc i then ram s (kern_pgdir s) k else ram s d k)
        = (if UPDX \<le> i then (\<lambda>k. if UPDX \<le> k \<and> k < i then ram s (kern_pgdir s) k else ram s d k)
             (i := ram s (kern_pgdir s) i)
           else (\<lambda>k. if UPDX \<le> k \<and> k < i then ram s (kern_pgdir s) k else ram s d k))"
      by (auto simp: fun_eq_iff less_Suc_eq)
    have "f i u = (Ret (), copy_kernel_part d (Suc i) s)"
      unfolding u f_def copy_kernel_part_def row
      using assms by (simp add: UPDX_eq [symmetric] store_word_def)
    then show "\<exists>v. f i u = (Ret (), v) \<and> v = copy_kernel_part d (Suc i) s" by simp
  qed
  then show ?thesis by (auto simp: f_def)
qed

lemma rest_copy [simp]:
  "rest (copy_kernel_part d n s) = rest s" "rest (upd_env e f s) = upd_env e f (rest s)"
  "rest (s\<lparr>env_free_list := l\<rparr>) = (rest s)\<lparr>env_free_list := l\<rparr>"
  by (simp_all add: rest_def copy_kernel_part_def upd_env_def)

definition setup_state :: "nat \<Rightarrow> nat \<Rightarrow> kstate \<Rightarrow> kstate" where
  "setup_state e p s = store_word p (PDX UVPT) (page2pa p OR PTE_P OR PTE_U)
     (upd_page p (\<lambda>pg. pg\<lparr>pp_ref := pp_ref pg + 1\<rparr>)
       (copy_kernel_part p 1024 (upd_env e (\<lambda>v. v\<lparr>env_pgdir := Some p\<rparr>) (alloc_state p s))))"

lemma ram_setup_state:
  assumes "p \<noteq> kern_pgdir s"
  shows "ram (setup_state e p s) = (ram s)(p := (\<lambda>i.
    if i = PDX UVPT then page2pa p OR PTE_P OR PTE_U
    else if UPDX \<le> i \<and> i < 1024 then ram s (kern_pgdir s) i else 0))"
  using assms by (simp add: setup_state_def copy_kernel_part_def fun_eq_iff)

lemma env_setup_vm_spec:
  assumes inv: "mem_inv s D K (p # fl)" and kp: "kern_pgdir s \<in> K"
  shows "env_setup_vm e s = (Ret 0, setup_state e p s)"
    and "mem_inv (setup_state e p s) (insert p D) K fl"
    and "p \<notin> D" and "p < npages s" and "p \<notin> K"
    and "leak_free s K (p # fl) \<Longrightarrow> leak_free (setup_state e p s) K fl"
    and "a \<in> D \<Longrightarrow> m < 1024 * UPDX \<Longrightarrow> umap (setup_state e p s) a m = umap s a m"
    and "m < 1024 * UPDX \<Longrightarrow> umap (setup_state e p s) p m = None"
    and "rest_same (upd_env e (\<lambda>v. v\<lparr>env_pgdir := Some p\<rparr>) s) (setup_state e p s)"
proof -
  show pD: "p \<notin> D" using free_unreferenced [OF inv, of p "Dir p"] by auto
  have p: "p < npages s" "p \<notin> K" "p \<notin> set fl" "pp_ref (pages s p) = 0" "npages s \<le> 0x100000"
    using inv by (auto simp: mem_inv_def free_pages_def)
  show "p < npages s" "p \<notin> K" by (rule p)+
  have pk: "p \<noteq> kern_pgdir s" using p(2) kp by auto
  note ram = ram_setup_state [OF pk, of e]
  show "env_setup_vm e s = (Ret 0, setup_state e p s)"
    using p copy_loop [of p "upd_env e (\<lambda>v. v\<lparr>env_pgdir := Some p\<rparr>) (alloc_state p s)" 1024] pk
    by (simp add: env_setup_vm_def page_alloc_Some [OF inv] page2kva_def NPDENTRIES_def
        page_incref_def setup_state_def)
  have inv1: "mem_inv (alloc_state p s) D K fl" by (rule mem_inv_alloc [OF inv])
  have none: "tab_of (setup_state e p s) p i = None" if "i < UPDX" for i
    using that UPDX_UVPT by (simp add: tab_of_def ram)
  have tab: "tab_of (setup_state e p s) a i = tab_of s a i" if "a \<in> D" for a i
    using that pD by (auto simp: tab_of_def ram)
  have row: "ram (setup_state e p s) t = ram s t" if "target s D (Tab a i) = Some t" for a i t
    using free_unreferenced [OF inv, of p "Tab a i"] that by (auto simp: ram)
  have tgt: "target (setup_state e p s) (insert p D) y
      = ((target (alloc_state p s) D)(Dir p := Some p)) y" for y
    unfolding fun_upd_def target_alloc_state [OF inv]
  proof (cases y)
    case (Pg a b c)
    show "target (setup_state e p s) (insert p D) y = (if y = Dir p then Some p else target s D y)"
    proof (cases "a \<in> D \<and> b < UPDX \<and> c < 1024")
      case True
      then show ?thesis using Pg row [of a b] by (auto simp: tab split: option.split)
    next
      case False
      then show ?thesis using Pg none by auto
    qed
  qed (use tab none pD in auto)
  show "mem_inv (setup_state e p s) (insert p D) K fl"
  proof (rule mem_inv_own [OF inv1, where p = p and x = "Dir p"])
    show "target (alloc_state p s) D (Dir p) = None" using pD by simp
    show "target (setup_state e p s) (insert p D) y
      = ((target (alloc_state p s) D)(Dir p := Some p)) y" for y by (rule tgt)
  qed (use p mem_invD(1) [OF inv] in
      \<open>auto simp: setup_state_def copy_kernel_part_def upd_env_def fun_eq_iff\<close>)
  show "leak_free (setup_state e p s) K fl" if "leak_free s K (p # fl)"
    using that p(4)
    by (auto simp: leak_free_def setup_state_def copy_kernel_part_def upd_env_def)
  show "umap (setup_state e p s) a m = umap s a m" if a: "a \<in> D" and m: "m < 1024 * UPDX"
  proof (rule umap_frame [OF a div_UPDX [OF m]])
    show "ram (setup_state e p s) a (m div 1024) = ram s a (m div 1024)" using a pD by (auto simp: ram)
  qed (rule row)
  show "umap (setup_state e p s) p m = None" if "m < 1024 * UPDX"
    using none [OF div_UPDX [OF that]] by (simp add: umap_def)
  show "rest_same (upd_env e (\<lambda>v. v\<lparr>env_pgdir := Some p\<rparr>) s) (setup_state e p s)"
    by (simp add: rest_same_def setup_state_def)
qed

definition new_env :: "EnvType \<Rightarrow> i32 \<Rightarrow> nat \<Rightarrow> nat \<Rightarrow> Env \<Rightarrow> Env" where
  "new_env typ parent e p v = v\<lparr>env_pgdir := Some p, env_id := next_env_id (env_id v) e,
     env_parent_id := parent, env_type := typ, env_status := ENV_RUNNABLE, env_runs := 0,
     env_tf := fresh_tf, env_pgfault_upcall := 0, env_ipc_recving := False\<rparr>"

definition alloc_env_state :: "EnvType \<Rightarrow> i32 \<Rightarrow> nat \<Rightarrow> nat \<Rightarrow> kstate \<Rightarrow> kstate" where
  "alloc_env_state ty parent e p s =
     upd_env e (\<lambda>v. v\<lparr>env_id := next_env_id (env_id v) e, env_parent_id := parent,
       env_type := ty, env_status := ENV_RUNNABLE, env_runs := 0, env_tf := fresh_tf,
       env_pgfault_upcall := 0, env_ipc_recving := False\<rparr>)
     (setup_state e p s)\<lparr>env_free_list := env_link (envs s e)\<rparr>"

lemma env_alloc_as_run:
  assumes inv: "mem_inv s D K (p # fl)" and kp: "kern_pgdir s \<in> K"
    and e: "env_free_list s = Some e" "e < NENV"
  shows "env_alloc_as ty parent s = (Ret (0, Some e), alloc_env_state ty parent e p s)"
proof -
  note sv = env_setup_vm_spec [OF inv kp]
  show ?thesis
    using e sv(1) rest_sameD(2) [OF sv(9)] by (simp add: env_alloc_as_def alloc_env_state_def not_le [symmetric])
qed

theorem env_alloc_as_spec:
  assumes inv: "mem_inv s D K fl" and kp: "kern_pgdir s \<in> K"
    and e: "env_free_list s = Some e" "e < NENV"
  shows "case fl of
      [] \<Rightarrow> env_alloc_as typ parent s = (Ret (- E_NO_MEM, None), s)
    | p # fl' \<Rightarrow> \<exists>u. env_alloc_as typ parent s = (Ret (0, Some e), u)
        \<and> mem_inv u (insert p D) K fl' \<and> p \<notin> D
        \<and> (leak_free s K fl \<longrightarrow> leak_free u K fl')
        \<and> (\<forall>m < 1024 * UPDX. umap u p m = None)
        \<and> (\<forall>a \<in> D. \<forall>m < 1024 * UPDX. umap u a m = umap s a m)
        \<and> rest_same (upd_env e (new_env typ parent e p) s\<lparr>env_free_list := env_link (envs s e)\<rparr>) u"
proof (cases fl)
  case Nil
  then show ?thesis
    using e page_alloc_None inv by (simp add: env_alloc_as_def env_setup_vm_def)
next
  case (Cons p fl')
  note sv = env_setup_vm_spec [OF inv [unfolded Cons] kp]
  let ?t = "setup_state e p s"
  let ?u = "alloc_env_state typ parent e p s"
  have run: "env_alloc_as typ parent s = (Ret (0, Some e), ?u)"
    by (rule env_alloc_as_run [OF inv [unfolded Cons] kp e])
  have u: "ram ?u = ram ?t" "npages ?u = npages ?t" "pages ?u = pages ?t"
    "page_free_list ?u = page_free_list ?t" by (simp_all add: alloc_env_state_def)
  note cu = mem_inv_cong [OF u]
  have "rest_same (upd_env e (new_env typ parent e p) s\<lparr>env_free_list := env_link (envs s e)\<rparr>) ?u"
    by (simp add: rest_same_def setup_state_def alloc_env_state_def) (simp add: upd_env_def new_env_def)
  then show ?thesis
    using Cons run cu sv(2,3,6,7,8) by auto
qed

text \<open>
  Everything a new environment inherits is fixed: its registers are cleared, it runs in user mode
  with interrupts on, and no register value of the slot's previous owner is visible.
\<close>

lemma fresh_tf_user_mode:
  "tf_cs fresh_tf AND 3 = 3" "tf_ss fresh_tf AND 3 = 3" "tf_eflags fresh_tf AND FL_IF \<noteq> 0"
  "tf_eflags fresh_tf AND FL_IOPL_MASK = 0" "tf_regs fresh_tf = zero_regs"
  by (simp_all add: fresh_tf_def kconst)

section \<open>The environment table\<close>

text \<open>
  The address spaces in use, and the invariant of the whole kernel. As \<^verbatim>\<open>env_init\<close>
  links the last slot to the address one past the array, the free list ends in the
  pseudo-slot \<open>NENV\<close> and not in a null pointer.
\<close>

definition live :: "kstate \<Rightarrow> nat \<Rightarrow> bool" where
  "live s e \<longleftrightarrow> e < NENV \<and> env_status (envs s e) \<noteq> ENV_FREE"

definition dirs :: "kstate \<Rightarrow> nat set" where
  "dirs s = {d. \<exists>e. live s e \<and> env_pgdir (envs s e) = Some d}"

definition elink :: "kstate \<Rightarrow> nat \<Rightarrow> nat option" where
  "elink s e = (if e < NENV then env_link (envs s e) else None)"

definition env_table :: "kstate \<Rightarrow> nat list \<Rightarrow> bool" where
  "env_table s efl \<longleftrightarrow> chain (elink s) (env_free_list s) (efl @ [NENV]) \<and> distinct efl
     \<and> set efl = {e. e < NENV \<and> \<not> live s e}
     \<and> (\<forall>e. live s e \<longrightarrow> env_pgdir (envs s e) \<noteq> None \<and> ENVX (env_id (envs s e)) = e
          \<and> 0 < sint (env_id (envs s e)))
     \<and> (\<forall>e e'. live s e \<longrightarrow> live s e' \<longrightarrow> env_pgdir (envs s e) = env_pgdir (envs s e') \<longrightarrow> e = e')
     \<and> (\<forall>c. curenv s = Some c \<longrightarrow> c < NENV)"

definition kinv :: "kstate \<Rightarrow> nat set \<Rightarrow> bool" where
  "kinv s K \<longleftrightarrow> kern_pgdir s \<in> K \<and> (\<exists>efl. env_table s efl)
     \<and> (\<exists>fl. mem_inv s (dirs s) K fl \<and> leak_free s K fl)"

lemma kinvE:
  assumes "kinv s K"
  obtains efl fl where "kern_pgdir s \<in> K" and "env_table s efl" and "mem_inv s (dirs s) K fl"
    and "leak_free s K fl"
  using assms by (auto simp: kinv_def)

lemma live_pgdir:
  assumes "env_table s efl" and "live s e"
  obtains d where "env_pgdir (envs s e) = Some d" and "d \<in> dirs s"
proof -
  have "env_pgdir (envs s e) \<noteq> None" using assms by (simp add: env_table_def)
  then obtain d where "env_pgdir (envs s e) = Some d" by auto
  moreover from this have "d \<in> dirs s" using assms(2) by (auto simp: dirs_def)
  ultimately show thesis by (rule that)
qed

lemma chain_elink_upd:
  assumes "e \<notin> set (xs @ [NENV])" and "\<And>x. x \<noteq> e \<Longrightarrow> elink s' x = elink s x"
  shows "chain (elink s') p (xs @ [NENV]) = chain (elink s) p (xs @ [NENV])"
  by (rule chain_cong) (metis assms)

text \<open>Changes that the invariant does not see: registers, IPC fields, status other than free.\<close>

definition same_slot :: "Env \<Rightarrow> Env \<Rightarrow> bool" where
  "same_slot v w \<longleftrightarrow> env_link w = env_link v \<and> env_id w = env_id v \<and> env_pgdir w = env_pgdir v
     \<and> (env_status w = ENV_FREE \<longleftrightarrow> env_status v = ENV_FREE)"

lemma same_slot_refl [simp]: "same_slot v v"
  by (simp add: same_slot_def)

lemma env_table_cong:
  assumes "env_table s efl" and "\<And>e. e < NENV \<Longrightarrow> same_slot (envs s e) (envs s' e)"
    and "env_free_list s' = env_free_list s" and "\<And>c. curenv s' = Some c \<Longrightarrow> c < NENV"
  shows "env_table s' efl" and "dirs s' = dirs s"
proof -
  have l: "live s' e = live s e" for e using assms(2) [of e] by (auto simp: live_def same_slot_def)
  have pg: "env_pgdir (envs s' e) = env_pgdir (envs s e)" "env_id (envs s' e) = env_id (envs s e)"
    if "live s e" for e using assms(2) [of e] that by (auto simp: live_def same_slot_def)
  have "elink s' e = elink s e" for e using assms(2) [of e] by (auto simp: elink_def same_slot_def)
  then have "elink s' = elink s" by auto
  then show "env_table s' efl"
    using assms(1,3,4) pg unfolding env_table_def l by auto
  show "dirs s' = dirs s" using pg by (auto simp: dirs_def l)
qed

lemma kinv_cong:
  assumes inv: "kinv s K" and "\<And>e. e < NENV \<Longrightarrow> same_slot (envs s e) (envs s' e)"
    and "env_free_list s' = env_free_list s" and "\<And>c. curenv s' = Some c \<Longrightarrow> c < NENV"
    and "kern_pgdir s' = kern_pgdir s" and "ram s' = ram s" and "npages s' = npages s"
    and "pages s' = pages s" and "page_free_list s' = page_free_list s"
  shows "kinv s' K"
proof -
  obtain efl fl where k: "kern_pgdir s \<in> K" "env_table s efl" "mem_inv s (dirs s) K fl"
    "leak_free s K fl" using inv by (rule kinvE)
  note t = env_table_cong [OF k(2) assms(2-4)]
  note m = mem_inv_cong [OF assms(6-9)]
  show ?thesis using k t m assms(5) by (auto simp: kinv_def)
qed

text \<open>Changes of memory only.\<close>

lemma kinv_mem:
  assumes inv: "kinv s K" and r: "rest_same s s'"
    and m: "mem_inv s' (dirs s) K fl" and l: "leak_free s' K fl"
  shows "kinv s' K"
proof -
  obtain efl where k: "kern_pgdir s \<in> K" "env_table s efl" using inv by (auto simp: kinv_def)
  note rs = rest_sameD [OF r]
  have c: "c < NENV" if "curenv s' = Some c" for c
    using that k(2) rs(9) by (auto simp: env_table_def)
  have "env_table s' efl" "dirs s' = dirs s"
    using env_table_cong [OF k(2), of s'] rs c by auto
  then show ?thesis using k m l rs(5) by (auto simp: kinv_def)
qed

theorem env_free_kinv:
  assumes inv: "kinv s K" and e: "live s e"
  shows "\<exists>u. env_free e s = (Ret (), u) \<and> \<not> live u e \<and> cpus u = cpus s \<and> cpunum u = cpunum s
    \<and> kernel_lock u = kernel_lock s \<and> kinv u K
    \<and> (\<forall>e'. e' \<noteq> e \<longrightarrow> envs u e' = envs s e')
    \<and> (\<forall>e' d. e' \<noteq> e \<longrightarrow> live s e' \<longrightarrow> env_pgdir (envs s e') = Some d \<longrightarrow>
         (\<forall>m < 1024 * UPDX. umap u d m = umap s d m))"
proof -
  obtain efl fl where k: "kern_pgdir s \<in> K" "env_table s efl" "mem_inv s (dirs s) K fl"
    "leak_free s K fl" using inv by (rule kinvE)
  obtain d where d: "env_pgdir (envs s e) = Some d" "d \<in> dirs s" by (rule live_pgdir [OF k(2) e])
  obtain u fl' where u: "env_free e s = (Ret (), u)" "mem_inv u (dirs s - {d}) K fl'"
    "leak_free s K fl \<longrightarrow> leak_free u K fl'"
    "\<forall>a \<in> dirs s - {d}. \<forall>m < 1024 * UPDX. umap u a m = umap s a m"
    "envs u = (envs s)(e := freed_env (env_free_list s) (envs s e))"
    "env_free_list u = Some e" "cpus u = cpus s" "cpunum u = cpunum s" "npages u = npages s"
    "kern_pgdir u = kern_pgdir s" "kernel_lock u = kernel_lock s"
    using env_free_spec [OF k(3) d(2,1)] by blast
  have eN: "e < NENV" using e by (simp add: live_def)
  have lv: "live u x \<longleftrightarrow> live s x \<and> x \<noteq> e" for x
    by (auto simp: live_def u(5) freed_env_def)
  have nin: "e \<notin> set efl" using k(2) e by (auto simp: env_table_def)
  have "chain (elink u) (env_free_list s) (efl @ [NENV])"
    using chain_elink_upd [of e efl u s "env_free_list s"] nin eN k(2)
    by (auto simp: env_table_def elink_def u(5))
  then have "env_table u (e # efl)"
    using k(2) nin eN lv u(5,6,7,8)
    by (auto simp: env_table_def elink_def freed_env_def curenv_def live_def)
  moreover have dd: "dirs u = dirs s - {d}"
  proof -
    have "x = e" if "live s x" "env_pgdir (envs s x) = Some d" for x
      using k(2) that e d(1) by (auto simp: env_table_def)
    moreover have "env_pgdir (envs u x) = env_pgdir (envs s x)" if "x \<noteq> e" for x
      using that by (simp add: u(5))
    ultimately show ?thesis using d(1) unfolding dirs_def lv by fastforce
  qed
  ultimately have "kinv u K" using k u(2,3,10) by (auto simp: kinv_def)
  moreover have "umap u d' m = umap s d' m"
    if "e' \<noteq> e" "live s e'" "env_pgdir (envs s e') = Some d'" "m < 1024 * UPDX" for e' d' m
  proof -
    have "d' \<noteq> d" using k(2) that e d(1) by (auto simp: env_table_def)
    then show ?thesis using u(4) that by (auto simp: dirs_def)
  qed
  ultimately show ?thesis using u lv by auto
qed

theorem env_alloc_as_kinv:
  assumes inv: "kinv s K"
  shows "(\<exists>e u. env_alloc_as typ parent s = (Ret (0, Some e), u) \<and> kinv u K \<and> \<not> live s e
      \<and> live u e \<and> cpus u = cpus s \<and> cpunum u = cpunum s \<and> kernel_lock u = kernel_lock s
      \<and> env_id (envs u e) = next_env_id (env_id (envs s e)) e \<and> env_parent_id (envs u e) = parent
      \<and> env_status (envs u e) = ENV_RUNNABLE \<and> env_tf (envs u e) = fresh_tf
      \<and> (\<forall>e'. e' \<noteq> e \<longrightarrow> envs u e' = envs s e')
      \<and> (\<forall>d m. env_pgdir (envs u e) = Some d \<longrightarrow> m < 1024 * UPDX \<longrightarrow> umap u d m = None)
      \<and> (\<forall>d \<in> dirs s. \<forall>m < 1024 * UPDX. umap u d m = umap s d m))
    \<or> env_alloc_as typ parent s = (Ret (- E_NO_MEM, None), s)
    \<or> (\<forall>e < NENV. live s e) \<and> env_alloc_as typ parent s = (Stop (BadPointer ''envs''), s)"
proof -
  obtain efl fl where k: "kern_pgdir s \<in> K" "env_table s efl" "mem_inv s (dirs s) K fl"
    "leak_free s K fl" using inv by (rule kinvE)
  show ?thesis
  proof (cases efl)
    case Nil
    then have "env_free_list s = Some NENV" "\<forall>e < NENV. live s e"
      using k(2) by (auto simp: env_table_def)
    then show ?thesis by (simp add: env_alloc_as_def)
  next
    case (Cons e efl')
    then have e: "env_free_list s = Some e" "e < NENV" "\<not> live s e" "e \<notin> set efl'"
      and ch: "chain (elink s) (elink s e) (efl' @ [NENV])"
      using k(2) by (auto simp: env_table_def)
    show ?thesis
    proof (cases fl)
      case Nil
      then show ?thesis using env_alloc_as_spec [OF k(3,1) e(1,2)] by auto
    next
      case (Cons p fl')
      from env_alloc_as_spec [OF k(3,1) e(1,2), of "typ" parent] Cons obtain u where
        u: "env_alloc_as typ parent s = (Ret (0, Some e), u)" "mem_inv u (insert p (dirs s)) K fl'"
        "p \<notin> dirs s" "leak_free s K fl \<longrightarrow> leak_free u K fl'"
        "\<forall>m < 1024 * UPDX. umap u p m = None"
        "\<forall>a \<in> dirs s. \<forall>m < 1024 * UPDX. umap u a m = umap s a m"
        and r: "rest_same (upd_env e (new_env typ parent e p) s
          \<lparr>env_free_list := env_link (envs s e)\<rparr>) u"
        by auto
      have ev: "envs u = (envs s)(e := new_env typ parent e p (envs s e))"
        and fr: "env_free_list u = env_link (envs s e)" "cpus u = cpus s" "cpunum u = cpunum s"
          "kern_pgdir u = kern_pgdir s" "kernel_lock u = kernel_lock s"
        using rest_sameD [OF r] by (simp_all add: upd_env_def)
      have lv: "live u x \<longleftrightarrow> live s x \<or> x = e" for x
        using e(2) by (auto simp: live_def ev new_env_def)
      have "chain (elink u) (elink s e) (efl' @ [NENV])"
        using chain_elink_upd [of e efl' u s "elink s e"] e ch by (auto simp: elink_def ev)
      moreover have "set efl' = {x. x < NENV \<and> \<not> live u x}"
        using k(2) \<open>efl = e # efl'\<close> by (auto simp: env_table_def lv)
      moreover have "x = e" if "live s x" "env_pgdir (envs s x) = Some p" for x
        using u(3) that by (auto simp: dirs_def)
      moreover have "distinct efl'" using k(2) \<open>efl = e # efl'\<close> by (auto simp: env_table_def)
      moreover have "env_free_list u = elink s e" using e(2) fr(1) by (simp add: elink_def)
      moreover have "env_pgdir (envs u x) \<noteq> None \<and> ENVX (env_id (envs u x)) = x
          \<and> 0 < sint (env_id (envs u x))" if "live u x" for x
      proof (cases "x = e")
        case True
        then show ?thesis using next_env_id_wf [OF e(2)] by (simp add: ev new_env_def)
      next
        case False
        then show ?thesis using k(2) that lv by (simp add: env_table_def ev)
      qed
      moreover have "x = y" if "live u x" "live u y" "env_pgdir (envs u x) = env_pgdir (envs u y)" for x y
      proof -
        have p: "env_pgdir (envs u e) = Some p" by (simp add: ev new_env_def)
        have o: "env_pgdir (envs u z) = env_pgdir (envs s z)" "live s z"
          if "z \<noteq> e" "live u z" for z using that lv by (simp_all add: ev)
        show ?thesis
        proof (cases "x = e \<or> y = e")
          case True
          then show ?thesis
            using that p o \<open>\<And>x. live s x \<Longrightarrow> env_pgdir (envs s x) = Some p \<Longrightarrow> x = e\<close> by metis
        next
          case False
          then show ?thesis using k(2) that o unfolding env_table_def by metis
        qed
      qed
      moreover have "c < NENV" if "curenv u = Some c" for c
        using that k(2) fr(2,3) by (simp add: env_table_def curenv_def)
      ultimately have "env_table u efl'" unfolding env_table_def by auto
      moreover have "dirs u = insert p (dirs s)"
        using e(3) by (auto simp: dirs_def lv ev new_env_def)
      ultimately have "kinv u K" using k u fr by (auto simp: kinv_def)
      then show ?thesis
        using u e(3) fr lv by (auto simp: ev new_env_def intro!: disjI1 exI [of _ e])
    qed
  qed
qed

end
