(* ===== verification/Jos_Sched.thy ===== *)
theory Jos_Sched
  imports Jos_Env_Inv
begin

text \<open>
  The scheduler \<^verbatim>\<open>kern/sched.c\<close>, context switches and \<^verbatim>\<open>envid2env\<close>: which
  environment \<^verbatim>\<open>sched_yield\<close> picks, that the choice is fair, that neither scheduling nor
  destruction breaks the kernel invariant, and who may name whom.
\<close>

section \<open>The kernel lock\<close>

text \<open>A processor that enters through the lock holds it, and only the holder can release it.\<close>

theorem lock_kernel_spec:
  "case lock_kernel s of
     (Ret _, s') \<Rightarrow> \<not> locked (kernel_lock s) \<and> holding s'
       \<and> unlock_kernel s' = (Ret (), s'\<lparr>kernel_lock := \<lparr>locked = False, lk_cpu = None\<rparr>\<rparr>)
   | (Stop x, s') \<Rightarrow> s' = s \<and> locked (kernel_lock s)
       \<and> (x = Spinning \<longleftrightarrow> lk_cpu (kernel_lock s) \<noteq> Some (cpunum s))"
  by (auto simp: lock_kernel_def unlock_kernel_def holding_def)

section \<open>Running an environment\<close>

definition unlocked :: spinlock where
  "unlocked = \<lparr>locked = False, lk_cpu = None\<rparr>"

definition env_run_state :: "nat \<Rightarrow> nat \<Rightarrow> kstate \<Rightarrow> kstate" where
  "env_run_state e d s = upd_env e (\<lambda>v. v\<lparr>env_status := ENV_RUNNING,
     env_runs := env_runs v + 1, env_cpunum := cpunum s\<rparr>)
     (set_curenv (Some e) (demote_curenv s)\<lparr>kernel_lock := unlocked, cr3 := d\<rparr>)"

lemma demote_simps [simp]:
  "cpus (demote_curenv s) = cpus s" "cpunum (demote_curenv s) = cpunum s"
  "kernel_lock (demote_curenv s) = kernel_lock s" "kern_pgdir (demote_curenv s) = kern_pgdir s"
  "env_pgdir (envs (demote_curenv s) e) = env_pgdir (envs s e)"
  "ram (demote_curenv s) = ram s" "pages (demote_curenv s) = pages s"
  "npages (demote_curenv s) = npages s" "page_free_list (demote_curenv s) = page_free_list s"
  "env_free_list (demote_curenv s) = env_free_list s"
  by (simp_all add: demote_curenv_def upd_env_def split: option.split)

lemma set_curenv_simps [simp]:
  "envs (set_curenv c s) = envs s" "cpunum (set_curenv c s) = cpunum s"
  "kernel_lock (set_curenv c s) = kernel_lock s" "kern_pgdir (set_curenv c s) = kern_pgdir s"
  "curenv (set_curenv c s) = c" "ram (set_curenv c s) = ram s" "pages (set_curenv c s) = pages s"
  "npages (set_curenv c s) = npages s" "page_free_list (set_curenv c s) = page_free_list s"
  "env_free_list (set_curenv c s) = env_free_list s"
  by (simp_all add: set_curenv_def curenv_def)

lemma kernel_lock_upd_env [simp]: "kernel_lock (upd_env e f s) = kernel_lock s"
  by (simp add: upd_env_def)

lemma env_run_eq:
  assumes "holding s" and "env_pgdir (envs s e) = Some d"
  shows "env_run e s = (Stop (EnterUser e), env_run_state e d s)"
proof -
  have h: "locked (kernel_lock s)" "lk_cpu (kernel_lock s) = Some (cpunum s)"
    using assms(1) by (auto simp: holding_def)
  have "curenv (t\<lparr>kernel_lock := l\<rparr>) = curenv t" "curenv (t\<lparr>cr3 := x\<rparr>) = curenv t"
    "curenv (t\<lparr>envs := v\<rparr>) = curenv t" for t l x v
    by (simp_all add: curenv_def)
  then show ?thesis
    using assms(2) h
    by (simp add: env_run_def unlock_kernel_def holding_def lcr3_def env_pop_tf_def get_curenv_def
        env_run_state_def unlocked_def upd_env_def)
qed

lemma same_slot_demote: "same_slot (envs s e) (envs (demote_curenv s) e)"
  by (auto simp: demote_curenv_def same_slot_def split: option.split)

lemma kinv_env_run:
  assumes inv: "kinv s K" and e: "live s e"
  shows "kinv (env_run_state e d s) K"
proof (rule kinv_cong [OF inv])
  have "env_status (envs (demote_curenv s) e) \<noteq> ENV_FREE"
    using e by (auto simp: demote_curenv_def live_def split: option.split)
  then show "same_slot (envs s x) (envs (env_run_state e d s) x)" for x
    using same_slot_demote [of s x] by (auto simp: env_run_state_def same_slot_def)
  show "c < NENV" if "curenv (env_run_state e d s) = Some c" for c
  proof -
    have "curenv (env_run_state e d s) = Some e"
      by (simp add: env_run_state_def) (simp add: curenv_def set_curenv_def)
    then show ?thesis using that e by (simp add: live_def)
  qed
qed (simp_all add: env_run_state_def)

section \<open>The choice of the scheduler\<close>

text \<open>Number of slots between \<open>a\<close> and the next visit of \<open>b\<close> in circular order.\<close>

definition cdist :: "nat \<Rightarrow> nat \<Rightarrow> nat" where
  "cdist a b = (b + NENV - a - 1) mod NENV"

lemma cdist_less [simp]: "cdist a b < NENV"
  by (simp add: cdist_def kconst)

lemma cdist_step:
  assumes "a < NENV" "b < NENV" "r < NENV" "cdist a b \<le> cdist a r" "b \<noteq> r"
  shows "cdist b r < cdist a r"
proof -
  have c: "cdist x y = (if x < y then y - x - 1 else y + NENV - x - 1)" if "x < NENV" "y < NENV" for x y
  proof (cases "x < y")
    case True
    then have "y + NENV - x - 1 = (y - x - 1) + NENV" by linarith
    moreover have "((y - x - 1) + NENV) mod NENV = y - x - 1" using that by simp
    ultimately show ?thesis using True unfolding cdist_def by presburger
  next
    case False
    then show ?thesis using that by (simp add: cdist_def)
  qed
  show ?thesis using assms by (auto simp: c split: if_splits)
qed

lemma find_order:
  assumes "find P (map f [0 ..< n]) = Some j"
  shows "\<exists>i < n. j = f i \<and> P j \<and> (\<forall>k < i. \<not> P (f k))"
  using assms by (auto simp: find_Some_iff)

definition sched_last :: "kstate \<Rightarrow> nat" where
  "sched_last s = (case curenv s of None \<Rightarrow> 0 | Some e \<Rightarrow> ENVX (env_id (envs s e)))"

lemma sched_last_less [simp]: "sched_last s < NENV"
  by (auto simp: sched_last_def kconst split: option.split intro: ENVX_less [unfolded kconst])

lemma order_cdist:
  assumes "a < NENV" and "i < NENV"
  shows "cdist a (((a + 1) mod NENV + i) mod NENV) = i"
proof -
  have m: "((a + 1) mod NENV + i) mod NENV = (if a + 1 + i < NENV then a + 1 + i else a + 1 + i - NENV)"
  proof -
    have "((a + 1) mod NENV + i) mod NENV = (a + 1 + i) mod NENV" by (rule mod_add_left_eq)
    also have "\<dots> = (if a + 1 + i < NENV then a + 1 + i else a + 1 + i - NENV)"
      using assms by (simp add: mod_if)
    finally show ?thesis .
  qed
  show ?thesis unfolding m cdist_def using assms by auto
qed

lemma find_circular:
  assumes "find P (sched_order (sched_start s)) = Some j"
  shows "j < NENV \<and> P j \<and> (\<forall>r < NENV. P r \<longrightarrow> cdist (sched_last s) j \<le> cdist (sched_last s) r)"
proof -
  let ?a = "sched_last s" and ?f = "\<lambda>i. ((sched_last s + 1) mod NENV + i) mod NENV"
  have "sched_order (sched_start s) = map ?f [0 ..< NENV]"
    by (simp add: sched_order_def sched_start_def sched_last_def)
  with assms find_order [of P ?f NENV j] obtain i where
    i: "i < NENV" "j = ?f i" "P j" "\<forall>k < i. \<not> P (?f k)" by auto
  have "cdist ?a j \<le> cdist ?a r" if r: "r < NENV" "P r" for r
  proof -
    have "?f (cdist ?a r) = r"
    proof -
      have "?f (cdist ?a r) = (?a + 1 + cdist ?a r) mod NENV" by (rule mod_add_left_eq)
      also have "\<dots> = (?a + 1 + (r + NENV - ?a - 1)) mod NENV" unfolding cdist_def by (rule mod_add_right_eq)
      also have "?a + 1 + (r + NENV - ?a - 1) = r + NENV" using sched_last_less [of s] by linarith
      also have "(r + NENV) mod NENV = r" using r(1) by simp
      finally show ?thesis .
    qed
    then have "\<not> cdist ?a r < i" using i(4) r(2) by metis
    then show ?thesis using order_cdist [OF sched_last_less i(1), of s] i(2) by simp
  qed
  then show ?thesis using i by (auto simp: kconst)
qed

lemma find_circular_None:
  assumes "find P (sched_order (sched_start s)) = None" and "r < NENV"
  shows "\<not> P r"
proof -
  have "r \<in> set (sched_order (sched_start s))"
  proof -
    let ?b = "sched_start s"
    have b: "?b < NENV" by (simp add: sched_start_def kconst)
    have "(?b + (r + NENV - ?b) mod NENV) mod NENV = (?b + (r + NENV - ?b)) mod NENV"
      by (rule mod_add_right_eq)
    also have "?b + (r + NENV - ?b) = r + NENV" using b by linarith
    finally have "(?b + (r + NENV - ?b) mod NENV) mod NENV = r" using assms(2) by simp
    moreover have "(r + NENV - ?b) mod NENV < NENV" by (simp add: kconst)
    ultimately show ?thesis unfolding sched_order_def by force
  qed
  then show ?thesis using assms(1) by (auto simp: find_None_iff)
qed

text \<open>
  \<^verbatim>\<open>sched_yield\<close> runs the first runnable environment after the current one in circular
  order; without one it resumes an environment already running on this processor; without that
  it runs the slot of this processor or halts.
\<close>

theorem sched_yield_spec:
  assumes inv: "kinv s K" and h: "holding s" and cpu: "cpunum s < NENV"
  shows "(\<exists>j d. sched_yield s = (Stop (EnterUser j), env_run_state j d s) \<and> live s j
      \<and> env_pgdir (envs s j) = Some d
      \<and> (if \<exists>r < NENV. sched_ready s r
         then sched_ready s j \<and> (\<forall>r < NENV. sched_ready s r \<longrightarrow>
                cdist (sched_last s) j \<le> cdist (sched_last s) r)
         else sched_mine s j \<or> j = cpunum s))
    \<or> (\<forall>r < NENV. \<not> sched_ready s r) \<and> (\<forall>r < NENV. \<not> sched_mine s r)
      \<and> sched_yield s = sched_halt s"
proof -
  obtain efl where t: "env_table s efl" using inv by (auto simp: kinv_def)
  have run: "\<exists>d. env_run j s = (Stop (EnterUser j), env_run_state j d s)
      \<and> env_pgdir (envs s j) = Some d" if "live s j" for j
  proof -
    obtain d where "env_pgdir (envs s j) = Some d" using live_pgdir [OF t \<open>live s j\<close>] .
    then show ?thesis using env_run_eq [OF h] by blast
  qed
  show ?thesis
  proof (cases "find (sched_ready s) (sched_order (sched_start s))")
    case (Some j)
    note j = find_circular [OF Some]
    then have "live s j" by (auto simp: live_def sched_ready_def)
    with run [OF this] j Some show ?thesis by (auto simp: sched_yield_def Let_def)
  next
    case None
    then have no: "\<not> sched_ready s r" if "r < NENV" for r
      using find_circular_None that by blast
    show ?thesis
    proof (cases "find (sched_mine s) (sched_order (sched_start s))")
      case (Some j)
      note j = find_circular [OF Some]
      then have "live s j" by (auto simp: live_def sched_mine_def)
      with run [OF this] j Some None no show ?thesis by (auto simp: sched_yield_def Let_def)
    next
      case N2: None
      then have no2: "\<not> sched_mine s r" if "r < NENV" for r
        using find_circular_None that by blast
      show ?thesis
      proof (cases "env_status (envs s (cpunum s)) = ENV_RUNNABLE
          \<or> env_status (envs s (cpunum s)) = ENV_RUNNING")
        case True
        then have "live s (cpunum s)" using cpu by (auto simp: live_def)
        with run [OF this] True None N2 no show ?thesis by (auto simp: sched_yield_def Let_def)
      next
        case False
        then show ?thesis using None N2 no no2 by (simp add: sched_yield_def Let_def)
      qed
    qed
  qed
qed

text \<open>
  Round robin: while an environment stays runnable, every other choice brings the scheduler
  closer to it, so it runs within \<^verbatim>\<open>NENV\<close> scheduling decisions.
\<close>

theorem sched_yield_closer:
  assumes inv: "kinv s K" and h: "holding s" and cpu: "cpunum s < NENV"
    and r: "r < NENV" "sched_ready s r"
    and y: "sched_yield s = (Stop (EnterUser j), s')" and ne: "j \<noteq> r"
  shows "cdist j r < cdist (sched_last s) r"
proof -
  have j: "j < NENV \<and> cdist (sched_last s) j \<le> cdist (sched_last s) r"
    using sched_yield_spec [OF inv h cpu] r y by (auto simp: live_def split: if_splits)
  then show ?thesis using cdist_step [OF sched_last_less _ r(1) _ ne] by blast
qed

theorem sched_yield_fair:
  assumes run: "\<And>i. i < NENV \<Longrightarrow> kinv (st i) K \<and> holding (st i) \<and> cpunum (st i) < NENV
      \<and> sched_ready (st i) r \<and> (\<exists>t. sched_yield (st i) = (Stop (EnterUser (c i)), t))"
    and next_cur: "\<And>i. Suc i < NENV \<Longrightarrow> sched_last (st (Suc i)) = c i"
    and r: "r < NENV"
  shows "\<exists>i < NENV. c i = r"
proof (rule ccontr)
  assume "\<not> (\<exists>i < NENV. c i = r)"
  then have ne: "c i \<noteq> r" if "i < NENV" for i using that by blast
  have step: "cdist (c i) r < cdist (sched_last (st i)) r" if i: "i < NENV" for i
    using run [OF i] sched_yield_closer [OF _ _ _ r _ _ ne [OF i]] by blast
  have "cdist (c i) r + i + 1 < NENV" if "i < NENV" for i
    using that
  proof (induction i)
    case 0
    then show ?case using step [of 0] cdist_less [of "sched_last (st 0)" r] by linarith
  next
    case (Suc i)
    then show ?case using step [of "Suc i"] next_cur [of i] by simp
  qed
  from this [of "NENV - 1"] show False by (simp add: kconst)
qed

section \<open>Halting and destroying\<close>

lemma sched_halt_kinv:
  assumes inv: "kinv s K" and h: "holding s"
  shows "\<exists>x t. sched_halt s = (Stop x, t) \<and> (x = InMonitor \<or> x = CpuHalt) \<and> kinv t K"
proof (cases "\<forall>i < NENV. env_status (envs s i) \<notin> {ENV_RUNNABLE, ENV_RUNNING, ENV_DYING}")
  case True
  then show ?thesis using inv by (simp add: sched_halt_def)
next
  case False
  define t where "t = (set_curenv None s)\<lparr>cr3 := kern_pgdir s,
      cpus := (cpus (set_curenv None s))(cpunum s := (cpus (set_curenv None s) (cpunum s))\<lparr>cpu_status := CPU_HALTED\<rparr>),
      kernel_lock := unlocked\<rparr>"
  have "sched_halt s = (Stop CpuHalt, t)"
    using False h
    by (auto simp: sched_halt_def unlock_kernel_def holding_def t_def unlocked_def)
  moreover have "kinv t K"
  proof (rule kinv_cong [OF inv])
    show "c < NENV" if "curenv t = Some c" for c
      using that by (simp add: t_def curenv_def set_curenv_def)
  qed (simp_all add: t_def)
  ultimately show ?thesis by blast
qed

theorem sched_yield_kinv:
  assumes inv: "kinv s K" and h: "holding s" and cpu: "cpunum s < NENV"
  shows "\<exists>x t. sched_yield s = (Stop x, t) \<and> kinv t K
    \<and> (x = InMonitor \<or> x = CpuHalt \<or> (\<exists>j. x = EnterUser j \<and> live s j))"
  using sched_yield_spec [OF inv h cpu] sched_halt_kinv [OF inv h] kinv_env_run [OF inv]
  by fastforce

theorem env_destroy_kinv:
  assumes inv: "kinv s K" and e: "live s e" and h: "holding s" and cpu: "cpunum s < NENV"
  shows "case env_destroy e s of
      (Ret _, t) \<Rightarrow> kinv t K \<and> holding t \<and> curenv t = curenv s \<and> curenv s \<noteq> Some e
        \<and> (\<forall>x. x \<noteq> e \<longrightarrow> envs t x = envs s x) \<and> cpunum t = cpunum s
        \<and> (\<forall>x d. x \<noteq> e \<longrightarrow> live s x \<longrightarrow> env_pgdir (envs s x) = Some d \<longrightarrow>
             (\<forall>m < 1024 * UPDX. umap t d m = umap s d m))
        \<and> (if env_status (envs s e) = ENV_RUNNING then env_status (envs t e) = ENV_DYING
           else \<not> live t e)
    | (Stop x, t) \<Rightarrow> kinv t K \<and> curenv s = Some e \<and> (\<forall>msg. x \<noteq> Panic msg) \<and> \<not> live t e"
proof (cases "env_status (envs s e) = ENV_RUNNING \<and> curenv s \<noteq> Some e")
  case True
  let ?t = "upd_env e (\<lambda>v. v\<lparr>env_status := ENV_DYING\<rparr>) s"
  have "kinv ?t K"
  proof (rule kinv_cong [OF inv])
    show "same_slot (envs s x) (envs ?t x)" for x using True by (simp add: same_slot_def)
    show "c < NENV" if "curenv ?t = Some c" for c
      using that inv by (auto simp: kinv_def env_table_def)
  qed simp_all
  moreover have "holding ?t = holding s" by (simp add: holding_def)
  moreover have "umap ?t = umap s" by (rule umap_ram) simp
  ultimately show ?thesis using True h by (simp add: env_destroy_def)
next
  case False
  obtain u where u: "env_free e s = (Ret (), u)" "\<not> live u e" "cpus u = cpus s"
    "cpunum u = cpunum s" "kernel_lock u = kernel_lock s" "kinv u K"
    "\<forall>x. x \<noteq> e \<longrightarrow> envs u x = envs s x"
    "\<forall>x d. x \<noteq> e \<longrightarrow> live s x \<longrightarrow> env_pgdir (envs s x) = Some d \<longrightarrow>
         (\<forall>m < 1024 * UPDX. umap u d m = umap s d m)"
    using env_free_kinv [OF inv e] by blast
  have cu: "curenv u = curenv s" "holding u" using u h by (simp_all add: curenv_def holding_def)
  show ?thesis
  proof (cases "curenv s = Some e")
    case True
    let ?v = "set_curenv None u"
    have v: "kinv ?v K" by (rule kinv_cong [OF u(6)]) auto
    have "holding ?v" "cpunum ?v < NENV" using cu u cpu by (simp_all add: holding_def)
    from sched_yield_kinv [OF v this] obtain x t where
      y: "sched_yield ?v = (Stop x, t)" "kinv t K"
        "x = InMonitor \<or> x = CpuHalt \<or> (\<exists>j. x = EnterUser j \<and> live ?v j)" by blast
    have "\<not> live t e"
    proof -
      have dead: "env_status (envs ?v e) = ENV_FREE"
        using u(2) e by (simp add: live_def)
      have h: "envs (env_run_state j d ?v) e = envs ?v e" if "j \<noteq> e" for j d
        using that by (simp add: env_run_state_def demote_curenv_def)
      have "(\<exists>j d. t = env_run_state j d ?v \<and> live ?v j) \<or> (Stop x, t) = sched_halt ?v"
        using sched_yield_spec [OF v \<open>holding ?v\<close> \<open>cpunum ?v < NENV\<close>] y(1) by auto
      then show ?thesis
      proof
        assume "\<exists>j d. t = env_run_state j d ?v \<and> live ?v j"
        then obtain j d where j: "t = env_run_state j d ?v" "live ?v j" by blast
        then have "j \<noteq> e" using dead by (auto simp: live_def)
        then show ?thesis using h j dead by (simp add: live_def)
      next
        assume "(Stop x, t) = sched_halt ?v"
        then have "envs t = envs ?v"
          by (auto simp: sched_halt_def unlock_kernel_def split: if_splits)
        then show ?thesis using dead by (simp add: live_def)
      qed
    qed
    moreover have "env_destroy e s = (Stop x, t)"
      using True False u(1) cu y(1) by (simp add: env_destroy_def)
    ultimately show ?thesis using y True by auto
  next
    case F: False
    then have "env_destroy e s = (Ret (), u)"
      using False u(1) cu by (simp add: env_destroy_def)
    then show ?thesis using u cu F False by auto
  qed
qed

section \<open>Naming environments\<close>

text \<open>
  \<^verbatim>\<open>envid2env\<close> accepts an identifier exactly if it is the current identifier of a
  live slot and, under \<^verbatim>\<open>checkperm\<close>, names the caller or one of its children.
\<close>

theorem envid2env_spec:
  assumes inv: "kinv s K" and c: "curenv s = Some c" "live s c"
  shows "envid2env envid checkperm s =
    (if envid = 0 then (Ret (0, Some c), s)
     else if \<exists>e. live s e \<and> env_id (envs s e) = envid
              \<and> (checkperm \<longrightarrow> e = c \<or> env_parent_id (envs s e) = env_id (envs s c))
     then (Ret (0, Some (ENVX envid)), s)
     else (Ret (- E_BAD_ENV, None), s))"
proof -
  obtain efl where t: "env_table s efl" using inv by (auto simp: kinv_def)
  have x: "ENVX (env_id (envs s e)) = e" if "live s e" for e
    using t that by (simp add: env_table_def)
  have "(\<exists>e. live s e \<and> env_id (envs s e) = envid
         \<and> (checkperm \<longrightarrow> e = c \<or> env_parent_id (envs s e) = env_id (envs s c)))
    \<longleftrightarrow> live s (ENVX envid) \<and> env_id (envs s (ENVX envid)) = envid
         \<and> (checkperm \<longrightarrow> ENVX envid = c \<or> env_parent_id (envs s (ENVX envid)) = env_id (envs s c))"
    using x by metis
  then show ?thesis
    using c by (auto simp: envid2env_def Let_def live_def)
qed

text \<open>An identifier of a slot's previous life names nothing once the slot is in use again.\<close>

lemma next_env_id_differs:
  assumes "e < NENV" and "ENVX eid = e" and "0 < sint eid"
  shows "next_env_id eid e \<noteq> eid"
proof
  assume eq: "next_env_id eid e = eid"
  have d: "drop_bit 10 (w AND NOT (mask 10)) = drop_bit 10 w" for w :: i32
    by (rule word_eq_bitI)
      (auto simp: bit_drop_bit_eq bit_and_iff bit_not_iff bit_mask_iff dest: bit_imp_le_length)
  have "drop_bit 10 (next_env_id eid e) = drop_bit 10 (generation eid)"
    using bit_index [OF assms(1)]
    by (intro word_eq_bitI) (simp add: next_env_id_eq bit_drop_bit_eq bit_or_iff)
  then have "unat (drop_bit 10 (generation eid)) = unat (drop_bit 10 eid)" using eq by simp
  then have q: "unat (generation eid) div 1024 = unat eid div 1024"
    by (simp add: unat_drop_bit)
  define g where "g = (eid + 4096) AND NOT (mask 10)"
  have "unat (drop_bit 10 g) = unat (drop_bit 10 (eid + 4096))" unfolding g_def d ..
  then have gq: "unat g div 1024 = unat (eid + 4096) div 1024" by (simp add: unat_drop_bit)
  have small: "unat eid < 2147483648"
  proof -
    have "\<not> bit eid 31" using assms(3) by (simp add: sint_pos_iff)
    then have "\<not> bit (unat eid) 31" by (simp add: bit_unsigned_iff)
    then have "even (unat eid div 2147483648)" by (simp add: bit_iff_odd)
    moreover have "unat eid div 2147483648 < 2" using u32_bound [of eid] by linarith
    ultimately have "unat eid div 2147483648 = 0" by (metis One_nat_def less_2_cases odd_one)
    then show ?thesis by (simp add: div_eq_0_iff)
  qed
  then have add: "unat (eid + 4096) = unat eid + 4096" by (simp add: unat_word_ariths)
  show False
  proof (cases "sint g \<le> 0")
    case False
    then have "generation eid = g" by (simp add: generation_def g_def Let_def)
    then show False using q gq add by simp
  next
    case True
    then have "generation eid = 4096" by (simp add: generation_def g_def Let_def)
    then have e4: "unat eid div 1024 = 4" using q by simp
    then have "unat g div 1024 = 8" using gq add by simp
    then have ug: "unat g < 9216" "g \<noteq> 0" by auto
    have "\<not> bit g 31"
    proof
      assume "bit g 31"
      then have "bit (unat g) 31" by (simp add: bit_unsigned_iff)
      then show False using ug by (simp add: bit_iff_odd)
    qed
    then show False using True ug(2) sint_pos_iff [of g] by simp
  qed
qed

theorem stale_envid:
  assumes inv: "kinv s K" and c: "curenv s = Some c" "live s c"
    and e: "live s e" and old: "0 < sint oldid" "ENVX oldid = e"
    and reused: "env_id (envs s e) = next_env_id oldid e"
  shows "envid2env oldid checkperm s = (Ret (- E_BAD_ENV, None), s)"
proof -
  have "e < NENV" using e by (simp add: live_def)
  then have "next_env_id oldid e \<noteq> oldid" using old by (simp add: next_env_id_differs)
  moreover have "oldid \<noteq> 0" using old(1) by auto
  ultimately show ?thesis
    using e old(2) reused by (auto simp: envid2env_def Let_def)
qed

section \<open>The free environment list\<close>

text \<open>
  \<^verbatim>\<open>env_init\<close> tests \<^verbatim>\<open>i != NENV\<close> inside a loop over \<^verbatim>\<open>i < NENV\<close>, so the
  last slot is linked to the slot past the end of the array.
\<close>

lemma env_init_eq:
  "env_init s = (Ret (), (fold (\<lambda>i. upd_env i (\<lambda>e. e\<lparr>env_id := 0, env_status := ENV_FREE,
     env_runs := 0, env_parent_id := 0, env_link := (if i \<noteq> NENV then Some (i + 1) else None)\<rparr>))
     [0 ..< NENV] s)\<lparr>env_free_list := Some 0\<rparr>)"
  by (simp add: env_init_def forM_modify)

lemma envs_fold_upd:
  "distinct is \<Longrightarrow> envs (fold (\<lambda>i. upd_env i (f i)) is s) e
     = (if e \<in> set is then f e (envs s e) else envs s e)"
  by (induction "is" arbitrary: s) auto

lemma chain_upto: "k \<le> n \<Longrightarrow> (\<And>i. k \<le> i \<Longrightarrow> i < n \<Longrightarrow> nxt i = Some (Suc i)) \<Longrightarrow> nxt n = None \<Longrightarrow>
    chain nxt (Some k) ([k ..< n] @ [n])"
proof (induction "n - k" arbitrary: k)
  case 0
  then have "k = n" by simp
  then show ?case using 0 by simp
next
  case (Suc m)
  then have "chain nxt (Some (Suc k)) ([Suc k ..< n] @ [n])" by auto
  then show ?case using Suc.prems Suc.hyps(2) by (simp add: upt_conv_Cons)
qed

theorem env_init_spec:
  "\<exists>t. env_init s = (Ret (), t) \<and> (\<forall>e < NENV. \<not> live t e)
     \<and> env_link (envs t (NENV - 1)) = Some NENV
     \<and> (curenv s = None \<longrightarrow> env_table t [0 ..< NENV] \<and> dirs t = {})"
proof -
  define F :: "nat \<Rightarrow> Env \<Rightarrow> Env" where "F = (\<lambda>i e. e\<lparr>env_id := 0, env_status := ENV_FREE,
     env_runs := 0, env_parent_id := 0, env_link := (if i \<noteq> NENV then Some (i + 1) else None)\<rparr>)"
  define t where "t = (fold (\<lambda>i. upd_env i (F i)) [0 ..< NENV] s)\<lparr>env_free_list := Some 0\<rparr>"
  have run: "env_init s = (Ret (), t)" by (simp add: env_init_eq t_def F_def)
  have ev: "envs t e = F e (envs s e)" if "e < NENV" for e
    using that by (simp add: t_def envs_fold_upd)
  have dead: "\<not> live t e" for e using ev by (auto simp: live_def F_def)
  have cp: "cpus (fold (\<lambda>i. upd_env i (F i)) is u) = cpus u"
    "cpunum (fold (\<lambda>i. upd_env i (F i)) is u) = cpunum u" for "is" u
    by (induction "is" arbitrary: u) auto
  have "chain (elink t) (Some 0) ([0 ..< NENV] @ [NENV])"
    by (rule chain_upto) (auto simp: elink_def ev F_def)
  then have "curenv s = None \<longrightarrow> env_table t [0 ..< NENV] \<and> dirs t = {}"
    using dead by (auto simp: env_table_def dirs_def curenv_def t_def cp)
  moreover have "env_link (envs t (NENV - 1)) = Some NENV"
    by (subst ev) (simp_all add: F_def kconst)
  ultimately show ?thesis using run dead by (intro exI [of _ t]) simp
qed

text \<open>With every slot taken, allocation runs past the array instead of failing.\<close>

theorem env_alloc_exhausted:
  assumes "env_table s []"
  shows "env_alloc_as ty parent s = (Stop (BadPointer ''envs''), s)"
  using assms by (simp add: env_table_def env_alloc_as_def)

end
