(* ===== verification/Jos_Syscall.thy ===== *)
theory Jos_Syscall
  imports Jos_Sched
begin

text \<open>
  The system calls, \<^verbatim>\<open>kern/syscall.c\<close>. User addresses and integers arrive as 32-bit
  words; a result is the 32-bit value returned in \<^verbatim>\<open>eax\<close>, errors being negated codes.
\<close>

section \<open>System call numbers\<close>

definition SYS_cputs :: u32 where [kconst]: "SYS_cputs = 0"
definition SYS_cgetc :: u32 where [kconst]: "SYS_cgetc = 1"
definition SYS_getenvid :: u32 where [kconst]: "SYS_getenvid = 2"
definition SYS_env_destroy :: u32 where [kconst]: "SYS_env_destroy = 3"
definition SYS_page_alloc :: u32 where [kconst]: "SYS_page_alloc = 4"
definition SYS_page_map :: u32 where [kconst]: "SYS_page_map = 5"
definition SYS_page_unmap :: u32 where [kconst]: "SYS_page_unmap = 6"
definition SYS_exofork :: u32 where [kconst]: "SYS_exofork = 7"
definition SYS_env_set_status :: u32 where [kconst]: "SYS_env_set_status = 8"
definition SYS_env_set_trapframe :: u32 where [kconst]: "SYS_env_set_trapframe = 9"
definition SYS_env_set_pgfault_upcall :: u32 where [kconst]: "SYS_env_set_pgfault_upcall = 10"
definition SYS_yield :: u32 where [kconst]: "SYS_yield = 11"
definition SYS_ipc_try_send :: u32 where [kconst]: "SYS_ipc_try_send = 12"
definition SYS_ipc_recv :: u32 where [kconst]: "SYS_ipc_recv = 13"
definition SYS_env_mkguest :: u32 where [kconst]: "SYS_env_mkguest = 14"

section \<open>Console calls\<close>

text \<open>
  \<^verbatim>\<open>cprintf("%.*s", len, s)\<close>: \<^verbatim>\<open>vprintfmt\<close> reads a byte before it looks at the
  remaining precision, so one byte after the last printed one is read as well. A negative
  precision is no bound; \<open>2 ^ 32\<close> bytes are the whole address space.
\<close>

fun cputs_loop :: "nat \<Rightarrow> u32 \<Rightarrow> unit kernel" where
  "cputs_loop 0 p = bindM (vload8 p) (\<lambda>_. ret ())"
| "cputs_loop (Suc n) p = bindM (vload8 p) (\<lambda>ch.
     if ch = 0 then ret ()
     else thenM (modifyM (\<lambda>s. s\<lparr>kcons := cputchar (ucast ch) (kcons s)\<rparr>)) (cputs_loop n (p + 1)))"

text \<open>For a null pointer the conversion prints \<^verbatim>\<open>(null)\<close>, cut to the precision.\<close>

definition null_text :: "u8 list" where
  "null_text = [0x28, 0x6E, 0x75, 0x6C, 0x6C, 0x29]"

definition cputs_null :: "u32 \<Rightarrow> unit kernel" where
  "cputs_null len = modifyM (\<lambda>s. s\<lparr>kcons := fold (\<lambda>ch. cputchar (ucast ch))
     (if is_neg len then null_text else take (unat len) null_text) (kcons s)\<rparr>)"

definition sys_cputs :: "u32 \<Rightarrow> u32 \<Rightarrow> unit kernel" where
  "sys_cputs p len =
     bindM get_curenv (\<lambda>c.
     thenM (user_mem_assert c p len (PTE_P OR PTE_U))
       (if p = 0 then cputs_null len
        else cputs_loop (if is_neg len then 2 ^ 32 else unat len) p))"

definition sys_cgetc :: "i32 kernel" where
  "sys_cgetc = (\<lambda>s. case cons_getc (kcons s) of
     Some (ch, c') \<Rightarrow> (Ret (ucast ch), s\<lparr>kcons := c'\<rparr>)
   | None \<Rightarrow> (Stop Spinning, s))"

section \<open>Environments\<close>

definition the_env :: "nat option \<Rightarrow> nat kernel" where
  "the_env e = (case e of Some e \<Rightarrow> ret e | None \<Rightarrow> stop (BadPointer ''env''))"

definition sys_getenvid :: "i32 kernel" where
  "sys_getenvid = bindM get_curenv (\<lambda>c. getsM (\<lambda>s. env_id (envs s c)))"

definition sys_env_destroy :: "i32 \<Rightarrow> i32 kernel" where
  "sys_env_destroy envid =
     bindM (envid2env envid True) (\<lambda>(r, e).
       if is_neg r then ret r
       else bindM (the_env e) (\<lambda>e. thenM (env_destroy e) (ret 0)))"

definition sys_yield :: "unit kernel" where
  "sys_yield = sched_yield"

definition sys_exofork :: "i32 kernel" where
  "sys_exofork =
     bindM get_curenv (\<lambda>c.
     bindM (getsM (\<lambda>s. env_id (envs s c))) (\<lambda>cid.
     bindM (env_alloc cid) (\<lambda>(r, e).
       if is_neg r then ret r
       else bindM (the_env e) (\<lambda>e.
         thenM (modifyM (\<lambda>s. upd_env e (\<lambda>v. v\<lparr>env_tf := env_tf (envs s c)\<rparr>) s))
         (thenM (modifyM (upd_env e (\<lambda>v. v\<lparr>env_tf :=
            (env_tf v)\<lparr>tf_regs := (tf_regs (env_tf v))\<lparr>reg_eax := 0\<rparr>\<rparr>\<rparr>)))
         (thenM (modifyM (upd_env e (\<lambda>v. v\<lparr>env_status := ENV_NOT_RUNNABLE\<rparr>)))
           (getsM (\<lambda>s. env_id (envs s e)))))))))"

text \<open>The two statuses the call accepts, by their numeric value.\<close>

definition settable_status :: "u32 \<Rightarrow> EnvStatus option" where
  "settable_status st = (if st = status_code ENV_RUNNABLE then Some ENV_RUNNABLE
     else if st = status_code ENV_NOT_RUNNABLE then Some ENV_NOT_RUNNABLE else None)"

definition sys_env_set_status :: "i32 \<Rightarrow> u32 \<Rightarrow> i32 kernel" where
  "sys_env_set_status envid status =
     (case settable_status status of
        None \<Rightarrow> ret (- E_INVAL)
      | Some st \<Rightarrow>
          bindM (envid2env envid True) (\<lambda>(r, e).
            if r \<noteq> 0 then ret (- E_BAD_ENV)
            else bindM (the_env e) (\<lambda>e.
              thenM (modifyM (upd_env e (\<lambda>v. v\<lparr>env_status := st\<rparr>))) (ret 0))))"

text \<open>A \<^verbatim>\<open>struct Trapframe\<close> in user memory: 17 words, segment registers padded.\<close>

definition vload_regs :: "u32 \<Rightarrow> PushRegs kernel" where
  "vload_regs p =
     bindM (vload32 p) (\<lambda>edi. bindM (vload32 (p + 4)) (\<lambda>esi. bindM (vload32 (p + 8)) (\<lambda>ebp.
     bindM (vload32 (p + 12)) (\<lambda>oesp. bindM (vload32 (p + 16)) (\<lambda>ebx.
     bindM (vload32 (p + 20)) (\<lambda>edx. bindM (vload32 (p + 24)) (\<lambda>ecx.
     bindM (vload32 (p + 28)) (\<lambda>eax.
       ret \<lparr>reg_edi = edi, reg_esi = esi, reg_ebp = ebp, reg_oesp = oesp, reg_ebx = ebx,
         reg_edx = edx, reg_ecx = ecx, reg_eax = eax\<rparr>))))))))"

definition vload_tf :: "u32 \<Rightarrow> Trapframe kernel" where
  "vload_tf p =
     bindM (vload_regs p) (\<lambda>regs. bindM (vload32 (p + 32)) (\<lambda>es. bindM (vload32 (p + 36)) (\<lambda>ds.
     bindM (vload32 (p + 40)) (\<lambda>trapno. bindM (vload32 (p + 44)) (\<lambda>err.
     bindM (vload32 (p + 48)) (\<lambda>eip. bindM (vload32 (p + 52)) (\<lambda>cs.
     bindM (vload32 (p + 56)) (\<lambda>eflags. bindM (vload32 (p + 60)) (\<lambda>esp.
     bindM (vload32 (p + 64)) (\<lambda>ss.
       ret \<lparr>tf_regs = regs, tf_es = ucast es, tf_ds = ucast ds, tf_trapno = trapno, tf_err = err,
         tf_eip = eip, tf_cs = ucast cs, tf_eflags = eflags, tf_esp = esp, tf_ss = ucast ss\<rparr>))))))))))"

definition sys_env_set_trapframe :: "i32 \<Rightarrow> u32 \<Rightarrow> i32 kernel" where
  "sys_env_set_trapframe envid tf =
     bindM (envid2env envid True) (\<lambda>(r, e).
       if is_neg r then ret (- E_BAD_ENV)
       else bindM (vload32 (tf + 48)) (\<lambda>eip.
         if UTOP \<le> eip then ret (- 1)
         else bindM (the_env e) (\<lambda>e.
           bindM (vload_tf tf) (\<lambda>f.
           thenM (modifyM (upd_env e (\<lambda>v. v\<lparr>env_tf := f\<rparr>)))
           (thenM (modifyM (upd_env e (\<lambda>v. v\<lparr>env_tf :=
              (env_tf v)\<lparr>tf_eflags := tf_eflags (env_tf v) OR FL_IF\<rparr>\<rparr>))) (ret 0))))))"

definition sys_env_set_pgfault_upcall :: "i32 \<Rightarrow> u32 \<Rightarrow> i32 kernel" where
  "sys_env_set_pgfault_upcall envid func =
     bindM (envid2env envid True) (\<lambda>(r, e).
       if r \<noteq> 0 then ret (- E_BAD_ENV)
       else if func = 0 then ret (- E_INVAL)
       else bindM (the_env e) (\<lambda>e.
         thenM (modifyM (upd_env e (\<lambda>v. v\<lparr>env_pgfault_upcall := func\<rparr>))) (ret 0)))"

section \<open>Memory\<close>

definition bad_va :: "u32 \<Rightarrow> bool" where
  "bad_va va \<longleftrightarrow> UTOP \<le> va \<or> va mod PGSIZE \<noteq> 0"

definition bad_perm :: "u32 \<Rightarrow> bool" where
  "bad_perm perm \<longleftrightarrow> perm AND PTE_U = 0 \<or> perm AND PTE_P = 0 \<or> perm AND NOT PTE_SYSCALL \<noteq> 0"

definition sys_page_alloc :: "i32 \<Rightarrow> u32 \<Rightarrow> u32 \<Rightarrow> i32 kernel" where
  "sys_page_alloc envid va perm =
     (if bad_va va then ret (- E_INVAL)
      else if bad_perm perm then ret (- E_INVAL)
      else bindM (envid2env envid True) (\<lambda>(r, e).
        if r \<noteq> 0 then ret (- E_BAD_ENV)
        else bindM (page_alloc ALLOC_ZERO) (\<lambda>page.
          case page of
            None \<Rightarrow> ret (- E_NO_MEM)
          | Some p \<Rightarrow> bindM (the_env e) (\<lambda>e. bindM (the_pgdir e) (\<lambda>d.
              bindM (page_insert d p va perm) (\<lambda>r.
                if r \<noteq> 0 then thenM (page_free p) (ret (- E_NO_MEM)) else ret 0))))))"

definition sys_page_map :: "i32 \<Rightarrow> u32 \<Rightarrow> i32 \<Rightarrow> u32 \<Rightarrow> u32 \<Rightarrow> i32 kernel" where
  "sys_page_map srcenvid srcva dstenvid dstva perm =
     bindM (envid2env srcenvid True) (\<lambda>(r1, se).
       if r1 \<noteq> 0 then ret (- E_BAD_ENV)
       else bindM (envid2env dstenvid True) (\<lambda>(r2, de).
         if r2 \<noteq> 0 then ret (- E_BAD_ENV)
         else if bad_va srcva \<or> bad_va dstva then ret (- E_INVAL)
         else if bad_perm perm then ret (- E_INVAL)
         else bindM (the_env se) (\<lambda>se. bindM (the_pgdir se) (\<lambda>sd.
           bindM (page_lookup sd srcva) (\<lambda>l.
             case l of
               None \<Rightarrow> ret (- E_INVAL)
             | Some (page, septe) \<Rightarrow>
                 bindM (load_pte septe) (\<lambda>pte.
                   if perm AND PTE_W \<noteq> 0 \<and> pte AND PTE_W = 0 then ret (- E_INVAL)
                   else bindM (the_env de) (\<lambda>de. bindM (the_pgdir de) (\<lambda>dd.
                     bindM (page_insert dd page dstva perm) (\<lambda>r.
                       if r \<noteq> 0 then ret (- E_NO_MEM) else ret 0)))))))))"

definition sys_page_unmap :: "i32 \<Rightarrow> u32 \<Rightarrow> i32 kernel" where
  "sys_page_unmap envid va =
     (if bad_va va then ret (- E_INVAL)
      else bindM (envid2env envid True) (\<lambda>(r, e).
        if r \<noteq> 0 then ret (- E_BAD_ENV)
        else bindM (the_env e) (\<lambda>e. bindM (the_pgdir e) (\<lambda>d.
          thenM (page_remove d va) (ret 0)))))"

section \<open>Inter-process communication\<close>

definition ipc_page :: "nat \<Rightarrow> u32 \<Rightarrow> u32 \<Rightarrow> i32 kernel" where
  "ipc_page e srcva perm =
     bindM get_curenv (\<lambda>c. bindM (the_pgdir c) (\<lambda>sd.
     bindM (page_lookup sd srcva) (\<lambda>l.
       case l of
         None \<Rightarrow> ret (- E_INVAL)
       | Some (page, pte) \<Rightarrow> bindM (load_pte pte) (\<lambda>v.
           if perm AND PTE_W \<noteq> 0 \<and> v AND PTE_W = 0 then ret (- E_INVAL)
           else bindM (the_pgdir e) (\<lambda>dd.
             bindM (getsM (\<lambda>s. env_ipc_dstva (envs s e))) (\<lambda>dstva.
             bindM (page_insert dd page dstva perm) (\<lambda>r.
               if is_neg r then ret (- E_NO_MEM) else ret 0)))))))"

definition ipc_deliver :: "nat \<Rightarrow> u32 \<Rightarrow> u32 \<Rightarrow> i32 kernel" where
  "ipc_deliver e value perm =
     bindM get_curenv (\<lambda>c. bindM (getsM (\<lambda>s. env_id (envs s c))) (\<lambda>cid.
     thenM (modifyM (upd_env e (\<lambda>v. v\<lparr>env_ipc_recving := False, env_ipc_dstva := UTOP,
        env_ipc_from := cid, env_ipc_value := value, env_ipc_perm := perm,
        env_status := ENV_RUNNABLE\<rparr>))) (ret 0)))"

definition sys_ipc_try_send :: "i32 \<Rightarrow> u32 \<Rightarrow> u32 \<Rightarrow> u32 \<Rightarrow> i32 kernel" where
  "sys_ipc_try_send envid value srcva perm =
     bindM (envid2env envid False) (\<lambda>(r, e).
       if is_neg r then ret (- E_BAD_ENV)
       else bindM (the_env e) (\<lambda>e.
         bindM (getsM (\<lambda>s. envs s e)) (\<lambda>v.
           if \<not> env_ipc_recving v then ret (- E_IPC_NOT_RECV)
           else bindM (if env_ipc_dstva v < UTOP \<and> srcva < UTOP then ipc_page e srcva perm else ret 0)
             (\<lambda>r. if r \<noteq> 0 then ret r else ipc_deliver e value perm))))"

definition sys_ipc_recv :: "u32 \<Rightarrow> i32 kernel" where
  "sys_ipc_recv dstva =
     (if dstva < UTOP \<and> dstva mod PGSIZE \<noteq> 0 then ret (- E_INVAL)
      else bindM get_curenv (\<lambda>c.
        thenM (modifyM (upd_env c (\<lambda>v. v\<lparr>env_ipc_dstva := dstva, env_ipc_recving := True,
          env_ipc_value := 0, env_ipc_from := 0, env_ipc_perm := 0,
          env_status := ENV_NOT_RUNNABLE\<rparr>))) (ret 0)))"

section \<open>Guests\<close>

definition sys_env_mkguest :: "u32 \<Rightarrow> u32 \<Rightarrow> i32 kernel" where
  "sys_env_mkguest size' eip =
     bindM get_curenv (\<lambda>c.
     bindM (getsM (\<lambda>s. env_id (envs s c))) (\<lambda>cid.
     bindM (env_guest_alloc cid) (\<lambda>(r, e).
       if is_neg r then ret r
       else bindM (the_env e) (\<lambda>e.
         thenM (modifyM (upd_env e (\<lambda>v. v\<lparr>env_status := ENV_NOT_RUNNABLE,
            env_tf := (env_tf v)\<lparr>tf_eip := eip\<rparr>\<rparr>)))
           (getsM (\<lambda>s. env_id (envs s e)))))))"

section \<open>Dispatch\<close>

definition syscall :: "u32 \<Rightarrow> u32 \<Rightarrow> u32 \<Rightarrow> u32 \<Rightarrow> u32 \<Rightarrow> u32 \<Rightarrow> i32 kernel" where
  "syscall syscallno a1 a2 a3 a4 a5 =
     (if syscallno = SYS_yield then thenM sys_yield (ret 0)
      else if syscallno = SYS_cputs then thenM (sys_cputs a1 a2) (ret 0)
      else if syscallno = SYS_cgetc then sys_cgetc
      else if syscallno = SYS_getenvid then sys_getenvid
      else if syscallno = SYS_env_destroy then bindM (sys_env_destroy a1) (\<lambda>_. ret 0)
      else if syscallno = SYS_exofork then sys_exofork
      else if syscallno = SYS_env_set_status then sys_env_set_status a1 a2
      else if syscallno = SYS_page_alloc then sys_page_alloc a1 a2 a3
      else if syscallno = SYS_page_map then sys_page_map a1 a2 a3 a4 a5
      else if syscallno = SYS_page_unmap then sys_page_unmap a1 a2
      else if syscallno = SYS_env_set_pgfault_upcall then sys_env_set_pgfault_upcall a1 a2
      else if syscallno = SYS_ipc_try_send then sys_ipc_try_send a1 a2 a3 a4
      else if syscallno = SYS_ipc_recv then sys_ipc_recv a1
      else if syscallno = SYS_env_set_trapframe then sys_env_set_trapframe a1 a2
      else if syscallno = SYS_env_mkguest then sys_env_mkguest a1 a2
      else panic ''syscall not implemented'')"

end
