(* ===== verification/Jos_Syscall_Inv.thy ===== *)
theory Jos_Syscall_Inv
  imports Jos_Syscall
begin

text \<open>
  What the system calls guarantee: each returns to a state that satisfies the kernel invariant
  (or leaves the kernel in one), changes only the caller, its children and the receiver of a
  message, and reports the documented errors without effect.
\<close>

section \<open>Running on behalf of an environment\<close>

definition ready :: "kstate \<Rightarrow> nat set \<Rightarrow> nat \<Rightarrow> bool" where
  "ready s K c \<longleftrightarrow> kinv s K \<and> holding s \<and> cpunum s < NENV \<and> curenv s = Some c \<and> live s c"

text \<open>No page has so many mappings that one more would overflow its 16-bit counter.\<close>

definition refs_ok :: "kstate \<Rightarrow> bool" where
  "refs_ok s \<longleftrightarrow> (\<forall>p < npages s. unat (pp_ref (pages s p)) < 65535)"

definition may_control :: "kstate \<Rightarrow> nat \<Rightarrow> nat \<Rightarrow> bool" where
  "may_control s c e \<longleftrightarrow> e = c \<or> env_parent_id (envs s e) = env_id (envs s c)"

definition space_same :: "kstate \<Rightarrow> kstate \<Rightarrow> nat \<Rightarrow> bool" where
  "space_same s t e \<longleftrightarrow> (\<forall>d m. env_pgdir (envs s e) = Some d \<longrightarrow> m < 1024 * UPDX \<longrightarrow>
     umap t d m = umap s d m)"

text \<open>Environments other than those in \<open>A\<close> keep their record and their address space.\<close>

definition confined :: "kstate \<Rightarrow> kstate \<Rightarrow> nat set \<Rightarrow> bool" where
  "confined s t A \<longleftrightarrow> (\<forall>e. live s e \<longrightarrow> e \<notin> A \<longrightarrow> envs t e = envs s e \<and> space_same s t e)"

definition controlled :: "kstate \<Rightarrow> nat \<Rightarrow> nat set" where
  "controlled s c = {e. live s e \<and> may_control s c e}"

lemma confined_refl [simp]: "confined s s A"
  by (simp add: confined_def space_same_def)

lemma confined_mono: "confined s t A \<Longrightarrow> A \<subseteq> B \<Longrightarrow> confined s t B"
  by (auto simp: confined_def)

definition handled :: "nat set \<Rightarrow> nat \<Rightarrow> nat set \<Rightarrow> kstate \<Rightarrow> ('r kernel) \<Rightarrow> bool" where
  "handled K c A s m \<longleftrightarrow> (case m s of
     (Ret _, t) \<Rightarrow> ready t K c \<and> confined s t A
   | (Stop _, t) \<Rightarrow> kinv t K)"

lemma envid2env_cases:
  assumes "ready s K c"
  obtains (ok) e where "envid2env envid chk s = (Ret (0, Some e), s)" and "live s e"
      and "chk \<longrightarrow> e \<in> controlled s c"
    | (bad) "envid2env envid chk s = (Ret (- E_BAD_ENV, None), s)"
proof -
  have r: "kinv s K" "curenv s = Some c" "live s c" using assms by (auto simp: ready_def)
  obtain efl where t: "env_table s efl" using r by (auto simp: kinv_def)
  show thesis
  proof (cases "envid = 0")
    case True
    then show ?thesis
      using ok [of c] r envid2env_spec [OF r, of envid chk] by (simp add: controlled_def may_control_def)
  next
    case False
    show ?thesis
    proof (cases "\<exists>e. live s e \<and> env_id (envs s e) = envid
        \<and> (chk \<longrightarrow> e = c \<or> env_parent_id (envs s e) = env_id (envs s c))")
      case True
      then obtain e where e: "live s e" "env_id (envs s e) = envid"
        "chk \<longrightarrow> e = c \<or> env_parent_id (envs s e) = env_id (envs s c)" by blast
      then have "ENVX envid = e" using t by (auto simp: env_table_def)
      moreover have "envid2env envid chk s = (Ret (0, Some (ENVX envid)), s)"
        using envid2env_spec [OF r, of envid chk] False True by simp
      ultimately show ?thesis
        using ok [of e] e by (simp add: controlled_def may_control_def)
    next
      case F: False
      then have "envid2env envid chk s = (Ret (- E_BAD_ENV, None), s)"
        using envid2env_spec [OF r, of envid chk] False by simp
      then show ?thesis by (rule bad)
    qed
  qed
qed

section \<open>Updates of environment records\<close>

lemma ready_upd_env:
  assumes r: "ready s K c" and e: "live s e" and f: "\<And>v. env_status v \<noteq> ENV_FREE \<Longrightarrow> same_slot v (f v)"
  shows "ready (upd_env e f s) K c" and "confined s (upd_env e f s) {e}"
proof -
  have k: "kinv s K" "curenv s = Some c" "live s c" using r by (auto simp: ready_def)
  have ss: "same_slot (envs s x) (envs (upd_env e f s) x)" for x
    using e f by (simp add: live_def)
  have "kinv (upd_env e f s) K"
    by (rule kinv_cong [OF k(1) ss]) (use k in \<open>auto simp: live_def\<close>)
  moreover have "live (upd_env e f s) c"
    using k(3) ss [of c] by (auto simp: live_def same_slot_def)
  moreover have "holding (upd_env e f s) = holding s" by (simp add: holding_def)
  ultimately show "ready (upd_env e f s) K c" using r by (simp add: ready_def)
  have "umap (upd_env e f s) = umap s" by (rule umap_ram) simp
  then show "confined s (upd_env e f s) {e}" by (simp add: confined_def space_same_def)
qed

lemma ready_mem:
  assumes r: "ready s K c" and k: "kinv t K" and rs: "rest_same s t"
  shows "ready t K c"
  using r k rest_sameD [OF rs] by (auto simp: ready_def holding_def live_def)

lemma live_space:
  assumes "ready s K c" and "live s e"
  obtains d where "the_pgdir e s = (Ret d, s)" and "d \<in> dirs s" and "env_pgdir (envs s e) = Some d"
proof -
  obtain efl where "env_table s efl" using assms(1) by (auto simp: ready_def kinv_def)
  from live_pgdir [OF this assms(2)] obtain d where "env_pgdir (envs s e) = Some d" "d \<in> dirs s" .
  then show ?thesis using that by (simp add: the_pgdir_def)
qed

lemma confined_maps:
  assumes r: "ready s K c" and e: "live s e" "env_pgdir (envs s e) = Some d"
    and m: "\<forall>a \<in> dirs s - {d}. \<forall>m < 1024 * UPDX. umap t a m = umap s a m"
    and ev: "envs t = envs s"
  shows "confined s t {e}"
proof -
  obtain efl where t: "env_table s efl" using r by (auto simp: ready_def kinv_def)
  have "a \<in> dirs s - {d}" if "live s x" "x \<noteq> e" "env_pgdir (envs s x) = Some a" for x a
  proof -
    have "a \<noteq> d" using t that e by (auto simp: env_table_def)
    then show ?thesis using that by (auto simp: dirs_def)
  qed
  then show ?thesis using m ev by (auto simp: confined_def space_same_def)
qed

section \<open>Contents of user pages\<close>

definition user_frame :: "kstate \<Rightarrow> nat \<Rightarrow> bool" where
  "user_frame s f \<longleftrightarrow> (\<exists>d \<in> dirs s. \<exists>m < 1024 * UPDX. map_option pte_frame (umap s d m) = Some f)"

definition contents_kept :: "kstate \<Rightarrow> kstate \<Rightarrow> bool" where
  "contents_kept s t \<longleftrightarrow> (\<forall>f. user_frame s f \<longrightarrow> ram t f = ram s f)"

lemma contents_kept_refl [simp]: "contents_kept s s"
  by (simp add: contents_kept_def)

lemma umap_target:
  assumes "d \<in> D" and "m < 1024 * UPDX"
  shows "target s D (Pg d (m div 1024) (m mod 1024)) = map_option pte_frame (umap s d m)"
  using assms by (simp add: umap_def entry_frame_def Let_def div_UPDX split: option.split)

lemma user_frame_plain:
  assumes inv: "mem_inv s (dirs s) K fl" and f: "user_frame s f"
  shows "f \<notin> set fl" "\<not> structural s (dirs s) f"
proof -
  obtain d m where m: "d \<in> dirs s" "m < 1024 * UPDX" "map_option pte_frame (umap s d m) = Some f"
    using f by (auto simp: user_frame_def)
  have x: "target s (dirs s) (Pg d (m div 1024) (m mod 1024)) = Some f" using umap_target [OF m(1,2)] m(3) by simp
  show "f \<notin> set fl" by (rule mapped_page(3) [OF inv x])
  show "\<not> structural s (dirs s) f"
    using owned_onceD [OF mem_invD(7) [OF inv] x] unfolding structural_def by (metis is_Pg_simps(1))
qed

lemma contents_keptI:
  assumes "mem_inv s (dirs s) K fl" and "\<And>f. f \<notin> set fl \<Longrightarrow> \<not> structural s (dirs s) f \<Longrightarrow> ram t f = ram s f"
  shows "contents_kept s t"
  using user_frame_plain [OF assms(1)] assms(2) by (simp add: contents_kept_def)

section \<open>Pages\<close>

lemma bad_vaD: "\<not> bad_va va \<Longrightarrow> va < UTOP"
  by (simp add: bad_va_def not_le)

lemma bad_permD: "\<not> bad_perm perm \<Longrightarrow> perm < 0x1000"
proof -
  assume "\<not> bad_perm perm"
  then have z: "perm AND NOT PTE_SYSCALL = 0" by (simp add: bad_perm_def)
  have nb: "\<not> bit perm n" if "12 \<le> n" "n < 32" for n
  proof
    assume b: "bit perm n"
    have "(PTE_SYSCALL :: u32) < 0x1000" by (simp add: kconst)
    then have "\<not> bit PTE_SYSCALL n" using that(1) by (rule bit_perm)
    then have "bit (perm AND NOT PTE_SYSCALL) n"
      using b that(2) by (simp add: bit_and_iff bit_not_iff)
    then show False using z by simp
  qed
  have "perm = perm AND mask 12"
  proof (rule word_eq_bitI)
    fix n :: nat assume "n < LENGTH(32)"
    then show "bit perm n = bit (perm AND mask 12) n"
      using nb [of n] by (cases "n < 12") (auto simp: bit_and_iff bit_mask_iff)
  qed
  then have "unat perm = unat perm mod 4096" using unat_and_mask [of perm 12] by simp
  moreover have "unat perm mod 4096 < 4096" by simp
  ultimately have "unat perm < 4096" by metis
  then show ?thesis by (simp add: word_less_nat_alt)
qed

lemma PGNUM_UTOP: "va < UTOP \<Longrightarrow> PGNUM va < 1024 * UPDX"
  by (simp add: below_UTOP_iff PDX_of_PGNUM less_mult_imp_div_less)

lemma page_free_unused:
  assumes inv: "mem_inv s D K fl" and p: "insertable s D K fl p" "pp_ref (pages s p) = 0"
    and l: "leak_free s (insert p K) fl"
  shows "\<exists>t. page_free p s = (Ret (), t) \<and> mem_inv t D K (p # fl) \<and> leak_free t K (p # fl)
    \<and> rest_same s t \<and> umap t = umap s"
proof -
  have q: "p < npages s" "p \<notin> K" "p \<notin> set fl" using p(1) by (auto simp: insertable_def)
  have link: "pp_link (pages s p) = None"
    using mem_invD(3) [OF inv] q by (auto simp: free_pages_def)
  let ?t = "upd_page p (\<lambda>pg. pg\<lparr>pp_link := page_free_list s\<rparr>) s\<lparr>page_free_list := Some p\<rparr>"
  have run: "page_free p s = (Ret (), ?t)" using p(2) link by (simp add: page_free_def)
  have "chain (\<lambda>x. pp_link (pages ?t x)) (page_free_list s) fl
      = chain (\<lambda>x. pp_link (pages s x)) (page_free_list s) fl"
    by (rule chain_cong) (use q in auto)
  then have fp: "free_pages ?t (p # fl)"
    using mem_invD(3) [OF inv] q p(2) by (auto simp: free_pages_def)
  have ram: "ram ?t = ram s" by simp
  have tgt: "target ?t D x = target s D x" for x by (rule target_ram [OF ram])
  have "mem_inv ?t D K (p # fl)"
    using inv fp q(2) unfolding mem_inv_def owned_once_def counted_def refs_def tgt by auto
  moreover have "leak_free ?t K (p # fl)" using l by (auto simp: leak_free_def)
  moreover have "rest_same s ?t" by (simp add: rest_same_def)
  moreover have "umap ?t = umap s" by (rule umap_ram [OF ram])
  ultimately show ?thesis using run by blast
qed

lemma insertable_counted:
  assumes "mem_inv s D K fl" and "d \<in> D" and "va < UTOP" and "umap s d (PGNUM va) = Some e"
    and "unat (pp_ref (pages s (pte_frame e))) < 65535"
  shows "insertable s D K fl (pte_frame e)"
proof -
  have va: "PDX va < UPDX" using assms(3) by (simp add: below_UTOP_iff)
  have x: "target s D (Pg d (PDX va) (PTX va)) = Some (pte_frame e)"
    using target_umap [OF assms(2) va] assms(4) by simp
  have "is_Pg y" if "target s D y = Some (pte_frame e)" for y
    using owned_onceD [OF mem_invD(7) [OF assms(1)] x that] by auto
  then show ?thesis
    using mapped_page [OF assms(1) x] assms(5) by (auto simp: insertable_def)
qed

lemma insertable_bound:
  assumes "mem_inv s D K fl" and "d \<in> D" and "va < UTOP" and "umap s d (PGNUM va) = Some e"
    and "refs_ok s"
  shows "insertable s D K fl (pte_frame e)"
proof (rule insertable_counted [OF assms(1-4)])
  have "target s D (Pg d (PGNUM va div 1024) (PGNUM va mod 1024)) = Some (pte_frame e)"
    using umap_target [OF assms(2) PGNUM_UTOP [OF assms(3)], of s] assms(4) by simp
  from mapped_page(1) [OF assms(1) this] show "unat (pp_ref (pages s (pte_frame e))) < 65535"
    using assms(5) by (simp add: refs_ok_def)
qed

text \<open>
  Mapping a page in the space of \<open>e\<close>: the page is either mapped already somewhere below
  \<^verbatim>\<open>UTOP\<close> or fresh.
\<close>

lemma insert_in_space_full:
  assumes r: "ready s K c" and e: "live s e" "env_pgdir (envs s e) = Some d" and va: "va < UTOP"
    and inv: "mem_inv s (dirs s) K fl" and l: "leak_free s (insert p K) fl"
    and p: "insertable s (dirs s) K fl p" and perm: "perm < 0x1000"
  shows "page_insert d p va perm s = (Ret (- E_NO_MEM), s)
    \<or> (\<exists>t. page_insert d p va perm s = (Ret 0, t) \<and> ready t K c \<and> confined s t {e}
        \<and> rest_same s t \<and> maps_agree s t (dirs s) d (PGNUM va) (Some (mk_pte p perm))
        \<and> contents_kept s t \<and> (open_tables s (dirs s) \<longrightarrow> open_tables t (dirs s))
        \<and> (\<forall>f. f \<notin> set fl \<longrightarrow> \<not> structural s (dirs s) f \<longrightarrow> ram t f = ram s f))"
proof -
  have d: "d \<in> dirs s" using e by (auto simp: dirs_def)
  have k: "kinv s K" using r by (simp add: ready_def)
  show ?thesis
  proof (cases "tab_of s d (PDX va) = None \<and> fl = []")
    case True
    then show ?thesis using page_insert_full [OF inv d va p perm] by simp
  next
    case False
    then obtain t fl' where t: "page_insert d p va perm s = (Ret 0, t)" "mem_inv t (dirs s) K fl'"
      "maps_agree s t (dirs s) d (PGNUM va) (Some (mk_pte p perm))" "rest_same s t"
      "leak_free s (insert p K) fl \<longrightarrow> leak_free t K fl'"
      "\<forall>f. f \<notin> set fl \<longrightarrow> \<not> structural s (dirs s) f \<longrightarrow> ram t f = ram s f"
      "open_tables s (dirs s) \<longrightarrow> open_tables t (dirs s)"
      using page_insert_full [OF inv d va p perm] by auto
    have "kinv t K" by (rule kinv_mem [OF k t(4,2)]) (use t(5) l in blast)
    moreover have "confined s t {e}"
      by (rule confined_maps [OF r e]) (use t(3) rest_sameD(2) [OF t(4)] in \<open>auto simp: maps_agree_def\<close>)
    moreover have "contents_kept s t" by (rule contents_keptI [OF inv]) (use t(6) in blast)
    ultimately show ?thesis using t ready_mem [OF r _ t(4)] by blast
  qed
qed

lemma insert_in_space:
  assumes "ready s K c" and "live s e" "env_pgdir (envs s e) = Some d" and "va < UTOP"
    and "mem_inv s (dirs s) K fl" and "leak_free s (insert p K) fl"
    and "insertable s (dirs s) K fl p" and "perm < 0x1000"
  shows "page_insert d p va perm s = (Ret (- E_NO_MEM), s)
    \<or> (\<exists>t. page_insert d p va perm s = (Ret 0, t) \<and> ready t K c \<and> confined s t {e}
        \<and> rest_same s t \<and> maps_agree s t (dirs s) d (PGNUM va) (Some (mk_pte p perm))
        \<and> (\<forall>f. f \<notin> set fl \<longrightarrow> \<not> structural s (dirs s) f \<longrightarrow> ram t f = ram s f))"
  using insert_in_space_full [OF assms] by blast

lemma maps_agree_self: "maps_agree s t D d n v \<Longrightarrow> d \<in> D \<Longrightarrow> n < 1024 * UPDX \<Longrightarrow> umap t d n = v"
  by (simp add: maps_agree_def)

lemma E_NO_MEM_nonzero: "E_NO_MEM \<noteq> 0"
  by (simp add: E_NO_MEM_def)

lemma E_BAD_ENV_nonzero: "E_BAD_ENV \<noteq> 0"
  by (simp add: E_BAD_ENV_def)

theorem sys_page_alloc_spec:
  assumes r: "ready s K c"
  shows "if bad_va va \<or> bad_perm perm then sys_page_alloc envid va perm s = (Ret (- E_INVAL), s)
    else envid2env envid True s = (Ret (- E_BAD_ENV, None), s)
        \<and> sys_page_alloc envid va perm s = (Ret (- E_BAD_ENV), s)
      \<or> (\<exists>e d t. envid2env envid True s = (Ret (0, Some e), s) \<and> e \<in> controlled s c
          \<and> env_pgdir (envs s e) = Some d \<and> ready t K c \<and> confined s t {e} \<and> envs t = envs s
          \<and> (sys_page_alloc envid va perm s = (Ret (- E_NO_MEM), t)
               \<and> (\<forall>a \<in> dirs s. \<forall>m < 1024 * UPDX. umap t a m = umap s a m)
             \<or> (\<exists>p. sys_page_alloc envid va perm s = (Ret 0, t)
               \<and> maps_agree s t (dirs s) d (PGNUM va) (Some (mk_pte p perm))
               \<and> (\<forall>i. ram t p i = 0))))"
proof (cases "bad_va va \<or> bad_perm perm")
  case True
  then show ?thesis by (auto simp: sys_page_alloc_def)
next
  case False
  then have va: "va < UTOP" and perm: "perm < 0x1000" using bad_vaD bad_permD by auto
  show ?thesis
    using r
  proof (cases rule: envid2env_cases [where envid = envid and chk = True])
    case bad
    then show ?thesis using False by (simp add: sys_page_alloc_def E_BAD_ENV_nonzero)
  next
    case (ok e)
    obtain d where d: "the_pgdir e s = (Ret d, s)" "d \<in> dirs s" "env_pgdir (envs s e) = Some d"
      by (rule live_space [OF r ok(2)])
    have k: "kinv s K" using r by (simp add: ready_def)
    obtain fl where fl: "mem_inv s (dirs s) K fl" "leak_free s K fl" using k by (auto simp: kinv_def)
    have ec: "e \<in> controlled s c" using ok by simp
    show ?thesis
    proof (cases fl)
      case Nil
      then have "sys_page_alloc envid va perm s = (Ret (- E_NO_MEM), s)"
        using False ok page_alloc_None [of s "dirs s" K] fl(1) by (simp add: sys_page_alloc_def)
      then show ?thesis
        using False ok ec d r by (intro iffD2 [OF if_not_P] disjI2 exI [of _ e] exI [of _ d] exI [of _ s]) auto
    next
      case (Cons p fl')
      from page_alloc_spec [OF fl(1), of ALLOC_ZERO] Cons obtain u where
        u: "page_alloc ALLOC_ZERO s = (Ret (Some p), u)" "mem_inv u (dirs s) K fl'"
          "insertable u (dirs s) K fl' p" "pp_ref (pages u p) = 0" "ram u = (ram s)(p := (\<lambda>_. 0))"
          "rest_same s u" "leak_free s K fl \<longrightarrow> leak_free u (insert p K) fl'"
          "\<forall>x. target u (dirs s) x = target s (dirs s) x"
          "\<forall>a \<in> dirs s. \<forall>m < 1024 * UPDX. umap u a m = umap s a m" by auto
      have du: "dirs u = dirs s"
        using rest_sameD(2) [OF u(6)] by (simp add: dirs_def live_def)
      have lu: "leak_free u (insert p K) fl'" using u(7) fl(2) by blast
      have eu: "live u e" "env_pgdir (envs u e) = Some d"
        using ok d rest_sameD(2) [OF u(6)] by (simp_all add: live_def)
      have agree: "\<forall>a \<in> dirs s. \<forall>m < 1024 * UPDX. umap u a m = umap s a m" using u(9) .
      have run: "sys_page_alloc envid va perm s = (case page_insert d p va perm u of
          (Ret r, t) \<Rightarrow> if r \<noteq> 0 then thenM (page_free p) (ret (- E_NO_MEM)) t else (Ret 0, t)
        | (Stop x, t) \<Rightarrow> (Stop x, t))"
        using False ok u(1) d eu rest_sameD(2) [OF u(6)]
        by (auto simp: sys_page_alloc_def the_env_def the_pgdir_def split: prod.split outcome.split)
      have ins: "page_insert d p va perm u = (Ret (- E_NO_MEM), u)
        \<or> (\<exists>t fl''. page_insert d p va perm u = (Ret 0, t) \<and> mem_inv t (dirs s) K fl''
            \<and> leak_free t K fl'' \<and> rest_same u t
            \<and> maps_agree u t (dirs s) d (PGNUM va) (Some (mk_pte p perm))
            \<and> ram t p = ram u p)"
      proof (cases "tab_of u d (PDX va) = None \<and> fl' = []")
        case True
        then show ?thesis using page_insert_spec [OF u(2) d(2) va u(3) perm] by simp
      next
        case F: False
        have "\<not> structural u (dirs s) p" "p \<notin> set fl'"
          using u(3) by (auto simp: insertable_def structural_def)
        then show ?thesis
          using page_insert_spec [OF u(2) d(2) va u(3) perm] lu unfolding if_not_P [OF F] by blast
      qed
      have keep: "ready t K c \<and> confined s t {e} \<and> envs t = envs s"
        if t: "mem_inv t (dirs s) K fl''" "leak_free t K fl''" "rest_same s t"
          "\<forall>a \<in> dirs s - {d}. \<forall>m < 1024 * UPDX. umap t a m = umap s a m" for t fl''
        using ready_mem [OF r kinv_mem [OF k t(3,1,2)] t(3)] rest_sameD(2) [OF t(3)]
          confined_maps [OF r ok(2) d(3) t(4)] by simp
      from ins show ?thesis
      proof
        assume f: "page_insert d p va perm u = (Ret (- E_NO_MEM), u)"
        obtain t where t: "page_free p u = (Ret (), t)" "mem_inv t (dirs s) K (p # fl')"
          "leak_free t K (p # fl')" "rest_same u t" "umap t = umap u"
          using page_free_unused [OF u(2,3,4) lu] by blast
        have "sys_page_alloc envid va perm s = (Ret (- E_NO_MEM), t)"
          using run f t(1) by (simp add: E_NO_MEM_nonzero)
        moreover have "ready t K c \<and> confined s t {e} \<and> envs t = envs s"
          by (rule keep [OF t(2,3) rest_same_trans [OF u(6) t(4)]]) (use agree t(5) in auto)
        ultimately show ?thesis using False ok ec d agree t(5) by auto
      next
        assume "\<exists>t fl''. page_insert d p va perm u = (Ret 0, t) \<and> mem_inv t (dirs s) K fl''
            \<and> leak_free t K fl'' \<and> rest_same u t
            \<and> maps_agree u t (dirs s) d (PGNUM va) (Some (mk_pte p perm)) \<and> ram t p = ram u p"
        then obtain t fl'' where t: "page_insert d p va perm u = (Ret 0, t)"
          "mem_inv t (dirs s) K fl''" "leak_free t K fl''" "rest_same u t"
          "maps_agree u t (dirs s) d (PGNUM va) (Some (mk_pte p perm))" "ram t p = ram u p" by blast
        have m: "maps_agree s t (dirs s) d (PGNUM va) (Some (mk_pte p perm))"
          using t(5) agree by (simp add: maps_agree_def)
        have "ready t K c \<and> confined s t {e} \<and> envs t = envs s"
          by (rule keep [OF t(2,3) rest_same_trans [OF u(6) t(4)]]) (use m in \<open>simp add: maps_agree_def\<close>)
        moreover have "sys_page_alloc envid va perm s = (Ret 0, t)" using run t(1) by simp
        moreover have "\<forall>i. ram t p i = 0" using t(6) u(5) by simp
        ultimately show ?thesis using False ok ec d m by auto
      qed
    qed
  qed
qed

definition controls_space :: "kstate \<Rightarrow> nat \<Rightarrow> nat \<Rightarrow> bool" where
  "controls_space s c d \<longleftrightarrow> (\<exists>e \<in> controlled s c. env_pgdir (envs s e) = Some d)"

text \<open>What a successful \<^verbatim>\<open>sys_page_map\<close> has done.\<close>

definition page_mapped ::
    "kstate \<Rightarrow> kstate \<Rightarrow> nat \<Rightarrow> i32 \<Rightarrow> u32 \<Rightarrow> i32 \<Rightarrow> u32 \<Rightarrow> u32 \<Rightarrow> bool" where
  "page_mapped s t c srcenvid srcva dstenvid dstva perm \<longleftrightarrow>
     \<not> bad_va srcva \<and> \<not> bad_va dstva \<and> \<not> bad_perm perm \<and> rest_same s t
     \<and> contents_kept s t \<and> (open_tables s (dirs s) \<longrightarrow> open_tables t (dirs s))
     \<and> (\<exists>se de sd dd e. envid2env srcenvid True s = (Ret (0, Some se), s) \<and> se \<in> controlled s c
         \<and> envid2env dstenvid True s = (Ret (0, Some de), s) \<and> de \<in> controlled s c \<and> confined s t {de}
         \<and> env_pgdir (envs s se) = Some sd \<and> env_pgdir (envs s de) = Some dd
         \<and> umap s sd (PGNUM srcva) = Some e \<and> (perm AND PTE_W \<noteq> 0 \<longrightarrow> e AND PTE_W \<noteq> 0)
         \<and> maps_agree s t (dirs s) dd (PGNUM dstva) (Some (mk_pte (pte_frame e) perm)))"

text \<open>No page the call could share has its counter at the top.\<close>

definition room_to_share :: "kstate \<Rightarrow> i32 \<Rightarrow> u32 \<Rightarrow> bool" where
  "room_to_share s srcenvid srcva \<longleftrightarrow>
     (\<forall>se sd e. srcva < UTOP \<and> envid2env srcenvid True s = (Ret (0, Some se), s)
        \<and> env_pgdir (envs s se) = Some sd \<and> umap s sd (PGNUM srcva) = Some e
        \<longrightarrow> unat (pp_ref (pages s (pte_frame e))) < 65535)"

text \<open>
  A successful \<^verbatim>\<open>sys_page_map\<close> shares the source page and never turns a read-only
  mapping into a writable one; a failed one changes nothing.
\<close>

theorem sys_page_map_full:
  assumes r: "ready s K c" and count: "room_to_share s srcenvid srcva"
  shows "\<exists>v t. sys_page_map srcenvid srcva dstenvid dstva perm s = (Ret v, t) \<and> ready t K c
    \<and> (if v \<noteq> 0 then t = s \<and> v \<in> {- E_BAD_ENV, - E_INVAL, - E_NO_MEM}
       else page_mapped s t c srcenvid srcva dstenvid dstva perm)"
proof -
  let ?run = "sys_page_map srcenvid srcva dstenvid dstva perm s"
  have err: ?thesis if "?run = (Ret v, s)" "v \<noteq> 0" "v \<in> {- E_BAD_ENV, - E_INVAL, - E_NO_MEM}" for v
    using that r by simp
  have nz: "- E_BAD_ENV \<noteq> (0 :: i32)" "- E_INVAL \<noteq> (0 :: i32)" "- E_NO_MEM \<noteq> (0 :: i32)"
    by (simp_all add: kconst)
  show ?thesis
    using r
  proof (cases rule: envid2env_cases [where envid = srcenvid and chk = True])
    case bad
    then have "?run = (Ret (- E_BAD_ENV), s)" by (simp add: sys_page_map_def E_BAD_ENV_nonzero)
    then show ?thesis using err nz by blast
  next
    case (ok se)
    note s1 = ok
    show ?thesis
      using r
    proof (cases rule: envid2env_cases [where envid = dstenvid and chk = True])
      case bad
      then have "?run = (Ret (- E_BAD_ENV), s)" using s1 by (simp add: sys_page_map_def E_BAD_ENV_nonzero)
      then show ?thesis using err nz by blast
    next
      case (ok de)
      note s2 = ok
      show ?thesis
      proof (cases "bad_va srcva \<or> bad_va dstva \<or> bad_perm perm")
        case True
        then have "?run = (Ret (- E_INVAL), s)" using s1 s2 by (auto simp: sys_page_map_def)
        then show ?thesis using err nz by blast
      next
        case False
        then have va: "srcva < UTOP" "dstva < UTOP" and perm: "perm < 0x1000"
          using bad_vaD bad_permD by auto
        obtain sd where sd: "the_pgdir se s = (Ret sd, s)" "sd \<in> dirs s" "env_pgdir (envs s se) = Some sd"
          by (rule live_space [OF r s1(2)])
        obtain dd where dd: "the_pgdir de s = (Ret dd, s)" "dd \<in> dirs s" "env_pgdir (envs s de) = Some dd"
          by (rule live_space [OF r s2(2)])
        obtain fl where fl: "mem_inv s (dirs s) K fl" "leak_free s K fl"
          using r by (auto simp: ready_def kinv_def)
        obtain l where l: "page_lookup sd srcva s = (Ret l, s)"
          "map_option fst l = map_option pte_frame (umap s sd (PGNUM srcva))"
          "\<forall>p t j. l = Some (p, t, j) \<longrightarrow> umap s sd (PGNUM srcva) = Some (ram s t j)"
          using page_lookup_spec [OF fl(1) sd(2) va(1)] by blast
        show ?thesis
        proof (cases l)
          case None
          then have "?run = (Ret (- E_INVAL), s)"
            using s1 s2 False sd l(1) by (simp add: sys_page_map_def the_env_def)
          then show ?thesis using err nz by blast
        next
          case (Some x)
          then obtain p t j where x: "l = Some (p, t, j)" by (cases x) auto
          define e where "e = ram s t j"
          have um: "umap s sd (PGNUM srcva) = Some e" using l(3) x by (simp add: e_def)
          then have p: "p = pte_frame e" using l(2) x by simp
          show ?thesis
          proof (cases "perm AND PTE_W \<noteq> 0 \<and> e AND PTE_W = 0")
            case True
            then have "?run = (Ret (- E_INVAL), s)"
              using s1 s2 False sd l(1) x by (simp add: sys_page_map_def the_env_def load_pte_def e_def)
            then show ?thesis using err nz by blast
          next
            case w: False
            have run: "?run = (case page_insert dd p dstva perm s of
                (Ret r, t) \<Rightarrow> if r \<noteq> 0 then (Ret (- E_NO_MEM), t) else (Ret 0, t)
              | (Stop x, t) \<Rightarrow> (Stop x, t))"
              using s1 s2 False sd dd l(1) x w
              by (auto simp: sys_page_map_def the_env_def load_pte_def e_def
                  split: prod.split outcome.split)
            have ins: "insertable s (dirs s) K fl p"
              using insertable_counted [OF fl(1) sd(2) va(1) um] count va(1) s1(1) sd(3) um p
              unfolding room_to_share_def by blast
            have lk: "leak_free s (insert p K) fl" using fl(2) by (auto simp: leak_free_def)
            from insert_in_space_full [OF r s2(2) dd(3) va(2) fl(1) lk ins perm] show ?thesis
            proof
              assume "page_insert dd p dstva perm s = (Ret (- E_NO_MEM), s)"
              then have "?run = (Ret (- E_NO_MEM), s)" using run by (simp add: E_NO_MEM_nonzero)
              then show ?thesis using err nz by blast
            next
              assume "\<exists>t. page_insert dd p dstva perm s = (Ret 0, t) \<and> ready t K c \<and> confined s t {de}
                \<and> rest_same s t \<and> maps_agree s t (dirs s) dd (PGNUM dstva) (Some (mk_pte p perm))
                \<and> contents_kept s t \<and> (open_tables s (dirs s) \<longrightarrow> open_tables t (dirs s))
                \<and> (\<forall>f. f \<notin> set fl \<longrightarrow> \<not> structural s (dirs s) f \<longrightarrow> ram t f = ram s f)"
              then obtain u where u: "page_insert dd p dstva perm s = (Ret 0, u)" "ready u K c"
                "confined s u {de}" "rest_same s u"
                "maps_agree s u (dirs s) dd (PGNUM dstva) (Some (mk_pte p perm))"
                "contents_kept s u" "open_tables s (dirs s) \<longrightarrow> open_tables u (dirs s)" by blast
              have "?run = (Ret 0, u)" using run u(1) by simp
              moreover have "perm AND PTE_W \<noteq> 0 \<longrightarrow> e AND PTE_W \<noteq> 0" using w by blast
              ultimately have "page_mapped s u c srcenvid srcva dstenvid dstva perm"
                unfolding page_mapped_def using False um p u(3-7) s1 s2 sd(3) dd(3)
                by (intro conjI exI [of _ se] exI [of _ de] exI [of _ sd] exI [of _ dd] exI [of _ e]) simp_all
              then show ?thesis
                using \<open>?run = (Ret 0, u)\<close> u(2) by (intro exI [of _ "0 :: i32"] exI [of _ u]) simp
            qed
          qed
        qed
      qed
    qed
  qed
qed


text \<open>The same, without the inner workings.\<close>

theorem sys_page_map_spec:
  assumes r: "ready s K c" and ok: "refs_ok s"
  shows "\<exists>v t. sys_page_map srcenvid srcva dstenvid dstva perm s = (Ret v, t) \<and> ready t K c
    \<and> confined s t (controlled s c)
    \<and> (if v \<noteq> 0 then t = s \<and> v \<in> {- E_BAD_ENV, - E_INVAL, - E_NO_MEM}
       else \<not> bad_va srcva \<and> \<not> bad_va dstva \<and> \<not> bad_perm perm \<and> rest_same s t
         \<and> (\<exists>sd dd e. controls_space s c sd \<and> controls_space s c dd
             \<and> umap s sd (PGNUM srcva) = Some e \<and> (perm AND PTE_W \<noteq> 0 \<longrightarrow> e AND PTE_W \<noteq> 0)
             \<and> maps_agree s t (dirs s) dd (PGNUM dstva) (Some (mk_pte (pte_frame e) perm))))"
proof -
  obtain fl where fl: "mem_inv s (dirs s) K fl" using r by (auto simp: ready_def kinv_def)
  have "unat (pp_ref (pages s (pte_frame e))) < 65535"
    if va: "srcva < UTOP" and se: "envid2env srcenvid True s = (Ret (0, Some se), s)"
      and sd: "env_pgdir (envs s se) = Some sd" and um: "umap s sd (PGNUM srcva) = Some e" for se sd e
  proof -
    have "live s se" using r
      by (cases rule: envid2env_cases [where envid = srcenvid and chk = True]) (use se in auto)
    then have "sd \<in> dirs s" using sd by (auto simp: dirs_def)
    then have "target s (dirs s) (Pg sd (PGNUM srcva div 1024) (PGNUM srcva mod 1024)) = Some (pte_frame e)"
      using umap_target [OF _ PGNUM_UTOP [OF va], of sd "dirs s" s] um by simp
    from mapped_page(1) [OF fl this] show ?thesis using ok by (simp add: refs_ok_def)
  qed
  then have room: "room_to_share s srcenvid srcva" unfolding room_to_share_def by blast
  obtain v t where t: "sys_page_map srcenvid srcva dstenvid dstva perm s = (Ret v, t)" "ready t K c"
    "if v \<noteq> 0 then t = s \<and> v \<in> {- E_BAD_ENV, - E_INVAL, - E_NO_MEM}
       else page_mapped s t c srcenvid srcva dstenvid dstva perm"
    using sys_page_map_full [OF r room] by blast
  show ?thesis
  proof (cases "v = 0")
    case False
    have "confined s s (controlled s c)" by simp
    then show ?thesis using False t by (intro exI [of _ v] exI [of _ t]) simp
  next
    case True
    then have m: "page_mapped s t c srcenvid srcva dstenvid dstva perm" using t(3) by simp
    then obtain se de sd dd e where k: "se \<in> controlled s c" "de \<in> controlled s c" "confined s t {de}"
      "env_pgdir (envs s se) = Some sd" "env_pgdir (envs s de) = Some dd"
      "umap s sd (PGNUM srcva) = Some e" "perm AND PTE_W \<noteq> 0 \<longrightarrow> e AND PTE_W \<noteq> 0"
      "maps_agree s t (dirs s) dd (PGNUM dstva) (Some (mk_pte (pte_frame e) perm))"
      unfolding page_mapped_def by blast
    have "confined s t (controlled s c)" by (rule confined_mono [OF k(3)]) (use k(2) in blast)
    moreover have "controls_space s c sd" "controls_space s c dd"
      using k(1,2,4,5) unfolding controls_space_def by blast+
    moreover have "\<not> bad_va srcva" "\<not> bad_va dstva" "\<not> bad_perm perm" "rest_same s t"
      using m by (simp_all add: page_mapped_def)
    ultimately have "(if v \<noteq> 0 then t = s \<and> v \<in> {- E_BAD_ENV, - E_INVAL, - E_NO_MEM}
       else \<not> bad_va srcva \<and> \<not> bad_va dstva \<and> \<not> bad_perm perm \<and> rest_same s t
         \<and> (\<exists>sd dd e. controls_space s c sd \<and> controls_space s c dd
             \<and> umap s sd (PGNUM srcva) = Some e \<and> (perm AND PTE_W \<noteq> 0 \<longrightarrow> e AND PTE_W \<noteq> 0)
             \<and> maps_agree s t (dirs s) dd (PGNUM dstva) (Some (mk_pte (pte_frame e) perm))))"
      using True k(6-8) by (simp only: not_True_eq_False if_False simp_thms) blast
    then show ?thesis using t(1,2) \<open>confined s t (controlled s c)\<close> by blast
  qed
qed

theorem sys_page_unmap_spec:
  assumes r: "ready s K c"
  shows "\<exists>v t. sys_page_unmap envid va s = (Ret v, t) \<and> ready t K c
    \<and> confined s t (controlled s c)
    \<and> (if v \<noteq> 0 then t = s \<and> v \<in> {- E_BAD_ENV, - E_INVAL}
       else \<not> bad_va va \<and> (\<exists>d. controls_space s c d \<and> maps_agree s t (dirs s) d (PGNUM va) None))"
proof -
  have nz: "- E_BAD_ENV \<noteq> (0 :: i32)" "- E_INVAL \<noteq> (0 :: i32)"
    by (simp_all add: kconst)
  show ?thesis
  proof (cases "bad_va va")
    case True
    then show ?thesis using r nz by (simp add: sys_page_unmap_def)
  next
    case False
    then have va: "va < UTOP" by (rule bad_vaD)
    show ?thesis
      using r
    proof (cases rule: envid2env_cases [where envid = envid and chk = True])
      case bad
      then show ?thesis using False r nz by (simp add: sys_page_unmap_def E_BAD_ENV_nonzero)
    next
      case (ok e)
      obtain d where d: "the_pgdir e s = (Ret d, s)" "d \<in> dirs s" "env_pgdir (envs s e) = Some d"
        by (rule live_space [OF r ok(2)])
      obtain fl where fl: "mem_inv s (dirs s) K fl" "leak_free s K fl"
        using r by (auto simp: ready_def kinv_def)
      obtain t fl' where t: "page_remove d va s = (Ret (), t)" "mem_inv t (dirs s) K fl'"
        "maps_agree s t (dirs s) d (PGNUM va) None" "rest_same s t"
        "leak_free s K fl \<longrightarrow> leak_free t K fl'"
        using page_remove_spec [OF fl(1) d(2) va] by blast
      have k: "kinv s K" using r by (simp add: ready_def)
      have "kinv t K" by (rule kinv_mem [OF k t(4,2)]) (use t(5) fl(2) in blast)
      then have "ready t K c" using ready_mem [OF r _ t(4)] by blast
      moreover have "confined s t {e}"
        by (rule confined_maps [OF r ok(2) d(3)])
          (use t(3) rest_sameD(2) [OF t(4)] in \<open>auto simp: maps_agree_def\<close>)
      then have "confined s t (controlled s c)"
        by (rule confined_mono) (use ok in auto)
      moreover have "sys_page_unmap envid va s = (Ret 0, t)"
        using False ok d t(1) by (simp add: sys_page_unmap_def the_env_def)
      moreover have "controls_space s c d" using ok d by (auto simp: controls_space_def)
      ultimately show ?thesis using False t(3) by auto
    qed
  qed
qed

section \<open>Messages\<close>

lemma get_curenv_ready [simp]: "ready s K c \<Longrightarrow> get_curenv s = (Ret c, s)"
  by (simp add: ready_def get_curenv_def)

lemma ipc_page_spec:
  assumes r: "ready s K c" and ok: "refs_ok s" and e: "live s e" and perm: "perm < 0x1000"
    and va: "srcva < UTOP" "env_ipc_dstva (envs s e) < UTOP"
  shows "\<exists>v t. ipc_page e srcva perm s = (Ret v, t) \<and> ready t K c \<and> confined s t {e}
    \<and> rest_same s t
    \<and> (if v \<noteq> 0 then t = s
       else \<exists>sd dd x. env_pgdir (envs s c) = Some sd \<and> env_pgdir (envs s e) = Some dd
         \<and> umap s sd (PGNUM srcva) = Some x \<and> (perm AND PTE_W \<noteq> 0 \<longrightarrow> x AND PTE_W \<noteq> 0)
         \<and> maps_agree s t (dirs s) dd (PGNUM (env_ipc_dstva (envs s e)))
              (Some (mk_pte (pte_frame x) perm)))"
proof -
  have c: "live s c" using r by (simp add: ready_def)
  obtain sd where sd: "the_pgdir c s = (Ret sd, s)" "sd \<in> dirs s" "env_pgdir (envs s c) = Some sd"
    by (rule live_space [OF r c])
  obtain dd where dd: "the_pgdir e s = (Ret dd, s)" "dd \<in> dirs s" "env_pgdir (envs s e) = Some dd"
    by (rule live_space [OF r e])
  obtain fl where fl: "mem_inv s (dirs s) K fl" "leak_free s K fl"
    using r by (auto simp: ready_def kinv_def)
  obtain l where l: "page_lookup sd srcva s = (Ret l, s)"
    "map_option fst l = map_option pte_frame (umap s sd (PGNUM srcva))"
    "\<forall>p t j. l = Some (p, t, j) \<longrightarrow> umap s sd (PGNUM srcva) = Some (ram s t j)"
    using page_lookup_spec [OF fl(1) sd(2) va(1)] by blast
  have inval: "- E_INVAL \<noteq> (0 :: i32)" by (simp add: kconst)
  show ?thesis
  proof (cases l)
    case None
    then have "ipc_page e srcva perm s = (Ret (- E_INVAL), s)"
      using r sd l(1) by (simp add: ipc_page_def)
    then show ?thesis using r inval by simp
  next
    case (Some y)
    then obtain p t j where x: "l = Some (p, t, j)" by (cases y) auto
    define x' where "x' = ram s t j"
    have um: "umap s sd (PGNUM srcva) = Some x'" using l(3) x by (simp add: x'_def)
    then have p: "p = pte_frame x'" using l(2) x by simp
    show ?thesis
    proof (cases "perm AND PTE_W \<noteq> 0 \<and> x' AND PTE_W = 0")
      case True
      then have "ipc_page e srcva perm s = (Ret (- E_INVAL), s)"
        using r sd l(1) x by (simp add: ipc_page_def load_pte_def x'_def)
      then show ?thesis using r inval by simp
    next
      case w: False
      have run: "ipc_page e srcva perm s
        = (case page_insert dd p (env_ipc_dstva (envs s e)) perm s of
            (Ret r, t) \<Rightarrow> if is_neg r then (Ret (- E_NO_MEM), t) else (Ret 0, t)
          | (Stop x, t) \<Rightarrow> (Stop x, t))"
        using r sd dd l(1) x w
        by (auto simp: ipc_page_def load_pte_def x'_def split: prod.split outcome.split)
      have ins: "insertable s (dirs s) K fl p"
        using insertable_bound [OF fl(1) sd(2) va(1) um ok] p by simp
      have lk: "leak_free s (insert p K) fl" using fl(2) by (auto simp: leak_free_def)
      from insert_in_space [OF r e dd(3) va(2) fl(1) lk ins perm] show ?thesis
      proof
        assume "page_insert dd p (env_ipc_dstva (envs s e)) perm s = (Ret (- E_NO_MEM), s)"
        then have "ipc_page e srcva perm s = (Ret (- E_NO_MEM), s)" using run by simp
        then show ?thesis using r E_NO_MEM_nonzero by simp
      next
        assume "\<exists>t. page_insert dd p (env_ipc_dstva (envs s e)) perm s = (Ret 0, t)
          \<and> ready t K c \<and> confined s t {e} \<and> rest_same s t
          \<and> maps_agree s t (dirs s) dd (PGNUM (env_ipc_dstva (envs s e))) (Some (mk_pte p perm))
          \<and> (\<forall>f. f \<notin> set fl \<longrightarrow> \<not> structural s (dirs s) f \<longrightarrow> ram t f = ram s f)"
        then obtain u where u: "page_insert dd p (env_ipc_dstva (envs s e)) perm s = (Ret 0, u)"
          "ready u K c" "confined s u {e}" "rest_same s u"
          "maps_agree s u (dirs s) dd (PGNUM (env_ipc_dstva (envs s e))) (Some (mk_pte p perm))"
          by blast
        have "perm AND PTE_W \<noteq> 0 \<longrightarrow> x' AND PTE_W \<noteq> 0" using w by blast
        then show ?thesis using run u um p sd(3) dd(3) by auto
      qed
    qed
  qed
qed

definition delivered :: "kstate \<Rightarrow> nat \<Rightarrow> nat \<Rightarrow> u32 \<Rightarrow> u32 \<Rightarrow> Env \<Rightarrow> bool" where
  "delivered s c e value perm v \<longleftrightarrow> v = (envs s e)\<lparr>env_ipc_recving := False,
     env_ipc_dstva := UTOP, env_ipc_from := env_id (envs s c), env_ipc_value := value,
     env_ipc_perm := perm, env_status := ENV_RUNNABLE\<rparr>"

text \<open>
  A message reaches a receiver that waits for one: exactly one value, with the sender's
  identifier, and the receiver becomes runnable. A failed send has no effect.
\<close>

theorem sys_ipc_try_send_spec:
  assumes r: "ready s K c" and ok: "refs_ok s" and perm: "perm < 0x1000"
  shows "\<exists>v t. sys_ipc_try_send envid value srcva perm s = (Ret v, t) \<and> ready t K c
    \<and> (if v \<noteq> 0 then t = s
       else \<exists>e. envid2env envid False s = (Ret (0, Some e), s) \<and> live s e
         \<and> env_ipc_recving (envs s e) \<and> delivered s c e value perm (envs t e)
         \<and> confined s t {e}
         \<and> (if env_ipc_dstva (envs s e) < UTOP \<and> srcva < UTOP
            then \<exists>sd dd x. env_pgdir (envs s c) = Some sd \<and> env_pgdir (envs s e) = Some dd
              \<and> umap s sd (PGNUM srcva) = Some x \<and> (perm AND PTE_W \<noteq> 0 \<longrightarrow> x AND PTE_W \<noteq> 0)
              \<and> maps_agree s t (dirs s) dd (PGNUM (env_ipc_dstva (envs s e)))
                   (Some (mk_pte (pte_frame x) perm))
            else space_same s t e))"
  using r
proof (cases rule: envid2env_cases [where envid = envid and chk = False])
  case bad
  then show ?thesis using r by (simp add: sys_ipc_try_send_def E_BAD_ENV_nonzero)
next
  case (ok e)
  have nr: "E_IPC_NOT_RECV \<noteq> 0" by (simp add: kconst)
  show ?thesis
  proof (cases "env_ipc_recving (envs s e)")
    case False
    then show ?thesis using ok r nr by (simp add: sys_ipc_try_send_def the_env_def)
  next
    case recv: True
    let ?f = "\<lambda>v. v\<lparr>env_ipc_recving := False, env_ipc_dstva := UTOP,
        env_ipc_from := env_id (envs s c), env_ipc_value := value, env_ipc_perm := perm,
        env_status := ENV_RUNNABLE\<rparr>"
    have deliver: "ipc_deliver e value perm u = (Ret 0, upd_env e ?f u)
        \<and> ready (upd_env e ?f u) K c \<and> confined u (upd_env e ?f u) {e}"
      if u: "ready u K c" "envs u = envs s" for u
      using u ready_upd_env [OF u(1), of e ?f] ok(2)
      by (simp add: ipc_deliver_def live_def same_slot_def)
    let ?page = "env_ipc_dstva (envs s e) < UTOP \<and> srcva < UTOP"
    show ?thesis
    proof (cases ?page)
      case False
      have "sys_ipc_try_send envid value srcva perm s = (Ret 0, upd_env e ?f s)"
        using ok recv False deliver [OF r] by (auto simp: sys_ipc_try_send_def the_env_def)
      moreover have "space_same s (upd_env e ?f s) e"
        using umap_ram [of "upd_env e ?f s" s] by (simp add: space_same_def)
      ultimately show ?thesis
        using deliver [OF r] ok recv False by (auto simp: delivered_def)
    next
      case True
      obtain v u where u: "ipc_page e srcva perm s = (Ret v, u)" "ready u K c"
        "confined s u {e}" "rest_same s u"
        "if v \<noteq> 0 then u = s
         else \<exists>sd dd x. env_pgdir (envs s c) = Some sd \<and> env_pgdir (envs s e) = Some dd
           \<and> umap s sd (PGNUM srcva) = Some x \<and> (perm AND PTE_W \<noteq> 0 \<longrightarrow> x AND PTE_W \<noteq> 0)
           \<and> maps_agree s u (dirs s) dd (PGNUM (env_ipc_dstva (envs s e)))
                (Some (mk_pte (pte_frame x) perm))"
        using ipc_page_spec [OF r \<open>refs_ok s\<close> ok(2) perm] True by blast
      have run: "sys_ipc_try_send envid value srcva perm s
          = (if v \<noteq> 0 then (Ret v, u) else ipc_deliver e value perm u)"
        using ok recv True u(1) by (simp add: sys_ipc_try_send_def the_env_def)
      show ?thesis
      proof (cases "v = 0")
        case False
        then show ?thesis using run u by auto
      next
        case v0: True
        have eu: "envs u = envs s" using rest_sameD(2) [OF u(4)] .
        note dl = deliver [OF u(2) eu]
        let ?t = "upd_env e ?f u"
        have um: "umap ?t = umap u" by (rule umap_ram) simp
        have "confined s ?t {e}"
          using u(3) dl eu by (auto simp: confined_def space_same_def um)
        moreover have "\<exists>sd dd x. env_pgdir (envs s c) = Some sd \<and> env_pgdir (envs s e) = Some dd
           \<and> umap s sd (PGNUM srcva) = Some x \<and> (perm AND PTE_W \<noteq> 0 \<longrightarrow> x AND PTE_W \<noteq> 0)
           \<and> maps_agree s ?t (dirs s) dd (PGNUM (env_ipc_dstva (envs s e)))
                (Some (mk_pte (pte_frame x) perm))"
          using u(5) v0 by (simp add: maps_agree_def um)
        moreover have "delivered s c e value perm (envs ?t e)" by (simp add: delivered_def eu)
        moreover have "sys_ipc_try_send envid value srcva perm s = (Ret 0, ?t)"
          using run v0 dl by simp
        ultimately show ?thesis using dl ok recv True by auto
      qed
    qed
  qed
qed

section \<open>Creating environments\<close>

lemma env_alloc_ready:
  assumes r: "ready s K c"
  shows "(\<exists>e u. env_alloc_as ty parent s = (Ret (0, Some e), u) \<and> ready u K c \<and> confined s u {}
      \<and> \<not> live s e \<and> live u e \<and> env_parent_id (envs u e) = parent
      \<and> env_id (envs u e) = next_env_id (env_id (envs s e)) e
      \<and> (\<forall>d m. env_pgdir (envs u e) = Some d \<longrightarrow> m < 1024 * UPDX \<longrightarrow> umap u d m = None))
    \<or> env_alloc_as ty parent s = (Ret (- E_NO_MEM, None), s)
    \<or> (\<forall>e < NENV. live s e) \<and> env_alloc_as ty parent s = (Stop (BadPointer ''envs''), s)"
proof -
  have k: "kinv s K" "live s c" "curenv s = Some c" using r by (auto simp: ready_def)
  have "confined s u {}"
    if "\<not> live s e" "\<forall>e'. e' \<noteq> e \<longrightarrow> envs u e' = envs s e'"
      "\<forall>d \<in> dirs s. \<forall>m < 1024 * UPDX. umap u d m = umap s d m" for e u
    using that by (auto simp: confined_def space_same_def dirs_def)
  moreover have "ready u K c"
    if "kinv u K" "\<not> live s e" "\<forall>e'. e' \<noteq> e \<longrightarrow> envs u e' = envs s e'"
      "cpus u = cpus s" "cpunum u = cpunum s" "kernel_lock u = kernel_lock s" for e u
  proof -
    have "c \<noteq> e" using k that by auto
    then show ?thesis using r that by (auto simp: ready_def holding_def curenv_def live_def)
  qed
  ultimately show ?thesis
    using env_alloc_as_kinv [OF k(1), of ty parent] by blast
qed

text \<open>
  The child of \<^verbatim>\<open>sys_exofork\<close> has the caller's registers with a zero return value, an
  empty address space, and does not run before its parent lets it.
\<close>

theorem sys_exofork_spec:
  assumes r: "ready s K c"
  shows "(\<exists>v e t. sys_exofork s = (Ret v, t) \<and> ready t K c \<and> confined s t {} \<and> \<not> live s e \<and> live t e
      \<and> 0 < sint v \<and> v = env_id (envs t e) \<and> env_parent_id (envs t e) = env_id (envs s c)
      \<and> env_status (envs t e) = ENV_NOT_RUNNABLE
      \<and> env_tf (envs t e) = (let f = env_tf (envs s c) in f\<lparr>tf_regs := (tf_regs f)\<lparr>reg_eax := 0\<rparr>\<rparr>)
      \<and> (\<forall>d m. env_pgdir (envs t e) = Some d \<longrightarrow> m < 1024 * UPDX \<longrightarrow> umap t d m = None))
    \<or> sys_exofork s = (Ret (- E_NO_MEM), s)
    \<or> (\<forall>e < NENV. live s e) \<and> sys_exofork s = (Stop (BadPointer ''envs''), s)"
  using env_alloc_ready [OF r, of ENV_TYPE_USER "env_id (envs s c)"]
proof (elim disjE)
  assume "\<exists>e u. env_alloc_as ENV_TYPE_USER (env_id (envs s c)) s = (Ret (0, Some e), u)
      \<and> ready u K c \<and> confined s u {} \<and> \<not> live s e \<and> live u e
      \<and> env_parent_id (envs u e) = env_id (envs s c)
      \<and> env_id (envs u e) = next_env_id (env_id (envs s e)) e
      \<and> (\<forall>d m. env_pgdir (envs u e) = Some d \<longrightarrow> m < 1024 * UPDX \<longrightarrow> umap u d m = None)"
  then obtain e u where u: "env_alloc_as ENV_TYPE_USER (env_id (envs s c)) s = (Ret (0, Some e), u)"
    "ready u K c" "confined s u {}" "\<not> live s e" "live u e"
    "env_parent_id (envs u e) = env_id (envs s c)"
    "env_id (envs u e) = next_env_id (env_id (envs s e)) e"
    "\<forall>d m. env_pgdir (envs u e) = Some d \<longrightarrow> m < 1024 * UPDX \<longrightarrow> umap u d m = None" by blast
  define f where "f = env_tf (envs u c)"
  define g where "g = (\<lambda>v. v\<lparr>env_tf := f\<lparr>tf_regs := (tf_regs f)\<lparr>reg_eax := 0\<rparr>\<rparr>,
      env_status := ENV_NOT_RUNNABLE\<rparr> :: Env)"
  let ?t = "upd_env e g u"
  have cl: "live s c" using r by (simp add: ready_def)
  then have ce: "c \<noteq> e" using u(4) by auto
  have fc: "f = env_tf (envs s c)" using u(3) cl by (simp add: f_def confined_def)
  have "sys_exofork s = (Ret (env_id (envs u e)), ?t)"
    using r u(1) ce by (simp add: sys_exofork_def env_alloc_def the_env_def g_def f_def upd_env_def)
  moreover have t: "ready ?t K c"
    by (rule ready_upd_env(1) [OF u(2,5)]) (simp add: g_def same_slot_def)
  moreover have um: "umap ?t = umap u" by (rule umap_ram) simp
  moreover have "confined s ?t {}"
    using u(3,4) by (auto simp: confined_def space_same_def um)
  moreover have "live ?t e" using u(5) by (simp add: live_def g_def)
  moreover have "0 < sint (env_id (envs u e))"
    using u(5,7) next_env_id_wf(2) by (simp add: live_def)
  ultimately show ?thesis
    using u(4,6,8) fc by (intro disjI1 exI [of _ "env_id (envs u e)"] exI [of _ e] exI [of _ ?t])
      (simp add: g_def Let_def)
next
  assume "env_alloc_as ENV_TYPE_USER (env_id (envs s c)) s = (Ret (- E_NO_MEM, None), s)"
  then show ?thesis using r by (simp add: sys_exofork_def env_alloc_def)
next
  assume "(\<forall>e < NENV. live s e)
    \<and> env_alloc_as ENV_TYPE_USER (env_id (envs s c)) s = (Stop (BadPointer ''envs''), s)"
  then show ?thesis using r by (simp add: sys_exofork_def env_alloc_def)
qed

lemma handledI_Ret:
  "m s = (Ret v, t) \<Longrightarrow> ready t K c \<Longrightarrow> confined s t A \<Longrightarrow> handled K c A s m"
  by (simp add: handled_def)

lemma handledI_Stop: "m s = (Stop x, t) \<Longrightarrow> kinv t K \<Longrightarrow> handled K c A s m"
  by (simp add: handled_def)

lemma handled_mono: "handled K c A s m \<Longrightarrow> A \<subseteq> B \<Longrightarrow> handled K c B s m"
  by (auto simp: handled_def confined_def split: prod.splits outcome.splits)

lemma ready_kinv: "ready s K c \<Longrightarrow> kinv s K"
  by (simp add: ready_def)

lemma mkguest_handled:
  assumes r: "ready s K c"
  shows "handled K c {} s (sys_env_mkguest n eip)"
  using env_alloc_ready [OF r, of ENV_TYPE_GUEST "env_id (envs s c)"]
proof (elim disjE)
  assume "\<exists>e u. env_alloc_as ENV_TYPE_GUEST (env_id (envs s c)) s = (Ret (0, Some e), u)
      \<and> ready u K c \<and> confined s u {} \<and> \<not> live s e \<and> live u e
      \<and> env_parent_id (envs u e) = env_id (envs s c)
      \<and> env_id (envs u e) = next_env_id (env_id (envs s e)) e
      \<and> (\<forall>d m. env_pgdir (envs u e) = Some d \<longrightarrow> m < 1024 * UPDX \<longrightarrow> umap u d m = None)"
  then obtain e u where u: "env_alloc_as ENV_TYPE_GUEST (env_id (envs s c)) s = (Ret (0, Some e), u)"
    "ready u K c" "confined s u {}" "\<not> live s e" "live u e" by blast
  define g where "g = (\<lambda>v. v\<lparr>env_status := ENV_NOT_RUNNABLE,
      env_tf := (env_tf v)\<lparr>tf_eip := eip\<rparr>\<rparr> :: Env)"
  have "sys_env_mkguest n eip s = (Ret (env_id (envs u e)), upd_env e g u)"
    using r u(1) by (simp add: sys_env_mkguest_def env_guest_alloc_def the_env_def g_def)
  moreover have "ready (upd_env e g u) K c"
    by (rule ready_upd_env(1) [OF u(2,5)]) (simp add: g_def same_slot_def)
  moreover have "umap (upd_env e g u) = umap u" by (rule umap_ram) simp
  then have "confined s (upd_env e g u) {}"
    using u(3,4) by (auto simp: confined_def space_same_def)
  ultimately show ?thesis by (rule handledI_Ret)
qed (use r ready_kinv in \<open>auto simp: handled_def sys_env_mkguest_def env_guest_alloc_def\<close>)

lemma exofork_handled: "ready s K c \<Longrightarrow> handled K c {} s sys_exofork"
  using sys_exofork_spec [of s K c] ready_kinv by (auto simp: handled_def)

section \<open>Small calls\<close>

lemma set_status_handled:
  assumes r: "ready s K c"
  shows "handled K c (controlled s c) s (sys_env_set_status envid st)"
proof (cases "settable_status st")
  case None
  then show ?thesis using r by (simp add: handled_def sys_env_set_status_def)
next
  case (Some x)
  then have x: "x \<noteq> ENV_FREE" by (auto simp: settable_status_def split: if_splits)
  show ?thesis
    using r
  proof (cases rule: envid2env_cases [where envid = envid and chk = True])
    case bad
    then show ?thesis
      using r Some by (simp add: handled_def sys_env_set_status_def E_BAD_ENV_nonzero)
  next
    case (ok e)
    note u = ready_upd_env [OF r ok(2), of "\<lambda>v. v\<lparr>env_status := x\<rparr>"]
    have "sys_env_set_status envid st s = (Ret 0, upd_env e (\<lambda>v. v\<lparr>env_status := x\<rparr>) s)"
      using ok Some by (simp add: sys_env_set_status_def the_env_def)
    then show ?thesis
      using u x ok confined_mono [of s _ "{e}" "controlled s c"]
      by (intro handledI_Ret) (auto simp: same_slot_def)
  qed
qed

lemma set_upcall_handled:
  assumes r: "ready s K c"
  shows "handled K c (controlled s c) s (sys_env_set_pgfault_upcall envid func)"
  using r
proof (cases rule: envid2env_cases [where envid = envid and chk = True])
  case bad
  then show ?thesis
    using r by (simp add: handled_def sys_env_set_pgfault_upcall_def E_BAD_ENV_nonzero)
next
  case (ok e)
  show ?thesis
  proof (cases "func = 0")
    case True
    then show ?thesis using ok r by (simp add: handled_def sys_env_set_pgfault_upcall_def)
  next
    case False
    note u = ready_upd_env [OF r ok(2), of "\<lambda>v. v\<lparr>env_pgfault_upcall := func\<rparr>"]
    have "sys_env_set_pgfault_upcall envid func s
        = (Ret 0, upd_env e (\<lambda>v. v\<lparr>env_pgfault_upcall := func\<rparr>) s)"
      using ok False by (simp add: sys_env_set_pgfault_upcall_def the_env_def)
    then show ?thesis
      using u ok confined_mono [of s _ "{e}" "controlled s c"]
      by (intro handledI_Ret) (auto simp: same_slot_def)
  qed
qed

lemma self_controlled: "ready s K c \<Longrightarrow> c \<in> controlled s c"
  by (simp add: ready_def controlled_def may_control_def)

lemma ipc_recv_handled:
  assumes r: "ready s K c"
  shows "handled K c (controlled s c) s (sys_ipc_recv dstva)"
proof (cases "dstva < UTOP \<and> dstva mod PGSIZE \<noteq> 0")
  case True
  then show ?thesis using r by (simp add: handled_def sys_ipc_recv_def)
next
  case False
  let ?f = "\<lambda>v. v\<lparr>env_ipc_dstva := dstva, env_ipc_recving := True, env_ipc_value := 0,
      env_ipc_from := 0, env_ipc_perm := 0, env_status := ENV_NOT_RUNNABLE\<rparr> :: Env"
  have c: "live s c" using r by (simp add: ready_def)
  note u = ready_upd_env [OF r c, of ?f]
  have "sys_ipc_recv dstva s = (Ret 0, upd_env c ?f s)"
    using False r by (auto simp: sys_ipc_recv_def)
  then show ?thesis
    using u self_controlled [OF r] confined_mono [of s _ "{c}" "controlled s c"]
    by (intro handledI_Ret) (auto simp: same_slot_def)
qed

lemma vload8_state: "snd (vload8 va s) = s"
  by (simp add: vload8_def split: option.split prod.split)

lemma pure_bind:
  assumes "\<And>s. snd (m s) = s" and "\<And>a s. snd (f a s) = s"
  shows "snd (bindM m f s) = s"
  using assms(1) [of s] assms(2) by (auto split: prod.split outcome.split)

lemma pure_ret: "snd (ret a s) = s"
  by simp

lemmas pure_rules = pure_bind vload8_state pure_ret

lemma vload32_state: "snd (vload32 va s) = s"
  unfolding vload32_def by (intro pure_rules)

lemma vload_tf_state: "snd (vload_tf va s) = s"
  unfolding vload_tf_def vload_regs_def by (intro pure_rules vload32_state)

lemma set_trapframe_handled:
  assumes r: "ready s K c"
  shows "handled K c (controlled s c) s (sys_env_set_trapframe envid tf)"
  using r
proof (cases rule: envid2env_cases [where envid = envid and chk = True])
  case bad
  then show ?thesis using r by (simp add: handled_def sys_env_set_trapframe_def)
next
  case (ok e)
  show ?thesis
  proof (cases "vload32 (tf + 48) s")
    case (Pair o1 s1)
    then have s1: "s1 = s" using vload32_state [of "tf + 48" s] by simp
    show ?thesis
    proof (cases o1)
      case (Stop x)
      then show ?thesis
        using ok Pair s1 r ready_kinv by (simp add: handled_def sys_env_set_trapframe_def)
    next
      case (Ret eip)
      show ?thesis
      proof (cases "UTOP \<le> eip")
        case True
        then show ?thesis
          using ok Pair s1 Ret r by (simp add: handled_def sys_env_set_trapframe_def)
      next
        case False
        show ?thesis
        proof (cases "vload_tf tf s")
          case P2: (Pair o2 s2)
          then have s2: "s2 = s" using vload_tf_state [of tf s] by simp
          show ?thesis
          proof (cases o2)
            case (Stop x)
            then show ?thesis using ok Pair s1 Ret False P2 s2 r ready_kinv
              by (simp add: handled_def sys_env_set_trapframe_def the_env_def)
          next
            case R2: (Ret f)
            define g where "g = (\<lambda>v. v\<lparr>env_tf := f\<lparr>tf_eflags := tf_eflags f OR FL_IF\<rparr>\<rparr> :: Env)"
            have "sys_env_set_trapframe envid tf s = (Ret 0, upd_env e g s)"
              using ok Pair s1 Ret False P2 s2 R2
              by (simp add: sys_env_set_trapframe_def the_env_def g_def upd_env_def)
            moreover note u = ready_upd_env [OF r ok(2), of g]
            ultimately show ?thesis
              using u ok confined_mono [of s _ "{e}" "controlled s c"]
              by (intro handledI_Ret) (auto simp: same_slot_def g_def)
          qed
        qed
      qed
    qed
  qed
qed

lemma env_destroy_handled:
  assumes r: "ready s K c" and e: "live s e"
  shows "handled K c {e} s (env_destroy e)"
proof -
  have k: "kinv s K" "holding s" "cpunum s < NENV" "curenv s = Some c" "live s c"
    using r by (auto simp: ready_def)
  note d = env_destroy_kinv [OF k(1) e k(2,3)]
  show ?thesis
  proof (cases "env_destroy e s")
    case (Pair x t)
    show ?thesis
    proof (cases x)
      case (Ret v)
      then have t: "kinv t K" "holding t" "curenv t = curenv s" "curenv s \<noteq> Some e"
        "\<forall>x. x \<noteq> e \<longrightarrow> envs t x = envs s x" "cpunum t = cpunum s"
        "\<forall>x d. x \<noteq> e \<longrightarrow> live s x \<longrightarrow> env_pgdir (envs s x) = Some d \<longrightarrow>
             (\<forall>m < 1024 * UPDX. umap t d m = umap s d m)"
        using d Pair by auto
      have "c \<noteq> e" using t(4) k(4) by auto
      then have "live t c" using k(5) t(5) by (simp add: live_def)
      then have "ready t K c" using t k by (simp add: ready_def)
      moreover have "confined s t {e}" using t(5,7) by (auto simp: confined_def space_same_def)
      ultimately show ?thesis using Pair Ret by (auto intro: handledI_Ret)
    next
      case (Stop z)
      then show ?thesis using d Pair by (auto intro: handledI_Stop)
    qed
  qed
qed

lemma handled_bind_ret:
  assumes "handled K c A s m"
  shows "handled K c A s (bindM m (\<lambda>x. ret (f x)))" and "handled K c A s (thenM m (ret v))"
  using assms by (auto simp: handled_def split: prod.splits outcome.splits)

lemma sys_env_destroy_handled:
  assumes r: "ready s K c"
  shows "handled K c (controlled s c) s (sys_env_destroy envid)"
  using r
proof (cases rule: envid2env_cases [where envid = envid and chk = True])
  case bad
  then show ?thesis using r by (simp add: handled_def sys_env_destroy_def)
next
  case (ok e)
  have "sys_env_destroy envid s = thenM (env_destroy e) (ret 0) s"
    using ok by (simp add: sys_env_destroy_def the_env_def)
  moreover have "handled K c (controlled s c) s (thenM (env_destroy e) (ret (0::i32)))"
    by (rule handled_mono [OF handled_bind_ret(2) [OF env_destroy_handled [OF r ok(2)]]])
      (use ok in auto)
  ultimately show ?thesis by (simp add: handled_def)
qed

section \<open>Console calls\<close>

lemma ready_misc:
  assumes "ready s K c"
  shows "ready (s\<lparr>kcons := x\<rparr>) K c" and "ready (s\<lparr>user_mem_check_addr := a\<rparr>) K c"
    and "confined s (s\<lparr>kcons := x\<rparr>) A" and "confined s (s\<lparr>user_mem_check_addr := a\<rparr>) A"
proof -
  have k: "kinv s K" using assms by (simp add: ready_def)
  then have c: "curenv s = Some e \<Longrightarrow> e < NENV" for e by (auto simp: kinv_def env_table_def)
  have cu: "curenv (s\<lparr>kcons := x\<rparr>) = curenv s" "curenv (s\<lparr>user_mem_check_addr := a\<rparr>) = curenv s"
    by (simp_all add: curenv_def)
  have "kinv (s\<lparr>kcons := x\<rparr>) K" by (rule kinv_cong [OF k]) (use c cu in auto)
  then show "ready (s\<lparr>kcons := x\<rparr>) K c"
    using assms cu by (simp add: ready_def holding_def live_def)
  have "kinv (s\<lparr>user_mem_check_addr := a\<rparr>) K" by (rule kinv_cong [OF k]) (use c cu in auto)
  then show "ready (s\<lparr>user_mem_check_addr := a\<rparr>) K c"
    using assms cu by (simp add: ready_def holding_def live_def)
  have "umap (s\<lparr>kcons := x\<rparr>) = umap s" "umap (s\<lparr>user_mem_check_addr := a\<rparr>) = umap s"
    by (rule umap_ram, simp)+
  then show "confined s (s\<lparr>kcons := x\<rparr>) A" "confined s (s\<lparr>user_mem_check_addr := a\<rparr>) A"
    by (simp_all add: confined_def space_same_def)
qed

lemma confined_trans:
  assumes "confined s t A" and "confined t u A" and "\<And>e. live s e \<Longrightarrow> e \<notin> A \<Longrightarrow> live t e"
  shows "confined s u A"
  unfolding confined_def
proof (intro allI impI)
  fix e assume e: "live s e" "e \<notin> A"
  then have "envs t e = envs s e" "space_same s t e" "envs u e = envs t e" "space_same t u e"
    using assms(1,2) assms(3) [OF e] by (auto simp: confined_def)
  then show "envs u e = envs s e \<and> space_same s u e" by (simp add: space_same_def)
qed

lemma handled_bind:
  assumes "handled K c A s m"
    and "\<And>a t. m s = (Ret a, t) \<Longrightarrow> ready t K c \<Longrightarrow> handled K c A t (f a)"
  shows "handled K c A s (bindM m f)"
proof (cases "m s")
  case (Pair o1 t)
  show ?thesis
  proof (cases o1)
    case (Stop x)
    then show ?thesis using assms(1) Pair by (simp add: handled_def)
  next
    case (Ret a)
    then have t: "ready t K c" "confined s t A" using assms(1) Pair by (auto simp: handled_def)
    have l: "live t e" if "live s e" "e \<notin> A" for e
      using t(2) that by (auto simp: confined_def live_def)
    have "handled K c A t (f a)" using assms(2) Pair Ret t by blast
    then show ?thesis
      using Pair Ret confined_trans [OF t(2) _ l]
      by (auto simp: handled_def split: prod.splits outcome.splits)
  qed
qed

lemma handled_pure:
  assumes "ready s K c" and "snd (m s) = s"
  shows "handled K c A s m"
  using assms ready_kinv by (auto simp: handled_def split: prod.splits outcome.splits)

lemma cputs_loop_handled: "ready s K c \<Longrightarrow> handled K c A s (cputs_loop n p)"
proof (induction n arbitrary: s p)
  case 0
  show ?case unfolding cputs_loop.simps
    by (rule handled_pure [OF 0]) (intro pure_rules)
next
  case (Suc n)
  show ?case
    unfolding cputs_loop.simps
  proof (rule handled_bind [OF handled_pure [where m = "vload8 p", OF Suc.prems vload8_state]])
    fix ch t assume t: "ready t K c"
    have "handled K c A t (thenM (modifyM (\<lambda>s. s\<lparr>kcons := cputchar (ucast ch) (kcons s)\<rparr>))
        (cputs_loop n (p + 1)))"
      unfolding thenM_def
    proof (rule handled_bind)
      show "handled K c A t (modifyM (\<lambda>s. s\<lparr>kcons := cputchar (ucast ch) (kcons s)\<rparr>))"
        using ready_misc(1,3) [OF t] by (simp add: handled_def)
    qed (rule Suc.IH)
    then show "handled K c A t (if ch = 0 then ret ()
        else thenM (modifyM (\<lambda>s. s\<lparr>kcons := cputchar (ucast ch) (kcons s)\<rparr>)) (cputs_loop n (p + 1)))"
      using t by (simp add: handled_def)
  qed
qed

lemma pgdir_walk_False_state: "snd (pgdir_walk d va False s) = s"
  by (simp add: pgdir_walk_def load_pte_def KADDR_def)

lemma user_mem_check_from_handled:
  "ready s K c \<Longrightarrow> handled K c A s (user_mem_check_from n d va i perm)"
proof (induction n arbitrary: s i)
  case 0
  then show ?case by (simp add: handled_def)
next
  case (Suc n)
  show ?case
    unfolding user_mem_check_from.simps
  proof (rule handled_bind [OF handled_pure
        [where m = "pgdir_walk d (va + i) False", OF Suc.prems pgdir_walk_False_state]])
    fix pte t assume t: "ready t K c"
    show "handled K c A t (bindM (case pte of None \<Rightarrow> ret 0 | Some p \<Rightarrow> load_pte p) (\<lambda>v.
       if pte = None \<or> ULIM \<le> va + i \<or> v AND perm = 0 then
         thenM (modifyM (\<lambda>s. s\<lparr>user_mem_check_addr := va + i\<rparr>)) (ret (- E_FAULT))
       else user_mem_check_from n d va (i + 1) perm))"
    proof (rule handled_bind [OF handled_pure [OF t]])
      show "snd ((case pte of None \<Rightarrow> ret 0 | Some p \<Rightarrow> load_pte p) t) = t"
        by (simp add: load_pte_def split: option.split)
      fix v u assume u: "ready u K c"
      have "handled K c A u (thenM (modifyM (\<lambda>s. s\<lparr>user_mem_check_addr := va + i\<rparr>))
          (ret (- E_FAULT)))"
        using ready_misc [OF u] by (simp add: handled_def)
      then show "handled K c A u (if pte = None \<or> ULIM \<le> va + i \<or> v AND perm = 0 then
         thenM (modifyM (\<lambda>s. s\<lparr>user_mem_check_addr := va + i\<rparr>)) (ret (- E_FAULT))
       else user_mem_check_from n d va (i + 1) perm)"
        using Suc.IH [OF u] by simp
    qed
  qed
qed

lemma user_mem_assert_handled:
  assumes r: "ready s K c"
  shows "handled K c (controlled s c) s (user_mem_assert c p len perm)"
  unfolding user_mem_assert_def
proof (rule handled_bind)
  have "live s c" using r by (simp add: ready_def)
  then obtain d where d: "env_pgdir (envs s c) = Some d" using live_space [OF r] by metis
  have "user_mem_check c p len (perm OR PTE_U OR PTE_P) s
      = user_mem_check_from (unat len) d p 0 (perm OR PTE_U OR PTE_P) s"
    using d by (simp add: user_mem_check_def)
  then show "handled K c (controlled s c) s (user_mem_check c p len (perm OR PTE_U OR PTE_P))"
    using user_mem_check_from_handled [OF r, of "controlled s c" "unat len" d p 0]
    by (simp add: handled_def)
  fix v t assume t: "ready t K c"
  have "c \<in> controlled s c" by (rule self_controlled [OF r])
  moreover have "live t c" using t by (simp add: ready_def)
  ultimately show "handled K c (controlled s c) t (whenM (is_neg v) (env_destroy c))"
    using handled_mono [OF env_destroy_handled [OF t], of c "controlled s c"] t
    by (simp add: handled_def)
qed

lemma sys_cputs_handled:
  assumes r: "ready s K c"
  shows "handled K c (controlled s c) s (sys_cputs p len)"
proof -
  let ?print = "if p = 0 then cputs_null len else cputs_loop (if is_neg len then 2 ^ 32 else unat len) p"
  have print: "handled K c A t ?print" if "ready t K c" for A t
    using cputs_loop_handled [OF that] ready_misc(1,3) [OF that] by (simp add: handled_def cputs_null_def)
  have "sys_cputs p len s = thenM (user_mem_assert c p len (PTE_P OR PTE_U)) ?print s"
    using r by (simp add: sys_cputs_def del: thenM_apply)
  moreover have "handled K c (controlled s c) s (thenM (user_mem_assert c p len (PTE_P OR PTE_U)) ?print)"
    unfolding thenM_def by (rule handled_bind [OF user_mem_assert_handled [OF r] print])
  ultimately show ?thesis by (simp add: handled_def)
qed

lemma cgetc_handled: "ready s K c \<Longrightarrow> handled K c A s sys_cgetc"
  using ready_misc(1,3) ready_kinv
  by (auto simp: handled_def sys_cgetc_def split: option.split)

lemma getenvid_handled: "ready s K c \<Longrightarrow> handled K c A s sys_getenvid"
  by (simp add: handled_def sys_getenvid_def)

lemma yield_handled: "ready s K c \<Longrightarrow> handled K c A s (thenM sys_yield (ret v))"
  using sched_yield_kinv [of s K] by (auto simp: handled_def ready_def sys_yield_def)

lemma page_alloc_handled:
  assumes r: "ready s K c"
  shows "handled K c (controlled s c) s (sys_page_alloc envid va perm)"
proof (cases "bad_va va \<or> bad_perm perm")
  case True
  then have "sys_page_alloc envid va perm s = (Ret (- E_INVAL), s)" by (auto simp: sys_page_alloc_def)
  then show ?thesis using r by (simp add: handled_def)
next
  case False
  from sys_page_alloc_spec [OF r, of va perm envid, unfolded if_not_P [OF False]] show ?thesis
    using r confined_mono [of s _ "{_}" "controlled s c"] by (auto simp: handled_def)
qed

lemma page_map_handled:
  "ready s K c \<Longrightarrow> refs_ok s \<Longrightarrow> handled K c (controlled s c) s (sys_page_map a b d e f)"
  using sys_page_map_spec [of s K c a b d e f] by (auto simp: handled_def)

lemma page_unmap_handled:
  "ready s K c \<Longrightarrow> handled K c (controlled s c) s (sys_page_unmap a b)"
  using sys_page_unmap_spec [of s K c a b] by (auto simp: handled_def)

lemma try_send_handled:
  assumes "ready s K c" and "refs_ok s" and "perm < 0x1000"
  shows "handled K c UNIV s (sys_ipc_try_send envid value va perm)"
  using sys_ipc_try_send_spec [OF assms, of envid "value" va] by (auto simp: handled_def confined_def)

lemmas handlers = yield_handled sys_cputs_handled cgetc_handled getenvid_handled
  sys_env_destroy_handled set_status_handled page_alloc_handled page_map_handled
  page_unmap_handled set_upcall_handled ipc_recv_handled set_trapframe_handled

section \<open>The dispatcher\<close>

lemma syscall_handled:
  assumes r: "ready s K c" and ok: "refs_ok s" and no: "no \<noteq> SYS_ipc_try_send"
  shows "handled K c (controlled s c) s (syscall no a1 a2 a3 a4 a5)"
proof -
  have ex: "handled K c (controlled s c) s sys_exofork"
    "handled K c (controlled s c) s (sys_env_mkguest a1 a2)"
    using handled_mono [OF exofork_handled [OF r]] handled_mono [OF mkguest_handled [OF r]] by auto
  have bad: "handled K c (controlled s c) s (panic ''syscall not implemented'')"
    using ready_kinv [OF r] by (simp add: handled_def)
  show ?thesis
    unfolding syscall_def using no
    by (simp add: r ok ex bad handlers handled_bind_ret split: if_split)
qed

text \<open>
  Every system call either comes back with the kernel invariant intact and the caller still the
  current environment, or leaves the kernel (to another environment, to the halt loop, to the
  monitor, into a panic) with the invariant intact.
\<close>

theorem syscall_preserves_kinv:
  assumes "ready s K c" and "refs_ok s" and "no = SYS_ipc_try_send \<longrightarrow> a4 < 0x1000"
  shows "case syscall no a1 a2 a3 a4 a5 s of
      (Ret _, t) \<Rightarrow> ready t K c
    | (Stop _, t) \<Rightarrow> kinv t K"
proof (cases "no = SYS_ipc_try_send")
  case True
  then have "syscall no a1 a2 a3 a4 a5 = sys_ipc_try_send a1 a2 a3 a4"
    by (simp add: syscall_def kconst)
  then show ?thesis using try_send_handled [OF assms(1,2), of a4 a1 a2 a3] assms(3) True
    by (auto simp: handled_def split: prod.splits outcome.splits)
next
  case False
  then show ?thesis using syscall_handled [OF assms(1,2), of no a1 a2 a3 a4 a5]
    by (auto simp: handled_def split: prod.splits outcome.splits)
qed

text \<open>Isolation: a call other than a send touches the caller and its children only.\<close>

theorem syscall_isolation:
  assumes "ready s K c" and "refs_ok s" and "no \<noteq> SYS_ipc_try_send"
    and "syscall no a1 a2 a3 a4 a5 s = (Ret v, t)"
    and "live s e" and "e \<noteq> c" and "env_parent_id (envs s e) \<noteq> env_id (envs s c)"
  shows "envs t e = envs s e \<and> space_same s t e"
  using syscall_handled [OF assms(1-3), of a1 a2 a3 a4 a5] assms(4-)
  by (auto simp: handled_def confined_def controlled_def may_control_def)

section \<open>Where the code falls short of its contract\<close>

text \<open>
  \<^verbatim>\<open>sys_cputs\<close> checks \<open>len\<close> bytes and prints with \<^verbatim>\<open>"%.*s"\<close>, which reads one
  byte more: a buffer that ends where the mapped memory ends brings the kernel down.
\<close>

lemma translate_kcons [simp]:
  "translate (s\<lparr>kcons := k\<rparr>) d w va = translate s d w va"
  unfolding translate_def Let_def by simp

lemma cputs_loop_overrun:
  assumes "\<And>i. i < n \<Longrightarrow> \<exists>b. vload8 (p + of_nat i) s = (Ret b, s) \<and> b \<noteq> 0"
    and "translate s (cr3 s) False (p + of_nat n) = None"
  shows "\<exists>t. cputs_loop n p s = (Stop (Panic ''page fault in kernel''), t)"
  using assms
proof (induction n arbitrary: p s)
  case 0
  then show ?case by (simp add: vload8_def)
next
  case (Suc n)
  obtain b where b: "vload8 p s = (Ret b, s)" "b \<noteq> 0" using Suc.prems(1) [of 0] by auto
  let ?s = "s\<lparr>kcons := cputchar (ucast b) (kcons s)\<rparr>"
  have "\<exists>b. vload8 (p + 1 + of_nat i) ?s = (Ret b, ?s) \<and> b \<noteq> 0" if "i < n" for i
  proof -
    have e: "p + 1 + of_nat i = p + of_nat (Suc i)" by simp
    have "Suc i < Suc n" using that by simp
    from Suc.prems(1) [OF this] obtain b' where "vload8 (p + 1 + of_nat i) s = (Ret b', s)" "b' \<noteq> 0"
      unfolding e by blast
    then show ?thesis by (auto simp: vload8_def split: option.splits prod.splits)
  qed
  moreover have "translate ?s (cr3 ?s) False (p + 1 + of_nat n) = None"
    using Suc.prems(2) by (simp add: add.assoc)
  ultimately obtain t where "cputs_loop n (p + 1) ?s = (Stop (Panic ''page fault in kernel''), t)"
    using Suc.IH [of "p + 1" ?s] by blast
  then show ?case using b by simp
qed

theorem sys_cputs_reads_past_end:
  assumes r: "ready s K c" and len: "\<not> is_neg len" and p: "p \<noteq> 0"
    and checked: "user_mem_check c p len (PTE_P OR PTE_U OR PTE_U OR PTE_P) s = (Ret 0, s)"
    and str: "\<And>i. i < unat len \<Longrightarrow> \<exists>b. vload8 (p + of_nat i) s = (Ret b, s) \<and> b \<noteq> 0"
    and past: "translate s (cr3 s) False (p + len) = None"
  shows "\<exists>t. sys_cputs p len s = (Stop (Panic ''page fault in kernel''), t)"
proof -
  have "(of_nat (unat len) :: u32) = len" by simp
  then obtain t where "cputs_loop (unat len) p s = (Stop (Panic ''page fault in kernel''), t)"
    using cputs_loop_overrun [of "unat len" p s] str past by auto
  then show ?thesis
    using r len p checked by (simp add: sys_cputs_def user_mem_assert_def or.assoc)
qed

text \<open>
  \<^verbatim>\<open>sys_env_set_trapframe\<close> copies the segment registers unchecked, so the frame it
  installs can carry the kernel code segment.
\<close>

theorem set_trapframe_copies_segments:
  assumes r: "ready s K c" and e: "envid2env envid True s = (Ret (0, Some e), s)"
    and f: "vload_tf tf s = (Ret f, s)" "vload32 (tf + 48) s = (Ret (tf_eip f), s)"
      "tf_eip f < UTOP"
  shows "\<exists>t. sys_env_set_trapframe envid tf s = (Ret 0, t)
    \<and> env_tf (envs t e) = f\<lparr>tf_eflags := tf_eflags f OR FL_IF\<rparr>"
  using e f by (simp add: sys_env_set_trapframe_def the_env_def)

end
