(* ===== verification/Jos_Trap.thy ===== *)
theory Jos_Trap
  imports Jos_Syscall_Inv
begin

text \<open>
  Traps, \<^verbatim>\<open>kern/trap.c\<close>: the names of traps, the interrupt gates, the page fault
  handler that reflects faults to user code, the emulation of a few privileged instructions for
  guests, the dispatcher and the entry point \<^verbatim>\<open>trap\<close>. Output of
  \<^verbatim>\<open>print_trapframe\<close> is not modelled. The parameter \<open>inb\<close> gives the bytes that
  I/O ports deliver.
\<close>

section \<open>Trap numbers\<close>

definition T_DEBUG :: u32 where [kconst]: "T_DEBUG = 1"
definition T_BRKPT :: u32 where [kconst]: "T_BRKPT = 3"
definition T_PGFLT :: u32 where [kconst]: "T_PGFLT = 14"
definition T_SYSCALL :: u32 where [kconst]: "T_SYSCALL = 48"
definition IRQ_OFFSET :: u32 where [kconst]: "IRQ_OFFSET = 32"
definition IRQ_TIMER :: u32 where [kconst]: "IRQ_TIMER = 0"
definition IRQ_KBD :: u32 where [kconst]: "IRQ_KBD = 1"
definition IRQ_SERIAL :: u32 where [kconst]: "IRQ_SERIAL = 4"
definition IRQ_SPURIOUS :: u32 where [kconst]: "IRQ_SPURIOUS = 7"
definition IRQ_IDE :: u32 where [kconst]: "IRQ_IDE = 14"
definition IRQ_ERROR :: u32 where [kconst]: "IRQ_ERROR = 19"

definition excnames :: "string list" where
  "excnames = [''Divide error'', ''Debug'', ''Non-Maskable Interrupt'', ''Breakpoint'', ''Overflow'',
     ''BOUND Range Exceeded'', ''Invalid Opcode'', ''Device Not Available'', ''Double Fault'',
     ''Coprocessor Segment Overrun'', ''Invalid TSS'', ''Segment Not Present'', ''Stack Fault'',
     ''General Protection'', ''Page Fault'', ''(unknown trap)'', ''x87 FPU Floating-Point Error'',
     ''Alignment Check'', ''Machine-Check'', ''SIMD Floating-Point Exception'']"

text \<open>
  The argument is a signed integer compared with an unsigned size, so a negative number is not
  taken for an index.
\<close>

definition trapname :: "u32 \<Rightarrow> string" where
  "trapname trapno =
     (if unat trapno < length excnames then excnames ! unat trapno
      else if trapno = T_SYSCALL then ''System call''
      else if sint trapno \<ge> sint IRQ_OFFSET \<and> sint trapno < sint IRQ_OFFSET + 16
      then ''Hardware Interrupt''
      else ''(unknown trap)'')"

section \<open>Interrupt gates\<close>

record gate =
  gd_handler :: u32
  gd_sel :: u16
  gd_dpl :: nat

definition SETGATE :: "u32 \<Rightarrow> nat \<Rightarrow> gate" where
  "SETGATE h dpl = \<lparr>gd_handler = h, gd_sel = GD_KT, gd_dpl = dpl\<rparr>"

text \<open>
  \<open>table\<close> is the list of vectors and handlers that \<^verbatim>\<open>trapentry.S\<close> emits, \<open>other\<close>
  its entry points by name.
\<close>

fun fill_gates :: "u32 \<Rightarrow> (nat \<times> u32) list \<Rightarrow> nat list \<Rightarrow> (nat \<Rightarrow> gate) \<Rightarrow> (nat \<Rightarrow> gate)" where
  "fill_gates dflt table [] idt = idt"
| "fill_gates dflt table (i # is) idt =
     (case table of
        (n, h) # tbl \<Rightarrow>
          if n = i then fill_gates dflt tbl is (idt(i := SETGATE h 0))
          else fill_gates dflt table is (idt(i := SETGATE dflt 0))
      | [] \<Rightarrow> fill_gates dflt table is (idt(i := SETGATE dflt 0)))"

definition trap_init :: "(string \<Rightarrow> u32) \<Rightarrow> (nat \<times> u32) list \<Rightarrow> (nat \<Rightarrow> gate) \<Rightarrow> (nat \<Rightarrow> gate)" where
  "trap_init entry table idt =
     (fill_gates (entry ''mydefault'') table [0 ..< 256] idt)
       (unat T_BRKPT := SETGATE (entry ''brkpt'') 3,
        unat T_SYSCALL := SETGATE (entry ''mysyscall'') 3,
        unat (IRQ_OFFSET + IRQ_TIMER) := SETGATE (entry ''irq_timer'') 0,
        unat (IRQ_OFFSET + IRQ_KBD) := SETGATE (entry ''irq_kbd'') 0,
        unat (IRQ_OFFSET + IRQ_SERIAL) := SETGATE (entry ''irq_serial'') 0,
        unat (IRQ_OFFSET + IRQ_SPURIOUS) := SETGATE (entry ''irq_spurious'') 0,
        unat (IRQ_OFFSET + IRQ_IDE) := SETGATE (entry ''irq_ide'') 0,
        unat (IRQ_OFFSET + IRQ_ERROR) := SETGATE (entry ''irq_error'') 0)"

section \<open>Where the trap frame is\<close>

text \<open>
  A trap from user mode works on \<^verbatim>\<open>curenv->env_tf\<close>, a trap from kernel mode on the frame
  on the kernel stack, which nothing reads again after the dispatcher returns.
\<close>

datatype tf_loc = OnStack Trapframe | InEnv nat

definition read_tf :: "tf_loc \<Rightarrow> Trapframe kernel" where
  "read_tf l = getsM (\<lambda>s. case l of OnStack f \<Rightarrow> f | InEnv e \<Rightarrow> env_tf (envs s e))"

definition modify_tf :: "tf_loc \<Rightarrow> (Trapframe \<Rightarrow> Trapframe) \<Rightarrow> unit kernel" where
  "modify_tf l f = (case l of
     OnStack _ \<Rightarrow> ret ()
   | InEnv e \<Rightarrow> modifyM (upd_env e (\<lambda>v. v\<lparr>env_tf := f (env_tf v)\<rparr>)))"

section \<open>Page faults\<close>

definition UTRAPFRAME_SIZE :: u32 where [kconst]: "UTRAPFRAME_SIZE = 52"

definition store_utf :: "u32 \<Rightarrow> UTrapframe \<Rightarrow> unit kernel" where
  "store_utf p u =
     (let r = utf_regs u in
      forM (zip [0 ..< 13] [utf_fault_va u, utf_err u, reg_edi r, reg_esi r, reg_ebp r, reg_oesp r,
          reg_ebx r, reg_edx r, reg_ecx r, reg_eax r, utf_eip u, utf_eflags u, utf_esp u])
        (\<lambda>(k, w). vstore32 (p + 4 * of_nat k) w))"

definition uxstack_top :: "u32 \<Rightarrow> u32" where
  "uxstack_top esp =
     (if UXSTACKTOP - PGSIZE \<le> esp \<and> esp \<le> UXSTACKTOP - 1 then esp - 4 else UXSTACKTOP)"

definition page_fault_handler :: "tf_loc \<Rightarrow> unit kernel" where
  "page_fault_handler l =
     bindM (getsM cr2) (\<lambda>fault_va. bindM (read_tf l) (\<lambda>tf.
       if tf_cs tf AND 3 \<noteq> 3 then panic ''Page fault occured in kernel mode''
       else bindM get_curenv (\<lambda>c. bindM (getsM (\<lambda>s. env_pgfault_upcall (envs s c))) (\<lambda>upcall.
         let my_stack = uxstack_top (tf_esp tf); user_tf = my_stack - UTRAPFRAME_SIZE in
         if upcall \<noteq> 0 \<and> (UXSTACKTOP - PGSIZE \<le> tf_esp tf \<or> tf_esp tf < USTACKTOP)
            \<and> \<not> user_tf < UXSTACKTOP - PGSIZE
         then
           thenM (user_mem_assert c user_tf 1 PTE_W)
           (thenM (store_utf user_tf \<lparr>utf_fault_va = fault_va, utf_err = tf_err tf,
              utf_regs = tf_regs tf, utf_eip = tf_eip tf, utf_eflags = tf_eflags tf,
              utf_esp = tf_esp tf\<rparr>)
           (thenM (modify_tf l (\<lambda>f. f\<lparr>tf_esp := user_tf\<rparr>))
           (thenM (modify_tf l (\<lambda>f. f\<lparr>tf_eip := upcall\<rparr>))
             (bindM get_curenv env_run))))
         else env_destroy c))))"

section \<open>Guests\<close>

text \<open>
  The instruction at the trapped \<^verbatim>\<open>eip\<close> of a guest, and its emulation. The result says
  whether the trap is dealt with.
\<close>

definition set_eip :: "nat \<Rightarrow> u32 \<Rightarrow> unit kernel" where
  "set_eip c a = modifyM (upd_env c (\<lambda>v. v\<lparr>env_tf := (env_tf v)\<lparr>tf_eip := a\<rparr>\<rparr>))"

definition guest_out :: "u32 \<Rightarrow> u32 \<Rightarrow> unit kernel" where
  "guest_out val eip =
     whenM ((32 \<le> sint val \<and> sint val < 128 \<or> val = 10) \<and> eip mod 2 = 1)
       (modifyM (\<lambda>s. s\<lparr>kcons := cputchar val (kcons s)\<rparr>))"

definition vload16 :: "u32 \<Rightarrow> u16 kernel" where
  "vload16 va = bindM (vload8 va) (\<lambda>b0. bindM (vload8 (va + 1)) (\<lambda>b1.
     ret (ucast b0 OR push_bit 8 (ucast b1))))"

text \<open>
  A fault of these reads of the instruction is a trap from kernel mode, whose dispatcher comes to
  the same reads for the same guest before it looks at the trap: it faults again, and so on until
  the kernel stack is full. A fault of the kernel later in the handling of a guest's trap stays a
  panic: handlers read user memory before they change any, so the nested dispatcher sees the
  instruction that has just been refused, refuses it again and goes on to the page fault handler.
  (One call is taken as a whole here: a guest that lets \<^verbatim>\<open>sys_env_set_trapframe\<close> copy a frame
  onto itself from memory that ends half way would change its own instruction pointer in between.)
\<close>

definition refaulting :: "'a kernel \<Rightarrow> 'a kernel" where
  "refaulting m s = (case m s of (Ret v, t) \<Rightarrow> (Ret v, t) | (Stop _, t) \<Rightarrow> (Stop KstackOverflow, t))"

definition guest_emulate :: "(u32 \<Rightarrow> u8) \<Rightarrow> nat \<Rightarrow> bool kernel" where
  "guest_emulate inb c =
     bindM (getsM (\<lambda>s. env_tf (envs s c))) (\<lambda>tf.
     let eip = tf_eip tf; r = tf_regs tf in
     bindM (refaulting (vload8 eip)) (\<lambda>op.
       if op = 0xFA then thenM (set_eip c 0x00100000) (ret True)
       else if op = 0xEC then
         thenM (modifyM (upd_env c (\<lambda>v. v\<lparr>env_tf := (env_tf v)\<lparr>tf_regs :=
            (tf_regs (env_tf v))\<lparr>reg_eax := ucast (inb (reg_edx r))\<rparr>\<rparr>\<rparr>)))
         (thenM (set_eip c (eip + 1)) (ret True))
       else if op = 0xEE then
         thenM (guest_out (reg_eax r) eip) (thenM (set_eip c (eip + 1)) (ret True))
       else bindM (refaulting (vload16 eip)) (\<lambda>op16.
         if op16 = 0xD08E then thenM (set_eip c (eip + 2)) (ret True)
         else bindM (refaulting (vload32 eip)) (\<lambda>op32.
           if op32 = 0x0DC0200F then thenM (set_eip c 0x00100028) (ret True)
           else ret False))))"

section \<open>Dispatch\<close>

definition trap_syscall :: "tf_loc \<Rightarrow> unit kernel" where
  "trap_syscall l =
     bindM (read_tf l) (\<lambda>tf. let r = tf_regs tf in
     bindM (syscall (reg_eax r) (reg_edx r) (reg_ecx r) (reg_ebx r) (reg_edi r) (reg_esi r)) (\<lambda>v.
       modify_tf l (\<lambda>f. f\<lparr>tf_regs := (tf_regs f)\<lparr>reg_eax := v\<rparr>\<rparr>)))"

text \<open>
  The cases of the \<^verbatim>\<open>switch\<close> that \<^verbatim>\<open>break\<close>. No command makes the monitor
  return, so a breakpoint ends there.
\<close>

definition trap_exception :: "tf_loc \<Rightarrow> u32 \<Rightarrow> unit kernel" where
  "trap_exception l trapno =
     (if trapno = T_DEBUG then modify_tf l (\<lambda>f. f\<lparr>tf_eflags := tf_eflags f OR - FL_TF\<rparr>)
      else if trapno = T_PGFLT then page_fault_handler l
      else if trapno = T_BRKPT then stop InMonitor
      else ret ())"

definition trap_interrupt :: "tf_loc \<Rightarrow> u32 \<Rightarrow> unit kernel" where
  "trap_interrupt l trapno =
     (if trapno = IRQ_OFFSET + IRQ_SPURIOUS then ret ()
      else if trapno = 33 then (\<lambda>s. case kbd_intr (kcons s) of
          Some k \<Rightarrow> (Ret (), s\<lparr>kcons := k\<rparr>) | None \<Rightarrow> (Stop Spinning, s))
      else thenM (whenM (trapno = IRQ_OFFSET + IRQ_TIMER) sched_yield)
        (bindM get_curenv (\<lambda>c. bindM (getsM (\<lambda>s. env_type (envs s c))) (\<lambda>ty.
           if ty = ENV_TYPE_GUEST then env_destroy c
           else bindM (read_tf l) (\<lambda>tf.
             if tf_cs tf = GD_KT then panic ''unhandled trap in kernel'' else env_destroy c)))))"

definition trap_dispatch :: "(u32 \<Rightarrow> u8) \<Rightarrow> tf_loc \<Rightarrow> unit kernel" where
  "trap_dispatch inb l =
     bindM get_curenv (\<lambda>c. bindM (getsM (\<lambda>s. env_type (envs s c))) (\<lambda>ty.
     bindM (if ty = ENV_TYPE_GUEST then guest_emulate inb c else ret False) (\<lambda>handled.
       if handled then ret ()
       else bindM (read_tf l) (\<lambda>tf.
         if tf_trapno tf = T_SYSCALL then trap_syscall l
         else thenM (trap_exception l (tf_trapno tf)) (trap_interrupt l (tf_trapno tf))))))"

section \<open>Entry\<close>

definition cpu_restart :: "unit kernel" where
  "cpu_restart = (\<lambda>s.
     let was = cpu_status (cpus s (cpunum s));
         s' = s\<lparr>cpus := (cpus s)(cpunum s := (cpus s (cpunum s))\<lparr>cpu_status := CPU_STARTED\<rparr>)\<rparr>
     in if was = CPU_HALTED then lock_kernel s' else (Ret (), s'))"

definition trap_from_user :: "Trapframe \<Rightarrow> tf_loc kernel" where
  "trap_from_user tf = (\<lambda>s. case curenv s of
     None \<Rightarrow> panic ''assertion failed: curenv'' s
   | Some c \<Rightarrow>
       thenM lock_kernel
       (thenM (\<lambda>s. if env_status (envs s c) = ENV_DYING
          then thenM (env_free c) (thenM (modifyM (set_curenv None)) sched_yield) s
          else (Ret (), s))
       (thenM (modifyM (upd_env c (\<lambda>v. v\<lparr>env_tf := tf\<rparr>))) (ret (InEnv c)))) s)"

definition trap_return :: "unit kernel" where
  "trap_return = (\<lambda>s. case curenv s of
     Some c \<Rightarrow> if env_status (envs s c) = ENV_RUNNING then env_run c s else sched_yield s
   | None \<Rightarrow> sched_yield s)"

definition trap :: "(u32 \<Rightarrow> u8) \<Rightarrow> Trapframe \<Rightarrow> unit kernel" where
  "trap inb tf =
     thenM cpu_restart
     (bindM (if tf_cs tf AND 3 = 3 then trap_from_user tf else ret (OnStack tf)) (\<lambda>l.
      thenM (trap_dispatch inb l) trap_return))"

end
