(* ===== verification/Jos_Trap_Inv.thy ===== *)
theory Jos_Trap_Inv
  imports Jos_Trap
begin

text \<open>
  Traps from user mode: every one of them is handled to the end (the kernel never falls out of
  \<^verbatim>\<open>trap\<close>) and leaves the kernel invariant intact, and a page fault with an upcall is
  reflected to the user with the complete trap-time state on the exception stack.
\<close>

section \<open>Kernel stores to user pages\<close>

text \<open>The caller's own address space is loaded.\<close>

definition ready_in :: "kstate \<Rightarrow> nat set \<Rightarrow> nat \<Rightarrow> nat \<Rightarrow> bool" where
  "ready_in s K c d \<longleftrightarrow> ready s K c \<and> env_pgdir (envs s c) = Some d \<and> cr3 s = d"

lemma translate_user_page:
  assumes t: "translate s d wr va = Some (f, off)" and d: "d \<in> D" and va: "PDX va < UPDX"
  shows "target s D (Pg d (PDX va) (PTX va)) = Some f"
  using t d va
  by (auto simp: translate_def Let_def tab_of_def entry_frame_def present_def split: if_splits)

lemma target_store_user:
  assumes inv: "mem_inv s D K fl" and x: "target s D (Pg a b c) = Some f"
  shows "target (store_word f i v s) D y = target s D y"
proof (rule target_frame [where f = f])
  show "f \<notin> D"
  proof
    assume "f \<in> D"
    then have "target s D (Dir f) = Some f" by simp
    then show False using owned_onceD [OF mem_invD(7) [OF inv] x, of "Dir f"] by simp
  qed
  show "target s D (Tab d i) \<noteq> Some f" for d i
    using owned_onceD [OF mem_invD(7) [OF inv] x, of "Tab d i"] by auto
qed simp

lemma ready_rest:
  assumes r: "ready_in s K c d" and m: "\<And>x. target t (dirs s) x = target s (dirs s) x"
    and p: "pages t = pages s" "page_free_list t = page_free_list s" and rs: "rest_same s t"
  shows "ready_in t K c d"
proof -
  have k: "ready s K c" "kinv s K" using r by (auto simp: ready_in_def ready_def)
  note rest = rest_sameD [OF rs]
  obtain fl where fl: "mem_inv s (dirs s) K fl" "leak_free s K fl" using k by (auto simp: kinv_def)
  have "mem_inv t (dirs s) K fl" by (rule mem_inv_same [OF fl(1) m rest(1) p])
  moreover have "leak_free t K fl" using fl(2) p rest(1) by (simp add: leak_free_def)
  ultimately have "kinv t K" using kinv_mem [OF k(2) rs] by blast
  then have "ready t K c" using ready_mem [OF k(1) _ rs] by blast
  then show ?thesis using r rest by (simp add: ready_in_def)
qed

lemma vstore8_step:
  assumes r: "ready_in s K c d" and va: "va < UTOP"
  shows "(\<exists>f off t. translate s d True va = Some (f, off) \<and> vstore8 va b s = (Ret (), t)
      \<and> t = store_word f (off div 4) (set_byte (ram s f (off div 4)) (off mod 4) b) s
      \<and> ready_in t K c d \<and> (\<forall>x. target t (dirs s) x = target s (dirs s) x) \<and> rest_same s t)
    \<or> vstore8 va b s = (Stop (Panic ''page fault in kernel''), s)"
proof (cases "translate s d True va")
  case None
  then show ?thesis using r by (simp add: vstore8_def ready_in_def)
next
  case (Some fo)
  then obtain f off where fo: "translate s d True va = Some (f, off)" by (cases fo) auto
  let ?t = "store_word f (off div 4) (set_byte (ram s f (off div 4)) (off mod 4) b) s"
  have cr: "cr3 s = d" using r by (simp add: ready_in_def)
  have live: "live s c" "env_pgdir (envs s c) = Some d" "kinv s K"
    using r by (auto simp: ready_in_def ready_def)
  then have d: "d \<in> dirs s" by (auto simp: dirs_def)
  obtain fl where fl: "mem_inv s (dirs s) K fl" using live by (auto simp: kinv_def)
  have pva: "PDX va < UPDX" using va by (simp add: below_UTOP_iff)
  note x = translate_user_page [OF fo d pva]
  have tg: "target ?t (dirs s) y = target s (dirs s) y" for y
    by (rule target_store_user [OF fl x])
  have rs: "rest_same s ?t" by (simp add: rest_same_def)
  have "ready_in ?t K c d" by (rule ready_rest [OF r tg _ _ rs]) simp_all
  then show ?thesis using fo cr tg rs by (auto simp: vstore8_def)
qed

definition ends_ok :: "nat set \<Rightarrow> (unit kernel) \<Rightarrow> kstate \<Rightarrow> (kstate \<Rightarrow> bool) \<Rightarrow> bool" where
  "ends_ok K m s Q \<longleftrightarrow> (case m s of (Ret _, t) \<Rightarrow> Q t | (Stop _, t) \<Rightarrow> kinv t K)"

lemma ends_ok_then:
  assumes "ends_ok K m s P" and "\<And>t. P t \<Longrightarrow> ends_ok K k t Q"
  shows "ends_ok K (thenM m k) s Q"
  using assms by (fastforce simp: ends_ok_def split: prod.splits outcome.splits)

lemma ready_in_kinv: "ready_in s K c d \<Longrightarrow> kinv s K"
  by (simp add: ready_in_def ready_def)

lemma vstore8_ok: "ready_in s K c d \<Longrightarrow> va < UTOP \<Longrightarrow> ends_ok K (vstore8 va b) s (\<lambda>t. ready_in t K c d)"
  using vstore8_step [of s K c d va b] ready_in_kinv by (fastforce simp: ends_ok_def)

lemma vstore32_ok:
  assumes r: "ready_in s K c d" and va: "va < UTOP" "va + 1 < UTOP" "va + 2 < UTOP" "va + 3 < UTOP"
  shows "ends_ok K (vstore32 va w) s (\<lambda>t. ready_in t K c d)"
  unfolding vstore32_def
  by (rule ends_ok_then [OF vstore8_ok [OF r va(1)]], rule ends_ok_then [OF vstore8_ok [OF _ va(2)]],
      assumption, rule ends_ok_then [OF vstore8_ok [OF _ va(3)]], assumption,
      rule vstore8_ok [OF _ va(4)])

section \<open>The exception stack\<close>

text \<open>The pushed frame always lies inside the page of the exception stack.\<close>

lemma utf_in_page:
  assumes "\<not> uxstack_top esp - UTRAPFRAME_SIZE < UXSTACKTOP - PGSIZE"
  shows "unat UXSTACKTOP - 4096 \<le> unat (uxstack_top esp - UTRAPFRAME_SIZE)"
    and "unat (uxstack_top esp - UTRAPFRAME_SIZE) + 52 \<le> unat UXSTACKTOP"
proof -
  let ?m = "uxstack_top esp"
  have lo: "unat (?m - UTRAPFRAME_SIZE) \<ge> 0xEEBFF000"
    using assms by (simp add: kconst word_le_nat_alt not_less)
  then show "unat UXSTACKTOP - 4096 \<le> unat (?m - UTRAPFRAME_SIZE)" by (simp add: kconst)
  have hi: "unat ?m \<le> unat UXSTACKTOP"
  proof (cases "UXSTACKTOP - PGSIZE \<le> esp \<and> esp \<le> UXSTACKTOP - 1")
    case True
    then have b: "0xEEBFF000 \<le> unat esp" "unat esp \<le> 0xEEBFFFFF"
      by (simp_all add: kconst word_le_nat_alt)
    then have "unat (esp - 4) = unat esp - 4" by (simp add: unat_sub word_le_nat_alt)
    then show ?thesis using True b by (simp add: uxstack_top_def kconst)
  next
    case False
    then show ?thesis by (auto simp: uxstack_top_def)
  qed
  have "unat UTRAPFRAME_SIZE = 52" by (simp add: kconst)
  moreover have "UTRAPFRAME_SIZE \<le> ?m"
  proof (rule ccontr)
    assume "\<not> UTRAPFRAME_SIZE \<le> ?m"
    then have "unat ?m < 52" by (simp add: kconst word_le_nat_alt)
    moreover have "unat ?m \<ge> 0xEEBFEFFB"
    proof (cases "UXSTACKTOP - PGSIZE \<le> esp \<and> esp \<le> UXSTACKTOP - 1")
      case True
      then have b: "0xEEBFF000 \<le> unat esp" by (simp add: kconst word_le_nat_alt)
      then have "unat (esp - 4) = unat esp - 4" by (simp add: unat_sub word_le_nat_alt)
      then show ?thesis using True b by (simp add: uxstack_top_def)
    next
      case False
      then show ?thesis by (auto simp add: uxstack_top_def kconst)
    qed
    ultimately show False by simp
  qed
  then have "unat (?m - UTRAPFRAME_SIZE) = unat ?m - 52" by (simp add: unat_sub kconst)
  then show "unat (?m - UTRAPFRAME_SIZE) + 52 \<le> unat UXSTACKTOP" using hi lo by simp
qed

lemma in_frame:
  assumes "unat UXSTACKTOP - 4096 \<le> unat p" "unat p + 52 \<le> unat UXSTACKTOP" "k < 52"
  shows "unat (p + of_nat k) = unat p + k" and "p + of_nat k < UTOP"
    and "PGNUM (p + of_nat k) = 0xEEBFF"
proof -
  have u: "unat UXSTACKTOP = 0xEEC00000" by (simp add: kconst)
  have k: "unat (of_nat k :: u32) = k" using assms(3) by (simp add: unat_of_nat take_bit_eq_mod)
  show a: "unat (p + of_nat k) = unat p + k"
    using assms u k by (simp add: unat_word_ariths)
  show "p + of_nat k < UTOP" using a assms u by (simp add: word_less_nat_alt UTOP_def)
  show "PGNUM (p + of_nat k) = 0xEEBFF" using a assms u by (simp add: PGNUM_eq)
qed

lemma store_words_ok:
  assumes r: "ready_in s K c d" and p: "unat UXSTACKTOP - 4096 \<le> unat p" "unat p + 52 \<le> unat UXSTACKTOP"
    and ks: "\<forall>x \<in> set xs. fst x < 13"
  shows "ends_ok K (forM xs (\<lambda>(k, w). vstore32 (p + 4 * of_nat k) w)) s (\<lambda>t. ready_in t K c d)"
  using r ks
proof (induction xs arbitrary: s)
  case Nil
  then show ?case by (simp add: ends_ok_def)
next
  case (Cons x xs)
  obtain k w where x: "x = (k, w)" by (cases x)
  have k: "k < 13" using Cons.prems x by simp
  have e: "p + 4 * of_nat k + of_nat j = p + of_nat (4 * k + j)" for j by simp
  have lt: "p + 4 * of_nat k + of_nat j < UTOP" if "j < 4" for j
    unfolding e by (rule in_frame(2) [OF p]) (use k that in simp)
  have "ends_ok K (vstore32 (p + 4 * of_nat k) w) s (\<lambda>t. ready_in t K c d)"
    by (rule vstore32_ok [OF Cons.prems(1)]) (use lt [of 0] lt [of 1] lt [of 2] lt [of 3] in simp_all)
  then show ?case
    unfolding x forM.simps prod.case
    by (rule ends_ok_then) (use Cons in simp)
qed

lemma store_utf_ok:
  assumes "ready_in s K c d" and "unat UXSTACKTOP - 4096 \<le> unat p" "unat p + 52 \<le> unat UXSTACKTOP"
  shows "ends_ok K (store_utf p u) s (\<lambda>t. ready_in t K c d)"
  unfolding store_utf_def Let_def
  by (rule store_words_ok [OF assms]) (auto dest!: set_zip_leftD)

section \<open>The page fault handler\<close>

lemma user_mem_check_from_pass:
  "user_mem_check_from n d va i perm s = (Ret v, t) \<Longrightarrow> \<not> is_neg v \<Longrightarrow> t = s"
proof (induction n arbitrary: i s)
  case 0
  then show ?case by simp
next
  case (Suc n)
  have st: "snd (pgdir_walk d (va + i) False s) = s" by (rule pgdir_walk_False_state)
  obtain o1 where w: "pgdir_walk d (va + i) False s = (o1, s)"
    using st by (cases "pgdir_walk d (va + i) False s") auto
  show ?case
  proof (cases o1)
    case (Stop x)
    then show ?thesis using Suc.prems w by simp
  next
    case (Ret pte)
    then show ?thesis
      using Suc.prems w Suc.IH by (auto simp: load_pte_def split: option.splits if_splits)
  qed
qed

lemma user_mem_assert_pass:
  assumes r: "ready s K c" and "user_mem_assert c va len perm s = (Ret v, t)"
  shows "t = s"
proof -
  have "live s c" using r by (simp add: ready_def)
  then obtain d where d: "env_pgdir (envs s c) = Some d" using live_space [OF r] by metis
  let ?perm = "perm OR PTE_U OR PTE_P"
  obtain o1 u where m: "user_mem_check c va len ?perm s = (o1, u)" by fastforce
  then obtain w where o1: "o1 = Ret w" using assms(2) by (cases o1) (auto simp: user_mem_assert_def)
  have m': "user_mem_check_from (unat len) d va 0 ?perm s = (Ret w, u)"
    using m o1 d by (simp add: user_mem_check_def)
  show ?thesis
  proof (cases "is_neg w")
    case False
    then have "u = s" using user_mem_check_from_pass [OF m'] by simp
    then show ?thesis using assms(2) m o1 False by (simp add: user_mem_assert_def)
  next
    case True
    have "handled K c UNIV s (user_mem_check_from (unat len) d va 0 ?perm)"
      by (rule user_mem_check_from_handled [OF r])
    then have u: "ready u K c" using m' by (simp add: handled_def)
    have "env_destroy c u = (Ret v, t)" using assms(2) m o1 True by (simp add: user_mem_assert_def)
    then show ?thesis
      using env_destroy_kinv [of u K c] u by (simp add: ready_def)
  qed
qed

definition leaves :: "nat set \<Rightarrow> (unit kernel) \<Rightarrow> kstate \<Rightarrow> bool" where
  "leaves K m s \<longleftrightarrow> (\<exists>x t. m s = (Stop x, t) \<and> kinv t K)"

lemma leaves_then: "ends_ok K m s P \<Longrightarrow> (\<And>t. P t \<Longrightarrow> leaves K k t) \<Longrightarrow> leaves K (thenM m k) s"
  by (auto simp: ends_ok_def leaves_def split: prod.splits outcome.splits)

lemma env_run_leaves: "ready s K c \<Longrightarrow> leaves K (env_run c) s"
proof -
  assume r: "ready s K c"
  then have "live s c" "holding s" "kinv s K" by (auto simp: ready_def)
  moreover from this obtain d where "env_pgdir (envs s c) = Some d" using live_space [OF r] by metis
  ultimately show ?thesis using env_run_eq kinv_env_run by (auto simp: leaves_def)
qed

lemma destroy_self_leaves: "ready s K c \<Longrightarrow> leaves K (env_destroy c) s"
  using env_destroy_kinv [of s K c]
  by (auto simp: leaves_def ready_def split: prod.splits outcome.splits)

lemma yield_leaves: "ready s K c \<Longrightarrow> leaves K sched_yield s"
  using sched_yield_kinv [of s K] by (auto simp: leaves_def ready_def)

lemma modify_tf_ready:
  assumes "ready s K c"
  shows "\<exists>t. modify_tf (InEnv c) f s = (Ret (), t) \<and> ready t K c"
  using ready_upd_env(1) [OF assms, of c "\<lambda>v. v\<lparr>env_tf := f (env_tf v)\<rparr>"] assms
  by (simp add: modify_tf_def ready_def same_slot_def)

lemma modify_tf_ok: "ready s K c \<Longrightarrow> ends_ok K (modify_tf (InEnv c) f) s (\<lambda>t. ready t K c)"
  using modify_tf_ready [of s K c f] by (auto simp: ends_ok_def)

lemma ends_ok_weaken: "ends_ok K m s P \<Longrightarrow> (\<And>t. P t \<Longrightarrow> Q t) \<Longrightarrow> ends_ok K m s Q"
  by (auto simp: ends_ok_def split: prod.splits outcome.splits)

lemma page_fault_handler_leaves:
  assumes r: "ready_in s K c d" and user: "tf_cs (env_tf (envs s c)) AND 3 = 3"
  shows "leaves K (page_fault_handler (InEnv c)) s"
proof -
  have rs: "ready s K c" using r by (simp add: ready_in_def)
  define tf where "tf = env_tf (envs s c)"
  define up where "up = env_pgfault_upcall (envs s c)"
  define p where "p = uxstack_top (tf_esp tf) - UTRAPFRAME_SIZE"
  define u where "u = \<lparr>utf_fault_va = cr2 s, utf_err = tf_err tf, utf_regs = tf_regs tf,
    utf_eip = tf_eip tf, utf_eflags = tf_eflags tf, utf_esp = tf_esp tf\<rparr>"
  let ?push = "thenM (user_mem_assert c p 1 PTE_W) (thenM (store_utf p u)
      (thenM (modify_tf (InEnv c) (\<lambda>f. f\<lparr>tf_esp := p\<rparr>))
      (thenM (modify_tf (InEnv c) (\<lambda>f. f\<lparr>tf_eip := up\<rparr>)) (bindM get_curenv env_run))))"
  have run: "page_fault_handler (InEnv c) s
    = (if up \<noteq> 0 \<and> (UXSTACKTOP - PGSIZE \<le> tf_esp tf \<or> tf_esp tf < USTACKTOP)
          \<and> \<not> p < UXSTACKTOP - PGSIZE then ?push s else env_destroy c s)"
    using rs user unfolding page_fault_handler_def tf_def up_def p_def u_def
    by (simp add: read_tf_def Let_def del: thenM_apply)
  have "leaves K ?push s" if big: "\<not> p < UXSTACKTOP - PGSIZE"
  proof (rule leaves_then)
    show "ends_ok K (user_mem_assert c p 1 PTE_W) s (\<lambda>t. ready_in t K c d)"
      using user_mem_assert_handled [OF rs, of p 1 PTE_W] user_mem_assert_pass [OF rs, of p 1 PTE_W] r
      by (auto simp: handled_def ends_ok_def split: prod.splits outcome.splits)
    fix t assume t: "ready_in t K c d"
    note b = utf_in_page [of "tf_esp tf", folded p_def, OF big]
    show "leaves K (thenM (store_utf p u) (thenM (modify_tf (InEnv c) (\<lambda>f. f\<lparr>tf_esp := p\<rparr>))
      (thenM (modify_tf (InEnv c) (\<lambda>f. f\<lparr>tf_eip := up\<rparr>)) (bindM get_curenv env_run)))) t"
    proof (rule leaves_then [OF store_utf_ok [OF t b]])
      fix t1 assume "ready_in t1 K c d"
      then have t1: "ready t1 K c" by (simp add: ready_in_def)
      show "leaves K (thenM (modify_tf (InEnv c) (\<lambda>f. f\<lparr>tf_esp := p\<rparr>))
        (thenM (modify_tf (InEnv c) (\<lambda>f. f\<lparr>tf_eip := up\<rparr>)) (bindM get_curenv env_run))) t1"
      proof (rule leaves_then [OF modify_tf_ok [OF t1]], rule leaves_then [OF modify_tf_ok], assumption)
        fix t2 assume "ready t2 K c"
        then show "leaves K (bindM get_curenv env_run) t2"
          using env_run_leaves [of t2 K c] by (simp add: leaves_def)
      qed
    qed
  qed
  moreover have "leaves K (env_destroy c) s" by (rule destroy_self_leaves [OF rs])
  ultimately show ?thesis using run by (auto simp: leaves_def)
qed

section \<open>The dispatcher\<close>

lemma handled_ends: "handled K c A s m \<Longrightarrow> ends_ok K m s (\<lambda>t. ready t K c)"
  by (auto simp: handled_def ends_ok_def split: prod.splits outcome.splits)

lemma leaves_ends: "leaves K m s \<Longrightarrow> ends_ok K m s Q"
  by (auto simp: leaves_def ends_ok_def)

lemma set_eip_handled:
  assumes "ready s K c"
  shows "handled K c UNIV s (set_eip c a)"
  using ready_upd_env(1) [OF assms, of c "\<lambda>v. v\<lparr>env_tf := (env_tf v)\<lparr>tf_eip := a\<rparr>\<rparr>"] assms
  by (simp add: handled_def set_eip_def ready_def same_slot_def confined_def)

lemma vload16_state: "snd (vload16 va s) = s"
  unfolding vload16_def by (intro pure_rules)

lemma refaulting_state: "snd (m s) = s \<Longrightarrow> snd (refaulting m s) = s"
  by (auto simp: refaulting_def split: prod.splits outcome.splits)

lemma handled_then:
  assumes "handled K c A s m" and "\<And>t. ready t K c \<Longrightarrow> handled K c A t k"
  shows "handled K c A s (thenM m k)"
  unfolding thenM_def using assms by (auto intro: handled_bind)

lemma handled_ret: "ready s K c \<Longrightarrow> handled K c A s (ret v)"
  by (simp add: handled_def)

lemma handled_if:
  "(b \<Longrightarrow> handled K c A s m) \<Longrightarrow> (\<not> b \<Longrightarrow> handled K c A s k) \<Longrightarrow> handled K c A s (if b then m else k)"
  by simp

lemma guest_emulate_handled:
  assumes r: "ready s K c"
  shows "handled K c UNIV s (guest_emulate inb c)"
proof -
  have eip: "handled K c UNIV t (thenM (set_eip c a) (ret True))" if "ready t K c" for t a
    by (rule handled_then [OF set_eip_handled [OF that] handled_ret])
  have "handled K c UNIV t (modifyM (upd_env c (\<lambda>v. v\<lparr>env_tf := (env_tf v)\<lparr>tf_regs :=
      (tf_regs (env_tf v))\<lparr>reg_eax := x\<rparr>\<rparr>\<rparr>)))" if "ready t K c" for t x
    using ready_upd_env(1) [OF that, of c "\<lambda>v. v\<lparr>env_tf := (env_tf v)\<lparr>tf_regs :=
      (tf_regs (env_tf v))\<lparr>reg_eax := x\<rparr>\<rparr>\<rparr>"] that
    by (simp add: handled_def ready_def same_slot_def confined_def)
  moreover have "handled K c UNIV t (guest_out v a)" if "ready t K c" for t v a
    using that ready_misc(1) [OF that] by (simp add: handled_def guest_out_def confined_def)
  ultimately show ?thesis
    unfolding guest_emulate_def Let_def
    by (intro handled_bind [OF handled_pure [OF r]] handled_if handled_then eip
        handled_bind [OF handled_pure [where m = "refaulting (vload8 _)"]]
        handled_bind [OF handled_pure [where m = "refaulting (vload16 _)"]]
        handled_bind [OF handled_pure [where m = "refaulting (vload32 _)"]]
        refaulting_state vload8_state vload16_state vload32_state handled_ret) simp_all
qed

lemma state_case: "snd m = s \<Longrightarrow> \<exists>x. m = (x, s)"
  by (cases m) auto

lemma guest_emulate_False:
  assumes "guest_emulate inb c s = (Ret False, t)"
  shows "t = s"
proof -
  let ?eip = "tf_eip (env_tf (envs s c))"
  obtain x1 x2 x3 where "vload8 ?eip s = (x1, s)" "vload16 ?eip s = (x2, s)" "vload32 ?eip s = (x3, s)"
    using state_case [OF vload8_state] state_case [OF vload16_state] state_case [OF vload32_state]
    by metis
  then show ?thesis
    using assms
    by (auto simp: guest_emulate_def Let_def refaulting_def split: outcome.splits prod.splits if_splits)
qed

definition try_send_perm_ok :: "Trapframe \<Rightarrow> bool" where
  "try_send_perm_ok tf \<longleftrightarrow>
     (tf_trapno tf = T_SYSCALL \<and> reg_eax (tf_regs tf) = SYS_ipc_try_send
        \<longrightarrow> reg_edi (tf_regs tf) < 0x1000)"

lemma trap_syscall_ends:
  assumes r: "ready s K c" and ok: "refs_ok s"
    and p: "reg_eax (tf_regs (env_tf (envs s c))) = SYS_ipc_try_send
      \<longrightarrow> reg_edi (tf_regs (env_tf (envs s c))) < 0x1000"
  shows "ends_ok K (trap_syscall (InEnv c)) s (\<lambda>t. ready t K c)"
proof -
  let ?r = "tf_regs (env_tf (envs s c))"
  let ?m = "syscall (reg_eax ?r) (reg_edx ?r) (reg_ecx ?r) (reg_ebx ?r) (reg_edi ?r) (reg_esi ?r)"
  note sc = syscall_preserves_kinv [OF r ok p, of "reg_edx ?r" "reg_ecx ?r" "reg_ebx ?r" "reg_esi ?r"]
  have "trap_syscall (InEnv c) s
    = bindM ?m (\<lambda>v. modify_tf (InEnv c) (\<lambda>f. f\<lparr>tf_regs := (tf_regs f)\<lparr>reg_eax := v\<rparr>\<rparr>)) s"
    by (simp add: trap_syscall_def read_tf_def Let_def)
  moreover have "ends_ok K (bindM ?m (\<lambda>v. modify_tf (InEnv c)
      (\<lambda>f. f\<lparr>tf_regs := (tf_regs f)\<lparr>reg_eax := v\<rparr>\<rparr>))) s (\<lambda>t. ready t K c)"
  proof (cases "?m s")
    case (Pair o1 t)
    show ?thesis
    proof (cases o1)
      case (Stop x)
      then show ?thesis using sc Pair by (simp add: ends_ok_def)
    next
      case (Ret v)
      then have "ready t K c" using sc Pair by simp
      from modify_tf_ok [OF this] show ?thesis using Pair Ret by (simp add: ends_ok_def)
    qed
  qed
  ultimately show ?thesis by (simp add: ends_ok_def)
qed

lemma kbd_handled:
  "ready s K c \<Longrightarrow> ends_ok K (\<lambda>s. case kbd_intr (kcons s) of
      Some k \<Rightarrow> (Ret (), s\<lparr>kcons := k\<rparr>) | None \<Rightarrow> (Stop Spinning, s)) s (\<lambda>t. ready t K c)"
  using ready_misc(1) ready_kinv by (auto simp: ends_ok_def split: option.split)

lemma destroy_ends: "ready s K c \<Longrightarrow> ends_ok K (env_destroy c) s (\<lambda>t. ready t K c)"
  by (rule leaves_ends [OF destroy_self_leaves])

lemma trap_interrupt_ends:
  assumes r: "ready s K c"
  shows "ends_ok K (trap_interrupt (InEnv c) no) s (\<lambda>t. ready t K c)"
proof -
  have y: "ends_ok K (whenM b sched_yield) t (\<lambda>t. ready t K c)" if "ready t K c" for b t
    using leaves_ends [OF yield_leaves [OF that]] that by (cases b) (simp_all add: ends_ok_def)
  have d: "ends_ok K (bindM get_curenv (\<lambda>c. bindM (getsM (\<lambda>s. env_type (envs s c))) (\<lambda>ty.
           if ty = ENV_TYPE_GUEST then env_destroy c
           else bindM (read_tf (InEnv c0)) (\<lambda>tf.
             if tf_cs tf = GD_KT then panic ''unhandled trap in kernel'' else env_destroy c)))) t
        (\<lambda>t. ready t K c)" if "ready t K c" for t c0
    using destroy_ends [OF that] that ready_kinv [OF that]
    by (simp add: ends_ok_def read_tf_def)
  have "ends_ok K (thenM (whenM b sched_yield) (bindM get_curenv (\<lambda>c.
      bindM (getsM (\<lambda>s. env_type (envs s c))) (\<lambda>ty.
           if ty = ENV_TYPE_GUEST then env_destroy c
           else bindM (read_tf (InEnv c0)) (\<lambda>tf.
             if tf_cs tf = GD_KT then panic ''unhandled trap in kernel'' else env_destroy c))))) s
        (\<lambda>t. ready t K c)" for b c0
    by (rule ends_ok_then [OF y [OF r] d])
  then show ?thesis
    using kbd_handled [OF r] r by (simp add: trap_interrupt_def ends_ok_def)
qed

lemma trap_dispatch_ends:
  assumes r: "ready_in s K c d" and ok: "refs_ok s" and user: "tf_cs (env_tf (envs s c)) AND 3 = 3"
    and p: "try_send_perm_ok (env_tf (envs s c))"
  shows "ends_ok K (trap_dispatch inb (InEnv c)) s (\<lambda>t. ready t K c)"
proof -
  have rs: "ready s K c" using r by (simp add: ready_in_def)
  define k where "k = (\<lambda>handled. if handled then ret ()
       else bindM (read_tf (InEnv c)) (\<lambda>tf.
         if tf_trapno tf = T_SYSCALL then trap_syscall (InEnv c)
         else thenM (trap_exception (InEnv c) (tf_trapno tf)) (trap_interrupt (InEnv c) (tf_trapno tf))))"
  have run: "trap_dispatch inb (InEnv c) s
    = bindM (if env_type (envs s c) = ENV_TYPE_GUEST then guest_emulate inb c else ret False) k s"
    using rs by (simp add: trap_dispatch_def k_def)
  have exc: "ends_ok K (trap_exception (InEnv c) no) s (\<lambda>t. ready t K c)" for no
    using modify_tf_ok [OF rs] leaves_ends [OF page_fault_handler_leaves [OF r user]] rs
      ready_kinv [OF rs]
    by (auto simp: trap_exception_def ends_ok_def)
  have body: "ends_ok K (k False) s (\<lambda>t. ready t K c)"
  proof (cases "tf_trapno (env_tf (envs s c)) = T_SYSCALL")
    case True
    have "ends_ok K (trap_syscall (InEnv c)) s (\<lambda>t. ready t K c)"
      by (rule trap_syscall_ends [OF rs ok]) (use p True in \<open>simp add: try_send_perm_ok_def\<close>)
    then show ?thesis using True by (simp add: k_def read_tf_def ends_ok_def)
  next
    case False
    have "ends_ok K (thenM (trap_exception (InEnv c) (tf_trapno (env_tf (envs s c))))
        (trap_interrupt (InEnv c) (tf_trapno (env_tf (envs s c))))) s (\<lambda>t. ready t K c)"
      by (rule ends_ok_then [OF exc trap_interrupt_ends])
    then show ?thesis using False by (simp add: k_def read_tf_def ends_ok_def)
  qed
  show ?thesis
  proof (cases "env_type (envs s c) = ENV_TYPE_GUEST")
    case False
    then show ?thesis using run body by (simp add: ends_ok_def)
  next
    case True
    obtain o1 t where g: "guest_emulate inb c s = (o1, t)" by fastforce
    have h: "handled K c UNIV s (guest_emulate inb c)" by (rule guest_emulate_handled [OF rs])
    show ?thesis
    proof (cases o1)
      case (Stop x)
      then show ?thesis using run True g h by (simp add: ends_ok_def handled_def)
    next
      case (Ret b)
      show ?thesis
      proof (cases b)
        case True
        then show ?thesis
          using run \<open>env_type (envs s c) = ENV_TYPE_GUEST\<close> g h Ret by (simp add: ends_ok_def handled_def k_def)
      next
        case False
        then have "t = s" using guest_emulate_False g Ret by simp
        then show ?thesis
          using run \<open>env_type (envs s c) = ENV_TYPE_GUEST\<close> g Ret False body by (simp add: ends_ok_def)
      qed
    qed
  qed
qed

section \<open>The trap entry\<close>

definition in_user_mode :: "kstate \<Rightarrow> nat set \<Rightarrow> nat \<Rightarrow> nat \<Rightarrow> bool" where
  "in_user_mode s K c d \<longleftrightarrow> kinv s K \<and> \<not> locked (kernel_lock s) \<and> cpunum s < NENV
     \<and> curenv s = Some c \<and> live s c \<and> cpu_status (cpus s (cpunum s)) = CPU_STARTED
     \<and> env_pgdir (envs s c) = Some d \<and> cr3 s = d"

lemma trap_return_leaves:
  assumes r: "ready s K c"
  shows "leaves K trap_return s"
proof -
  have c: "curenv s = Some c" using r by (simp add: ready_def)
  then show ?thesis
    using env_run_leaves [OF r] yield_leaves [OF r] by (simp add: trap_return_def leaves_def)
qed

text \<open>
  A trap from user mode is always handled to the end: the processor goes back to user mode, to
  the halt loop, to the monitor or into a panic, and the kernel invariant holds there.
\<close>

theorem trap_from_user_mode:
  assumes u: "in_user_mode s K c d" and tf: "tf_cs tf AND 3 = 3" and ok: "refs_ok s"
    and p: "try_send_perm_ok tf"
  shows "\<exists>x t. trap inb tf s = (Stop x, t) \<and> kinv t K"
proof -
  have k: "kinv s K" "curenv s = Some c" "live s c" using u by (auto simp: in_user_mode_def)
  define s1 where "s1 = s\<lparr>cpus := (cpus s)(cpunum s := (cpus s (cpunum s))\<lparr>cpu_status := CPU_STARTED\<rparr>)\<rparr>"
  have same: "(cpus s)(cpunum s := (cpus s (cpunum s))\<lparr>cpu_status := CPU_STARTED\<rparr>) = cpus s"
    using u by (auto simp: in_user_mode_def fun_eq_iff)
  then have s1: "s1 = s" by (simp add: s1_def)
  define s2 where "s2 = s\<lparr>kernel_lock := \<lparr>locked = True, lk_cpu = Some (cpunum s)\<rparr>\<rparr>"
  have lk: "lock_kernel s = (Ret (), s2)"
    using u by (simp add: lock_kernel_def holding_def in_user_mode_def s2_def)
  have cs2: "curenv s2 = Some c" using k by (simp add: s2_def curenv_def)
  have "kinv s2 K"
  proof (rule kinv_cong [OF k(1)])
    show "x < NENV" if "curenv s2 = Some x" for x using that cs2 k(3) by (simp add: live_def)
  qed (simp_all add: s2_def)
  then have r2: "ready s2 K c"
    using u cs2 by (simp add: ready_def in_user_mode_def holding_def s2_def live_def)
  define dying where "dying = (\<lambda>s. if env_status (envs s c) = ENV_DYING
          then thenM (env_free c) (thenM (modifyM (set_curenv None)) sched_yield) s
          else (Ret (), s) :: (kstop, unit) outcome \<times> kstate)"
  have run: "trap inb tf s
    = thenM dying (thenM (modifyM (upd_env c (\<lambda>v. v\<lparr>env_tf := tf\<rparr>)))
        (thenM (trap_dispatch inb (InEnv c)) trap_return)) s2"
    using tf k lk s1 same u
    by (simp add: trap_def cpu_restart_def trap_from_user_def Let_def in_user_mode_def dying_def
        split: prod.split outcome.split)
  show ?thesis
  proof (cases "env_status (envs s2 c) = ENV_DYING")
    case True
    have lc: "live s2 c" "kinv s2 K" using r2 by (auto simp: ready_def)
    obtain v where v: "env_free c s2 = (Ret (), v)" "\<not> live v c" "cpus v = cpus s2"
      "cpunum v = cpunum s2" "kernel_lock v = kernel_lock s2" "kinv v K"
      using env_free_kinv [OF lc(2,1)] by blast
    let ?w = "set_curenv None v"
    have "kinv ?w K" by (rule kinv_cong [OF v(6)]) auto
    moreover have "holding ?w" "cpunum ?w < NENV" using v r2 by (auto simp: ready_def holding_def)
    ultimately obtain x t where "sched_yield ?w = (Stop x, t)" "kinv t K"
      using sched_yield_kinv by blast
    then show ?thesis using run True v by (simp add: dying_def)
  next
    case False
    define s3 where "s3 = upd_env c (\<lambda>v. v\<lparr>env_tf := tf\<rparr>) s2"
    have r3: "ready s3 K c"
      unfolding s3_def by (rule ready_upd_env(1) [OF r2]) (use r2 in \<open>auto simp: ready_def same_slot_def\<close>)
    have ri: "ready_in s3 K c d"
      using r3 u by (simp add: ready_in_def s3_def s2_def in_user_mode_def) (simp add: upd_env_def)
    have "refs_ok s3" using ok by (simp add: refs_ok_def s3_def s2_def)
    moreover have "env_tf (envs s3 c) = tf" by (simp add: s3_def)
    ultimately have e: "ends_ok K (trap_dispatch inb (InEnv c)) s3 (\<lambda>t. ready t K c)"
      using trap_dispatch_ends [OF ri] tf p by simp
    have "leaves K (thenM (trap_dispatch inb (InEnv c)) trap_return) s3"
      by (rule leaves_then [OF e trap_return_leaves])
    then show ?thesis using run False by (simp add: dying_def s3_def leaves_def)
  qed
qed

text \<open>The dispatcher uses \<^verbatim>\<open>curenv\<close> without a test: a trap of an idle processor faults.\<close>

theorem idle_trap_bad_pointer:
  assumes "curenv s = None"
  shows "trap_dispatch inb l s = (Stop (BadPointer ''curenv''), s)"
  using assms by (simp add: trap_dispatch_def get_curenv_def)

end
