(* ===== verification/Jos_Demo.thy ===== *)
theory Jos_Demo
  imports Jos_Trap_Inv
begin

text \<open>
  A small concrete machine on which the hypotheses of the kernel theorems hold: eight pages,
  of which the kernel owns 0 and 1, a running environment with a page directory (frame 2), a page
  table (frame 3) and one page (frame 4) mapped at \<^verbatim>\<open>UTEXT\<close>, a second environment
  with an empty page directory (frame 5) that waits for a message, and two free pages.
\<close>

definition demo_ram :: "nat \<Rightarrow> nat \<Rightarrow> u32" where
  "demo_ram f i = (if f = 2 \<and> i = 2 then mk_pte 3 7 else if f = 3 \<and> i = 0 then mk_pte 4 7
     else if f = 4 \<and> i = 1023 then 0x41414141 else 0)"

definition demo_page :: "nat \<Rightarrow> PageInfo" where
  "demo_page p = \<lparr>pp_link = (if p = 6 then Some 7 else None),
     pp_ref = (if p \<in> {2, 3, 4, 5} then 1 else 0)\<rparr>"

definition demo_env :: "nat \<Rightarrow> Env" where
  "demo_env e = \<lparr>env_tf = fresh_tf, env_link = Some (e + 1), env_id = (if e = 0 then 0x2000 else if e = 1 then 0x1001 else 0),
     env_parent_id = 0, env_type = ENV_TYPE_USER,
     env_status = (if e = 0 then ENV_RUNNABLE else if e = 1 then ENV_NOT_RUNNABLE else ENV_FREE),
     env_runs = 0, env_cpunum = 0,
     env_pgdir = (if e = 0 then Some 2 else if e = 1 then Some 5 else None),
     env_pgfault_upcall = 0, env_ipc_recving = True,
     env_ipc_dstva = 0, env_ipc_value = 0, env_ipc_from = 0, env_ipc_perm = 0\<rparr>"

definition demo_console :: console where
  "demo_console = \<lparr>cons_buf = (\<lambda>_. 0), rpos = 0, wpos = 0, kbd_shift = 0, serial_exists = True,
     serial_rx = [0x68, 0x69], kbd_rx = [0x1E], serial_tx = [], lpt_tx = [], crt_buf = (\<lambda>_. 0),
     crt_pos = 0, rebooted = False\<rparr>"

definition demo :: kstate where
  "demo = \<lparr>npages = 8, npages_basemem = 2, link_end = 0xF0002000, nextfree = 0xF0002000,
     pages = demo_page, page_free_list = Some 6, ram = demo_ram, kern_pgdir = 1,
     mmio_base = MMIOBASE, user_mem_check_addr = 0, tlb_flushes = [], envs = demo_env,
     env_free_list = Some 2, cpus = (\<lambda>_. \<lparr>cpu_status = CPU_STARTED, cpu_env = Some 0\<rparr>),
     cpunum = 0, kernel_lock = \<lparr>locked = True, lk_cpu = Some 0\<rparr>, cr3 = 2, cr2 = 0,
     kcons = demo_console\<rparr>"

definition demo_user :: kstate where
  "demo_user = demo\<lparr>kernel_lock := unlocked\<rparr>"

lemma demo_simps [simp]:
  "npages demo = 8" "pages demo = demo_page" "page_free_list demo = Some 6" "ram demo = demo_ram"
  "kern_pgdir demo = 1" "envs demo = demo_env" "env_free_list demo = Some 2" "cpunum demo = 0"
  "cr3 demo = 2" "curenv demo = Some 0" "holding demo"
  by (simp_all add: demo_def curenv_def holding_def)

lemma demo_env_simps [simp]:
  "env_status (demo_env 0) = ENV_RUNNABLE" "env_pgdir (demo_env 0) = Some 2"
  "env_status (demo_env 1) = ENV_NOT_RUNNABLE" "env_pgdir (demo_env 1) = Some 5"
  "env_status (demo_env (Suc 0)) = ENV_NOT_RUNNABLE" "env_pgdir (demo_env (Suc 0)) = Some 5"
  "env_id (demo_env 1) = 0x1001" "env_id (demo_env (Suc 0)) = 0x1001"
  "env_id (demo_env 0) = 0x2000" "env_parent_id (demo_env e) = 0" "env_link (demo_env e) = Some (Suc e)"
  "1 < e \<Longrightarrow> env_status (demo_env e) = ENV_FREE" "env_type (demo_env e) = ENV_TYPE_USER"
  "env_tf (demo_env e) = fresh_tf" "env_ipc_recving (demo_env e)" "env_ipc_dstva (demo_env e) = 0"
  by (simp_all add: demo_env_def)

lemma demo_live [simp]: "live demo e \<longleftrightarrow> e = 0 \<or> e = 1"
proof -
  consider "e = 0" | "e = 1" | "1 < e" by linarith
  then show ?thesis by cases (auto simp: live_def kconst)
qed

lemma demo_dirs [simp]: "dirs demo = {2, 5}"
  by (auto simp: dirs_def)

lemma demo_frames [simp]: "entry_frame (mk_pte 3 7) = Some 3" "entry_frame (mk_pte 4 7) = Some 4"
  by (simp_all add: entry_frame_mk_pte)

lemma demo_tab: "tab_of demo 2 i = (if i = 2 then Some 3 else None)" "tab_of demo 5 i = None"
  by (simp_all add: tab_of_def demo_ram_def)

lemma demo_target: "target demo {2, 5} x = (if x = Dir 2 then Some 2 else if x = Dir 5 then Some 5 else if x = Tab 2 2 then Some 3
   else if x = Pg 2 2 0 then Some 4 else None)"
  by (cases x) (auto simp: demo_tab demo_ram_def kconst)

lemma demo_refs: "refs demo {2, 5} p = (if p = 2 then {Dir 2} else if p = 5 then {Dir 5} else if p = 3 then {Tab 2 2}
   else if p = 4 then {Pg 2 2 0} else {})"
  by (auto simp: refs_def demo_target)

lemma demo_mem: "mem_inv demo {2, 5} {0, 1} [6, 7]"
  unfolding mem_inv_def owned_once_def counted_def demo_refs
  by (auto simp: demo_target free_pages_def demo_page_def split: if_splits)

lemma demo_leak_free: "leak_free demo {0, 1} [6, 7]"
proof -
  have "p = 0 \<or> p = 1 \<or> p = 2 \<or> p = 3 \<or> p = 4 \<or> p = 5 \<or> p = 6 \<or> p = 7" if "p < 8" for p :: nat
    using that by arith
  then show ?thesis unfolding leak_free_def by (auto simp: demo_page_def)
qed

lemma demo_env_table: "env_table demo [2 ..< NENV]"
proof -
  have "chain (elink demo) (Some 2) ([2 ..< NENV] @ [NENV])"
    by (rule chain_upto) (auto simp: elink_def kconst)
  moreover have "set [2 ..< NENV] = {e. e < NENV \<and> \<not> live demo e}" by auto
  moreover have "ENVX 0x2000 = 0" "ENVX 0x1001 = 1" by (simp_all add: ENVX_eq)
  moreover have "0 < NENV" by (simp add: NENV_def)
  ultimately show ?thesis unfolding env_table_def by auto
qed

lemma demo_kinv: "kinv demo {0, 1}"
  using demo_mem demo_leak_free demo_env_table by (auto simp: kinv_def)

lemma demo_ready: "ready demo {0, 1} 0"
  using demo_kinv by (simp add: ready_def kconst)

lemma demo_refs_ok: "refs_ok demo"
  by (auto simp: refs_ok_def demo_page_def)

lemma demo_user_mode: "in_user_mode demo_user {0, 1} 0 2"
proof -
  have "kinv demo_user {0, 1}"
    using demo_kinv
    by (rule kinv_cong) (simp_all add: demo_user_def demo_def curenv_def same_slot_def live_def kconst)
  then show ?thesis
    by (simp add: in_user_mode_def demo_user_def unlocked_def demo_def curenv_def live_def kconst)
qed

section \<open>Concrete memory accesses\<close>

lemma demo_PDX: "PDX 0x800FFF = 2" "PTX 0x800FFF = 0" "PGOFF 0x800FFF = 4095" "PDX 0x801000 = 2"
  "PTX 0x801000 = 1"
  by (simp_all add: PDX_eq PTX_eq PGOFF_eq)

lemma demo_translate:
  "translate demo 2 False 0x800FFF = Some (4, 4095)" "translate demo 2 False 0x801000 = None"
  using mk_pte_present [of 3 7] mk_pte_present [of 4 7]
  by (simp_all add: translate_def demo_PDX demo_ram_def Let_def del: mk_pte_present)

lemma demo_last_byte: "vload8 0x800FFF demo = (Ret 0x41, demo)"
  by (simp add: vload8_def demo_translate demo_ram_def get_byte_def)

lemma demo_next_page: "translate demo (cr3 demo) False 0x801000 = None"
  by (simp add: demo_translate)

lemma demo_check: "user_mem_check 0 0x800FFF 1 (PTE_P OR PTE_U OR PTE_U OR PTE_P) demo = (Ret 0, demo)"
proof -
  have t: "tables_in_ram demo 2" by (auto simp: tables_in_ram_def demo_tab)
  have "user_ok demo 2 (PTE_P OR PTE_U OR PTE_U OR PTE_P) 0x800FFF"
    by (simp add: user_ok_def pte_at_def demo_PDX demo_tab demo_ram_def kconst mk_pte_def)
  then show ?thesis using user_mem_check_spec [where e = 0 and s = demo and d = 2 and len = 1 and va = "0x800FFF" and perm = "PTE_P OR PTE_U OR PTE_U OR PTE_P"] t by auto
qed

lemma demo_insertable: "insertable demo {2, 5} {0, 1} [6, 7] 4"
  by (auto simp: insertable_def demo_page_def demo_target split: if_splits)

lemma demo_store_byte: "\<exists>s'. vstore8 0x800FFF b demo = (Ret (), s')"
proof -
  have "mk_pte 3 7 AND PTE_W \<noteq> 0" "mk_pte 4 7 AND PTE_W \<noteq> 0" by (simp_all add: kconst mk_pte_def)
  then have "translate demo 2 True 0x800FFF = Some (4, 4095)"
    using mk_pte_present [of 3 7] mk_pte_present [of 4 7]
    by (simp add: translate_def demo_PDX demo_ram_def Let_def del: mk_pte_present)
  then show ?thesis by (simp add: vstore8_def)
qed

lemma demo_history:
  "\<exists>t. mruns (as_guard {2, 5} {0, 1} 5) (as_step 5) [Ins 0x800 (mk_pte 4 5)] demo = Some t"
proof -
  have va: "page_va 0x800 < UTOP" by (rule page_va_UTOP) (simp add: UPDX_def)
  have low: "mk_pte 4 5 AND 0xFFF = 5" by (simp add: mk_pte_def kconst)
  obtain s' where "page_insert 5 4 (page_va 0x800) 5 demo = (Ret 0, s')"
    using page_insert_spec [OF demo_mem _ va demo_insertable, of 5 5] by (auto split: if_splits)
  then have "as_step 5 (Ins 0x800 (mk_pte 4 5)) demo = Some s'"
    by (simp add: as_step_def low)
  moreover have "insertable demo {2, 5} {0, 1} fl 4" if "mem_inv demo {2, 5} {0, 1} fl" for fl
  proof -
    have "fl = [6, 7]"
      using that demo_mem unfolding mem_inv_def free_pages_def by (blast intro: chain_unique)
    then show ?thesis using demo_insertable by simp
  qed
  then have "as_guard {2, 5} {0, 1} 5 (Ins 0x800 (mk_pte 4 5)) demo"
    by (simp add: as_guard_def as_legal_def UPDX_def present_def)
  ultimately show ?thesis by simp
qed

lemma demo_sched_ready: "sched_ready demo r \<longleftrightarrow> r = 0"
proof -
  consider "r = 0" | "r = 1" | "1 < r" by linarith
  then show ?thesis by cases (auto simp: sched_ready_def)
qed

lemma demo_yield: "\<exists>t. sched_yield demo = (Stop (EnterUser 0), t)"
proof -
  have "0 < NENV" by (simp add: NENV_def)
  then show ?thesis using sched_yield_spec [OF demo_kinv, unfolded demo_sched_ready] by auto
qed

definition demo_frame :: Trapframe where
  "demo_frame = \<lparr>tf_regs = zero_regs, tf_es = 0, tf_ds = 0, tf_trapno = 0, tf_err = 0, tf_eip = 0,
     tf_cs = 0, tf_eflags = 0, tf_esp = 0, tf_ss = 0\<rparr>"

lemma demo_page_at:
  assumes "n < 4092"
  shows "vload8 (0x800000 + of_nat n) demo = (Ret 0, demo)"
proof -
  have u: "unat (0x800000 + of_nat n :: u32) = 0x800000 + n"
    using assms by (simp add: unat_word_ariths unat_of_nat)
  have "(4096 * 2048 + n) div 4096 = 2048" "(4096 * 2048 + n) mod 4096 = n"
    using assms by (simp_all only: div_mult_self4 mod_mult_self4) simp_all
  then have "(8388608 + n) div 4096 = 2048" "(8388608 + n) mod 4096 = n" by simp_all
  then have "PDX (0x800000 + of_nat n) = 2" "PTX (0x800000 + of_nat n) = 0" "PGOFF (0x800000 + of_nat n) = n"
    using assms by (simp_all add: PDX_eq PTX_eq PGOFF_eq u)
  then have "translate demo 2 False (0x800000 + of_nat n) = Some (4, n)"
    using mk_pte_present [of 3 7] mk_pte_present [of 4 7]
    by (simp add: translate_def demo_ram_def Let_def del: mk_pte_present)
  moreover have "n div 4 \<noteq> 1023" using assms by linarith
  ultimately show ?thesis by (simp add: vload8_def demo_ram_def get_byte_def)
qed

lemma demo_word_at:
  assumes "n < 4088"
  shows "vload32 (0x800000 + of_nat n) demo = (Ret 0, demo)"
proof -
  have "vload8 (0x800000 + of_nat n + 1) demo = (Ret 0, demo)"
    "vload8 (0x800000 + of_nat n + 2) demo = (Ret 0, demo)"
    "vload8 (0x800000 + of_nat n + 3) demo = (Ret 0, demo)"
    using assms demo_page_at [of "n + 1"] demo_page_at [of "n + 2"] demo_page_at [of "n + 3"]
    by (simp_all add: algebra_simps)
  then show ?thesis using assms demo_page_at [of n] by (simp add: vload32_def)
qed

lemma demo_vload_tf: "vload_tf UTEXT demo = (Ret demo_frame, demo)"
  using demo_word_at [of 0] demo_word_at [of 4] demo_word_at [of 8] demo_word_at [of 12]
    demo_word_at [of 16] demo_word_at [of 20] demo_word_at [of 24] demo_word_at [of 28]
    demo_word_at [of 32] demo_word_at [of 36] demo_word_at [of 40] demo_word_at [of 44]
    demo_word_at [of 48] demo_word_at [of 52] demo_word_at [of 56] demo_word_at [of 60]
    demo_word_at [of 64]
  by (simp add: vload_tf_def vload_regs_def demo_frame_def zero_regs_def UTEXT_def)

lemma demo_eip: "tf_eip demo_frame = 0"
  by (simp add: demo_frame_def)

lemma demo_load32: "vload32 (UTEXT + 48) demo = (Ret 0, demo)"
  using demo_word_at [of 48] by (simp add: UTEXT_def)

lemma demo_typed: "all_typed demo_console = [0x68, 0x69, 0x61]"
  by (simp add: all_typed_def pending_def typed_serial_def typed_kbd_def demo_console_def
      kbd_decode_def charcode_def normalmap_def table_of_def ascii_def shiftcode_def togglecode_def
      kconst Let_def)

end
