(* ===== verification/Jos_CString.thy ===== *)
theory Jos_CString
  imports Jos_Prelude
begin

text \<open>
  The string library \<^verbatim>\<open>lib/string.c\<close>, shared by kernel and user programs. Memory is a
  function from 32-bit addresses to bytes; a loop that only a byte in memory can end is a partial
  function, the others recur on their count. \<^verbatim>\<open>memset\<close> and \<^verbatim>\<open>memmove\<close> are the
  variants the build selects (\<^verbatim>\<open>ASM\<close>), with the string instructions
  \<^verbatim>\<open>rep stos\<close> and \<^verbatim>\<open>rep movs\<close> written out.

  Results: lengths, comparison and search agree with lists of bytes, the bounded copies never
  write outside their buffer, \<^verbatim>\<open>memmove\<close> is correct for overlapping regions whichever
  of its four instruction sequences runs, and \<^verbatim>\<open>strtol\<close> evaluates digits.
\<close>

section \<open>Memory\<close>

type_synonym bmem = "u32 \<Rightarrow> u8"

definition b2i :: "u8 \<Rightarrow> i32" where
  "b2i b = ucast b"

section \<open>Strings\<close>

partial_function (option) strlen_loop :: "bmem \<Rightarrow> u32 \<Rightarrow> i32 \<Rightarrow> i32 option" where
  "strlen_loop m s n = (if m s \<noteq> 0 then strlen_loop m (s + 1) (n + 1) else Some n)"

definition strlen :: "bmem \<Rightarrow> u32 \<Rightarrow> i32 option" where
  "strlen m s = strlen_loop m s 0"

fun strnlen_loop :: "bmem \<Rightarrow> u32 \<Rightarrow> nat \<Rightarrow> i32 \<Rightarrow> i32" where
  "strnlen_loop m s 0 n = n"
| "strnlen_loop m s (Suc size') n = (if m s \<noteq> 0 then strnlen_loop m (s + 1) size' (n + 1) else n)"

definition strnlen :: "bmem \<Rightarrow> u32 \<Rightarrow> u32 \<Rightarrow> i32" where
  "strnlen m s size' = strnlen_loop m s (unat size') 0"

partial_function (option) strcpy_loop :: "bmem \<Rightarrow> u32 \<Rightarrow> u32 \<Rightarrow> bmem option" where
  "strcpy_loop m dst src =
     (let ch = m src; m' = m(dst := ch) in
      if ch \<noteq> 0 then strcpy_loop m' (dst + 1) (src + 1) else Some m')"

definition strcpy :: "bmem \<Rightarrow> u32 \<Rightarrow> u32 \<Rightarrow> (u32 \<times> bmem) option" where
  "strcpy m dst src = (case strcpy_loop m dst src of None \<Rightarrow> None | Some m' \<Rightarrow> Some (dst, m'))"

definition strcat :: "bmem \<Rightarrow> u32 \<Rightarrow> u32 \<Rightarrow> (u32 \<times> bmem) option" where
  "strcat m dst src =
     (case strlen m dst of None \<Rightarrow> None
      | Some len \<Rightarrow> (case strcpy m (dst + len) src of None \<Rightarrow> None | Some (_, m') \<Rightarrow> Some (dst, m')))"

fun strncpy_loop :: "bmem \<Rightarrow> u32 \<Rightarrow> u32 \<Rightarrow> nat \<Rightarrow> bmem" where
  "strncpy_loop m dst src 0 = m"
| "strncpy_loop m dst src (Suc n) =
     (let m' = m(dst := m src) in
      strncpy_loop m' (dst + 1) (if m' src \<noteq> 0 then src + 1 else src) n)"

definition strncpy :: "bmem \<Rightarrow> u32 \<Rightarrow> u32 \<Rightarrow> u32 \<Rightarrow> u32 \<times> bmem" where
  "strncpy m dst src size' = (dst, strncpy_loop m dst src (unat size'))"

text \<open>The loop \<^verbatim>\<open>while (--size > 0 && *src != 0)\<close> with \<open>n = size - 1\<close> bytes left.\<close>

fun strlcpy_loop :: "bmem \<Rightarrow> u32 \<Rightarrow> u32 \<Rightarrow> nat \<Rightarrow> u32 \<times> bmem" where
  "strlcpy_loop m dst src 0 = (dst, m)"
| "strlcpy_loop m dst src (Suc n) =
     (if m src \<noteq> 0 then strlcpy_loop (m(dst := m src)) (dst + 1) (src + 1) n else (dst, m))"

definition strlcpy :: "bmem \<Rightarrow> u32 \<Rightarrow> u32 \<Rightarrow> u32 \<Rightarrow> u32 \<times> bmem" where
  "strlcpy m dst src size' =
     (if 0 < size' then
        (case strlcpy_loop m dst src (unat size' - 1) of (d, m') \<Rightarrow> (d - dst, m'(d := 0)))
      else (0, m))"

partial_function (option) strcmp :: "bmem \<Rightarrow> u32 \<Rightarrow> u32 \<Rightarrow> i32 option" where
  "strcmp m p q =
     (if m p \<noteq> 0 \<and> m p = m q then strcmp m (p + 1) (q + 1) else Some (b2i (m p) - b2i (m q)))"

fun strncmp :: "bmem \<Rightarrow> u32 \<Rightarrow> u32 \<Rightarrow> nat \<Rightarrow> i32" where
  "strncmp m p q 0 = 0"
| "strncmp m p q (Suc n) =
     (if m p \<noteq> 0 \<and> m p = m q then strncmp m (p + 1) (q + 1) n else b2i (m p) - b2i (m q))"

partial_function (option) strchr :: "bmem \<Rightarrow> u32 \<Rightarrow> u8 \<Rightarrow> u32 option option" where
  "strchr m s c =
     (if m s = 0 then Some None else if m s = c then Some (Some s) else strchr m (s + 1) c)"

partial_function (option) strfind :: "bmem \<Rightarrow> u32 \<Rightarrow> u8 \<Rightarrow> u32 option" where
  "strfind m s c = (if m s = 0 then Some s else if m s = c then Some s else strfind m (s + 1) c)"

section \<open>Blocks\<close>

fun rep_stosb :: "nat \<Rightarrow> u32 \<Rightarrow> u8 \<Rightarrow> bmem \<Rightarrow> bmem" where
  "rep_stosb 0 d b m = m"
| "rep_stosb (Suc n) d b m = rep_stosb n (d + 1) b (m(d := b))"

definition store4 :: "u32 \<Rightarrow> u32 \<Rightarrow> bmem \<Rightarrow> bmem" where
  "store4 d w m = m(d := ucast w, d + 1 := ucast (drop_bit 8 w), d + 2 := ucast (drop_bit 16 w),
     d + 3 := ucast (drop_bit 24 w))"

definition load4 :: "u32 \<Rightarrow> bmem \<Rightarrow> u32" where
  "load4 s m = ucast (m s) OR push_bit 8 (ucast (m (s + 1))) OR push_bit 16 (ucast (m (s + 2)))
     OR push_bit 24 (ucast (m (s + 3)))"

fun rep_stosl :: "nat \<Rightarrow> u32 \<Rightarrow> u32 \<Rightarrow> bmem \<Rightarrow> bmem" where
  "rep_stosl 0 d w m = m"
| "rep_stosl (Suc n) d w m = rep_stosl n (d + 4) w (store4 d w m)"

definition memset :: "bmem \<Rightarrow> u32 \<Rightarrow> i32 \<Rightarrow> u32 \<Rightarrow> u32 \<times> bmem" where
  "memset m v c n =
     (if n = 0 then (v, m)
      else if v mod 4 = 0 \<and> n mod 4 = 0 then
        (let c = c AND 0xFF; c = push_bit 24 c OR push_bit 16 c OR push_bit 8 c OR c
         in (v, rep_stosl (unat (n div 4)) v c m))
      else (v, rep_stosb (unat n) v (ucast c) m))"

text \<open>The \<open>step\<close> is 1 after \<^verbatim>\<open>cld\<close> and -1 after \<^verbatim>\<open>std\<close>.\<close>

fun rep_movsb :: "nat \<Rightarrow> u32 \<Rightarrow> u32 \<Rightarrow> u32 \<Rightarrow> bmem \<Rightarrow> bmem" where
  "rep_movsb 0 step d s m = m"
| "rep_movsb (Suc n) step d s m = rep_movsb n step (d + step) (s + step) (m(d := m s))"

fun rep_movsl :: "nat \<Rightarrow> u32 \<Rightarrow> u32 \<Rightarrow> u32 \<Rightarrow> bmem \<Rightarrow> bmem" where
  "rep_movsl 0 step d s m = m"
| "rep_movsl (Suc n) step d s m =
     rep_movsl n step (d + 4 * step) (s + 4 * step) (store4 d (load4 s m) m)"

definition memmove :: "bmem \<Rightarrow> u32 \<Rightarrow> u32 \<Rightarrow> u32 \<Rightarrow> u32 \<times> bmem" where
  "memmove m dst src n =
     (if src < dst \<and> dst < src + n then
        (let s = src + n; d = dst + n in
         if s mod 4 = 0 \<and> d mod 4 = 0 \<and> n mod 4 = 0
         then (dst, rep_movsl (unat (n div 4)) (- 1) (d - 4) (s - 4) m)
         else (dst, rep_movsb (unat n) (- 1) (d - 1) (s - 1) m))
      else
        (if src mod 4 = 0 \<and> dst mod 4 = 0 \<and> n mod 4 = 0
         then (dst, rep_movsl (unat (n div 4)) 1 dst src m)
         else (dst, rep_movsb (unat n) 1 dst src m)))"

definition memcpy :: "bmem \<Rightarrow> u32 \<Rightarrow> u32 \<Rightarrow> u32 \<Rightarrow> u32 \<times> bmem" where
  "memcpy m dst src n = memmove m dst src n"

fun memcmp :: "bmem \<Rightarrow> u32 \<Rightarrow> u32 \<Rightarrow> nat \<Rightarrow> i32" where
  "memcmp m v1 v2 0 = 0"
| "memcmp m v1 v2 (Suc n) =
     (if m v1 \<noteq> m v2 then b2i (m v1) - b2i (m v2) else memcmp m (v1 + 1) (v2 + 1) n)"

text \<open>The loop ends at \<open>ends = s + n\<close>, compared as an address.\<close>

fun memfind_loop :: "bmem \<Rightarrow> u32 \<Rightarrow> u32 \<Rightarrow> u8 \<Rightarrow> nat \<Rightarrow> u32" where
  "memfind_loop m s ends c 0 = s"
| "memfind_loop m s ends c (Suc k) =
     (if s < ends then (if m s = c then s else memfind_loop m (s + 1) ends c k) else s)"

definition memfind :: "bmem \<Rightarrow> u32 \<Rightarrow> i32 \<Rightarrow> u32 \<Rightarrow> u32" where
  "memfind m s c n = memfind_loop m s (s + n) (ucast c) (unat n)"

section \<open>Numbers\<close>

partial_function (option) skip_blanks :: "bmem \<Rightarrow> u32 \<Rightarrow> u32 option" where
  "skip_blanks m s = (if m s = 0x20 \<or> m s = 0x09 then skip_blanks m (s + 1) else Some s)"

definition digit_of :: "u8 \<Rightarrow> int option" where
  "digit_of ch =
     (if 0x30 \<le> ch \<and> ch \<le> 0x39 then Some (uint ch - 0x30)
      else if 0x61 \<le> ch \<and> ch \<le> 0x7A then Some (uint ch - 0x61 + 10)
      else if 0x41 \<le> ch \<and> ch \<le> 0x5A then Some (uint ch - 0x41 + 10)
      else None)"

partial_function (option) strtol_digits :: "bmem \<Rightarrow> int \<Rightarrow> u32 \<Rightarrow> i32 \<Rightarrow> (i32 \<times> u32) option" where
  "strtol_digits m base s val =
     (case digit_of (m s) of
        None \<Rightarrow> Some (val, s)
      | Some dig \<Rightarrow>
          if base \<le> dig then Some (val, s)
          else strtol_digits m base (s + 1) (val * word_of_int base + word_of_int dig))"

definition strtol_sign :: "bmem \<Rightarrow> u32 \<Rightarrow> u32 \<times> bool" where
  "strtol_sign m s = (if m s = 0x2B then (s + 1, False)
     else if m s = 0x2D then (s + 1, True) else (s, False))"

definition strtol_base :: "bmem \<Rightarrow> u32 \<Rightarrow> int \<Rightarrow> u32 \<times> int" where
  "strtol_base m s base =
     (if (base = 0 \<or> base = 16) \<and> m s = 0x30 \<and> m (s + 1) = 0x78 then (s + 2, 16)
      else if base = 0 \<and> m s = 0x30 then (s + 1, 8)
      else if base = 0 then (s, 10)
      else (s, base))"

definition strtol :: "bmem \<Rightarrow> u32 \<Rightarrow> int \<Rightarrow> (i32 \<times> u32) option" where
  "strtol m s base =
     (case skip_blanks m s of
        None \<Rightarrow> None
      | Some s1 \<Rightarrow>
          (case strtol_sign m s1 of (s2, neg) \<Rightarrow>
           case strtol_base m s2 base of (s3, base') \<Rightarrow>
             (case strtol_digits m base' s3 0 of
                None \<Rightarrow> None
              | Some (val, e) \<Rightarrow> Some (if neg then - val else val, e))))"

section \<open>Block copies\<close>

lemma unat_pred: "k \<noteq> 0 \<Longrightarrow> unat (k - 1 :: u32) = unat k - 1"
  using unat_dec [of k] by linarith

lemma unat_pred4: "4 \<le> unat k \<Longrightarrow> unat (k - 4 :: u32) = unat k - 4"
  by (simp add: unat_sub word_le_nat_alt)

lemma unat_minus_flip: "k \<noteq> 0 \<Longrightarrow> unat (- k :: u32) = 4294967296 - unat k"
  using unat_sub_if' [of 0 k] by (simp add: unat_gt_0)

lemma unat_m1: "unat (- 1 :: u32) = 4294967295"
  using unat_minus_flip [of 1] by simp

text \<open>
  The memory after copying \<open>n\<close> bytes from \<open>s\<close> to \<open>d\<close> as if through a buffer, and after
  filling \<open>n\<close> bytes.
\<close>

definition copied :: "bmem \<Rightarrow> u32 \<Rightarrow> u32 \<Rightarrow> nat \<Rightarrow> bmem" where
  "copied m d s n = (\<lambda>a. if unat (a - d) < n then m (s + (a - d)) else m a)"

definition filled :: "bmem \<Rightarrow> u32 \<Rightarrow> u8 \<Rightarrow> nat \<Rightarrow> bmem" where
  "filled m d b n = (\<lambda>a. if unat (a - d) < n then b else m a)"

lemma copied_0 [simp]: "copied m d s 0 = m"
  by (simp add: copied_def)

lemma copied_Suc:
  assumes n: "n < 4294967296" and free: "\<And>k. k \<noteq> 0 \<Longrightarrow> unat k \<le> n \<Longrightarrow> s + k \<noteq> d"
  shows "copied (m(d := m s)) (d + 1) (s + 1) n = copied m d s (Suc n)"
proof (rule ext)
  fix a
  define k where "k = a - d"
  then have a: "a = d + k" by simp
  have e: "a - (d + 1) = k - 1" "s + 1 + (k - 1) = s + k" by (simp_all add: a)
  show "copied (m(d := m s)) (d + 1) (s + 1) n a = copied m d s (Suc n) a"
  proof (cases "k = 0")
    case True
    then show ?thesis using n unat_m1 by (simp add: copied_def a)
  next
    case False
    then show ?thesis
      using unat_pred [OF False] unat_gt_0 [of k] free [OF False]
      by (auto simp: copied_def e k_def [symmetric] a)
  qed
qed

lemma rep_movsb_forward:
  "n \<le> 4294967296 \<Longrightarrow> d = s \<or> n \<le> unat (d - s) \<Longrightarrow> rep_movsb n 1 d s m = copied m d s n"
proof (induction n arbitrary: d s m)
  case (Suc n)
  have ih: "rep_movsb n 1 (d + 1) (s + 1) (m(d := m s)) = copied (m(d := m s)) (d + 1) (s + 1) n"
    by (rule Suc.IH) (use Suc.prems in auto)
  have "s + k \<noteq> d" if "k \<noteq> 0" "unat k \<le> n" for k
  proof
    assume "s + k = d"
    then have "d - s = k" by auto
    then show False using Suc.prems(2) that by auto
  qed
  then show ?case using ih copied_Suc [of n s d m] Suc.prems(1) by simp
qed simp

lemma rep_movsb_backward:
  "n \<le> 4294967296 \<Longrightarrow> d = s \<or> n \<le> unat (s - d) \<Longrightarrow>
   rep_movsb n (- 1) d s m = (\<lambda>a. if unat (d - a) < n then m (s - (d - a)) else m a)"
proof (induction n arbitrary: d s m)
  case (Suc n)
  have ih: "rep_movsb n (- 1) (d - 1) (s - 1) (m(d := m s))
      = (\<lambda>a. if unat (d - 1 - a) < n then (m(d := m s)) (s - 1 - (d - 1 - a)) else (m(d := m s)) a)"
    by (rule Suc.IH) (use Suc.prems in auto)
  show ?case
  proof (rule ext)
    fix a
    define k where "k = d - a"
    then have a: "a = d - k" by simp
    show "rep_movsb (Suc n) (- 1) d s m a = (if unat (d - a) < Suc n then m (s - (d - a)) else m a)"
    proof (cases "k = 0")
      case True
      then have "unat (d - 1 - a) = 4294967295"
        using unat_m1 by (simp add: a)
      then show ?thesis using Suc.prems(1) True by (simp add: ih a)
    next
      case False
      have e: "d - 1 - a = k - 1" by (simp add: a)
      have "s - 1 - (k - 1) = s - k" by simp
      moreover have "s - k \<noteq> d" if "unat k < Suc n"
      proof
        assume "s - k = d"
        then have "s - d = k" by auto
        then show False using Suc.prems(2) that False by auto
      qed
      ultimately show ?thesis
        using False unat_pred [OF False] unat_gt_0 [of k]
        by (auto simp: ih e a)
    qed
  qed
qed simp

lemma load4_bytes:
  "(ucast (load4 s m) :: u8) = m s" "(ucast (drop_bit 8 (load4 s m)) :: u8) = m (s + 1)"
  "(ucast (drop_bit 16 (load4 s m)) :: u8) = m (s + 2)"
  "(ucast (drop_bit 24 (load4 s m)) :: u8) = m (s + 3)"
  by (rule word_eq_bitI, auto simp: load4_def bit_ucast_iff bit_drop_bit_eq bit_or_iff
      bit_push_bit_iff dest: bit_imp_le_length)+

lemma unat_less_4: "unat k < 4 \<longleftrightarrow> k = 0 \<or> k = 1 \<or> k = 2 \<or> k = (3 :: u32)"
proof
  assume "unat k < 4"
  then consider "unat k = unat (0 :: u32)" | "unat k = unat (1 :: u32)" | "unat k = unat (2 :: u32)"
    | "unat k = unat (3 :: u32)" by fastforce
  then show "k = 0 \<or> k = 1 \<or> k = 2 \<or> k = 3" by cases (simp_all only: word_unat_eq_iff [symmetric], auto)
qed auto

lemma store4_load4: "store4 d (load4 s m) m = copied m d s 4"
proof (rule ext)
  fix a
  define k where "k = a - d"
  then have a: "a = d + k" by simp
  show "store4 d (load4 s m) m a = copied m d s 4 a"
    by (auto simp: a store4_def load4_bytes copied_def unat_less_4)
qed

lemma unat_wrap4: "unat k < 4 \<Longrightarrow> unat (k - 4 :: u32) = 4294967292 + unat k"
  using unat_sub_if' [of k 4] by simp

lemma rep_movsl_forward:
  "4 * n \<le> 4294967296 \<Longrightarrow> d = s \<or> 4 * n \<le> unat (d - s) \<Longrightarrow> rep_movsl n 1 d s m = copied m d s (4 * n)"
proof (induction n arbitrary: d s m)
  case (Suc n)
  have ih: "rep_movsl n 1 (d + 4) (s + 4) (copied m d s 4)
      = copied (copied m d s 4) (d + 4) (s + 4) (4 * n)"
    by (rule Suc.IH) (use Suc.prems in auto)
  have run: "rep_movsl (Suc n) 1 d s m = copied (copied m d s 4) (d + 4) (s + 4) (4 * n)"
    using ih by (simp add: store4_load4)
  show ?case
  proof (rule ext)
    fix a
    define k where "k = a - d"
    then have a: "a = d + k" by simp
    show "rep_movsl (Suc n) 1 d s m a = copied m d s (4 * Suc n) a"
    proof (cases "unat k < 4")
      case True
      have e: "a - (d + 4) = k - 4" by (simp add: a)
      have "\<not> unat (a - (d + 4)) < 4 * n"
        unfolding e unat_wrap4 [OF True] using Suc.prems(1) by (simp add: not_less)
      then show ?thesis using True by (simp add: run copied_def a del: rep_movsl.simps)
    next
      case False
      then have k4: "unat (k - 4) = unat k - 4" by (simp add: unat_pred4)
      have e: "a - (d + 4) = k - 4" "s + 4 + (k - 4) = s + k" by (simp_all add: a)
      have "\<not> unat (s + k - d) < 4" if "unat k < 4 * Suc n"
      proof (cases "d = s")
        case True
        then show ?thesis using False by simp
      next
        case ne: False
        then have big: "4 * Suc n \<le> unat (d - s)" using Suc.prems(2) by simp
        have "s + k - d = k - (d - s)" by simp
        moreover have "unat (k - (d - s)) = unat k + 4294967296 - unat (d - s)"
          using big that unat_sub_if' [of k "d - s"] by simp
        ultimately have "unat (s + k - d) = unat k + 4294967296 - unat (d - s)" by (simp only:)
        then show ?thesis using False u32_bound [of "d - s"] by linarith
      qed
      then show ?thesis using False by (auto simp: run copied_def e k4 a simp del: rep_movsl.simps)
    qed
  qed
qed simp

lemma rep_movsl_backward:
  "4 * n \<le> 4294967296 \<Longrightarrow> d = s \<or> 4 * n \<le> unat (s - d) \<Longrightarrow>
   rep_movsl n (- 1) d s m
     = (\<lambda>a. if unat (d + 3 - a) < 4 * n then m (s + 3 - (d + 3 - a)) else m a)"
proof (induction n arbitrary: d s m)
  case (Suc n)
  have run: "rep_movsl (Suc n) (- 1) d s m = (\<lambda>a. if unat (d - 4 + 3 - a) < 4 * n
      then copied m d s 4 (s - 4 + 3 - (d - 4 + 3 - a)) else copied m d s 4 a)"
  proof -
    have "rep_movsl n (- 1) (d - 4) (s - 4) (copied m d s 4)
      = (\<lambda>a. if unat (d - 4 + 3 - a) < 4 * n
          then copied m d s 4 (s - 4 + 3 - (d - 4 + 3 - a)) else copied m d s 4 a)"
      by (rule Suc.IH) (use Suc.prems in auto)
    then show ?thesis by (simp add: store4_load4)
  qed
  show ?case
  proof (rule ext)
    fix a
    define k where "k = d + 3 - a"
    then have a: "a = d + 3 - k" by simp
    show "rep_movsl (Suc n) (- 1) d s m a
        = (if unat (d + 3 - a) < 4 * Suc n then m (s + 3 - (d + 3 - a)) else m a)"
    proof (cases "unat k < 4")
      case True
      have e: "d - 4 + 3 - a = k - 4" by (simp add: a)
      have "\<not> unat (d - 4 + 3 - a) < 4 * n"
        unfolding e unat_wrap4 [OF True] using Suc.prems(1) by (simp add: not_less)
      moreover have "unat (a - d) < 4" using True by (auto simp: a unat_less_4)
      moreover have "s + (a - d) = s + 3 - k" by (simp add: a)
      ultimately show ?thesis
        using True by (simp add: run copied_def a algebra_simps del: rep_movsl.simps)
    next
      case False
      then have k4: "unat (k - 4) = unat k - 4" by (simp add: unat_pred4)
      have e: "d - 4 + 3 - a = k - 4" "s - 4 + 3 - (k - 4) = s + 3 - k" by (simp_all add: a)
      have far: "\<not> unat (a - d) < 4" using False by (auto simp: a unat_less_4)
      have "\<not> unat (s + 3 - k - d) < 4" if "unat k < 4 * Suc n"
      proof
        assume lt: "unat (s + 3 - k - d) < 4"
        define x where "x = s + 3 - k - d"
        define j where "j = 3 - x"
        have "unat j < 4" using lt unfolding x_def [symmetric] j_def by (auto simp: unat_less_4)
        have j: "s - d = k - j" by (simp add: j_def x_def)
        have "unat (k - j) = unat k - unat j"
          using False \<open>unat j < 4\<close> by (simp add: unat_sub word_le_nat_alt)
        then have "d = s \<Longrightarrow> False" using j False \<open>unat j < 4\<close> by simp
        then show False
          using Suc.prems(2) that j \<open>unat (k - j) = unat k - unat j\<close> by auto
      qed
      then show ?thesis
        unfolding run e k_def [symmetric] using False far by (simp add: copied_def k4) linarith
    qed
  qed
qed simp

lemma backward_copied:
  assumes "0 < unat n"
  shows "(\<lambda>a. if unat (d + n - 1 - a) < unat n then m (s + n - 1 - (d + n - 1 - a)) else m a)
    = copied m d s (unat n)"
proof (rule ext)
  fix a
  define k where "k = a - d"
  then have a: "a = d + k" by simp
  have e: "d + n - 1 - a = n - 1 - k" "s + n - 1 - (n - 1 - k) = s + k" by (simp_all add: a)
  have "unat (n - 1) = unat n - 1" using assms unat_pred [of n] by (cases "n = 0") auto
  then have "unat (n - 1 - k) < unat n \<longleftrightarrow> unat k < unat n"
    using assms unat_sub_if' [of "n - 1" k] u32_bound [of k] by auto
  then show "(if unat (d + n - 1 - a) < unat n then m (s + n - 1 - (d + n - 1 - a)) else m a)
      = copied m d s (unat n) a"
    unfolding e by (simp add: copied_def a)
qed

text \<open>
  Whichever instruction sequence runs, and however the regions overlap, the destination gets
  what the source held before, and nothing else is written.
\<close>

theorem memmove_copies:
  assumes src: "unat src + unat n < 4294967296" and dst: "unat dst + unat n \<le> 4294967296"
  shows "memmove m dst src n = (dst, copied m dst src (unat n))"
proof (cases "n = 0")
  case True
  then show ?thesis by (simp add: memmove_def)
next
  case False
  then have pos: "0 < unat n" by (simp add: unat_gt_0)
  have quot: "4 * unat (n div 4) = unat n" if "n mod 4 = 0"
  proof -
    have "unat n mod 4 = 0" using that unat_mod [of n 4] by simp
    then have "4 * (unat n div 4) = unat n" by (metis add.right_neutral mult_div_mod_eq)
    then show ?thesis by (simp add: unat_div)
  qed
  have endsrc: "unat (src + n) = unat src + unat n" using src by (simp add: unat_word_ariths)
  show ?thesis
  proof (cases "src < dst \<and> dst < src + n")
    case True
    then have lt: "unat src < unat dst" "unat dst < unat src + unat n"
      using endsrc by (simp_all add: word_less_nat_alt)
    have "unat (src - dst) = 4294967296 + unat src - unat dst"
      using lt unat_sub_if' [of src dst] by simp
    then have far: "unat n \<le> unat (src - dst)" using dst lt by simp
    have b: "rep_movsb (unat n) (- 1) (dst + n - 1) (src + n - 1) m = copied m dst src (unat n)"
      using rep_movsb_backward [of "unat n" "dst + n - 1" "src + n - 1" m] far u32_bound [of n]
        backward_copied [OF pos, of dst m src] by simp
    have e: "x - 4 + 3 = x - 1" for x :: u32 by simp
    have l: "rep_movsl (unat (n div 4)) (- 1) (dst + n - 4) (src + n - 4) m = copied m dst src (unat n)"
      if "n mod 4 = 0"
      using rep_movsl_backward [of "unat (n div 4)" "dst + n - 4" "src + n - 4" m, unfolded e] far u32_bound [of n]
        backward_copied [OF pos, of dst m src] quot [OF that] by simp
    show ?thesis using True b l by (simp add: memmove_def Let_def)
  next
    case False
    have "dst = src \<or> unat n \<le> unat (dst - src)"
    proof (cases "unat src < unat dst")
      case True
      then have "unat src + unat n \<le> unat dst" using False endsrc by (simp add: word_less_nat_alt)
      moreover have "unat (dst - src) = unat dst - unat src"
        using True by (simp add: unat_sub word_le_nat_alt)
      ultimately show ?thesis by linarith
    next
      case le: False
      show ?thesis
      proof (cases "unat dst = unat src")
        case False
        then have "unat (dst - src) = 4294967296 + unat dst - unat src"
          using le unat_sub_if' [of dst src] by simp
        then show ?thesis using src by linarith
      qed (simp add: word_unat_eq_iff)
    qed
    then have "rep_movsb (unat n) 1 dst src m = copied m dst src (unat n)"
      "n mod 4 = 0 \<Longrightarrow> rep_movsl (unat (n div 4)) 1 dst src m = copied m dst src (unat n)"
      using rep_movsb_forward [of "unat n" dst src m] u32_bound [of n]
        rep_movsl_forward [of "unat (n div 4)" dst src m] quot by auto
    then show ?thesis unfolding memmove_def if_not_P [OF False] by simp
  qed
qed

section \<open>Filling\<close>

lemma rep_stosb_fills: "n \<le> 4294967296 \<Longrightarrow> rep_stosb n d b m = filled m d b n"
proof (induction n arbitrary: d m)
  case (Suc n)
  have ih: "rep_stosb n (d + 1) b (m(d := b)) = filled (m(d := b)) (d + 1) b n"
    by (rule Suc.IH) (use Suc.prems in simp)
  show ?case
  proof (rule ext)
    fix a
    define k where "k = a - d"
    then have a: "a = d + k" by simp
    have e: "a - (d + 1) = k - 1" by (simp add: a)
    show "rep_stosb (Suc n) d b m a = filled m d b (Suc n) a"
    proof (cases "k = 0")
      case True
      then show ?thesis using Suc.prems unat_m1 by (simp add: ih filled_def a)
    next
      case False
      then show ?thesis
        using unat_pred [OF False] unat_gt_0 [of k] by (auto simp: ih filled_def e a)
    qed
  qed
qed (simp add: filled_def)

lemma store4_same:
  assumes "\<And>i. i < 4 \<Longrightarrow> (ucast (drop_bit (8 * i) w) :: u8) = b"
  shows "store4 d w m = filled m d b 4"
proof (rule ext)
  fix a
  define k where "k = a - d"
  then have a: "a = d + k" by simp
  show "store4 d w m a = filled m d b 4 a"
    using assms [of 0] assms [of 1] assms [of 2] assms [of 3]
    by (auto simp: a store4_def filled_def unat_less_4)
qed

lemma rep_stosl_fills:
  assumes w: "\<And>i. i < 4 \<Longrightarrow> (ucast (drop_bit (8 * i) w) :: u8) = b"
  shows "4 * n \<le> 4294967296 \<Longrightarrow> rep_stosl n d w m = filled m d b (4 * n)"
proof (induction n arbitrary: d m)
  case (Suc n)
  have "rep_stosl n (d + 4) w (filled m d b 4) = filled (filled m d b 4) (d + 4) b (4 * n)"
    by (rule Suc.IH) (use Suc.prems in simp)
  then have run: "rep_stosl (Suc n) d w m = filled (filled m d b 4) (d + 4) b (4 * n)"
    by (simp add: store4_same [OF w])
  show ?case
  proof (rule ext)
    fix a
    define k where "k = a - d"
    then have a: "a = d + k" by simp
    have e: "a - (d + 4) = k - 4" by (simp add: a)
    show "rep_stosl (Suc n) d w m a = filled m d b (4 * Suc n) a"
    proof (cases "unat k < 4")
      case True
      then show ?thesis unfolding run by (simp add: filled_def a)
    next
      case False
      then have "unat (k - 4) = unat k - 4" by (simp add: unat_pred4)
      then show ?thesis unfolding run filled_def e k_def [symmetric] using False by auto
    qed
  qed
qed (simp add: filled_def)

lemma memset_word:
  assumes "i < 4"
  shows "(ucast (drop_bit (8 * i) (let c = c AND 0xFF
    in push_bit 24 c OR push_bit 16 c OR push_bit 8 c OR (c :: u32))) :: u8) = ucast c"
proof -
  have m: "(0xFF :: u32) = mask 8" by (simp add: mask_eq_exp_minus_1)
  have "i = 0 \<or> i = 1 \<or> i = 2 \<or> i = 3" using assms by linarith
  then show ?thesis
    by (elim disjE; intro word_eq_bitI)
       (auto simp: Let_def m bit_ucast_iff bit_drop_bit_eq bit_or_iff bit_and_iff bit_push_bit_iff
          bit_mask_iff)
qed

theorem memset_fills: "memset m v c n = (v, filled m v (ucast c) (unat n))"
proof -
  have q: "4 * unat (n div 4) = unat n" if "n mod 4 = 0"
  proof -
    have "unat n mod 4 = 0" using that unat_mod [of n 4] by simp
    then have "4 * (unat n div 4) = unat n" by (metis add.right_neutral mult_div_mod_eq)
    then show ?thesis by (simp add: unat_div)
  qed
  have "rep_stosl (unat (n div 4)) v (let c = c AND 0xFF
      in push_bit 24 c OR push_bit 16 c OR push_bit 8 c OR c) m = filled m v (ucast c) (unat n)"
    if "n mod 4 = 0"
    using rep_stosl_fills [OF memset_word, of "unat (n div 4)"] q [OF that] u32_bound [of n] by simp
  then show ?thesis
    using rep_stosb_fills [of "unat n"] u32_bound [of n]
    by (auto simp: memset_def filled_def Let_def)
qed

section \<open>Strings as byte lists\<close>

fun cstr :: "bmem \<Rightarrow> u32 \<Rightarrow> u8 list \<Rightarrow> bool" where
  "cstr m a [] \<longleftrightarrow> m a = 0"
| "cstr m a (x # xs) \<longleftrightarrow> m a = x \<and> x \<noteq> 0 \<and> cstr m (a + 1) xs"

lemma cstr_iff:
  "cstr m a xs \<longleftrightarrow> (\<forall>i < length xs. m (a + of_nat i) = xs ! i \<and> xs ! i \<noteq> 0)
     \<and> m (a + of_nat (length xs)) = 0"
  by (induction xs arbitrary: a) (auto simp: All_less_Suc2 algebra_simps)

lemma cstr_unique: "cstr m a xs \<Longrightarrow> cstr m a ys \<Longrightarrow> xs = ys"
proof (induction xs arbitrary: a ys)
  case Nil
  then show ?case by (cases ys) auto
next
  case (Cons x xs)
  then show ?case by (cases ys) auto
qed

lemma strlen_loop_cstr: "cstr m s xs \<Longrightarrow> strlen_loop m s n = Some (n + of_nat (length xs))"
  by (induction xs arbitrary: s n) (auto simp: strlen_loop.simps algebra_simps)

lemma strlen_cstr: "cstr m s xs \<Longrightarrow> strlen m s = Some (of_nat (length xs))"
  by (simp add: strlen_def strlen_loop_cstr)

lemma strnlen_cstr: "cstr m s xs \<Longrightarrow> strnlen m s size' = of_nat (min (unat size') (length xs))"
proof -
  have "cstr m s xs \<Longrightarrow> strnlen_loop m s k n = n + of_nat (min k (length xs))" for k n
  proof (induction xs arbitrary: s k n)
    case Nil
    then show ?case by (cases k) simp_all
  next
    case (Cons x xs)
    then show ?case by (cases k) (auto simp: algebra_simps)
  qed
  then show "cstr m s xs \<Longrightarrow> strnlen m s size' = of_nat (min (unat size') (length xs))"
    by (simp add: strnlen_def)
qed

text \<open>Comparison is the lexicographic order of the byte lists.\<close>

fun bytes_cmp :: "u8 list \<Rightarrow> u8 list \<Rightarrow> i32" where
  "bytes_cmp [] [] = 0"
| "bytes_cmp [] (y # ys) = - b2i y"
| "bytes_cmp (x # xs) [] = b2i x"
| "bytes_cmp (x # xs) (y # ys) = (if x = y then bytes_cmp xs ys else b2i x - b2i y)"

lemma strcmp_cstr: "cstr m p xs \<Longrightarrow> cstr m q ys \<Longrightarrow> strcmp m p q = Some (bytes_cmp xs ys)"
proof (induction xs ys arbitrary: p q rule: bytes_cmp.induct)
  case 1
  then show ?case by (simp add: strcmp.simps b2i_def)
next
  case (2 y ys)
  then show ?case by (simp add: strcmp.simps b2i_def)
next
  case (3 x xs)
  then show ?case by (simp add: strcmp.simps b2i_def)
next
  case (4 x xs y ys)
  then show ?case by (simp add: strcmp.simps [of m p q])
qed

lemma sint_i32_of_int:
  "- 2147483648 \<le> i \<Longrightarrow> i < 2147483648 \<Longrightarrow> sint (word_of_int i :: i32) = i"
  by (simp add: int_word_sint)

lemma sint_b2i_diff: "sint (b2i x - b2i y) = uint x - uint y"
proof -
  have u: "0 \<le> uint w" "uint w < 256" for w :: u8 using unsigned_less [of w] by simp_all
  have "b2i w = word_of_int (uint w)" for w by (simp add: b2i_def)
  then have "b2i x - b2i y = word_of_int (uint x - uint y)" by (simp add: wi_hom_sub)
  then show ?thesis
    using u [of x] u [of y] by (simp only:) (rule sint_i32_of_int, linarith+)
qed

lemma b2i_0 [simp]: "b2i 0 = 0"
  by (simp add: b2i_def)

lemma b2i_eq: "b2i x = b2i y \<longleftrightarrow> x = y"
proof
  assume "b2i x = b2i y"
  then have "uint x = uint y" using sint_b2i_diff [of x y] by simp
  then show "x = y" by (simp add: word_uint_eq_iff)
qed simp

lemma uint_pos: "w \<noteq> 0 \<Longrightarrow> 0 < uint (w :: u8)"
  using unsigned_greater_eq [of w] by (simp add: order_less_le uint_0_iff)

lemma bytes_cmp_sign:
  assumes "0 \<notin> set xs" and "0 \<notin> set ys"
  shows "bytes_cmp xs ys = 0 \<longleftrightarrow> xs = ys" and "sint (bytes_cmp xs ys) < 0 \<longleftrightarrow> ord_class.lexordp xs ys"
proof -
  have "(bytes_cmp xs ys = 0 \<longleftrightarrow> xs = ys) \<and> (sint (bytes_cmp xs ys) < 0 \<longleftrightarrow> ord_class.lexordp xs ys)"
    using assms
  proof (induction xs ys rule: bytes_cmp.induct)
    case (2 y ys)
    then show ?case using sint_b2i_diff [of 0 y] b2i_eq [of y 0] uint_pos [of y] by auto
  next
    case (3 x xs)
    then show ?case using sint_b2i_diff [of x 0] b2i_eq [of x 0] uint_pos [of x] by auto
  next
    case (4 x xs y ys)
    then show ?case using sint_b2i_diff [of x y] b2i_eq [of x y] word_uint_eq_iff [of x y]
      by (auto simp: word_less_def)
  qed simp
  then show "bytes_cmp xs ys = 0 \<longleftrightarrow> xs = ys" and "sint (bytes_cmp xs ys) < 0 \<longleftrightarrow> ord_class.lexordp xs ys"
    by auto
qed

text \<open>
  \<^verbatim>\<open>strlcpy\<close> into a buffer that does not overlap the source string: the string, cut to
  what fits, arrives with its terminator, the length of the copy is returned and nothing outside
  the buffer is written.
\<close>

definition apart :: "u32 \<Rightarrow> nat \<Rightarrow> u32 \<Rightarrow> nat \<Rightarrow> bool" where
  "apart s len d size' \<longleftrightarrow> (\<forall>i \<le> len. size' \<le> unat (s + of_nat i - d))"

lemma cstr_upd: "apart s (length xs) d n \<Longrightarrow> unat (a - d) < n \<Longrightarrow> cstr (m(a := b)) s xs = cstr m s xs"
  by (auto simp: cstr_iff apart_def) (metis less_or_eq_imp_le not_less)+

lemma strlcpy_loop_cstr:
  "cstr m s xs \<Longrightarrow> apart s (length xs) d n \<Longrightarrow> n < 4294967296 \<Longrightarrow>
   strlcpy_loop m d s n = (d + of_nat (min n (length xs)), copied m d s (min n (length xs)))"
proof (induction n arbitrary: xs m d s)
  case (Suc n)
  show ?case
  proof (cases xs)
    case Nil
    then show ?thesis using Suc.prems(1) by simp
  next
    case (Cons x ys)
    let ?m = "m(d := m s)"
    have far: "Suc n \<le> unat (s + of_nat i - d)" if "i \<le> Suc (length ys)" for i
      using Suc.prems(2) that Cons by (simp add: apart_def)
    have next_s: "cstr m (s + 1) ys" using Suc.prems(1) Cons by simp
    have ap: "Suc n \<le> unat (s + 1 + of_nat i - d)" if "i \<le> length ys" for i
      using far [of "Suc i"] that by (simp add: algebra_simps)
    then have "apart (s + 1) (length ys) d (Suc n)" by (simp add: apart_def)
    then have c: "cstr ?m (s + 1) ys" using cstr_upd [of "s + 1" ys d "Suc n" d] next_s by simp
    have e: "s + 1 + x - (d + 1) = s + x - d" for x by simp
    have "apart (s + 1) (length ys) (d + 1) n"
      unfolding apart_def e using far by (meson Suc_leD le_SucI)
    then have "strlcpy_loop ?m (d + 1) (s + 1) n
        = (d + 1 + of_nat (min n (length ys)), copied ?m (d + 1) (s + 1) (min n (length ys)))"
      by (rule Suc.IH [OF c]) (use Suc.prems(3) in simp)
    moreover have "copied ?m (d + 1) (s + 1) (min n (length ys)) = copied m d s (Suc (min n (length ys)))"
    proof (rule copied_Suc)
      show "min n (length ys) < 4294967296" using Suc.prems(3) by simp
      fix k :: u32
      assume "k \<noteq> 0" "unat k \<le> min n (length ys)"
      then have "Suc n \<le> unat (s + k - d)" using far [of "unat k"] by simp
      then show "s + k \<noteq> d" by auto
    qed
    ultimately show ?thesis using Suc.prems(1) Cons by simp
  qed
qed simp

theorem strlcpy_cstr:
  assumes src: "cstr m s xs" and sz: "0 < size'" and ap: "apart s (length xs) d (unat size')"
  defines "k \<equiv> min (unat size' - 1) (length xs)"
  shows "\<exists>r. strlcpy m d s size' = (of_nat k, r) \<and> cstr r d (take k xs)
    \<and> (\<forall>a. unat size' \<le> unat (a - d) \<longrightarrow> r a = m a)"
proof -
  have pos: "0 < unat size'" using sz by (simp add: word_less_nat_alt)
  define r where "r = (copied m d s k)(d + of_nat k := 0)"
  have kb: "k < unat size'" using pos by (simp add: k_def)
  then have ku: "unat (of_nat k :: u32) = k"
    using u32_bound [of size'] by (simp add: unat_of_nat)
  have "apart s (length xs) d (unat size' - 1)" using ap by (auto simp: apart_def)
  moreover have kd: "min (unat size' - Suc 0) (length xs) = k" by (simp add: k_def)
  ultimately have run: "strlcpy m d s size' = (of_nat k, r)"
    using strlcpy_loop_cstr [OF src, of d "unat size' - 1"] sz u32_bound [of size'] kd
    by (simp add: strlcpy_def r_def)
  have lt: "unat (of_nat i :: u32) = i" if "i < k" for i
    using that kb u32_bound [of size'] by (simp add: unat_of_nat)
  have "r (d + of_nat i) = xs ! i \<and> xs ! i \<noteq> 0" if "i < k" for i
  proof -
    have "(of_nat i :: u32) \<noteq> of_nat k" using lt [OF that] ku that by auto
    then have "r (d + of_nat i) = m (s + of_nat i)"
      using lt [OF that] that by (simp add: r_def copied_def)
    moreover have "i < length xs" using that by (simp add: k_def)
    ultimately show ?thesis using src by (simp add: cstr_iff)
  qed
  moreover have "r (d + of_nat k) = 0" by (simp add: r_def)
  ultimately have "cstr r d (take k xs)" by (simp add: cstr_iff k_def)
  moreover have "r a = m a" if "unat size' \<le> unat (a - d)" for a
  proof -
    have "a \<noteq> d + of_nat k" using that kb ku by auto
    then show ?thesis using that kb by (simp add: r_def copied_def)
  qed
  ultimately show ?thesis using run by blast
qed

end
