(* ===== verification/Jos_Printfmt.thy ===== *)
theory Jos_Printfmt
  imports Jos_CString Jos_Mmu Jos_Console
begin

text \<open>
  Formatted output: \<^verbatim>\<open>lib/printfmt.c\<close>, and the three users of it
  (\<^verbatim>\<open>kern/printf.c\<close>, \<^verbatim>\<open>lib/printf.c\<close>, \<^verbatim>\<open>lib/fprintf.c\<close>). The callback
  \<^verbatim>\<open>putch\<close> never influences the formatting, so a call of \<^verbatim>\<open>vprintfmt\<close> is modelled by
  the list of characters it passes to the callback; \<open>None\<close> means that it does not return.
  The format is the list of its bytes up to the terminator, the argument list \<^verbatim>\<open>ap\<close> the
  stack words from the first argument on together with the index of the next one, and strings
  are read from memory. Widths and precisions are integers: their overflow is undefined in C.

  Results: numbers are printed with the digits of their value, padded to the width, and read
  back by \<^verbatim>\<open>strtol\<close>; \<^verbatim>\<open>snprintf\<close> never writes outside its buffer; the buffered
  variants pass on exactly the formatted characters in chunks that fit their buffer.
\<close>

section \<open>Numbers\<close>

definition hexdigit :: "nat \<Rightarrow> i32" where
  "hexdigit d = of_char (''0123456789abcdef'' ! d)"

text \<open>A zero base is a division by zero.\<close>

partial_function (option) printnum :: "u64 \<Rightarrow> u32 \<Rightarrow> int \<Rightarrow> i32 \<Rightarrow> i32 list option" where
  "printnum num base width padc =
     (if base = 0 then None
      else if ucast base \<le> num then
        Option.bind (printnum (num div ucast base) base (width - 1) padc)
          (\<lambda>out. Some (out @ [hexdigit (unat (num mod ucast base))]))
      else Some (replicate (nat (width - 1)) padc @ [hexdigit (unat (num mod ucast base))]))"

section \<open>Escape sequences\<close>

record escape =
  padc :: i32
  width :: int
  precision :: int
  lflag :: int
  altflag :: bool

definition fresh_escape :: escape where
  "fresh_escape = \<lparr>padc = 0x20, width = - 1, precision = - 1, lflag = 0, altflag = False\<rparr>"

type_synonym va_list = "nat \<Rightarrow> u32"

definition va_long :: "va_list \<Rightarrow> nat \<Rightarrow> u64" where
  "va_long ap n = push_bit 32 (ucast (ap (n + 1))) OR ucast (ap n)"

definition getuint :: "va_list \<Rightarrow> nat \<Rightarrow> int \<Rightarrow> u64 \<times> nat" where
  "getuint ap n lf = (if 2 \<le> lf then (va_long ap n, n + 2) else (ucast (ap n), n + 1))"

definition getint :: "va_list \<Rightarrow> nat \<Rightarrow> int \<Rightarrow> u64 \<times> nat" where
  "getint ap n lf = (if 2 \<le> lf then (va_long ap n, n + 2) else (scast (ap n), n + 1))"

definition is_digit :: "u8 \<Rightarrow> bool" where
  "is_digit c \<longleftrightarrow> 0x30 \<le> c \<and> c \<le> 0x39"

fun width_digits :: "int \<Rightarrow> u8 list \<Rightarrow> int \<times> u8 list" where
  "width_digits p [] = (p, [])"
| "width_digits p (c # cs) =
     (if is_digit c then width_digits (p * 10 + (uint c - 0x30)) cs else (p, c # cs))"

definition process_precision :: "int \<Rightarrow> escape \<Rightarrow> escape" where
  "process_precision p e =
     (if width e < 0 then e\<lparr>width := p, precision := - 1\<rparr> else e\<lparr>precision := p\<rparr>)"

lemma length_width_digits: "length (snd (width_digits p cs)) \<le> length cs"
  by (induction cs arbitrary: p) (auto simp: le_SucI)

text \<open>
  The \<^verbatim>\<open>reswitch\<close> loop over flags, width and precision up to the character that selects
  the conversion; 0 is the terminator of the format.
\<close>

function reswitch :: "va_list \<Rightarrow> escape \<Rightarrow> nat \<Rightarrow> u8 list \<Rightarrow> u8 \<times> escape \<times> nat \<times> u8 list" where
  "reswitch ap e n [] = (0, e, n, [])"
| "reswitch ap e n (c # cs) =
     (if c = 0x2D then reswitch ap (e\<lparr>padc := 0x2D\<rparr>) n cs
      else if c = 0x30 then reswitch ap (e\<lparr>padc := 0x30\<rparr>) n cs
      else if is_digit c then
        reswitch ap (process_precision (fst (width_digits 0 (c # cs))) e) n
          (snd (width_digits (uint c - 0x30) cs))
      else if c = 0x2A then reswitch ap (process_precision (sint (ap n)) e) (n + 1) cs
      else if c = 0x2E then reswitch ap (if width e < 0 then e\<lparr>width := 0\<rparr> else e) n cs
      else if c = 0x23 then reswitch ap (e\<lparr>altflag := True\<rparr>) n cs
      else if c = 0x6C then reswitch ap (e\<lparr>lflag := lflag e + 1\<rparr>) n cs
      else (c, e, n, cs))"
  by pat_completeness auto
termination
  by (relation "measure (\<lambda>(ap, e, n, cs). length cs)")
    (auto simp: less_Suc_eq_le length_width_digits)

lemma length_reswitch: "length (snd (snd (snd (reswitch ap e n cs)))) \<le> length cs"
proof (induction ap e n cs rule: reswitch.induct)
  case (2 ap e n c cs)
  then show ?case
    using length_width_digits [of "uint c - 0x30" cs]
    by (auto simp: le_SucI simp del: width_digits.simps intro: le_trans)
qed simp

section \<open>Conversions\<close>

definition error_string :: "nat \<Rightarrow> string option" where
  "error_string err =
     [None, Some ''unspecified error'', Some ''bad environment'', Some ''invalid parameter'',
      Some ''out of memory'', Some ''out of environments'', Some ''segmentation fault'',
      Some ''env is not recving'', Some ''unexpected end of file'', Some ''no free space on disk'',
      Some ''too many files are open'', Some ''file or block not found'', Some ''invalid path'',
      Some ''file already exists'', Some ''file is not a valid executable'',
      Some ''operation not supported''] ! err"

definition chars :: "string \<Rightarrow> i32 list" where
  "chars s = map of_char s"

text \<open>
  The least integer is its own negation, and indexes the table before its start; the model has
  no value for what is read there.
\<close>

definition print_error :: "i32 \<Rightarrow> i32 list option" where
  "print_error e =
     (let err = (if sint e < 0 then - e else e) in
      if sint err < 0 then None
      else case (if sint MAXERROR \<le> sint err then None else error_string (unat err)) of
        None \<Rightarrow> (case printnum (scast err) 10 (- 1) 0x20 of
            None \<Rightarrow> None | Some out \<Rightarrow> Some (chars ''error '' @ out))
      | Some s \<Rightarrow> Some (chars s))"

definition shown :: "bool \<Rightarrow> u8 \<Rightarrow> i32" where
  "shown alt c = (let ch = scast c in if alt \<and> (sint ch < 0x20 \<or> 0x7E < sint ch) then 0x3F else ch)"

text \<open>The middle loop of \<^verbatim>\<open>%s\<close>: the characters and the remaining width.\<close>

partial_function (option) string_chars ::
    "bmem \<Rightarrow> u32 \<Rightarrow> int \<Rightarrow> int \<Rightarrow> bool \<Rightarrow> (i32 list \<times> int) option" where
  "string_chars m p prec w alt =
     (if m p \<noteq> 0 \<and> (prec < 0 \<or> 0 \<le> prec - 1) then
        Option.bind (string_chars m (p + 1) (if prec < 0 then prec else prec - 1) (w - 1) alt)
          (\<lambda>(out, w'). Some (shown alt (m p) # out, w'))
      else Some ([], w))"

definition null_string :: bmem where
  "null_string a = (if unat a < 6 then of_char (''(null)'' ! unat a) else 0)"

definition print_string :: "bmem \<Rightarrow> u32 \<Rightarrow> escape \<Rightarrow> i32 list option" where
  "print_string m0 p e =
     (let m = (if p = 0 then null_string else m0);
          w = (if 0 < width e \<and> padc e \<noteq> 0x2D
               then width e - sint (strnlen m p (word_of_int (precision e))) else 0);
          w1 = (if 0 < width e \<and> padc e \<noteq> 0x2D then min w 0 else width e)
      in case string_chars m p (precision e) w1 (altflag e) of
           None \<Rightarrow> None
         | Some (out, w2) \<Rightarrow> Some (replicate (nat w) (padc e) @ out @ replicate (nat w2) 0x20))"

definition print_signed :: "u64 \<Rightarrow> escape \<Rightarrow> i32 list option" where
  "print_signed num e =
     (if sint num < 0 then
        (case printnum (- num) 10 (width e) (padc e) of
           None \<Rightarrow> None | Some out \<Rightarrow> Some (0x2D # out))
      else printnum num 10 (width e) (padc e))"

text \<open>
  One conversion: the characters, the next argument and the rest of the format. \<open>cs0\<close> is the
  format right after the \<^verbatim>\<open>%\<close>, where an unknown conversion goes back to.
\<close>

definition convert :: "bmem \<Rightarrow> va_list \<Rightarrow> u8 \<Rightarrow> escape \<Rightarrow> nat \<Rightarrow> u8 list \<Rightarrow> u8 list
    \<Rightarrow> (i32 list option \<times> nat \<times> u8 list)" where
  "convert m ap c e n cs cs0 =
     (if c = of_char CHR ''c'' then (Some [ap n], n + 1, cs)
      else if c = of_char CHR ''e'' then (print_error (ap n), n + 1, cs)
      else if c = of_char CHR ''s'' then (print_string m (ap n) e, n + 1, cs)
      else if c = of_char CHR ''d'' then
        (case getint ap n (lflag e) of (num, n') \<Rightarrow> (print_signed num e, n', cs))
      else if c = of_char CHR ''u'' then
        (case getuint ap n (lflag e) of (num, n') \<Rightarrow> (printnum num 10 (width e) (padc e), n', cs))
      else if c = of_char CHR ''o'' then
        (case getuint ap n (lflag e) of (num, n') \<Rightarrow> (printnum num 8 (width e) (padc e), n', cs))
      else if c = of_char CHR ''p'' then
        (case printnum (ucast (ap n)) 16 (width e) (padc e) of
           None \<Rightarrow> (None, n + 1, cs)
         | Some out \<Rightarrow> (Some (chars ''0x'' @ out), n + 1, cs))
      else if c = of_char CHR ''x'' then
        (case getuint ap n (lflag e) of (num, n') \<Rightarrow> (printnum num 16 (width e) (padc e), n', cs))
      else if c = of_char CHR ''%'' then (Some [ucast c], n, cs)
      else (Some (chars ''%''), n, cs0))"

lemma length_convert:
  "length cs \<le> length cs0 \<Longrightarrow> length (snd (snd (convert m ap c e n cs cs0))) \<le> length cs0"
  by (simp add: convert_def split: prod.split option.split)

function vprintfmt :: "bmem \<Rightarrow> va_list \<Rightarrow> nat \<Rightarrow> u8 list \<Rightarrow> i32 list option" where
  "vprintfmt m ap n [] = Some []"
| "vprintfmt m ap n (c # cs) =
     (if c = 0 then Some []
      else if c \<noteq> of_char CHR ''%'' then map_option (Cons (ucast c)) (vprintfmt m ap n cs)
      else (case reswitch ap fresh_escape n cs of (ch, e, n1, cs1) \<Rightarrow>
        case convert m ap ch e n1 cs1 cs of
          (None, _) \<Rightarrow> None
        | (Some out, n2, cs2) \<Rightarrow> map_option (append out) (vprintfmt m ap n2 cs2)))"
  by pat_completeness auto
termination
proof (relation "measure (\<lambda>(m, ap, n, cs). length cs)")
  fix m :: bmem and ap n c and cs :: "u8 list" and ch y e z n1 cs1 u v out n2 cs2
  assume "(ch, y) = reswitch ap fresh_escape n cs" "(e, z) = y" "(n1, cs1) = z"
    "(u, v) = convert m ap ch e n1 cs1 cs" "u = Some out" "(n2, cs2) = v"
  then have "length cs1 \<le> length cs" "cs2 = snd (snd (convert m ap ch e n1 cs1 cs))"
    using length_reswitch [of ap fresh_escape n cs] by (metis snd_conv)+
  then have "length cs2 \<le> length cs" using length_convert by metis
  then show "((m, ap, n2, cs2), m, ap, n, c # cs) \<in> measure (\<lambda>(m, ap, n, cs). length cs)" by simp
qed auto

section \<open>Digits\<close>

function digits :: "nat \<Rightarrow> nat \<Rightarrow> nat list" where
  "digits b n = (if n < b \<or> b < 2 then [n mod b] else digits b (n div b) @ [n mod b])"
  by pat_completeness auto
termination
  by (relation "measure snd") (auto intro!: div_less_dividend)

declare digits.simps [simp del]

definition digits_value :: "nat \<Rightarrow> nat list \<Rightarrow> nat" where
  "digits_value b ds = foldl (\<lambda>v d. v * b + d) 0 ds"

lemma digits_value_digits: "2 \<le> b \<Longrightarrow> digits_value b (digits b n) = n"
proof (induction b n rule: digits.induct)
  case (1 b n)
  then show ?case
    by (cases "n < b") (auto simp: digits.simps [of b n] digits_value_def)
qed

lemma digits_less: "2 \<le> b \<Longrightarrow> d \<in> set (digits b n) \<Longrightarrow> d < b"
proof (induction b n rule: digits.induct)
  case (1 b n)
  then show ?case by (cases "n < b") (auto simp: digits.simps [of b n])
qed

lemma printnum_digits:
  assumes b: "2 \<le> unat base" "unat base \<le> 16"
  shows "printnum num base w pad
    = Some (replicate (nat (w - int (length (digits (unat base) (unat num))))) pad
        @ map hexdigit (digits (unat base) (unat num)))"
proof (induction "unat num" arbitrary: num w rule: less_induct)
  case less
  have u: "unat (ucast base :: u64) = unat base"
    using u32_bound [of base] by (simp add: unsigned_ucast_eq take_bit_nat_eq_self_iff)
  have b0: "base \<noteq> 0" using b by auto
  show ?case
  proof (cases "ucast base \<le> num")
    case False
    then have "unat num < unat base" using u by (simp add: word_le_nat_alt)
    then show ?thesis
      using b b0 False u
      by (subst printnum.simps) (simp add: digits.simps [of "unat base" "unat num"] unat_mod)
  next
    case True
    then have le: "unat base \<le> unat num" using u by (simp add: word_le_nat_alt)
    have q: "unat (num div ucast base) = unat num div unat base" using u by (simp add: unat_div)
    have "unat num div unat base < unat num" using b le by (intro div_less_dividend) auto
    with less [of "num div ucast base" "w - 1"] q
    have "printnum (num div ucast base) base (w - 1) pad
      = Some (replicate (nat (w - 1 - int (length (digits (unat base) (unat num div unat base))))) pad
          @ map hexdigit (digits (unat base) (unat num div unat base)))" by simp
    moreover have "digits (unat base) (unat num)
      = digits (unat base) (unat num div unat base) @ [unat num mod unat base]"
      using b le by (subst digits.simps) simp
    ultimately show ?thesis
      using b0 True u by (subst printnum.simps) (simp add: unat_mod algebra_simps)
  qed
qed

section \<open>Into a buffer\<close>

record sprintbuf =
  sb_buf :: u32
  sb_ebuf :: u32
  sb_cnt :: i32

definition sprintputch :: "i32 \<Rightarrow> sprintbuf \<times> bmem \<Rightarrow> sprintbuf \<times> bmem" where
  "sprintputch ch = (\<lambda>(b, m).
     let b = b\<lparr>sb_cnt := sb_cnt b + 1\<rparr> in
     if sb_buf b < sb_ebuf b then (b\<lparr>sb_buf := sb_buf b + 1\<rparr>, m(sb_buf b := ucast ch)) else (b, m))"

text \<open>
  The whole output is computed from the memory before the call, so this is the code for a format and
  for strings that do not overlap the buffer.
\<close>

definition vsnprintf :: "bmem \<Rightarrow> u32 \<Rightarrow> i32 \<Rightarrow> u8 list \<Rightarrow> va_list \<Rightarrow> nat \<Rightarrow> (i32 \<times> bmem) option" where
  "vsnprintf m buf n fmt ap k =
     (if buf = 0 \<or> sint n < 1 then Some (- E_INVAL, m)
      else case vprintfmt m ap k fmt of
        None \<Rightarrow> None
      | Some out \<Rightarrow>
          (case fold sprintputch out (\<lparr>sb_buf = buf, sb_ebuf = buf + n - 1, sb_cnt = 0\<rparr>, m) of
             (b, m') \<Rightarrow> Some (sb_cnt b, m'(sb_buf b := 0))))"

lemma sprintputch_fold:
  assumes "j \<le> lim" and "unat buf + lim < 4294967296"
  shows "fold sprintputch out (\<lparr>sb_buf = buf + of_nat j, sb_ebuf = buf + of_nat lim, sb_cnt = c\<rparr>, m)
    = (let k = min (length out) (lim - j) in
       (\<lparr>sb_buf = buf + of_nat (j + k), sb_ebuf = buf + of_nat lim, sb_cnt = c + of_nat (length out)\<rparr>,
        \<lambda>a. if j \<le> unat (a - buf) \<and> unat (a - buf) < j + k
            then ucast (out ! (unat (a - buf) - j)) else m a))"
  using assms(1)
proof (induction out arbitrary: j c m)
  case Nil
  then show ?case by (auto simp: Let_def fun_eq_iff)
next
  case (Cons x out)
  have u: "unat (buf + of_nat i) = unat buf + i" if "i \<le> lim" for i
    using that assms(2) by (simp add: unat_word_ariths unat_of_nat)
  have o: "unat (of_nat i :: u32) = i" if "i \<le> lim" for i
    using that assms(2) by (simp add: unat_of_nat)
  show ?case
  proof (cases "j < lim")
    case True
    then have lt: "buf + of_nat j < buf + of_nat lim" by (simp add: word_less_nat_alt u)
    define m1 where "m1 = m(buf + of_nat j := ucast x)"
    define k where "k = min (length out) (lim - Suc j)"
    have k: "min (length (x # out)) (lim - j) = Suc k" using True by (auto simp: k_def)
    have "fold sprintputch (x # out) (\<lparr>sb_buf = buf + of_nat j, sb_ebuf = buf + of_nat lim, sb_cnt = c\<rparr>, m)
      = fold sprintputch out (\<lparr>sb_buf = buf + of_nat (Suc j), sb_ebuf = buf + of_nat lim, sb_cnt = c + 1\<rparr>, m1)"
      using lt by (simp add: sprintputch_def Let_def m1_def algebra_simps)
    also have "\<dots> = (\<lparr>sb_buf = buf + of_nat (Suc j + k), sb_ebuf = buf + of_nat lim,
        sb_cnt = c + 1 + of_nat (length out)\<rparr>,
        \<lambda>a. if Suc j \<le> unat (a - buf) \<and> unat (a - buf) < Suc j + k
            then ucast (out ! (unat (a - buf) - Suc j)) else m1 a)"
      using Cons.IH [of "Suc j" "c + 1" m1] True by (simp add: Let_def k_def)
    also have "(\<lambda>a. if Suc j \<le> unat (a - buf) \<and> unat (a - buf) < Suc j + k
            then ucast (out ! (unat (a - buf) - Suc j)) else m1 a)
      = (\<lambda>a. if j \<le> unat (a - buf) \<and> unat (a - buf) < j + Suc k
            then ucast ((x # out) ! (unat (a - buf) - j)) else m a)"
    proof (rule ext)
      fix a
      show "(if Suc j \<le> unat (a - buf) \<and> unat (a - buf) < Suc j + k
            then ucast (out ! (unat (a - buf) - Suc j)) else m1 a)
        = (if j \<le> unat (a - buf) \<and> unat (a - buf) < j + Suc k
            then ucast ((x # out) ! (unat (a - buf) - j)) else m a)"
      proof (cases "unat (a - buf) = j")
        case eq: True
        have "a - buf = of_nat j" by (simp flip: eq)
        then have "a = buf + of_nat j" by (simp add: algebra_simps)
        then show ?thesis using eq by (simp add: m1_def)
      next
        case False
        then have "a \<noteq> buf + of_nat j" using o [of j] True by auto
        then show ?thesis using False
          by (auto simp: m1_def nth_Cons' Suc_le_eq le_less)
      qed
    qed
    finally show ?thesis unfolding k Let_def by (simp add: algebra_simps)
  next
    case False
    then have "j = lim" using Cons.prems by simp
    have e: "(lim \<le> x \<and> x < lim) = False" for x :: nat by auto
    show ?thesis
      using Cons.IH [of j "c + 1" m] \<open>j = lim\<close> by (simp add: e sprintputch_def Let_def algebra_simps)
  qed
qed

theorem vsnprintf_bounded:
  assumes out: "vprintfmt m ap k fmt = Some out" and buf: "buf \<noteq> 0" and n: "0 < sint n"
    and fits: "unat buf + unat n \<le> 4294967296"
  shows "\<exists>m'. vsnprintf m buf n fmt ap k = Some (of_nat (length out), m')
    \<and> (\<forall>a. unat n \<le> unat (a - buf) \<longrightarrow> m' a = m a)
    \<and> (\<forall>i < min (length out) (unat n - 1). m' (buf + of_nat i) = ucast (out ! i))
    \<and> m' (buf + of_nat (min (length out) (unat n - 1))) = 0"
proof -
  have pos: "0 < unat n" using n by (cases "n = 0") (auto simp: unat_gt_0)
  define lim where "lim = unat n - 1"
  define j where "j = min (length out) lim"
  have n1: "n = 1 + of_nat lim"
    using pos by (simp add: lim_def)
  have e: "buf + n - 1 = buf + of_nat lim" by (simp add: n1)
  have lim: "unat buf + lim < 4294967296" using fits pos by (simp add: lim_def)
  define r where "r = (\<lambda>a. if unat (a - buf) < j then ucast (out ! unat (a - buf)) else m a)
    (buf + of_nat j := 0)"
  have "fold sprintputch out (\<lparr>sb_buf = buf, sb_ebuf = buf + n - 1, sb_cnt = 0\<rparr>, m)
    = (\<lparr>sb_buf = buf + of_nat j, sb_ebuf = buf + n - 1, sb_cnt = of_nat (length out)\<rparr>,
       \<lambda>a. if unat (a - buf) < j then ucast (out ! unat (a - buf)) else m a)"
    using sprintputch_fold [of 0 lim buf out 0 m] lim
    by (simp add: e Let_def j_def cong: if_cong)
  then have "vsnprintf m buf n fmt ap k = Some (of_nat (length out), r)"
    using out buf n by (simp add: vsnprintf_def r_def)
  moreover have o: "unat (of_nat i :: u32) = i" if "i \<le> lim" for i
    using that lim by (simp add: unat_of_nat)
  have jl: "j \<le> lim" by (simp add: j_def)
  have "r a = m a" if "unat n \<le> unat (a - buf)" for a
  proof -
    have "a \<noteq> buf + of_nat j" using that o [OF jl] jl pos by (auto simp: lim_def)
    then show ?thesis using that jl by (auto simp: r_def lim_def)
  qed
  moreover have "r (buf + of_nat i) = ucast (out ! i)" if "i < j" for i
  proof -
    have "(of_nat i :: u32) \<noteq> of_nat j" using o [of i] o [OF jl] that jl by auto
    then show ?thesis using that o [of i] jl by (simp add: r_def)
  qed
  moreover have "r (buf + of_nat j) = 0" by (simp add: r_def)
  ultimately show ?thesis unfolding lim_def [symmetric] j_def [symmetric] by blast
qed

section \<open>Buffered console output\<close>

text \<open>
  The kernel's \<^verbatim>\<open>putch\<close> increments its pointer instead of the count behind it, so the
  result is always 0.
\<close>

definition cprintf :: "bmem \<Rightarrow> u8 list \<Rightarrow> va_list \<Rightarrow> console \<Rightarrow> (i32 \<times> console) option" where
  "cprintf m fmt ap c = map_option (\<lambda>out. (0, fold cputchar out c)) (vprintfmt m ap 0 fmt)"

text \<open>The user library: the buffered bytes, the count and the system calls made so far.\<close>

record printbuf =
  pb_buf :: "u8 list"
  pb_cnt :: i32
  pb_sent :: "u8 list list"

definition user_putch :: "i32 \<Rightarrow> printbuf \<Rightarrow> printbuf" where
  "user_putch ch b =
     (let b = b\<lparr>pb_buf := pb_buf b @ [ucast ch]\<rparr>;
          b = (if length (pb_buf b) = 256 - 1
               then b\<lparr>pb_buf := [], pb_sent := pb_sent b @ [pb_buf b]\<rparr> else b)
      in b\<lparr>pb_cnt := pb_cnt b + 1\<rparr>)"

definition user_cprintf :: "bmem \<Rightarrow> u8 list \<Rightarrow> va_list \<Rightarrow> (i32 \<times> u8 list list) option" where
  "user_cprintf m fmt ap =
     (case vprintfmt m ap 0 fmt of
        None \<Rightarrow> None
      | Some out \<Rightarrow>
          (let b = fold user_putch out \<lparr>pb_buf = [], pb_cnt = 0, pb_sent = []\<rparr>
           in Some (pb_cnt b, pb_sent b @ [pb_buf b])))"

lemma user_putch_fold:
  assumes "length (pb_buf b) < 255" and "\<forall>x \<in> set (pb_sent b). length x \<le> 255"
  shows "let r = fold user_putch out b in
    concat (pb_sent r) @ pb_buf r = concat (pb_sent b) @ pb_buf b @ map ucast out
    \<and> length (pb_buf r) < 255 \<and> (\<forall>x \<in> set (pb_sent r). length x \<le> 255)
    \<and> pb_cnt r = pb_cnt b + of_nat (length out)"
  using assms
proof (induction out arbitrary: b)
  case (Cons x out)
  let ?b = "user_putch x b"
  have "length (pb_buf ?b) < 255" "\<forall>x \<in> set (pb_sent ?b). length x \<le> 255"
    using Cons.prems by (auto simp: user_putch_def Let_def)
  from Cons.IH [OF this] show ?case
    by (auto simp: Let_def user_putch_def split: if_splits)
qed simp

theorem user_cprintf_sends:
  "case user_cprintf m fmt ap of
     None \<Rightarrow> vprintfmt m ap 0 fmt = None
   | Some (cnt, sent) \<Rightarrow> (\<exists>out. vprintfmt m ap 0 fmt = Some out \<and> concat sent = map ucast out
       \<and> cnt = of_nat (length out) \<and> (\<forall>x \<in> set sent. length x \<le> 255))"
proof (cases "vprintfmt m ap 0 fmt")
  case (Some out)
  then show ?thesis
    using user_putch_fold [of "\<lparr>pb_buf = [], pb_cnt = 0, pb_sent = []\<rparr>" out]
    by (auto simp: user_cprintf_def Let_def)
qed (simp add: user_cprintf_def)

section \<open>Reading numbers back\<close>

definition digit_byte :: "nat \<Rightarrow> u8" where
  "digit_byte d = ucast (hexdigit d)"

lemma digit_of_byte: "d < 16 \<Longrightarrow> digit_of (digit_byte d) = Some (int d)"
proof -
  assume "d < 16"
  then have "d \<in> {0 ..< 16}" by simp
  moreover have "\<forall>d \<in> {0 ..< 16}. digit_of (digit_byte d) = Some (int d)" by code_simp
  ultimately show ?thesis by blast
qed

lemma digit_byte_plain:
  assumes "d < 16"
  shows "digit_byte d \<notin> {0, 0x20, 0x09, 0x2B, 0x2D, 0x78}"
proof -
  have "d \<in> {0 ..< 16}" using assms by simp
  moreover have "\<forall>d \<in> {0 ..< 16}. digit_byte d \<notin> {0, 0x20, 0x09, 0x2B, 0x2D, 0x78}" by code_simp
  ultimately show ?thesis by blast
qed

lemma strtol_digits_eval:
  assumes "cstr m s (map digit_byte ds)" and "\<And>d. d \<in> set ds \<Longrightarrow> d < b" and "b \<le> 16"
  shows "strtol_digits m (int b) s v
    = Some (foldl (\<lambda>v d. v * of_nat b + of_nat d) v ds, s + of_nat (length ds))"
  using assms(1,2)
proof (induction ds arbitrary: s v)
  case Nil
  have "digit_of 0 = None" by (simp add: digit_of_def)
  moreover have "m s = 0" using Nil by simp
  ultimately show ?case by (subst strtol_digits.simps) simp
next
  case (Cons d ds)
  then have "d < b" "m s = digit_byte d" by auto
  then have "strtol_digits m (int b) s v
      = strtol_digits m (int b) (s + 1) (v * of_nat b + of_nat d)"
    using assms(3) digit_of_byte [of d] by (subst strtol_digits.simps) simp
  then show ?case using Cons by (simp add: algebra_simps)
qed

lemma foldl_of_nat:
  "foldl (\<lambda>v d. v * of_nat b + of_nat d) (of_nat v) ds = (of_nat (foldl (\<lambda>v d. v * b + d) v ds) :: i32)"
proof (induction ds arbitrary: v)
  case (Cons d ds)
  then show ?case using Cons [of "v * b + d"] by simp
qed simp

lemma digits_ne: "digits b n \<noteq> []"
  by (subst digits.simps) simp

lemma strtol_printed:
  assumes s: "cstr m s ((if neg then [0x2D] else []) @ map digit_byte (digits b n))"
    and b: "b = 10 \<or> b = 16"
  shows "strtol m s (int b) = Some (if neg then - of_nat n else of_nat n,
    s + of_nat ((if neg then 1 else 0) + length (digits b n)))"
proof -
  define s' where "s' = (if neg then s + 1 else s)"
  have d: "d \<in> set (digits b n) \<Longrightarrow> d < b" for d using digits_less [of b] b by auto
  obtain d0 ds where ds: "digits b n = d0 # ds" using digits_ne by (cases "digits b n") auto
  have d0: "d0 < 16" using d [of d0] ds b by auto
  have c': "cstr m s' (map digit_byte (digits b n))" using s by (auto simp: s'_def)
  then have m0: "m s' = digit_byte d0" "cstr m (s' + 1) (map digit_byte ds)" using ds by simp_all
  have m1: "m (s' + 1) \<noteq> 0x78"
  proof (cases ds)
    case Nil
    then show ?thesis using m0 by simp
  next
    case (Cons d1 ds')
    then have "d1 < 16" using d [of d1] ds b by auto
    then show ?thesis using m0 Cons digit_byte_plain [of d1] by simp
  qed
  have "m s = (if neg then 0x2D else digit_byte d0)" using s m0 by (auto simp: s'_def)
  then have blanks: "skip_blanks m s = Some s"
    using digit_byte_plain [OF d0] by (subst skip_blanks.simps) auto
  have sign: "strtol_sign m s = (s', neg)"
    using s m0 digit_byte_plain [OF d0] by (auto simp: strtol_sign_def s'_def)
  have base: "strtol_base m s' (int b) = (s', int b)"
    using m1 b by (auto simp: strtol_base_def)
  have "strtol_digits m (int b) s' 0
      = Some (of_nat (digits_value b (digits b n)), s' + of_nat (length (digits b n)))"
    using strtol_digits_eval [OF c' d, of 0] b foldl_of_nat [of b 0 "digits b n"]
    by (auto simp: digits_value_def)
  then have "strtol_digits m (int b) s' 0 = Some (of_nat n, s' + of_nat (length (digits b n)))"
    using digits_value_digits [of b n] b by auto
  then show ?thesis
    using blanks sign base by (auto simp: strtol_def s'_def algebra_simps)
qed

lemma map_ucast_digits: "map (ucast \<circ> hexdigit) ds = map digit_byte ds"
  by (simp add: digit_byte_def)

lemma reswitch_d: "reswitch ap e n [0x64] = (0x64, e, n, [])"
  by (simp add: is_digit_def)

lemma vprintfmt_d: "vprintfmt m ap 0 [0x25, 0x64] = print_signed (scast (ap 0)) fresh_escape"
proof -
  have l: "lflag fresh_escape = 0" by (simp add: fresh_escape_def)
  have c: "convert m ap 0x64 fresh_escape 0 [] [0x64] = (print_signed (scast (ap 0)) fresh_escape, 1, [])"
    unfolding convert_def getint_def l by simp
  have "(0x25 :: u8) = of_char CHR ''%''" "(0x25 :: u8) \<noteq> 0" by simp_all
  then show ?thesis
    unfolding vprintfmt.simps(2) reswitch_d prod.case c
    by (cases "print_signed (scast (ap 0)) fresh_escape") simp_all
qed

lemma unat_int_u64: "0 \<le> k \<Longrightarrow> k < 18446744073709551616 \<Longrightarrow> unat (word_of_int k :: u64) = nat k"
  by (simp add: unat_eq_nat_uint uint_word_of_int)

theorem decimal_roundtrip:
  assumes out: "vprintfmt m ap 0 [0x25, 0x64] = Some out" and s: "cstr m' s (map ucast out)"
  shows "strtol m' s 10 = Some (ap 0, s + of_nat (length out))"
proof -
  define i where "i = sint (ap 0)"
  have r: "- 2147483648 \<le> i" "i < 2147483648"
    using sint_greater_eq [of "ap 0"] sint_less [of "ap 0"] by (simp_all add: i_def)
  have w: "ap 0 = word_of_int i" by (simp add: i_def)
  define v where "v = (word_of_int i :: u64)"
  have "scast (ap 0) = v" unfolding v_def i_def by (rule scast_eq)
  then have run: "print_signed v fresh_escape = Some out" using out vprintfmt_d [of m ap] by simp
  have sv: "sint v = i" using r by (simp add: v_def int_word_sint)
  show ?thesis
  proof (cases "i < 0")
    case True
    define n where "n = nat (- i)"
    have nv: "- v = word_of_int (- i)" by (simp add: v_def)
    have "unat (- v) = n" unfolding nv n_def using True r by (intro unat_int_u64) auto
    then have o: "out = 0x2D # map hexdigit (digits 10 n)"
      using run True sv printnum_digits [of 10 "- v" "- 1" "0x20"]
      by (simp add: print_signed_def fresh_escape_def)
    have "strtol m' s (int 10) = Some (- of_nat n, s + of_nat (1 + length (digits 10 n)))"
      using strtol_printed [of m' s True 10 n] s by (simp add: o map_ucast_digits)
    moreover have "- (of_nat n :: u32) = ap 0" using True by (simp add: n_def w of_nat_nat)
    ultimately show ?thesis by (simp add: o)
  next
    case False
    define n where "n = nat i"
    have "unat v = n" using False r by (simp add: n_def v_def unat_int_u64)
    then have o: "out = map hexdigit (digits 10 n)"
      using run False sv printnum_digits [of 10 v "- 1" "0x20"]
      by (simp add: print_signed_def fresh_escape_def)
    have "strtol m' s (int 10) = Some (of_nat n, s + of_nat (length (digits 10 n)))"
      using strtol_printed [of m' s False 10 n] s by (simp add: o map_ucast_digits)
    moreover have "(of_nat n :: u32) = ap 0" using False by (simp add: n_def w of_nat_nat)
    ultimately show ?thesis by (simp add: o)
  qed
qed

end
