(* ===== verification/Jos_Bc.thy ===== *)
theory Jos_Bc
  imports Jos_CString Jos_Mmu
begin

text \<open>
  The block cache of the file server (\<^verbatim>\<open>fs/bc.c\<close>), the disk driver below it
  (\<^verbatim>\<open>fs/ide.c\<close>) and the free block bitmap that the page fault handler consults
  (\<^verbatim>\<open>block_is_free\<close> of \<^verbatim>\<open>fs/fs.c\<close>).

  The state holds the bytes and page table entries of the server's disk map region, the sectors
  of the disk, the two global pointers, and two oracles that never change: the sectors on which
  the drive reports an error and the addresses at which the kernel grants a page. Every access
  to the region goes through \<open>touch\<close>, which runs the fault handler if the page is not mapped;
  every store sets the dirty bit, as the processor does.

  Results: \<open>fsmem\<close> is the file system image, cached pages in front of the disk. Accesses to
  block_used blocks read and write exactly this image, faulting blocks in and flushing them out never
  changes it, and a flushed block is on the disk.
\<close>

section \<open>State\<close>

record fsys =
  cache :: bmem
  uvpt :: "nat \<Rightarrow> u32"
  disk :: "nat \<Rightarrow> nat \<Rightarrow> u8"
  bad_sector :: "nat \<Rightarrow> bool"
  grants :: "u32 \<Rightarrow> bool"
  super :: u32
  bitmap :: u32

text \<open>
  A \<^verbatim>\<open>panic\<close> or a failed assertion ends the server, and so does a page fault when the
  nested handlers have filled the exception stack. \<open>FsUndefined\<close> marks the use of a pointer
  that was never set.
\<close>

datatype fs_exit = FsPanic | FsOverflow | FsUndefined

type_synonym 'a fsprog = "(fsys, fs_exit, 'a) prog"

definition DISKMAP :: u32 where [kconst]: "DISKMAP = 0x10000000"
definition DISKSIZE :: u32 where [kconst]: "DISKSIZE = 0xC0000000"
definition BLKSIZE :: u32 where [kconst]: "BLKSIZE = 4096"
definition BLKBITSIZE :: u32 where [kconst]: "BLKBITSIZE = 32768"
definition SECTSIZE :: nat where [kconst]: "SECTSIZE = 512"
definition BLKSECTS :: u32 where [kconst]: "BLKSECTS = 8"
definition FS_MAGIC :: u32 where [kconst]: "FS_MAGIC = 0x4A0530AE"

text \<open>The fields of \<^verbatim>\<open>struct Super\<close> as offsets.\<close>

definition s_nblocks :: u32 where [kconst]: "s_nblocks = 4"
definition s_root :: u32 where [kconst]: "s_root = 8"

definition assertM :: "bool \<Rightarrow> ('s, fs_exit, unit) prog" where
  "assertM b = (if b then ret () else stop FsPanic)"

lemma assertM_apply [simp]: "assertM b s = (if b then (Ret (), s) else (Stop FsPanic, s))"
  by (simp add: assertM_def)

definition va_is_mapped :: "u32 \<Rightarrow> fsys \<Rightarrow> bool" where
  "va_is_mapped va s \<longleftrightarrow> uvpt s (PGNUM va) AND PTE_P \<noteq> 0"

definition va_is_dirty :: "u32 \<Rightarrow> fsys \<Rightarrow> bool" where
  "va_is_dirty va s \<longleftrightarrow> uvpt s (PGNUM va) AND PTE_D \<noteq> 0"

definition set_pte :: "u32 \<Rightarrow> u32 \<Rightarrow> fsys \<Rightarrow> fsys" where
  "set_pte va pte s = s\<lparr>uvpt := (uvpt s)(PGNUM va := pte)\<rparr>"

text \<open>The effect of a store on mapped memory.\<close>

definition put_cache :: "u32 \<Rightarrow> bmem \<Rightarrow> fsys \<Rightarrow> fsys" where
  "put_cache va m s = set_pte va (uvpt s (PGNUM va) OR PTE_D) (s\<lparr>cache := m\<rparr>)"

section \<open>System calls\<close>

text \<open>
  The calls on the server's own address space: a new page is zeroed and clean, mapping a page
  onto itself with \<^verbatim>\<open>PTE_SYSCALL\<close> clears the dirty bit.
\<close>

definition fs_page_alloc :: "u32 \<Rightarrow> i32 fsprog" where
  "fs_page_alloc va =
     bindM (getsM (\<lambda>s. grants s va)) (\<lambda>ok.
       if ok then
         thenM (modifyM (\<lambda>s. set_pte va (PTE_SYSCALL OR PTE_P)
           (s\<lparr>cache := filled (cache s) va 0 4096\<rparr>))) (ret 0)
       else ret (- E_NO_MEM))"

definition fs_page_map_self :: "u32 \<Rightarrow> i32 fsprog" where
  "fs_page_map_self va =
     bindM (getsM (va_is_mapped va)) (\<lambda>m.
       if m then thenM (modifyM (set_pte va (PTE_SYSCALL OR PTE_P))) (ret 0) else ret (- E_INVAL))"

definition fs_page_unmap :: "u32 \<Rightarrow> i32 fsprog" where
  "fs_page_unmap va = thenM (modifyM (set_pte va 0)) (ret 0)"

section \<open>The disk driver\<close>

text \<open>
  A transfer moves consecutive sectors; the drive takes a 28-bit sector number. On an error the
  sectors before it have been moved.
\<close>

fun read_sectors :: "nat \<Rightarrow> nat \<Rightarrow> u32 \<Rightarrow> i32 fsprog" where
  "read_sectors 0 sec dst = ret 0"
| "read_sectors (Suc n) sec dst =
     bindM (getsM (\<lambda>s. bad_sector s sec)) (\<lambda>bad.
       if bad then ret (- 1)
       else thenM (modifyM (\<lambda>s. put_cache dst
           (\<lambda>a. if unat (a - dst) < SECTSIZE then disk s sec (unat (a - dst)) else cache s a) s))
         (read_sectors n (Suc sec) (dst + of_nat SECTSIZE)))"

definition ide_read :: "u32 \<Rightarrow> u32 \<Rightarrow> u32 \<Rightarrow> i32 fsprog" where
  "ide_read secno dst nsecs =
     thenM (assertM (nsecs \<le> 256)) (read_sectors (unat nsecs) (unat (secno AND 0x0FFFFFFF)) dst)"

fun write_sectors :: "nat \<Rightarrow> nat \<Rightarrow> u32 \<Rightarrow> i32 fsprog" where
  "write_sectors 0 sec src = ret 0"
| "write_sectors (Suc n) sec src =
     bindM (getsM (\<lambda>s. bad_sector s sec)) (\<lambda>bad.
       if bad then ret (- 1)
       else thenM (modifyM (\<lambda>s. s\<lparr>disk := (disk s)
           (sec := \<lambda>i. if i < SECTSIZE then cache s (src + of_nat i) else disk s sec i)\<rparr>))
         (write_sectors n (Suc sec) (src + of_nat SECTSIZE)))"

definition ide_write :: "u32 \<Rightarrow> u32 \<Rightarrow> u32 \<Rightarrow> i32 fsprog" where
  "ide_write secno src nsecs =
     thenM (assertM (nsecs \<le> 256)) (write_sectors (unat nsecs) (unat (secno AND 0x0FFFFFFF)) src)"

section \<open>Faulting blocks in\<close>

text \<open>
  The handler itself reads the super block and the bitmap, which may fault again; \<open>h\<close> is the
  handler for those nested faults.
\<close>

definition access_by :: "(u32 \<Rightarrow> unit fsprog) \<Rightarrow> u32 \<Rightarrow> unit fsprog" where
  "access_by h a = bindM (getsM (va_is_mapped a)) (\<lambda>m. whenM (\<not> m) (h a))"

definition load_by :: "(u32 \<Rightarrow> unit fsprog) \<Rightarrow> u32 \<Rightarrow> u32 fsprog" where
  "load_by h a = thenM (access_by h a) (getsM (\<lambda>s. load4 a (cache s)))"

definition block_is_free_by :: "(u32 \<Rightarrow> unit fsprog) \<Rightarrow> u32 \<Rightarrow> bool fsprog" where
  "block_is_free_by h blockno =
     bindM (getsM super) (\<lambda>sp.
       if sp = 0 then ret False
       else bindM (load_by h (sp + s_nblocks)) (\<lambda>nb.
         if nb \<le> blockno then ret False
         else bindM (getsM bitmap) (\<lambda>bm.
           bindM (load_by h (bm + 4 * (blockno div 32))) (\<lambda>w.
             ret (w AND push_bit (unat (blockno mod 32)) 1 \<noteq> 0)))))"

definition outside_cache :: "u32 \<Rightarrow> bool" where
  "outside_cache a \<longleftrightarrow> a < DISKMAP \<or> DISKMAP + DISKSIZE \<le> a"

primrec bc_pgfault :: "nat \<Rightarrow> u32 \<Rightarrow> unit fsprog" where
  "bc_pgfault 0 addr = stop FsOverflow"
| "bc_pgfault (Suc n) addr =
     (let blockno = (addr - DISKMAP) div BLKSIZE; blkaddr = ROUNDDOWN addr PGSIZE in
      thenM (assertM (\<not> outside_cache addr))
      (bindM (getsM super) (\<lambda>sp.
       thenM (whenM (sp \<noteq> 0)
         (bindM (load_by (bc_pgfault n) (sp + s_nblocks)) (\<lambda>nb. assertM (\<not> nb \<le> blockno))))
      (bindM (fs_page_alloc blkaddr) (\<lambda>r. thenM (assertM (\<not> is_neg r))
      (bindM (ide_read (blockno * BLKSECTS) blkaddr BLKSECTS) (\<lambda>r. thenM (assertM (\<not> is_neg r))
      (bindM (fs_page_map_self blkaddr) (\<lambda>r. thenM (assertM (\<not> is_neg r))
      (bindM (getsM bitmap) (\<lambda>bm.
       whenM (bm \<noteq> 0)
         (bindM (block_is_free_by (bc_pgfault n) blockno) (\<lambda>free. assertM (\<not> free))))))))))))))"

text \<open>The number of handlers that can be active at once; three already suffice.\<close>

definition NESTED :: nat where [kconst]: "NESTED = 4"

definition touch :: "u32 \<Rightarrow> unit fsprog" where
  "touch = access_by (bc_pgfault NESTED)"

definition fs_load32 :: "u32 \<Rightarrow> u32 fsprog" where
  "fs_load32 = load_by (bc_pgfault NESTED)"

definition fs_store32 :: "u32 \<Rightarrow> u32 \<Rightarrow> unit fsprog" where
  "fs_store32 a w = thenM (touch a) (modifyM (\<lambda>s. put_cache a (store4 a w (cache s)) s))"

definition fs_store8 :: "u32 \<Rightarrow> u8 \<Rightarrow> unit fsprog" where
  "fs_store8 a b = thenM (touch a) (modifyM (\<lambda>s. put_cache a ((cache s)(a := b)) s))"

definition fs_load8 :: "u32 \<Rightarrow> u8 fsprog" where
  "fs_load8 a = thenM (touch a) (getsM (\<lambda>s. cache s a))"

text \<open>\<^verbatim>\<open>memmove\<close> and \<^verbatim>\<open>memset\<close> between a block and memory outside the region.\<close>

fun fs_read_bytes :: "u32 \<Rightarrow> nat \<Rightarrow> u8 list fsprog" where
  "fs_read_bytes a 0 = ret []"
| "fs_read_bytes a (Suc n) =
     bindM (fs_load8 a) (\<lambda>b. bindM (fs_read_bytes (a + 1) n) (\<lambda>bs. ret (b # bs)))"

fun fs_write_bytes :: "u32 \<Rightarrow> u8 list \<Rightarrow> unit fsprog" where
  "fs_write_bytes a [] = ret ()"
| "fs_write_bytes a (b # bs) = thenM (fs_store8 a b) (fs_write_bytes (a + 1) bs)"

definition block_is_free :: "u32 \<Rightarrow> bool fsprog" where
  "block_is_free = block_is_free_by (bc_pgfault NESTED)"

definition diskaddr :: "u32 \<Rightarrow> u32 fsprog" where
  "diskaddr blockno =
     bindM (getsM super) (\<lambda>sp.
     bindM (if blockno = 0 then ret True
       else if sp = 0 then ret False
       else bindM (fs_load32 (sp + s_nblocks)) (\<lambda>nb. ret (nb \<le> blockno))) (\<lambda>bad.
     if bad then stop FsPanic else ret (DISKMAP + blockno * BLKSIZE)))"

definition flush_block :: "u32 \<Rightarrow> unit fsprog" where
  "flush_block addr =
     (let blockno = (addr - DISKMAP) div BLKSIZE; blkaddr = ROUNDDOWN addr PGSIZE in
      thenM (assertM (\<not> outside_cache addr))
      (bindM (getsM (\<lambda>s. va_is_mapped addr s \<and> va_is_dirty addr s)) (\<lambda>d.
       whenM d
        (bindM (ide_write (blockno * BLKSECTS) blkaddr BLKSECTS) (\<lambda>r. thenM (assertM (\<not> is_neg r))
        (bindM (fs_page_map_self blkaddr) (\<lambda>r. assertM (\<not> is_neg r))))))))"

section \<open>Pages and aligned words\<close>

lemma PGNUM_near:
  assumes "unat a mod 4 = 0" and "k < 4"
  shows "PGNUM (a + of_nat k) = PGNUM a" and "unat (a + of_nat k) = unat a + k"
proof -
  have "unat a \<le> 4294967292" using assms(1) u32_bound [of a] by presburger
  then show u: "unat (a + of_nat k) = unat a + k"
    using assms(2) by (simp add: unat_word_ariths unat_of_nat)
  have "(unat a + k) div 4 = unat a div 4" using assms by presburger
  then have "(unat a + k) div 4 div 1024 = unat a div 4 div 1024" by simp
  then show "PGNUM (a + of_nat k) = PGNUM a" by (simp add: PGNUM_eq u div_mult2_eq [symmetric])
qed

lemmas PGNUM_near' =
  PGNUM_near [where k = 1, simplified] PGNUM_near [where k = 2, simplified]
  PGNUM_near [where k = 3, simplified]

lemma outside_PGNUM: "outside_cache a \<longleftrightarrow> PGNUM a < 0x10000 \<or> 0xD0000 \<le> PGNUM a"
proof -
  have "outside_cache a \<longleftrightarrow> unat a < 0x10000000 \<or> 0xD0000000 \<le> unat a"
    by (simp add: outside_cache_def kconst word_less_nat_alt word_le_nat_alt)
  then show ?thesis by (auto simp: PGNUM_eq)
qed

lemma PTE_bits [simp]: "PTE_P \<noteq> 0" "PTE_D \<noteq> 0"
  "(PTE_SYSCALL OR PTE_P) AND PTE_D = 0"
  by (simp_all add: kconst)

lemma PTE_D_keeps_P: "(x OR PTE_D) AND PTE_P = x AND PTE_P"
  by (simp add: kconst bit.conj_disj_distrib2)

lemma PTE_D_sets_D: "(x OR PTE_D) AND PTE_D \<noteq> 0"
proof -
  have "(x OR PTE_D) AND PTE_D = PTE_D" by (rule word_eq_bitI, unfold bit_and_iff bit_or_iff, blast)
  then show ?thesis by (simp add: kconst)
qed

lemma unat_back:
  assumes "c \<le> 4294967295"
  shows "unat (k - of_nat c :: u32) = (if c \<le> unat k then unat k - c else unat k + 4294967296 - c)"
proof -
  have "unat (of_nat c :: u32) = c" using assms by (simp add: unat_of_nat)
  then show ?thesis using unat_sub_if' [of k "of_nat c"] by simp
qed

section \<open>Sector transfers\<close>

lemma read_sectors_copies:
  assumes "\<And>n. \<not> bad_sector s n" and "\<And>i. i < n \<Longrightarrow> PGNUM (dst + of_nat (512 * i)) = p"
    and "512 * n \<le> 4096"
  shows "read_sectors n sec dst s = (Ret 0, s\<lparr>
      cache := \<lambda>a. if unat (a - dst) < 512 * n
        then disk s (sec + unat (a - dst) div 512) (unat (a - dst) mod 512) else cache s a,
      uvpt := (uvpt s)(p := if n = 0 then uvpt s p else uvpt s p OR PTE_D)\<rparr>)"
  using assms
proof (induction n arbitrary: sec dst s)
  case 0
  then show ?case by simp
next
  case (Suc n)
  let ?c = "\<lambda>a. if unat (a - dst) < 512 then disk s sec (unat (a - dst)) else cache s a"
  let ?s = "s\<lparr>cache := ?c, uvpt := (uvpt s)(p := uvpt s p OR PTE_D)\<rparr>"
  let ?k = "\<lambda>a. a - (dst + of_nat 512)"
  have p: "PGNUM dst = p" using Suc.prems(2) [of 0] by simp
  have idem: "(x OR PTE_D) OR PTE_D = x OR PTE_D" for x by (simp add: or.assoc)
  have pg: "PGNUM (dst + of_nat 512 + of_nat (512 * i)) = p" if "i < n" for i
    using Suc.prems(2) [of "Suc i"] that by (simp add: algebra_simps)
  have cache_eq: "(\<lambda>a. if unat (?k a) < 512 * n
      then disk s (Suc sec + unat (?k a) div 512) (unat (?k a) mod 512) else ?c a)
    = (\<lambda>a. if unat (a - dst) < 512 * Suc n
        then disk s (sec + unat (a - dst) div 512) (unat (a - dst) mod 512) else cache s a)"
  proof (rule ext)
    fix a
    define k where "k = a - dst"
    have e: "?k a = k - of_nat 512" by (simp add: k_def algebra_simps)
    show "(if unat (?k a) < 512 * n
        then disk s (Suc sec + unat (?k a) div 512) (unat (?k a) mod 512) else ?c a)
      = (if unat (a - dst) < 512 * Suc n
        then disk s (sec + unat (a - dst) div 512) (unat (a - dst) mod 512) else cache s a)"
      unfolding e k_def [symmetric] unat_back [of 512 k, simplified]
      using Suc.prems(3) by (auto simp: le_div_geq le_mod_geq not_less unat_back [of 512 k, simplified])
  qed
  have "read_sectors n (Suc sec) (dst + of_nat 512) ?s = (Ret 0, ?s\<lparr>
      cache := \<lambda>a. if unat (?k a) < 512 * n
        then disk s (Suc sec + unat (?k a) div 512) (unat (?k a) mod 512) else ?c a,
      uvpt := (uvpt ?s)(p := if n = 0 then uvpt ?s p else uvpt ?s p OR PTE_D)\<rparr>)"
    using Suc.IH [of ?s "dst + of_nat 512" "Suc sec", OF _ pg] Suc.prems(1,3)
    by (simp add: fun_upd_def cong: if_cong)
  then have "read_sectors n (Suc sec) (dst + of_nat 512) ?s = (Ret 0, s\<lparr>
      cache := \<lambda>a. if unat (a - dst) < 512 * Suc n
        then disk s (sec + unat (a - dst) div 512) (unat (a - dst) mod 512) else cache s a,
      uvpt := (uvpt s)(p := uvpt s p OR PTE_D)\<rparr>)"
    unfolding cache_eq by (simp add: idem)
  moreover have "put_cache dst ?c s = ?s" by (simp add: put_cache_def set_pte_def p)
  ultimately show ?case
    using Suc.prems(1) by (simp add: SECTSIZE_def fun_upd_def cong: if_cong)
qed

lemma write_sectors_copies:
  assumes "\<And>n. \<not> bad_sector s n"
  shows "write_sectors n sec src s = (Ret 0, s\<lparr>disk := \<lambda>k i.
      if sec \<le> k \<and> k < sec + n \<and> i < 512 then cache s (src + of_nat (512 * (k - sec) + i))
      else disk s k i\<rparr>)"
  using assms
proof (induction n arbitrary: sec src s)
  case 0
  have e: "(sec \<le> k \<and> k < sec \<and> Q) = False" for k Q by auto
  show ?case by (simp add: e)
next
  case (Suc n)
  let ?s = "s\<lparr>disk := (disk s)(sec := \<lambda>i. if i < 512 then cache s (src + of_nat i) else disk s sec i)\<rparr>"
  have ih: "write_sectors n (Suc sec) (src + of_nat 512) ?s = (Ret 0, s\<lparr>disk := \<lambda>k i.
      if Suc sec \<le> k \<and> k < Suc sec + n \<and> i < 512
      then cache s (src + of_nat 512 + of_nat (512 * (k - Suc sec) + i)) else disk ?s k i\<rparr>)"
    using Suc.IH [of ?s "Suc sec" "src + of_nat 512"] Suc.prems by (simp cong: if_cong)
  have eq: "(if Suc sec \<le> k \<and> k < Suc sec + n \<and> i < 512
      then cache s (src + of_nat 512 + of_nat (512 * (k - Suc sec) + i)) else disk ?s k i)
    = (if sec \<le> k \<and> k < sec + Suc n \<and> i < 512 then cache s (src + of_nat (512 * (k - sec) + i))
      else disk s k i)" for k i
  proof (cases "Suc sec \<le> k")
    case True
    then have "512 * (k - sec) + i = 512 + (512 * (k - Suc sec) + i)" by simp
    then have e: "src + of_nat 512 + of_nat (512 * (k - Suc sec) + i) = src + of_nat (512 * (k - sec) + i)"
      by (simp only: of_nat_add add.assoc)
    show ?thesis unfolding e using True by auto
  next
    case False
    then show ?thesis by (cases "k = sec") auto
  qed
  then show ?case using Suc.prems ih [unfolded eq] by (simp add: SECTSIZE_def)
qed

section \<open>The file system image\<close>

definition blockno_of :: "u32 \<Rightarrow> u32" where
  "blockno_of a = (a - DISKMAP) div BLKSIZE"

definition on_disk :: "fsys \<Rightarrow> bmem" where
  "on_disk s a = disk s (unat (a - DISKMAP) div 512) (unat (a - DISKMAP) mod 512)"

definition fsmem :: "fsys \<Rightarrow> bmem" where
  "fsmem s a = (if outside_cache a then 0 else if va_is_mapped a s then cache s a else on_disk s a)"

definition nblocks :: "bmem \<Rightarrow> u32" where
  "nblocks m = load4 (DISKMAP + 0x1000 + s_nblocks) m"

definition bitmap_word :: "u32 \<Rightarrow> u32" where
  "bitmap_word b = DISKMAP + 0x2000 + 4 * (b div 32)"

definition bit_free :: "bmem \<Rightarrow> u32 \<Rightarrow> bool" where
  "bit_free m b \<longleftrightarrow> load4 (bitmap_word b) m AND push_bit (unat (b mod 32)) 1 \<noteq> 0"

definition block_used :: "bmem \<Rightarrow> u32 \<Rightarrow> bool" where
  "block_used m b \<longleftrightarrow> b < nblocks m \<and> \<not> bit_free m b"

text \<open>The disk fits in the region and the blocks of the bitmap are in use.\<close>

definition geometry :: "bmem \<Rightarrow> bool" where
  "geometry m \<longleftrightarrow> nblocks m \<le> 0xC0000 \<and> (\<forall>b < nblocks m. block_used m (2 + b div 32768))"

definition coherent :: "fsys \<Rightarrow> bool" where
  "coherent s \<longleftrightarrow>
     (\<forall>a. \<not> outside_cache a \<and> va_is_mapped a s \<and> \<not> va_is_dirty a s \<longrightarrow> cache s a = on_disk s a)"

definition bc_ok :: "fsys \<Rightarrow> bool" where
  "bc_ok s \<longleftrightarrow> super s = DISKMAP + 0x1000 \<and> bitmap s = DISKMAP + 0x2000
     \<and> va_is_mapped (DISKMAP + 0x1000) s \<and> (\<forall>a. grants s a) \<and> (\<forall>n. \<not> bad_sector s n)
     \<and> geometry (fsmem s) \<and> coherent s"

text \<open>A later state of the cache with the same image.\<close>

definition grown :: "fsys \<Rightarrow> fsys \<Rightarrow> bool" where
  "grown s t \<longleftrightarrow> bc_ok t \<and> fsmem t = fsmem s \<and> disk t = disk s
     \<and> (\<forall>a. va_is_mapped a s \<longrightarrow> va_is_mapped a t)"

lemma grown_refl: "bc_ok s \<Longrightarrow> grown s s"
  by (simp add: grown_def)

lemma grown_trans: "grown s t \<Longrightarrow> grown t u \<Longrightarrow> grown s u"
  by (auto simp: grown_def)

lemma unat_bitmap_word:
  assumes "b < 0xC0000"
  shows "unat (bitmap_word b) = 0x10002000 + 4 * (unat b div 32)"
proof -
  have "unat b < 0xC0000" using assms by (simp add: word_less_nat_alt)
  then have "unat b div 32 < 24576" by simp
  then show ?thesis by (simp add: bitmap_word_def kconst unat_word_ariths unat_div)
qed

lemma PGNUM_bitmap_word: "b < 0xC0000 \<Longrightarrow> PGNUM (bitmap_word b) = 0x10002 + unat b div 32768"
proof -
  assume b: "b < 0xC0000"
  define q where "q = unat b div 32"
  have "(0x10002000 + 4 * q) div 4096 = 0x10002 + 4 * q div 4096"
    using div_add [of 4096 "0x10002000" "4 * q"] by simp
  also have "4 * q div 4096 = q div 1024" using div_mult_mult1 [of 4 q 1024] by simp
  also have "\<dots> = unat b div 32768" by (simp add: q_def div_mult2_eq [symmetric])
  finally show ?thesis by (simp add: PGNUM_eq unat_bitmap_word [OF b] q_def)
qed

lemma unat_blockno_of:
  assumes "\<not> outside_cache a"
  shows "unat (blockno_of a) = PGNUM a - 0x10000" and "unat (a - DISKMAP) = unat a - 0x10000000"
proof -
  have le: "DISKMAP \<le> a" using assms by (auto simp: outside_cache_def kconst not_less)
  then show u: "unat (a - DISKMAP) = unat a - 0x10000000" by (simp add: unat_sub kconst)
  then show "unat (blockno_of a) = PGNUM a - 0x10000"
    by (simp add: blockno_of_def unat_div PGNUM_eq BLKSIZE_def)
qed

lemma blockno_of_bitmap_word: "b < 0xC0000 \<Longrightarrow> blockno_of (bitmap_word b) = 2 + b div 32768"
proof -
  assume b: "b < 0xC0000"
  then have lt: "unat b < 0xC0000" by (simp add: word_less_nat_alt)
  have p: "PGNUM (bitmap_word b) = 0x10002 + unat b div 32768"
    by (rule PGNUM_bitmap_word [OF b])
  then have "\<not> outside_cache (bitmap_word b)" using lt by (simp add: outside_PGNUM)
  then have "unat (blockno_of (bitmap_word b)) = 2 + unat b div 32768"
    using p by (simp add: unat_blockno_of)
  also have "\<dots> = unat (2 + b div 32768)" using lt by (simp add: unat_word_ariths unat_div)
  finally show ?thesis by (simp only: word_unat_eq_iff)
qed

lemma bitmap_word_ok:
  assumes "b < 0xC0000"
  shows "\<not> outside_cache (bitmap_word b)" and "unat (bitmap_word b) mod 4 = 0"
proof -
  have lt: "unat b < 0xC0000" using assms by (simp add: word_less_nat_alt)
  have "PGNUM (bitmap_word b) = 0x10002 + unat b div 32768"
    by (rule PGNUM_bitmap_word [OF assms])
  then show "\<not> outside_cache (bitmap_word b)" using lt by (simp add: outside_PGNUM)
  show "unat (bitmap_word b) mod 4 = 0" by (simp add: unat_bitmap_word [OF assms])
qed

lemma same_block: "\<not> outside_cache a \<Longrightarrow> \<not> outside_cache b \<Longrightarrow> blockno_of a = blockno_of b \<longleftrightarrow> PGNUM a = PGNUM b"
  by (auto simp: word_unat_eq_iff unat_blockno_of outside_PGNUM)

lemma mapped_PGNUM: "PGNUM a = PGNUM b \<Longrightarrow> va_is_mapped a s = va_is_mapped b s"
  by (simp add: va_is_mapped_def)

lemma load4_fsmem:
  assumes "unat a mod 4 = 0" and "\<not> outside_cache a" and "va_is_mapped a s"
  shows "load4 a (fsmem s) = load4 a (cache s)"
  using assms by (simp add: load4_def fsmem_def outside_PGNUM va_is_mapped_def PGNUM_near')

lemma load_by_mapped: "va_is_mapped a s \<Longrightarrow> load_by h a s = (Ret (load4 a (cache s)), s)"
  by (simp add: load_by_def access_by_def)

lemma super_words:
  "\<not> outside_cache (DISKMAP + 0x1000 + s_nblocks)" "unat (DISKMAP + 0x1000 + s_nblocks) mod 4 = 0"
  "PGNUM (DISKMAP + 0x1000 + s_nblocks) = PGNUM (DISKMAP + 0x1000)"
  by (simp_all add: kconst outside_cache_def PGNUM_eq)

lemma load_nblocks:
  "bc_ok s \<Longrightarrow> load_by h (super s + s_nblocks) s = (Ret (nblocks (fsmem s)), s)"
proof -
  assume "bc_ok s"
  then have "va_is_mapped (DISKMAP + 0x1000 + s_nblocks) s" "super s = DISKMAP + 0x1000"
    using super_words(3) by (simp_all add: bc_ok_def va_is_mapped_def)
  then show ?thesis using super_words by (simp add: load_by_mapped nblocks_def load4_fsmem)
qed

lemma super_nonzero: "bc_ok s \<Longrightarrow> super s \<noteq> 0" "bc_ok s \<Longrightarrow> bitmap s \<noteq> 0"
  by (simp_all add: bc_ok_def kconst)

section \<open>A fault loads the block and changes nothing else\<close>

definition loaded :: "u32 \<Rightarrow> fsys \<Rightarrow> fsys" where
  "loaded a s = s\<lparr>cache := \<lambda>x. if PGNUM x = PGNUM a then on_disk s x else cache s x,
     uvpt := (uvpt s)(PGNUM a := PTE_SYSCALL OR PTE_P)\<rparr>"

lemma loaded_fields [simp]:
  "super (loaded a s) = super s" "bitmap (loaded a s) = bitmap s" "grants (loaded a s) = grants s"
  "bad_sector (loaded a s) = bad_sector s" "disk (loaded a s) = disk s"
  by (simp_all add: loaded_def)

lemma page_base:
  assumes "\<not> outside_cache a"
  shows "unat (ROUNDDOWN a PGSIZE) = PGNUM a * 4096"
    and "unat (x - ROUNDDOWN a PGSIZE) < 4096 \<longleftrightarrow> PGNUM x = PGNUM a"
    and "PGNUM x = PGNUM a \<Longrightarrow> unat (x - DISKMAP)
      = (PGNUM a - 0x10000) * 4096 + unat (x - ROUNDDOWN a PGSIZE)"
proof -
  let ?b = "ROUNDDOWN a PGSIZE"
  show b: "unat ?b = PGNUM a * 4096"
    by (simp add: unat_ROUNDDOWN PGNUM_eq kconst minus_mod_eq_div_mult)
  have p: "0x10000 \<le> PGNUM a" "PGNUM a < 0xD0000" using assms by (simp_all add: outside_PGNUM)
  have d: "unat (x - ?b) = (if unat ?b \<le> unat x then unat x - unat ?b else unat x + 4294967296 - unat ?b)"
    using unat_sub_if' [of x ?b] by simp
  show "unat (x - ?b) < 4096 \<longleftrightarrow> PGNUM x = PGNUM a"
  proof (cases "unat ?b \<le> unat x")
    case True
    then show ?thesis using d b by (auto simp: PGNUM_eq div_nat_eqI)
  next
    case False
    then show ?thesis using d b p by (auto simp: PGNUM_eq)
  qed
  assume x: "PGNUM x = PGNUM a"
  then have "unat ?b \<le> unat x" using b by (simp add: PGNUM_eq)
  moreover have "\<not> outside_cache x" using assms x by (simp add: outside_PGNUM)
  ultimately show "unat (x - DISKMAP) = (PGNUM a - 0x10000) * 4096 + unat (x - ?b)"
    using d b p unat_blockno_of(2) [of x] x by (simp add: diff_mult_distrib)
qed

lemma page_sectors:
  assumes "\<not> outside_cache a"
  shows "unat ((blockno_of a * BLKSECTS) AND 0x0FFFFFFF) = (PGNUM a - 0x10000) * 8"
    and "i < 8 \<Longrightarrow> PGNUM (ROUNDDOWN a PGSIZE + of_nat (512 * i)) = PGNUM a"
proof -
  have p: "0x10000 \<le> PGNUM a" "PGNUM a < 0xD0000" using assms by (simp_all add: outside_PGNUM)
  have "(0x0FFFFFFF :: u32) = mask 28" by (simp add: mask_eq_exp_minus_1)
  then show "unat ((blockno_of a * BLKSECTS) AND 0x0FFFFFFF) = (PGNUM a - 0x10000) * 8"
    using p unat_blockno_of(1) [OF assms]
    by (simp only: unat_and_mask) (simp add: unat_word_ariths kconst)
  assume "i < 8"
  then show "PGNUM (ROUNDDOWN a PGSIZE + of_nat (512 * i)) = PGNUM a"
    using p page_base(1) [OF assms] unat_of_nat [of "512 * i", where 'a = 32]
    by (simp add: PGNUM_eq unat_word_ariths)
qed

lemma sector_split:
  "((k :: nat) * 4096 + d) div 512 = k * 8 + d div 512" "((k :: nat) * 4096 + d) mod 512 = d mod 512"
proof -
  have e: "k * 4096 + d = d + (k * 8) * 512" by simp
  show "(k * 4096 + d) div 512 = k * 8 + d div 512" unfolding e by (subst div_mult_self1) simp_all
  show "(k * 4096 + d) mod 512 = d mod 512" unfolding e by (rule mod_mult_self1)
qed

lemma fault_loads:
  assumes "\<not> outside_cache a" and "\<And>x. grants s x" and "\<And>n. \<not> bad_sector s n"
  shows "\<exists>t. fs_page_alloc (ROUNDDOWN a PGSIZE) s = (Ret 0, t)
    \<and> (\<exists>u. ide_read (blockno_of a * BLKSECTS) (ROUNDDOWN a PGSIZE) BLKSECTS t = (Ret 0, u)
      \<and> fs_page_map_self (ROUNDDOWN a PGSIZE) u = (Ret 0, loaded a s))"
proof -
  let ?b = "ROUNDDOWN a PGSIZE"
  have pb: "PGNUM ?b = PGNUM a" using page_sectors(2) [OF assms(1), of 0] by simp
  define t where "t = s\<lparr>cache := filled (cache s) ?b 0 4096,
    uvpt := (uvpt s)(PGNUM a := PTE_SYSCALL OR PTE_P)\<rparr>"
  have alloc: "fs_page_alloc ?b s = (Ret 0, t)"
    using assms(2) by (simp add: fs_page_alloc_def set_pte_def t_def pb)
  define u where "u = t\<lparr>cache := \<lambda>x. if unat (x - ?b) < 4096
      then disk t ((PGNUM a - 0x10000) * 8 + unat (x - ?b) div 512) (unat (x - ?b) mod 512) else cache t x,
    uvpt := (uvpt t)(PGNUM a := uvpt t (PGNUM a) OR PTE_D)\<rparr>"
  have "\<And>n. \<not> bad_sector t n" using assms(3) by (simp add: t_def)
  then have read: "ide_read (blockno_of a * BLKSECTS) ?b BLKSECTS t = (Ret 0, u)"
    using page_sectors(1) [OF assms(1)] read_sectors_copies [of t 8 ?b "PGNUM a"] page_sectors(2) [OF assms(1)]
    by (simp add: ide_read_def BLKSECTS_def u_def fun_upd_def cong: if_cong)
  have "cache u x = cache (loaded a s) x" for x
  proof (cases "PGNUM x = PGNUM a")
    case True
    then show ?thesis
      using page_base(2,3) [OF assms(1), of x] by (simp add: u_def t_def loaded_def on_disk_def sector_split)
  next
    case False
    then show ?thesis
      using page_base(2) [OF assms(1), of x] by (simp add: u_def t_def loaded_def filled_def)
  qed
  then have "fs_page_map_self ?b u = (Ret 0, loaded a s)"
    by (simp add: fs_page_map_self_def va_is_mapped_def set_pte_def pb u_def t_def loaded_def
        PTE_D_keeps_P fun_eq_iff)
  then show ?thesis using alloc read by blast
qed

lemma loaded_grown:
  assumes ok: "bc_ok s" and "\<not> outside_cache a" and new: "\<not> va_is_mapped a s"
  shows "grown s (loaded a s)" and "va_is_mapped a (loaded a s)"
proof -
  let ?t = "loaded a s"
  show m: "va_is_mapped a ?t" by (simp add: va_is_mapped_def loaded_def kconst)
  have mapped: "va_is_mapped x ?t \<longleftrightarrow> va_is_mapped x s \<or> PGNUM x = PGNUM a" for x
    using m by (auto simp: va_is_mapped_def loaded_def)
  have dirty: "va_is_dirty x ?t \<longleftrightarrow> va_is_dirty x s \<and> PGNUM x \<noteq> PGNUM a" for x
    by (simp add: va_is_dirty_def loaded_def)
  have c: "cache ?t x = (if PGNUM x = PGNUM a then on_disk s x else cache s x)" for x
    by (simp add: loaded_def)
  have d: "on_disk ?t = on_disk s" by (simp add: on_disk_def loaded_def fun_eq_iff)
  have "fsmem ?t x = fsmem s x" for x
    using new mapped_PGNUM [of x a s] by (auto simp: fsmem_def mapped c d)
  then have f: "fsmem ?t = fsmem s" by blast
  have "coherent ?t"
    using ok by (auto simp: coherent_def bc_ok_def mapped c d dirty)
  then have "bc_ok ?t"
    using ok by (simp add: bc_ok_def f mapped)
  then show "grown s ?t" using f mapped by (simp add: grown_def)
qed

lemma leD': "(b :: u32) < n \<Longrightarrow> (n \<le> b) = False"
  by (simp add: not_le)

lemma block_is_free_by_ok:
  assumes ok: "bc_ok s" and lt: "b < nblocks (fsmem s)"
    and h: "access_by h (bitmap_word b) s = (Ret (), t)" "grown s t" "va_is_mapped (bitmap_word b) t"
  shows "block_is_free_by h b s = (Ret (bit_free (fsmem s) b), t)"
proof -
  have b: "b < 0xC0000" using ok lt by (auto simp: bc_ok_def geometry_def intro: less_le_trans)
  have bm: "bitmap s + 4 * (b div 32) = bitmap_word b" using ok by (simp add: bc_ok_def bitmap_word_def)
  have "load4 (bitmap_word b) (cache t) = load4 (bitmap_word b) (fsmem s)"
    using load4_fsmem [of "bitmap_word b" t] bitmap_word_ok [OF b] h(2,3) by (simp add: grown_def)
  then have "load_by h (bitmap_word b) s = (Ret (load4 (bitmap_word b) (fsmem s)), t)"
    using h(1) by (simp add: load_by_def)
  then show ?thesis
    using leD' [OF lt] super_nonzero [OF ok]
    by (simp add: block_is_free_by_def load_nblocks [OF ok] bm bit_free_def)
qed

lemma bc_pgfault_ok:
  assumes ok: "bc_ok s" and a: "\<not> outside_cache a" "\<not> va_is_mapped a s" "block_used (fsmem s) (blockno_of a)"
    and h: "\<And>t. grown s t \<Longrightarrow> va_is_mapped a t \<Longrightarrow>
      \<exists>u. access_by (bc_pgfault n) (bitmap_word (blockno_of a)) t = (Ret (), u)
        \<and> grown t u \<and> va_is_mapped (bitmap_word (blockno_of a)) u"
  shows "\<exists>u. bc_pgfault (Suc n) a s = (Ret (), u) \<and> grown s u \<and> va_is_mapped a u"
proof -
  have lt: "blockno_of a < nblocks (fsmem s)" using a(3) by (simp add: block_used_def)
  have g: "\<And>x. grants s x" "\<And>n. \<not> bad_sector s n" using ok by (simp_all add: bc_ok_def)
  obtain t v where t: "fs_page_alloc (ROUNDDOWN a PGSIZE) s = (Ret 0, t)"
    "ide_read (blockno_of a * BLKSECTS) (ROUNDDOWN a PGSIZE) BLKSECTS t = (Ret 0, v)"
    "fs_page_map_self (ROUNDDOWN a PGSIZE) v = (Ret 0, loaded a s)"
    using fault_loads [OF a(1) g] by blast
  note ld = loaded_grown [OF ok a(1,2)]
  obtain u where u: "access_by (bc_pgfault n) (bitmap_word (blockno_of a)) (loaded a s) = (Ret (), u)"
    "grown (loaded a s) u" "va_is_mapped (bitmap_word (blockno_of a)) u"
    using h [OF ld] by blast
  have okl: "bc_ok (loaded a s)" "fsmem (loaded a s) = fsmem s" using ld(1) by (simp_all add: grown_def)
  have "block_is_free_by (bc_pgfault n) (blockno_of a) (loaded a s) = (Ret False, u)"
    using block_is_free_by_ok [OF okl(1) _ u] lt okl(2) a(3) by (simp add: block_used_def)
  then have "bc_pgfault (Suc n) a s = (Ret (), u)"
    using a(1) t leD' [OF lt] super_nonzero [OF ok] super_nonzero [OF okl(1)] load_nblocks [OF ok]
    by (simp add: Let_def blockno_of_def [symmetric])
  moreover have "grown s u" by (rule grown_trans [OF ld(1) u(2)])
  moreover have "va_is_mapped a u" using ld(2) u(2) by (simp add: grown_def)
  ultimately show ?thesis by blast
qed

section \<open>Every access to a block_used block succeeds\<close>

lemma access_by_mapped: "va_is_mapped a s \<Longrightarrow> access_by h a s = (Ret (), s)"
  by (simp add: access_by_def)

lemma access_step:
  assumes "bc_ok s" and "\<not> outside_cache a" and "block_used (fsmem s) (blockno_of a)"
    and "\<And>t. grown s t \<Longrightarrow> va_is_mapped a t \<Longrightarrow>
      \<exists>u. access_by (bc_pgfault n) (bitmap_word (blockno_of a)) t = (Ret (), u)
        \<and> grown t u \<and> va_is_mapped (bitmap_word (blockno_of a)) u"
  shows "\<exists>u. access_by (bc_pgfault (Suc n)) a s = (Ret (), u) \<and> grown s u \<and> va_is_mapped a u"
proof (cases "va_is_mapped a s")
  case True
  then show ?thesis using assms(1) access_by_mapped grown_refl by blast
next
  case False
  then show ?thesis
    using bc_pgfault_ok [OF assms(1,2) False assms(3,4)] by (simp add: access_by_def)
qed

lemma live_bound: "bc_ok s \<Longrightarrow> block_used (fsmem s) b \<Longrightarrow> b < 0xC0000"
  by (auto simp: bc_ok_def geometry_def block_used_def intro: less_le_trans)

lemma access_bitmap_0:
  assumes "bc_ok s" and "\<not> outside_cache a" and "block_used (fsmem s) (blockno_of a)" and "blockno_of a = 2"
  shows "\<exists>u. access_by (bc_pgfault (Suc n)) a s = (Ret (), u) \<and> grown s u \<and> va_is_mapped a u"
proof (rule access_step [OF assms(1-3)])
  fix t assume t: "grown s t" "va_is_mapped a t"
  have "blockno_of (bitmap_word 2) = 2 + 2 div 32768" by (rule blockno_of_bitmap_word) simp
  then have "PGNUM (bitmap_word (blockno_of a)) = PGNUM a"
    using same_block [OF bitmap_word_ok(1) assms(2), of 2] assms(4) by simp
  then have "va_is_mapped (bitmap_word (blockno_of a)) t" using t(2) mapped_PGNUM by blast
  then show "\<exists>u. access_by (bc_pgfault n) (bitmap_word (blockno_of a)) t = (Ret (), u)
    \<and> grown t u \<and> va_is_mapped (bitmap_word (blockno_of a)) u"
    using t access_by_mapped grown_refl grown_def by blast
qed

lemma bitmap_block_small:
  assumes "b < (0xC0000 :: u32)"
  shows "(2 + b div 32768) div 32768 = 0"
proof -
  have "unat b div 32768 < 24" using assms by (simp add: word_less_nat_alt)
  then have "unat ((2 + b div 32768) div 32768) = 0" by (simp add: unat_word_ariths unat_div)
  then show ?thesis by (simp only: unat_eq_zero)
qed

lemma access_bitmap:
  assumes "bc_ok s" and b: "b < nblocks (fsmem s)"
  shows "\<exists>u. access_by (bc_pgfault (Suc (Suc n))) (bitmap_word b) s = (Ret (), u)
    \<and> grown s u \<and> va_is_mapped (bitmap_word b) u"
proof (rule access_step [OF assms(1)])
  have lt: "b < 0xC0000" using assms by (auto simp: bc_ok_def geometry_def intro: less_le_trans)
  have no: "blockno_of (bitmap_word b) = 2 + b div 32768" by (rule blockno_of_bitmap_word [OF lt])
  show "\<not> outside_cache (bitmap_word b)" by (rule bitmap_word_ok [OF lt])
  show l: "block_used (fsmem s) (blockno_of (bitmap_word b))"
    using assms by (simp add: no bc_ok_def geometry_def)
  fix t assume t: "grown s t" "va_is_mapped (bitmap_word b) t"
  let ?c = "blockno_of (bitmap_word b)"
  have c: "?c < nblocks (fsmem s)" using l by (simp add: block_used_def)
  have clt: "?c < 0xC0000" using live_bound [OF assms(1) l] .
  have two: "blockno_of (bitmap_word ?c) = 2"
    using blockno_of_bitmap_word [OF clt] bitmap_block_small [OF lt] by (simp add: no)
  have "block_used (fsmem s) (2 + ?c div 32768)" using assms(1) c by (simp add: bc_ok_def geometry_def)
  then have "block_used (fsmem t) (blockno_of (bitmap_word ?c))"
    using t two blockno_of_bitmap_word [OF clt] by (simp add: grown_def)
  then show "\<exists>u. access_by (bc_pgfault (Suc n)) (bitmap_word ?c) t = (Ret (), u)
      \<and> grown t u \<and> va_is_mapped (bitmap_word ?c) u"
    using access_bitmap_0 [of t "bitmap_word ?c"] bitmap_word_ok(1) [OF clt] two t
    by (simp add: grown_def)
qed

lemma touch_ok:
  assumes "bc_ok s" and "\<not> outside_cache a" and "block_used (fsmem s) (blockno_of a)"
  shows "\<exists>u. touch a s = (Ret (), u) \<and> grown s u \<and> va_is_mapped a u"
proof -
  have n: "NESTED = Suc (Suc (Suc 1))" by (simp add: kconst)
  show ?thesis
    unfolding touch_def n
  proof (rule access_step [OF assms])
    fix t assume "grown s t" "va_is_mapped a t"
    then show "\<exists>u. access_by (bc_pgfault (Suc (Suc 1))) (bitmap_word (blockno_of a)) t = (Ret (), u)
        \<and> grown t u \<and> va_is_mapped (bitmap_word (blockno_of a)) u"
      using access_bitmap [of t "blockno_of a" 1] assms(3) by (simp add: grown_def block_used_def)
  qed
qed

section \<open>Loads and stores\<close>

text \<open>
  \<open>runs m s x v\<close>: the program returns \<open>x\<close> and leaves the image \<open>v\<close>, in a consistent cache.
\<close>

definition runs :: "'a fsprog \<Rightarrow> fsys \<Rightarrow> 'a \<Rightarrow> bmem \<Rightarrow> bool" where
  "runs m s x v \<longleftrightarrow> (\<exists>t. m s = (Ret x, t) \<and> bc_ok t \<and> fsmem t = v)"

lemma runs_ret: "bc_ok s \<Longrightarrow> runs (ret x) s x (fsmem s)"
  by (simp add: runs_def)

lemma runs_bind:
  assumes "runs m s x v" and "\<And>t. bc_ok t \<Longrightarrow> fsmem t = v \<Longrightarrow> runs (f x) t y w"
  shows "runs (bindM m f) s y w"
  using assms by (fastforce simp: runs_def)

lemma runs_then:
  assumes "runs m s x v" and "\<And>t. bc_ok t \<Longrightarrow> fsmem t = v \<Longrightarrow> runs k t y w"
  shows "runs (thenM m k) s y w"
  using assms by (fastforce simp: runs_def)

lemma runs_touch:
  "bc_ok s \<Longrightarrow> \<not> outside_cache a \<Longrightarrow> block_used (fsmem s) (blockno_of a) \<Longrightarrow> runs (touch a) s () (fsmem s)"
  using touch_ok [of s a] by (auto simp: runs_def grown_def)

lemma runs_load:
  assumes "bc_ok s" and "\<not> outside_cache a" and "unat a mod 4 = 0" and "block_used (fsmem s) (blockno_of a)"
  shows "runs (fs_load32 a) s (load4 a (fsmem s)) (fsmem s)"
proof -
  obtain t where "touch a s = (Ret (), t)" "grown s t" "va_is_mapped a t"
    using touch_ok [OF assms(1,2,4)] by blast
  then show ?thesis
    using load4_fsmem [OF assms(3,2), of t]
    by (auto simp: runs_def fs_load32_def load_by_def touch_def grown_def)
qed

lemma runs_load_nblocks: "bc_ok s \<Longrightarrow> runs (bindM (getsM super) (\<lambda>sp. fs_load32 (sp + s_nblocks))) s
    (nblocks (fsmem s)) (fsmem s)"
  using load_nblocks by (simp add: runs_def fs_load32_def)

text \<open>A store changes the image in one page; the super block and the bitmap must stay sound.\<close>

lemma put_cache_fields [simp]:
  "super (put_cache a m s) = super s" "bitmap (put_cache a m s) = bitmap s"
  "grants (put_cache a m s) = grants s" "bad_sector (put_cache a m s) = bad_sector s"
  "disk (put_cache a m s) = disk s"
  by (simp_all add: put_cache_def set_pte_def)

lemma put_cache_runs:
  assumes ok: "bc_ok s" and a: "\<not> outside_cache a" "va_is_mapped a s"
    and m: "\<And>x. PGNUM x \<noteq> PGNUM a \<Longrightarrow> m x = cache s x"
    and geo: "geometry (\<lambda>x. if PGNUM x = PGNUM a then m x else fsmem s x)"
  shows "bc_ok (put_cache a m s)"
    and "fsmem (put_cache a m s) = (\<lambda>x. if PGNUM x = PGNUM a then m x else fsmem s x)"
proof -
  let ?t = "put_cache a m s"
  have mapped: "va_is_mapped x ?t \<longleftrightarrow> va_is_mapped x s" for x
    by (auto simp: va_is_mapped_def put_cache_def set_pte_def PTE_D_keeps_P)
  have dirty: "va_is_dirty x ?t \<longleftrightarrow> va_is_dirty x s \<or> PGNUM x = PGNUM a" for x
    by (auto simp: va_is_dirty_def put_cache_def set_pte_def PTE_D_sets_D)
  have c: "cache ?t x = (if PGNUM x = PGNUM a then m x else cache s x)" for x
    using m by (simp add: put_cache_def set_pte_def)
  have d: "on_disk ?t = on_disk s" by (simp add: on_disk_def put_cache_def set_pte_def fun_eq_iff)
  have f: "fsmem ?t x = (if PGNUM x = PGNUM a then m x else fsmem s x)" for x
    using a mapped_PGNUM [of x a s] by (auto simp: fsmem_def mapped c d outside_PGNUM)
  then show "fsmem ?t = (\<lambda>x. if PGNUM x = PGNUM a then m x else fsmem s x)" by blast
  moreover have "coherent ?t"
    using ok by (auto simp: bc_ok_def coherent_def mapped dirty c d)
  ultimately show "bc_ok ?t"
    using ok geo by (simp add: bc_ok_def mapped)
qed

definition overlay :: "(u32 \<Rightarrow> u8 option) \<Rightarrow> bmem \<Rightarrow> bmem" where
  "overlay upd m = (\<lambda>x. case upd x of None \<Rightarrow> m x | Some v \<Rightarrow> v)"

lemma runs_overlay:
  assumes ok: "bc_ok s" and a: "\<not> outside_cache a" and l: "block_used (fsmem s) (blockno_of a)"
    and upd: "\<And>x. upd x \<noteq> None \<Longrightarrow> PGNUM x = PGNUM a"
    and geo: "geometry (overlay upd (fsmem s))"
  shows "runs (thenM (touch a) (modifyM (\<lambda>s. put_cache a (overlay upd (cache s)) s))) s ()
    (overlay upd (fsmem s))"
proof -
  obtain t where t: "touch a s = (Ret (), t)" "grown s t" "va_is_mapped a t"
    using touch_ok [OF ok a l] by blast
  then have ft: "bc_ok t" "fsmem t = fsmem s" by (simp_all add: grown_def)
  have c: "cache t x = fsmem s x" if "PGNUM x = PGNUM a" for x
  proof -
    have "fsmem t x = cache t x" using t(3) a mapped_PGNUM [OF that] that by (simp add: fsmem_def outside_PGNUM)
    then show ?thesis by (simp add: ft(2))
  qed
  have e: "(\<lambda>x. if PGNUM x = PGNUM a then overlay upd (cache t) x else fsmem t x) = overlay upd (fsmem s)"
  proof (rule ext)
    fix x
    show "(if PGNUM x = PGNUM a then overlay upd (cache t) x else fsmem t x) = overlay upd (fsmem s) x"
      using upd [of x] c [of x] by (cases "upd x") (simp_all add: overlay_def ft(2))
  qed
  have "PGNUM x \<noteq> PGNUM a \<Longrightarrow> overlay upd (cache t) x = cache t x" for x
    using upd [of x] by (auto simp: overlay_def split: option.splits)
  from put_cache_runs [OF ft(1) a t(3) this] geo
  have "bc_ok (put_cache a (overlay upd (cache t)) t)"
    "fsmem (put_cache a (overlay upd (cache t)) t) = overlay upd (fsmem s)"
    unfolding e by simp_all
  then show ?thesis using t(1) by (simp add: runs_def)
qed

lemma store4_overlay:
  "store4 a w m = overlay ((\<lambda>_. None)(a := Some (ucast w), a + 1 := Some (ucast (drop_bit 8 w)),
     a + 2 := Some (ucast (drop_bit 16 w)), a + 3 := Some (ucast (drop_bit 24 w)))) m"
  by (simp add: store4_def overlay_def fun_eq_iff)

lemma runs_store32:
  assumes "bc_ok s" and "\<not> outside_cache a" and "unat a mod 4 = 0" and "block_used (fsmem s) (blockno_of a)"
    and "geometry (store4 a w (fsmem s))"
  shows "runs (fs_store32 a w) s () (store4 a w (fsmem s))"
  using assms unfolding fs_store32_def store4_overlay
  by (intro runs_overlay) (auto simp: PGNUM_near' split: if_splits)

lemma runs_store8:
  assumes "bc_ok s" and "\<not> outside_cache a" and "block_used (fsmem s) (blockno_of a)"
    and "geometry ((fsmem s)(a := b))"
  shows "runs (fs_store8 a b) s () ((fsmem s)(a := b))"
proof -
  have e: "m(a := b) = overlay ((\<lambda>_. None)(a := Some b)) m" for m :: bmem
    by (simp add: overlay_def fun_eq_iff)
  show ?thesis
    using assms unfolding fs_store8_def e by (intro runs_overlay) (auto split: if_splits)
qed

lemma runs_load8:
  assumes "bc_ok s" and "\<not> outside_cache a" and "block_used (fsmem s) (blockno_of a)"
  shows "runs (fs_load8 a) s (fsmem s a) (fsmem s)"
proof -
  obtain t where t: "touch a s = (Ret (), t)" "grown s t" "va_is_mapped a t"
    using touch_ok [OF assms] by blast
  then have "fsmem t a = cache t a" using assms(2) by (simp add: fsmem_def)
  then show ?thesis using t by (auto simp: runs_def fs_load8_def grown_def)
qed

text \<open>The blocks behind the bitmap hold everything but the geometry.\<close>

definition datab :: "bmem \<Rightarrow> u32 \<Rightarrow> bool" where
  "datab m b \<longleftrightarrow> block_used m b \<and> 2 + (nblocks m - 1) div 32768 < b"

section \<open>Block addresses, the bitmap, and flushing\<close>

lemma runs_diskaddr:
  assumes "bc_ok s" and "b \<noteq> 0" and "b < nblocks (fsmem s)"
  shows "runs (diskaddr b) s (DISKMAP + b * BLKSIZE) (fsmem s)"
  using assms super_nonzero [OF assms(1)] load_nblocks [OF assms(1)]
  by (simp add: runs_def diskaddr_def fs_load32_def leD')

lemma diskaddr_bad:
  assumes "bc_ok s" and "b = 0 \<or> nblocks (fsmem s) \<le> b"
  shows "diskaddr b s = (Stop FsPanic, s)"
  using assms super_nonzero [OF assms(1)] load_nblocks [OF assms(1)]
  by (auto simp: diskaddr_def fs_load32_def)

lemma runs_block_is_free:
  assumes "bc_ok s"
  shows "runs (block_is_free b) s (b < nblocks (fsmem s) \<and> bit_free (fsmem s) b) (fsmem s)"
proof (cases "b < nblocks (fsmem s)")
  case False
  then show ?thesis
    using assms super_nonzero [OF assms] load_nblocks [OF assms]
    by (simp add: runs_def block_is_free_def block_is_free_by_def not_less)
next
  case True
  have "NESTED = Suc (Suc 2)" by (simp add: kconst)
  then obtain u where "access_by (bc_pgfault NESTED) (bitmap_word b) s = (Ret (), u)" "grown s u"
    "va_is_mapped (bitmap_word b) u"
    using access_bitmap [OF assms True, of 2] by auto
  from block_is_free_by_ok [OF assms True this] this True show ?thesis
    by (auto simp: runs_def block_is_free_def grown_def)
qed

lemma block_addr:
  assumes "b < 0xC0000" and "k < 4096"
  shows "unat (DISKMAP + b * BLKSIZE + of_nat k) = 0x10000000 + unat b * 4096 + k"
    and "PGNUM (DISKMAP + b * BLKSIZE + of_nat k) = 0x10000 + unat b"
    and "\<not> outside_cache (DISKMAP + b * BLKSIZE + of_nat k)"
    and "blockno_of (DISKMAP + b * BLKSIZE + of_nat k) = b"
proof -
  have lt: "unat b < 0xC0000" using assms(1) by (simp add: word_less_nat_alt)
  show u: "unat (DISKMAP + b * BLKSIZE + of_nat k) = 0x10000000 + unat b * 4096 + k"
    using lt assms(2) by (simp add: kconst unat_word_ariths unat_of_nat)
  have "0x10000000 + unat b * 4096 + k = 4096 * (0x10000 + unat b) + k" by simp
  then show p: "PGNUM (DISKMAP + b * BLKSIZE + of_nat k) = 0x10000 + unat b"
    unfolding PGNUM_eq u using assms(2) by (metis div_mult_self4 div_less add_0_right zero_neq_numeral)
  show nb: "\<not> outside_cache (DISKMAP + b * BLKSIZE + of_nat k)" using p lt by (simp add: outside_PGNUM)
  show "blockno_of (DISKMAP + b * BLKSIZE + of_nat k) = b"
    by (simp add: word_unat_eq_iff unat_blockno_of(1) [OF nb] p)
qed

lemmas block_base = block_addr [where k = 0, simplified]

text \<open>After a flush the block is on the disk, whether it was cached, dirty or neither.\<close>

lemma flush_block_ok:
  assumes ok: "bc_ok s" and a: "\<not> outside_cache a"
  shows "\<exists>t. flush_block a s = (Ret (), t) \<and> bc_ok t \<and> fsmem t = fsmem s
    \<and> (\<forall>x. \<not> outside_cache x \<longrightarrow> on_disk t x = (if PGNUM x = PGNUM a then fsmem s x else on_disk s x))"
proof (cases "va_is_mapped a s \<and> va_is_dirty a s")
  case False
  then have "flush_block a s = (Ret (), s)" using a by (auto simp: flush_block_def Let_def)
  moreover have "on_disk s x = fsmem s x" if "\<not> outside_cache x" "PGNUM x = PGNUM a" for x
    using that False ok mapped_PGNUM [OF that(2), of s]
    by (auto simp: fsmem_def bc_ok_def coherent_def va_is_dirty_def)
  ultimately show ?thesis using ok by auto
next
  case True
  let ?b = "ROUNDDOWN a PGSIZE"
  define S where "S = (PGNUM a - 0x10000) * 8"
  define u where "u = s\<lparr>disk := \<lambda>k i. if S \<le> k \<and> k < S + 8 \<and> i < 512
    then cache s (?b + of_nat (512 * (k - S) + i)) else disk s k i\<rparr>"
  define t where "t = set_pte ?b (PTE_SYSCALL OR PTE_P) u"
  have pb: "PGNUM ?b = PGNUM a" using page_sectors(2) [OF a, of 0] by simp
  have g: "\<And>n. \<not> bad_sector s n" using ok by (simp add: bc_ok_def)
  have "ide_write (blockno_of a * BLKSECTS) ?b BLKSECTS s = (Ret 0, u)"
    using write_sectors_copies [OF g] page_sectors(1) [OF a]
    by (simp add: ide_write_def BLKSECTS_def u_def S_def cong: if_cong)
  moreover have "va_is_mapped ?b u"
    using True by (simp add: u_def va_is_mapped_def pb)
  ultimately have run: "flush_block a s = (Ret (), t)"
    using a True by (simp add: flush_block_def Let_def blockno_of_def [symmetric] fs_page_map_self_def t_def)
  have mapped: "va_is_mapped x t \<longleftrightarrow> va_is_mapped x s" for x
    using True by (auto simp: t_def u_def va_is_mapped_def set_pte_def pb)
  have dirty: "va_is_dirty x t \<longleftrightarrow> va_is_dirty x s \<and> PGNUM x \<noteq> PGNUM a" for x
    by (simp add: t_def u_def va_is_dirty_def set_pte_def pb)
  have c: "cache t = cache s" by (simp add: t_def u_def set_pte_def)
  have d: "on_disk t x = (if PGNUM x = PGNUM a then fsmem s x else on_disk s x)" if x: "\<not> outside_cache x" for x
  proof (cases "PGNUM x = PGNUM a")
    case p: True
    define k where "k = unat (x - ?b)"
    have k: "k < 4096" "unat (x - DISKMAP) = (PGNUM a - 0x10000) * 4096 + k" "x = ?b + of_nat k"
      using page_base(2,3) [OF a, of x] p by (simp_all add: k_def)
    have e: "512 * (k div 512) + k mod 512 = k" by simp
    have "on_disk t x = cache s (?b + of_nat (512 * (k div 512) + k mod 512))"
      using k(1,2) by (simp add: on_disk_def t_def u_def set_pte_def sector_split S_def less_mult_imp_div_less)
    then have "on_disk t x = cache s x" by (simp only: e k(3) [symmetric])
    moreover have "fsmem s x = cache s x"
      using x True mapped_PGNUM [OF p] by (simp add: fsmem_def)
    ultimately show ?thesis using p by simp
  next
    case p: False
    define k where "k = unat (x - ROUNDDOWN x PGSIZE)"
    have k: "k < 4096" "unat (x - DISKMAP) = (PGNUM x - 0x10000) * 4096 + k"
      using page_base(2,3) [OF x, of x] by (simp_all add: k_def)
    have "k div 512 < 8" using k(1) by (simp add: less_mult_imp_div_less)
    moreover have "PGNUM x - 0x10000 \<noteq> PGNUM a - 0x10000"
      using p x a by (auto simp: outside_PGNUM)
    ultimately have "\<not> (S \<le> (PGNUM x - 0x10000) * 8 + k div 512 \<and> (PGNUM x - 0x10000) * 8 + k div 512 < S + 8)"
      by (simp add: S_def)
    then show ?thesis using p k(2)
      by (auto simp: on_disk_def t_def u_def set_pte_def sector_split)
  qed
  have "fsmem t x = fsmem s x" for x
    using d [of x] mapped_PGNUM [of x a s] True by (auto simp: fsmem_def mapped c)
  then have f: "fsmem t = fsmem s" by blast
  have "coherent t"
    unfolding coherent_def
  proof (intro allI impI)
    fix x assume x: "\<not> outside_cache x \<and> va_is_mapped x t \<and> \<not> va_is_dirty x t"
    then have m: "va_is_mapped x s" "PGNUM x = PGNUM a \<or> \<not> va_is_dirty x s"
      by (auto simp: mapped dirty)
    have cx: "cache s x = fsmem s x" using x m(1) by (simp add: fsmem_def)
    have "coherent s" using ok by (simp add: bc_ok_def)
    then have "\<not> va_is_dirty x s \<Longrightarrow> cache s x = on_disk s x" using x m(1) by (simp add: coherent_def)
    then show "cache t x = on_disk t x" using x m cx d [of x] by (cases "PGNUM x = PGNUM a") (simp_all add: c)
  qed
  moreover have "super t = super s" "bitmap t = bitmap s" "grants t = grants s" "bad_sector t = bad_sector s"
    by (simp_all add: t_def u_def set_pte_def)
  ultimately have "bc_ok t" using ok by (simp add: bc_ok_def f mapped)
  then show ?thesis using run f d by blast
qed

lemma runs_flush: "bc_ok s \<Longrightarrow> \<not> outside_cache a \<Longrightarrow> runs (flush_block a) s () (fsmem s)"
  using flush_block_ok [of s a] by (auto simp: runs_def)

end
