(* ===== verification/Jos_Fs.thy ===== *)
theory Jos_Fs
  imports Jos_Bc "HOL-Library.Signed_Division"
begin

text \<open>
  The file system proper, \<^verbatim>\<open>fs/fs.c\<close>: bitmap allocation, the block map of a file,
  directories and paths, reading, writing, truncating, flushing and removing files. A
  \<^verbatim>\<open>struct File *\<close> is its address in the disk map region; every field is read and written
  through the block cache. Paths and names are lists of bytes without the terminator, the
  buffer of a write is a function from offsets to bytes, the buffer of a read is returned.
  \<^verbatim>\<open>int\<close> and \<^verbatim>\<open>off_t\<close> are 32-bit words compared by \<^verbatim>\<open>sint\<close>; where the code mixes
  \<^verbatim>\<open>off_t\<close> with \<^verbatim>\<open>size_t\<close> the comparison is unsigned, as in C.
\<close>

section \<open>Layout\<close>

definition MAXNAMELEN :: nat where [kconst]: "MAXNAMELEN = 128"
definition NDIRECT :: u32 where [kconst]: "NDIRECT = 10"
definition NINDIRECT :: u32 where [kconst]: "NINDIRECT = 1024"
definition BLKFILES :: nat where [kconst]: "BLKFILES = 16"
definition FTYPE_REG :: u32 where [kconst]: "FTYPE_REG = 0"
definition FTYPE_DIR :: u32 where [kconst]: "FTYPE_DIR = 1"

text \<open>The fields of \<^verbatim>\<open>struct File\<close> as offsets; the record has 256 bytes.\<close>

definition FILE_SIZE :: u32 where [kconst]: "FILE_SIZE = 256"
definition f_size :: u32 where [kconst]: "f_size = 128"
definition f_type :: u32 where [kconst]: "f_type = 132"
definition f_direct :: u32 where [kconst]: "f_direct = 136"
definition f_indirect :: u32 where [kconst]: "f_indirect = 176"

text \<open>Signed division and remainder, truncating towards zero.\<close>

definition sdiv32 :: "i32 \<Rightarrow> int \<Rightarrow> i32" where
  "sdiv32 a b = word_of_int (sint a sdiv b)"

definition smod32 :: "i32 \<Rightarrow> int \<Rightarrow> i32" where
  "smod32 a b = word_of_int (sint a smod b)"

section \<open>The super block and the bitmap\<close>

definition get_nblocks :: "u32 fsprog" where
  "get_nblocks = bindM (getsM super) (\<lambda>sp. fs_load32 (sp + s_nblocks))"

definition check_super :: "unit fsprog" where
  "check_super =
     bindM (getsM super) (\<lambda>sp. bindM (fs_load32 sp) (\<lambda>magic.
     thenM (assertM (magic = FS_MAGIC))
     (bindM get_nblocks (\<lambda>nb. assertM (nb \<le> DISKSIZE div BLKSIZE)))))"

definition free_block :: "u32 \<Rightarrow> unit fsprog" where
  "free_block blockno =
     thenM (assertM (blockno \<noteq> 0))
     (bindM (getsM bitmap) (\<lambda>bm. bindM (fs_load32 (bm + 4 * (blockno div 32))) (\<lambda>w.
       fs_store32 (bm + 4 * (blockno div 32)) (w OR push_bit (unat (blockno mod 32)) 1))))"

definition alloc_bit :: "nat \<Rightarrow> nat \<Rightarrow> u32 option fsprog" where
  "alloc_bit i j =
     bindM (getsM bitmap) (\<lambda>bm. bindM (fs_load32 (bm + 4 * of_nat i)) (\<lambda>w.
       if w AND push_bit j 1 = 0 then ret None
       else thenM (fs_store32 (bm + 4 * of_nat i) (w AND NOT (push_bit j 1)))
         (bindM (diskaddr ((of_nat i * 32 OR of_nat j) div BLKBITSIZE + 2)) (\<lambda>a.
          thenM (flush_block a) (ret (Some (of_nat i * 32 OR of_nat j)))))))"

definition alloc_block :: "u32 fsprog" where
  "alloc_block =
     bindM get_nblocks (\<lambda>nb.
     bindM (firstM [0 ..< unat (nb div 32)] (\<lambda>i. firstM [0 ..< 32] (alloc_bit i))) (\<lambda>r.
       case r of None \<Rightarrow> ret (- E_NO_DISK) | Some b \<Rightarrow> ret b))"

definition check_bitmap :: "unit fsprog" where
  "check_bitmap =
     bindM get_nblocks (\<lambda>nb.
     thenM (forM [0 ..< (unat nb + 32767) div 32768] (\<lambda>i.
       bindM (block_is_free (2 + of_nat i)) (\<lambda>free. assertM (\<not> free))))
     (bindM (block_is_free 0) (\<lambda>free. thenM (assertM (\<not> free))
     (bindM (block_is_free 1) (\<lambda>free. assertM (\<not> free))))))"

text \<open>What \<^verbatim>\<open>fs_init\<close> does after the choice of the drive and \<^verbatim>\<open>bc_init\<close>.\<close>

definition fs_init :: "unit fsprog" where
  "fs_init =
     bindM (diskaddr 1) (\<lambda>sp. thenM (modifyM (\<lambda>s. s\<lparr>super := sp\<rparr>))
     (bindM (diskaddr 2) (\<lambda>bm. thenM (modifyM (\<lambda>s. s\<lparr>bitmap := bm\<rparr>))
     (thenM check_super check_bitmap))))"

section \<open>The block map of a file\<close>

text \<open>
  \<^verbatim>\<open>alloc_block\<close> reports a full disk with a negative number, but its result is kept in an
  unsigned variable, so the tests \<^verbatim>\<open>blkno < 0\<close> and \<^verbatim>\<open>err < 0\<close> never hold. The slot is
  \<open>None\<close> where the code leaves the pointer unset.
\<close>

definition file_block_walk :: "u32 \<Rightarrow> u32 \<Rightarrow> bool \<Rightarrow> (i32 \<times> u32 option) fsprog" where
  "file_block_walk f filebno alloc =
     (if filebno < NDIRECT then ret (0, Some (f + f_direct + 4 * filebno))
      else if filebno < NINDIRECT + NDIRECT then
        bindM (fs_load32 (f + f_indirect)) (\<lambda>ind.
          if ind = 0 \<and> \<not> alloc then ret (- E_NOT_FOUND, None)
          else thenM (whenM (ind = 0)
              (bindM alloc_block (\<lambda>blkno.
               thenM (fs_store32 (f + f_indirect) blkno)
               (bindM (diskaddr blkno) (\<lambda>a. fs_write_bytes a (replicate 4096 0))))))
            (bindM (fs_load32 (f + f_indirect)) (\<lambda>ind.
             bindM (diskaddr ind) (\<lambda>a. ret (0, Some (a + 4 * (filebno - NDIRECT)))))))
      else ret (- E_INVAL, None))"

definition file_get_block :: "u32 \<Rightarrow> u32 \<Rightarrow> (i32 \<times> u32) fsprog" where
  "file_get_block f filebno =
     bindM (file_block_walk f filebno True) (\<lambda>(err, slot).
       case slot of
         None \<Rightarrow> stop FsUndefined
       | Some p \<Rightarrow>
           bindM (fs_load32 p) (\<lambda>v.
           thenM (whenM (v = 0) (bindM alloc_block (\<lambda>block_no. fs_store32 p block_no)))
           (bindM (fs_load32 p) (\<lambda>v. bindM (diskaddr v) (\<lambda>a. ret (0, a))))))"

section \<open>Directories and paths\<close>

text \<open>\<^verbatim>\<open>strcmp(f->f_name, name) == 0\<close> for a name without zero bytes.\<close>

definition name_is :: "u32 \<Rightarrow> u8 list \<Rightarrow> bool fsprog" where
  "name_is f name = thenM (touch f) (getsM (\<lambda>s. cstr (cache s) f name))"

definition dir_nblock :: "u32 \<Rightarrow> nat fsprog" where
  "dir_nblock dir =
     bindM (fs_load32 (dir + f_size)) (\<lambda>sz.
     thenM (assertM (smod32 sz 4096 = 0)) (ret (unat (sdiv32 sz 4096))))"

text \<open>
  The common loop of \<^verbatim>\<open>dir_lookup\<close> and \<^verbatim>\<open>dir_alloc_file\<close>: the first entry with the
  property, or the error of \<^verbatim>\<open>file_get_block\<close>.
\<close>

definition dir_search :: "u32 \<Rightarrow> nat \<Rightarrow> (u32 \<Rightarrow> bool fsprog) \<Rightarrow> (i32 \<times> u32) option fsprog" where
  "dir_search dir nblock found =
     firstM [0 ..< nblock] (\<lambda>i. bindM (file_get_block dir (of_nat i)) (\<lambda>(r, blk).
       if is_neg r then ret (Some (r, 0))
       else firstM [0 ..< BLKFILES] (\<lambda>j.
         bindM (found (blk + FILE_SIZE * of_nat j)) (\<lambda>yes.
           ret (if yes then Some (0, blk + FILE_SIZE * of_nat j) else None)))))"

definition dir_lookup :: "u32 \<Rightarrow> u8 list \<Rightarrow> (i32 \<times> u32) fsprog" where
  "dir_lookup dir name =
     bindM (dir_nblock dir) (\<lambda>nblock.
     bindM (dir_search dir nblock (\<lambda>f. name_is f name)) (\<lambda>r.
       case r of None \<Rightarrow> ret (- E_NOT_FOUND, 0) | Some x \<Rightarrow> ret x))"

definition dir_alloc_file :: "u32 \<Rightarrow> (i32 \<times> u32) fsprog" where
  "dir_alloc_file dir =
     bindM (dir_nblock dir) (\<lambda>nblock.
     bindM (dir_search dir nblock (\<lambda>f. bindM (fs_load8 f) (\<lambda>b. ret (b = 0)))) (\<lambda>r.
       case r of
         Some x \<Rightarrow> ret x
       | None \<Rightarrow>
           bindM (fs_load32 (dir + f_size)) (\<lambda>sz.
           thenM (fs_store32 (dir + f_size) (sz + BLKSIZE))
           (bindM (file_get_block dir (of_nat nblock)) (\<lambda>(r, blk).
             if is_neg r then ret (r, 0) else ret (0, blk))))))"

definition skip_slash :: "u8 list \<Rightarrow> u8 list" where
  "skip_slash p = dropWhile (\<lambda>c. c = 0x2F) p"

text \<open>
  The loop of \<^verbatim>\<open>walk_path\<close>. The result is the code, the directory, the file and, when only
  the last element is missing, its name; null pointers are 0.
\<close>

function walk_from :: "u8 list \<Rightarrow> u32 \<Rightarrow> u32 \<Rightarrow> (i32 \<times> u32 \<times> u32 \<times> u8 list) fsprog" where
  "walk_from path dir f =
     (if path = [] then ret (0, dir, f, [])
      else let name = takeWhile (\<lambda>c. c \<noteq> 0x2F) path;
               rest = skip_slash (dropWhile (\<lambda>c. c \<noteq> 0x2F) path)
           in if MAXNAMELEN \<le> length name then ret (- E_BAD_PATH, 0, 0, [])
              else bindM (fs_load32 (f + f_type)) (\<lambda>ty.
                if ty \<noteq> FTYPE_DIR then ret (- E_NOT_FOUND, 0, 0, [])
                else bindM (dir_lookup f name) (\<lambda>(r, g).
                  if is_neg r then
                    (if r = - E_NOT_FOUND \<and> rest = [] then ret (r, f, 0, name) else ret (r, 0, 0, []))
                  else walk_from rest f g)))"
  by pat_completeness auto

termination
proof (relation "measure (\<lambda>(path, dir, f). length path)")
  fix path :: "u8 list" and dir f g name rest and r :: i32 and x :: "i32 \<times> u32"
  assume "path \<noteq> []" "rest = skip_slash (dropWhile (\<lambda>c. c \<noteq> 0x2F) path)"
  moreover have "length (dropWhile P xs) \<le> length xs" for P and xs :: "u8 list"
    by (rule length_dropWhile_le)
  ultimately have "length rest < length path"
    by (cases path) (auto simp: skip_slash_def less_Suc_eq_le intro: le_trans)
  then show "((rest, f, g), path, dir, f) \<in> measure (\<lambda>(path, dir, f). length path)" by simp
qed simp

definition walk_path :: "u8 list \<Rightarrow> (i32 \<times> u32 \<times> u32 \<times> u8 list) fsprog" where
  "walk_path path = bindM (getsM super) (\<lambda>sp. walk_from (skip_slash path) 0 (sp + s_root))"

section \<open>Removing blocks\<close>

definition file_free_block :: "u32 \<Rightarrow> u32 \<Rightarrow> i32 fsprog" where
  "file_free_block f filebno =
     bindM (file_block_walk f filebno False) (\<lambda>(r, slot).
       if is_neg r then ret r
       else case slot of
         None \<Rightarrow> stop FsUndefined
       | Some p \<Rightarrow>
           bindM (fs_load32 p) (\<lambda>v.
           thenM (whenM (v \<noteq> 0) (thenM (free_block v) (fs_store32 p 0))) (ret 0)))"

definition file_truncate_blocks :: "u32 \<Rightarrow> i32 \<Rightarrow> unit fsprog" where
  "file_truncate_blocks f newsize =
     bindM (fs_load32 (f + f_size)) (\<lambda>sz.
     let old_nblocks = sdiv32 (sz + BLKSIZE - 1) 4096;
         new_nblocks = sdiv32 (newsize + BLKSIZE - 1) 4096
     in thenM (forM [unat new_nblocks ..< unat old_nblocks] (\<lambda>bno.
          bindM (file_free_block f (of_nat bno)) (\<lambda>r. ret ())))
        (bindM (fs_load32 (f + f_indirect)) (\<lambda>ind.
         whenM (new_nblocks \<le> NDIRECT \<and> ind \<noteq> 0)
           (thenM (free_block ind) (fs_store32 (f + f_indirect) 0)))))"

definition file_set_size :: "u32 \<Rightarrow> i32 \<Rightarrow> i32 fsprog" where
  "file_set_size f newsize =
     bindM (fs_load32 (f + f_size)) (\<lambda>sz.
     thenM (whenM (sint newsize < sint sz) (file_truncate_blocks f newsize))
     (thenM (fs_store32 (f + f_size) newsize) (thenM (flush_block f) (ret 0))))"

definition file_flush :: "u32 \<Rightarrow> unit fsprog" where
  "file_flush f =
     bindM (fs_load32 (f + f_size)) (\<lambda>sz.
     thenM (forM [0 ..< nat (sint (sdiv32 (sz + BLKSIZE - 1) 4096))] (\<lambda>i.
       bindM (file_block_walk f (of_nat i) False) (\<lambda>(r, slot).
         if is_neg r then ret ()
         else case slot of
           None \<Rightarrow> ret ()
         | Some p \<Rightarrow> bindM (fs_load32 p) (\<lambda>v.
             whenM (v \<noteq> 0) (bindM (diskaddr v) flush_block)))))
     (thenM (flush_block f)
     (bindM (fs_load32 (f + f_indirect)) (\<lambda>ind.
        whenM (ind \<noteq> 0) (bindM (diskaddr ind) flush_block)))))"

section \<open>Files by path\<close>

definition file_create :: "u8 list \<Rightarrow> (i32 \<times> u32) fsprog" where
  "file_create path =
     bindM (walk_path path) (\<lambda>(r, dir, f, name).
       if r = 0 then ret (- E_FILE_EXISTS, 0)
       else if r \<noteq> - E_NOT_FOUND \<or> dir = 0 then ret (r, 0)
       else bindM (dir_alloc_file dir) (\<lambda>(r, f).
         if is_neg r then ret (r, 0)
         else thenM (fs_write_bytes f (name @ [0])) (thenM (file_flush dir) (ret (0, f)))))"

definition file_open :: "u8 list \<Rightarrow> (i32 \<times> u32) fsprog" where
  "file_open path = bindM (walk_path path) (\<lambda>(r, dir, f, name). ret (r, f))"

definition file_remove :: "u8 list \<Rightarrow> i32 fsprog" where
  "file_remove path =
     bindM (walk_path path) (\<lambda>(r, dir, f, name).
       if is_neg r then ret r
       else thenM (file_truncate_blocks f 0)
         (thenM (fs_store8 f 0) (thenM (fs_store32 (f + f_size) 0) (thenM (flush_block f) (ret 0)))))"

definition fs_sync :: "unit fsprog" where
  "fs_sync = bindM get_nblocks (\<lambda>nb.
     forM [1 ..< unat nb] (\<lambda>i. bindM (diskaddr (of_nat i)) flush_block))"

section \<open>Reading and writing\<close>

text \<open>
  One round moves the bytes up to the end of the block or of the request. \<open>stop_at\<close> is
  \<^verbatim>\<open>offset + count\<close>, which the position is compared with as an unsigned number.
\<close>

definition chunk :: "u32 \<Rightarrow> u32 \<Rightarrow> u32" where
  "chunk stop_at pos = MIN_u32 (BLKSIZE - smod32 pos 4096) (stop_at - pos)"

lemma sint_smod32: "sint (smod32 a 4096) = sint a smod 4096"
proof -
  have "\<bar>sint a smod 4096\<bar> < 4096"
    by (simp add: signed_modulo_int_def abs_mult)
  then show ?thesis by (simp add: smod32_def int_word_sint)
qed

lemma chunk_less:
  assumes "pos < stop_at"
  shows "unat (stop_at - (pos + chunk stop_at pos)) < unat (stop_at - pos)" and "0 < chunk stop_at pos"
proof -
  have "\<bar>sint pos smod 4096\<bar> < 4096"
    by (simp add: signed_modulo_int_def abs_mult)
  then have "sint (smod32 pos 4096) \<noteq> 4096" by (simp add: sint_smod32)
  then have "smod32 pos 4096 \<noteq> 4096" by auto
  then have "BLKSIZE - smod32 pos 4096 \<noteq> 0" by (simp add: BLKSIZE_def)
  moreover have "stop_at - pos \<noteq> 0" using assms by auto
  ultimately have c: "chunk stop_at pos \<noteq> 0" "chunk stop_at pos \<le> stop_at - pos"
    by (simp_all add: chunk_def min_def)
  then show "0 < chunk stop_at pos" by (simp add: word_gt_0)
  have e: "stop_at - (pos + chunk stop_at pos) = (stop_at - pos) - chunk stop_at pos" by simp
  have "unat ((stop_at - pos) - chunk stop_at pos) = unat (stop_at - pos) - unat (chunk stop_at pos)"
    using c(2) by (simp add: unat_sub word_le_nat_alt)
  moreover have "0 < unat (chunk stop_at pos)" using c(1) by (simp add: unat_gt_0)
  moreover have "unat (chunk stop_at pos) \<le> unat (stop_at - pos)" using c(2) by (simp add: word_le_nat_alt)
  ultimately show "unat (stop_at - (pos + chunk stop_at pos)) < unat (stop_at - pos)"
    unfolding e by linarith
qed

function read_loop :: "u32 \<Rightarrow> u32 \<Rightarrow> u32 \<Rightarrow> (i32 \<times> u8 list) fsprog" where
  "read_loop f stop_at pos =
     (if pos < stop_at then
        bindM (file_get_block f (sdiv32 pos 4096)) (\<lambda>(r, blk).
          if is_neg r then ret (r, [])
          else bindM (fs_read_bytes (blk + smod32 pos 4096) (unat (chunk stop_at pos))) (\<lambda>bs.
            bindM (read_loop f stop_at (pos + chunk stop_at pos)) (\<lambda>(r, rest). ret (r, bs @ rest))))
      else ret (0, []))"
  by pat_completeness auto
termination by (relation "measure (\<lambda>(f, stop_at, pos). unat (stop_at - pos))") (simp_all add: chunk_less)

definition file_read :: "u32 \<Rightarrow> u32 \<Rightarrow> i32 \<Rightarrow> (i32 \<times> u8 list) fsprog" where
  "file_read f count offset =
     bindM (fs_load32 (f + f_size)) (\<lambda>sz.
       if sint sz \<le> sint offset then ret (0, [])
       else let count = MIN_u32 count (sz - offset) in
         bindM (read_loop f (offset + count) offset) (\<lambda>(r, bs).
           ret (if is_neg r then r else count, bs)))"

function write_loop :: "u32 \<Rightarrow> (nat \<Rightarrow> u8) \<Rightarrow> u32 \<Rightarrow> u32 \<Rightarrow> i32 fsprog" where
  "write_loop f buf stop_at pos =
     (if pos < stop_at then
        bindM (file_get_block f (sdiv32 pos 4096)) (\<lambda>(r, blk).
          if is_neg r then ret r
          else let bn = unat (chunk stop_at pos) in
            thenM (fs_write_bytes (blk + smod32 pos 4096) (map buf [0 ..< bn]))
              (write_loop f (\<lambda>i. buf (bn + i)) stop_at (pos + chunk stop_at pos)))
      else ret 0)"
  by pat_completeness auto
termination
  by (relation "measure (\<lambda>(f, buf, stop_at, pos). unat (stop_at - pos))") (simp_all add: chunk_less)

definition file_write :: "u32 \<Rightarrow> (nat \<Rightarrow> u8) \<Rightarrow> u32 \<Rightarrow> i32 \<Rightarrow> i32 fsprog" where
  "file_write f buf count offset =
     bindM (fs_load32 (f + f_size)) (\<lambda>sz.
     bindM (if sz < offset + count then file_set_size f (offset + count) else ret 0) (\<lambda>r.
       if is_neg r then ret r
       else bindM (write_loop f buf (offset + count) offset) (\<lambda>r.
         ret (if is_neg r then r else count))))"

end
