(* ===== verification/Jos_Fs_Bitmap.thy ===== *)
theory Jos_Fs_Bitmap
  imports Jos_Fs
begin

text \<open>
  The bitmap of \<^verbatim>\<open>fs/fs.c\<close> on the file system image: the effect of setting and clearing
  a bit, and the two outcomes of \<^verbatim>\<open>alloc_block\<close>, which takes the least free block among those
  it searches, marks it used and writes the bitmap back.
\<close>

section \<open>Words in memory\<close>

lemma aligned_apart:
  fixes a b :: u32
  assumes "unat a mod 4 = 0" and "unat b mod 4 = 0" and "a \<noteq> b" and "i < 4" and "j < 4"
  shows "a + of_nat i \<noteq> b + of_nat j"
proof
  assume e: "a + of_nat i = b + of_nat j"
  then have "unat a + i = unat b + j"
    using PGNUM_near(2) [OF assms(1,4)] PGNUM_near(2) [OF assms(2,5)] by metis
  then have "unat a = unat b" using assms(1,2,4,5) by presburger
  then show False using assms(3) by (simp only: word_unat_eq_iff)
qed

lemma load4_upd_other:
  assumes "unat a mod 4 = 0" and "\<And>i. i < 4 \<Longrightarrow> m' (a + of_nat i) = m (a + of_nat i)"
  shows "load4 a m' = load4 a m"
  using assms(2) [of 0] assms(2) [of 1] assms(2) [of 2] assms(2) [of 3] by (simp add: load4_def)

lemma store4_other: "(\<And>i. i < 4 \<Longrightarrow> x \<noteq> b + of_nat i) \<Longrightarrow> store4 b w m x = m x"
proof -
  assume h: "\<And>i. i < 4 \<Longrightarrow> x \<noteq> b + of_nat i"
  show ?thesis using h [of 0] h [of 1] h [of 2] h [of 3] by (simp add: store4_def)
qed

lemma load4_store4_other:
  assumes "unat a mod 4 = 0" and "unat b mod 4 = 0" and "a \<noteq> b"
  shows "load4 a (store4 b w m) = load4 a m"
  using assms aligned_apart [OF assms] by (intro load4_upd_other store4_other) auto

lemma load4_store4_same [simp]: "load4 a (store4 a w m) = w"
proof (rule word_eq_bitI)
  fix n assume "n < LENGTH(32)"
  then consider "n < 8" | "8 \<le> n" "n < 16" | "16 \<le> n" "n < 24" | "24 \<le> n" "n < 32" by fastforce
  then show "bit (load4 a (store4 a w m)) n = bit w n"
    by cases (simp_all add: load4_def store4_def bit_or_iff bit_push_bit_iff bit_ucast_iff
        bit_drop_bit_eq less_diff_conv2)
qed

lemma bit_clear_one: "l < 32 \<Longrightarrow> bit ((w :: u32) AND NOT (push_bit k 1)) l \<longleftrightarrow> bit w l \<and> l \<noteq> k"
  unfolding bit_and_iff bit_not_iff bit_push_bit_iff bit_1_iff by (auto simp: possible_bit_def)

lemma bit_set_one: "l < 32 \<Longrightarrow> bit ((w :: u32) OR push_bit k 1) l \<longleftrightarrow> bit w l \<or> l = k"
  unfolding bit_or_iff bit_push_bit_iff bit_1_iff by (auto simp: possible_bit_def)

section \<open>The bitmap\<close>

lemma bit_free_bit: "bit_free m b \<longleftrightarrow> bit (load4 (bitmap_word b) m) (unat (b mod 32))"
  by (simp only: bit_free_def bit_iff_and_push_bit_not_eq_0)

definition clearbit :: "u32 \<Rightarrow> bmem \<Rightarrow> bmem" where
  "clearbit b m = store4 (bitmap_word b)
     (load4 (bitmap_word b) m AND NOT (push_bit (unat (b mod 32)) 1)) m"

definition setbit :: "u32 \<Rightarrow> bmem \<Rightarrow> bmem" where
  "setbit b m = store4 (bitmap_word b)
     (load4 (bitmap_word b) m OR push_bit (unat (b mod 32)) 1) m"

lemma bitmap_word_eq:
  assumes "b < 0xC0000" and "c < 0xC0000"
  shows "bitmap_word b = bitmap_word c \<longleftrightarrow> b div 32 = c div 32"
proof -
  have "bitmap_word b = bitmap_word c \<longleftrightarrow> unat b div 32 = unat c div 32"
    using assms by (simp add: word_unat_eq_iff unat_bitmap_word)
  also have "\<dots> \<longleftrightarrow> b div 32 = c div 32" by (simp add: word_unat_eq_iff unat_div)
  finally show ?thesis .
qed

lemma word_div_mod_eq: "(b :: u32) div 32 = c div 32 \<Longrightarrow> unat (b mod 32) = unat (c mod 32) \<Longrightarrow> b = c"
  by (metis div_mult_mod_eq word_unat_eq_iff)

lemma bit_free_clearbit:
  assumes "b < 0xC0000" and "c < 0xC0000"
  shows "bit_free (clearbit b m) c \<longleftrightarrow> bit_free m c \<and> c \<noteq> b"
proof (cases "bitmap_word b = bitmap_word c")
  case True
  then have "b div 32 = c div 32" using bitmap_word_eq [OF assms] by simp
  then have n: "unat (c mod 32) = unat (b mod 32) \<longleftrightarrow> c = b" using word_div_mod_eq by metis
  have "unat (c mod 32) < 32" by (simp add: unat_mod)
  then show ?thesis
    unfolding bit_free_bit clearbit_def True load4_store4_same using n bit_clear_one by blast
next
  case False
  then show ?thesis
    using bitmap_word_ok(2) [OF assms(1)] bitmap_word_ok(2) [OF assms(2)]
    by (auto simp: bit_free_bit clearbit_def load4_store4_other)
qed

lemma bit_free_setbit:
  assumes "b < 0xC0000" and "c < 0xC0000"
  shows "bit_free (setbit b m) c \<longleftrightarrow> bit_free m c \<or> c = b"
proof (cases "bitmap_word b = bitmap_word c")
  case True
  then have "b div 32 = c div 32" using bitmap_word_eq [OF assms] by simp
  then have n: "unat (c mod 32) = unat (b mod 32) \<longleftrightarrow> c = b" using word_div_mod_eq by metis
  have "unat (c mod 32) < 32" by (simp add: unat_mod)
  then show ?thesis
    unfolding bit_free_bit setbit_def True load4_store4_same using n bit_set_one by blast
next
  case False
  then show ?thesis
    using bitmap_word_ok(2) [OF assms(1)] bitmap_word_ok(2) [OF assms(2)]
    by (auto simp: bit_free_bit setbit_def load4_store4_other)
qed

text \<open>Addresses outside the pages of the bitmap are not affected.\<close>

definition off_bitmap :: "bmem \<Rightarrow> u32 \<Rightarrow> bool" where
  "off_bitmap m x \<longleftrightarrow> (\<forall>b < nblocks m. PGNUM x \<noteq> PGNUM (bitmap_word b))"

lemma bits_off_bitmap:
  assumes "b < nblocks m" and "nblocks m \<le> 0xC0000" and "off_bitmap m x"
  shows "clearbit b m x = m x" and "setbit b m x = m x"
proof -
  have b: "b < 0xC0000" using assms(1,2) by (rule less_le_trans)
  have "x \<noteq> bitmap_word b + of_nat i" if "i < 4" for i
    using assms(1,3) PGNUM_near(1) [OF bitmap_word_ok(2) [OF b] that] by (auto simp: off_bitmap_def)
  then show "clearbit b m x = m x" "setbit b m x = m x"
    by (simp_all add: clearbit_def setbit_def store4_other)
qed

lemma load4_bits_off_bitmap:
  assumes "b < nblocks m" and "nblocks m \<le> 0xC0000" and "off_bitmap m x" and "unat x mod 4 = 0"
  shows "load4 x (clearbit b m) = load4 x m" and "load4 x (setbit b m) = load4 x m"
proof -
  have "off_bitmap m (x + of_nat i)" if "i < 4" for i
    using assms(3) PGNUM_near(1) [OF assms(4) that] by (simp add: off_bitmap_def)
  then show "load4 x (clearbit b m) = load4 x m" "load4 x (setbit b m) = load4 x m"
    using assms by (auto intro!: load4_upd_other bits_off_bitmap)
qed

lemma PGNUM_bitmap_ge: "b < 0xC0000 \<Longrightarrow> 0x10002 \<le> PGNUM (bitmap_word b)"
  by (simp add: PGNUM_bitmap_word)

lemma off_bitmap_super: "nblocks m \<le> 0xC0000 \<Longrightarrow> PGNUM x \<le> 0x10001 \<Longrightarrow> off_bitmap m x"
  using PGNUM_bitmap_ge by (fastforce simp: off_bitmap_def dest: less_le_trans)

lemma nblocks_bits:
  assumes "b < nblocks m" and "nblocks m \<le> 0xC0000"
  shows "nblocks (clearbit b m) = nblocks m" and "nblocks (setbit b m) = nblocks m"
proof -
  have "off_bitmap m (DISKMAP + 0x1000 + s_nblocks)"
    using assms(2) by (intro off_bitmap_super) (simp_all add: PGNUM_eq kconst)
  then show "nblocks (clearbit b m) = nblocks m" "nblocks (setbit b m) = nblocks m"
    using assms load4_bits_off_bitmap super_words(2) by (auto simp: nblocks_def)
qed

lemma geometry_bounds: "geometry m \<Longrightarrow> nblocks m \<le> 0xC0000"
  by (simp add: geometry_def)

lemma geometry_le:
  assumes "geometry m" and "b < nblocks m"
  shows "2 + b div 32768 \<le> 2 + (nblocks m - 1) div 32768" "2 + b div 32768 < nblocks m"
    "b < 0xC0000"
proof -
  have nb: "nblocks m \<le> 0xC0000" using assms(1) by (simp add: geometry_def)
  show b: "b < 0xC0000" using assms(2) nb by (rule less_le_trans)
  show "2 + b div 32768 < nblocks m" using assms by (auto simp: geometry_def block_used_def)
  have "unat b \<le> unat (nblocks m) - 1" using assms(2) by (simp add: word_less_nat_alt)
  moreover have "unat (nblocks m - 1) = unat (nblocks m) - 1" using assms(2) by (intro unat_pred) auto
  ultimately have d: "unat b div 32768 \<le> unat (nblocks m - 1) div 32768" by (simp add: div_le_mono)
  have "unat (nblocks m - 1) div 32768 < 24"
    using nb \<open>unat (nblocks m - 1) = _\<close> assms(2) by (simp add: word_le_nat_alt word_less_nat_alt)
  then show "2 + b div 32768 \<le> 2 + (nblocks m - 1) div 32768"
    using d by (simp add: word_le_nat_alt unat_word_ariths unat_div)
qed

lemma geometry_clearbit:
  assumes "geometry m" and "b < nblocks m"
  shows "geometry (clearbit b m)"
proof -
  note nb = geometry_bounds [OF assms(1)]
  have "block_used (clearbit b m) (2 + c div 32768)" if c: "c < nblocks m" for c
  proof -
    have "block_used m (2 + c div 32768)" using assms(1) c by (simp add: geometry_def)
    moreover from this have "2 + c div 32768 < 0xC0000" using nb by (auto simp: block_used_def intro: less_le_trans)
    ultimately show ?thesis
      using nblocks_bits [OF assms(2) nb] bit_free_clearbit geometry_le(3) [OF assms] by (simp add: block_used_def)
  qed
  then show ?thesis using nblocks_bits [OF assms(2) nb] nb by (simp add: geometry_def)
qed

lemma geometry_setbit:
  assumes "geometry m" and "datab m b"
  shows "geometry (setbit b m)"
proof -
  note nb = geometry_bounds [OF assms(1)]
  have b: "b < nblocks m" "2 + (nblocks m - 1) div 32768 < b" using assms(2) by (simp_all add: datab_def block_used_def)
  have "block_used (setbit b m) (2 + c div 32768)" if c: "c < nblocks m" for c
  proof -
    have "block_used m (2 + c div 32768)" using assms(1) c by (simp add: geometry_def)
    moreover from this have "2 + c div 32768 < 0xC0000" using nb by (auto simp: block_used_def intro: less_le_trans)
    moreover have "2 + c div 32768 \<noteq> b" using geometry_le(1) [OF assms(1) c] b(2) by auto
    ultimately show ?thesis
      using nblocks_bits [OF b(1) nb] bit_free_setbit geometry_le(3) [OF assms(1) b(1)] by (simp add: block_used_def)
  qed
  then show ?thesis using nblocks_bits [OF b(1) nb] nb by (simp add: geometry_def)
qed

section \<open>Allocation\<close>

lemma runs_firstM_skip:
  assumes "bc_ok s" and "\<And>i t. i \<in> set is \<Longrightarrow> bc_ok t \<Longrightarrow> fsmem t = fsmem s \<Longrightarrow> runs (f i) t None (fsmem t)"
    and "\<And>t. bc_ok t \<Longrightarrow> fsmem t = fsmem s \<Longrightarrow> runs (firstM js f) t r v"
  shows "runs (firstM (is @ js) f) s r v"
  using assms
proof (induction "is" arbitrary: s)
  case (Cons i "is")
  have "runs (f i) s None (fsmem s)" using Cons.prems(2) [of i s] Cons.prems(1) by simp
  then show ?case
    unfolding append_Cons firstM.simps
  proof (rule runs_bind)
    fix t assume "bc_ok t" "fsmem t = fsmem s"
    then show "runs (case None of None \<Rightarrow> firstM (is @ js) f | Some a \<Rightarrow> ret (Some a)) t r v"
      using Cons.IH [of t] Cons.prems(2,3) by simp
  qed
qed simp

lemma runs_firstM_None:
  assumes "bc_ok s" and "\<And>i t. i \<in> set is \<Longrightarrow> bc_ok t \<Longrightarrow> fsmem t = fsmem s \<Longrightarrow> runs (f i) t None (fsmem t)"
  shows "runs (firstM is f) s None (fsmem s)"
  using runs_firstM_skip [of s "is" f "[]" None "fsmem s"] assms runs_ret by fastforce

lemma runs_firstM_hit:
  assumes "runs (f i) s (Some x) v"
  shows "runs (firstM (i # is) f) s (Some x) v"
  unfolding firstM.simps by (rule runs_bind [OF assms]) (auto simp: runs_def)

lemma runs_get_nblocks: "bc_ok s \<Longrightarrow> runs get_nblocks s (nblocks (fsmem s)) (fsmem s)"
  unfolding get_nblocks_def by (rule runs_load_nblocks)

lemma getsM_bind: "runs (f (g s)) s x v \<Longrightarrow> runs (bindM (getsM g) f) s x v"
  by (simp add: runs_def)

lemma bc_ok_pointers: "bc_ok s \<Longrightarrow> super s = DISKMAP + 0x1000" "bc_ok s \<Longrightarrow> bitmap s = DISKMAP + 0x2000"
  "bc_ok s \<Longrightarrow> geometry (fsmem s)"
  by (simp_all add: bc_ok_def)

text \<open>The word and bit of a block number below the multiple of 32 that the search covers.\<close>

definition scan_limit :: "bmem \<Rightarrow> nat" where
  "scan_limit m = 32 * (unat (nblocks m) div 32)"

lemma block_of_bit:
  assumes "i < 24576" and "j < 32"
  shows "(of_nat i * 32 OR of_nat j :: u32) = of_nat (32 * i + j)"
    and "bitmap_word (of_nat (32 * i + j)) = DISKMAP + 0x2000 + 4 * of_nat i"
    and "unat ((of_nat (32 * i + j) :: u32) mod 32) = j"
    and "unat (of_nat (32 * i + j) :: u32) = 32 * i + j"
proof -
  show u: "unat (of_nat (32 * i + j) :: u32) = 32 * i + j"
    using assms by (simp only: unat_of_nat) simp
  have "(of_nat i * 32 :: u32) = push_bit 5 (of_nat i)" by (simp add: push_bit_eq_mult)
  moreover have "\<not> bit (of_nat j :: u32) n" if "5 \<le> n" for n
    using assms(2) that by (intro bit_less_exp [of _ 5]) (simp_all add: word_less_nat_alt unat_of_nat)
  ultimately have "(of_nat i * 32 OR of_nat j :: u32) = of_nat i * 32 + of_nat j"
    by (intro disjunctive_add [symmetric]) (auto simp: bit_push_bit_iff not_le)
  then show "(of_nat i * 32 OR of_nat j :: u32) = of_nat (32 * i + j)" by simp
  have "unat ((of_nat (32 * i + j) :: u32) div 32) = i" using assms u by (simp only: unat_div) simp
  then have "(of_nat (32 * i + j) :: u32) div 32 = of_nat i" by (metis of_nat_unat ucast_id)
  then show "bitmap_word (of_nat (32 * i + j)) = DISKMAP + 0x2000 + 4 * of_nat i"
    by (simp only: bitmap_word_def)
  show "unat ((of_nat (32 * i + j) :: u32) mod 32) = j" using assms u by (simp only: unat_mod) simp
qed

lemma bitmap_word_live:
  assumes "bc_ok s" and "b < nblocks (fsmem s)"
  shows "\<not> outside_cache (bitmap_word b)" "unat (bitmap_word b) mod 4 = 0"
    "block_used (fsmem s) (blockno_of (bitmap_word b))" "b < 0xC0000"
proof -
  have g: "geometry (fsmem s)" using assms(1) by (rule bc_ok_pointers)
  show b: "b < 0xC0000" by (rule geometry_le(3) [OF g assms(2)])
  show "\<not> outside_cache (bitmap_word b)" "unat (bitmap_word b) mod 4 = 0" by (rule bitmap_word_ok [OF b])+
  show "block_used (fsmem s) (blockno_of (bitmap_word b))"
    using g assms(2) by (simp add: blockno_of_bitmap_word [OF b] geometry_def)
qed

lemma runs_alloc_bit:
  assumes ok: "bc_ok s" and i: "i < unat (nblocks (fsmem s)) div 32" and j: "j < 32"
  defines "b \<equiv> of_nat (32 * i + j)"
  shows "\<not> bit_free (fsmem s) b \<Longrightarrow> runs (alloc_bit i j) s None (fsmem s)"
    and "bit_free (fsmem s) b \<Longrightarrow> runs (alloc_bit i j) s (Some b) (clearbit b (fsmem s))"
proof -
  have g: "geometry (fsmem s)" by (rule bc_ok_pointers [OF ok])
  have nb: "unat (nblocks (fsmem s)) \<le> 0xC0000" using geometry_bounds [OF g] by (simp add: word_le_nat_alt)
  then have i': "i < 24576" using i by linarith
  note bb = block_of_bit [OF i' j, folded b_def]
  have lt: "b < nblocks (fsmem s)" using i j bb(4) by (simp add: word_less_nat_alt)
  note bw = bitmap_word_live [OF ok lt]
  have w: "w AND push_bit j 1 = 0 \<longleftrightarrow> \<not> bit w j" for w :: u32 by (simp only: bit_iff_and_push_bit_not_eq_0 not_not)
  have load: "runs (fs_load32 (DISKMAP + 0x2000 + 4 * of_nat i)) s (load4 (bitmap_word b) (fsmem s)) (fsmem s)"
    using runs_load [OF ok bw(1,2,3)] by (simp only: bb(2))
  show "\<not> bit_free (fsmem s) b \<Longrightarrow> runs (alloc_bit i j) s None (fsmem s)"
    unfolding alloc_bit_def
  proof (rule getsM_bind, unfold bc_ok_pointers(2) [OF ok], rule runs_bind [OF load])
    fix t assume n: "\<not> bit_free (fsmem s) b" and t: "bc_ok t" "fsmem t = fsmem s"
    then have "\<not> bit (load4 (bitmap_word b) (fsmem s)) j" by (simp add: bit_free_bit bb(3))
    then show "runs (if load4 (bitmap_word b) (fsmem s) AND push_bit j 1 = 0 then ret None
        else thenM (fs_store32 (DISKMAP + 0x2000 + 4 * of_nat i)
            (load4 (bitmap_word b) (fsmem s) AND NOT (push_bit j 1)))
          (bindM (diskaddr ((of_nat i * 32 OR of_nat j) div BLKBITSIZE + 2)) (\<lambda>a.
            thenM (flush_block a) (ret (Some (of_nat i * 32 OR of_nat j)))))) t None (fsmem s)"
      using t runs_ret [OF t(1)] by (simp only: w not_not if_True simp_thms t(2))
  qed
  show "bit_free (fsmem s) b \<Longrightarrow> runs (alloc_bit i j) s (Some b) (clearbit b (fsmem s))"
    unfolding alloc_bit_def
  proof (rule getsM_bind, unfold bc_ok_pointers(2) [OF ok], rule runs_bind [OF load])
    fix t assume free: "bit_free (fsmem s) b" and t: "bc_ok t" "fsmem t = fsmem s"
    then have bit: "bit (load4 (bitmap_word b) (fsmem s)) j" by (simp add: bit_free_bit bb(3))
    have g': "geometry (clearbit b (fsmem s))" by (rule geometry_clearbit [OF g lt])
    have st: "runs (fs_store32 (DISKMAP + 0x2000 + 4 * of_nat i)
        (load4 (bitmap_word b) (fsmem s) AND NOT (push_bit j 1))) t () (clearbit b (fsmem s))"
      using runs_store32 [OF t(1) bw(1,2), of "load4 (bitmap_word b) (fsmem s) AND NOT (push_bit j 1)"]
        bw(3) g' by (simp add: t(2) clearbit_def bb(2,3))
    have "runs (thenM (fs_store32 (DISKMAP + 0x2000 + 4 * of_nat i)
            (load4 (bitmap_word b) (fsmem s) AND NOT (push_bit j 1)))
          (bindM (diskaddr (b div BLKBITSIZE + 2)) (\<lambda>a.
            thenM (flush_block a) (ret (Some b))))) t (Some b) (clearbit b (fsmem s))"
    proof (rule runs_then [OF st])
      fix u assume u: "bc_ok u" "fsmem u = clearbit b (fsmem s)"
      have e: "b div BLKBITSIZE + 2 = 2 + b div 32768" by (simp add: BLKBITSIZE_def add.commute)
      have "2 + b div 32768 < nblocks (fsmem u)"
        using geometry_le(2) [OF g lt] nblocks_bits(1) [OF lt geometry_bounds [OF g]] by (simp add: u(2))
      moreover have "2 + b div 32768 \<noteq> 0"
      proof -
        have "unat b div 32768 < 24" using bw(4) by (simp add: word_less_nat_alt)
        then have "unat (2 + b div 32768) = 2 + unat b div 32768" by (simp add: unat_word_ariths unat_div)
        then show ?thesis by (metis add_is_0 unat_0 zero_neq_numeral)
      qed
      ultimately have d: "runs (diskaddr (b div BLKBITSIZE + 2)) u
          (DISKMAP + (2 + b div 32768) * BLKSIZE) (fsmem u)"
        using runs_diskaddr [OF u(1)] by (simp only: e)
      have "2 + b div 32768 < 0xC0000" using geometry_le [OF g geometry_le(2) [OF g lt]] by simp
      then have nbad: "\<not> outside_cache (DISKMAP + (2 + b div 32768) * BLKSIZE)" by (rule block_base)
      show "runs (bindM (diskaddr (b div BLKBITSIZE + 2)) (\<lambda>a. thenM (flush_block a) (ret (Some b)))) u
          (Some b) (clearbit b (fsmem s))"
      proof (rule runs_bind [OF d])
        fix v assume v: "bc_ok v" "fsmem v = fsmem u"
        show "runs (thenM (flush_block (DISKMAP + (2 + b div 32768) * BLKSIZE)) (ret (Some b))) v
            (Some b) (clearbit b (fsmem s))"
          by (rule runs_then [OF runs_flush [OF v(1) nbad]]) (auto simp: runs_def v u)
      qed
    qed
    then show "runs (if load4 (bitmap_word b) (fsmem s) AND push_bit j 1 = 0 then ret None
        else thenM (fs_store32 (DISKMAP + 0x2000 + 4 * of_nat i)
            (load4 (bitmap_word b) (fsmem s) AND NOT (push_bit j 1)))
          (bindM (diskaddr ((of_nat i * 32 OR of_nat j) div BLKBITSIZE + 2)) (\<lambda>a.
            thenM (flush_block a) (ret (Some (of_nat i * 32 OR of_nat j)))))) t (Some b)
        (clearbit b (fsmem s))"
      unfolding bb(1) w using bit by simp
  qed
qed

lemma scan_limit_le: "scan_limit m \<le> unat (nblocks m)"
  by (simp add: scan_limit_def)

lemma scan_word: "k < scan_limit m \<Longrightarrow> k div 32 < unat (nblocks m) div 32"
  by (simp add: scan_limit_def less_mult_imp_div_less mult.commute)

lemma runs_alloc_word_none:
  assumes "bc_ok s" and "i < unat (nblocks (fsmem s)) div 32"
    and "\<And>j. j < 32 \<Longrightarrow> \<not> bit_free (fsmem s) (of_nat (32 * i + j))"
  shows "runs (firstM [0 ..< 32] (alloc_bit i)) s None (fsmem s)"
proof (rule runs_firstM_None [OF assms(1)])
  fix j t assume "j \<in> set [0 ..< 32]" "bc_ok t" "fsmem t = fsmem s"
  then show "runs (alloc_bit i j) t None (fsmem t)"
    using runs_alloc_bit(1) [of t i j] assms(2,3) by simp
qed

lemma alloc_block_run:
  assumes ok: "bc_ok s" and scan: "\<And>t. bc_ok t \<Longrightarrow> fsmem t = fsmem s \<Longrightarrow>
      runs (firstM [0 ..< unat (nblocks (fsmem s) div 32)] (\<lambda>i. firstM [0 ..< 32] (alloc_bit i))) t r v"
  shows "runs alloc_block s (case r of None \<Rightarrow> - E_NO_DISK | Some b \<Rightarrow> b) v"
  unfolding alloc_block_def
proof (rule runs_bind [OF runs_get_nblocks [OF ok]])
  fix t assume t: "bc_ok t" "fsmem t = fsmem s"
  show "runs (bindM (firstM [0 ..< unat (nblocks (fsmem s) div 32)] (\<lambda>i. firstM [0 ..< 32] (alloc_bit i)))
      (\<lambda>r. case r of None \<Rightarrow> ret (- E_NO_DISK) | Some b \<Rightarrow> ret b)) t
      (case r of None \<Rightarrow> - E_NO_DISK | Some b \<Rightarrow> b) v"
    by (rule runs_bind [OF scan [OF t]]) (auto simp: runs_def split: option.split)
qed

lemma alloc_block_full:
  assumes ok: "bc_ok s" and none: "\<And>k. k < scan_limit (fsmem s) \<Longrightarrow> \<not> bit_free (fsmem s) (of_nat k)"
  shows "runs alloc_block s (- E_NO_DISK) (fsmem s)"
proof -
  have "runs (firstM [0 ..< unat (nblocks (fsmem s) div 32)] (\<lambda>i. firstM [0 ..< 32] (alloc_bit i))) t
      None (fsmem s)" if t: "bc_ok t" "fsmem t = fsmem s" for t
  proof -
    have "runs (firstM [0 ..< unat (nblocks (fsmem s) div 32)] (\<lambda>i. firstM [0 ..< 32] (alloc_bit i))) t
      None (fsmem t)"
    proof (rule runs_firstM_None [OF t(1)])
      fix i u assume "i \<in> set [0 ..< unat (nblocks (fsmem s) div 32)]" and u: "bc_ok u" "fsmem u = fsmem t"
      then have i: "i < unat (nblocks (fsmem u)) div 32" by (simp add: unat_div t(2))
      have "\<not> bit_free (fsmem u) (of_nat (32 * i + j))" if "j < 32" for j
        using none [of "32 * i + j"] i that u(2) t(2) by (simp add: scan_limit_def)
      then show "runs (firstM [0 ..< 32] (alloc_bit i)) u None (fsmem u)"
        by (rule runs_alloc_word_none [OF u(1) i])
    qed
    then show ?thesis using t(2) by simp
  qed
  from alloc_block_run [OF ok this] show ?thesis by simp
qed

lemma upt_split: "i < n \<Longrightarrow> [0 ..< n] = [0 ..< i] @ i # [Suc i ..< n]"
  by (metis less_imp_add_positive upt_add_eq_append upt_conv_Cons le0 add_0 less_imp_le_nat le_add_diff_inverse)

lemma alloc_block_first:
  assumes ok: "bc_ok s" and k: "k < scan_limit (fsmem s)" "bit_free (fsmem s) (of_nat k)"
    and least: "\<And>l. l < k \<Longrightarrow> \<not> bit_free (fsmem s) (of_nat l)"
  shows "runs alloc_block s (of_nat k) (clearbit (of_nat k) (fsmem s))"
proof -
  define i j where "i = k div 32" and "j = k mod 32"
  have ij: "32 * i + j = k" "j < 32" by (simp_all add: i_def j_def)
  have i: "i < unat (nblocks (fsmem s)) div 32" using scan_word [OF k(1)] by (simp add: i_def)
  let ?f = "\<lambda>i. firstM [0 ..< 32] (alloc_bit i)"
  have hit: "runs (?f i) t (Some (of_nat k)) (clearbit (of_nat k) (fsmem s))"
    if t: "bc_ok t" "fsmem t = fsmem s" for t
    unfolding upt_split [OF ij(2)]
  proof (rule runs_firstM_skip [OF t(1)])
    fix l u assume "l \<in> set [0 ..< j]" and u: "bc_ok u" "fsmem u = fsmem t"
    then show "runs (alloc_bit i l) u None (fsmem u)"
      using runs_alloc_bit(1) [of u i l] i ij t(2) least [of "32 * i + l"] by simp
  next
    fix u assume u: "bc_ok u" "fsmem u = fsmem t"
    then have "runs (alloc_bit i j) u (Some (of_nat k)) (clearbit (of_nat k) (fsmem s))"
      using runs_alloc_bit(2) [of u i j] i ij t(2) k(2) by (simp only: ij(1))
    then show "runs (firstM (j # [Suc j ..< 32]) (alloc_bit i)) u (Some (of_nat k)) (clearbit (of_nat k) (fsmem s))"
      by (rule runs_firstM_hit)
  qed
  have lt: "i < unat (nblocks (fsmem s) div 32)" using i by (simp add: unat_div)
  have "runs (firstM [0 ..< unat (nblocks (fsmem s) div 32)] ?f) t (Some (of_nat k))
      (clearbit (of_nat k) (fsmem s))" if t: "bc_ok t" "fsmem t = fsmem s" for t
    unfolding upt_split [OF lt]
  proof (rule runs_firstM_skip [OF t(1)])
    fix l u assume l: "l \<in> set [0 ..< i]" and u: "bc_ok u" "fsmem u = fsmem t"
    then have li: "l < unat (nblocks (fsmem u)) div 32" using i t(2) by simp
    have "\<not> bit_free (fsmem u) (of_nat (32 * l + h))" if "h < 32" for h
      using least [of "32 * l + h"] that l ij u(2) t(2) by simp
    then show "runs (?f l) u None (fsmem u)" by (rule runs_alloc_word_none [OF u(1) li])
  next
    fix u assume u: "bc_ok u" "fsmem u = fsmem t"
    then show "runs (firstM (i # [Suc i ..< unat (nblocks (fsmem s) div 32)]) ?f) u (Some (of_nat k))
        (clearbit (of_nat k) (fsmem s))"
      using hit t(2) by (intro runs_firstM_hit) simp
  qed
  from alloc_block_run [OF ok this] show ?thesis by simp
qed

text \<open>The number of blocks that can still be allocated.\<close>

definition free_blocks :: "bmem \<Rightarrow> nat set" where
  "free_blocks m = {k. k < scan_limit m \<and> bit_free m (of_nat k)}"

lemma finite_free_blocks [simp]: "finite (free_blocks m)"
  by (simp add: free_blocks_def)

definition next_free :: "bmem \<Rightarrow> u32" where
  "next_free m = of_nat (Min (free_blocks m))"

lemma next_free:
  assumes "free_blocks m \<noteq> {}"
  shows "unat (next_free m) = Min (free_blocks m)" and "unat (next_free m) \<in> free_blocks m"
    and "next_free m < nblocks m" and "bit_free m (next_free m)"
proof -
  define k where "k = Min (free_blocks m)"
  have k: "k \<in> free_blocks m" using assms by (simp add: k_def)
  then have kk: "k < scan_limit m" "bit_free m (of_nat k)" unfolding free_blocks_def by blast+
  then have lim: "k < unat (nblocks m)" using scan_limit_le by (auto intro: less_le_trans)
  have nf: "next_free m = of_nat k" by (simp add: next_free_def k_def)
  have u: "unat (next_free m) = k"
    unfolding nf using lim u32_bound [of "nblocks m"] by (simp only: unat_of_nat) simp
  show "unat (next_free m) = Min (free_blocks m)" unfolding u k_def ..
  show "unat (next_free m) \<in> free_blocks m" unfolding u by (rule k)
  show "next_free m < nblocks m" unfolding word_less_nat_alt u by (rule lim)
  show "bit_free m (next_free m)" unfolding nf by (rule kk)
qed

lemma alloc_block_ok:
  assumes ok: "bc_ok s" and ne: "free_blocks (fsmem s) \<noteq> {}"
  shows "runs alloc_block s (next_free (fsmem s)) (clearbit (next_free (fsmem s)) (fsmem s))"
proof -
  define k where "k = Min (free_blocks (fsmem s))"
  have "k \<in> free_blocks (fsmem s)" using ne by (simp add: k_def)
  then have k: "k < scan_limit (fsmem s)" "bit_free (fsmem s) (of_nat k)"
    unfolding free_blocks_def by blast+
  have "\<not> bit_free (fsmem s) (of_nat l)" if "l < k" for l
  proof
    assume "bit_free (fsmem s) (of_nat l)"
    then have "l \<in> free_blocks (fsmem s)" using k(1) that by (simp add: free_blocks_def)
    then have "k \<le> l" by (simp add: k_def)
    then show False using that by simp
  qed
  then show ?thesis
    using alloc_block_first [OF ok k] unfolding next_free_def k_def [symmetric] by blast
qed

lemma free_blocks_clearbit:
  assumes "geometry m" and "b < nblocks m"
  shows "free_blocks (clearbit b m) = free_blocks m - {unat b}"
proof -
  have nb: "nblocks (clearbit b m) = nblocks m" using nblocks_bits [OF assms(2) geometry_bounds [OF assms(1)]] by simp
  have "bit_free (clearbit b m) (of_nat k) \<longleftrightarrow> bit_free m (of_nat k) \<and> k \<noteq> unat b" if "k < scan_limit m" for k
  proof -
    have "k < unat (nblocks m)" using that scan_limit_le by (rule less_le_trans)
    then have u: "unat (of_nat k :: u32) = k" using u32_bound [of "nblocks m"] by (simp add: unat_of_nat)
    then have "(of_nat k :: u32) < nblocks m" using \<open>k < unat (nblocks m)\<close> by (simp add: word_less_nat_alt)
    then have "bit_free (clearbit b m) (of_nat k) \<longleftrightarrow> bit_free m (of_nat k) \<and> of_nat k \<noteq> b"
      using bit_free_clearbit geometry_le(3) [OF assms(1)] assms(2) by blast
    then show ?thesis using u by (auto simp: word_unat_eq_iff)
  qed
  then show ?thesis by (auto simp: free_blocks_def nb scan_limit_def)
qed

end
