(* ===== verification/Jos_Fs_Map.thy ===== *)
theory Jos_Fs_Map
  imports Jos_Fs_Bitmap
begin

text \<open>
  The block maps of the files. \<open>uses m f k\<close> is the block at position \<open>k\<close> of file \<open>f\<close>, 0
  if there is none; position 1034 is the indirect block. The invariant \<open>fsinv m F\<close> of an image
  with the file records \<open>F\<close> says that used blocks are block_used and behind the bitmap, that no two
  positions of any files share a block, and that no indirect block holds a file record. Each
  update of the image the code makes has its effect on \<open>uses\<close> as a lemma.
\<close>

section \<open>Cells\<close>

definition indirect :: "bmem \<Rightarrow> u32 \<Rightarrow> u32" where
  "indirect m f = load4 (f + f_indirect) m"

definition cell :: "bmem \<Rightarrow> u32 \<Rightarrow> nat \<Rightarrow> u32" where
  "cell m f k =
     (if k < 10 then f + f_direct + 4 * of_nat k
      else if k = 1034 then f + f_indirect
      else DISKMAP + indirect m f * BLKSIZE + 4 * of_nat (k - 10))"

definition uses :: "bmem \<Rightarrow> u32 \<Rightarrow> nat \<Rightarrow> u32" where
  "uses m f k = (if 10 \<le> k \<and> k < 1034 \<and> indirect m f = 0 then 0 else load4 (cell m f k) m)"

definition fsize :: "bmem \<Rightarrow> u32 \<Rightarrow> u32" where
  "fsize m f = load4 (f + f_size) m"

lemma uses_indirect: "uses m f 1034 = indirect m f"
  by (simp add: uses_def cell_def indirect_def)

text \<open>A file record lies in one block, which is the super block or holds data.\<close>

definition file_at :: "bmem \<Rightarrow> u32 \<Rightarrow> bool" where
  "file_at m f \<longleftrightarrow> \<not> outside_cache f \<and> unat f mod 4 = 0 \<and> unat f mod 4096 + 256 \<le> 4096
     \<and> (f = DISKMAP + 0x1000 + s_root \<or> datab m (blockno_of f))"

definition apart_files :: "u32 \<Rightarrow> u32 \<Rightarrow> bool" where
  "apart_files f g \<longleftrightarrow> unat f + 256 \<le> unat g \<or> unat g + 256 \<le> unat f"

definition fsinv :: "bmem \<Rightarrow> u32 set \<Rightarrow> bool" where
  "fsinv m F \<longleftrightarrow> geometry m \<and> block_used m 0 \<and> block_used m 1
     \<and> (\<forall>f \<in> F. file_at m f \<and> (\<forall>g \<in> F. f \<noteq> g \<longrightarrow> apart_files f g))
     \<and> (\<forall>f \<in> F. \<forall>k \<le> 1034. uses m f k \<noteq> 0 \<longrightarrow> datab m (uses m f k)
         \<and> (\<forall>g \<in> F. \<forall>l \<le> 1034. uses m g l = uses m f k \<longrightarrow> g = f \<and> l = k))
     \<and> (\<forall>f \<in> F. \<forall>g \<in> F. indirect m f \<noteq> 0 \<longrightarrow> indirect m f \<noteq> blockno_of g)
     \<and> (\<forall>f \<in> F. unat (fsize m f) \<le> 1034 * 4096)"

lemma fsinvD:
  assumes "fsinv m F"
  shows "geometry m" "block_used m 0" "block_used m 1" "f \<in> F \<Longrightarrow> file_at m f"
    "f \<in> F \<Longrightarrow> g \<in> F \<Longrightarrow> f \<noteq> g \<Longrightarrow> apart_files f g"
    "f \<in> F \<Longrightarrow> k \<le> 1034 \<Longrightarrow> uses m f k \<noteq> 0 \<Longrightarrow> datab m (uses m f k)"
    "f \<in> F \<Longrightarrow> g \<in> F \<Longrightarrow> k \<le> 1034 \<Longrightarrow> l \<le> 1034 \<Longrightarrow> uses m f k \<noteq> 0 \<Longrightarrow> uses m g l = uses m f k \<Longrightarrow>
      g = f \<and> l = k"
    "f \<in> F \<Longrightarrow> g \<in> F \<Longrightarrow> indirect m f \<noteq> 0 \<Longrightarrow> indirect m f \<noteq> blockno_of g"
    "f \<in> F \<Longrightarrow> unat (fsize m f) \<le> 1034 * 4096"
  using assms unfolding fsinv_def by blast+

section \<open>Where cells lie\<close>

text \<open>A word that the code may load and store, away from the bitmap and the block count.\<close>

definition word_ok :: "bmem \<Rightarrow> u32 \<Rightarrow> bool" where
  "word_ok m a \<longleftrightarrow> \<not> outside_cache a \<and> unat a mod 4 = 0 \<and> block_used m (blockno_of a) \<and> off_bitmap m a
     \<and> a \<noteq> DISKMAP + 0x1000 + s_nblocks"

lemma datab_lt: "geometry m \<Longrightarrow> datab m b \<Longrightarrow> b < 0xC0000"
  by (auto simp: datab_def block_used_def geometry_def intro: less_le_trans)

lemma datab_ne: "geometry m \<Longrightarrow> datab m b \<Longrightarrow> b \<noteq> 0 \<and> b \<noteq> 1"
proof -
  assume g: "geometry m" and d: "datab m b"
  have "b < nblocks m" using d by (simp add: datab_def block_used_def)
  then have "2 + (nblocks m - 1) div 32768 < b" "nblocks m \<le> 0xC0000" "nblocks m \<noteq> 0"
    using g d by (auto simp: datab_def geometry_def)
  moreover have "unat (2 + (nblocks m - 1) div 32768) = 2 + unat (nblocks m - 1) div 32768"
  proof -
    have "unat (nblocks m - 1) div 32768 < 131072" using u32_bound [of "nblocks m - 1"] by simp
    then show ?thesis by (simp add: unat_word_ariths unat_div)
  qed
  ultimately have "2 < unat b" by (simp add: word_less_nat_alt)
  then show "b \<noteq> 0 \<and> b \<noteq> 1" by auto
qed

lemma off_bitmap_datab:
  assumes "geometry m" and "datab m b" and "PGNUM x = 0x10000 + unat b"
  shows "off_bitmap m x"
  unfolding off_bitmap_def
proof (intro allI impI)
  fix c assume c: "c < nblocks m"
  have lt: "c < 0xC0000" by (rule geometry_le(3) [OF assms(1) c])
  have "unat (2 + c div 32768) = 2 + unat c div 32768"
  proof -
    have "unat c div 32768 < 24" using lt by (simp add: word_less_nat_alt)
    then show ?thesis by (simp add: unat_word_ariths unat_div)
  qed
  moreover have "2 + c div 32768 < b"
    using geometry_le(1) [OF assms(1) c] assms(2) unfolding datab_def by (blast intro: le_less_trans)
  ultimately have "2 + unat c div 32768 < unat b" by (simp add: word_less_nat_alt)
  then show "PGNUM x \<noteq> PGNUM (bitmap_word c)" using assms(3) by (simp add: PGNUM_bitmap_word [OF lt])
qed

lemma page_bytes:
  assumes "unat a mod 4096 + n \<le> 4096" and "c < n"
  shows "unat (a + of_nat c) = unat a + c" and "PGNUM (a + of_nat c) = PGNUM a"
proof -
  have k: "unat a mod 4096 + c < 4096" using assms by linarith
  have d: "unat a = 4096 * (unat a div 4096) + unat a mod 4096" by simp
  have "unat a div 4096 < 1048576" using u32_bound [of a] by simp
  then have "unat a + c < 4294967296" using k d by linarith
  then show u: "unat (a + of_nat c) = unat a + c" by (simp add: unat_word_ariths unat_of_nat)
  then have "unat (a + of_nat c) = 4096 * (unat a div 4096) + (unat a mod 4096 + c)" using d by linarith
  moreover have "unat y = 4096 * q + r \<Longrightarrow> r < 4096 \<Longrightarrow> unat y div 4096 = q" for y :: u32 and q r
    by simp
  ultimately have "unat (a + of_nat c) div 4096 = unat a div 4096" using k by blast
  then show "PGNUM (a + of_nat c) = PGNUM a" by (simp add: PGNUM_eq)
qed

lemma blockno_PGNUM: "\<not> outside_cache a \<Longrightarrow> PGNUM x = PGNUM a \<Longrightarrow> \<not> outside_cache x \<and> blockno_of x = blockno_of a"
  using same_block [of x a] by (simp add: outside_PGNUM)

lemma PGNUM_blockno: "\<not> outside_cache a \<Longrightarrow> PGNUM a = 0x10000 + unat (blockno_of a)"
  by (simp add: unat_blockno_of(1)) (simp add: outside_PGNUM)

lemma word_ok_data:
  assumes "geometry m" and "datab m b" and "j < 1024"
  shows "word_ok m (DISKMAP + b * BLKSIZE + 4 * of_nat j)"
    and "PGNUM (DISKMAP + b * BLKSIZE + 4 * of_nat j) = 0x10000 + unat b"
    and "unat (DISKMAP + b * BLKSIZE + 4 * of_nat j) = 0x10000000 + unat b * 4096 + 4 * j"
proof -
  let ?a = "DISKMAP + b * BLKSIZE + 4 * of_nat j"
  have e: "?a = DISKMAP + b * BLKSIZE + of_nat (4 * j)" by simp
  have k: "4 * j < 4096" using assms(3) by simp
  note ba = block_addr [OF datab_lt [OF assms(1,2)] k]
  show u: "unat ?a = 0x10000000 + unat b * 4096 + 4 * j" unfolding e by (rule ba)
  show p: "PGNUM ?a = 0x10000 + unat b" unfolding e by (rule ba)
  have "block_used m (blockno_of ?a)" using ba(4) assms(2) by (simp only: e datab_def)
  moreover have "?a \<noteq> DISKMAP + 0x1000 + s_nblocks"
  proof
    assume e: "?a = DISKMAP + 0x1000 + s_nblocks"
    have "PGNUM ?a = 0x10001" unfolding e by (simp add: PGNUM_eq kconst)
    then have "0x10000 + unat b = 0x10001" by (simp only: p)
    then have "unat b = unat (1 :: u32)" by simp
    then show False using datab_ne [OF assms(1,2)] by (metis word_unat_eq_iff)
  qed
  moreover have "0x10000000 + unat b * 4096 + 4 * j = 4 * (0x4000000 + unat b * 1024 + j)" by simp
  then have "unat ?a mod 4 = 0" unfolding u by (metis mod_mult_self1_is_0)
  moreover have "\<not> outside_cache ?a" unfolding e by (rule ba)
  ultimately show "word_ok m ?a"
    using off_bitmap_datab [OF assms(1,2) p] by (simp add: word_ok_def)
qed

lemma file_words:
  assumes inv: "fsinv m F" and f: "f \<in> F" and c: "c < 256"
  shows "unat (f + of_nat c) = unat f + c" and "PGNUM (f + of_nat c) = PGNUM f"
    and "c mod 4 = 0 \<Longrightarrow> word_ok m (f + of_nat c)" and "off_bitmap m (f + of_nat c)"
    and "f + of_nat c \<noteq> DISKMAP + 0x1000 + s_nblocks"
    and "block_used m (blockno_of f)" and "\<not> outside_cache f"
proof -
  have fa: "file_at m f" by (rule fsinvD(4) [OF inv f])
  then have in256: "unat f mod 4096 + 256 \<le> 4096" and nb: "\<not> outside_cache f" and al: "unat f mod 4 = 0"
    by (simp_all add: file_at_def)
  show u: "unat (f + of_nat c) = unat f + c" by (rule page_bytes(1) [OF in256 c])
  show p: "PGNUM (f + of_nat c) = PGNUM f" by (rule page_bytes(2) [OF in256 c])
  show "\<not> outside_cache f" by (rule nb)
  have g: "geometry m" by (rule fsinvD(1) [OF inv])
  have root: "PGNUM f = 0x10001 \<and> unat f = 0x10001008 \<and> blockno_of f = 1" if "f = DISKMAP + 0x1000 + s_root"
    by (simp add: that PGNUM_eq kconst blockno_of_def)
  show lv: "block_used m (blockno_of f)"
    using fa root fsinvD(3) [OF inv] by (auto simp: file_at_def datab_def)
  show ob: "off_bitmap m (f + of_nat c)"
  proof (cases "f = DISKMAP + 0x1000 + s_root")
    case True
    then show ?thesis using root p geometry_bounds [OF g] by (intro off_bitmap_super) simp_all
  next
    case False
    then have "datab m (blockno_of f)" using fa by (simp add: file_at_def)
    then show ?thesis using off_bitmap_datab [OF g] p PGNUM_blockno [OF nb] by simp
  qed
  have "unat (DISKMAP + 0x1000 + s_nblocks) = 0x10001004" by (simp add: kconst)
  moreover have "unat f + c \<noteq> 0x10001004"
  proof (cases "f = DISKMAP + 0x1000 + s_root")
    case False
    then have "datab m (blockno_of f)" using fa by (simp add: file_at_def)
    then have "unat (blockno_of f) \<noteq> 1" using datab_ne [OF g] by (metis unat_1 word_unat_eq_iff)
    then have "PGNUM (f + of_nat c) \<noteq> 0x10001" using p PGNUM_blockno [OF nb] by simp
    then show ?thesis using u by (auto simp: PGNUM_eq)
  next
    case True
    then show ?thesis using root by simp
  qed
  ultimately show ne: "f + of_nat c \<noteq> DISKMAP + 0x1000 + s_nblocks"
    using u by (auto simp: word_unat_eq_iff)
  assume "c mod 4 = 0"
  then have "unat (f + of_nat c) mod 4 = 0" using u al by presburger
  moreover have "\<not> outside_cache (f + of_nat c)" "blockno_of (f + of_nat c) = blockno_of f"
    using blockno_PGNUM [OF nb p] by simp_all
  ultimately show "word_ok m (f + of_nat c)" using ob ne lv by (simp add: word_ok_def)
qed

text \<open>A position has a cell unless it lies behind a missing indirect block.\<close>

definition has_cell :: "bmem \<Rightarrow> u32 \<Rightarrow> nat \<Rightarrow> bool" where
  "has_cell m f k \<longleftrightarrow> k < 10 \<or> k = 1034 \<or> (k < 1034 \<and> indirect m f \<noteq> 0)"

lemma has_cell_uses: "k \<le> 1034 \<Longrightarrow> uses m f k = (if has_cell m f k then load4 (cell m f k) m else 0)"
  by (auto simp: uses_def has_cell_def)

definition inner :: "nat \<Rightarrow> nat" where
  "inner k = (if k < 10 then 136 + 4 * k else 176)"

lemma cell_inner: "k < 10 \<or> k = 1034 \<Longrightarrow> cell m f k = f + of_nat (inner k)"
  by (auto simp: cell_def inner_def kconst algebra_simps)

lemma inner_bounds: "k < 10 \<or> k = 1034 \<Longrightarrow> inner k < 256 \<and> inner k mod 4 = 0 \<and> 136 \<le> inner k"
  by (auto simp: inner_def)

lemma inner_eq: "k < 10 \<or> k = 1034 \<Longrightarrow> l < 10 \<or> l = 1034 \<Longrightarrow> inner k = inner l \<longleftrightarrow> k = l"
  by (auto simp: inner_def split: if_splits)

lemma indirect_datab: "fsinv m F \<Longrightarrow> f \<in> F \<Longrightarrow> indirect m f \<noteq> 0 \<Longrightarrow> datab m (indirect m f)"
  using fsinvD(6) [of m F f 1034] by (simp add: uses_indirect)

lemma cell_ok:
  assumes inv: "fsinv m F" and f: "f \<in> F" and k: "has_cell m f k"
  shows "word_ok m (cell m f k)"
    and "PGNUM (cell m f k) = (if k < 10 \<or> k = 1034 then PGNUM f else 0x10000 + unat (indirect m f))"
proof -
  have "word_ok m (cell m f k)
    \<and> PGNUM (cell m f k) = (if k < 10 \<or> k = 1034 then PGNUM f else 0x10000 + unat (indirect m f))"
  proof (cases "k < 10 \<or> k = 1034")
    case True
    then show ?thesis
      using inner_bounds [OF True] file_words(2,3) [OF inv f, of "inner k"] cell_inner [OF True] by simp
  next
    case False
    then have i: "indirect m f \<noteq> 0" "k - 10 < 1024" using k by (auto simp: has_cell_def)
    have "cell m f k = DISKMAP + indirect m f * BLKSIZE + 4 * of_nat (k - 10)"
      using False by (simp add: cell_def)
    then show ?thesis
      using word_ok_data [OF fsinvD(1) [OF inv] indirect_datab [OF inv f i(1)] i(2)] False by simp
  qed
  then show "word_ok m (cell m f k)"
    "PGNUM (cell m f k) = (if k < 10 \<or> k = 1034 then PGNUM f else 0x10000 + unat (indirect m f))"
    by simp_all
qed

lemma file_off_indirect:
  assumes "fsinv m F" and "f \<in> F" and "g \<in> F" and "indirect m g \<noteq> 0"
  shows "PGNUM f \<noteq> 0x10000 + unat (indirect m g)"
  using fsinvD(8) [OF assms(1,3,2,4)] PGNUM_blockno [OF file_words(7) [OF assms(1,2), of 0]]
  by (auto simp: word_unat_eq_iff)

lemma cell_distinct:
  assumes inv: "fsinv m F" and f: "f \<in> F" and g: "g \<in> F"
    and k: "has_cell m f k" "k \<le> 1034" and l: "has_cell m g l" "l \<le> 1034" and ne: "f \<noteq> g \<or> k \<noteq> l"
  shows "cell m f k \<noteq> cell m g l"
proof -
  let ?in = "\<lambda>k. k < 10 \<or> k = (1034 :: nat)"
  consider "?in k" "?in l" | "?in k" "\<not> ?in l" | "\<not> ?in k" "?in l" | "\<not> ?in k" "\<not> ?in l" by blast
  then show ?thesis
  proof cases
    case 1
    have u: "unat (cell m f k) = unat f + inner k" "unat (cell m g l) = unat g + inner l"
      using file_words(1) [OF inv f, of "inner k"] file_words(1) [OF inv g, of "inner l"]
        inner_bounds [OF 1(1)] inner_bounds [OF 1(2)] cell_inner [OF 1(1)] cell_inner [OF 1(2)] by simp_all
    show ?thesis
    proof (cases "f = g")
      case True
      then have "inner k \<noteq> inner l" using ne inner_eq [OF 1] by simp
      then show ?thesis using u True by (metis add_left_cancel)
    next
      case False
      then have "apart_files f g" by (rule fsinvD(5) [OF inv f g])
      show ?thesis
      proof
        assume "cell m f k = cell m g l"
        then have "unat f + inner k = unat g + inner l" using u by metis
        then show False
          using \<open>apart_files f g\<close> inner_bounds [OF 1(1)] inner_bounds [OF 1(2)]
          unfolding apart_files_def by linarith
      qed
    qed
  next
    case 2
    then have "indirect m g \<noteq> 0" using l by (simp add: has_cell_def)
    then show ?thesis
      using file_off_indirect [OF inv f g] cell_ok(2) [OF inv f k(1)] cell_ok(2) [OF inv g l(1)] 2 by auto
  next
    case 3
    then have "indirect m f \<noteq> 0" using k by (simp add: has_cell_def)
    then show ?thesis
      using file_off_indirect [OF inv g f] cell_ok(2) [OF inv f k(1)] cell_ok(2) [OF inv g l(1)] 3 by auto
  next
    case 4
    then have i: "indirect m f \<noteq> 0" "indirect m g \<noteq> 0" "10 \<le> k" "10 \<le> l" "k < 1034" "l < 1034"
      using k l by (simp_all add: has_cell_def)
    show ?thesis
    proof (cases "f = g")
      case True
      then have "k - 10 \<noteq> l - 10" using ne i by auto
      moreover have "unat (cell m f k) = 0x10000000 + unat (indirect m f) * 4096 + 4 * (k - 10)"
        "unat (cell m g l) = 0x10000000 + unat (indirect m g) * 4096 + 4 * (l - 10)"
        using word_ok_data(3) [OF fsinvD(1) [OF inv] indirect_datab [OF inv f i(1)], of "k - 10"]
          word_ok_data(3) [OF fsinvD(1) [OF inv] indirect_datab [OF inv g i(2)], of "l - 10"] i
        by (simp_all add: cell_def)
      ultimately show ?thesis using True by (metis add_left_cancel mult_left_cancel zero_neq_numeral)
    next
      case False
      then have "indirect m f \<noteq> indirect m g"
        using fsinvD(7) [OF inv f g, of 1034 1034] i by (auto simp: uses_indirect)
      then have "unat (indirect m f) \<noteq> unat (indirect m g)" by (simp add: word_unat_eq_iff)
      then show ?thesis
        using cell_ok(2) [OF inv f k(1)] cell_ok(2) [OF inv g l(1)] 4 by auto
    qed
  qed
qed

section \<open>Updates of the image\<close>

definition quiet :: "bmem \<Rightarrow> bmem \<Rightarrow> bool" where
  "quiet m m' \<longleftrightarrow> nblocks m' = nblocks m \<and> (\<forall>b < nblocks m. bit_free m' b = bit_free m b)"

lemma quietD:
  assumes "quiet m m'"
  shows "nblocks m' = nblocks m" "block_used m' b = block_used m b" "datab m' b = datab m b"
    "geometry m' = geometry m" "free_blocks m' = free_blocks m"
proof -
  show nb: "nblocks m' = nblocks m" using assms by (simp add: quiet_def)
  show l: "block_used m' b = block_used m b" for b using assms by (auto simp: quiet_def block_used_def)
  show "datab m' b = datab m b" by (simp add: datab_def l nb)
  show "geometry m' = geometry m" by (simp add: geometry_def l nb)
  have "of_nat k < nblocks m" if "k < scan_limit m" for k
  proof -
    have "k < unat (nblocks m)" using that scan_limit_le by (rule less_le_trans)
    then show ?thesis using u32_bound [of "nblocks m"] by (simp add: word_less_nat_alt unat_of_nat)
  qed
  then show "free_blocks m' = free_blocks m"
    using assms by (auto simp: free_blocks_def scan_limit_def quiet_def)
qed

lemma quiet_refl [simp]: "quiet m m"
  by (simp add: quiet_def)

lemma quiet_trans: "quiet m m' \<Longrightarrow> quiet m' m'' \<Longrightarrow> quiet m m''"
  by (auto simp: quiet_def)

lemma quiet_store:
  assumes "geometry m" and a: "word_ok m a"
  shows "quiet m (store4 a v m)"
proof -
  have "load4 (DISKMAP + 0x1000 + s_nblocks) (store4 a v m) = load4 (DISKMAP + 0x1000 + s_nblocks) m"
    using a super_words(2) by (intro load4_store4_other) (auto simp: word_ok_def)
  moreover have "bit_free (store4 a v m) b = bit_free m b" if b: "b < nblocks m" for b
  proof -
    have "bitmap_word b \<noteq> a" using a b by (auto simp: word_ok_def off_bitmap_def)
    then have "load4 (bitmap_word b) (store4 a v m) = load4 (bitmap_word b) m"
      using a bitmap_word_ok(2) [OF geometry_le(3) [OF assms(1) b]]
      by (intro load4_store4_other) (auto simp: word_ok_def)
    then show ?thesis by (simp add: bit_free_def)
  qed
  ultimately show ?thesis by (simp add: quiet_def nblocks_def)
qed

lemma quiet_data:
  assumes g: "geometry m" and d: "\<And>x. m' x \<noteq> m x \<Longrightarrow> \<exists>b. datab m b \<and> PGNUM x = 0x10000 + unat b"
  shows "quiet m m'"
proof -
  have same: "m' x = m x" if "\<not> off_bitmap m x \<or> PGNUM x = 0x10001" for x
  proof (rule ccontr)
    assume "m' x \<noteq> m x"
    then obtain b where b: "datab m b" "PGNUM x = 0x10000 + unat b" using d by blast
    then have "off_bitmap m x" "unat b \<noteq> 1"
      using off_bitmap_datab [OF g] datab_ne [OF g b(1)] by (auto simp: word_unat_eq_iff)
    then show False using that b(2) by simp
  qed
  have "PGNUM (DISKMAP + 0x1000 + s_nblocks + of_nat i) = 0x10001" if "i < 4" for i
    using PGNUM_near(1) [OF super_words(2) that] by (simp add: PGNUM_eq kconst)
  then have "load4 (DISKMAP + 0x1000 + s_nblocks) m' = load4 (DISKMAP + 0x1000 + s_nblocks) m"
    using super_words(2) same by (intro load4_upd_other) auto
  moreover have "bit_free m' b = bit_free m b" if b: "b < nblocks m" for b
  proof -
    have al: "unat (bitmap_word b) mod 4 = 0" by (rule bitmap_word_ok(2) [OF geometry_le(3) [OF g b]])
    have "\<not> off_bitmap m (bitmap_word b + of_nat i)" if "i < 4" for i
      using PGNUM_near(1) [OF al that] b by (auto simp: off_bitmap_def)
    then have "load4 (bitmap_word b) m' = load4 (bitmap_word b) m"
      using al same by (intro load4_upd_other) auto
    then show ?thesis by (simp add: bit_free_def)
  qed
  ultimately show ?thesis by (simp add: quiet_def nblocks_def)
qed

lemma word_okD: "word_ok m a \<Longrightarrow> \<not> outside_cache a" "word_ok m a \<Longrightarrow> unat a mod 4 = 0"
  "word_ok m a \<Longrightarrow> block_used m (blockno_of a)" "word_ok m a \<Longrightarrow> off_bitmap m a"
  by (simp_all add: word_ok_def)

text \<open>Name, size and type of a file are not among the cells.\<close>

lemma cell_off_header:
  assumes inv: "fsinv m F" and f: "f \<in> F" and g: "g \<in> F" and k: "has_cell m f k" and c: "c < 136" and i: "i < 4"
  shows "g + of_nat c \<noteq> cell m f k + of_nat i"
proof -
  define q where "q = 4 * (c div 4)"
  have q: "q + c mod 4 = c" "q mod 4 = 0" "q < 136" using c by (auto simp: q_def)
  have e: "g + of_nat c = g + of_nat q + of_nat (c mod 4)" by (metis add.assoc of_nat_add q(1))
  note gw = file_words(1,2,3) [OF inv g, of q]
  have gq: "unat (g + of_nat q) = unat g + q" "PGNUM (g + of_nat q) = PGNUM g"
    using gw q by simp_all
  have gq3: "unat (g + of_nat q) mod 4 = 0" using gw(3) q by (intro word_okD(2) [of m]) simp
  have "g + of_nat q \<noteq> cell m f k"
  proof
    assume eq: "g + of_nat q = cell m f k"
    show False
    proof (cases "k < 10 \<or> k = 1034")
      case True
      have u: "unat g + q = unat f + inner k"
        using eq gq(1) cell_inner [OF True] file_words(1) [OF inv f, of "inner k"] inner_bounds [OF True] by metis
      show False
      proof (cases "f = g")
        case True
        then show False using u inner_bounds [OF \<open>k < 10 \<or> k = 1034\<close>] q(3) by simp
      next
        case False
        then have "apart_files f g" by (rule fsinvD(5) [OF inv f g])
        then show False using u inner_bounds [OF True] q(3) unfolding apart_files_def by linarith
      qed
    next
      case False
      then have "indirect m f \<noteq> 0" using k by (simp add: has_cell_def)
      from file_off_indirect [OF inv g f this] show False
        using eq gq(2) cell_ok(2) [OF inv f k] False by simp
    qed
  qed
  then show ?thesis
    unfolding e using aligned_apart [OF gq3 word_okD(2) [OF cell_ok(1) [OF inv f k]]] i by simp
qed

definition header_same :: "bmem \<Rightarrow> bmem \<Rightarrow> u32 \<Rightarrow> bool" where
  "header_same m m' g \<longleftrightarrow> (\<forall>c < 136. m' (g + of_nat c) = m (g + of_nat c))"

lemma header_load:
  assumes "header_same m m' g" and "c \<le> 132"
  shows "load4 (g + of_nat c) m' = load4 (g + of_nat c) m"
proof -
  have "m' (g + of_nat c + of_nat i) = m (g + of_nat c + of_nat i)" if "i < 4" for i
  proof -
    have "c + i < 136" using assms(2) that by simp
    then have "m' (g + of_nat (c + i)) = m (g + of_nat (c + i))" using assms(1) by (simp only: header_same_def)
    then show ?thesis by (simp only: of_nat_add add.assoc)
  qed
  from this [of 0] this [of 1] this [of 2] this [of 3] show ?thesis by (simp add: load4_def)
qed

lemma header_fsize: "header_same m m' g \<Longrightarrow> fsize m' g = fsize m g"
  using header_load [of m m' g 128] by (simp add: fsize_def kconst)

lemma header_ftype: "header_same m m' g \<Longrightarrow> load4 (g + f_type) m' = load4 (g + f_type) m"
  using header_load [of m m' g 132] by (simp add: kconst)

lemma header_refl [simp]: "header_same m m g"
  by (simp add: header_same_def)

lemma header_trans: "header_same m m' g \<Longrightarrow> header_same m' m'' g \<Longrightarrow> header_same m m'' g"
  by (simp add: header_same_def)

lemma uses_store:
  fixes v :: u32
  assumes inv: "fsinv m F" and f: "f \<in> F" and k: "has_cell m f k" "k < 1034" and g: "g \<in> F"
  defines "m' \<equiv> store4 (cell m f k) v m"
  shows "l \<le> 1034 \<Longrightarrow> uses m' g l = (if g = f \<and> l = k then v else uses m g l)"
    and "header_same m m' g"
proof -
  have al: "unat (cell m f k) mod 4 = 0" using cell_ok(1) [OF inv f k(1)] by (rule word_okD)
  have k': "k \<le> 1034" using k(2) by simp
  have "cell m g 1034 \<noteq> cell m f k"
    using cell_distinct [OF inv g f _ _ k(1)] k(2) by (simp add: has_cell_def)
  moreover have "unat (cell m g 1034) mod 4 = 0"
    using cell_ok(1) [OF inv g, of 1034] by (simp add: has_cell_def word_okD)
  ultimately have ind: "indirect m' g = indirect m g"
    using load4_store4_other [OF _ al] by (simp add: m'_def indirect_def cell_def)
  then have c: "cell m' g l = cell m g l" "has_cell m' g l = has_cell m g l" for l
    by (simp_all add: cell_def has_cell_def)
  assume l: "l \<le> 1034"
  show "uses m' g l = (if g = f \<and> l = k then v else uses m g l)"
  proof (cases "g = f \<and> l = k")
    case True
    then show ?thesis using k(1) c l by (simp add: has_cell_uses) (simp add: m'_def)
  next
    case False
    have "load4 (cell m g l) m' = load4 (cell m g l) m" if h: "has_cell m g l"
    proof -
      have "cell m g l \<noteq> cell m f k" using cell_distinct [OF inv g f h l k(1) k'] False by blast
      then show ?thesis
        using load4_store4_other [OF word_okD(2) [OF cell_ok(1) [OF inv g h]] al] by (simp add: m'_def)
    qed
    then show ?thesis using c l False by (auto simp: has_cell_uses)
  qed
next
  show "header_same m m' g"
    unfolding header_same_def m'_def
    using cell_off_header [OF inv f g k(1)] by (auto intro!: store4_other)
qed

text \<open>Changes away from the file records and the indirect blocks.\<close>

lemma uses_cong:
  assumes "\<And>c. c < 256 \<Longrightarrow> m' (g + of_nat c) = m (g + of_nat c)"
    and ind: "\<And>x. indirect m g \<noteq> 0 \<Longrightarrow> PGNUM x = 0x10000 + unat (indirect m g) \<Longrightarrow> m' x = m x"
    and inv: "fsinv m F" and g: "g \<in> F" and l: "l \<le> 1034"
  shows "uses m' g l = uses m g l" and "header_same m m' g"
proof -
  have ld: "load4 (g + of_nat c) m' = load4 (g + of_nat c) m" if "c < 253" for c
  proof -
    have "m' (g + of_nat c + of_nat i) = m (g + of_nat c + of_nat i)" if "i < 4" for i
      using assms(1) [of "c + i"] that \<open>c < 253\<close> by (simp add: add.assoc)
    from this [of 0] this [of 1] this [of 2] this [of 3] show ?thesis by (simp add: load4_def)
  qed
  have i: "indirect m' g = indirect m g" using ld [of 176] by (simp add: indirect_def kconst)
  then have c: "cell m' g l = cell m g l" "has_cell m' g l = has_cell m g l"
    by (simp_all add: cell_def has_cell_def)
  have "load4 (cell m g l) m' = load4 (cell m g l) m" if h: "has_cell m g l"
  proof (cases "l < 10 \<or> l = 1034")
    case True
    have "inner l < 253" using True by (auto simp: inner_def)
    then show ?thesis using ld cell_inner [OF True] by simp
  next
    case False
    then have "indirect m g \<noteq> 0" using h by (simp add: has_cell_def)
    moreover have "PGNUM (cell m g l + of_nat i) = 0x10000 + unat (indirect m g)" if "i < 4" for i
      using PGNUM_near(1) [OF word_okD(2) [OF cell_ok(1) [OF inv g h]] that] cell_ok(2) [OF inv g h] False
      by simp
    ultimately show ?thesis
      using ind word_okD(2) [OF cell_ok(1) [OF inv g h]] by (intro load4_upd_other) auto
  qed
  then show "uses m' g l = uses m g l" using c l by (simp add: has_cell_uses)
  show "header_same m m' g" using assms(1) by (simp add: header_same_def)
qed

lemma uses_bits:
  assumes inv: "fsinv m F" and g: "g \<in> F" and l: "l \<le> 1034" and b: "b < nblocks m"
  shows "uses (clearbit b m) g l = uses m g l" "header_same m (clearbit b m) g"
    "uses (setbit b m) g l = uses m g l" "header_same m (setbit b m) g"
proof -
  note geo = fsinvD(1) [OF inv]
  note nb = geometry_bounds [OF geo]
  have rec: "off_bitmap m (g + of_nat c)" if "c < 256" for c
    by (rule file_words(4) [OF inv g that])
  have ind: "off_bitmap m x" if "indirect m g \<noteq> 0" "PGNUM x = 0x10000 + unat (indirect m g)" for x
    by (rule off_bitmap_datab [OF geo indirect_datab [OF inv g that(1)] that(2)])
  show "uses (clearbit b m) g l = uses m g l" "header_same m (clearbit b m) g"
    by (rule uses_cong [OF _ _ inv g l]; use rec ind bits_off_bitmap(1) [OF b nb] in blast)+
  show "uses (setbit b m) g l = uses m g l" "header_same m (setbit b m) g"
    by (rule uses_cong [OF _ _ inv g l]; use rec ind bits_off_bitmap(2) [OF b nb] in blast)+
qed

lemma uses_data:
  assumes inv: "fsinv m F" and g: "g \<in> F" and l: "l \<le> 1034"
    and home: "b \<noteq> blockno_of g" and ind: "indirect m g = 0 \<or> b \<noteq> indirect m g"
    and same: "\<And>x. PGNUM x \<noteq> 0x10000 + unat b \<Longrightarrow> m' x = m x"
  shows "uses m' g l = uses m g l" "header_same m m' g"
proof -
  have "PGNUM (g + of_nat c) \<noteq> 0x10000 + unat b" if "c < 256" for c
    using file_words(2,7) [OF inv g that] PGNUM_blockno home by (auto simp: word_unat_eq_iff)
  then have rec: "m' (g + of_nat c) = m (g + of_nat c)" if "c < 256" for c using same that by blast
  have "m' x = m x" if "indirect m g \<noteq> 0" "PGNUM x = 0x10000 + unat (indirect m g)" for x
    using same that ind by (auto simp: word_unat_eq_iff)
  from uses_cong [OF rec this inv g l] show "uses m' g l = uses m g l" "header_same m m' g" by blast+
qed

section \<open>Keeping the invariant\<close>

lemma live_clearbit:
  assumes "geometry m" and "b < nblocks m"
  shows "block_used (clearbit b m) c \<longleftrightarrow> block_used m c \<or> c = b"
proof -
  note nb = nblocks_bits(1) [OF assms(2) geometry_bounds [OF assms(1)]]
  show ?thesis
    using bit_free_clearbit [OF geometry_le(3) [OF assms]] geometry_le(3) [OF assms(1)] assms(2)
    by (auto simp: block_used_def nb)
qed

lemma datab_clearbit:
  "geometry m \<Longrightarrow> b < nblocks m \<Longrightarrow> datab m c \<Longrightarrow> datab (clearbit b m) c"
  using nblocks_bits(1) [of b m] geometry_bounds [of m] by (simp add: datab_def live_clearbit)

lemma free_block_high:
  assumes inv: "fsinv m F" and b: "b < nblocks m" "bit_free m b"
  shows "2 + (nblocks m - 1) div 32768 < b"
proof (rule ccontr)
  assume "\<not> 2 + (nblocks m - 1) div 32768 < b"
  then have le: "b \<le> 2 + (nblocks m - 1) div 32768" by simp
  have geo: "geometry m" by (rule fsinvD(1) [OF inv])
  define q where "q = (unat (nblocks m) - 1) div 32768"
  have nb: "unat (nblocks m) \<le> 0xC0000" "0 < unat (nblocks m)"
    using geometry_bounds [OF geo] b(1) by (auto simp: word_le_nat_alt word_less_nat_alt)
  have "nblocks m \<noteq> 0" using b(1) by auto
  then have "unat (nblocks m - 1) = unat (nblocks m) - 1" by (rule unat_pred)
  moreover have "q < 24" using nb by (simp add: q_def)
  ultimately have "unat (2 + (nblocks m - 1) div 32768) = 2 + q" by (simp add: unat_word_ariths unat_div q_def)
  then have ub: "unat b \<le> 2 + q" using le by (simp add: word_le_nat_alt)
  have "b \<noteq> 0" "b \<noteq> 1" using fsinvD(2,3) [OF inv] b(2) by (auto simp: block_used_def)
  then have "unat b \<noteq> 0" "unat b \<noteq> 1" by (metis word_unat_eq_iff unat_0, metis word_unat_eq_iff unat_1)
  then have two: "2 \<le> unat b" by simp
  define c where "c = (of_nat ((unat b - 2) * 32768) :: u32)"
  have "(unat b - 2) * 32768 \<le> q * 32768" using ub by simp
  moreover have "q * 32768 \<le> unat (nblocks m) - 1" by (simp add: q_def)
  ultimately have cle: "(unat b - 2) * 32768 < unat (nblocks m)" using nb by linarith
  then have uc: "unat c = (unat b - 2) * 32768"
    using u32_bound [of "nblocks m"] by (simp only: c_def unat_of_nat) simp
  then have "c < nblocks m" using cle by (simp add: word_less_nat_alt)
  then have "block_used m (2 + c div 32768)" using geo by (simp add: geometry_def)
  moreover have "unat (2 + c div 32768) = unat b"
    using two ub \<open>q < 24\<close> uc by (simp add: unat_word_ariths unat_div)
  then have "2 + c div 32768 = b" by (simp only: word_unat_eq_iff)
  ultimately show False using b(2) by (simp add: block_used_def)
qed

lemma fresh_block:
  assumes inv: "fsinv m F" and b: "b < nblocks m" "bit_free m b"
  shows "\<not> block_used m b" "b \<noteq> 0" "datab (clearbit b m) b"
    "g \<in> F \<Longrightarrow> l \<le> 1034 \<Longrightarrow> uses m g l \<noteq> b" "g \<in> F \<Longrightarrow> b \<noteq> blockno_of g"
proof -
  note geo = fsinvD(1) [OF inv]
  show nl: "\<not> block_used m b" using b(2) by (simp add: block_used_def)
  show nz: "b \<noteq> 0" using nl fsinvD(2) [OF inv] by auto
  show "datab (clearbit b m) b"
    using free_block_high [OF assms] live_clearbit [OF geo b(1)] nblocks_bits(1) [OF b(1) geometry_bounds [OF geo]]
    by (simp add: datab_def)
  show "uses m g l \<noteq> b" if "g \<in> F" "l \<le> 1034"
    using fsinvD(6) [OF inv that] nl nz by (auto simp: datab_def)
  show "b \<noteq> blockno_of g" if "g \<in> F"
    using file_words(6) [OF inv that, of 0] nl by auto
qed

lemma fsinv_transfer:
  assumes inv: "fsinv m F" and geo: "geometry m'" and nb: "nblocks m' = nblocks m"
    and lv: "\<And>g. g \<in> F \<Longrightarrow> block_used m (blockno_of g) \<Longrightarrow> block_used m' (blockno_of g)" "block_used m' 0" "block_used m' 1"
    and u: "\<And>g l. g \<in> F \<Longrightarrow> l \<le> 1034 \<Longrightarrow> uses m' g l \<noteq> 0 \<Longrightarrow> uses m' g l = uses m g l \<and> block_used m' (uses m g l)"
    and sz: "\<And>g. g \<in> F \<Longrightarrow> unat (fsize m' g) \<le> 1034 * 4096"
  shows "fsinv m' F"
proof -
  have d: "datab m b \<Longrightarrow> block_used m' b \<Longrightarrow> datab m' b" for b by (simp add: datab_def nb)
  have "file_at m' g" if g: "g \<in> F" for g
    using fsinvD(4) [OF inv g] lv(1) [OF g] by (auto simp: file_at_def datab_def nb)
  moreover have "datab m' (uses m' g l)" if "g \<in> F" "l \<le> 1034" "uses m' g l \<noteq> 0" for g l
    using u [OF that] fsinvD(6) [OF inv that(1,2)] that(3) d by simp
  moreover have "g' = g \<and> l' = l"
    if "g \<in> F" "l \<le> 1034" "uses m' g l \<noteq> 0" "g' \<in> F" "l' \<le> 1034" "uses m' g' l' = uses m' g l" for g l g' l'
    using u [OF that(1-3)] u [OF that(4,5)] that fsinvD(7) [OF inv that(1,4,2,5)] by simp
  moreover have "indirect m' f \<noteq> blockno_of g" if "f \<in> F" "g \<in> F" "indirect m' f \<noteq> 0" for f g
    using u [of f 1034] that fsinvD(8) [OF inv that(1,2)] by (simp add: uses_indirect)
  ultimately show ?thesis
    unfolding fsinv_def using geo lv(2,3) fsinvD(5) [OF inv] sz by blast
qed

lemma fsinv_quiet:
  assumes inv: "fsinv m F" and "quiet m m'"
    and "\<And>g l. g \<in> F \<Longrightarrow> l \<le> 1034 \<Longrightarrow> uses m' g l = uses m g l"
    and "\<And>g. g \<in> F \<Longrightarrow> unat (fsize m' g) \<le> 1034 * 4096"
  shows "fsinv m' F"
proof (rule fsinv_transfer [OF inv _ _ _ _ _ _ assms(4)])
  show "geometry m'" "nblocks m' = nblocks m" "block_used m' 0" "block_used m' 1"
    using quietD [OF assms(2)] fsinvD(1,2,3) [OF inv] by simp_all
  show "block_used m (blockno_of g) \<Longrightarrow> block_used m' (blockno_of g)" for g using quietD(2) [OF assms(2)] by simp
  show "uses m' g l = uses m g l \<and> block_used m' (uses m g l)"
    if "g \<in> F" "l \<le> 1034" "uses m' g l \<noteq> 0" for g l
    using assms(3) [OF that(1,2)] fsinvD(6) [OF inv that(1,2)] that(3) quietD(2) [OF assms(2)]
    by (simp add: datab_def)
qed

lemma fsinv_clearbit:
  assumes inv: "fsinv m F" and b: "b < nblocks m" "bit_free m b"
  shows "fsinv (clearbit b m) F"
proof (rule fsinv_transfer [OF inv])
  note geo = fsinvD(1) [OF inv]
  show "geometry (clearbit b m)" by (rule geometry_clearbit [OF geo b(1)])
  show "nblocks (clearbit b m) = nblocks m" by (rule nblocks_bits(1) [OF b(1) geometry_bounds [OF geo]])
  show "block_used (clearbit b m) 0" "block_used (clearbit b m) 1"
    using fsinvD(2,3) [OF inv] by (simp_all add: live_clearbit [OF geo b(1)])
  show "block_used m (blockno_of g) \<Longrightarrow> block_used (clearbit b m) (blockno_of g)" for g
    by (simp add: live_clearbit [OF geo b(1)])
  show "uses (clearbit b m) g l = uses m g l \<and> block_used (clearbit b m) (uses m g l)"
    if "g \<in> F" "l \<le> 1034" "uses (clearbit b m) g l \<noteq> 0" for g l
    using uses_bits(1) [OF inv that(1,2) b(1)] that(3) fsinvD(6) [OF inv that(1,2)]
    by (simp add: live_clearbit [OF geo b(1)] datab_def)
  show "unat (fsize (clearbit b m) g) \<le> 1034 * 4096" if "g \<in> F" for g
    using header_fsize [OF uses_bits(2) [OF inv that _ b(1), of 0]] fsinvD(9) [OF inv that] by simp
qed

text \<open>A block_used data block that nobody uses becomes the block at one position.\<close>

lemma fsinv_add:
  assumes inv: "fsinv m F" and f: "f \<in> F" and k: "k \<le> 1034" and q: "quiet m m'"
    and d: "datab m d" "\<And>g l. g \<in> F \<Longrightarrow> l \<le> 1034 \<Longrightarrow> uses m g l \<noteq> d" "\<And>g. g \<in> F \<Longrightarrow> d \<noteq> blockno_of g"
    and u: "\<And>g l. g \<in> F \<Longrightarrow> l \<le> 1034 \<Longrightarrow> uses m' g l = (if g = f \<and> l = k then d else uses m g l)"
    and sz: "\<And>g. g \<in> F \<Longrightarrow> unat (fsize m' g) \<le> 1034 * 4096"
  shows "fsinv m' F"
proof -
  have D: "block_used m' b = block_used m b" "datab m' b = datab m b" for b using quietD [OF q] by simp_all
  have "file_at m' g" if g: "g \<in> F" for g
    using fsinvD(4) [OF inv g] by (simp add: file_at_def D)
  moreover have "datab m' (uses m' g l)" if "g \<in> F" "l \<le> 1034" "uses m' g l \<noteq> 0" for g l
    using u [OF that(1,2)] fsinvD(6) [OF inv that(1,2)] that(3) d(1) D by (auto split: if_splits)
  moreover have "g' = g \<and> l' = l"
    if "g \<in> F" "l \<le> 1034" "uses m' g l \<noteq> 0" "g' \<in> F" "l' \<le> 1034" "uses m' g' l' = uses m' g l" for g l g' l'
  proof (cases "g = f \<and> l = k")
    case True
    then have "uses m' g' l' = d" using u [OF that(1,2)] that(6) by simp
    then show ?thesis using u [OF that(4,5)] d(2) [OF that(4,5)] True by (metis (full_types))
  next
    case False
    then have a: "uses m' g l = uses m g l" using u [OF that(1,2)] by (simp only: if_False)
    have "uses m' g' l' \<noteq> d" unfolding that(6) a by (rule d(2) [OF that(1,2)])
    then have "uses m' g' l' = uses m g' l'" using u [OF that(4,5)] by (metis (full_types))
    then have "uses m g' l' = uses m g l" using that(6) a by (simp only:)
    moreover have "uses m g l \<noteq> 0" using that(3) by (simp only: a not_False_eq_True)
    ultimately show ?thesis using fsinvD(7) [OF inv that(1,4,2,5)] by blast
  qed
  moreover have "indirect m' e \<noteq> blockno_of g" if "e \<in> F" "g \<in> F" "indirect m' e \<noteq> 0" for e g
  proof (cases "e = f \<and> 1034 = k")
    case True
    then show ?thesis using u [OF that(1), of 1034] d(3) [OF that(2)] by (simp add: uses_indirect)
  next
    case False
    have "uses m' e 1034 = (if e = f \<and> 1034 = k then d else uses m e 1034)"
      using u [OF that(1), of 1034] by simp
    then have "indirect m' e = indirect m e" using False by (simp only: if_False uses_indirect)
    then show ?thesis using that(3) fsinvD(8) [OF inv that(1,2)] by simp
  qed
  ultimately show ?thesis
    unfolding fsinv_def using quietD(4) [OF q] fsinvD(1,2,3,5) [OF inv] D sz by blast
qed

end
