(* ===== verification/Jos_Fs_Get.thy ===== *)
theory Jos_Fs_Get
  imports Jos_Fs_Map
begin

text \<open>
  Walking and extending the block map: \<^verbatim>\<open>file_block_walk\<close> finds the slot of a position,
  \<^verbatim>\<open>file_get_block\<close> makes sure there is a block behind it. \<open>mapin\<close> describes what may
  change on the image: free blocks become blocks of the one file at the one position (and its
  indirect block), everything else stays. With a full disk the server panics instead of
  reporting the error.
\<close>

section \<open>Moving bytes\<close>

definition put_list :: "u32 \<Rightarrow> u8 list \<Rightarrow> bmem \<Rightarrow> bmem" where
  "put_list a bs m = (\<lambda>x. if unat (x - a) < length bs then bs ! unat (x - a) else m x)"

lemma put_list_Cons:
  assumes "length bs < 4294967295"
  shows "put_list (a + 1) bs (m(a := b)) = put_list a (b # bs) m"
proof (rule ext)
  fix x
  define k where "k = x - a"
  have e: "x - (a + 1) = k - 1" by (simp add: k_def)
  have "x = a \<longleftrightarrow> k = 0" by (auto simp: k_def)
  moreover have "unat (k - 1) = (if k = 0 then 4294967295 else unat k - 1)"
    using unat_m1 unat_pred by auto
  ultimately show "put_list (a + 1) bs (m(a := b)) x = put_list a (b # bs) m x"
    unfolding put_list_def e k_def [symmetric]
    using assms unat_gt_0 [of k] by (auto simp: nth_Cons')
qed

lemma put_list_other: "length bs \<le> n \<Longrightarrow> n \<le> unat (x - a) \<Longrightarrow> put_list a bs m x = m x"
  by (simp add: put_list_def)

lemma runs_write_bytes:
  assumes "bc_ok s" and "datab (fsmem s) b"
    and "\<And>i. i < length bs \<Longrightarrow> PGNUM (a + of_nat i) = 0x10000 + unat b" and "length bs \<le> 4096"
  shows "runs (fs_write_bytes a bs) s () (put_list a bs (fsmem s))"
  using assms
proof (induction bs arbitrary: a s)
  case Nil
  then show ?case by (simp add: runs_def put_list_def)
next
  case (Cons c bs)
  have geo: "geometry (fsmem s)" by (rule bc_ok_pointers(3) [OF Cons.prems(1)])
  have p: "PGNUM a = 0x10000 + unat b" using Cons.prems(3) [of 0] by simp
  have lt: "b < 0xC0000" by (rule datab_lt [OF geo Cons.prems(2)])
  have nbad: "\<not> outside_cache a" using p lt by (simp add: outside_PGNUM word_less_nat_alt)
  then have bl: "blockno_of a = b" using PGNUM_blockno [of a] p by (simp add: word_unat_eq_iff)
  let ?m = "(fsmem s)(a := c)"
  have q: "quiet (fsmem s) ?m"
    using p Cons.prems(2) by (intro quiet_data [OF geo]) (auto split: if_splits)
  have st: "runs (fs_store8 a c) s () ?m"
    using runs_store8 [OF Cons.prems(1) nbad] bl Cons.prems(2) quietD(4) [OF q] geo by (simp add: datab_def)
  show ?case
    unfolding fs_write_bytes.simps
  proof (rule runs_then [OF st])
    fix t assume t: "bc_ok t" "fsmem t = ?m"
    have "PGNUM (a + 1 + of_nat i) = 0x10000 + unat b" if "i < length bs" for i
      using Cons.prems(3) [of "Suc i"] that by (simp add: add.assoc)
    moreover have "datab (fsmem t) b" using Cons.prems(2) by (simp only: t(2) quietD(3) [OF q])
    moreover have "length bs \<le> 4096" using Cons.prems(4) by simp
    ultimately have "runs (fs_write_bytes (a + 1) bs) t () (put_list (a + 1) bs (fsmem t))"
      by (intro Cons.IH [OF t(1)])
    then show "runs (fs_write_bytes (a + 1) bs) t () (put_list a (c # bs) (fsmem s))"
      using put_list_Cons [of bs a "fsmem s" c] Cons.prems(4) by (simp add: t(2))
  qed
qed

lemma runs_read_bytes:
  assumes "bc_ok s" and "datab (fsmem s) b"
    and "\<And>i. i < n \<Longrightarrow> PGNUM (a + of_nat i) = 0x10000 + unat b"
  shows "runs (fs_read_bytes a n) s (map (\<lambda>i. fsmem s (a + of_nat i)) [0 ..< n]) (fsmem s)"
  using assms
proof (induction n arbitrary: a s)
  case 0
  then show ?case by (simp add: runs_def)
next
  case (Suc n)
  have geo: "geometry (fsmem s)" by (rule bc_ok_pointers(3) [OF Suc.prems(1)])
  have p: "PGNUM a = 0x10000 + unat b" using Suc.prems(3) [of 0] by simp
  have lt: "b < 0xC0000" by (rule datab_lt [OF geo Suc.prems(2)])
  have nbad: "\<not> outside_cache a" using p lt by (simp add: outside_PGNUM word_less_nat_alt)
  then have bl: "blockno_of a = b" using PGNUM_blockno [of a] p by (simp add: word_unat_eq_iff)
  have ld: "runs (fs_load8 a) s (fsmem s a) (fsmem s)"
    using runs_load8 [OF Suc.prems(1) nbad] bl Suc.prems(2) by (simp add: datab_def)
  show ?case
    unfolding fs_read_bytes.simps
  proof (rule runs_bind [OF ld])
    fix t assume t: "bc_ok t" "fsmem t = fsmem s"
    have "PGNUM (a + 1 + of_nat i) = 0x10000 + unat b" if "i < n" for i
      using Suc.prems(3) [of "Suc i"] that by (simp add: add.assoc)
    then have "runs (fs_read_bytes (a + 1) n) t (map (\<lambda>i. fsmem t (a + 1 + of_nat i)) [0 ..< n]) (fsmem t)"
      using Suc.IH [OF t(1), of "a + 1"] Suc.prems(2) t(2) by simp
    moreover have "map (\<lambda>i. fsmem s (a + of_nat i)) [0 ..< Suc n]
        = fsmem s a # map (\<lambda>i. fsmem t (a + 1 + of_nat i)) [0 ..< n]"
      unfolding t(2) by (simp add: upt_conv_Cons map_Suc_upt [symmetric] add.assoc del: upt_Suc)
    ultimately show "runs (bindM (fs_read_bytes (a + 1) n) (\<lambda>bs. ret (fsmem s a # bs))) t
        (map (\<lambda>i. fsmem s (a + of_nat i)) [0 ..< Suc n]) (fsmem s)"
      by (auto intro: runs_bind simp: runs_def t(2))
  qed
qed

section \<open>What a walk may change\<close>

definition content_block :: "bmem \<Rightarrow> u32 set \<Rightarrow> u32 \<Rightarrow> bool" where
  "content_block m F b \<longleftrightarrow> datab m b \<and> (\<forall>g \<in> F. b \<noteq> blockno_of g \<and> b \<noteq> indirect m g)"

definition mapin :: "bmem \<Rightarrow> bmem \<Rightarrow> u32 set \<Rightarrow> u32 \<Rightarrow> nat \<Rightarrow> bool" where
  "mapin m m' F f i \<longleftrightarrow> fsinv m' F \<and> nblocks m' = nblocks m \<and> (\<forall>b. block_used m b \<longrightarrow> block_used m' b)
     \<and> (\<forall>g \<in> F. header_same m m' g)
     \<and> (\<forall>g \<in> F. \<forall>l \<le> 1034. uses m' g l \<noteq> uses m g l \<longrightarrow>
          uses m g l = 0 \<and> g = f \<and> (l = i \<or> l = 1034) \<and> \<not> block_used m (uses m' g l))
     \<and> (\<forall>b x. content_block m F b \<longrightarrow> PGNUM x = 0x10000 + unat b \<longrightarrow> m' x = m x)"

lemma mapin_refl: "fsinv m F \<Longrightarrow> mapin m m F f i"
  by (simp add: mapin_def)

lemma mapinD:
  assumes "mapin m m' F f i"
  shows "fsinv m' F" "nblocks m' = nblocks m" "block_used m b \<Longrightarrow> block_used m' b" "g \<in> F \<Longrightarrow> header_same m m' g"
    "g \<in> F \<Longrightarrow> l \<le> 1034 \<Longrightarrow> uses m g l \<noteq> 0 \<Longrightarrow> uses m' g l = uses m g l"
    "g \<in> F \<Longrightarrow> l \<le> 1034 \<Longrightarrow> g \<noteq> f \<or> (l \<noteq> i \<and> l \<noteq> 1034) \<Longrightarrow> uses m' g l = uses m g l"
    "content_block m F b \<Longrightarrow> PGNUM x = 0x10000 + unat b \<Longrightarrow> m' x = m x"
    "g \<in> F \<Longrightarrow> l \<le> 1034 \<Longrightarrow> uses m' g l \<noteq> uses m g l \<Longrightarrow> \<not> block_used m (uses m' g l)"
    "datab m b \<Longrightarrow> datab m' b"
proof -
  note h = assms [unfolded mapin_def]
  show "fsinv m' F" "nblocks m' = nblocks m" "block_used m b \<Longrightarrow> block_used m' b" "g \<in> F \<Longrightarrow> header_same m m' g"
    "content_block m F b \<Longrightarrow> PGNUM x = 0x10000 + unat b \<Longrightarrow> m' x = m x"
    using h by blast+
  show "datab m b \<Longrightarrow> datab m' b" using h by (simp add: datab_def)
  show "g \<in> F \<Longrightarrow> l \<le> 1034 \<Longrightarrow> uses m g l \<noteq> 0 \<Longrightarrow> uses m' g l = uses m g l" using h by blast
  show "g \<in> F \<Longrightarrow> l \<le> 1034 \<Longrightarrow> g \<noteq> f \<or> (l \<noteq> i \<and> l \<noteq> 1034) \<Longrightarrow> uses m' g l = uses m g l" using h by blast
  show "g \<in> F \<Longrightarrow> l \<le> 1034 \<Longrightarrow> uses m' g l \<noteq> uses m g l \<Longrightarrow> \<not> block_used m (uses m' g l)" using h by blast
qed

lemma mapin_content:
  assumes "mapin m m' F f i" and "content_block m F b"
  shows "content_block m' F b"
  unfolding content_block_def
proof (intro conjI ballI)
  have d: "datab m b" and h: "\<And>g. g \<in> F \<Longrightarrow> b \<noteq> blockno_of g" "\<And>g. g \<in> F \<Longrightarrow> b \<noteq> indirect m g"
    using assms(2) by (auto simp: content_block_def)
  show "datab m' b" by (rule mapinD(9) [OF assms(1) d])
  fix g assume g: "g \<in> F"
  show "b \<noteq> blockno_of g" by (rule h(1) [OF g])
  show "b \<noteq> indirect m' g"
  proof
    assume e: "b = indirect m' g"
    then have "uses m' g 1034 \<noteq> uses m g 1034" using h(2) [OF g] by (simp add: uses_indirect)
    from mapinD(8) [OF assms(1) g _ this] show False using d e by (simp add: uses_indirect datab_def)
  qed
qed

lemma mapin_trans:
  assumes a: "mapin m m' F f i" and b: "mapin m' m'' F f i"
  shows "mapin m m'' F f i"
  unfolding mapin_def
proof (intro conjI allI ballI impI)
  show "fsinv m'' F" by (rule mapinD(1) [OF b])
  show "nblocks m'' = nblocks m" using mapinD(2) [OF a] mapinD(2) [OF b] by simp
  show "block_used m c \<Longrightarrow> block_used m'' c" for c using mapinD(3) [OF a] mapinD(3) [OF b] by blast
  show "g \<in> F \<Longrightarrow> header_same m m'' g" for g using mapinD(4) [OF a] mapinD(4) [OF b] header_trans by blast
  show "m'' x = m x" if "content_block m F c" "PGNUM x = 0x10000 + unat c" for c x
    using mapinD(7) [OF a that] mapinD(7) [OF b mapin_content [OF a that(1)] that(2)] by simp
  fix g l assume g: "g \<in> F" "l \<le> 1034" and ne: "uses m'' g l \<noteq> uses m g l"
  show "uses m g l = 0" using ne mapinD(5) [OF a g] mapinD(5) [OF b g] by force
  show "g = f" using ne mapinD(6) [OF a g] mapinD(6) [OF b g] by metis
  show "l = i \<or> l = 1034" using ne mapinD(6) [OF a g] mapinD(6) [OF b g] by metis
  show "\<not> block_used m (uses m'' g l)"
    using ne mapinD(8) [OF a g] mapinD(8) [OF b g] mapinD(3) [OF a] by metis
qed

section \<open>Installing a block\<close>

lemma fresh_cells:
  assumes inv: "fsinv m F" and f: "f \<in> F" and d: "d < nblocks m"
  shows "cell (clearbit d m) f k = cell m f k" "has_cell (clearbit d m) f k = has_cell m f k"
    "indirect (clearbit d m) f = indirect m f"
proof -
  show i: "indirect (clearbit d m) f = indirect m f"
    using uses_bits(1) [OF inv f _ d, of 1034] by (simp add: uses_indirect)
  show "cell (clearbit d m) f k = cell m f k" "has_cell (clearbit d m) f k = has_cell m f k"
    by (simp_all add: cell_def has_cell_def i)
qed

lemma mapin_clearbit:
  assumes inv: "fsinv m F" and d: "d < nblocks m" "bit_free m d"
  shows "mapin m (clearbit d m) F f i"
  unfolding mapin_def
proof (intro conjI allI ballI impI)
  note geo = fsinvD(1) [OF inv]
  show "fsinv (clearbit d m) F" by (rule fsinv_clearbit [OF inv d])
  show "nblocks (clearbit d m) = nblocks m" by (rule nblocks_bits(1) [OF d(1) geometry_bounds [OF geo]])
  show "block_used m b \<Longrightarrow> block_used (clearbit d m) b" for b by (simp add: live_clearbit [OF geo d(1)])
  show "g \<in> F \<Longrightarrow> header_same m (clearbit d m) g" for g by (rule uses_bits(2) [OF inv _ _ d(1), of _ 0]) simp_all
  show "clearbit d m x = m x" if "content_block m F b" "PGNUM x = 0x10000 + unat b" for b x
    using bits_off_bitmap(1) [OF d(1) geometry_bounds [OF geo] off_bitmap_datab [OF geo _ that(2)]] that(1)
    by (simp add: content_block_def)
qed (use uses_bits(1) [OF inv _ _ d(1)] in auto)

text \<open>The page of a cell holds file records or pointers, never contents.\<close>

lemma store_cell_content:
  assumes inv: "fsinv m F" and f: "f \<in> F" and k: "has_cell m f k"
    and b: "content_block m F b" "PGNUM x = 0x10000 + unat b"
  shows "store4 (cell m f k) v m x = m x"
proof (rule store4_other)
  fix i :: nat assume i: "i < 4"
  have w: "word_ok m (cell m f k)" by (rule cell_ok(1) [OF inv f k])
  have "PGNUM (cell m f k) \<noteq> 0x10000 + unat b"
    using cell_ok(2) [OF inv f k] b(1) f PGNUM_blockno [OF file_words(7) [OF inv f, of 0]]
    by (auto simp: content_block_def word_unat_eq_iff)
  then show "x \<noteq> cell m f k + of_nat i" using PGNUM_near(1) [OF word_okD(2) [OF w] i] b(2) by auto
qed

lemma install_data:
  assumes inv: "fsinv m F" and f: "f \<in> F" and k: "has_cell m f k" "k < 1034" and u0: "uses m f k = 0"
    and d: "datab m d" "\<And>g l. g \<in> F \<Longrightarrow> l \<le> 1034 \<Longrightarrow> uses m g l \<noteq> d" "\<And>g. g \<in> F \<Longrightarrow> d \<noteq> blockno_of g"
  defines "m' \<equiv> store4 (cell m f k) d m"
  shows "fsinv m' F" "quiet m m'" "uses m' f k = d"
proof -
  have q: "quiet m m'" unfolding m'_def by (rule quiet_store [OF fsinvD(1) [OF inv] cell_ok(1) [OF inv f k(1)]])
  note us = uses_store [OF inv f k, where v = d, folded m'_def]
  have sz: "unat (fsize m' g) \<le> 1034 * 4096" if "g \<in> F" for g
    using header_fsize [OF us(2) [OF that]] fsinvD(9) [OF inv that] by simp
  show "fsinv m' F" using k(2) by (intro fsinv_add [OF inv f _ q d us(1) sz]) simp_all
  show "quiet m m'" by (rule q)
  show "uses m' f k = d" using us(1) [OF f, of k] k(2) by simp
qed

lemma mapin_install:
  assumes inv: "fsinv m F" and f: "f \<in> F" and k: "has_cell m f k" "k < 1034" and u0: "uses m f k = 0"
    and d: "d < nblocks m" "bit_free m d"
  defines "m' \<equiv> store4 (cell m f k) d (clearbit d m)"
  shows "mapin m m' F f k" "uses m' f k = d" "free_blocks m' = free_blocks m - {unat d}"
    "quiet (clearbit d m) m'"
proof -
  let ?c = "clearbit d m"
  note fr = fresh_block [OF inv d]
  note c1 = mapin_clearbit [OF inv d, of f k]
  have invc: "fsinv ?c F" by (rule mapinD(1) [OF c1])
  note uc = uses_bits(1) [OF inv _ _ d(1)]
  have k': "has_cell ?c f k" "cell ?c f k = cell m f k" using k fresh_cells [OF inv f d(1)] by simp_all
  have h: "uses ?c f k = 0" using uc [OF f, of k] k u0 by simp
  have h': "\<And>g l. g \<in> F \<Longrightarrow> l \<le> 1034 \<Longrightarrow> uses ?c g l \<noteq> d" using uc fr(4) by simp
  note ins = install_data [OF invc f k'(1) k(2) h fr(3) h' fr(5), unfolded k'(2), folded m'_def]
  note us = uses_store [OF invc f k'(1) k(2), where v = d, unfolded k'(2), folded m'_def]
  show "uses m' f k = d" by (rule ins(3))
  show "quiet ?c m'" by (rule ins(2))
  show "free_blocks m' = free_blocks m - {unat d}"
    using quietD(5) [OF ins(2)] free_blocks_clearbit [OF fsinvD(1) [OF inv] d(1)] by simp
  show "mapin m m' F f k"
    unfolding mapin_def
  proof (intro conjI allI ballI impI)
    show "fsinv m' F" by (rule ins(1))
    show "nblocks m' = nblocks m" using quietD(1) [OF ins(2)] mapinD(2) [OF c1] by simp
    show "block_used m b \<Longrightarrow> block_used m' b" for b using quietD(2) [OF ins(2)] mapinD(3) [OF c1] by simp
    show "header_same m m' g" if "g \<in> F" for g
      using header_trans [OF mapinD(4) [OF c1 that] us(2) [OF that]] .
    show "m' x = m x" if b: "content_block m F b" "PGNUM x = 0x10000 + unat b" for b x
      using store_cell_content [OF invc f k'(1) mapin_content [OF c1 b(1)] b(2)] mapinD(7) [OF c1 b] k'(2)
      by (simp add: m'_def)
    fix g l assume g: "g \<in> F" "l \<le> 1034" and ne: "uses m' g l \<noteq> uses m g l"
    then have gl: "g = f \<and> l = k" using us(1) [OF g] uc [OF g] by (auto split: if_splits)
    then show "uses m g l = 0" "g = f" "l = k \<or> l = 1034" using u0 by simp_all
    show "\<not> block_used m (uses m' g l)" using gl ins(3) fr(1) by simp
  qed
qed

text \<open>A cleared block becomes the indirect block.\<close>

lemma mapin_indirect:
  assumes inv: "fsinv m F" and f: "f \<in> F" and i0: "indirect m f = 0"
    and d: "d < nblocks m" "bit_free m d"
  defines "m2 \<equiv> store4 (cell m f 1034) d (clearbit d m)"
  defines "m' \<equiv> put_list (DISKMAP + d * BLKSIZE) (replicate 4096 0) m2"
  shows "mapin m m' F f i" "indirect m' f = d" "free_blocks m' = free_blocks m - {unat d}"
    "\<And>k. 10 \<le> k \<Longrightarrow> k < 1034 \<Longrightarrow> uses m' f k = 0" "quiet (clearbit d m) m2" "datab m2 d"
proof -
  let ?c = "clearbit d m"
  note geo = fsinvD(1) [OF inv]
  note fr = fresh_block [OF inv d]
  note c1 = mapin_clearbit [OF inv d, of f i]
  have invc: "fsinv ?c F" by (rule mapinD(1) [OF c1])
  have geoc: "geometry ?c" by (rule fsinvD(1) [OF invc])
  note uc = uses_bits(1) [OF inv _ _ d(1)]
  have cc: "cell ?c g k = cell m g k" "has_cell ?c g k = has_cell m g k" "indirect ?c g = indirect m g"
    if "g \<in> F" for g k using fresh_cells [OF inv that d(1)] by simp_all
  have hk: "has_cell ?c f 1034" by (simp add: has_cell_def)
  have w: "word_ok ?c (cell m f 1034)" using cell_ok(1) [OF invc f hk] cc [OF f] by simp
  show q: "quiet ?c m2" unfolding m2_def by (rule quiet_store [OF geoc w])
  have lt: "d < 0xC0000" by (rule datab_lt [OF geoc fr(3)])
  show dd: "datab m2 d" using fr(3) quietD(3) [OF q] by simp
  define base where "base = DISKMAP + d * BLKSIZE"
  have base: "unat base = 0x10000000 + unat d * 4096"
    using block_base(1) [OF lt] by (simp add: base_def)
  have inpage: "unat (x - base) < 4096 \<longleftrightarrow> PGNUM x = 0x10000 + unat d" for x
  proof -
    have nb: "\<not> outside_cache base" using block_base(3) [OF lt] by (simp add: base_def)
    have p: "PGNUM base = 0x10000 + unat d" using block_base(2) [OF lt] by (simp add: base_def)
    have "unat (ROUNDDOWN base PGSIZE) = unat base" using page_base(1) [OF nb] p base by simp
    then have "ROUNDDOWN base PGSIZE = base" by (simp only: word_unat_eq_iff)
    then show ?thesis using page_base(2) [OF nb, of x] p by simp
  qed
  have m': "m' x = (if PGNUM x = 0x10000 + unat d then 0 else m2 x)" for x
    using inpage by (simp add: m'_def put_list_def base_def [symmetric])
  have q2: "quiet m2 m'"
    using dd quietD(4) [OF q] geoc by (intro quiet_data) (auto simp: m' split: if_splits)
  have m2: "m2 x = ?c x" if "\<And>j. j < 4 \<Longrightarrow> x \<noteq> cell m f 1034 + of_nat j" for x
    unfolding m2_def using that by (rule store4_other)
  have cellpage: "PGNUM (cell m f 1034) = PGNUM f"
    using cell_ok(2) [OF invc f hk] cc [OF f] by simp
  have cellpages: "PGNUM (cell m f 1034 + of_nat j) = PGNUM f" if "j < 4" for j
    using PGNUM_near(1) [OF word_okD(2) [OF w] that] cellpage by simp
  have home: "PGNUM g \<noteq> 0x10000 + unat d" if "g \<in> F" for g
    using fr(5) [OF that] PGNUM_blockno [OF file_words(7) [OF inv that, of 0]] by (auto simp: word_unat_eq_iff)
  have rec: "m' (g + of_nat c) = m2 (g + of_nat c)" if "g \<in> F" "c < 256" for g c
    using file_words(2) [OF inv that] home [OF that(1)] by (simp add: m')
  have load_rec: "load4 (g + of_nat c) m' = load4 (g + of_nat c) m2" if "g \<in> F" "c < 253" for g c
  proof -
    have "m' (g + of_nat c + of_nat i) = m2 (g + of_nat c + of_nat i)" if "i < 4" for i
      using rec [OF \<open>g \<in> F\<close>, of "c + i"] that \<open>c < 253\<close> by (simp add: add.assoc)
    from this [of 0] this [of 1] this [of 2] this [of 3] show ?thesis by (simp add: load4_def)
  qed
  have al: "unat (cell m f 1034) mod 4 = 0" by (rule word_okD(2) [OF w])
  have store_other: "load4 (cell m g k) m2 = load4 (cell m g k) ?c"
    if "g \<in> F" "k \<le> 1034" "has_cell m g k" "g \<noteq> f \<or> k \<noteq> 1034" for g k
  proof -
    have "cell ?c g k \<noteq> cell ?c f 1034"
      using that cell_distinct [OF invc that(1) f _ _ hk] cc [OF that(1)] by simp
    then show ?thesis
      using load4_store4_other [OF word_okD(2) [OF cell_ok(1) [OF invc that(1)]] al] that cc [OF that(1)] cc [OF f]
      by (simp add: m2_def)
  qed
  have ind: "indirect m' g = (if g = f then d else indirect m g)" if g: "g \<in> F" for g
  proof -
    have "indirect m' g = load4 (cell m g 1034) m2"
      using load_rec [OF g, of 176] by (simp add: indirect_def cell_def kconst)
    moreover have "load4 (cell m f 1034) m2 = d" by (simp add: m2_def)
    moreover have "load4 (cell m g 1034) m2 = indirect m g" if "g \<noteq> f"
      using store_other [OF g, of 1034] that cc(3) [OF g] by (simp add: has_cell_def indirect_def cell_def)
    ultimately show ?thesis by auto
  qed
  show indf: "indirect m' f = d" using ind [OF f] by simp
  have page_other: "m' x = ?c x" if "PGNUM x \<noteq> 0x10000 + unat d" "PGNUM x \<noteq> PGNUM f" for x
  proof -
    have "x \<noteq> cell m f 1034 + of_nat j" if "j < 4" for j
      using cellpages [OF that] \<open>PGNUM x \<noteq> PGNUM f\<close> by auto
    then show ?thesis using m2 that(1) by (simp add: m')
  qed
  show zero: "uses m' f k = 0" if k: "10 \<le> k" "k < 1034" for k
  proof -
    have c: "cell m' f k = DISKMAP + d * BLKSIZE + 4 * of_nat (k - 10)"
      using k by (simp add: cell_def indf)
    have "k - 10 < 1024" using k by simp
    note wd = word_ok_data [OF geoc fr(3) this, folded c]
    have "PGNUM (cell m' f k + of_nat j) = 0x10000 + unat d" if "j < 4" for j
      using PGNUM_near(1) [OF word_okD(2) [OF wd(1)] that] wd(2) by simp
    then have "m' (cell m' f k + of_nat j) = 0" if "j < 4" for j using that by (simp add: m')
    from this [of 0] this [of 1] this [of 2] this [of 3] have "load4 (cell m' f k) m' = 0"
      by (simp add: load4_def)
    then show ?thesis by (simp add: uses_def)
  qed
  have us: "uses m' g l = (if g = f \<and> l = 1034 then d else uses ?c g l)" if g: "g \<in> F" and l: "l \<le> 1034" for g l
  proof -
    consider "g = f \<and> l = 1034" | "g = f" "10 \<le> l" "l < 1034" | "l < 10 \<or> l = 1034" "\<not> (g = f \<and> l = 1034)"
      | "g \<noteq> f" "10 \<le> l" "l < 1034" using l by linarith
    then show ?thesis
    proof cases
      case 1
      then show ?thesis using indf by (simp add: uses_indirect)
    next
      case 2
      then have "uses ?c f l = 0" using cc(3) [OF f] i0 by (simp add: uses_def)
      then show ?thesis using 2 zero by simp
    next
      case 3
      then have c: "cell m' g l = g + of_nat (inner l)" "cell m g l = g + of_nat (inner l)" "cell ?c g l = g + of_nat (inner l)"
        by (simp_all add: cell_inner)
      have h: "has_cell m g l" "has_cell m' g l" "has_cell ?c g l" using 3 by (auto simp: has_cell_def)
      have "inner l < 253" by (auto simp: inner_def)
      then have "load4 (cell m' g l) m' = load4 (cell m g l) m2" using load_rec [OF g] by (simp only: c)
      also have "\<dots> = load4 (cell ?c g l) ?c" using store_other [OF g l h(1)] 3 c by auto
      finally show ?thesis using 3 h l by (auto simp: has_cell_uses)
    next
      case 4
      have ii: "indirect m' g = indirect ?c g" using ind [OF g] 4 cc(3) [OF g] by simp
      then have c: "cell m' g l = cell ?c g l" by (simp add: cell_def)
      have "load4 (cell ?c g l) m' = load4 (cell ?c g l) ?c" if nz: "indirect ?c g \<noteq> 0"
      proof -
        have h: "has_cell ?c g l" using nz 4 by (simp add: has_cell_def)
        have p: "PGNUM (cell ?c g l) = 0x10000 + unat (indirect ?c g)" using cell_ok(2) [OF invc g h] 4 by simp
        have "indirect ?c g \<noteq> d" using fr(4) [OF g, of 1034] cc(3) [OF g] by (simp add: uses_indirect)
        then have "PGNUM (cell ?c g l) \<noteq> 0x10000 + unat d" using p by (auto simp: word_unat_eq_iff)
        moreover have "PGNUM (cell ?c g l) \<noteq> PGNUM f" using file_off_indirect [OF invc f g nz] p by simp
        ultimately have "m' (cell ?c g l + of_nat j) = ?c (cell ?c g l + of_nat j)" if "j < 4" for j
          using page_other PGNUM_near(1) [OF word_okD(2) [OF cell_ok(1) [OF invc g h]] that] by simp
        then show ?thesis by (intro load4_upd_other word_okD(2) [OF cell_ok(1) [OF invc g h]])
      qed
      then show ?thesis using 4 ii c by (auto simp: uses_def)
    qed
  qed
  have head: "header_same m m' g" if g: "g \<in> F" for g
  proof -
    have "m2 (g + of_nat c) = ?c (g + of_nat c)" if "c < 136" for c
      using cell_off_header [OF invc f g hk that] cc [OF f] by (intro m2) simp
    then have "header_same ?c m' g" using rec [OF g] by (simp add: header_same_def)
    then show ?thesis by (rule header_trans [OF mapinD(4) [OF c1 g]])
  qed
  have sz: "unat (fsize m' g) \<le> 1034 * 4096" if "g \<in> F" for g
    using header_fsize [OF head [OF that]] fsinvD(9) [OF inv that] by simp
  have uc': "\<And>g l. g \<in> F \<Longrightarrow> l \<le> 1034 \<Longrightarrow> uses ?c g l \<noteq> d" using uc fr(4) by simp
  have qq: "quiet ?c m'" by (rule quiet_trans [OF q q2])
  have inv': "fsinv m' F" by (rule fsinv_add [OF invc f _ qq fr(3) uc' fr(5) us sz]) simp_all
  show "free_blocks m' = free_blocks m - {unat d}"
    using quietD(5) [OF qq] free_blocks_clearbit [OF geo d(1)] by simp
  show "mapin m m' F f i"
    unfolding mapin_def
  proof (intro conjI allI ballI impI)
    show "fsinv m' F" by (rule inv')
    show "nblocks m' = nblocks m" using quietD(1) [OF qq] mapinD(2) [OF c1] by simp
    show "block_used m b \<Longrightarrow> block_used m' b" for b using quietD(2) [OF qq] mapinD(3) [OF c1] by simp
    show "g \<in> F \<Longrightarrow> header_same m m' g" for g by (rule head)
    show "m' x = m x" if b: "content_block m F b" "PGNUM x = 0x10000 + unat b" for b x
    proof -
      have "b \<noteq> d" using b(1) fr(1) by (auto simp: content_block_def datab_def)
      then have "PGNUM x \<noteq> 0x10000 + unat d" using b(2) by (auto simp: word_unat_eq_iff)
      moreover have "PGNUM x \<noteq> PGNUM f"
        using b f PGNUM_blockno [OF file_words(7) [OF inv f, of 0]]
        by (auto simp: content_block_def word_unat_eq_iff)
      ultimately show ?thesis using page_other mapinD(7) [OF c1 b] by simp
    qed
    fix g l assume g: "g \<in> F" "l \<le> 1034" and ne: "uses m' g l \<noteq> uses m g l"
    then have gl: "g = f \<and> l = 1034" using us [OF g] uc [OF g] by (auto split: if_splits)
    then show "uses m g l = 0" "g = f" "l = i \<or> l = 1034" using i0 by (simp_all add: uses_indirect)
    show "\<not> block_used m (uses m' g l)" using gl indf fr(1) by (simp add: uses_indirect)
  qed
qed

section \<open>Walking the block map\<close>

lemma runs_load_word: "bc_ok s \<Longrightarrow> word_ok (fsmem s) a \<Longrightarrow> runs (fs_load32 a) s (load4 a (fsmem s)) (fsmem s)"
  by (intro runs_load) (auto simp: word_ok_def)

lemma runs_store_word:
  assumes "bc_ok s" and "word_ok (fsmem s) a"
  shows "runs (fs_store32 a v) s () (store4 a v (fsmem s))"
  using assms quietD(4) [OF quiet_store [OF bc_ok_pointers(3) [OF assms(1)] assms(2)]] bc_ok_pointers(3) [OF assms(1)]
  by (intro runs_store32) (auto simp: word_ok_def)

lemma runs_load_indirect:
  assumes "bc_ok s" and "fsinv (fsmem s) F" and "f \<in> F"
  shows "runs (fs_load32 (f + f_indirect)) s (indirect (fsmem s) f) (fsmem s)"
  using runs_load_word [OF assms(1), of "f + f_indirect"] cell_ok(1) [OF assms(2,3), of 1034]
  by (simp add: has_cell_def cell_def indirect_def)

lemma runs_diskaddr_data:
  assumes "bc_ok s" and "datab (fsmem s) b"
  shows "runs (diskaddr b) s (DISKMAP + b * BLKSIZE) (fsmem s)"
  using runs_diskaddr [OF assms(1)] datab_ne [OF bc_ok_pointers(3) [OF assms(1)] assms(2)] assms(2)
  by (simp add: datab_def block_used_def)

lemma small_word: "i < 1034 \<Longrightarrow> unat (of_nat i :: u32) = i"
  by (simp add: unat_of_nat)

lemma of_nat_NDIRECT:
  assumes "i < 1034"
  shows "(of_nat i :: u32) < NDIRECT \<longleftrightarrow> i < 10" "(of_nat i :: u32) < NINDIRECT + NDIRECT"
    "10 \<le> i \<Longrightarrow> (of_nat i :: u32) - NDIRECT = of_nat (i - 10)"
  using small_word [OF assms] assms by (simp_all add: word_less_nat_alt NDIRECT_def NINDIRECT_def)

lemma runs_walk_direct:
  assumes "bc_ok s" and "i < 10"
  shows "runs (file_block_walk f (of_nat i) al) s (0, Some (cell (fsmem s) f i)) (fsmem s)"
  using assms of_nat_NDIRECT(1) [of i] by (simp add: file_block_walk_def cell_def runs_def)

lemma runs_walk_found:
  assumes ok: "bc_ok s" and inv: "fsinv (fsmem s) F" and f: "f \<in> F" and i: "10 \<le> i" "i < 1034"
    and ind: "indirect (fsmem s) f \<noteq> 0"
  shows "runs (file_block_walk f (of_nat i) al) s (0, Some (cell (fsmem s) f i)) (fsmem s)"
proof -
  let ?m = "fsmem s"
  have c: "cell ?m f i = DISKMAP + indirect ?m f * BLKSIZE + 4 * (of_nat i - NDIRECT)"
    using i of_nat_NDIRECT(3) [of i] by (simp add: cell_def)
  have b: "(of_nat i :: u32) < NDIRECT \<longleftrightarrow> False" "(of_nat i :: u32) < NINDIRECT + NDIRECT \<longleftrightarrow> True"
    using i of_nat_NDIRECT [of i] by simp_all
  note ld = runs_load_indirect [OF _ _ f]
  show ?thesis
    unfolding file_block_walk_def b if_False if_True
  proof (rule runs_bind [OF ld [OF ok inv]])
    fix t assume t: "bc_ok t" "fsmem t = ?m"
    have "runs (bindM (fs_load32 (f + f_indirect)) (\<lambda>ind. bindM (diskaddr ind) (\<lambda>a.
        ret (0, Some (a + 4 * (of_nat i - NDIRECT)))))) t (0, Some (cell ?m f i)) ?m"
    proof (rule runs_bind [OF ld [OF t(1)]])
      show "fsinv (fsmem t) F" using inv t(2) by simp
      fix u assume u: "bc_ok u" "fsmem u = fsmem t"
      have "runs (diskaddr (indirect (fsmem t) f)) u (DISKMAP + indirect ?m f * BLKSIZE) ?m"
        using runs_diskaddr_data [OF u(1)] indirect_datab [OF inv f ind] u(2) t(2) by simp
      then show "runs (bindM (diskaddr (indirect (fsmem t) f)) (\<lambda>a.
          ret (0, Some (a + 4 * (of_nat i - NDIRECT))))) u (0, Some (cell ?m f i)) ?m"
        unfolding c by (rule runs_bind) (auto simp: runs_def)
    qed
    then show "runs (if indirect ?m f = 0 \<and> \<not> al then ret (- E_NOT_FOUND, None)
        else thenM (whenM (indirect ?m f = 0) (bindM alloc_block (\<lambda>blkno.
            thenM (fs_store32 (f + f_indirect) blkno)
              (bindM (diskaddr blkno) (\<lambda>a. fs_write_bytes a (replicate 4096 0))))))
          (bindM (fs_load32 (f + f_indirect)) (\<lambda>ind. bindM (diskaddr ind) (\<lambda>a.
            ret (0, Some (a + 4 * (of_nat i - NDIRECT))))))) t (0, Some (cell ?m f i)) ?m"
      using ind by (simp add: runs_def)
  qed
qed

lemma runs_walk_none:
  assumes "bc_ok s" and "fsinv (fsmem s) F" and "f \<in> F" and "10 \<le> i" "i < 1034"
    and "indirect (fsmem s) f = 0"
  shows "runs (file_block_walk f (of_nat i) False) s (- E_NOT_FOUND, None) (fsmem s)"
proof -
  have b: "(of_nat i :: u32) < NDIRECT \<longleftrightarrow> False" "(of_nat i :: u32) < NINDIRECT + NDIRECT \<longleftrightarrow> True"
    using assms(4,5) of_nat_NDIRECT [of i] by simp_all
  show ?thesis
    unfolding file_block_walk_def b if_False if_True
    by (rule runs_bind [OF runs_load_indirect [OF assms(1-3)]]) (simp add: assms(6) runs_def)
qed

lemma walk_out_of_range: "1034 \<le> filebno \<Longrightarrow> file_block_walk f filebno al s = (Ret (- E_INVAL, None), s)"
proof -
  assume "1034 \<le> filebno"
  then have "\<not> filebno < NDIRECT" "\<not> filebno < NINDIRECT + NDIRECT"
    by (simp_all add: NDIRECT_def NINDIRECT_def word_le_nat_alt word_less_nat_alt)
  then show ?thesis by (simp add: file_block_walk_def)
qed

text \<open>The walk that installs an indirect block.\<close>

lemma runs_walk_alloc:
  assumes ok: "bc_ok s" and inv: "fsinv (fsmem s) F" and f: "f \<in> F" and i: "10 \<le> i" "i < 1034"
    and ind: "indirect (fsmem s) f = 0" and sp: "free_blocks (fsmem s) \<noteq> {}"
  shows "\<exists>m'. runs (file_block_walk f (of_nat i) True) s (0, Some (cell m' f i)) m'
    \<and> mapin (fsmem s) m' F f i \<and> indirect m' f \<noteq> 0 \<and> uses m' f i = 0
    \<and> card (free_blocks m') + 1 = card (free_blocks (fsmem s))"
proof -
  let ?m = "fsmem s"
  define d where "d = next_free ?m"
  note d = next_free [OF sp, folded d_def]
  define m2 where "m2 = store4 (cell ?m f 1034) d (clearbit d ?m)"
  define m' where "m' = put_list (DISKMAP + d * BLKSIZE) (replicate 4096 0) m2"
  note mi = mapin_indirect [OF inv f ind d(3,4), folded m2_def, folded m'_def]
  note c1 = mapin_clearbit [OF inv d(3,4), of f i]
  have c34: "cell ?m f 1034 = f + f_indirect" by (simp add: cell_def)
  have b: "(of_nat i :: u32) < NDIRECT \<longleftrightarrow> False" "(of_nat i :: u32) < NINDIRECT + NDIRECT \<longleftrightarrow> True"
    using i of_nat_NDIRECT [of i] by simp_all
  have w: "word_ok (clearbit d ?m) (f + f_indirect)"
    using cell_ok(1) [OF mapinD(1) [OF c1] f, of 1034] by (simp add: has_cell_def cell_def)
  have alloc: "runs (bindM alloc_block (\<lambda>blkno. thenM (fs_store32 (f + f_indirect) blkno)
      (bindM (diskaddr blkno) (\<lambda>a. fs_write_bytes a (replicate 4096 0))))) t () m'"
    if t: "bc_ok t" "fsmem t = ?m" for t
  proof (rule runs_bind)
    show "runs alloc_block t d (clearbit d ?m)"
      using alloc_block_ok [OF t(1)] sp t(2) by (simp add: d_def)
    fix u assume u: "bc_ok u" "fsmem u = clearbit d ?m"
    show "runs (thenM (fs_store32 (f + f_indirect) d)
        (bindM (diskaddr d) (\<lambda>a. fs_write_bytes a (replicate 4096 0)))) u () m'"
    proof (rule runs_then)
      show "runs (fs_store32 (f + f_indirect) d) u () m2"
        using runs_store_word [OF u(1)] w by (simp add: u(2) m2_def c34)
      fix v assume v: "bc_ok v" "fsmem v = m2"
      have dv: "datab (fsmem v) d" using mi(6) v(2) by simp
      show "runs (bindM (diskaddr d) (\<lambda>a. fs_write_bytes a (replicate 4096 0))) v () m'"
      proof (rule runs_bind [OF runs_diskaddr_data [OF v(1) dv]])
        fix x assume x: "bc_ok x" "fsmem x = fsmem v"
        have "PGNUM (DISKMAP + d * BLKSIZE + of_nat j) = 0x10000 + unat d" if "j < 4096" for j
          using block_addr(2) [OF datab_lt [OF bc_ok_pointers(3) [OF v(1)] dv] that] .
        then show "runs (fs_write_bytes (DISKMAP + d * BLKSIZE) (replicate 4096 0)) x () m'"
          using runs_write_bytes [OF x(1), of d "replicate 4096 0" "DISKMAP + d * BLKSIZE"] dv x(2) v(2)
          by (simp add: m'_def)
      qed
    qed
  qed
  have inv': "fsinv m' F" by (rule mapinD(1) [OF mi(1)])
  have run: "runs (file_block_walk f (of_nat i) True) s (0, Some (cell m' f i)) m'"
    unfolding file_block_walk_def b if_False if_True
  proof (rule runs_bind [OF runs_load_indirect [OF ok inv f]])
    fix t assume t: "bc_ok t" "fsmem t = ?m"
    have "runs (thenM (bindM alloc_block (\<lambda>blkno. thenM (fs_store32 (f + f_indirect) blkno)
          (bindM (diskaddr blkno) (\<lambda>a. fs_write_bytes a (replicate 4096 0)))))
        (bindM (fs_load32 (f + f_indirect)) (\<lambda>ind. bindM (diskaddr ind) (\<lambda>a.
          ret (0, Some (a + 4 * (of_nat i - NDIRECT))))))) t (0, Some (cell m' f i)) m'"
    proof (rule runs_then [OF alloc [OF t]])
      fix u assume u: "bc_ok u" "fsmem u = m'"
      have "fsinv (fsmem u) F" using inv' u(2) by simp
      note ld = runs_load_indirect [OF u(1) this f]
      show "runs (bindM (fs_load32 (f + f_indirect)) (\<lambda>ind. bindM (diskaddr ind) (\<lambda>a.
          ret (0, Some (a + 4 * (of_nat i - NDIRECT)))))) u (0, Some (cell m' f i)) m'"
      proof (rule runs_bind [OF ld])
        fix v assume v: "bc_ok v" "fsmem v = fsmem u"
        have dn: "d \<noteq> 0" by (rule fresh_block(2) [OF inv d(3,4)])
        then have "datab m' d" using indirect_datab [OF inv' f] mi(2) by simp
        then have "runs (diskaddr (indirect (fsmem u) f)) v (DISKMAP + d * BLKSIZE) m'"
          using runs_diskaddr_data [OF v(1), of d] v(2) u(2) mi(2) by simp
        moreover have "DISKMAP + d * BLKSIZE + 4 * (of_nat i - NDIRECT) = cell m' f i"
          using i mi(2) of_nat_NDIRECT(3) [of i] by (simp add: cell_def)
        ultimately show "runs (bindM (diskaddr (indirect (fsmem u) f)) (\<lambda>a.
            ret (0, Some (a + 4 * (of_nat i - NDIRECT))))) v (0, Some (cell m' f i)) m'"
          by (auto intro!: runs_bind simp: runs_def)
      qed
    qed
    then show "runs (if indirect ?m f = 0 \<and> \<not> True then ret (- E_NOT_FOUND, None)
        else thenM (whenM (indirect ?m f = 0) (bindM alloc_block (\<lambda>blkno.
            thenM (fs_store32 (f + f_indirect) blkno)
              (bindM (diskaddr blkno) (\<lambda>a. fs_write_bytes a (replicate 4096 0))))))
          (bindM (fs_load32 (f + f_indirect)) (\<lambda>ind. bindM (diskaddr ind) (\<lambda>a.
            ret (0, Some (a + 4 * (of_nat i - NDIRECT))))))) t (0, Some (cell m' f i)) m'"
      using ind by (simp add: runs_def)
  qed
  have "card (free_blocks m') + 1 = card (free_blocks ?m)"
    using d(2) mi(3) card_Suc_Diff1 [OF finite_free_blocks d(2)] by simp
  moreover have "indirect m' f \<noteq> 0" using mi(2) fresh_block(2) [OF inv d(3,4)] by simp
  ultimately show ?thesis using run mi(1) mi(4) [OF i] by blast
qed

text \<open>The positions of one call that need a new block.\<close>

definition needed :: "bmem \<Rightarrow> u32 \<Rightarrow> nat \<Rightarrow> nat" where
  "needed m f i = (if uses m f i = 0 then 1 else 0) + (if 10 \<le> i \<and> indirect m f = 0 then 1 else 0)"

lemma runs_walk:
  assumes ok: "bc_ok s" and inv: "fsinv (fsmem s) F" and f: "f \<in> F" and i: "i < 1034"
    and sp: "10 \<le> i \<Longrightarrow> indirect (fsmem s) f = 0 \<Longrightarrow> free_blocks (fsmem s) \<noteq> {}"
  shows "\<exists>m'. runs (file_block_walk f (of_nat i) True) s (0, Some (cell m' f i)) m'
    \<and> mapin (fsmem s) m' F f i \<and> has_cell m' f i \<and> uses m' f i = uses (fsmem s) f i
    \<and> card (free_blocks m') + (if 10 \<le> i \<and> indirect (fsmem s) f = 0 then 1 else 0)
        = card (free_blocks (fsmem s))"
proof -
  let ?m = "fsmem s"
  consider "i < 10" | "10 \<le> i" "indirect ?m f \<noteq> 0" | "10 \<le> i" "indirect ?m f = 0" by linarith
  then show ?thesis
  proof cases
    case 1
    then show ?thesis
      using runs_walk_direct [OF ok 1] mapin_refl [OF inv] by (intro exI [of _ ?m]) (simp add: has_cell_def)
  next
    case 2
    then show ?thesis
      using runs_walk_found [OF ok inv f 2(1) i 2(2)] mapin_refl [OF inv] i
      by (intro exI [of _ ?m]) (simp add: has_cell_def)
  next
    case 3
    obtain m' where m': "runs (file_block_walk f (of_nat i) True) s (0, Some (cell m' f i)) m'"
      "mapin ?m m' F f i" "indirect m' f \<noteq> 0" "uses m' f i = 0"
      "card (free_blocks m') + 1 = card (free_blocks ?m)"
      using runs_walk_alloc [OF ok inv f 3(1) i 3(2) sp [OF 3]] by blast
    then show ?thesis
      using 3 i by (intro exI [of _ m']) (simp add: has_cell_def uses_def)
  qed
qed

lemma cell_mapin:
  assumes "mapin m m' F f i" and "f \<in> F" and "has_cell m f i" and "i < 1034"
  shows "cell m' f i = cell m f i" and "has_cell m' f i"
proof -
  have "indirect m' f = indirect m f" if "10 \<le> i"
  proof -
    have "uses m f 1034 \<noteq> 0" using assms(3,4) that by (simp add: has_cell_def uses_indirect)
    then show ?thesis using mapinD(5) [OF assms(1,2), of 1034] by (simp add: uses_indirect)
  qed
  then show "cell m' f i = cell m f i" "has_cell m' f i"
    using assms(3,4) by (auto simp: cell_def has_cell_def)
qed

lemma get_block_ok:
  assumes ok: "bc_ok s" and inv: "fsinv (fsmem s) F" and f: "f \<in> F" and i: "i < 1034"
    and sp: "needed (fsmem s) f i \<le> card (free_blocks (fsmem s))"
  shows "\<exists>m'. runs (file_get_block f (of_nat i)) s (0, DISKMAP + uses m' f i * BLKSIZE) m'
    \<and> mapin (fsmem s) m' F f i \<and> uses m' f i \<noteq> 0
    \<and> card (free_blocks m') + needed (fsmem s) f i = card (free_blocks (fsmem s))"
proof -
  let ?m = "fsmem s"
  have "10 \<le> i \<Longrightarrow> indirect ?m f = 0 \<Longrightarrow> free_blocks ?m \<noteq> {}" using sp by (auto simp: needed_def)
  from runs_walk [OF ok inv f i this] obtain m1 where m1:
    "runs (file_block_walk f (of_nat i) True) s (0, Some (cell m1 f i)) m1" "mapin ?m m1 F f i"
    "has_cell m1 f i" "uses m1 f i = uses ?m f i"
    "card (free_blocks m1) + (if 10 \<le> i \<and> indirect ?m f = 0 then 1 else 0) = card (free_blocks ?m)"
    by blast
  have inv1: "fsinv m1 F" by (rule mapinD(1) [OF m1(2)])
  have i': "i \<le> 1034" using i by simp
  have w1: "word_ok m1 (cell m1 f i)" by (rule cell_ok(1) [OF inv1 f m1(3)])
  define d where "d = next_free m1"
  define m' where "m' = (if uses ?m f i = 0 then store4 (cell m1 f i) d (clearbit d m1) else m1)"
  have sp1: "free_blocks m1 \<noteq> {}" if "uses ?m f i = 0"
  proof -
    have "card (free_blocks m1) \<noteq> 0" using sp m1(5) that by (auto simp: needed_def split: if_splits)
    then show ?thesis by auto
  qed
  have R: "mapin ?m m' F f i \<and> uses m' f i \<noteq> 0 \<and> load4 (cell m1 f i) m' = uses m' f i
    \<and> card (free_blocks m') + needed ?m f i = card (free_blocks ?m)"
  proof (cases "uses ?m f i = 0")
    case True
    note nf = next_free [OF sp1 [OF True], folded d_def]
    have u0: "uses m1 f i = 0" using m1(4) True by simp
    note mi = mapin_install [OF inv1 f m1(3) i u0 nf(3,4)]
    have m'e: "m' = store4 (cell m1 f i) d (clearbit d m1)" using True by (simp add: m'_def)
    have "card (free_blocks m') + 1 = card (free_blocks m1)"
      using mi(3) card_Suc_Diff1 [OF finite_free_blocks nf(2)] by (simp add: m'e)
    moreover have "load4 (cell m1 f i) m' = d" by (simp add: m'e)
    ultimately show ?thesis
      using mapin_trans [OF m1(2) mi(1)] mi(2) fresh_block(2) [OF inv1 nf(3,4)] m1(5) True
      by (simp add: m'e needed_def)
  next
    case False
    then show ?thesis using m1 i' by (simp add: m'_def needed_def has_cell_uses)
  qed
  have step: "runs (whenM (load4 (cell m1 f i) m1 = 0)
      (bindM alloc_block (\<lambda>block_no. fs_store32 (cell m1 f i) block_no))) t () m'"
    if t: "bc_ok t" "fsmem t = m1" for t
  proof (cases "uses ?m f i = 0")
    case True
    then have z: "load4 (cell m1 f i) m1 = 0" using m1(3,4) i' by (simp add: has_cell_uses)
    note nf = next_free [OF sp1 [OF True], folded d_def]
    have "runs (bindM alloc_block (\<lambda>block_no. fs_store32 (cell m1 f i) block_no)) t () m'"
    proof (rule runs_bind)
      show "runs alloc_block t d (clearbit d m1)"
        using alloc_block_ok [OF t(1)] sp1 [OF True] by (simp add: t(2) d_def)
      fix u assume u: "bc_ok u" "fsmem u = clearbit d m1"
      have invc: "fsinv (clearbit d m1) F" by (rule fsinv_clearbit [OF inv1 nf(3,4)])
      have "word_ok (fsmem u) (cell m1 f i)"
        using cell_ok(1) [OF invc f, of i] fresh_cells [OF inv1 f nf(3)] m1(3) by (simp add: u(2))
      then show "runs (fs_store32 (cell m1 f i) d) u () m'"
        using runs_store_word [OF u(1)] True by (simp add: u(2) m'_def)
    qed
    then show ?thesis using z by (simp add: runs_def)
  next
    case False
    then have "load4 (cell m1 f i) m1 \<noteq> 0" using m1(3,4) i' by (simp add: has_cell_uses)
    then show ?thesis using t False by (simp add: runs_def m'_def)
  qed
  have inv': "fsinv m' F" using R mapinD(1) by blast
  have d': "datab m' (uses m' f i)" using fsinvD(6) [OF inv' f i'] R by blast
  have mm: "mapin m1 m' F f i"
  proof (cases "uses ?m f i = 0")
    case True
    note nf = next_free [OF sp1 [OF True], folded d_def]
    have "uses m1 f i = 0" using m1(4) True by simp
    from mapin_install(1) [OF inv1 f m1(3) i this nf(3,4)] show ?thesis using True by (simp add: m'_def)
  next
    case False
    then show ?thesis using mapin_refl [OF inv1] by (simp add: m'_def)
  qed
  have c': "cell m' f i = cell m1 f i" "has_cell m' f i" using cell_mapin [OF mm f m1(3) i] by simp_all
  have w': "word_ok m' (cell m1 f i)" using cell_ok(1) [OF inv' f c'(2)] c'(1) by simp
  have "runs (file_get_block f (of_nat i)) s (0, DISKMAP + uses m' f i * BLKSIZE) m'"
    unfolding file_get_block_def
  proof (rule runs_bind [OF m1(1)])
    fix t assume t: "bc_ok t" "fsmem t = m1"
    have "runs (bindM (fs_load32 (cell m1 f i)) (\<lambda>v. thenM (whenM (v = 0)
          (bindM alloc_block (\<lambda>block_no. fs_store32 (cell m1 f i) block_no)))
        (bindM (fs_load32 (cell m1 f i)) (\<lambda>v. bindM (diskaddr v) (\<lambda>a. ret (0, a)))))) t
        (0, DISKMAP + uses m' f i * BLKSIZE) m'"
    proof (rule runs_bind [OF runs_load_word [OF t(1)]])
      show "word_ok (fsmem t) (cell m1 f i)" using w1 t(2) by simp
      fix u assume u: "bc_ok u" "fsmem u = fsmem t"
      then have u1: "fsmem u = m1" using t(2) by simp
      show "runs (thenM (whenM (load4 (cell m1 f i) (fsmem t) = 0)
            (bindM alloc_block (\<lambda>block_no. fs_store32 (cell m1 f i) block_no)))
          (bindM (fs_load32 (cell m1 f i)) (\<lambda>v. bindM (diskaddr v) (\<lambda>a. ret (0, a))))) u
          (0, DISKMAP + uses m' f i * BLKSIZE) m'"
        unfolding t(2)
      proof (rule runs_then [OF step [OF u(1) u1]])
        fix v assume v: "bc_ok v" "fsmem v = m'"
        have "runs (fs_load32 (cell m1 f i)) v (uses m' f i) m'"
          using runs_load_word [OF v(1), of "cell m1 f i"] w' v(2) R by simp
        then show "runs (bindM (fs_load32 (cell m1 f i)) (\<lambda>v. bindM (diskaddr v) (\<lambda>a. ret (0, a)))) v
            (0, DISKMAP + uses m' f i * BLKSIZE) m'"
        proof (rule runs_bind)
          fix x assume x: "bc_ok x" "fsmem x = m'"
          have "runs (diskaddr (uses m' f i)) x (DISKMAP + uses m' f i * BLKSIZE) m'"
            using runs_diskaddr_data [OF x(1)] d' x(2) by simp
          then show "runs (bindM (diskaddr (uses m' f i)) (\<lambda>a. ret (0, a))) x
              (0, DISKMAP + uses m' f i * BLKSIZE) m'"
            by (rule runs_bind) (auto simp: runs_def)
        qed
      qed
    qed
    then show "runs (case (0, Some (cell m1 f i)) of (err, slot) \<Rightarrow> case slot of None \<Rightarrow> stop FsUndefined
        | Some p \<Rightarrow> bindM (fs_load32 p) (\<lambda>v. thenM (whenM (v = 0)
            (bindM alloc_block (\<lambda>block_no. fs_store32 p block_no)))
          (bindM (fs_load32 p) (\<lambda>v. bindM (diskaddr v) (\<lambda>a. ret (0, a)))))) t
        (0, DISKMAP + uses m' f i * BLKSIZE) m'" by simp
  qed
  then show ?thesis using R by blast
qed

section \<open>Errors\<close>

text \<open>
  With no free block left, a position without a block ends the server: the error of
  \<^verbatim>\<open>alloc_block\<close> is stored as a block number and \<^verbatim>\<open>diskaddr\<close> panics on it.
\<close>

lemma full_disk_stops:
  assumes ok: "bc_ok s" and inv: "fsinv (fsmem s) F" and f: "f \<in> F" and i: "i < 1034"
    and hole: "uses (fsmem s) f i = 0" and full: "free_blocks (fsmem s) = {}"
    and ind: "i < 10 \<or> indirect (fsmem s) f \<noteq> 0"
  shows "\<exists>t. file_get_block f (of_nat i) s = (Stop FsPanic, t)"
proof -
  let ?m = "fsmem s"
  have h: "has_cell ?m f i" using ind i by (auto simp: has_cell_def)
  have w: "word_ok ?m (cell ?m f i)" by (rule cell_ok(1) [OF inv f h])
  have z: "load4 (cell ?m f i) ?m = 0" using hole h i by (simp add: has_cell_uses)
  have "runs (file_block_walk f (of_nat i) True) s (0, Some (cell ?m f i)) ?m"
    using runs_walk_direct [OF ok] runs_walk_found [OF ok inv f _ i] ind by (cases "i < 10") auto
  then obtain t where t: "file_block_walk f (of_nat i) True s = (Ret (0, Some (cell ?m f i)), t)"
    "bc_ok t" "fsmem t = ?m" by (auto simp: runs_def)
  obtain u where u: "fs_load32 (cell ?m f i) t = (Ret 0, u)" "bc_ok u" "fsmem u = ?m"
    using runs_load_word [OF t(2), of "cell ?m f i"] w z t(3) by (auto simp: runs_def)
  have none: "\<not> bit_free (fsmem u) (of_nat k)" if "k < scan_limit (fsmem u)" for k
    using full that u(3) by (auto simp: free_blocks_def)
  obtain v where v: "alloc_block u = (Ret (- E_NO_DISK), v)" "bc_ok v" "fsmem v = ?m"
    using alloc_block_full [OF u(2) none] u(3) by (auto simp: runs_def)
  define m' where "m' = store4 (cell ?m f i) (- E_NO_DISK) ?m"
  obtain x where x: "fs_store32 (cell ?m f i) (- E_NO_DISK) v = (Ret (), x)" "bc_ok x" "fsmem x = m'"
    using runs_store_word [OF v(2), of "cell ?m f i" "- E_NO_DISK"] w v(3) by (auto simp: runs_def m'_def)
  have q: "quiet ?m m'" unfolding m'_def by (rule quiet_store [OF fsinvD(1) [OF inv] w])
  have i': "i \<le> 1034" using i by simp
  have "word_ok m' (cell ?m f i)"
    using w quietD(1,2) [OF q] by (simp add: word_ok_def off_bitmap_def)
  then obtain y where y: "fs_load32 (cell ?m f i) x = (Ret (- E_NO_DISK), y)" "bc_ok y" "fsmem y = m'"
    using runs_load_word [OF x(2), of "cell ?m f i"] x(3) by (auto simp: runs_def m'_def)
  have "nblocks m' \<le> 0xC0000" using quietD(1) [OF q] geometry_bounds [OF fsinvD(1) [OF inv]] by simp
  moreover have "(0xC0000 :: u32) \<le> - E_NO_DISK" by (simp add: kconst)
  ultimately have "nblocks (fsmem y) \<le> - E_NO_DISK" using y(3) order_trans by blast
  then have "diskaddr (- E_NO_DISK) y = (Stop FsPanic, y)" by (intro diskaddr_bad [OF y(2)]) simp
  then show ?thesis using t u v x y by (simp add: file_get_block_def)
qed

text \<open>Behind the last position the slot is never set, but used all the same.\<close>

lemma get_block_out_of_range:
  "1034 \<le> filebno \<Longrightarrow> file_get_block f filebno s = (Stop FsUndefined, s)"
  by (simp add: file_get_block_def walk_out_of_range)

end
