(* ===== verification/Jos_Fs_Data.thy ===== *)
theory Jos_Fs_Data
  imports Jos_Fs_Get
begin

text \<open>
  File contents. \<open>fbyte m f p\<close> is the byte at position \<open>p\<close> of a file, \<open>None\<close> where no
  block is allocated. A file is \<open>plain\<close> if its blocks hold no file records. \<open>keeps\<close> is the
  frame of every operation: known bytes of all plain files outside an exception set stay. Reading
  and writing are refined to this view: a read returns the bytes, a write changes exactly the
  requested ones, extending the file where needed.
\<close>

section \<open>Contents\<close>

abbreviation (input) MAXFILE :: nat where
  "MAXFILE \<equiv> 1034 * 4096"

definition fbyte :: "bmem \<Rightarrow> u32 \<Rightarrow> nat \<Rightarrow> u8 option" where
  "fbyte m f p =
     (if uses m f (p div 4096) = 0 then None
      else Some (m (DISKMAP + uses m f (p div 4096) * BLKSIZE + of_nat (p mod 4096))))"

definition plain :: "bmem \<Rightarrow> u32 set \<Rightarrow> u32 \<Rightarrow> bool" where
  "plain m F f \<longleftrightarrow> (\<forall>k < 1034. \<forall>g \<in> F. uses m f k \<noteq> 0 \<longrightarrow> uses m f k \<noteq> blockno_of g)"

definition keeps :: "bmem \<Rightarrow> bmem \<Rightarrow> u32 set \<Rightarrow> (u32 \<times> nat) set \<Rightarrow> bool" where
  "keeps m m' F X \<longleftrightarrow> fsinv m' F
     \<and> (\<forall>g \<in> F. header_same m m' g \<and> (plain m F g \<longrightarrow> plain m' F g))
     \<and> (\<forall>g \<in> F. plain m F g \<longrightarrow> (\<forall>p < MAXFILE. (g, p) \<notin> X \<longrightarrow> fbyte m g p \<noteq> None \<longrightarrow>
          fbyte m' g p = fbyte m g p))"

lemma keepsD:
  assumes "keeps m m' F X"
  shows "fsinv m' F" "g \<in> F \<Longrightarrow> header_same m m' g" "g \<in> F \<Longrightarrow> plain m F g \<Longrightarrow> plain m' F g"
    "g \<in> F \<Longrightarrow> plain m F g \<Longrightarrow> p < MAXFILE \<Longrightarrow> (g, p) \<notin> X \<Longrightarrow> fbyte m g p \<noteq> None \<Longrightarrow>
      fbyte m' g p = fbyte m g p"
  using assms unfolding keeps_def by blast+

lemma keeps_refl: "fsinv m F \<Longrightarrow> keeps m m F X"
  by (simp add: keeps_def)

lemma keeps_mono: "keeps m m' F X \<Longrightarrow> X \<subseteq> Y \<Longrightarrow> keeps m m' F Y"
  unfolding keeps_def by blast

lemma keeps_trans:
  assumes a: "keeps m m' F X" and b: "keeps m' m'' F Y"
  shows "keeps m m'' F (X \<union> Y)"
  unfolding keeps_def
proof (intro conjI ballI allI impI)
  show "fsinv m'' F" by (rule keepsD(1) [OF b])
  fix g assume g: "g \<in> F"
  show "header_same m m'' g" by (rule header_trans [OF keepsD(2) [OF a g] keepsD(2) [OF b g]])
  show p: "plain m F g \<Longrightarrow> plain m'' F g" using keepsD(3) [OF a g] keepsD(3) [OF b g] by blast
  fix p assume h: "plain m F g" "p < MAXFILE" "(g, p) \<notin> X \<union> Y" "fbyte m g p \<noteq> None"
  have "fbyte m' g p = fbyte m g p" using keepsD(4) [OF a g] h by blast
  then show "fbyte m'' g p = fbyte m g p"
    using keepsD(4) [OF b g keepsD(3) [OF a g h(1)] h(2)] h(3,4) by (metis UnI2)
qed

lemma plain_content:
  assumes inv: "fsinv m F" and f: "f \<in> F" and p: "plain m F f" and k: "k < 1034" "uses m f k \<noteq> 0"
  shows "content_block m F (uses m f k)"
  unfolding content_block_def
proof (intro conjI ballI)
  have k': "k \<le> 1034" using k(1) by simp
  show "datab m (uses m f k)" by (rule fsinvD(6) [OF inv f k' k(2)])
  fix g assume g: "g \<in> F"
  show "uses m f k \<noteq> blockno_of g" using p g k unfolding plain_def by blast
  show "uses m f k \<noteq> indirect m g"
    using fsinvD(7) [OF inv f g k' order_refl k(2)] k(1) by (auto simp: uses_indirect)
qed

lemma content_addr:
  assumes "fsinv m F" and "content_block m F b" and "o' < 4096"
  shows "PGNUM (DISKMAP + b * BLKSIZE + of_nat o') = 0x10000 + unat b"
  using block_addr(2) [OF datab_lt [OF fsinvD(1) [OF assms(1)]] assms(3)] assms(2)
  by (simp add: content_block_def)

lemma mapin_keeps:
  assumes inv: "fsinv m F" and mi: "mapin m m' F f i"
  shows "keeps m m' F {}"
  unfolding keeps_def
proof (intro conjI ballI allI impI)
  show "fsinv m' F" by (rule mapinD(1) [OF mi])
  fix g assume g: "g \<in> F"
  show "header_same m m' g" by (rule mapinD(4) [OF mi g])
  show "plain m' F g" if p: "plain m F g"
    unfolding plain_def
  proof (intro allI ballI impI)
    fix k h assume k: "k < 1034" "h \<in> F" "uses m' g k \<noteq> 0"
    show "uses m' g k \<noteq> blockno_of h"
    proof (cases "uses m' g k = uses m g k")
      case True
      then show ?thesis using p k unfolding plain_def by metis
    next
      case False
      then have "\<not> block_used m (uses m' g k)" using mapinD(8) [OF mi g] k(1) by simp
      then show ?thesis using file_words(6) [OF inv k(2), of 0] by auto
    qed
  qed
  fix p assume h: "plain m F g" "p < MAXFILE" "fbyte m g p \<noteq> None"
  define k where "k = p div 4096"
  have k: "k < 1034" using h(2) by (simp add: k_def less_mult_imp_div_less)
  have u: "uses m g k \<noteq> 0" using h(3) by (auto simp: fbyte_def k_def split: if_splits)
  have u': "uses m' g k = uses m g k" using mapinD(5) [OF mi g _ u] k by simp
  have c: "content_block m F (uses m g k)" by (rule plain_content [OF inv g h(1) k u])
  have "m' (DISKMAP + uses m g k * BLKSIZE + of_nat (p mod 4096)) = m (DISKMAP + uses m g k * BLKSIZE + of_nat (p mod 4096))"
    by (rule mapinD(7) [OF mi c content_addr [OF inv c]]) simp
  then show "fbyte m' g p = fbyte m g p" using u u' by (simp add: fbyte_def k_def)
qed

text \<open>Bytes written into one block of a file.\<close>

lemma put_list_at:
  assumes "o' + length bs \<le> 4096" and "p < 4096" and lt: "b < 0xC0000"
  shows "put_list (DISKMAP + b * BLKSIZE + of_nat o') bs m (DISKMAP + b * BLKSIZE + of_nat p)
    = (if o' \<le> p \<and> p < o' + length bs then bs ! (p - o') else m (DISKMAP + b * BLKSIZE + of_nat p))"
proof -
  have o4: "bs \<noteq> [] \<Longrightarrow> o' < 4096" using assms(1) by (cases bs) auto
  have e: "DISKMAP + b * BLKSIZE + of_nat p - (DISKMAP + b * BLKSIZE + of_nat o') = of_nat p - (of_nat o' :: u32)"
    by simp
  have up: "unat (of_nat p :: u32) = p" using assms(2) by (simp add: unat_of_nat)
  have "o' \<le> 4096" using assms(1) by simp
  then have "unat (of_nat p - of_nat o' :: u32) = (if o' \<le> p then p - o' else p + 4294967296 - o')"
    using unat_back [of o' "of_nat p"] up by simp
  then show ?thesis
    unfolding put_list_def e using assms by auto
qed

lemma keeps_put:
  assumes inv: "fsinv m F" and f: "f \<in> F" and pl: "plain m F f" and k: "k < 1034" "uses m f k \<noteq> 0"
    and o': "o' + length bs \<le> 4096" "o' < 4096"
  defines "m' \<equiv> put_list (DISKMAP + uses m f k * BLKSIZE + of_nat o') bs m"
  shows "keeps m m' F {(f, p) |p. k * 4096 + o' \<le> p \<and> p < k * 4096 + o' + length bs}"
    and "j < length bs \<Longrightarrow> fbyte m' f (k * 4096 + o' + j) = Some (bs ! j)"
    and "quiet m m'" and "\<And>g l. g \<in> F \<Longrightarrow> l \<le> 1034 \<Longrightarrow> uses m' g l = uses m g l"
proof -
  define b where "b = uses m f k"
  note geo = fsinvD(1) [OF inv]
  have c: "content_block m F b" unfolding b_def by (rule plain_content [OF inv f pl k])
  have lt: "b < 0xC0000" using datab_lt [OF geo] c by (simp add: content_block_def)
  have same: "m' x = m x" if "PGNUM x \<noteq> 0x10000 + unat b" for x
  proof (rule ccontr)
    assume "m' x \<noteq> m x"
    then have l: "unat (x - (DISKMAP + b * BLKSIZE + of_nat o')) < length bs"
      by (auto simp: m'_def put_list_def b_def split: if_splits)
    define d where "d = unat (x - (DISKMAP + b * BLKSIZE + of_nat o'))"
    have "x = DISKMAP + b * BLKSIZE + of_nat o' + of_nat d" by (simp add: d_def)
    then have x: "x = DISKMAP + b * BLKSIZE + of_nat (o' + d)" by (simp add: add.assoc)
    have "o' + d < 4096" using l o'(1) by (simp add: d_def)
    then have "PGNUM x = 0x10000 + unat b" unfolding x by (rule block_addr(2) [OF lt])
    then show False using that by simp
  qed
  show q: "quiet m m'"
    using c same by (intro quiet_data [OF geo]) (auto simp: content_block_def)
  have us: "uses m' g l = uses m g l" and hs: "header_same m m' g" if "g \<in> F" "l \<le> 1034" for g l
    using uses_data [OF inv that _ _ same] c that(1) by (auto simp: content_block_def)
  show "g \<in> F \<Longrightarrow> l \<le> 1034 \<Longrightarrow> uses m' g l = uses m g l" for g l by (rule us)
  have hs0: "header_same m m' g" if "g \<in> F" for g using hs [OF that, of 0] by simp
  have at: "m' (DISKMAP + b * BLKSIZE + of_nat p) = (if o' \<le> p \<and> p < o' + length bs then bs ! (p - o')
      else m (DISKMAP + b * BLKSIZE + of_nat p))" if "p < 4096" for p
    unfolding m'_def b_def [symmetric] by (rule put_list_at [OF o'(1) that lt])
  have uk: "uses m' f k = b" using us [OF f, of k] k(1) by (simp add: b_def)
  show "j < length bs \<Longrightarrow> fbyte m' f (k * 4096 + o' + j) = Some (bs ! j)"
  proof -
    assume j: "j < length bs"
    have lt4: "o' + j < 4096" using j o'(1) by simp
    have "(k * 4096 + o' + j) div 4096 = k" "(k * 4096 + o' + j) mod 4096 = o' + j"
      using lt4 by (simp_all add: add.assoc)
    then show ?thesis using uk k(2) at [OF lt4] j by (simp add: fbyte_def b_def)
  qed
  have sz: "unat (fsize m' g) \<le> 1034 * 4096" if "g \<in> F" for g
    using header_fsize [OF hs0 [OF that]] fsinvD(9) [OF inv that] by simp
  show "keeps m m' F {(f, p) |p. k * 4096 + o' \<le> p \<and> p < k * 4096 + o' + length bs}"
    unfolding keeps_def
  proof (intro conjI ballI allI impI)
    show "fsinv m' F" by (rule fsinv_quiet [OF inv q us sz])
    fix g assume g: "g \<in> F"
    show "header_same m m' g" by (rule hs0 [OF g])
    show "plain m F g \<Longrightarrow> plain m' F g" using us [OF g] by (simp add: plain_def)
    fix p assume h: "plain m F g" "p < MAXFILE"
      "(g, p) \<notin> {(f, p) |p. k * 4096 + o' \<le> p \<and> p < k * 4096 + o' + length bs}" "fbyte m g p \<noteq> None"
    define l where "l = p div 4096"
    have l: "l < 1034" using h(2) by (simp add: l_def less_mult_imp_div_less)
    have u: "uses m g l \<noteq> 0" using h(4) by (auto simp: fbyte_def l_def split: if_splits)
    have u': "uses m' g l = uses m g l" using us [OF g, of l] l by simp
    let ?x = "DISKMAP + uses m g l * BLKSIZE + of_nat (p mod 4096)"
    have "m' ?x = m ?x"
    proof (cases "uses m g l = b")
      case True
      then have "g = f \<and> l = k"
        using fsinvD(7) [OF inv f g _ _ k(2), of l] k(1) l by (simp add: b_def)
      then have "\<not> (k * 4096 + o' \<le> p \<and> p < k * 4096 + o' + length bs)" using h(3) by auto
      moreover have "p = k * 4096 + p mod 4096"
        using \<open>g = f \<and> l = k\<close> div_mult_mod_eq [of p 4096] by (simp add: l_def)
      ultimately have "\<not> (o' \<le> p mod 4096 \<and> p mod 4096 < o' + length bs)" by linarith
      then show ?thesis using at [of "p mod 4096"] True by (metis mod_less_divisor zero_less_numeral)
    next
      case False
      have "content_block m F (uses m g l)" by (rule plain_content [OF inv g h(1) l u])
      from content_addr [OF inv this, of "p mod 4096"] show ?thesis
        using False by (intro same) (auto simp: word_unat_eq_iff)
    qed
    then show "fbyte m' g p = fbyte m g p" using u u' by (simp add: fbyte_def l_def)
  qed
qed

declare read_loop.simps [simp del] write_loop.simps [simp del]

section \<open>Positions as numbers\<close>

lemma small_sdiv:
  assumes "n < 2147483648"
  shows "sdiv32 (of_nat n) 4096 = of_nat (n div 4096)" "smod32 (of_nat n) 4096 = of_nat (n mod 4096)"
    "sint (of_nat n :: i32) = int n"
proof -
  show s: "sint (of_nat n :: i32) = int n"
    using assms sint_i32_of_int [of "int n"] by simp
  have "int n sdiv 4096 = int (n div 4096)" "int n smod 4096 = int (n mod 4096)"
    by (simp_all add: signed_divide_int_def signed_modulo_int_def zdiv_int zmod_int sgn_if)
  then show "sdiv32 (of_nat n) 4096 = of_nat (n div 4096)" "smod32 (of_nat n) 4096 = of_nat (n mod 4096)"
    by (simp_all add: sdiv32_def smod32_def s)
qed

lemma step_up: "n = 4096 - r \<Longrightarrow> p = k * 4096 + r \<Longrightarrow> r \<le> 4096 \<Longrightarrow> p + n = (k + 1) * (4096 :: nat)"
  by simp

lemma chunk_nat:
  assumes "pos < stop_at" and "stop_at \<le> MAXFILE"
  shows "chunk (of_nat stop_at) (of_nat pos) = of_nat (min (4096 - pos mod 4096) (stop_at - pos))"
    and "unat (chunk (of_nat stop_at) (of_nat pos)) = min (4096 - pos mod 4096) (stop_at - pos)"
    and "(of_nat pos :: u32) < of_nat stop_at"
proof -
  have p: "pos < 2147483648" "pos \<le> stop_at" using assms by simp_all
  have u: "unat (of_nat stop_at :: u32) = stop_at" "unat (of_nat pos :: u32) = pos"
    using assms by (simp_all only: unat_of_nat) simp_all
  have a: "BLKSIZE - of_nat (pos mod 4096) = of_nat (4096 - pos mod 4096)"
    by (simp add: BLKSIZE_def of_nat_diff less_imp_le)
  have b: "(of_nat stop_at - of_nat pos :: u32) = of_nat (stop_at - pos)" using p by (simp add: of_nat_diff)
  have "unat (of_nat (4096 - pos mod 4096) :: u32) = 4096 - pos mod 4096"
    by (simp only: unat_of_nat) simp
  moreover have "unat (of_nat (stop_at - pos) :: u32) = stop_at - pos"
    using assms by (simp only: unat_of_nat) simp
  ultimately have l: "(of_nat (4096 - pos mod 4096) :: u32) \<le> of_nat (stop_at - pos)
      \<longleftrightarrow> 4096 - pos mod 4096 \<le> stop_at - pos"
    by (simp only: word_le_nat_alt)
  show c: "chunk (of_nat stop_at) (of_nat pos) = of_nat (min (4096 - pos mod 4096) (stop_at - pos))"
    unfolding chunk_def small_sdiv(2) [OF p(1)] a b
    unfolding MIN_u32_def l min_def by (simp only: if_distrib [of of_nat])
  show "unat (chunk (of_nat stop_at) (of_nat pos)) = min (4096 - pos mod 4096) (stop_at - pos)"
    unfolding c using assms by (simp only: unat_of_nat) (simp add: min_def)
  show "(of_nat pos :: u32) < of_nat stop_at" using u assms(1) by (simp add: word_less_nat_alt)
qed

section \<open>Blocks still to be allocated\<close>

definition gaps :: "bmem \<Rightarrow> u32 \<Rightarrow> nat \<Rightarrow> nat \<Rightarrow> nat set" where
  "gaps m f a b = {k. a \<le> k \<and> k < b \<and> uses m f k = 0}"

definition budget :: "bmem \<Rightarrow> u32 \<Rightarrow> nat \<Rightarrow> nat \<Rightarrow> nat" where
  "budget m f a b = card (gaps m f a b) + (if 10 < b \<and> a < b \<and> indirect m f = 0 then 1 else 0)"

lemma finite_gaps [simp]: "finite (gaps m f a b)"
  by (simp add: gaps_def)

lemma budget_step:
  assumes mi: "mapin m m' F f a" and f: "f \<in> F" and ab: "a < b" "b \<le> 1034" and u: "uses m' f a \<noteq> 0"
  shows "needed m f a \<le> budget m f a b"
    and "budget m' f (a + 1) b + needed m f a \<le> budget m f a b"
proof -
  have sub: "gaps m' f (a + 1) b \<subseteq> gaps m f a b - {a}"
  proof
    fix k assume k: "k \<in> gaps m' f (a + 1) b"
    then have "uses m f k = 0" using mapinD(5) [OF mi f, of k] ab by (cases "uses m f k = 0") (auto simp: gaps_def)
    then show "k \<in> gaps m f a b - {a}" using k by (auto simp: gaps_def)
  qed
  have a_in: "a \<in> gaps m f a b \<longleftrightarrow> uses m f a = 0" using ab by (simp add: gaps_def)
  have "card (gaps m' f (a + 1) b) \<le> card (gaps m f a b - {a})" using sub by (intro card_mono) simp_all
  also have "\<dots> = card (gaps m f a b) - (if uses m f a = 0 then 1 else 0)" using a_in by simp
  finally have c: "card (gaps m' f (a + 1) b) + (if uses m f a = 0 then 1 else 0) \<le> card (gaps m f a b)"
    using a_in card_gt_0_iff [of "gaps m f a b"] by (auto split: if_splits)
  have ind: "indirect m f \<noteq> 0 \<Longrightarrow> indirect m' f \<noteq> 0"
    using mapinD(5) [OF mi f, of 1034] by (simp add: uses_indirect)
  have ind': "10 \<le> a \<Longrightarrow> indirect m' f \<noteq> 0" using u ab by (auto simp: uses_def)
  show "budget m' f (a + 1) b + needed m f a \<le> budget m f a b"
    using c ind ind' ab unfolding budget_def needed_def by auto
  then show "needed m f a \<le> budget m f a b" by simp
qed

lemma budget_cong:
  assumes "\<And>l. l \<le> 1034 \<Longrightarrow> uses m' f l = uses m f l" and "b \<le> 1034"
  shows "budget m' f a b = budget m f a b"
proof -
  have "gaps m' f a b = gaps m f a b" using assms by (auto simp: gaps_def)
  moreover have "indirect m' f = indirect m f" using assms(1) [of 1034] by (simp add: uses_indirect)
  ultimately show ?thesis by (simp add: budget_def)
qed

lemma budget_needed: "a < b \<Longrightarrow> b \<le> 1034 \<Longrightarrow> needed m f a \<le> budget m f a b"
  by (auto simp: needed_def budget_def gaps_def card_gt_0_iff Suc_le_eq)

abbreviation (input) last_block :: "nat \<Rightarrow> nat" where
  "last_block stop_at \<equiv> (stop_at + 4095) div 4096"

text \<open>The block of a position and the number of bytes to its end.\<close>

lemma round_facts:
  fixes pos stop_at :: nat
  assumes "pos < stop_at" and "stop_at \<le> MAXFILE"
  defines "n \<equiv> min (4096 - pos mod 4096) (stop_at - pos)"
  shows "pos div 4096 < last_block stop_at" "last_block stop_at \<le> 1034" "pos div 4096 < 1034"
    "0 < n" "pos mod 4096 + n \<le> 4096" "pos + n \<le> stop_at"
    "pos + n < stop_at \<Longrightarrow> (pos + n) div 4096 = pos div 4096 + 1"
    "sdiv32 (of_nat pos) 4096 = of_nat (pos div 4096)" "smod32 (of_nat pos) 4096 = of_nat (pos mod 4096)"
proof -
  show kB: "pos div 4096 < last_block stop_at" "last_block stop_at \<le> 1034"
    using assms(1,2) by (simp_all add: less_eq_div_iff_mult_less_eq Suc_le_eq [symmetric])
  then show "pos div 4096 < 1034" by simp
  show "0 < n" "pos mod 4096 + n \<le> 4096" "pos + n \<le> stop_at"
    using assms(1) by (auto simp: n_def min_def)
  show "sdiv32 (of_nat pos) 4096 = of_nat (pos div 4096)" "smod32 (of_nat pos) 4096 = of_nat (pos mod 4096)"
    using small_sdiv [of pos] assms(1,2) by simp_all
  assume "pos + n < stop_at"
  then have "n = 4096 - pos mod 4096" by (auto simp: n_def min_def split: if_splits)
  moreover have "pos = pos div 4096 * 4096 + pos mod 4096" "pos mod 4096 \<le> 4096"
    by (simp_all add: less_imp_le)
  ultimately have "pos + n = (pos div 4096 + 1) * 4096" by (rule step_up)
  then show "(pos + n) div 4096 = pos div 4096 + 1" by simp
qed

section \<open>Reading\<close>

lemma read_loop_ok:
  assumes "bc_ok s" and "fsinv (fsmem s) F" and f: "f \<in> F" and "plain (fsmem s) F f"
    and pos: "pos \<le> stop_at" "stop_at \<le> MAXFILE"
    and "pos < stop_at \<Longrightarrow>
      budget (fsmem s) f (pos div 4096) (last_block stop_at) \<le> card (free_blocks (fsmem s))"
  shows "\<exists>m' bs. runs (read_loop f (of_nat stop_at) (of_nat pos)) s (0, bs) m'
    \<and> keeps (fsmem s) m' F {} \<and> length bs = stop_at - pos
    \<and> (\<forall>j < stop_at - pos. fbyte m' f (pos + j) = Some (bs ! j))"
  using assms(1,2,4,5,7)
proof (induction "stop_at - pos" arbitrary: pos s rule: less_induct)
  case less
  note ok = less.prems(1) and inv = less.prems(2) and pl = less.prems(3)
  show ?case
  proof (cases "pos < stop_at")
    case False
    then show ?thesis
      using less.prems keeps_refl [OF inv]
      by (intro exI [of _ "fsmem s"] exI [of _ "[]"]) (simp add: runs_def read_loop.simps)
  next
    case True
    define k where "k = pos div 4096"
    define n where "n = min (4096 - pos mod 4096) (stop_at - pos)"
    note rf = round_facts [OF True pos(2), folded n_def k_def]
    note ch = chunk_nat [OF True pos(2), folded n_def]
    have nd: "needed (fsmem s) f k \<le> card (free_blocks (fsmem s))"
      using budget_needed [OF rf(1,2)] less.prems(5) [OF True] order_trans unfolding k_def by blast
    obtain m1 where m1: "runs (file_get_block f (of_nat k)) s (0, DISKMAP + uses m1 f k * BLKSIZE) m1"
      "mapin (fsmem s) m1 F f k" "uses m1 f k \<noteq> 0"
      "card (free_blocks m1) + needed (fsmem s) f k = card (free_blocks (fsmem s))"
      using get_block_ok [OF ok inv f rf(3) nd] by blast
    have inv1: "fsinv m1 F" by (rule mapinD(1) [OF m1(2)])
    have kp1: "keeps (fsmem s) m1 F {}" by (rule mapin_keeps [OF inv m1(2)])
    have pl1: "plain m1 F f" by (rule keepsD(3) [OF kp1 f pl])
    have cb: "content_block m1 F (uses m1 f k)" by (rule plain_content [OF inv1 f pl1 rf(3) m1(3)])
    let ?a = "DISKMAP + uses m1 f k * BLKSIZE + of_nat (pos mod 4096)"
    define bs where "bs = map (\<lambda>i. m1 (?a + of_nat i)) [0 ..< n]"
    have page: "PGNUM (?a + of_nat i) = 0x10000 + unat (uses m1 f k)" if "i < n" for i
      using content_addr [OF inv1 cb, of "pos mod 4096 + i"] that rf(5) by (simp add: add.assoc)
    have bytes: "fbyte m1 f (pos + j) = Some (bs ! j)" if "j < n" for j
    proof -
      have e: "pos + j = k * 4096 + (pos mod 4096 + j)" by (simp add: k_def)
      have "pos mod 4096 + j < 4096" using rf(5) that by simp
      then have "(pos + j) div 4096 = k" "(pos + j) mod 4096 = pos mod 4096 + j"
        unfolding e by simp_all
      then show ?thesis using m1(3) that by (simp add: fbyte_def bs_def add.assoc)
    qed
    have bud: "budget m1 f ((pos + n) div 4096) (last_block stop_at) \<le> card (free_blocks m1)"
      if "pos + n < stop_at"
      using budget_step(2) [OF m1(2) f rf(1,2) m1(3)] m1(4) less.prems(5) [OF True] rf(7) [OF that]
      by (simp add: k_def [symmetric])
    have cont: "\<exists>m' bs'. runs (read_loop f (of_nat stop_at) (of_nat (pos + n))) t (0, bs') m'
        \<and> keeps m1 m' F {} \<and> length bs' = stop_at - (pos + n)
        \<and> (\<forall>j < stop_at - (pos + n). fbyte m' f (pos + n + j) = Some (bs' ! j))"
      if t: "bc_ok t" "fsmem t = m1" for t
      using less.hyps [of "pos + n" t] rf(4,6) True t inv1 pl1 bud by simp
    obtain t where t: "file_get_block f (of_nat k) s = (Ret (0, DISKMAP + uses m1 f k * BLKSIZE), t)"
      "bc_ok t" "fsmem t = m1" using m1(1) by (auto simp: runs_def)
    have "runs (fs_read_bytes ?a n) t bs m1"
      using runs_read_bytes [OF t(2), of "uses m1 f k" n ?a] cb page unfolding t(3) bs_def
      by (simp add: content_block_def)
    then obtain u where u: "fs_read_bytes ?a n t = (Ret bs, u)" "bc_ok u" "fsmem u = m1"
      by (auto simp: runs_def)
    obtain m' bs' where c: "runs (read_loop f (of_nat stop_at) (of_nat (pos + n))) u (0, bs') m'"
      "keeps m1 m' F {}" "length bs' = stop_at - (pos + n)"
      "\<And>j. j < stop_at - (pos + n) \<Longrightarrow> fbyte m' f (pos + n + j) = Some (bs' ! j)"
      using cont [OF u(2,3)] by blast
    then obtain v where v: "read_loop f (of_nat stop_at) (of_nat (pos + n)) u = (Ret (0, bs'), v)"
      "bc_ok v" "fsmem v = m'" by (auto simp: runs_def)
    have "read_loop f (of_nat stop_at) (of_nat pos) s = (Ret (0, bs @ bs'), v)"
      using t(1) u(1) v(1) ch by (subst read_loop.simps) (simp add: rf(8,9))
    then have "runs (read_loop f (of_nat stop_at) (of_nat pos)) s (0, bs @ bs') m'"
      using v(2,3) by (simp add: runs_def)
    moreover have "keeps (fsmem s) m' F {}" using keeps_trans [OF kp1 c(2)] by simp
    moreover have lb: "length bs = n" by (simp add: bs_def)
    moreover have "fbyte m' f (pos + j) = Some ((bs @ bs') ! j)" if j: "j < stop_at - pos" for j
    proof (cases "j < n")
      case True
      have "pos + j < MAXFILE" using j pos(2) by simp
      then have "fbyte m' f (pos + j) = fbyte m1 f (pos + j)"
        using keepsD(4) [OF c(2) f pl1, of "pos + j"] bytes [OF True] by simp
      then show ?thesis using bytes [OF True] True lb by (simp add: nth_append)
    next
      case False
      then show ?thesis using c(4) [of "j - n"] j lb by (simp add: nth_append)
    qed
    ultimately show ?thesis using c(3) rf(6) True
      by (intro exI [of _ m'] exI [of _ "bs @ bs'"]) simp
  qed
qed

end
