(* ===== verification/Jos_Fs_Write.thy ===== *)
theory Jos_Fs_Write
  imports Jos_Fs_Data
begin

text \<open>
  Reading and writing at the level of files: a read returns exactly the bytes of the file and
  changes none, a write changes exactly the requested bytes.
\<close>

section \<open>Writing\<close>

lemma write_loop_ok:
  assumes "bc_ok s" and "fsinv (fsmem s) F" and f: "f \<in> F" and "plain (fsmem s) F f"
    and pos: "pos \<le> stop_at" "stop_at \<le> MAXFILE"
    and "pos < stop_at \<Longrightarrow>
      budget (fsmem s) f (pos div 4096) (last_block stop_at) \<le> card (free_blocks (fsmem s))"
  shows "\<exists>m'. runs (write_loop f buf (of_nat stop_at) (of_nat pos)) s 0 m'
    \<and> keeps (fsmem s) m' F {(f, p) |p. pos \<le> p \<and> p < stop_at}
    \<and> (\<forall>j < stop_at - pos. fbyte m' f (pos + j) = Some (buf j))"
  using assms(1,2,4,5,7)
proof (induction "stop_at - pos" arbitrary: pos s buf rule: less_induct)
  case less
  note ok = less.prems(1) and inv = less.prems(2) and pl = less.prems(3)
  show ?case
  proof (cases "pos < stop_at")
    case False
    then show ?thesis
      using less.prems keeps_refl [OF inv]
      by (intro exI [of _ "fsmem s"]) (simp add: runs_def write_loop.simps)
  next
    case True
    define k where "k = pos div 4096"
    define r where "r = pos mod 4096"
    define n where "n = min (4096 - pos mod 4096) (stop_at - pos)"
    note rf = round_facts [OF True pos(2), folded n_def k_def r_def]
    note ch = chunk_nat [OF True pos(2), folded n_def]
    have pk: "pos = k * 4096 + r" by (simp add: k_def r_def)
    have "needed (fsmem s) f k \<le> card (free_blocks (fsmem s))"
      using budget_needed [OF rf(1,2)] less.prems(5) [OF True] order_trans unfolding k_def by blast
    from get_block_ok [OF ok inv f rf(3) this] obtain m1 where m1:
      "runs (file_get_block f (of_nat k)) s (0, DISKMAP + uses m1 f k * BLKSIZE) m1"
      "mapin (fsmem s) m1 F f k" "uses m1 f k \<noteq> 0"
      "card (free_blocks m1) + needed (fsmem s) f k = card (free_blocks (fsmem s))" by blast
    have inv1: "fsinv m1 F" by (rule mapinD(1) [OF m1(2)])
    have kp1: "keeps (fsmem s) m1 F {}" by (rule mapin_keeps [OF inv m1(2)])
    have pl1: "plain m1 F f" by (rule keepsD(3) [OF kp1 f pl])
    have cb: "content_block m1 F (uses m1 f k)" by (rule plain_content [OF inv1 f pl1 rf(3) m1(3)])
    define bs where "bs = map buf [0 ..< n]"
    have lb: "length bs = n" by (simp add: bs_def)
    have le: "r + length bs \<le> 4096" "r < 4096" using rf(5) by (simp_all add: lb r_def)
    let ?a = "DISKMAP + uses m1 f k * BLKSIZE + of_nat r"
    define m2 where "m2 = put_list ?a bs m1"
    note kp = keeps_put [OF inv1 f pl1 rf(3) m1(3) le, folded m2_def]
    have kp2: "keeps m1 m2 F {(f, p) |p. pos \<le> p \<and> p < pos + n}"
      using kp(1) by (simp add: lb pk add.assoc)
    have pl2: "plain m2 F f" by (rule keepsD(3) [OF kp2 f pl1])
    have inv2: "fsinv m2 F" by (rule keepsD(1) [OF kp2])
    have bud: "budget m2 f ((pos + n) div 4096) (last_block stop_at) \<le> card (free_blocks m2)"
      if "pos + n < stop_at"
    proof -
      have "budget m2 f (k + 1) (last_block stop_at) = budget m1 f (k + 1) (last_block stop_at)"
        by (rule budget_cong [OF kp(4) [OF f] rf(2)])
      then show ?thesis
        using budget_step(2) [OF m1(2) f rf(1,2) m1(3)] m1(4) less.prems(5) [OF True] rf(7) [OF that]
        by (simp add: k_def [symmetric] quietD(5) [OF kp(3)])
    qed
    obtain t where t: "file_get_block f (of_nat k) s = (Ret (0, DISKMAP + uses m1 f k * BLKSIZE), t)"
      "bc_ok t" "fsmem t = m1" using m1(1) by (auto simp: runs_def)
    have page: "PGNUM (?a + of_nat i) = 0x10000 + unat (uses m1 f k)" if "i < length bs" for i
      using content_addr [OF inv1 cb, of "r + i"] that le by (simp add: add.assoc)
    have "runs (fs_write_bytes ?a bs) t () m2"
      using runs_write_bytes [OF t(2), of "uses m1 f k" bs ?a] cb page le unfolding t(3) m2_def
      by (simp add: content_block_def)
    then obtain u where u: "fs_write_bytes ?a bs t = (Ret (), u)" "bc_ok u" "fsmem u = m2"
      by (auto simp: runs_def)
    have "stop_at - (pos + n) < stop_at - pos" using rf(4,6) True by simp
    from less.hyps [OF this, of u "\<lambda>i. buf (n + i)"] obtain m' where m':
      "runs (write_loop f (\<lambda>i. buf (n + i)) (of_nat stop_at) (of_nat (pos + n))) u 0 m'"
      "keeps m2 m' F {(f, p) |p. pos + n \<le> p \<and> p < stop_at}"
      "\<And>j. j < stop_at - (pos + n) \<Longrightarrow> fbyte m' f (pos + n + j) = Some (buf (n + j))"
      using u inv2 pl2 bud rf(6) by auto
    then obtain v where v: "write_loop f (\<lambda>i. buf (n + i)) (of_nat stop_at) (of_nat (pos + n)) u = (Ret 0, v)"
      "bc_ok v" "fsmem v = m'" by (auto simp: runs_def)
    have "write_loop f buf (of_nat stop_at) (of_nat pos) s = (Ret 0, v)"
      using t(1) u(1) v(1) ch rf(8,9) by (subst write_loop.simps) (simp add: bs_def Let_def)
    then have "runs (write_loop f buf (of_nat stop_at) (of_nat pos)) s 0 m'"
      using v(2,3) by (simp add: runs_def)
    moreover have "keeps (fsmem s) m' F {(f, p) |p. pos \<le> p \<and> p < stop_at}"
      by (rule keeps_mono [OF keeps_trans [OF keeps_trans [OF kp1 kp2] m'(2)]]) (use rf(6) in auto)
    moreover have "fbyte m' f (pos + j) = Some (buf j)" if j: "j < stop_at - pos" for j
    proof (cases "j < n")
      case True
      then have b: "fbyte m2 f (pos + j) = Some (buf j)"
        using kp(2) [of j] by (simp add: lb pk bs_def)
      have "pos + j < MAXFILE" using j pos(2) by simp
      then show ?thesis using keepsD(4) [OF m'(2) f pl2, of "pos + j"] b True by auto
    next
      case False
      then show ?thesis using m'(3) [of "j - n"] j by simp
    qed
    ultimately show ?thesis by blast
  qed
qed


section \<open>Changes of one file\<close>

text \<open>
  \<open>changes m m' F f X\<close>: only file \<open>f\<close> changed, in its size and in bytes at positions in \<open>X\<close>
  or behind blocks that were not allocated.
\<close>

definition changes :: "bmem \<Rightarrow> bmem \<Rightarrow> u32 set \<Rightarrow> u32 \<Rightarrow> nat set \<Rightarrow> bool" where
  "changes m m' F f X \<longleftrightarrow> fsinv m' F
     \<and> (\<forall>g \<in> F. \<forall>c < 136. g \<noteq> f \<or> c < 128 \<or> 132 \<le> c \<longrightarrow> m' (g + of_nat c) = m (g + of_nat c))
     \<and> (\<forall>g \<in> F. plain m F g \<longrightarrow> plain m' F g)
     \<and> (\<forall>g \<in> F. plain m F g \<longrightarrow> (\<forall>p < MAXFILE. g \<noteq> f \<or> p \<notin> X \<longrightarrow> fbyte m g p \<noteq> None \<longrightarrow>
          fbyte m' g p = fbyte m g p))"

lemma changesD:
  assumes "changes m m' F f X"
  shows "fsinv m' F" "g \<in> F \<Longrightarrow> c < 136 \<Longrightarrow> g \<noteq> f \<or> c < 128 \<or> 132 \<le> c \<Longrightarrow> m' (g + of_nat c) = m (g + of_nat c)"
    "g \<in> F \<Longrightarrow> plain m F g \<Longrightarrow> plain m' F g"
    "g \<in> F \<Longrightarrow> plain m F g \<Longrightarrow> p < MAXFILE \<Longrightarrow> g \<noteq> f \<or> p \<notin> X \<Longrightarrow> fbyte m g p \<noteq> None \<Longrightarrow>
      fbyte m' g p = fbyte m g p"
    "g \<in> F \<Longrightarrow> g \<noteq> f \<Longrightarrow> header_same m m' g"
  using assms unfolding changes_def header_same_def by blast+

lemma keeps_changes: "keeps m m' F {(f, p) |p. p \<in> X} \<Longrightarrow> changes m m' F f X"
  unfolding keeps_def changes_def header_same_def by blast

lemma changes_refl: "fsinv m F \<Longrightarrow> changes m m F f X"
  by (simp add: changes_def)

lemma changes_mono: "changes m m' F f X \<Longrightarrow> X \<subseteq> Y \<Longrightarrow> changes m m' F f Y"
  unfolding changes_def by blast

lemma changes_trans:
  assumes a: "changes m m' F f X" and b: "changes m' m'' F f Y"
  shows "changes m m'' F f (X \<union> Y)"
  unfolding changes_def
proof (intro conjI ballI allI impI)
  show "fsinv m'' F" by (rule changesD(1) [OF b])
  fix g assume g: "g \<in> F"
  show "m'' (g + of_nat c) = m (g + of_nat c)" if "c < 136" "g \<noteq> f \<or> c < 128 \<or> 132 \<le> c" for c
    using changesD(2) [OF a g that] changesD(2) [OF b g that] by simp
  show "plain m'' F g" if "plain m F g"
    by (rule changesD(3) [OF b g changesD(3) [OF a g that]])
  fix p assume h: "plain m F g" "p < MAXFILE" "g \<noteq> f \<or> p \<notin> X \<union> Y" "fbyte m g p \<noteq> None"
  have e: "fbyte m' g p = fbyte m g p" using h(3) by (intro changesD(4) [OF a g h(1,2) _ h(4)]) blast
  have "fbyte m'' g p = fbyte m' g p"
    using h(3,4) e by (intro changesD(4) [OF b g changesD(3) [OF a g h(1)] h(2)]) auto
  then show "fbyte m'' g p = fbyte m g p" using e by simp
qed

text \<open>It is enough to know what happens to block numbers and to pages of contents.\<close>

lemma changes_intro:
  assumes inv: "fsinv m F" and "fsinv m' F"
    and hdr: "\<And>g c. g \<in> F \<Longrightarrow> c < 136 \<Longrightarrow> g \<noteq> f \<or> c < 128 \<or> 132 \<le> c \<Longrightarrow> m' (g + of_nat c) = m (g + of_nat c)"
    and us: "\<And>g l. g \<in> F \<Longrightarrow> l < 1034 \<Longrightarrow> uses m' g l = uses m g l \<or> (uses m' g l = 0 \<and> g = f \<and> l \<in> K)"
    and cont: "\<And>b x. content_block m F b \<Longrightarrow> PGNUM x = 0x10000 + unat b \<Longrightarrow> m' x = m x"
  shows "changes m m' F f {p. p div 4096 \<in> K}"
  unfolding changes_def
proof (intro conjI ballI allI impI)
  show "fsinv m' F" by fact
  fix g assume g: "g \<in> F"
  show "m' (g + of_nat c) = m (g + of_nat c)" if "c < 136" "g \<noteq> f \<or> c < 128 \<or> 132 \<le> c" for c
    by (rule hdr [OF g that])
  show "plain m' F g" if "plain m F g"
    using that us [OF g] unfolding plain_def by metis
  fix p assume h: "plain m F g" "p < MAXFILE" "g \<noteq> f \<or> p \<notin> {p. p div 4096 \<in> K}" "fbyte m g p \<noteq> None"
  define k where "k = p div 4096"
  have k: "k < 1034" using h(2) by (simp add: k_def less_mult_imp_div_less)
  have u0: "uses m g k \<noteq> 0" using h(4) by (auto simp: fbyte_def k_def split: if_splits)
  have "uses m' g k = uses m g k" using us [OF g k] h(3) by (auto simp: k_def)
  moreover have cb: "content_block m F (uses m g k)" by (rule plain_content [OF inv g h(1) k u0])
  have "m' (DISKMAP + uses m g k * BLKSIZE + of_nat (p mod 4096)) = m (DISKMAP + uses m g k * BLKSIZE + of_nat (p mod 4096))"
    by (rule cont [OF cb content_addr [OF inv cb]]) simp
  ultimately show "fbyte m' g p = fbyte m g p" by (simp add: fbyte_def k_def)
qed

text \<open>A word of the part of a file record in front of the cells.\<close>

lemma uses_store_header:
  assumes inv: "fsinv m F" and f: "f \<in> F" and g: "g \<in> F" and c: "c < 136" "c mod 4 = 0" and l: "l \<le> 1034"
  shows "uses (store4 (f + of_nat c) v m) g l = uses m g l"
proof -
  let ?m' = "store4 (f + of_nat c) v m"
  have al: "unat (f + of_nat c) mod 4 = 0"
    using file_words(3) [OF inv f, of c] c by (intro word_okD(2) [of m]) simp
  have ld: "load4 (cell m g k) ?m' = load4 (cell m g k) m" if "has_cell m g k" for k
    using cell_off_header [OF inv g f that c(1), of 0] word_okD(2) [OF cell_ok(1) [OF inv g that]] al
    by (intro load4_store4_other) auto
  have i: "indirect ?m' g = indirect m g"
    using ld [of 1034] by (simp add: has_cell_def cell_def indirect_def)
  then have "cell ?m' g l = cell m g l" "has_cell ?m' g l = has_cell m g l"
    by (simp_all add: cell_def has_cell_def)
  then show ?thesis using ld l by (simp add: has_cell_uses)
qed

lemma changes_size:
  assumes inv: "fsinv m F" and f: "f \<in> F" and v: "unat v \<le> MAXFILE"
  defines "m' \<equiv> store4 (f + f_size) v m"
  shows "changes m m' F f {}" "fsize m' f = v" "quiet m m'"
    "\<And>g l. g \<in> F \<Longrightarrow> l \<le> 1034 \<Longrightarrow> uses m' g l = uses m g l"
proof -
  have s: "f + f_size = f + of_nat 128" by (simp add: kconst)
  have w: "word_ok m (f + f_size)" unfolding s by (rule file_words(3) [OF inv f]) simp_all
  show q: "quiet m m'" unfolding m'_def by (rule quiet_store [OF fsinvD(1) [OF inv] w])
  show u: "uses m' g l = uses m g l" if "g \<in> F" "l \<le> 1034" for g l
    unfolding m'_def s by (rule uses_store_header [OF inv f that(1) _ _ that(2)]) simp_all
  show fs: "fsize m' f = v" by (simp add: fsize_def m'_def)
  have b: "m' (g + of_nat c) = m (g + of_nat c)" if h: "g \<in> F" "c < 136" "g \<noteq> f \<or> c < 128 \<or> 132 \<le> c" for g c
  proof -
    have "g + of_nat c \<noteq> f + f_size + of_nat i" if i: "i < 4" for i
    proof
      assume "g + of_nat c = f + f_size + of_nat i"
      then have "unat (g + of_nat c) = unat (f + of_nat (128 + i))" by (simp add: kconst add.assoc)
      then have e: "unat g + c = unat f + (128 + i)"
        using file_words(1) [OF inv h(1), of c] file_words(1) [OF inv f, of "128 + i"] h(2) i by simp
      show False
      proof (cases "g = f")
        case True
        then show False using e h(3) i by auto
      next
        case False
        then have "apart_files g f" by (rule fsinvD(5) [OF inv h(1) f])
        then show False using e h(2) i unfolding apart_files_def by linarith
      qed
    qed
    then show ?thesis unfolding m'_def by (rule store4_other)
  qed
  have "header_same m m' g" if "g \<in> F" "g \<noteq> f" for g
    using b [OF that(1)] that(2) by (simp add: header_same_def)
  then have "g \<in> F \<Longrightarrow> g \<noteq> f \<Longrightarrow> fsize m' g = fsize m g" for g by (rule header_fsize)
  then have sz: "unat (fsize m' g) \<le> 1034 * 4096" if "g \<in> F" for g
    using that v fs fsinvD(9) [OF inv that] by (cases "g = f") simp_all
  have cont: "m' x = m x" if cb: "content_block m F b" and px: "PGNUM x = 0x10000 + unat b" for b x
  proof -
    have "x \<noteq> f + f_size + of_nat i" if i: "i < 4" for i
    proof
      assume a: "x = f + f_size + of_nat i"
      have e: "f + f_size + of_nat i = f + of_nat (128 + i)" by (simp add: kconst add.assoc)
      have "PGNUM x = PGNUM (f + of_nat (128 + i))" by (simp only: a e)
      also have "\<dots> = 0x10000 + unat (blockno_of f)"
        using file_words(2) [OF inv f, of "128 + i"] PGNUM_blockno [OF file_words(7) [OF inv f, of 0]] i by simp
      finally show False using px cb f by (auto simp: content_block_def word_unat_eq_iff)
    qed
    then show ?thesis unfolding m'_def by (rule store4_other)
  qed
  have "fsinv m' F" by (rule fsinv_quiet [OF inv q u sz])
  from changes_intro [OF inv this b, of f "{}"] u cont show "changes m m' F f {}" by simp
qed

section \<open>Whole requests\<close>

lemma runs_load_size:
  assumes "bc_ok s" and "fsinv (fsmem s) F" and "f \<in> F"
  shows "runs (fs_load32 (f + f_size)) s (fsize (fsmem s) f) (fsmem s)"
  using runs_load_word [OF assms(1), of "f + f_size"] file_words(3) [OF assms(2,3), of 128]
  by (simp add: fsize_def kconst)

lemma sint_small: "unat v < 2147483648 \<Longrightarrow> sint (v :: u32) = int (unat v)"
  using small_sdiv(3) [of "unat v"] by simp

lemma unat_small: "n < 4294967296 \<Longrightarrow> unat (of_nat n :: u32) = n"
  by (simp only: unat_of_nat) simp

lemma file_read_ok:
  fixes count :: u32
  assumes ok: "bc_ok s" and inv: "fsinv (fsmem s) F" and f: "f \<in> F" and pl: "plain (fsmem s) F f"
    and pos: "pos < 2147483648"
  defines "n \<equiv> min (unat count) (unat (fsize (fsmem s) f) - pos)"
  assumes sp: "0 < n \<Longrightarrow> budget (fsmem s) f (pos div 4096) (last_block (pos + n)) \<le> card (free_blocks (fsmem s))"
  shows "\<exists>m' bs. runs (file_read f count (of_nat pos)) s (of_nat n, bs) m'
    \<and> keeps (fsmem s) m' F {} \<and> length bs = n \<and> (\<forall>j < n. fbyte m' f (pos + j) = Some (bs ! j))"
proof -
  define sz where "sz = unat (fsize (fsmem s) f)"
  have sz: "sz \<le> MAXFILE" "fsize (fsmem s) f = of_nat sz" using fsinvD(9) [OF inv f] by (simp_all add: sz_def)
  have ss: "sint (fsize (fsmem s) f) = int sz"
    using sint_small [of "fsize (fsmem s) f"] sz(1) unfolding sz_def by linarith
  have sp': "sint (of_nat pos :: i32) = int pos" by (rule small_sdiv(3) [OF pos])
  note ld = runs_load_size [OF ok inv f]
  show ?thesis
  proof (cases "sz \<le> pos")
    case True
    then have "n = 0" by (simp add: n_def sz_def)
    moreover have "runs (file_read f count (of_nat pos)) s (0, []) (fsmem s)"
      unfolding file_read_def
      by (rule runs_bind [OF ld]) (use True in \<open>simp add: ss sp' runs_def\<close>)
    ultimately show ?thesis using keeps_refl [OF inv] by (intro exI [of _ "fsmem s"] exI [of _ "[]"]) simp
  next
    case False
    have d: "fsize (fsmem s) f - of_nat pos = of_nat (sz - pos)" using False by (simp add: sz(2) of_nat_diff)
    have "unat (fsize (fsmem s) f - of_nat pos) = sz - pos" unfolding d using sz(1) by (intro unat_small) simp
    then have un: "unat (MIN_u32 count (fsize (fsmem s) f - of_nat pos)) = n"
      by (simp add: MIN_u32_def n_def sz_def word_le_nat_alt min_def)
    then have cn: "MIN_u32 count (fsize (fsmem s) f - of_nat pos) = of_nat n" by (simp add: un [symmetric])
    have stop_at: "pos + n \<le> MAXFILE" using sz(1) False by (simp add: n_def sz_def [symmetric])
    obtain t where t: "fs_load32 (f + f_size) s = (Ret (fsize (fsmem s) f), t)" "bc_ok t" "fsmem t = fsmem s"
      using ld by (auto simp: runs_def)
    obtain m' bs where r:
      "runs (read_loop f (of_nat (pos + n)) (of_nat pos)) t (0, bs) m'" "keeps (fsmem s) m' F {}"
      "length bs = n" "\<And>j. j < n \<Longrightarrow> fbyte m' f (pos + j) = Some (bs ! j)"
      using read_loop_ok [OF t(2), of F f pos "pos + n"] t(3) inv f pl stop_at sp by auto
    obtain u where u: "read_loop f (of_nat (pos + n)) (of_nat pos) t = (Ret (0, bs), u)" "bc_ok u" "fsmem u = m'"
      using r(1) by (auto simp: runs_def)
    have "file_read f count (of_nat pos) s = (Ret (of_nat n, bs), u)"
      using t(1) u(1) False unfolding file_read_def Let_def by (simp add: ss sp' cn del: MIN_eq_min)
    then have "runs (file_read f count (of_nat pos)) s (of_nat n, bs) m'" using u by (simp add: runs_def)
    then show ?thesis using r by blast
  qed
qed

lemma file_set_size_grow:
  assumes ok: "bc_ok s" and inv: "fsinv (fsmem s) F" and f: "f \<in> F"
    and v: "\<not> sint v < sint (fsize (fsmem s) f)" "unat v \<le> MAXFILE"
  shows "runs (file_set_size f v) s 0 (store4 (f + f_size) v (fsmem s))"
proof -
  have w: "word_ok (fsmem s) (f + f_size)"
    using file_words(3) [OF inv f, of 128] by (simp add: kconst)
  note nb = file_words(7) [OF inv f, of 0]
  obtain t where t: "fs_load32 (f + f_size) s = (Ret (fsize (fsmem s) f), t)" "bc_ok t" "fsmem t = fsmem s"
    using runs_load_size [OF ok inv f] by (auto simp: runs_def)
  obtain u where u: "fs_store32 (f + f_size) v t = (Ret (), u)" "bc_ok u"
    "fsmem u = store4 (f + f_size) v (fsmem s)"
    using runs_store_word [OF t(2), of "f + f_size" v] w t(3) by (auto simp: runs_def)
  obtain x where "flush_block f u = (Ret (), x)" "bc_ok x" "fsmem x = fsmem u"
    using runs_flush [OF u(2) nb] by (auto simp: runs_def)
  then show ?thesis using t u v(1) by (simp add: runs_def file_set_size_def whenM_def)
qed

lemma file_write_ok:
  assumes ok: "bc_ok s" and inv: "fsinv (fsmem s) F" and f: "f \<in> F" and pl: "plain (fsmem s) F f"
    and n: "pos + n \<le> MAXFILE"
    and sp: "0 < n \<Longrightarrow> budget (fsmem s) f (pos div 4096) (last_block (pos + n)) \<le> card (free_blocks (fsmem s))"
  shows "\<exists>m'. runs (file_write f buf (of_nat n) (of_nat pos)) s (of_nat n) m'
    \<and> changes (fsmem s) m' F f {p. pos \<le> p \<and> p < pos + n}
    \<and> unat (fsize m' f) = max (unat (fsize (fsmem s) f)) (pos + n)
    \<and> (\<forall>j < n. fbyte m' f (pos + j) = Some (buf j))"
proof -
  let ?m = "fsmem s" and ?st = "of_nat (pos + n) :: u32"
  define sz where "sz = unat (fsize ?m f)"
  have sz: "sz \<le> MAXFILE" "fsize ?m f = of_nat sz" using fsinvD(9) [OF inv f] by (simp_all add: sz_def)
  have ust: "unat ?st = pos + n" using n by (intro unat_small) simp
  have lt: "fsize ?m f < of_nat pos + of_nat n \<longleftrightarrow> sz < pos + n"
    using ust by (simp add: word_less_nat_alt sz_def)
  have kb: "last_block (pos + n) \<le> 1034" using n by (simp add: less_eq_div_iff_mult_less_eq Suc_le_eq [symmetric])
  obtain t where t: "fs_load32 (f + f_size) s = (Ret (fsize ?m f), t)" "bc_ok t" "fsmem t = ?m"
    using runs_load_size [OF ok inv f] by (auto simp: runs_def)
  define m1 where "m1 = (if sz < pos + n then store4 (f + f_size) ?st ?m else ?m)"
  have grow: "changes ?m m1 F f {}" "unat (fsize m1 f) = max sz (pos + n)" "quiet ?m m1"
    "\<And>g l. g \<in> F \<Longrightarrow> l \<le> 1034 \<Longrightarrow> uses m1 g l = uses ?m g l"
    using changes_size [OF inv f, of ?st] n ust changes_refl [OF inv] by (auto simp: m1_def sz_def [symmetric])
  have "runs (if fsize ?m f < of_nat pos + of_nat n then file_set_size f (of_nat pos + of_nat n) else ret 0) t 0 m1"
  proof (cases "sz < pos + n")
    case True
    have "\<not> sint ?st < sint (fsize ?m f)"
      using True sint_small [of ?st] sint_small [of "fsize ?m f"] sz(1) n ust unfolding sz_def by linarith
    then have "runs (file_set_size f ?st) t 0 (store4 (f + f_size) ?st ?m)"
      using file_set_size_grow [OF t(2), of F f ?st] inv f n ust by (simp add: t(3))
    then show ?thesis using True lt by (simp add: m1_def)
  qed (use lt t in \<open>simp add: m1_def runs_def\<close>)
  then obtain u where u: "(if fsize ?m f < of_nat pos + of_nat n
      then file_set_size f (of_nat pos + of_nat n) else ret 0) t = (Ret 0, u)"
    "bc_ok u" "fsmem u = m1" by (auto simp: runs_def)
  have inv1: "fsinv m1 F" by (rule changesD(1) [OF grow(1)])
  have pl1: "plain m1 F f" by (rule changesD(3) [OF grow(1) f pl])
  have "budget m1 f (pos div 4096) (last_block (pos + n)) = budget ?m f (pos div 4096) (last_block (pos + n))"
    by (rule budget_cong [OF grow(4) [OF f] kb])
  then have sp1: "pos < pos + n \<Longrightarrow>
      budget m1 f (pos div 4096) (last_block (pos + n)) \<le> card (free_blocks m1)"
    using sp quietD(5) [OF grow(3)] by simp
  obtain m' where m': "runs (write_loop f buf ?st (of_nat pos)) u 0 m'"
    "keeps m1 m' F {(f, p) |p. pos \<le> p \<and> p < pos + n}" "\<And>j. j < n \<Longrightarrow> fbyte m' f (pos + j) = Some (buf j)"
    using write_loop_ok [OF u(2), of F f pos "pos + n" buf] u(3) inv1 f pl1 n sp1 by auto
  obtain v where v: "write_loop f buf ?st (of_nat pos) u = (Ret 0, v)" "bc_ok v" "fsmem v = m'"
    using m'(1) by (auto simp: runs_def)
  have "file_write f buf (of_nat n) (of_nat pos) s = (Ret (of_nat n), v)"
    using t(1) u(1) v(1) unfolding file_write_def by (simp del: of_nat_add add: of_nat_add [symmetric])
  then have "runs (file_write f buf (of_nat n) (of_nat pos)) s (of_nat n) m'" using v by (simp add: runs_def)
  moreover have "changes m1 m' F f {p. pos \<le> p \<and> p < pos + n}"
    using m'(2) by (intro keeps_changes) simp
  then have "changes ?m m' F f {p. pos \<le> p \<and> p < pos + n}" using changes_trans [OF grow(1)] by force
  moreover have "fsize m' f = fsize m1 f" by (rule header_fsize [OF keepsD(2) [OF m'(2) f]])
  ultimately show ?thesis using m'(3) grow(2) by (auto simp: sz_def)
qed

end
