(* ===== verification/Jos_Fs_Trunc.thy ===== *)
theory Jos_Fs_Trunc
  imports Jos_Fs_Write
begin

text \<open>
  Giving blocks back: freeing one block of a file, truncating a file and setting its size. The
  code frees a block before it clears the pointer to it; the two updates commute, so the
  invariant is shown for clearing first.
\<close>

section \<open>Freeing a block\<close>

lemma runs_free_block:
  assumes ok: "bc_ok s" and b: "datab (fsmem s) b"
  shows "runs (free_block b) s () (setbit b (fsmem s))"
proof -
  have g: "geometry (fsmem s)" by (rule bc_ok_pointers(3) [OF ok])
  have lt: "b < nblocks (fsmem s)" using b by (simp add: datab_def block_used_def)
  note bw = bitmap_word_live [OF ok lt]
  have a: "bitmap s + 4 * (b div 32) = bitmap_word b"
    by (simp add: bc_ok_pointers(2) [OF ok] bitmap_word_def)
  obtain t where t: "fs_load32 (bitmap_word b) s = (Ret (load4 (bitmap_word b) (fsmem s)), t)"
    "bc_ok t" "fsmem t = fsmem s" using runs_load [OF ok bw(1-3)] by (auto simp: runs_def)
  have "runs (fs_store32 (bitmap_word b) (load4 (bitmap_word b) (fsmem s) OR push_bit (unat (b mod 32)) 1)) t ()
      (setbit b (fsmem s))"
    using runs_store32 [OF t(2) bw(1,2)] bw(3) geometry_setbit [OF g b] unfolding t(3) setbit_def by blast
  then show ?thesis
    using t(1) datab_ne [OF g b] by (auto simp: runs_def free_block_def a)
qed

lemma store4_commute:
  assumes "unat a mod 4 = 0" and "unat b mod 4 = 0" and "a \<noteq> b"
  shows "store4 a v (store4 b w m) = store4 b w (store4 a v m)"
proof (rule ext)
  fix x
  consider i :: nat where "i < 4" "x = a + of_nat i" | "\<And>i. i < 4 \<Longrightarrow> x \<noteq> a + of_nat i" by blast
  then show "store4 a v (store4 b w m) x = store4 b w (store4 a v m) x"
  proof cases
    case 1
    then have "store4 b w (store4 a v m) x = store4 a v m x"
      using aligned_apart [OF assms 1(1)] by (intro store4_other) auto
    moreover have "store4 a v k x = store4 a v m x" for k
      using 1 by (auto simp: store4_def less_Suc_eq numeral_eq_Suc)
    ultimately show ?thesis by simp
  next
    case 2
    then have "store4 a v k x = k x" for k by (rule store4_other)
    then show ?thesis by (simp add: store4_def)
  qed
qed

lemma setbit_store:
  assumes "b < 0xC0000" and "unat a mod 4 = 0" and "a \<noteq> bitmap_word b"
  shows "store4 a v (setbit b m) = setbit b (store4 a v m)"
  using assms bitmap_word_ok(2) [OF assms(1)]
  by (simp add: setbit_def load4_store4_other store4_commute)

lemma word_ok_bitmap: "word_ok m a \<Longrightarrow> b < nblocks m \<Longrightarrow> a \<noteq> bitmap_word b"
  by (auto simp: word_ok_def off_bitmap_def)

text \<open>Clearing pointers keeps the invariant.\<close>

lemma fsinv_drop:
  assumes inv: "fsinv m F" and q: "quiet m m'"
    and u: "\<And>g l. g \<in> F \<Longrightarrow> l \<le> 1034 \<Longrightarrow> uses m' g l = uses m g l \<or> uses m' g l = 0"
    and sz: "\<And>g. g \<in> F \<Longrightarrow> unat (fsize m' g) \<le> 1034 * 4096"
  shows "fsinv m' F"
proof (rule fsinv_transfer [OF inv _ _ _ _ _ _ sz])
  show "geometry m'" "nblocks m' = nblocks m" "block_used m' 0" "block_used m' 1"
    using quietD [OF q] fsinvD(1,2,3) [OF inv] by simp_all
  show "block_used m (blockno_of g) \<Longrightarrow> block_used m' (blockno_of g)" for g using quietD(2) [OF q] by simp
  show "uses m' g l = uses m g l \<and> block_used m' (uses m g l)"
    if h: "g \<in> F" "l \<le> 1034" "uses m' g l \<noteq> 0" for g l
    using u [OF h(1,2)] fsinvD(6) [OF inv h(1,2)] h(3) quietD(2) [OF q] by (auto simp: datab_def)
qed

text \<open>An unused block becomes free.\<close>

lemma live_setbit:
  assumes "geometry m" and "b < nblocks m"
  shows "block_used (setbit b m) c \<longleftrightarrow> block_used m c \<and> c \<noteq> b"
proof -
  note nb = nblocks_bits(2) [OF assms(2) geometry_bounds [OF assms(1)]]
  show ?thesis
    using bit_free_setbit [OF geometry_le(3) [OF assms]] geometry_le(3) [OF assms(1)] assms(2)
    by (auto simp: block_used_def nb)
qed

lemma changes_setbit:
  assumes inv: "fsinv m F" and d: "datab m d" "\<And>g l. g \<in> F \<Longrightarrow> l \<le> 1034 \<Longrightarrow> uses m g l \<noteq> d"
    "\<And>g. g \<in> F \<Longrightarrow> d \<noteq> blockno_of g"
  shows "changes m (setbit d m) F f {}"
proof -
  note geo = fsinvD(1) [OF inv]
  have lt: "d < nblocks m" using d(1) by (simp add: datab_def block_used_def)
  note lv = live_setbit [OF geo lt]
  note dz = datab_ne [OF geo d(1)]
  note ub = uses_bits(3,4) [OF inv _ _ lt]
  have "fsinv (setbit d m) F"
  proof (rule fsinv_transfer [OF inv])
    show "geometry (setbit d m)" by (rule geometry_setbit [OF geo d(1)])
    show "nblocks (setbit d m) = nblocks m" by (rule nblocks_bits(2) [OF lt geometry_bounds [OF geo]])
    show "block_used (setbit d m) 0" "block_used (setbit d m) 1" using fsinvD(2,3) [OF inv] dz by (auto simp: lv)
    show "g \<in> F \<Longrightarrow> block_used m (blockno_of g) \<Longrightarrow> block_used (setbit d m) (blockno_of g)" for g
      using d(3) by (auto simp: lv)
    show "uses (setbit d m) g l = uses m g l \<and> block_used (setbit d m) (uses m g l)"
      if "g \<in> F" "l \<le> 1034" "uses (setbit d m) g l \<noteq> 0" for g l
      using ub(1) [OF that(1,2)] that(3) fsinvD(6) [OF inv that(1,2)] d(2) [OF that(1,2)]
      by (simp add: lv datab_def)
    show "unat (fsize (setbit d m) g) \<le> 1034 * 4096" if "g \<in> F" for g
      using header_fsize [OF ub(2) [OF that, of 0]] fsinvD(9) [OF inv that] by simp
  qed
  moreover have "setbit d m (g + of_nat c) = m (g + of_nat c)" if "g \<in> F" "c < 136" for g c
    using ub(2) [OF that(1), of 0] that(2) by (simp add: header_same_def)
  moreover have "setbit d m x = m x" if "content_block m F b" "PGNUM x = 0x10000 + unat b" for b x
    using bits_off_bitmap(2) [OF lt geometry_bounds [OF geo] off_bitmap_datab [OF geo _ that(2)]] that(1)
    by (simp add: content_block_def)
  ultimately show ?thesis
    using changes_intro [OF inv, of "setbit d m" f "{}"] ub(1) by simp
qed

section \<open>Clearing one pointer\<close>

definition release :: "bmem \<Rightarrow> u32 \<Rightarrow> nat \<Rightarrow> bmem" where
  "release m f k = (if uses m f k = 0 then m else setbit (uses m f k) (store4 (cell m f k) 0 m))"

lemma fsinv_blockno_ne:
  assumes inv: "fsinv m F" and f: "f \<in> F" and k: "k \<le> 1034" "uses m f k \<noteq> 0"
    and g: "g \<in> F" and off: "k = 1034 \<or> plain m F f"
  shows "uses m f k \<noteq> blockno_of g"
proof (cases "k = 1034")
  case True
  then show ?thesis using fsinvD(8) [OF inv f g] k(2) by (simp add: uses_indirect)
next
  case False
  then have "k < 1034" "plain m F f" using k(1) off by simp_all
  then show ?thesis using g k(2) unfolding plain_def by blast
qed

lemma release_ok:
  assumes inv: "fsinv m F" and f: "f \<in> F" and k: "k \<le> 1034" and off: "k = 1034 \<or> plain m F f"
    and u: "\<And>g l. g \<in> F \<Longrightarrow> l \<le> 1034 \<Longrightarrow>
      uses (store4 (cell m f k) 0 m) g l = (if g = f \<and> l \<in> K then 0 else uses m g l)"
    and hd: "\<And>g. g \<in> F \<Longrightarrow> header_same m (store4 (cell m f k) 0 m) g" and kK: "k \<in> K"
    and d0: "uses m f k \<noteq> 0"
  defines "m' \<equiv> setbit (uses m f k) (store4 (cell m f k) 0 m)"
  shows "changes m m' F f {p. p div 4096 \<in> K}" "header_same m m' f" "nblocks m' = nblocks m"
    "g \<in> F \<Longrightarrow> l \<le> 1034 \<Longrightarrow> uses m' g l = (if g = f \<and> l \<in> K then 0 else uses m g l)"
    "block_used m' c \<longleftrightarrow> block_used m c \<and> c \<noteq> uses m f k"
proof -
  define d where "d = uses m f k"
  define m1 where "m1 = store4 (cell m f k) 0 m"
  have hc: "has_cell m f k" using d0 k by (auto simp: uses_def has_cell_def split: if_splits)
  note geo = fsinvD(1) [OF inv]
  have q: "quiet m m1" unfolding m1_def by (rule quiet_store [OF geo cell_ok(1) [OF inv f hc]])
  note u1 = u [folded m1_def]
  have inv1: "fsinv m1 F"
  proof (rule fsinv_drop [OF inv q])
    show "uses m1 g l = uses m g l \<or> uses m1 g l = 0" if "g \<in> F" "l \<le> 1034" for g l
      using u1 [OF that] by simp
    show "unat (fsize m1 g) \<le> 1034 * 4096" if "g \<in> F" for g
      using header_fsize [OF hd [OF that]] fsinvD(9) [OF inv that] by (simp add: m1_def)
  qed
  have ch1: "changes m m1 F f {p. p div 4096 \<in> K}"
    using changes_intro [OF inv inv1, of f K] hd u1 store_cell_content [OF inv f hc]
    by (auto simp: m1_def header_same_def)
  have dm: "datab m d" using fsinvD(6) [OF inv f k d0] by (simp add: d_def)
  have d1: "datab m1 d" using dm quietD(3) [OF q] by simp
  have un: "uses m1 g l \<noteq> d" if g: "g \<in> F" "l \<le> 1034" for g l
    using fsinvD(7) [OF inv f g(1) k g(2) d0] u1 [OF g] kK d0 by (auto simp: d_def)
  have home: "d \<noteq> blockno_of g" if "g \<in> F" for g
    unfolding d_def by (rule fsinv_blockno_ne [OF inv f k d0 that off])
  note ch2 = changes_setbit [OF inv1 d1 un home, of f]
  have e: "m' = setbit d m1" by (simp add: m'_def d_def m1_def)
  show "changes m m' F f {p. p div 4096 \<in> K}" using changes_trans [OF ch1 ch2] by (simp add: e)
  have lt: "d < nblocks m1" using d1 by (simp add: datab_def block_used_def)
  note geo1 = fsinvD(1) [OF inv1]
  note ub = uses_bits(3,4) [OF inv1 _ _ lt]
  show "nblocks m' = nblocks m"
    using nblocks_bits(2) [OF lt geometry_bounds [OF geo1]] quietD(1) [OF q] by (simp add: e)
  show "header_same m m' f"
    using header_trans [OF hd [OF f, folded m1_def] ub(2) [OF f, of 0]] by (simp add: e)
  show "g \<in> F \<Longrightarrow> l \<le> 1034 \<Longrightarrow> uses m' g l = (if g = f \<and> l \<in> K then 0 else uses m g l)"
    using ub(1) [of g l] u1 [of g l] by (simp add: e)
  show "block_used m' c \<longleftrightarrow> block_used m c \<and> c \<noteq> uses m f k"
    using live_setbit [OF geo1 lt] quietD(2) [OF q] by (simp add: e d_def)
qed

lemma uses_clear_data:
  assumes "fsinv m F" and "f \<in> F" and "k < 1034" and "uses m f k \<noteq> 0"
  shows "g \<in> F \<Longrightarrow> l \<le> 1034 \<Longrightarrow>
      uses (store4 (cell m f k) 0 m) g l = (if g = f \<and> l \<in> {k} then 0 else uses m g l)"
    and "g \<in> F \<Longrightarrow> header_same m (store4 (cell m f k) 0 m) g"
proof -
  have hc: "has_cell m f k" using assms(3,4) by (auto simp: uses_def has_cell_def split: if_splits)
  show "g \<in> F \<Longrightarrow> l \<le> 1034 \<Longrightarrow>
      uses (store4 (cell m f k) 0 m) g l = (if g = f \<and> l \<in> {k} then 0 else uses m g l)"
    using uses_store(1) [OF assms(1,2) hc assms(3), of g l 0] by simp
  show "g \<in> F \<Longrightarrow> header_same m (store4 (cell m f k) 0 m) g"
    by (rule uses_store(2) [OF assms(1,2) hc assms(3)])
qed

text \<open>Clearing the pointer to the indirect block loses every position behind it.\<close>

lemma uses_clear_indirect:
  assumes inv: "fsinv m F" and f: "f \<in> F" and g: "g \<in> F"
  defines "m' \<equiv> store4 (cell m f 1034) 0 m"
  shows "l \<le> 1034 \<Longrightarrow> uses m' g l = (if g = f \<and> l \<in> {k. 10 \<le> k} then 0 else uses m g l)"
    and "header_same m m' g"
proof -
  have hc: "has_cell m h 1034" for h by (simp add: has_cell_def)
  have al: "unat (cell m f 1034) mod 4 = 0" by (rule word_okD(2) [OF cell_ok(1) [OF inv f hc]])
  have ld: "load4 (cell m g j) m' = load4 (cell m g j) m"
    if j: "has_cell m g j" "j \<le> 1034" "g \<noteq> f \<or> j \<noteq> 1034" for j
    unfolding m'_def
    using cell_distinct [OF inv g f j(1,2) hc] j(3) word_okD(2) [OF cell_ok(1) [OF inv g j(1)]] al
    by (intro load4_store4_other) auto
  have ind: "indirect m' g = (if g = f then 0 else indirect m g)"
    using ld [of 1034] hc by (simp add: indirect_def cell_def m'_def)
  assume l: "l \<le> 1034"
  show "uses m' g l = (if g = f \<and> l \<in> {k. 10 \<le> k} then 0 else uses m g l)"
  proof (cases "g = f \<and> 10 \<le> l")
    case True
    then show ?thesis using ind l by (cases "l = 1034") (simp add: uses_indirect, simp add: uses_def)
  next
    case False
    then have c: "cell m' g l = cell m g l" "has_cell m' g l = has_cell m g l"
      using ind by (auto simp: cell_def has_cell_def)
    then show ?thesis using ld [of l] l False by (auto simp: has_cell_uses)
  qed
next
  have hc: "has_cell m f 1034" by (simp add: has_cell_def)
  show "header_same m m' g"
    unfolding header_same_def m'_def
    using cell_off_header [OF inv f g hc] by (auto intro!: store4_other)
qed

section \<open>Truncation\<close>

text \<open>Freeing the block of a cell and clearing the cell, as the code does.\<close>

lemma runs_free_cell:
  assumes ok: "bc_ok s" and inv: "fsinv (fsmem s) F" and f: "f \<in> F" and k: "k \<le> 1034"
    and d0: "uses (fsmem s) f k \<noteq> 0" and off: "k = 1034 \<or> plain (fsmem s) F f"
    and geo': "geometry (setbit (uses (fsmem s) f k) (store4 (cell (fsmem s) f k) 0 (fsmem s)))"
  shows "runs (thenM (free_block (uses (fsmem s) f k)) (fs_store32 (cell (fsmem s) f k) 0)) s ()
    (release (fsmem s) f k)"
proof -
  let ?m = "fsmem s"
  define d where "d = uses ?m f k"
  note geo = fsinvD(1) [OF inv]
  have hc: "has_cell ?m f k" using d0 k by (auto simp: uses_def has_cell_def split: if_splits)
  note w = cell_ok(1) [OF inv f hc]
  have dm: "datab ?m d" unfolding d_def by (rule fsinvD(6) [OF inv f k d0])
  then have lt: "d < nblocks ?m" by (simp add: datab_def block_used_def)
  have d3: "d < 0xC0000" by (rule geometry_le(3) [OF geo lt])
  have "blockno_of (cell ?m f k) \<noteq> d"
  proof (cases "k < 10 \<or> k = 1034")
    case True
    then have "PGNUM (cell ?m f k) = PGNUM f" using cell_ok(2) [OF inv f hc] by simp
    then have "blockno_of (cell ?m f k) = blockno_of f"
      using same_block [OF word_okD(1) [OF w] file_words(7) [OF inv f, of 0]] by simp
    then show ?thesis using fsinv_blockno_ne [OF inv f k d0 f off] by (simp add: d_def)
  next
    case False
    then have "PGNUM (cell ?m f k) = 0x10000 + unat (indirect ?m f)" using cell_ok(2) [OF inv f hc] by simp
    then have "blockno_of (cell ?m f k) = indirect ?m f"
      using PGNUM_blockno [OF word_okD(1) [OF w]] by (simp add: word_unat_eq_iff)
    then show ?thesis
      using fsinvD(7) [OF inv f f k _ d0, of 1034] False by (auto simp: uses_indirect d_def)
  qed
  then have lv: "block_used (setbit d ?m) (blockno_of (cell ?m f k))"
    using word_okD(3) [OF w] live_setbit [OF geo lt] by simp
  have sc: "store4 (cell ?m f k) 0 (setbit d ?m) = setbit d (store4 (cell ?m f k) 0 ?m)"
    by (rule setbit_store [OF d3 word_okD(2) [OF w] word_ok_bitmap [OF w lt]])
  obtain t where t: "free_block d s = (Ret (), t)" "bc_ok t" "fsmem t = setbit d ?m"
    using runs_free_block [OF ok dm] by (auto simp: runs_def)
  have "runs (fs_store32 (cell ?m f k) 0) t () (store4 (cell ?m f k) 0 (fsmem t))"
    using lv geo' by (intro runs_store32 [OF t(2) word_okD(1,2) [OF w]]) (simp_all add: t(3) sc [unfolded d_def] d_def)
  then show ?thesis
    using t(1) d0 by (simp add: runs_def release_def sc t(3) d_def [symmetric])
qed

lemma runs_walk_noalloc:
  assumes ok: "bc_ok s" and inv: "fsinv (fsmem s) F" and f: "f \<in> F" and k: "k < 1034"
  shows "runs (file_block_walk f (of_nat k) False) s
    (if has_cell (fsmem s) f k then (0, Some (cell (fsmem s) f k)) else (- E_NOT_FOUND, None)) (fsmem s)"
  using runs_walk_direct [OF ok, of k f False] runs_walk_found [OF ok inv f, of k False]
    runs_walk_none [OF ok inv f, of k] k
  by (cases "k < 10"; cases "indirect (fsmem s) f = 0") (auto simp: has_cell_def)

lemma runs_file_free_block:
  assumes ok: "bc_ok s" and inv: "fsinv (fsmem s) F" and f: "f \<in> F" and pl: "plain (fsmem s) F f" and k: "k < 1034"
  shows "\<exists>r. runs (file_free_block f (of_nat k)) s r (release (fsmem s) f k)"
proof -
  let ?m = "fsmem s"
  obtain t where t: "file_block_walk f (of_nat k) False s =
      (Ret (if has_cell ?m f k then (0, Some (cell ?m f k)) else (- E_NOT_FOUND, None)), t)"
    "bc_ok t" "fsmem t = ?m" using runs_walk_noalloc [OF ok inv f k] by (auto simp: runs_def)
  show ?thesis
  proof (cases "has_cell ?m f k")
    case False
    then have "uses ?m f k = 0" using k by (simp add: has_cell_uses)
    then have "runs (file_free_block f (of_nat k)) s (- E_NOT_FOUND) (release ?m f k)"
      using t False by (simp add: runs_def file_free_block_def release_def is_neg_def kconst)
    then show ?thesis by blast
  next
    case True
    then have ld4: "load4 (cell ?m f k) ?m = uses ?m f k" using k by (simp add: has_cell_uses)
    obtain u where u: "fs_load32 (cell ?m f k) t = (Ret (uses ?m f k), u)" "bc_ok u" "fsmem u = ?m"
      using runs_load_word [OF t(2), of "cell ?m f k"] cell_ok(1) [OF inv f True] t(3) ld4
      by (auto simp: runs_def)
    have "runs (whenM (uses ?m f k \<noteq> 0) (thenM (free_block (uses ?m f k)) (fs_store32 (cell ?m f k) 0))) u ()
        (release ?m f k)"
    proof (cases "uses ?m f k = 0")
      case True
      then show ?thesis using u by (simp add: whenM_def release_def runs_def)
    next
      case d0: False
      have "changes ?m (release ?m f k) F f {p. p div 4096 \<in> {k}}"
        using release_ok(1) [OF inv f _ _ uses_clear_data [OF inv f k d0] _ d0] k pl d0
        by (simp add: release_def)
      then have "geometry (release ?m f k)" by (intro fsinvD(1) [OF changesD(1)])
      then show ?thesis
        using runs_free_cell [OF u(2), of F f k] u(3) inv f k d0 pl by (simp add: whenM_def release_def)
    qed
    then obtain v where "whenM (uses ?m f k \<noteq> 0)
        (thenM (free_block (uses ?m f k)) (fs_store32 (cell ?m f k) 0)) u = (Ret (), v)"
      "bc_ok v" "fsmem v = release ?m f k" by (auto simp: runs_def)
    then have "runs (file_free_block f (of_nat k)) s 0 (release ?m f k)"
      using t u True by (simp add: runs_def file_free_block_def is_neg_def)
    then show ?thesis by blast
  qed
qed

text \<open>
  The image after clearing the positions \<open>K\<close> of a file and giving back the blocks at the
  positions \<open>R\<close>.
\<close>

definition dropped :: "bmem \<Rightarrow> bmem \<Rightarrow> u32 set \<Rightarrow> u32 \<Rightarrow> nat set \<Rightarrow> nat set \<Rightarrow> bool" where
  "dropped m m' F f K R \<longleftrightarrow> changes m m' F f {p. p div 4096 \<in> K} \<and> header_same m m' f \<and> nblocks m' = nblocks m
     \<and> (\<forall>g \<in> F. \<forall>l \<le> 1034. uses m' g l = (if g = f \<and> l \<in> K then 0 else uses m g l))
     \<and> (\<forall>c. block_used m' c \<longleftrightarrow> block_used m c \<and> \<not> (\<exists>k \<in> R. c = uses m f k \<and> c \<noteq> 0))"

lemma droppedD:
  assumes "dropped m m' F f K R"
  shows "changes m m' F f {p. p div 4096 \<in> K}" "header_same m m' f" "nblocks m' = nblocks m"
    "g \<in> F \<Longrightarrow> l \<le> 1034 \<Longrightarrow> uses m' g l = (if g = f \<and> l \<in> K then 0 else uses m g l)"
    "block_used m' c \<longleftrightarrow> block_used m c \<and> \<not> (\<exists>k \<in> R. c = uses m f k \<and> c \<noteq> 0)"
  using assms unfolding dropped_def by blast+

lemma dropped_refl: "fsinv m F \<Longrightarrow> dropped m m F f {} {}"
  by (simp add: dropped_def changes_refl)

lemma dropped_trans:
  assumes a: "dropped m m' F f K R" and b: "dropped m' m'' F f K' R'" and f: "f \<in> F"
    and R: "R' \<subseteq> {..1034}" "R' \<inter> K = {}"
  shows "dropped m m'' F f (K \<union> K') (R \<union> R')"
  unfolding dropped_def
proof (intro conjI ballI allI impI)
  have e: "{p. p div 4096 \<in> K \<union> K'} = {p. p div 4096 \<in> K} \<union> {p. p div 4096 \<in> K'}" by blast
  show "changes m m'' F f {p. p div 4096 \<in> K \<union> K'}"
    unfolding e by (rule changes_trans [OF droppedD(1) [OF a] droppedD(1) [OF b]])
  show "header_same m m'' f" by (rule header_trans [OF droppedD(2) [OF a] droppedD(2) [OF b]])
  show "nblocks m'' = nblocks m" by (simp add: droppedD(3) [OF a] droppedD(3) [OF b])
  show "uses m'' g l = (if g = f \<and> l \<in> K \<union> K' then 0 else uses m g l)" if "g \<in> F" "l \<le> 1034" for g l
    using droppedD(4) [OF a that] droppedD(4) [OF b that] by auto
  have "uses m' f k = uses m f k" if "k \<in> R'" for k
  proof -
    have "k \<le> 1034" "k \<notin> K" using that R by auto
    then show ?thesis using droppedD(4) [OF a f, of k] by simp
  qed
  then show "block_used m'' c \<longleftrightarrow> block_used m c \<and> \<not> (\<exists>k \<in> R \<union> R'. c = uses m f k \<and> c \<noteq> 0)" for c
    using droppedD(5) [OF a] droppedD(5) [OF b] by auto
qed

lemma release_dropped:
  assumes inv: "fsinv m F" and f: "f \<in> F" and pl: "plain m F f" and k: "k < 1034"
  shows "dropped m (release m f k) F f {k} {k}"
proof (cases "uses m f k = 0")
  case True
  then show ?thesis using changes_refl [OF inv] by (auto simp: release_def dropped_def)
next
  case False
  have k': "k \<le> 1034" using k by simp
  have kk: "k \<in> {k}" by simp
  note r = release_ok [OF inv f k' disjI2 [OF pl] uses_clear_data [OF inv f k False] kk False]
  show ?thesis
    unfolding dropped_def using r False by (simp add: release_def)
qed

lemma release_indirect:
  assumes inv: "fsinv m F" and f: "f \<in> F" and i: "indirect m f \<noteq> 0"
  shows "dropped m (release m f 1034) F f {k. 10 \<le> k} {1034}"
proof -
  have u: "uses m f 1034 \<noteq> 0" using i by (simp add: uses_indirect)
  have kk: "1034 \<in> {k. 10 \<le> (k :: nat)}" by simp
  note r = release_ok [OF inv f order_refl disjI1 [OF refl] uses_clear_indirect [OF inv f] kk u]
  show ?thesis
    unfolding dropped_def using r u by (simp add: release_def)
qed

lemma free_loop:
  assumes "bc_ok s" and "fsinv (fsmem s) F" and f: "f \<in> F" and "plain (fsmem s) F f" and ab: "a \<le> b" "b \<le> 1034"
  shows "\<exists>m'. runs (forM [a ..< b] (\<lambda>k. bindM (file_free_block f (of_nat k)) (\<lambda>r. ret ()))) s () m'
    \<and> dropped (fsmem s) m' F f {a ..< b} {a ..< b}"
  using assms(1,2,4,5)
proof (induction "b - a" arbitrary: a s)
  case 0
  then show ?case using dropped_refl [of "fsmem s" F f] by (intro exI [of _ "fsmem s"]) (simp add: runs_def)
next
  case (Suc n)
  then have lt: "a < b" by simp
  then have a: "a < 1034" using ab by simp
  obtain r t where t: "file_free_block f (of_nat a) s = (Ret r, t)" "bc_ok t" "fsmem t = release (fsmem s) f a"
    using runs_file_free_block [OF Suc.prems(1,2) f Suc.prems(3) a] by (auto simp: runs_def)
  note d = release_dropped [OF Suc.prems(2) f Suc.prems(3) a]
  note ch = droppedD(1) [OF d]
  have "n = b - Suc a" using Suc.hyps(2) by simp
  from Suc.hyps(1) [OF this t(2)] obtain m' where m':
    "runs (forM [Suc a ..< b] (\<lambda>k. bindM (file_free_block f (of_nat k)) (\<lambda>r. ret ()))) t () m'"
    "dropped (fsmem t) m' F f {Suc a ..< b} {Suc a ..< b}"
    using changesD(1) [OF ch] changesD(3) [OF ch f Suc.prems(3)] lt t(3) by auto
  have "dropped (fsmem s) m' F f ({a} \<union> {Suc a ..< b}) ({a} \<union> {Suc a ..< b})"
    using ab by (intro dropped_trans [OF d m'(2) [unfolded t(3)] f]) auto
  moreover have "{a} \<union> {Suc a ..< b} = {a ..< b}" using lt by auto
  moreover have "runs (forM [a ..< b] (\<lambda>k. bindM (file_free_block f (of_nat k)) (\<lambda>r. ret ()))) s () m'"
    using m'(1) t(1) lt by (simp add: upt_conv_Cons runs_def del: upt_Suc)
  ultimately show ?case by auto
qed

text \<open>The positions a truncation clears and those whose blocks it gives back.\<close>

definition cut_positions :: "nat \<Rightarrow> nat \<Rightarrow> nat set" where
  "cut_positions old new = {new ..< old} \<union> (if new \<le> 10 then {k. 10 \<le> k} else {})"

definition freed_positions :: "nat \<Rightarrow> nat \<Rightarrow> nat set" where
  "freed_positions old new = {new ..< old} \<union> (if new \<le> 10 then {1034} else {})"

lemma block_count:
  assumes "n \<le> MAXFILE"
  shows "sdiv32 (of_nat n + BLKSIZE - 1) 4096 = of_nat (last_block n)"
    "unat (sdiv32 (of_nat n + BLKSIZE - 1) 4096) = last_block n" "last_block n \<le> 1034"
    "sdiv32 (of_nat n + BLKSIZE - 1) 4096 \<le> NDIRECT \<longleftrightarrow> last_block n \<le> 10"
proof -
  have e: "(of_nat n + BLKSIZE - 1 :: u32) = of_nat (n + 4095)" by (simp add: kconst)
  show sd: "sdiv32 (of_nat n + BLKSIZE - 1) 4096 = of_nat (last_block n)"
    unfolding e using assms by (intro small_sdiv(1)) simp
  show lb: "last_block n \<le> 1034" using assms by (simp add: less_eq_div_iff_mult_less_eq Suc_le_eq [symmetric])
  show u: "unat (sdiv32 (of_nat n + BLKSIZE - 1) 4096) = last_block n"
    unfolding sd using lb by (intro unat_small) simp
  show "sdiv32 (of_nat n + BLKSIZE - 1) 4096 \<le> NDIRECT \<longleftrightarrow> last_block n \<le> 10"
    by (simp only: word_le_nat_alt u) (simp add: kconst)
qed

lemma truncate_ok:
  assumes ok: "bc_ok s" and inv: "fsinv (fsmem s) F" and f: "f \<in> F" and pl: "plain (fsmem s) F f"
    and n: "n \<le> unat (fsize (fsmem s) f)"
  defines "old \<equiv> last_block (unat (fsize (fsmem s) f))"
  shows "\<exists>m'. runs (file_truncate_blocks f (of_nat n)) s () m'
    \<and> dropped (fsmem s) m' F f (cut_positions old (last_block n)) (freed_positions old (last_block n))"
proof -
  let ?m = "fsmem s"
  define sz where "sz = unat (fsize ?m f)"
  have sz: "sz \<le> MAXFILE" "fsize ?m f = of_nat sz" using fsinvD(9) [OF inv f] by (simp_all add: sz_def)
  have n': "n \<le> MAXFILE" using n sz(1) by (simp add: sz_def)
  have old: "old = last_block sz" by (simp add: old_def sz_def)
  define new where "new = last_block n"
  have le: "new \<le> old" unfolding new_def old using n by (intro div_le_mono) (simp add: sz_def)
  note bo = block_count [OF sz(1), folded old]
  note bn = block_count [OF n', folded new_def]
  obtain t where t: "fs_load32 (f + f_size) s = (Ret (of_nat sz), t)" "bc_ok t" "fsmem t = ?m"
    using runs_load_size [OF ok inv f] sz(2) by (auto simp: runs_def)
  obtain m1 where "runs (forM [new ..< old] (\<lambda>k. bindM (file_free_block f (of_nat k)) (\<lambda>r. ret ()))) t () m1"
    and d1: "dropped ?m m1 F f {new ..< old} {new ..< old}"
    using free_loop [OF t(2), of F f new old] t(3) inv f pl le bo(3) by auto
  then obtain u where u: "forM [new ..< old] (\<lambda>k. bindM (file_free_block f (of_nat k)) (\<lambda>r. ret ())) t = (Ret (), u)"
    "bc_ok u" "fsmem u = m1" by (auto simp: runs_def)
  have inv1: "fsinv m1 F" by (rule changesD(1) [OF droppedD(1) [OF d1]])
  have pl1: "plain m1 F f" by (rule changesD(3) [OF droppedD(1) [OF d1] f pl])
  have i1: "indirect m1 f = indirect ?m f"
    using droppedD(4) [OF d1 f, of 1034] bo(3) by (simp add: uses_indirect)
  obtain v where v: "fs_load32 (f + f_indirect) u = (Ret (indirect m1 f), v)" "bc_ok v" "fsmem v = m1"
    using runs_load_indirect [OF u(2), of F f] u(3) inv1 f by (auto simp: runs_def)
  define m' where "m' = (if new \<le> 10 \<and> indirect m1 f \<noteq> 0 then release m1 f 1034 else m1)"
  have "runs (whenM (new \<le> 10 \<and> indirect m1 f \<noteq> 0)
      (thenM (free_block (indirect m1 f)) (fs_store32 (f + f_indirect) 0))) v () m'"
  proof (cases "new \<le> 10 \<and> indirect m1 f \<noteq> 0")
    case False
    then show ?thesis using v by (auto simp: m'_def runs_def whenM_def)
  next
    case True
    have "changes m1 (release m1 f 1034) F f {p. p div 4096 \<in> {k. 10 \<le> k}}"
      by (rule droppedD(1) [OF release_indirect [OF inv1 f]]) (use True in simp)
    then have "geometry (release m1 f 1034)" by (intro fsinvD(1) [OF changesD(1)])
    then show ?thesis
      using runs_free_cell [OF v(2), of F f 1034] v(3) inv1 f True
      by (simp add: uses_indirect release_def m'_def whenM_def cell_def)
  qed
  then obtain w where w: "whenM (new \<le> 10 \<and> indirect m1 f \<noteq> 0)
      (thenM (free_block (indirect m1 f)) (fs_store32 (f + f_indirect) 0)) v = (Ret (), w)"
    "bc_ok w" "fsmem w = m'" by (auto simp: runs_def)
  have "file_truncate_blocks f (of_nat n) s = (Ret (), w)"
    using t(1) u(1) v(1) w(1) bo(2,4) bn(2,4) unfolding file_truncate_blocks_def Let_def by simp
  then have "runs (file_truncate_blocks f (of_nat n)) s () m'" using w by (simp add: runs_def)
  moreover have "dropped ?m m' F f (cut_positions old new) (freed_positions old new)"
  proof (cases "new \<le> 10 \<and> indirect m1 f \<noteq> 0")
    case True
    have "dropped ?m (release m1 f 1034) F f ({new ..< old} \<union> {k. 10 \<le> k}) ({new ..< old} \<union> {1034})"
      using True bo(3) by (intro dropped_trans [OF d1 release_indirect [OF inv1 f] f]) auto
    then show ?thesis using True by (simp add: m'_def cut_positions_def freed_positions_def)
  next
    case False
    show ?thesis
    proof (cases "new \<le> 10")
      case True
      then have i0: "indirect ?m f = 0" using False i1 by simp
      then have z: "uses ?m f k = 0" if "10 \<le> k" "k \<le> 1034" for k
        using that by (cases "k = 1034") (simp add: uses_indirect, simp add: uses_def)
      have m1: "m' = m1" using False by (auto simp: m'_def)
      show ?thesis
        unfolding dropped_def m1
      proof (intro conjI ballI allI impI)
        show "changes ?m m1 F f {p. p div 4096 \<in> cut_positions old new}"
          by (rule changes_mono [OF droppedD(1) [OF d1]]) (auto simp: cut_positions_def)
        show "header_same ?m m1 f" "nblocks m1 = nblocks ?m" by (rule droppedD [OF d1])+
        show "uses m1 g l = (if g = f \<and> l \<in> cut_positions old new then 0 else uses ?m g l)"
          if "g \<in> F" "l \<le> 1034" for g l
          using droppedD(4) [OF d1 that] z [of l] that True by (auto simp: cut_positions_def)
        show "block_used m1 c \<longleftrightarrow> block_used ?m c \<and> \<not> (\<exists>k \<in> freed_positions old new. c = uses ?m f k \<and> c \<noteq> 0)" for c
          using droppedD(5) [OF d1] z [of 1034] True by (auto simp: freed_positions_def)
      qed
    next
      case nf: False
      then show ?thesis using d1 by (simp add: m'_def cut_positions_def freed_positions_def)
    qed
  qed
  ultimately show ?thesis unfolding new_def by blast
qed

section \<open>Setting the size\<close>

definition dropped_by :: "nat \<Rightarrow> nat \<Rightarrow> nat set" where
  "dropped_by sz n = (if n < sz then cut_positions (last_block sz) (last_block n) else {})"

definition freed_by :: "nat \<Rightarrow> nat \<Rightarrow> nat set" where
  "freed_by sz n = (if n < sz then freed_positions (last_block sz) (last_block n) else {})"

lemma dropped_by_ge: "p div 4096 \<in> dropped_by sz n \<Longrightarrow> n \<le> p"
proof -
  assume h: "p div 4096 \<in> dropped_by sz n"
  have ge: "n \<le> last_block n * 4096" using div_mod_decomp [of "n + 4095" 4096] mod_less_divisor [of 4096 "n + 4095"] by linarith
  have "p div 4096 * 4096 \<le> p" by simp
  moreover have "last_block n \<le> p div 4096"
    using h by (auto simp: dropped_by_def cut_positions_def split: if_splits)
  then have "last_block n * 4096 \<le> p div 4096 * 4096" by (rule mult_le_mono1)
  ultimately show ?thesis using ge by linarith
qed

lemma file_set_size_ok:
  assumes ok: "bc_ok s" and inv: "fsinv (fsmem s) F" and f: "f \<in> F" and pl: "plain (fsmem s) F f"
    and n: "n \<le> MAXFILE"
  defines "sz \<equiv> unat (fsize (fsmem s) f)"
  shows "\<exists>m'. runs (file_set_size f (of_nat n)) s 0 m' \<and> changes (fsmem s) m' F f {p. n \<le> p}
    \<and> unat (fsize m' f) = n
    \<and> (\<forall>l \<le> 1034. uses m' f l = (if l \<in> dropped_by sz n then 0 else uses (fsmem s) f l))
    \<and> (\<forall>c. block_used m' c \<longleftrightarrow>
         block_used (fsmem s) c \<and> \<not> (\<exists>k \<in> freed_by sz n. c = uses (fsmem s) f k \<and> c \<noteq> 0))"
proof -
  let ?m = "fsmem s"
  have un: "unat (of_nat n :: u32) = n" using n by (intro unat_small) simp
  have sz: "sz \<le> MAXFILE" using fsinvD(9) [OF inv f] by (simp add: sz_def)
  have "sint (of_nat n :: u32) = int n" using n by (intro small_sdiv(3)) simp
  moreover have "sint (fsize ?m f) = int sz" unfolding sz_def using sz by (intro sint_small) (simp add: sz_def)
  ultimately have cmp: "sint (of_nat n :: u32) < sint (fsize ?m f) \<longleftrightarrow> n < sz"
    by (simp only: of_nat_less_iff)
  obtain t where t: "fs_load32 (f + f_size) s = (Ret (fsize ?m f), t)" "bc_ok t" "fsmem t = ?m"
    using runs_load_size [OF ok inv f] by (auto simp: runs_def)
  have "\<exists>m1. runs (whenM (n < sz) (file_truncate_blocks f (of_nat n))) t () m1
      \<and> dropped ?m m1 F f (dropped_by sz n) (freed_by sz n)"
  proof (cases "n < sz")
    case True
    then show ?thesis
      using truncate_ok [OF t(2), of F f n] t(3) inv f pl
      by (simp add: whenM_def dropped_by_def freed_by_def sz_def)
  next
    case False
    then show ?thesis
      using dropped_refl [OF inv] t by (auto simp: whenM_def dropped_by_def freed_by_def runs_def)
  qed
  then obtain m1 u where u: "whenM (n < sz) (file_truncate_blocks f (of_nat n)) t = (Ret (), u)" "bc_ok u" "fsmem u = m1"
    and d: "dropped ?m m1 F f (dropped_by sz n) (freed_by sz n)" by (auto simp: runs_def)
  have inv1: "fsinv m1 F" by (rule changesD(1) [OF droppedD(1) [OF d]])
  define m' where "m' = store4 (f + f_size) (of_nat n) m1"
  have v: "unat (of_nat n :: u32) \<le> MAXFILE" using un n by simp
  note cs = changes_size [OF inv1 f v, folded m'_def]
  have w: "word_ok m1 (f + f_size)"
    using file_words(3) [OF inv1 f, of 128] by (simp add: kconst)
  obtain x where x: "fs_store32 (f + f_size) (of_nat n) u = (Ret (), x)" "bc_ok x" "fsmem x = m'"
    using runs_store_word [OF u(2), of "f + f_size"] w u(3) by (auto simp: runs_def m'_def)
  obtain y where y: "flush_block f x = (Ret (), y)" "bc_ok y" "fsmem y = m'"
    using runs_flush [OF x(2) file_words(7) [OF inv f, of 0]] x(3) by (auto simp: runs_def)
  have "runs (file_set_size f (of_nat n)) s 0 m'"
    using t(1) u(1) x(1) y by (simp add: runs_def file_set_size_def cmp)
  moreover have "changes ?m m' F f ({p. p div 4096 \<in> dropped_by sz n} \<union> {})"
    by (rule changes_trans [OF droppedD(1) [OF d] cs(1)])
  then have "changes ?m m' F f {p. n \<le> p}" by (rule changes_mono) (auto dest: dropped_by_ge)
  moreover have "uses m' f l = (if l \<in> dropped_by sz n then 0 else uses ?m f l)" if "l \<le> 1034" for l
    using cs(4) [OF f that] droppedD(4) [OF d f that] by simp
  moreover have "block_used m' c \<longleftrightarrow> block_used ?m c \<and> \<not> (\<exists>k \<in> freed_by sz n. c = uses ?m f k \<and> c \<noteq> 0)" for c
    using quietD(2) [OF cs(3)] droppedD(5) [OF d] by simp
  moreover have "unat (fsize m' f) = n" using cs(2) un by simp
  ultimately show ?thesis by (intro exI [of _ m'] conjI allI impI) assumption+
qed

end
