(* ===== verification/Jos_Fs_Path.thy ===== *)
theory Jos_Fs_Path
  imports Jos_Fs_Trunc
begin

text \<open>
  Directories and paths. The entries of a directory are the file records in its blocks in order;
  a lookup is the first entry with the name, and walking a path is one lookup per component. On
  a well-formed tree no block is allocated on the way.
\<close>

section \<open>Searching\<close>

primrec first_some :: "('i \<Rightarrow> 'a option) \<Rightarrow> 'i list \<Rightarrow> 'a option" where
  "first_some g [] = None"
| "first_some g (i # is) = (case g i of None \<Rightarrow> first_some g is | Some a \<Rightarrow> Some a)"

lemma runs_firstM_some:
  assumes "bc_ok s" and "\<And>i t. i \<in> set is \<Longrightarrow> bc_ok t \<Longrightarrow> fsmem t = fsmem s \<Longrightarrow> runs (f i) t (g i) (fsmem s)"
  shows "runs (firstM is f) s (first_some g is) (fsmem s)"
  using assms
proof (induction "is" arbitrary: s)
  case Nil
  then show ?case by (simp add: runs_def)
next
  case (Cons i "is")
  have hd: "runs (f i) s (g i) (fsmem s)" using Cons.prems(2) [of i s] Cons.prems(1) by simp
  show ?case
    unfolding firstM.simps
  proof (rule runs_bind [OF hd])
    fix t assume t: "bc_ok t" "fsmem t = fsmem s"
    have "runs (firstM is f) t (first_some g is) (fsmem t)"
      by (rule Cons.IH [OF t(1)]) (use Cons.prems(2) t(2) in simp)
    then show "runs (case g i of None \<Rightarrow> firstM is f | Some a \<Rightarrow> ret (Some a)) t (first_some g (i # is)) (fsmem s)"
      using t by (cases "g i") (simp_all add: runs_def)
  qed
qed

lemma find_append: "find P (xs @ ys) = (case find P xs of None \<Rightarrow> find P ys | Some a \<Rightarrow> Some a)"
  by (induction xs) simp_all

lemma first_some_find:
  "first_some (\<lambda>j. if P (e j) then Some (z, e j) else None) js = map_option (Pair z) (find P (map e js))"
  by (induction js) simp_all

lemma first_some_concat:
  "first_some (\<lambda>i. map_option (Pair z) (find P (row i))) is = map_option (Pair z) (find P (concat (map row is)))"
  by (induction "is") (simp_all add: find_append split: option.splits)

section \<open>Lookup\<close>

definition record_at :: "bmem \<Rightarrow> u32 \<Rightarrow> nat \<Rightarrow> nat \<Rightarrow> u32" where
  "record_at m dir i j = DISKMAP + uses m dir i * BLKSIZE + FILE_SIZE * of_nat j"

definition records :: "bmem \<Rightarrow> u32 \<Rightarrow> u32 list" where
  "records m dir = concat (map (\<lambda>i. map (record_at m dir i) [0 ..< BLKFILES]) [0 ..< unat (fsize m dir) div 4096])"

definition directory :: "bmem \<Rightarrow> u32 \<Rightarrow> bool" where
  "directory m dir \<longleftrightarrow> unat (fsize m dir) mod 4096 = 0 \<and> (\<forall>i < unat (fsize m dir) div 4096. uses m dir i \<noteq> 0)"

definition lookup :: "bmem \<Rightarrow> u32 \<Rightarrow> u8 list \<Rightarrow> u32 option" where
  "lookup m dir name = find (\<lambda>e. cstr m e name) (records m dir)"

lemma get_block_found:
  assumes ok: "bc_ok s" and inv: "fsinv (fsmem s) F" and f: "f \<in> F" and i: "i < 1034"
    and u: "uses (fsmem s) f i \<noteq> 0"
  shows "runs (file_get_block f (of_nat i)) s (0, DISKMAP + uses (fsmem s) f i * BLKSIZE) (fsmem s)"
proof -
  let ?m = "fsmem s"
  have hc: "has_cell ?m f i" using u i by (auto simp: uses_def has_cell_def split: if_splits)
  have walk: "runs (file_block_walk f (of_nat i) True) s (0, Some (cell ?m f i)) ?m"
    using runs_walk_direct [OF ok, of i f True] runs_walk_found [OF ok inv f, of i True] hc i
    by (cases "i < 10") (auto simp: has_cell_def)
  then obtain t where t: "file_block_walk f (of_nat i) True s = (Ret (0, Some (cell ?m f i)), t)"
    "bc_ok t" "fsmem t = ?m" by (auto simp: runs_def)
  have ld: "load4 (cell ?m f i) ?m = uses ?m f i" using hc i by (simp add: has_cell_uses)
  obtain v where v: "fs_load32 (cell ?m f i) t = (Ret (uses ?m f i), v)" "bc_ok v" "fsmem v = ?m"
    using runs_load_word [OF t(2), of "cell ?m f i"] cell_ok(1) [OF inv f hc] t(3) ld by (auto simp: runs_def)
  obtain w where w: "fs_load32 (cell ?m f i) v = (Ret (uses ?m f i), w)" "bc_ok w" "fsmem w = ?m"
    using runs_load_word [OF v(2), of "cell ?m f i"] cell_ok(1) [OF inv f hc] v(3) ld by (auto simp: runs_def)
  have db: "datab ?m (uses ?m f i)" by (rule fsinvD(6) [OF inv f _ u]) (use i in simp)
  obtain x where "diskaddr (uses ?m f i) w = (Ret (DISKMAP + uses ?m f i * BLKSIZE), x)" "bc_ok x" "fsmem x = ?m"
    using runs_diskaddr_data [OF w(2)] db w(3) by (auto simp: runs_def)
  then show ?thesis
    using t(1) v(1) w(1) u by (simp add: runs_def file_get_block_def)
qed

lemma record_page:
  assumes geo: "geometry m" and b: "datab m (uses m dir i)" and j: "j < 16" and c: "c < 256"
  shows "PGNUM (record_at m dir i j + of_nat c) = 0x10000 + unat (uses m dir i)"
    "\<not> outside_cache (record_at m dir i j + of_nat c)"
    "blockno_of (record_at m dir i j + of_nat c) = uses m dir i"
proof -
  have e: "record_at m dir i j + of_nat c = DISKMAP + uses m dir i * BLKSIZE + of_nat (256 * j + c)"
    by (simp add: record_at_def FILE_SIZE_def add.assoc)
  have k: "256 * j + c < 4096" using j c by simp
  note ba = block_addr [OF datab_lt [OF geo b] k]
  show "PGNUM (record_at m dir i j + of_nat c) = 0x10000 + unat (uses m dir i)"
    "\<not> outside_cache (record_at m dir i j + of_nat c)"
    "blockno_of (record_at m dir i j + of_nat c) = uses m dir i"
    unfolding e by (rule ba)+
qed

lemma runs_name_is:
  assumes ok: "bc_ok s" and b: "datab (fsmem s) (uses (fsmem s) dir i)" and j: "j < 16" and n: "length name < 128"
  shows "runs (name_is (record_at (fsmem s) dir i j) name) s
    (cstr (fsmem s) (record_at (fsmem s) dir i j) name) (fsmem s)"
proof -
  let ?e = "record_at (fsmem s) dir i j"
  note rp = record_page [OF bc_ok_pointers(3) [OF ok] b j]
  have "block_used (fsmem s) (blockno_of ?e)" using rp(3) [of 0] b by (simp add: datab_def)
  then obtain t where t: "touch ?e s = (Ret (), t)" "grown s t" "va_is_mapped ?e t"
    using touch_ok [OF ok, of ?e] rp(2) [of 0] by auto
  have f: "bc_ok t" "fsmem t = fsmem s" using t(2) by (simp_all add: grown_def)
  have c: "cache t (?e + of_nat c) = fsmem s (?e + of_nat c)" if "c < 256" for c
  proof -
    have "va_is_mapped (?e + of_nat c) t"
      using mapped_PGNUM [of "?e + of_nat c" ?e t] t(3) rp(1) [of 0] rp(1) [OF that] by simp
    then have "fsmem t (?e + of_nat c) = cache t (?e + of_nat c)" using rp(2) [OF that] by (simp add: fsmem_def)
    then show ?thesis by (simp add: f(2))
  qed
  have "cstr (cache t) ?e name = cstr (fsmem s) ?e name"
    using c n by (simp add: cstr_iff)
  then show ?thesis using t(1) f by (simp add: name_is_def runs_def)
qed

lemma dir_search_ok:
  assumes ok: "bc_ok s" and inv: "fsinv (fsmem s) F" and f: "dir \<in> F" and d: "directory (fsmem s) dir"
    and found: "\<And>i j t. i < unat (fsize (fsmem s) dir) div 4096 \<Longrightarrow> j < 16 \<Longrightarrow> bc_ok t \<Longrightarrow> fsmem t = fsmem s \<Longrightarrow>
      runs (found (record_at (fsmem s) dir i j)) t (P (record_at (fsmem s) dir i j)) (fsmem s)"
  shows "runs (dir_search dir (unat (fsize (fsmem s) dir) div 4096) found) s
    (map_option (Pair 0) (find P (records (fsmem s) dir))) (fsmem s)"
proof -
  let ?m = "fsmem s"
  define n where "n = unat (fsize ?m dir) div 4096"
  have n: "n \<le> 1034" using fsinvD(9) [OF inv f] by (simp add: n_def)
  define row where "row i = map (record_at ?m dir i) [0 ..< BLKFILES]" for i
  have inner: "runs (bindM (file_get_block dir (of_nat i)) (\<lambda>(r, blk).
       if is_neg r then ret (Some (r, 0))
       else firstM [0 ..< BLKFILES] (\<lambda>j.
         bindM (found (blk + FILE_SIZE * of_nat j)) (\<lambda>yes.
           ret (if yes then Some (0, blk + FILE_SIZE * of_nat j) else None))))) t
      (map_option (Pair 0) (find P (row i))) ?m"
    if i: "i < n" and t: "bc_ok t" "fsmem t = ?m" for i t
  proof -
    have i': "i < 1034" and u: "uses ?m dir i \<noteq> 0" using i n d by (simp_all add: directory_def n_def)
    obtain v where v: "file_get_block dir (of_nat i) t = (Ret (0, DISKMAP + uses ?m dir i * BLKSIZE), v)"
      "bc_ok v" "fsmem v = ?m"
      using get_block_found [OF t(1), of F dir i] t(2) inv f i' u by (auto simp: runs_def)
    have "runs (firstM [0 ..< BLKFILES] (\<lambda>j. bindM (found (record_at ?m dir i j)) (\<lambda>yes.
           ret (if yes then Some (0, record_at ?m dir i j) else None)))) v
        (first_some (\<lambda>j. if P (record_at ?m dir i j) then Some (0, record_at ?m dir i j) else None) [0 ..< BLKFILES])
        (fsmem v)"
    proof (rule runs_firstM_some [OF v(2)])
      fix j x assume j: "j \<in> set [0 ..< BLKFILES]" and x: "bc_ok x" "fsmem x = fsmem v"
      have j': "j < 16" using j by (simp add: BLKFILES_def)
      have "runs (found (record_at ?m dir i j)) x (P (record_at ?m dir i j)) ?m"
        using found [of i j x] i j' x v(3) by (simp add: n_def)
      then show "runs (bindM (found (record_at ?m dir i j)) (\<lambda>yes.
          ret (if yes then Some (0, record_at ?m dir i j) else None))) x
          (if P (record_at ?m dir i j) then Some (0, record_at ?m dir i j) else None) (fsmem v)"
        by (auto simp: runs_def v(3))
    qed
    then have "runs (firstM [0 ..< BLKFILES] (\<lambda>j. bindM (found (record_at ?m dir i j)) (\<lambda>yes.
           ret (if yes then Some (0, record_at ?m dir i j) else None)))) v
        (map_option (Pair 0) (find P (row i))) ?m"
      by (simp only: first_some_find row_def v(3))
    then show ?thesis using v(1) by (simp add: runs_def record_at_def cong: if_cong)
  qed
  have "runs (dir_search dir n found) s
      (first_some (\<lambda>i. map_option (Pair 0) (find P (row i))) [0 ..< n]) ?m"
    unfolding dir_search_def using inner by (intro runs_firstM_some [OF ok]) simp
  then show ?thesis
    unfolding first_some_concat by (simp add: records_def row_def n_def)
qed

lemma runs_dir_nblock:
  assumes ok: "bc_ok s" and inv: "fsinv (fsmem s) F" and f: "dir \<in> F" and d: "directory (fsmem s) dir"
  shows "runs (dir_nblock dir) s (unat (fsize (fsmem s) dir) div 4096) (fsmem s)"
proof -
  define n where "n = unat (fsize (fsmem s) dir)"
  have n: "n \<le> MAXFILE" "fsize (fsmem s) dir = of_nat n" using fsinvD(9) [OF inv f] by (simp_all add: n_def)
  have lt: "n < 2147483648" using n(1) by simp
  have z: "smod32 (of_nat n) 4096 = 0" using small_sdiv(2) [OF lt] d by (simp add: directory_def n_def)
  have "unat (sdiv32 (of_nat n) 4096) = n div 4096"
    unfolding small_sdiv(1) [OF lt] using n(1) by (intro unat_small) simp
  moreover have "unat (of_nat n :: u32) = n" using n(1) by (intro unat_small) simp
  ultimately show ?thesis
    using runs_load_size [OF ok inv f] z unfolding n(2) by (auto simp: runs_def dir_nblock_def)
qed

lemma dir_lookup_ok:
  assumes ok: "bc_ok s" and inv: "fsinv (fsmem s) F" and f: "dir \<in> F" and d: "directory (fsmem s) dir"
    and n: "length name < 128"
  shows "runs (dir_lookup dir name) s
    (case lookup (fsmem s) dir name of None \<Rightarrow> (- E_NOT_FOUND, 0) | Some e \<Rightarrow> (0, e)) (fsmem s)"
proof -
  let ?m = "fsmem s"
  have db: "datab ?m (uses ?m dir i)" if "i < unat (fsize ?m dir) div 4096" for i
    using fsinvD(6) [OF inv f, of i] fsinvD(9) [OF inv f] d that by (simp add: directory_def)
  have step: "runs (name_is (record_at ?m dir i j) name) t (cstr ?m (record_at ?m dir i j) name) ?m"
    if "i < unat (fsize ?m dir) div 4096" "j < 16" "bc_ok t" "fsmem t = ?m" for i j t
    using runs_name_is [OF that(3), of dir i j name] db [OF that(1)] that(2,4) n by simp
  obtain t where t: "dir_nblock dir s = (Ret (unat (fsize ?m dir) div 4096), t)" "bc_ok t" "fsmem t = ?m"
    using runs_dir_nblock [OF ok inv f d] by (auto simp: runs_def)
  have "runs (dir_search dir (unat (fsize ?m dir) div 4096) (\<lambda>f. name_is f name)) t
      (map_option (Pair 0) (lookup ?m dir name)) ?m"
    using dir_search_ok [OF t(2), of F dir "\<lambda>f. name_is f name" "\<lambda>e. cstr ?m e name"] t(3) inv f d step
    by (simp add: lookup_def)
  then show ?thesis
    using t(1) by (cases "lookup ?m dir name") (auto simp: runs_def dir_lookup_def)
qed

section \<open>Paths\<close>

text \<open>A tree: every directory is made of whole blocks and its named entries are files of the set.\<close>

definition ftype :: "bmem \<Rightarrow> u32 \<Rightarrow> u32" where
  "ftype m f = load4 (f + f_type) m"

definition tree :: "bmem \<Rightarrow> u32 set \<Rightarrow> bool" where
  "tree m F \<longleftrightarrow> fsinv m F \<and> DISKMAP + 0x1000 + s_root \<in> F
     \<and> (\<forall>d \<in> F. ftype m d = FTYPE_DIR \<longrightarrow> directory m d \<and> (\<forall>e \<in> set (records m d). m e \<noteq> 0 \<longrightarrow> e \<in> F))"

text \<open>The components of a path, and what they lead to.\<close>

function components :: "u8 list \<Rightarrow> u8 list list" where
  "components p =
     (case dropWhile (\<lambda>c. c = 0x2F) p of
        [] \<Rightarrow> []
      | c # q \<Rightarrow> takeWhile (\<lambda>c. c \<noteq> 0x2F) (c # q) # components (dropWhile (\<lambda>c. c \<noteq> 0x2F) q))"
  by pat_completeness auto
termination
proof (relation "measure length")
  fix p :: "u8 list" and c q assume "dropWhile (\<lambda>c. c = 0x2F) p = c # q"
  then have "length (c # q) \<le> length p" by (metis length_dropWhile_le)
  moreover have "length (dropWhile (\<lambda>c. c \<noteq> 0x2F) q) \<le> length q" by (rule length_dropWhile_le)
  ultimately show "(dropWhile (\<lambda>c. c \<noteq> 0x2F) q, p) \<in> measure length" by simp
qed simp

declare components.simps [simp del] walk_from.simps [simp del]

fun resolve :: "bmem \<Rightarrow> u8 list list \<Rightarrow> u32 \<Rightarrow> u32 \<Rightarrow> i32 \<times> u32 \<times> u32 \<times> u8 list" where
  "resolve m [] dir f = (0, dir, f, [])"
| "resolve m (n # ns) dir f =
     (if MAXNAMELEN \<le> length n then (- E_BAD_PATH, 0, 0, [])
      else if ftype m f \<noteq> FTYPE_DIR then (- E_NOT_FOUND, 0, 0, [])
      else case lookup m f n of
        Some g \<Rightarrow> resolve m ns f g
      | None \<Rightarrow> (- E_NOT_FOUND, if ns = [] then (f, 0, n) else (0, 0, [])))"

lemma dropWhile_twice: "dropWhile P (dropWhile P xs) = dropWhile P xs"
  by (induction xs) simp_all

lemma components_skip: "components (skip_slash p) = components p"
  unfolding skip_slash_def by (subst (1 2) components.simps) (simp add: dropWhile_twice)

lemma components_Nil: "components [] = []"
  by (subst components.simps) simp

lemma components_nonempty:
  assumes "p \<noteq> []" and "hd p \<noteq> 0x2F"
  shows "components p = takeWhile (\<lambda>c. c \<noteq> 0x2F) p # components (skip_slash (dropWhile (\<lambda>c. c \<noteq> 0x2F) p))"
    "takeWhile (\<lambda>c. c \<noteq> 0x2F) p \<noteq> []"
proof -
  obtain c q where p: "p = c # q" "c \<noteq> 0x2F" using assms by (cases p) simp_all
  show "components p = takeWhile (\<lambda>c. c \<noteq> 0x2F) p # components (skip_slash (dropWhile (\<lambda>c. c \<noteq> 0x2F) p))"
    unfolding components_skip using p by (subst components.simps) simp
  show "takeWhile (\<lambda>c. c \<noteq> 0x2F) p \<noteq> []" using p by simp
qed

lemma components_empty: "p = [] \<or> hd p \<noteq> 0x2F \<Longrightarrow> components p = [] \<longleftrightarrow> p = []"
  using components_nonempty(1) [of p] components_Nil by (metis list.distinct(1))

lemma skip_slash_hd: "skip_slash p = [] \<or> hd (skip_slash p) \<noteq> 0x2F"
  using hd_dropWhile [of "\<lambda>c. c = 0x2F" p] by (auto simp: skip_slash_def)

lemma lookup_in_tree:
  assumes "tree m F" and "d \<in> F" and "ftype m d = FTYPE_DIR" and "lookup m d n = Some g" and "n \<noteq> []"
  shows "g \<in> F"
proof -
  have "g \<in> set (records m d) \<and> cstr m g n"
    using assms(4) by (auto simp: lookup_def find_Some_iff)
  moreover from this have "m g \<noteq> 0" using assms(5) by (cases n) simp_all
  ultimately show ?thesis using assms(1-3) unfolding tree_def by blast
qed

lemma walk_from_ok:
  assumes "bc_ok s" and "tree (fsmem s) F" and "f \<in> F" and "path = [] \<or> hd path \<noteq> 0x2F"
  shows "runs (walk_from path dir f) s (resolve (fsmem s) (components path) dir f) (fsmem s)"
  using assms
proof (induction "length path" arbitrary: path dir f s rule: less_induct)
  case less
  let ?m = "fsmem s"
  note ok = less.prems(1) and tr = less.prems(2) and f = less.prems(3)
  have inv: "fsinv ?m F" using tr by (simp add: tree_def)
  show ?case
  proof (cases "path = []")
    case True
    then show ?thesis using ok by (simp add: walk_from.simps components_Nil runs_def)
  next
    case False
    define name where "name = takeWhile (\<lambda>c. c \<noteq> 0x2F) path"
    define more where "more = skip_slash (dropWhile (\<lambda>c. c \<noteq> 0x2F) path)"
    have hd: "hd path \<noteq> 0x2F" using less.prems(4) False by simp
    note cp = components_nonempty [OF False hd, folded name_def more_def]
    have more: "more = [] \<or> hd more \<noteq> 0x2F" unfolding more_def by (rule skip_slash_hd)
    have short: "length more < length path"
    proof -
      have "length more \<le> length (dropWhile (\<lambda>c. c \<noteq> 0x2F) path)"
        unfolding more_def skip_slash_def by (rule length_dropWhile_le)
      moreover have "length (takeWhile (\<lambda>c. c \<noteq> 0x2F) path) + length (dropWhile (\<lambda>c. c \<noteq> 0x2F) path) = length path"
        by (simp flip: length_append)
      ultimately show ?thesis using cp(2) unfolding name_def by (cases "takeWhile (\<lambda>c. c \<noteq> 0x2F) path") simp_all
    qed
    have ld: "runs (fs_load32 (f + f_type)) s (ftype ?m f) ?m"
      using runs_load_word [OF ok, of "f + f_type"] file_words(3) [OF inv f, of 132]
      by (simp add: ftype_def kconst)
    obtain t where t: "fs_load32 (f + f_type) s = (Ret (ftype ?m f), t)" "bc_ok t" "fsmem t = ?m"
      using ld by (auto simp: runs_def)
    show ?thesis
    proof (cases "MAXNAMELEN \<le> length name \<or> ftype ?m f \<noteq> FTYPE_DIR")
      case True
      then show ?thesis
        using t ok False cp by (subst walk_from.simps) (auto simp: runs_def Let_def name_def [symmetric])
    next
      case ok': False
      have n: "length name < 128" using ok' by (simp add: MAXNAMELEN_def)
      have d: "directory ?m f" using tr f ok' by (simp add: tree_def)
      obtain u where u: "dir_lookup f name t =
          (Ret (case lookup ?m f name of None \<Rightarrow> (- E_NOT_FOUND, 0) | Some e \<Rightarrow> (0, e)), u)"
        "bc_ok u" "fsmem u = ?m"
        using dir_lookup_ok [OF t(2), of F f name] t(3) inv f d n by (auto simp: runs_def)
      have step: "walk_from path dir f s = (case lookup ?m f name of
          None \<Rightarrow> ret (- E_NOT_FOUND, if more = [] then (f, 0, name) else (0, 0, []))
        | Some g \<Rightarrow> walk_from more f g) u"
        using ok' False t(1) u(1)
        by (subst walk_from.simps)
          (auto simp: Let_def name_def [symmetric] more_def [symmetric] is_neg_def kconst split: option.split)
      show ?thesis
      proof (cases "lookup ?m f name")
        case None
        then show ?thesis
          using step u cp(1) ok' components_empty [OF more] by (simp add: runs_def)
      next
        case (Some g)
        have "g \<in> F" using lookup_in_tree [OF tr f _ Some cp(2)] ok' by simp
        then have "runs (walk_from more f g) u (resolve ?m (components more) f g) ?m"
          using less.hyps [OF short u(2), of g f] u(3) tr more by simp
        then show ?thesis using step Some cp(1) ok' by (simp add: runs_def)
      qed
    qed
  qed
qed

lemma walk_path_ok:
  assumes "bc_ok s" and "tree (fsmem s) F"
  shows "runs (walk_path path) s (resolve (fsmem s) (components path) 0 (DISKMAP + 0x1000 + s_root)) (fsmem s)"
  using walk_from_ok [OF assms, of "DISKMAP + 0x1000 + s_root" "skip_slash path" 0] assms skip_slash_hd
  by (simp add: walk_path_def runs_def components_skip bc_ok_pointers(1) tree_def)

end
