(* ===== verification/Jos_Fs_Sync.thy ===== *)
theory Jos_Fs_Sync
  imports Jos_Fs_Path
begin

text \<open>
  Writing everything back. After \<^verbatim>\<open>fs_sync\<close> the disk alone determines the file system: a
  server that starts again on that disk, with nothing but the super block in its cache, sees the
  same files with the same contents.
\<close>

section \<open>Images that agree on the blocks of the disk\<close>

definition same_blocks :: "bmem \<Rightarrow> bmem \<Rightarrow> bool" where
  "same_blocks m m' \<longleftrightarrow>
     (\<forall>x. \<not> outside_cache x \<longrightarrow> blockno_of x \<noteq> 0 \<longrightarrow> blockno_of x < nblocks m \<longrightarrow> m' x = m x)"

lemma same_blocks_page:
  assumes "same_blocks m m'" and "\<not> outside_cache a" and "blockno_of a \<noteq> 0" and "blockno_of a < nblocks m"
    and "PGNUM x = PGNUM a"
  shows "m' x = m x"
  using assms blockno_PGNUM [OF assms(2,5)] by (simp add: same_blocks_def)

lemma same_blocks_load:
  assumes s: "same_blocks m m'" and a: "\<not> outside_cache a" "blockno_of a \<noteq> 0" "blockno_of a < nblocks m"
    and al: "unat a mod 4 = 0"
  shows "load4 a m' = load4 a m"
  by (rule load4_upd_other [OF al]) (rule same_blocks_page [OF s a], rule PGNUM_near(1) [OF al])

lemma same_blocks_quiet:
  assumes s: "same_blocks m m'" and inv: "fsinv m F"
  shows "quiet m m'"
proof -
  note geo = fsinvD(1) [OF inv]
  have b1: "1 < nblocks m" using fsinvD(3) [OF inv] by (simp add: block_used_def)
  have "blockno_of (DISKMAP + 0x1000 + s_nblocks) = 1" by (simp add: blockno_of_def kconst)
  then have nb: "nblocks m' = nblocks m"
    unfolding nblocks_def using b1 super_words by (intro same_blocks_load [OF s]) simp_all
  have "bit_free m' b = bit_free m b" if b: "b < nblocks m" for b
  proof -
    have lt: "b < 0xC0000" by (rule geometry_le(3) [OF geo b])
    note bw = blockno_of_bitmap_word [OF lt]
    have used: "block_used m (2 + b div 32768)" using geo b by (simp add: geometry_def)
    have "unat b div 32768 < 24" using lt by (simp add: word_less_nat_alt)
    then have "unat (2 + b div 32768) = 2 + unat b div 32768" by (simp add: unat_word_ariths unat_div)
    then have "2 + b div 32768 \<noteq> 0" by (metis add_is_0 unat_0 zero_neq_numeral)
    then have "load4 (bitmap_word b) m' = load4 (bitmap_word b) m"
      using used bw bitmap_word_ok [OF lt] by (intro same_blocks_load [OF s]) (simp_all add: block_used_def)
    then show ?thesis by (simp add: bit_free_def)
  qed
  then show ?thesis by (simp add: quiet_def nb)
qed

lemma same_blocks_files:
  assumes s: "same_blocks m m'" and inv: "fsinv m F" and g: "g \<in> F"
  shows "l \<le> 1034 \<Longrightarrow> uses m' g l = uses m g l" and "header_same m m' g"
    and "p < MAXFILE \<Longrightarrow> fbyte m' g p = fbyte m g p"
proof -
  note geo = fsinvD(1) [OF inv]
  have data: "m' x = m x" if d: "datab m b" "PGNUM x = 0x10000 + unat b" for b x
  proof -
    note bb = block_base [OF datab_lt [OF geo d(1)]]
    show ?thesis
      using datab_ne [OF geo d(1)] d bb
      by (intro same_blocks_page [OF s bb(3)]) (simp_all add: datab_def block_used_def)
  qed
  have rec: "m' (g + of_nat c) = m (g + of_nat c)" if c: "c < 256" for c
  proof (cases "g = DISKMAP + 0x1000 + s_root")
    case True
    have "blockno_of g = 1" by (simp add: True blockno_of_def kconst)
    then show ?thesis
      using fsinvD(3) [OF inv] file_words(2,7) [OF inv g c]
      by (intro same_blocks_page [OF s, of g]) (simp_all add: block_used_def)
  next
    case False
    then have "datab m (blockno_of g)" using fsinvD(4) [OF inv g] by (simp add: file_at_def)
    then show ?thesis
      using data file_words(2) [OF inv g c] PGNUM_blockno [OF file_words(7) [OF inv g c]] by simp
  qed
  have ind: "m' x = m x" if "indirect m g \<noteq> 0" "PGNUM x = 0x10000 + unat (indirect m g)" for x
    by (rule data [OF indirect_datab [OF inv g that(1)] that(2)])
  show u: "uses m' g l = uses m g l" if "l \<le> 1034" for l
    by (rule uses_cong(1) [OF rec ind inv g that])
  show "header_same m m' g" by (rule uses_cong(2) [OF rec ind inv g order_refl])
  assume p: "p < MAXFILE"
  define k where "k = p div 4096"
  have k: "k < 1034" using p by (simp add: k_def less_mult_imp_div_less)
  show "fbyte m' g p = fbyte m g p"
  proof (cases "uses m g k = 0")
    case True
    then show ?thesis using u [of k] k by (simp add: fbyte_def k_def)
  next
    case False
    have d: "datab m (uses m g k)" by (rule fsinvD(6) [OF inv g _ False]) (use k in simp)
    have "m' (DISKMAP + uses m g k * BLKSIZE + of_nat (p mod 4096)) = m (DISKMAP + uses m g k * BLKSIZE + of_nat (p mod 4096))"
      by (rule data [OF d block_addr(2) [OF datab_lt [OF geo d]]]) simp
    then show ?thesis using u [of k] k by (simp add: fbyte_def k_def)
  qed
qed

lemma same_blocks_fsinv:
  assumes s: "same_blocks m m'" and inv: "fsinv m F"
  shows "fsinv m' F"
proof (rule fsinv_quiet [OF inv same_blocks_quiet [OF s inv]])
  show "uses m' g l = uses m g l" if "g \<in> F" "l \<le> 1034" for g l
    by (rule same_blocks_files(1) [OF s inv that])
  show "unat (fsize m' g) \<le> 1034 * 4096" if "g \<in> F" for g
    using header_fsize [OF same_blocks_files(2) [OF s inv that]] fsinvD(9) [OF inv that] by simp
qed

section \<open>Synchronisation and restart\<close>

lemma flush_loop:
  assumes "bc_ok s" and "\<And>i. i \<in> set is \<Longrightarrow> 0 < i \<and> i < unat (nblocks (fsmem s))"
  shows "\<exists>t. forM is (\<lambda>i. bindM (diskaddr (of_nat i)) flush_block) s = (Ret (), t) \<and> bc_ok t \<and> fsmem t = fsmem s
    \<and> (\<forall>x. \<not> outside_cache x \<longrightarrow>
        on_disk t x = (if unat (blockno_of x) \<in> set is then fsmem s x else on_disk s x))"
  using assms
proof (induction "is" arbitrary: s)
  case Nil
  then show ?case by simp
next
  case (Cons i "is")
  define b where "b = (of_nat i :: u32)"
  have i: "0 < i" "i < unat (nblocks (fsmem s))" using Cons.prems(2) [of i] by simp_all
  have ub: "unat b = i" unfolding b_def using i(2) u32_bound [of "nblocks (fsmem s)"] by (intro unat_small) simp
  have lt: "b < nblocks (fsmem s)" using i(2) ub by (simp add: word_less_nat_alt)
  have b0: "b \<noteq> 0" using ub i(1) by auto
  have b3: "b < 0xC0000" by (rule geometry_le(3) [OF bc_ok_pointers(3) [OF Cons.prems(1)] lt])
  note bb = block_base [OF b3]
  obtain t where t: "diskaddr b s = (Ret (DISKMAP + b * BLKSIZE), t)" "bc_ok t" "fsmem t = fsmem s" "t = s"
    using runs_diskaddr [OF Cons.prems(1) b0 lt] super_nonzero [OF Cons.prems(1)] load_nblocks [OF Cons.prems(1)] b0 lt
    by (auto simp: runs_def diskaddr_def fs_load32_def leD')
  obtain u where u: "flush_block (DISKMAP + b * BLKSIZE) s = (Ret (), u)" "bc_ok u" "fsmem u = fsmem s"
    "\<And>x. \<not> outside_cache x \<Longrightarrow>
      on_disk u x = (if PGNUM x = PGNUM (DISKMAP + b * BLKSIZE) then fsmem s x else on_disk s x)"
    using flush_block_ok [OF Cons.prems(1) bb(3)] by blast
  have small: "j \<in> set is \<Longrightarrow> 0 < j \<and> j < unat (nblocks (fsmem u))" for j
    using Cons.prems(2) [of j] u(3) by simp
  obtain v where v: "forM is (\<lambda>i. bindM (diskaddr (of_nat i)) flush_block) u = (Ret (), v)" "bc_ok v" "fsmem v = fsmem s"
    "\<And>x. \<not> outside_cache x \<Longrightarrow> on_disk v x = (if unat (blockno_of x) \<in> set is then fsmem s x else on_disk u x)"
    using Cons.IH [OF u(2) small] unfolding u(3) by blast
  have "forM (i # is) (\<lambda>i. bindM (diskaddr (of_nat i)) flush_block) s = (Ret (), v)"
    using t(1,4) u(1) v(1) by (simp add: b_def)
  moreover have "on_disk v x = (if unat (blockno_of x) \<in> set (i # is) then fsmem s x else on_disk s x)"
    if x: "\<not> outside_cache x" for x
  proof -
    have "PGNUM x = PGNUM (DISKMAP + b * BLKSIZE) \<longleftrightarrow> unat (blockno_of x) = i"
      using bb(2) ub PGNUM_blockno [OF x] by simp
    then show ?thesis using v(4) [OF x] u(4) [OF x] by simp
  qed
  ultimately show ?case using v by blast
qed

text \<open>The server after a restart: only the super block has been read from the disk.\<close>

definition remount :: "fsys \<Rightarrow> fsys" where
  "remount s = s\<lparr>cache := on_disk s, uvpt := \<lambda>p. if p = 0x10001 then PTE_SYSCALL OR PTE_P else 0\<rparr>"

lemma fsmem_remount: "fsmem (remount s) x = (if outside_cache x then 0 else on_disk s x)"
  by (simp add: fsmem_def remount_def on_disk_def)

lemma remount_ok:
  assumes ok: "bc_ok s" and inv: "fsinv (fsmem s) F"
    and disk: "\<And>x. \<not> outside_cache x \<Longrightarrow> blockno_of x \<noteq> 0 \<Longrightarrow> blockno_of x < nblocks (fsmem s) \<Longrightarrow>
      on_disk s x = fsmem s x"
  shows "bc_ok (remount s)" and "same_blocks (fsmem s) (fsmem (remount s))"
proof -
  show sb: "same_blocks (fsmem s) (fsmem (remount s))"
    using disk by (simp add: same_blocks_def fsmem_remount)
  have "geometry (fsmem (remount s))" by (rule fsinvD(1) [OF same_blocks_fsinv [OF sb inv]])
  moreover have "va_is_mapped (DISKMAP + 0x1000) (remount s)"
    by (simp add: va_is_mapped_def remount_def PGNUM_eq kconst)
  moreover have "coherent (remount s)" by (simp add: coherent_def remount_def on_disk_def)
  moreover have "super (remount s) = super s" "bitmap (remount s) = bitmap s" "grants (remount s) = grants s"
    "bad_sector (remount s) = bad_sector s" by (simp_all add: remount_def)
  ultimately show "bc_ok (remount s)" using ok by (simp add: bc_ok_def)
qed

lemma fs_sync_ok:
  assumes ok: "bc_ok s" and inv: "fsinv (fsmem s) F"
  shows "\<exists>t. fs_sync s = (Ret (), t) \<and> bc_ok t \<and> fsmem t = fsmem s
    \<and> bc_ok (remount t) \<and> same_blocks (fsmem s) (fsmem (remount t))"
proof -
  let ?n = "unat (nblocks (fsmem s))"
  obtain t where t: "forM [1 ..< ?n] (\<lambda>i. bindM (diskaddr (of_nat i)) flush_block) s = (Ret (), t)"
    "bc_ok t" "fsmem t = fsmem s"
    "\<And>x. \<not> outside_cache x \<Longrightarrow> on_disk t x = (if unat (blockno_of x) \<in> set [1 ..< ?n] then fsmem s x else on_disk s x)"
    using flush_loop [OF ok, of "[1 ..< ?n]"] by auto
  have g: "get_nblocks s = (Ret (nblocks (fsmem s)), s)"
    using load_nblocks [OF ok] by (simp add: get_nblocks_def fs_load32_def)
  have d: "on_disk t x = fsmem t x" if "\<not> outside_cache x" "blockno_of x \<noteq> 0" "blockno_of x < nblocks (fsmem t)" for x
    using t(3) t(4) [OF that(1)] that(2,3) unat_gt_0 [of "blockno_of x"]
    by (simp add: word_less_nat_alt Suc_le_eq)
  have "fsinv (fsmem t) F" using inv t(3) by simp
  from remount_ok [OF t(2) this d] show ?thesis
    using t g by (simp add: fs_sync_def)
qed

section \<open>Reading back what was written\<close>

lemma budget_zero:
  assumes known: "\<And>j. j < n \<Longrightarrow> fbyte m f (pos + j) \<noteq> None" and n: "0 < n" "pos + n \<le> MAXFILE"
  shows "budget m f (pos div 4096) (last_block (pos + n)) = 0"
proof -
  have u: "uses m f k \<noteq> 0" if k: "pos div 4096 \<le> k" "k < last_block (pos + n)" for k
  proof -
    define q where "q = max pos (k * 4096)"
    have "k * 4096 < pos + n" using k(2) by (simp add: less_eq_div_iff_mult_less_eq Suc_le_eq [symmetric])
    then have q: "pos \<le> q" "q < pos + n" using n(1) by (simp_all add: q_def)
    have "q div 4096 = k"
    proof (cases "pos \<le> k * 4096")
      case True
      then show ?thesis by (simp add: q_def)
    next
      case False
      then have "k \<le> pos div 4096" by (simp add: less_eq_div_iff_mult_less_eq)
      then show ?thesis using False k(1) by (simp add: q_def)
    qed
    moreover have "q - pos < n" "pos + (q - pos) = q" using q by simp_all
    ultimately show ?thesis using known [of "q - pos"] by (auto simp: fbyte_def split: if_splits)
  qed
  define b where "b = last_block (pos + n)"
  have "indirect m f \<noteq> 0" if "10 < b" "pos div 4096 < b"
  proof -
    have "uses m f (b - 1) \<noteq> 0" using u [of "b - 1"] that by (simp add: b_def)
    moreover have "b \<le> 1034" using n(2) by (simp add: b_def less_eq_div_iff_mult_less_eq Suc_le_eq [symmetric])
    ultimately show ?thesis using that by (auto simp: uses_def split: if_splits)
  qed
  moreover have "gaps m f (pos div 4096) b = {}" using u by (auto simp: gaps_def b_def)
  ultimately show ?thesis by (auto simp: budget_def b_def)
qed

lemma read_known:
  assumes ok: "bc_ok s" and inv: "fsinv (fsmem s) F" and f: "f \<in> F" and pl: "plain (fsmem s) F f"
    and sz: "pos + n \<le> unat (fsize (fsmem s) f)"
    and known: "\<And>j. j < n \<Longrightarrow> fbyte (fsmem s) f (pos + j) = Some (bs j)"
  shows "\<exists>t. file_read f (of_nat n) (of_nat pos) s = (Ret (of_nat n, map bs [0 ..< n]), t)
    \<and> bc_ok t \<and> keeps (fsmem s) (fsmem t) F {}"
proof -
  have le: "pos + n \<le> MAXFILE" using sz fsinvD(9) [OF inv f] by simp
  have un: "unat (of_nat n :: u32) = n" using le by (intro unat_small) simp
  then have mn: "min (unat (of_nat n :: u32)) (unat (fsize (fsmem s) f) - pos) = n" using sz by simp
  have "0 < n \<Longrightarrow> budget (fsmem s) f (pos div 4096) (last_block (pos + n)) = 0"
    using known le by (intro budget_zero) simp_all
  then obtain m' xs where r: "runs (file_read f (of_nat n) (of_nat pos)) s (of_nat n, xs) m'"
    "keeps (fsmem s) m' F {}" "length xs = n" "\<And>j. j < n \<Longrightarrow> fbyte m' f (pos + j) = Some (xs ! j)"
    using file_read_ok [OF ok inv f pl, of pos "of_nat n", unfolded mn] le by auto
  have "xs ! j = bs j" if j: "j < n" for j
  proof -
    have "pos + j < MAXFILE" using le j by simp
    then have "fbyte m' f (pos + j) = fbyte (fsmem s) f (pos + j)"
      using known [OF j] by (intro keepsD(4) [OF r(2) f pl]) simp_all
    then show ?thesis using r(4) [OF j] known [OF j] by simp
  qed
  then have "xs = map bs [0 ..< n]" using r(3) by (simp add: list_eq_iff_nth_eq)
  then show ?thesis using r(1,2) by (auto simp: runs_def)
qed

text \<open>Written, synchronised, lost with the cache, read again.\<close>

lemma write_sync_restart_read:
  assumes ok: "bc_ok s" and inv: "fsinv (fsmem s) F" and f: "f \<in> F" and pl: "plain (fsmem s) F f"
    and n: "pos + n \<le> MAXFILE"
    and sp: "0 < n \<Longrightarrow> budget (fsmem s) f (pos div 4096) (last_block (pos + n)) \<le> card (free_blocks (fsmem s))"
  shows "\<exists>t u v. file_write f buf (of_nat n) (of_nat pos) s = (Ret (of_nat n), t) \<and> fs_sync t = (Ret (), u)
    \<and> file_read f (of_nat n) (of_nat pos) (remount u) = (Ret (of_nat n, map buf [0 ..< n]), v)"
proof -
  obtain t where t: "file_write f buf (of_nat n) (of_nat pos) s = (Ret (of_nat n), t)" "bc_ok t"
    "changes (fsmem s) (fsmem t) F f {p. pos \<le> p \<and> p < pos + n}" "pos + n \<le> unat (fsize (fsmem t) f)"
    "\<And>j. j < n \<Longrightarrow> fbyte (fsmem t) f (pos + j) = Some (buf j)"
    using file_write_ok [OF ok inv f pl n sp, of buf] by (auto simp: runs_def)
  note invt = changesD(1) [OF t(3)]
  obtain u where u: "fs_sync t = (Ret (), u)" "bc_ok (remount u)" "same_blocks (fsmem t) (fsmem (remount u))"
    using fs_sync_ok [OF t(2) invt] by blast
  note sf = same_blocks_files [OF u(3) invt]
  have pl': "plain (fsmem (remount u)) F f"
    using changesD(3) [OF t(3) f pl] sf(1) [OF f] by (simp add: plain_def)
  have sz: "pos + n \<le> unat (fsize (fsmem (remount u)) f)" using t(4) header_fsize [OF sf(2) [OF f]] by simp
  have "fbyte (fsmem (remount u)) f (pos + j) = Some (buf j)" if "j < n" for j
    using sf(3) [OF f, of "pos + j"] t(5) [OF that] that n by simp
  from read_known [OF u(2) same_blocks_fsinv [OF u(3) invt] f pl' sz this] show ?thesis
    using t(1) u(1) by blast
qed

end
