(* ===== verification/Jos_Serv.thy ===== *)
theory Jos_Serv
  imports Jos_Fs_Sync
begin

text \<open>
  The front end of the file system server, \<^verbatim>\<open>fs/serv.c\<close>: the table of open files, the
  request handlers and the dispatcher. Slot \<open>i\<close> of the table owns the page at
  \<^verbatim>\<open>FILEVA + i * PGSIZE\<close>, which holds a \<^verbatim>\<open>struct Fd\<close> that clients share;
  \<open>fd_ref\<close> is what \<^verbatim>\<open>pageref\<close> reports for it. A request arrives as a page, whose fields
  are read where \<^verbatim>\<open>union Fsipc\<close> has them and into which the reply is written.
\<close>

section \<open>State\<close>

definition MAXOPEN :: nat where [kconst]: "MAXOPEN = 1024"
definition MAXPATHLEN :: nat where [kconst]: "MAXPATHLEN = 1024"
definition FILEVA :: u32 where [kconst]: "FILEVA = 0xD0000000"

definition FSREQ_OPEN :: u32 where [kconst]: "FSREQ_OPEN = 1"
definition FSREQ_SET_SIZE :: u32 where [kconst]: "FSREQ_SET_SIZE = 2"
definition FSREQ_READ :: u32 where [kconst]: "FSREQ_READ = 3"
definition FSREQ_WRITE :: u32 where [kconst]: "FSREQ_WRITE = 4"
definition FSREQ_STAT :: u32 where [kconst]: "FSREQ_STAT = 5"
definition FSREQ_FLUSH :: u32 where [kconst]: "FSREQ_FLUSH = 6"
definition FSREQ_REMOVE :: u32 where [kconst]: "FSREQ_REMOVE = 7"
definition FSREQ_SYNC :: u32 where [kconst]: "FSREQ_SYNC = 8"

definition O_RDONLY :: u32 where [kconst]: "O_RDONLY = 0"
definition O_WRONLY :: u32 where [kconst]: "O_WRONLY = 1"
definition O_RDWR :: u32 where [kconst]: "O_RDWR = 2"
definition O_ACCMODE :: u32 where [kconst]: "O_ACCMODE = 3"
definition O_CREAT :: u32 where [kconst]: "O_CREAT = 0x100"
definition O_TRUNC :: u32 where [kconst]: "O_TRUNC = 0x200"
definition O_EXCL :: u32 where [kconst]: "O_EXCL = 0x400"

text \<open>The device number of files, \<^verbatim>\<open>'f'\<close>.\<close>

definition devfile_id :: i32 where [kconst]: "devfile_id = 0x66"

record OpenFile =
  o_fileid :: u32
  o_file :: u32
  o_mode :: u32

record Fd =
  fd_dev_id :: i32
  fd_offset :: u32
  fd_omode :: u32
  fd_file_id :: u32

definition zero_fd :: Fd where
  "zero_fd = \<lparr>fd_dev_id = 0, fd_offset = 0, fd_omode = 0, fd_file_id = 0\<rparr>"

record server =
  fs :: fsys
  opentab :: "nat \<Rightarrow> OpenFile"
  fd_page :: "nat \<Rightarrow> Fd"
  fd_ref :: "nat \<Rightarrow> nat"
  fd_grants :: "nat \<Rightarrow> bool"

type_synonym 'a srvprog = "(server, fs_exit, 'a) prog"

definition in_fs :: "'a fsprog \<Rightarrow> 'a srvprog" where
  "in_fs p s = (case p (fs s) of (r, t) \<Rightarrow> (r, s\<lparr>fs := t\<rparr>))"

definition upd_open :: "nat \<Rightarrow> (OpenFile \<Rightarrow> OpenFile) \<Rightarrow> server \<Rightarrow> server" where
  "upd_open i u s = s\<lparr>opentab := (opentab s)(i := u (opentab s i))\<rparr>"

definition upd_fd :: "nat \<Rightarrow> (Fd \<Rightarrow> Fd) \<Rightarrow> server \<Rightarrow> server" where
  "upd_fd i u s = s\<lparr>fd_page := (fd_page s)(i := u (fd_page s i))\<rparr>"

section \<open>Open files\<close>

definition serve_init :: "unit srvprog" where
  "serve_init = modifyM (\<lambda>s. s\<lparr>opentab := \<lambda>i. if i < MAXOPEN
     then (opentab s i)\<lparr>o_fileid := of_nat i\<rparr> else opentab s i\<rparr>)"

text \<open>\<^verbatim>\<open>sys_page_alloc\<close> on the page of a slot.\<close>

definition fd_page_alloc :: "nat \<Rightarrow> i32 srvprog" where
  "fd_page_alloc i =
     bindM (getsM (\<lambda>s. fd_grants s i)) (\<lambda>ok.
       if ok then thenM (modifyM (\<lambda>s. s\<lparr>fd_ref := (fd_ref s)(i := 1)\<rparr>)) (ret 0)
       else ret (- E_NO_MEM))"

definition claim_slot :: "nat \<Rightarrow> (i32 \<times> nat) srvprog" where
  "claim_slot i =
     thenM (modifyM (upd_open i (\<lambda>f. f\<lparr>o_fileid := o_fileid f + of_nat MAXOPEN\<rparr>)))
     (thenM (modifyM (upd_fd i (\<lambda>_. zero_fd)))
     (getsM (\<lambda>s. (o_fileid (opentab s i), i))))"

definition openfile_alloc :: "(i32 \<times> nat) srvprog" where
  "openfile_alloc =
     bindM (firstM [0 ..< MAXOPEN] (\<lambda>i.
       bindM (getsM (\<lambda>s. fd_ref s i)) (\<lambda>n.
         if n = 0 then
           bindM (fd_page_alloc i) (\<lambda>r.
             if is_neg r then ret (Some (r, i)) else bindM (claim_slot i) (\<lambda>x. ret (Some x)))
         else if n = 1 then bindM (claim_slot i) (\<lambda>x. ret (Some x))
         else ret None)))
       (\<lambda>r. ret (case r of None \<Rightarrow> (- E_MAX_OPEN, 0) | Some x \<Rightarrow> x))"

definition openfile_lookup :: "u32 \<Rightarrow> (i32 \<times> nat) srvprog" where
  "openfile_lookup fileid =
     (let i = unat (fileid mod of_nat MAXOPEN) in
      getsM (\<lambda>s. (if fd_ref s i = 1 \<or> o_fileid (opentab s i) \<noteq> fileid then - E_INVAL else 0, i)))"

section \<open>Requests\<close>

text \<open>The string in the first \<^verbatim>\<open>MAXPATHLEN\<close> bytes of a request, cut off at the end.\<close>

definition req_path :: "bmem \<Rightarrow> u8 list" where
  "req_path pg = takeWhile (\<lambda>b. b \<noteq> 0) (map (\<lambda>i. pg (of_nat i)) [0 ..< MAXPATHLEN - 1])"

definition serve_open :: "bmem \<Rightarrow> (i32 \<times> nat option) srvprog" where
  "serve_open pg =
     (let path = req_path pg; omode = load4 (of_nat MAXPATHLEN) pg in
      bindM openfile_alloc (\<lambda>(r, i).
      if is_neg r then ret (r, None)
      else bindM
        (if omode AND O_CREAT \<noteq> 0 then
           bindM (in_fs (file_create path)) (\<lambda>(r, f).
             if is_neg r \<and> omode AND O_EXCL = 0 \<and> r = - E_FILE_EXISTS then in_fs (file_open path)
             else ret (r, f))
         else in_fs (file_open path)) (\<lambda>(r, f).
      if is_neg r then ret (r, None)
      else bindM (if omode AND O_TRUNC \<noteq> 0 then in_fs (file_set_size f 0) else ret 0) (\<lambda>r.
      if is_neg r then ret (r, None)
      else thenM (modifyM (\<lambda>s. upd_fd i (\<lambda>fd. fd\<lparr>fd_file_id := o_fileid (opentab s i),
            fd_omode := omode AND O_ACCMODE, fd_dev_id := devfile_id\<rparr>)
          (upd_open i (\<lambda>x. x\<lparr>o_file := f, o_mode := omode\<rparr>) s)))
        (ret (0, Some i))))))"

text \<open>Every other request starts by looking up the file identifier in its first word.\<close>

definition with_open :: "bmem \<Rightarrow> (nat \<Rightarrow> (i32 \<times> bmem) srvprog) \<Rightarrow> (i32 \<times> bmem) srvprog" where
  "with_open pg k =
     bindM (openfile_lookup (load4 0 pg)) (\<lambda>(r, i). if is_neg r then ret (r, pg) else k i)"

definition serve_set_size :: "bmem \<Rightarrow> (i32 \<times> bmem) srvprog" where
  "serve_set_size pg = with_open pg (\<lambda>i.
     bindM (getsM (\<lambda>s. o_file (opentab s i))) (\<lambda>f.
     bindM (in_fs (file_set_size f (load4 4 pg))) (\<lambda>r. ret (r, pg))))"

text \<open>
  The count is unsigned when it is compared with 0, so every nonzero result moves the seek
  position of a read, and every result that of a write.
\<close>

definition serve_read :: "bmem \<Rightarrow> (i32 \<times> bmem) srvprog" where
  "serve_read pg = with_open pg (\<lambda>i.
     bindM (getsM (\<lambda>s. (o_file (opentab s i), fd_offset (fd_page s i)))) (\<lambda>(f, off).
     bindM (in_fs (file_read f (MIN_u32 (load4 4 pg) (PGSIZE)) off)) (\<lambda>(nbytes, bs).
     thenM (whenM (nbytes > 0) (modifyM (upd_fd i (\<lambda>fd. fd\<lparr>fd_offset := fd_offset fd + nbytes\<rparr>))))
     (ret (nbytes, put_list 0 bs pg)))))"

definition serve_write :: "bmem \<Rightarrow> (i32 \<times> bmem) srvprog" where
  "serve_write pg = with_open pg (\<lambda>i.
     bindM (getsM (\<lambda>s. (o_file (opentab s i), fd_offset (fd_page s i)))) (\<lambda>(f, off).
     let nbytes = MIN_u32 (load4 4 pg) (PGSIZE - 8) in
     bindM (in_fs (file_write f (\<lambda>k. pg (8 + of_nat k)) nbytes off)) (\<lambda>nbytes.
     thenM (modifyM (upd_fd i (\<lambda>fd. fd\<lparr>fd_offset := fd_offset fd + nbytes\<rparr>)))
     (ret (nbytes, pg)))))"

text \<open>The bytes of a name up to its terminator; beyond the request page the copy is undefined.\<close>

fun fs_read_str :: "nat \<Rightarrow> u32 \<Rightarrow> u8 list fsprog" where
  "fs_read_str 0 a = stop FsUndefined"
| "fs_read_str (Suc n) a =
     bindM (fs_load8 a) (\<lambda>b. if b = 0 then ret [] else bindM (fs_read_str n (a + 1)) (\<lambda>bs. ret (b # bs)))"

definition serve_stat :: "bmem \<Rightarrow> (i32 \<times> bmem) srvprog" where
  "serve_stat pg = with_open pg (\<lambda>i.
     bindM (getsM (\<lambda>s. o_file (opentab s i))) (\<lambda>f.
     bindM (in_fs (fs_read_str 4096 f)) (\<lambda>name.
     bindM (in_fs (fs_load32 (f + f_size))) (\<lambda>sz.
     bindM (in_fs (fs_load32 (f + f_type))) (\<lambda>ty.
     ret (0, store4 132 (if ty = FTYPE_DIR then 1 else 0) (store4 128 sz (put_list 0 (name @ [0]) pg))))))))"

definition serve_flush :: "bmem \<Rightarrow> (i32 \<times> bmem) srvprog" where
  "serve_flush pg = with_open pg (\<lambda>i.
     bindM (getsM (\<lambda>s. o_file (opentab s i))) (\<lambda>f. thenM (in_fs (file_flush f)) (ret (0, pg))))"

definition serve_remove :: "bmem \<Rightarrow> (i32 \<times> bmem) srvprog" where
  "serve_remove pg = bindM (in_fs (file_remove (req_path pg))) (\<lambda>r. ret (r, pg))"

definition serve_sync :: "bmem \<Rightarrow> (i32 \<times> bmem) srvprog" where
  "serve_sync pg = thenM (in_fs fs_sync) (ret (0, pg))"

section \<open>Dispatch\<close>

definition handlers :: "u32 \<Rightarrow> (bmem \<Rightarrow> (i32 \<times> bmem) srvprog) option" where
  "handlers req =
     (if req = FSREQ_SET_SIZE then Some serve_set_size else if req = FSREQ_READ then Some serve_read
      else if req = FSREQ_WRITE then Some serve_write else if req = FSREQ_STAT then Some serve_stat
      else if req = FSREQ_FLUSH then Some serve_flush else if req = FSREQ_REMOVE then Some serve_remove
      else if req = FSREQ_SYNC then Some serve_sync else None)"

text \<open>A reply: the value, the slot whose page is sent along, if any, and the request page.\<close>

definition serve_request :: "u32 \<Rightarrow> bmem \<Rightarrow> (i32 \<times> nat option \<times> bmem) srvprog" where
  "serve_request req pg =
     (if req = FSREQ_OPEN then bindM (serve_open pg) (\<lambda>(r, p). ret (r, p, pg))
      else case handlers req of
        Some h \<Rightarrow> bindM (h pg) (\<lambda>(r, pg'). ret (r, None, pg'))
      | None \<Rightarrow> ret (- E_INVAL, None, pg))"

text \<open>
  The loop over the messages: one without an argument page is left hanging, every other one is
  answered before the next is received.
\<close>

record message =
  m_whom :: i32
  m_req :: u32
  m_perm :: u32
  m_page :: bmem

fun serve :: "message list \<Rightarrow> (i32 \<times> i32 \<times> nat option \<times> bmem) list srvprog" where
  "serve [] = ret []"
| "serve (m # ms) =
     (if m_perm m AND PTE_P = 0 then serve ms
      else bindM (serve_request (m_req m) (m_page m)) (\<lambda>r.
        bindM (serve ms) (\<lambda>rs. ret ((m_whom m, r) # rs))))"

end
