(* ===== verification/Jos_Fd.thy ===== *)
theory Jos_Fd
  imports Jos_Serv
begin

text \<open>
  The file descriptor layer of a program, \<^verbatim>\<open>lib/fd.c\<close> and \<^verbatim>\<open>lib/file.c\<close>, together with
  the server that answers its requests. A descriptor is a page from \<^verbatim>\<open>FDTABLE\<close> on that
  shows the \<^verbatim>\<open>struct Fd\<close> of one server slot; mapping and unmapping it changes the reference
  count the server looks at. Files are the only device of the table \<^verbatim>\<open>devtab\<close>. The
  request page \<^verbatim>\<open>fsipcbuf\<close> is kept apart from the other pages: a \<^verbatim>\<open>dup\<close> onto a number
  outside the table whose page happens to be that of \<^verbatim>\<open>fsipcbuf\<close> is not followed further.
\<close>

section \<open>State\<close>

definition MAXFD :: u32 where [kconst]: "MAXFD = 32"
definition FDTABLE :: u32 where [kconst]: "FDTABLE = 0xD0000000"
definition FILEDATA :: u32 where [kconst]: "FILEDATA = FDTABLE + MAXFD * PGSIZE"

definition INDEX2FD :: "i32 \<Rightarrow> u32" where
  "INDEX2FD i = FDTABLE + i * PGSIZE"

definition INDEX2DATA :: "i32 \<Rightarrow> u32" where
  "INDEX2DATA i = FILEDATA + i * PGSIZE"

definition fd2num :: "u32 \<Rightarrow> i32" where
  "fd2num fd = (fd - FDTABLE) div PGSIZE"

definition fd2data :: "u32 \<Rightarrow> u32" where
  "fd2data fd = INDEX2DATA (fd2num fd)"

text \<open>
  A page of the program's address space is the page of a server slot or one of its own. The
  state of one program: the server, the pages at page-aligned addresses, its own pages read as
  a \<^verbatim>\<open>struct Fd\<close>, the request page, and where the kernel has the memory for a mapping.
\<close>

datatype upage = SlotPage nat | OwnPage nat

record world =
  srv :: server
  upages :: "u32 \<Rightarrow> upage option"
  own_pages :: "nat \<Rightarrow> Fd"
  fsipcbuf :: bmem
  map_grants :: "u32 \<Rightarrow> bool"

type_synonym 'a userprog = "(world, fs_exit, 'a) prog"

definition in_srv :: "'a srvprog \<Rightarrow> 'a userprog" where
  "in_srv p w = (case p (srv w) of (r, t) \<Rightarrow> (r, w\<lparr>srv := t\<rparr>))"

text \<open>\<^verbatim>\<open>sys_page_unmap\<close> and \<^verbatim>\<open>page_insert\<close>, with the references to slot pages.\<close>

definition unmap_page :: "u32 \<Rightarrow> world \<Rightarrow> world" where
  "unmap_page a w =
     (case upages w a of
        Some (SlotPage i) \<Rightarrow>
          w\<lparr>srv := (srv w)\<lparr>fd_ref := (fd_ref (srv w))(i := fd_ref (srv w) i - 1)\<rparr>,
            upages := (upages w)(a := None)\<rparr>
      | _ \<Rightarrow> w\<lparr>upages := (upages w)(a := None)\<rparr>)"

definition map_page :: "u32 \<Rightarrow> upage \<Rightarrow> world \<Rightarrow> world" where
  "map_page a p w =
     (let v = unmap_page a w in
      case p of
        SlotPage i \<Rightarrow>
          v\<lparr>srv := (srv v)\<lparr>fd_ref := (fd_ref (srv v))(i := fd_ref (srv v) i + 1)\<rparr>,
            upages := (upages v)(a := Some p)\<rparr>
      | OwnPage _ \<Rightarrow> v\<lparr>upages := (upages v)(a := Some p)\<rparr>)"

text \<open>The \<^verbatim>\<open>struct Fd\<close> at an address; an access to an address with no page faults.\<close>

definition the_fd :: "u32 \<Rightarrow> Fd userprog" where
  "the_fd a w = (case upages w a of
      None \<Rightarrow> stop FsUndefined w
    | Some (SlotPage i) \<Rightarrow> ret (fd_page (srv w) i) w
    | Some (OwnPage j) \<Rightarrow> ret (own_pages w j) w)"

definition set_fd :: "u32 \<Rightarrow> (Fd \<Rightarrow> Fd) \<Rightarrow> unit userprog" where
  "set_fd a u w = (case upages w a of
      None \<Rightarrow> stop FsUndefined w
    | Some (SlotPage i) \<Rightarrow> ret () (w\<lparr>srv := upd_fd i u (srv w)\<rparr>)
    | Some (OwnPage j) \<Rightarrow> ret () (w\<lparr>own_pages := (own_pages w)(j := u (own_pages w j))\<rparr>))"

section \<open>Requests to the server\<close>

text \<open>
  \<^verbatim>\<open>fsipc\<close>: the page \<^verbatim>\<open>fsipcbuf\<close> is shared with the server, which writes its reply into
  it. A page that comes with the answer is mapped at the address \<open>dst\<close>; where the kernel
  cannot do that the server panics in \<^verbatim>\<open>ipc_send\<close>.
\<close>

definition fsipc :: "u32 \<Rightarrow> u32 option \<Rightarrow> i32 userprog" where
  "fsipc req dst =
     bindM (getsM fsipcbuf) (\<lambda>pg.
     bindM (in_srv (serve_request req pg)) (\<lambda>(r, p, pg').
     thenM (modifyM (\<lambda>w. w\<lparr>fsipcbuf := pg'\<rparr>))
     (case (dst, p) of
        (Some a, Some i) \<Rightarrow>
          bindM (getsM (\<lambda>w. map_grants w a)) (\<lambda>ok.
            if ok then thenM (modifyM (map_page a (SlotPage i))) (ret r) else stop FsPanic)
      | _ \<Rightarrow> ret r)))"

definition set_request :: "(bmem \<Rightarrow> bmem) \<Rightarrow> unit userprog" where
  "set_request u = modifyM (\<lambda>w. w\<lparr>fsipcbuf := u (fsipcbuf w)\<rparr>)"

definition devfile_flush :: "u32 \<Rightarrow> i32 userprog" where
  "devfile_flush a = bindM (the_fd a) (\<lambda>fd.
     thenM (set_request (store4 0 (fd_file_id fd))) (fsipc FSREQ_FLUSH None))"

definition devfile_read :: "u32 \<Rightarrow> u32 \<Rightarrow> (i32 \<times> u8 list) userprog" where
  "devfile_read a n = bindM (the_fd a) (\<lambda>fd.
     thenM (set_request (\<lambda>pg. store4 4 n (store4 0 (fd_file_id fd) pg)))
     (bindM (fsipc FSREQ_READ None) (\<lambda>r.
        if is_neg r then ret (r, [])
        else bindM (getsM fsipcbuf) (\<lambda>pg. ret (r, map (\<lambda>i. pg (of_nat i)) [0 ..< unat r])))))"

definition devfile_write :: "u32 \<Rightarrow> (nat \<Rightarrow> u8) \<Rightarrow> u32 \<Rightarrow> i32 userprog" where
  "devfile_write a buf n = bindM (the_fd a) (\<lambda>fd.
     let max = PGSIZE - 8; n = (if max < n then max else n) in
     thenM (set_request (\<lambda>pg. put_list 8 (map buf [0 ..< unat n]) (store4 4 n (store4 0 (fd_file_id fd) pg))))
     (fsipc FSREQ_WRITE None))"

record Stat =
  st_name :: "u8 list"
  st_size :: u32
  st_isdir :: u32

definition devfile_stat :: "u32 \<Rightarrow> (i32 \<times> Stat option) userprog" where
  "devfile_stat a = bindM (the_fd a) (\<lambda>fd.
     thenM (set_request (store4 0 (fd_file_id fd)))
     (bindM (fsipc FSREQ_STAT None) (\<lambda>r.
        if is_neg r then ret (r, None)
        else bindM (getsM fsipcbuf) (\<lambda>pg. ret (0, Some
          \<lparr>st_name = takeWhile (\<lambda>b. b \<noteq> 0) (map (\<lambda>i. pg (of_nat i)) [0 ..< 4096]),
           st_size = load4 128 pg, st_isdir = load4 132 pg\<rparr>)))))"

definition devfile_trunc :: "u32 \<Rightarrow> u32 \<Rightarrow> i32 userprog" where
  "devfile_trunc a newsize = bindM (the_fd a) (\<lambda>fd.
     thenM (set_request (\<lambda>pg. store4 4 newsize (store4 0 (fd_file_id fd) pg)))
     (fsipc FSREQ_SET_SIZE None))"

section \<open>Descriptors\<close>

definition fd_alloc :: "(i32 \<times> u32) userprog" where
  "fd_alloc =
     bindM (firstM [0 ..< unat MAXFD] (\<lambda>i. getsM (\<lambda>w.
         if upages w (INDEX2FD (of_nat i)) = None then Some (INDEX2FD (of_nat i)) else None)))
       (\<lambda>r. ret (case r of None \<Rightarrow> (- E_MAX_OPEN, 0) | Some fd \<Rightarrow> (0, fd)))"

definition fd_lookup :: "i32 \<Rightarrow> (i32 \<times> u32) userprog" where
  "fd_lookup fdnum =
     (if sint fdnum < 0 \<or> sint MAXFD \<le> sint fdnum then ret (- E_INVAL, 0)
      else getsM (\<lambda>w. if upages w (INDEX2FD fdnum) = None then (- E_INVAL, 0) else (0, INDEX2FD fdnum)))"

text \<open>
  \<^verbatim>\<open>dev_lookup\<close> over \<^verbatim>\<open>devtab\<close>, whose only entry is \<^verbatim>\<open>devfile\<close>; all the operations
  of that device are present.
\<close>

definition dev_lookup :: "i32 \<Rightarrow> i32" where
  "dev_lookup dev_id = (if dev_id = devfile_id then 0 else - E_INVAL)"

definition fd_close :: "u32 \<Rightarrow> bool \<Rightarrow> i32 userprog" where
  "fd_close fd must_exist =
     bindM (fd_lookup (fd2num fd)) (\<lambda>(r, fd2).
       if is_neg r \<or> fd \<noteq> fd2 then ret (if must_exist then r else 0)
       else bindM (the_fd fd) (\<lambda>d.
         bindM (if is_neg (dev_lookup (fd_dev_id d)) then ret (dev_lookup (fd_dev_id d)) else devfile_flush fd)
           (\<lambda>r. thenM (modifyM (unmap_page fd)) (ret r))))"

definition close :: "i32 \<Rightarrow> i32 userprog" where
  "close fdnum = bindM (fd_lookup fdnum) (\<lambda>(r, fd). if is_neg r then ret r else fd_close fd True)"

definition close_all :: "unit userprog" where
  "close_all = forM [0 ..< unat MAXFD] (\<lambda>i. bindM (close (of_nat i)) (\<lambda>_. ret ()))"

text \<open>
  \<^verbatim>\<open>sys_page_map\<close> from one address of the program to another; the permissions are those
  of a user page, so the mapping is refused when there is no page, when the target is not user
  memory and when there is no memory for a page table. \<^verbatim>\<open>sys_page_unmap\<close> leaves such a
  target alone too.
\<close>

definition page_map_self :: "u32 \<Rightarrow> u32 \<Rightarrow> i32 userprog" where
  "page_map_self src dst =
     bindM (getsM (\<lambda>w. (upages w src, map_grants w dst))) (\<lambda>(page, ok).
       case page of
         None \<Rightarrow> ret (- E_INVAL)
       | Some p \<Rightarrow>
           if UTOP \<le> dst then ret (- E_INVAL)
           else if ok then thenM (modifyM (map_page dst p)) (ret 0)
           else ret (- E_NO_MEM))"

definition page_unmap_self :: "u32 \<Rightarrow> unit userprog" where
  "page_unmap_self a = whenM (a < UTOP) (modifyM (unmap_page a))"

text \<open>
  The number of the new descriptor is not checked, so any page of the program can be replaced; of
  those pages the model has the ones of descriptors, not the request page.
\<close>

definition dup :: "i32 \<Rightarrow> i32 \<Rightarrow> i32 userprog" where
  "dup oldfdnum newfdnum =
     bindM (fd_lookup oldfdnum) (\<lambda>(r, oldfd).
       if is_neg r then ret r
       else bindM (close newfdnum) (\<lambda>_.
         let newfd = INDEX2FD newfdnum; ova = fd2data oldfd; nva = fd2data newfd;
             err = (\<lambda>r. thenM (page_unmap_self newfd) (thenM (page_unmap_self nva) (ret r))) in
         bindM (getsM (\<lambda>w. upages w ova)) (\<lambda>data.
         bindM (if data \<noteq> None then page_map_self ova nva else ret 0) (\<lambda>r.
           if is_neg r then err r
           else bindM (page_map_self oldfd newfd) (\<lambda>r.
             if is_neg r then err r else ret newfdnum)))))"

text \<open>The common start of the operations on an open descriptor.\<close>

definition with_fd :: "i32 \<Rightarrow> 'a \<Rightarrow> (u32 \<Rightarrow> Fd \<Rightarrow> (i32 \<times> 'a) userprog) \<Rightarrow> (i32 \<times> 'a) userprog" where
  "with_fd fdnum none k =
     bindM (fd_lookup fdnum) (\<lambda>(r, fd).
       if is_neg r then ret (r, none)
       else bindM (the_fd fd) (\<lambda>d.
         if is_neg (dev_lookup (fd_dev_id d)) then ret (dev_lookup (fd_dev_id d), none) else k fd d))"

definition read :: "i32 \<Rightarrow> u32 \<Rightarrow> (i32 \<times> u8 list) userprog" where
  "read fdnum n = with_fd fdnum [] (\<lambda>fd d.
     if fd_omode d AND O_ACCMODE = O_WRONLY then ret (- E_INVAL, []) else devfile_read fd n)"

text \<open>
  \<^verbatim>\<open>readn\<close>; a round that brings nothing ends the loop, so one round per byte is enough
  fuel.
\<close>

fun readn_loop :: "nat \<Rightarrow> i32 \<Rightarrow> u32 \<Rightarrow> u32 \<Rightarrow> (i32 \<times> u8 list) userprog" where
  "readn_loop 0 fdnum n tot = ret (tot, [])"
| "readn_loop (Suc fuel) fdnum n tot =
     (if tot < n then
        bindM (read fdnum (n - tot)) (\<lambda>(m, bs).
          if is_neg m then ret (m, bs)
          else if m = 0 then ret (tot, [])
          else bindM (readn_loop fuel fdnum n (tot + m)) (\<lambda>(r, rest). ret (r, bs @ rest)))
      else ret (tot, []))"

definition readn :: "i32 \<Rightarrow> u32 \<Rightarrow> (i32 \<times> u8 list) userprog" where
  "readn fdnum n = readn_loop (unat n) fdnum n 0"

definition write_fd :: "i32 \<Rightarrow> (nat \<Rightarrow> u8) \<Rightarrow> u32 \<Rightarrow> i32 userprog" where
  "write_fd fdnum buf n = bindM (with_fd fdnum () (\<lambda>fd d.
     if fd_omode d AND O_ACCMODE = O_RDONLY then ret (- E_INVAL, ())
     else bindM (devfile_write fd buf n) (\<lambda>r. ret (r, ())))) (\<lambda>(r, _). ret r)"

definition seek :: "i32 \<Rightarrow> u32 \<Rightarrow> i32 userprog" where
  "seek fdnum offset =
     bindM (fd_lookup fdnum) (\<lambda>(r, fd).
       if is_neg r then ret r
       else thenM (set_fd fd (\<lambda>d. d\<lparr>fd_offset := offset\<rparr>)) (ret 0))"

definition ftruncate :: "i32 \<Rightarrow> u32 \<Rightarrow> i32 userprog" where
  "ftruncate fdnum newsize = bindM (with_fd fdnum () (\<lambda>fd d.
     if fd_omode d AND O_ACCMODE = O_RDONLY then ret (- E_INVAL, ())
     else bindM (devfile_trunc fd newsize) (\<lambda>r. ret (r, ())))) (\<lambda>(r, _). ret r)"

definition fstat :: "i32 \<Rightarrow> (i32 \<times> Stat option) userprog" where
  "fstat fdnum = with_fd fdnum None (\<lambda>fd d. devfile_stat fd)"

definition copy_path :: "u8 list \<Rightarrow> bmem \<Rightarrow> bmem" where
  "copy_path path pg = put_list 0 (path @ [0]) pg"

text \<open>The path is the string up to its terminator.\<close>

definition open_file :: "u8 list \<Rightarrow> u32 \<Rightarrow> i32 userprog" where
  "open_file path mode =
     (if MAXPATHLEN \<le> length path then ret (- E_BAD_PATH)
      else bindM fd_alloc (\<lambda>(r, fd).
        if is_neg r then ret r
        else thenM (set_request (\<lambda>pg. copy_path path (store4 (of_nat MAXPATHLEN) mode pg)))
          (bindM (fsipc FSREQ_OPEN (Some fd)) (\<lambda>r.
             if is_neg r then bindM (fd_close fd False) (\<lambda>_. ret r) else ret (fd2num fd)))))"

definition stat :: "u8 list \<Rightarrow> (i32 \<times> Stat option) userprog" where
  "stat path =
     bindM (open_file path O_RDONLY) (\<lambda>fd.
       if is_neg fd then ret (fd, None)
       else bindM (fstat fd) (\<lambda>r. bindM (close fd) (\<lambda>_. ret r)))"

definition remove :: "u8 list \<Rightarrow> i32 userprog" where
  "remove path =
     (if MAXPATHLEN \<le> length path then ret (- E_BAD_PATH)
      else thenM (set_request (copy_path path)) (fsipc FSREQ_REMOVE None))"

definition sync :: "i32 userprog" where
  "sync = fsipc FSREQ_SYNC None"

end
