(* ===== verification/Jos_Fd_Inv.thy ===== *)
theory Jos_Fd_Inv
  imports Jos_Fd
begin

text \<open>
  The reference counts that tell the server which files are open. \<open>fd_refs_ok\<close> relates the count
  of a slot to the addresses at which the program maps its page: the server holds one reference
  from the first allocation on, every mapping holds another one. All calls of the descriptor layer
  keep it, so a slot that is still mapped is never handed out again.
\<close>

section \<open>The invariant\<close>

definition shown_at :: "world \<Rightarrow> nat \<Rightarrow> u32 set" where
  "shown_at w i = {a. upages w a = Some (SlotPage i)}"

definition fd_refs_ok :: "world \<Rightarrow> bool" where
  "fd_refs_ok w \<longleftrightarrow> (\<forall>i. if fd_ref (srv w) i = 0 then shown_at w i = {}
     else fd_ref (srv w) i = Suc (card (shown_at w i)))"

definition same_refs :: "server \<Rightarrow> server \<Rightarrow> bool" where
  "same_refs s t \<longleftrightarrow> (\<forall>i. fd_ref t i = fd_ref s i \<or> (fd_ref s i = 0 \<and> fd_ref t i = 1))"

lemma fd_refs_ok_alloc:
  assumes "fd_refs_ok w" and "same_refs (srv w) (srv v)" and "upages v = upages w"
  shows "fd_refs_ok v"
proof -
  have s: "shown_at v i = shown_at w i" for i by (simp add: shown_at_def assms(3))
  show ?thesis
    unfolding fd_refs_ok_def s
  proof
    fix i
    show "if fd_ref (srv v) i = 0 then shown_at w i = {} else fd_ref (srv v) i = Suc (card (shown_at w i))"
      using assms(1)[unfolded fd_refs_ok_def, rule_format, of i] assms(2)[unfolded same_refs_def, rule_format, of i]
      by (auto split: if_splits)
  qed
qed

lemma unmap_page_refs: "fd_refs_ok w \<Longrightarrow> fd_refs_ok (unmap_page a w)"
proof -
  assume ok: "fd_refs_ok w"
  have other: "shown_at (unmap_page a w) i = shown_at w i - {a}" for i
    by (auto simp: unmap_page_def shown_at_def split: option.splits upage.splits if_splits)
  show ?thesis
    unfolding fd_refs_ok_def other
  proof
    fix i
    have fin: "finite (shown_at w i)" by simp
    show "if fd_ref (srv (unmap_page a w)) i = 0 then shown_at w i - {a} = {}
      else fd_ref (srv (unmap_page a w)) i = Suc (card (shown_at w i - {a}))"
    proof (cases "upages w a = Some (SlotPage i)")
      case True
      then have a: "a \<in> shown_at w i" by (simp add: shown_at_def)
      then have "fd_ref (srv w) i = Suc (card (shown_at w i))"
        using ok[unfolded fd_refs_ok_def, rule_format, of i] by (auto split: if_splits)
      moreover have "0 < card (shown_at w i)" using a fin by (auto simp: card_gt_0_iff)
      ultimately show ?thesis
        using True a by (simp add: unmap_page_def card_Diff_singleton)
    next
      case False
      then have "shown_at w i - {a} = shown_at w i" by (simp add: shown_at_def)
      moreover have "fd_ref (srv (unmap_page a w)) i = fd_ref (srv w) i"
        using False by (auto simp: unmap_page_def split: option.splits upage.splits)
      ultimately show ?thesis using ok[unfolded fd_refs_ok_def, rule_format, of i] by simp
    qed
  qed
qed

lemma unmap_page_at [simp]: "upages (unmap_page a w) a = None"
  by (simp add: unmap_page_def split: option.splits upage.splits)

lemma unmap_page_allocated: "fd_refs_ok w \<Longrightarrow> fd_ref (srv w) i \<noteq> 0 \<Longrightarrow> fd_ref (srv (unmap_page a w)) i \<noteq> 0"
proof (cases "upages w a = Some (SlotPage i)")
  case True
  assume ok: "fd_refs_ok w"
  have m: "a \<in> shown_at w i" using True by (simp add: shown_at_def)
  then have "0 < card (shown_at w i)" by (auto simp: card_gt_0_iff)
  moreover have "fd_ref (srv w) i = Suc (card (shown_at w i))"
    using ok[unfolded fd_refs_ok_def, rule_format, of i] m by (auto split: if_splits)
  ultimately have "1 < fd_ref (srv w) i" by simp
  then show ?thesis using True by (simp add: unmap_page_def)
qed (auto simp: unmap_page_def split: option.splits upage.splits)

lemma map_page_refs:
  assumes ok: "fd_refs_ok w" and p: "\<And>i. p = SlotPage i \<Longrightarrow> fd_ref (srv w) i \<noteq> 0"
  shows "fd_refs_ok (map_page a p w)"
proof -
  define v where "v = unmap_page a w"
  have okv: "fd_refs_ok v" unfolding v_def by (rule unmap_page_refs [OF ok])
  have va: "upages v a = None" by (simp add: v_def)
  have sh: "shown_at (map_page a p w) i = (if p = SlotPage i then insert a (shown_at v i) else shown_at v i)" for i
    using va by (auto simp: map_page_def v_def [symmetric] Let_def shown_at_def split: upage.splits if_splits)
  have an: "a \<notin> shown_at v i" for i using va by (simp add: shown_at_def)
  have rf: "fd_ref (srv (map_page a p w)) i = fd_ref (srv v) i + (if p = SlotPage i then 1 else 0)" for i
    by (simp add: map_page_def v_def [symmetric] Let_def split: upage.splits)
  have pv: "fd_ref (srv v) i \<noteq> 0" if "p = SlotPage i" for i
    using unmap_page_allocated [OF ok p [OF that]] by (simp add: v_def)
  show ?thesis
    unfolding fd_refs_ok_def sh rf
  proof
    fix i
    show "if fd_ref (srv v) i + (if p = SlotPage i then 1 else 0) = 0
      then (if p = SlotPage i then insert a (shown_at v i) else shown_at v i) = {}
      else fd_ref (srv v) i + (if p = SlotPage i then 1 else 0)
        = Suc (card (if p = SlotPage i then insert a (shown_at v i) else shown_at v i))"
      using okv[unfolded fd_refs_ok_def, rule_format, of i] pv [of i] an [of i] by (auto split: if_splits)
  qed
qed

text \<open>A page that is mapped somewhere belongs to an allocated slot.\<close>

lemma mapped_allocated: "fd_refs_ok w \<Longrightarrow> upages w a = Some (SlotPage i) \<Longrightarrow> 2 \<le> fd_ref (srv w) i"
proof -
  assume ok: "fd_refs_ok w" and a: "upages w a = Some (SlotPage i)"
  have m: "a \<in> shown_at w i" using a by (simp add: shown_at_def)
  then have "0 < card (shown_at w i)" by (auto simp: card_gt_0_iff)
  then show ?thesis using ok[unfolded fd_refs_ok_def, rule_format, of i] m by (auto split: if_splits)
qed

section \<open>The server\<close>

text \<open>\<open>taken i s\<close>: slot \<open>i\<close> is given a new identifier and a fresh page.\<close>

definition taken :: "nat \<Rightarrow> server \<Rightarrow> server" where
  "taken i s = s\<lparr>opentab := (opentab s)(i := (opentab s i)\<lparr>o_fileid := o_fileid (opentab s i) + 1024\<rparr>),
     fd_page := (fd_page s)(i := zero_fd), fd_ref := (fd_ref s)(i := 1)\<rparr>"

lemma openfile_search:
  "firstM is (\<lambda>i. bindM (getsM (\<lambda>s. fd_ref s i)) (\<lambda>n.
       if n = 0 then bindM (fd_page_alloc i) (\<lambda>r.
           if is_neg r then ret (Some (r, i)) else bindM (claim_slot i) (\<lambda>x. ret (Some x)))
       else if n = 1 then bindM (claim_slot i) (\<lambda>x. ret (Some x))
       else ret None)) s =
   (case find (\<lambda>i. fd_ref s i \<le> 1) is of
      None \<Rightarrow> (Ret None, s)
    | Some i \<Rightarrow> if fd_ref s i = 0 \<and> \<not> fd_grants s i then (Ret (Some (- E_NO_MEM, i)), s)
        else (Ret (Some (o_fileid (opentab s i) + 1024, i)), taken i s))"
proof (induction "is")
  case (Cons i "is")
  have claim: "claim_slot i t = (Ret (o_fileid (opentab t i) + 1024, i), (taken i t)\<lparr>fd_ref := fd_ref t\<rparr>)" for t
    by (simp add: claim_slot_def taken_def upd_open_def upd_fd_def MAXOPEN_def)
  have one: "(taken i s)\<lparr>fd_ref := fd_ref s\<rparr> = taken i s" if "fd_ref s i = Suc 0"
    using that by (simp add: taken_def fun_upd_idem)
  show ?case
    using Cons.IH one by (auto simp: fd_page_alloc_def claim is_neg_def E_NO_MEM_def taken_def)
qed simp

lemma openfile_alloc_run:
  "openfile_alloc s = (case find (\<lambda>i. fd_ref s i \<le> 1) [0 ..< 1024] of
      None \<Rightarrow> (Ret (- E_MAX_OPEN, 0), s)
    | Some i \<Rightarrow> if fd_ref s i = 0 \<and> \<not> fd_grants s i then (Ret (- E_NO_MEM, i), s)
        else (Ret (o_fileid (opentab s i) + 1024, i), taken i s))"
  unfolding openfile_alloc_def MAXOPEN_def
  by (simp add: openfile_search del: upt_conv_Cons upt_rec_numeral split: option.splits)

text \<open>Everything else leaves the counts alone.\<close>

definition refs_kept :: "'a srvprog \<Rightarrow> bool" where
  "refs_kept m \<longleftrightarrow> (\<forall>s. fd_ref (snd (m s)) = fd_ref s)"

named_theorems kept_intros

lemma refs_keptD: "refs_kept m \<Longrightarrow> m s = (r, t) \<Longrightarrow> fd_ref t = fd_ref s"
  unfolding refs_kept_def by (metis snd_conv)

lemma kept_bind [kept_intros]:
  assumes m: "refs_kept m" and f: "\<And>x. refs_kept (f x)"
  shows "refs_kept (bindM m f)"
  unfolding refs_kept_def
proof
  fix s
  obtain r t where e: "m s = (r, t)" by (cases "m s")
  show "fd_ref (snd (bindM m f s)) = fd_ref s"
    using refs_keptD [OF m e] refs_keptD [OF f, of _ t] by (cases r) (auto simp: e intro: prod.collapse [symmetric])
qed

lemma kept_then [kept_intros]: "refs_kept m \<Longrightarrow> refs_kept k \<Longrightarrow> refs_kept (thenM m k)"
  unfolding thenM_def by (rule kept_bind)

lemma kept_simple [kept_intros]:
  "refs_kept (ret x)" "refs_kept (stop e)" "refs_kept (getsM g)" "refs_kept (in_fs p)"
  "refs_kept (modifyM (upd_fd i u))" "refs_kept (modifyM (upd_open i v))"
  "refs_kept (openfile_lookup fileid)"
  by (auto simp: refs_kept_def in_fs_def upd_fd_def upd_open_def openfile_lookup_def Let_def split: prod.splits)

lemma kept_when [kept_intros]: "refs_kept m \<Longrightarrow> refs_kept (whenM b m)"
  by (simp add: refs_kept_def)

lemma kept_if [kept_intros]: "refs_kept m \<Longrightarrow> refs_kept k \<Longrightarrow> refs_kept (if b then m else k)"
  by simp

lemma kept_handlers: "handlers req = Some h \<Longrightarrow> refs_kept (h pg)"
  unfolding handlers_def serve_set_size_def serve_read_def serve_write_def serve_stat_def serve_flush_def
    serve_remove_def serve_sync_def with_open_def Let_def
  by (auto split: if_splits prod.splits intro!: kept_intros)

lemma serve_open_split:
  obtains K where "serve_open pg = bindM openfile_alloc K" "\<And>n j. refs_kept (K (n, j))"
    "\<And>n j u x i t. K (n, j) u = (Ret (x, Some i), t) \<Longrightarrow> i = j \<and> \<not> is_neg n"
proof (rule that)
  show "serve_open pg = bindM openfile_alloc (\<lambda>x. case x of (r, i) \<Rightarrow>
      if is_neg r then ret (r, None)
      else bindM
        (if load4 (of_nat MAXPATHLEN) pg AND O_CREAT \<noteq> 0 then
           bindM (in_fs (file_create (req_path pg))) (\<lambda>(r, f).
             if is_neg r \<and> load4 (of_nat MAXPATHLEN) pg AND O_EXCL = 0 \<and> r = - E_FILE_EXISTS
             then in_fs (file_open (req_path pg)) else ret (r, f))
         else in_fs (file_open (req_path pg))) (\<lambda>(r, f).
      if is_neg r then ret (r, None)
      else bindM (if load4 (of_nat MAXPATHLEN) pg AND O_TRUNC \<noteq> 0 then in_fs (file_set_size f 0) else ret 0) (\<lambda>r.
      if is_neg r then ret (r, None)
      else thenM (modifyM (\<lambda>s. upd_fd i (\<lambda>fd. fd\<lparr>fd_file_id := o_fileid (opentab s i),
            fd_omode := load4 (of_nat MAXPATHLEN) pg AND O_ACCMODE, fd_dev_id := devfile_id\<rparr>)
          (upd_open i (\<lambda>x. x\<lparr>o_file := f, o_mode := load4 (of_nat MAXPATHLEN) pg\<rparr>) s)))
        (ret (0, Some i)))))" (is "_ = bindM _ ?K")
    by (simp add: serve_open_def Let_def)
  show "refs_kept (?K (n, j))" for n j
  proof -
    have "refs_kept (modifyM (\<lambda>s. upd_fd j (u s) (upd_open j v s)))" for u v
      by (simp add: refs_kept_def upd_fd_def upd_open_def)
    then show ?thesis by (auto intro!: kept_intros split: prod.splits)
  qed
  show "?K (n, j) u = (Ret (x, Some i), t) \<Longrightarrow> i = j \<and> \<not> is_neg n" for n j u x i t
    by (auto split: if_splits prod.splits outcome.splits)
qed

lemma serve_open_refs:
  assumes e: "serve_open pg s = (r, t)"
  shows "same_refs s t" and "r = Ret (x, Some i) \<Longrightarrow> fd_ref t i \<noteq> 0"
proof -
  obtain K where K: "serve_open pg = bindM openfile_alloc K" "\<And>n j. refs_kept (K (n, j))"
    "\<And>n j u x i t. K (n, j) u = (Ret (x, Some i), t) \<Longrightarrow> i = j \<and> \<not> is_neg n"
    by (rule serve_open_split [of pg]) (rule that)
  have "\<exists>n j u. openfile_alloc s = (Ret (n, j), u) \<and> same_refs s u \<and> (is_neg n \<or> fd_ref u j \<noteq> 0)"
  proof (cases "find (\<lambda>i. fd_ref s i \<le> 1) [0 ..< 1024]")
    case (Some i)
    then have "fd_ref s i \<le> 1" by (auto simp: find_Some_iff)
    then show ?thesis
      unfolding openfile_alloc_run Some
      by (auto simp: same_refs_def taken_def is_neg_def E_NO_MEM_def)
  qed (auto simp: openfile_alloc_run same_refs_def is_neg_def E_MAX_OPEN_def)
  then obtain n j u where o': "openfile_alloc s = (Ret (n, j), u)" "same_refs s u" "is_neg n \<or> fd_ref u j \<noteq> 0"
    by blast
  have k: "K (n, j) u = (r, t)" using e o'(1) by (simp add: K(1))
  have t: "fd_ref t = fd_ref u" by (rule refs_keptD [OF K(2) k])
  show "same_refs s t" using o'(2) by (simp add: same_refs_def t)
  show "fd_ref t i \<noteq> 0" if "r = Ret (x, Some i)"
    using K(3) [OF k [unfolded that]] o'(3) by (simp add: t)
qed

lemma serve_request_refs:
  assumes "serve_request req pg s = (r, t)"
  shows "same_refs s t" and "r = Ret (x, Some i, pg') \<Longrightarrow> fd_ref t i \<noteq> 0"
proof -
  have "same_refs s t \<and> (\<forall>x i pg'. r = Ret (x, Some i, pg') \<longrightarrow> fd_ref t i \<noteq> 0)"
  proof (cases "req = FSREQ_OPEN")
    case True
    then show ?thesis
      using assms serve_open_refs [of pg s] by (auto simp: serve_request_def split: prod.splits outcome.splits)
  next
    case False
    then show ?thesis
      using assms kept_handlers [of req _ pg, THEN refs_keptD, of _ s]
      by (fastforce simp: serve_request_def same_refs_def split: prod.splits outcome.splits option.splits)
  qed
  then show "same_refs s t" "r = Ret (x, Some i, pg') \<Longrightarrow> fd_ref t i \<noteq> 0" by blast+
qed

section \<open>The calls of a program\<close>

definition refs_inv :: "'a userprog \<Rightarrow> bool" where
  "refs_inv m \<longleftrightarrow> spec fd_refs_ok m (\<lambda>_. fd_refs_ok) (\<lambda>_. fd_refs_ok)"

named_theorems refs_intros

lemma refs_bind [refs_intros]: "refs_inv m \<Longrightarrow> (\<And>x. refs_inv (f x)) \<Longrightarrow> refs_inv (bindM m f)"
  unfolding refs_inv_def by (rule spec_bind)

lemma refs_then [refs_intros]: "refs_inv m \<Longrightarrow> refs_inv k \<Longrightarrow> refs_inv (thenM m k)"
  unfolding refs_inv_def by (rule spec_then)

lemma refs_simple [refs_intros]:
  "refs_inv (ret x)" "refs_inv (stop e)" "refs_inv (getsM g)" "refs_inv (modifyM (unmap_page a))"
  "refs_inv (the_fd a)" "refs_inv (set_request v)" "refs_inv (modifyM (\<lambda>w. w\<lparr>fsipcbuf := pg\<rparr>))"
  "refs_inv (set_fd a u)"
proof -
  show "refs_inv (modifyM (unmap_page a))" by (simp add: refs_inv_def spec_def unmap_page_refs)
  show "refs_inv (ret x)" "refs_inv (stop e)" "refs_inv (getsM g)"
    "refs_inv (the_fd a)" "refs_inv (set_request v)" "refs_inv (modifyM (\<lambda>w. w\<lparr>fsipcbuf := pg\<rparr>))"
    "refs_inv (set_fd a u)"
    by (auto simp: refs_inv_def spec_def the_fd_def set_fd_def set_request_def fd_refs_ok_def shown_at_def upd_fd_def
        split: option.splits upage.splits)
qed

lemma refs_if [refs_intros]: "refs_inv m \<Longrightarrow> refs_inv k \<Longrightarrow> refs_inv (if b then m else k)"
  by simp

lemma refs_when [refs_intros]: "refs_inv m \<Longrightarrow> refs_inv (whenM b m)"
  by (simp add: whenM_def refs_simple)

lemma refs_fsipc [refs_intros]: "refs_inv (fsipc req dst)"
  unfolding refs_inv_def
proof (rule specI)
  fix w r v
  have sr: "fd_refs_ok (w\<lparr>srv := t, fsipcbuf := pg\<rparr>)" if "fd_refs_ok w" "same_refs (srv w) t" for t pg
    by (rule fd_refs_ok_alloc [OF that(1)]) (simp_all add: that)
  show "fd_refs_ok w \<Longrightarrow> fsipc req dst w = (Ret r, v) \<Longrightarrow> fd_refs_ok v"
    using serve_request_refs [of req "fsipcbuf w" "srv w"] sr
    by (auto simp: fsipc_def in_srv_def intro!: map_page_refs split: prod.splits outcome.splits option.splits if_splits)
  show "fd_refs_ok w \<Longrightarrow> fsipc req dst w = (Stop x, v) \<Longrightarrow> fd_refs_ok v" for x
    using serve_request_refs [of req "fsipcbuf w" "srv w"] sr [of _ "fsipcbuf w"] sr
    by (auto simp: fsipc_def in_srv_def split: prod.splits outcome.splits option.splits if_splits)
qed

lemma refs_devfile [refs_intros]:
  "refs_inv (devfile_flush a)" "refs_inv (devfile_read a n)" "refs_inv (devfile_write a buf n)"
  "refs_inv (devfile_stat a)" "refs_inv (devfile_trunc a n)"
  unfolding devfile_flush_def devfile_read_def devfile_write_def devfile_stat_def devfile_trunc_def Let_def
  by (auto intro!: refs_intros)

lemma refs_lookup [refs_intros]: "refs_inv (fd_lookup fdnum)" "refs_inv fd_alloc"
proof -
  show "refs_inv (fd_lookup fdnum)" unfolding fd_lookup_def by (auto intro!: refs_intros)
  have "refs_inv (firstM is (\<lambda>i. getsM (g i)))" for g :: "nat \<Rightarrow> world \<Rightarrow> u32 option" and "is"
  proof (induction "is")
    case Nil
    show ?case unfolding firstM.simps by (rule refs_simple)
  next
    case (Cons i "is")
    have "refs_inv (case r of None \<Rightarrow> firstM is (\<lambda>i. getsM (g i)) | Some a \<Rightarrow> ret (Some a))" for r
      using Cons.IH by (cases r) (simp_all only: option.case refs_simple)
    then show ?case unfolding firstM.simps by (intro refs_bind refs_simple)
  qed
  then show "refs_inv fd_alloc" unfolding fd_alloc_def by (auto intro!: refs_intros)
qed

lemma refs_close [refs_intros]: "refs_inv (fd_close a b)" "refs_inv (close n)" "refs_inv close_all"
proof -
  show "refs_inv (fd_close a b)" for a b unfolding fd_close_def by (auto intro!: refs_intros)
  then show "refs_inv (close n)" for n unfolding close_def by (auto intro!: refs_intros)
  then have "refs_inv (bindM (close n) (\<lambda>_. ret ()))" for n by (auto intro!: refs_intros)
  then show "refs_inv close_all" unfolding close_all_def refs_inv_def by (intro spec_forM) simp
qed

lemma refs_page_map [refs_intros]: "refs_inv (page_map_self a b)" "refs_inv (page_unmap_self a)"
proof -
  have "fd_ref (srv w) i \<noteq> 0" if "fd_refs_ok w" "upages w a = Some (SlotPage i)" for w i
    using mapped_allocated [OF that] by simp
  then have "fd_refs_ok (map_page b p w)" if "fd_refs_ok w" "upages w a = Some p" for w p
    using that by (intro map_page_refs) auto
  then show "refs_inv (page_map_self a b)"
    by (auto simp: refs_inv_def spec_def page_map_self_def split: option.splits)
  show "refs_inv (page_unmap_self a)" unfolding page_unmap_self_def by (auto intro!: refs_intros)
qed

lemma refs_dup [refs_intros]: "refs_inv (dup a b)"
  unfolding dup_def Let_def by (auto intro!: refs_intros)

lemma refs_with_fd [refs_intros]: "(\<And>a d. refs_inv (k a d)) \<Longrightarrow> refs_inv (with_fd fdnum x k)"
  unfolding with_fd_def by (auto intro!: refs_intros)

lemma refs_io [refs_intros]:
  "refs_inv (read fdnum n)" "refs_inv (write_fd fdnum buf n)" "refs_inv (seek fdnum n)"
  "refs_inv (ftruncate fdnum n)" "refs_inv (fstat fdnum)"
  unfolding read_def write_fd_def seek_def ftruncate_def fstat_def by (auto intro!: refs_intros)

lemma refs_readn_loop: "refs_inv (readn_loop fuel fdnum n tot)"
proof (induction fuel arbitrary: tot)
  case 0
  show ?case unfolding readn_loop.simps by (rule refs_simple)
next
  case (Suc fuel)
  show ?case unfolding readn_loop.simps by (auto intro!: refs_intros Suc.IH)
qed

lemma refs_files [refs_intros]:
  "refs_inv (readn fdnum n)" "refs_inv (open_file path mode)" "refs_inv (stat path)" "refs_inv (remove path)"
  "refs_inv sync"
proof -
  show op: "refs_inv (open_file path mode)" for path mode unfolding open_file_def by (auto intro!: refs_intros)
  show "refs_inv (readn fdnum n)" unfolding readn_def by (rule refs_readn_loop)
  show "refs_inv (stat path)" unfolding stat_def by (auto intro!: refs_intros op)
  show "refs_inv (remove path)" "refs_inv sync" unfolding remove_def sync_def by (auto intro!: refs_intros)
qed

text \<open>What a program can ask of the layer, in any order.\<close>

datatype fd_call =
    CallOpen "u8 list" u32
  | CallClose i32
  | CallCloseAll
  | CallDup i32 i32
  | CallRead i32 u32
  | CallReadn i32 u32
  | CallWrite i32 "nat \<Rightarrow> u8" u32
  | CallSeek i32 u32
  | CallFtruncate i32 u32
  | CallFstat i32
  | CallStat "u8 list"
  | CallRemove "u8 list"
  | CallSync

fun do_call :: "fd_call \<Rightarrow> unit userprog" where
  "do_call (CallOpen path mode) = thenM (open_file path mode) (ret ())"
| "do_call (CallClose fdnum) = thenM (close fdnum) (ret ())"
| "do_call CallCloseAll = close_all"
| "do_call (CallDup a b) = thenM (dup a b) (ret ())"
| "do_call (CallRead fdnum n) = thenM (read fdnum n) (ret ())"
| "do_call (CallReadn fdnum n) = thenM (readn fdnum n) (ret ())"
| "do_call (CallWrite fdnum buf n) = thenM (write_fd fdnum buf n) (ret ())"
| "do_call (CallSeek fdnum n) = thenM (seek fdnum n) (ret ())"
| "do_call (CallFtruncate fdnum n) = thenM (ftruncate fdnum n) (ret ())"
| "do_call (CallFstat fdnum) = thenM (fstat fdnum) (ret ())"
| "do_call (CallStat path) = thenM (stat path) (ret ())"
| "do_call (CallRemove path) = thenM (remove path) (ret ())"
| "do_call CallSync = thenM sync (ret ())"

lemma refs_do_call: "refs_inv (do_call c)"
  by (cases c) (simp_all only: do_call.simps refs_intros)

text \<open>Before the first call no slot page is mapped, and the server holds at most its own references.\<close>

definition nothing_open :: "world \<Rightarrow> bool" where
  "nothing_open w \<longleftrightarrow> (\<forall>i. shown_at w i = {} \<and> fd_ref (srv w) i \<le> 1)"

lemma calls_refs:
  assumes "nothing_open w" and "forM cs do_call w = (Ret u, v)"
  shows "fd_refs_ok v"
proof -
  have "fd_refs_ok w"
    unfolding fd_refs_ok_def
  proof
    fix i
    show "if fd_ref (srv w) i = 0 then shown_at w i = {} else fd_ref (srv w) i = Suc (card (shown_at w i))"
      using assms(1)[unfolded nothing_open_def, rule_format, of i] by auto
  qed
  moreover have "spec fd_refs_ok (forM cs do_call) (\<lambda>_. fd_refs_ok) (\<lambda>_. fd_refs_ok)"
    by (rule spec_forM) (rule refs_do_call [unfolded refs_inv_def])
  ultimately show ?thesis using assms(2) by (blast dest: specD_Ret)
qed

lemma alloc_not_mapped:
  assumes "fd_refs_ok v" and "upages v a = Some (SlotPage i)" and "openfile_alloc (srv v) = (Ret (r, j), s)" and "\<not> is_neg r"
  shows "i \<noteq> j"
proof
  assume "i = j"
  then have "2 \<le> fd_ref (srv v) j" using mapped_allocated [OF assms(1,2)] by simp
  then show False
    using assms(3,4)
    by (auto simp: openfile_alloc_run find_Some_iff is_neg_def E_MAX_OPEN_def split: option.splits if_splits)
qed

section \<open>Closing\<close>

definition id_requests :: "u32 set" where
  "id_requests = {FSREQ_SET_SIZE, FSREQ_READ, FSREQ_WRITE, FSREQ_STAT, FSREQ_FLUSH}"

lemma request_rejected:
  assumes "req \<in> id_requests"
    and "fd_ref s (unat (load4 0 pg mod 1024)) = 1 \<or> o_fileid (opentab s (unat (load4 0 pg mod 1024))) \<noteq> load4 0 pg"
  shows "serve_request req pg s = (Ret (- E_INVAL, None, pg), s)"
proof -
  have l: "with_open pg k s = (Ret (- E_INVAL, pg), s)" for k
    using assms(2) by (auto simp: with_open_def openfile_lookup_def MAXOPEN_def is_neg_def E_INVAL_def Let_def)
  show ?thesis
    using assms(1)
    by (auto simp: id_requests_def serve_request_def handlers_def FSREQ_OPEN_def FSREQ_SET_SIZE_def FSREQ_READ_def
        FSREQ_WRITE_def FSREQ_STAT_def FSREQ_FLUSH_def serve_set_size_def serve_read_def serve_write_def serve_stat_def
        serve_flush_def l)
qed

text \<open>Requests that bring no page back leave the mappings alone.\<close>

lemma fsipc_pages:
  assumes "fsipc req None w = (r, v)" and "req \<noteq> FSREQ_OPEN"
  shows "upages v = upages w" "fd_ref (srv v) = fd_ref (srv w)"
proof -
  have "fd_ref t = fd_ref (srv w)" if "serve_request req (fsipcbuf w) (srv w) = (x, t)" for x t
    using that assms(2) kept_handlers [of req _ "fsipcbuf w", THEN refs_keptD, of _ "srv w"]
    by (fastforce simp: serve_request_def split: prod.splits outcome.splits option.splits)
  then show "upages v = upages w" "fd_ref (srv v) = fd_ref (srv w)"
    using assms(1) by (auto simp: fsipc_def in_srv_def split: prod.splits outcome.splits option.splits)
qed

lemma fd_number:
  assumes "0 \<le> sint n" and "sint n < 32"
  shows "fd2num (INDEX2FD n) = n" "\<And>m. 0 \<le> sint m \<Longrightarrow> sint m < 32 \<Longrightarrow> INDEX2FD m = INDEX2FD n \<Longrightarrow> m = n"
proof -
  have n: "unat k < 32" if "0 \<le> sint k" "sint k < 32" for k :: i32
  proof -
    have "uint k = sint k" using that by (simp add: uint_sint take_bit_eq_mod)
    then show ?thesis using that(2) by (simp add: nat_less_iff flip: nat_uint_eq)
  qed
  have m: "unat (k * PGSIZE) = unat k * 4096" if "unat k < 32" for k :: i32
    using that by (simp add: PGSIZE_def unat_word_ariths)
  have e: "fd2num (INDEX2FD k) = k" if "0 \<le> sint k" "sint k < 32" for k
  proof -
    have "unat (k * PGSIZE div PGSIZE) = unat k"
      using m [OF n [OF that]] by (simp add: unat_div PGSIZE_def)
    then show ?thesis by (simp add: fd2num_def INDEX2FD_def word_unat_eq_iff)
  qed
  show "fd2num (INDEX2FD n) = n" by (rule e [OF assms])
  fix m :: i32
  assume m: "0 \<le> sint m" "sint m < 32" "INDEX2FD m = INDEX2FD n"
  show "m = n" using e [OF m(1,2)] e [OF assms] m(3) by metis
qed

text \<open>
  A descriptor of an open file: its page shows slot \<open>i\<close> and carries the identifier the server
  has in that slot.
\<close>

definition is_open :: "world \<Rightarrow> i32 \<Rightarrow> nat \<Rightarrow> bool" where
  "is_open w n i \<longleftrightarrow> 0 \<le> sint n \<and> sint n < 32 \<and> i < 1024 \<and> upages w (INDEX2FD n) = Some (SlotPage i)
     \<and> fd_ref (srv w) i \<noteq> 1 \<and> fd_dev_id (fd_page (srv w) i) = devfile_id
     \<and> fd_file_id (fd_page (srv w) i) = o_fileid (opentab (srv w) i)
     \<and> unat (o_fileid (opentab (srv w) i)) mod 1024 = i"

lemma fd_lookup_open: "is_open w n i \<Longrightarrow> fd_lookup n w = (Ret (0, INDEX2FD n), w)"
  by (auto simp: is_open_def fd_lookup_def MAXFD_def)

lemma the_fd_open: "is_open w n i \<Longrightarrow> the_fd (INDEX2FD n) w = (Ret (fd_page (srv w) i), w)"
  by (simp add: is_open_def the_fd_def)

lemma close_last:
  assumes ok: "fd_refs_ok w" and op: "is_open w n i" and last: "shown_at w i = {INDEX2FD n}"
    and run: "close n w = (Ret r, v)"
  shows "fd_ref (srv v) i = 1" and "upages v = (upages w)(INDEX2FD n := None)" and "fd_refs_ok v"
proof -
  have lk: "fd_lookup n w = (Ret (0, INDEX2FD n), w)" by (rule fd_lookup_open [OF op])
  have num: "fd2num (INDEX2FD n) = n" using op by (intro fd_number) (simp_all add: is_open_def)
  have dev: "\<not> is_neg (dev_lookup (fd_dev_id (fd_page (srv w) i)))"
    using op by (simp add: is_open_def dev_lookup_def is_neg_def)
  obtain u where u: "devfile_flush (INDEX2FD n) w = (Ret r, u)" "v = unmap_page (INDEX2FD n) u"
    using run lk num dev the_fd_open [OF op]
    by (auto simp: close_def fd_close_def is_neg_def split: prod.splits outcome.splits)
  have k: "upages u = upages w" "fd_ref (srv u) = fd_ref (srv w)"
    using u(1) fsipc_pages [of FSREQ_FLUSH _ "Ret r" u] the_fd_open [OF op]
    by (auto simp: devfile_flush_def set_request_def FSREQ_FLUSH_def FSREQ_OPEN_def)
  have at: "upages u (INDEX2FD n) = Some (SlotPage i)" using op k by (simp add: is_open_def)
  have "fd_ref (srv w) i = Suc (card {INDEX2FD n})"
    using ok[unfolded fd_refs_ok_def, rule_format, of i] last by (auto split: if_splits)
  then show "fd_ref (srv v) i = 1" using at k by (simp add: u(2) unmap_page_def)
  show "upages v = (upages w)(INDEX2FD n := None)" using at k by (simp add: u(2) unmap_page_def)
  have "fd_refs_ok u" by (rule fd_refs_ok_alloc [OF ok]) (simp_all add: k same_refs_def)
  then show "fd_refs_ok v" unfolding u(2) by (rule unmap_page_refs)
qed

end
