(* ===== verification/Jos_Fs_Flush.thy ===== *)
theory Jos_Fs_Flush
  imports Jos_Fs_Sync
begin

text \<open>
  What \<^verbatim>\<open>file_flush\<close> achieves: afterwards the record of the file, its indirect block and
  all its blocks are on the disk. \<open>saves m s x A\<close>: the program returns \<open>x\<close>, leaves the
  image as it is, brings the pages \<open>A\<close> to the disk and spoils nothing that was there already.
\<close>

definition saves :: "'a fsprog \<Rightarrow> fsys \<Rightarrow> 'a \<Rightarrow> nat set \<Rightarrow> bool" where
  "saves m s x A \<longleftrightarrow> (\<exists>t. m s = (Ret x, t) \<and> bc_ok t \<and> fsmem t = fsmem s
     \<and> (\<forall>y. \<not> outside_cache y \<longrightarrow> on_disk t y = (if PGNUM y \<in> A then fsmem s y else on_disk s y)))"

lemma saves_bind:
  assumes "saves m s x A" and "\<And>t. bc_ok t \<Longrightarrow> fsmem t = fsmem s \<Longrightarrow> saves (f x) t y B"
  shows "saves (bindM m f) s y (A \<union> B)"
proof -
  obtain t where t: "m s = (Ret x, t)" "bc_ok t" "fsmem t = fsmem s"
    "\<And>y. \<not> outside_cache y \<Longrightarrow> on_disk t y = (if PGNUM y \<in> A then fsmem s y else on_disk s y)"
    using assms(1) by (auto simp: saves_def)
  obtain u where u: "f x t = (Ret y, u)" "bc_ok u" "fsmem u = fsmem t"
    "\<And>y. \<not> outside_cache y \<Longrightarrow> on_disk u y = (if PGNUM y \<in> B then fsmem t y else on_disk t y)"
    using assms(2) [OF t(2,3)] by (auto simp: saves_def)
  then show ?thesis using t by (auto simp: saves_def)
qed

lemma saves_then:
  assumes "saves m s x A" and "\<And>t. bc_ok t \<Longrightarrow> fsmem t = fsmem s \<Longrightarrow> saves k t y B"
  shows "saves (thenM m k) s y (A \<union> B)"
  unfolding thenM_def using assms by (rule saves_bind)

lemma saves_ret: "bc_ok s \<Longrightarrow> saves (ret x) s x {}"
  by (simp add: saves_def)

lemma saves_flush: "bc_ok s \<Longrightarrow> \<not> outside_cache a \<Longrightarrow> saves (flush_block a) s () {PGNUM a}"
  using flush_block_ok [of s a] by (simp add: saves_def)

lemma saves_load:
  assumes "bc_ok s" and "word_ok (fsmem s) a"
  shows "saves (fs_load32 a) s (load4 a (fsmem s)) {}"
proof -
  have a: "\<not> outside_cache a" "unat a mod 4 = 0" "block_used (fsmem s) (blockno_of a)"
    using assms(2) by (auto simp: word_ok_def)
  obtain t where "touch a s = (Ret (), t)" "grown s t" "va_is_mapped a t"
    using touch_ok [OF assms(1) a(1,3)] by blast
  then show ?thesis
    using load4_fsmem [OF a(2,1), of t]
    by (auto simp: saves_def fs_load32_def load_by_def touch_def grown_def on_disk_def)
qed

lemma saves_diskaddr:
  assumes "bc_ok s" and "datab (fsmem s) b"
  shows "saves (diskaddr b) s (DISKMAP + b * BLKSIZE) {}"
proof -
  have b: "b \<noteq> 0" "b < nblocks (fsmem s)"
    using datab_ne [OF bc_ok_pointers(3) [OF assms(1)] assms(2)] assms(2) by (auto simp: datab_def block_used_def)
  then have "diskaddr b s = (Ret (DISKMAP + b * BLKSIZE), s)"
    using super_nonzero [OF assms(1)] load_nblocks [OF assms(1)]
    by (simp add: diskaddr_def fs_load32_def leD')
  then show ?thesis using assms(1) by (simp add: saves_def)
qed

lemma saves_flush_data:
  assumes "bc_ok s" and "datab (fsmem s) b"
  shows "saves (bindM (diskaddr b) flush_block) s () {0x10000 + unat b}"
proof -
  have lt: "b < 0xC0000" by (rule datab_lt [OF bc_ok_pointers(3) [OF assms(1)] assms(2)])
  note bb = block_base [OF lt]
  have fl: "saves (flush_block (DISKMAP + b * BLKSIZE)) t () {PGNUM (DISKMAP + b * BLKSIZE)}" if "bc_ok t" for t
    using that bb(3) by (rule saves_flush)
  have p: "PGNUM (DISKMAP + b * BLKSIZE) = 0x10000 + unat b" using bb by simp
  have "saves (bindM (diskaddr b) flush_block) s () ({} \<union> {PGNUM (DISKMAP + b * BLKSIZE)})"
    by (rule saves_bind [OF saves_diskaddr [OF assms]]) (rule fl)
  then show ?thesis by (simp add: p)
qed

lemma saves_walk:
  assumes ok: "bc_ok s" and inv: "fsinv (fsmem s) F" and f: "f \<in> F" and i: "i < 1034"
  shows "saves (file_block_walk f (of_nat i) False) s
    (if has_cell (fsmem s) f i then (0, Some (cell (fsmem s) f i)) else (- E_NOT_FOUND, None)) {}"
proof (cases "i < 10")
  case True
  then show ?thesis
    using ok of_nat_NDIRECT(1) [of i] by (simp add: file_block_walk_def cell_def has_cell_def saves_def)
next
  case False
  let ?m = "fsmem s"
  have b: "(of_nat i :: u32) < NDIRECT \<longleftrightarrow> False" "(of_nat i :: u32) < NINDIRECT + NDIRECT \<longleftrightarrow> True"
    using i False of_nat_NDIRECT [of i] by simp_all
  have hc: "has_cell ?m f i \<longleftrightarrow> indirect ?m f \<noteq> 0" using i False by (simp add: has_cell_def)
  have ld: "saves (fs_load32 (f + f_indirect)) t (indirect ?m f) {}" if "bc_ok t" "fsmem t = ?m" for t
    using saves_load [OF that(1), of "f + f_indirect"] cell_ok(1) [OF inv f, of 1034] that(2)
    by (simp add: has_cell_def cell_def indirect_def)
  have "saves (file_block_walk f (of_nat i) False) s
    (if has_cell ?m f i then (0, Some (cell ?m f i)) else (- E_NOT_FOUND, None)) ({} \<union> {})"
    unfolding file_block_walk_def b if_False if_True
  proof (rule saves_bind [OF ld [OF ok refl]])
    fix t assume t: "bc_ok t" "fsmem t = ?m"
    have "saves (bindM (fs_load32 (f + f_indirect)) (\<lambda>ind. bindM (diskaddr ind) (\<lambda>a.
        ret (0, Some (a + 4 * (of_nat i - NDIRECT)))))) t (0, Some (cell ?m f i)) ({} \<union> ({} \<union> {}))"
      if ind: "indirect ?m f \<noteq> 0"
    proof (rule saves_bind [OF ld [OF t]], rule saves_bind)
      fix u assume u: "bc_ok u" "fsmem u = fsmem t"
      show "saves (diskaddr (indirect ?m f)) u (DISKMAP + indirect ?m f * BLKSIZE) {}"
        using saves_diskaddr [OF u(1)] indirect_datab [OF inv f ind] u(2) t(2) by simp
      show "saves (ret (0, Some (DISKMAP + indirect ?m f * BLKSIZE + 4 * (of_nat i - NDIRECT)))) v
        (0, Some (cell ?m f i)) {}" if "bc_ok v" for v
        using that False i of_nat_NDIRECT(3) [of i] by (simp add: saves_def cell_def)
    qed
    then show "saves (if indirect ?m f = 0 \<and> \<not> False then ret (- E_NOT_FOUND, None)
        else thenM (whenM (indirect ?m f = 0) (bindM alloc_block (\<lambda>blkno.
            thenM (fs_store32 (f + f_indirect) blkno)
              (bindM (diskaddr blkno) (\<lambda>a. fs_write_bytes a (replicate 4096 0))))))
          (bindM (fs_load32 (f + f_indirect)) (\<lambda>ind. bindM (diskaddr ind) (\<lambda>a.
            ret (0, Some (a + 4 * (of_nat i - NDIRECT))))))) t
        (if has_cell ?m f i then (0, Some (cell ?m f i)) else (- E_NOT_FOUND, None)) {}"
      unfolding hc using t(1) by (cases "indirect ?m f = 0") (simp_all add: saves_def)
  qed
  then show ?thesis by simp
qed

lemma saves_body:
  assumes ok: "bc_ok s" and inv: "fsinv (fsmem s) F" and f: "f \<in> F" and i: "i < 1034"
  shows "saves (bindM (file_block_walk f (of_nat i) False) (\<lambda>(r, slot).
      if is_neg r then ret ()
      else case slot of None \<Rightarrow> ret ()
        | Some p \<Rightarrow> bindM (fs_load32 p) (\<lambda>v. whenM (v \<noteq> 0) (bindM (diskaddr v) flush_block)))) s ()
    (if uses (fsmem s) f i = 0 then {} else {0x10000 + unat (uses (fsmem s) f i)})" (is "saves (bindM ?w ?k) s () ?A")
proof -
  let ?m = "fsmem s"
  have "saves (bindM ?w ?k) s () ({} \<union> ({} \<union> ?A))"
  proof (rule saves_bind [OF saves_walk [OF assms]])
    fix t assume t: "bc_ok t" "fsmem t = ?m"
    have fl: "saves (whenM (b \<noteq> 0) (bindM (diskaddr b) flush_block)) u () (if b = 0 then {} else {0x10000 + unat b})"
      if "bc_ok u" "fsmem u = ?m" "b = uses ?m f i" for u b
    proof (cases "b = 0")
      case True
      then show ?thesis using that(1) by (simp add: whenM_def saves_ret)
    next
      case False
      then show ?thesis using saves_flush_data [OF that(1)] fsinvD(6) [OF inv f, of i] i that by (simp add: whenM_def)
    qed
    show "saves (?k (if has_cell ?m f i then (0, Some (cell ?m f i)) else (- E_NOT_FOUND, None))) t () ({} \<union> ?A)"
    proof (cases "has_cell ?m f i")
      case True
      have u: "uses ?m f i = load4 (cell ?m f i) ?m" using True i by (simp add: has_cell_uses)
      have "saves (bindM (fs_load32 (cell ?m f i)) (\<lambda>v. whenM (v \<noteq> 0) (bindM (diskaddr v) flush_block))) t () ({} \<union> ?A)"
      proof (rule saves_bind)
        show "saves (fs_load32 (cell ?m f i)) t (uses ?m f i) {}"
          using saves_load [OF t(1), of "cell ?m f i"] cell_ok(1) [OF inv f True] by (simp add: t(2) u)
        show "saves (whenM (uses ?m f i \<noteq> 0) (bindM (diskaddr (uses ?m f i)) flush_block)) v () ?A"
          if "bc_ok v" "fsmem v = fsmem t" for v
          using fl [OF that(1)] that(2) t(2) by simp
      qed
      then show ?thesis using True by (simp add: is_neg_def)
    next
      case False
      then have "uses ?m f i = 0" using i by (simp add: has_cell_uses)
      then show ?thesis using False t(1) by (simp add: is_neg_def E_NOT_FOUND_def saves_ret)
    qed
  qed
  then show ?thesis by simp
qed

lemma saves_forM:
  assumes "bc_ok s" and "\<And>i t. i \<in> set is \<Longrightarrow> bc_ok t \<Longrightarrow> fsmem t = fsmem s \<Longrightarrow> saves (g i) t () (A i)"
  shows "saves (forM is g) s () (\<Union>i \<in> set is. A i)"
  using assms
proof (induction "is" arbitrary: s)
  case Nil
  then show ?case by (simp add: saves_def)
next
  case (Cons i "is")
  have "saves (thenM (g i) (forM is g)) s () (A i \<union> (\<Union>i \<in> set is. A i))"
    using Cons.prems by (intro saves_then Cons.IH) auto
  then show ?case by (simp only: forM.simps list.set UN_insert)
qed

definition file_pages :: "bmem \<Rightarrow> u32 \<Rightarrow> nat set" where
  "file_pages m f = {PGNUM f} \<union> {0x10000 + unat (uses m f k) |k.
     (k < last_block (unat (fsize m f)) \<or> k = 1034) \<and> uses m f k \<noteq> 0}"

lemma saves_file_flush:
  assumes ok: "bc_ok s" and inv: "fsinv (fsmem s) F" and f: "f \<in> F"
  shows "saves (file_flush f) s () (file_pages (fsmem s) f)"
proof -
  let ?m = "fsmem s"
  let ?n = "last_block (unat (fsize ?m f))"
  let ?A = "\<lambda>i. if uses ?m f i = 0 then {} else {0x10000 + unat (uses ?m f i)}"
  have fl: "unat (fsize ?m f) \<le> MAXFILE" by (rule fsinvD(9) [OF inv f])
  have n: "?n \<le> 1034" "nat (sint (sdiv32 (fsize ?m f + BLKSIZE - 1) 4096)) = ?n"
    using block_count(1,3) [OF fl] by (simp_all add: small_sdiv(3))
  have sz: "saves (fs_load32 (f + f_size)) s (fsize ?m f) {}"
    using saves_load [OF ok, of "f + f_size"] file_words(3) [OF inv f, of 128] by (simp add: fsize_def kconst)
  have ind: "saves (fs_load32 (f + f_indirect)) t (indirect ?m f) {}" if "bc_ok t" "fsmem t = ?m" for t
    using saves_load [OF that(1), of "f + f_indirect"] cell_ok(1) [OF inv f, of 1034] that(2)
    by (simp add: has_cell_def cell_def indirect_def)
  have out: "\<not> outside_cache f" using fsinvD(4) [OF inv f] by (simp add: file_at_def)
  have "saves (file_flush f) s () ({} \<union> ((\<Union>i \<in> set [0 ..< ?n]. ?A i) \<union> ({PGNUM f} \<union> ({} \<union> ?A 1034))))"
    unfolding file_flush_def
  proof (rule saves_bind [OF sz], rule saves_then)
    fix t assume t: "bc_ok t" "fsmem t = ?m"
    show "saves (forM [0 ..< nat (sint (sdiv32 (fsize ?m f + BLKSIZE - 1) 4096))] (\<lambda>i.
        bindM (file_block_walk f (of_nat i) False) (\<lambda>(r, slot).
          if is_neg r then ret ()
          else case slot of None \<Rightarrow> ret ()
            | Some p \<Rightarrow> bindM (fs_load32 p) (\<lambda>v. whenM (v \<noteq> 0) (bindM (diskaddr v) flush_block)))))
      t () (\<Union>i \<in> set [0 ..< ?n]. ?A i)"
      unfolding n(2)
    proof (rule saves_forM [OF t(1)])
      fix i u assume u: "i \<in> set [0 ..< ?n]" "bc_ok u" "fsmem u = fsmem t"
      have e: "fsmem u = ?m" using u(3) t(2) by simp
      show "saves (bindM (file_block_walk f (of_nat i) False) (\<lambda>(r, slot).
          if is_neg r then ret ()
          else case slot of None \<Rightarrow> ret ()
            | Some p \<Rightarrow> bindM (fs_load32 p) (\<lambda>v. whenM (v \<noteq> 0) (bindM (diskaddr v) flush_block)))) u () (?A i)"
        using u(1) n(1) by (intro saves_body [OF u(2) _ f, unfolded e]) (simp_all add: inv)
    qed
    fix u assume u: "bc_ok u" "fsmem u = fsmem t"
    show "saves (thenM (flush_block f) (bindM (fs_load32 (f + f_indirect)) (\<lambda>ind.
        whenM (ind \<noteq> 0) (bindM (diskaddr ind) flush_block)))) u () ({PGNUM f} \<union> ({} \<union> ?A 1034))"
    proof (rule saves_then [OF saves_flush [OF u(1) out]], rule saves_bind)
      fix v assume v: "bc_ok v" "fsmem v = fsmem u"
      show "saves (fs_load32 (f + f_indirect)) v (indirect ?m f) {}" using v u t by (intro ind) simp_all
      fix x assume x: "bc_ok x" "fsmem x = fsmem v"
      show "saves (whenM (indirect ?m f \<noteq> 0) (bindM (diskaddr (indirect ?m f)) flush_block)) x () (?A 1034)"
        using saves_flush_data [OF x(1), of "indirect ?m f"] indirect_datab [OF inv f] x u v t
        by (cases "indirect ?m f = 0") (simp_all add: uses_indirect whenM_def saves_def)
    qed
  qed
  moreover have "{} \<union> ((\<Union>i \<in> set [0 ..< ?n]. ?A i) \<union> ({PGNUM f} \<union> ({} \<union> ?A 1034))) = file_pages ?m f"
    by (auto simp: file_pages_def)
  ultimately show ?thesis by simp
qed

text \<open>Seen from the contents: every byte of the file, and its record, are on the disk.\<close>

lemma file_flush_ok:
  assumes ok: "bc_ok s" and inv: "fsinv (fsmem s) F" and f: "f \<in> F" and pl: "plain (fsmem s) F f"
  shows "\<exists>t. file_flush f s = (Ret (), t) \<and> bc_ok t \<and> fsmem t = fsmem s
    \<and> (\<forall>c < 256. on_disk t (f + of_nat c) = fsmem s (f + of_nat c))
    \<and> (\<forall>p < unat (fsize (fsmem s) f). \<forall>b. fbyte (fsmem s) f p = Some b \<longrightarrow>
         on_disk t (DISKMAP + uses (fsmem s) f (p div 4096) * BLKSIZE + of_nat (p mod 4096)) = b)
    \<and> (\<forall>y. \<not> outside_cache y \<longrightarrow> on_disk t y = on_disk s y \<or> on_disk t y = fsmem s y)"
proof -
  let ?m = "fsmem s"
  obtain t where t: "file_flush f s = (Ret (), t)" "bc_ok t" "fsmem t = ?m"
    "\<And>y. \<not> outside_cache y \<Longrightarrow> on_disk t y = (if PGNUM y \<in> file_pages ?m f then ?m y else on_disk s y)"
    using saves_file_flush [OF ok inv f] by (auto simp: saves_def)
  have fa: "file_at ?m f" by (rule fsinvD(4) [OF inv f])
  have rec: "on_disk t (f + of_nat c) = ?m (f + of_nat c)" if c: "c < 256" for c
  proof -
    have "PGNUM (f + of_nat c) = PGNUM f" by (intro file_words(2) [OF inv f c])
    then show ?thesis
      using t(4) [of "f + of_nat c"] fa by (simp add: file_pages_def outside_PGNUM file_at_def)
  qed
  have bytes: "on_disk t (DISKMAP + uses ?m f (p div 4096) * BLKSIZE + of_nat (p mod 4096)) = b"
    if p: "p < unat (fsize ?m f)" "fbyte ?m f p = Some b" for p b
  proof -
    define k where "k = p div 4096"
    have u: "uses ?m f k \<noteq> 0" using p(2) by (auto simp: fbyte_def k_def split: if_splits)
    have kl: "k < last_block (unat (fsize ?m f))" 
      using div_le_mono [of "p + 4096" "unat (fsize ?m f) + 4095" 4096] p(1) by (simp add: k_def)
    have "k < 1034" using kl block_count(3) [OF fsinvD(9) [OF inv f]] by simp
    then have pg: "PGNUM (DISKMAP + uses ?m f k * BLKSIZE + of_nat (p mod 4096)) = 0x10000 + unat (uses ?m f k)"
      by (intro content_addr [OF inv plain_content [OF inv f pl _ u]]) simp_all
    then have "\<not> outside_cache (DISKMAP + uses ?m f k * BLKSIZE + of_nat (p mod 4096))"
      using datab_lt [OF bc_ok_pointers(3) [OF ok] fsinvD(6) [OF inv f _ u]] \<open>k < 1034\<close>
      by (simp add: outside_PGNUM word_less_nat_alt)
    then show ?thesis
      using t(4) pg p(2) u kl by (auto simp: file_pages_def fbyte_def k_def)
  qed
  show ?thesis using t rec bytes by (intro exI [of _ t]) auto
qed

text \<open>
  The disk alone then shows the file: read from there, the size, the block map through the indirect
  block, and every byte up to the size are what programs see.
\<close>

lemma file_flush_disk:
  assumes ok: "bc_ok s" and inv: "fsinv (fsmem s) F" and f: "f \<in> F" and pl: "plain (fsmem s) F f"
  shows "\<exists>t. file_flush f s = (Ret (), t) \<and> bc_ok t \<and> fsmem t = fsmem s
    \<and> (\<forall>c < 256. on_disk t (f + of_nat c) = fsmem s (f + of_nat c))
    \<and> fsize (on_disk t) f = fsize (fsmem s) f \<and> (\<forall>k < 1034. uses (on_disk t) f k = uses (fsmem s) f k)
    \<and> (\<forall>p < unat (fsize (fsmem s) f). fbyte (on_disk t) f p = fbyte (fsmem s) f p)
    \<and> (\<forall>y. \<not> outside_cache y \<longrightarrow> on_disk t y = on_disk s y \<or> on_disk t y = fsmem s y)"
proof -
  let ?m = "fsmem s"
  obtain t where t: "file_flush f s = (Ret (), t)" "bc_ok t" "fsmem t = ?m"
    and rec: "\<forall>c < 256. on_disk t (f + of_nat c) = ?m (f + of_nat c)"
    and bytes: "\<forall>p < unat (fsize ?m f). \<forall>b. fbyte ?m f p = Some b \<longrightarrow>
         on_disk t (DISKMAP + uses ?m f (p div 4096) * BLKSIZE + of_nat (p mod 4096)) = b"
    and old: "\<forall>y. \<not> outside_cache y \<longrightarrow> on_disk t y = on_disk s y \<or> on_disk t y = ?m y"
    using file_flush_ok [OF assms] by blast
  have pages: "on_disk t y = ?m y" if "\<not> outside_cache y" "PGNUM y \<in> file_pages ?m f" for y
    using saves_file_flush [OF ok inv f] t(1) that by (auto simp: saves_def)
  have word: "load4 a (on_disk t) = load4 a ?m" if a: "word_ok ?m a" "PGNUM a \<in> file_pages ?m f" for a
  proof (rule load4_upd_other)
    show al: "unat a mod 4 = 0" using a(1) by (simp add: word_ok_def)
    fix i :: nat assume "i < 4"
    then have "PGNUM (a + of_nat i) = PGNUM a" by (rule PGNUM_near(1) [OF al])
    then show "on_disk t (a + of_nat i) = ?m (a + of_nat i)"
      by (intro pages) (use a in \<open>simp_all add: word_ok_def outside_PGNUM\<close>)
  qed
  have cells: "load4 (cell ?m f k) (on_disk t) = load4 (cell ?m f k) ?m" if k: "has_cell ?m f k" for k
  proof (rule word [OF cell_ok(1) [OF inv f k]])
    have "indirect ?m f \<noteq> 0" if "\<not> (k < 10 \<or> k = 1034)" using k that by (auto simp: has_cell_def)
    then show "PGNUM (cell ?m f k) \<in> file_pages ?m f"
      unfolding cell_ok(2) [OF inv f k] by (auto simp: file_pages_def uses_indirect intro: exI [of _ 1034])
  qed
  have "has_cell ?m f 1034" by (simp add: has_cell_def)
  from cells [OF this] have ind: "indirect (on_disk t) f = indirect ?m f" by (simp add: cell_def indirect_def)
  then have cl: "cell (on_disk t) f k = cell ?m f k" for k by (simp add: cell_def)
  have us: "uses (on_disk t) f k = uses ?m f k" if "k < 1034" for k
    using cells [of k] that by (cases "has_cell ?m f k") (auto simp: uses_def ind cl has_cell_def)
  have "fsize (on_disk t) f = fsize ?m f"
    using word [of "f + f_size"] file_words(2,3) [OF inv f, of 128] by (simp add: fsize_def kconst file_pages_def)
  moreover have "fbyte (on_disk t) f p = fbyte ?m f p" if p: "p < unat (fsize ?m f)" for p
  proof -
    have "p div 4096 < 1034" using p fsinvD(9) [OF inv f] by simp
    from us [OF this] show ?thesis using bytes p by (simp add: fbyte_def)
  qed
  ultimately show ?thesis using t rec us old by (intro exI [of _ t]) auto
qed

end
