(* ===== verification/Jos_Fd_Io.thy ===== *)
theory Jos_Fd_Io
  imports Jos_Fd_Inv Jos_Fs_Flush
begin

text \<open>
  Reading and writing through a descriptor: the request travels to the server, moves bytes of the
  file at the offset the descriptor carries, and advances that offset for every descriptor that
  shows the same slot.
\<close>

section \<open>Request pages\<close>

lemma fsipc_run:
  assumes "serve_request req (fsipcbuf w) (srv w) = (Ret (r, None, pg), t)"
  shows "fsipc req None w = (Ret r, w\<lparr>srv := t, fsipcbuf := pg\<rparr>)"
  using assms by (simp add: fsipc_def in_srv_def)

lemma with_open_run:
  assumes op: "is_open w d i" and id: "load4 0 pg = o_fileid (opentab (srv w) i)"
  shows "with_open pg k (srv w) = k i (srv w)"
proof -
  have "unat (load4 0 pg mod of_nat MAXOPEN) = i"
    using op by (simp add: id is_open_def MAXOPEN_def unat_mod)
  then show ?thesis
    using op id by (simp add: with_open_def openfile_lookup_def is_open_def is_neg_def Let_def)
qed

lemma serve_write_run:
  assumes op: "is_open w d i" and id: "load4 0 pg = o_fileid (opentab (srv w) i)"
    and run: "file_write (o_file (opentab (srv w) i)) (\<lambda>k. pg (8 + of_nat k)) (MIN_u32 (load4 4 pg) (PGSIZE - 8))
      (fd_offset (fd_page (srv w) i)) (fs (srv w)) = (Ret m, t)"
  shows "serve_request FSREQ_WRITE pg (srv w) = (Ret (m, None, pg),
    upd_fd i (\<lambda>fd. fd\<lparr>fd_offset := fd_offset fd + m\<rparr>) ((srv w)\<lparr>fs := t\<rparr>))"
  using run
  by (simp add: serve_request_def handlers_def FSREQ_OPEN_def FSREQ_SET_SIZE_def FSREQ_READ_def FSREQ_WRITE_def
      serve_write_def with_open_run [OF op id] in_fs_def Let_def)

lemma serve_read_run:
  assumes op: "is_open w d i" and id: "load4 0 pg = o_fileid (opentab (srv w) i)"
    and run: "file_read (o_file (opentab (srv w) i)) (MIN_u32 (load4 4 pg) PGSIZE)
      (fd_offset (fd_page (srv w) i)) (fs (srv w)) = (Ret (m, bs), t)"
  shows "serve_request FSREQ_READ pg (srv w) = (Ret (m, None, put_list 0 bs pg),
    upd_fd i (\<lambda>fd. fd\<lparr>fd_offset := fd_offset fd + m\<rparr>) ((srv w)\<lparr>fs := t\<rparr>))"
proof -
  have z: "upd_fd i (\<lambda>fd. fd\<lparr>fd_offset := fd_offset fd + 0\<rparr>) s = s" for s by (simp add: upd_fd_def)
  show ?thesis
    using run z
    by (simp add: serve_request_def handlers_def FSREQ_OPEN_def FSREQ_SET_SIZE_def FSREQ_READ_def
        serve_read_def with_open_run [OF op id] in_fs_def word_gt_0)
qed

lemma MIN_small: "k < 4294967296 \<Longrightarrow> MIN_u32 n (of_nat k) = of_nat (min (unat n) k)"
  by (auto simp: MIN_eq_min min_def word_le_nat_alt unat_of_nat)

text \<open>The page of a write request.\<close>

lemma write_request_page:
  fixes pg :: bmem and n fileid :: u32
  assumes "length bs \<le> 4088"
  defines "pg' \<equiv> put_list 8 bs (store4 4 n (store4 0 fileid pg))"
  shows "load4 0 pg' = fileid" "load4 4 pg' = n" "k < length bs \<Longrightarrow> pg' (8 + of_nat k) = bs ! k"
proof -
  have far: "4088 \<le> unat (x - 8)" if "x < 8" for x :: u32
    using that by (simp add: unat_sub_if' word_less_nat_alt)
  have low: "put_list 8 bs m x = m x" if "x < 8" for x m
    by (rule put_list_other [OF assms(1) far [OF that]])
  have same: "load4 a pg' = load4 a (store4 4 n (store4 0 fileid pg))" if "a = 0 \<or> a = 4" for a
    unfolding pg'_def
  proof (rule load4_upd_other)
    show "unat a mod 4 = 0" using that by auto
    fix i :: nat assume "i < 4"
    then have "i = 0 \<or> i = 1 \<or> i = 2 \<or> i = 3" by auto
    then have "a + of_nat i < 8" using that by auto
    then show "put_list 8 bs (store4 4 n (store4 0 fileid pg)) (a + of_nat i) = store4 4 n (store4 0 fileid pg) (a + of_nat i)"
      by (rule low)
  qed
  show "load4 0 pg' = fileid" "load4 4 pg' = n"
    by (simp_all add: same load4_store4_other)
  show "k < length bs \<Longrightarrow> pg' (8 + of_nat k) = bs ! k"
    using assms(1) by (simp add: pg'_def put_list_def unat_of_nat)
qed

section \<open>Writing\<close>

lemma write_fd_ok:
  fixes n :: u32
  assumes op: "is_open w d i" and md: "fd_omode (fd_page (srv w) i) AND O_ACCMODE \<noteq> O_RDONLY"
    and ok: "bc_ok (fs (srv w))" and inv: "fsinv (fsmem (fs (srv w))) F" and f: "f \<in> F"
    and pl: "plain (fsmem (fs (srv w))) F f" and fl: "o_file (opentab (srv w) i) = f"
    and off: "fd_offset (fd_page (srv w) i) = of_nat pos"
  defines "k \<equiv> min (unat n) 4088"
  assumes le: "pos + k \<le> MAXFILE"
    and sp: "0 < k \<Longrightarrow> budget (fsmem (fs (srv w))) f (pos div 4096) (last_block (pos + k))
      \<le> card (free_blocks (fsmem (fs (srv w))))"
  shows "\<exists>t pg. write_fd d buf n w = (Ret (of_nat k),
      w\<lparr>srv := upd_fd i (\<lambda>fd. fd\<lparr>fd_offset := of_nat (pos + k)\<rparr>) ((srv w)\<lparr>fs := t\<rparr>), fsipcbuf := pg\<rparr>)
    \<and> bc_ok t \<and> changes (fsmem (fs (srv w))) (fsmem t) F f {p. pos \<le> p \<and> p < pos + k}
    \<and> unat (fsize (fsmem t) f) = max (unat (fsize (fsmem (fs (srv w))) f)) (pos + k)
    \<and> (\<forall>j < k. fbyte (fsmem t) f (pos + j) = Some (buf j))"
proof -
  let ?id = "o_fileid (opentab (srv w) i)"
  define pg where "pg = put_list 8 (map buf [0 ..< k]) (store4 4 (of_nat k) (store4 0 ?id (fsipcbuf w)))"
  have kb: "k \<le> 4088" by (simp add: k_def)
  have page: "load4 0 pg = ?id" "load4 4 pg = of_nat k" "\<And>j. j < k \<Longrightarrow> pg (8 + of_nat j) = buf j"
    using kb write_request_page [of "map buf [0 ..< k]"] by (simp_all add: pg_def)
  have cnt: "MIN_u32 (load4 4 pg) (PGSIZE - 8) = of_nat k"
    using MIN_small [of 4088 "load4 4 pg"] kb by (simp add: page(2) PGSIZE_def unat_of_nat)
  obtain t where t: "file_write f (\<lambda>j. pg (8 + of_nat j)) (of_nat k) (of_nat pos) (fs (srv w)) = (Ret (of_nat k), t)"
    "bc_ok t" "changes (fsmem (fs (srv w))) (fsmem t) F f {p. pos \<le> p \<and> p < pos + k}"
    "unat (fsize (fsmem t) f) = max (unat (fsize (fsmem (fs (srv w))) f)) (pos + k)"
    "\<And>j. j < k \<Longrightarrow> fbyte (fsmem t) f (pos + j) = Some (pg (8 + of_nat j))"
    using file_write_ok [OF ok inv f pl le sp, of "\<lambda>j. pg (8 + of_nat j)"] by (auto simp: runs_def)
  define v where "v = w\<lparr>fsipcbuf := pg\<rparr>"
  have v: "srv v = srv w" "fsipcbuf v = pg" by (simp_all add: v_def)
  have opv: "is_open v d i" using op by (simp add: is_open_def v_def)
  have "serve_request FSREQ_WRITE (fsipcbuf v) (srv v) = (Ret (of_nat k, None, pg),
    upd_fd i (\<lambda>fd. fd\<lparr>fd_offset := fd_offset fd + of_nat k\<rparr>) ((srv v)\<lparr>fs := t\<rparr>))"
    unfolding v(2) by (rule serve_write_run [OF opv]) (simp_all only: v page(1) cnt t(1) fl off)
  from fsipc_run [OF this]
  have ipc: "fsipc FSREQ_WRITE None v = (Ret (of_nat k),
      w\<lparr>srv := upd_fd i (\<lambda>fd. fd\<lparr>fd_offset := of_nat (pos + k)\<rparr>) ((srv w)\<lparr>fs := t\<rparr>), fsipcbuf := pg\<rparr>)"
    by (simp add: v_def upd_fd_def off)
  have nk: "(if PGSIZE - 8 < n then PGSIZE - 8 else n) = of_nat k"
    using kb by (auto simp: k_def PGSIZE_def min_def word_less_nat_alt)
  have dev: "\<not> is_neg (dev_lookup devfile_id)" by (simp add: dev_lookup_def is_neg_def)
  have "devfile_write (INDEX2FD d) buf n w = (Ret (of_nat k),
      w\<lparr>srv := upd_fd i (\<lambda>fd. fd\<lparr>fd_offset := of_nat (pos + k)\<rparr>) ((srv w)\<lparr>fs := t\<rparr>), fsipcbuf := pg\<rparr>)"
    using ipc op kb
    by (simp add: devfile_write_def the_fd_open [OF op] nk Let_def set_request_def is_open_def v_def pg_def unat_of_nat)
  then have "write_fd d buf n w = (Ret (of_nat k),
      w\<lparr>srv := upd_fd i (\<lambda>fd. fd\<lparr>fd_offset := of_nat (pos + k)\<rparr>) ((srv w)\<lparr>fs := t\<rparr>), fsipcbuf := pg\<rparr>)"
    using op md dev by (simp add: write_fd_def with_fd_def fd_lookup_open [OF op] the_fd_open [OF op] is_open_def is_neg_def)
  moreover have "\<forall>j < k. fbyte (fsmem t) f (pos + j) = Some (buf j)" using t(5) page(3) by simp
  ultimately show ?thesis using t(2-4) by blast
qed

section \<open>Reading\<close>

text \<open>The world after a transfer that left the offset at \<open>pos\<close>.\<close>

definition moved :: "nat \<Rightarrow> nat \<Rightarrow> fsys \<Rightarrow> bmem \<Rightarrow> world \<Rightarrow> world" where
  "moved i pos t pg w =
     w\<lparr>srv := upd_fd i (\<lambda>fd. fd\<lparr>fd_offset := of_nat pos\<rparr>) ((srv w)\<lparr>fs := t\<rparr>), fsipcbuf := pg\<rparr>"

lemma moved_parts [simp]:
  "fs (srv (moved i pos t pg w)) = t" "is_open (moved i pos t pg w) d i \<longleftrightarrow> is_open w d i"
  "o_file (opentab (srv (moved i pos t pg w)) j) = o_file (opentab (srv w) j)"
  "fd_offset (fd_page (srv (moved i pos t pg w)) i) = of_nat pos"
  "fd_omode (fd_page (srv (moved i pos t pg w)) j) = fd_omode (fd_page (srv w) j)"
  "moved i p' t' pg' (moved i pos t pg w) = moved i p' t' pg' w"
  "upages (moved i pos t pg w) = upages w"
  by (simp_all add: moved_def upd_fd_def is_open_def)

lemma read_fd_ok:
  fixes n :: u32
  assumes op: "is_open w d i" and md: "fd_omode (fd_page (srv w) i) AND O_ACCMODE \<noteq> O_WRONLY"
    and ok: "bc_ok (fs (srv w))" and inv: "fsinv (fsmem (fs (srv w))) F" and f: "f \<in> F"
    and pl: "plain (fsmem (fs (srv w))) F f" and fl: "o_file (opentab (srv w) i) = f"
    and off: "fd_offset (fd_page (srv w) i) = of_nat pos"
  defines "k \<equiv> min (unat n) 4096"
  assumes sz: "pos + k \<le> unat (fsize (fsmem (fs (srv w))) f)"
    and known: "\<And>j. j < k \<Longrightarrow> fbyte (fsmem (fs (srv w))) f (pos + j) = Some (bs j)"
  shows "\<exists>t pg. read d n w = (Ret (of_nat k, map bs [0 ..< k]), moved i (pos + k) t pg w)
    \<and> bc_ok t \<and> keeps (fsmem (fs (srv w))) (fsmem t) F {}"
proof -
  let ?id = "o_fileid (opentab (srv w) i)"
  define pg where "pg = store4 4 n (store4 0 ?id (fsipcbuf w))"
  define pg' where "pg' = put_list 0 (map bs [0 ..< k]) pg"
  have kb: "k \<le> 4096" by (simp add: k_def)
  have page: "load4 0 pg = ?id" "load4 4 pg = n" by (simp_all add: pg_def load4_store4_other)
  have cnt: "MIN_u32 n PGSIZE = of_nat k"
    using MIN_small [of 4096 n] by (simp add: PGSIZE_def k_def)
  obtain t where t: "file_read f (of_nat k) (of_nat pos) (fs (srv w)) = (Ret (of_nat k, map bs [0 ..< k]), t)"
    "bc_ok t" "keeps (fsmem (fs (srv w))) (fsmem t) F {}"
    using read_known [OF ok inv f pl sz known] by blast
  define v where "v = w\<lparr>fsipcbuf := pg\<rparr>"
  have v: "srv v = srv w" "fsipcbuf v = pg" by (simp_all add: v_def)
  have opv: "is_open v d i" using op by (simp add: is_open_def v_def)
  have "serve_request FSREQ_READ (fsipcbuf v) (srv v) = (Ret (of_nat k, None, pg'),
    upd_fd i (\<lambda>fd. fd\<lparr>fd_offset := fd_offset fd + of_nat k\<rparr>) ((srv v)\<lparr>fs := t\<rparr>))"
    unfolding v(2) pg'_def by (rule serve_read_run [OF opv]) (simp_all only: v page cnt t(1) fl off)
  from fsipc_run [OF this]
  have ipc: "fsipc FSREQ_READ None v = (Ret (of_nat k), moved i (pos + k) t pg' w)"
    by (simp add: v_def upd_fd_def off moved_def)
  have "pg' (of_nat j) = bs j" if "j < k" for j
    using that kb by (simp add: pg'_def put_list_def unat_of_nat)
  then have "map (\<lambda>j. pg' (of_nat j)) [0 ..< k] = map bs [0 ..< k]" by simp
  moreover have nn: "\<not> is_neg (of_nat k :: u32)" "unat (of_nat k :: u32) = k"
    using kb by (simp_all add: is_neg_def unat_of_nat sint_small)
  moreover have buf: "fsipcbuf (moved i (pos + k) t pg' w) = pg'" by (simp add: moved_def)
  ultimately have "devfile_read (INDEX2FD d) n w = (Ret (of_nat k, map bs [0 ..< k]), moved i (pos + k) t pg' w)"
    using ipc op
    by (simp add: devfile_read_def the_fd_open [OF op] set_request_def is_open_def v_def pg_def [symmetric])
  moreover have "\<not> is_neg (dev_lookup devfile_id)" by (simp add: dev_lookup_def is_neg_def)
  ultimately have "read d n w = (Ret (of_nat k, map bs [0 ..< k]), moved i (pos + k) t pg' w)"
    using op md by (simp add: read_def with_fd_def fd_lookup_open [OF op] the_fd_open [OF op] is_open_def is_neg_def)
  then show ?thesis using t(2,3) by blast
qed

text \<open>\<^verbatim>\<open>readn\<close> goes on, a page at a time, until it has everything.\<close>

lemma readn_loop_ok:
  fixes n tot :: u32
  assumes op: "is_open w d i" and md: "fd_omode (fd_page (srv w) i) AND O_ACCMODE \<noteq> O_WRONLY"
    and ok: "bc_ok (fs (srv w))" and inv: "fsinv (fsmem (fs (srv w))) F" and f: "f \<in> F"
    and pl: "plain (fsmem (fs (srv w))) F f" and fl: "o_file (opentab (srv w) i) = f"
    and off: "fd_offset (fd_page (srv w) i) = of_nat pos"
    and k: "tot \<le> n" "k = unat n - unat tot" "k \<le> fuel"
    and sz: "pos + k \<le> unat (fsize (fsmem (fs (srv w))) f)"
    and known: "\<And>j. j < k \<Longrightarrow> fbyte (fsmem (fs (srv w))) f (pos + j) = Some (bs j)"
  shows "\<exists>v. readn_loop fuel d n tot w = (Ret (n, map bs [0 ..< k]), v)"
  using assms
proof (induction fuel arbitrary: w tot pos k bs)
  case 0
  then have "unat tot = unat n" by (simp add: word_le_nat_alt)
  then have "tot = n" by (simp only: word_unat_eq_iff)
  then show ?case using 0 by simp
next
  case (Suc fuel)
  show ?case
  proof (cases "tot < n")
    case False
    then have "tot = n" using Suc.prems by simp
    then show ?thesis using Suc.prems by simp
  next
    case True
    define m where "m = min k 4096"
    have un: "unat (n - tot) = k" using Suc.prems True by (simp add: unat_sub word_le_nat_alt)
    have k0: "0 < k" using Suc.prems True by (simp add: word_less_nat_alt)
    have kb: "k \<le> MAXFILE" using Suc.prems fsinvD(9) [OF Suc.prems(4,5)] by linarith
    have "\<exists>t pg. read d (n - tot) w = (Ret (of_nat m, map bs [0 ..< m]), moved i (pos + m) t pg w)
      \<and> bc_ok t \<and> keeps (fsmem (fs (srv w))) (fsmem t) F {}"
      unfolding m_def un [symmetric]
      by (rule read_fd_ok [OF Suc.prems(1-8)]) (use Suc.prems(12,13) un in auto)
    then obtain t pg where t: "read d (n - tot) w = (Ret (of_nat m, map bs [0 ..< m]), moved i (pos + m) t pg w)"
      "bc_ok t" "keeps (fsmem (fs (srv w))) (fsmem t) F {}" by blast
    let ?w = "moved i (pos + m) t pg w"
    have mm: "unat (of_nat m :: u32) = m" "m \<le> k" "0 < m" using k0 by (auto simp: m_def unat_of_nat)
    have ut: "unat (tot + of_nat m) = unat tot + m"
    proof -
      have "unat n < 4294967296" using unsigned_less [of n] by simp
      then have "unat tot + m < 4294967296" using mm(2) Suc.prems(9,10) by (simp add: word_le_nat_alt)
      then show ?thesis using mm(1) by (simp add: unat_word_ariths)
    qed
    have "fsize (fsmem t) f = fsize (fsmem (fs (srv w))) f"
      by (rule header_fsize [OF keepsD(2) [OF t(3) Suc.prems(5)]])
    moreover have "fbyte (fsmem t) f (pos + m + j) = Some (bs (m + j))" if "j < k - m" for j
    proof -
      have "pos + (m + j) < MAXFILE" using that Suc.prems(12) fsinvD(9) [OF Suc.prems(4,5)] mm by linarith
      then show ?thesis
        using keepsD(4) [OF t(3) Suc.prems(5,6), of "pos + (m + j)"] Suc.prems(13) [of "m + j"] that
        by (simp add: add.assoc)
    qed
    ultimately have "\<exists>v. readn_loop fuel d n (tot + of_nat m) ?w = (Ret (n, map (\<lambda>j. bs (m + j)) [0 ..< k - m]), v)"
      using Suc.prems mm ut t(2) keepsD(1,3) [OF t(3)]
      by (intro Suc.IH [where pos = "pos + m"]) (auto simp: word_le_nat_alt)
    then obtain v where v: "readn_loop fuel d n (tot + of_nat m) ?w = (Ret (n, map (\<lambda>j. bs (m + j)) [0 ..< k - m]), v)"
      by blast
    have "[0 ..< k] = [0 ..< m] @ map ((+) m) [0 ..< k - m]"
      using mm(2) by (intro nth_equalityI) (auto simp: nth_append)
    then have split: "map bs [0 ..< k] = map bs [0 ..< m] @ map (\<lambda>j. bs (m + j)) [0 ..< k - m]" by simp
    have "\<not> is_neg (of_nat m :: u32)" using mm by (auto simp: is_neg_def sint_small m_def)
    moreover have "(of_nat m :: u32) \<noteq> 0" using mm(1,3) by (metis unat_0 less_irrefl)
    ultimately have "\<not> is_neg (of_nat m :: u32)" "(of_nat m :: u32) \<noteq> 0" by blast+
    then show ?thesis using True t(1) v by (simp add: split)
  qed
qed

lemma seek_run:
  assumes "is_open w d i"
  shows "seek d p w = (Ret 0, w\<lparr>srv := upd_fd i (\<lambda>fd. fd\<lparr>fd_offset := p\<rparr>) (srv w)\<rparr>)"
  using assms by (simp add: seek_def fd_lookup_open [OF assms] set_fd_def is_neg_def is_open_def)

text \<open>
  What was written through one descriptor is read through any descriptor that shows the same
  slot, once the offset is back.
\<close>

lemma write_seek_readn:
  fixes n :: u32
  assumes op: "is_open w d i" "is_open w e i" and md: "fd_omode (fd_page (srv w) i) AND O_ACCMODE = O_RDWR"
    and ok: "bc_ok (fs (srv w))" and inv: "fsinv (fsmem (fs (srv w))) F" and f: "f \<in> F"
    and pl: "plain (fsmem (fs (srv w))) F f" and fl: "o_file (opentab (srv w) i) = f"
    and off: "fd_offset (fd_page (srv w) i) = of_nat pos"
  defines "k \<equiv> min (unat n) 4088"
  assumes le: "pos + k \<le> MAXFILE"
    and sp: "0 < k \<Longrightarrow> budget (fsmem (fs (srv w))) f (pos div 4096) (last_block (pos + k))
      \<le> card (free_blocks (fsmem (fs (srv w))))"
  shows "\<exists>u v x. write_fd d buf n w = (Ret (of_nat k), u) \<and> seek e (of_nat pos) u = (Ret 0, v)
    \<and> readn e (of_nat k) v = (Ret (of_nat k, map buf [0 ..< k]), x)"
proof -
  have m: "fd_omode (fd_page (srv w) i) AND O_ACCMODE \<noteq> O_RDONLY" "fd_omode (fd_page (srv w) i) AND O_ACCMODE \<noteq> O_WRONLY"
    unfolding md by (simp_all add: O_RDWR_def O_RDONLY_def O_WRONLY_def)
  obtain t pg where t: "write_fd d buf n w = (Ret (of_nat k), moved i (pos + k) t pg w)" "bc_ok t"
    "changes (fsmem (fs (srv w))) (fsmem t) F f {p. pos \<le> p \<and> p < pos + k}"
    "unat (fsize (fsmem t) f) = max (unat (fsize (fsmem (fs (srv w))) f)) (pos + k)"
    "\<forall>j < k. fbyte (fsmem t) f (pos + j) = Some (buf j)"
    using write_fd_ok [OF op(1) m(1) ok inv f pl fl off le [unfolded k_def] sp [unfolded k_def], folded k_def, of buf]
    unfolding moved_def by blast
  let ?u = "moved i (pos + k) t pg w"
  have sk: "seek e (of_nat pos) ?u = (Ret 0, moved i pos t pg w)"
  proof -
    have o': "is_open ?u e i" using op(2) by (simp only: moved_parts)
    show ?thesis unfolding seek_run [OF o'] by (cases w) (simp add: moved_def upd_fd_def)
  qed
  have kk: "unat (of_nat k :: u32) = k" by (simp add: k_def unat_of_nat)
  have "\<exists>x. readn_loop k e (of_nat k) 0 (moved i pos t pg w) = (Ret (of_nat k, map buf [0 ..< k]), x)"
    by (rule readn_loop_ok [where i = i and F = F and f = f and pos = pos])
      (use op m t(2,4,5) fl changesD(1) [OF t(3)] changesD(3) [OF t(3) f pl] f kk in auto)
  then show ?thesis using t(1) sk by (auto simp: readn_def kk)
qed

section \<open>Slots that were never opened\<close>

lemma fault_outside:
  assumes "outside_cache a" and "\<not> va_is_mapped a s"
  shows "fs_load32 a s = (Stop FsPanic, s)" "fs_load8 a s = (Stop FsPanic, s)"
  using assms by (simp_all add: fs_load32_def load_by_def fs_load8_def touch_def access_by_def NESTED_def
      numeral_eq_Suc Let_def assertM_def)

text \<open>
  Right after \<^verbatim>\<open>serve_init\<close> the identifier of a slot is its index and there is no page whose
  references could be counted, so the lookup succeeds and the null file pointer is followed.
\<close>

lemma unopened_panics:
  assumes "fd_ref s i = 0" and "o_file (opentab s i) = 0" and "o_fileid (opentab s i) = of_nat i" and "i < 1024"
    and "uvpt (fs s) 0 AND PTE_P = 0" and req: "req \<in> id_requests" and "load4 0 pg = of_nat i"
  shows "serve_request req pg s = (Stop FsPanic, s)"
proof -
  have "unat (of_nat i mod of_nat MAXOPEN :: u32) = i" using assms(4) by (simp add: MAXOPEN_def unat_mod unat_of_nat)
  then have l: "with_open pg k s = k i s" for k
    using assms(1,3,7) by (simp add: with_open_def openfile_lookup_def is_neg_def Let_def)
  have n: "fs_load32 0x80 (fs s) = (Stop FsPanic, fs s)" "fs_load8 0 (fs s) = (Stop FsPanic, fs s)"
    using assms(5) by (simp_all add: fault_outside outside_cache_def DISKMAP_def va_is_mapped_def PGNUM_def)
  have z: "s\<lparr>fs := fs s\<rparr> = s" by simp
  have e: "(4096 :: nat) = Suc 4095" by simp
  have r: "fs_read_str 4096 0 (fs s) = (Stop FsPanic, fs s)"
    unfolding e fs_read_str.simps by (simp add: n)
  show ?thesis
    using req
    by (auto simp: id_requests_def serve_request_def handlers_def FSREQ_OPEN_def FSREQ_SET_SIZE_def FSREQ_READ_def
        FSREQ_WRITE_def FSREQ_STAT_def FSREQ_FLUSH_def serve_set_size_def serve_read_def serve_write_def serve_stat_def
        serve_flush_def l assms(2) in_fs_def file_set_size_def file_read_def file_write_def file_flush_def f_size_def n z r
        FSREQ_REMOVE_def FSREQ_SYNC_def Let_def)
qed

section \<open>Closing\<close>

lemma close_run:
  assumes op: "is_open w d i" and fl: "file_flush (o_file (opentab (srv w) i)) (fs (srv w)) = (Ret (), t)"
  shows "\<exists>pg. close d w = (Ret 0, unmap_page (INDEX2FD d) (w\<lparr>srv := (srv w)\<lparr>fs := t\<rparr>, fsipcbuf := pg\<rparr>))"
proof -
  define pg where "pg = store4 0 (o_fileid (opentab (srv w) i)) (fsipcbuf w)"
  define v where "v = w\<lparr>fsipcbuf := pg\<rparr>"
  have num: "fd2num (INDEX2FD d) = d" using op by (intro fd_number) (simp_all add: is_open_def)
  have dev: "\<not> is_neg (dev_lookup (fd_dev_id (fd_page (srv w) i)))"
    using op by (simp add: is_open_def dev_lookup_def is_neg_def)
  have id: "load4 0 pg = o_fileid (opentab (srv w) i)" by (simp add: pg_def)
  have "serve_request FSREQ_FLUSH (fsipcbuf v) (srv v) = (Ret (0, None, pg), (srv w)\<lparr>fs := t\<rparr>)"
    using fl by (simp add: v_def serve_request_def handlers_def FSREQ_OPEN_def FSREQ_SET_SIZE_def FSREQ_READ_def
        FSREQ_WRITE_def FSREQ_STAT_def FSREQ_FLUSH_def serve_flush_def with_open_run [OF op id] in_fs_def)
  from fsipc_run [OF this] have "devfile_flush (INDEX2FD d) w = (Ret 0, w\<lparr>srv := (srv w)\<lparr>fs := t\<rparr>, fsipcbuf := pg\<rparr>)"
    using op by (simp add: devfile_flush_def the_fd_open [OF op] set_request_def is_open_def v_def pg_def)
  then have "close d w = (Ret 0, unmap_page (INDEX2FD d) (w\<lparr>srv := (srv w)\<lparr>fs := t\<rparr>, fsipcbuf := pg\<rparr>))"
    using dev num by (simp add: close_def fd_close_def fd_lookup_open [OF op] the_fd_open [OF op] is_neg_def)
  then show ?thesis by blast
qed

text \<open>The server as seen after an unmapping: only a reference count is different.\<close>

lemma unmap_page_server [simp]:
  "fs (srv (unmap_page a w)) = fs (srv w)" "opentab (srv (unmap_page a w)) = opentab (srv w)"
  "fd_page (srv (unmap_page a w)) = fd_page (srv w)"
  by (simp_all add: unmap_page_def split: option.splits upage.splits)

lemma close_ok:
  assumes refs: "fd_refs_ok w" and op: "is_open w d i" and fl: "o_file (opentab (srv w) i) = f"
    and ok: "bc_ok (fs (srv w))" and inv: "fsinv (fsmem (fs (srv w))) F" and f: "f \<in> F"
    and pl: "plain (fsmem (fs (srv w))) F f"
  defines "m \<equiv> fsmem (fs (srv w))"
  shows "\<exists>v. close d w = (Ret 0, v) \<and> fd_refs_ok v \<and> upages v = (upages w)(INDEX2FD d := None)
    \<and> bc_ok (fs (srv v)) \<and> fsmem (fs (srv v)) = m
    \<and> (\<forall>c < 256. on_disk (fs (srv v)) (f + of_nat c) = m (f + of_nat c))
    \<and> (\<forall>p < unat (fsize m f). \<forall>b. fbyte m f p = Some b \<longrightarrow>
         on_disk (fs (srv v)) (DISKMAP + uses m f (p div 4096) * BLKSIZE + of_nat (p mod 4096)) = b)
    \<and> (shown_at w i = {INDEX2FD d} \<longrightarrow> (\<forall>req \<in> id_requests. \<forall>pg. load4 0 pg = o_fileid (opentab (srv w) i) \<longrightarrow>
         serve_request req pg (srv v) = (Ret (- E_INVAL, None, pg), srv v)))"
proof -
  obtain t where t: "file_flush f (fs (srv w)) = (Ret (), t)" "bc_ok t" "fsmem t = m"
    "\<forall>c < 256. on_disk t (f + of_nat c) = m (f + of_nat c)"
    "\<forall>p < unat (fsize m f). \<forall>b. fbyte m f p = Some b \<longrightarrow>
         on_disk t (DISKMAP + uses m f (p div 4096) * BLKSIZE + of_nat (p mod 4096)) = b"
    using file_flush_ok [OF ok inv f pl] unfolding m_def by blast
  obtain pg where c: "close d w = (Ret 0, unmap_page (INDEX2FD d) (w\<lparr>srv := (srv w)\<lparr>fs := t\<rparr>, fsipcbuf := pg\<rparr>))"
    using close_run [OF op, of t] t(1) fl by blast
  define u where "u = w\<lparr>srv := (srv w)\<lparr>fs := t\<rparr>, fsipcbuf := pg\<rparr>"
  let ?v = "unmap_page (INDEX2FD d) u"
  have "fd_refs_ok u" by (rule fd_refs_ok_alloc [OF refs]) (simp_all add: u_def same_refs_def)
  then have r: "fd_refs_ok ?v" by (rule unmap_page_refs)
  have at: "upages u (INDEX2FD d) = Some (SlotPage i)" using op by (simp add: is_open_def u_def)
  have pages: "upages ?v = (upages w)(INDEX2FD d := None)" by (simp add: unmap_page_def at) (simp add: u_def)
  have rej: "serve_request req pg (srv ?v) = (Ret (- E_INVAL, None, pg), srv ?v)"
    if "shown_at w i = {INDEX2FD d}" "req \<in> id_requests" "load4 0 pg = o_fileid (opentab (srv w) i)" for req pg
  proof (rule request_rejected [OF that(2)])
    have "fd_ref (srv ?v) i = 1" using close_last(1) [OF refs op that(1) c] by (simp add: u_def)
    then show "fd_ref (srv ?v) (unat (load4 0 pg mod 1024)) = 1
      \<or> o_fileid (opentab (srv ?v) (unat (load4 0 pg mod 1024))) \<noteq> load4 0 pg"
      using op that(3) by (simp add: is_open_def unat_mod)
  qed
  show ?thesis
    using c[folded u_def] r pages t rej by (intro exI [of _ ?v] conjI) (simp_all add: u_def)
qed

end
