(* ===== verification/Jos_Fd_Open.thy ===== *)
theory Jos_Fd_Open
  imports Jos_Fd_Io
begin

text \<open>
  Opening a file: the least unused descriptor of the program comes to show the first slot of the
  server that no one else uses.
\<close>

section \<open>The request\<close>

lemma open_request_page:
  assumes len: "length path < 1024" and nz: "0 \<notin> set path"
  shows "req_path (copy_path path (store4 (of_nat MAXPATHLEN) mode pg)) = path"
    and "load4 (of_nat MAXPATHLEN) (copy_path path (store4 (of_nat MAXPATHLEN) mode pg)) = mode"
proof -
  let ?p = "store4 1024 mode pg"
  have at: "put_list 0 (path @ [0]) m (of_nat k) = (if k \<le> length path then (path @ [0]) ! k else m (of_nat k))"
    if "k < 4294967296" for k m
    using that len by (simp add: put_list_def unat_of_nat less_Suc_eq_le)
  define xs where "xs = map (\<lambda>k. put_list 0 (path @ [0]) ?p (of_nat k)) [0 ..< 1023]"
  have tk: "take (length path) xs = path"
    using len by (intro nth_equalityI) (auto simp: xs_def at nth_append)
  have "xs = path @ drop (length path) xs" using tk append_take_drop_id [of "length path" xs] by simp
  moreover have "takeWhile (\<lambda>b. b \<noteq> 0) (drop (length path) xs) = []"
  proof (cases "length path < 1023")
    case True
    then have "drop (length path) xs = xs ! length path # drop (Suc (length path)) xs"
      by (intro Cons_nth_drop_Suc [symmetric]) (simp add: xs_def)
    moreover have "xs ! length path = 0" using True by (simp add: xs_def at)
    ultimately show ?thesis by simp
  next
    case False
    then show ?thesis by (simp add: xs_def)
  qed
  ultimately have "takeWhile (\<lambda>b. b \<noteq> 0) xs = path"
    using nz by (metis (mono_tags, lifting) append_Nil2 takeWhile_append2 takeWhile_eq_all_conv)
  then show "req_path (copy_path path (store4 (of_nat MAXPATHLEN) mode pg)) = path"
    by (simp add: req_path_def copy_path_def xs_def MAXPATHLEN_def)
  have "load4 1024 (put_list 0 (path @ [0]) ?p) = load4 1024 ?p"
  proof (rule load4_upd_other)
    fix i :: nat assume "i < 4"
    then have "unat (1024 + of_nat i :: u32) = 1024 + i" by (simp add: unat_word_ariths unat_of_nat)
    then show "put_list 0 (path @ [0]) ?p (1024 + of_nat i) = ?p (1024 + of_nat i)"
      using len by (simp add: put_list_def)
  qed simp
  then show "load4 (of_nat MAXPATHLEN) (copy_path path (store4 (of_nat MAXPATHLEN) mode pg)) = mode"
    by (simp add: copy_path_def MAXPATHLEN_def)
qed

section \<open>Descriptors\<close>

lemma fd_alloc_first:
  assumes n: "n < 32" "upages w (INDEX2FD (of_nat n)) = None"
    and below: "\<And>m. m < n \<Longrightarrow> upages w (INDEX2FD (of_nat m)) \<noteq> None"
  shows "fd_alloc w = (Ret (0, INDEX2FD (of_nat n)), w)"
proof -
  define h :: "nat \<Rightarrow> u32 option userprog" where "h = (\<lambda>i. getsM (\<lambda>w. if upages w (INDEX2FD (of_nat i)) = None
      then Some (INDEX2FD (of_nat i)) else None))"
  have h: "h i w = (Ret (if upages w (INDEX2FD (of_nat i)) = None then Some (INDEX2FD (of_nat i)) else None), w)" for i
    by (simp add: h_def)
  have "firstM [k ..< 32] h w = (Ret (Some (INDEX2FD (of_nat n))), w)" if "k \<le> n" for k
    using that
  proof (induction rule: inc_induct)
    case base
    then show ?case using n by (subst upt_conv_Cons) (simp_all add: h)
  next
    case (step k)
    then show ?case using n(1) below [of k] by (subst upt_conv_Cons) (auto simp: h)
  qed
  from this [of 0] show ?thesis by (simp add: fd_alloc_def MAXFD_def h_def [symmetric] del: upt_rec_numeral)
qed

lemma openfile_first:
  assumes i: "i < 1024" "fd_ref s i \<le> 1" and below: "\<And>j. j < i \<Longrightarrow> 1 < fd_ref s j"
    and mem: "fd_ref s i = 0 \<Longrightarrow> fd_grants s i"
  shows "openfile_alloc s = (Ret (o_fileid (opentab s i) + 1024, i), taken i s)"
proof -
  have "find (\<lambda>i. fd_ref s i \<le> 1) [0 ..< 1024] = Some i"
    unfolding find_Some_iff using i below by (intro exI [of _ i]) (auto simp: not_le)
  then show ?thesis using mem by (auto simp: openfile_alloc_run)
qed

definition ids_ok :: "server \<Rightarrow> bool" where
  "ids_ok s \<longleftrightarrow> (\<forall>i < 1024. unat (o_fileid (opentab s i)) mod 1024 = i)"

lemma ids_next: "unat (x :: u32) mod 1024 = i \<Longrightarrow> unat (x + 1024) mod 1024 = i"
  by (simp add: unat_word_ariths mod_mod_cancel flip: mod_add_left_eq [of _ 1024])

lemma nat_fd:
  assumes "n < 32"
  shows "sint (of_nat n :: i32) = int n" "fd2num (INDEX2FD (of_nat n)) = of_nat n"
proof -
  show s: "sint (of_nat n :: i32) = int n" using assms by (simp add: sint_small unat_of_nat)
  show "fd2num (INDEX2FD (of_nat n)) = of_nat n" using assms by (intro fd_number) (simp_all add: s)
qed

text \<open>
  Opening an existing file, with none of the flags that create or truncate: what the file system
  answers decides.
\<close>

lemma open_file_run:
  assumes path: "length path < 1024" "0 \<notin> set path" and mode: "mode AND O_CREAT = 0" "mode AND O_TRUNC = 0"
    and n: "n < 32" "upages w (INDEX2FD (of_nat n)) = None" "\<And>m. m < n \<Longrightarrow> upages w (INDEX2FD (of_nat m)) \<noteq> None"
    and map: "map_grants w (INDEX2FD (of_nat n))"
    and i: "i < 1024" "fd_ref (srv w) i \<le> 1" "\<And>j. j < i \<Longrightarrow> 1 < fd_ref (srv w) j"
    and mem: "fd_ref (srv w) i = 0 \<Longrightarrow> fd_grants (srv w) i"
    and ids: "ids_ok (srv w)" "\<not> is_neg (o_fileid (opentab (srv w) i) + 1024)"
    and run: "file_open path (fs (srv w)) = (Ret (r, f), t)"
  shows "is_neg r \<Longrightarrow> \<exists>v. open_file path mode w = (Ret r, v) \<and> upages v = upages w \<and> fs (srv v) = t"
    and "\<not> is_neg r \<Longrightarrow> \<exists>v. open_file path mode w = (Ret (of_nat n), v) \<and> is_open v (of_nat n) i
      \<and> upages v = (upages w)(INDEX2FD (of_nat n) \<mapsto> SlotPage i) \<and> fs (srv v) = t
      \<and> o_file (opentab (srv v) i) = f \<and> fd_offset (fd_page (srv v) i) = 0
      \<and> fd_omode (fd_page (srv v) i) = mode AND O_ACCMODE
      \<and> fd_grants (srv v) = fd_grants (srv w)
      \<and> (\<forall>j. j \<noteq> i \<longrightarrow> opentab (srv v) j = opentab (srv w) j \<and> fd_ref (srv v) j = fd_ref (srv w) j)"
proof -
  define fd where "fd = INDEX2FD (of_nat n)"
  define pg where "pg = copy_path path (store4 (of_nat MAXPATHLEN) mode (fsipcbuf w))"
  define u where "u = w\<lparr>fsipcbuf := pg\<rparr>"
  have page: "req_path pg = path" "load4 (of_nat MAXPATHLEN) pg = mode"
    unfolding pg_def by (rule open_request_page [OF path])+
  have al: "fd_alloc w = (Ret (0, fd), w)" unfolding fd_def by (rule fd_alloc_first [OF n])
  have oa: "openfile_alloc (srv u) = (Ret (o_fileid (opentab (srv w) i) + 1024, i), taken i (srv w))"
    using openfile_first [of i "srv w"] i mem by (simp add: u_def)
  have req: "set_request (\<lambda>p. copy_path path (store4 (of_nat MAXPATHLEN) mode p)) w = (Ret (), u)"
    by (simp add: set_request_def u_def pg_def)
  have fs_t: "fs (taken i (srv w)) = fs (srv w)" by (simp add: taken_def)
  show "\<exists>v. open_file path mode w = (Ret r, v) \<and> upages v = upages w \<and> fs (srv v) = t" if neg: "is_neg r"
  proof -
    define v where "v = u\<lparr>srv := (taken i (srv w))\<lparr>fs := t\<rparr>, fsipcbuf := pg\<rparr>"
    have "serve_open pg (srv u) = (Ret (r, None), (taken i (srv w))\<lparr>fs := t\<rparr>)"
      using oa ids(2) run neg mode by (simp add: serve_open_def page Let_def in_fs_def fs_t)
    then have "fsipc FSREQ_OPEN (Some fd) u = (Ret r, v)"
      by (simp add: fsipc_def in_srv_def serve_request_def u_def v_def)
    moreover have "fd_close fd False v = (Ret 0, v)"
      using n(2) nat_fd [OF n(1)] n(1)
      by (simp add: fd_close_def fd_lookup_def fd_def v_def u_def MAXFD_def is_neg_def E_INVAL_def)
    ultimately have "open_file path mode w = (Ret r, v)"
      using path(1) al req neg by (simp add: open_file_def MAXPATHLEN_def is_neg_def)
    then show ?thesis by (simp add: v_def u_def)
  qed
  show "\<exists>v. open_file path mode w = (Ret (of_nat n), v) \<and> is_open v (of_nat n) i
      \<and> upages v = (upages w)(INDEX2FD (of_nat n) \<mapsto> SlotPage i) \<and> fs (srv v) = t
      \<and> o_file (opentab (srv v) i) = f \<and> fd_offset (fd_page (srv v) i) = 0
      \<and> fd_omode (fd_page (srv v) i) = mode AND O_ACCMODE
      \<and> fd_grants (srv v) = fd_grants (srv w)
      \<and> (\<forall>j. j \<noteq> i \<longrightarrow> opentab (srv v) j = opentab (srv w) j \<and> fd_ref (srv v) j = fd_ref (srv w) j)" if pos: "\<not> is_neg r"
  proof -
    define s where "s = upd_fd i (\<lambda>fd. fd\<lparr>fd_file_id := o_fileid (opentab (taken i (srv w)) i),
        fd_omode := mode AND O_ACCMODE, fd_dev_id := devfile_id\<rparr>)
      (upd_open i (\<lambda>x. x\<lparr>o_file := f, o_mode := mode\<rparr>) ((taken i (srv w))\<lparr>fs := t\<rparr>))"
    define x where "x = u\<lparr>srv := s, fsipcbuf := pg\<rparr>"
    define v where "v = map_page fd (SlotPage i) x"
    have "serve_open pg (srv u) = (Ret (0, Some i), s)"
      using oa ids(2) run pos mode by (simp add: serve_open_def page Let_def in_fs_def fs_t s_def is_neg_def)
    then have ipc: "fsipc FSREQ_OPEN (Some fd) u = (Ret 0, v)"
      using map by (simp add: fsipc_def in_srv_def serve_request_def u_def v_def x_def fd_def)
    have run': "open_file path mode w = (Ret (of_nat n), v)"
      using path(1) al req ipc nat_fd [OF n(1)] by (simp add: open_file_def MAXPATHLEN_def is_neg_def fd_def)
    have x: "upages x = upages w" "srv x = s" by (simp_all add: x_def u_def)
    have un: "unmap_page fd x = x" using n(2) by (simp add: unmap_page_def x(1) fd_def fun_upd_idem)
    have one: "fd_ref s i = 1" by (simp add: s_def upd_fd_def upd_open_def taken_def)
    have v: "upages v = (upages w)(fd \<mapsto> SlotPage i)" "srv v = s\<lparr>fd_ref := (fd_ref s)(i := 2)\<rparr>"
      by (simp_all add: v_def map_page_def un x one Let_def numeral_2_eq_2)
    have "unat (o_fileid (opentab (srv w) i) + 1024) mod 1024 = i"
      using ids(1) i(1) by (intro ids_next) (simp add: ids_ok_def)
    then have "is_open v (of_nat n) i"
      using n(1) i(1) nat_fd(1) [OF n(1)] v
      by (simp add: is_open_def fd_def s_def upd_fd_def upd_open_def taken_def)
    then show ?thesis
      using run' v by (simp add: fd_def s_def upd_fd_def upd_open_def taken_def zero_fd_def)
  qed
qed

text \<open>The file is found by walking the path.\<close>

lemma file_open_run:
  assumes "bc_ok s" and "tree (fsmem s) F"
    and "resolve (fsmem s) (components path) 0 (DISKMAP + 0x1000 + s_root) = (r, dir, f, name)"
  shows "\<exists>t. file_open path s = (Ret (r, f), t) \<and> bc_ok t \<and> fsmem t = fsmem s"
  using walk_path_ok [OF assms(1,2), of path] by (auto simp: file_open_def runs_def assms(3))

end
