(* ===== verification/Jos_Fs_Demo.thy ===== *)
theory Jos_Fs_Demo
  imports Jos_Fs_Sync
begin

text \<open>
  A small disk on which the hypotheses of the file system theorems hold: 64 blocks, of which
  0 to 4 are in use, or all of them when \<open>fr\<close> is false. The root directory has one block (3), its first entry is the file
  \<^verbatim>\<open>f\<close> with the five bytes \<^verbatim>\<open>hello\<close> in block 4.
\<close>

definition demo_word :: "bool \<Rightarrow> u32 \<Rightarrow> u32" where
  "demo_word fr a = (if a = 0x10001000 then FS_MAGIC else if a = 0x10001004 then 64
     else if a = 0x10001088 then 4096 else if a = 0x1000108C then 1 else if a = 0x10001090 then 3
     else if a = 0x10002000 \<and> fr then 0xFFFFFFE0 else if a = 0x10002004 \<and> fr then 0xFFFFFFFF
     else if a = 0x10003000 then 0x66 else if a = 0x10003080 then 5 else if a = 0x10003088 then 4
     else if a = 0x10004000 then 0x6C6C6568 else if a = 0x10004004 then 0x6F else 0)"

definition demo_image :: "bool \<Rightarrow> bmem" where
  "demo_image fr a = ucast (drop_bit (8 * (unat a mod 4)) (demo_word fr (a - of_nat (unat a mod 4))))"

definition demo_fs :: "bool \<Rightarrow> fsys" where
  "demo_fs fr = remount \<lparr>cache = (\<lambda>_. 0), uvpt = (\<lambda>_. 0),
     disk = (\<lambda>n i. demo_image fr (DISKMAP + of_nat (n * 512 + i))), bad_sector = (\<lambda>_. False),
     grants = (\<lambda>_. True), super = DISKMAP + 0x1000, bitmap = DISKMAP + 0x2000\<rparr>"

definition demo_root :: u32 where "demo_root = DISKMAP + 0x1000 + s_root"

definition demo_file :: u32 where "demo_file = DISKMAP + 0x3000"

lemma load4_demo:
  assumes "unat a mod 4 = 0"
  shows "load4 a (demo_image fr) = (demo_word fr) a"
proof -
  have b: "(demo_image fr) (a + of_nat i) = ucast (drop_bit (8 * i) ((demo_word fr) a))" if "i < 4" for i
  proof -
    have "unat (a + of_nat i) mod 4 = i" using PGNUM_near(2) [OF assms that] assms that by presburger
    then show ?thesis by (simp add: demo_image_def)
  qed
  show ?thesis
  proof (rule word_eq_bitI)
    fix n assume "n < LENGTH(32)"
    then consider "n < 8" | "8 \<le> n" "n < 16" | "16 \<le> n" "n < 24" | "24 \<le> n" "n < 32" by fastforce
    then show "bit (load4 a (demo_image fr)) n = bit ((demo_word fr) a) n"
      using b [of 0] b [of 1] b [of 2] b [of 3]
      by cases (simp_all add: load4_def bit_or_iff bit_push_bit_iff bit_ucast_iff bit_drop_bit_eq less_diff_conv2)
  qed
qed

lemma demo_zero: "\<not> (0x10001000 \<le> unat a \<and> unat a < 0x10005000) \<Longrightarrow> (demo_image fr) a = 0"
proof -
  assume h: "\<not> (0x10001000 \<le> unat a \<and> unat a < 0x10005000)"
  define q where "q = a - of_nat (unat a mod 4)"
  have "unat q = unat a - unat a mod 4"
    using unat_sub [of "of_nat (unat a mod 4)" a] by (simp add: q_def word_le_nat_alt unat_of_nat mod_less_eq_dividend)
  then have "\<not> (0x10001000 \<le> unat q \<and> unat q < 0x10005000)" using h by presburger
  then have "(demo_word fr) q = 0" by (auto simp: demo_word_def)
  then show ?thesis by (simp add: demo_image_def q_def)
qed

lemma demo_fs_mem: "fsmem (demo_fs fr) = (demo_image fr)"
proof (rule ext)
  fix x
  show "fsmem (demo_fs fr) x = (demo_image fr) x"
  proof (cases "outside_cache x")
    case True
    then have "\<not> (0x10001000 \<le> unat x \<and> unat x < 0x10005000)"
      by (auto simp: outside_cache_def kconst word_less_nat_alt word_le_nat_alt)
    then show ?thesis using True by (simp add: demo_fs_def fsmem_remount demo_zero)
  next
    case False
    have "unat (x - DISKMAP) div 512 * 512 + unat (x - DISKMAP) mod 512 = unat (x - DISKMAP)" by simp
    then have "DISKMAP + of_nat (unat (x - DISKMAP) div 512 * 512 + unat (x - DISKMAP) mod 512) = x" by simp
    then show ?thesis using False by (simp add: demo_fs_def fsmem_remount on_disk_def del: of_nat_add of_nat_mult)
  qed
qed

lemma demo_nblocks: "nblocks (demo_image fr) = 64"
  unfolding nblocks_def by (subst load4_demo) (simp_all add: kconst demo_word_def)

lemma demo_words [simp]: "demo_word fr 0x10002000 = (if fr then NOT (mask 5) else 0)"
  "demo_word fr 0x10002004 = (if fr then - 1 else 0)"
  by (simp_all add: demo_word_def mask_eq_exp_minus_1 not_eq_complement)

lemma demo_bit_free:
  assumes "b < 64"
  shows "bit_free (demo_image fr) b \<longleftrightarrow> fr \<and> 5 \<le> b"
proof -
  have b: "unat b < 64" using assms by (simp add: word_less_nat_alt)
  have lt: "b < 0xC0000" using b by (simp add: word_less_nat_alt)
  have ld: "load4 (bitmap_word b) (demo_image fr) = (demo_word fr) (bitmap_word b)"
    by (rule load4_demo [OF bitmap_word_ok(2) [OF lt]])
  have m: "unat (b mod 32) = unat b mod 32" by (simp add: unat_mod)
  have r: "unat b mod 32 < 32" by simp
  consider "unat b < 32" "b div 32 = 0" | "32 \<le> unat b" "b div 32 = 1"
    using b by (cases "unat b < 32") (auto simp: word_unat_eq_iff unat_div)
  then show ?thesis
  proof cases
    case 1
    then have "(demo_word fr) (bitmap_word b) = (if fr then NOT (mask 5) else 0)" by (simp add: bitmap_word_def kconst)
    then show ?thesis using 1 r by (simp add: bit_free_bit ld m bit_not_iff bit_mask_iff word_le_nat_alt not_less)
  next
    case 2
    then have "(demo_word fr) (bitmap_word b) = (if fr then - 1 else 0)" by (simp add: bitmap_word_def kconst)
    then show ?thesis using 2 r by (simp add: bit_free_bit ld m word_le_nat_alt)
  qed
qed

lemma demo_used: "block_used (demo_image fr) b \<longleftrightarrow> b < 64 \<and> (fr \<longrightarrow> b < 5)"
proof -
  have "(5 :: u32) \<le> b \<longleftrightarrow> \<not> b < 5" by (simp only: not_less)
  then show ?thesis
    using demo_bit_free [of b fr] by (cases "b < 64"; cases fr) (simp_all add: block_used_def demo_nblocks)
qed

lemma demo_geometry: "geometry (demo_image fr)"
proof -
  have "block_used (demo_image fr) (2 + b div 32768)" if "b < 64" for b :: u32
  proof -
    have "unat b div 32768 = 0" using that by (simp add: word_less_nat_alt)
    then have "b div 32768 = 0" by (simp add: word_unat_eq_iff unat_div)
    then show ?thesis by (simp add: demo_used)
  qed
  then show ?thesis by (simp add: geometry_def demo_nblocks)
qed

lemma demo_datab: "datab (demo_image fr) 3" "datab (demo_image fr) 4"
  by (simp_all add: datab_def demo_used demo_nblocks)

lemma demo_free_blocks: "3 \<le> card (free_blocks (demo_image True))" "free_blocks (demo_image False) = {}"
proof -
  have s: "{5, 6, 7} \<subseteq> free_blocks (demo_image True)"
    by (simp add: free_blocks_def scan_limit_def demo_nblocks demo_bit_free)
  have "card {5, 6, 7 :: nat} \<le> card (free_blocks (demo_image True))" by (rule card_mono [OF finite_free_blocks s])
  then show "3 \<le> card (free_blocks (demo_image True))" by simp
  have "(of_nat k :: u32) < 64" if "k < 64" for k using that by (simp add: word_less_nat_alt unat_of_nat)
  then show "free_blocks (demo_image False) = {}"
    by (auto simp: free_blocks_def scan_limit_def demo_nblocks demo_bit_free)
qed

lemma demo_bc: "bc_ok (demo_fs fr)"
proof -
  have "va_is_mapped (DISKMAP + 0x1000) (demo_fs fr)"
    by (simp add: demo_fs_def va_is_mapped_def remount_def PGNUM_eq kconst)
  moreover have "coherent (demo_fs fr)" by (simp add: coherent_def demo_fs_def remount_def on_disk_def)
  moreover have "super (demo_fs fr) = DISKMAP + 0x1000" "bitmap (demo_fs fr) = DISKMAP + 0x2000"
    "grants (demo_fs fr) a" "\<not> bad_sector (demo_fs fr) n" for a n
    by (simp_all add: demo_fs_def remount_def)
  ultimately show ?thesis by (simp add: bc_ok_def demo_fs_mem demo_geometry)
qed

section \<open>The two files\<close>

lemma less_10: "(l :: nat) < 10 \<longleftrightarrow> l \<in> {0, 1, 2, 3, 4, 5, 6, 7, 8, 9}"
  by auto

lemma demo_load: "unat a mod 4 = 0 \<Longrightarrow> load4 a (demo_image fr) = (demo_word fr) a"
  by (rule load4_demo)

lemma demo_indirect: "indirect (demo_image fr) demo_root = 0" "indirect (demo_image fr) demo_file = 0"
  unfolding indirect_def
  by (subst load4_demo; simp add: demo_root_def demo_file_def kconst demo_word_def)+

lemma demo_uses:
  "l \<le> 1034 \<Longrightarrow> uses (demo_image fr) demo_root l = (if l = 0 then 3 else 0)"
  "l \<le> 1034 \<Longrightarrow> uses (demo_image fr) demo_file l = (if l = 0 then 4 else 0)"
proof -
  have d: "uses (demo_image fr) f l = (demo_word fr) (f + 136 + 4 * of_nat l)" if "l < 10" "unat (f + 136 + 4 * of_nat l) mod 4 = 0" for f l
    using that by (simp add: uses_def cell_def kconst load4_demo)
  show "l \<le> 1034 \<Longrightarrow> uses (demo_image fr) demo_root l = (if l = 0 then 3 else 0)"
  proof (cases "l < 10")
    case True
    then show ?thesis
      unfolding less_10 by (elim insertE emptyE; simp add: d demo_root_def kconst demo_word_def)
  next
    case False
    then show "l \<le> 1034 \<Longrightarrow> ?thesis" using demo_indirect(1) by (cases "l = 1034") (simp add: uses_indirect, simp add: uses_def)
  qed
  show "l \<le> 1034 \<Longrightarrow> uses (demo_image fr) demo_file l = (if l = 0 then 4 else 0)"
  proof (cases "l < 10")
    case True
    then show ?thesis
      unfolding less_10 by (elim insertE emptyE; simp add: d demo_file_def kconst demo_word_def)
  next
    case False
    then show "l \<le> 1034 \<Longrightarrow> ?thesis" using demo_indirect(2) by (cases "l = 1034") (simp add: uses_indirect, simp add: uses_def)
  qed
qed

lemma demo_sizes: "fsize (demo_image fr) demo_root = 4096" "fsize (demo_image fr) demo_file = 5"
  unfolding fsize_def by (subst load4_demo; simp add: demo_root_def demo_file_def kconst demo_word_def)+

lemma demo_homes: "blockno_of demo_root = 1" "blockno_of demo_file = 3"
  by (simp_all add: blockno_of_def demo_root_def demo_file_def kconst)

lemma demo_fsinv: "fsinv (demo_image fr) {demo_root, demo_file}"
proof -
  have fa: "file_at (demo_image fr) demo_root" "file_at (demo_image fr) demo_file"
    using demo_homes(2) by (simp_all add: file_at_def demo_datab outside_PGNUM PGNUM_eq demo_root_def demo_file_def)
      (simp_all add: kconst)
  have ne: "demo_root \<noteq> demo_file" and ap: "apart_files demo_root demo_file" "apart_files demo_file demo_root"
    by (simp_all add: demo_root_def demo_file_def apart_files_def kconst)
  show ?thesis
    unfolding fsinv_def
    using fa ne ap demo_geometry demo_indirect demo_sizes demo_homes
    by (auto simp: demo_used demo_uses demo_datab split: if_splits)
qed

lemma demo_plain: "plain (demo_image fr) {demo_root, demo_file} demo_file"
  by (simp add: plain_def demo_uses demo_homes)

section \<open>The directory\<close>

lemma demo_types: "ftype (demo_image fr) demo_root = FTYPE_DIR" "ftype (demo_image fr) demo_file = FTYPE_REG"
  unfolding ftype_def by (subst load4_demo; simp add: demo_root_def demo_file_def kconst demo_word_def)+

lemma demo_records: "records (demo_image fr) demo_root = map (\<lambda>j. 0x10003000 + 0x100 * of_nat j) [0 ..< 16]"
  by (simp add: records_def demo_sizes BLKFILES_def record_at_def demo_uses kconst)

lemma demo_bytes: "(demo_image fr) 0x10003000 = 0x66" "(demo_image fr) 0x10003001 = 0"
  by (simp_all add: demo_image_def demo_word_def)

lemma demo_empty_records: "0 < j \<Longrightarrow> j < 16 \<Longrightarrow> (demo_image fr) (0x10003000 + 0x100 * of_nat j) = 0"
proof -
  assume j: "0 < j" "j < 16"
  define a where "a = 0x10003000 + 0x100 * (of_nat j :: u32)"
  have u: "unat a = 0x10003000 + 0x100 * j" using j(2) by (simp add: a_def unat_word_ariths unat_of_nat)
  then have al: "unat a mod 4 = 0" by presburger
  have "(demo_word fr) a = 0"
    using u j by (auto simp: demo_word_def)
  then show ?thesis using al by (simp add: demo_image_def a_def)
qed

lemma demo_tree: "tree (demo_image fr) {demo_root, demo_file}"
proof -
  have "directory (demo_image fr) demo_root" by (simp add: directory_def demo_sizes demo_uses)
  moreover have "e = demo_file" if e: "e \<in> set (records (demo_image fr) demo_root)" "(demo_image fr) e \<noteq> 0" for e
  proof -
    obtain j where j: "j < 16" "e = 0x10003000 + 0x100 * of_nat j" using e(1) unfolding demo_records set_map set_upt by auto
    then have "j = 0" using demo_empty_records [of j] e(2) by (cases j) auto
    then show ?thesis using j by (simp add: demo_file_def kconst)
  qed
  moreover have "FTYPE_REG \<noteq> FTYPE_DIR" by (simp add: kconst)
  ultimately show ?thesis using demo_fsinv demo_types by (auto simp: tree_def demo_root_def)
qed

lemma demo_lookup: "lookup (demo_image fr) demo_root [0x66] = Some demo_file"
  by (simp add: lookup_def demo_records upt_conv_Cons demo_bytes demo_file_def kconst)

end
