(* ===== verification/Jos_Fd_Demo.thy ===== *)
theory Jos_Fd_Demo
  imports Jos_Fd_Open Jos_Fs_Demo
begin

text \<open>A program and a server on the small disk, before and after opening \<^verbatim>\<open>/f\<close>.\<close>

definition demo_srv :: server where
  "demo_srv = \<lparr>fs = demo_fs True, opentab = (\<lambda>i. \<lparr>o_fileid = of_nat i, o_file = 0, o_mode = 0\<rparr>),
     fd_page = (\<lambda>_. zero_fd), fd_ref = (\<lambda>_. 0), fd_grants = (\<lambda>_. True)\<rparr>"

definition demo_world :: world where
  "demo_world = \<lparr>srv = demo_srv, upages = (\<lambda>_. None), own_pages = (\<lambda>_. zero_fd), fsipcbuf = (\<lambda>_. 0),
     map_grants = (\<lambda>_. True)\<rparr>"

lemma demo_nothing_open: "nothing_open demo_world"
  by (simp add: nothing_open_def shown_at_def demo_world_def demo_srv_def)

lemma demo_ids: "ids_ok demo_srv"
  by (simp add: ids_ok_def demo_srv_def unat_of_nat)

lemma demo_uvpt: "uvpt (demo_fs True) 0 AND PTE_P = 0"
  by (simp add: demo_fs_def remount_def kconst PGNUM_def)

lemma demo_resolve:
  "resolve (demo_image True) (components [0x2F, 0x66]) 0 (DISKMAP + 0x1000 + s_root) = (0, demo_root, demo_file, [])"
proof -
  have "components [0x2F, 0x66] = [[0x66]]"
    by (simp add: components.simps [of "[0x2F, 0x66]"] components.simps [of "[]"])
  then show ?thesis
    using demo_tree by (simp add: demo_lookup demo_types MAXNAMELEN_def demo_root_def [symmetric])
qed

lemma demo_open:
  obtains v where "open_file [0x2F, 0x66] O_RDWR demo_world = (Ret 0, v)" "is_open v 0 0"
    "upages v = [INDEX2FD 0 \<mapsto> SlotPage 0]" "bc_ok (fs (srv v))" "fsmem (fs (srv v)) = demo_image True"
    "o_file (opentab (srv v) 0) = demo_file" "fd_offset (fd_page (srv v) 0) = 0"
    "fd_omode (fd_page (srv v) 0) = O_RDWR" "fd_grants (srv v) = (\<lambda>_. True)"
    "\<And>j. 0 < j \<Longrightarrow> opentab (srv v) j = \<lparr>o_fileid = of_nat j, o_file = 0, o_mode = 0\<rparr> \<and> fd_ref (srv v) j = 0"
    "fd_refs_ok v"
proof -
  obtain t where t: "file_open [0x2F, 0x66] (demo_fs True) = (Ret (0, demo_file), t)" "bc_ok t"
    "fsmem t = demo_image True"
    using file_open_run [OF demo_bc, of True "{demo_root, demo_file}" "[0x2F, 0x66]"] demo_resolve demo_tree
    by (auto simp: demo_fs_mem)
  obtain v where v: "open_file [0x2F, 0x66] O_RDWR demo_world = (Ret 0, v)" "is_open v 0 0"
    "upages v = [INDEX2FD 0 \<mapsto> SlotPage 0]" "fs (srv v) = t"
    "o_file (opentab (srv v) 0) = demo_file" "fd_offset (fd_page (srv v) 0) = 0"
    "fd_omode (fd_page (srv v) 0) = O_RDWR" "fd_grants (srv v) = (\<lambda>_. True)"
    "\<forall>j. j \<noteq> 0 \<longrightarrow> opentab (srv v) j = \<lparr>o_fileid = of_nat j, o_file = 0, o_mode = 0\<rparr> \<and> fd_ref (srv v) j = 0"
    using open_file_run(2) [of "[0x2F, 0x66]" O_RDWR 0 demo_world 0 0 demo_file t] t(1) demo_ids
    by (auto simp: demo_world_def demo_srv_def kconst is_neg_def)
  have "fd_refs_ok demo_world" using calls_refs [OF demo_nothing_open, of "[]"] by simp
  then have "fd_refs_ok v"
    using refs_files(2) [of "[0x2F, 0x66]" O_RDWR] v(1) by (auto simp: refs_inv_def dest: specD_Ret)
  then show thesis using v t(2,3) by (intro that [of v]) simp_all
qed

end
