(* ===== verification/Jos_Fork.thy ===== *)
theory Jos_Fork
  imports Jos_Syscall_Inv
begin

text \<open>
  Copy-on-write \<^verbatim>\<open>fork\<close> of the user library: \<^verbatim>\<open>lib/fork.c\<close>,
  \<^verbatim>\<open>lib/pgfault.c\<close>, \<^verbatim>\<open>lib/pageref.c\<close> and the stubs of
  \<^verbatim>\<open>lib/syscall.c\<close> they call. The program runs as the current environment: it reads
  and writes memory through the page tables with user rights, and enters the kernel by the
  system calls of \<open>Jos_Syscall\<close>. The tables \<^verbatim>\<open>uvpd\<close> and \<^verbatim>\<open>uvpt\<close> are
  read through the mapping of the directory into itself; the read-only arrays
  \<^verbatim>\<open>envs\<close> and \<^verbatim>\<open>pages\<close> are those of the kernel state. Of the C stack and of the
  library's two variables \<^verbatim>\<open>_pgfault_handler\<close> and \<^verbatim>\<open>thisenv\<close> the model has the
  pages: a call writes its return address at \<open>ustack\<close>, an assignment to a variable writes at
  \<open>udata\<close>, and where that page is not writable the fault is taken, with the handler of
  \<^verbatim>\<open>fork\<close> behind it. The words so written are not modelled, the variables are fields of
  the program's record, and the stack of the running functions is taken to lie on one page.
\<close>

section \<open>User programs\<close>

record uproc =
  kst :: kstate
  pgfault_handler :: u32
  thisenv :: nat
  ustack :: u32
  udata :: u32

text \<open>
  How the library code does not return: the kernel does not come back from a call, the program
  panics, or it touches memory its page tables do not grant (the address, and whether it wrote).
\<close>

datatype ustop = InKernel kstop | UserPanic string | UserFault u32 bool

type_synonym 'a uprog = "(uproc, ustop, 'a) prog"

definition in_kernel :: "'a kernel \<Rightarrow> 'a uprog" where
  "in_kernel m w = (case m (kst w) of
     (Ret a, t) \<Rightarrow> (Ret a, w\<lparr>kst := t\<rparr>)
   | (Stop x, t) \<Rightarrow> (Stop (InKernel x), w\<lparr>kst := t\<rparr>))"

definition user_panic :: "string \<Rightarrow> 'a uprog" where
  "user_panic msg = stop (UserPanic msg)"

definition usyscall :: "u32 \<Rightarrow> bool \<Rightarrow> u32 \<Rightarrow> u32 \<Rightarrow> u32 \<Rightarrow> u32 \<Rightarrow> u32 \<Rightarrow> i32 uprog" where
  "usyscall num check a1 a2 a3 a4 a5 =
     bindM (in_kernel (syscall num a1 a2 a3 a4 a5)) (\<lambda>r.
       if check \<and> 0 < sint r then user_panic ''syscall returned (> 0)'' else ret r)"

definition usys_getenvid :: "i32 uprog" where
  "usys_getenvid = usyscall SYS_getenvid False 0 0 0 0 0"

definition usys_page_alloc :: "i32 \<Rightarrow> u32 \<Rightarrow> u32 \<Rightarrow> i32 uprog" where
  "usys_page_alloc envid va perm = usyscall SYS_page_alloc True envid va perm 0 0"

definition usys_page_map :: "i32 \<Rightarrow> u32 \<Rightarrow> i32 \<Rightarrow> u32 \<Rightarrow> u32 \<Rightarrow> i32 uprog" where
  "usys_page_map srcenv srcva dstenv dstva perm =
     usyscall SYS_page_map True srcenv srcva dstenv dstva perm"

definition usys_page_unmap :: "i32 \<Rightarrow> u32 \<Rightarrow> i32 uprog" where
  "usys_page_unmap envid va = usyscall SYS_page_unmap True envid va 0 0 0"

definition usys_env_set_status :: "i32 \<Rightarrow> u32 \<Rightarrow> i32 uprog" where
  "usys_env_set_status envid status = usyscall SYS_env_set_status True envid status 0 0 0"

definition usys_env_set_pgfault_upcall :: "i32 \<Rightarrow> u32 \<Rightarrow> i32 uprog" where
  "usys_env_set_pgfault_upcall envid upcall =
     usyscall SYS_env_set_pgfault_upcall True envid upcall 0 0 0"

text \<open>The inlined stub of \<^verbatim>\<open>inc/lib.h\<close>, which checks nothing.\<close>

definition usys_exofork :: "i32 uprog" where
  "usys_exofork = in_kernel (syscall SYS_exofork 0 0 0 0 0)"

section \<open>Memory with user rights\<close>

text \<open>
  The walk of the processor in user mode: both levels must be present and open to user mode,
  and for a write both must be writable. The result is a frame and the index of a word.
\<close>

definition uwalk :: "kstate \<Rightarrow> bool \<Rightarrow> u32 \<Rightarrow> (nat \<times> nat) option" where
  "uwalk s wr va =
     (let pde = ram s (cr3 s) (PDX va) in
      if pde AND PTE_P = 0 \<or> pde AND PTE_U = 0 \<or> wr \<and> pde AND PTE_W = 0 then None
      else let pte = ram s (pte_frame pde) (PTX va) in
        if pte AND PTE_P = 0 \<or> pte AND PTE_U = 0 \<or> wr \<and> pte AND PTE_W = 0 then None
        else Some (pte_frame pte, PGOFF va div 4))"

text \<open>Loads and stores of aligned words.\<close>

definition uload32 :: "u32 \<Rightarrow> u32 uprog" where
  "uload32 va w = (case uwalk (kst w) False va of
     None \<Rightarrow> (Stop (UserFault va False), w)
   | Some (f, i) \<Rightarrow> (Ret (ram (kst w) f i), w))"

definition ustore32 :: "u32 \<Rightarrow> u32 \<Rightarrow> unit uprog" where
  "ustore32 va v w = (case uwalk (kst w) True va of
     None \<Rightarrow> (Stop (UserFault va True), w)
   | Some (f, i) \<Rightarrow> (Ret (), w\<lparr>kst := store_word f i v (kst w)\<rparr>))"

definition UVPD :: u32 where
  "UVPD = UVPT + (drop_bit 12 UVPT) * 4"

definition uvpd_at :: "nat \<Rightarrow> u32 uprog" where
  "uvpd_at i = uload32 (UVPD + 4 * of_nat i)"

definition uvpt_at :: "nat \<Rightarrow> u32 uprog" where
  "uvpt_at n = uload32 (UVPT + 4 * of_nat n)"

text \<open>
  \<^verbatim>\<open>memmove\<close> of a whole page between page-aligned addresses: pages that are not the
  same do not overlap, so the words are copied upwards.
\<close>

definition copy_page :: "u32 \<Rightarrow> u32 \<Rightarrow> unit uprog" where
  "copy_page dst src = forM [0 ..< 1024] (\<lambda>i.
     bindM (uload32 (src + 4 * of_nat i)) (\<lambda>v. ustore32 (dst + 4 * of_nat i) v))"

section \<open>Page faults\<close>

definition FEC_PR :: u32 where [kconst]: "FEC_PR = 0x1"
definition FEC_WR :: u32 where [kconst]: "FEC_WR = 0x2"
definition FEC_U :: u32 where [kconst]: "FEC_U = 0x4"

text \<open>The two fields of \<^verbatim>\<open>struct UTrapframe\<close> that the handler reads are its arguments.\<close>

definition pgfault :: "u32 \<Rightarrow> u32 \<Rightarrow> unit uprog" where
  "pgfault fault_va err =
     (if err AND FEC_WR = 0 then user_panic ''Fault not caused by write''
      else bindM (uvpt_at (PGNUM (ROUNDDOWN fault_va PGSIZE))) (\<lambda>pte.
      if pte AND PTE_COW = 0 then user_panic ''Page not copy on write''
      else let addr = ROUNDDOWN fault_va PGSIZE in
        bindM usys_getenvid (\<lambda>e.
        bindM (usys_page_alloc e PFTEMP (PTE_P OR PTE_U OR PTE_W)) (\<lambda>r.
        if is_neg r then user_panic ''Page can't be allocated''
        else thenM (copy_page PFTEMP addr)
        (bindM usys_getenvid (\<lambda>e1. bindM usys_getenvid (\<lambda>e2.
        bindM (usys_page_map e1 PFTEMP e2 addr (PTE_P OR PTE_U OR PTE_W)) (\<lambda>r.
        if is_neg r then user_panic ''Temp page can't be mapped''
        else bindM usys_getenvid (\<lambda>e3. bindM (usys_page_unmap e3 PFTEMP) (\<lambda>r.
        if is_neg r then user_panic ''sys_page_unmap'' else ret ())))))))))) "

text \<open>
  A write that the program itself makes, at \<open>va\<close>. If the page tables do not allow it, the
  trap goes to \<^verbatim>\<open>page_fault_handler\<close> of the kernel, which destroys an environment without
  an upcall or without a writable exception stack, and otherwise resumes the program at its upcall:
  on the exception stack, in the handler of \<^verbatim>\<open>fork\<close>. The instruction is then repeated.
\<close>

definition uwrite :: "u32 \<Rightarrow> unit uprog" where
  "uwrite va w =
     (if uwalk (kst w) True va \<noteq> None then (Ret (), w)
      else case curenv (kst w) of
        None \<Rightarrow> (Stop (UserFault va True), w)
      | Some c \<Rightarrow>
          if env_pgfault_upcall (envs (kst w) c) = 0 \<or> uwalk (kst w) True (UXSTACKTOP - 4) = None
          then (Stop (UserFault va True), w)
          else pgfault va (FEC_PR OR FEC_WR OR FEC_U) w)"

text \<open>
  A call pushes its return address. \<^verbatim>\<open>sys_exofork\<close> is inlined and calls nothing; the
  calls inside the handler are made on the exception stack, and those inside
  \<^verbatim>\<open>set_pgfault_handler\<close> follow the push of the call to it, with nothing between them
  that could take the right to write the stack away.
\<close>

definition calling :: "'a uprog \<Rightarrow> 'a uprog" where
  "calling m = thenM (bindM (getsM ustack) uwrite) m"

definition set_pgfault_handler :: "u32 \<Rightarrow> u32 \<Rightarrow> unit uprog" where
  "set_pgfault_handler upcall handler =
     thenM (bindM (getsM pgfault_handler) (\<lambda>h. whenM (h = 0)
       (bindM usys_getenvid (\<lambda>env.
        bindM (usys_page_alloc env (UXSTACKTOP - PGSIZE) (PTE_U OR PTE_P OR PTE_W)) (\<lambda>r.
        if is_neg r then user_panic (''Page allocation failed'' @ [CHR 0x0A])
        else bindM (usys_env_set_pgfault_upcall env upcall) (\<lambda>r.
        if is_neg r then user_panic (''Unable to register handler'' @ [CHR 0x0A]) else ret ()))))))
     (thenM (bindM (getsM udata) uwrite) (modifyM (\<lambda>w. w\<lparr>pgfault_handler := handler\<rparr>)))"

section \<open>Fork\<close>

definition duppage :: "i32 \<Rightarrow> nat \<Rightarrow> i32 uprog" where
  "duppage envid pn =
     (let va = of_nat pn * PGSIZE in
      bindM (uvpt_at pn) (\<lambda>pte.
      if pte AND PTE_W \<noteq> 0 \<or> pte AND PTE_COW \<noteq> 0 then
        bindM (calling usys_getenvid) (\<lambda>e.
        bindM (calling (usys_page_map e va envid va (PTE_COW OR PTE_P OR PTE_U))) (\<lambda>r.
        if is_neg r then user_panic ''Mapping failed''
        else bindM (calling usys_getenvid) (\<lambda>e1. bindM (calling usys_getenvid) (\<lambda>e2.
          bindM (calling (usys_page_map e1 va e2 va (PTE_COW OR PTE_P OR PTE_U))) (\<lambda>r.
          if is_neg r then user_panic ''Can't set parent page perm'' else ret 0)))))
      else
        bindM (calling usys_getenvid) (\<lambda>e.
        bindM (calling (usys_page_map e va envid va (PTE_P OR PTE_U))) (\<lambda>r.
        if is_neg r then user_panic ''Can't map other page'' else ret 0))))"

definition fork_page :: "i32 \<Rightarrow> nat \<Rightarrow> unit uprog" where
  "fork_page child pn =
     bindM (uvpd_at (PDX (of_nat pn * PGSIZE))) (\<lambda>pde.
     if pde AND PTE_P = 0 then ret ()
     else bindM (uvpt_at pn) (\<lambda>pte.
     if pte AND PTE_P = 0 then ret ()
     else if of_nat pn * PGSIZE \<noteq> UXSTACKTOP - PGSIZE then bindM (calling (duppage child pn)) (\<lambda>_. ret ())
     else ret ()))"

text \<open>What each side does with the result of \<^verbatim>\<open>sys_exofork\<close>.\<close>

definition fork_child :: "i32 uprog" where
  "fork_child = bindM (calling usys_getenvid) (\<lambda>e.
     thenM (bindM (getsM udata) uwrite) (thenM (modifyM (\<lambda>w. w\<lparr>thisenv := ENVX e\<rparr>)) (ret 0)))"

definition fork_parent :: "i32 \<Rightarrow> i32 uprog" where
  "fork_parent child =
     thenM (forM [0 ..< PGNUM UTOP] (fork_page child))
     (bindM (calling (usys_page_alloc child (UXSTACKTOP - PGSIZE) (PTE_P OR PTE_W OR PTE_U))) (\<lambda>r.
      if is_neg r then user_panic ''Can't allocate new page for exception stack''
      else bindM (getsM (\<lambda>w. env_pgfault_upcall (envs (kst w) (thisenv w)))) (\<lambda>upcall.
      bindM (calling (usys_env_set_pgfault_upcall child upcall)) (\<lambda>r.
      if is_neg r then user_panic ''Unable to set pg fault upcall''
      else bindM (calling (usys_env_set_status child (status_code ENV_RUNNABLE))) (\<lambda>r.
      if is_neg r then user_panic ''Unable to set status Runnable'' else ret child)))))"

definition fork :: "u32 \<Rightarrow> u32 \<Rightarrow> i32 uprog" where
  "fork upcall handler =
     thenM (calling (set_pgfault_handler upcall handler))
     (bindM usys_exofork (\<lambda>child.
      if is_neg child then user_panic ''Child not forkded''
      else if child = 0 then fork_child else fork_parent child))"

definition sfork :: "i32 uprog" where
  "sfork = user_panic ''sfork not implemented''"

section \<open>Reference counts\<close>

definition pageref :: "u32 \<Rightarrow> u32 uprog" where
  "pageref v =
     bindM (uvpd_at (PDX v)) (\<lambda>pde.
     if pde AND PTE_P = 0 then ret 0
     else bindM (uvpt_at (PGNUM v)) (\<lambda>pte.
     if pte AND PTE_P = 0 then ret 0
     else getsM (\<lambda>w. ucast (pp_ref (pages (kst w) (PGNUM pte))))))"

end
