(* ===== verification/Jos_Fork_Mem.thy ===== *)
theory Jos_Fork_Mem
  imports Jos_Fork
begin

text \<open>
  What the kernel calls of \<open>Jos_Fork\<close> do to the memory a user program sees: the
  directory of the current environment is readable through its own mapping, the walk with user
  rights follows \<open>umap\<close>, the counter of a user page is the number of its mappings, and each
  page call keeps the contents of the mapped pages.
\<close>

section \<open>The running program\<close>

definition running :: "kstate \<Rightarrow> nat set \<Rightarrow> nat \<Rightarrow> bool" where
  "running s K c \<longleftrightarrow> ready s K c \<and> env_pgdir (envs s c) = Some (cr3 s) \<and> open_tables s (dirs s)"

lemma running_dir: "running s K c \<Longrightarrow> cr3 s \<in> dirs s"
  by (auto simp: running_def ready_def dirs_def)

lemma running_inv:
  assumes "running s K c"
  obtains fl where "mem_inv s (dirs s) K fl" and "leak_free s K fl" and "cr3 s < 0x100000"
proof -
  obtain fl where fl: "mem_inv s (dirs s) K fl" "leak_free s K fl"
    using assms by (auto simp: running_def ready_def kinv_def)
  have "cr3 s < npages s" using mem_invD(5) [OF fl(1), of "Dir (cr3 s)"] running_dir [OF assms] by simp
  then show ?thesis using fl mem_invD(2) [OF fl(1)] by (intro that) auto
qed

lemma unat_UVPT: "n < 1024 * 1024 \<Longrightarrow> unat (UVPT + 4 * of_nat n) = 0xEF400000 + 4 * n"
  by (simp add: unat_word_ariths unat_of_nat kconst)

lemma index_parts:
  assumes n: "n < 1024 * 1024"
  shows "PDX (UVPT + 4 * of_nat n) = PDX UVPT" and "PTX (UVPT + 4 * of_nat n) = n div 1024"
    and "PGOFF (UVPT + 4 * of_nat n) div 4 = n mod 1024"
proof -
  note u = unat_UVPT [OF n]
  have "PDX UVPT = 957" by (simp add: PDX_eq kconst)
  moreover have "(0xEF400000 + 4 * n) div 4194304 = 957" using n by simp
  ultimately show "PDX (UVPT + 4 * of_nat n) = PDX UVPT" by (simp only: PDX_eq [of "UVPT + _"] u)
  have "(0xEF400000 + 4 * n) div 4096 mod 1024 = n div 1024"
  proof -
    have "(0xEF400000 + 4 * n) div 4096 = n div 1024 + 957 * 1024" by simp
    moreover have "n div 1024 < 1024" using n by simp
    ultimately show ?thesis by (simp only: mod_mult_self1 mod_less)
  qed
  then show "PTX (UVPT + 4 * of_nat n) = n div 1024" by (simp only: PTX_eq u)
  have "0xEF400000 + 4 * n = 4 * (n + 979968 * 1024)" by simp
  then have "(0xEF400000 + 4 * n) mod (4 * 1024) = 4 * (n mod 1024)"
    by (simp only: mult_mod_right [symmetric] mod_mult_self1)
  then have "(0xEF400000 + 4 * n) mod 4096 div 4 = n mod 1024" by simp
  then show "PGOFF (UVPT + 4 * of_nat n) div 4 = n mod 1024" by (simp only: PGOFF_eq u)
qed

lemma UVPD_eq: "i < 1024 \<Longrightarrow> UVPD + 4 * of_nat i = UVPT + 4 * of_nat (1024 * PDX UVPT + i)"
  by (simp add: UVPD_def kconst PDX_eq)

lemma self_entry:
  assumes r: "running s K c"
  shows "ram s (cr3 s) (PDX UVPT) AND PTE_P \<noteq> 0" and "ram s (cr3 s) (PDX UVPT) AND PTE_U \<noteq> 0"
    and "pte_frame (ram s (cr3 s) (PDX UVPT)) = cr3 s"
proof -
  obtain fl where d: "cr3 s < 0x100000" using r by (rule running_inv)
  have e: "ram s (cr3 s) (PDX UVPT) = mk_pte (cr3 s) PTE_U"
    using r running_dir [OF r] by (simp add: running_def open_tables_def mk_pte_def page2pa_def or.assoc or.commute)
  have b: "PTE_U < 0x1000" "PTE_P < 0x1000" by (simp_all add: kconst)
  show "ram s (cr3 s) (PDX UVPT) AND PTE_P \<noteq> 0" unfolding e mk_pte_flag [OF b(2,1)] by (simp add: kconst)
  show "ram s (cr3 s) (PDX UVPT) AND PTE_U \<noteq> 0" unfolding e mk_pte_flag [OF b(1,1)] by (simp add: kconst)
  show "pte_frame (ram s (cr3 s) (PDX UVPT)) = cr3 s" unfolding e using d b by simp
qed

lemma uwalk_uvpt:
  assumes r: "running s K c" and n: "n < 1024 * 1024"
  shows "uwalk s False (UVPT + 4 * of_nat n) =
    (let e = ram s (cr3 s) (n div 1024) in
     if e AND PTE_P = 0 \<or> e AND PTE_U = 0 then None else Some (pte_frame e, n mod 1024))"
  using self_entry [OF r] by (simp add: uwalk_def index_parts [OF n] Let_def)

text \<open>What the two tables show of the space of the running program.\<close>

lemma uvpd_reads:
  assumes r: "running (kst w) K c" and i: "i < 1024"
  shows "uvpd_at i w = (Ret (ram (kst w) (cr3 (kst w)) i), w)"
proof -
  have n: "1024 * PDX UVPT + i < 1024 * 1024" using i by (simp add: PDX_eq kconst)
  have "(1024 * PDX UVPT + i) div 1024 = PDX UVPT" "(1024 * PDX UVPT + i) mod 1024 = i" using i by simp_all
  then show ?thesis
    using self_entry [OF r] uwalk_uvpt [OF r n] unfolding uvpd_at_def uload32_def UVPD_eq [OF i] by (simp add: Let_def)
qed

lemma uvpt_reads:
  assumes r: "running (kst w) K c" and n: "n < 1024 * UPDX"
  shows "uvpt_at n w = (case tab_of (kst w) (cr3 (kst w)) (n div 1024) of
     None \<Rightarrow> (Stop (UserFault (UVPT + 4 * of_nat n) False), w)
   | Some t \<Rightarrow> (Ret (ram (kst w) t (n mod 1024)), w))"
proof -
  have n': "n < 1024 * 1024" using n by (simp add: kconst)
  have "ram (kst w) (cr3 (kst w)) (n div 1024) AND PTE_U \<noteq> 0"
    if "present (ram (kst w) (cr3 (kst w)) (n div 1024))"
    using that r running_dir [OF r] div_UPDX [OF n] by (simp add: running_def open_tables_def)
  then show ?thesis
    by (auto simp: uvpt_at_def uload32_def uwalk_uvpt [OF r n'] Let_def tab_of_def entry_frame_def present_def)
qed

text \<open>The pages of the program.\<close>

lemma uwalk_umap:
  assumes r: "running s K c" and va: "va < UTOP"
  shows "uwalk s wr va = (case umap s (cr3 s) (PGNUM va) of None \<Rightarrow> None
    | Some e \<Rightarrow> if e AND PTE_U = 0 \<or> wr \<and> e AND PTE_W = 0 then None else Some (pte_frame e, PGOFF va div 4))"
proof -
  have i: "PDX va < UPDX" using va by (simp add: below_UTOP_iff)
  have "ram s (cr3 s) (PDX va) AND PTE_U \<noteq> 0 \<and> ram s (cr3 s) (PDX va) AND PTE_W \<noteq> 0"
    if "present (ram s (cr3 s) (PDX va))"
    using that r running_dir [OF r] i by (simp add: running_def open_tables_def)
  then show ?thesis
    by (auto simp: uwalk_def umap_def Let_def tab_of_def entry_frame_def present_def
        PDX_of_PGNUM [symmetric] PTX_of_PGNUM [symmetric])
qed

section \<open>Mappings of a page\<close>

definition mappings :: "kstate \<Rightarrow> nat \<Rightarrow> (nat \<times> nat) set" where
  "mappings s f = {(d, m). d \<in> dirs s \<and> m < 1024 * UPDX \<and> map_option pte_frame (umap s d m) = Some f}"

lemma finite_mappings: "finite (dirs s) \<Longrightarrow> finite (mappings s f)"
  by (rule finite_subset [of _ "dirs s \<times> {..< 1024 * UPDX}"]) (auto simp: mappings_def)

lemma user_frame_mappings: "user_frame s f \<longleftrightarrow> mappings s f \<noteq> {}"
  by (auto simp: user_frame_def mappings_def)

lemma user_frameI: "umap s d m = Some y \<Longrightarrow> d \<in> dirs s \<Longrightarrow> m < 1024 * UPDX \<Longrightarrow> user_frame s (pte_frame y)"
  unfolding user_frame_def by force

lemma mappings_counted:
  assumes inv: "mem_inv s (dirs s) K fl" and f: "user_frame s f"
  shows "unat (pp_ref (pages s f)) = card (mappings s f)"
proof -
  obtain d m where m: "d \<in> dirs s" "m < 1024 * UPDX" "map_option pte_frame (umap s d m) = Some f"
    using f by (auto simp: user_frame_def)
  have x: "target s (dirs s) (Pg d (m div 1024) (m mod 1024)) = Some f"
    using umap_target [OF m(1,2)] m(3) by simp
  have pg: "is_Pg y" if "target s (dirs s) y = Some f" for y
    using owned_onceD [OF mem_invD(7) [OF inv] x that] by auto
  let ?g = "\<lambda>(d, m). Pg d (m div 1024) (m mod 1024)"
  have "refs s (dirs s) f = ?g ` mappings s f"
  proof
    show "?g ` mappings s f \<subseteq> refs s (dirs s) f"
      using umap_target by (auto simp: refs_def mappings_def)
    show "refs s (dirs s) f \<subseteq> ?g ` mappings s f"
    proof
      fix y assume "y \<in> refs s (dirs s) f"
      then have y: "target s (dirs s) y = Some f" by (simp add: refs_def)
      then obtain a i j where p: "y = Pg a i j" using pg [OF y] by (cases y) simp_all
      have a: "a \<in> dirs s" "i < UPDX" "j < 1024" using y p by (auto split: if_splits)
      then have k: "1024 * i + j < 1024 * UPDX" "(1024 * i + j) div 1024 = i" "(1024 * i + j) mod 1024 = j"
        by simp_all
      have "(a, 1024 * i + j) \<in> mappings s f"
        using umap_target [OF a(1) k(1), of s] k y p a(1) by (simp add: mappings_def del: target.simps)
      then show "y \<in> ?g ` mappings s f" using k p by (force intro!: image_eqI [of _ _ "(a, 1024 * i + j)"])
    qed
  qed
  moreover have "inj_on ?g (mappings s f)"
    by (rule inj_onI) (auto, metis div_mult_mod_eq)
  ultimately have "card (refs s (dirs s) f) = card (mappings s f)" by (simp add: card_image)
  then show ?thesis
    using mapped_page(1,2) [OF inv x] mem_invD(8) [OF inv] by (simp add: counted_def)
qed

lemma mappings_step:
  assumes "maps_agree s t (dirs s) d n v" and "dirs t = dirs s"
  shows "mappings t f \<subseteq> insert (d, n) (mappings s f)"
proof
  fix x assume "x \<in> mappings t f"
  then obtain a m where x: "x = (a, m)" "a \<in> dirs s" "m < 1024 * UPDX" "map_option pte_frame (umap t a m) = Some f"
    using assms(2) by (auto simp: mappings_def)
  have "umap t a m = (if a = d \<and> m = n then v else umap s a m)"
    using assms(1) x(2,3) by (simp add: maps_agree_def)
  then show "x \<in> insert (d, n) (mappings s f)" using x by (cases "a = d \<and> m = n") (simp_all add: mappings_def)
qed

section \<open>The page calls\<close>

text \<open>
  A call that changed one mapping and nothing else: \<open>mapped s t K c d n v\<close> says that the
  page of number \<open>n\<close> in the space \<open>d\<close> is now \<open>v\<close>, and that every page mapped before has
  its contents.
\<close>

definition remapped ::
    "kstate \<Rightarrow> kstate \<Rightarrow> nat set \<Rightarrow> nat \<Rightarrow> nat \<Rightarrow> nat \<Rightarrow> u32 option \<Rightarrow> bool" where
  "remapped s t K c d n v \<longleftrightarrow> running t K c \<and> rest_same s t \<and> contents_kept s t
     \<and> maps_agree s t (dirs s) d n v \<and> d \<in> dirs s"

lemma rest_same_dirs: "rest_same s t \<Longrightarrow> dirs t = dirs s"
  using rest_sameD(2) [of s t] by (simp add: dirs_def live_def)

lemma remappedI:
  assumes r: "running s K c" and k: "mem_inv t (dirs s) K fl" "leak_free t K fl" "rest_same s t"
    and "contents_kept s t" and "maps_agree s t (dirs s) d n v" and "d \<in> dirs s" and "open_tables t (dirs s)"
  shows "remapped s t K c d n v"
proof -
  have rr: "ready s K c" "kinv s K" using r by (simp_all add: running_def ready_def)
  have "ready t K c" by (rule ready_mem [OF rr(1) kinv_mem [OF rr(2) k(3,1,2)] k(3)])
  then show ?thesis
    using r assms rest_sameD(2,7) [OF k(3)] rest_same_dirs [OF k(3)] by (simp add: remapped_def running_def)
qed

text \<open>A page that was mapped nowhere is mapped once.\<close>

lemma fresh_mappings:
  assumes r: "running s K c" and m: "remapped s t K c d n (Some (mk_pte q perm))"
    and q: "\<not> user_frame s q" "q < npages s" and perm: "perm < 0x1000" and n: "n < 1024 * UPDX"
  shows "mappings t q = {(d, n)}" and "pte_frame (mk_pte q perm) = q"
proof -
  obtain fl where fl: "mem_inv s (dirs s) K fl" using r by (rule running_inv)
  show fr: "pte_frame (mk_pte q perm) = q" using q(2) mem_invD(2) [OF fl] perm by simp
  have t: "dirs t = dirs s" "d \<in> dirs s" using m rest_same_dirs by (auto simp: remapped_def)
  have u: "umap t a k = (if a = d \<and> k = n then Some (mk_pte q perm) else umap s a k)"
    if "a \<in> dirs s" "k < 1024 * UPDX" for a k using m that by (simp add: remapped_def maps_agree_def)
  have "(a, k) \<in> mappings t q \<longleftrightarrow> (a, k) = (d, n)" for a k
  proof
    assume "(a, k) \<in> mappings t q"
    then have x: "a \<in> dirs s" "k < 1024 * UPDX" "map_option pte_frame (umap t a k) = Some q"
      using t by (auto simp: mappings_def)
    have "(a, k) \<notin> mappings s q" using q(1) by (simp add: user_frame_mappings)
    then have "map_option pte_frame (umap s a k) \<noteq> Some q" using x(1,2) by (simp add: mappings_def)
    then show "(a, k) = (d, n)" using x(3) u [OF x(1,2)] by (auto split: if_splits)
  next
    assume "(a, k) = (d, n)"
    then show "(a, k) \<in> mappings t q" using t u [OF t(2) n] n fr by (simp add: mappings_def)
  qed
  then show "mappings t q = {(d, n)}" by auto
qed

lemma sys_page_alloc_memory:
  assumes r: "running s K c" and run: "sys_page_alloc envid va perm s = (Ret 0, t)"
  shows "\<exists>e d p. envid2env envid True s = (Ret (0, Some e), s) \<and> env_pgdir (envs s e) = Some d \<and> live s e
    \<and> remapped s t K c d (PGNUM va) (Some (mk_pte p perm)) \<and> (\<forall>i. ram t p i = 0)
    \<and> \<not> user_frame s p \<and> p < npages s"
proof -
  have rd: "ready s K c" using r by (simp add: running_def)
  have nb: "\<not> bad_va va" "\<not> bad_perm perm" using run by (auto simp: sys_page_alloc_def kconst split: if_splits)
  then have va: "va < UTOP" and perm: "perm < 0x1000" by (auto intro: bad_vaD bad_permD)
  obtain e where e: "envid2env envid True s = (Ret (0, Some e), s)" "live s e"
    using rd by (cases rule: envid2env_cases [where envid = envid and chk = True])
      (use run nb in \<open>auto simp: sys_page_alloc_def kconst\<close>)
  obtain d where d: "the_pgdir e s = (Ret d, s)" "d \<in> dirs s" "env_pgdir (envs s e) = Some d"
    by (rule live_space [OF rd e(2)])
  obtain fl where fl: "mem_inv s (dirs s) K fl" "leak_free s K fl" using r by (rule running_inv)
  show ?thesis
  proof (cases fl)
    case Nil
    then have "page_alloc ALLOC_ZERO s = (Ret None, s)" using page_alloc_None [of s "dirs s" K] fl(1) by simp
    then show ?thesis using run nb e by (simp add: sys_page_alloc_def kconst)
  next
    case (Cons p fl')
    from page_alloc_spec [OF fl(1), of ALLOC_ZERO] Cons obtain u where
      u: "page_alloc ALLOC_ZERO s = (Ret (Some p), u)" "mem_inv u (dirs s) K fl'"
        "insertable u (dirs s) K fl' p" "ram u = (ram s)(p := (\<lambda>_. 0))" "rest_same s u"
        "leak_free s K fl \<longrightarrow> leak_free u (insert p K) fl'" "\<forall>x. target u (dirs s) x = target s (dirs s) x"
        "\<forall>a \<in> dirs s. \<forall>m < 1024 * UPDX. umap u a m = umap s a m" by auto
    have eu: "the_pgdir e u = (Ret d, u)" using d rest_sameD(2) [OF u(5)] by (simp add: the_pgdir_def)
    have ins: "page_insert d p va perm u = (Ret 0, t)"
      using run nb e u(1) eu by (auto simp: sys_page_alloc_def the_env_def kconst split: prod.splits outcome.splits if_splits)
    then obtain fl'' where t: "mem_inv t (dirs s) K fl''"
      "maps_agree u t (dirs s) d (PGNUM va) (Some (mk_pte p perm))" "rest_same u t"
      "leak_free u (insert p K) fl' \<longrightarrow> leak_free t K fl''"
      "\<forall>f. f \<notin> set fl' \<longrightarrow> \<not> structural u (dirs s) f \<longrightarrow> ram t f = ram u f"
      "open_tables u (dirs s) \<longrightarrow> open_tables t (dirs s)"
      using page_insert_full [OF u(2) d(2) va u(3) perm] by (auto simp: kconst split: if_splits)
    have st: "structural u (dirs s) f = structural s (dirs s) f" for f using u(7) by (simp add: structural_def)
    have new: "\<not> user_frame s p" using user_frame_plain(1) [OF fl(1), of p] Cons by auto
    have pD: "p \<notin> dirs s" using free_unreferenced [OF fl(1), of p "Dir p"] Cons by auto
    have same: "ram t f = ram u f" if "f \<notin> set fl" "\<not> structural s (dirs s) f" for f
      using t(5) that Cons st by simp
    have "ram t f = ram s f" if "f \<notin> set fl" "\<not> structural s (dirs s) f" for f
      using same [OF that] that Cons u(4) by auto
    then have "contents_kept s t" by (rule contents_keptI [OF fl(1)])
    moreover have "open_tables u (dirs s)" using r pD u(4) by (auto simp: running_def open_tables_def)
    moreover have "maps_agree s t (dirs s) d (PGNUM va) (Some (mk_pte p perm))"
      using t(2) u(8) by (simp add: maps_agree_def)
    ultimately have m: "remapped s t K c d (PGNUM va) (Some (mk_pte p perm))"
      by (intro remappedI [OF r t(1) _ rest_same_trans [OF u(5) t(3)] _ _ d(2)]) (use t(4,6) u(6) fl(2) in blast)+
    have "ram t p = ram u p" using t(5) u(3) st by (auto simp: insertable_def structural_def)
    then have "\<forall>i. ram t p i = 0" using u(4) by simp
    moreover have "p < npages s" using u(3) rest_sameD(1) [OF u(5)] by (simp add: insertable_def)
    ultimately show ?thesis using e d m new by blast
  qed
qed

lemma sys_page_unmap_memory:
  assumes r: "running s K c" and run: "sys_page_unmap envid va s = (Ret 0, t)"
  shows "\<exists>e d. envid2env envid True s = (Ret (0, Some e), s) \<and> env_pgdir (envs s e) = Some d \<and> live s e
    \<and> remapped s t K c d (PGNUM va) None"
proof -
  have rd: "ready s K c" using r by (simp add: running_def)
  have nb: "\<not> bad_va va" using run by (auto simp: sys_page_unmap_def kconst split: if_splits)
  then have va: "va < UTOP" by (rule bad_vaD)
  obtain e where e: "envid2env envid True s = (Ret (0, Some e), s)" "live s e"
    using rd by (cases rule: envid2env_cases [where envid = envid and chk = True])
      (use run nb in \<open>auto simp: sys_page_unmap_def kconst\<close>)
  obtain d where d: "the_pgdir e s = (Ret d, s)" "d \<in> dirs s" "env_pgdir (envs s e) = Some d"
    by (rule live_space [OF rd e(2)])
  obtain fl where fl: "mem_inv s (dirs s) K fl" "leak_free s K fl" using r by (rule running_inv)
  obtain t' fl' where t: "page_remove d va s = (Ret (), t')" "mem_inv t' (dirs s) K fl'"
    "maps_agree s t' (dirs s) d (PGNUM va) None" "rest_same s t'"
    "leak_free s K fl \<longrightarrow> leak_free t' K fl'" "\<forall>f. \<not> structural s (dirs s) f \<longrightarrow> ram t' f = ram s f"
    "open_tables s (dirs s) \<longrightarrow> open_tables t' (dirs s)" using page_remove_full [OF fl(1) d(2) va] by blast
  have "t' = t" using run nb e d t(1) by (simp add: sys_page_unmap_def the_env_def)
  moreover have "contents_kept s t'" by (rule contents_keptI [OF fl(1)]) (use t(6) in blast)
  moreover have "leak_free t' K fl'" "open_tables t' (dirs s)" using t(5,7) fl(2) r by (auto simp: running_def)
  ultimately have "remapped s t K c d (PGNUM va) None"
    using remappedI [OF r t(2) _ t(4) _ t(3) d(2)] by simp
  then show ?thesis using e d by blast
qed

lemma page_mapped_memory:
  assumes r: "running s K c" and t: "ready t K c" and m: "page_mapped s t c srcenvid srcva dstenvid dstva perm"
  shows "\<exists>se de sd dd e. envid2env srcenvid True s = (Ret (0, Some se), s) \<and> env_pgdir (envs s se) = Some sd
    \<and> envid2env dstenvid True s = (Ret (0, Some de), s) \<and> env_pgdir (envs s de) = Some dd \<and> live s de
    \<and> umap s sd (PGNUM srcva) = Some e
    \<and> remapped s t K c dd (PGNUM dstva) (Some (mk_pte (pte_frame e) perm))"
proof -
  obtain se de sd dd e where k: "envid2env srcenvid True s = (Ret (0, Some se), s)"
    "envid2env dstenvid True s = (Ret (0, Some de), s)" "de \<in> controlled s c"
    "env_pgdir (envs s se) = Some sd" "env_pgdir (envs s de) = Some dd" "umap s sd (PGNUM srcva) = Some e"
    "maps_agree s t (dirs s) dd (PGNUM dstva) (Some (mk_pte (pte_frame e) perm))"
    and g: "rest_same s t" "contents_kept s t" "open_tables s (dirs s) \<longrightarrow> open_tables t (dirs s)"
    using m unfolding page_mapped_def by blast
  have de: "live s de" using k(3) by (simp add: controlled_def)
  then have "dd \<in> dirs s" using k(5) by (auto simp: dirs_def)
  then have "remapped s t K c dd (PGNUM dstva) (Some (mk_pte (pte_frame e) perm))"
    using r t k(7) g rest_sameD(2,7) [OF g(1)] rest_same_dirs [OF g(1)] by (simp add: remapped_def running_def)
  then show ?thesis using k de by blast
qed

section \<open>A new environment\<close>

lemma env_alloc_as_memory:
  assumes inv: "mem_inv s D K fl" and kp: "kern_pgdir s \<in> K"
    and e: "env_free_list s = Some e" "e < NENV"
    and run: "env_alloc_as ty parent s = (Ret (r, Some e'), u)" and r: "\<not> is_neg r"
  shows "\<exists>p fl'. fl = p # fl' \<and> e' = e \<and> env_pgdir (envs u e) = Some p
    \<and> ram u = ram (setup_state e p s) \<and> cr3 u = cr3 s"
proof (cases fl)
  case Nil
  then have "env_alloc_as ty parent s = (Ret (- E_NO_MEM, None), s)"
    using e page_alloc_None inv by (simp add: env_alloc_as_def env_setup_vm_def)
  then show ?thesis using run by simp
next
  case (Cons p fl')
  note sv = env_setup_vm_spec [OF inv [unfolded Cons] kp]
  have "u = alloc_env_state ty parent e p s" "e' = e"
    using run env_alloc_as_run [OF inv [unfolded Cons] kp e, of ty parent] by auto
  moreover have "cr3 (setup_state e p s) = cr3 s" using rest_sameD(7) [OF sv(9)] by (simp add: upd_env_def)
  moreover have "env_pgdir (envs (setup_state e p s) e) = Some p" using rest_sameD(2) [OF sv(9)] by simp
  ultimately show ?thesis using Cons by (simp add: alloc_env_state_def) (simp add: upd_env_def)
qed

text \<open>The child of \<^verbatim>\<open>sys_exofork\<close>: an empty space beside those there were.\<close>

definition child_env :: "kstate \<Rightarrow> nat \<Rightarrow> nat \<Rightarrow> nat \<Rightarrow> Env" where
  "child_env s c e p = (new_env ENV_TYPE_USER (env_id (envs s c)) e p (envs s e))
     \<lparr>env_tf := (env_tf (envs s c))\<lparr>tf_regs := (tf_regs (env_tf (envs s c)))\<lparr>reg_eax := 0\<rparr>\<rparr>,
      env_status := ENV_NOT_RUNNABLE\<rparr>"

lemma sys_exofork_run:
  assumes r: "ready s K c" and inv: "mem_inv s (dirs s) K fl" and run: "sys_exofork s = (Ret v, t)" and v: "\<not> is_neg v"
  shows "\<exists>e p fl'. fl = p # fl' \<and> e < NENV \<and> \<not> live s e \<and> envs t = (envs s)(e := child_env s c e p)
    \<and> ram t = ram (setup_state e p s) \<and> cr3 t = cr3 s \<and> v = env_id (envs t e) \<and> free_pages t fl'"
proof -
  obtain efl where k: "kern_pgdir s \<in> K" "env_table s efl" using r by (auto simp: ready_def kinv_def)
  note cur [simp] = get_curenv_ready [OF r]
  have cl: "live s c" using r by (simp add: ready_def)
  obtain e efl' where efl: "efl = e # efl'"
  proof (cases efl)
    case Nil
    then have "env_free_list s = Some NENV" using k(2) by (auto simp: env_table_def)
    then show ?thesis using run by (simp add: sys_exofork_def env_alloc_def env_alloc_as_def)
  qed
  then have e: "env_free_list s = Some e" "e < NENV" "\<not> live s e" using k(2) by (auto simp: env_table_def)
  obtain p fl' where fl: "fl = p # fl'"
  proof (cases fl)
    case Nil
    then have "env_alloc_as ENV_TYPE_USER (env_id (envs s c)) s = (Ret (- E_NO_MEM, None), s)"
      using e page_alloc_None inv by (simp add: env_alloc_as_def env_setup_vm_def)
    then show ?thesis using run v by (auto simp: sys_exofork_def env_alloc_def)
  qed
  let ?u = "alloc_env_state ENV_TYPE_USER (env_id (envs s c)) e p s"
  have al: "env_alloc_as ENV_TYPE_USER (env_id (envs s c)) s = (Ret (0, Some e), ?u)"
    by (rule env_alloc_as_run [OF inv [unfolded fl] k(1) e(1,2)])
  let ?f = "\<lambda>v. v\<lparr>env_tf := (env_tf (envs ?u c))\<lparr>tf_regs := (tf_regs (env_tf (envs ?u c)))\<lparr>reg_eax := 0\<rparr>\<rparr>,
      env_status := ENV_NOT_RUNNABLE\<rparr> :: Env"
  have ce: "c \<noteq> e" using cl e(3) by auto
  have t: "t = upd_env e ?f ?u" "v = env_id (envs t e)"
    using run al ce by (auto simp: sys_exofork_def env_alloc_def the_env_def upd_env_def)
  note rs = rest_sameD [OF env_setup_vm_spec(9) [OF inv [unfolded fl] k(1), of e]]
  have "envs ?u c = envs s c" using rs(2) ce by (simp add: alloc_env_state_def)
  then have "envs t = (envs s)(e := child_env s c e p)"
    using rs(2) ce by (auto simp: fun_eq_iff t(1) child_env_def alloc_env_state_def new_env_def)
  moreover have "ram t = ram (setup_state e p s)" by (simp add: t alloc_env_state_def)
  moreover have "cr3 t = cr3 s" using rs(7) by (simp add: t alloc_env_state_def upd_env_def)
  moreover have "free_pages (setup_state e p s) fl'"
    by (rule mem_invD(3) [OF env_setup_vm_spec(2) [OF inv [unfolded fl] k(1)]])
  then have "free_pages t fl'" by (simp add: t alloc_env_state_def upd_env_def free_pages_def)
  ultimately show ?thesis using fl e t(2) by blast
qed

lemma sys_exofork_memory:
  assumes r: "running s K c" and run: "sys_exofork s = (Ret v, t)" and v: "\<not> is_neg v"
  shows "\<exists>e p. \<not> live s e \<and> e < NENV \<and> envs t = (envs s)(e := child_env s c e p) \<and> p \<notin> dirs s
    \<and> dirs t = insert p (dirs s) \<and> v = env_id (envs t e)
    \<and> (\<forall>m < 1024 * UPDX. umap t p m = None) \<and> (\<forall>d \<in> dirs s. \<forall>m < 1024 * UPDX. umap t d m = umap s d m)
    \<and> running t K c \<and> contents_kept s t \<and> cr3 t = cr3 s"
proof -
  have rd: "ready s K c" using r by (simp add: running_def)
  have kp: "kern_pgdir s \<in> K" using rd by (auto simp: ready_def kinv_def)
  obtain fl where k: "mem_inv s (dirs s) K fl" using r by (rule running_inv)
  obtain e p fl' where e: "fl = p # fl'" "e < NENV" "\<not> live s e" "envs t = (envs s)(e := child_env s c e p)"
    "ram t = ram (setup_state e p s)" "cr3 t = cr3 s" "v = env_id (envs t e)"
    using sys_exofork_run [OF rd k run v] by blast
  note sv = env_setup_vm_spec [OF k [unfolded e(1)] kp]
  have pk: "p \<noteq> kern_pgdir s" using sv(5) kp by auto
  note ram = e(5) [unfolded ram_setup_state [OF pk]]
  have um: "umap t = umap (setup_state e p s)" by (rule umap_ram [OF e(5)])
  have lv: "live t x \<longleftrightarrow> live s x \<or> x = e" for x using e(2-4) by (auto simp: live_def child_env_def new_env_def)
  have dt: "dirs t = insert p (dirs s)" using e(3,4) by (auto simp: dirs_def lv child_env_def new_env_def)
  have ce: "c \<noteq> e" using rd e(3) by (auto simp: ready_def)
  have "ready t K c" using sys_exofork_spec [OF rd] run v by auto
  moreover have "open_tables t (dirs t)"
    using r sv(3) UPDX_UVPT by (auto simp: running_def open_tables_def dt ram present_def)
  ultimately have "running t K c" using r ce e(4,6) by (simp add: running_def)
  moreover have "contents_kept s t"
    using user_frame_plain(1) [OF k, of p] e(1) by (auto simp: contents_kept_def ram)
  moreover have "umap t p m = None" if "m < 1024 * UPDX" for m using sv(8) [OF that] by (simp add: um)
  moreover have "umap t d m = umap s d m" if "d \<in> dirs s" "m < 1024 * UPDX" for d m
    using sv(7) [OF that] by (simp add: um)
  ultimately show ?thesis using e sv(3) dt by blast
qed

end
