(* ===== verification/Jos_Fork_Free.thy ===== *)
theory Jos_Fork_Free
  imports Jos_Fork_Mem
begin

text \<open>
  How many free pages the kernel calls of \<^verbatim>\<open>fork\<close> need. A mapping takes a page only
  for a missing page table, so the free pages and the tables of a space together never shrink
  when pages are mapped into it.
\<close>

section \<open>Free pages and tables\<close>

definition has_free :: "kstate \<Rightarrow> nat \<Rightarrow> bool" where
  "has_free s n \<longleftrightarrow> (\<exists>fl. free_pages s fl \<and> n \<le> length fl)"

definition tables :: "kstate \<Rightarrow> nat \<Rightarrow> nat set" where
  "tables s a = {i. i < UPDX \<and> tab_of s a i \<noteq> None}"

definition spare :: "kstate \<Rightarrow> nat \<Rightarrow> nat \<Rightarrow> bool" where
  "spare s a n \<longleftrightarrow> (\<exists>fl. free_pages s fl \<and> n \<le> length fl + card (tables s a))"

lemma free_pages_unique: "free_pages s fl \<Longrightarrow> free_pages s fl' \<Longrightarrow> fl' = fl"
  unfolding free_pages_def by (blast intro: chain_unique)

lemma finite_tables [simp]: "finite (tables s a)"
  by (simp add: tables_def)

lemma card_tables: "card (tables s a) \<le> UPDX"
  using card_mono [of "{..< UPDX}" "tables s a"] by (auto simp: tables_def)

lemma spare_has_free: "spare s a (UPDX + n) \<Longrightarrow> has_free s n"
  using card_tables [of s a] by (fastforce simp: spare_def has_free_def)

lemma has_free_mono: "has_free s n \<Longrightarrow> m \<le> n \<Longrightarrow> has_free s m"
  by (auto simp: has_free_def)

lemma has_free_spare: "has_free s n \<Longrightarrow> spare s a n"
  by (auto simp: spare_def has_free_def)

lemma spare_mono: "spare s a n \<Longrightarrow> m \<le> n \<Longrightarrow> spare s a m"
  by (auto simp: spare_def)

text \<open>One call that may have made the table \<open>i\<close> of the space \<open>d\<close>.\<close>

definition free_step :: "kstate \<Rightarrow> kstate \<Rightarrow> nat \<Rightarrow> nat \<Rightarrow> bool" where
  "free_step s t d i \<longleftrightarrow> (\<exists>fl fl'. free_pages s fl \<and> free_pages t fl'
       \<and> length fl \<le> length fl' + (if tab_of s d i = None then 1 else 0))
     \<and> (\<forall>a \<in> dirs s. tables s a \<subseteq> tables t a) \<and> i \<in> tables t d"

lemma free_step_spare:
  assumes f: "free_step s t d i" and a: "a \<in> dirs s" "a = d \<or> tab_of s d i \<noteq> None" and n: "spare s a n"
  shows "spare t a n"
proof -
  obtain fl fl' where l: "free_pages s fl" "free_pages t fl'"
    "length fl \<le> length fl' + (if tab_of s d i = None then 1 else 0)" using f by (auto simp: free_step_def)
  have n': "n \<le> length fl + card (tables s a)"
    using n free_pages_unique [OF l(1)] by (auto simp: spare_def)
  have sub: "tables s a \<subseteq> tables t a" using f a(1) by (simp add: free_step_def)
  have "length fl + card (tables s a) \<le> length fl' + card (tables t a)"
  proof (cases "tab_of s d i = None")
    case True
    then have "i \<in> tables t a" "i \<notin> tables s a" using f a(2) by (auto simp: free_step_def tables_def)
    then have "tables s a \<subset> tables t a" using sub by blast
    then have "card (tables s a) < card (tables t a)" by (rule psubset_card_mono [OF finite_tables])
    then show ?thesis using l(3) True by simp
  next
    case False
    then have "(if tab_of s d i = None then 1 else 0 :: nat) = 0" by auto
    then have "length fl \<le> length fl'" using l(3) by linarith
    then show ?thesis using card_mono [OF finite_tables sub] by (simp add: add_mono)
  qed
  then show ?thesis using n' l(2) by (auto simp: spare_def intro: le_trans)
qed

lemma free_step_has: "free_step s t d i \<Longrightarrow> has_free s (Suc n) \<Longrightarrow> has_free t n"
  unfolding free_step_def has_free_def using free_pages_unique by (fastforce split: if_splits)

lemma free_step_kept: "free_step s t d i \<Longrightarrow> tab_of s d i \<noteq> None \<Longrightarrow> has_free s n \<Longrightarrow> has_free t n"
  unfolding free_step_def has_free_def using free_pages_unique by (fastforce split: if_splits)

text \<open>Calls that take at most \<open>k\<close> free pages and keep every page table.\<close>

definition uses_up :: "nat \<Rightarrow> kstate \<Rightarrow> kstate \<Rightarrow> bool" where
  "uses_up k s t \<longleftrightarrow> (\<exists>fl fl'. free_pages s fl \<and> free_pages t fl' \<and> length fl \<le> length fl' + k)
     \<and> (\<forall>a \<in> dirs s. tables s a \<subseteq> tables t a)"

lemma uses_up_trans:
  assumes st: "uses_up j s t" and tu: "uses_up k t u" and d: "dirs t = dirs s"
  shows "uses_up (j + k) s u"
proof -
  obtain fl fl' where l: "free_pages s fl" "free_pages t fl'" "length fl \<le> length fl' + j" using st by (auto simp: uses_up_def)
  obtain gl gl' where m: "free_pages t gl" "free_pages u gl'" "length gl \<le> length gl' + k" using tu by (auto simp: uses_up_def)
  have "length fl \<le> length gl' + (j + k)" using l(3) m(3) free_pages_unique [OF m(1) l(2)] by simp
  moreover have "\<forall>a \<in> dirs s. tables s a \<subseteq> tables u a" using st tu d unfolding uses_up_def by blast
  ultimately show ?thesis using l(1) m(2) unfolding uses_up_def by blast
qed

lemma uses_up_spare:
  assumes t: "uses_up k s t" and a: "a \<in> dirs s" and n: "spare s a (n + k)"
  shows "spare t a n"
proof -
  obtain fl fl' where l: "free_pages s fl" "free_pages t fl'" "length fl \<le> length fl' + k"
    using t by (auto simp: uses_up_def)
  have "n + k \<le> length fl + card (tables s a)"
    using n free_pages_unique [OF l(1)] by (auto simp: spare_def)
  moreover have "card (tables s a) \<le> card (tables t a)"
    using t a by (intro card_mono [OF finite_tables]) (simp add: uses_up_def)
  ultimately show ?thesis using l(2,3) by (auto simp: spare_def)
qed

lemma free_step_uses_up: "free_step s t d i \<Longrightarrow> tab_of s d i \<noteq> None \<Longrightarrow> uses_up 0 s t"
  by (auto simp: free_step_def uses_up_def)

section \<open>The page operations\<close>

lemma page_insert_free:
  assumes inv: "mem_inv s D K fl" and d: "d \<in> D" and va: "va < UTOP"
    and p: "insertable s D K fl p" and perm: "perm < 0x1000" and run: "page_insert d p va perm s = (Ret 0, s')"
  shows "\<exists>fl'. free_pages s' fl' \<and> length fl \<le> length fl' + (if tab_of s d (PDX va) = None then 1 else 0)
    \<and> (\<forall>a \<in> D. tables s a \<subseteq> tables s' a) \<and> PDX va \<in> tables s' d"
proof -
  have i: "PDX va < UPDX" using va by (simp add: below_UTOP_iff)
  have main: "\<exists>fl'. free_pages s' fl' \<and> length fl0 \<le> length fl' \<and> (\<forall>a \<in> D. tables s' a = tables s0 a)"
    if inv0: "mem_inv s0 D K fl0" and p0: "insertable s0 D K fl0 p"
      and t: "target s0 D (Tab d (PDX va)) = Some t" and run0: "page_insert d p va perm s0 = (Ret 0, s')" for s0 fl0 t
  proof -
    note ins = page_insert_mapped [OF inv0 p0 perm t]
    have s': "s' = insert_state d va t p perm s0" using ins run0 by simp
    have "t \<notin> D" by (rule tab_notin_D [OF mem_invD(7) [OF inv0] t])
    then have "tables s' a = tables s0 a" if "a \<in> D" for a
      using that by (auto simp: s' tables_def tab_of_def)
    moreover have "length fl0 \<le> length (insert_frees t (PTX va) s0 p fl0)"
      by (simp add: insert_frees_def freed_def split: option.split)
    ultimately show ?thesis using ins mem_invD(3) s' by blast
  qed
  show ?thesis
  proof (cases "tab_of s d (PDX va)")
    case (Some t)
    then have "target s D (Tab d (PDX va)) = Some t" using d i by simp
    from main [OF inv p this run] obtain fl' where f: "free_pages s' fl'" "length fl \<le> length fl'"
      "\<forall>a \<in> D. tables s' a = tables s a" by blast
    have "PDX va \<in> tables s d" using Some i by (simp add: tables_def)
    then show ?thesis using f d by (intro exI [of _ fl']) simp
  next
    case None
    then obtain q fl' where fl: "fl = q # fl'"
      using page_insert_full [OF inv d va p perm] run by (cases fl) (auto simp: kconst)
    let ?s = "new_table d (PDX va) q s"
    note invq = inv [unfolded fl]
    have tq: "target ?s D (Tab d (PDX va)) = Some q"
      using target_new_table [OF invq d i None, of "Tab d (PDX va)"] by simp
    have "page_insert d p va perm ?s = (Ret 0, s')" using page_insert_via_new_table [OF invq d i None] run by simp
    from main [OF mem_inv_new_table [OF invq d i None] insertable_new_table [OF invq d i None p [unfolded fl]] tq this]
    obtain fl'' where f: "free_pages s' fl''" "length fl' \<le> length fl''" "\<forall>a \<in> D. tables s' a = tables ?s a" by blast
    have tab: "tab_of ?s a j = (if a = d \<and> j = PDX va then Some q else tab_of s a j)" if "a \<in> D" "j < UPDX" for a j
      using target_new_table [OF invq d i None, of "Tab a j"] that by simp
    have "tables ?s a = (if a = d then insert (PDX va) (tables s a) else tables s a)" if "a \<in> D" for a
      unfolding tables_def using tab [OF that] i by (intro set_eqI) (simp add: Collect_conv_if cong: conj_cong)
    then show ?thesis using f fl d None by (intro exI [of _ fl'']) auto
  qed
qed

lemma page_remove_uses_up:
  assumes inv: "mem_inv s (dirs s) K fl" and d: "d \<in> dirs s" and va: "va < UTOP"
    and run: "page_remove d va s = (Ret (), s')"
  shows "uses_up 0 s s'"
proof -
  obtain fl' where f: "mem_inv s' (dirs s) K fl'" "set fl \<subseteq> set fl'" using page_remove_full [OF inv d va] run by auto
  note fp = mem_invD(3) [OF inv] mem_invD(3) [OF f(1)]
  have "distinct fl" "distinct fl'" using fp by (simp_all add: free_pages_def)
  then have "length fl \<le> length fl'" using card_mono [OF finite_set f(2)] by (simp add: distinct_card)
  moreover have "tables s a \<subseteq> tables s' a" if a: "a \<in> dirs s" for a
  proof (cases "umap s d (PGNUM va)")
    case None
    then have "page_lookup d va s = (Ret None, s)"
      using page_lookup_unmapped [OF inv d] va target_umap [OF d, of va s] by (simp add: below_UTOP_iff)
    then show ?thesis using run by (simp add: page_remove_def)
  next
    case (Some e)
    then have x: "target s (dirs s) (Pg d (PDX va) (PTX va)) = Some (pte_frame e)"
      using target_umap [OF d, of va s] va by (simp add: below_UTOP_iff)
    obtain t where t: "target s (dirs s) (Tab d (PDX va)) = Some t" "tab_of s d (PDX va) = Some t"
      using x by (rule user_slot)
    have "s' = remove_state d va t (pte_frame e) s" using page_remove_mapped [OF inv x t(2)] run by simp
    moreover have "t \<notin> dirs s" by (rule tab_notin_D [OF mem_invD(7) [OF inv] t(1)])
    ultimately show ?thesis using a by (auto simp: tables_def tab_of_def remove_state_def)
  qed
  ultimately show ?thesis using fp by (fastforce simp: uses_up_def)
qed

section \<open>The system calls\<close>

text \<open>With two free pages \<^verbatim>\<open>sys_page_alloc\<close> succeeds, and it takes no more than two.\<close>

lemma sys_page_alloc_free:
  assumes r: "running s K c" and e: "envid2env eid True s = (Ret (0, Some e), s)" "live s e" "env_pgdir (envs s e) = Some d"
    and ok: "\<not> bad_va va" "\<not> bad_perm perm" and free: "has_free s (n + 2)"
  shows "\<exists>t. sys_page_alloc eid va perm s = (Ret 0, t) \<and> has_free t n"
proof -
  have va: "va < UTOP" and perm: "perm < 0x1000" using ok by (auto intro: bad_vaD bad_permD)
  have d: "the_pgdir e s = (Ret d, s)" "d \<in> dirs s" using e by (auto simp: the_pgdir_def dirs_def)
  obtain fl where fl: "mem_inv s (dirs s) K fl" "leak_free s K fl" using r by (rule running_inv)
  have len: "n + 2 \<le> length fl"
    using free free_pages_unique [OF mem_invD(3) [OF fl(1)]] by (auto simp: has_free_def)
  then obtain p fl' where Cons: "fl = p # fl'" "n + 1 \<le> length fl'" by (cases fl) auto
  from page_alloc_spec [OF fl(1), of ALLOC_ZERO] Cons obtain u where
    u: "page_alloc ALLOC_ZERO s = (Ret (Some p), u)" "mem_inv u (dirs s) K fl'" "insertable u (dirs s) K fl' p"
      "rest_same s u" by auto
  have eu: "the_pgdir e u = (Ret d, u)" using e(3) rest_sameD(2) [OF u(4)] by (simp add: the_pgdir_def)
  have "fl' \<noteq> []" using Cons(2) by auto
  then obtain t where t: "page_insert d p va perm u = (Ret 0, t)"
    using page_insert_full [OF u(2) d(2) va u(3) perm] by auto
  then have "sys_page_alloc eid va perm s = (Ret 0, t)"
    using ok e u(1) eu by (simp add: sys_page_alloc_def the_env_def)
  moreover have "has_free t n"
    using page_insert_free [OF u(2) d(2) va u(3) perm t] Cons(2) by (fastforce simp: has_free_def split: if_splits)
  ultimately show ?thesis by blast
qed

lemma sys_page_alloc_uses_up:
  assumes r: "running s K c" and e: "envid2env eid True s = (Ret (0, Some e), s)" "live s e" "env_pgdir (envs s e) = Some d"
    and ok: "\<not> bad_va va" "\<not> bad_perm perm" and run: "sys_page_alloc eid va perm s = (Ret 0, t)"
  shows "uses_up 2 s t"
proof -
  have va: "va < UTOP" and perm: "perm < 0x1000" using ok by (auto intro: bad_vaD bad_permD)
  have d: "the_pgdir e s = (Ret d, s)" "d \<in> dirs s" using e by (auto simp: the_pgdir_def dirs_def)
  obtain fl where fl: "mem_inv s (dirs s) K fl" "leak_free s K fl" using r by (rule running_inv)
  show ?thesis
  proof (cases fl)
    case Nil
    then have "page_alloc ALLOC_ZERO s = (Ret None, s)" using page_alloc_None [of s "dirs s" K] fl(1) by simp
    then show ?thesis using run ok e by (simp add: sys_page_alloc_def kconst)
  next
    case (Cons p fl')
    from page_alloc_spec [OF fl(1), of ALLOC_ZERO] Cons obtain u where
      u: "page_alloc ALLOC_ZERO s = (Ret (Some p), u)" "mem_inv u (dirs s) K fl'" "insertable u (dirs s) K fl' p"
        "rest_same s u" "\<forall>x. target u (dirs s) x = target s (dirs s) x" by auto
    have eu: "the_pgdir e u = (Ret d, u)" using e(3) rest_sameD(2) [OF u(4)] by (simp add: the_pgdir_def)
    have "page_insert d p va perm u = (Ret 0, t)"
      using run ok e u(1) eu by (auto simp: sys_page_alloc_def the_env_def kconst split: prod.splits outcome.splits if_splits)
    from page_insert_free [OF u(2) d(2) va u(3) perm this] obtain fl'' where
      f: "free_pages t fl''" "length fl' \<le> length fl'' + 1" "\<forall>a \<in> dirs s. tables u a \<subseteq> tables t a"
      by (auto split: if_splits)
    have "tables u a = tables s a" if "a \<in> dirs s" for a
    proof -
      have "tab_of u a i = tab_of s a i" if "i < UPDX" for i
        using u(5) [rule_format, of "Tab a i"] \<open>a \<in> dirs s\<close> that by simp
      then show ?thesis by (auto simp: tables_def)
    qed
    then have "\<forall>a \<in> dirs s. tables s a \<subseteq> tables t a" using f(3) by simp
    moreover have "length fl \<le> length fl'' + 2" using f(2) Cons by simp
    ultimately show ?thesis using mem_invD(3) [OF fl(1)] f(1) unfolding uses_up_def by blast
  qed
qed

text \<open>Sharing a page needs at most a page table.\<close>

lemma sys_page_map_free:
  assumes r: "running s K c" and se: "envid2env sid True s = (Ret (0, Some se), s)" "live s se" "env_pgdir (envs s se) = Some sd"
    and de: "envid2env did True s = (Ret (0, Some de), s)" "live s de" "env_pgdir (envs s de) = Some dd"
    and ok: "\<not> bad_va srcva" "\<not> bad_va dstva" "\<not> bad_perm perm" and x: "umap s sd (PGNUM srcva) = Some x"
    and w: "perm AND PTE_W \<noteq> 0 \<longrightarrow> x AND PTE_W \<noteq> 0" and room: "unat (pp_ref (pages s (pte_frame x))) < 65535"
  shows "tab_of s dd (PDX dstva) \<noteq> None \<or> has_free s 1 \<Longrightarrow> \<exists>t. sys_page_map sid srcva did dstva perm s = (Ret 0, t)"
    and "sys_page_map sid srcva did dstva perm s = (Ret 0, t) \<Longrightarrow> free_step s t dd (PDX dstva)"
proof -
  have va: "srcva < UTOP" "dstva < UTOP" and perm: "perm < 0x1000" using ok by (auto intro: bad_vaD bad_permD)
  have d: "the_pgdir se s = (Ret sd, s)" "sd \<in> dirs s" "the_pgdir de s = (Ret dd, s)" "dd \<in> dirs s"
    using se de by (auto simp: the_pgdir_def dirs_def)
  obtain fl where fl: "mem_inv s (dirs s) K fl" "leak_free s K fl" using r by (rule running_inv)
  obtain l where l: "page_lookup sd srcva s = (Ret l, s)" "map_option fst l = map_option pte_frame (umap s sd (PGNUM srcva))"
    "\<forall>p t j. l = Some (p, t, j) \<longrightarrow> umap s sd (PGNUM srcva) = Some (ram s t j)"
    using page_lookup_spec [OF fl(1) d(2) va(1)] by blast
  let ?p = "pte_frame x"
  obtain t0 j where lp: "l = Some (?p, t0, j)" "ram s t0 j = x" using l(2,3) x by (cases l) auto
  have run: "sys_page_map sid srcva did dstva perm s = (case page_insert dd ?p dstva perm s of
      (Ret r, t) \<Rightarrow> if r \<noteq> 0 then (Ret (- E_NO_MEM), t) else (Ret 0, t) | (Stop x, t) \<Rightarrow> (Stop x, t))"
    using se de ok d l(1) lp w
    by (auto simp: sys_page_map_def the_env_def load_pte_def split: prod.split outcome.split)
  have ins: "insertable s (dirs s) K fl ?p" by (rule insertable_counted [OF fl(1) d(2) va(1) x room])
  note full = page_insert_full [OF fl(1) d(4) va(2) ins perm]
  have fp: "free_pages s fl" by (rule mem_invD(3) [OF fl(1)])
  show "\<exists>t. sys_page_map sid srcva did dstva perm s = (Ret 0, t)"
    if free: "tab_of s dd (PDX dstva) \<noteq> None \<or> has_free s 1"
  proof -
    have "\<not> (tab_of s dd (PDX dstva) = None \<and> fl = [])"
      using free free_pages_unique [OF fp] by (fastforce simp: has_free_def)
    then obtain t where "page_insert dd ?p dstva perm s = (Ret 0, t)" using full by (auto split: if_splits)
    then show ?thesis using run by simp
  qed
  show "free_step s t dd (PDX dstva)" if t: "sys_page_map sid srcva did dstva perm s = (Ret 0, t)"
  proof -
    have "page_insert dd ?p dstva perm s = (Ret 0, t)"
      using t run by (auto simp: kconst split: prod.splits outcome.splits if_splits)
    from page_insert_free [OF fl(1) d(4) va(2) ins perm this] show ?thesis
      unfolding free_step_def using fp by blast
  qed
qed

lemma sys_page_unmap_free:
  assumes r: "running s K c" and e: "envid2env eid True s = (Ret (0, Some e), s)" "live s e" "env_pgdir (envs s e) = Some d"
    and ok: "\<not> bad_va va"
  shows "\<exists>t. sys_page_unmap eid va s = (Ret 0, t) \<and> uses_up 0 s t"
proof -
  have d: "the_pgdir e s = (Ret d, s)" "d \<in> dirs s" using e by (auto simp: the_pgdir_def dirs_def)
  obtain fl where fl: "mem_inv s (dirs s) K fl" using r by (rule running_inv)
  obtain t where t: "page_remove d va s = (Ret (), t)" using page_remove_full [OF fl d(2) bad_vaD [OF ok]] by blast
  have "uses_up 0 s t" by (rule page_remove_uses_up [OF fl d(2) bad_vaD [OF ok] t])
  then show ?thesis using ok e d t by (simp add: sys_page_unmap_def the_env_def)
qed

text \<open>\<^verbatim>\<open>sys_exofork\<close> takes a page for the directory of the child.\<close>

lemma sys_exofork_free:
  assumes r: "running s K c" and slot: "\<not> live s e0" "e0 < NENV" and free: "has_free s (n + 1)"
  shows "\<exists>v t. sys_exofork s = (Ret v, t) \<and> 0 < sint v \<and> has_free t n"
proof -
  have rd: "ready s K c" using r by (simp add: running_def)
  then obtain efl where k: "kern_pgdir s \<in> K" "env_table s efl" by (auto simp: ready_def kinv_def)
  obtain fl where fl: "mem_inv s (dirs s) K fl" using r by (rule running_inv)
  have len: "n + 1 \<le> length fl"
    using free free_pages_unique [OF mem_invD(3) [OF fl]] by (auto simp: has_free_def)
  then obtain p fl' where Cons: "fl = p # fl'" "n \<le> length fl'" by (cases fl) auto
  note cur [simp] = get_curenv_ready [OF rd]
  have "efl \<noteq> []" using slot k(2) by (auto simp: env_table_def)
  then obtain e efl' where "efl = e # efl'" by (cases efl) auto
  then have e: "env_free_list s = Some e" "e < NENV" using k(2) by (auto simp: env_table_def)
  have al: "env_alloc_as ENV_TYPE_USER (env_id (envs s c)) s
      = (Ret (0, Some e), alloc_env_state ENV_TYPE_USER (env_id (envs s c)) e p s)"
    by (rule env_alloc_as_run [OF fl [unfolded Cons] k(1) e])
  moreover have "env_id (envs (alloc_env_state ENV_TYPE_USER (env_id (envs s c)) e p s) e)
      = next_env_id (env_id (envs s e)) e"
    using rest_sameD(2) [OF env_setup_vm_spec(9) [OF fl [unfolded Cons] k(1), of e]]
    by (simp add: alloc_env_state_def)
  ultimately obtain v t where vt: "sys_exofork s = (Ret v, t)" "v = next_env_id (env_id (envs s e)) e"
    by (auto simp: sys_exofork_def env_alloc_def the_env_def)
  have v: "0 < sint v" using next_env_id_wf(2) [OF e(2)] vt(2) by simp
  then have "\<not> is_neg v" by (simp add: is_neg_def)
  from sys_exofork_run [OF rd fl vt(1) this] have "free_pages t fl'" using Cons(1) by auto
  then show ?thesis using vt(1) v Cons(2) by (auto simp: has_free_def)
qed

end
