(* ===== verification/Jos_Fork_Stubs.thy ===== *)
theory Jos_Fork_Stubs
  imports Jos_Fork_Free
begin

text \<open>
  The system call stubs of \<open>Jos_Fork\<close> on the state of a running program: what they do to
  its own space and to the space of an environment it controls.
\<close>

section \<open>Stubs\<close>

lemma envid2env_own:
  assumes r: "ready s K c" and e: "live s e" "e = c \<or> env_parent_id (envs s e) = env_id (envs s c)"
  shows "envid2env (env_id (envs s e)) True s = (Ret (0, Some e), s)"
proof -
  have k: "kinv s K" "curenv s = Some c" "live s c" using r by (auto simp: ready_def)
  obtain efl where t: "env_table s efl" using k(1) by (auto simp: kinv_def)
  have id: "ENVX (env_id (envs s e)) = e" "0 < sint (env_id (envs s e))" using t e(1) by (auto simp: env_table_def)
  then have "env_id (envs s e) \<noteq> 0" by auto
  then show ?thesis using envid2env_spec [OF k, of "env_id (envs s e)" True] e id(1) by auto
qed

lemma usys_getenvid_run:
  assumes "ready (kst w) K c"
  shows "usys_getenvid w = (Ret (env_id (envs (kst w) c)), w)"
  using get_curenv_ready [OF assms]
  by (simp add: usys_getenvid_def usyscall_def in_kernel_def syscall_def sys_getenvid_def kconst)

lemma neg_not_pos: "is_neg v \<Longrightarrow> \<not> 0 < sint v"
  by (simp add: is_neg_def)

definition panics :: "'a uprog \<Rightarrow> uproc \<Rightarrow> bool" where
  "panics m w \<longleftrightarrow> (\<exists>msg w'. m w = (Stop (UserPanic msg), w'))"

lemma usys_page_alloc_run:
  assumes r: "running (kst w) K c"
  shows "(\<exists>v w'. usys_page_alloc envid va perm w = (Ret v, w') \<and> is_neg v)
    \<or> (\<exists>t e d p. usys_page_alloc envid va perm w = (Ret 0, w\<lparr>kst := t\<rparr>)
        \<and> envid2env envid True (kst w) = (Ret (0, Some e), kst w) \<and> env_pgdir (envs (kst w) e) = Some d
        \<and> remapped (kst w) t K c d (PGNUM va) (Some (mk_pte p perm)) \<and> (\<forall>i. ram t p i = 0)
        \<and> \<not> user_frame (kst w) p \<and> p < npages (kst w))"
proof -
  have rd: "ready (kst w) K c" using r by (simp add: running_def)
  have sys: "syscall SYS_page_alloc envid va perm 0 0 = sys_page_alloc envid va perm"
    by (simp add: syscall_def kconst)
  obtain v t where t: "sys_page_alloc envid va perm (kst w) = (Ret v, t)" "v = 0 \<or> is_neg v"
    using sys_page_alloc_spec [OF rd, of va perm envid] by (auto split: if_splits)
  from t(2) show ?thesis
  proof
    assume "v = 0"
    then show ?thesis
      using t sys_page_alloc_memory [OF r, of envid va perm t]
      by (auto simp: usys_page_alloc_def usyscall_def in_kernel_def sys)
  next
    assume "is_neg v"
    then show ?thesis using t neg_not_pos by (auto simp: usys_page_alloc_def usyscall_def in_kernel_def sys)
  qed
qed

lemma usys_page_unmap_run:
  assumes r: "running (kst w) K c"
  shows "(\<exists>v w'. usys_page_unmap envid va w = (Ret v, w') \<and> is_neg v)
    \<or> (\<exists>t e d. usys_page_unmap envid va w = (Ret 0, w\<lparr>kst := t\<rparr>)
        \<and> envid2env envid True (kst w) = (Ret (0, Some e), kst w) \<and> env_pgdir (envs (kst w) e) = Some d
        \<and> remapped (kst w) t K c d (PGNUM va) None)"
proof -
  have rd: "ready (kst w) K c" using r by (simp add: running_def)
  have sys: "syscall SYS_page_unmap envid va 0 0 0 = sys_page_unmap envid va"
    by (simp add: syscall_def kconst)
  obtain v t where t: "sys_page_unmap envid va (kst w) = (Ret v, t)" "v = 0 \<or> is_neg v"
    using sys_page_unmap_spec [OF rd, of envid va] by (auto split: if_splits)
  from t(2) show ?thesis
  proof
    assume "v = 0"
    then show ?thesis
      using t sys_page_unmap_memory [OF r, of envid va t]
      by (auto simp: usys_page_unmap_def usyscall_def in_kernel_def sys)
  next
    assume "is_neg v"
    then show ?thesis using t neg_not_pos by (auto simp: usys_page_unmap_def usyscall_def in_kernel_def sys)
  qed
qed

lemma usys_page_map_run:
  assumes r: "running (kst w) K c" and room: "room_to_share (kst w) srcenvid srcva"
  shows "(\<exists>v w'. usys_page_map srcenvid srcva dstenvid dstva perm w = (Ret v, w') \<and> is_neg v)
    \<or> (\<exists>t se de sd dd e. usys_page_map srcenvid srcva dstenvid dstva perm w = (Ret 0, w\<lparr>kst := t\<rparr>)
        \<and> envid2env srcenvid True (kst w) = (Ret (0, Some se), kst w) \<and> env_pgdir (envs (kst w) se) = Some sd
        \<and> envid2env dstenvid True (kst w) = (Ret (0, Some de), kst w) \<and> env_pgdir (envs (kst w) de) = Some dd
        \<and> umap (kst w) sd (PGNUM srcva) = Some e
        \<and> remapped (kst w) t K c dd (PGNUM dstva) (Some (mk_pte (pte_frame e) perm)))"
proof -
  have rd: "ready (kst w) K c" using r by (simp add: running_def)
  have sys: "syscall SYS_page_map srcenvid srcva dstenvid dstva perm = sys_page_map srcenvid srcva dstenvid dstva perm"
    by (simp add: syscall_def kconst)
  obtain v t where t: "sys_page_map srcenvid srcva dstenvid dstva perm (kst w) = (Ret v, t)" "ready t K c"
    "v = 0 \<or> is_neg v" "v = 0 \<longrightarrow> page_mapped (kst w) t c srcenvid srcva dstenvid dstva perm"
    using sys_page_map_full [OF rd room, of dstenvid dstva perm] by (auto split: if_splits)
  from t(3) show ?thesis
  proof
    assume v: "v = 0"
    then have "usys_page_map srcenvid srcva dstenvid dstva perm w = (Ret 0, w\<lparr>kst := t\<rparr>)"
      using t(1) by (simp add: usys_page_map_def usyscall_def in_kernel_def sys)
    moreover obtain se sd de dd e where "envid2env srcenvid True (kst w) = (Ret (0, Some se), kst w)"
      "env_pgdir (envs (kst w) se) = Some sd" "envid2env dstenvid True (kst w) = (Ret (0, Some de), kst w)"
      "env_pgdir (envs (kst w) de) = Some dd" "umap (kst w) sd (PGNUM srcva) = Some e"
      "remapped (kst w) t K c dd (PGNUM dstva) (Some (mk_pte (pte_frame e) perm))"
      using page_mapped_memory [OF r t(2) mp [OF t(4) v]] by (elim exE conjE) rule
    ultimately show ?thesis by (intro disjI2 exI [of _ t] exI [of _ se] exI [of _ de] exI [of _ sd]
        exI [of _ dd] exI [of _ e]) simp
  next
    assume "is_neg v"
    then show ?thesis using t(1) neg_not_pos by (auto simp: usys_page_map_def usyscall_def in_kernel_def sys)
  qed
qed

text \<open>Changes to the record of an environment that the caller may control.\<close>

lemma running_upd_env:
  assumes r: "running s K c" and e: "live s e" and f: "\<And>v. env_status v \<noteq> ENV_FREE \<Longrightarrow> same_slot v (f v)"
    and c3: "cr3 (upd_env e f s) = cr3 s"
  shows "running (upd_env e f s) K c" and "dirs (upd_env e f s) = dirs s"
proof -
  have rd: "ready s K c" using r by (simp add: running_def)
  have pg: "env_pgdir (envs (upd_env e f s) x) = env_pgdir (envs s x)" for x
    using e f [of "envs s e"] by (auto simp: live_def same_slot_def)
  have "live (upd_env e f s) x = live s x" for x
    using e f [of "envs s e"] by (auto simp: live_def same_slot_def)
  then show d: "dirs (upd_env e f s) = dirs s" using pg by (simp add: dirs_def)
  show "running (upd_env e f s) K c"
    using r ready_upd_env(1) [OF rd e f] pg c3 d by (simp add: running_def open_tables_def)
qed

text \<open>The same calls on an environment the caller may control.\<close>

lemma page_alloc_own:
  assumes r: "running (kst w) K c" and e: "live (kst w) e" "e = c \<or> env_parent_id (envs (kst w) e) = env_id (envs (kst w) c)"
    and d: "env_pgdir (envs (kst w) e) = Some d" and id: "eid = env_id (envs (kst w) e)"
    and ok: "\<not> bad_va va" "\<not> bad_perm perm"
  shows "(\<exists>v w'. usys_page_alloc eid va perm w = (Ret v, w') \<and> is_neg v) \<and> \<not> has_free (kst w) 2
    \<or> (\<exists>t q. usys_page_alloc eid va perm w = (Ret 0, w\<lparr>kst := t\<rparr>)
        \<and> remapped (kst w) t K c d (PGNUM va) (Some (mk_pte q perm)) \<and> (\<forall>i. ram t q i = 0)
        \<and> \<not> user_frame (kst w) q \<and> q < npages (kst w) \<and> (\<forall>n. has_free (kst w) (n + 2) \<longrightarrow> has_free t n) \<and> uses_up 2 (kst w) t)"
proof -
  have "ready (kst w) K c" using r by (simp add: running_def)
  then have own: "envid2env eid True (kst w) = (Ret (0, Some e), kst w)" using envid2env_own [OF _ e] id by simp
  have sys: "syscall SYS_page_alloc eid va perm 0 0 = sys_page_alloc eid va perm" by (simp add: syscall_def kconst)
  have free: "\<exists>u. usys_page_alloc eid va perm w = (Ret 0, u) \<and> has_free (kst u) n" if "has_free (kst w) (n + 2)" for n
    using sys_page_alloc_free [OF r own e(1) d ok that] by (auto simp: usys_page_alloc_def usyscall_def in_kernel_def sys)
  from usys_page_alloc_run [OF r, of eid va perm] show ?thesis
    unfolding own outcome.inject prod.inject option.inject
  proof (elim disjE exE conjE)
    fix v w' assume "usys_page_alloc eid va perm w = (Ret v, w')" "is_neg v"
    then show ?thesis using free [of 0] by (auto simp: numeral_2_eq_2)
  next
    fix t e' d' q assume t: "usys_page_alloc eid va perm w = (Ret 0, w\<lparr>kst := t\<rparr>)" "e = e'"
      "env_pgdir (envs (kst w) e') = Some d'" "remapped (kst w) t K c d' (PGNUM va) (Some (mk_pte q perm))"
      "\<forall>i. ram t q i = 0" "\<not> user_frame (kst w) q" "q < npages (kst w)"
    have "has_free t n" if "has_free (kst w) (n + 2)" for n using free [OF that] t(1) by auto
    moreover have "sys_page_alloc eid va perm (kst w) = (Ret 0, kst (w\<lparr>kst := t\<rparr>))"
      using t(1) unfolding usys_page_alloc_def usyscall_def in_kernel_def sys
      by (auto simp: user_panic_def split: prod.splits outcome.splits if_splits dest: arg_cong [of _ _ kst])
    then have "uses_up 2 (kst w) t" using sys_page_alloc_uses_up [OF r own e(1) d ok] by simp
    ultimately show ?thesis using t d by auto
  qed
qed

lemma set_upcall_own:
  assumes r: "running (kst w) K c" and e: "live (kst w) e" "e = c \<or> env_parent_id (envs (kst w) e) = env_id (envs (kst w) c)"
    and id: "eid = env_id (envs (kst w) e)"
  shows "(\<exists>v w'. usys_env_set_pgfault_upcall eid up w = (Ret v, w') \<and> is_neg v) \<and> up = 0
    \<or> usys_env_set_pgfault_upcall eid up w = (Ret 0, w\<lparr>kst := upd_env e (\<lambda>v. v\<lparr>env_pgfault_upcall := up\<rparr>) (kst w)\<rparr>)"
proof -
  have own: "envid2env eid True (kst w) = (Ret (0, Some e), kst w)"
    using envid2env_own [OF _ e, of K] r id by (simp add: running_def)
  have sys: "syscall SYS_env_set_pgfault_upcall eid x 0 0 0 = sys_env_set_pgfault_upcall eid x" for x
    by (simp add: syscall_def kconst)
  show ?thesis
    using own by (cases "up = 0") (auto simp: usys_env_set_pgfault_upcall_def usyscall_def in_kernel_def sys
        sys_env_set_pgfault_upcall_def the_env_def neg_not_pos)
qed

lemma set_status_own:
  assumes r: "running (kst w) K c" and e: "live (kst w) e" "e = c \<or> env_parent_id (envs (kst w) e) = env_id (envs (kst w) c)"
    and id: "eid = env_id (envs (kst w) e)"
  shows "usys_env_set_status eid (status_code ENV_RUNNABLE) w
      = (Ret 0, w\<lparr>kst := upd_env e (\<lambda>v. v\<lparr>env_status := ENV_RUNNABLE\<rparr>) (kst w)\<rparr>)"
proof -
  have own: "envid2env eid True (kst w) = (Ret (0, Some e), kst w)"
    using envid2env_own [OF _ e, of K] r id by (simp add: running_def)
  have sys: "syscall SYS_env_set_status eid st 0 0 0 = sys_env_set_status eid st" for st
    by (simp add: syscall_def kconst)
  have "settable_status (status_code ENV_RUNNABLE) = Some ENV_RUNNABLE" by (simp add: settable_status_def)
  then show ?thesis
    using own by (simp add: usys_env_set_status_def usyscall_def in_kernel_def sys sys_env_set_status_def the_env_def
        del: status_code.simps)
qed

section \<open>Pages of the user part\<close>

definition XSPAGE :: nat where "XSPAGE = PGNUM (UXSTACKTOP - PGSIZE)"

lemma XSPAGE_less: "XSPAGE < 1024 * UPDX" "PGNUM (UXSTACKTOP - PGSIZE) = XSPAGE" "XSPAGE \<noteq> 0"
  by (simp_all add: XSPAGE_def PGNUM_eq kconst)

lemma XSPAGE_ok: "\<not> bad_va (UXSTACKTOP - PGSIZE)"
  by (simp add: bad_va_def kconst)

lemma share_perms: "PTE_COW OR PTE_P OR PTE_U < (0x1000 :: u32)" "PTE_P OR PTE_U < (0x1000 :: u32)"
  "PTE_P OR PTE_U OR PTE_W < (0x1000 :: u32)" "PTE_P OR PTE_W OR PTE_U < (0x1000 :: u32)"
  "PTE_U OR PTE_P OR PTE_W < (0x1000 :: u32)"
  by (simp_all add: kconst)

lemma share_perms_ok: "\<not> bad_perm (PTE_COW OR PTE_P OR PTE_U)" "\<not> bad_perm (PTE_P OR PTE_U)"
  "\<not> bad_perm (PTE_P OR PTE_U OR PTE_W)" "\<not> bad_perm (PTE_P OR PTE_W OR PTE_U)"
  "\<not> bad_perm (PTE_U OR PTE_P OR PTE_W)" "(PTE_COW OR PTE_P OR PTE_U) AND PTE_W = 0" "(PTE_P OR PTE_U) AND PTE_W = 0"
  by (simp_all add: bad_perm_def kconst)

lemma rest_same_live: "rest_same s t \<Longrightarrow> live t e = live s e"
  using rest_sameD(2) [of s t] by (simp add: live_def)

lemma tab_of_umap: "umap s d n = Some x \<Longrightarrow> tab_of s d (n div 1024) \<noteq> None"
  by (auto simp: umap_def split: option.splits)

lemma remapped_user_frame:
  assumes m: "remapped s t K c d n (Some v)" and f: "user_frame s f"
    and n: "umap s d n = None \<or> map_option pte_frame (umap s d n) = Some (pte_frame v)"
  shows "user_frame t f"
proof -
  obtain a k where a: "a \<in> dirs s" "k < 1024 * UPDX" "map_option pte_frame (umap s a k) = Some f"
    using f by (auto simp: user_frame_def)
  have "umap t a k = (if a = d \<and> k = n then Some v else umap s a k)"
    using m a by (simp add: remapped_def maps_agree_def)
  then have "map_option pte_frame (umap t a k) = Some f"
    using a n by (cases "a = d \<and> k = n") auto
  moreover have "dirs t = dirs s" using m rest_same_dirs by (simp add: remapped_def)
  ultimately show ?thesis using a by (auto simp: user_frame_def)
qed

lemma page_addr:
  assumes "n < 1024 * UPDX"
  shows "PGNUM (of_nat n * PGSIZE) = n" and "of_nat n * PGSIZE < UTOP" and "\<not> bad_va (of_nat n * PGSIZE)"
    and "PDX (of_nat n * PGSIZE) = n div 1024"
proof -
  have u: "unat (of_nat n * PGSIZE :: u32) = n * 4096"
    using assms by (simp add: unat_word_ariths unat_of_nat kconst)
  then show n: "PGNUM (of_nat n * PGSIZE) = n" and lt: "of_nat n * PGSIZE < UTOP"
    using assms by (simp_all add: PGNUM_eq word_less_nat_alt kconst)
  have "unat (of_nat n * PGSIZE mod PGSIZE :: u32) = 0" by (simp add: unat_mod u) (simp add: kconst)
  then have "of_nat n * PGSIZE mod PGSIZE = (0 :: u32)" by (simp only: unat_eq_zero)
  then show "\<not> bad_va (of_nat n * PGSIZE)" using lt by (simp add: bad_va_def)
  show "PDX (of_nat n * PGSIZE) = n div 1024" by (simp add: PDX_of_PGNUM n)
qed

text \<open>One mapping of \<^verbatim>\<open>duppage\<close>: from the caller's own page into the space of \<open>e\<close>.\<close>

lemma share_page_run:
  assumes r: "running (kst w) K c" and e: "live (kst w) e" "e = c \<or> env_parent_id (envs (kst w) e) = env_id (envs (kst w) c)"
    "env_pgdir (envs (kst w) e) = Some p" and n: "n < 1024 * UPDX"
    and u: "umap (kst w) (cr3 (kst w)) n = Some x" and room: "unat (pp_ref (pages (kst w) (pte_frame x))) < 65535"
    and perm: "\<not> bad_perm perm" "perm AND PTE_W = 0"
  defines "va \<equiv> of_nat n * PGSIZE :: u32"
  shows "(\<exists>v w'. usys_page_map (env_id (envs (kst w) c)) va (env_id (envs (kst w) e)) va perm w = (Ret v, w') \<and> is_neg v)
      \<and> \<not> has_free (kst w) 1 \<and> tab_of (kst w) p (n div 1024) = None
    \<or> (\<exists>t. usys_page_map (env_id (envs (kst w) c)) va (env_id (envs (kst w) e)) va perm w = (Ret 0, w\<lparr>kst := t\<rparr>)
        \<and> remapped (kst w) t K c p n (Some (mk_pte (pte_frame x) perm)) \<and> free_step (kst w) t p (n div 1024))"
proof -
  have rd: "ready (kst w) K c" "env_pgdir (envs (kst w) c) = Some (cr3 (kst w))" "live (kst w) c"
    using r by (simp_all add: running_def ready_def)
  note va = page_addr [OF n, folded va_def]
  note ce = envid2env_own [OF rd(1,3)] envid2env_own [OF rd(1) e(1,2)]
  let ?c = "env_id (envs (kst w) c)" and ?e = "env_id (envs (kst w) e)"
  have own: "envid2env ?c True (kst w) = (Ret (0, Some c), kst w)" using ce(1) by simp
  have room': "room_to_share (kst w) ?c va"
    using ce rd(2) u va room by (auto simp: room_to_share_def)
  have sys: "syscall SYS_page_map ?c va ?e va perm = sys_page_map ?c va ?e va perm"
    by (simp add: syscall_def kconst)
  note run = usys_page_map_def usyscall_def in_kernel_def sys
  have ux: "umap (kst w) (cr3 (kst w)) (PGNUM va) = Some x" using u va(1) by simp
  have pw: "perm AND PTE_W \<noteq> 0 \<longrightarrow> x AND PTE_W \<noteq> 0" using perm(2) by simp
  note free = sys_page_map_free [OF r own rd(3,2) ce(2) e(1,3) va(3,3) perm(1) ux pw room, unfolded va(4)]
  from usys_page_map_run [OF r room', of ?e va perm] show ?thesis
  proof (elim disjE exE conjE)
    fix v w' assume neg: "usys_page_map ?c va ?e va perm w = (Ret v, w')" "is_neg v"
    have "\<not> (tab_of (kst w) p (n div 1024) \<noteq> None \<or> has_free (kst w) 1)"
    proof
      assume "tab_of (kst w) p (n div 1024) \<noteq> None \<or> has_free (kst w) 1"
      then obtain t where "sys_page_map ?c va ?e va perm (kst w) = (Ret 0, t)" using free(1) by blast
      then show False using neg by (auto simp: run)
    qed
    then show ?thesis using neg by blast
  next
    fix t se de sd dd y assume t: "usys_page_map ?c va ?e va perm w = (Ret 0, w\<lparr>kst := t\<rparr>)"
      "envid2env ?c True (kst w) = (Ret (0, Some se), kst w)" "env_pgdir (envs (kst w) se) = Some sd"
      "envid2env ?e True (kst w) = (Ret (0, Some de), kst w)" "env_pgdir (envs (kst w) de) = Some dd"
      "umap (kst w) sd (PGNUM va) = Some y" "remapped (kst w) t K c dd (PGNUM va) (Some (mk_pte (pte_frame y) perm))"
    have "sys_page_map ?c va ?e va perm (kst w) = (Ret 0, kst (w\<lparr>kst := t\<rparr>))"
      using t(1) unfolding run by (auto simp: user_panic_def split: prod.splits outcome.splits if_splits dest: arg_cong [of _ _ kst])
    then have "free_step (kst w) t p (n div 1024)" using free(2) [of t] by simp
    moreover have "dd = p" "y = x" using t(2-6) own ce(2) rd(2) e(3) ux by simp_all
    ultimately show ?thesis using t(1,7) va(1) by auto
  qed
qed

lemma uvpt_mapped:
  assumes "running (kst w) K c" and "n < 1024 * UPDX" and "umap (kst w) (cr3 (kst w)) n = Some e"
  shows "uvpt_at n w = (Ret e, w)"
  using assms uvpt_reads [OF assms(1,2)] by (auto simp: umap_def Let_def split: option.splits if_splits)

end
