(* ===== verification/Jos_Fork_Cow.thy ===== *)
theory Jos_Fork_Cow
  imports Jos_Fork_Stubs
begin

text \<open>
  The page fault handler of \<^verbatim>\<open>lib/fork.c\<close>: a write to a copy-on-write page ends
  with a page of the program's own at the same address that holds the same words.
\<close>

section \<open>Writing a user page\<close>

definition fill_frame :: "nat \<Rightarrow> (nat \<Rightarrow> u32) \<Rightarrow> kstate \<Rightarrow> kstate" where
  "fill_frame q row s = s\<lparr>ram := (ram s)(q := row)\<rparr>"

lemma fill_frame_simps [simp]:
  "ram (fill_frame q row s) = (ram s)(q := row)" "pages (fill_frame q row s) = pages s"
  "npages (fill_frame q row s) = npages s" "envs (fill_frame q row s) = envs s"
  "page_free_list (fill_frame q row s) = page_free_list s" "cr3 (fill_frame q row s) = cr3 s"
  "dirs (fill_frame q row s) = dirs s" "rest_same s (fill_frame q row s)"
  by (simp_all add: fill_frame_def dirs_def live_def rest_same_def rest_def)

lemma fill_frame_ok:
  assumes r: "running s K c" and q: "user_frame s q"
  shows "running (fill_frame q row s) K c"
    and "d \<in> dirs s \<Longrightarrow> m < 1024 * UPDX \<Longrightarrow> umap (fill_frame q row s) d m = umap s d m"
proof -
  let ?t = "fill_frame q row s"
  have rd: "ready s K c" "kinv s K" using r by (simp_all add: running_def ready_def)
  obtain fl where fl: "mem_inv s (dirs s) K fl" "leak_free s K fl" using r by (rule running_inv)
  have st: "\<not> structural s (dirs s) q" by (rule user_frame_plain(2) [OF fl(1) q])
  have pg: "is_Pg x" if "target s (dirs s) x = Some q" for x using st that by (auto simp: structural_def)
  have qD: "q \<notin> dirs s" using pg [of "Dir q"] by auto
  have qT: "target s (dirs s) (Tab a i) \<noteq> Some q" for a i using pg [of "Tab a i"] by auto
  have tg: "target ?t (dirs s) y = target s (dirs s) y" for y
    by (rule target_frame [where f = q]) (use qD qT in auto)
  have "mem_inv ?t (dirs s) K fl" by (rule mem_inv_same [OF fl(1) tg]) simp_all
  moreover have "leak_free ?t K fl" using fl(2) by (simp add: leak_free_def)
  ultimately have "kinv ?t K" using kinv_mem [OF rd(2), of ?t] by auto
  then have "ready ?t K c" using ready_mem [OF rd(1), of ?t] by simp
  moreover have "open_tables ?t (dirs s)" using r qD by (auto simp: running_def open_tables_def)
  ultimately show "running ?t K c" using r by (simp add: running_def)
  show "umap ?t d m = umap s d m" if "d \<in> dirs s" "m < 1024 * UPDX"
  proof (rule umap_frame [OF that(1) div_UPDX [OF that(2)]])
    show "ram ?t d (m div 1024) = ram s d (m div 1024)" using qD that(1) by auto
    fix x assume "target s (dirs s) (Tab d (m div 1024)) = Some x"
    then have "x \<noteq> q" using qT by metis
    then show "ram ?t x = ram s x" by simp
  qed
qed

lemma fill_frame_uses_up:
  assumes r: "running s K c" and q: "user_frame s q"
  shows "uses_up 0 s (fill_frame q row s)"
proof -
  obtain fl where fl: "mem_inv s (dirs s) K fl" using r by (rule running_inv)
  have "free_pages (fill_frame q row s) fl" using mem_invD(3) [OF fl] by (simp add: free_pages_def)
  moreover have "q \<notin> dirs s"
    using user_frame_plain(2) [OF fl q] by (auto simp: structural_def dest: spec [of _ "Dir q"])
  then have "tables (fill_frame q row s) a = tables s a" if "a \<in> dirs s" for a
    using that by (auto simp: tables_def tab_of_def)
  ultimately show ?thesis using mem_invD(3) [OF fl] by (auto simp: uses_up_def)
qed

lemma fill_frame_mappings:
  assumes "running s K c" and "user_frame s q"
  shows "mappings (fill_frame q row s) f = mappings s f"
  using fill_frame_ok(2) [OF assms] by (auto simp: mappings_def)

lemma word_in_page:
  assumes a: "unat a = 4096 * n" and n: "n < 1024 * UPDX" and i: "i < 1024"
  shows "PGNUM (a + 4 * of_nat i) = n" and "PGOFF (a + 4 * of_nat i) div 4 = i" and "a + 4 * of_nat i < UTOP"
proof -
  have "unat (4 * of_nat i :: u32) = 4 * i" using i by (simp add: unat_word_ariths unat_of_nat)
  then have u: "unat (a + 4 * of_nat i) = 4096 * n + 4 * i"
    using a n i by (simp add: unat_word_ariths kconst)
  have "(4096 * n + 4 * i) div 4096 = n" "(4096 * n + 4 * i) mod 4096 div 4 = i" using i by simp_all
  then show "PGNUM (a + 4 * of_nat i) = n" "PGOFF (a + 4 * of_nat i) div 4 = i"
    by (simp_all only: PGNUM_eq PGOFF_eq u)
  show "a + 4 * of_nat i < UTOP" using u n i by (simp add: word_less_nat_alt kconst)
qed

section \<open>The copy\<close>

lemma copy_word:
  assumes r: "running (kst w) K c" and n: "unat src = 4096 * ns" "ns < 1024 * UPDX" "unat dst = 4096 * nd" "nd < 1024 * UPDX"
    and es: "umap (kst w) (cr3 (kst w)) ns = Some es" "es AND PTE_U \<noteq> 0"
    and ed: "umap (kst w) (cr3 (kst w)) nd = Some ed" "ed AND PTE_U \<noteq> 0" "ed AND PTE_W \<noteq> 0" and i: "i < 1024"
  shows "bindM (uload32 (src + 4 * of_nat i)) (\<lambda>v. ustore32 (dst + 4 * of_nat i) v) w
    = (Ret (), w\<lparr>kst := store_word (pte_frame ed) i (ram (kst w) (pte_frame es) i) (kst w)\<rparr>)"
  using uwalk_umap [OF r word_in_page(3) [OF n(1,2) i]] uwalk_umap [OF r word_in_page(3) [OF n(3,4) i]]
    es ed word_in_page(1,2) [OF n(1,2) i] word_in_page(1,2) [OF n(3,4) i]
  by (simp add: uload32_def ustore32_def)

lemma copy_page_run:
  assumes r: "running s K c" and n: "unat src = 4096 * ns" "ns < 1024 * UPDX" "unat dst = 4096 * nd" "nd < 1024 * UPDX"
    and es: "umap s (cr3 s) ns = Some es" "es AND PTE_U \<noteq> 0"
    and ed: "umap s (cr3 s) nd = Some ed" "ed AND PTE_U \<noteq> 0" "ed AND PTE_W \<noteq> 0"
    and df: "pte_frame ed \<noteq> pte_frame es" and w: "kst w = s"
  shows "copy_page dst src w = (Ret (), w\<lparr>kst := fill_frame (pte_frame ed)
    (\<lambda>i. if i < 1024 then ram s (pte_frame es) i else ram s (pte_frame ed) i) s\<rparr>)"
proof -
  let ?q = "pte_frame ed" and ?f = "pte_frame es"
  let ?row = "\<lambda>k i. if i < k then ram s ?f i else ram s ?q i"
  have q: "user_frame s ?q" by (rule user_frameI [OF ed(1) running_dir [OF r] n(4)])
  have "k \<le> 1024 \<Longrightarrow> forM [0 ..< k] (\<lambda>i. bindM (uload32 (src + 4 * of_nat i)) (\<lambda>v. ustore32 (dst + 4 * of_nat i) v)) w
    = (Ret (), w\<lparr>kst := fill_frame ?q (?row k) s\<rparr>)" for k
  proof (induction k)
    case 0
    have "fill_frame ?q (ram s ?q) s = s" by (simp add: fill_frame_def)
    moreover have "w\<lparr>kst := kst w\<rparr> = w" by simp
    ultimately show ?case using w by simp
  next
    case (Suc k)
    let ?s = "fill_frame ?q (?row k) s"
    note ok = fill_frame_ok [OF r q]
    have r': "running (kst (w\<lparr>kst := ?s\<rparr>)) K c" using ok(1) by simp
    have u: "umap ?s (cr3 s) m = umap s (cr3 s) m" if "m < 1024 * UPDX" for m by (rule ok(2) [OF running_dir [OF r] that])
    have k: "k < 1024" using Suc.prems by simp
    have "store_word ?q k (ram ?s ?f k) ?s = fill_frame ?q (?row (Suc k)) s"
      using df by (simp add: fill_frame_def store_word_def fun_eq_iff less_Suc_eq)
    then show ?case
      using Suc copy_word [OF r' n _ es(2) _ ed(2,3) k] u [OF n(2)] u [OF n(4)] es(1) ed(1)
      by (simp add: forM_append)
  qed
  from this [of 1024] show ?thesis by (simp add: copy_page_def)
qed

section \<open>The handler\<close>

text \<open>The second mapping of the handler succeeds: the page table of the faulting page exists.\<close>

lemma map_self_run:
  assumes r: "running (kst w) K c" and va: "\<not> bad_va srcva" "\<not> bad_va dstva" and perm: "\<not> bad_perm perm"
    and u: "umap (kst w) (cr3 (kst w)) (PGNUM srcva) = Some x" and wr: "perm AND PTE_W \<noteq> 0 \<longrightarrow> x AND PTE_W \<noteq> 0"
    and room: "unat (pp_ref (pages (kst w) (pte_frame x))) < 65535" and eid: "eid = env_id (envs (kst w) c)"
    and tab: "tab_of (kst w) (cr3 (kst w)) (PDX dstva) \<noteq> None"
  shows "\<exists>t. usys_page_map eid srcva eid dstva perm w = (Ret 0, w\<lparr>kst := t\<rparr>)
        \<and> remapped (kst w) t K c (cr3 (kst w)) (PGNUM dstva) (Some (mk_pte (pte_frame x) perm)) \<and> uses_up 0 (kst w) t"
proof -
  have rd: "ready (kst w) K c" "live (kst w) c" "env_pgdir (envs (kst w) c) = Some (cr3 (kst w))"
    using r by (simp_all add: running_def ready_def)
  have own: "envid2env eid True (kst w) = (Ret (0, Some c), kst w)" using envid2env_own [OF rd(1,2)] eid by simp
  have room': "room_to_share (kst w) eid srcva" using own rd(3) u room by (auto simp: room_to_share_def)
  obtain t0 where t0: "sys_page_map eid srcva eid dstva perm (kst w) = (Ret 0, t0)"
    using sys_page_map_free(1) [OF r own rd(2,3) own rd(2,3) va perm u wr room] tab by blast
  have "syscall SYS_page_map eid srcva eid dstva perm = sys_page_map eid srcva eid dstva perm"
    by (simp add: syscall_def kconst)
  then have run: "usys_page_map eid srcva eid dstva perm w = (Ret 0, w\<lparr>kst := t0\<rparr>)"
    using t0 by (simp add: usys_page_map_def usyscall_def in_kernel_def)
  from usys_page_map_run [OF r room', of eid dstva perm] show ?thesis
  proof (elim disjE exE conjE)
    fix v w' assume "usys_page_map eid srcva eid dstva perm w = (Ret v, w')" "is_neg v"
    then show ?thesis using run by simp
  next
    fix t se de sd dd e assume t: "usys_page_map eid srcva eid dstva perm w = (Ret 0, w\<lparr>kst := t\<rparr>)"
      "envid2env eid True (kst w) = (Ret (0, Some se), kst w)" "env_pgdir (envs (kst w) se) = Some sd"
      "envid2env eid True (kst w) = (Ret (0, Some de), kst w)" "env_pgdir (envs (kst w) de) = Some dd"
      "umap (kst w) sd (PGNUM srcva) = Some e"
      "remapped (kst w) t K c dd (PGNUM dstva) (Some (mk_pte (pte_frame e) perm))"
    then have "sd = cr3 (kst w)" "dd = cr3 (kst w)" using own rd(3) by simp_all
    moreover have "w\<lparr>kst := t\<rparr> = w\<lparr>kst := t0\<rparr>" using run t(1) by simp
    then have "t = t0" by (metis uproc.select_convs(1) uproc.surjective uproc.update_convs(1))
    then have "uses_up 0 (kst w) t"
      using free_step_uses_up [OF sys_page_map_free(2) [OF r own rd(2,3) own rd(2,3) va perm u wr room t0] tab] by simp
    ultimately show ?thesis using t(1,6,7) u by auto
  qed
qed

lemma unmap_self_run:
  assumes r: "running (kst w) K c" and eid: "eid = env_id (envs (kst w) c)" and va: "\<not> bad_va va"
  shows "\<exists>t. usys_page_unmap eid va w = (Ret 0, w\<lparr>kst := t\<rparr>)
        \<and> remapped (kst w) t K c (cr3 (kst w)) (PGNUM va) None \<and> uses_up 0 (kst w) t"
proof -
  have rd: "ready (kst w) K c" "live (kst w) c" "env_pgdir (envs (kst w) c) = Some (cr3 (kst w))"
    using r by (simp_all add: running_def ready_def)
  have own: "envid2env eid True (kst w) = (Ret (0, Some c), kst w)" using envid2env_own [OF rd(1,2)] eid by simp
  obtain t0 where t0: "sys_page_unmap eid va (kst w) = (Ret 0, t0)" "uses_up 0 (kst w) t0"
    using sys_page_unmap_free [OF r own rd(2,3) va] by blast
  have "syscall SYS_page_unmap eid va 0 0 0 = sys_page_unmap eid va" by (simp add: syscall_def kconst)
  then have run: "usys_page_unmap eid va w = (Ret 0, w\<lparr>kst := t0\<rparr>)"
    using t0 by (simp add: usys_page_unmap_def usyscall_def in_kernel_def)
  from usys_page_unmap_run [OF r, of eid va] show ?thesis
  proof (elim disjE exE conjE)
    fix v w' assume "usys_page_unmap eid va w = (Ret v, w')" "is_neg v"
    then show ?thesis using run by simp
  next
    fix t e d assume t: "usys_page_unmap eid va w = (Ret 0, w\<lparr>kst := t\<rparr>)"
      "envid2env eid True (kst w) = (Ret (0, Some e), kst w)" "env_pgdir (envs (kst w) e) = Some d"
      "remapped (kst w) t K c d (PGNUM va) None"
    then have "d = cr3 (kst w)" using own rd(3) by simp
    moreover have "w\<lparr>kst := t\<rparr> = w\<lparr>kst := t0\<rparr>" using run t(1) by simp
    then have "t = t0" by (metis uproc.select_convs(1) uproc.surjective uproc.update_convs(1))
    ultimately show ?thesis using t(1,4) t0(2) by blast
  qed
qed

text \<open>
  The page \<open>n\<close> of the current space, mapped by \<open>x\<close> before, is a page \<open>q\<close> of its own
  with the same words; the pages everything else maps are as they were.
\<close>

definition PFPAGE :: nat where "PFPAGE = PGNUM PFTEMP"

definition private_copy :: "kstate \<Rightarrow> kstate \<Rightarrow> nat \<Rightarrow> u32 \<Rightarrow> nat \<Rightarrow> bool" where
  "private_copy s t n x q \<longleftrightarrow> envs t = envs s \<and> cr3 t = cr3 s \<and> \<not> user_frame s q
     \<and> umap t (cr3 s) n = Some (mk_pte q (PTE_P OR PTE_U OR PTE_W)) \<and> mappings t q = {(cr3 s, n)}
     \<and> (\<forall>i < 1024. ram t q i = ram s (pte_frame x) i) \<and> umap t (cr3 s) PFPAGE = None
     \<and> (\<forall>a \<in> dirs s. \<forall>m < 1024 * UPDX. (a, m) \<noteq> (cr3 s, n) \<longrightarrow> (a, m) \<noteq> (cr3 s, PFPAGE) \<longrightarrow>
          umap t a m = umap s a m)
     \<and> (\<forall>f a m. (a, m) \<in> mappings s f \<longrightarrow> (a, m) \<noteq> (cr3 s, n) \<longrightarrow> (a, m) \<noteq> (cr3 s, PFPAGE) \<longrightarrow> ram t f = ram s f)"

lemma PFPAGE_facts: "PFPAGE < 1024 * UPDX" "PGNUM PFTEMP = PFPAGE" "PFTEMP < UTOP" "unat PFTEMP = 4096 * PFPAGE"
  by (simp_all add: PFPAGE_def PGNUM_eq kconst)

lemma PFTEMP_ok: "\<not> bad_va PFTEMP"
  by (simp add: bad_va_def kconst)

lemma fault_page:
  assumes "va < UTOP"
  shows "PGNUM (ROUNDDOWN va PGSIZE) = PGNUM va" and "ROUNDDOWN va PGSIZE < UTOP"
    and "unat (ROUNDDOWN va PGSIZE) = 4096 * PGNUM va" and "\<not> bad_va (ROUNDDOWN va PGSIZE)"
proof -
  have u: "unat (ROUNDDOWN va PGSIZE) = 4096 * PGNUM va"
    by (simp add: unat_ROUNDDOWN PGNUM_eq minus_mod_eq_mult_div kconst)
  show "unat (ROUNDDOWN va PGSIZE) = 4096 * PGNUM va" by (rule u)
  show "PGNUM (ROUNDDOWN va PGSIZE) = PGNUM va" by (simp add: PGNUM_eq u)
  show lt: "ROUNDDOWN va PGSIZE < UTOP" using ROUNDDOWN_le [of va PGSIZE] assms by (rule le_less_trans)
  have "unat (ROUNDDOWN va PGSIZE mod PGSIZE) = 0" by (simp add: unat_mod u) (simp add: kconst)
  then have "ROUNDDOWN va PGSIZE mod PGSIZE = 0" by (simp only: unat_eq_zero)
  then show "\<not> bad_va (ROUNDDOWN va PGSIZE)" using lt by (simp add: bad_va_def)
qed

text \<open>The four kernel-visible steps of the handler compose to a private copy.\<close>

lemma private_copy_steps:
  assumes r: "running s K c" and n: "n < 1024 * UPDX" "n \<noteq> PFPAGE" and x: "umap s (cr3 s) n = Some x"
    and a: "remapped s s1 K c (cr3 s) PFPAGE (Some (mk_pte q perm))" "\<not> user_frame s q" "q < npages s"
    and perm: "perm = PTE_P OR PTE_U OR PTE_W"
    and cp: "s2 = fill_frame q (\<lambda>i. if i < 1024 then ram s1 (pte_frame x) i else ram s1 q i) s1"
    and m: "remapped s2 s3 K c (cr3 s) n (Some (mk_pte q perm))"
    and un: "remapped s3 s4 K c (cr3 s) PFPAGE None"
  shows "private_copy s s4 n x q"
proof -
  have p: "perm < 0x1000" by (simp add: perm share_perms)
  note fr = fresh_mappings [OF r a(1,2,3) p PFPAGE_facts(1)]
  have r1: "running s1 K c" using a(1) by (simp add: remapped_def)
  have rs: "rest_same s s1" "rest_same s1 s2" "rest_same s2 s3" "rest_same s3 s4"
    using a(1) m un cp by (simp_all add: remapped_def)
  note d = rest_same_dirs [OF rs(1)] rest_same_dirs [OF rs(2)] rest_same_dirs [OF rs(3)] rest_same_dirs [OF rs(4)]
  have uq: "user_frame s1 q" using fr(1) by (simp add: user_frame_mappings)
  have u1: "umap s1 b k = (if b = cr3 s \<and> k = PFPAGE then Some (mk_pte q perm) else umap s b k)"
    if "b \<in> dirs s" "k < 1024 * UPDX" for b k using a(1) that by (simp add: remapped_def maps_agree_def)
  have u2: "umap s2 b k = umap s1 b k" if "b \<in> dirs s" "k < 1024 * UPDX" for b k
    using fill_frame_ok(2) [OF r1 uq, of b k] that d(1) cp by simp
  have u3: "umap s3 b k = (if b = cr3 s \<and> k = n then Some (mk_pte q perm) else umap s2 b k)"
    if "b \<in> dirs s" "k < 1024 * UPDX" for b k using m that d by (simp add: remapped_def maps_agree_def)
  have u4: "umap s4 b k = (if b = cr3 s \<and> k = PFPAGE then None else umap s3 b k)"
    if "b \<in> dirs s" "k < 1024 * UPDX" for b k using un that d by (simp add: remapped_def maps_agree_def)
  have all: "umap s4 b k = (if b = cr3 s \<and> k = PFPAGE then None else if b = cr3 s \<and> k = n then Some (mk_pte q perm)
      else umap s b k)" if "b \<in> dirs s" "k < 1024 * UPDX" for b k
    unfolding u4 [OF that] u3 [OF that] u2 [OF that] u1 [OF that] using n(2) by auto
  note dd = running_dir [OF r]
  have nq: "map_option pte_frame (umap s b k) \<noteq> Some q" if "b \<in> dirs s" "k < 1024 * UPDX" for b k
    using a(2) that by (auto simp: user_frame_def)
  have "(b, k) \<in> mappings s4 q \<longleftrightarrow> (b, k) = (cr3 s, n)" for b k
  proof (cases "b \<in> dirs s \<and> k < 1024 * UPDX")
    case True
    then show ?thesis using all [of b k] nq [of b k] fr(2) n(2) d by (auto simp: mappings_def)
  next
    case False
    then show ?thesis using d dd n(1) by (auto simp: mappings_def)
  qed
  then have mq: "mappings s4 q = {(cr3 s, n)}" by auto
  have fx: "user_frame s (pte_frame x)" "pte_frame x \<noteq> q"
    using user_frameI [OF x dd n(1)] a(2) by auto
  have "mappings s2 q = mappings s1 q" using u2 d by (auto simp: mappings_def)
  then have q2: "user_frame s2 q" using uq by (simp add: user_frame_mappings)
  have q3: "user_frame s3 q" unfolding user_frame_mappings
    using u3 [OF dd n(1)] fr(2) d dd n(1) by (auto simp: mappings_def)
  have same: "ram s4 f = ram s f"
    if f: "(b, k) \<in> mappings s f" "(b, k) \<noteq> (cr3 s, n)" "(b, k) \<noteq> (cr3 s, PFPAGE)" for f b k
  proof -
    have bk: "b \<in> dirs s" "k < 1024 * UPDX" "map_option pte_frame (umap s b k) = Some f"
      using f(1) by (simp_all add: mappings_def)
    have k1: "umap s1 b k = umap s b k" using u1 [OF bk(1,2)] f(3) by auto
    have k2: "umap s2 b k = umap s b k" using u2 [OF bk(1,2)] k1 by simp
    have k3: "umap s3 b k = umap s b k" using u3 [OF bk(1,2)] k2 f(2) by auto
    have uf: "user_frame s f" "user_frame s1 f" "user_frame s2 f" "user_frame s3 f"
      unfolding user_frame_def using bk d k1 k2 k3 by metis+
    have "f \<noteq> q" using uf(1) a(2) by auto
    then have "ram s2 f = ram s1 f" using cp by simp
    then show ?thesis using uf a(1) m un by (simp add: remapped_def contents_kept_def)
  qed
  have "ram s4 q i = ram s (pte_frame x) i" if "i < 1024" for i
  proof -
    have "ram s4 q = ram s3 q" "ram s3 q = ram s2 q"
      using un m q2 q3 by (simp_all add: remapped_def contents_kept_def)
    moreover have "ram s1 (pte_frame x) = ram s (pte_frame x)" using a(1) fx(1) by (simp add: remapped_def contents_kept_def)
    ultimately show ?thesis using cp that by simp
  qed
  moreover have "envs s4 = envs s" "cr3 s4 = cr3 s"
    using rest_sameD(2,7) [OF rs(1)] rest_sameD(2,7) [OF rs(2)] rest_sameD(2,7) [OF rs(3)] rest_sameD(2,7) [OF rs(4)] by simp_all
  ultimately show ?thesis
    using all mq same a(2) dd n PFPAGE_facts(1) perm unfolding private_copy_def by auto
qed

text \<open>The checks at the head of the handler, and the copy behind them.\<close>

definition cow_copy :: "u32 \<Rightarrow> unit uprog" where
  "cow_copy addr =
     bindM usys_getenvid (\<lambda>e. bindM (usys_page_alloc e PFTEMP (PTE_P OR PTE_U OR PTE_W)) (\<lambda>r.
     if is_neg r then user_panic ''Page can't be allocated''
     else thenM (copy_page PFTEMP addr)
     (bindM usys_getenvid (\<lambda>e1. bindM usys_getenvid (\<lambda>e2.
     bindM (usys_page_map e1 PFTEMP e2 addr (PTE_P OR PTE_U OR PTE_W)) (\<lambda>r.
     if is_neg r then user_panic ''Temp page can't be mapped''
     else bindM usys_getenvid (\<lambda>e3. bindM (usys_page_unmap e3 PFTEMP) (\<lambda>r.
     if is_neg r then user_panic ''sys_page_unmap'' else ret ()))))))))"

lemma pgfault_cow_copy:
  "pgfault va err = (if err AND FEC_WR = 0 then user_panic ''Fault not caused by write''
     else bindM (uvpt_at (PGNUM (ROUNDDOWN va PGSIZE))) (\<lambda>pte.
       if pte AND PTE_COW = 0 then user_panic ''Page not copy on write'' else cow_copy (ROUNDDOWN va PGSIZE)))"
  unfolding pgfault_def cow_copy_def Let_def by (rule refl)

theorem cow_copy_run:
  assumes r: "running (kst w) K c" and va: "va < UTOP" "PGNUM va \<noteq> PFPAGE"
    and x: "umap (kst w) (cr3 (kst w)) (PGNUM va) = Some x" "x AND PTE_U \<noteq> 0"
  shows "panics (cow_copy (ROUNDDOWN va PGSIZE)) w \<and> \<not> has_free (kst w) 2
    \<or> (\<exists>t q. cow_copy (ROUNDDOWN va PGSIZE) w = (Ret (), w\<lparr>kst := t\<rparr>) \<and> running t K c
        \<and> private_copy (kst w) t (PGNUM va) x q \<and> rest_same (kst w) t \<and> uses_up 2 (kst w) t
        \<and> pte_frame (mk_pte q (PTE_P OR PTE_U OR PTE_W)) = q)"
proof -
  define eid where "eid = env_id (envs (kst w) c)"
  let ?s = "kst w" and ?perm = "PTE_P OR PTE_U OR PTE_W" and ?addr = "ROUNDDOWN va PGSIZE" and ?n = "PGNUM va"
  have n: "?n < 1024 * UPDX" by (rule PGNUM_UTOP [OF va(1)])
  note fp = fault_page [OF va(1)]
  have rd: "live ?s c" "env_pgdir (envs ?s c) = Some (cr3 ?s)" using r by (simp_all add: running_def ready_def)
  have bits: "mk_pte g ?perm AND PTE_U \<noteq> 0" "mk_pte g ?perm AND PTE_W \<noteq> 0" for g
    by (simp_all add: mk_pte_flag kconst)
  have id: "usys_getenvid (w\<lparr>kst := t\<rparr>) = (Ret eid, w\<lparr>kst := t\<rparr>)" if "running t K c" "envs t = envs ?s" for t
    using usys_getenvid_run [of "w\<lparr>kst := t\<rparr>" K c] that by (simp add: running_def eid_def)
  have id0: "usys_getenvid w = (Ret eid, w)" using id [of ?s] r by simp
  note run = cow_copy_def user_panic_def panics_def id0
  from page_alloc_own [OF r rd(1) _ rd(2) _ PFTEMP_ok share_perms_ok(3), of eid]
  consider v w' where "usys_page_alloc eid PFTEMP ?perm w = (Ret v, w')" "is_neg v" "\<not> has_free ?s 2"
    | s1 q where "usys_page_alloc eid PFTEMP ?perm w = (Ret 0, w\<lparr>kst := s1\<rparr>)"
      "remapped ?s s1 K c (cr3 ?s) PFPAGE (Some (mk_pte q ?perm))" "\<not> user_frame ?s q" "q < npages ?s" "uses_up 2 ?s s1"
    by (auto simp: eid_def PFPAGE_facts(2))
  then show ?thesis
  proof cases
    case 1
    then show ?thesis by (simp add: run)
  next
    case (2 s1 q)
    note fr = fresh_mappings [OF r 2(2-4) share_perms(3) PFPAGE_facts(1)]
    have s1: "running s1 K c" "envs s1 = envs ?s" "cr3 s1 = cr3 ?s" "dirs s1 = dirs ?s"
      using 2(2) rest_sameD(2,7) [of ?s s1] rest_same_dirs [of ?s s1] by (simp_all add: remapped_def)
    note dd = running_dir [OF r]
    have u1: "umap s1 (cr3 s1) ?n = Some x" "umap s1 (cr3 s1) PFPAGE = Some (mk_pte q ?perm)"
      using 2(2) n PFPAGE_facts(1) va(2) x(1) dd s1(3) by (simp_all add: remapped_def maps_agree_def)
    have qx: "q \<noteq> pte_frame x" using user_frameI [OF x(1) dd n] 2(3) by auto
    let ?s2 = "fill_frame q (\<lambda>i. if i < 1024 then ram s1 (pte_frame x) i else ram s1 q i) s1"
    have cp: "copy_page PFTEMP ?addr (w\<lparr>kst := s1\<rparr>) = (Ret (), w\<lparr>kst := ?s2\<rparr>)"
      using copy_page_run [OF s1(1) fp(3) n PFPAGE_facts(4,1) u1(1) x(2) u1(2) bits, of "w\<lparr>kst := s1\<rparr>"] qx
      unfolding fr(2) by simp
    have uq: "user_frame s1 q" using fr(1) by (simp add: user_frame_mappings)
    note ok = fill_frame_ok [OF s1(1) uq]
    have r2: "running ?s2 K c" by (rule ok(1))
    have id2: "usys_getenvid (w\<lparr>kst := ?s2\<rparr>) = (Ret eid, w\<lparr>kst := ?s2\<rparr>)" by (rule id [OF r2]) (simp add: s1)
    have u2: "umap ?s2 (cr3 ?s2) PFPAGE = Some (mk_pte q ?perm)"
      using ok(2) [of "cr3 s1" PFPAGE] running_dir [OF s1(1)] PFPAGE_facts(1) u1(2) by simp
    have "mappings ?s2 q = {(cr3 ?s, PFPAGE)}" by (simp add: fill_frame_mappings [OF s1(1) uq] fr(1))
    moreover obtain fl where "mem_inv ?s2 (dirs ?s2) K fl" using r2 by (rule running_inv)
    ultimately have "unat (pp_ref (pages ?s2 q)) = 1"
      using mappings_counted [of ?s2 K fl q] by (simp add: user_frame_mappings)
    then have room: "unat (pp_ref (pages ?s2 (pte_frame (mk_pte q ?perm)))) < 65535" by (simp add: fr(2))
    have u2n: "umap ?s2 (cr3 ?s2) ?n = Some x"
      using ok(2) [of "cr3 s1" ?n] running_dir [OF s1(1)] n u1(1) by simp
    have pdx: "PDX ?addr = ?n div 1024" by (simp add: PDX_of_PGNUM fp(1))
    from map_self_run [of "w\<lparr>kst := ?s2\<rparr>" K c PFTEMP ?addr ?perm "mk_pte q ?perm" eid] r2 u2 room
      PFTEMP_ok fp(4) share_perms_ok(3) bits(2) tab_of_umap [OF u2n]
    obtain s3 where b: "usys_page_map eid PFTEMP eid ?addr ?perm (w\<lparr>kst := ?s2\<rparr>) = (Ret 0, w\<lparr>kst := s3\<rparr>)"
        "remapped ?s2 s3 K c (cr3 ?s) ?n (Some (mk_pte q ?perm))" "uses_up 0 ?s2 s3"
      by (auto simp: eid_def s1 PFPAGE_facts fp pdx fr(2))
    have s3: "running s3 K c" "envs s3 = envs ?s" "cr3 s3 = cr3 ?s"
      using b(2) rest_sameD(2,7) [of ?s2 s3] s1 by (simp_all add: remapped_def)
    from unmap_self_run [of "w\<lparr>kst := s3\<rparr>" K c eid PFTEMP] s3 PFTEMP_ok
    obtain s4 where e: "usys_page_unmap eid PFTEMP (w\<lparr>kst := s3\<rparr>) = (Ret 0, w\<lparr>kst := s4\<rparr>)"
        "remapped s3 s4 K c (cr3 ?s) PFPAGE None" "uses_up 0 s3 s4"
      by (auto simp: eid_def PFPAGE_facts)
    have "private_copy ?s s4 ?n x q"
      by (rule private_copy_steps [OF r n va(2) x(1) 2(2-4) refl refl b(2) e(2)])
    moreover have "cow_copy ?addr w = (Ret (), w\<lparr>kst := s4\<rparr>)"
      using 2(1) cp b(1) e(1) id2 id [OF s3(1,2)] by (simp add: run)
    moreover have "running s4 K c" using e(2) by (simp add: remapped_def)
    moreover have rs: "rest_same ?s s1" "rest_same s1 ?s2" "rest_same ?s2 s3" "rest_same s3 s4"
      using 2(2) b(2) e(2) by (simp_all add: remapped_def)
    note rs_dirs = rest_same_dirs [OF rs(1)] rest_same_dirs [OF rs(2)] rest_same_dirs [OF rs(3)]
    have "uses_up (2 + 0) ?s ?s2" by (rule uses_up_trans [OF 2(5) fill_frame_uses_up [OF s1(1) uq] rs_dirs(1)])
    then have "uses_up (2 + 0 + 0) ?s s3" by (rule uses_up_trans [OF _ b(3)]) (simp add: rs_dirs)
    then have "uses_up (2 + 0 + 0 + 0) ?s s4" by (rule uses_up_trans [OF _ e(3)]) (simp add: rs_dirs)
    moreover have "rest_same ?s s4" using rs by (blast intro: rest_same_trans)
    ultimately show ?thesis using fr(2) by auto
  qed
qed

theorem pgfault_uses_up:
  assumes r: "running (kst w) K c" and va: "va < UTOP" "PGNUM va \<noteq> PFPAGE"
    and x: "umap (kst w) (cr3 (kst w)) (PGNUM va) = Some x"
  shows "if err AND FEC_WR = 0 then pgfault va err w = (Stop (UserPanic ''Fault not caused by write''), w)
    else if x AND PTE_COW = 0 then pgfault va err w = (Stop (UserPanic ''Page not copy on write''), w)
    else x AND PTE_U \<noteq> 0 \<longrightarrow> panics (pgfault va err) w \<and> \<not> has_free (kst w) 2
      \<or> (\<exists>t q. pgfault va err w = (Ret (), w\<lparr>kst := t\<rparr>) \<and> running t K c
           \<and> private_copy (kst w) t (PGNUM va) x q \<and> rest_same (kst w) t \<and> uses_up 2 (kst w) t
           \<and> pte_frame (mk_pte q (PTE_P OR PTE_U OR PTE_W)) = q)"
proof -
  have u: "uvpt_at (PGNUM (ROUNDDOWN va PGSIZE)) w = (Ret x, w)"
    using uvpt_mapped [OF r PGNUM_UTOP [OF va(1)] x] by (simp add: fault_page(1) [OF va(1)])
  note cow_copy_run [OF r va x]
  then show ?thesis
    unfolding panics_def by (simp add: pgfault_cow_copy user_panic_def u)
qed

theorem pgfault_run:
  assumes r: "running (kst w) K c" and va: "va < UTOP" "PGNUM va \<noteq> PFPAGE"
    and x: "umap (kst w) (cr3 (kst w)) (PGNUM va) = Some x"
  shows "if err AND FEC_WR = 0 then pgfault va err w = (Stop (UserPanic ''Fault not caused by write''), w)
    else if x AND PTE_COW = 0 then pgfault va err w = (Stop (UserPanic ''Page not copy on write''), w)
    else x AND PTE_U \<noteq> 0 \<longrightarrow> panics (pgfault va err) w \<and> \<not> has_free (kst w) 2
      \<or> (\<exists>t q. pgfault va err w = (Ret (), w\<lparr>kst := t\<rparr>) \<and> running t K c
           \<and> private_copy (kst w) t (PGNUM va) x q)"
  using pgfault_uses_up [OF assms, of err] by (auto split: if_splits)

end
