(* ===== verification/Jos_Fork_Inv.thy ===== *)
theory Jos_Fork_Inv
  imports Jos_Fork_Cow
begin

text \<open>
  The pages \<^verbatim>\<open>fork\<close> shares: a write of the program to its stack before and after the
  stack is shared, one page of \<^verbatim>\<open>duppage\<close>, and the loop of \<^verbatim>\<open>fork\<close> over the user
  part of the address space.
\<close>

section \<open>Writes of the program\<close>

text \<open>How the library ends without returning: a panic, or a write nothing can resolve.\<close>

definition fails :: "'a uprog \<Rightarrow> uproc \<Rightarrow> bool" where
  "fails m w \<longleftrightarrow> panics m w \<or> (\<exists>va w'. m w = (Stop (UserFault va True), w'))"

definition open_page :: "kstate \<Rightarrow> nat \<Rightarrow> bool" where
  "open_page s n \<longleftrightarrow> (\<exists>x. umap s (cr3 s) n = Some x \<and> x AND PTE_U \<noteq> 0 \<and> x AND PTE_W \<noteq> 0)"

lemma uwalk_open:
  assumes "running s K c" and "va < UTOP"
  shows "uwalk s True va \<noteq> None \<longleftrightarrow> open_page s (PGNUM va)"
  by (auto simp: uwalk_umap [OF assms] open_page_def split: option.splits)

lemma uwrite_open:
  assumes "running (kst w) K c" and "va < UTOP" and "open_page (kst w) (PGNUM va)"
  shows "uwrite va w = (Ret (), w)"
  using assms(3) uwalk_open [OF assms(1,2)] by (simp add: uwrite_def)

lemma calling_open:
  assumes "running (kst w) K c" and "ustack w < UTOP" and "open_page (kst w) (PGNUM (ustack w))"
  shows "calling m w = m w"
  using uwrite_open [OF assms] by (simp add: calling_def)

text \<open>A write to a page that was shared: with an upcall, an exception stack and two free pages it is private again.\<close>

lemma uwrite_shared:
  assumes r: "running (kst w) K c" and va: "va < UTOP" "PGNUM va \<noteq> PFPAGE"
    and x: "umap (kst w) (cr3 (kst w)) (PGNUM va) = Some x" "x AND PTE_U \<noteq> 0" "x AND PTE_COW \<noteq> 0" "x AND PTE_W = 0"
  shows "fails (uwrite va) w
      \<and> \<not> (has_free (kst w) 2 \<and> env_pgfault_upcall (envs (kst w) c) \<noteq> 0 \<and> open_page (kst w) XSPAGE)
    \<or> (\<exists>t q. uwrite va w = (Ret (), w\<lparr>kst := t\<rparr>) \<and> running t K c
        \<and> private_copy (kst w) t (PGNUM va) x q \<and> rest_same (kst w) t \<and> uses_up 2 (kst w) t
        \<and> pte_frame (mk_pte q (PTE_P OR PTE_U OR PTE_W)) = q)"
proof -
  have "\<not> open_page (kst w) (PGNUM va)" using x by (simp add: open_page_def)
  then have no: "uwalk (kst w) True va = None" using uwalk_open [OF r va(1)] by blast
  have cu: "curenv (kst w) = Some c" using r by (simp add: running_def ready_def)
  have xs: "UXSTACKTOP - 4 < UTOP" "PGNUM (UXSTACKTOP - 4) = XSPAGE" by (simp_all add: XSPAGE_def PGNUM_eq kconst)
  have wr: "(FEC_PR OR FEC_WR OR FEC_U) AND FEC_WR \<noteq> 0" by (simp add: kconst)
  show ?thesis
  proof (cases "env_pgfault_upcall (envs (kst w) c) = 0 \<or> \<not> open_page (kst w) XSPAGE")
    case True
    then have "uwrite va w = (Stop (UserFault va True), w)"
      using no cu uwalk_open [OF r xs(1)] by (auto simp: uwrite_def xs(2))
    then show ?thesis using True by (auto simp: fails_def)
  next
    case False
    then have run: "uwrite va w = pgfault va (FEC_PR OR FEC_WR OR FEC_U) w"
      using no cu uwalk_open [OF r xs(1)] by (auto simp: uwrite_def xs(2))
    from pgfault_uses_up [OF r va x(1), of "FEC_PR OR FEC_WR OR FEC_U"] x(2,3) wr
    show ?thesis unfolding fails_def panics_def run by auto
  qed
qed

section \<open>Sharing a page\<close>

text \<open>The entries that \<^verbatim>\<open>duppage\<close> leaves in the parent and makes in the child.\<close>

definition writable_or_cow :: "u32 \<Rightarrow> bool" where
  "writable_or_cow e \<longleftrightarrow> e AND PTE_W \<noteq> 0 \<or> e AND PTE_COW \<noteq> 0"

definition parent_entry :: "u32 \<Rightarrow> u32" where
  "parent_entry e = (if writable_or_cow e then mk_pte (pte_frame e) (PTE_COW OR PTE_P OR PTE_U) else e)"

definition child_entry :: "u32 \<Rightarrow> u32" where
  "child_entry e = mk_pte (pte_frame e) (if writable_or_cow e then PTE_COW OR PTE_P OR PTE_U else PTE_P OR PTE_U)"

text \<open>
  The stack of the program. Once it is shared, the next call writes it, and \<open>own\<close> is the
  frame of the copy that the parent has of its own from then on.
\<close>

definition stack_at :: "kstate \<Rightarrow> nat \<Rightarrow> bool" where
  "stack_at s sn \<longleftrightarrow> sn < 1024 * UPDX \<and> sn \<noteq> XSPAGE \<and> sn \<noteq> PFPAGE
     \<and> umap s (cr3 s) PFPAGE = None \<and> open_page s sn"

definition parent_map :: "kstate \<Rightarrow> nat \<Rightarrow> nat option \<Rightarrow> nat \<Rightarrow> u32 option" where
  "parent_map s0 sn own m = (case own of
     Some q \<Rightarrow> if m = sn then Some (mk_pte q (PTE_P OR PTE_U OR PTE_W)) else map_option parent_entry (umap s0 (cr3 s0) m)
   | None \<Rightarrow> map_option parent_entry (umap s0 (cr3 s0) m))"

definition own_stack :: "kstate \<Rightarrow> kstate \<Rightarrow> nat \<Rightarrow> nat \<Rightarrow> bool" where
  "own_stack s0 s sn q \<longleftrightarrow> \<not> user_frame s0 q \<and> pte_frame (mk_pte q (PTE_P OR PTE_U OR PTE_W)) = q
     \<and> (\<forall>x. umap s0 (cr3 s0) sn = Some x \<longrightarrow> (\<forall>i < 1024. ram s q i = ram s0 (pte_frame x) i))"

text \<open>The pages below \<open>n\<close> have been shared by the space \<open>p\<close>, from the state \<open>s0\<close> on.\<close>

definition shared_upto ::
    "kstate \<Rightarrow> kstate \<Rightarrow> nat set \<Rightarrow> nat \<Rightarrow> nat \<Rightarrow> nat \<Rightarrow> nat option \<Rightarrow> nat \<Rightarrow> bool" where
  "shared_upto s0 s K c p sn own n \<longleftrightarrow> running s K c \<and> rest_same s0 s
     \<and> (\<forall>m < 1024 * UPDX. umap s (cr3 s0) m = (if m < n \<and> m \<noteq> XSPAGE
          then parent_map s0 sn own m else umap s0 (cr3 s0) m))
     \<and> (\<forall>m < 1024 * UPDX. umap s p m = (if m < n \<and> m \<noteq> XSPAGE
          then map_option child_entry (umap s0 (cr3 s0) m) else None))
     \<and> (\<forall>a \<in> dirs s0 - {cr3 s0, p}. \<forall>m < 1024 * UPDX. umap s a m = umap s0 a m)
     \<and> (\<forall>f. user_frame s0 f \<longrightarrow> ram s f = ram s0 f)
     \<and> (\<forall>q. own = Some q \<longrightarrow> sn < n \<and> own_stack s0 s sn q)
     \<and> (\<forall>k. spare s0 p (k + 2) \<longrightarrow> spare s p (if own = None then k + 2 else k))"

text \<open>The environment before the loop: an empty child, and counters that leave room for it.\<close>

definition own_pages_of :: "kstate \<Rightarrow> nat \<Rightarrow> nat set" where
  "own_pages_of s f = {m. m < 1024 * UPDX \<and> map_option pte_frame (umap s (cr3 s) m) = Some f}"

definition room_for_child :: "kstate \<Rightarrow> bool" where
  "room_for_child s \<longleftrightarrow>
     (\<forall>f. user_frame s f \<longrightarrow> card (mappings s f) + card (own_pages_of s f) < 65535)"

definition childless :: "kstate \<Rightarrow> nat set \<Rightarrow> nat \<Rightarrow> nat \<Rightarrow> nat \<Rightarrow> bool" where
  "childless s0 K c e p \<longleftrightarrow> running s0 K c \<and> live s0 e \<and> e \<noteq> c \<and> env_pgdir (envs s0 e) = Some p
     \<and> env_parent_id (envs s0 e) = env_id (envs s0 c) \<and> p \<noteq> cr3 s0
     \<and> (\<forall>m < 1024 * UPDX. umap s0 p m = None) \<and> room_for_child s0"

lemma entry_frames [simp]: "pte_frame (parent_entry e) = pte_frame e" "pte_frame (child_entry e) = pte_frame e"
  by (simp_all add: parent_entry_def child_entry_def share_perms pte_frame_less)

lemma parent_map_simps:
  "parent_map s0 sn None m = map_option parent_entry (umap s0 (cr3 s0) m)"
  "m \<noteq> sn \<Longrightarrow> parent_map s0 sn own m = map_option parent_entry (umap s0 (cr3 s0) m)"
  "parent_map s0 sn (Some q) sn = Some (mk_pte q (PTE_P OR PTE_U OR PTE_W))"
  by (simp_all add: parent_map_def split: option.split)

lemma shared_other_mapping:
  assumes c0: "childless s0 K c e p" and st: "stack_at s0 sn" and sh: "shared_upto s0 s K c p sn own n" and f: "user_frame s0 f"
  shows "\<exists>a m. (a, m) \<in> mappings s f \<and> ((a, m) = (cr3 s0, sn) \<longrightarrow> n \<le> sn)"
proof -
  obtain d m where m: "d \<in> dirs s0" "m < 1024 * UPDX" "map_option pte_frame (umap s0 d m) = Some f"
    using f by (auto simp: user_frame_def)
  have dp: "d \<noteq> p" using c0 m by (auto simp: childless_def)
  have ds: "dirs s = dirs s0" using sh rest_same_dirs [of s0 s] by (simp add: shared_upto_def)
  have pd: "p \<in> dirs s0" using c0 by (auto simp: childless_def dirs_def)
  show ?thesis
  proof (cases "d = cr3 s0 \<and> m = sn \<and> sn < n")
    case True
    then have "map_option pte_frame (umap s p sn) = Some f"
      using m sh st by (auto simp: shared_upto_def stack_at_def)
    then show ?thesis using pd ds m True c0 by (intro exI [of _ p] exI [of _ sn]) (auto simp: mappings_def childless_def)
  next
    case False
    have "map_option pte_frame (umap s d m) = Some f"
    proof (cases "d = cr3 s0")
      case True
      have "own = None" if "m = sn" using that sh False True by (cases own) (auto simp: shared_upto_def)
      then show ?thesis using sh m True parent_map_simps(1,2) by (cases "m = sn") (auto simp: shared_upto_def)
    next
      case False
      then show ?thesis using sh m dp by (auto simp: shared_upto_def)
    qed
    then show ?thesis using m ds False by (intro exI [of _ d] exI [of _ m]) (auto simp: mappings_def)
  qed
qed

lemma shared_user_frame:
  assumes "childless s0 K c e p" and "stack_at s0 sn" and "shared_upto s0 s K c p sn own n" and "user_frame s0 f"
  shows "user_frame s f"
  using shared_other_mapping [OF assms] by (auto simp: user_frame_mappings)

lemma shared_mappings:
  assumes c0: "childless s0 K c e p" and sh: "shared_upto s0 s K c p sn own n" and f: "user_frame s0 f"
  shows "mappings s f \<subseteq> mappings s0 f \<union> Pair p ` own_pages_of s0 f"
proof
  fix x assume "x \<in> mappings s f"
  then obtain a m where x: "x = (a, m)" "a \<in> dirs s0" "m < 1024 * UPDX" "map_option pte_frame (umap s a m) = Some f"
    using sh rest_same_dirs [of s0 s] by (auto simp: mappings_def shared_upto_def)
  consider "a = cr3 s0" | "a = p" "a \<noteq> cr3 s0" | "a \<in> dirs s0 - {cr3 s0, p}" using x(2) by blast
  then show "x \<in> mappings s0 f \<union> Pair p ` own_pages_of s0 f"
  proof cases
    case 1
    have "map_option pte_frame (parent_map s0 sn own m) \<noteq> Some f \<or> map_option pte_frame (umap s0 (cr3 s0) m) = Some f"
      using sh f by (cases own) (auto simp: parent_map_def shared_upto_def own_stack_def)
    then show ?thesis using x 1 sh by (auto simp: mappings_def shared_upto_def split: if_splits)
  next
    case 2
    then show ?thesis using x sh by (auto simp: own_pages_of_def shared_upto_def split: if_splits)
  next
    case 3
    then show ?thesis using x sh by (auto simp: mappings_def shared_upto_def)
  qed
qed

lemma room_from_mappings:
  assumes c0: "childless s0 K c e p" and r: "running s K c" and f: "user_frame s0 f" "user_frame s f"
    and m: "mappings s f \<subseteq> mappings s0 f \<union> Pair p ` own_pages_of s0 f"
  shows "unat (pp_ref (pages s f)) < 65535"
proof -
  obtain fl where fl: "mem_inv s (dirs s) K fl" using r by (rule running_inv)
  have "finite (dirs s0)" using c0 mem_invD(1) unfolding childless_def by (blast elim: running_inv)
  then have fin: "finite (mappings s0 f)" "finite (own_pages_of s0 f)"
    by (simp_all add: finite_mappings own_pages_of_def)
  then have "card (mappings s f) \<le> card (mappings s0 f \<union> Pair p ` own_pages_of s0 f)"
    by (intro card_mono m) simp
  also have "\<dots> \<le> card (mappings s0 f) + card (Pair p ` own_pages_of s0 f)" by (rule card_Un_le)
  also have "\<dots> \<le> card (mappings s0 f) + card (own_pages_of s0 f)" using card_image_le [OF fin(2)] by simp
  also have "\<dots> < 65535" using c0 f(1) by (simp add: childless_def room_for_child_def)
  finally show ?thesis using mappings_counted [OF fl f(2)] by simp
qed

lemma shared_step:
  assumes c0: "childless s0 K c e p" and sh: "shared_upto s0 s K c p sn own n" and n: "n < 1024 * UPDX" "n \<noteq> XSPAGE"
    and x: "umap s0 (cr3 s0) n = Some x" and t: "running t K c" "rest_same s t" and st: "stack_at s0 sn"
    and m: "\<forall>a \<in> dirs s. \<forall>m < 1024 * UPDX. umap t a m = (if a = p \<and> m = n then Some (child_entry x)
      else if a = cr3 s0 \<and> m = n then Some (parent_entry x) else umap s a m)"
    and k: "\<forall>f. user_frame s f \<longrightarrow> ram t f = ram s f" and sp: "\<forall>k. spare s p k \<longrightarrow> spare t p k"
  shows "shared_upto s0 t K c p sn own (Suc n)"
proof -
  have s: "rest_same s0 s" "dirs s = dirs s0" using sh rest_same_dirs [of s0 s] by (auto simp: shared_upto_def)
  have pd: "p \<noteq> cr3 s0" "p \<in> dirs s0" "cr3 s0 \<in> dirs s0"
    using c0 running_dir [of s0 K c] by (auto simp: childless_def dirs_def)
  have pn: "parent_map s0 sn own n = Some (parent_entry x)"
    using sh x by (cases own) (auto simp: parent_map_def shared_upto_def)
  have "umap t (cr3 s0) m = (if m < Suc n \<and> m \<noteq> XSPAGE then parent_map s0 sn own m
      else umap s0 (cr3 s0) m)" if "m < 1024 * UPDX" for m
    using that m sh pd n pn s(2) by (auto simp: shared_upto_def less_Suc_eq)
  moreover have "umap t p m = (if m < Suc n \<and> m \<noteq> XSPAGE then map_option child_entry (umap s0 (cr3 s0) m)
      else None)" if "m < 1024 * UPDX" for m
    using that m sh pd n x s(2) by (auto simp: shared_upto_def less_Suc_eq)
  moreover have "umap t a m = umap s0 a m" if "a \<in> dirs s0 - {cr3 s0, p}" "m < 1024 * UPDX" for a m
    using that m sh s(2) by (auto simp: shared_upto_def)
  moreover have "ram t f = ram s0 f" if "user_frame s0 f" for f
    using that k sh shared_user_frame [OF c0 st sh that] by (simp add: shared_upto_def)
  moreover have "sn < Suc n \<and> own_stack s0 t sn q" if q: "own = Some q" for q
  proof -
    have o: "sn < n" "own_stack s0 s sn q" using sh q by (simp_all add: shared_upto_def)
    have "umap s (cr3 s0) sn = Some (mk_pte q (PTE_P OR PTE_U OR PTE_W))"
      using sh q o(1) st by (simp add: shared_upto_def stack_at_def parent_map_simps)
    then have "user_frame s q"
      using user_frameI [of s "cr3 s0" sn] o st pd(3) s(2) by (simp add: own_stack_def stack_at_def)
    then show ?thesis using o k by (simp add: own_stack_def)
  qed
  moreover have "spare t p (if own = None then k + 2 else k)" if "spare s0 p (k + 2)" for k
    using that sp sh by (simp add: shared_upto_def)
  ultimately show ?thesis using t(1) rest_same_trans [OF s(1) t(2)] by (simp add: shared_upto_def)
qed

lemma shared_facts:
  assumes c0: "childless s0 K c e p" and sh: "shared_upto s0 s K c p sn own n"
  shows "running s K c" and "envs s = envs s0" and "cr3 s = cr3 s0" and "dirs s = dirs s0"
    and "live s e" and "e = c \<or> env_parent_id (envs s e) = env_id (envs s c)" and "env_pgdir (envs s e) = Some p"
    and "live s c" and "env_pgdir (envs s c) = Some (cr3 s)" and "ready s K c"
    and "p \<noteq> cr3 s0" and "cr3 s0 \<in> dirs s0"
  using c0 sh rest_sameD(2,7) [of s0 s] rest_same_dirs [of s0 s] rest_same_live [of s0 s e] running_dir [of s0 K c]
  by (auto simp: childless_def shared_upto_def running_def ready_def)

text \<open>
  What the loop and the calls behind it need: for each missing table of the child a page, two for
  the exception stack of the child, two for the copy of the stack, and a handler to make it.
\<close>

definition fork_room :: "kstate \<Rightarrow> nat \<Rightarrow> nat \<Rightarrow> bool" where
  "fork_room s0 c p \<longleftrightarrow> spare s0 p (UPDX + 4) \<and> env_pgfault_upcall (envs s0 c) \<noteq> 0 \<and> open_page s0 XSPAGE"

lemma shared_free:
  assumes sh: "shared_upto s0 s K c p sn own n" and m: "spare s0 p (UPDX + 4)"
  shows "has_free s 2"
proof -
  have "spare s0 p ((UPDX + 2) + 2)" using m by (rule spare_mono) simp
  then have "spare s p (if own = None then (UPDX + 2) + 2 else UPDX + 2)"
    using sh unfolding shared_upto_def by blast
  then have "spare s p (UPDX + 2)" by (auto split: if_splits elim: spare_mono)
  then show ?thesis by (rule spare_has_free)
qed

lemma parent_entry_bits:
  assumes "x AND PTE_W \<noteq> 0"
  shows "parent_entry x AND PTE_U \<noteq> 0" and "parent_entry x AND PTE_COW \<noteq> 0" and "parent_entry x AND PTE_W = 0"
proof -
  have b: "PTE_U < 0x1000" "PTE_COW < 0x1000" "PTE_W < 0x1000" by (simp_all add: kconst)
  have "parent_entry x = mk_pte (pte_frame x) (PTE_COW OR PTE_P OR PTE_U)"
    using assms by (simp add: parent_entry_def writable_or_cow_def)
  then show "parent_entry x AND PTE_U \<noteq> 0" and "parent_entry x AND PTE_COW \<noteq> 0" and "parent_entry x AND PTE_W = 0"
    by (simp_all add: mk_pte_flag [OF _ share_perms(1)] b) (simp_all add: kconst)
qed

text \<open>The copy of the stack keeps what is shared.\<close>

lemma shared_private:
  assumes c0: "childless s0 K c e p" and st: "stack_at s0 sn" and sh: "shared_upto s0 s K c p sn None n" and n: "sn < n"
    and x: "umap s0 (cr3 s0) sn = Some x"
    and t: "running t K c" "rest_same s t" "uses_up 2 s t" "private_copy s t sn (parent_entry x) q"
      "pte_frame (mk_pte q (PTE_P OR PTE_U OR PTE_W)) = q"
  shows "shared_upto s0 t K c p sn (Some q) n"
proof -
  note f = shared_facts [OF c0 sh]
  note pc = t(4) [unfolded private_copy_def f(3,4)]
  have pd: "p \<in> dirs s0" using c0 by (auto simp: childless_def dirs_def)
  have "umap s (cr3 s0) PFPAGE = None" using sh st PFPAGE_facts(1) by (simp add: shared_upto_def stack_at_def parent_map_def)
  then have u: "umap t a m = (if a = cr3 s0 \<and> m = sn then Some (mk_pte q (PTE_P OR PTE_U OR PTE_W)) else umap s a m)"
    if "a \<in> dirs s0" "m < 1024 * UPDX" for a m
    using pc that by (cases "a = cr3 s0 \<and> m = PFPAGE"; cases "a = cr3 s0 \<and> m = sn") auto
  have ram: "ram t g = ram s0 g" if g: "user_frame s0 g" for g
  proof -
    obtain a m where am: "(a, m) \<in> mappings s g" "(a, m) \<noteq> (cr3 s0, sn)"
      using shared_other_mapping [OF c0 st sh g] n by auto
    have "(a, m) \<noteq> (cr3 s0, PFPAGE)" using am(1) \<open>umap s (cr3 s0) PFPAGE = None\<close> by (auto simp: mappings_def)
    then have "ram t g = ram s g" using pc am by blast
    then show ?thesis using sh g by (simp add: shared_upto_def)
  qed
  have fx: "user_frame s0 (pte_frame x)" by (rule user_frameI [OF x f(12)]) (use st in \<open>simp add: stack_at_def\<close>)
  have "own_stack s0 t sn q" unfolding own_stack_def
  proof (intro conjI allI impI)
    show "\<not> user_frame s0 q" using pc shared_user_frame [OF c0 st sh] by blast
    show "pte_frame (mk_pte q (PTE_P OR PTE_U OR PTE_W)) = q" by (rule t(5))
    fix y i assume y: "umap s0 (cr3 s0) sn = Some y" "i < (1024 :: nat)"
    have "ram t q i = ram s (pte_frame x) i" using pc y(2) by simp
    then show "ram t q i = ram s0 (pte_frame y) i" using sh fx x y(1) by (simp add: shared_upto_def)
  qed
  moreover have "spare t p k" if "spare s0 p (k + 2)" for k
    by (rule uses_up_spare [OF t(3)]) (use that sh pd f(4) in \<open>simp_all add: shared_upto_def\<close>)
  moreover have "umap t (cr3 s0) m = (if m < n \<and> m \<noteq> XSPAGE then parent_map s0 sn (Some q) m else umap s0 (cr3 s0) m)"
    if "m < 1024 * UPDX" for m
    using u [OF f(12) that] sh that n st by (auto simp: shared_upto_def parent_map_def stack_at_def)
  moreover have "umap t p m = (if m < n \<and> m \<noteq> XSPAGE then map_option child_entry (umap s0 (cr3 s0) m) else None)"
    if "m < 1024 * UPDX" for m using u [OF pd that] sh that f(11) by (auto simp: shared_upto_def)
  moreover have "umap t a m = umap s0 a m" if "a \<in> dirs s0 - {cr3 s0, p}" "m < 1024 * UPDX" for a m
    using u [of a m] sh that by (auto simp: shared_upto_def)
  moreover have "rest_same s0 t" using sh t(2) rest_same_trans by (auto simp: shared_upto_def)
  ultimately show ?thesis using t(1) ram n by (simp add: shared_upto_def)
qed

text \<open>A call writes the stack: before its page is shared that changes nothing, after that it copies the page once.\<close>

lemma calling_run:
  assumes c0: "childless s0 K c e p" and st: "stack_at s0 sn" and sh: "shared_upto s0 (kst w) K c p sn own n"
    and us: "ustack w < UTOP" "PGNUM (ustack w) = sn"
  shows "fails (calling m) w \<and> \<not> fork_room s0 c p
    \<or> (\<exists>t own'. calling m w = m (w\<lparr>kst := t\<rparr>) \<and> shared_upto s0 t K c p sn own' n \<and> open_page t sn)"
proof -
  note f = shared_facts [OF c0 sh]
  have sn: "sn < 1024 * UPDX" "sn \<noteq> XSPAGE" "sn \<noteq> PFPAGE" using st by (simp_all add: stack_at_def)
  obtain x where x: "umap s0 (cr3 s0) sn = Some x" "x AND PTE_U \<noteq> 0" "x AND PTE_W \<noteq> 0"
    using st by (auto simp: stack_at_def open_page_def)
  have rwu: "mk_pte q (PTE_P OR PTE_U OR PTE_W) AND PTE_U \<noteq> 0" "mk_pte q (PTE_P OR PTE_U OR PTE_W) AND PTE_W \<noteq> 0" for q
    by (simp_all add: mk_pte_flag kconst)
  show ?thesis
  proof (cases "sn < n \<and> own = None")
    case False
    have "open_page (kst w) sn"
      using False sh sn x f(3) rwu by (cases own) (auto simp: shared_upto_def open_page_def parent_map_simps)
    moreover from this have "calling m w = m (w\<lparr>kst := kst w\<rparr>)"
      using calling_open [OF f(1) us(1)] us(2) by simp
    ultimately show ?thesis using sh by blast
  next
    case True
    then have sh': "shared_upto s0 (kst w) K c p sn None n" "sn < n" using sh by simp_all
    have ux: "umap (kst w) (cr3 (kst w)) (PGNUM (ustack w)) = Some (parent_entry x)"
      using sh' sn x f(3) us(2) by (simp add: shared_upto_def parent_map_simps)
    have xs: "open_page (kst w) XSPAGE = open_page s0 XSPAGE"
      using sh f(3) XSPAGE_less(1) by (simp add: shared_upto_def open_page_def)
    have free: "has_free (kst w) 2" if "fork_room s0 c p" using that shared_free [OF sh] by (simp add: fork_room_def)
    from uwrite_shared [OF f(1) us(1) _ ux parent_entry_bits [OF x(3)]] us(2) sn(3)
    have "fails (uwrite (ustack w)) w
        \<and> \<not> (has_free (kst w) 2 \<and> env_pgfault_upcall (envs (kst w) c) \<noteq> 0 \<and> open_page (kst w) XSPAGE)
      \<or> (\<exists>t q. uwrite (ustack w) w = (Ret (), w\<lparr>kst := t\<rparr>) \<and> running t K c
        \<and> private_copy (kst w) t sn (parent_entry x) q \<and> rest_same (kst w) t \<and> uses_up 2 (kst w) t
        \<and> pte_frame (mk_pte q (PTE_P OR PTE_U OR PTE_W)) = q)" by simp
    then show ?thesis
    proof (elim disjE exE conjE)
      assume bad: "fails (uwrite (ustack w)) w"
        "\<not> (has_free (kst w) 2 \<and> env_pgfault_upcall (envs (kst w) c) \<noteq> 0 \<and> open_page (kst w) XSPAGE)"
      have "fails (calling m) w" using bad(1) by (auto simp: fails_def panics_def calling_def)
      moreover have "\<not> fork_room s0 c p" using bad(2) free xs f(2) by (auto simp: fork_room_def)
      ultimately show ?thesis by blast
    next
      fix t q assume t: "uwrite (ustack w) w = (Ret (), w\<lparr>kst := t\<rparr>)" "running t K c"
        "private_copy (kst w) t sn (parent_entry x) q" "rest_same (kst w) t" "uses_up 2 (kst w) t"
        "pte_frame (mk_pte q (PTE_P OR PTE_U OR PTE_W)) = q"
      have s': "shared_upto s0 t K c p sn (Some q) n"
        by (rule shared_private [OF c0 st sh' x(1) t(2,4,5,3,6)])
      moreover have "open_page t sn"
        using s' sh'(2) sn shared_facts(3) [OF c0 s']
        by (simp add: shared_upto_def open_page_def parent_map_simps rwu)
      moreover have "calling m w = m (w\<lparr>kst := t\<rparr>)" using t(1) by (simp add: calling_def)
      ultimately show ?thesis by blast
    qed
  qed
qed

text \<open>The first mapping of \<^verbatim>\<open>duppage\<close>, into the child, and what it leaves to do.\<close>

lemma share_child_run:
  assumes c0: "childless s0 K c e p" and st: "stack_at s0 sn" and sh: "shared_upto s0 (kst w) K c p sn own n"
    and n: "n < 1024 * UPDX" and x: "umap s0 (cr3 s0) n = Some x" and perm: "\<not> bad_perm perm" "perm AND PTE_W = 0"
  shows "(\<exists>v w'. usys_page_map (env_id (envs s0 c)) (of_nat n * PGSIZE) (env_id (envs s0 e)) (of_nat n * PGSIZE) perm w
        = (Ret v, w') \<and> is_neg v) \<and> \<not> fork_room s0 c p
    \<or> (\<exists>t. usys_page_map (env_id (envs s0 c)) (of_nat n * PGSIZE) (env_id (envs s0 e)) (of_nat n * PGSIZE) perm w
        = (Ret 0, w\<lparr>kst := t\<rparr>) \<and> remapped (kst w) t K c p n (Some (mk_pte (pte_frame x) perm))
        \<and> (\<forall>k. spare (kst w) p k \<longrightarrow> spare t p k))"
proof -
  note f = shared_facts [OF c0 sh]
  have f0: "user_frame s0 (pte_frame x)" using f(12) n x by (auto simp: user_frame_def)
  have ux: "umap (kst w) (cr3 (kst w)) n = Some x" using sh n x f(3) by (simp add: shared_upto_def)
  have "unat (pp_ref (pages (kst w) (pte_frame x))) < 65535"
    by (rule room_from_mappings [OF c0 f(1) f0 shared_user_frame [OF c0 st sh f0] shared_mappings [OF c0 sh f0]])
  note run = share_page_run [OF f(1,5-7) n ux this perm]
  have pd: "p \<in> dirs (kst w)" using f(5,7) by (auto simp: dirs_def)
  have "\<not> fork_room s0 c p" if "\<not> has_free (kst w) 1"
    using that shared_free [OF sh] has_free_mono [of "kst w" 2 1] by (auto simp: fork_room_def)
  then show ?thesis using run f(2) free_step_spare [OF _ pd] by auto
qed

lemma share_parent_run:
  assumes c0: "childless s0 K c e p" and st: "stack_at s0 sn" and sh: "shared_upto s0 s K c p sn own n"
    and n: "n < 1024 * UPDX" and x: "umap s0 (cr3 s0) n = Some x"
    and m: "remapped s (kst w) K c p n (Some (mk_pte (pte_frame x) perm))" "perm < 0x1000"
    and perm: "\<not> bad_perm perm" "perm AND PTE_W = 0"
  shows "\<exists>t. usys_page_map (env_id (envs s0 c)) (of_nat n * PGSIZE) (env_id (envs s0 c)) (of_nat n * PGSIZE) perm w
        = (Ret 0, w\<lparr>kst := t\<rparr>) \<and> remapped (kst w) t K c (cr3 s0) n (Some (mk_pte (pte_frame x) perm))
        \<and> (\<forall>k. spare (kst w) p k \<longrightarrow> spare t p k)"
proof -
  note f = shared_facts [OF c0 sh]
  have t: "running (kst w) K c" "rest_same s (kst w)" "maps_agree s (kst w) (dirs s) p n (Some (mk_pte (pte_frame x) perm))"
    using m by (simp_all add: remapped_def)
  note rs = rest_sameD(2,7) [OF t(2)] rest_same_dirs [OF t(2)]
  have f0: "user_frame s0 (pte_frame x)" using f(12) n x by (auto simp: user_frame_def)
  have none: "umap s p n = None" using sh n by (simp add: shared_upto_def)
  have ft: "user_frame (kst w) (pte_frame x)"
    by (rule remapped_user_frame [OF m(1) shared_user_frame [OF c0 st sh f0]]) (simp add: none)
  have "(p, n) \<in> Pair p ` own_pages_of s0 (pte_frame x)" using n x by (simp add: own_pages_of_def)
  then have "mappings (kst w) (pte_frame x) \<subseteq> mappings s0 (pte_frame x) \<union> Pair p ` own_pages_of s0 (pte_frame x)"
    using mappings_step [OF t(3) rs(3), of "pte_frame x"] shared_mappings [OF c0 sh f0] by blast
  then have room: "unat (pp_ref (pages (kst w) (pte_frame x))) < 65535"
    by (rule room_from_mappings [OF c0 t(1) f0 ft])
  have ux: "umap (kst w) (cr3 (kst w)) n = Some x"
    using t(3) sh n x f(3,4,11,12) rs by (auto simp: maps_agree_def shared_upto_def)
  have cc: "live (kst w) c" "env_pgdir (envs (kst w) c) = Some (cr3 s0)"
    using f(3,8,9) rs(1) by (simp_all add: live_def)
  have tab: "tab_of (kst w) (cr3 s0) (n div 1024) \<noteq> None" using tab_of_umap [OF ux] rs(2) f(3) by simp
  have pd: "p \<in> dirs (kst w)" using f(5,7) rs(3) by (auto simp: dirs_def)
  from share_page_run [OF t(1) cc(1) _ cc(2) n ux room perm] obtain t where
    u: "usys_page_map (env_id (envs s0 c)) (of_nat n * PGSIZE) (env_id (envs s0 c)) (of_nat n * PGSIZE) perm w = (Ret 0, w\<lparr>kst := t\<rparr>)"
      "remapped (kst w) t K c (cr3 s0) n (Some (mk_pte (pte_frame x) perm))" "free_step (kst w) t (cr3 s0) (n div 1024)"
    using f(2) rs(1) tab by auto
  have "spare t p k" if "spare (kst w) p k" for k
    by (rule free_step_spare [OF u(3) pd _ that]) (use tab in simp)
  then show ?thesis using u(1,2) by blast
qed

lemma shared_both:
  assumes c0: "childless s0 K c e p" and st: "stack_at s0 sn" and sh: "shared_upto s0 s K c p sn own n"
    and n: "n < 1024 * UPDX" "n \<noteq> XSPAGE" and x: "umap s0 (cr3 s0) n = Some x"
    and t: "remapped s t K c p n (Some (child_entry x))" and u: "remapped t u K c (cr3 s0) n (Some (parent_entry x))"
    and sp: "\<forall>k. spare s p k \<longrightarrow> spare u p k"
  shows "shared_upto s0 u K c p sn own (Suc n)"
proof -
  note tm = t [unfolded remapped_def maps_agree_def contents_kept_def]
  note um = u [unfolded remapped_def maps_agree_def contents_kept_def]
  have none: "umap s p n = None" using sh n by (simp add: shared_upto_def)
  have ft: "user_frame t g" if "user_frame s g" for g
    by (rule remapped_user_frame [OF t that]) (simp add: none)
  have dt: "dirs t = dirs s" using tm rest_same_dirs by blast
  show ?thesis
  proof (rule shared_step [OF c0 sh n x _ _ st])
    show "running u K c" using um by blast
    show "rest_same s u" using tm um rest_same_trans by blast
    show "\<forall>f. user_frame s f \<longrightarrow> ram u f = ram s f" using tm um ft by auto
    show "\<forall>a \<in> dirs s. \<forall>m < 1024 * UPDX. umap u a m = (if a = p \<and> m = n then Some (child_entry x)
      else if a = cr3 s0 \<and> m = n then Some (parent_entry x) else umap s a m)"
      using tm um dt shared_facts(11) [OF c0 sh] by auto
    show "\<forall>k. spare s p k \<longrightarrow> spare u p k" by (rule sp)
  qed
qed

lemma open_page_kept: "remapped s t K c d n v \<Longrightarrow> d \<noteq> cr3 s \<or> n \<noteq> m \<Longrightarrow> m < 1024 * UPDX \<Longrightarrow> cr3 s \<in> dirs s
    \<Longrightarrow> open_page t m = open_page s m"
  using rest_sameD(7) [of s t] by (auto simp: remapped_def maps_agree_def open_page_def)

lemma duppage_run:
  assumes c0: "childless s0 K c e p" and st: "stack_at s0 sn" and sh: "shared_upto s0 (kst w) K c p sn own n"
    and us: "ustack w < UTOP" "PGNUM (ustack w) = sn" and op: "open_page (kst w) sn"
    and n: "n < 1024 * UPDX" "n \<noteq> XSPAGE" and x: "umap s0 (cr3 s0) n = Some x"
  shows "fails (duppage (env_id (envs s0 e)) n) w \<and> \<not> fork_room s0 c p
    \<or> (\<exists>t. duppage (env_id (envs s0 e)) n w = (Ret 0, w\<lparr>kst := t\<rparr>) \<and> shared_upto s0 t K c p sn own (Suc n))"
proof -
  let ?va = "of_nat n * PGSIZE :: u32" and ?c = "env_id (envs s0 c)" and ?e = "env_id (envs s0 e)"
  note f = shared_facts [OF c0 sh]
  have ux: "umap (kst w) (cr3 (kst w)) n = Some x" using sh n x f(3) by (simp add: shared_upto_def)
  have push: "calling m w = m w" for m :: "i32 uprog" by (rule calling_open [OF f(1) us(1)]) (simp add: us(2) op)
  note simps = duppage_def Let_def uvpt_mapped [OF f(1) n(1) ux] usys_getenvid_run [OF f(10)] f(2) push
  define perm :: u32 where "perm = (if writable_or_cow x then PTE_COW OR PTE_P OR PTE_U else PTE_P OR PTE_U)"
  have perm: "perm < 0x1000" "\<not> bad_perm perm" "perm AND PTE_W = 0"
    by (simp_all add: perm_def share_perms share_perms_ok)
  have ce: "child_entry x = mk_pte (pte_frame x) perm" by (simp add: child_entry_def perm_def)
  from share_child_run [OF c0 st sh n(1) x perm(2,3)] show ?thesis
  proof (elim disjE exE conjE)
    fix v w' assume "usys_page_map ?c ?va ?e ?va perm w = (Ret v, w')" "is_neg v" "\<not> fork_room s0 c p"
    then show ?thesis by (auto simp: simps fails_def panics_def user_panic_def perm_def writable_or_cow_def split: if_splits)
  next
    fix t assume t: "usys_page_map ?c ?va ?e ?va perm w = (Ret 0, w\<lparr>kst := t\<rparr>)"
      "remapped (kst w) t K c p n (Some (mk_pte (pte_frame x) perm))" "\<forall>k. spare (kst w) p k \<longrightarrow> spare t p k"
    note tm = t(2) [unfolded remapped_def maps_agree_def contents_kept_def]
    show ?thesis
    proof (cases "writable_or_cow x")
      case False
      have "shared_upto s0 t K c p sn own (Suc n)"
        by (rule shared_step [OF c0 sh n x _ _ st])
          (use tm ux f False t(3) in \<open>auto simp: ce parent_entry_def\<close>)
      moreover have "duppage ?e n w = (Ret 0, w\<lparr>kst := t\<rparr>)"
        using t(1) False by (simp add: simps perm_def writable_or_cow_def)
      ultimately show ?thesis by blast
    next
      case True
      let ?w = "w\<lparr>kst := t\<rparr>"
      have pt: "parent_entry x = mk_pte (pte_frame x) perm" using True by (simp add: parent_entry_def perm_def)
      have rt: "running t K c" "ready t K c" "envs t = envs s0"
        using tm f(2) rest_sameD(2) [of "kst w" t] by (simp_all add: running_def)
      then have id: "usys_getenvid ?w = (Ret ?c, ?w)" using usys_getenvid_run [of ?w K c] by simp
      have "open_page t sn"
        using open_page_kept [OF t(2), of sn] op st f(3,4,11,12) by (simp add: stack_at_def)
      then have push': "calling m ?w = m ?w" for m :: "i32 uprog"
        by (intro calling_open [of ?w K c]) (simp_all add: us rt(1))
      have tw: "remapped (kst w) (kst ?w) K c p n (Some (mk_pte (pte_frame x) perm))" using t(2) by simp
      from share_parent_run [OF c0 st sh n(1) x tw perm] obtain u where
        u: "usys_page_map ?c ?va ?c ?va perm ?w = (Ret 0, ?w\<lparr>kst := u\<rparr>)"
          "remapped t u K c (cr3 s0) n (Some (mk_pte (pte_frame x) perm))" "\<forall>k. spare t p k \<longrightarrow> spare u p k" by auto
      have "shared_upto s0 u K c p sn own (Suc n)"
        by (rule shared_both [OF c0 st sh n x, of t]) (use t(2,3) u(2,3) in \<open>simp_all add: ce pt\<close>)
      moreover have "duppage ?e n w = (Ret 0, w\<lparr>kst := u\<rparr>)"
        using t(1) u(1) True id by (simp add: simps push' perm_def writable_or_cow_def user_panic_def)
      ultimately show ?thesis by blast
    qed
  qed
qed

section \<open>The loop\<close>

lemma XSPAGE_iff: "n < 1024 * UPDX \<Longrightarrow> of_nat n * PGSIZE = UXSTACKTOP - PGSIZE \<longleftrightarrow> n = XSPAGE"
proof
  assume n: "n < 1024 * UPDX" and "of_nat n * PGSIZE = UXSTACKTOP - PGSIZE"
  then show "n = XSPAGE" using page_addr(1) [OF n] by (simp add: XSPAGE_def)
next
  assume "n = XSPAGE"
  moreover have x: "XSPAGE = 977919" by (simp add: XSPAGE_def PGNUM_eq kconst)
  ultimately show "of_nat n * PGSIZE = UXSTACKTOP - PGSIZE" unfolding x by (simp add: kconst)
qed

lemma shared_skip:
  assumes sh: "shared_upto s0 s K c p sn own n"
    and n: "umap s0 (cr3 s0) n = None \<or> n = XSPAGE"
  shows "shared_upto s0 s K c p sn own (Suc n)"
proof -
  have "parent_map s0 sn own n = umap s0 (cr3 s0) n" if "umap s0 (cr3 s0) n = None"
    using that sh by (cases own) (auto simp: parent_map_def shared_upto_def)
  then have "(if m < Suc n \<and> m \<noteq> XSPAGE then parent_map s0 sn own m else umap s0 (cr3 s0) m)
      = (if m < n \<and> m \<noteq> XSPAGE then parent_map s0 sn own m else umap s0 (cr3 s0) m)" for m
    using n by (auto simp: less_Suc_eq)
  moreover have "(if m < Suc n \<and> m \<noteq> XSPAGE then map_option child_entry (umap s0 (cr3 s0) m) else None)
      = (if m < n \<and> m \<noteq> XSPAGE then map_option child_entry (umap s0 (cr3 s0) m) else None)" for m
    using n by (auto simp: less_Suc_eq)
  ultimately show ?thesis using sh unfolding shared_upto_def by (simp add: less_SucI)
qed

lemma fork_page_run:
  assumes c0: "childless s0 K c e p" and st: "stack_at s0 sn" and sh: "shared_upto s0 (kst w) K c p sn own n"
    and us: "ustack w < UTOP" "PGNUM (ustack w) = sn" and n: "n < 1024 * UPDX"
  shows "fails (fork_page (env_id (envs s0 e)) n) w \<and> \<not> fork_room s0 c p
    \<or> (\<exists>t own'. fork_page (env_id (envs s0 e)) n w = (Ret (), w\<lparr>kst := t\<rparr>) \<and> shared_upto s0 t K c p sn own' (Suc n))"
proof -
  let ?d = "cr3 (kst w)"
  note f = shared_facts [OF c0 sh]
  have u: "umap (kst w) ?d n = umap s0 (cr3 s0) n" using sh n f(3) by (simp add: shared_upto_def)
  have i: "PDX (of_nat n * PGSIZE) = n div 1024" by (simp add: PDX_of_PGNUM page_addr(1) [OF n])
  have pde: "uvpd_at (PDX (of_nat n * PGSIZE)) w = (Ret (ram (kst w) ?d (n div 1024)), w)"
    using uvpd_reads [OF f(1), of "n div 1024"] div_UPDX [OF n] UPDX_UVPT by (simp add: i)
  have w: "w\<lparr>kst := kst w\<rparr> = w" by simp
  have skip: ?thesis if "fork_page (env_id (envs s0 e)) n w = (Ret (), w)" "umap s0 (cr3 s0) n = None \<or> n = XSPAGE"
    using that shared_skip [OF sh] w by metis
  show ?thesis
  proof (cases "tab_of (kst w) ?d (n div 1024)")
    case None
    then have "ram (kst w) ?d (n div 1024) AND PTE_P = 0" "umap s0 (cr3 s0) n = None"
      using u by (auto simp: tab_of_def entry_frame_def present_def umap_def split: if_splits)
    then show ?thesis using skip pde by (simp add: fork_page_def)
  next
    case (Some t)
    then have P: "ram (kst w) ?d (n div 1024) AND PTE_P \<noteq> 0"
      by (auto simp: tab_of_def entry_frame_def present_def split: if_splits)
    let ?e = "ram (kst w) t (n mod 1024)"
    have pte: "uvpt_at n w = (Ret ?e, w)" using uvpt_reads [OF f(1) n] Some by simp
    have um: "umap s0 (cr3 s0) n = (if ?e AND PTE_P \<noteq> 0 then Some ?e else None)"
      using u Some by (simp add: umap_def Let_def present_def)
    note run = fork_page_def pde pte P XSPAGE_iff [OF n]
    show ?thesis
    proof (cases "?e AND PTE_P = 0 \<or> n = XSPAGE")
      case True
      then have "fork_page (env_id (envs s0 e)) n w = (Ret (), w)" by (auto simp: run)
      then show ?thesis using skip um True by auto
    next
      case False
      then have x: "umap s0 (cr3 s0) n = Some ?e" "n \<noteq> XSPAGE" using um by simp_all
      have fp: "fork_page (env_id (envs s0 e)) n w = bindM (calling (duppage (env_id (envs s0 e)) n)) (\<lambda>_. ret ()) w"
        using False by (simp add: run)
      from calling_run [OF c0 st sh us, of "duppage (env_id (envs s0 e)) n"] show ?thesis
      proof (elim disjE exE conjE)
        assume "fails (calling (duppage (env_id (envs s0 e)) n)) w" "\<not> fork_room s0 c p"
        then show ?thesis by (auto simp: fp fails_def panics_def)
      next
        fix t own' assume t: "calling (duppage (env_id (envs s0 e)) n) w = duppage (env_id (envs s0 e)) n (w\<lparr>kst := t\<rparr>)"
          "shared_upto s0 t K c p sn own' n" "open_page t sn"
        from duppage_run [OF c0 st, of "w\<lparr>kst := t\<rparr>" own' n] t(2,3) us n x
        have "fails (duppage (env_id (envs s0 e)) n) (w\<lparr>kst := t\<rparr>) \<and> \<not> fork_room s0 c p
          \<or> (\<exists>u. duppage (env_id (envs s0 e)) n (w\<lparr>kst := t\<rparr>) = (Ret 0, w\<lparr>kst := u\<rparr>)
               \<and> shared_upto s0 u K c p sn own' (Suc n))" by simp
        then show ?thesis by (auto simp: fp t(1) fails_def panics_def)
      qed
    qed
  qed
qed

lemma fork_loop:
  assumes c0: "childless s0 K c e p" and st: "stack_at s0 sn" and "n \<le> 1024 * UPDX"
  shows "shared_upto s0 (kst w) K c p sn own n \<Longrightarrow> ustack w < UTOP \<Longrightarrow> PGNUM (ustack w) = sn \<Longrightarrow>
    fails (forM [n ..< 1024 * UPDX] (fork_page (env_id (envs s0 e)))) w \<and> \<not> fork_room s0 c p
    \<or> (\<exists>t own'. forM [n ..< 1024 * UPDX] (fork_page (env_id (envs s0 e))) w = (Ret (), w\<lparr>kst := t\<rparr>)
        \<and> shared_upto s0 t K c p sn own' (1024 * UPDX))"
  using assms(3)
proof (induction n arbitrary: w own rule: inc_induct)
  case base
  have "forM [1024 * UPDX ..< 1024 * UPDX] (fork_page (env_id (envs s0 e))) w = (Ret (), w\<lparr>kst := kst w\<rparr>)" by simp
  then show ?case using base by blast
next
  case (step n)
  have fm: "forM [n ..< 1024 * UPDX] f = thenM (f n) (forM [Suc n ..< 1024 * UPDX] f)" for f :: "nat \<Rightarrow> unit uprog"
    using step.hyps by (simp add: upt_conv_Cons)
  from fork_page_run [OF c0 st step.prems step.hyps(2)] show ?case
  proof (elim disjE exE conjE)
    assume "fails (fork_page (env_id (envs s0 e)) n) w" "\<not> fork_room s0 c p"
    then show ?thesis by (auto simp: fm fails_def panics_def)
  next
    fix t own' assume t: "fork_page (env_id (envs s0 e)) n w = (Ret (), w\<lparr>kst := t\<rparr>)" "shared_upto s0 t K c p sn own' (Suc n)"
    then show ?thesis using step.IH [of "w\<lparr>kst := t\<rparr>" own'] step.prems by (auto simp: fm fails_def panics_def)
  qed
qed

end
