(* ===== verification/Jos_Fork_Run.thy ===== *)
theory Jos_Fork_Run
  imports Jos_Fork_Inv
begin

text \<open>
  \<^verbatim>\<open>set_pgfault_handler\<close> and \<^verbatim>\<open>fork\<close> as a whole: what the spaces of parent and
  child hold when \<^verbatim>\<open>fork\<close> has returned in the parent.
\<close>

section \<open>The exception stack\<close>

text \<open>What a page call of the caller on its own space leaves of the space of the caller.\<close>

lemma remapped_room:
  assumes r: "running s K c" and m: "remapped s t K c (cr3 s) n (Some (mk_pte q perm))"
    and q: "\<not> user_frame s q" "q < npages s" and perm: "perm < 0x1000" and n: "n < 1024 * UPDX"
    and room: "room_for_child s"
  shows "room_for_child t"
proof -
  note fresh = fresh_mappings [OF r m q perm n]
  obtain fl where fl: "mem_inv s (dirs s) K fl" using r by (rule running_inv)
  have t: "dirs t = dirs s" "cr3 t = cr3 s" using m rest_same_dirs rest_sameD(7) by (auto simp: remapped_def)
  have u: "umap t a k = (if a = cr3 s \<and> k = n then Some (mk_pte q perm) else umap s a k)"
    if "a \<in> dirs s" "k < 1024 * UPDX" for a k using m that by (simp add: remapped_def maps_agree_def)
  note dd = running_dir [OF r]
  have own: "own_pages_of t f \<subseteq> snd ` mappings t f" for f
    using dd t by (force simp: own_pages_of_def mappings_def)
  have fin: "finite (mappings s f)" "finite (own_pages_of s f)" for f
    using mem_invD(1) [OF fl] by (simp_all add: finite_mappings own_pages_of_def)
  show ?thesis
  proof (unfold room_for_child_def, intro allI impI)
    fix f assume f: "user_frame t f"
    show "card (mappings t f) + card (own_pages_of t f) < 65535"
    proof (cases "f = q")
      case True
      then have "mappings t f = {(cr3 s, n)}" "own_pages_of t f \<subseteq> {n}" using fresh(1) own [of f] by auto
      then have "card (mappings t f) \<le> 1" "card (own_pages_of t f) \<le> 1"
        using card_mono [of "{n}" "own_pages_of t f"] by simp_all
      then show ?thesis by simp
    next
      case False
      then have sub: "mappings t f \<subseteq> mappings s f" "own_pages_of t f \<subseteq> own_pages_of s f"
        using u fresh(2) dd t by (auto simp: mappings_def own_pages_of_def split: if_splits)
      obtain a k where "a \<in> dirs s" "k < 1024 * UPDX" "map_option pte_frame (umap t a k) = Some f"
        using f t by (auto simp: user_frame_def)
      then have "user_frame s f" using u fresh(2) False by (auto simp: user_frame_def split: if_splits)
      then have "card (mappings s f) + card (own_pages_of s f) < 65535" using room by (simp add: room_for_child_def)
      then show ?thesis using card_mono [OF fin(1) sub(1)] card_mono [OF fin(2) sub(2)] by simp
    qed
  qed
qed

lemma upd_env_umap [simp]: "umap (upd_env e f s) = umap s"
  by (rule umap_ram) simp

lemma cr3_upd_env [simp]: "cr3 (upd_env e f s) = cr3 s"
  by (simp add: upd_env_def)

lemma pages_same_space:
  assumes "dirs t = dirs s" and "cr3 t = cr3 s" and "umap t = umap s"
  shows "user_frame t f = user_frame s f" and "room_for_child t = room_for_child s"
  using assms by (simp_all add: user_frame_def room_for_child_def mappings_def own_pages_of_def)

text \<open>The state in which \<^verbatim>\<open>set_pgfault_handler\<close> leaves the program.\<close>

definition handler_set :: "kstate \<Rightarrow> kstate \<Rightarrow> nat set \<Rightarrow> nat \<Rightarrow> bool \<Rightarrow> u32 \<Rightarrow> bool" where
  "handler_set s t K c first upcall \<longleftrightarrow> running t K c \<and> cr3 t = cr3 s \<and> dirs t = dirs s
     \<and> (\<forall>a \<in> dirs s. \<forall>m < 1024 * UPDX. a \<noteq> cr3 s \<or> m \<noteq> XSPAGE \<longrightarrow> umap t a m = umap s a m)
     \<and> contents_kept s t \<and> (\<forall>x. x \<noteq> c \<longrightarrow> envs t x = envs s x)
     \<and> envs t c = (if first then (envs s c)\<lparr>env_pgfault_upcall := upcall\<rparr> else envs s c)
     \<and> (if first then \<exists>q. \<not> user_frame s q \<and> umap t (cr3 s) XSPAGE = Some (mk_pte q (PTE_U OR PTE_P OR PTE_W))
          \<and> (\<forall>i. ram t q i = 0)
        else t = s)
     \<and> (room_for_child s \<longrightarrow> room_for_child t) \<and> (\<forall>n. has_free s (n + 2) \<longrightarrow> has_free t n)"

lemma upd_env_free [simp]: "has_free (upd_env e f s) n = has_free s n"
  by (simp add: has_free_def free_pages_def upd_env_def)

text \<open>A program whose stack, and whose variables, lie on pages it can write, with \<^verbatim>\<open>PFTEMP\<close> free.\<close>

definition library_ready :: "uproc \<Rightarrow> bool" where
  "library_ready w \<longleftrightarrow> ustack w < UTOP \<and> stack_at (kst w) (PGNUM (ustack w))
     \<and> udata w < UTOP \<and> PGNUM (udata w) \<noteq> XSPAGE \<and> open_page (kst w) (PGNUM (udata w))"

lemma open_page_cong: "umap t (cr3 s) n = umap s (cr3 s) n \<Longrightarrow> cr3 t = cr3 s \<Longrightarrow> open_page t n = open_page s n"
  by (simp add: open_page_def)

theorem set_pgfault_handler_run:
  assumes r: "running (kst w) K c" and lib: "library_ready w"
  shows "panics (set_pgfault_handler upcall h) w \<and> \<not> (has_free (kst w) 2 \<and> upcall \<noteq> 0)
    \<or> (\<exists>t. set_pgfault_handler upcall h w = (Ret (), w\<lparr>kst := t, pgfault_handler := h\<rparr>)
        \<and> handler_set (kst w) t K c (pgfault_handler w = 0) upcall)"
proof (cases "pgfault_handler w = 0")
  case False
  then have "set_pgfault_handler upcall h w = (Ret (), w\<lparr>kst := kst w, pgfault_handler := h\<rparr>)"
    using uwrite_open [OF r, of "udata w"] lib by (simp add: set_pgfault_handler_def library_ready_def)
  moreover have "handler_set (kst w) (kst w) K c (pgfault_handler w = 0) upcall"
    using r False has_free_mono by (auto simp: handler_set_def)
  ultimately show ?thesis by blast
next
  case True
  let ?perm = "PTE_U OR PTE_P OR PTE_W" and ?va = "UXSTACKTOP - PGSIZE" and ?s = "kst w"
  have rd: "ready ?s K c" "live ?s c" "env_pgdir (envs ?s c) = Some (cr3 ?s)"
    using r by (simp_all add: running_def ready_def)
  let ?id = "env_id (envs ?s c)"
  note run = set_pgfault_handler_def True usys_getenvid_run [OF rd(1)]
  from page_alloc_own [OF r rd(2) _ rd(3) refl XSPAGE_ok share_perms_ok(5)]
  consider v w' where "usys_page_alloc ?id ?va ?perm w = (Ret v, w')" "is_neg v" "\<not> has_free ?s 2"
    | t q where "usys_page_alloc ?id ?va ?perm w = (Ret 0, w\<lparr>kst := t\<rparr>)"
      "remapped ?s t K c (cr3 ?s) XSPAGE (Some (mk_pte q ?perm))" "\<forall>i. ram t q i = 0"
      "\<not> user_frame ?s q" "q < npages ?s" "\<forall>n. has_free ?s (n + 2) \<longrightarrow> has_free t n"
    by (auto simp: XSPAGE_less(2))
  then show ?thesis
  proof cases
    case 1
    then show ?thesis by (simp add: run panics_def user_panic_def)
  next
    case a: (2 t q)
    have t: "running t K c" "envs t = envs ?s" "cr3 t = cr3 ?s" "dirs t = dirs ?s"
      using a(2) rest_sameD(2,7) [of ?s t] rest_same_dirs [of ?s t] by (simp_all add: remapped_def)
    let ?f = "\<lambda>v. v\<lparr>env_pgfault_upcall := upcall\<rparr> :: Env"
    have lc: "live t c" using t(1) by (simp add: running_def ready_def)
    have st: "kst (w\<lparr>kst := t\<rparr>) = t" "w\<lparr>kst := t, kst := u\<rparr> = w\<lparr>kst := u\<rparr>" for u by simp_all
    have id: "?id = env_id (envs t c)" using t(2) by simp
    note up = set_upcall_own [of "w\<lparr>kst := t\<rparr>" K c c ?id upcall, unfolded st, OF t(1) lc disjI1 [OF refl] id]
    from up consider v w' where "usys_env_set_pgfault_upcall ?id upcall (w\<lparr>kst := t\<rparr>) = (Ret v, w')" "is_neg v" "upcall = 0"
      | "usys_env_set_pgfault_upcall ?id upcall (w\<lparr>kst := t\<rparr>) = (Ret 0, w\<lparr>kst := upd_env c ?f t\<rparr>)" by blast
    then show ?thesis
    proof cases
      case 1
      then show ?thesis using a(1) by (simp add: run panics_def user_panic_def)
    next
      case 2
      have u: "running (upd_env c ?f t) K c" "dirs (upd_env c ?f t) = dirs t"
        by (rule running_upd_env [OF t(1) lc]; simp add: same_slot_def)+
      have "room_for_child ?s \<longrightarrow> room_for_child t"
        using remapped_room [OF r a(2,4,5) share_perms(5) XSPAGE_less(1)] by blast
      then have "room_for_child ?s \<longrightarrow> room_for_child (upd_env c ?f t)"
        using pages_same_space(2) [of "upd_env c ?f t" t] u(2) by simp
      then have "handler_set ?s (upd_env c ?f t) K c True upcall"
        using u t a(2-4,6) XSPAGE_less(1) running_dir [OF r]
        by (auto simp: handler_set_def remapped_def maps_agree_def contents_kept_def)
      moreover have "umap t (cr3 ?s) (PGNUM (udata w)) = umap ?s (cr3 ?s) (PGNUM (udata w))"
        using a(2) lib PGNUM_UTOP [of "udata w"] running_dir [OF r]
        by (simp add: remapped_def maps_agree_def library_ready_def)
      then have "open_page (upd_env c ?f t) (PGNUM (udata w))"
        using lib t(3) by (simp add: library_ready_def open_page_def)
      then have "uwrite (udata w) (w\<lparr>kst := upd_env c ?f t\<rparr>) = (Ret (), w\<lparr>kst := upd_env c ?f t\<rparr>)"
        using uwrite_open [of "w\<lparr>kst := upd_env c ?f t\<rparr>" K c "udata w"] u(1) lib by (simp add: library_ready_def)
      then have "set_pgfault_handler upcall h w = (Ret (), w\<lparr>kst := upd_env c ?f t, pgfault_handler := h\<rparr>)"
        using a(1) 2 by (simp add: run)
      ultimately show ?thesis using True by auto
    qed
  qed
qed

section \<open>The child\<close>

text \<open>
  Parent \<open>c\<close> and child \<open>e\<close> after \<^verbatim>\<open>fork\<close>, from the state \<open>s\<close> before the
  call, with the stack of the program on page \<open>sn\<close>. Outside the exception stack every page of
  the parent is mapped at the same address in the child, without the right to write it and with its
  contents; the parent has the same frames without that right, except for its stack, of which it
  has a writable copy of its own again: its first call after the sharing wrote to it.
\<close>

definition forked :: "kstate \<Rightarrow> kstate \<Rightarrow> nat \<Rightarrow> nat \<Rightarrow> nat \<Rightarrow> bool" where
  "forked s t c e sn \<longleftrightarrow> \<not> live s e \<and> live t e \<and> env_parent_id (envs t e) = env_id (envs s c)
     \<and> env_status (envs t e) = ENV_RUNNABLE
     \<and> env_tf (envs t e) = (let f = env_tf (envs s c) in f\<lparr>tf_regs := (tf_regs f)\<lparr>reg_eax := 0\<rparr>\<rparr>)
     \<and> env_pgfault_upcall (envs t e) = env_pgfault_upcall (envs t c)
     \<and> (\<exists>p. env_pgdir (envs t e) = Some p \<and> p \<notin> dirs s
         \<and> (\<forall>m < 1024 * UPDX. m \<noteq> XSPAGE \<longrightarrow>
              umap t p m = map_option child_entry (umap s (cr3 s) m)
            \<and> (m \<noteq> sn \<longrightarrow> umap t (cr3 s) m = map_option parent_entry (umap s (cr3 s) m))
            \<and> (\<forall>x. umap s (cr3 s) m = Some x \<longrightarrow> ram t (pte_frame x) = ram s (pte_frame x)))
         \<and> (\<exists>q. umap t p XSPAGE = Some (mk_pte q (PTE_P OR PTE_W OR PTE_U)) \<and> (\<forall>i. ram t q i = 0)
              \<and> mappings t q = {(p, XSPAGE)}))
     \<and> (\<exists>q. umap t (cr3 s) sn = Some (mk_pte q (PTE_P OR PTE_U OR PTE_W)) \<and> mappings t q = {(cr3 s, sn)}
         \<and> (\<forall>x i. umap s (cr3 s) sn = Some x \<longrightarrow> i < 1024 \<longrightarrow> ram t q i = ram s (pte_frame x) i))
     \<and> (\<forall>x. live s x \<longrightarrow> x \<noteq> c \<longrightarrow> envs t x = envs s x \<and> space_same s t x)"

lemma exofork_childless:
  assumes r: "running s K c" and run: "sys_exofork s = (Ret v, t)" "\<not> is_neg v" and room: "room_for_child s"
  shows "\<exists>e p. childless t K c e p \<and> \<not> live s e \<and> p \<notin> dirs s \<and> v = env_id (envs t e)
    \<and> envs t = (envs s)(e := child_env s c e p) \<and> dirs t = insert p (dirs s)
    \<and> (\<forall>d \<in> dirs s. \<forall>m < 1024 * UPDX. umap t d m = umap s d m) \<and> contents_kept s t \<and> cr3 t = cr3 s"
proof -
  obtain e p where e: "\<not> live s e" "e < NENV" "envs t = (envs s)(e := child_env s c e p)" "p \<notin> dirs s"
    "dirs t = insert p (dirs s)" "v = env_id (envs t e)" "\<forall>m < 1024 * UPDX. umap t p m = None"
    "\<forall>d \<in> dirs s. \<forall>m < 1024 * UPDX. umap t d m = umap s d m" "running t K c" "contents_kept s t" "cr3 t = cr3 s"
    using sys_exofork_memory [OF r run] by blast
  note dd = running_dir [OF r]
  have mp: "mappings t f = mappings s f" for f using e(5,7,8) by (auto simp: mappings_def)
  have uf: "user_frame t f = user_frame s f" for f by (simp add: user_frame_mappings mp)
  have ow: "own_pages_of t f = own_pages_of s f" for f using e(8,11) dd by (auto simp: own_pages_of_def)
  have "room_for_child t" using room by (simp add: room_for_child_def uf mp ow)
  moreover have "e \<noteq> c" "live t e" "p \<noteq> cr3 t"
    using e r dd by (auto simp: running_def ready_def live_def child_env_def new_env_def)
  moreover have "env_pgdir (envs t e) = Some p" "env_parent_id (envs t e) = env_id (envs t c)"
    using e(3) \<open>e \<noteq> c\<close> by (simp_all add: child_env_def new_env_def)
  ultimately have "childless t K c e p" using e by (simp add: childless_def)
  then show ?thesis using e by blast
qed

lemma forked_spaces:
  assumes h: "handler_set s s1 K c first up" and c0: "childless s2 K c e p"
    and x: "p \<notin> dirs s1" "dirs s2 = insert p (dirs s1)" "contents_kept s1 s2" "cr3 s2 = cr3 s1"
      "\<forall>d \<in> dirs s1. \<forall>m < 1024 * UPDX. umap s2 d m = umap s1 d m"
    and sh: "shared_upto s2 s3 K c p sn (Some own) (1024 * UPDX)" and st: "stack_at s2 sn"
    and a: "remapped s3 s4 K c p XSPAGE (Some v)" "\<not> user_frame s3 (pte_frame v)" and d: "cr3 s \<in> dirs s"
  shows "m < 1024 * UPDX \<Longrightarrow> m \<noteq> XSPAGE \<Longrightarrow> m \<noteq> sn \<Longrightarrow> umap s4 (cr3 s) m = map_option parent_entry (umap s (cr3 s) m)"
    and "m < 1024 * UPDX \<Longrightarrow> m \<noteq> XSPAGE \<Longrightarrow> umap s4 p m = map_option child_entry (umap s (cr3 s) m)"
    and "m < 1024 * UPDX \<Longrightarrow> m \<noteq> XSPAGE \<Longrightarrow> umap s (cr3 s) m = Some y \<Longrightarrow> ram s4 (pte_frame y) = ram s (pte_frame y)"
    and "b \<in> dirs s - {cr3 s} \<Longrightarrow> m < 1024 * UPDX \<Longrightarrow> umap s4 b m = umap s b m"
    and "umap s4 (cr3 s) sn = Some (mk_pte own (PTE_P OR PTE_U OR PTE_W))" and "mappings s4 own = {(cr3 s, sn)}"
    and "umap s (cr3 s) sn = Some y \<Longrightarrow> i < 1024 \<Longrightarrow> ram s4 own i = ram s (pte_frame y) i"
proof -
  note hs = h [unfolded handler_set_def]
  note f = shared_facts [OF c0 sh]
  have ds: "dirs s1 = dirs s" "cr3 s1 = cr3 s" "p \<noteq> cr3 s" "dirs s3 = insert p (dirs s)" "cr3 s2 = cr3 s"
    using hs x(1,2,4) d f(4) by auto
  have u1: "umap s1 b k = umap s b k" if "b \<in> dirs s" "k < 1024 * UPDX" "b \<noteq> cr3 s \<or> k \<noteq> XSPAGE" for b k
    using hs that by auto
  have u2: "umap s2 b k = umap s1 b k" if "b \<in> dirs s" "k < 1024 * UPDX" for b k using x(5) that ds by auto
  have u4: "umap s4 b k = (if b = p \<and> k = XSPAGE then Some v else umap s3 b k)"
    if "b \<in> insert p (dirs s)" "k < 1024 * UPDX" for b k
    using a that ds(4) by (auto simp: remapped_def maps_agree_def)
  have k: "umap s2 (cr3 s) k = umap s (cr3 s) k" if "k < 1024 * UPDX" "k \<noteq> XSPAGE" for k
    using u1 u2 d that by simp
  show "umap s4 (cr3 s) m = map_option parent_entry (umap s (cr3 s) m)" if "m < 1024 * UPDX" "m \<noteq> XSPAGE" "m \<noteq> sn"
    using that u4 [of "cr3 s" m] k [OF that(1,2)] sh ds d by (simp add: shared_upto_def parent_map_simps)
  show "umap s4 p m = map_option child_entry (umap s (cr3 s) m)" if "m < 1024 * UPDX" "m \<noteq> XSPAGE"
    using that u4 [of p m] k [OF that] sh ds by (simp add: shared_upto_def)
  show "umap s4 b m = umap s b m" if "b \<in> dirs s - {cr3 s}" "m < 1024 * UPDX"
  proof -
    have "b \<noteq> p" using that(1) x(1) ds(1) by auto
    then show ?thesis using that u4 [of b m] u2 [of b m] u1 [of b m] sh ds x(2) by (auto simp: shared_upto_def)
  qed
  have low: "user_frame s2 (pte_frame y) \<and> ram s2 (pte_frame y) = ram s (pte_frame y)"
    if m: "m < 1024 * UPDX" "m \<noteq> XSPAGE" "umap s (cr3 s) m = Some y" for m y
  proof -
    have f2: "user_frame s2 (pte_frame y)" by (rule user_frameI [of _ "cr3 s" m]) (use k [OF m(1,2)] m d ds x(2) in auto)
    have f1: "user_frame s1 (pte_frame y)" by (rule user_frameI [of _ "cr3 s" m]) (use u1 [OF d m(1)] m d ds in auto)
    have f0: "user_frame s (pte_frame y)" by (rule user_frameI [OF m(3) d m(1)])
    have "ram s2 (pte_frame y) = ram s1 (pte_frame y)" using x(3) f1 by (simp add: contents_kept_def)
    also have "\<dots> = ram s (pte_frame y)" using hs f0 by (simp add: contents_kept_def)
    finally show ?thesis using f2 by simp
  qed
  show "ram s4 (pte_frame y) = ram s (pte_frame y)" if m: "m < 1024 * UPDX" "m \<noteq> XSPAGE" "umap s (cr3 s) m = Some y"
  proof -
    have f2: "user_frame s2 (pte_frame y)" using low [OF m] by simp
    have "ram s4 (pte_frame y) = ram s3 (pte_frame y)"
      using a shared_user_frame [OF c0 st sh f2] by (simp add: remapped_def contents_kept_def)
    also have "\<dots> = ram s2 (pte_frame y)" using sh f2 by (simp add: shared_upto_def)
    finally show ?thesis using low [OF m] by simp
  qed
  have sn: "sn < 1024 * UPDX" "sn \<noteq> XSPAGE" using st by (simp_all add: stack_at_def)
  have own: "own_stack s2 s3 sn own" using sh by (simp add: shared_upto_def)
  have es3: "umap s3 (cr3 s) sn = Some (mk_pte own (PTE_P OR PTE_U OR PTE_W))"
    using sh sn ds by (simp add: shared_upto_def parent_map_simps)
  show es: "umap s4 (cr3 s) sn = Some (mk_pte own (PTE_P OR PTE_U OR PTE_W))"
    using u4 [of "cr3 s" sn] es3 d sn(1) ds by simp
  have fo: "pte_frame (mk_pte own (PTE_P OR PTE_U OR PTE_W)) = own" using own by (simp add: own_stack_def)
  have uo: "user_frame s3 own" using user_frameI [OF es3 _ sn(1)] ds d fo by simp
  have d4: "dirs s4 = insert p (dirs s)" using a(1) rest_same_dirs [of s3 s4] ds by (simp add: remapped_def)
  have frame: "pte_frame y = f \<Longrightarrow> user_frame s2 f" if "umap s2 b m = Some y" "b \<in> dirs s2" "m < 1024 * UPDX" for b m y f
    using user_frameI [OF that] by simp
  have none: "map_option pte_frame (umap s3 b m) \<noteq> Some own"
    if b: "b \<in> insert p (dirs s)" "m < 1024 * UPDX" "(b, m) \<noteq> (cr3 s, sn)" for b m
  proof
    assume e: "map_option pte_frame (umap s3 b m) = Some own"
    have c2: "cr3 s \<in> dirs s2" using d ds x(2) by simp
    have "\<exists>b' y. b' \<in> dirs s2 \<and> umap s2 b' m = Some y \<and> pte_frame y = own"
    proof (cases "b = cr3 s")
      case True
      then have "map_option pte_frame (umap s2 (cr3 s) m) = Some own"
        using e sh b ds by (auto simp: shared_upto_def parent_map_simps split: if_splits)
      then show ?thesis using c2 by auto
    next
      case False
      show ?thesis
      proof (cases "b = p")
        case True
        have "umap s3 p m = (if m \<noteq> XSPAGE then map_option child_entry (umap s2 (cr3 s) m) else None)"
          using sh b(2) ds(5) by (simp add: shared_upto_def)
        then have "map_option pte_frame (umap s2 (cr3 s) m) = Some own"
          using e True by (auto split: if_splits)
        then show ?thesis using c2 by auto
      next
        case np: False
        then have b2: "b \<in> dirs s2" using b(1) x(2) ds(1) by simp
        have "umap s3 b m = umap s2 b m" using sh b2 b(2) False np ds(5) by (simp add: shared_upto_def)
        then obtain y where "umap s2 b m = Some y" "pte_frame y = own" using e by (cases "umap s2 b m") simp_all
        then show ?thesis using b2 by blast
      qed
    qed
    then have "user_frame s2 own" using b(2) user_frameI by blast
    then show False using own by (simp add: own_stack_def)
  qed
  have no4: "map_option pte_frame (umap s4 b m) \<noteq> Some own"
    if b: "b \<in> insert p (dirs s)" "m < 1024 * UPDX" "(b, m) \<noteq> (cr3 s, sn)" for b m
    using none [OF b] u4 [OF b(1,2)] a(2) uo by auto
  show "mappings s4 own = {(cr3 s, sn)}"
    using no4 es fo d4 d sn(1) by (auto simp: mappings_def)
  show "ram s4 own i = ram s (pte_frame y) i" if y: "umap s (cr3 s) sn = Some y" "i < 1024"
  proof -
    have "ram s4 own i = ram s3 own i" using a(1) uo by (simp add: remapped_def contents_kept_def)
    also have "\<dots> = ram s2 (pte_frame y) i" using own k [OF sn] y ds by (simp add: own_stack_def)
    finally show ?thesis using low [OF sn y(1)] by simp
  qed
qed

text \<open>The parent's side, from the empty child on.\<close>

definition child_done :: "kstate \<Rightarrow> kstate \<Rightarrow> nat \<Rightarrow> nat \<Rightarrow> kstate" where
  "child_done s t c e = upd_env e (\<lambda>v. v\<lparr>env_status := ENV_RUNNABLE\<rparr>)
     (upd_env e (\<lambda>v. v\<lparr>env_pgfault_upcall := env_pgfault_upcall (envs s c)\<rparr>) t)"

lemma fork_parent_run:
  assumes c0: "childless (kst w) K c e p" and th: "thisenv w = c" and st: "stack_at (kst w) sn"
    and us: "ustack w < UTOP" "PGNUM (ustack w) = sn"
  defines "s \<equiv> kst w"
  shows "fails (fork_parent (env_id (envs s e))) w \<and> \<not> fork_room s c p
    \<or> (\<exists>s3 s4 q own. fork_parent (env_id (envs s e)) w = (Ret (env_id (envs s e)), w\<lparr>kst := child_done s s4 c e\<rparr>)
        \<and> running (child_done s s4 c e) K c \<and> dirs (child_done s s4 c e) = dirs s
        \<and> shared_upto s s3 K c p sn (Some own) (1024 * UPDX)
        \<and> remapped s3 s4 K c p XSPAGE (Some (mk_pte q (PTE_P OR PTE_W OR PTE_U)))
        \<and> (\<forall>i. ram s4 q i = 0) \<and> \<not> user_frame s3 q \<and> q < npages s3)"
proof -
  let ?id = "env_id (envs s e)" and ?va = "UXSTACKTOP - PGSIZE" and ?perm = "PTE_P OR PTE_W OR PTE_U"
  note c0' = c0 [folded s_def] and st' = st [folded s_def]
  have N: "PGNUM UTOP = 1024 * UPDX" by (simp add: PGNUM_eq kconst)
  have "umap s p m = None" if "m < 1024 * UPDX" for m using c0' that by (simp add: childless_def)
  then have sh0: "shared_upto s (kst w) K c p sn None 0"
    using c0' by (simp add: shared_upto_def childless_def s_def rest_same_def)
  note run = fork_parent_def N user_panic_def panics_def fails_def
  have sn: "sn < 1024 * UPDX" "sn \<noteq> XSPAGE" using st by (simp_all add: stack_at_def)
  from fork_loop [OF c0' st' le0 sh0 us] show ?thesis
  proof (elim disjE exE conjE)
    assume "fails (forM [0 ..< 1024 * UPDX] (fork_page ?id)) w" "\<not> fork_room s c p"
    then show ?thesis by (auto simp: run)
  next
    fix s' own0 assume l0: "forM [0 ..< 1024 * UPDX] (fork_page ?id) w = (Ret (), w\<lparr>kst := s'\<rparr>)"
      "shared_upto s s' K c p sn own0 (1024 * UPDX)"
    let ?alloc = "usys_page_alloc ?id ?va ?perm"
    have us': "ustack (w\<lparr>kst := u\<rparr>) < UTOP" "PGNUM (ustack (w\<lparr>kst := u\<rparr>)) = sn" for u using us by simp_all
    have sh': "shared_upto s (kst (w\<lparr>kst := s'\<rparr>)) K c p sn own0 (1024 * UPDX)" using l0(2) by simp
    show ?thesis
    proof (cases "fails (calling ?alloc) (w\<lparr>kst := s'\<rparr>) \<and> \<not> fork_room s c p")
    case True
    then show ?thesis using l0(1) by (auto simp: run)
    next
    case False
    with calling_run [OF c0' st' sh' us', of ?alloc] obtain s3 own' where
      l: "calling ?alloc (w\<lparr>kst := s'\<rparr>) = ?alloc (w\<lparr>kst := s3\<rparr>)"
        "shared_upto s s3 K c p sn own' (1024 * UPDX)" "open_page s3 sn" by auto
    note f = shared_facts [OF c0' l(2)]
    obtain x where x: "umap s (cr3 s) sn = Some x" "x AND PTE_W \<noteq> 0" using st' by (auto simp: stack_at_def open_page_def)
    obtain own where own: "own' = Some own"
    proof (cases own')
      case None
      then have "umap s3 (cr3 s3) sn = Some (parent_entry x)"
        using l(2) sn x(1) f(3) by (simp add: shared_upto_def parent_map_simps)
      then show ?thesis using l(3) parent_entry_bits(3) [OF x(2)] by (simp add: open_page_def)
    qed simp
    have enough: "has_free s3 2" if "fork_room s c p" using that shared_free [OF l(2)] by (simp add: fork_room_def)
    from page_alloc_own [of "w\<lparr>kst := s3\<rparr>" K c e p ?id ?va ?perm] f XSPAGE_ok share_perms_ok(4)
    have "(\<exists>v w'. usys_page_alloc ?id ?va ?perm (w\<lparr>kst := s3\<rparr>) = (Ret v, w') \<and> is_neg v) \<and> \<not> has_free s3 2
      \<or> (\<exists>t q. usys_page_alloc ?id ?va ?perm (w\<lparr>kst := s3\<rparr>) = (Ret 0, w\<lparr>kst := t\<rparr>)
        \<and> remapped s3 t K c p XSPAGE (Some (mk_pte q ?perm)) \<and> (\<forall>i. ram t q i = 0)
        \<and> \<not> user_frame s3 q \<and> q < npages s3)" by (auto simp: XSPAGE_less(2))
    then show ?thesis
    proof (elim disjE exE conjE)
      fix v w' assume "usys_page_alloc ?id ?va ?perm (w\<lparr>kst := s3\<rparr>) = (Ret v, w')" "is_neg v" "\<not> has_free s3 2"
      then show ?thesis using l0(1) l(1) enough by (auto simp: run)
    next
      fix s4 q assume a: "usys_page_alloc ?id ?va ?perm (w\<lparr>kst := s3\<rparr>) = (Ret 0, w\<lparr>kst := s4\<rparr>)"
        "remapped s3 s4 K c p XSPAGE (Some (mk_pte q ?perm))" "\<forall>i. ram s4 q i = 0"
        "\<not> user_frame s3 q" "q < npages s3"
      have t: "running s4 K c" "envs s4 = envs s" "dirs s4 = dirs s"
        using a(2) rest_sameD(2) [of s3 s4] rest_same_dirs [of s3 s4] f(2,4) by (simp_all add: remapped_def)
      have lv: "live s4 e" "e = c \<or> env_parent_id (envs s4 e) = env_id (envs s4 c)"
        using f(2,5,6) t(2) by (simp_all add: live_def)
      let ?up = "env_pgfault_upcall (envs s c)"
      let ?s5 = "upd_env e (\<lambda>v. v\<lparr>env_pgfault_upcall := ?up\<rparr>) s4"
      have r5: "running ?s5 K c" "dirs ?s5 = dirs s4"
        by (rule running_upd_env [OF t(1) lv(1)]; simp add: same_slot_def)+
      have lv5: "live ?s5 e" using lv(1) by (simp add: live_def)
      have par5: "e = c \<or> env_parent_id (envs ?s5 e) = env_id (envs ?s5 c)" using lv(2) by auto
      have r6: "running (child_done s s4 c e) K c" "dirs (child_done s s4 c e) = dirs ?s5"
        unfolding child_done_def by (rule running_upd_env [OF r5(1) lv5]; simp add: same_slot_def)+
      have up: "env_pgfault_upcall (envs s4 (thisenv w)) = ?up" using th t(2) by simp
      have op: "open_page s4 sn" using open_page_kept [OF a(2), of sn] l(3) f(3,4,11,12) sn by simp
      have push: "calling m (w\<lparr>kst := s4\<rparr>) = m (w\<lparr>kst := s4\<rparr>)" "calling m (w\<lparr>kst := ?s5\<rparr>) = m (w\<lparr>kst := ?s5\<rparr>)"
        for m :: "i32 uprog"
        using calling_open [of "w\<lparr>kst := s4\<rparr>" K c m] calling_open [of "w\<lparr>kst := ?s5\<rparr>" K c m] t(1) r5(1) us op
        by (simp_all add: open_page_def)
      have run4: "fork_parent ?id w = (case usys_env_set_pgfault_upcall ?id ?up (w\<lparr>kst := s4\<rparr>) of
          (Ret r, u) \<Rightarrow> if is_neg r then (Stop (UserPanic ''Unable to set pg fault upcall''), u) else
            (case calling (usys_env_set_status ?id (status_code ENV_RUNNABLE)) u of
               (Ret r, v) \<Rightarrow> if is_neg r then (Stop (UserPanic ''Unable to set status Runnable''), v) else (Ret ?id, v)
             | (Stop y, v) \<Rightarrow> (Stop y, v))
        | (Stop y, u) \<Rightarrow> (Stop y, u))"
        using l0(1) l(1) a(1) up push(1) by (auto simp: run split: prod.splits outcome.splits simp del: status_code.simps)
      from set_upcall_own [of "w\<lparr>kst := s4\<rparr>" K c e ?id ?up] t lv(1,2)
      consider v w' where "usys_env_set_pgfault_upcall ?id ?up (w\<lparr>kst := s4\<rparr>) = (Ret v, w')" "is_neg v" "?up = 0"
        | "usys_env_set_pgfault_upcall ?id ?up (w\<lparr>kst := s4\<rparr>) = (Ret 0, w\<lparr>kst := ?s5\<rparr>)" by auto
      then show ?thesis
      proof cases
        case 1
        have "\<not> fork_room s c p" using 1(3) by (simp add: fork_room_def)
        then show ?thesis using run4 1 by (simp add: panics_def fails_def)
      next
        case 2
        have "usys_env_set_status ?id (status_code ENV_RUNNABLE) (w\<lparr>kst := ?s5\<rparr>) = (Ret 0, w\<lparr>kst := child_done s s4 c e\<rparr>)"
          using set_status_own [of "w\<lparr>kst := ?s5\<rparr>" K c e ?id] r5(1) lv5 par5 t(2)
          by (auto simp: child_done_def simp del: status_code.simps)
        then have "fork_parent ?id w = (Ret ?id, w\<lparr>kst := child_done s s4 c e\<rparr>)"
          using run4 2 push(2) by (simp del: status_code.simps)
        then show ?thesis using r6 r5(2) t(3) l(2) own a(2-5)
          by (intro disjI2 exI [of _ s3] exI [of _ s4] exI [of _ q] exI [of _ own]) simp
      qed
    qed
    qed
  qed
qed

lemma usys_exofork_run:
  assumes r: "running (kst w) K c"
  shows "(\<exists>v w'. usys_exofork w = (Ret v, w') \<and> is_neg v) \<and> \<not> ((\<exists>e < NENV. \<not> live (kst w) e) \<and> has_free (kst w) 1)
    \<or> (\<exists>w'. usys_exofork w = (Stop (InKernel (BadPointer ''envs'')), w')) \<and> (\<forall>e < NENV. live (kst w) e)
    \<or> (\<exists>v t. usys_exofork w = (Ret v, w\<lparr>kst := t\<rparr>) \<and> sys_exofork (kst w) = (Ret v, t) \<and> 0 < sint v
        \<and> (\<forall>n. has_free (kst w) (n + 1) \<longrightarrow> has_free t n))"
proof -
  have sys: "syscall SYS_exofork 0 0 0 0 0 = sys_exofork" by (simp add: syscall_def kconst)
  have rd: "ready (kst w) K c" using r by (simp add: running_def)
  obtain fl where fl: "mem_inv (kst w) (dirs (kst w)) K fl" using r by (rule running_inv)
  from sys_exofork_spec [OF rd] show ?thesis
  proof (elim disjE exE conjE)
    fix v t assume v: "sys_exofork (kst w) = (Ret v, t)" "0 < sint v"
    then have "\<not> is_neg v" by (simp add: is_neg_def)
    then have "has_free t n" if "has_free (kst w) (n + 1)" for n
      using sys_exofork_run [OF rd fl v(1)] that free_pages_unique [OF mem_invD(3) [OF fl]]
      by (fastforce simp: has_free_def)
    then show ?thesis using v by (simp add: usys_exofork_def in_kernel_def sys)
  next
    assume "sys_exofork (kst w) = (Ret (- E_NO_MEM), kst w)"
    moreover have "\<not> 0 < sint (- E_NO_MEM :: i32)" by (simp add: kconst)
    ultimately show ?thesis using sys_exofork_free [OF r, of _ 0]
      by (fastforce simp: usys_exofork_def in_kernel_def sys)
  next
    assume "\<forall>e < NENV. live (kst w) e" "sys_exofork (kst w) = (Stop (BadPointer ''envs''), kst w)"
    then show ?thesis by (simp add: usys_exofork_def in_kernel_def sys)
  qed
qed

lemma child_done_envs:
  assumes "c \<noteq> e"
  shows "envs (child_done s t c e) x = (if x = e then (envs t e)\<lparr>env_pgfault_upcall := env_pgfault_upcall (envs s c),
     env_status := ENV_RUNNABLE\<rparr> else envs t x)" and "umap (child_done s t c e) = umap t" and "ram (child_done s t c e) = ram t"
  by (simp_all add: child_done_def)

lemma forked_final:
  assumes r: "running s K c" and h: "handler_set s s1 K c first up" and c0: "childless s2 K c e p"
    and x: "\<not> live s1 e" "p \<notin> dirs s1" "envs s2 = (envs s1)(e := child_env s1 c e p)" "dirs s2 = insert p (dirs s1)"
      "\<forall>d \<in> dirs s1. \<forall>m < 1024 * UPDX. umap s2 d m = umap s1 d m" "contents_kept s1 s2" "cr3 s2 = cr3 s1"
    and sh: "shared_upto s2 s3 K c p sn (Some own) (1024 * UPDX)" and st: "stack_at s2 sn"
    and a: "remapped s3 s4 K c p XSPAGE (Some (mk_pte q (PTE_P OR PTE_W OR PTE_U)))" "\<forall>i. ram s4 q i = 0"
      "\<not> user_frame s3 q" "q < npages s3"
    and t: "dirs (child_done s2 s4 c e) = dirs s2"
  shows "forked s (child_done s2 s4 c e) c e sn"
proof -
  let ?t = "child_done s2 s4 c e"
  note hs = h [unfolded handler_set_def]
  note f = shared_facts [OF c0 sh]
  have ce: "c \<noteq> e" using c0 by (simp add: childless_def)
  note cd = child_done_envs [OF ce, of s2 s4]
  note fresh = fresh_mappings [OF f(1) a(1,3,4) share_perms(4) XSPAGE_less(1)]
  note sp = forked_spaces [OF h c0 x(2,4,6,7,5) sh st a(1) _ running_dir [OF r], unfolded fresh(2), OF a(3)]
  have e4: "envs s4 = envs s2" using a(1) f(2) rest_sameD(2) [of s3 s4] by (simp add: remapped_def)
  have cl: "live s c" using r by (simp add: running_def ready_def)
  have lv: "live s1 y = live s y" for y
    using hs cl by (cases "y = c") (auto simp: live_def split: if_splits)
  have c1: "env_tf (envs s1 c) = env_tf (envs s c)" "env_id (envs s1 c) = env_id (envs s c)"
    using hs by (simp_all split: if_splits)
  have et: "envs ?t e = (child_env s1 c e p)\<lparr>env_pgfault_upcall := env_pgfault_upcall (envs s2 c), env_status := ENV_RUNNABLE\<rparr>"
    by (simp add: cd e4 x(3))
  have ct: "envs ?t c = envs s1 c" "envs s2 c = envs s1 c" using ce by (simp_all add: cd e4 x(3))
  have others: "envs ?t y = envs s y \<and> space_same s ?t y" if y: "live s y" "y \<noteq> c" for y
  proof -
    have ye: "y \<noteq> e" using y(1) x(1) lv by auto
    have "b \<noteq> cr3 s" if "env_pgdir (envs s y) = Some b" for b
    proof
      assume "b = cr3 s"
      moreover obtain efl where "env_table s efl" using r by (auto simp: running_def ready_def kinv_def)
      ultimately show False using that y cl r unfolding env_table_def running_def by metis
    qed
    then have "space_same s ?t y" using y(1) sp(4) cd(2) by (auto simp: space_same_def dirs_def)
    then show ?thesis using hs y(2) ye by (simp add: cd(1) e4 x(3))
  qed
  have d3: "p \<in> dirs s3" "dirs s3 = dirs s2" using f(4) x(4) by simp_all
  have mp: "mappings ?t g = mappings s4 g" for g
    using t cd(2) a(1) rest_same_dirs [of s3 s4] d3 by (simp add: mappings_def remapped_def)
  have stk: "\<exists>q. umap ?t (cr3 s) sn = Some (mk_pte q (PTE_P OR PTE_U OR PTE_W)) \<and> mappings ?t q = {(cr3 s, sn)}
      \<and> (\<forall>x i. umap s (cr3 s) sn = Some x \<longrightarrow> i < 1024 \<longrightarrow> ram ?t q i = ram s (pte_frame x) i)"
    using sp(5-7) cd(2,3) mp by (intro exI [of _ own]) simp
  have "mappings ?t q = {(p, XSPAGE)}" using mp fresh(1) by simp
  moreover have "umap ?t p XSPAGE = Some (mk_pte q (PTE_P OR PTE_W OR PTE_U))"
    using a(1) d3 XSPAGE_less(1) cd(2) by (simp add: remapped_def maps_agree_def)
  moreover have "live ?t e" using et x(1) c0 by (auto simp: live_def childless_def)
  moreover have "p \<notin> dirs s" using x(2) hs by simp
  moreover have "env_pgdir (envs ?t e) = Some p" by (simp add: et child_env_def new_env_def)
  ultimately have lte: "live ?t e" and spaces: "\<exists>p. env_pgdir (envs ?t e) = Some p \<and> p \<notin> dirs s
      \<and> (\<forall>m < 1024 * UPDX. m \<noteq> XSPAGE \<longrightarrow>
           umap ?t p m = map_option child_entry (umap s (cr3 s) m)
         \<and> (m \<noteq> sn \<longrightarrow> umap ?t (cr3 s) m = map_option parent_entry (umap s (cr3 s) m))
         \<and> (\<forall>x. umap s (cr3 s) m = Some x \<longrightarrow> ram ?t (pte_frame x) = ram s (pte_frame x)))
      \<and> (\<exists>q. umap ?t p XSPAGE = Some (mk_pte q (PTE_P OR PTE_W OR PTE_U)) \<and> (\<forall>i. ram ?t q i = 0)
           \<and> mappings ?t q = {(p, XSPAGE)})"
    using sp(1-3) cd(2,3) a(2) by (simp, intro exI [of _ p] conjI exI [of _ q] allI impI) simp_all
  have env: "env_parent_id (envs ?t e) = env_id (envs s c)" "env_status (envs ?t e) = ENV_RUNNABLE"
     "env_tf (envs ?t e) = (let f = env_tf (envs s c) in f\<lparr>tf_regs := (tf_regs f)\<lparr>reg_eax := 0\<rparr>\<rparr>)"
     "env_pgfault_upcall (envs ?t e) = env_pgfault_upcall (envs ?t c)"
    using c1 ct by (simp_all add: et child_env_def new_env_def Let_def)
  have "\<not> live s e" using x(1) lv by simp
  moreover have "\<forall>y. live s y \<longrightarrow> y \<noteq> c \<longrightarrow> envs ?t y = envs s y \<and> space_same s ?t y" using others by blast
  ultimately show ?thesis using lte spaces env stk unfolding forked_def by (intro conjI)
qed

text \<open>
  What \<^verbatim>\<open>fork\<close> needs in order not to fail: the exception stack of the parent, the
  directory, page tables and exception stack of the child, a copy of the stack, a slot, an upcall
  to hand down, and an exception stack where an earlier call has set the handler.
\<close>

definition enough_to_fork :: "uproc \<Rightarrow> nat \<Rightarrow> u32 \<Rightarrow> bool" where
  "enough_to_fork w c up \<longleftrightarrow> has_free (kst w) (UPDX + 7) \<and> (\<exists>e < NENV. \<not> live (kst w) e)
     \<and> (if pgfault_handler w = 0 then up else env_pgfault_upcall (envs (kst w) c)) \<noteq> 0
     \<and> (pgfault_handler w = 0 \<or> open_page (kst w) XSPAGE)"

lemma enough_start:
  assumes r: "running (kst w) K c" and n: "enough_to_fork w c up"
    and h: "handler_set (kst w) t K c (pgfault_handler w = 0) up"
  shows "has_free t (UPDX + 5)" and "\<exists>e < NENV. \<not> live t e" and "env_pgfault_upcall (envs t c) \<noteq> 0"
    and "open_page t XSPAGE"
proof -
  note hs = h [unfolded handler_set_def]
  have "live (kst w) c" "live t c" using r hs by (simp_all add: running_def ready_def)
  then have lv: "live t y = live (kst w) y" for y using hs by (cases "y = c") (simp_all add: live_def)
  show "has_free t (UPDX + 5)" using n hs by (simp add: enough_to_fork_def numeral_eq_Suc)
  show "\<exists>e < NENV. \<not> live t e" using n lv by (simp add: enough_to_fork_def)
  show "env_pgfault_upcall (envs t c) \<noteq> 0" using n hs by (auto simp: enough_to_fork_def split: if_splits)
  have "mk_pte q (PTE_U OR PTE_P OR PTE_W) AND PTE_U \<noteq> 0" "mk_pte q (PTE_U OR PTE_P OR PTE_W) AND PTE_W \<noteq> 0" for q
    by (simp_all add: mk_pte_flag kconst)
  then show "open_page t XSPAGE" using n hs by (auto simp: enough_to_fork_def open_page_def split: if_splits)
qed

lemma handler_set_library:
  assumes r: "running (kst w) K c" and h: "handler_set (kst w) t K c first up" and lib: "library_ready w"
  shows "stack_at t (PGNUM (ustack w))"
proof -
  have "PFPAGE \<noteq> XSPAGE" by (simp add: PFPAGE_def XSPAGE_def PGNUM_eq kconst)
  then show ?thesis
    using h lib PFPAGE_facts(1) running_dir [OF r]
    by (auto simp: handler_set_def library_ready_def stack_at_def open_page_def)
qed

theorem fork_run:
  assumes r: "running (kst w) K c" and th: "thisenv w = c" and room: "room_for_child (kst w)" and lib: "library_ready w"
  shows "fails (fork up h) w \<and> \<not> enough_to_fork w c up
    \<or> (\<exists>w'. fork up h w = (Stop (InKernel (BadPointer ''envs'')), w')) \<and> (\<forall>e < NENV. live (kst w) e)
    \<or> (\<exists>w' e. fork up h w = (Ret (env_id (envs (kst w') e)), w') \<and> running (kst w') K c
        \<and> forked (kst w) (kst w') c e (PGNUM (ustack w)) \<and> pgfault_handler w' = h
        \<and> (pgfault_handler w = 0 \<longrightarrow> env_pgfault_upcall (envs (kst w') c) = up))"
proof -
  let ?sn = "PGNUM (ustack w)"
  have "stack_at (kst w) ?sn" "ustack w < UTOP" using lib by (simp_all add: library_ready_def)
  then have push: "calling m w = m w" for m :: "unit uprog"
    by (intro calling_open [OF r]) (simp_all add: stack_at_def)
  from set_pgfault_handler_run [OF r lib, of up h] show ?thesis
  proof (elim disjE exE conjE)
    assume "panics (set_pgfault_handler up h) w" "\<not> (has_free (kst w) 2 \<and> up \<noteq> 0)"
    moreover have "pgfault_handler w = 0"
      by (rule ccontr) (use calculation(1) uwrite_open [OF r, of "udata w"] lib in
          \<open>simp add: set_pgfault_handler_def panics_def library_ready_def\<close>)
    moreover have "has_free (kst w) 2" if "has_free (kst w) (UPDX + 7)" using that has_free_mono by simp
    ultimately show ?thesis by (auto simp: fork_def push fails_def panics_def enough_to_fork_def)
  next
    fix s1 assume s1: "set_pgfault_handler up h w = (Ret (), w\<lparr>kst := s1, pgfault_handler := h\<rparr>)"
      and h: "handler_set (kst w) s1 K c (pgfault_handler w = 0) up"
    let ?w1 = "w\<lparr>kst := s1, pgfault_handler := h\<rparr>"
    note hs = h [unfolded handler_set_def]
    have r1: "running (kst ?w1) K c" using hs by simp
    note en = enough_start [OF r _ h]
    have "live (kst w) c" "live s1 c" using r r1 by (simp_all add: running_def ready_def)
    then have lv: "live s1 y = live (kst w) y" for y using hs by (cases "y = c") (simp_all add: live_def)
    have run: "fork up h w = (case usys_exofork ?w1 of
        (Ret v, u) \<Rightarrow> if is_neg v then (Stop (UserPanic ''Child not forkded''), u)
          else if v = 0 then fork_child u else fork_parent v u
      | (Stop x, u) \<Rightarrow> (Stop x, u))"
      using s1 by (auto simp: fork_def push user_panic_def split: prod.splits outcome.splits)
    from usys_exofork_run [OF r1] show ?thesis
    proof (elim disjE exE conjE)
      fix v w' assume x: "usys_exofork ?w1 = (Ret v, w')" "is_neg v"
        "\<not> ((\<exists>e < NENV. \<not> live (kst ?w1) e) \<and> has_free (kst ?w1) 1)"
      have "\<not> enough_to_fork w c up" using x(3) en(1,2) has_free_mono [of s1 "UPDX + 5" 1] by auto
      then show ?thesis using run x(1,2) by (simp add: fails_def panics_def)
    next
      fix w' assume "usys_exofork ?w1 = (Stop (InKernel (BadPointer ''envs'')), w')" "\<forall>e < NENV. live (kst ?w1) e"
      then show ?thesis using run lv by simp
    next
      fix v s2 assume x: "usys_exofork ?w1 = (Ret v, ?w1\<lparr>kst := s2\<rparr>)" "sys_exofork (kst ?w1) = (Ret v, s2)" "0 < sint v"
        "\<forall>n. has_free (kst ?w1) (n + 1) \<longrightarrow> has_free s2 n"
      have v: "\<not> is_neg v" "v \<noteq> 0" using x(3) by (auto simp: is_neg_def)
      have "room_for_child (kst ?w1)" using hs room by simp
      from exofork_childless [OF r1 x(2) v(1) this] obtain e p where
        c0: "childless s2 K c e p" and e: "\<not> live s1 e" "p \<notin> dirs s1" "v = env_id (envs s2 e)"
          "envs s2 = (envs s1)(e := child_env s1 c e p)" "dirs s2 = insert p (dirs s1)"
          "\<forall>d \<in> dirs s1. \<forall>m < 1024 * UPDX. umap s2 d m = umap s1 d m" "contents_kept s1 s2" "cr3 s2 = cr3 s1"
        by auto
      let ?w2 = "?w1\<lparr>kst := s2\<rparr>"
      have run2: "fork up h w = fork_parent v ?w2" using run x(1) v by simp
      have c0': "childless (kst ?w2) K c e p" "thisenv ?w2 = c" using c0 th by simp_all
      have s12: "umap s2 (cr3 s1) m = umap s1 (cr3 s1) m" if "m < 1024 * UPDX" for m
        using e(6) running_dir [OF r1] that by simp
      have "stack_at s1 ?sn" by (rule handler_set_library [OF r h lib])
      then have st: "stack_at (kst ?w2) ?sn" "ustack ?w2 < UTOP" "PGNUM (ustack ?w2) = ?sn"
        using s12 PFPAGE_facts(1) e(8) lib by (simp_all add: stack_at_def open_page_def library_ready_def)
      have xs: "open_page s2 XSPAGE = open_page s1 XSPAGE"
        using s12 XSPAGE_less(1) e(8) by (simp add: open_page_def)
      from fork_parent_run [OF c0' st] show ?thesis
      proof (elim disjE exE conjE)
        assume f: "fails (fork_parent (env_id (envs (kst ?w2) e))) ?w2" "\<not> fork_room (kst ?w2) c p"
        have "envs s2 c = envs s1 c" using e(4) c0 by (auto simp: childless_def)
        moreover have "has_free s2 (UPDX + 4)" if "enough_to_fork w c up"
          using en(1) [OF that] x(4) by (simp add: numeral_eq_Suc)
        ultimately have "\<not> enough_to_fork w c up"
          using f(2) en(3,4) xs has_free_spare by (auto simp: fork_room_def)
        then show ?thesis using run2 e(3) f(1) by (simp add: fails_def panics_def)
      next
        fix s3 s4 q own
        let ?t = "child_done (kst ?w2) s4 c e"
        assume f: "fork_parent (env_id (envs (kst ?w2) e)) ?w2 = (Ret (env_id (envs (kst ?w2) e)), ?w2\<lparr>kst := ?t\<rparr>)"
          "running ?t K c" "dirs ?t = dirs (kst ?w2)" "shared_upto (kst ?w2) s3 K c p ?sn (Some own) (1024 * UPDX)"
          "remapped s3 s4 K c p XSPAGE (Some (mk_pte q (PTE_P OR PTE_W OR PTE_U)))"
          "\<forall>i. ram s4 q i = 0" "\<not> user_frame s3 q" "q < npages s3"
        have s2: "kst ?w2 = s2" by simp
        note f' = f [unfolded s2]
        have fk: "forked (kst w) (child_done s2 s4 c e) c e ?sn"
          by (rule forked_final [OF r h c0 e(1,2,4-8) f'(4) st(1) [unfolded s2] f'(5-8,3)])
        have ce: "c \<noteq> e" using c0 by (simp add: childless_def)
        have ev: "envs s4 = envs s2"
          using f'(5) shared_facts(2) [OF c0 f'(4)] rest_sameD(2) [of s3 s4] by (simp add: remapped_def)
        have "env_id (envs (child_done s2 s4 c e) e) = v" using e(3) ev by (simp add: child_done_def)
        moreover have "env_pgfault_upcall (envs (child_done s2 s4 c e) c) = up" if "pgfault_handler w = 0"
          using that hs ce ev e(4) by (simp add: child_done_def)
        moreover have "fork up h w = (Ret v, ?w2\<lparr>kst := child_done s2 s4 c e\<rparr>)" using run2 f'(1) e(3) by simp
        ultimately show ?thesis using f'(2) fk
          by (intro disjI2 exI [of _ "?w2\<lparr>kst := child_done s2 s4 c e\<rparr>"] exI [of _ e]) simp
      qed
    qed
  qed
qed

text \<open>With enough left, \<^verbatim>\<open>fork\<close> succeeds.\<close>

theorem fork_succeeds:
  assumes "running (kst w) K c" and "thisenv w = c" and "room_for_child (kst w)" and "library_ready w"
    and "enough_to_fork w c up"
  shows "\<exists>w' e. fork up h w = (Ret (env_id (envs (kst w') e)), w') \<and> forked (kst w) (kst w') c e (PGNUM (ustack w))"
  using fork_run [OF assms(1-4), of up h] assms(5) unfolding enough_to_fork_def by blast

text \<open>After \<^verbatim>\<open>fork\<close> neither side can write a page both map without a fault.\<close>

lemma entry_not_writable: "parent_entry x AND PTE_W = 0" "child_entry x AND PTE_W = 0"
proof -
  have b: "PTE_W < 0x1000" by (simp add: kconst)
  have "mk_pte f (PTE_COW OR PTE_P OR PTE_U) AND PTE_W = 0" "mk_pte f (PTE_P OR PTE_U) AND PTE_W = 0" for f
    unfolding mk_pte_flag [OF b share_perms(1)] mk_pte_flag [OF b share_perms(2)] by (simp_all add: kconst)
  then show "parent_entry x AND PTE_W = 0" "child_entry x AND PTE_W = 0"
    by (auto simp: parent_entry_def child_entry_def writable_or_cow_def)
qed

theorem fork_read_only:
  assumes f: "forked s t c e sn" and d: "d = cr3 s \<and> m \<noteq> sn \<or> env_pgdir (envs t e) = Some d"
    and m: "m < 1024 * UPDX" "m \<noteq> XSPAGE" "umap t d m = Some x"
  shows "x AND PTE_W = 0"
  using f d m entry_not_writable unfolding forked_def by auto

end
