(* ===== verification/Jos_Fork_Demo.thy ===== *)
theory Jos_Fork_Demo
  imports Jos_Fork_Run Jos_Demo
begin

text \<open>
  A machine of 2048 pages for the theorems on \<^verbatim>\<open>fork\<close> and its page faults: the
  running environment maps a copy-on-write page (frame 4) at \<^verbatim>\<open>UTEXT\<close> and a
  writable page (frame 6) behind it, both environments map their own directories at
  \<^verbatim>\<open>UVPT\<close>, and the pages from 7 on are free.
\<close>

definition fork_ram :: "nat \<Rightarrow> nat \<Rightarrow> u32" where
  "fork_ram f i = (if (f = 2 \<or> f = 5) \<and> i = PDX UVPT then page2pa f OR PTE_P OR PTE_U
     else if f = 2 \<and> i = 2 then mk_pte 3 7
     else if f = 3 \<and> i = 0 then mk_pte 4 (PTE_COW OR PTE_P OR PTE_U)
     else if f = 3 \<and> i = 1 then mk_pte 6 7 else 0)"

definition fork_frames :: "nat \<Rightarrow> PageInfo" where
  "fork_frames p = \<lparr>pp_link = (if 7 \<le> p \<and> p < 2047 then Some (Suc p) else None),
     pp_ref = (if 2 \<le> p \<and> p \<le> 6 then 1 else 0)\<rparr>"

definition fork_demo :: kstate where
  "fork_demo = demo\<lparr>npages := 2048, pages := fork_frames, page_free_list := Some 7, ram := fork_ram\<rparr>"

definition fork_proc :: uproc where
  "fork_proc = \<lparr>kst = fork_demo, pgfault_handler = 0, thisenv = 0,
     ustack = 0x801FF0, udata = 0x801004\<rparr>"

lemma fork_demo_simps [simp]:
  "npages fork_demo = 2048" "pages fork_demo = fork_frames" "page_free_list fork_demo = Some 7" "ram fork_demo = fork_ram"
  "kern_pgdir fork_demo = 1" "envs fork_demo = demo_env" "env_free_list fork_demo = Some 2" "cpunum fork_demo = 0"
  "cr3 fork_demo = 2" "curenv fork_demo = Some 0" "holding fork_demo"
  by (simp_all add: fork_demo_def demo_def curenv_def holding_def)

lemma fork_demo_live [simp]: "live fork_demo e \<longleftrightarrow> e = 0 \<or> e = 1"
  using demo_live [of e] by (simp add: live_def)

lemma fork_demo_dirs [simp]: "dirs fork_demo = {2, 5}"
  using demo_dirs by (simp add: dirs_def)

lemma fork_entries:
  "entry_frame (mk_pte 4 (PTE_COW OR PTE_P OR PTE_U)) = Some 4" "entry_frame (mk_pte 6 7) = Some 6"
  "pte_frame (mk_pte 4 (PTE_COW OR PTE_P OR PTE_U)) = 4" "pte_frame (mk_pte 6 7) = 6"
  by (simp_all add: entry_frame_mk_pte share_perms kconst)

lemma fork_ram_dirs: "i < UPDX \<Longrightarrow> fork_ram 2 i = (if i = 2 then mk_pte 3 7 else 0)" "i < UPDX \<Longrightarrow> fork_ram 5 i = 0"
  using UPDX_UVPT by (auto simp: fork_ram_def)

lemma fork_tab: "i < UPDX \<Longrightarrow> tab_of fork_demo 2 i = (if i = 2 then Some 3 else None)" "i < UPDX \<Longrightarrow> tab_of fork_demo 5 i = None"
  by (simp_all add: tab_of_def fork_ram_dirs)

lemma fork_target: "target fork_demo {2, 5} x = (if x = Dir 2 then Some 2 else if x = Dir 5 then Some 5
   else if x = Tab 2 2 then Some 3 else if x = Pg 2 2 0 then Some 4 else if x = Pg 2 2 1 then Some 6 else None)"
proof (cases x)
  case (Tab d i)
  then show ?thesis using fork_tab [of i] by (auto simp: kconst)
next
  case (Pg d i j)
  then show ?thesis using fork_tab [of i] by (auto simp: fork_ram_def fork_entries kconst)
qed simp

lemma fork_refs: "refs fork_demo {2, 5} p = (if p = 2 then {Dir 2} else if p = 5 then {Dir 5} else if p = 3 then {Tab 2 2}
   else if p = 4 then {Pg 2 2 0} else if p = 6 then {Pg 2 2 1} else {})"
  by (auto simp: refs_def fork_target)

text \<open>The free pages, as a list the simplifier does not unfold.\<close>

definition fork_fl :: "nat list" where
  "fork_fl = [7 ..< Suc 2047]"

lemma fork_fl: "set fork_fl = {7 ..< 2048}" "distinct fork_fl" "length fork_fl = 2041"
proof -
  show "set fork_fl = {7 ..< 2048}" unfolding fork_fl_def set_upt by simp
  show "distinct fork_fl" unfolding fork_fl_def by (rule distinct_upt)
  show "length fork_fl = 2041" unfolding fork_fl_def length_upt by simp
qed

lemma fork_free: "free_pages fork_demo fork_fl"
proof -
  have "fork_fl = [7 ..< 2047] @ [2047]" unfolding fork_fl_def by (rule upt_Suc_append) simp
  moreover have "chain (\<lambda>p. pp_link (fork_frames p)) (Some 7) ([7 ..< 2047] @ [2047])"
    by (rule chain_upto) (simp_all add: fork_frames_def)
  ultimately have "chain (\<lambda>p. pp_link (fork_frames p)) (Some 7) fork_fl" by (simp only:)
  then show ?thesis by (auto simp: free_pages_def fork_frames_def fork_fl)
qed

lemma fork_mem: "mem_inv fork_demo {2, 5} {0, 1} fork_fl"
proof -
  have "unat (pp_ref (fork_frames p)) = card (refs fork_demo {2, 5} p)" for p
    unfolding fork_refs by (auto simp: fork_frames_def)
  then show ?thesis
    unfolding mem_inv_def owned_once_def counted_def using fork_free
    by (auto simp: fork_target fork_fl split: if_splits)
qed

lemma fork_running: "running fork_demo {0, 1} 0"
proof -
  have "leak_free fork_demo {0, 1} fork_fl" by (auto simp: leak_free_def fork_frames_def fork_fl)
  moreover have "elink fork_demo = elink demo" "live fork_demo = live demo" by (simp_all add: elink_def fun_eq_iff)
  then have "env_table fork_demo [2 ..< NENV]" using demo_env_table by (simp add: env_table_def)
  ultimately have "kinv fork_demo {0, 1}" using fork_mem by (auto simp: kinv_def)
  moreover have "mk_pte 3 7 AND PTE_W \<noteq> 0" "mk_pte 3 7 AND PTE_U \<noteq> 0" by (simp_all add: kconst mk_pte_def)
  moreover have "fork_ram 2 (PDX UVPT) = page2pa 2 OR PTE_P OR PTE_U" "fork_ram 5 (PDX UVPT) = page2pa 5 OR PTE_P OR PTE_U"
    by (simp_all add: fork_ram_def)
  ultimately show ?thesis
    by (simp add: running_def ready_def open_tables_def fork_ram_dirs kconst present_def)
qed

lemma fork_umap:
  assumes m: "m < 1024 * UPDX" and d: "d \<in> {2, 5}"
  shows "umap fork_demo d m = (if d = 2 \<and> m = 2048 then Some (mk_pte 4 (PTE_COW OR PTE_P OR PTE_U))
    else if d = 2 \<and> m = 2049 then Some (mk_pte 6 7) else None)"
proof -
  note i = div_UPDX [OF m]
  show ?thesis
  proof (cases "d = 2 \<and> m div 1024 = 2")
    case True
    define j where "j = m mod 1024"
    have mj: "m = 2048 + j" using True mult_div_mod_eq [of 1024 m] by (simp add: j_def)
    have "present (mk_pte 4 (PTE_COW OR PTE_P OR PTE_U))" "present (mk_pte 6 7)"
      by (simp_all add: present_def mk_pte_flag share_perms kconst)
    then have "umap fork_demo 2 m = (if j = 0 then Some (mk_pte 4 (PTE_COW OR PTE_P OR PTE_U))
        else if j = 1 then Some (mk_pte 6 7) else None)"
      using True i fork_tab(1) [OF i] by (simp add: umap_def fork_ram_def Let_def j_def [symmetric] present_def)
    then show ?thesis using True mj by simp
  next
    case False
    then have "umap fork_demo d m = None"
      using d fork_tab [OF i] by (auto simp: umap_def split: if_splits)
    then show ?thesis using False by auto
  qed
qed

lemma fork_room: "room_for_child fork_demo"
proof -
  have "card (mappings fork_demo f) \<le> 2" "card (own_pages_of fork_demo f) \<le> 2" for f
  proof -
    have "mappings fork_demo f \<subseteq> {(2, 2048), (2, 2049)}"
      by (auto simp: mappings_def fork_umap split: if_splits)
    then have "card (mappings fork_demo f) \<le> card {(2 :: nat, 2048 :: nat), (2, 2049)}" by (rule card_mono [rotated]) simp
    then show "card (mappings fork_demo f) \<le> 2" by simp
    have "own_pages_of fork_demo f \<subseteq> {2048, 2049}"
      by (auto simp: own_pages_of_def fork_umap split: if_splits)
    then have "card (own_pages_of fork_demo f) \<le> card {2048 :: nat, 2049}" by (rule card_mono [rotated]) simp
    then show "card (own_pages_of fork_demo f) \<le> 2" by simp
  qed
  then have le: "card (mappings fork_demo f) + card (own_pages_of fork_demo f) \<le> 2 + 2" for f by (rule add_mono)
  show ?thesis unfolding room_for_child_def using le_less_trans [OF le, of 65535] by simp
qed

lemma fork_has_free: "has_free fork_demo 2041"
  using fork_free fork_fl(3) by (auto simp: has_free_def)

lemma fork_proc_facts:
  "running (kst fork_proc) {0, 1} 0" "thisenv fork_proc = 0" "room_for_child (kst fork_proc)"
  "pgfault_handler fork_proc = 0" "enough_to_fork fork_proc 0 0x800020" "library_ready fork_proc"
proof -
  have "mk_pte 6 7 AND PTE_U \<noteq> 0" "mk_pte 6 7 AND PTE_W \<noteq> 0" by (simp_all add: kconst mk_pte_def)
  then have "open_page fork_demo 2049" using fork_umap [of 2049 2] by (simp add: open_page_def UPDX_def)
  moreover have "umap fork_demo 2 PFPAGE = None" using fork_umap [of PFPAGE 2] PFPAGE_facts(1)
    by (simp add: PFPAGE_def PGNUM_eq kconst)
  moreover have "PGNUM 0x801FF0 = 2049" "PGNUM 0x801004 = 2049" "PFPAGE \<noteq> 2049" "XSPAGE \<noteq> 2049"
    by (simp_all add: PFPAGE_def XSPAGE_def PGNUM_eq kconst)
  ultimately show "library_ready fork_proc"
    by (simp add: library_ready_def stack_at_def fork_proc_def) (simp add: kconst)
next
  have "UPDX + 7 \<le> 2041" by (simp add: kconst)
  then have "has_free fork_demo (UPDX + 7)" by (rule has_free_mono [OF fork_has_free])
  moreover have "2 < NENV \<and> \<not> live fork_demo 2" by (simp add: kconst)
  ultimately show "enough_to_fork fork_proc 0 0x800020"
    by (auto simp: enough_to_fork_def fork_proc_def intro!: exI [of _ 2])
qed (use fork_running fork_room in \<open>simp_all add: fork_proc_def\<close>)

lemma fork_proc_cow:
  "umap (kst fork_proc) (cr3 (kst fork_proc)) (PGNUM UTEXT) = Some (mk_pte 4 (PTE_COW OR PTE_P OR PTE_U))"
  "UTEXT < UTOP" "PGNUM UTEXT \<noteq> PFPAGE" "FEC_WR AND FEC_WR \<noteq> 0"
  "mk_pte 4 (PTE_COW OR PTE_P OR PTE_U) AND PTE_COW \<noteq> 0" "mk_pte 4 (PTE_COW OR PTE_P OR PTE_U) AND PTE_U \<noteq> 0"
  "has_free (kst fork_proc) 2"
proof -
  show "umap (kst fork_proc) (cr3 (kst fork_proc)) (PGNUM UTEXT) = Some (mk_pte 4 (PTE_COW OR PTE_P OR PTE_U))"
    by (simp add: fork_proc_def fork_umap PGNUM_eq UTEXT_def UPDX_def)
  show "has_free (kst fork_proc) 2" by (simp add: fork_proc_def) (rule has_free_mono [OF fork_has_free], simp)
qed (simp_all add: mk_pte_flag share_perms PFPAGE_def PGNUM_eq kconst)

end
