(* ===== verification/Jos_Syscall_Exact.thy ===== *)
theory Jos_Syscall_Exact
  imports Jos_Syscall_Inv
begin

text \<open>
  The exact results of \<^verbatim>\<open>sys_page_map\<close>, \<^verbatim>\<open>sys_ipc_try_send\<close> and
  \<^verbatim>\<open>sys_exofork\<close>: which error each of them returns and when, and the mapping that a
  successful call makes, in the spaces that the given identifiers name.
\<close>

section \<open>Names and spaces\<close>

text \<open>The environment that an identifier names for the caller \<open>c\<close>, and the space of one.\<close>

definition named_env :: "kstate \<Rightarrow> nat \<Rightarrow> bool \<Rightarrow> i32 \<Rightarrow> nat option" where
  "named_env s c chk envid =
     (if envid = 0 then Some c
      else if live s (ENVX envid) \<and> env_id (envs s (ENVX envid)) = envid \<and> (chk \<longrightarrow> may_control s c (ENVX envid))
      then Some (ENVX envid) else None)"

definition env_space :: "kstate \<Rightarrow> nat \<Rightarrow> nat" where
  "env_space s e = the (env_pgdir (envs s e))"

text \<open>A mapping needs a page table, and no page is left for it.\<close>

definition no_table_page :: "kstate \<Rightarrow> nat \<Rightarrow> u32 \<Rightarrow> bool" where
  "no_table_page s d va \<longleftrightarrow> tab_of s d (PDX va) = None \<and> page_free_list s = None"

lemma envid2env_named:
  assumes r: "ready s K c"
  shows "envid2env envid chk s = (case named_env s c chk envid of
    None \<Rightarrow> (Ret (- E_BAD_ENV, None), s) | Some e \<Rightarrow> (Ret (0, Some e), s))"
proof -
  have k: "kinv s K" "curenv s = Some c" "live s c" using r by (auto simp: ready_def)
  obtain efl where t: "env_table s efl" using k(1) by (auto simp: kinv_def)
  have x: "ENVX (env_id (envs s e)) = e" if "live s e" for e using t that by (simp add: env_table_def)
  have eq: "(\<exists>e. live s e \<and> env_id (envs s e) = envid
         \<and> (chk \<longrightarrow> e = c \<or> env_parent_id (envs s e) = env_id (envs s c)))
    \<longleftrightarrow> live s (ENVX envid) \<and> env_id (envs s (ENVX envid)) = envid \<and> (chk \<longrightarrow> may_control s c (ENVX envid))"
    unfolding may_control_def using x by metis
  show ?thesis unfolding envid2env_spec [OF k, of envid chk] eq named_env_def by (simp only: split: if_split) simp
qed

lemma named_env_live: "ready s K c \<Longrightarrow> named_env s c chk envid = Some e \<Longrightarrow> live s e"
  by (auto simp: named_env_def ready_def split: if_splits)

lemma live_has_space:
  assumes "ready s K c" and "live s e"
  shows "the_pgdir e s = (Ret (env_space s e), s)" and "env_space s e \<in> dirs s" and "env_pgdir (envs s e) = Some (env_space s e)"
  using live_space [OF assms] unfolding env_space_def by fastforce+

lemma free_pages_Nil: "free_pages s fl \<Longrightarrow> fl = [] \<longleftrightarrow> page_free_list s = None"
  by (cases fl) (auto simp: free_pages_def)

section \<open>Inserting a page that a space maps\<close>

lemma insert_shared:
  assumes r: "ready s K c" and e: "live s e" and va: "va < UTOP" "src < UTOP" and perm: "perm < 0x1000"
    and sd: "sd \<in> dirs s" and um: "umap s sd (PGNUM src) = Some x" and ok: "refs_ok s"
  shows "if no_table_page s (env_space s e) va then page_insert (env_space s e) (pte_frame x) va perm s = (Ret (- E_NO_MEM), s)
    else \<exists>t. page_insert (env_space s e) (pte_frame x) va perm s = (Ret 0, t) \<and> ready t K c \<and> confined s t {e}
        \<and> rest_same s t \<and> contents_kept s t
        \<and> maps_agree s t (dirs s) (env_space s e) (PGNUM va) (Some (mk_pte (pte_frame x) perm))"
proof -
  obtain fl where fl: "mem_inv s (dirs s) K fl" "leak_free s K fl" using r by (auto simp: ready_def kinv_def)
  note d = live_has_space [OF r e]
  have ins: "insertable s (dirs s) K fl (pte_frame x)" by (rule insertable_bound [OF fl(1) sd va(2) um ok])
  have lk: "leak_free s (insert (pte_frame x) K) fl" using fl(2) by (auto simp: leak_free_def)
  have nil: "fl = [] \<longleftrightarrow> page_free_list s = None" by (rule free_pages_Nil [OF mem_invD(3) [OF fl(1)]])
  note full = page_insert_full [OF fl(1) d(2) va(1) ins perm]
  show ?thesis
  proof (cases "no_table_page s (env_space s e) va")
    case True
    then show ?thesis using full nil by (simp add: no_table_page_def)
  next
    case False
    then obtain t where "page_insert (env_space s e) (pte_frame x) va perm s = (Ret 0, t)"
      using full nil by (auto simp: no_table_page_def)
    then show ?thesis
      using insert_in_space_full [OF r e d(3) va(1) fl(1) lk ins perm] False by (auto simp: kconst)
  qed
qed

section \<open>Sharing a page\<close>

theorem sys_page_map_exact:
  assumes r: "ready s K c" and ok: "refs_ok s"
  shows "case (named_env s c True srcenvid, named_env s c True dstenvid) of
      (Some se, Some de) \<Rightarrow>
        (case umap s (env_space s se) (PGNUM srcva) of
           None \<Rightarrow> sys_page_map srcenvid srcva dstenvid dstva perm s = (Ret (- E_INVAL), s)
         | Some x \<Rightarrow>
             if bad_va srcva \<or> bad_va dstva \<or> bad_perm perm \<or> perm AND PTE_W \<noteq> 0 \<and> x AND PTE_W = 0
             then sys_page_map srcenvid srcva dstenvid dstva perm s = (Ret (- E_INVAL), s)
             else if no_table_page s (env_space s de) dstva
             then sys_page_map srcenvid srcva dstenvid dstva perm s = (Ret (- E_NO_MEM), s)
             else \<exists>t. sys_page_map srcenvid srcva dstenvid dstva perm s = (Ret 0, t) \<and> ready t K c
               \<and> rest_same s t \<and> contents_kept s t
               \<and> maps_agree s t (dirs s) (env_space s de) (PGNUM dstva) (Some (mk_pte (pte_frame x) perm)))
    | _ \<Rightarrow> sys_page_map srcenvid srcva dstenvid dstva perm s = (Ret (- E_BAD_ENV), s)"
proof -
  let ?run = "sys_page_map srcenvid srcva dstenvid dstva perm s"
  note nz = E_BAD_ENV_nonzero E_NO_MEM_nonzero
  note n = envid2env_named [OF r]
  show ?thesis
  proof (cases "named_env s c True srcenvid = None \<or> named_env s c True dstenvid = None")
    case True
    then show ?thesis using nz by (auto simp: sys_page_map_def n split: option.splits)
  next
    case False
    then obtain se de where e: "named_env s c True srcenvid = Some se" "named_env s c True dstenvid = Some de" by auto
    note lv = named_env_live [OF r e(1)] named_env_live [OF r e(2)]
    note sd = live_has_space [OF r lv(1)] and dd = live_has_space [OF r lv(2)]
    show ?thesis
    proof (cases "bad_va srcva \<or> bad_va dstva \<or> bad_perm perm")
      case True
      then have "?run = (Ret (- E_INVAL), s)" by (auto simp: sys_page_map_def n e)
      then show ?thesis using True e by (auto split: option.splits)
    next
      case ok': False
      then have va: "srcva < UTOP" "dstva < UTOP" and perm: "perm < 0x1000" using bad_vaD bad_permD by auto
      obtain fl where fl: "mem_inv s (dirs s) K fl" using r by (auto simp: ready_def kinv_def)
      obtain l where l: "page_lookup (env_space s se) srcva s = (Ret l, s)"
        "map_option fst l = map_option pte_frame (umap s (env_space s se) (PGNUM srcva))"
        "\<forall>p t j. l = Some (p, t, j) \<longrightarrow> umap s (env_space s se) (PGNUM srcva) = Some (ram s t j)"
        using page_lookup_spec [OF fl sd(2) va(1)] by blast
      show ?thesis
      proof (cases l)
        case None
        then have "?run = (Ret (- E_INVAL), s)" using l(1) ok' sd by (simp add: sys_page_map_def n e the_env_def)
        then show ?thesis using l(2) None e by simp
      next
        case (Some y)
        then obtain p t j where y: "l = Some (p, t, j)" by (cases y) auto
        define x where "x = ram s t j"
        have um: "umap s (env_space s se) (PGNUM srcva) = Some x" using l(3) y by (simp add: x_def)
        then have p: "p = pte_frame x" using l(2) y by simp
        have run: "?run = (if perm AND PTE_W \<noteq> 0 \<and> x AND PTE_W = 0 then (Ret (- E_INVAL), s)
            else case page_insert (env_space s de) (pte_frame x) dstva perm s of
              (Ret r, t) \<Rightarrow> if r \<noteq> 0 then (Ret (- E_NO_MEM), t) else (Ret 0, t) | (Stop x, t) \<Rightarrow> (Stop x, t))"
          using ok' sd dd l(1) y p
          by (auto simp: sys_page_map_def n e the_env_def load_pte_def x_def split: prod.split outcome.split)
        show ?thesis
          using insert_shared [OF r lv(2) va(2,1) perm sd(2) um ok] run ok' e um nz
          by (auto split: if_splits)
      qed
    qed
  qed
qed

section \<open>Sending a message\<close>

lemma ipc_page_exact:
  assumes r: "ready s K c" and ok: "refs_ok s" and e: "live s e" and perm: "perm < 0x1000"
    and va: "srcva < UTOP" "env_ipc_dstva (envs s e) < UTOP"
  shows "case umap s (env_space s c) (PGNUM srcva) of
      None \<Rightarrow> ipc_page e srcva perm s = (Ret (- E_INVAL), s)
    | Some x \<Rightarrow>
        if perm AND PTE_W \<noteq> 0 \<and> x AND PTE_W = 0 then ipc_page e srcva perm s = (Ret (- E_INVAL), s)
        else if no_table_page s (env_space s e) (env_ipc_dstva (envs s e))
        then ipc_page e srcva perm s = (Ret (- E_NO_MEM), s)
        else \<exists>t. ipc_page e srcva perm s = (Ret 0, t) \<and> ready t K c \<and> confined s t {e} \<and> rest_same s t
          \<and> contents_kept s t \<and> maps_agree s t (dirs s) (env_space s e) (PGNUM (env_ipc_dstva (envs s e)))
              (Some (mk_pte (pte_frame x) perm))"
proof -
  let ?dst = "env_ipc_dstva (envs s e)"
  have c: "live s c" using r by (simp add: ready_def)
  note sd = live_has_space [OF r c] and dd = live_has_space [OF r e]
  obtain fl where fl: "mem_inv s (dirs s) K fl" using r by (auto simp: ready_def kinv_def)
  obtain l where l: "page_lookup (env_space s c) srcva s = (Ret l, s)"
    "map_option fst l = map_option pte_frame (umap s (env_space s c) (PGNUM srcva))"
    "\<forall>p t j. l = Some (p, t, j) \<longrightarrow> umap s (env_space s c) (PGNUM srcva) = Some (ram s t j)"
    using page_lookup_spec [OF fl sd(2) va(1)] by blast
  show ?thesis
  proof (cases l)
    case None
    then show ?thesis using r sd l(1,2) by (simp add: ipc_page_def)
  next
    case (Some y)
    then obtain p t j where y: "l = Some (p, t, j)" by (cases y) auto
    define x where "x = ram s t j"
    have um: "umap s (env_space s c) (PGNUM srcva) = Some x" using l(3) y by (simp add: x_def)
    then have p: "p = pte_frame x" using l(2) y by simp
    have run: "ipc_page e srcva perm s = (if perm AND PTE_W \<noteq> 0 \<and> x AND PTE_W = 0 then (Ret (- E_INVAL), s)
        else case page_insert (env_space s e) (pte_frame x) ?dst perm s of
          (Ret r, t) \<Rightarrow> if is_neg r then (Ret (- E_NO_MEM), t) else (Ret 0, t) | (Stop x, t) \<Rightarrow> (Stop x, t))"
      using r sd dd l(1) y p by (auto simp: ipc_page_def load_pte_def x_def split: prod.split outcome.split)
    show ?thesis
      using insert_shared [OF r e va(2,1) perm sd(2) um ok] run um by (auto split: if_splits)
  qed
qed

theorem sys_ipc_try_send_exact:
  assumes r: "ready s K c" and ok: "refs_ok s" and perm: "perm < 0x1000"
  shows "case named_env s c False envid of
      None \<Rightarrow> sys_ipc_try_send envid value srcva perm s = (Ret (- E_BAD_ENV), s)
    | Some e \<Rightarrow>
        let dstva = env_ipc_dstva (envs s e); page = dstva < UTOP \<and> srcva < UTOP; x = umap s (env_space s c) (PGNUM srcva) in
        if \<not> env_ipc_recving (envs s e) then sys_ipc_try_send envid value srcva perm s = (Ret (- E_IPC_NOT_RECV), s)
        else if page \<and> (x = None \<or> perm AND PTE_W \<noteq> 0 \<and> the x AND PTE_W = 0)
        then sys_ipc_try_send envid value srcva perm s = (Ret (- E_INVAL), s)
        else if page \<and> no_table_page s (env_space s e) dstva
        then sys_ipc_try_send envid value srcva perm s = (Ret (- E_NO_MEM), s)
        else \<exists>t. sys_ipc_try_send envid value srcva perm s = (Ret 0, t) \<and> ready t K c \<and> confined s t {e}
          \<and> delivered s c e value perm (envs t e)
          \<and> (if page then maps_agree s t (dirs s) (env_space s e) (PGNUM dstva) (Some (mk_pte (pte_frame (the x)) perm))
             else \<forall>d n. umap t d n = umap s d n)"
proof (cases "named_env s c False envid")
  case None
  then show ?thesis
    using E_BAD_ENV_nonzero by (simp add: sys_ipc_try_send_def envid2env_named [OF r])
next
  case (Some e)
  have e: "live s e" by (rule named_env_live [OF r Some])
  note n = envid2env_named [OF r, of envid False, unfolded Some option.case]
  let ?f = "\<lambda>v. v\<lparr>env_ipc_recving := False, env_ipc_dstva := UTOP,
      env_ipc_from := env_id (envs s c), env_ipc_value := value, env_ipc_perm := perm,
      env_status := ENV_RUNNABLE\<rparr>"
  have deliver: "ipc_deliver e value perm u = (Ret 0, upd_env e ?f u) \<and> ready (upd_env e ?f u) K c
      \<and> confined s (upd_env e ?f u) {e} \<and> delivered s c e value perm (envs (upd_env e ?f u) e)
      \<and> umap (upd_env e ?f u) = umap u"
    if u: "ready u K c" "envs u = envs s" "confined s u {e}" for u
  proof -
    have um: "umap (upd_env e ?f u) = umap u" by (rule umap_ram) simp
    then show ?thesis
      using u ready_upd_env [OF u(1), of e ?f] e
      by (auto simp: ipc_deliver_def live_def same_slot_def delivered_def confined_def space_same_def)
  qed
  let ?dst = "env_ipc_dstva (envs s e)" and ?x = "umap s (env_space s c) (PGNUM srcva)"
  let ?page = "?dst < UTOP \<and> srcva < UTOP"
  let ?run = "sys_ipc_try_send envid value srcva perm s"
  show ?thesis
  proof (cases "env_ipc_recving (envs s e)")
    case False
    then show ?thesis using n Some by (simp add: sys_ipc_try_send_def the_env_def Let_def)
  next
    case recv: True
    show ?thesis
    proof (cases ?page)
      case False
      then have "?run = ipc_deliver e value perm s" using n recv by (auto simp: sys_ipc_try_send_def the_env_def)
      then show ?thesis using deliver [OF r] False recv Some by (auto simp: Let_def)
    next
      case True
      have run: "?run = (case ipc_page e srcva perm s of
          (Ret v, t) \<Rightarrow> if v \<noteq> 0 then (Ret v, t) else ipc_deliver e value perm t | (Stop x, t) \<Rightarrow> (Stop x, t))"
        using n recv True by (auto simp: sys_ipc_try_send_def the_env_def split: prod.split outcome.split)
      have inval: "- E_INVAL \<noteq> (0 :: i32)" by (simp add: kconst)
      show ?thesis
      proof (cases "?x = None \<or> perm AND PTE_W \<noteq> 0 \<and> the ?x AND PTE_W = 0 \<or> no_table_page s (env_space s e) ?dst")
        case fails: True
        then show ?thesis
          using ipc_page_exact [OF r ok e perm conjunct2 [OF True] conjunct1 [OF True]] True recv Some run inval E_NO_MEM_nonzero
          by (cases ?x) (auto simp: Let_def split: if_splits)
      next
        case False
        then obtain x where x: "?x = Some x" "\<not> (perm AND PTE_W \<noteq> 0 \<and> x AND PTE_W = 0)" by auto
        obtain t where t: "ipc_page e srcva perm s = (Ret 0, t)" "ready t K c" "confined s t {e}" "rest_same s t"
          "maps_agree s t (dirs s) (env_space s e) (PGNUM ?dst) (Some (mk_pte (pte_frame x) perm))"
          using ipc_page_exact [OF r ok e perm conjunct2 [OF True] conjunct1 [OF True]] True x False by (auto split: if_splits)
        have "?run = ipc_deliver e value perm t" using run t(1) by simp
        then show ?thesis
          using deliver [OF t(2) rest_sameD(2) [OF t(4)] t(3)] t(5) x False recv Some True
          by (auto simp: Let_def maps_agree_def)
      qed
    qed
  qed
qed

section \<open>Creating an environment\<close>

theorem sys_exofork_exact:
  assumes r: "ready s K c"
  shows "if \<forall>e < NENV. live s e then sys_exofork s = (Stop (BadPointer ''envs''), s)
    else if page_free_list s = None then sys_exofork s = (Ret (- E_NO_MEM), s)
    else \<exists>v e t. sys_exofork s = (Ret v, t) \<and> ready t K c \<and> confined s t {} \<and> \<not> live s e \<and> live t e
      \<and> 0 < sint v \<and> v = env_id (envs t e) \<and> env_parent_id (envs t e) = env_id (envs s c)
      \<and> env_status (envs t e) = ENV_NOT_RUNNABLE
      \<and> env_tf (envs t e) = (let f = env_tf (envs s c) in f\<lparr>tf_regs := (tf_regs f)\<lparr>reg_eax := 0\<rparr>\<rparr>)
      \<and> (\<forall>d m. env_pgdir (envs t e) = Some d \<longrightarrow> m < 1024 * UPDX \<longrightarrow> umap t d m = None)"
proof -
  obtain efl fl where k: "kern_pgdir s \<in> K" "env_table s efl" "mem_inv s (dirs s) K fl"
    using r by (auto simp: ready_def kinv_def)
  have nil: "fl = [] \<longleftrightarrow> page_free_list s = None" by (rule free_pages_Nil [OF mem_invD(3) [OF k(3)]])
  note cur [simp] = get_curenv_ready [OF r]
  let ?al = "env_alloc_as ENV_TYPE_USER (env_id (envs s c)) s"
  have cases: "(\<forall>e < NENV. live s e) \<and> sys_exofork s = (Stop (BadPointer ''envs''), s)
    \<or> \<not> (\<forall>e < NENV. live s e) \<and> (if fl = [] then sys_exofork s = (Ret (- E_NO_MEM), s) else \<exists>x t. ?al = (Ret (0, Some x), t))"
  proof (cases efl)
    case Nil
    then have "env_free_list s = Some NENV" "\<forall>e < NENV. live s e" using k(2) by (auto simp: env_table_def)
    then show ?thesis by (simp add: sys_exofork_def env_alloc_def env_alloc_as_def)
  next
    case (Cons e efl')
    then have e: "env_free_list s = Some e" "e < NENV" "\<not> live s e" using k(2) by (auto simp: env_table_def)
    from env_alloc_as_spec [OF k(3,1) e(1,2), of ENV_TYPE_USER "env_id (envs s c)"]
    have "if fl = [] then ?al = (Ret (- E_NO_MEM, None), s) else \<exists>x t. ?al = (Ret (0, Some x), t)"
      by (cases fl) auto
    then show ?thesis using e by (auto simp: sys_exofork_def env_alloc_def split: if_splits)
  qed
  then show ?thesis
  proof (elim disjE conjE)
    assume "\<not> (\<forall>e < NENV. live s e)"
      and c: "if fl = [] then sys_exofork s = (Ret (- E_NO_MEM), s) else \<exists>x t. ?al = (Ret (0, Some x), t)"
    moreover have "sys_exofork s \<noteq> (Ret (- E_NO_MEM), s)" "sys_exofork s \<noteq> (Stop (BadPointer ''envs''), s)"
      if nz: "fl \<noteq> []"
    proof -
      obtain x t where x: "?al = (Ret (0, Some x), t)" using c nz by auto
      have "env_id (envs t x) = next_env_id (env_id (envs s x)) x" "x < NENV" "x \<noteq> c"
        using env_alloc_ready [OF r, of ENV_TYPE_USER "env_id (envs s c)"] x r by (auto simp: live_def ready_def)
      moreover from this have "0 < sint (env_id (envs t x))" using next_env_id_wf(2) by simp
      moreover from this have "env_id (envs t x) \<noteq> - E_NO_MEM" by (auto simp: kconst)
      ultimately show "sys_exofork s \<noteq> (Ret (- E_NO_MEM), s)" "sys_exofork s \<noteq> (Stop (BadPointer ''envs''), s)"
        using x by (auto simp: sys_exofork_def env_alloc_def the_env_def)
    qed
    ultimately show ?thesis using sys_exofork_spec [OF r] nil by auto
  qed simp
qed

end
