(* ===== verification/Jos_Kdebug.thy ===== *)
theory Jos_Kdebug
  imports Jos_Trap "HOL-Library.Signed_Division"
begin

text \<open>
  \<^verbatim>\<open>kern/kdebug.c\<close>: the search for the source line and function of an instruction
  address in the table of debugging entries. The search reads single fields of the table, which may
  fault, so a table is seen as partial functions from indices to fields; indices are integers of
  unbounded size, because a table of more than \<open>2\<^sup>3\<^sup>0\<close> entries would not fit in the
  address space.
\<close>

section \<open>Tables\<close>

record stabs =
  n_strx :: "int \<Rightarrow> u32 option"
  n_type :: "int \<Rightarrow> u8 option"
  n_desc :: "int \<Rightarrow> u16 option"
  n_value :: "int \<Rightarrow> u32 option"

definition N_FUN :: u8 where "N_FUN = 0x24"
definition N_SLINE :: u8 where "N_SLINE = 0x44"
definition N_SO :: u8 where "N_SO = 0x64"
definition N_SOL :: u8 where "N_SOL = 0x84"
definition N_PSYM :: u8 where "N_PSYM = 0xA0"

definition STAB_SIZE :: int where "STAB_SIZE = 12"

text \<open>A load of the kernel as a value or a fault; it changes nothing.\<close>

definition peek :: "'a kernel \<Rightarrow> kstate \<Rightarrow> 'a option" where
  "peek m s = (case m s of (Ret v, _) \<Rightarrow> Some v | (Stop _, _) \<Rightarrow> None)"

definition stabs_at :: "kstate \<Rightarrow> u32 \<Rightarrow> stabs" where
  "stabs_at s p = (let at = (\<lambda>i off. p + of_int (STAB_SIZE * i) + off) in
     \<lparr>n_strx = (\<lambda>i. peek (vload32 (at i 0)) s), n_type = (\<lambda>i. peek (vload8 (at i 4)) s),
      n_desc = (\<lambda>i. peek (vload16 (at i 6)) s), n_value = (\<lambda>i. peek (vload32 (at i 8)) s)\<rparr>)"

section \<open>Binary search\<close>

lemma sdiv_mid:
  fixes l r :: int
  assumes "l \<le> r"
  shows "l \<le> (l + r) sdiv 2" and "(l + r) sdiv 2 \<le> r"
proof -
  have "l \<le> (l + r) sdiv 2 \<and> (l + r) sdiv 2 \<le> r"
  proof (cases "0 \<le> l + r")
    case True
    then have "(l + r) sdiv 2 = (l + r) div 2" by (simp add: signed_divide_int_def sgn_if)
    then show ?thesis using assms by linarith
  next
    case False
    then have "(l + r) sdiv 2 = - ((- l - r) div 2)"
      by (simp add: signed_divide_int_def sgn_if abs_if)
    then show ?thesis using assms by linarith
  qed
  then show "l \<le> (l + r) sdiv 2" "(l + r) sdiv 2 \<le> r" by simp_all
qed

text \<open>The scan to the left for the earliest entry of the right type.\<close>

function find_match :: "stabs \<Rightarrow> u8 \<Rightarrow> int \<Rightarrow> int \<Rightarrow> int option" where
  "find_match st t l m =
     (if m < l then Some m
      else case n_type st m of
        None \<Rightarrow> None
      | Some y \<Rightarrow> if y \<noteq> t then find_match st t l (m - 1) else Some m)"
  by pat_completeness auto
termination by (relation "measure (\<lambda>(st, t, l, m). nat (m - l + 1))") auto

declare find_match.simps [simp del]

lemma find_match_le: "find_match st t l m = Some k \<Longrightarrow> k \<le> m"
  by (induction st t l m rule: find_match.induct)
    (subst (asm) (2) find_match.simps, auto split: if_splits option.splits)

text \<open>
  The main loop. In the branch of an exact match \<open>l\<close> may stay where it is, but the entry
  there no longer has the address searched for.
\<close>

definition exact_here :: "stabs \<Rightarrow> int \<Rightarrow> u32 \<Rightarrow> nat" where
  "exact_here st l addr = (if n_value st l = Some addr then 1 else 0)"

function bs_loop :: "stabs \<Rightarrow> u8 \<Rightarrow> int \<Rightarrow> int \<Rightarrow> u32 \<Rightarrow> int \<Rightarrow> int \<Rightarrow> bool \<Rightarrow> (int \<times> int \<times> bool) option" where
  "bs_loop st t l r addr left right any_matches =
     (if r < l then Some (left, right, any_matches)
      else let true_m = (l + r) sdiv 2 in
        case find_match st t l true_m of
          None \<Rightarrow> None
        | Some m \<Rightarrow>
            if m < l then bs_loop st t (true_m + 1) r addr left right any_matches
            else case n_value st m of
              None \<Rightarrow> None
            | Some v \<Rightarrow>
                if v < addr then bs_loop st t (true_m + 1) r addr m right True
                else if addr < v then bs_loop st t l (m - 1) addr left (m - 1) True
                else bs_loop st t m r (addr + 1) m right True)"
  by pat_completeness auto
termination
proof (relation "measure (\<lambda>(st, t, l, r, addr, left, right, any). 2 * nat (r - l + 1) + exact_here st l addr)",
    goal_cases)
  case (5 st t l r addr left right any true_m m v)
  have m: "l \<le> m" "m \<le> r" using 5 find_match_le [of st t l true_m m] sdiv_mid [of l r] by auto
  have "exact_here st m (addr + 1) = 0" using 5 by (auto simp: exact_here_def)
  moreover have "exact_here st l addr = 1" if "m = l" using that 5 by (simp add: exact_here_def)
  moreover have "nat (r - m + 1) < nat (r - l + 1)" if "m \<noteq> l" using that m by auto
  ultimately show ?case by (cases "m = l") auto
next
  case (2 st t l r addr left right any true_m m)
  then show ?case using sdiv_mid [of l r] by (auto simp: exact_here_def)
next
  case (3 st t l r addr left right any true_m m v)
  then show ?case using sdiv_mid [of l r] by (auto simp: exact_here_def)
next
  case (4 st t l r addr left right any true_m m v)
  then show ?case using find_match_le [of st t l true_m m] sdiv_mid [of l r] by (auto simp: exact_here_def)
qed simp

declare bs_loop.simps [simp del]

text \<open>The closing scan for the rightmost region.\<close>

function rightmost :: "stabs \<Rightarrow> u8 \<Rightarrow> int \<Rightarrow> int \<Rightarrow> int option" where
  "rightmost st t left l =
     (if l > left then case n_type st l of
        None \<Rightarrow> None
      | Some y \<Rightarrow> if y \<noteq> t then rightmost st t left (l - 1) else Some l
      else Some l)"
  by pat_completeness auto
termination by (relation "measure (\<lambda>(st, t, left, l). nat (l - left))") auto

declare rightmost.simps [simp del]

definition stab_binsearch :: "stabs \<Rightarrow> int \<Rightarrow> int \<Rightarrow> u8 \<Rightarrow> u32 \<Rightarrow> (int \<times> int) option" where
  "stab_binsearch st region_left region_right t addr =
     (case bs_loop st t region_left region_right addr region_left region_right False of
        None \<Rightarrow> None
      | Some (left, right, any_matches) \<Rightarrow>
          if \<not> any_matches then Some (left, left - 1)
          else map_option (\<lambda>l. (l, right)) (rightmost st t left right))"

section \<open>What the search finds\<close>

definition matching :: "stabs \<Rightarrow> u8 \<Rightarrow> int \<Rightarrow> int \<Rightarrow> int set" where
  "matching st t a b = {i. a \<le> i \<and> i \<le> b \<and> n_type st i = Some t}"

definition readable :: "stabs \<Rightarrow> int \<Rightarrow> int \<Rightarrow> bool" where
  "readable st a b \<longleftrightarrow> (\<forall>i. a \<le> i \<longrightarrow> i \<le> b \<longrightarrow> n_type st i \<noteq> None \<and> n_value st i \<noteq> None)"

abbreviation value_of :: "stabs \<Rightarrow> int \<Rightarrow> u32" where
  "value_of st i \<equiv> the (n_value st i)"

text \<open>The entries of one type are in the order of their addresses.\<close>

definition ordered :: "stabs \<Rightarrow> u8 \<Rightarrow> int \<Rightarrow> int \<Rightarrow> bool" where
  "ordered st t a b \<longleftrightarrow>
     (\<forall>i \<in> matching st t a b. \<forall>j \<in> matching st t a b. i < j \<longrightarrow> value_of st i < value_of st j)"

lemma matching_finite [simp]: "finite (matching st t a b)"
  by (rule finite_subset [of _ "{a .. b}"]) (auto simp: matching_def)

lemma readable_mono: "readable st a b \<Longrightarrow> a \<le> a' \<Longrightarrow> b' \<le> b \<Longrightarrow> readable st a' b'"
  by (auto simp: readable_def)

lemma readableE:
  assumes "readable st a b" and "a \<le> i" and "i \<le> b"
  obtains y v where "n_type st i = Some y" and "n_value st i = Some v"
  using assms by (auto simp: readable_def)

lemma find_match_spec:
  assumes "readable st l m"
  shows "\<exists>k. find_match st t l m = Some k \<and> k \<le> m \<and> matching st t (k + 1) m = {}
    \<and> (if k < l then matching st t l m = {} \<and> k = min m (l - 1) else k \<in> matching st t l m)"
  using assms
proof (induction st t l m rule: find_match.induct)
  case (1 st t l m)
  show ?case
  proof (cases "m < l")
    case True
    then show ?thesis by (auto simp: find_match.simps [of st t l m] matching_def)
  next
    case False
    then obtain y where y: "n_type st m = Some y" using readableE [OF 1(2), of m] by auto
    show ?thesis
    proof (cases "y = t")
      case True
      then show ?thesis using False y by (auto simp: find_match.simps [of st t l m] matching_def)
    next
      case ne: False
      have step: "find_match st t l m = find_match st t l (m - 1)"
        using False y ne by (simp add: find_match.simps [of st t l m])
      have shrink: "matching st t a m = matching st t a (m - 1)" for a
      proof (rule set_eqI)
        fix i show "i \<in> matching st t a m \<longleftrightarrow> i \<in> matching st t a (m - 1)"
          using y ne by (cases "i = m") (auto simp: matching_def)
      qed
      from 1(1) [OF False y ne readable_mono [OF 1(2)]] obtain k where
        "find_match st t l (m - 1) = Some k" "k \<le> m - 1" "matching st t (k + 1) (m - 1) = {}"
        "if k < l then matching st t l (m - 1) = {} \<and> k = min (m - 1) (l - 1) else k \<in> matching st t l (m - 1)"
        by auto
      then show ?thesis using step False unfolding shrink by (intro exI [of _ k]) (auto split: if_splits)
    qed
  qed
qed

lemma rightmost_spec:
  assumes "readable st left l" and "matching st t (left + 1) l = {}"
  shows "rightmost st t left l = Some (min left l)"
  using assms
proof (induction st t left l rule: rightmost.induct)
  case (1 st t left l)
  show ?case
  proof (cases "left < l")
    case True
    then obtain y where y: "n_type st l = Some y" using readableE [OF 1(2), of l] by auto
    moreover have "y \<noteq> t" using 1(3) True y by (auto simp: matching_def)
    moreover have "matching st t (left + 1) (l - 1) = {}" using 1(3) by (auto simp: matching_def)
    ultimately show ?thesis
      using 1(1) [of y] True readable_mono [OF 1(2), of left "l - 1"] by (simp add: rightmost.simps [of st t left l])
  next
    case False
    then show ?thesis by (simp add: rightmost.simps [of st t left l])
  qed
qed

text \<open>
  The result for an ordered table: the last matching entry not behind the address, up to the
  next matching entry. \<open>bracket\<close> is the region that the comment of the search describes, empty when no
  entry of the type contains the address; \<open>found_region\<close> is the one the code arrives at, which differs
  when all entries of the type lie behind the address.
\<close>

definition bracket :: "stabs \<Rightarrow> u8 \<Rightarrow> int \<Rightarrow> int \<Rightarrow> u32 \<Rightarrow> int \<times> int" where
  "bracket st t a b addr =
     (let before = {i \<in> matching st t a b. value_of st i \<le> addr};
          behind = {i \<in> matching st t a b. addr < value_of st i}
      in if before = {} then (a, a - 1)
         else (Max before, if behind = {} then b else Min behind - 1))"

definition found_region :: "stabs \<Rightarrow> u8 \<Rightarrow> int \<Rightarrow> int \<Rightarrow> u32 \<Rightarrow> int \<times> int" where
  "found_region st t a b addr =
     (let before = {i \<in> matching st t a b. value_of st i \<le> addr};
          behind = {i \<in> matching st t a b. addr < value_of st i};
          right = (if behind = {} then b else Min behind - 1)
      in if matching st t a b = {} then (a, a - 1)
         else (if before = {} then min a right else Max before, right))"

definition bs_inv ::
    "stabs \<Rightarrow> u8 \<Rightarrow> int \<Rightarrow> int \<Rightarrow> u32 \<Rightarrow> int \<Rightarrow> int \<Rightarrow> u32 \<Rightarrow> int \<Rightarrow> int \<Rightarrow> bool \<Rightarrow> bool" where
  "bs_inv st t a b addr0 l r addr left right any_matches \<longleftrightarrow>
     a \<le> l \<and> l \<le> r + 1 \<and> r \<le> b \<and> right = r
     \<and> (\<forall>i \<in> matching st t a b. r < i \<longrightarrow> addr0 < value_of st i)
     \<and> (r < b \<longrightarrow> r + 1 \<in> matching st t a b)
     \<and> (if any_matches then matching st t a b \<noteq> {} else r = b \<and> left = a \<and> matching st t a (l - 1) = {})
     \<and> (left = a \<and> addr = addr0 \<and> matching st t a (l - 1) = {}
        \<or> left \<in> matching st t a b \<and> value_of st left \<le> addr0 \<and> left \<le> l \<and> matching st t (left + 1) (l - 1) = {}
          \<and> (addr = addr0 \<or> addr = addr0 + 1 \<and> value_of st left = addr0))"

lemma less_add_one:
  assumes "(x :: u32) < NOT 0"
  shows "y < x + 1 \<longleftrightarrow> y \<le> x" and "x < x + 1"
proof -
  have "1 + x \<noteq> 0"
  proof
    assume "1 + x = 0"
    then have "x = - 1" by (simp add: eq_neg_iff_add_eq_0 add.commute)
    then show False using assms by simp
  qed
  then have "unat (1 + x) = Suc (unat x)" by (rule unatSuc)
  then have u: "unat (x + 1) = Suc (unat x)" by (simp add: add.commute)
  show "y < x + 1 \<longleftrightarrow> y \<le> x" by (simp add: word_less_nat_alt word_le_nat_alt u less_Suc_eq_le)
  show "x < x + 1" by (simp add: word_less_nat_alt u)
qed

lemma matching_sub: "l \<le> i \<Longrightarrow> i \<in> matching st t c k \<Longrightarrow> a \<le> c \<Longrightarrow> k \<le> b \<Longrightarrow> i \<in> matching st t a b"
  by (auto simp: matching_def)

lemma orderedD: "ordered st t a b \<Longrightarrow> i \<in> matching st t a b \<Longrightarrow> j \<in> matching st t a b \<Longrightarrow> i < j
    \<Longrightarrow> value_of st i < value_of st j"
  by (auto simp: ordered_def)

text \<open>The branches of the loop body keep the invariant.\<close>

lemma bs_skip:
  assumes "bs_inv st t a b addr0 l r addr left right any" and "l \<le> k" "k \<le> r" "matching st t l k = {}"
  shows "bs_inv st t a b addr0 (k + 1) r addr left right any"
proof -
  have a: "a \<le> l" using assms(1) by (simp add: bs_inv_def)
  have "matching st t c k = matching st t c (l - 1)" for c
    using assms(2,4) by (auto simp: matching_def)
  then show ?thesis using assms a unfolding bs_inv_def by auto
qed

lemma bs_before:
  assumes inv: "bs_inv st t a b addr0 l r addr left right any" and ord: "ordered st t a b" and top: "addr0 < NOT 0"
    and m: "m \<in> matching st t l k" "matching st t (m + 1) k = {}" "k \<le> r" and v: "value_of st m < addr"
  shows "bs_inv st t a b addr0 (k + 1) r addr m right True"
proof -
  have lk: "l \<le> m" "m \<le> k" using m(1) by (auto simp: matching_def)
  have ma: "m \<in> matching st t a b" using m(1,3) inv by (auto simp: bs_inv_def matching_def)
  have le: "value_of st m \<le> addr0" using inv v less_add_one(1) [OF top] by (auto simp: bs_inv_def)
  have "addr = addr0 \<or> addr = addr0 + 1 \<and> value_of st m = addr0"
  proof (cases "addr = addr0")
    case False
    then have l: "left \<in> matching st t a b" "left \<le> l" "value_of st left = addr0" "addr = addr0 + 1"
      using inv by (auto simp: bs_inv_def)
    then have "\<not> left < m" using orderedD [OF ord l(1) ma] le by auto
    then have "left = m" using l(2) lk(1) by simp
    then show ?thesis using l(3,4) by simp
  qed simp
  then show ?thesis using inv ma le lk m(2,3) unfolding bs_inv_def by auto
qed

lemma bs_behind:
  assumes inv: "bs_inv st t a b addr0 l r addr left right any" and ord: "ordered st t a b" and top: "addr0 < NOT 0"
    and m: "m \<in> matching st t l r" and v: "addr < value_of st m"
  shows "bs_inv st t a b addr0 l (m - 1) addr left (m - 1) True"
proof -
  have ma: "m \<in> matching st t a b" "l \<le> m" "m \<le> r" using m inv by (auto simp: bs_inv_def matching_def)
  have "addr0 \<le> addr" using inv less_add_one(2) [OF top] by (auto simp: bs_inv_def)
  then have v0: "addr0 < value_of st m" using v by simp
  have "addr0 < value_of st i" if "i \<in> matching st t a b" "m - 1 < i" for i
    using orderedD [OF ord ma(1) that(1)] that(2) v0 by (cases "i = m") auto
  then show ?thesis using inv ma unfolding bs_inv_def by auto
qed

lemma bs_exact:
  assumes inv: "bs_inv st t a b addr0 l r addr left right any"
    and gap: "\<forall>i \<in> matching st t a b. value_of st i \<noteq> addr0 + 1"
    and m: "m \<in> matching st t l r" and v: "value_of st m = addr"
  shows "bs_inv st t a b addr0 m r (addr + 1) m right True"
proof -
  have ma: "m \<in> matching st t a b" "l \<le> m" "m \<le> r" using m inv by (auto simp: bs_inv_def matching_def)
  then have "addr = addr0" using inv gap v by (auto simp: bs_inv_def)
  moreover have "matching st t (m + 1) (m - 1) = {}" by (auto simp: matching_def)
  ultimately show ?thesis using inv ma v unfolding bs_inv_def by auto
qed

lemma bs_loop_spec:
  assumes "readable st a b" and ord: "ordered st t a b" and top: "addr0 < NOT 0"
    and gap: "\<forall>i \<in> matching st t a b. value_of st i \<noteq> addr0 + 1"
    and "bs_inv st t a b addr0 l r addr left right any_matches"
  shows "\<exists>addr' left' right' any'. bs_loop st t l r addr left right any_matches = Some (left', right', any')
    \<and> bs_inv st t a b addr0 (right' + 1) right' addr' left' right' any'"
  using assms
proof (induction st t l r addr left right any_matches rule: bs_loop.induct)
  case (1 st t l r addr left right any)
  note inv = 1(9) and ord = 1(6) and top = 1(7) and gap = 1(8)
  note eq = bs_loop.simps [of st t l r addr left right any]
  show ?case
  proof (cases "r < l")
    case True
    then have "r = right" "l = right + 1" using inv by (auto simp: bs_inv_def)
    then have "bs_inv st t a b addr0 (right + 1) right addr left right any" using inv by simp
    moreover have "bs_loop st t l r addr left right any = Some (left, right, any)" using True by (simp add: eq)
    ultimately show ?thesis by blast
  next
    case False
    define k where "k = (l + r) sdiv 2"
    have k: "l \<le> k" "k \<le> r" using sdiv_mid [of l r] False by (simp_all add: k_def)
    have rd: "readable st l k" by (rule readable_mono [OF 1(5)]) (use inv k in \<open>auto simp: bs_inv_def\<close>)
    obtain m where m: "find_match st t l k = Some m" "m \<le> k" "matching st t (m + 1) k = {}"
      "if m < l then matching st t l k = {} \<and> m = min k (l - 1) else m \<in> matching st t l k"
      using find_match_spec [OF rd] by blast
    show ?thesis
    proof (cases "m < l")
      case T: True
      then have "bs_inv st t a b addr0 (k + 1) r addr left right any" using bs_skip [OF inv k] m(4) by simp
      from 1(1) [OF False k_def m(1) T 1(5) ord top gap this] show ?thesis
        using False m(1) T by (simp add: eq k_def [symmetric] Let_def)
    next
      case F: False
      then have mm: "m \<in> matching st t l k" "m \<in> matching st t l r" using m(4) k by (auto simp: matching_def)
      obtain y v where v: "n_value st m = Some v" using readableE [OF rd, of m] F m(2) by auto
      have vo: "value_of st m = v" using v by simp
      consider "v < addr" | "addr < v" "\<not> v < addr" | "v = addr" by fastforce
      then show ?thesis
      proof cases
        case c: 1
        have "bs_inv st t a b addr0 (k + 1) r addr m right True"
          by (rule bs_before [OF inv ord top mm(1) m(3) k(2)]) (use vo c in simp)
        from 1(2) [OF False k_def m(1) F v c 1(5) ord top gap this] show ?thesis
          using False m(1) F v c by (simp add: eq k_def [symmetric] Let_def)
      next
        case c: 2
        have "bs_inv st t a b addr0 l (m - 1) addr left (m - 1) True"
          by (rule bs_behind [OF inv ord top mm(2)]) (use vo c in simp)
        from 1(3) [OF False k_def m(1) F v c(2,1) 1(5) ord top gap this] show ?thesis
          using False m(1) F v c by (simp add: eq k_def [symmetric] Let_def)
      next
        case c: 3
        then have nl: "\<not> v < addr" "\<not> addr < v" by simp_all
        have "bs_inv st t a b addr0 m r (addr + 1) m right True"
          by (rule bs_exact [OF inv gap mm(2)]) (use vo c in simp)
        from 1(4) [OF False k_def m(1) F v nl 1(5) ord top gap this] show ?thesis
          using False m(1) F v nl by (simp add: eq k_def [symmetric] Let_def)
      qed
    qed
  qed
qed

lemma Min_next:
  assumes "\<forall>i \<in> matching st t a b. P i \<longleftrightarrow> r < i" and "r < b \<longrightarrow> r + 1 \<in> matching st t a b" and "r \<le> b"
  shows "(if {i \<in> matching st t a b. P i} = {} then b else Min {i \<in> matching st t a b. P i} - 1) = r"
proof (cases "r < b")
  case True
  then have "r + 1 \<in> {i \<in> matching st t a b. P i}" using assms by auto
  moreover have "Min {i \<in> matching st t a b. P i} = r + 1"
    by (rule Min_eqI) (use assms True in auto)
  ultimately show ?thesis by auto
next
  case False
  then have "{i \<in> matching st t a b. P i} = {}" using assms by (auto simp: matching_def)
  then show ?thesis using False assms(3) by simp
qed

lemma matching_beyond:
  assumes "matching st t c r = {}" and "i \<in> matching st t a b" and "c \<le> i"
  shows "r < i"
proof (rule ccontr)
  assume "\<not> r < i"
  then have "i \<in> matching st t c r" using assms(2,3) by (simp add: matching_def)
  then show False using assms(1) by simp
qed

theorem stab_binsearch_spec:
  assumes rd: "readable st a b" and ord: "ordered st t a b" and top: "addr < NOT 0"
    and gap: "\<forall>i \<in> matching st t a b. value_of st i \<noteq> addr + 1"
  shows "stab_binsearch st a b t addr = Some (found_region st t a b addr)"
proof (cases "a \<le> b + 1")
  case False
  then have "matching st t a b = {}" by (auto simp: matching_def)
  then show ?thesis using False by (simp add: stab_binsearch_def bs_loop.simps [of st t a b] found_region_def)
next
  case True
  let ?M = "matching st t a b"
  have "bs_inv st t a b addr a b addr a b False"
    using True by (auto simp: bs_inv_def) (auto simp: matching_def)
  from bs_loop_spec [OF rd ord top gap this] obtain addr' left r any where
    run: "bs_loop st t a b addr a b False = Some (left, r, any)"
    and inv: "bs_inv st t a b addr (r + 1) r addr' left r any" by blast
  show ?thesis
  proof (cases any)
    case False
    then have "?M = {}" "left = a" using inv by (auto simp: bs_inv_def)
    then show ?thesis using run False by (simp add: stab_binsearch_def found_region_def)
  next
    case any: True
    then have ne: "?M \<noteq> {}" using inv by (simp add: bs_inv_def)
    have r: "r \<le> b" "r < b \<longrightarrow> r + 1 \<in> ?M" "\<forall>i \<in> ?M. r < i \<longrightarrow> addr < value_of st i" "a \<le> r + 1"
      using inv by (auto simp: bs_inv_def)
    have rr: "readable st left r" if "a \<le> left" by (rule readable_mono [OF rd that r(1)])
    from inv consider "left = a" "matching st t a r = {}"
      | "left \<in> ?M" "value_of st left \<le> addr" "matching st t (left + 1) r = {}" by (auto simp: bs_inv_def)
    then show ?thesis
    proof cases
      case 1
      have all: "r < i" if "i \<in> ?M" for i using matching_beyond [OF 1(2) that] that by (simp add: matching_def)
      then have gt: "\<forall>i \<in> ?M. addr < value_of st i \<longleftrightarrow> r < i" using r(3) by blast
      then have none: "{i \<in> ?M. value_of st i \<le> addr} = {}" using all by force
      have "rightmost st t left r = Some (min a r)"
        using rightmost_spec [of st left r t] rr 1 by (auto simp: matching_def)
      then show ?thesis
        using run any ne none Min_next [OF gt r(2,1)] by (simp add: stab_binsearch_def found_region_def Let_def)
    next
      case 2
      have lr: "left \<le> r" using 2(1,2) r(3) by force
      have gt: "\<forall>i \<in> ?M. addr < value_of st i \<longleftrightarrow> r < i"
      proof (intro ballI iffI)
        fix i assume i: "i \<in> ?M" "addr < value_of st i"
        have "\<not> i < left" using orderedD [OF ord i(1) 2(1)] i(2) 2(2) by auto
        moreover have "i \<noteq> left" using i(2) 2(2) by auto
        ultimately show "r < i" using matching_beyond [OF 2(3) i(1)] by simp
      qed (use r(3) in blast)
      have "Max {i \<in> ?M. value_of st i \<le> addr} = left"
      proof (rule Max_eqI)
        fix i assume "i \<in> {i \<in> ?M. value_of st i \<le> addr}"
        then have "i \<in> ?M" "i \<le> r" using gt by force+
        then show "i \<le> left" using matching_beyond [OF 2(3), of i a b] by force
      qed (use 2 in auto)
      moreover have "{i \<in> ?M. value_of st i \<le> addr} \<noteq> {}" using 2 by blast
      moreover have "rightmost st t left r = Some left"
        using rightmost_spec [of st left r t] rr 2 lr by (auto simp: matching_def)
      ultimately show ?thesis
        using run any ne Min_next [OF gt r(2,1)] by (simp add: stab_binsearch_def found_region_def Let_def) blast
    qed
  qed
qed

text \<open>The documented result, when an entry of the type contains the address or there is none at all.\<close>

lemma found_region_bracket:
  assumes "matching st t a b = {} \<or> (\<exists>i \<in> matching st t a b. value_of st i \<le> addr)"
  shows "found_region st t a b addr = bracket st t a b addr"
  using assms by (auto simp: found_region_def bracket_def Let_def)

theorem stab_binsearch_bracket:
  assumes "readable st a b" and "ordered st t a b" and "addr < NOT 0"
    and "\<forall>i \<in> matching st t a b. value_of st i \<noteq> addr + 1"
    and "matching st t a b = {} \<or> (\<exists>i \<in> matching st t a b. value_of st i \<le> addr)"
  shows "stab_binsearch st a b t addr = Some (bracket st t a b addr)"
  using stab_binsearch_spec [OF assms(1-4)] found_region_bracket [OF assms(5)] by simp

section \<open>Information about an address\<close>

text \<open>The addresses the linker gives to the kernel's own tables.\<close>

record stab_syms =
  STAB_BEGIN :: u32
  STAB_END :: u32
  STABSTR_BEGIN :: u32
  STABSTR_END :: u32

text \<open>A name is the literal \<^verbatim>\<open>"<unknown>"\<close> or a pointer into the string table.\<close>

datatype cname = Unknown | Pointer u32

record Eipdebuginfo =
  eip_file :: cname
  eip_line :: int
  eip_fn_name :: cname
  eip_fn_namelen :: int
  eip_fn_addr :: u32
  eip_fn_narg :: int

definition no_info :: "u32 \<Rightarrow> Eipdebuginfo" where
  "no_info addr = \<lparr>eip_file = Unknown, eip_line = 0, eip_fn_name = Unknown, eip_fn_namelen = 9,
     eip_fn_addr = addr, eip_fn_narg = 0\<rparr>"

text \<open>
  The table pointers, or \<open>None\<close> when the user's own description of them is not accessible.
  The lengths checked are numbers of elements, as the pointer differences in the code are.
\<close>

definition debuginfo_tables :: "stab_syms \<Rightarrow> u32 \<Rightarrow> (u32 \<times> u32 \<times> u32 \<times> u32) option kernel" where
  "debuginfo_tables k addr =
     (if ULIM \<le> addr then ret (Some (STAB_BEGIN k, STAB_END k, STABSTR_BEGIN k, STABSTR_END k))
      else bindM get_curenv (\<lambda>c.
        bindM (user_mem_check c USTABDATA 16 (PTE_P OR PTE_U)) (\<lambda>r. if is_neg r then ret None
        else bindM (vload32 USTABDATA) (\<lambda>stabs. bindM (vload32 (USTABDATA + 4)) (\<lambda>stab_end.
          bindM (vload32 (USTABDATA + 8)) (\<lambda>stabstr. bindM (vload32 (USTABDATA + 12)) (\<lambda>stabstr_end.
          bindM (user_mem_check c stabs (of_int (sint (stab_end - stabs) sdiv STAB_SIZE)) (PTE_P OR PTE_U)) (\<lambda>r.
            if is_neg r then ret None
            else bindM (user_mem_check c stabstr (stabstr_end - stabstr) (PTE_P OR PTE_U)) (\<lambda>r.
              if is_neg r then ret None else ret (Some (stabs, stab_end, stabstr, stabstr_end)))))))))))"

text \<open>
  \<^verbatim>\<open>strfind(name, ':') - name\<close>: the bytes up to the end of the table are enough, since
  the last one has been found to be the terminator.
\<close>

fun colon_from :: "kstate \<Rightarrow> nat \<Rightarrow> u32 \<Rightarrow> int option" where
  "colon_from s 0 p = Some 0"
| "colon_from s (Suc n) p = Option.bind (peek (vload8 p) s) (\<lambda>b.
     if b = 0 \<or> b = 0x3A then Some 0 else map_option (\<lambda>k. k + 1) (colon_from s n (p + 1)))"

definition name_len :: "kstate \<Rightarrow> u32 \<Rightarrow> cname \<Rightarrow> int option" where
  "name_len s stabstr_end name = (case name of
     Unknown \<Rightarrow> Some 9
   | Pointer p \<Rightarrow> colon_from s (unat (stabstr_end - p)) p)"

function file_scan :: "stabs \<Rightarrow> int \<Rightarrow> int \<Rightarrow> int option" where
  "file_scan st lfile lline =
     (if lline < lfile then Some lline
      else Option.bind (n_type st lline) (\<lambda>y.
        if y = N_SOL then Some lline
        else if y \<noteq> N_SO then file_scan st lfile (lline - 1)
        else Option.bind (n_value st lline) (\<lambda>v.
          if v \<noteq> 0 then Some lline else file_scan st lfile (lline - 1))))"
  by pat_completeness auto
termination by (relation "measure (\<lambda>(st, lfile, lline). nat (lline - lfile + 1))") auto

function count_params :: "stabs \<Rightarrow> int \<Rightarrow> int \<Rightarrow> int option" where
  "count_params st rfun lline =
     (if lline < rfun then Option.bind (n_type st lline) (\<lambda>y.
        if y = N_PSYM then map_option (\<lambda>k. k + 1) (count_params st rfun (lline + 1)) else Some 0)
      else Some 0)"
  by pat_completeness auto
termination by (relation "measure (\<lambda>(st, rfun, lline). nat (rfun - lline))") auto

declare file_scan.simps [simp del] count_params.simps [simp del]

text \<open>A name of the string table, if its offset is inside.\<close>

definition stab_name :: "stabs \<Rightarrow> u32 \<Rightarrow> u32 \<Rightarrow> int \<Rightarrow> cname \<Rightarrow> cname option" where
  "stab_name st stabstr stabstr_end i old = map_option (\<lambda>x.
     if x < stabstr_end - stabstr then Pointer (stabstr + x) else old) (n_strx st i)"

definition eip_function :: "stabs \<Rightarrow> u32 \<Rightarrow> u32 \<Rightarrow> u32 \<Rightarrow> int \<times> int \<Rightarrow> int \<times> int \<Rightarrow> Eipdebuginfo
    \<Rightarrow> (Eipdebuginfo \<times> u32 \<times> int \<times> int) option" where
  "eip_function st stabstr stabstr_end addr files funs info =
     (case funs of (lfun, rfun) \<Rightarrow>
      if lfun \<le> rfun then
        Option.bind (stab_name st stabstr stabstr_end lfun (eip_fn_name info)) (\<lambda>name.
        Option.bind (n_value st lfun) (\<lambda>v.
          Some (info\<lparr>eip_fn_name := name, eip_fn_addr := v\<rparr>, addr - v, lfun, rfun)))
      else Some (info\<lparr>eip_fn_addr := addr\<rparr>, addr, files))"

definition eip_file_line :: "stabs \<Rightarrow> u32 \<Rightarrow> u32 \<Rightarrow> int \<Rightarrow> int \<times> int \<Rightarrow> int \<Rightarrow> Eipdebuginfo
    \<Rightarrow> (i32 \<times> Eipdebuginfo) option" where
  "eip_file_line st stabstr stabstr_end lfile funs lline info =
     Option.bind (n_desc st lline) (\<lambda>d.
     Option.bind (file_scan st lfile lline) (\<lambda>k.
     Option.bind (if lfile \<le> k then stab_name st stabstr stabstr_end k (eip_file info) else Some (eip_file info)) (\<lambda>file.
     Option.bind (case funs of (lfun, rfun) \<Rightarrow> if lfun < rfun then count_params st rfun (lfun + 1) else Some 0) (\<lambda>narg.
       Some (0, info\<lparr>eip_line := uint d, eip_file := file, eip_fn_narg := eip_fn_narg info + narg\<rparr>)))))"

definition eip_lines :: "kstate \<Rightarrow> stabs \<Rightarrow> u32 \<Rightarrow> u32 \<Rightarrow> int \<Rightarrow> int \<times> int \<Rightarrow> Eipdebuginfo \<Rightarrow> u32 \<Rightarrow> int \<times> int
    \<Rightarrow> (i32 \<times> Eipdebuginfo) option" where
  "eip_lines s st stabstr stabstr_end lfile funs info addr lines =
     Option.bind (name_len s stabstr_end (eip_fn_name info)) (\<lambda>len.
     Option.bind (stab_binsearch st (fst lines) (snd lines) N_SLINE addr) (\<lambda>(lline, rline).
       let info = info\<lparr>eip_fn_namelen := len\<rparr> in
       if lline \<le> rline then eip_file_line st stabstr stabstr_end lfile funs lline info
       else Some (- 1, info)))"

definition debuginfo_search :: "kstate \<Rightarrow> u32 \<Rightarrow> u32 \<Rightarrow> u32 \<Rightarrow> u32 \<Rightarrow> u32 \<Rightarrow> (i32 \<times> Eipdebuginfo) option" where
  "debuginfo_search s stabs stab_end stabstr stabstr_end addr =
     (let info = no_info addr; st = stabs_at s stabs in
      if stabstr_end \<le> stabstr then Some (- 1, info)
      else Option.bind (peek (vload8 (stabstr_end - 1)) s) (\<lambda>b.
        if b \<noteq> 0 then Some (- 1, info)
        else Option.bind (stab_binsearch st 0 (sint (stab_end - stabs) sdiv STAB_SIZE - 1) N_SO addr) (\<lambda>files.
          if fst files = 0 then Some (- 1, info)
          else Option.bind (stab_binsearch st (fst files) (snd files) N_FUN addr) (\<lambda>funs.
            Option.bind (eip_function st stabstr stabstr_end addr files funs info) (\<lambda>(info, addr, lines).
              eip_lines s st stabstr stabstr_end (fst files) funs info addr lines)))))"

definition debuginfo_eip :: "stab_syms \<Rightarrow> u32 \<Rightarrow> (i32 \<times> Eipdebuginfo) kernel" where
  "debuginfo_eip k addr = bindM (debuginfo_tables k addr) (\<lambda>r. case r of
     None \<Rightarrow> ret (- 1, no_info addr)
   | Some (stabs, stab_end, stabstr, stabstr_end) \<Rightarrow> (\<lambda>s.
       case debuginfo_search s stabs stab_end stabstr stabstr_end addr of
         None \<Rightarrow> panic ''page fault in kernel'' s
       | Some x \<Rightarrow> (Ret x, s)))"

section \<open>The function found\<close>

lemma found_region_bounds:
  assumes "found_region st t a b addr = (l, r)"
  shows "r \<le> b \<or> r = a - 1" and "{i \<in> matching st t a b. value_of st i \<le> addr} \<noteq> {} \<Longrightarrow>
    l = Max {i \<in> matching st t a b. value_of st i \<le> addr} \<and> a \<le> l"
proof -
  have "Min {i \<in> matching st t a b. addr < value_of st i} - 1 \<le> b"
    if "{i \<in> matching st t a b. addr < value_of st i} \<noteq> {}"
  proof -
    have "Min {i \<in> matching st t a b. addr < value_of st i} \<in> {i \<in> matching st t a b. addr < value_of st i}"
      by (rule Min_in [OF _ that]) simp
    then show ?thesis by (simp add: matching_def)
  qed
  then show "r \<le> b \<or> r = a - 1"
    using assms by (auto simp: found_region_def Let_def split: if_splits)
  show "l = Max {i \<in> matching st t a b. value_of st i \<le> addr} \<and> a \<le> l"
    if ne: "{i \<in> matching st t a b. value_of st i \<le> addr} \<noteq> {}"
  proof -
    have "Max {i \<in> matching st t a b. value_of st i \<le> addr} \<in> {i \<in> matching st t a b. value_of st i \<le> addr}"
      by (rule Max_in [OF _ ne]) simp
    then have "a \<le> Max {i \<in> matching st t a b. value_of st i \<le> addr}" by (simp add: matching_def)
    moreover have nz: "matching st t a b \<noteq> {}" using ne by blast
    have "fst (found_region st t a b addr) = Max {i \<in> matching st t a b. value_of st i \<le> addr}"
      unfolding found_region_def Let_def by (simp only: nz ne if_False fst_conv)
    ultimately show ?thesis using assms by simp
  qed
qed

lemma eip_file_line_addr: "eip_file_line st p q lfile funs lline info = Some (v, info') \<Longrightarrow> eip_fn_addr info' = eip_fn_addr info"
  by (auto simp: eip_file_line_def Option.bind_eq_Some_conv)

lemma eip_lines_addr:
  assumes "eip_lines s st p q lfile funs info addr lines = Some (v, info')"
  shows "eip_fn_addr info' = eip_fn_addr info"
  using assms by (auto simp: eip_lines_def Option.bind_eq_Some_conv Let_def split: if_splits dest!: eip_file_line_addr)

theorem debuginfo_function:
  fixes s :: kstate and stabs stab_end :: u32
  defines "st \<equiv> stabs_at s stabs" and "n \<equiv> sint (stab_end - stabs) sdiv STAB_SIZE"
  assumes str: "stabstr < stabstr_end" "peek (vload8 (stabstr_end - 1)) s = Some 0"
    and rd: "readable st 0 (n - 1)" and top: "addr < NOT 0"
    and so: "ordered st N_SO 0 (n - 1)" "\<forall>i \<in> matching st N_SO 0 (n - 1). value_of st i \<noteq> addr + 1"
    and fl: "found_region st N_SO 0 (n - 1) addr = (lfile, rfile)" "0 < lfile"
    and fn: "ordered st N_FUN lfile rfile" "\<forall>i \<in> matching st N_FUN lfile rfile. value_of st i \<noteq> addr + 1"
      "f \<in> matching st N_FUN lfile rfile" "value_of st f \<le> addr"
    and run: "debuginfo_search s stabs stab_end stabstr stabstr_end addr = Some (r, info)"
  shows "\<exists>k \<in> matching st N_FUN lfile rfile. eip_fn_addr info = value_of st k \<and> value_of st f \<le> value_of st k
    \<and> value_of st k \<le> addr"
proof -
  let ?B = "{i \<in> matching st N_FUN lfile rfile. value_of st i \<le> addr}"
  have rd': "readable st lfile rfile"
    using readable_mono [OF rd, of lfile rfile] found_region_bounds(1) [OF fl(1)] fl(2) by (auto simp: readable_def)
  obtain lfun rfun where br: "found_region st N_FUN lfile rfile addr = (lfun, rfun)" by (cases "found_region st N_FUN lfile rfile addr")
  have s1: "stab_binsearch st 0 (n - 1) N_SO addr = Some (lfile, rfile)"
    using stab_binsearch_spec [OF rd so(1) top so(2)] fl(1) by simp
  have s2: "stab_binsearch st lfile rfile N_FUN addr = Some (lfun, rfun)"
    using stab_binsearch_spec [OF rd' fn(1) top fn(2)] br by simp
  have ne: "?B \<noteq> {}" using fn(3,4) by blast
  have lf: "lfun = Max ?B" using found_region_bounds(2) [OF br ne] by simp
  have "Max ?B \<in> ?B" by (rule Max_in [OF _ ne]) simp
  then have k: "lfun \<in> matching st N_FUN lfile rfile" "value_of st lfun \<le> addr" by (simp_all add: lf)
  have "f \<le> lfun" unfolding lf by (rule Max_ge) (use fn(3,4) in auto)
  then have le: "value_of st f \<le> value_of st lfun"
    using orderedD [OF fn(1) fn(3) k(1)] by (cases "f = lfun") auto
  have lr: "lfun \<le> rfun"
  proof -
    let ?A = "{i \<in> matching st N_FUN lfile rfile. addr < value_of st i}"
    have "lfun < Min ?A" if "?A \<noteq> {}"
    proof -
      have "Min ?A \<in> ?A" by (rule Min_in [OF _ that]) simp
      then have m: "Min ?A \<in> matching st N_FUN lfile rfile" "addr < value_of st (Min ?A)" by simp_all
      have "\<not> Min ?A < lfun" using orderedD [OF fn(1) m(1) k(1)] m(2) k(2) by auto
      moreover have "Min ?A \<noteq> lfun" using m(2) k(2) by auto
      ultimately show ?thesis by simp
    qed
    moreover have "lfun \<le> rfile" using k(1) by (simp add: matching_def)
    moreover have "rfun = (if ?A = {} then rfile else Min ?A - 1)"
      using br fn(3) by (auto simp: found_region_def Let_def split: if_splits)
    ultimately show ?thesis by auto
  qed
  have "eip_fn_addr info = value_of st lfun"
  proof -
    have "Option.bind (eip_function st stabstr stabstr_end addr (lfile, rfile) (lfun, rfun) (no_info addr))
        (\<lambda>(info, addr, lines). eip_lines s st stabstr stabstr_end lfile (lfun, rfun) info addr lines) = Some (r, info)"
      using run [unfolded debuginfo_search_def Let_def, folded st_def n_def] str(2) s1 s2 fl(2) str(1) by (simp add: not_le [symmetric])
    then show ?thesis
      using lr by (auto simp: eip_function_def Option.bind_eq_Some_conv dest!: eip_lines_addr)
  qed
  then show ?thesis using k le by blast
qed

section \<open>An example\<close>

text \<open>The table of \<^verbatim>\<open>N_SO\<close> entries that the comment of the search gives, with line entries between them.\<close>

definition so_addr :: "int \<Rightarrow> u32" where
  "so_addr i = (if i = 0 then 0xF0100000 else if i = 13 then 0xF0100040 else if i = 117 then 0xF0100176
     else if i = 118 then 0xF0100178 else if i = 555 then 0xF0100652 else if i = 556 then 0xF0100654
     else if i = 657 then 0xF0100849 else 0)"

definition so_table :: stabs where
  "so_table = \<lparr>n_strx = (\<lambda>i. Some 0), n_type = (\<lambda>i. Some (if so_addr i = 0 then N_SLINE else N_SO)),
     n_desc = (\<lambda>i. Some 0), n_value = (\<lambda>i. Some (so_addr i))\<rparr>"

lemma so_matching: "matching so_table N_SO 0 657 = {0, 13, 117, 118, 555, 556, 657}"
  by (auto simp: matching_def so_table_def so_addr_def N_SO_def N_SLINE_def split: if_splits)

lemma so_value: "value_of so_table i = so_addr i"
  by (simp add: so_table_def)

lemma so_table_facts:
  "readable so_table 0 657" "ordered so_table N_SO 0 657"
  "\<forall>i \<in> matching so_table N_SO 0 657. value_of so_table i \<noteq> 0xF0100184 + 1"
  "bracket so_table N_SO 0 657 0xF0100184 = (118, 554)"
  "\<exists>i \<in> matching so_table N_SO 0 657. value_of so_table i \<le> 0xF0100184"
proof -
  show "\<exists>i \<in> matching so_table N_SO 0 657. value_of so_table i \<le> 0xF0100184"
    by (simp add: so_matching so_value so_addr_def)
  show "readable so_table 0 657" by (simp add: readable_def so_table_def)
  show "ordered so_table N_SO 0 657" by (simp add: ordered_def so_matching so_value so_addr_def)
  show "\<forall>i \<in> matching so_table N_SO 0 657. value_of so_table i \<noteq> 0xF0100184 + 1"
    by (simp add: so_matching so_value so_addr_def)
  have "{i \<in> matching so_table N_SO 0 657. value_of so_table i \<le> 0xF0100184} = {0, 13, 117, 118}"
    "{i \<in> matching so_table N_SO 0 657. 0xF0100184 < value_of so_table i} = {555, 556, 657}"
    by (auto simp: so_matching so_value so_addr_def)
  then show "bracket so_table N_SO 0 657 0xF0100184 = (118, 554)"
    by (simp add: bracket_def Let_def)
qed

text \<open>
  Adjacent addresses: after an exact match the search goes on for the next address, so of two
  entries one byte apart it finds the second one for the address of the first.
\<close>

definition adjacent_table :: stabs where
  "adjacent_table = \<lparr>n_strx = (\<lambda>i. Some 0), n_type = (\<lambda>i. Some N_FUN), n_desc = (\<lambda>i. Some 0),
     n_value = (\<lambda>i. Some (if i = 0 then 0x1000 else 0x1001))\<rparr>"

lemma adjacent_entries_confused: "stab_binsearch adjacent_table 0 1 N_FUN 0x1000 = Some (1, 1)"
  by code_simp

text \<open>
  An address before the first entry of its type gives a region to the left of the searched one,
  which does not look empty.
\<close>

lemma before_first_entry: "stab_binsearch adjacent_table 0 1 N_FUN 0x500 = Some (- 1, - 1)"
  by code_simp

end
