(* ===== verification/Jos_Line.thy ===== *)
theory Jos_Line
  imports Jos_CString
begin

text \<open>
  Command lines: the line editor \<^verbatim>\<open>lib/readline.c\<close> and the splitting of a line into words in
  the kernel monitor \<^verbatim>\<open>kern/monitor.c\<close>. The typed characters are a list of the results of
  \<^verbatim>\<open>getchar\<close>, consumed from the front; memory is a function from addresses to bytes.
\<close>

section \<open>Reading a line\<close>

definition BUFLEN :: nat where "BUFLEN = 1024"

datatype line_end = Waiting | ReadError i32 | Line

record line =
  line_end :: line_end
  line_rest :: "i32 list"
  line_mem :: bmem
  line_echo :: "i32 list"

text \<open>
  The loop at \<open>i\<close> characters, \<^verbatim>\<open>buf\<close> at address \<open>b\<close>; \<open>echo\<close> collects
  what \<^verbatim>\<open>cputchar\<close> gets. With no more input the call is still waiting.
\<close>

fun readline_loop :: "u32 \<Rightarrow> i32 list \<Rightarrow> nat \<Rightarrow> bmem \<Rightarrow> i32 list \<Rightarrow> line" where
  "readline_loop b [] i m echo = \<lparr>line_end = Waiting, line_rest = [], line_mem = m, line_echo = echo\<rparr>"
| "readline_loop b (c # cs) i m echo =
     (if sint c < 0 then \<lparr>line_end = ReadError c, line_rest = cs, line_mem = m, line_echo = echo\<rparr>
      else if (c = 0x08 \<or> c = 0x7F) \<and> 0 < i then readline_loop b cs (i - 1) m (echo @ [0x08])
      else if 0x20 \<le> sint c \<and> i < BUFLEN - 1 then
        readline_loop b cs (i + 1) (m(b + of_nat i := ucast c)) (echo @ [c])
      else if c = 0x0A \<or> c = 0x0D then
        \<lparr>line_end = Line, line_rest = cs, line_mem = m(b + of_nat i := 0), line_echo = echo @ [0x0A]\<rparr>
      else readline_loop b cs i m echo)"

definition readline :: "u32 \<Rightarrow> i32 list option \<Rightarrow> i32 list \<Rightarrow> bmem \<Rightarrow> line" where
  "readline b prompt input m = readline_loop b input 0 m (case prompt of None \<Rightarrow> [] | Some p \<Rightarrow> p)"

text \<open>
  The reference: the text a line editor shows. A deletion takes away the last character, any other
  printable character is appended while there is room.
\<close>

definition edit :: "u8 list \<Rightarrow> i32 \<Rightarrow> u8 list" where
  "edit xs c = (if (c = 0x08 \<or> c = 0x7F) \<and> xs \<noteq> [] then butlast xs
     else if 0x20 \<le> sint c \<and> length xs < 1023 then xs @ [ucast c] else xs)"

definition edited :: "i32 list \<Rightarrow> u8 list" where
  "edited = foldl edit []"

definition line_char :: "i32 \<Rightarrow> bool" where
  "line_char c \<longleftrightarrow> 0 \<le> sint c \<and> sint c < 256 \<and> c \<noteq> 0x0A \<and> c \<noteq> 0x0D"

lemma length_edit: "length xs \<le> 1023 \<Longrightarrow> length (edit xs c) \<le> 1023"
  by (auto simp: edit_def)

lemma of_nat_offset: "i < 1024 \<Longrightarrow> j < 1024 \<Longrightarrow> (b :: u32) + of_nat i = b + of_nat j \<longleftrightarrow> i = j"
proof -
  assume "i < 1024" "j < 1024"
  then have "of_nat i = (of_nat j :: u32) \<longleftrightarrow> i = j" by (simp add: word_unat_eq_iff unat_of_nat)
  then show "(b :: u32) + of_nat i = b + of_nat j \<longleftrightarrow> i = j" by simp
qed

text \<open>The buffer holds the edited text so far, and nothing else has been written.\<close>

definition holds :: "u32 \<Rightarrow> bmem \<Rightarrow> bmem \<Rightarrow> u8 list \<Rightarrow> bool" where
  "holds b m0 m xs \<longleftrightarrow> length xs \<le> 1023 \<and> (\<forall>i < length xs. m (b + of_nat i) = xs ! i)
     \<and> 0 \<notin> set xs \<and> (\<forall>a. 1024 \<le> unat (a - b) \<longrightarrow> m a = m0 a)"

lemma holds_delete: "holds b m0 m xs \<Longrightarrow> holds b m0 m (butlast xs)"
  by (auto simp: holds_def nth_butlast dest: in_set_butlastD)

lemma offset_inside: "i < 1024 \<Longrightarrow> unat ((b :: u32) + of_nat i - b) = i"
  by (simp add: unat_of_nat)

lemma holds_insert:
  assumes "holds b m0 m xs" and "length xs < 1023" and "x \<noteq> 0"
  shows "holds b m0 (m(b + of_nat (length xs) := x)) (xs @ [x])"
  using assms of_nat_offset [of _ "length xs" b] offset_inside [of "length xs" b]
  by (auto simp: holds_def nth_append less_Suc_eq)

lemma printable_byte: "line_char c \<Longrightarrow> 0x20 \<le> sint c \<Longrightarrow> (ucast c :: u8) \<noteq> 0"
proof -
  assume c: "line_char c" "0x20 \<le> sint c"
  have eq: "(ucast c :: u8) = word_of_int (sint c)"
    by (rule bit_word_eqI) (simp add: bit_ucast_iff bit_word_of_int_iff bit_sint_iff bit_signed_iff)
  have "uint (word_of_int (sint c) :: u8) = sint c"
    unfolding uint_word_of_int using c by (simp add: line_char_def)
  then show "(ucast c :: u8) \<noteq> 0" using c(2) unfolding eq by auto
qed

theorem readline_edits:
  assumes "holds b m0 m xs" and "\<forall>c \<in> set cs. line_char c" and "e = 0x0A \<or> e = 0x0D"
  defines "ys \<equiv> foldl edit xs cs"
  shows "\<exists>m' echo'. readline_loop b (cs @ e # rest) (length xs) m echo
      = \<lparr>line_end = Line, line_rest = rest, line_mem = m', line_echo = echo'\<rparr>
    \<and> cstr m' b ys \<and> length ys \<le> 1023 \<and> (\<forall>a. 1024 \<le> unat (a - b) \<longrightarrow> m' a = m0 a)"
  using assms(1,2) unfolding ys_def
proof (induction cs arbitrary: xs m echo)
  case Nil
  have ne: "\<not> sint e < 0" "\<not> 0x20 \<le> sint e" "\<not> (e = 0x08 \<or> e = 0x7F)" using assms(3) by auto
  have h: "holds b m0 m xs" by (rule Nil(1))
  have "cstr (m(b + of_nat (length xs) := 0)) b xs"
    using h of_nat_offset [of _ "length xs" b] by (auto simp: cstr_iff holds_def in_set_conv_nth)
  then show ?case using ne h assms(3) offset_inside [of "length xs" b] by (auto simp: holds_def)
next
  case (Cons c cs)
  have lc: "line_char c" "\<forall>c \<in> set cs. line_char c" using Cons.prems(2) by auto
  have nn: "\<not> sint c < 0" "c \<noteq> 0x0A" "c \<noteq> 0x0D" using lc(1) by (auto simp: line_char_def)
  consider "(c = 0x08 \<or> c = 0x7F) \<and> xs \<noteq> []" | "\<not> ((c = 0x08 \<or> c = 0x7F) \<and> xs \<noteq> [])" "0x20 \<le> sint c" "length xs < 1023"
    | "\<not> ((c = 0x08 \<or> c = 0x7F) \<and> xs \<noteq> [])" "\<not> (0x20 \<le> sint c \<and> length xs < 1023)" by blast
  then show ?case
  proof cases
    case 1
    then have "edit xs c = butlast xs" by (simp add: edit_def)
    then show ?thesis
      using Cons.IH [OF holds_delete [OF Cons.prems(1)] lc(2), of "echo @ [0x08]"] nn 1 by simp
  next
    case 2
    then have ed: "edit xs c = xs @ [ucast c]" by (auto simp: edit_def)
    have st: "readline_loop b ((c # cs) @ e # rest) (length xs) m echo
        = readline_loop b (cs @ e # rest) (length (xs @ [ucast c])) (m(b + of_nat (length xs) := ucast c)) (echo @ [c])"
      using 2 nn by (auto simp: BUFLEN_def)
    show ?thesis unfolding st foldl_Cons ed
      using Cons.IH [OF holds_insert [OF Cons.prems(1) 2(3) printable_byte [OF lc(1) 2(2)]] lc(2), of "echo @ [c]"] by blast
  next
    case 3
    then have "edit xs c = xs" by (auto simp: edit_def)
    moreover have "readline_loop b ((c # cs) @ e # rest) (length xs) m echo = readline_loop b (cs @ e # rest) (length xs) m echo"
      using 3 nn by (auto simp: BUFLEN_def)
    ultimately show ?thesis using Cons.IH [OF Cons.prems(1) lc(2), of echo] by simp
  qed
qed

corollary readline_line:
  assumes "\<forall>c \<in> set cs. line_char c" and "e = 0x0A \<or> e = 0x0D"
  shows "\<exists>l. readline b prompt (cs @ e # rest) m = l \<and> line_end l = Line \<and> line_rest l = rest
    \<and> cstr (line_mem l) b (edited cs) \<and> length (edited cs) \<le> 1023
    \<and> (\<forall>a. 1024 \<le> unat (a - b) \<longrightarrow> line_mem l a = m a)"
  using readline_edits [of b m m "[]" cs e rest "case prompt of None \<Rightarrow> [] | Some p \<Rightarrow> p"] assms
  by (auto simp: readline_def edited_def holds_def)

section \<open>Splitting a line into words\<close>

definition MAXARGS :: nat where "MAXARGS = 16"

text \<open>\<^verbatim>\<open>strchr(WHITESPACE, c)\<close> for a character other than the terminator.\<close>

definition is_white :: "u8 \<Rightarrow> bool" where
  "is_white c \<longleftrightarrow> c = 0x09 \<or> c = 0x0D \<or> c = 0x0A \<or> c = 0x20"

partial_function (option) gobble :: "bmem \<Rightarrow> u32 \<Rightarrow> (bmem \<times> u32) option" where
  "gobble m p = (if m p \<noteq> 0 \<and> is_white (m p) then gobble (m(p := 0)) (p + 1) else Some (m, p))"

partial_function (option) scan_past :: "bmem \<Rightarrow> u32 \<Rightarrow> u32 option" where
  "scan_past m p = (if m p \<noteq> 0 \<and> \<not> is_white (m p) then scan_past m (p + 1) else Some p)"

text \<open>The words found, or \<open>None\<close> in the inner option when there are too many.\<close>

partial_function (option) parse_args :: "bmem \<Rightarrow> u32 \<Rightarrow> u32 list \<Rightarrow> (bmem \<times> u32 list option) option" where
  "parse_args m p argv =
     (case gobble m p of
        None \<Rightarrow> None
      | Some (m, p) \<Rightarrow>
          if m p = 0 then Some (m, Some argv)
          else if length argv = MAXARGS - 1 then Some (m, None)
          else case scan_past m p of
            None \<Rightarrow> None
          | Some q \<Rightarrow> parse_args m q (argv @ [p]))"

datatype mon_cmd = mon_help | mon_kerninfo | mon_backtrace

definition ascii_bytes :: "string \<Rightarrow> u8 list" where
  "ascii_bytes s = map (\<lambda>c. of_nat (of_char c)) s"

definition commands :: "(string \<times> mon_cmd) list" where
  "commands = [(''help'', mon_help), (''kerninfo'', mon_kerninfo), (''backtrace'', mon_backtrace)]"

text \<open>
  What the monitor does with a line: nothing, complain, or call a command with its arguments. Every
  command returns 0, so the monitor never leaves its loop; what the commands print is left out. A
  command table in memory is the list of the addresses of the names, each with its function.
\<close>

datatype mon_action = Empty | TooMany | Unknown_Command u32 | Invoke mon_cmd "u32 list"

fun command_of :: "bmem \<Rightarrow> u32 \<Rightarrow> (u32 \<times> mon_cmd) list \<Rightarrow> mon_cmd option option" where
  "command_of m p [] = Some None"
| "command_of m p ((name, f) # cs) =
     (case strcmp m p name of
        None \<Rightarrow> None
      | Some r \<Rightarrow> if r = 0 then Some (Some f) else command_of m p cs)"

definition mon_runcmd :: "(u32 \<times> mon_cmd) list \<Rightarrow> bmem \<Rightarrow> u32 \<Rightarrow> (bmem \<times> mon_action) option" where
  "mon_runcmd tab m buf = (case parse_args m buf [] of
     None \<Rightarrow> None
   | Some (m, None) \<Rightarrow> Some (m, TooMany)
   | Some (m, Some argv) \<Rightarrow>
       if argv = [] then Some (m, Empty)
       else case command_of m (hd argv) tab of
         None \<Rightarrow> None
       | Some None \<Rightarrow> Some (m, Unknown_Command (hd argv))
       | Some (Some f) \<Rightarrow> Some (m, Invoke f argv))"

text \<open>
  One turn of the monitor's loop, with the line buffer at \<open>b\<close>: \<open>None\<close> when no
  line ever comes, and no action when reading fails.
\<close>

definition monitor_turn :: "(u32 \<times> mon_cmd) list \<Rightarrow> u32 \<Rightarrow> i32 list \<Rightarrow> bmem \<Rightarrow>
    (i32 list \<times> bmem \<times> mon_action option) option" where
  "monitor_turn tab b input m =
     (let l = readline b (Some (map (\<lambda>c. of_nat (of_char c)) ''K> '')) input m in
      case line_end l of
        Waiting \<Rightarrow> None
      | ReadError c \<Rightarrow> Some (line_rest l, line_mem l, None)
      | Line \<Rightarrow> (case mon_runcmd tab (line_mem l) b of
          None \<Rightarrow> None
        | Some (m, a) \<Rightarrow> Some (line_rest l, m, Some a)))"

text \<open>The reference: the words of a string.\<close>

function line_words :: "u8 list \<Rightarrow> u8 list list" where
  "line_words cs = (case dropWhile is_white cs of
     [] \<Rightarrow> []
   | d # ds \<Rightarrow> takeWhile (\<lambda>c. \<not> is_white c) (d # ds) # line_words (dropWhile (\<lambda>c. \<not> is_white c) (d # ds)))"
  by pat_completeness auto
termination
proof (relation "measure length", simp)
  fix cs d ds assume d: "dropWhile is_white cs = d # ds"
  have "\<not> is_white d" using hd_dropWhile [of is_white cs] d by simp
  then have "length (dropWhile (\<lambda>c. \<not> is_white c) (d # ds)) \<le> length ds" by (simp add: length_dropWhile_le)
  also have "\<dots> < length (dropWhile is_white cs)" using d by simp
  also have "\<dots> \<le> length cs" by (rule length_dropWhile_le)
  finally show "(dropWhile (\<lambda>c. \<not> is_white c) (d # ds), cs) \<in> measure length" by simp
qed

declare line_words.simps [simp del]

lemma cstr_length: "cstr m p cs \<Longrightarrow> length cs < 4294967296"
proof (rule ccontr)
  assume c: "cstr m p cs" and "\<not> length cs < 4294967296"
  then have "length cs mod 4294967296 < length cs" by (metis mod_less_divisor not_less order_less_le_trans zero_less_numeral)
  then have "m (p + of_nat (length cs mod 4294967296)) \<noteq> 0" using c by (simp add: cstr_iff)
  moreover have "of_nat (length cs mod 4294967296) = (of_nat (length cs) :: u32)"
    by (simp add: word_unat_eq_iff unat_of_nat)
  ultimately show False using c by (simp add: cstr_iff)
qed

text \<open>Distinct positions of a string are distinct addresses.\<close>

lemma cstr_pos:
  assumes "cstr m p cs" and "i \<le> length cs" and "j \<le> length cs"
  shows "p + of_nat i = p + of_nat j \<longleftrightarrow> i = j"
proof -
  have "i < 4294967296" "j < 4294967296" using cstr_length [OF assms(1)] assms(2,3) by auto
  then have "of_nat i = (of_nat j :: u32) \<longleftrightarrow> i = j" by (simp add: word_unat_eq_iff unat_of_nat)
  then show ?thesis by simp
qed

lemma cstr_cong: "(\<And>i. i \<le> length cs \<Longrightarrow> m' (p + of_nat i) = m (p + of_nat i)) \<Longrightarrow> cstr m' p cs = cstr m p cs"
  by (auto simp: cstr_iff)

lemma cstr_not_first:
  assumes "cstr m p (c # cs)" and "i \<le> length cs"
  shows "p + 1 + of_nat i \<noteq> p"
  using cstr_pos [OF assms(1), of "Suc i" 0] assms(2) by (simp add: add.assoc)

lemma cstr_cut: "cstr m p (c # cs) \<Longrightarrow> cstr (m(p := x)) (p + 1) cs"
  using cstr_not_first [of m p c cs] by (subst cstr_cong [of cs _ "p + 1" m]) auto

text \<open>The run of white space in front is overwritten by terminators, and nothing else.\<close>

lemma gobble_spec:
  assumes "cstr m p cs"
  defines "ds \<equiv> dropWhile is_white cs" and "k \<equiv> length (takeWhile is_white cs)"
  shows "\<exists>m'. gobble m p = Some (m', p + of_nat k) \<and> cstr m' (p + of_nat k) ds
    \<and> (\<forall>i < k. m' (p + of_nat i) = 0) \<and> (\<forall>a. (\<forall>i < k. a \<noteq> p + of_nat i) \<longrightarrow> m' a = m a)"
  using assms(1) unfolding ds_def k_def
proof (induction cs arbitrary: m p)
  case Nil
  then show ?case by (subst gobble.simps) simp
next
  case (Cons c cs)
  then have c: "m p = c" "c \<noteq> 0" "cstr m (p + 1) cs" by simp_all
  let ?k = "length (takeWhile is_white cs)"
  show ?case
  proof (cases "is_white c")
    case False
    then show ?thesis using Cons.prems by (subst gobble.simps) simp
  next
    case True
    have len: "?k \<le> length cs" by (rule length_takeWhile_le)
    from Cons.IH [OF cstr_cut [OF Cons.prems, of 0]] obtain m' where
      m': "gobble (m(p := 0)) (p + 1) = Some (m', p + 1 + of_nat ?k)"
        "cstr m' (p + 1 + of_nat ?k) (dropWhile is_white cs)" "\<forall>i < ?k. m' (p + 1 + of_nat i) = 0"
        "\<forall>a. (\<forall>i < ?k. a \<noteq> p + 1 + of_nat i) \<longrightarrow> m' a = (m(p := 0)) a" by blast
    have "p \<noteq> p + 1 + of_nat i" if "i < ?k" for i using cstr_not_first [OF Cons.prems, of i] that len by auto
    then have "m' p = 0" using m'(4) by simp
    then have "m' (p + of_nat i) = 0" if "i < Suc ?k" for i
      using that m'(3) by (cases i) (auto simp: add.assoc)
    moreover have "m' a = m a" if "\<forall>i < Suc ?k. a \<noteq> p + of_nat i" for a
    proof -
      have "a \<noteq> p" using that [rule_format, of 0] by simp
      moreover have "\<forall>i < ?k. a \<noteq> p + 1 + of_nat i" using that by (auto simp: add.assoc dest: spec [of _ "Suc _"])
      ultimately show ?thesis using m'(4) by simp
    qed
    moreover have "gobble m p = gobble (m(p := 0)) (p + 1)" using True c by (subst gobble.simps) simp
    ultimately show ?thesis using True m'(1,2) by (intro exI [of _ m']) (simp add: add.assoc)
  qed
qed

lemma scan_past_spec:
  assumes "cstr m p cs"
  defines "k \<equiv> length (takeWhile (\<lambda>c. \<not> is_white c) cs)"
  shows "scan_past m p = Some (p + of_nat k) \<and> cstr m (p + of_nat k) (dropWhile (\<lambda>c. \<not> is_white c) cs)"
  using assms(1) unfolding k_def
proof (induction cs arbitrary: p)
  case Nil
  then show ?case by (subst scan_past.simps) simp
next
  case (Cons c cs)
  then show ?case using Cons.IH [of "p + 1"] by (subst scan_past.simps) (auto simp: add.assoc)
qed

text \<open>
  The words of the rest of the line: the pointers are appended in order, each points to its word,
  and only the line itself is written to. A white character in front has become a terminator, so the
  word before it ends there.
\<close>

lemma cstr_append: "cstr m p (as @ bs) \<Longrightarrow> (\<forall>i < length as. m (p + of_nat i) = as ! i \<and> as ! i \<noteq> 0) \<and> cstr m (p + of_nat (length as)) bs"
proof (induction as arbitrary: p)
  case (Cons a as)
  have a: "m p = a" "a \<noteq> 0" and IH: "\<forall>i < length as. m (p + 1 + of_nat i) = as ! i \<and> as ! i \<noteq> 0"
    "cstr m (p + 1 + of_nat (length as)) bs" using Cons.IH [of "p + 1"] Cons.prems by auto
  have "m (p + of_nat i) = (a # as) ! i \<and> (a # as) ! i \<noteq> 0" if "i < Suc (length as)" for i
    using that a IH(1) by (cases i) (auto simp: add.assoc)
  then show ?case using IH(2) by (simp add: add.assoc)
qed simp

lemma line_words_Cons:
  assumes "dropWhile is_white cs = d # ds"
  shows "line_words cs = takeWhile (\<lambda>c. \<not> is_white c) (d # ds) # line_words (dropWhile (\<lambda>c. \<not> is_white c) (d # ds))"
  using assms by (simp add: line_words.simps [of cs])

lemma line_words_Nil: "dropWhile is_white cs = [] \<Longrightarrow> line_words cs = []"
  by (subst line_words.simps) (simp only: list.case)

lemma parse_args_spec:
  "cstr m p cs \<Longrightarrow> length argv \<le> 15 \<Longrightarrow> length argv + length (line_words cs) \<le> 15 \<Longrightarrow>
   \<exists>m' ps. parse_args m p argv = Some (m', Some (argv @ ps)) \<and> list_all2 (cstr m') ps (line_words cs)
     \<and> (cs = [] \<or> is_white (hd cs) \<longrightarrow> m' p = 0)
     \<and> (\<forall>a. (\<forall>i \<le> length cs. a \<noteq> p + of_nat i) \<longrightarrow> m' a = m a)"
proof (induction cs arbitrary: m p argv rule: line_words.induct)
  case (1 cs)
  let ?k = "length (takeWhile is_white cs)" and ?ds = "dropWhile is_white cs"
  obtain m1 where m1: "gobble m p = Some (m1, p + of_nat ?k)" "cstr m1 (p + of_nat ?k) ?ds"
    "\<forall>i < ?k. m1 (p + of_nat i) = 0" "\<forall>a. (\<forall>i < ?k. a \<noteq> p + of_nat i) \<longrightarrow> m1 a = m a"
    using gobble_spec [OF 1(2)] by blast
  have kl: "?k \<le> length cs" by (rule length_takeWhile_le)
  have out: "m1 a = m a" if "\<forall>i \<le> length cs. a \<noteq> p + of_nat i" for a using m1(4) that kl by simp
  show ?case
  proof (cases ?ds)
    case Nil
    have all: "?k = length cs" using Nil by (metis append_Nil2 takeWhile_dropWhile_id)
    have "m1 p = 0"
    proof (cases cs)
      case Nil
      then show ?thesis using m1(2) by simp
    next
      case (Cons c cs')
      then have "0 < ?k" using all by simp
      then show ?thesis using m1(3) [rule_format, of 0] by simp
    qed
    moreover have "parse_args m p argv = Some (m1, Some argv)"
      using m1(1,2) Nil by (subst parse_args.simps) simp
    ultimately show ?thesis using out by (intro exI [of _ m1] exI [of _ "[]"]) (simp add: line_words_Nil [OF Nil])
  next
    case (Cons d ds)
    define w where "w = takeWhile (\<lambda>c. \<not> is_white c) (d # ds)"
    define es where "es = dropWhile (\<lambda>c. \<not> is_white c) (d # ds)"
    let ?q = "p + of_nat ?k" and ?r = "p + of_nat ?k + of_nat (length w)"
    have sp: "scan_past m1 ?q = Some ?r" "cstr m1 ?r es" using scan_past_spec [of m1 ?q "d # ds", folded w_def es_def] m1(2) Cons by simp_all
    have lw: "line_words cs = w # line_words es" unfolding w_def es_def by (rule line_words_Cons [OF Cons])
    have le: "length argv + Suc (length (line_words es)) \<le> 15" using 1(4) lw by simp
    then have "length (argv @ [?q]) \<le> 15" "length (argv @ [?q]) + length (line_words es) \<le> 15" by simp_all
    from 1(1) [OF Cons, folded es_def, OF sp(2) this] obtain m' ps where
      m': "parse_args m1 ?r (argv @ [?q]) = Some (m', Some ((argv @ [?q]) @ ps))" "list_all2 (cstr m') ps (line_words es)"
        "es = [] \<or> is_white (hd es) \<longrightarrow> m' ?r = 0" "\<forall>a. (\<forall>i \<le> length es. a \<noteq> ?r + of_nat i) \<longrightarrow> m' a = m1 a" by blast
    have len: "length cs = ?k + length w + length es"
      unfolding w_def es_def using Cons by (metis length_append takeWhile_dropWhile_id add.assoc)
    have at: "?r + of_nat i = p + of_nat (?k + length w + i)" "?q + of_nat i = p + of_nat (?k + i)" for i
      by (simp_all add: add.assoc)
    have beyond: "m' (p + of_nat i) = m1 (p + of_nat i)" if "i < ?k + length w" for i
    proof -
      have "p + of_nat i \<noteq> ?r + of_nat j" if "j \<le> length es" for j
      proof -
        have "i \<le> length cs" "?k + length w + j \<le> length cs" "i \<noteq> ?k + length w + j"
          using \<open>i < ?k + length w\<close> that len by linarith+
        then show ?thesis using cstr_pos [OF 1(2), of i "?k + length w + j"] at(1) [of j] by metis
      qed
      then show ?thesis using m'(4) by blast
    qed
    have "cstr m1 ?q (w @ es)" unfolding w_def es_def takeWhile_dropWhile_id using m1(2) Cons by simp
    then have w1: "\<forall>i < length w. m1 (?q + of_nat i) = w ! i \<and> w ! i \<noteq> 0" using cstr_append by blast
    have "es = [] \<or> is_white (hd es)" unfolding es_def using hd_dropWhile [of "\<lambda>c. \<not> is_white c" "d # ds"] by blast
    then have "m' ?r = 0" using m'(3) by simp
    moreover have "m' (?q + of_nat i) = m1 (?q + of_nat i)" if "i < length w" for i
      using beyond [of "?k + i"] that by (simp add: add.assoc)
    ultimately have "cstr m' ?q w" using w1 unfolding cstr_iff by simp
    moreover have "m' p = 0" if "cs = [] \<or> is_white (hd cs)"
    proof -
      have k0: "0 < ?k" using that Cons by (cases cs) auto
      then have "m1 p = 0" using m1(3) [rule_format, of 0] by simp
      then show ?thesis using beyond [of 0] k0 by simp
    qed
    moreover have "m' a = m a" if "\<forall>i \<le> length cs. a \<noteq> p + of_nat i" for a
    proof -
      have "a \<noteq> ?r + of_nat j" if "j \<le> length es" for j
        using \<open>\<forall>i \<le> length cs. a \<noteq> p + of_nat i\<close> at(1) [of j] that len by (metis add_le_cancel_left)
      then have "m' a = m1 a" using m'(4) by blast
      then show ?thesis using out that by simp
    qed
    moreover have "m1 ?q \<noteq> 0" using m1(2) Cons by simp
    then have "parse_args m p argv = parse_args m1 ?r (argv @ [?q])"
      using m1(1) sp(1) le by (subst parse_args.simps) (simp add: MAXARGS_def)
    ultimately show ?thesis
      using m'(1,2) lw by (intro exI [of _ m'] exI [of _ "?q # ps"]) simp
  qed
qed

text \<open>More than fifteen words are refused.\<close>

lemma parse_args_many:
  "cstr m p cs \<Longrightarrow> length argv \<le> 15 \<Longrightarrow> 15 < length argv + length (line_words cs) \<Longrightarrow>
   \<exists>m'. parse_args m p argv = Some (m', None)"
proof (induction cs arbitrary: m p argv rule: line_words.induct)
  case (1 cs)
  let ?k = "length (takeWhile is_white cs)" and ?ds = "dropWhile is_white cs"
  obtain m1 where m1: "gobble m p = Some (m1, p + of_nat ?k)" "cstr m1 (p + of_nat ?k) ?ds"
    using gobble_spec [OF 1(2)] by blast
  show ?case
  proof (cases ?ds)
    case Nil
    then show ?thesis using 1(3,4) by (simp add: line_words_Nil)
  next
    case (Cons d ds)
    let ?q = "p + of_nat ?k" and ?w = "takeWhile (\<lambda>c. \<not> is_white c) (d # ds)"
    have q: "m1 ?q \<noteq> 0" using m1(2) Cons by simp
    note sp = scan_past_spec [of m1 ?q "d # ds"]
    have run: "parse_args m p argv = (if length argv = 15 then Some (m1, None)
        else parse_args m1 (?q + of_nat (length ?w)) (argv @ [?q]))"
      using m1 sp q Cons by (subst parse_args.simps) (simp add: MAXARGS_def)
    show ?thesis
    proof (cases "length argv = 15")
      case False
      have "length (argv @ [?q]) \<le> 15" using 1(3) False by simp
      moreover have "15 < length (argv @ [?q]) + length (line_words (dropWhile (\<lambda>c. \<not> is_white c) (d # ds)))"
        using 1(4) line_words_Cons [OF Cons] by simp
      moreover have "cstr m1 (?q + of_nat (length ?w)) (dropWhile (\<lambda>c. \<not> is_white c) (d # ds))"
        using sp m1(2) Cons by simp
      ultimately show ?thesis using 1(1) [OF Cons] run False by simp
    qed (simp add: run)
  qed
qed

section \<open>From a typed line to a command\<close>

lemma cstr_nonzero: "cstr m p xs \<Longrightarrow> 0 \<notin> set xs"
  by (induction xs arbitrary: p) auto

text \<open>The table lies in memory: each entry's name is at its address.\<close>

definition table_at :: "bmem \<Rightarrow> (u32 \<times> mon_cmd) list \<Rightarrow> (string \<times> mon_cmd) list \<Rightarrow> bool" where
  "table_at m tab cs \<longleftrightarrow> list_all2 (\<lambda>(p, f) (s, g). f = g \<and> cstr m p (ascii_bytes s)) tab cs"

text \<open>Outside the 1024 bytes of the buffer at \<open>b\<close>.\<close>

definition table_apart :: "u32 \<Rightarrow> (u32 \<times> mon_cmd) list \<Rightarrow> (string \<times> mon_cmd) list \<Rightarrow> bool" where
  "table_apart b tab cs \<longleftrightarrow>
     list_all2 (\<lambda>(p, f) (s, g). \<forall>i \<in> set [0 ..< Suc (length s)]. 1024 \<le> unat (p + of_nat i - b)) tab cs"

lemma command_of_spec:
  assumes "table_at m tab cs" and "cstr m p w"
  shows "command_of m p tab = Some (map_of (map (\<lambda>(s, f). (ascii_bytes s, f)) cs) w)"
  using assms(1) unfolding table_at_def
proof (induction rule: list_all2_induct)
  case (Cons x xs y ys)
  obtain q f s where x: "x = (q, f)" "y = (s, f)" "cstr m q (ascii_bytes s)" using Cons(1) by (cases x; cases y) auto
  have "bytes_cmp w (ascii_bytes s) = 0 \<longleftrightarrow> w = ascii_bytes s"
    by (rule bytes_cmp_sign(1) [OF cstr_nonzero [OF assms(2)] cstr_nonzero [OF x(3)]])
  then show ?case using strcmp_cstr [OF assms(2) x(3)] Cons(3) x by auto
qed simp

lemma table_at_keep:
  assumes "table_at m tab cs" and "table_apart b tab cs"
    and "\<forall>a. 1024 \<le> unat (a - b) \<longrightarrow> m' a = m a"
  shows "table_at m' tab cs"
  using assms(1,2) unfolding table_at_def table_apart_def
proof (induction rule: list_all2_induct)
  case (Cons x xs y ys)
  obtain q f s where x: "x = (q, f)" "y = (s, f)" "cstr m q (ascii_bytes s)" using Cons(1) by (cases x; cases y) auto
  have "cstr m' q (ascii_bytes s) = cstr m q (ascii_bytes s)"
  proof (rule cstr_cong)
    fix i assume "i \<le> length (ascii_bytes s)"
    then have "i \<in> set [0 ..< Suc (length s)]" by (auto simp: ascii_bytes_def)
    moreover have "\<forall>i \<in> set [0 ..< Suc (length s)]. 1024 \<le> unat (q + of_nat i - b)" using Cons(4) x by simp
    ultimately show "m' (q + of_nat i) = m (q + of_nat i)" using assms(3) by blast
  qed
  then show ?case using Cons x by simp
qed simp

text \<open>The action a line stands for, over the words of the line; \<open>argv\<close> is where they are.\<close>

definition action_of :: "u8 list list \<Rightarrow> u32 list \<Rightarrow> mon_action" where
  "action_of ws argv =
     (if 15 < length ws then TooMany
      else case ws of
        [] \<Rightarrow> Empty
      | w # _ \<Rightarrow> (case map_of (map (\<lambda>(s, f). (ascii_bytes s, f)) commands) w of
          None \<Rightarrow> Unknown_Command (hd argv)
        | Some f \<Rightarrow> Invoke f argv))"

lemma mon_runcmd_spec:
  assumes "cstr m b cs" and "length cs \<le> 1023" and "table_at m tab commands" and "table_apart b tab commands"
  shows "\<exists>m' argv. mon_runcmd tab m b = Some (m', action_of (line_words cs) argv)
    \<and> (length (line_words cs) \<le> 15 \<longrightarrow> list_all2 (cstr m') argv (line_words cs))"
proof (cases "15 < length (line_words cs)")
  case True
  then show ?thesis using parse_args_many [OF assms(1), of "[]"] by (auto simp: mon_runcmd_def action_of_def)
next
  case False
  then obtain m' ps where p: "parse_args m b [] = Some (m', Some ps)" "list_all2 (cstr m') ps (line_words cs)"
    "\<forall>a. (\<forall>i \<le> length cs. a \<noteq> b + of_nat i) \<longrightarrow> m' a = m a"
    using parse_args_spec [OF assms(1), of "[]"] by auto
  have "m' a = m a" if a: "1024 \<le> unat (a - b)" for a
  proof -
    have "a \<noteq> b + of_nat i" if "i \<le> length cs" for i
      using a offset_inside [of i b] that assms(2) by auto
    then show ?thesis using p(3) by blast
  qed
  then have t: "table_at m' tab commands" using table_at_keep [OF assms(3,4)] by blast
  show ?thesis
  proof (cases "line_words cs")
    case Nil
    then show ?thesis using p by (auto simp: mon_runcmd_def action_of_def)
  next
    case (Cons w ws)
    then obtain q qs where q: "ps = q # qs" "cstr m' q w" using p(2) by (cases ps) auto
    show ?thesis
      using p(1,2) q(1) command_of_spec [OF t q(2)] False Cons
      by (intro exI [of _ m'] exI [of _ ps]) (simp add: mon_runcmd_def action_of_def split: option.split)
  qed
qed

lemma monitor_turn_spec:
  assumes "\<forall>c \<in> set cs. line_char c" and "e = 0x0A \<or> e = 0x0D"
    and "table_at m tab commands" and "table_apart b tab commands"
  defines "ws \<equiv> line_words (edited cs)"
  shows "\<exists>m' argv. monitor_turn tab b (cs @ e # rest) m = Some (rest, m', Some (action_of ws argv))
    \<and> (length ws \<le> 15 \<longrightarrow> list_all2 (cstr m') argv ws)"
proof -
  obtain l where l: "readline b (Some (map (\<lambda>c. of_nat (of_char c)) ''K> '')) (cs @ e # rest) m = l" "line_end l = Line"
    "line_rest l = rest" "cstr (line_mem l) b (edited cs)" "length (edited cs) \<le> 1023"
    "\<forall>a. 1024 \<le> unat (a - b) \<longrightarrow> line_mem l a = m a"
    using readline_line [OF assms(1,2)] by blast
  show ?thesis
    using mon_runcmd_spec [OF l(4,5) table_at_keep [OF assms(3,4) l(6)] assms(4)] l(1,2,3)
    unfolding monitor_turn_def ws_def by (auto simp: Let_def)
qed

section \<open>An example\<close>

text \<open>The names of the commands in the kernel's read-only data.\<close>

definition mon_table :: "(u32 \<times> mon_cmd) list" where
  "mon_table = [(0xF0110000, mon_help), (0xF0110010, mon_kerninfo), (0xF0110020, mon_backtrace)]"

definition mon_memory :: bmem where
  "mon_memory a =
     (let i = unat (a - 0xF0110000);
          names = ascii_bytes ''help'' @ replicate 12 0 @ ascii_bytes ''kerninfo'' @ replicate 8 0
            @ ascii_bytes ''backtrace'' @ [0]
      in if i < length names then names ! i else 0xCC)"

definition mon_buffer :: u32 where
  "mon_buffer = 0xF0120000"

text \<open>What is typed: \<^verbatim>\<open>helq\<close>, a deletion, \<^verbatim>\<open>p me\<close>.\<close>

definition mon_typed :: "i32 list" where
  "mon_typed = [0x68, 0x65, 0x6C, 0x71, 0x7F, 0x70, 0x20, 0x6D, 0x65]"

lemma mon_example:
  "table_at mon_memory mon_table commands" "table_apart mon_buffer mon_table commands"
  "\<forall>c \<in> set mon_typed. line_char c" "line_words (edited mon_typed) = [ascii_bytes ''help'', [0x6D, 0x65]]"
proof -
  show "table_at mon_memory mon_table commands"
    by (simp add: table_at_def mon_table_def commands_def ascii_bytes_def mon_memory_def Let_def nth_append)
  show "table_apart mon_buffer mon_table commands"
    by (simp add: table_apart_def mon_table_def commands_def mon_buffer_def atLeastLessThanSuc)
  show "\<forall>c \<in> set mon_typed. line_char c" by (simp add: mon_typed_def line_char_def)
  have "edited mon_typed = [0x68, 0x65, 0x6C, 0x70, 0x20, 0x6D, 0x65]"
    by (simp add: edited_def edit_def mon_typed_def)
  then show "line_words (edited mon_typed) = [ascii_bytes ''help'', [0x6D, 0x65]]"
    by (simp add: line_words.simps is_white_def ascii_bytes_def)
qed

end
