(* ===== verification/Jos_CCopy.thy ===== *)
theory Jos_CCopy
  imports Jos_CString
begin

text \<open>
  Copies of strings as blocks of bytes put into memory: what the string routines of
  \<open>Jos_CString\<close> do when source and destination do not overlap.
\<close>

definition placed :: "bmem \<Rightarrow> u32 \<Rightarrow> u8 list \<Rightarrow> bmem" where
  "placed m d bs = (\<lambda>a. if unat (a - d) < length bs then bs ! unat (a - d) else m a)"

lemma placed_Nil [simp]: "placed m d [] = m"
  by (simp add: placed_def)

lemma unat_diff_Suc: "a \<noteq> d \<Longrightarrow> unat ((a :: u32) - d) = Suc (unat (a - (d + 1)))"
proof -
  assume "a \<noteq> d"
  then have "1 + (a - (d + 1)) \<noteq> 0" by simp
  from unatSuc [OF this] show "unat (a - d) = Suc (unat (a - (d + 1)))" by (simp add: algebra_simps)
qed

lemma placed_Cons:
  assumes "length bs < 4294967296"
  shows "placed m d (b # bs) = placed (m(d := b)) (d + 1) bs"
proof
  fix a
  show "placed m d (b # bs) a = placed (m(d := b)) (d + 1) bs a"
  proof (cases "a = d")
    case True
    have "unat (- 1 :: u32) = 4294967295" by (simp add: unsigned_minus_1_eq_mask mask_eq_exp_minus_1)
    then show ?thesis using True assms by (simp add: placed_def)
  next
    case False
    then show ?thesis using unat_diff_Suc [OF False] by (simp add: placed_def)
  qed
qed

lemma placed_append:
  "length as + length bs \<le> 4294967296 \<Longrightarrow> placed m d (as @ bs) = placed (placed m d as) (d + of_nat (length as)) bs"
proof (induction as arbitrary: m d)
  case (Cons x as)
  then show ?case by (simp add: placed_Cons add.assoc)
qed simp

lemma placed_at: "i < length bs \<Longrightarrow> length bs \<le> 4294967296 \<Longrightarrow> placed m d bs (d + of_nat i) = bs ! i"
  by (simp add: placed_def unat_of_nat)

lemma placed_outside: "length bs \<le> unat (a - d) \<Longrightarrow> placed m d bs a = m a"
  by (simp add: placed_def)

lemma placed_cstr:
  assumes "0 \<notin> set xs" and "length xs < 4294967296"
  shows "cstr (placed m d (xs @ [0])) d xs"
proof -
  have "placed m d (xs @ [0]) (d + of_nat i) = (xs @ [0]) ! i" if "i \<le> length xs" for i
    using placed_at [of i "xs @ [0]" m d] that assms(2) by simp
  then show ?thesis using assms(1) by (auto simp: cstr_iff nth_append in_set_conv_nth)
qed

lemma placed_keeps_cstr: "apart s (length xs) d (length bs) \<Longrightarrow> cstr (placed m d bs) s xs = cstr m s xs"
  by (simp add: cstr_iff apart_def placed_outside)

text \<open>\<^verbatim>\<open>strcpy\<close> puts the string and its terminator at the destination.\<close>

lemma strcpy_loop_places:
  "cstr m s xs \<Longrightarrow> length xs < 4294967295 \<Longrightarrow> apart s (length xs) d (Suc (length xs)) \<Longrightarrow>
   strcpy_loop m d s = Some (placed m d (xs @ [0]))"
proof (induction xs arbitrary: m s d)
  case Nil
  have "placed m d [0] = m(d := 0)" using placed_Cons [of "[]" m d 0] by simp
  then show ?case using Nil by (subst strcpy_loop.simps) (simp add: Let_def)
next
  case (Cons x xs)
  have far: "Suc (Suc (length xs)) \<le> unat (s + of_nat i - d)" if "i \<le> Suc (length xs)" for i
    using Cons.prems(3) that by (simp add: apart_def)
  have ap: "Suc (Suc (length xs)) \<le> unat (s + 1 + of_nat i - d)" if "i \<le> length xs" for i
    using far [of "Suc i"] that by (simp add: algebra_simps)
  have c: "cstr (m(d := x)) (s + 1) xs"
    by (subst cstr_upd [of "s + 1" xs d "Suc (Suc (length xs))"]) (use Cons.prems(1) ap in \<open>auto simp: apart_def\<close>)
  have "s + 1 + y - (d + 1) = s + y - d" for y by simp
  then have "apart (s + 1) (length xs) (d + 1) (Suc (length xs))"
    unfolding apart_def using far by (metis Suc_leD le_SucI)
  then have "strcpy_loop (m(d := x)) (d + 1) (s + 1) = Some (placed (m(d := x)) (d + 1) (xs @ [0]))"
    by (intro Cons.IH [OF c]) (use Cons.prems(2) in simp_all)
  then show ?case using Cons.prems(1,2) by (subst strcpy_loop.simps) (simp add: Let_def placed_Cons)
qed

lemma strcpy_places:
  assumes "cstr m s xs" and "length xs < 4294967295" and "apart s (length xs) d (Suc (length xs))"
  shows "strcpy m d s = Some (d, placed m d (xs @ [0]))"
  using strcpy_loop_places [OF assms] by (simp add: strcpy_def)

lemma strcat_places:
  assumes "cstr m d ds" and "cstr m s xs" and "length xs < 4294967295"
    and "apart s (length xs) (d + of_nat (length ds)) (Suc (length xs))"
  shows "strcat m d s = Some (d, placed m (d + of_nat (length ds)) (xs @ [0]))"
  using strlen_cstr [OF assms(1)] strcpy_places [OF assms(2-4)] by (simp add: strcat_def)

lemma placed_over: "length xs \<le> length ys \<Longrightarrow> placed (placed m d xs) d ys = placed m d ys"
  by (auto simp: placed_def fun_eq_iff)

lemma apart_sub:
  assumes "apart s l d n" and "k + n' \<le> n"
  shows "apart s l (d + of_nat k) n'"
  unfolding apart_def
proof (intro allI impI)
  fix i assume "i \<le> l"
  then have n: "n \<le> unat (s + of_nat i - d)" using assms(1) by (simp add: apart_def)
  then have k: "k \<le> unat (s + of_nat i - d)" using assms(2) by simp
  then have "unat (of_nat k :: u32) = k" using u32_bound [of "s + of_nat i - d"] by (simp add: unat_of_nat)
  moreover from this k have "of_nat k \<le> s + of_nat i - d" by (simp add: word_le_nat_alt)
  ultimately have "unat (s + of_nat i - d - of_nat k) = unat (s + of_nat i - d) - k" by (simp add: unat_sub)
  then show "n' \<le> unat (s + of_nat i - (d + of_nat k))" using n assms(2) unfolding diff_diff_add by linarith
qed

text \<open>Copying one string and appending another gives their concatenation.\<close>

lemma strcpy_strcat:
  assumes "cstr m p xs" and "cstr m q ys" and "length xs + length ys < n" and "n < 4294967296"
    and "apart p (length xs) d n" and "apart q (length ys) d n"
  shows "strcpy m d p = Some (d, placed m d (xs @ [0]))"
    and "strcat (placed m d (xs @ [0])) d q = Some (d, placed m d ((xs @ ys) @ [0]))"
proof -
  let ?m = "placed m d (xs @ [0])"
  have nz: "0 \<notin> set xs" using assms(1) by (auto simp: cstr_iff in_set_conv_nth)
  have sub: "apart p (length xs) d (Suc (length xs))" "apart q (length ys) d (Suc (length xs))"
    "apart q (length ys) (d + of_nat (length xs)) (Suc (length ys))"
    using apart_sub [OF assms(5), of 0] apart_sub [OF assms(6), of 0] apart_sub [OF assms(6), of "length xs"] assms(3) by simp_all
  show "strcpy m d p = Some (d, ?m)" using strcpy_places [OF assms(1) _ sub(1)] assms(3,4) by simp
  have "cstr ?m q ys" using placed_keeps_cstr [of q ys d "xs @ [0]" m] sub(2) assms(2) by simp
  then have run: "strcat ?m d q = Some (d, placed ?m (d + of_nat (length xs)) (ys @ [0]))"
    using strcat_places [OF placed_cstr [OF nz] _ _ sub(3)] assms(3,4) by simp
  have "?m = placed (placed m d xs) (d + of_nat (length xs)) [0]" using assms(3,4) by (subst placed_append) simp_all
  then have "placed ?m (d + of_nat (length xs)) (ys @ [0]) = placed (placed m d xs) (d + of_nat (length xs)) (ys @ [0])"
    using placed_over [of "[0]" "ys @ [0]"] by simp
  also have "\<dots> = placed m d ((xs @ ys) @ [0])" using assms(3,4) by (subst append_assoc, subst placed_append) simp_all
  finally show "strcat ?m d q = Some (d, placed m d ((xs @ ys) @ [0]))" using run by simp
qed

text \<open>A bounded quantifier as a finite list, for concrete strings.\<close>

lemma all_le_list: "(\<forall>i \<le> n. P i) \<longleftrightarrow> list_all P [0 ..< Suc n]"
  by (simp only: list_all_iff set_upt atLeastLessThan_iff less_Suc_eq_le Ball_def) simp

end
