(* ===== verification/Jos_Shell.thy ===== *)
theory Jos_Shell
  imports Jos_Line Jos_CCopy Jos_Serv
begin

text \<open>
  \<^verbatim>\<open>user/sh.c\<close>: the tokens of a command line, the collection of arguments and redirections,
  and the search for the program. The scanner is one token ahead: the terminator behind a word is
  written when the next token is scanned.
\<close>

section \<open>Tokens\<close>

definition is_symbol :: "u8 \<Rightarrow> bool" where
  "is_symbol c \<longleftrightarrow> c = 0x3C \<or> c = 0x7C \<or> c = 0x3E \<or> c = 0x26 \<or> c = 0x3B \<or> c = 0x28 \<or> c = 0x29"

definition is_plain :: "u8 \<Rightarrow> bool" where
  "is_plain c \<longleftrightarrow> \<not> is_white c \<and> \<not> is_symbol c"

partial_function (option) scan_word :: "bmem \<Rightarrow> u32 \<Rightarrow> u32 option" where
  "scan_word m p = (if m p \<noteq> 0 \<and> is_plain (m p) then scan_word m (p + 1) else Some p)"

text \<open>The static variables of \<^verbatim>\<open>gettoken\<close>; the token code \<^verbatim>\<open>'w'\<close> is 0x77.\<close>

record lexer =
  nc :: u8
  np1 :: u32
  np2 :: u32

definition gettoken_scan :: "bmem \<Rightarrow> u32 \<Rightarrow> lexer \<Rightarrow> (bmem \<times> lexer) option" where
  "gettoken_scan m s lx =
     (if s = 0 then Some (m, lx\<lparr>nc := 0\<rparr>)
      else case gobble m s of
        None \<Rightarrow> None
      | Some (m, s) \<Rightarrow>
          if m s = 0 then Some (m, \<lparr>nc = 0, np1 = 0, np2 = 0\<rparr>)
          else if is_symbol (m s) then Some (m(s := 0), \<lparr>nc = m s, np1 = s, np2 = s + 1\<rparr>)
          else case scan_word m s of
            None \<Rightarrow> None
          | Some q \<Rightarrow> Some (m, \<lparr>nc = 0x77, np1 = s, np2 = q\<rparr>))"

text \<open>The call with a string only prepares the first token.\<close>

definition gettoken_start :: "bmem \<Rightarrow> u32 \<Rightarrow> lexer \<Rightarrow> (bmem \<times> lexer) option" where
  "gettoken_start m s lx = gettoken_scan m s lx"

definition gettoken :: "bmem \<Rightarrow> lexer \<Rightarrow> (u8 \<times> u32 \<times> bmem \<times> lexer) option" where
  "gettoken m lx = (case gettoken_scan m (np2 lx) lx of
     None \<Rightarrow> None
   | Some (m, lx') \<Rightarrow> Some (nc lx, np1 lx, m, lx'))"

text \<open>The reference: the tokens of a string.\<close>

datatype token = Word "u8 list" | Symbol u8

function tokens_of :: "u8 list \<Rightarrow> token list" where
  "tokens_of cs = (case dropWhile is_white cs of
     [] \<Rightarrow> []
   | d # ds \<Rightarrow> if is_symbol d then Symbol d # tokens_of ds
       else Word (takeWhile is_plain (d # ds)) # tokens_of (dropWhile is_plain (d # ds)))"
  by pat_completeness auto
termination
proof (relation "measure length", simp)
  fix cs d ds assume d: "dropWhile is_white cs = d # ds"
  then have len: "length ds < length cs" using length_dropWhile_le [of is_white cs] by simp
  then show "(ds, cs) \<in> measure length" by simp
  assume "\<not> is_symbol d"
  moreover have "\<not> is_white d" using hd_dropWhile [of is_white cs] d by simp
  ultimately have "dropWhile is_plain (d # ds) = dropWhile is_plain ds" by (simp add: is_plain_def)
  then show "(dropWhile is_plain (d # ds), cs) \<in> measure length"
    using length_dropWhile_le [of is_plain ds] len by simp
qed

declare tokens_of.simps [simp del]

lemma tokens_of_Nil: "dropWhile is_white cs = [] \<Longrightarrow> tokens_of cs = []"
  by (subst tokens_of.simps) (simp only: list.case)

lemma tokens_of_Symbol: "dropWhile is_white cs = d # ds \<Longrightarrow> is_symbol d \<Longrightarrow> tokens_of cs = Symbol d # tokens_of ds"
  by (subst tokens_of.simps) (simp only: list.case if_True)

lemma tokens_of_Word: "dropWhile is_white cs = d # ds \<Longrightarrow> \<not> is_symbol d \<Longrightarrow>
    tokens_of cs = Word (takeWhile is_plain (d # ds)) # tokens_of (dropWhile is_plain (d # ds))"
  by (subst tokens_of.simps) (simp only: list.case if_False)

section \<open>The scanner finds the tokens\<close>

text \<open>A string that does not wrap round to address 0.\<close>

definition text_at :: "bmem \<Rightarrow> u32 \<Rightarrow> u8 list \<Rightarrow> bool" where
  "text_at m p cs \<longleftrightarrow> cstr m p cs \<and> (\<forall>i \<le> length cs. p + of_nat i \<noteq> 0)"

text \<open>Memory outside the rest of the line is kept.\<close>

definition beyond :: "u32 \<Rightarrow> nat \<Rightarrow> bmem \<Rightarrow> bmem \<Rightarrow> bool" where
  "beyond p n m m' \<longleftrightarrow> (\<forall>a. (\<forall>i \<le> n. a \<noteq> p + of_nat i) \<longrightarrow> m' a = m a)"

lemma text_at_nonnull: "text_at m p cs \<Longrightarrow> p \<noteq> 0"
  unfolding text_at_def by (drule conjunct2, drule spec [of _ 0]) simp

lemma text_at_drop: "text_at m p cs \<Longrightarrow> k \<le> length cs \<Longrightarrow> text_at m (p + of_nat k) (drop k cs)"
proof -
  assume t: "text_at m p cs" "k \<le> length cs"
  have "cstr m (p + of_nat k) (drop k cs)"
    using cstr_append [of m p "take k cs" "drop k cs"] t by (simp add: text_at_def min.absorb2)
  moreover have "p + of_nat k + of_nat i \<noteq> 0" if "i \<le> length (drop k cs)" for i
  proof -
    have "p + of_nat (k + i) \<noteq> 0" using t that unfolding text_at_def by (simp del: of_nat_add)
    then show ?thesis by (simp add: add.assoc)
  qed
  ultimately show ?thesis by (simp add: text_at_def)
qed

lemma scan_word_spec:
  "cstr m p cs \<Longrightarrow> scan_word m p = Some (p + of_nat (length (takeWhile is_plain cs)))"
proof (induction cs arbitrary: p)
  case Nil
  then show ?case by (subst scan_word.simps) simp
next
  case (Cons c cs)
  then show ?case using Cons.IH [of "p + 1"] by (subst scan_word.simps) (auto simp: add.assoc)
qed

text \<open>
  The scanner state in front of the tokens \<open>ts\<close>: either at the end, or with a token scanned whose
  rest of the line is \<open>cs\<close> at \<open>np2\<close>. All of it lies among the addresses \<open>L\<close> of the line.
\<close>

definition stretch :: "u32 \<Rightarrow> nat \<Rightarrow> u32 set" where
  "stretch p n = (\<lambda>i. p + of_nat i) ` {.. n}"

lemma stretch_sub: "k + l \<le> n \<Longrightarrow> stretch (p + of_nat k) l \<subseteq> stretch p n"
  by (auto simp: stretch_def add.assoc image_iff) (metis add_le_cancel_left atMost_iff le_trans of_nat_add)

lemma beyond_stretch: "beyond p n m m' \<longleftrightarrow> (\<forall>a. a \<notin> stretch p n \<longrightarrow> m' a = m a)"
  by (auto simp: beyond_def stretch_def image_iff)

definition lex_rep :: "u32 set \<Rightarrow> bmem \<Rightarrow> lexer \<Rightarrow> u8 list \<Rightarrow> token list \<Rightarrow> bool" where
  "lex_rep L m lx cs ts \<longleftrightarrow>
     (case ts of
        [] \<Rightarrow> nc lx = 0 \<and> np2 lx = 0 \<and> cs = []
      | t # ts \<Rightarrow> ts = tokens_of cs \<and> text_at m (np2 lx) cs \<and> stretch (np2 lx) (length cs) \<subseteq> L
          \<and> (case t of
               Symbol c \<Rightarrow> nc lx = c \<and> is_symbol c
             | Word w \<Rightarrow> nc lx = 0x77 \<and> stretch (np1 lx) (length w) \<subseteq> L \<and> np2 lx = np1 lx + of_nat (length w)
                 \<and> (\<forall>i < length w. m (np1 lx + of_nat i) = w ! i \<and> w ! i \<noteq> 0
                      \<and> (\<forall>j \<le> length cs. np1 lx + of_nat i \<noteq> np2 lx + of_nat j))
                 \<and> (cs = [] \<or> \<not> is_plain (hd cs))))"

lemma gettoken_scan_spec:
  assumes "text_at m p cs" and L: "stretch p (length cs) \<subseteq> L"
  shows "\<exists>m' lx' ds. gettoken_scan m p lx = Some (m', lx') \<and> lex_rep L m' lx' ds (tokens_of cs)
    \<and> beyond p (length cs) m m' \<and> (cs = [] \<or> \<not> is_plain (hd cs) \<longrightarrow> m' p = 0)
    \<and> (tokens_of cs \<noteq> [] \<longrightarrow> (\<exists>k \<le> length cs. np2 lx' = p + of_nat k \<and> length ds = length cs - k
         \<and> (cs = [] \<or> \<not> is_plain (hd cs) \<longrightarrow> 0 < k)))"
proof -
  let ?k = "length (takeWhile is_white cs)" and ?ds = "dropWhile is_white cs"
  have c: "cstr m p cs" and nz: "\<forall>i \<le> length cs. p + of_nat i \<noteq> 0" using assms(1) by (simp_all add: text_at_def)
  have p0: "p \<noteq> 0" using nz [rule_format, of 0] by simp
  obtain m1 where m1: "gobble m p = Some (m1, p + of_nat ?k)" "cstr m1 (p + of_nat ?k) ?ds"
    "\<forall>i < ?k. m1 (p + of_nat i) = 0" "\<forall>a. (\<forall>i < ?k. a \<noteq> p + of_nat i) \<longrightarrow> m1 a = m a"
    using gobble_spec [OF c] by blast
  have kl: "?k \<le> length cs" by (rule length_takeWhile_le)
  have lds: "?ds = drop ?k cs" by (rule dropWhile_eq_drop)
  have t1: "text_at m1 (p + of_nat ?k) ?ds"
    using text_at_drop [OF assms(1) kl] m1(2) by (simp add: text_at_def lds)
  have b1: "beyond p (length cs) m m1" using m1(4) kl by (simp add: beyond_def)
  have z: "m1 p = 0" if "0 < ?k" using m1(3) [rule_format, of 0] that by simp
  show ?thesis
  proof (cases ?ds)
    case Nil
    have "tokens_of cs = []" by (rule tokens_of_Nil [OF Nil])
    moreover have "?k = length cs" using Nil by (metis append_Nil2 takeWhile_dropWhile_id)
    then have "m1 p = 0" using z m1(2) Nil by (cases cs) simp_all
    ultimately show ?thesis using m1(1,2) b1 p0 Nil
      by (intro exI [of _ m1] exI [of _ "\<lparr>nc = 0, np1 = 0, np2 = 0\<rparr>"] exI [of _ "[]"])
        (simp add: gettoken_scan_def lex_rep_def)
  next
    case (Cons d ds)
    let ?q = "p + of_nat ?k"
    have d: "m1 ?q = d" "d \<noteq> 0" using m1(2) Cons by simp_all
    have nw: "\<not> is_white d" using hd_dropWhile [of is_white cs] Cons by simp
    have lcs: "length cs = ?k + Suc (length ds)"
      using Cons by (metis length_append length_Cons takeWhile_dropWhile_id)
    show ?thesis
    proof (cases "is_symbol d")
      case True
      let ?m = "m1(?q := 0)"
      have lex: "tokens_of cs = Symbol d # tokens_of ds" by (rule tokens_of_Symbol [OF Cons True])
      have "text_at m1 (?q + of_nat 1) (drop 1 (d # ds))" by (rule text_at_drop) (use t1 Cons in auto)
      then have tq: "text_at ?m (?q + 1) ds"
        using cstr_cut [of m1 ?q d ds 0] m1(2) Cons by (simp add: text_at_def)
      have "beyond p (length cs) m ?m" using b1 kl by (auto simp: beyond_def)
      moreover have "gettoken_scan m p lx = Some (?m, \<lparr>nc = d, np1 = ?q, np2 = ?q + 1\<rparr>)"
        using m1(1) d True p0 by (simp add: gettoken_scan_def)
      moreover have "?m p = 0" using z by (cases "?k") auto
      moreover have "\<exists>k \<le> length cs. ?q + 1 = p + of_nat k \<and> length ds = length cs - k
          \<and> (cs = [] \<or> \<not> is_plain (hd cs) \<longrightarrow> 0 < k)"
        using lcs by (intro exI [of _ "Suc ?k"]) (simp add: add.assoc)
      moreover have "stretch (?q + 1) (length ds) \<subseteq> L"
        using stretch_sub [of "Suc ?k" "length ds" "length cs" p] lcs L by (simp add: ac_simps)
      ultimately show ?thesis using tq True lex
        by (intro exI [of _ ?m] exI [of _ "\<lparr>nc = d, np1 = ?q, np2 = ?q + 1\<rparr>"] exI [of _ ds]) (simp add: lex_rep_def)
    next
      case False
      define w where "w = takeWhile is_plain (d # ds)"
      define es where "es = dropWhile is_plain (d # ds)"
      have wes: "d # ds = w @ es" by (simp add: w_def es_def)
      have lex: "tokens_of cs = Word w # tokens_of es" unfolding w_def es_def by (rule tokens_of_Word [OF Cons False])
      let ?r = "?q + of_nat (length w)"
      have run: "gettoken_scan m p lx = Some (m1, \<lparr>nc = 0x77, np1 = ?q, np2 = ?r\<rparr>)"
        using m1(1,2) d False p0 scan_word_spec [OF m1(2)] Cons by (simp add: gettoken_scan_def w_def)
      have te: "text_at m1 ?r es"
        using text_at_drop [of m1 ?q "d # ds" "length w"] t1 Cons wes by simp
      have cw: "cstr m1 ?q (w @ es)" using m1(2) Cons wes by simp
      have word: "m1 (?q + of_nat i) = w ! i \<and> w ! i \<noteq> 0" if "i < length w" for i using cstr_append [OF cw] that by blast
      have sep: "?q + of_nat i \<noteq> ?r + of_nat j" if "i < length w" "j \<le> length es" for i j
        using cstr_pos [OF cw, of i "length w + j"] that by (simp add: add.assoc)
      have "es = [] \<or> \<not> is_plain (hd es)" unfolding es_def using hd_dropWhile [of is_plain "d # ds"] by blast
      moreover have pos: "0 < ?k" if "cs = [] \<or> \<not> is_plain (hd cs)"
        using that Cons False nw by (cases cs) (auto simp: is_plain_def split: if_splits)
      then have "m1 p = 0" if "cs = [] \<or> \<not> is_plain (hd cs)" using that by (intro z) blast
      moreover have "\<exists>k \<le> length cs. ?r = p + of_nat k \<and> length es = length cs - k
          \<and> (cs = [] \<or> \<not> is_plain (hd cs) \<longrightarrow> 0 < k)"
      proof (intro exI [of _ "?k + length w"] conjI impI)
        have "Suc (length ds) = length w + length es" using wes by (metis length_Cons length_append)
        then show "?k + length w \<le> length cs" "length es = length cs - (?k + length w)" using lcs by simp_all
        assume "cs = [] \<or> \<not> is_plain (hd cs)"
        then show "0 < ?k + length w" using pos by blast
      qed (simp add: add.assoc)
      moreover have "length cs = ?k + (length w + length es)"
        using lcs wes by (metis length_Cons length_append)
      then have "stretch ?q (length w) \<subseteq> L" "stretch ?r (length es) \<subseteq> L"
        using stretch_sub [of ?k "length w" "length cs" p] stretch_sub [of "?k + length w" "length es" "length cs" p] L
        by (simp_all add: add.assoc)
      ultimately show ?thesis using run te word sep lex b1
        by (intro exI [of _ m1] exI [of _ "\<lparr>nc = 0x77, np1 = ?q, np2 = ?r\<rparr>"] exI [of _ es]) (simp add: lex_rep_def)
    qed
  qed
qed

definition token_code :: "token \<Rightarrow> u8" where
  "token_code t = (case t of Word w \<Rightarrow> 0x77 | Symbol c \<Rightarrow> c)"

text \<open>A word already returned: terminated, and out of reach of the scanner.\<close>

definition safe :: "u32 set \<Rightarrow> bmem \<Rightarrow> lexer \<Rightarrow> u8 list \<Rightarrow> u32 \<Rightarrow> u8 list \<Rightarrow> bool" where
  "safe L m lx cs p w \<longleftrightarrow> cstr m p w \<and> stretch p (length w) \<subseteq> L
     \<and> (np2 lx = 0 \<or> (\<forall>i \<le> length w. \<forall>j \<le> length cs. p + of_nat i \<noteq> np2 lx + of_nat j))"

lemma safe_later:
  assumes "safe L m lx cs p w" and "text_at m (np2 lx) cs" and "beyond (np2 lx) (length cs) m m'"
    and "np2 lx' = 0 \<or> (\<exists>k \<le> length cs. np2 lx' = np2 lx + of_nat k \<and> length ds = length cs - k)"
  shows "safe L m' lx' ds p w"
proof -
  have "np2 lx \<noteq> 0" by (rule text_at_nonnull [OF assms(2)])
  then have ap: "p + of_nat i \<noteq> np2 lx + of_nat j" if "i \<le> length w" "j \<le> length cs" for i j
    using assms(1) that by (simp add: safe_def)
  have "cstr m' p w = cstr m p w"
    by (rule cstr_cong) (use assms(3) ap in \<open>simp add: beyond_def\<close>)
  then have "cstr m' p w" "stretch p (length w) \<subseteq> L" using assms(1) by (simp_all add: safe_def)
  moreover have "p + of_nat i \<noteq> np2 lx' + of_nat j" if "i \<le> length w" "j \<le> length ds" "np2 lx' \<noteq> 0" for i j
  proof -
    obtain k where "k \<le> length cs" "np2 lx' = np2 lx + of_nat k" "length ds = length cs - k"
      using assms(4) \<open>np2 lx' \<noteq> 0\<close> by blast
    then show ?thesis using ap [OF that(1), of "k + j"] that(2) by (simp add: add.assoc)
  qed
  ultimately show ?thesis unfolding safe_def by blast
qed

lemma lex_rep_Word: "lex_rep L m lx cs (Word w # ts) \<Longrightarrow> ts = tokens_of cs \<and> text_at m (np2 lx) cs \<and> stretch (np2 lx) (length cs) \<subseteq> L
    \<and> nc lx = 0x77 \<and> stretch (np1 lx) (length w) \<subseteq> L \<and> np2 lx = np1 lx + of_nat (length w)
    \<and> (\<forall>i < length w. m (np1 lx + of_nat i) = w ! i \<and> w ! i \<noteq> 0
         \<and> (\<forall>j \<le> length cs. np1 lx + of_nat i \<noteq> np2 lx + of_nat j))
    \<and> (cs = [] \<or> \<not> is_plain (hd cs))"
  by (unfold lex_rep_def list.case token.case)

lemma lex_rep_Symbol: "lex_rep L m lx cs (Symbol c # ts) \<Longrightarrow> is_symbol c \<and> c \<noteq> 0x77 \<and> c \<noteq> 0"
  by (auto simp: lex_rep_def is_symbol_def)

lemma gettoken_end: "lex_rep L m lx cs [] \<Longrightarrow> \<exists>p lx'. gettoken m lx = Some (0, p, m, lx') \<and> lex_rep L m lx' cs []"
  by (simp add: gettoken_def gettoken_scan_def lex_rep_def)

lemma gettoken_step:
  assumes "lex_rep L m lx cs (t # ts)"
  shows "\<exists>p m' lx' ds. gettoken m lx = Some (token_code t, p, m', lx') \<and> lex_rep L m' lx' ds ts
    \<and> (\<forall>w. t = Word w \<longrightarrow> safe L m' lx' ds p w) \<and> (\<forall>q w. safe L m lx cs q w \<longrightarrow> safe L m' lx' ds q w)
    \<and> (\<forall>a. a \<notin> L \<longrightarrow> m' a = m a)"
proof -
  have ts: "ts = tokens_of cs" and tx: "text_at m (np2 lx) cs" "stretch (np2 lx) (length cs) \<subseteq> L"
    and code: "nc lx = token_code t"
    using assms by (auto simp: lex_rep_def token_code_def split: token.splits)
  obtain m' lx' ds where g: "gettoken_scan m (np2 lx) lx = Some (m', lx')" "lex_rep L m' lx' ds (tokens_of cs)"
    "beyond (np2 lx) (length cs) m m'" "cs = [] \<or> \<not> is_plain (hd cs) \<longrightarrow> m' (np2 lx) = 0"
    "tokens_of cs \<noteq> [] \<longrightarrow> (\<exists>k \<le> length cs. np2 lx' = np2 lx + of_nat k \<and> length ds = length cs - k
         \<and> (cs = [] \<or> \<not> is_plain (hd cs) \<longrightarrow> 0 < k))"
    using gettoken_scan_spec [OF tx] by blast
  have "np2 lx' = 0" if "tokens_of cs = []" using g(2) that by (simp add: lex_rep_def)
  then have n2: "np2 lx' = 0 \<or> (\<exists>k \<le> length cs. np2 lx' = np2 lx + of_nat k \<and> length ds = length cs - k)"
    using g(5) by blast
  have "safe L m' lx' ds (np1 lx) w" if "t = Word w" for w
  proof -
    have w: "np2 lx = np1 lx + of_nat (length w)" "cs = [] \<or> \<not> is_plain (hd cs)"
      "\<forall>i < length w. m (np1 lx + of_nat i) = w ! i \<and> w ! i \<noteq> 0 \<and> (\<forall>j \<le> length cs. np1 lx + of_nat i \<noteq> np2 lx + of_nat j)"
      using lex_rep_Word [of L m lx cs w ts] assms that by blast+
    have L: "stretch (np1 lx) (length w) \<subseteq> L" using lex_rep_Word [of L m lx cs w ts] assms that by blast
    have "m' (np1 lx + of_nat i) = w ! i \<and> w ! i \<noteq> 0" if "i < length w" for i
      using w(3) g(3) that by (simp add: beyond_def)
    moreover have "m' (np1 lx + of_nat (length w)) = 0" using g(4) w(1,2) by simp
    ultimately have "cstr m' (np1 lx) w" by (simp add: cstr_iff)
    moreover have "np1 lx + of_nat i \<noteq> np2 lx' + of_nat j" if "i \<le> length w" "j \<le> length ds" "np2 lx' \<noteq> 0" for i j
    proof -
      note ij = that
      obtain k where k: "k \<le> length cs" "np2 lx' = np2 lx + of_nat k" "length ds = length cs - k" "0 < k"
        using g(5) w(2) ij(3) \<open>tokens_of cs = [] \<Longrightarrow> np2 lx' = 0\<close> by blast
      have e: "np2 lx' + of_nat j = np2 lx + of_nat (k + j)" using k(2) by (simp add: add.assoc)
      show ?thesis
      proof (cases "i = length w")
        case True
        have "np2 lx + of_nat 0 \<noteq> np2 lx + of_nat (k + j)"
          using cstr_pos [of m "np2 lx" cs 0 "k + j"] tx(1) k ij(2) by (simp add: text_at_def del: of_nat_add)
        then show ?thesis using True w(1) e by simp
      next
        case False
        then have "i < length w" using ij(1) by simp
        moreover have "k + j \<le> length cs" using k(1,3) ij(2) by simp
        ultimately show ?thesis using w(3) unfolding e by blast
      qed
    qed
    ultimately show ?thesis using L unfolding safe_def by blast
  qed
  moreover have "m' a = m a" if "a \<notin> L" for a using g(3) tx(2) that unfolding beyond_stretch by blast
  moreover have "safe L m' lx' ds q w" if "safe L m lx cs q w" for q w by (rule safe_later [OF that tx(1) g(3) n2])
  ultimately show ?thesis using g(1,2) code ts
    by (intro exI [of _ "np1 lx"] exI [of _ m'] exI [of _ lx'] exI [of _ ds]) (simp add: gettoken_def)
qed

lemma gettoken_starts:
  assumes "text_at m s cs" and "stretch s (length cs) \<subseteq> L"
  shows "\<exists>m' lx' ds. gettoken_start m s lx = Some (m', lx') \<and> lex_rep L m' lx' ds (tokens_of cs)
    \<and> (\<forall>a. a \<notin> L \<longrightarrow> m' a = m a)"
  using gettoken_scan_spec [OF assms, of lx] assms(2) unfolding gettoken_start_def beyond_stretch by blast

section \<open>Arguments and redirections\<close>

text \<open>
  What the parse does to the descriptors, and how it ends: with the arguments, by leaving the
  process after a message, or in a panic. File names are addresses in the program and byte strings in
  the reference; \<open>opened n\<close> is what the \<open>n\<close>-th call of \<^verbatim>\<open>open\<close> returns.
\<close>

datatype 'n sh_act = Open_File 'n u32 | Dup i32 i32 | Close i32

datatype 'n sh_end = Run "'n list" | Leave | Sh_Panic

partial_function (option) sh_collect ::
    "(nat \<Rightarrow> i32) \<Rightarrow> bmem \<Rightarrow> lexer \<Rightarrow> nat \<Rightarrow> u32 list \<Rightarrow> u32 sh_act list \<Rightarrow> (bmem \<times> u32 sh_act list \<times> u32 sh_end) option" where
  "sh_collect opened m lx n argv acts =
     (case gettoken m lx of
        None \<Rightarrow> None
      | Some (c, t, m, lx) \<Rightarrow>
          if c = 0x77 then
            if length argv = MAXARGS then Some (m, acts, Leave) else sh_collect opened m lx n (argv @ [t]) acts
          else if c = 0x3C \<or> c = 0x3E then
            (case gettoken m lx of
               None \<Rightarrow> None
             | Some (c', t, m, lx) \<Rightarrow>
                 if c' \<noteq> 0x77 then Some (m, acts, Leave)
                 else let fd = opened n; target = (if c = 0x3C then 0 else 1);
                     acts = acts @ [Open_File t (if c = 0x3C then O_RDONLY else O_WRONLY OR O_CREAT OR O_TRUNC)]
                   in if sint fd < 0 then Some (m, acts, Leave)
                      else sh_collect opened m lx (n + 1) argv
                        (acts @ (if fd \<noteq> target then [Dup fd target, Close fd] else [])))
          else if c = 0 then Some (m, acts, Run argv)
          else Some (m, acts, Sh_Panic))"

definition sh_parse :: "(nat \<Rightarrow> i32) \<Rightarrow> bmem \<Rightarrow> u32 \<Rightarrow> lexer \<Rightarrow> (bmem \<times> u32 sh_act list \<times> u32 sh_end) option" where
  "sh_parse opened m s lx = (case gettoken_start m s lx of
     None \<Rightarrow> None
   | Some (m, lx) \<Rightarrow> sh_collect opened m lx 0 [] [])"

text \<open>The same over the tokens of the line.\<close>

fun command_from :: "(nat \<Rightarrow> i32) \<Rightarrow> nat \<Rightarrow> u8 list list \<Rightarrow> u8 list sh_act list \<Rightarrow> token list \<Rightarrow>
    u8 list sh_act list \<times> u8 list sh_end" where
  "command_from opened n ws acts [] = (acts, Run ws)"
| "command_from opened n ws acts (Word w # ts) =
     (if length ws = 16 then (acts, Leave) else command_from opened n (ws @ [w]) acts ts)"
| "command_from opened n ws acts (Symbol c # Word f # ts) =
     (if c = 0x3C \<or> c = 0x3E then
        let target = (if c = 0x3C then 0 else 1);
            acts = acts @ [Open_File f (if c = 0x3C then O_RDONLY else O_WRONLY OR O_CREAT OR O_TRUNC)]
        in if sint (opened n) < 0 then (acts, Leave)
           else command_from opened (n + 1) ws
             (acts @ (if opened n \<noteq> target then [Dup (opened n) target, Close (opened n)] else [])) ts
      else (acts, Sh_Panic))"
| "command_from opened n ws acts (Symbol c # ts) = (acts, if c = 0x3C \<or> c = 0x3E then Leave else Sh_Panic)"

text \<open>Addresses stand for the strings there.\<close>

definition str_in :: "u32 set \<Rightarrow> bmem \<Rightarrow> u32 \<Rightarrow> u8 list \<Rightarrow> bool" where
  "str_in L m p w \<longleftrightarrow> cstr m p w \<and> stretch p (length w) \<subseteq> L"

definition acts_rep :: "u32 set \<Rightarrow> bmem \<Rightarrow> u32 sh_act list \<Rightarrow> u8 list sh_act list \<Rightarrow> bool" where
  "acts_rep L m = list_all2 (rel_sh_act (str_in L m))"

definition safe_act :: "u32 set \<Rightarrow> bmem \<Rightarrow> lexer \<Rightarrow> u8 list \<Rightarrow> u32 sh_act \<Rightarrow> u8 list sh_act \<Rightarrow> bool" where
  "safe_act L m lx cs = rel_sh_act (safe L m lx cs)"

lemma safe_act_cstr: "list_all2 (safe_act L m lx cs) xs ys \<Longrightarrow> acts_rep L m xs ys"
  unfolding safe_act_def acts_rep_def by (erule list_all2_mono) (auto elim!: sh_act.rel_mono_strong simp: safe_def str_in_def)

lemma safe_cstr: "list_all2 (safe L m lx cs) xs ys \<Longrightarrow> list_all2 (str_in L m) xs ys"
  by (erule list_all2_mono) (simp add: safe_def str_in_def)

lemma safe_act_mono:
  "list_all2 (safe_act L m lx cs) xs ys \<Longrightarrow> (\<And>q w. safe L m lx cs q w \<Longrightarrow> safe L m' lx' ds q w) \<Longrightarrow>
   list_all2 (safe_act L m' lx' ds) xs ys"
  unfolding safe_act_def by (erule list_all2_mono) (auto elim!: sh_act.rel_mono_strong)

lemma sh_collect_spec:
  assumes "lex_rep L m lx cs ts" and "list_all2 (safe L m lx cs) argv ws" and "list_all2 (safe_act L m lx cs) acts bs"
  shows "\<exists>m' acts' e. sh_collect opened m lx n argv acts = Some (m', acts', e)
    \<and> (case command_from opened n ws bs ts of (bs', e') \<Rightarrow> acts_rep L m' acts' bs' \<and> rel_sh_end (str_in L m') e e')
    \<and> (\<forall>a. a \<notin> L \<longrightarrow> m' a = m a)"
  using assms
proof (induction opened n ws bs ts arbitrary: m lx cs argv acts rule: command_from.induct [case_names no_tokens word redirection last_symbol two_symbols])
  case (no_tokens opened n ws bs)
  obtain p lx' where g: "gettoken m lx = Some (0, p, m, lx')" using gettoken_end [OF no_tokens(1)] by blast
  show ?case using g safe_cstr [OF no_tokens(2)] safe_act_cstr [OF no_tokens(3)] by (subst sh_collect.simps) simp
next
  case (word opened n ws bs w ts)
  obtain p m1 lx1 ds where g: "gettoken m lx = Some (token_code (Word w), p, m1, lx1)" "lex_rep L m1 lx1 ds ts"
    "safe L m1 lx1 ds p w" "\<And>q w. safe L m lx cs q w \<Longrightarrow> safe L m1 lx1 ds q w"
    "\<forall>a. a \<notin> L \<longrightarrow> m1 a = m a" using gettoken_step [OF word(2)] by blast
  have ws: "list_all2 (safe L m1 lx1 ds) (argv @ [p]) (ws @ [w])"
    using list_all2_mono [OF word(3)] g(3,4) by (auto intro: list_all2_appendI)
  have bs: "list_all2 (safe_act L m1 lx1 ds) acts bs" by (rule safe_act_mono [OF word(4)]) (rule g(4))
  have len: "length argv = length ws" using word(3) by (rule list_all2_lengthD)
  show ?case
  proof (cases "length ws = 16")
    case True
    then show ?thesis using g(1,5) len safe_act_cstr [OF bs]
      by (subst sh_collect.simps) (simp add: token_code_def MAXARGS_def)
  next
    case False
    then show ?thesis using g(1,5) len word(1) [OF False g(2) ws bs]
      by (subst sh_collect.simps) (simp add: token_code_def MAXARGS_def)
  qed
next
  case (redirection opened n ws bs c f ts)
  obtain p m1 lx1 ds where g: "gettoken m lx = Some (c, p, m1, lx1)" "lex_rep L m1 lx1 ds (Word f # ts)"
    "\<And>q w. safe L m lx cs q w \<Longrightarrow> safe L m1 lx1 ds q w"
    "\<forall>a. a \<notin> L \<longrightarrow> m1 a = m a" using gettoken_step [OF redirection(2)] by (auto simp: token_code_def)
  obtain p2 m2 lx2 es where h: "gettoken m1 lx1 = Some (0x77, p2, m2, lx2)" "lex_rep L m2 lx2 es ts"
    "safe L m2 lx2 es p2 f" "\<And>q w. safe L m1 lx1 ds q w \<Longrightarrow> safe L m2 lx2 es q w"
    "\<forall>a. a \<notin> L \<longrightarrow> m2 a = m1 a"
    using gettoken_step [OF g(2)] by (auto simp: token_code_def)
  have ws: "list_all2 (safe L m2 lx2 es) argv ws" using list_all2_mono [OF redirection(3)] g(3) h(4) by blast
  have bs0: "list_all2 (safe_act L m1 lx1 ds) acts bs" by (rule safe_act_mono [OF redirection(4)]) (rule g(3))
  have bs: "list_all2 (safe_act L m2 lx2 es) acts bs" by (rule safe_act_mono [OF bs0]) (rule h(4))
  have sym: "is_symbol c" "c \<noteq> 0x77" "c \<noteq> 0" using lex_rep_Symbol [OF redirection(2)] by blast+
  show ?case
  proof (cases "c = 0x3C \<or> c = 0x3E")
    case False
    then show ?thesis using g(1,4) sym safe_act_cstr [OF bs0] by (subst sh_collect.simps) simp
  next
    case True
    note IH = redirection(1) [OF True refl refl]
    have o: "list_all2 (safe_act L m2 lx2 es) (acts @ [Open_File p2 md]) (bs @ [Open_File f md])" for md
      using bs h(3) by (auto intro!: list_all2_appendI simp: safe_act_def)
    show ?thesis
    proof (cases "sint (opened n) < 0")
      case neg: True
      then show ?thesis using True g(1,4) h(1,5) sym safe_act_cstr [OF o]
        by (subst sh_collect.simps) (simp add: Let_def)
    next
      case False
      have "list_all2 (safe_act L m2 lx2 es) ((acts @ [Open_File p2 md]) @ (if b then [Dup x y, Close x] else []))
          ((bs @ [Open_File f md]) @ (if b then [Dup x y, Close x] else []))" for md b x y
        by (rule list_all2_appendI [OF o]) (simp add: safe_act_def)
      from IH [OF False h(2) ws this] show ?thesis
        using True False g(1,4) h(1,5) sym by (subst sh_collect.simps) (simp add: Let_def)
    qed
  qed
next
  case (last_symbol opened n ws bs c)
  obtain p m1 lx1 ds where g: "gettoken m lx = Some (c, p, m1, lx1)" "lex_rep L m1 lx1 ds []"
    "\<And>q w. safe L m lx cs q w \<Longrightarrow> safe L m1 lx1 ds q w"
    "\<forall>a. a \<notin> L \<longrightarrow> m1 a = m a" using gettoken_step [OF last_symbol(1)] by (auto simp: token_code_def)
  have bs: "list_all2 (safe_act L m1 lx1 ds) acts bs" by (rule safe_act_mono [OF last_symbol(3)]) (rule g(3))
  obtain p2 lx2 where h: "gettoken m1 lx1 = Some (0, p2, m1, lx2)" using gettoken_end [OF g(2)] by blast
  have sym: "is_symbol c" "c \<noteq> 0x77" "c \<noteq> 0" using lex_rep_Symbol [OF last_symbol(1)] by blast+
  show ?case using g(1,4) h sym safe_act_cstr [OF bs] by (subst sh_collect.simps) simp
next
  case (two_symbols opened n ws bs c c' ts)
  obtain p m1 lx1 ds where g: "gettoken m lx = Some (c, p, m1, lx1)" "lex_rep L m1 lx1 ds (Symbol c' # ts)"
    "\<And>q w. safe L m lx cs q w \<Longrightarrow> safe L m1 lx1 ds q w"
    "\<forall>a. a \<notin> L \<longrightarrow> m1 a = m a" using gettoken_step [OF two_symbols(1)] by (auto simp: token_code_def)
  have bs: "list_all2 (safe_act L m1 lx1 ds) acts bs" by (rule safe_act_mono [OF two_symbols(3)]) (rule g(3))
  obtain p2 m2 lx2 es where h: "gettoken m1 lx1 = Some (c', p2, m2, lx2)" "\<And>q w. safe L m1 lx1 ds q w \<Longrightarrow> safe L m2 lx2 es q w"
    "\<forall>a. a \<notin> L \<longrightarrow> m2 a = m1 a"
    using gettoken_step [OF g(2)] by (auto simp: token_code_def)
  have bs2: "list_all2 (safe_act L m2 lx2 es) acts bs" by (rule safe_act_mono [OF bs]) (rule h(2))
  have sym: "is_symbol c" "c \<noteq> 0x77" "c \<noteq> 0" "c' \<noteq> 0x77" using lex_rep_Symbol [OF two_symbols(1)] lex_rep_Symbol [OF g(2)] by blast+
  show ?case using g(1,4) h(1,3) sym safe_act_cstr [OF bs] safe_act_cstr [OF bs2] by (subst sh_collect.simps) simp
qed

lemma sh_parse_spec:
  assumes "text_at m s cs" and "stretch s (length cs) \<subseteq> L"
  shows "\<exists>m' acts e. sh_parse opened m s lx = Some (m', acts, e)
    \<and> (case command_from opened 0 [] [] (tokens_of cs) of (bs, e') \<Rightarrow> acts_rep L m' acts bs \<and> rel_sh_end (str_in L m') e e')
    \<and> (\<forall>a. a \<notin> L \<longrightarrow> m' a = m a)"
proof -
  obtain m1 lx1 ds where g: "gettoken_start m s lx = Some (m1, lx1)" "lex_rep L m1 lx1 ds (tokens_of cs)"
    "\<forall>a. a \<notin> L \<longrightarrow> m1 a = m a"
    using gettoken_starts [OF assms] by blast
  then show ?thesis using sh_collect_spec [OF g(2), of "[]" "[]" "[]" "[]" opened 0] by (simp add: sh_parse_def)
qed

section \<open>The program to run\<close>

text \<open>
  The search of the directories of \<^verbatim>\<open>PATH\<close>, with the name put together in the buffer
  \<^verbatim>\<open>argv0buf\<close> at \<open>b\<close>; \<open>stat\<close> is the result of the call for the string at an address.
\<close>

definition BUFSIZ :: nat where "BUFSIZ = 1024"

fun path_search :: "(bmem \<Rightarrow> u32 \<Rightarrow> i32) \<Rightarrow> u32 list \<Rightarrow> u32 \<Rightarrow> bmem \<Rightarrow> u32 \<Rightarrow> (bmem \<times> u32) option" where
  "path_search stat [] b m a = Some (m, a)"
| "path_search stat (p # ps) b m a =
     Option.bind (strcpy m b p) (\<lambda>(_, m). Option.bind (strcat m b a) (\<lambda>(_, m).
       if stat m b = 0 then Some (m, b) else path_search stat ps b m a))"

definition sh_resolve :: "(bmem \<Rightarrow> u32 \<Rightarrow> i32) \<Rightarrow> u32 list \<Rightarrow> u32 \<Rightarrow> bmem \<Rightarrow> u32 \<Rightarrow> (bmem \<times> u32) option" where
  "sh_resolve stat paths b m a =
     Option.bind (path_search stat paths b m a) (\<lambda>(m, a).
       if m a \<noteq> 0x2F then Option.bind (strcpy (m(b := 0x2F)) (b + 1) a) (\<lambda>(_, m). Some (m, b))
       else Some (m, a))"

text \<open>
  The whole command, up to the call of \<^verbatim>\<open>spawn\<close>: the null pointer behind the arguments
  goes to \<^verbatim>\<open>argv[argc]\<close>, which for 16 arguments is past the end of the array.
\<close>

datatype sh_outcome = Empty_Line | Leaves | Panics | Overruns_Argv | Spawns "u32 list"

definition sh_runcmd :: "(nat \<Rightarrow> i32) \<Rightarrow> (bmem \<Rightarrow> u32 \<Rightarrow> i32) \<Rightarrow> u32 list \<Rightarrow> u32 \<Rightarrow> bmem \<Rightarrow> u32 \<Rightarrow> lexer \<Rightarrow>
    (bmem \<times> u32 sh_act list \<times> sh_outcome) option" where
  "sh_runcmd opened stat paths b m s lx =
     Option.bind (sh_parse opened m s lx) (\<lambda>(m, acts, e). case e of
       Leave \<Rightarrow> Some (m, acts, Leaves)
     | Sh_Panic \<Rightarrow> Some (m, acts, Panics)
     | Run argv \<Rightarrow>
         if argv = [] then Some (m, acts, Empty_Line)
         else Option.bind (sh_resolve stat paths b m (hd argv)) (\<lambda>(m, a).
           Some (m, acts, if length argv < MAXARGS then Spawns (a # tl argv) else Overruns_Argv)))"

text \<open>The reference: the first directory that has the program, otherwise the name made absolute.\<close>

definition sh_path :: "u8 list list" where
  "sh_path = [ascii_bytes ''/bin/'', ascii_bytes ''/'']"

definition program_path :: "(u8 list \<Rightarrow> i32) \<Rightarrow> u8 list list \<Rightarrow> u8 list \<Rightarrow> u8 list" where
  "program_path st ps name = (case find (\<lambda>p. st (p @ name) = 0) ps of
     Some p \<Rightarrow> p @ name
   | None \<Rightarrow> if hd name = 0x2F then name else 0x2F # name)"

text \<open>A string outside the buffer that fits behind a directory of \<open>PATH\<close>.\<close>

definition off_buffer :: "bmem \<Rightarrow> u32 \<Rightarrow> u32 \<Rightarrow> u8 list \<Rightarrow> bool" where
  "off_buffer m b p w \<longleftrightarrow> cstr m p w \<and> apart p (length w) b BUFSIZ"

lemma off_buffer_keep:
  assumes "off_buffer m b p w" and "\<forall>a. BUFSIZ \<le> unat (a - b) \<longrightarrow> m' a = m a"
  shows "off_buffer m' b p w"
proof -
  have "cstr m' p w = cstr m p w"
    by (rule cstr_cong) (use assms in \<open>simp add: off_buffer_def apart_def\<close>)
  then show ?thesis using assms(1) by (simp add: off_buffer_def)
qed

text \<open>What \<^verbatim>\<open>stat\<close> returns depends on the name only, while the shell looks for a program.\<close>

definition stat_of :: "(bmem \<Rightarrow> u32 \<Rightarrow> i32) \<Rightarrow> (u8 list \<Rightarrow> i32) \<Rightarrow> bool" where
  "stat_of stat st \<longleftrightarrow> (\<forall>m p w. cstr m p w \<longrightarrow> stat m p = st w)"

lemma path_search_spec:
  assumes "stat_of stat st"
    and "list_all2 (off_buffer m b) ps pss" and "off_buffer m b a name"
    and "\<forall>p \<in> set pss. length p + length name < BUFSIZ"
  shows "\<exists>m' a'. path_search stat ps b m a = Some (m', a')
    \<and> (\<forall>x. BUFSIZ \<le> unat (x - b) \<longrightarrow> m' x = m x)
    \<and> (case find (\<lambda>p. st (p @ name) = 0) pss of Some p \<Rightarrow> a' = b \<and> cstr m' b (p @ name) | None \<Rightarrow> a' = a)"
  using assms(2-4)
proof (induction ps arbitrary: pss m)
  case Nil
  then show ?case by simp
next
  case (Cons q ps)
  obtain p ss where p: "pss = p # ss" "off_buffer m b q p" "list_all2 (off_buffer m b) ps ss"
    using Cons.prems(1) by (auto simp: list_all2_Cons1)
  let ?m = "placed m b ((p @ name) @ [0])"
  have lt: "length p + length name < BUFSIZ" using Cons.prems(3) p(1) by simp
  have run: "strcpy m b q = Some (b, placed m b (p @ [0]))" "strcat (placed m b (p @ [0])) b a = Some (b, ?m)"
    using strcpy_strcat [of m q p a name BUFSIZ b] p(2) Cons.prems(2) lt by (simp_all add: off_buffer_def BUFSIZ_def)
  have same: "\<forall>x. BUFSIZ \<le> unat (x - b) \<longrightarrow> ?m x = m x" using lt by (auto intro: placed_outside)
  have "0 \<notin> set (p @ name)" using p(2) Cons.prems(2) cstr_nonzero by (auto simp: off_buffer_def)
  then have c: "cstr ?m b (p @ name)" by (rule placed_cstr) (use lt in \<open>simp add: BUFSIZ_def\<close>)
  then have stat_c: "stat ?m b = st (p @ name)" using assms(1) by (simp add: stat_of_def)
  show ?case
  proof (cases "st (p @ name) = 0")
    case True
    then show ?thesis using run c stat_c same p(1) by simp
  next
    case False
    have "list_all2 (off_buffer ?m b) ps ss" using list_all2_mono [OF p(3)] off_buffer_keep [OF _ same] by blast
    moreover have "\<forall>p \<in> set ss. length p + length name < BUFSIZ" using Cons.prems(3) p(1) by simp
    ultimately obtain m' a' where "path_search stat ps b ?m a = Some (m', a')"
      "\<forall>x. BUFSIZ \<le> unat (x - b) \<longrightarrow> m' x = ?m x"
      "case find (\<lambda>p. st (p @ name) = 0) ss of Some p \<Rightarrow> a' = b \<and> cstr m' b (p @ name) | None \<Rightarrow> a' = a"
      using Cons.IH [OF _ off_buffer_keep [OF Cons.prems(2) same]] by blast
    then show ?thesis using run stat_c False same p(1) by simp
  qed
qed

lemma sh_resolve_spec:
  assumes "stat_of stat st"
    and "list_all2 (off_buffer m b) paths sh_path" and "off_buffer m b a name"
    and "name \<noteq> []" and "length name < BUFSIZ - 5"
  shows "\<exists>m' a'. sh_resolve stat paths b m a = Some (m', a') \<and> cstr m' a' (program_path st sh_path name)
    \<and> (\<forall>x. BUFSIZ \<le> unat (x - b) \<longrightarrow> m' x = m x)"
proof -
  have len: "\<forall>p \<in> set sh_path. length p + length name < BUFSIZ" "\<forall>p \<in> set sh_path. hd p = 0x2F \<and> p \<noteq> []"
    using assms(5) by (simp_all add: sh_path_def ascii_bytes_def BUFSIZ_def)
  obtain m1 a1 where m1: "path_search stat paths b m a = Some (m1, a1)" "\<forall>x. BUFSIZ \<le> unat (x - b) \<longrightarrow> m1 x = m x"
    "case find (\<lambda>p. st (p @ name) = 0) sh_path of Some p \<Rightarrow> a1 = b \<and> cstr m1 b (p @ name) | None \<Rightarrow> a1 = a"
    using path_search_spec [OF assms(1-3) len(1)] by blast
  show ?thesis
  proof (cases "find (\<lambda>p. st (p @ name) = 0) sh_path")
    case (Some p)
    then have "p \<in> set sh_path" by (auto simp: find_Some_iff)
    then have "hd p = 0x2F" "p \<noteq> []" using len(2) by blast+
    then have "p = 0x2F # tl p" by (metis list.collapse)
    then obtain ps where "p = 0x2F # ps" by blast
    then show ?thesis using m1 Some by (simp add: sh_resolve_def program_path_def)
  next
    case None
    have o: "off_buffer m1 b a name" by (rule off_buffer_keep [OF assms(3) m1(2)])
    then have c: "cstr m1 a name" "apart a (length name) b BUFSIZ" by (simp_all add: off_buffer_def)
    have h: "m1 a = hd name" using c(1) assms(4) by (cases name) simp_all
    show ?thesis
    proof (cases "hd name = 0x2F")
      case True
      then show ?thesis using m1 None h c by (simp add: sh_resolve_def program_path_def)
    next
      case False
      let ?m = "placed m1 b ((0x2F # name) @ [0])"
      have "m1(b := 0x2F) = placed m1 b [0x2F]" by (simp add: placed_Cons)
      moreover have "apart a (length name) b (Suc 0)" using apart_sub [OF c(2), of 0 1] by (simp add: BUFSIZ_def)
      ultimately have "cstr (m1(b := 0x2F)) a name" using placed_keeps_cstr [of a name b "[0x2F]" m1] c(1) by simp
      then have "strcpy (m1(b := 0x2F)) (b + 1) a = Some (b + 1, placed (m1(b := 0x2F)) (b + 1) (name @ [0]))"
        by (rule strcpy_places)
          (use apart_sub [OF c(2), of 1 "Suc (length name)"] assms(5) in \<open>simp_all add: BUFSIZ_def\<close>)
      moreover have "placed (m1(b := 0x2F)) (b + 1) (name @ [0]) = ?m"
        using placed_Cons [of "name @ [0]" m1 b "0x2F"] assms(5) by (simp add: BUFSIZ_def)
      moreover have "cstr ?m b (0x2F # name)"
        by (rule placed_cstr) (use cstr_nonzero [OF c(1)] assms(5) in \<open>auto simp: BUFSIZ_def\<close>)
      moreover have "\<forall>x. BUFSIZ \<le> unat (x - b) \<longrightarrow> ?m x = m x"
        using m1(2) assms(5) by (auto intro: trans [OF placed_outside])
      ultimately show ?thesis using m1 None h False by (simp add: sh_resolve_def program_path_def)
    qed
  qed
qed

section \<open>From the line to the program\<close>

text \<open>What a line makes the shell do, over its bytes.\<close>

datatype sh_request = Ask_Nothing | Ask_Leave | Ask_Panic | Ask_Overrun | Ask_Spawn "u8 list list"

definition request_of :: "(nat \<Rightarrow> i32) \<Rightarrow> (u8 list \<Rightarrow> i32) \<Rightarrow> u8 list \<Rightarrow> u8 list sh_act list \<times> sh_request" where
  "request_of opened st cs = (case command_from opened 0 [] [] (tokens_of cs) of (acts, e) \<Rightarrow> (acts, case e of
     Leave \<Rightarrow> Ask_Leave
   | Sh_Panic \<Rightarrow> Ask_Panic
   | Run ws \<Rightarrow> if ws = [] then Ask_Nothing
       else if 16 \<le> length ws then Ask_Overrun
       else Ask_Spawn (program_path st sh_path (hd ws) # tl ws)))"

fun outcome_rep :: "bmem \<Rightarrow> sh_outcome \<Rightarrow> sh_request \<Rightarrow> bool" where
  "outcome_rep m Empty_Line Ask_Nothing = True"
| "outcome_rep m Leaves Ask_Leave = True"
| "outcome_rep m Panics Ask_Panic = True"
| "outcome_rep m Overruns_Argv Ask_Overrun = True"
| "outcome_rep m (Spawns ps) (Ask_Spawn ws) = list_all2 (cstr m) ps ws"
| "outcome_rep m x y = False"

lemma str_in_keep: "str_in L m p w \<Longrightarrow> \<forall>a \<in> L. m' a = m a \<Longrightarrow> str_in L m' p w"
  unfolding str_in_def using cstr_cong [of w m' p m] by (auto simp: stretch_def)

lemma acts_rep_keep: "acts_rep L m xs ys \<Longrightarrow> \<forall>a \<in> L. m' a = m a \<Longrightarrow> acts_rep L m' xs ys"
  unfolding acts_rep_def by (erule list_all2_mono) (auto elim!: sh_act.rel_mono_strong intro: str_in_keep)

lemma tokens_words: "Word w \<in> set (tokens_of cs) \<Longrightarrow> w \<noteq> [] \<and> length w \<le> length cs"
proof (induction cs rule: tokens_of.induct)
  case (1 cs)
  show ?case
  proof (cases "dropWhile is_white cs")
    case Nil
    then show ?thesis using 1(3) tokens_of_Nil by simp
  next
    case (Cons d ds)
    have len: "length (d # ds) \<le> length cs" using length_dropWhile_le [of is_white cs] Cons by simp
    have nw: "\<not> is_white d" using hd_dropWhile [of is_white cs] Cons by simp
    show ?thesis
    proof (cases "is_symbol d")
      case True
      then have "Word w \<in> set (tokens_of ds)" using 1(3) tokens_of_Symbol [OF Cons True] by simp
      then show ?thesis using 1(1) [OF Cons True] len by simp
    next
      case False
      have p: "is_plain d" using nw False by (simp add: is_plain_def)
      let ?w = "takeWhile is_plain (d # ds)" and ?es = "dropWhile is_plain (d # ds)"
      have l: "length ?w \<le> length cs" "length ?es \<le> length cs"
        using length_takeWhile_le [of is_plain "d # ds"] length_dropWhile_le [of is_plain "d # ds"] len by linarith+
      have "w = ?w \<or> Word w \<in> set (tokens_of ?es)" using 1(3) tokens_of_Word [OF Cons False] by auto
      then show ?thesis
      proof
        assume "w = ?w"
        then show ?thesis using p l(1) by simp
      next
        assume "Word w \<in> set (tokens_of ?es)"
        from 1(2) [OF Cons False this] l(2) show ?thesis by simp
      qed
    qed
  qed
qed

lemma command_words:
  "command_from opened n ws bs ts = (x, Run vs) \<Longrightarrow> set vs \<subseteq> set ws \<union> {w. Word w \<in> set ts}"
  by (induction opened n ws bs ts rule: command_from.induct) (auto simp: Let_def split: if_splits)

lemma command_length:
  "command_from opened n ws bs ts = (x, Run vs) \<Longrightarrow> length ws \<le> 16 \<Longrightarrow> length vs \<le> 16"
  by (induction opened n ws bs ts rule: command_from.induct) (auto simp: Let_def split: if_splits)

text \<open>
  Where things lie: the line, the strings of \<^verbatim>\<open>PATH\<close> and the buffer are apart from each other,
  and the line is short enough for any of its words to fit behind a directory.
\<close>

definition shell_layout :: "bmem \<Rightarrow> u32 \<Rightarrow> u32 list \<Rightarrow> u32 \<Rightarrow> u8 list \<Rightarrow> bool" where
  "shell_layout m b paths s cs \<longleftrightarrow> text_at m s cs \<and> length cs < BUFSIZ - 5 \<and> apart s (length cs) b BUFSIZ
     \<and> list_all2 (\<lambda>p w. off_buffer m b p w \<and> stretch p (length w) \<inter> stretch s (length cs) = {}) paths sh_path"

lemma sh_runcmd_spec:
  assumes "stat_of stat st" and "shell_layout m b paths s cs"
  defines "L \<equiv> stretch s (length cs)"
  shows "\<exists>m' acts e. sh_runcmd opened stat paths b m s lx = Some (m', acts, e)
    \<and> (case request_of opened st cs of (bs, q) \<Rightarrow> acts_rep L m' acts bs \<and> outcome_rep m' e q)"
proof -
  have tx: "text_at m s cs" and short: "length cs < BUFSIZ - 5"
    and off: "\<forall>a \<in> L. BUFSIZ \<le> unat (a - b)"
    and dirs: "list_all2 (\<lambda>p w. off_buffer m b p w \<and> stretch p (length w) \<inter> L = {}) paths sh_path"
    using assms(2) by (auto simp: shell_layout_def apart_def stretch_def L_def)
  obtain bs e' where c: "command_from opened 0 [] [] (tokens_of cs) = (bs, e')"
    by (cases "command_from opened 0 [] [] (tokens_of cs)")
  have "\<exists>m' acts e. sh_parse opened m s lx = Some (m', acts, e) \<and> (acts_rep L m' acts bs \<and> rel_sh_end (str_in L m') e e')
      \<and> (\<forall>a. a \<notin> L \<longrightarrow> m' a = m a)"
    using sh_parse_spec [OF tx subset_refl, of opened lx] unfolding L_def c prod.case .
  then obtain m1 acts e where p: "sh_parse opened m s lx = Some (m1, acts, e)" "\<forall>a. a \<notin> L \<longrightarrow> m1 a = m a"
    and acts: "acts_rep L m1 acts bs" and e: "rel_sh_end (str_in L m1) e e'" by blast
  show ?thesis
  proof (cases e')
    case (Run ws)
    then obtain argv where argv: "e = Run argv" "list_all2 (str_in L m1) argv ws" using e by (cases e) auto
    have len: "length argv = length ws" using argv(2) by (rule list_all2_lengthD)
    show ?thesis
    proof (cases ws)
      case Nil
      then show ?thesis using p(1) c Run argv acts by (simp add: sh_runcmd_def request_of_def)
    next
      case (Cons w vs)
      then obtain q qs where q: "argv = q # qs" "str_in L m1 q w" "list_all2 (str_in L m1) qs vs"
        using argv(2) by (cases argv) auto
      have "Word w \<in> set (tokens_of cs)" using command_words [OF c [unfolded Run]] Cons by auto
      then have w: "w \<noteq> []" "length w < BUFSIZ - 5" using tokens_words short by force+
      have ob: "off_buffer m1 b q w" using q(2) off
        by (auto simp: str_in_def off_buffer_def apart_def stretch_def)
      have "list_all2 (off_buffer m1 b) paths sh_path"
        using dirs
      proof (rule list_all2_mono)
        fix x y assume a: "off_buffer m b x y \<and> stretch x (length y) \<inter> L = {}"
        have "cstr m1 x y = cstr m x y"
          by (rule cstr_cong) (use a p(2) in \<open>auto simp: stretch_def\<close>)
        then show "off_buffer m1 b x y" using a by (simp add: off_buffer_def)
      qed
      from sh_resolve_spec [OF assms(1) this ob w] obtain m2 a2 where r: "sh_resolve stat paths b m1 q = Some (m2, a2)"
        "cstr m2 a2 (program_path st sh_path w)" "\<forall>x. BUFSIZ \<le> unat (x - b) \<longrightarrow> m2 x = m1 x" by blast
      have same: "\<forall>a \<in> L. m2 a = m1 a" using r(3) off by blast
      have "list_all2 (cstr m2) qs vs"
        using q(3) by (rule list_all2_mono) (use str_in_keep [OF _ same] in \<open>auto simp: str_in_def\<close>)
      then show ?thesis
        using p(1) c Run argv(1) q(1) r Cons len acts_rep_keep [OF acts same]
        by (simp add: sh_runcmd_def request_of_def MAXARGS_def)
    qed
  next
    case Leave
    then show ?thesis using p(1) c e acts by (cases e) (auto simp: sh_runcmd_def request_of_def)
  next
    case Sh_Panic
    then show ?thesis using p(1) c e acts by (cases e) (auto simp: sh_runcmd_def request_of_def)
  qed
qed

section \<open>An example\<close>

text \<open>
  The line \<^verbatim>\<open>ls<f -l\<close> at 0x10000, \<^verbatim>\<open>PATH\<close> at 0x20000 and a file system that has every
  program.
\<close>

definition sh_line :: "u8 list" where
  "sh_line = [0x6C, 0x73, 0x3C, 0x66, 0x20, 0x2D, 0x6C]"

definition sh_memory :: bmem where
  "sh_memory = placed (placed (placed (\<lambda>_. 0xCC) 0x10000 (sh_line @ [0])) 0x20000 (ascii_bytes ''/bin/'' @ [0]))
     0x20010 (ascii_bytes ''/'' @ [0])"

lemma stretch_list: "stretch p n = set (map (\<lambda>i. p + of_nat i) [0 ..< Suc n])"
  by (simp only: stretch_def set_map set_upt lessThan_Suc_atMost [symmetric] atLeast0LessThan)

lemma sh_example:
  "stat_of (\<lambda>_ _. 0) (\<lambda>_. 0)" "shell_layout sh_memory 0xEEBFD000 [0x20000, 0x20010] 0x10000 sh_line"
  "request_of (\<lambda>_. 0) (\<lambda>_. 0) sh_line
    = ([Open_File [0x66] O_RDONLY], Ask_Spawn [ascii_bytes ''/bin/ls'', [0x2D, 0x6C]])"
proof -
  show "stat_of (\<lambda>_ _. 0) (\<lambda>_. 0)" by (simp add: stat_of_def)
  have "text_at sh_memory 0x10000 sh_line"
    by (simp add: text_at_def sh_memory_def sh_line_def placed_def ascii_bytes_def all_le_list)
  moreover have "apart 0x10000 (length sh_line) 0xEEBFD000 BUFSIZ"
    by (simp add: apart_def sh_line_def BUFSIZ_def all_le_list)
  moreover have "off_buffer sh_memory 0xEEBFD000 0x20000 (ascii_bytes ''/bin/'')"
    "off_buffer sh_memory 0xEEBFD000 0x20010 (ascii_bytes ''/'')"
    by (simp_all add: off_buffer_def apart_def sh_memory_def sh_line_def placed_def ascii_bytes_def BUFSIZ_def all_le_list)
  moreover have "stretch 0x20000 5 \<inter> stretch 0x10000 7 = {}" "stretch 0x20010 1 \<inter> stretch 0x10000 7 = {}"
    by (simp_all add: stretch_list upt_rec del: set_upt set_map)
  moreover have "length sh_line = 7" "length (ascii_bytes ''/bin/'') = 5" "length (ascii_bytes ''/'') = 1"
    by (simp_all add: sh_line_def ascii_bytes_def)
  ultimately show "shell_layout sh_memory 0xEEBFD000 [0x20000, 0x20010] 0x10000 sh_line"
    by (simp add: shell_layout_def sh_path_def BUFSIZ_def)
  have "tokens_of sh_line = [Word [0x6C, 0x73], Symbol 0x3C, Word [0x66], Word [0x2D, 0x6C]]"
    by (simp add: sh_line_def tokens_of.simps is_white_def is_symbol_def is_plain_def)
  then show "request_of (\<lambda>_. 0) (\<lambda>_. 0) sh_line
    = ([Open_File [0x66] O_RDONLY], Ask_Spawn [ascii_bytes ''/bin/ls'', [0x2D, 0x6C]])"
    by (simp add: request_of_def Let_def program_path_def sh_path_def ascii_bytes_def)
qed

end
