(* ===== verification/Jos_Args.thy ===== *)
theory Jos_Args
  imports Jos_CString
begin

text \<open>
  \<^verbatim>\<open>lib/args.c\<close>: the argument parser of the user programs. Memory is read only; the
  argument array is the list of its pointers, the null pointer at the end included, and the caller's
  \<^verbatim>\<open>argc\<close> is a component of the state. The empty string that \<^verbatim>\<open>curarg\<close> points to
  before the first flag lives at a parameter address.
\<close>

section \<open>The parser\<close>

record Argstate =
  argc :: nat
  argv :: "u32 list"
  curarg :: u32
  argvalue :: u32

definition argstart :: "u32 \<Rightarrow> nat \<Rightarrow> u32 list \<Rightarrow> Argstate" where
  "argstart e n av = \<lparr>argc = n, argv = av, curarg = (if 1 < n then e else 0), argvalue = 0\<rparr>"

text \<open>
  \<^verbatim>\<open>memmove\<close> of the \<^verbatim>\<open>argc - 1\<close> pointers behind \<^verbatim>\<open>argv[1]\<close> down by one, and the
  decrement of \<^verbatim>\<open>argc\<close>.
\<close>

definition shift_args :: "Argstate \<Rightarrow> Argstate" where
  "shift_args a = a\<lparr>argc := argc a - 1,
     argv := take 1 (argv a) @ take (argc a - 1) (drop 2 (argv a)) @ drop (argc a) (argv a)\<rparr>"

definition end_of_args :: "Argstate \<Rightarrow> i32 \<times> Argstate" where
  "end_of_args a = (- 1, a\<lparr>curarg := 0\<rparr>)"

definition next_char :: "bmem \<Rightarrow> Argstate \<Rightarrow> i32 \<times> Argstate" where
  "next_char m a = (b2i (m (curarg a)), a\<lparr>curarg := curarg a + 1\<rparr>)"

definition argnext :: "bmem \<Rightarrow> Argstate \<Rightarrow> i32 \<times> Argstate" where
  "argnext m a =
     (let a = a\<lparr>argvalue := 0\<rparr> in
      if curarg a = 0 then (- 1, a)
      else if m (curarg a) = 0 then
        if argc a = 1 \<or> m (argv a ! 1) \<noteq> 0x2D \<or> m (argv a ! 1 + 1) = 0 then end_of_args a
        else let a = shift_args (a\<lparr>curarg := argv a ! 1 + 1\<rparr>) in
          if m (curarg a) = 0x2D \<and> m (curarg a + 1) = 0 then end_of_args a else next_char m a
      else next_char m a)"

definition argnextvalue :: "u32 \<Rightarrow> bmem \<Rightarrow> Argstate \<Rightarrow> u32 \<times> Argstate" where
  "argnextvalue e m a =
     (if curarg a = 0 then (0, a)
      else let a = (if m (curarg a) \<noteq> 0 then a\<lparr>argvalue := curarg a, curarg := e\<rparr>
          else if 1 < argc a then shift_args (a\<lparr>argvalue := argv a ! 1\<rparr>)
          else a\<lparr>argvalue := 0, curarg := 0\<rparr>)
        in (argvalue a, a))"

definition argvalue_of :: "u32 \<Rightarrow> bmem \<Rightarrow> Argstate \<Rightarrow> u32 \<times> Argstate" where
  "argvalue_of e m a = (if argvalue a \<noteq> 0 then (argvalue a, a) else argnextvalue e m a)"

text \<open>The loop of a client: all flags up to the first failure.\<close>

partial_function (option) all_flags :: "bmem \<Rightarrow> Argstate \<Rightarrow> (i32 list \<times> Argstate) option" where
  "all_flags m a =
     (case argnext m a of (r, a) \<Rightarrow>
        if sint r < 0 then Some ([], a)
        else Option.bind (all_flags m a) (\<lambda>(rs, a). Some (r # rs, a)))"

section \<open>The contract\<close>

text \<open>
  The parser over strings: the rest of the current flag group, if parsing is not over, the value
  given for the current flag, and the arguments left.
\<close>

record flag_state =
  group :: "u8 list option"
  given :: "u8 list option"
  left :: "u8 list list"

definition is_flag :: "u8 list \<Rightarrow> bool" where
  "is_flag s \<longleftrightarrow> 2 \<le> length s \<and> s ! 0 = 0x2D"

fun flag_next :: "flag_state \<Rightarrow> u8 option \<times> flag_state" where
  "flag_next \<lparr>group = None, given = v, left = as\<rparr> = (None, \<lparr>group = None, given = None, left = as\<rparr>)"
| "flag_next \<lparr>group = Some (c # cs), given = v, left = as\<rparr> = (Some c, \<lparr>group = Some cs, given = None, left = as\<rparr>)"
| "flag_next \<lparr>group = Some [], given = v, left = []\<rparr> = (None, \<lparr>group = None, given = None, left = []\<rparr>)"
| "flag_next \<lparr>group = Some [], given = v, left = a # as\<rparr> =
     (if \<not> is_flag a then (None, \<lparr>group = None, given = None, left = a # as\<rparr>)
      else if a = [0x2D, 0x2D] then (None, \<lparr>group = None, given = None, left = as\<rparr>)
      else (Some (a ! 1), \<lparr>group = Some (drop 2 a), given = None, left = as\<rparr>))"

fun flag_nextvalue :: "flag_state \<Rightarrow> u8 list option \<times> flag_state" where
  "flag_nextvalue \<lparr>group = None, given = v, left = as\<rparr> = (None, \<lparr>group = None, given = v, left = as\<rparr>)"
| "flag_nextvalue \<lparr>group = Some (c # cs), given = v, left = as\<rparr> =
     (Some (c # cs), \<lparr>group = Some [], given = Some (c # cs), left = as\<rparr>)"
| "flag_nextvalue \<lparr>group = Some [], given = v, left = a # as\<rparr> =
     (Some a, \<lparr>group = Some [], given = Some a, left = as\<rparr>)"
| "flag_nextvalue \<lparr>group = Some [], given = v, left = []\<rparr> = (None, \<lparr>group = None, given = None, left = []\<rparr>)"

definition flag_value :: "flag_state \<Rightarrow> u8 list option \<times> flag_state" where
  "flag_value s = (case given s of Some v \<Rightarrow> (Some v, s) | None \<Rightarrow> flag_nextvalue s)"

text \<open>All flags of an argument list, and the arguments behind them.\<close>

fun split_flags :: "u8 list list \<Rightarrow> u8 list \<times> u8 list list" where
  "split_flags [] = ([], [])"
| "split_flags (a # as) =
     (if \<not> is_flag a then ([], a # as)
      else if a = [0x2D, 0x2D] then ([], as)
      else (tl a @ fst (split_flags as), snd (split_flags as)))"

section \<open>The code keeps the contract\<close>

text \<open>A string none of whose characters is at address 0.\<close>

fun arg_str :: "bmem \<Rightarrow> u32 \<Rightarrow> u8 list \<Rightarrow> bool" where
  "arg_str m p [] \<longleftrightarrow> p \<noteq> 0 \<and> m p = 0"
| "arg_str m p (c # cs) \<longleftrightarrow> p \<noteq> 0 \<and> m p = c \<and> c \<noteq> 0 \<and> arg_str m (p + 1) cs"

text \<open>A pointer to a string, null when there is none.\<close>

fun opt_str :: "bmem \<Rightarrow> u32 \<Rightarrow> u8 list option \<Rightarrow> bool" where
  "opt_str m p None \<longleftrightarrow> p = 0"
| "opt_str m p (Some s) \<longleftrightarrow> arg_str m p s"

definition arg_rep :: "u32 \<Rightarrow> bmem \<Rightarrow> Argstate \<Rightarrow> flag_state \<Rightarrow> bool" where
  "arg_rep e m a s \<longleftrightarrow> arg_str m e []
     \<and> opt_str m (curarg a) (group s)
     \<and> opt_str m (argvalue a) (given s)
     \<and> argc a = Suc (length (left s)) \<and> argc a < length (argv a)
     \<and> list_all2 (arg_str m) (take (length (left s)) (tl (argv a))) (left s)"

lemma arg_str_nonnull: "arg_str m p s \<Longrightarrow> p \<noteq> 0"
  by (cases s) simp_all

lemma arg_str_cstr: "arg_str m p s \<Longrightarrow> cstr m p s"
  by (induction s arbitrary: p) simp_all

lemma arg_repE:
  assumes "arg_rep e m a s" and "left s = x # xs"
  obtains n p ps where "argv a = n # p # ps" "arg_str m p x" "length xs \<le> length ps" "argc a = Suc (Suc (length xs))"
    "list_all2 (arg_str m) (take (length xs) ps) xs" "Suc (length xs) < length (p # ps)"
proof -
  from assms obtain n rest where r: "argv a = n # rest" by (cases "argv a") (auto simp: arg_rep_def)
  from assms r obtain p ps where "rest = p # ps" by (cases rest) (auto simp: arg_rep_def)
  then show thesis using that [of n p ps] assms r by (auto simp: arg_rep_def)
qed

lemma shift_args_left:
  assumes "argv a = n # p # ps" and "argc a = Suc (Suc k)" and "k < length ps"
  shows "argc (shift_args a) = Suc k" and "\<exists>qs. argv (shift_args a) = n # qs \<and> take k qs = take k ps \<and> k < length qs"
    and "curarg (shift_args a) = curarg a" and "argvalue (shift_args a) = argvalue a"
  using assms by (auto simp: shift_args_def)

lemma arg_rep_shift:
  assumes "arg_rep e m a s" and "left s = x # xs"
  shows "arg_rep e m (shift_args a) (s\<lparr>left := xs\<rparr>)"
proof -
  obtain n p ps where r: "argv a = n # p # ps" "argc a = Suc (Suc (length xs))"
    "list_all2 (arg_str m) (take (length xs) ps) xs" "length xs < length ps"
    by (rule arg_repE [OF assms]) simp
  obtain qs where q: "argv (shift_args a) = n # qs" "take (length xs) qs = take (length xs) ps" "length xs < length qs"
    using shift_args_left(2) [OF r(1,2,4)] by blast
  show ?thesis using assms(1) r q shift_args_left(1,3,4) [OF r(1,2,4)] by (simp add: arg_rep_def)
qed

definition flag_code :: "u8 option \<Rightarrow> i32" where
  "flag_code r = (case r of None \<Rightarrow> - 1 | Some c \<Rightarrow> b2i c)"

lemma argnext_refines:
  assumes "arg_rep e m a s"
  shows "fst (argnext m a) = flag_code (fst (flag_next s)) \<and> arg_rep e m (snd (argnext m a)) (snd (flag_next s))"
proof -
  have rep0: "arg_rep e m (a\<lparr>argvalue := 0\<rparr>) (s\<lparr>given := None\<rparr>)" using assms by (simp add: arg_rep_def)
  obtain g v l where s: "s = \<lparr>group = g, given = v, left = l\<rparr>" by (cases s) auto
  show ?thesis
  proof (cases "\<exists>x xs. g = Some [] \<and> l = x # xs")
    case False
    then consider "g = None" | c cs where "g = Some (c # cs)" | "g = Some []" "l = []"
      by (cases g; cases "the g"; cases l) auto
    then show ?thesis
      by cases (use rep0 in \<open>auto simp: s argnext_def flag_code_def arg_rep_def end_of_args_def next_char_def\<close>)
  next
    case True
    then obtain x xs where x: "g = Some []" "l = x # xs" by blast
    obtain n p ps where r: "argv a = n # p # ps" "arg_str m p x" "argc a = Suc (Suc (length xs))"
      by (rule arg_repE [of e m a s x xs]) (use assms s x in auto)
    have cur: "curarg a \<noteq> 0" "m (curarg a) = 0" using assms s x by (auto simp: arg_rep_def)
    show ?thesis
    proof (cases "is_flag x")
      case False
      then have "m p \<noteq> 0x2D \<or> m (p + 1) = 0"
        using r(2) by (cases x; cases "tl x") (auto simp: is_flag_def)
      then show ?thesis using False r cur rep0 by (auto simp: s x argnext_def end_of_args_def flag_code_def arg_rep_def Let_def)
    next
      case True
      then obtain y ys where y: "x = 0x2D # y # ys" by (cases x; cases "tl x") (auto simp: is_flag_def)
      then have ps: "m p = 0x2D" "m (p + 1) = y" "y \<noteq> 0" "arg_str m (p + 1) (y # ys)" using r(2) by auto
      let ?b = "shift_args (a\<lparr>argvalue := 0, curarg := p + 1\<rparr>)"
      have rep1: "arg_rep e m (a\<lparr>argvalue := 0, curarg := p + 1\<rparr>) \<lparr>group = Some (y # ys), given = None, left = x # xs\<rparr>"
        using rep0 ps by (simp add: s x arg_rep_def)
      have rep2: "arg_rep e m ?b \<lparr>group = Some (y # ys), given = None, left = xs\<rparr>"
        using arg_rep_shift [OF rep1] by simp
      have cb: "curarg ?b = p + 1" by (simp add: shift_args_def)
      have dd: "x = [0x2D, 0x2D] \<longleftrightarrow> m (curarg ?b) = 0x2D \<and> m (curarg ?b + 1) = 0"
        using ps y unfolding cb by (cases ys) auto
      have run: "argnext m a = (if x = [0x2D, 0x2D] then end_of_args ?b else next_char m ?b)"
        unfolding dd using cur r(1,3) ps by (simp add: argnext_def Let_def)
      show ?thesis
        using run rep2 True cb ps y by (auto simp: s x flag_code_def end_of_args_def next_char_def arg_rep_def)
    qed
  qed
qed

lemma argnextvalue_refines:
  assumes "arg_rep e m a s"
  shows "opt_str m (fst (argnextvalue e m a)) (fst (flag_nextvalue s))
    \<and> arg_rep e m (snd (argnextvalue e m a)) (snd (flag_nextvalue s))"
proof -
  obtain g v l where s: "s = \<lparr>group = g, given = v, left = l\<rparr>" by (cases s) auto
  consider "g = None" | c cs where "g = Some (c # cs)" | "g = Some []" "l = []" | x xs where "g = Some []" "l = x # xs"
    by (cases g; cases "the g"; cases l) auto
  then show ?thesis
  proof cases
    case 4
    obtain n p ps where r: "argv a = n # p # ps" "arg_str m p x" "argc a = Suc (Suc (length xs))"
      by (rule arg_repE [of e m a s x xs]) (use assms s 4 in auto)
    have "arg_rep e m (a\<lparr>argvalue := p\<rparr>) \<lparr>group = Some [], given = Some x, left = x # xs\<rparr>"
      using assms r by (simp add: s 4 arg_rep_def)
    from arg_rep_shift [OF this] show ?thesis
      using assms r by (auto simp: s 4 argnextvalue_def Let_def arg_rep_def shift_args_def)
  qed (use assms arg_str_nonnull in \<open>auto simp: s argnextvalue_def arg_rep_def Let_def\<close>)
qed

lemma argvalue_refines:
  assumes "arg_rep e m a s"
  shows "opt_str m (fst (argvalue_of e m a)) (fst (flag_value s))
    \<and> arg_rep e m (snd (argvalue_of e m a)) (snd (flag_value s))"
proof (cases "given s")
  case None
  then have "argvalue a = 0" using assms by (simp add: arg_rep_def)
  then show ?thesis using argnextvalue_refines [OF assms] None by (simp add: argvalue_of_def flag_value_def)
next
  case (Some v)
  then have "arg_str m (argvalue a) v" using assms by (simp add: arg_rep_def)
  then show ?thesis using assms Some arg_str_nonnull by (simp add: argvalue_of_def flag_value_def)
qed

section \<open>Reading all flags\<close>

lemma flag_code_neg: "sint (flag_code r) < 0 \<longleftrightarrow> r = None"
proof (cases r)
  case (Some c)
  have "sint (b2i c - b2i 0) = uint c - uint (0 :: u8)" by (rule sint_b2i_diff)
  then show ?thesis using Some by (simp add: flag_code_def)
qed (simp add: flag_code_def)

lemma all_flags_split:
  assumes "arg_rep e m a s" and "group s = Some g"
  shows "\<exists>b. all_flags m a = Some (map b2i (g @ fst (split_flags (left s))), b)
    \<and> arg_rep e m b \<lparr>group = None, given = None, left = snd (split_flags (left s))\<rparr>"
  using assms
proof (induction "length g + sum_list (map length (left s)) + length (left s)" arbitrary: a s g rule: less_induct)
  case less
  obtain v l where s: "s = \<lparr>group = Some g, given = v, left = l\<rparr>" using less.prems by (cases s) auto
  note ref = argnext_refines [OF less.prems(1)]
  have stop: "all_flags m a = Some ([], snd (argnext m a))" if "fst (flag_next s) = None"
    using ref that flag_code_neg [of None] by (subst all_flags.simps) (simp add: case_prod_beta)
  have step: "\<exists>b. all_flags m a = Some (map b2i (c # cs @ fst (split_flags xs)), b)
      \<and> arg_rep e m b \<lparr>group = None, given = None, left = snd (split_flags xs)\<rparr>"
    if n: "flag_next s = (Some c, \<lparr>group = Some cs, given = None, left = xs\<rparr>)"
      and lt: "length cs + sum_list (map length xs) + length xs < length g + sum_list (map length l) + length l" for c cs xs
  proof -
    have "arg_rep e m (snd (argnext m a)) \<lparr>group = Some cs, given = None, left = xs\<rparr>" using ref n by simp
    from less.hyps [OF _ this, of cs] lt obtain b where b:
      "all_flags m (snd (argnext m a)) = Some (map b2i (cs @ fst (split_flags xs)), b)"
      "arg_rep e m b \<lparr>group = None, given = None, left = snd (split_flags xs)\<rparr>" by (auto simp: s)
    have "fst (argnext m a) = b2i c" "\<not> sint (b2i c) < 0"
      using ref n flag_code_neg [of "Some c"] by (simp_all add: flag_code_def)
    then show ?thesis using b by (subst all_flags.simps) (simp add: case_prod_beta)
  qed
  consider c cs where "g = c # cs" | "g = []" "l = []" | x xs where "g = []" "l = x # xs" "\<not> is_flag x"
    | xs where "g = []" "l = [0x2D, 0x2D] # xs" | x xs where "g = []" "l = x # xs" "is_flag x" "x \<noteq> [0x2D, 0x2D]"
    by (cases g; cases l) auto
  then show ?case
  proof cases
    case 1
    then show ?thesis using step [of c cs l] by (simp add: s)
  next
    case 5
    then obtain y ys where y: "x = 0x2D # y # ys" by (cases x; cases "tl x") (auto simp: is_flag_def)
    then have nd: "(y = 0x2D \<and> ys = []) = False" using 5 by auto
    have "flag_next s = (Some y, \<lparr>group = Some ys, given = None, left = xs\<rparr>)"
      "split_flags l = (y # ys @ fst (split_flags xs), snd (split_flags xs))"
      using 5(1-3) y nd by (simp_all add: s)
    then show ?thesis using step [of y ys xs] 5 y by (simp add: s)
  qed (use stop ref in \<open>auto simp: s is_flag_def\<close>)
qed

lemma argstart_rep:
  assumes "arg_str m e []" and "length args < length av - 1" and "list_all2 (arg_str m) (take (length args) (tl av)) args"
  shows "arg_rep e m (argstart e (Suc (length args)) av)
    \<lparr>group = (if args = [] then None else Some []), given = None, left = args\<rparr>"
  using assms by (auto simp: arg_rep_def argstart_def)

lemma all_flags_from_start:
  assumes "arg_str m e []" and "length args < length av - 1" and "list_all2 (arg_str m) (take (length args) (tl av)) args"
  shows "\<exists>b. all_flags m (argstart e (Suc (length args)) av) = Some (map b2i (fst (split_flags args)), b)
    \<and> arg_rep e m b \<lparr>group = None, given = None, left = snd (split_flags args)\<rparr>"
proof (cases "args = []")
  case True
  then show ?thesis using argstart_rep [OF assms]
    by (subst all_flags.simps) (auto simp: argnext_def argstart_def Let_def arg_rep_def)
next
  case False
  then show ?thesis using all_flags_split [OF argstart_rep [OF assms], of "[]"] by simp
qed

section \<open>An example\<close>

text \<open>The arguments \<^verbatim>\<open>-rx -- duh\<close>, strings at 0x1000 on, the empty string at 0xF00.\<close>

definition args_memory :: bmem where
  "args_memory = (\<lambda>_. 0)(0x1000 := 0x2D, 0x1001 := 0x72, 0x1002 := 0x78, 0x1008 := 0x2D, 0x1009 := 0x2D,
     0x1010 := 0x64, 0x1011 := 0x75, 0x1012 := 0x68)"

lemma args_example:
  "arg_str args_memory 0xF00 []"
  "list_all2 (arg_str args_memory) [0x1000, 0x1008, 0x1010] [[0x2D, 0x72, 0x78], [0x2D, 0x2D], [0x64, 0x75, 0x68]]"
  "split_flags [[0x2D, 0x72, 0x78], [0x2D, 0x2D], [0x64, 0x75, 0x68]] = ([0x72, 0x78], [[0x64, 0x75, 0x68]])"
  by (simp_all add: args_memory_def is_flag_def)

end
