(* ===== verification/Jos_Spawn.thy ===== *)
theory Jos_Spawn
  imports Jos_CCopy Jos_Mmu
begin

text \<open>
  \<^verbatim>\<open>lib/spawn.c\<close>: the stack page a new program starts with, and the loading of its
  segments, over the part of memory they use: the caller's bytes, the page frame it has mapped at
  \<^verbatim>\<open>UTEMP\<close> and the frames mapped by the child. Whether a call of the kernel or the file system
  succeeds, and what a file holds, are parameters.
\<close>

section \<open>Two address spaces\<close>

datatype spawn_call = Page_alloc u32 u32 u32 | Page_map u32 u32 u32 u32 u32 | Page_unmap u32 u32
  | Seek i32 i32 | Readn i32 u32 u32

text \<open>
  \<open>sp_ram\<close> is the caller's memory; while a frame is mapped at \<^verbatim>\<open>UTEMP\<close>, the bytes
  there are those of the frame, and while none is mapped, an access there faults. \<open>sp_frame\<close>
  holds the bytes of the frames that are not mapped there, \<open>sp_child\<close> the frames and permissions
  of the child's pages, \<open>sp_next\<close> the next unused frame, \<open>sp_pos\<close> the position of the program's
  file and \<open>sp_made\<close> the calls made so far.
\<close>

record spaces =
  sp_ram :: bmem
  sp_temp :: "nat option"
  sp_frame :: "nat \<Rightarrow> nat \<Rightarrow> u8"
  sp_next :: nat
  sp_child :: "u32 \<Rightarrow> (nat \<times> u32) option"
  sp_pos :: i32
  sp_made :: "spawn_call list"

text \<open>
  The parameters: \<open>answer\<close> of the \<open>n\<close>-th call, negative when it fails and has no effect, and the
  bytes a read of so many bytes at a position of the file gives.
\<close>

record outside =
  answer :: "nat \<Rightarrow> i32"
  file_bytes :: "i32 \<Rightarrow> nat \<Rightarrow> u8 list"

abbreviation RWU :: u32 where
  "RWU \<equiv> PTE_P OR PTE_U OR PTE_W"

definition asked :: "spawn_call \<Rightarrow> spaces \<Rightarrow> spaces" where
  "asked c s = s\<lparr>sp_made := sp_made s @ [c]\<rparr>"

definition answered :: "outside \<Rightarrow> spaces \<Rightarrow> i32" where
  "answered e s = answer e (length (sp_made s))"

text \<open>The frame at \<^verbatim>\<open>UTEMP\<close> leaves the caller's address space with the bytes it has then.\<close>

definition detach :: "spaces \<Rightarrow> spaces" where
  "detach s = (case sp_temp s of None \<Rightarrow> s
     | Some f \<Rightarrow> s\<lparr>sp_frame := (sp_frame s)(f := (\<lambda>k. sp_ram s (UTEMP + of_nat k))), sp_temp := None\<rparr>)"

definition zero_page :: "u8 list" where
  "zero_page = replicate (unat PGSIZE) 0"

lemma length_zero_page [simp]: "length zero_page = 4096"
  by (simp add: zero_page_def kconst)

definition temp_alloc :: "outside \<Rightarrow> spaces \<Rightarrow> i32 \<times> spaces" where
  "temp_alloc e s = (let r = answered e s; s = asked (Page_alloc 0 UTEMP RWU) s in
     if sint r < 0 then (r, s)
     else let s = detach s in
       (0, s\<lparr>sp_temp := Some (sp_next s), sp_next := sp_next s + 1,
         sp_ram := placed (sp_ram s) UTEMP zero_page\<rparr>))"

definition child_alloc :: "outside \<Rightarrow> u32 \<Rightarrow> u32 \<Rightarrow> u32 \<Rightarrow> spaces \<Rightarrow> i32 \<times> spaces" where
  "child_alloc e child va perm s = (let r = answered e s; s = asked (Page_alloc child va perm) s in
     if sint r < 0 then (r, s)
     else (0, s\<lparr>sp_child := (sp_child s)(va \<mapsto> (sp_next s, perm)),
       sp_frame := (sp_frame s)(sp_next s := (\<lambda>_. 0)), sp_next := sp_next s + 1\<rparr>))"

text \<open>The kernel refuses to share a page that the caller does not have.\<close>

definition temp_map :: "outside \<Rightarrow> u32 \<Rightarrow> u32 \<Rightarrow> u32 \<Rightarrow> spaces \<Rightarrow> i32 \<times> spaces" where
  "temp_map e child va perm s = (let r = answered e s; s = asked (Page_map 0 UTEMP child va perm) s in
     if sint r < 0 then (r, s)
     else case sp_temp s of None \<Rightarrow> (- E_INVAL, s)
       | Some f \<Rightarrow> (0, s\<lparr>sp_child := (sp_child s)(va \<mapsto> (f, perm))\<rparr>))"

definition temp_unmap :: "outside \<Rightarrow> spaces \<Rightarrow> i32 \<times> spaces" where
  "temp_unmap e s = (let r = answered e s; s = asked (Page_unmap 0 UTEMP) s in
     if sint r < 0 then (r, s) else (0, detach s))"

definition seek_file :: "outside \<Rightarrow> i32 \<Rightarrow> i32 \<Rightarrow> spaces \<Rightarrow> i32 \<times> spaces" where
  "seek_file e fd off s = (let r = answered e s; s = asked (Seek fd off) s in
     if sint r < 0 then (r, s) else (0, s\<lparr>sp_pos := off\<rparr>))"

text \<open>
  \<^verbatim>\<open>readn\<close> into \<^verbatim>\<open>UTEMP\<close> returns the number of bytes read, at most those asked
  for; \<open>None\<close> is the fault when no page is there. A failing read is taken to store nothing.
\<close>

definition readn_temp :: "outside \<Rightarrow> i32 \<Rightarrow> u32 \<Rightarrow> spaces \<Rightarrow> (i32 \<times> spaces) option" where
  "readn_temp e fd n s = (let r = answered e s; s = asked (Readn fd UTEMP n) s in
     if sint r < 0 then Some (r, s)
     else if sp_temp s = None then None
     else let bs = take (unat n) (file_bytes e (sp_pos s) (unat n)) in
       Some (of_nat (length bs), s\<lparr>sp_ram := placed (sp_ram s) UTEMP bs, sp_pos := sp_pos s + of_nat (length bs)\<rparr>))"

text \<open>The byte of a frame, and the byte the child finds at an address with the permissions of its page.\<close>

definition frame_byte :: "spaces \<Rightarrow> nat \<Rightarrow> nat \<Rightarrow> u8" where
  "frame_byte s f k = (if sp_temp s = Some f then sp_ram s (UTEMP + of_nat k) else sp_frame s f k)"

definition child_byte :: "spaces \<Rightarrow> u32 \<Rightarrow> (u8 \<times> u32) option" where
  "child_byte s a = map_option (\<lambda>(f, perm). (frame_byte s f (PGOFF a), perm)) (sp_child s (a - of_nat (PGOFF a)))"

definition frames_known :: "spaces \<Rightarrow> bool" where
  "frames_known s \<longleftrightarrow> (\<forall>f. sp_temp s = Some f \<longrightarrow> f < sp_next s) \<and> (\<forall>a f p. sp_child s a = Some (f, p) \<longrightarrow> f < sp_next s)"

text \<open>A step whose effect is a new page of the child, with the bytes \<open>g\<close>.\<close>

definition gives_page :: "spaces \<Rightarrow> spaces \<Rightarrow> u32 \<Rightarrow> (nat \<Rightarrow> u8) \<Rightarrow> u32 \<Rightarrow> bool" where
  "gives_page s s' va g perm \<longleftrightarrow> frames_known s' \<and> sp_next s' = Suc (sp_next s)
     \<and> sp_child s' = (sp_child s)(va \<mapsto> (sp_next s, perm))
     \<and> (\<forall>k < 4096. frame_byte s' (sp_next s) k = g k)
     \<and> (\<forall>f < sp_next s. \<forall>k < 4096. frame_byte s' f k = frame_byte s f k)
     \<and> (\<forall>a. 4096 \<le> unat (a - UTEMP) \<longrightarrow> sp_ram s' a = sp_ram s a)
     \<and> (sp_temp s = None \<longrightarrow> sp_temp s' = None)"

lemma child_alloc_gives:
  assumes "frames_known s" and "0 \<le> sint (answered e s)"
  shows "\<exists>s'. child_alloc e child va perm s = (0, s') \<and> gives_page s s' va (\<lambda>_. 0) perm"
  using assms by (auto simp: child_alloc_def Let_def asked_def gives_page_def frames_known_def frame_byte_def not_le less_Suc_eq)

section \<open>The stack page\<close>

definition word_bytes :: "u32 \<Rightarrow> u8 list" where
  "word_bytes w = [ucast w, ucast (drop_bit 8 w), ucast (drop_bit 16 w), ucast (drop_bit 24 w)]"

definition put_word :: "bmem \<Rightarrow> u32 \<Rightarrow> u32 \<Rightarrow> bmem" where
  "put_word m a w = placed m a (word_bytes w)"

definition UTEMP2USTACK :: "u32 \<Rightarrow> u32" where
  "UTEMP2USTACK a = a + (USTACKTOP - PGSIZE) - UTEMP"

fun string_size :: "bmem \<Rightarrow> u32 list \<Rightarrow> u32 \<Rightarrow> u32 option" where
  "string_size m [] n = Some n"
| "string_size m (p # ps) n = Option.bind (strlen m p) (\<lambda>l. string_size m ps (n + (l + 1)))"

text \<open>A store of so many bytes does not fault; \<open>t\<close> says whether \<^verbatim>\<open>UTEMP\<close> is mapped.\<close>

definition may_store :: "bool \<Rightarrow> u32 \<Rightarrow> nat \<Rightarrow> bool" where
  "may_store t a n \<longleftrightarrow> t \<or> list_all (\<lambda>k. 4096 \<le> unat (a + of_nat k - UTEMP)) [0 ..< n]"

text \<open>The loop over the arguments: \<open>av\<close> is the array, \<open>i\<close> the index, \<open>ss\<close> the string store.\<close>

fun fill_args :: "bool \<Rightarrow> bmem \<Rightarrow> u32 \<Rightarrow> nat \<Rightarrow> u32 \<Rightarrow> u32 list \<Rightarrow> (bmem \<times> u32) option" where
  "fill_args t m av i ss [] = Some (m, ss)"
| "fill_args t m av i ss (p # ps) =
     (if \<not> may_store t (av + 4 * of_nat i) 4 then None
      else let m = put_word m (av + 4 * of_nat i) (UTEMP2USTACK ss) in
        Option.bind (strlen m p) (\<lambda>n. if \<not> may_store t ss (unat n + 1) then None
        else Option.bind (strcpy m ss p) (\<lambda>(_, m).
          Option.bind (strlen m p) (\<lambda>l. fill_args t m av (i + 1) (ss + (l + 1)) ps))))"

text \<open>
  The result, \<^verbatim>\<open>*init_esp\<close>, which is \<open>esp\<close> before the call, and the state afterwards.
  \<open>None\<close> stands for a fault of the caller or the failed assertion.
\<close>

definition init_stack :: "outside \<Rightarrow> u32 \<Rightarrow> u32 list \<Rightarrow> u32 \<Rightarrow> spaces \<Rightarrow> (i32 \<times> u32 \<times> spaces) option" where
  "init_stack e child argv esp s =
     Option.bind (string_size (sp_ram s) argv 0) (\<lambda>n.
       let argc = length argv;
           string_store = UTEMP + PGSIZE - n;
           argv_store = ROUNDDOWN string_store 4 - 4 * (of_nat argc + 1)
       in if argv_store - 8 < UTEMP then Some (- E_NO_MEM, esp, s)
          else case temp_alloc e s of (r, s) \<Rightarrow> if sint r < 0 then Some (r, esp, s)
          else let t = (sp_temp s \<noteq> None) in
            Option.bind (fill_args t (sp_ram s) argv_store 0 string_store argv) (\<lambda>(m, ss).
            if \<not> may_store t (argv_store + 4 * of_nat argc) 4 \<or> ss \<noteq> UTEMP + PGSIZE \<or> \<not> may_store t (argv_store - 8) 8 then None
            else let m = put_word m (argv_store + 4 * of_nat argc) 0;
                m = put_word m (argv_store - 4) (UTEMP2USTACK argv_store);
                m = put_word m (argv_store - 8) (of_nat argc);
                esp = UTEMP2USTACK (argv_store - 8);
                s = s\<lparr>sp_ram := m\<rparr>
              in case temp_map e child (USTACKTOP - PGSIZE) RWU s of (r, s) \<Rightarrow>
                if sint r < 0 then Some (r, esp, snd (temp_unmap e s))
                else case temp_unmap e s of (r, s) \<Rightarrow>
                  if sint r < 0 then Some (r, esp, snd (temp_unmap e s)) else Some (0, esp, s)))"

section \<open>What the child finds on its stack\<close>

text \<open>The bytes at an offset of the page at \<^verbatim>\<open>UTEMP\<close>.\<close>

definition block :: "bmem \<Rightarrow> nat \<Rightarrow> u8 list \<Rightarrow> bool" where
  "block m x bs \<longleftrightarrow> (\<forall>i < length bs. m (UTEMP + of_nat (x + i)) = bs ! i)"

lemma small_offset: "x < 4294967296 \<Longrightarrow> unat (of_nat x :: u32) = x"
  by (simp add: unat_of_nat)

lemma offset_in_page: "x < 4294967296 \<Longrightarrow> unat (UTEMP + of_nat x - UTEMP) = x"
  by (simp add: unat_of_nat)

lemma placed_block:
  assumes "x + length bs \<le> 4294967296"
  shows "block (placed m (UTEMP + of_nat x) bs) x bs"
    and "unat (a - UTEMP) < x \<or> x + length bs \<le> unat (a - UTEMP) \<Longrightarrow> placed m (UTEMP + of_nat x) bs a = m a"
proof -
  show "block (placed m (UTEMP + of_nat x) bs) x bs"
    unfolding block_def using assms placed_at [of _ bs m "UTEMP + of_nat x"] by (auto simp: add.assoc)
  assume o: "unat (a - UTEMP) < x \<or> x + length bs \<le> unat (a - UTEMP)"
  have "\<not> unat (a - (UTEMP + of_nat x)) < length bs"
  proof
    let ?k = "a - (UTEMP + of_nat x)"
    assume k: "unat ?k < length bs"
    have "a - UTEMP = of_nat (x + unat ?k)" by simp
    then have "unat (a - UTEMP) = unat (of_nat (x + unat ?k) :: u32)" by (rule arg_cong)
    also have "\<dots> = x + unat ?k" by (rule small_offset) (use k assms in linarith)
    finally have "unat (a - UTEMP) = x + unat ?k" .
    then show False using k o by simp
  qed
  then show "placed m (UTEMP + of_nat x) bs a = m a" by (simp add: placed_def)
qed

lemma block_kept:
  assumes "block m x bs" and "x + length bs \<le> 4294967296"
    and "\<forall>a. x \<le> unat (a - UTEMP) \<longrightarrow> unat (a - UTEMP) < x + length bs \<longrightarrow> m' a = m a"
  shows "block m' x bs"
  unfolding block_def
proof (intro allI impI)
  fix i assume i: "i < length bs"
  then have "unat (UTEMP + of_nat (x + i) - UTEMP) = x + i" using assms(2) by (intro offset_in_page) simp
  then have "m' (UTEMP + of_nat (x + i)) = m (UTEMP + of_nat (x + i))" using assms(3) i by simp
  then show "m' (UTEMP + of_nat (x + i)) = bs ! i" using assms(1) i by (simp only: block_def)
qed

lemma length_word_bytes [simp]: "length (word_bytes w) = 4"
  by (simp add: word_bytes_def)

text \<open>The room the strings take, and where each one starts.\<close>

definition room :: "u8 list list \<Rightarrow> nat" where
  "room ss = sum_list (map (\<lambda>s. length s + 1) ss)"

lemma room_simps [simp]: "room [] = 0" "room (s # ss) = length s + 1 + room ss"
  by (simp_all add: room_def)

text \<open>Argument strings outside the page.\<close>

definition arg_at :: "bmem \<Rightarrow> u32 \<Rightarrow> u8 list \<Rightarrow> bool" where
  "arg_at m p s \<longleftrightarrow> cstr m p s \<and> apart p (length s) UTEMP 4096"

lemma arg_at_keep:
  assumes "arg_at m p s" and "\<forall>a. 4096 \<le> unat (a - UTEMP) \<longrightarrow> m' a = m a"
  shows "arg_at m' p s"
proof -
  have "m' (p + of_nat i) = m (p + of_nat i)" if "i \<le> length s" for i
    using assms that by (simp add: arg_at_def apart_def)
  then show ?thesis using assms(1) by (simp add: arg_at_def cstr_iff)
qed

lemma string_size_room:
  "list_all2 (arg_at m) ps ss \<Longrightarrow> string_size m ps n = Some (n + of_nat (room ss))"
proof (induction arbitrary: n rule: list_all2_induct)
  case (Cons p ps s ss)
  then show ?case using strlen_cstr [of m p s] by (simp add: arg_at_def ac_simps)
qed simp


definition args_filled :: "bmem \<Rightarrow> bmem \<Rightarrow> nat \<Rightarrow> nat \<Rightarrow> u8 list list \<Rightarrow> bool" where
  "args_filled m m' ao so ss \<longleftrightarrow>
     (\<forall>j < length ss. block m' (ao + 4 * j) (word_bytes (UTEMP2USTACK (UTEMP + of_nat (so + room (take j ss)))))
        \<and> block m' (so + room (take j ss)) (ss ! j @ [0]))
     \<and> (\<forall>a. unat (a - UTEMP) < ao \<or> ao + 4 * length ss \<le> unat (a - UTEMP) \<and> unat (a - UTEMP) < so
          \<or> so + room ss \<le> unat (a - UTEMP) \<longrightarrow> m' a = m a)"

lemma args_filled_Cons:
  assumes fits: "ao + 4 * length (s # ss) \<le> so" "so + room (s # ss) \<le> 4096"
    and word: "block m1 ao (word_bytes (UTEMP2USTACK (UTEMP + of_nat so)))" and str: "block m1 so (s @ [0])"
    and kept: "\<forall>a. unat (a - UTEMP) < ao \<or> ao + 4 \<le> unat (a - UTEMP) \<and> unat (a - UTEMP) < so
        \<or> so + (length s + 1) \<le> unat (a - UTEMP) \<longrightarrow> m1 a = m a"
    and rest: "args_filled m1 m' (ao + 4) (so + (length s + 1)) ss"
  shows "args_filled m m' ao so (s # ss)"
proof -
  have k2: "m' a = m1 a" if "unat (a - UTEMP) < ao + 4 \<or> ao + 4 + 4 * length ss \<le> unat (a - UTEMP) \<and> unat (a - UTEMP) < so + (length s + 1)
      \<or> so + (length s + 1) + room ss \<le> unat (a - UTEMP)" for a
    using rest that unfolding args_filled_def by blast
  have w: "block m' ao (word_bytes (UTEMP2USTACK (UTEMP + of_nat so)))"
    by (rule block_kept [OF word]) (use fits k2 in auto)
  have st: "block m' so (s @ [0])"
    by (rule block_kept [OF str]) (use fits k2 in auto)
  have "block m' (ao + 4 * j) (word_bytes (UTEMP2USTACK (UTEMP + of_nat (so + room (take j (s # ss))))))
      \<and> block m' (so + room (take j (s # ss))) ((s # ss) ! j @ [0])" if "j < length (s # ss)" for j
  proof (cases j)
    case 0
    then show ?thesis using w st by simp
  next
    case (Suc i)
    then have "block m' (ao + 4 + 4 * i) (word_bytes (UTEMP2USTACK (UTEMP + of_nat (so + (length s + 1) + room (take i ss)))))
        \<and> block m' (so + (length s + 1) + room (take i ss)) (ss ! i @ [0])"
      using rest that unfolding args_filled_def by auto
    then show ?thesis using Suc by (simp add: ac_simps)
  qed
  moreover have "m' a = m a" if "unat (a - UTEMP) < ao \<or> ao + 4 * length (s # ss) \<le> unat (a - UTEMP) \<and> unat (a - UTEMP) < so
      \<or> so + room (s # ss) \<le> unat (a - UTEMP)" for a
  proof -
    have "m' a = m1 a" by (rule k2) (use that fits in auto)
    moreover have "m1 a = m a" using kept that fits by auto
    ultimately show ?thesis by simp
  qed
  ultimately show ?thesis unfolding args_filled_def by blast
qed

lemma fill_args_spec:
  assumes "list_all2 (arg_at m) ps ss" and "ao + 4 * (i + length ss) \<le> so" and "so + room ss \<le> 4096"
  shows "\<exists>m'. fill_args True m (UTEMP + of_nat ao) i (UTEMP + of_nat so) ps = Some (m', UTEMP + of_nat (so + room ss))
    \<and> args_filled m m' (ao + 4 * i) so ss"
  using assms
proof (induction ps arbitrary: ss m i so)
  case Nil
  then show ?case by (simp add: args_filled_def)
next
  case (Cons p ps)
  obtain s rs where s: "ss = s # rs" "arg_at m p s" "list_all2 (arg_at m) ps rs"
    using Cons.prems(1) by (auto simp: list_all2_Cons1)
  have fits: "ao + 4 * i + 4 * length (s # rs) \<le> so" "so + room (s # rs) \<le> 4096" using Cons.prems(2,3) s(1) by simp_all
  let ?w = "word_bytes (UTEMP2USTACK (UTEMP + of_nat so))" and ?x = "ao + 4 * i"
  define m0 where "m0 = placed m (UTEMP + of_nat ?x) ?w"
  define m1 where "m1 = placed m0 (UTEMP + of_nat so) (s @ [0])"
  have k0: "m0 a = m a" if "unat (a - UTEMP) < ?x \<or> ?x + 4 \<le> unat (a - UTEMP)" for a
    unfolding m0_def by (rule placed_block(2)) (use fits that in auto)
  have k1: "m1 a = m0 a" if "unat (a - UTEMP) < so \<or> so + (length s + 1) \<le> unat (a - UTEMP)" for a
    unfolding m1_def by (rule placed_block(2)) (use fits that in auto)
  have out0: "\<forall>a. 4096 \<le> unat (a - UTEMP) \<longrightarrow> m0 a = m a" using k0 fits by auto
  have out1: "\<forall>a. 4096 \<le> unat (a - UTEMP) \<longrightarrow> m1 a = m a" using k1 out0 fits by auto
  have a0: "arg_at m0 p s" by (rule arg_at_keep [OF s(2) out0])
  have a1: "arg_at m1 p s" by (rule arg_at_keep [OF s(2) out1])
  have rs: "list_all2 (arg_at m1) ps rs" using list_all2_mono [OF s(3)] arg_at_keep [OF _ out1] by blast
  have ap: "apart p (length s) (UTEMP + of_nat so) (Suc (length s))"
    by (rule apart_sub) (use a0 fits in \<open>auto simp: arg_at_def\<close>)
  have put: "put_word m (UTEMP + of_nat ao + 4 * of_nat i) (UTEMP2USTACK (UTEMP + of_nat so)) = m0"
    by (simp add: put_word_def m0_def add.assoc)
  have cp: "strcpy m0 (UTEMP + of_nat so) p = Some (UTEMP + of_nat so, m1)"
    unfolding m1_def by (rule strcpy_places [OF _ _ ap]) (use a0 fits in \<open>auto simp: arg_at_def\<close>)
  have ln: "strlen m0 p = Some (of_nat (length s))" "strlen m1 p = Some (of_nat (length s))"
    using strlen_cstr a0 a1 by (simp_all add: arg_at_def)
  have ss: "UTEMP + of_nat so + (of_nat (length s) + 1) = UTEMP + of_nat (so + (length s + 1))" by (simp add: ac_simps)
  obtain m' where m': "fill_args True m1 (UTEMP + of_nat ao) (i + 1) (UTEMP + of_nat (so + (length s + 1))) ps
      = Some (m', UTEMP + of_nat (so + (length s + 1) + room rs))"
    "args_filled m1 m' (ao + 4 * (i + 1)) (so + (length s + 1)) rs"
    using Cons.IH [OF rs, of "i + 1" "so + (length s + 1)"] fits by auto
  have "args_filled m m' ?x so (s # rs)"
  proof (rule args_filled_Cons [OF fits])
    show "block m1 ?x ?w"
      by (rule block_kept [of m0]) (use placed_block(1) [of ?x ?w m] fits k1 in \<open>auto simp: m0_def\<close>)
    show "block m1 so (s @ [0])" unfolding m1_def by (rule placed_block(1)) (use fits in simp)
    show "\<forall>a. unat (a - UTEMP) < ?x \<or> ?x + 4 \<le> unat (a - UTEMP) \<and> unat (a - UTEMP) < so
        \<or> so + (length s + 1) \<le> unat (a - UTEMP) \<longrightarrow> m1 a = m a" using k0 k1 fits by auto
    show "args_filled m1 m' (?x + 4) (so + (length s + 1)) rs" using m'(2) by (simp add: algebra_simps)
  qed
  then show ?case using m'(1) s(1) put cp ln ss by (intro exI [of _ m']) (simp add: ac_simps may_store_def Let_def)
qed

text \<open>
  What a program expects at its initial stack pointer, in \<open>c\<close>, the bytes it can read and write.
\<close>

definition child_ram :: "spaces \<Rightarrow> u32 \<Rightarrow> u8 option" where
  "child_ram s a = (case child_byte s a of Some (b, perm) \<Rightarrow> if perm = RWU then Some b else None | None \<Rightarrow> None)"

definition word_at :: "(u32 \<Rightarrow> u8 option) \<Rightarrow> u32 \<Rightarrow> u32 \<Rightarrow> bool" where
  "word_at c a w \<longleftrightarrow> (\<forall>i < 4. c (a + of_nat i) = Some (word_bytes w ! i))"

definition string_at :: "(u32 \<Rightarrow> u8 option) \<Rightarrow> u32 \<Rightarrow> u8 list \<Rightarrow> bool" where
  "string_at c a xs \<longleftrightarrow> 0 \<notin> set xs \<and> (\<forall>i < Suc (length xs). c (a + of_nat i) = Some ((xs @ [0]) ! i))"

definition argv_stack :: "(u32 \<Rightarrow> u8 option) \<Rightarrow> u32 \<Rightarrow> u8 list list \<Rightarrow> bool" where
  "argv_stack c esp ss \<longleftrightarrow> word_at c esp (of_nat (length ss)) \<and> (\<exists>av. word_at c (esp + 4) av
     \<and> (\<forall>j < length ss. \<exists>q. word_at c (av + of_nat (4 * j)) q \<and> string_at c q (ss ! j))
     \<and> word_at c (av + of_nat (4 * length ss)) 0)"

abbreviation stack_addr :: "nat \<Rightarrow> u32" where
  "stack_addr x \<equiv> USTACKTOP - PGSIZE + of_nat x"

lemma UTEMP2USTACK_offset: "UTEMP2USTACK (UTEMP + of_nat x) = stack_addr x"
  by (simp add: UTEMP2USTACK_def)

lemma stack_addr_range:
  assumes "y < 4096"
  shows "USTACKTOP - PGSIZE \<le> stack_addr y" and "stack_addr y < USTACKTOP"
proof -
  have "stack_addr y = of_nat (0xEEBFD000 + y)" by (simp add: kconst)
  then have "unat (stack_addr y) = unat (of_nat (0xEEBFD000 + y) :: u32)" by (rule arg_cong)
  also have "\<dots> = 0xEEBFD000 + y" by (rule small_offset) (use assms in simp)
  finally have u: "unat (stack_addr y) = 0xEEBFD000 + y" .
  have "unat (USTACKTOP - PGSIZE) = 0xEEBFD000" "unat USTACKTOP = 0xEEBFE000" by (simp_all add: kconst)
  then show "USTACKTOP - PGSIZE \<le> stack_addr y" and "stack_addr y < USTACKTOP"
    unfolding word_le_nat_alt word_less_nat_alt u using assms by simp_all
qed

text \<open>The page at \<^verbatim>\<open>UTEMP\<close> with the bytes \<open>m\<close>, seen at the top of the child's stack.\<close>

definition stack_seen :: "(u32 \<Rightarrow> u8 option) \<Rightarrow> bmem \<Rightarrow> bool" where
  "stack_seen c m \<longleftrightarrow> (\<forall>k < 4096. c (stack_addr k) = Some (m (UTEMP + of_nat k)))"

lemma child_block:
  "stack_seen c m \<Longrightarrow> block m x bs \<Longrightarrow> x + length bs \<le> 4096 \<Longrightarrow> i < length bs \<Longrightarrow> c (stack_addr x + of_nat i) = Some (bs ! i)"
  unfolding stack_seen_def block_def by (drule spec [of _ "x + i"]) (simp add: add.assoc)

lemma child_word: "stack_seen c m \<Longrightarrow> block m x (word_bytes w) \<Longrightarrow> x + 4 \<le> 4096 \<Longrightarrow> word_at c (stack_addr x) w"
  unfolding word_at_def using child_block [of c m x "word_bytes w"] by simp

lemma child_string:
  "stack_seen c m \<Longrightarrow> block m x (s @ [0]) \<Longrightarrow> x + Suc (length s) \<le> 4096 \<Longrightarrow> 0 \<notin> set s \<Longrightarrow> string_at c (stack_addr x) s"
  unfolding string_at_def using child_block [of c m x "s @ [0]"] by simp

text \<open>The page has room for the strings, the pointers to them and the two words for \<^verbatim>\<open>umain\<close>.\<close>

definition argv_offset :: "u8 list list \<Rightarrow> nat" where
  "argv_offset ss = 4096 - room ss - (4096 - room ss) mod 4 - 4 * (length ss + 1)"

definition args_fit :: "u8 list list \<Rightarrow> bool" where
  "args_fit ss \<longleftrightarrow> room ss + (4096 - room ss) mod 4 + 4 * (length ss + 3) \<le> 4096"

lemma argv_store_nat:
  assumes "room ss + 4 * length ss < 0x400000"
  defines "n \<equiv> 0x401000 - room ss"
  shows "UTEMP + PGSIZE - of_nat (room ss) = of_nat n"
    and "ROUNDDOWN (of_nat n) 4 - 4 * (of_nat (length ss) + 1) - 8 = of_nat (n - n mod 4 - 4 * (length ss + 3))"
    and "n - n mod 4 - 4 * (length ss + 3) < 0x400000 \<longleftrightarrow> \<not> args_fit ss"
proof -
  have le: "room ss \<le> 0x401000" using assms(1) by simp
  have "(of_nat n :: u32) = of_nat 0x401000 - of_nat (room ss)" unfolding n_def by (rule of_nat_diff [OF le])
  then show "UTEMP + PGSIZE - of_nat (room ss) = of_nat n" by (simp add: kconst)
  define k where "k = n mod 4"
  have "k \<le> 3" using mod_less_divisor [of 4 n] by (simp add: k_def)
  moreover have "4 * length ss + 15 \<le> n" using assms(1) by (simp add: n_def)
  ultimately have "4 * (length ss + 3) + k \<le> n" by simp
  then have n4: "n mod 4 \<le> n" "4 * (length ss + 3) \<le> n - n mod 4" by (simp_all add: k_def)
  have "unat (of_nat n :: u32) = n" "unat (of_nat (n mod 4) :: u32) = n mod 4"
    by (rule small_offset, simp add: n_def) (rule small_offset, rule less_trans [OF mod_less_divisor], simp_all)
  then have "(of_nat n :: u32) mod 4 = of_nat (n mod 4)" by (simp add: word_unat_eq_iff unat_mod)
  define q where "q = n - n mod 4"
  have "ROUNDDOWN (of_nat n) 4 = of_nat q"
    using \<open>(of_nat n :: u32) mod 4 = of_nat (n mod 4)\<close> unfolding ROUNDDOWN_def q_def by (simp only: of_nat_diff [OF n4(1)])
  then show "ROUNDDOWN (of_nat n) 4 - 4 * (of_nat (length ss) + 1) - 8 = of_nat (n - n mod 4 - 4 * (length ss + 3))"
    using of_nat_diff [OF n4(2) [folded q_def], where 'a = "32 word"] unfolding q_def [symmetric] by (simp add: algebra_simps)
  have "n mod 4 = (4096 - room ss) mod 4" if "room ss \<le> 4096"
  proof -
    have "n = 4 * 0x100000 + (4096 - room ss)" using that by (simp add: n_def)
    then show ?thesis using mod_mult_self4 [of 4 "0x100000" "4096 - room ss"] by (simp only:)
  qed
  moreover have "(n - n mod 4 - 4 * (length ss + 3)) + n mod 4 + 4 * (length ss + 3) + room ss = 0x401000"
    using n4 le unfolding n_def by linarith
  ultimately show "n - n mod 4 - 4 * (length ss + 3) < 0x400000 \<longleftrightarrow> \<not> args_fit ss"
    unfolding args_fit_def by (cases "room ss \<le> 4096") linarith+
qed

lemma room_take: "j < length ss \<Longrightarrow> room (take j ss) + (length (ss ! j) + 1) \<le> room ss"
proof (induction ss arbitrary: j)
  case (Cons s ss)
  then show ?case by (cases j) auto
qed simp

text \<open>The words below and behind the filled array leave the array and the strings alone.\<close>

lemma stack_complete:
  assumes fill: "args_filled m0 m1 ao so ss" and nz: "\<forall>s \<in> set ss. 0 \<notin> set s"
    and fit: "8 \<le> ao" "ao + 4 * length ss + 4 \<le> so" "so + room ss \<le> 4096"
  defines "m2 \<equiv> put_word m1 (UTEMP + of_nat ao + 4 * of_nat (length ss)) 0"
  defines "m3 \<equiv> put_word m2 (UTEMP + of_nat ao - 4) (UTEMP2USTACK (UTEMP + of_nat ao))"
  defines "m4 \<equiv> put_word m3 (UTEMP + of_nat ao - 8) (of_nat (length ss))"
  shows "stack_seen c m4 \<Longrightarrow> argv_stack c (UTEMP2USTACK (UTEMP + of_nat ao - 8)) ss"
    and "\<forall>a. 4096 \<le> unat (a - UTEMP) \<longrightarrow> m4 a = m0 a"
proof -
  have e: "UTEMP + of_nat ao + 4 * of_nat (length ss) = UTEMP + of_nat (ao + 4 * length ss)"
    "UTEMP + of_nat ao - 4 = UTEMP + of_nat (ao - 4)" "UTEMP + of_nat ao - 8 = UTEMP + of_nat (ao - 8)"
    using fit(1) by (simp_all add: of_nat_diff)
  note ms = m2_def [unfolded put_word_def e] m3_def [unfolded put_word_def e] m4_def [unfolded put_word_def e]
  have k2: "m2 a = m1 a" if "unat (a - UTEMP) < ao + 4 * length ss \<or> ao + 4 * length ss + 4 \<le> unat (a - UTEMP)" for a
    unfolding ms by (rule placed_block(2)) (use fit that in auto)
  have k3: "m3 a = m2 a" if "unat (a - UTEMP) < ao - 4 \<or> ao \<le> unat (a - UTEMP)" for a
    unfolding ms(2) by (rule placed_block(2)) (use fit that in auto)
  have k4: "m4 a = m3 a" if "unat (a - UTEMP) < ao - 8 \<or> ao - 4 \<le> unat (a - UTEMP)" for a
    unfolding ms(3) by (rule placed_block(2)) (use fit that in auto)
  have k34: "m4 a = m2 a" if "ao \<le> unat (a - UTEMP)" for a
  proof -
    have "m4 a = m3 a" by (rule k4) (use that in linarith)
    then show ?thesis using k3 [of a] that by simp
  qed
  have k: "m4 a = m1 a" if "ao \<le> unat (a - UTEMP)" "unat (a - UTEMP) < ao + 4 * length ss \<or> ao + 4 * length ss + 4 \<le> unat (a - UTEMP)" for a
    using k2 [of a] k34 [of a] that by simp
  have b4: "block m4 (ao - 8) (word_bytes (of_nat (length ss)))"
    unfolding ms(3) by (rule placed_block(1)) (use fit in simp)
  have b3: "block m4 (ao - 4) (word_bytes (stack_addr ao))"
  proof (rule block_kept [of m3])
    show "block m3 (ao - 4) (word_bytes (stack_addr ao))"
      unfolding ms(2) UTEMP2USTACK_offset by (rule placed_block(1)) (use fit in simp)
  qed (use fit k4 in auto)
  have b2: "block m4 (ao + 4 * length ss) (word_bytes 0)"
  proof (rule block_kept [of m2])
    show "block m2 (ao + 4 * length ss) (word_bytes 0)" unfolding ms(1) by (rule placed_block(1)) (use fit in simp)
  qed (use fit k34 in auto)
  have arg: "word_at c (stack_addr (ao + 4 * j)) (stack_addr (so + room (take j ss)))
      \<and> string_at c (stack_addr (so + room (take j ss))) (ss ! j)" if seen: "stack_seen c m4" and j: "j < length ss" for j
  proof
    have f: "block m1 (ao + 4 * j) (word_bytes (stack_addr (so + room (take j ss))))"
      "block m1 (so + room (take j ss)) (ss ! j @ [0])"
      using fill j unfolding args_filled_def UTEMP2USTACK_offset by blast+
    have "block m4 (ao + 4 * j) (word_bytes (stack_addr (so + room (take j ss))))"
      by (rule block_kept [OF f(1)]) (use fit j k in auto)
    then show "word_at c (stack_addr (ao + 4 * j)) (stack_addr (so + room (take j ss)))"
      by (rule child_word [OF seen]) (use fit j in linarith)
    have "block m4 (so + room (take j ss)) (ss ! j @ [0])"
      by (rule block_kept [OF f(2)]) (use fit room_take [OF j] k in auto)
    then show "string_at c (stack_addr (so + room (take j ss))) (ss ! j)"
      by (rule child_string [OF seen]) (use nz j fit room_take [OF j] in auto)
  qed
  have four: "stack_addr (ao - 8) + 4 = stack_addr (ao - 4)" using fit(1) by (simp add: of_nat_diff)
  have idx: "stack_addr ao + of_nat x = stack_addr (ao + x)" for x by (simp add: add.assoc)
  show "argv_stack c (UTEMP2USTACK (UTEMP + of_nat ao - 8)) ss" if seen: "stack_seen c m4"
    unfolding e UTEMP2USTACK_offset argv_stack_def
  proof (intro conjI exI [of _ "stack_addr ao"])
    show "word_at c (stack_addr (ao - 8)) (of_nat (length ss))" by (rule child_word [OF seen b4]) (use fit in simp)
    show "word_at c (stack_addr (ao - 8) + 4) (stack_addr ao)" unfolding four by (rule child_word [OF seen b3]) (use fit in simp)
    show "\<forall>j < length ss. \<exists>q. word_at c (stack_addr ao + of_nat (4 * j)) q \<and> string_at c q (ss ! j)"
      unfolding idx using arg [OF seen] by blast
    show "word_at c (stack_addr ao + of_nat (4 * length ss)) 0" unfolding idx by (rule child_word [OF seen b2]) (use fit in simp)
  qed
  show "\<forall>a. 4096 \<le> unat (a - UTEMP) \<longrightarrow> m4 a = m0 a"
    using k fit fill unfolding args_filled_def by auto
qed


lemma gives_page_cong: "gives_page s s' va g perm \<Longrightarrow> (\<And>k. k < 4096 \<Longrightarrow> g k = h k) \<Longrightarrow> gives_page s s' va h perm"
  by (simp add: gives_page_def)

text \<open>A state in which the frame just allocated is mapped at \<^verbatim>\<open>UTEMP\<close>.\<close>

definition has_temp :: "spaces \<Rightarrow> spaces \<Rightarrow> bool" where
  "has_temp s s' \<longleftrightarrow> sp_temp s' = Some (sp_next s) \<and> sp_next s' = Suc (sp_next s) \<and> sp_child s' = sp_child s
     \<and> (\<forall>f < sp_next s. \<forall>k < 4096. sp_frame s' f k = frame_byte s f k)
     \<and> (\<forall>a. 4096 \<le> unat (a - UTEMP) \<longrightarrow> sp_ram s' a = sp_ram s a)"

lemma temp_alloc_ok:
  assumes "frames_known s" and "0 \<le> sint (answered e s)"
  shows "\<exists>s1. temp_alloc e s = (0, s1) \<and> has_temp s s1 \<and> sp_ram s1 = placed (sp_ram s) UTEMP zero_page
    \<and> sp_made s1 = sp_made s @ [Page_alloc 0 UTEMP RWU] \<and> sp_pos s1 = sp_pos s"
proof -
  have out: "4096 \<le> unat (a - UTEMP) \<Longrightarrow> placed m UTEMP zero_page a = m a" for m a by (simp add: placed_outside)
  show ?thesis
  proof (cases "sp_temp s")
    case None
    then show ?thesis using assms(2) out
      by (simp add: temp_alloc_def Let_def asked_def detach_def has_temp_def frame_byte_def not_le)
  next
    case (Some f)
    then have "f < sp_next s" using assms(1) by (simp add: frames_known_def)
    then show ?thesis using Some assms(2) out
      by (simp add: temp_alloc_def Let_def asked_def detach_def has_temp_def frame_byte_def not_le)
  qed
qed

text \<open>Sharing the temporary page and unmapping it gives it to the child.\<close>

lemma share_gives:
  assumes known: "frames_known s" and temp: "has_temp s s1" and ok: "\<forall>n. 0 \<le> sint (answer e n)"
  shows "\<exists>s2 s3. temp_map e child va perm s1 = (0, s2) \<and> temp_unmap e s2 = (0, s3)
    \<and> gives_page s s3 va (\<lambda>k. sp_ram s1 (UTEMP + of_nat k)) perm \<and> sp_temp s3 = None
    \<and> sp_made s3 = sp_made s1 @ [Page_map 0 UTEMP child va perm, Page_unmap 0 UTEMP]"
proof -
  have a: "0 \<le> sint (answered e x)" for x using ok by (simp add: answered_def)
  have n: "\<not> sint (answered e x) < 0" for x using a [of x] by simp
  let ?s2 = "asked (Page_map 0 UTEMP child va perm) s1\<lparr>sp_child := (sp_child s1)(va \<mapsto> (sp_next s, perm))\<rparr>"
  let ?s3 = "detach (asked (Page_unmap 0 UTEMP) ?s2)"
  have t: "sp_temp s1 = Some (sp_next s)" using temp by (simp add: has_temp_def)
  have "temp_map e child va perm s1 = (0, ?s2)" using n t by (simp add: temp_map_def Let_def asked_def)
  moreover have "temp_unmap e ?s2 = (0, ?s3)" using n by (simp add: temp_unmap_def Let_def)
  moreover have "gives_page s ?s3 va (\<lambda>k. sp_ram s1 (UTEMP + of_nat k)) perm"
    using temp known t by (auto simp: gives_page_def has_temp_def detach_def asked_def frames_known_def frame_byte_def less_Suc_eq)
  moreover have "sp_temp ?s3 = None" "sp_made ?s3 = sp_made s1 @ [Page_map 0 UTEMP child va perm, Page_unmap 0 UTEMP]"
    using t by (simp_all add: detach_def asked_def)
  ultimately show ?thesis by blast
qed

lemma stack_addr_page:
  assumes "k < 4096"
  shows "PGOFF (stack_addr k) = k" and "stack_addr k - of_nat (PGOFF (stack_addr k)) = USTACKTOP - PGSIZE"
proof -
  have "stack_addr k = of_nat (0xEEBFD000 + k)" by (simp add: kconst)
  then have "unat (stack_addr k) = unat (of_nat (0xEEBFD000 + k) :: u32)" by (rule arg_cong)
  also have "\<dots> = 0xEEBFD000 + k" by (rule small_offset) (use assms in simp)
  finally have "unat (stack_addr k) = 0xEEBFD000 + k" .
  moreover have "0xEEBFD000 + k = k + 0xEEBFD * 4096" by simp
  then have "(0xEEBFD000 + k) mod 4096 = k" using assms mod_mult_self1 [of k "0xEEBFD" 4096] by (simp only: mod_less)
  ultimately show "PGOFF (stack_addr k) = k" by (simp add: PGOFF_eq)
  then show "stack_addr k - of_nat (PGOFF (stack_addr k)) = USTACKTOP - PGSIZE" by simp
qed

lemma gives_stack:
  assumes "gives_page s s' (USTACKTOP - PGSIZE) (\<lambda>k. m (UTEMP + of_nat k)) RWU"
  shows "stack_seen (child_ram s') m"
  using assms by (simp add: stack_seen_def child_ram_def child_byte_def stack_addr_page gives_page_def)

text \<open>The calls a successful \<^verbatim>\<open>init_stack\<close> makes.\<close>

definition stack_calls :: "u32 \<Rightarrow> spawn_call list" where
  "stack_calls child = [Page_alloc 0 UTEMP RWU, Page_map 0 UTEMP child (USTACKTOP - PGSIZE) RWU, Page_unmap 0 UTEMP]"

lemma init_stack_spec:
  assumes args: "list_all2 (arg_at (sp_ram s)) argv ss" and "room ss + 4 * length ss < 0x400000"
    and known: "frames_known s" and ok: "\<forall>n. 0 \<le> sint (answer e n)"
  shows "if args_fit ss
    then \<exists>esp' s' g. init_stack e child argv esp s = Some (0, esp', s')
      \<and> gives_page s s' (USTACKTOP - PGSIZE) g RWU \<and> argv_stack (child_ram s') esp' ss
      \<and> USTACKTOP - PGSIZE \<le> esp' \<and> esp' < USTACKTOP
      \<and> sp_temp s' = None \<and> sp_made s' = sp_made s @ stack_calls child
    else init_stack e child argv esp s = Some (- E_NO_MEM, esp, s)"
proof -
  let ?n = "0x401000 - room ss" and ?ram = "sp_ram s"
  note av = argv_store_nat [OF assms(2)]
  have size: "string_size ?ram argv 0 = Some (of_nat (room ss))" using string_size_room [OF args, of 0] by simp
  have len: "length argv = length ss" using args by (rule list_all2_lengthD)
  have "unat (of_nat (?n - ?n mod 4 - 4 * (length ss + 3)) :: u32) = ?n - ?n mod 4 - 4 * (length ss + 3)"
    by (rule small_offset) simp
  then have test: "of_nat (?n - ?n mod 4 - 4 * (length ss + 3)) < UTEMP \<longleftrightarrow> \<not> args_fit ss"
    using av(3) by (simp add: word_less_nat_alt kconst)
  show ?thesis
  proof (cases "args_fit ss")
    case False
    then show ?thesis using size len av(1,2) test by (simp add: init_stack_def Let_def)
  next
    case True
    define so where "so = 4096 - room ss"
    define ao where "ao = argv_offset ss"
    have fit: "8 \<le> ao" "ao + 4 * (length ss + 1) + so mod 4 = so" "so + room ss = 4096" "ao + 4 * length ss + 4 \<le> so"
      using True unfolding args_fit_def argv_offset_def so_def ao_def by auto
    have "?n = 0x400000 + so" using True by (simp add: args_fit_def so_def)
    then have start: "UTEMP + PGSIZE - of_nat (room ss) = UTEMP + of_nat so" using av(1) by (simp add: kconst)
    have "?n - ?n mod 4 - 4 * (length ss + 3) = 0x400000 + (ao - 8)"
    proof -
      have "?n mod 4 = so mod 4" unfolding \<open>?n = 0x400000 + so\<close> using mod_mult_self4 [of 4 "0x100000" so] by simp
      then show ?thesis using \<open>?n = 0x400000 + so\<close> fit by simp
    qed
    then have store: "ROUNDDOWN (UTEMP + of_nat so) 4 - 4 * (of_nat (length ss) + 1) = UTEMP + of_nat ao"
    proof -
      let ?a = "ROUNDDOWN (UTEMP + of_nat so) 4 - 4 * (of_nat (length ss) + 1)"
      have "?a - 8 = of_nat (0x400000 + (ao - 8))"
        using av(2) unfolding av(1) [symmetric] start \<open>?n - ?n mod 4 - 4 * (length ss + 3) = 0x400000 + (ao - 8)\<close> .
      also have "\<dots> = UTEMP + of_nat ao - 8" using fit(1) by (simp add: of_nat_diff kconst)
      finally show ?thesis by (metis diff_add_cancel)
    qed
    let ?blank = "placed ?ram UTEMP zero_page"
    have out: "\<forall>a. 4096 \<le> unat (a - UTEMP) \<longrightarrow> ?blank a = ?ram a" by (simp add: placed_outside)
    have args0: "list_all2 (arg_at ?blank) argv ss" by (rule list_all2_mono [OF args]) (erule arg_at_keep, rule out)
    have "ao + 4 * (0 + length ss) \<le> so" "so + room ss \<le> 4096" using fit by simp_all
    from fill_args_spec [OF args0 this] obtain m1 where
      m1: "fill_args True ?blank (UTEMP + of_nat ao) 0 (UTEMP + of_nat so) argv = Some (m1, UTEMP + of_nat (so + room ss))"
        "args_filled ?blank m1 ao so ss" unfolding mult_0_right add_0_right by blast
    have full: "UTEMP + of_nat (so + room ss) = UTEMP + PGSIZE" using fit(3) by (simp add: kconst)
    have nz: "\<forall>s \<in> set ss. 0 \<notin> set s"
      using args by (auto simp: list_all2_conv_all_nth arg_at_def cstr_iff in_set_conv_nth)
    define m4 where "m4 = put_word (put_word (put_word m1 (UTEMP + of_nat ao + 4 * of_nat (length ss)) 0) (UTEMP + of_nat ao - 4)
          (UTEMP2USTACK (UTEMP + of_nat ao))) (UTEMP + of_nat ao - 8) (of_nat (length ss))"
    note stack = stack_complete [OF m1(2) nz fit(1) fit(4) eq_imp_le [OF fit(3)], folded m4_def]
    obtain s1 where s1: "temp_alloc e s = (0, s1)" "has_temp s s1" "sp_ram s1 = ?blank"
      "sp_made s1 = sp_made s @ [Page_alloc 0 UTEMP RWU]"
      using temp_alloc_ok [OF known, of e] ok by (auto simp: answered_def)
    have t1: "sp_temp s1 = Some (sp_next s)" using s1(2) by (simp add: has_temp_def)
    have "has_temp s (s1\<lparr>sp_ram := m4\<rparr>)" using s1(2) stack(2) out by (simp add: has_temp_def)
    from share_gives [OF known this ok, of child "USTACKTOP - PGSIZE" RWU] obtain s2 s3 where
      s3: "temp_map e child (USTACKTOP - PGSIZE) RWU (s1\<lparr>sp_ram := m4\<rparr>) = (0, s2)" "temp_unmap e s2 = (0, s3)"
        "gives_page s s3 (USTACKTOP - PGSIZE) (\<lambda>k. m4 (UTEMP + of_nat k)) RWU" "sp_temp s3 = None"
        "sp_made s3 = sp_made s @ stack_calls child"
      using s1(4) by (auto simp: stack_calls_def)
    let ?esp = "UTEMP2USTACK (UTEMP + of_nat ao - 8)"
    have esp: "?esp = stack_addr (ao - 8)"
    proof -
      have "UTEMP + of_nat ao - 8 = UTEMP + of_nat (ao - 8)" using fit(1) by (simp add: of_nat_diff)
      then show ?thesis by (simp only: UTEMP2USTACK_offset)
    qed
    have "ao - 8 < 4096" using fit by linarith
    then have range: "USTACKTOP - PGSIZE \<le> ?esp" "?esp < USTACKTOP" unfolding esp by (rule stack_addr_range)+
    have "UTEMP + of_nat ao - 8 = of_nat (?n - ?n mod 4 - 4 * (length ss + 3))"
      using av(2) unfolding av(1) [symmetric] start store .
    then have "\<not> UTEMP + of_nat ao - 8 < UTEMP" using test True by (simp only:) simp
    then have "init_stack e child argv esp s = Some (0, ?esp, s3)"
      using s3(1,2) t1
      by (simp only: init_stack_def Let_def size Option.bind.bind_lunit len start store s1(1,3) prod.case if_False
          sint_0 order_less_irrefl m1(1) full may_store_def option.distinct not_True_eq_False not_False_eq_True simp_thms
          m4_def [symmetric])
    then show ?thesis using True s3(3-5) stack(1) [OF gives_stack [OF s3(3)]] range by auto
  qed
qed

section \<open>Loading a segment\<close>

text \<open>
  The ways out of \<^verbatim>\<open>map_segment\<close>: a result, the panic of a failing \<^verbatim>\<open>sys_page_map\<close>, a fault
  of the caller. \<open>None\<close> is a loop without end: the counter of bytes has 32 bits and wraps before
  it reaches a size in the last page. All sums are taken in 32 bits.
\<close>

datatype segment_end = Returned i32 | Map_panic | Fault

partial_function (option) segment_loop ::
  "outside \<Rightarrow> u32 \<Rightarrow> i32 \<Rightarrow> u32 \<Rightarrow> u32 \<Rightarrow> u32 \<Rightarrow> i32 \<Rightarrow> u32 \<Rightarrow> u32 \<Rightarrow> spaces \<Rightarrow> (segment_end \<times> spaces) option" where
  "segment_loop e child fd va memsz filesz off perm i s =
     (if \<not> i < memsz then Some (Returned 0, s)
      else if filesz \<le> i then
        (case child_alloc e child (va + i) perm s of (r, s) \<Rightarrow>
          if sint r < 0 then Some (Returned r, s)
          else segment_loop e child fd va memsz filesz off perm (i + PGSIZE) s)
      else
        (case temp_alloc e s of (r, s) \<Rightarrow> if sint r < 0 then Some (Returned r, s)
         else case seek_file e fd (off + i) s of (r, s) \<Rightarrow> if sint r < 0 then Some (Returned r, s)
         else case readn_temp e fd (min PGSIZE (filesz - i)) s of
           None \<Rightarrow> Some (Fault, s)
         | Some (r, s) \<Rightarrow> if sint r < 0 then Some (Returned r, s)
         else case temp_map e child (va + i) perm s of (r, s) \<Rightarrow> if sint r < 0 then Some (Map_panic, s)
         else segment_loop e child fd va memsz filesz off perm (i + PGSIZE) (snd (temp_unmap e s))))"

definition map_segment ::
  "outside \<Rightarrow> u32 \<Rightarrow> u32 \<Rightarrow> u32 \<Rightarrow> i32 \<Rightarrow> u32 \<Rightarrow> i32 \<Rightarrow> u32 \<Rightarrow> spaces \<Rightarrow> (segment_end \<times> spaces) option" where
  "map_segment e child va memsz fd filesz fileoffset perm s =
     (let i = of_nat (PGOFF va)
      in if i \<noteq> 0
         then segment_loop e child fd (va - i) (memsz + i) (filesz + i) (fileoffset - i) perm 0 s
         else segment_loop e child fd va memsz filesz fileoffset perm 0 s)"

text \<open>Reads inside the range of a segment give the bytes \<open>f\<close> of the file.\<close>

definition holds_bytes :: "outside \<Rightarrow> (int \<Rightarrow> u8) \<Rightarrow> int \<Rightarrow> int \<Rightarrow> bool" where
  "holds_bytes e f lo hi \<longleftrightarrow> (\<forall>x n. lo \<le> sint x \<longrightarrow> sint x + int n \<le> hi \<longrightarrow>
     file_bytes e x n = map (\<lambda>k. f (sint x + int k)) [0 ..< n])"

definition all_succeed :: "outside \<Rightarrow> bool" where
  "all_succeed e \<longleftrightarrow> (\<forall>n. 0 \<le> sint (answer e n))"

text \<open>The bytes of a page of the segment: of the file up to the size in the file, then zeros.\<close>

definition segment_page :: "(int \<Rightarrow> u8) \<Rightarrow> int \<Rightarrow> nat \<Rightarrow> nat \<Rightarrow> nat \<Rightarrow> u8" where
  "segment_page f off filesz i k = (if i + k < filesz then f (off + int (i + k)) else 0)"

lemma file_page_gives:
  assumes known: "frames_known s" and ok: "all_succeed e"
    and bytes: "file_bytes e x (unat n) = bs" "length bs = unat n" and n: "unat n \<le> 4096"
  shows "\<exists>s1 s2 s3 s4 s5. temp_alloc e s = (0, s1) \<and> seek_file e fd x s1 = (0, s2)
    \<and> readn_temp e fd n s2 = Some (of_nat (unat n), s3) \<and> temp_map e child va perm s3 = (0, s4)
    \<and> temp_unmap e s4 = (0, s5) \<and> sp_temp s5 = None
    \<and> gives_page s s5 va (\<lambda>k. if k < unat n then bs ! k else 0) perm"
proof -
  have a: "\<not> sint (answered e x) < 0" for x using ok by (simp add: answered_def all_succeed_def not_less)
  obtain s1 where s1: "temp_alloc e s = (0, s1)" "has_temp s s1" "sp_ram s1 = placed (sp_ram s) UTEMP zero_page"
    using temp_alloc_ok [OF known, of e] a [of s] by (auto simp: not_less)
  define s2 where "s2 = asked (Seek fd x) s1\<lparr>sp_pos := x\<rparr>"
  have s2: "seek_file e fd x s1 = (0, s2)" using a by (simp add: seek_file_def s2_def Let_def)
  define s3 where "s3 = asked (Readn fd UTEMP n) s2\<lparr>sp_ram := placed (sp_ram s1) UTEMP bs, sp_pos := x + of_nat (unat n)\<rparr>"
  have t: "sp_temp s1 = Some (sp_next s)" using s1(2) by (simp add: has_temp_def)
  have s3: "readn_temp e fd n s2 = Some (of_nat (unat n), s3)"
    using a t bytes by (simp add: readn_temp_def s3_def s2_def asked_def Let_def)
  have "has_temp s s3"
    using s1(2) n bytes(2) by (simp add: has_temp_def s3_def s2_def asked_def placed_outside)
  moreover have "sp_ram s3 (UTEMP + of_nat k) = (if k < unat n then bs ! k else 0)" if "k < 4096" for k
  proof -
    have "unat (UTEMP + of_nat k - UTEMP) = k" by (rule offset_in_page) (use that in simp)
    then show ?thesis using that bytes(2) by (simp add: s3_def s1(3) placed_def zero_page_def kconst)
  qed
  ultimately obtain s4 s5 where "temp_map e child va perm s3 = (0, s4)" "temp_unmap e s4 = (0, s5)" "sp_temp s5 = None"
    "gives_page s s5 va (\<lambda>k. sp_ram s3 (UTEMP + of_nat k)) perm"
    and ram: "\<And>k. k < 4096 \<Longrightarrow> sp_ram s3 (UTEMP + of_nat k) = (if k < unat n then bs ! k else 0)"
    using share_gives [OF known, of s3 e child va perm] ok unfolding all_succeed_def by blast
  then have "gives_page s s5 va (\<lambda>k. if k < unat n then bs ! k else 0) perm" by (elim gives_page_cong) (rule ram)
  then show ?thesis using s1(1) s2 s3 \<open>temp_map e child va perm s3 = (0, s4)\<close> \<open>temp_unmap e s4 = (0, s5)\<close> \<open>sp_temp s5 = None\<close>
    by blast
qed

text \<open>The pages of a segment from the offset \<open>j\<close> on, and nothing else, have been given to the child.\<close>

definition pages_loaded :: "(int \<Rightarrow> u8) \<Rightarrow> int \<Rightarrow> nat \<Rightarrow> nat \<Rightarrow> u32 \<Rightarrow> u32 \<Rightarrow> nat \<Rightarrow> spaces \<Rightarrow> spaces \<Rightarrow> bool" where
  "pages_loaded f off filesz memsz va perm j s s' \<longleftrightarrow> frames_known s' \<and> sp_next s \<le> sp_next s'
     \<and> (\<forall>k. j \<le> k \<longrightarrow> k < memsz \<longrightarrow> k mod 4096 = 0 \<longrightarrow> (\<exists>fr. sp_child s' (va + of_nat k) = Some (fr, perm)
          \<and> (\<forall>x < 4096. frame_byte s' fr x = segment_page f off filesz k x)))
     \<and> (\<forall>p. (\<forall>k. j \<le> k \<longrightarrow> k < memsz \<longrightarrow> k mod 4096 = 0 \<longrightarrow> p \<noteq> va + of_nat k) \<longrightarrow> sp_child s' p = sp_child s p)
     \<and> (\<forall>fr < sp_next s. \<forall>x < 4096. frame_byte s' fr x = frame_byte s fr x)
     \<and> (\<forall>a. 4096 \<le> unat (a - UTEMP) \<longrightarrow> sp_ram s' a = sp_ram s a)
     \<and> (sp_temp s = None \<longrightarrow> sp_temp s' = None)"

lemma loaded_done: "frames_known s \<Longrightarrow> memsz \<le> j \<Longrightarrow> pages_loaded f off filesz memsz va perm j s s"
  by (simp add: pages_loaded_def)

lemma sint_of_small: "- 2147483648 \<le> k \<Longrightarrow> k < 2147483648 \<Longrightarrow> sint (word_of_int k :: i32) = k"
  using mod_pos_pos_trivial [of "k + 2147483648" 4294967296] by (simp add: int_word_sint)

lemma next_page:
  assumes "j < k" "j mod 4096 = (0 :: nat)" "k mod 4096 = 0"
  shows "j + 4096 \<le> k"
proof -
  have "4096 dvd k - j" using assms by (simp add: dvd_eq_mod_eq_0 [symmetric] dvd_diff_nat)
  then have "4096 \<le> k - j" using assms(1) by (intro dvd_imp_le) simp_all
  then show ?thesis using assms(1) by simp
qed

lemma loaded_step:
  assumes page: "gives_page s s1 (va + of_nat j) (segment_page f off filesz j) perm"
    and rest: "pages_loaded f off filesz memsz va perm (j + 4096) s1 s'"
    and j: "j mod 4096 = 0" "j < memsz" and fits: "memsz \<le> 4294967296"
  shows "pages_loaded f off filesz memsz va perm j s s'"
proof -
  have g: "sp_next s1 = Suc (sp_next s)" "sp_child s1 = (sp_child s)(va + of_nat j \<mapsto> (sp_next s, perm))"
    "\<forall>x < 4096. frame_byte s1 (sp_next s) x = segment_page f off filesz j x"
    "\<forall>fr < sp_next s. \<forall>x < 4096. frame_byte s1 fr x = frame_byte s fr x"
    "\<forall>a. 4096 \<le> unat (a - UTEMP) \<longrightarrow> sp_ram s1 a = sp_ram s a" "sp_temp s = None \<longrightarrow> sp_temp s1 = None"
    using page by (auto simp: gives_page_def)
  have r: "frames_known s'" "sp_next s1 \<le> sp_next s'"
    "\<And>k. j + 4096 \<le> k \<Longrightarrow> k < memsz \<Longrightarrow> k mod 4096 = 0 \<Longrightarrow> \<exists>fr. sp_child s' (va + of_nat k) = Some (fr, perm)
          \<and> (\<forall>x < 4096. frame_byte s' fr x = segment_page f off filesz k x)"
    "\<And>p. (\<forall>k. j + 4096 \<le> k \<longrightarrow> k < memsz \<longrightarrow> k mod 4096 = 0 \<longrightarrow> p \<noteq> va + of_nat k) \<Longrightarrow> sp_child s' p = sp_child s1 p"
    "\<forall>fr < sp_next s1. \<forall>x < 4096. frame_byte s' fr x = frame_byte s1 fr x"
    "\<forall>a. 4096 \<le> unat (a - UTEMP) \<longrightarrow> sp_ram s' a = sp_ram s1 a" "sp_temp s1 = None \<longrightarrow> sp_temp s' = None"
    using rest by (simp_all only: pages_loaded_def) blast+
  have "va + of_nat j \<noteq> va + of_nat k" if "j + 4096 \<le> k" "k < memsz" for k
  proof
    assume "va + of_nat j = va + of_nat k"
    then have "unat (of_nat j :: u32) = unat (of_nat k :: u32)" by simp
    then show False using small_offset [of j] small_offset [of k] that fits by simp
  qed
  then have "sp_child s' (va + of_nat j) = Some (sp_next s, perm)" using r(4) [of "va + of_nat j"] g(2) by simp
  moreover have "\<forall>x < 4096. frame_byte s' (sp_next s) x = segment_page f off filesz j x" using r(5) g(1,3) by simp
  ultimately have here: "\<exists>fr. sp_child s' (va + of_nat j) = Some (fr, perm)
      \<and> (\<forall>x < 4096. frame_byte s' fr x = segment_page f off filesz j x)" by blast
  show ?thesis unfolding pages_loaded_def
  proof (intro conjI allI impI)
    fix k assume k: "j \<le> k" "k < memsz" "k mod 4096 = 0"
    show "\<exists>fr. sp_child s' (va + of_nat k) = Some (fr, perm) \<and> (\<forall>x < 4096. frame_byte s' fr x = segment_page f off filesz k x)"
    proof (cases "k = j")
      case False
      then have "j + 4096 \<le> k" using k j by (intro next_page) simp_all
      from r(3) [OF this k(2,3)] show ?thesis .
    qed (use here in simp)
  next
    fix p assume p: "\<forall>k. j \<le> k \<longrightarrow> k < memsz \<longrightarrow> k mod 4096 = 0 \<longrightarrow> p \<noteq> va + of_nat k"
    have "p \<noteq> va + of_nat k" if "j + 4096 \<le> k" "k < memsz" "k mod 4096 = 0" for k
    proof -
      have "j \<le> k" using that(1) by simp
      from p [rule_format, OF this that(2,3)] show ?thesis .
    qed
    then have "sp_child s' p = sp_child s1 p" using r(4) [of p] by blast
    moreover have "p \<noteq> va + of_nat j" using p [rule_format, OF order_refl j(2,1)] .
    ultimately show "sp_child s' p = sp_child s p" using g(2) by simp
  next
    show "frames_known s'" "sp_next s \<le> sp_next s'" using r(1,2) g(1) by simp_all
  next
    fix fr x assume "fr < sp_next s" "x < (4096 :: nat)"
    then show "frame_byte s' fr x = frame_byte s fr x" using r(5) g(1,4) by simp
  next
    fix a assume "4096 \<le> unat (a - UTEMP)"
    then show "sp_ram s' a = sp_ram s a" using r(6) g(5) by simp
  next
    assume "sp_temp s = None"
    then show "sp_temp s' = None" using r(7) g(6) by simp
  qed
qed

lemma segment_loop_spec:
  assumes ok: "all_succeed e" and "frames_known s"
    and content: "holds_bytes e f (sint off) (sint off + int (unat filesz))" "0 \<le> sint off" "sint off + int (unat filesz) < 2147483648"
    and fits: "unat memsz \<le> 0x7FFFF000" and "j mod 4096 = 0" and "j < 0x80000000"
  shows "\<exists>s'. segment_loop e child fd va memsz filesz off perm (of_nat j) s = Some (Returned 0, s')
    \<and> pages_loaded f (sint off) (unat filesz) (unat memsz) va perm j s s'"
  using assms(2,7,8)
proof (induction "unat memsz - j" arbitrary: j s rule: less_induct)
  case less
  have uj: "unat (of_nat j :: u32) = j" by (rule small_offset) (use less.prems in simp)
  then have lt: "of_nat j < memsz \<longleftrightarrow> j < unat memsz" "filesz \<le> of_nat j \<longleftrightarrow> unat filesz \<le> j"
    by (simp_all add: word_less_nat_alt word_le_nat_alt)
  show ?case
  proof (cases "j < unat memsz")
    case False
    then show ?thesis using lt less.prems(1) loaded_done [of s "unat memsz" j] by (subst segment_loop.simps) simp
  next
    case True
    have a: "\<not> sint (answered e x) < 0" for x using ok by (simp add: answered_def all_succeed_def not_less)
    have "\<exists>s1. gives_page s s1 (va + of_nat j) (segment_page f (sint off) (unat filesz) j) perm
      \<and> segment_loop e child fd va memsz filesz off perm (of_nat j) s
        = segment_loop e child fd va memsz filesz off perm (of_nat j + PGSIZE) s1"
    proof (cases "unat filesz \<le> j")
      case zero: True
      obtain s1 where s1: "child_alloc e child (va + of_nat j) perm s = (0, s1)" "gives_page s s1 (va + of_nat j) (\<lambda>_. 0) perm"
        using child_alloc_gives [OF less.prems(1), of e child "va + of_nat j" perm] a [of s] by (auto simp: not_less)
      then have "gives_page s s1 (va + of_nat j) (segment_page f (sint off) (unat filesz) j) perm"
        by (elim gives_page_cong) (use zero in \<open>simp add: segment_page_def\<close>)
      moreover have "segment_loop e child fd va memsz filesz off perm (of_nat j) s
          = segment_loop e child fd va memsz filesz off perm (of_nat j + PGSIZE) s1"
        using lt True zero s1(1) by (subst segment_loop.simps) simp
      ultimately show ?thesis by blast
    next
      case more: False
      let ?n = "min PGSIZE (filesz - of_nat j)" and ?x = "off + of_nat j"
      have "unat (filesz - of_nat j) = unat filesz - j" using lt(2) more uj by (simp add: unat_sub word_le_nat_alt)
      then have n: "unat ?n = min 4096 (unat filesz - j)" by (simp add: min_def word_le_nat_alt kconst)
      have x: "sint ?x = sint off + int j"
      proof -
        have "?x = word_of_int (sint off + int j)" by simp
        then have "sint ?x = sint (word_of_int (sint off + int j) :: i32)" by (rule arg_cong)
        also have "\<dots> = sint off + int j"
          by (rule sint_of_small) (use content(2,3) more in linarith)+
        finally show ?thesis .
      qed
      let ?bs = "map (\<lambda>k. f (sint ?x + int k)) [0 ..< unat ?n]"
      have bs: "file_bytes e ?x (unat ?n) = ?bs"
      proof -
        have "sint off \<le> sint ?x" "sint ?x + int (unat ?n) \<le> sint off + int (unat filesz)" using more unfolding x n by linarith+
        then show ?thesis using content(1) unfolding holds_bytes_def by blast
      qed
      from file_page_gives [OF less.prems(1) ok bs, of fd child "va + of_nat j" perm] n obtain s1 s2 s3 s4 s5 where
        st: "temp_alloc e s = (0, s1)" "seek_file e fd ?x s1 = (0, s2)" "readn_temp e fd ?n s2 = Some (of_nat (unat ?n), s3)"
          "temp_map e child (va + of_nat j) perm s3 = (0, s4)" "temp_unmap e s4 = (0, s5)"
        and g: "gives_page s s5 (va + of_nat j) (\<lambda>k. if k < unat ?n then ?bs ! k else 0) perm" by auto
      have "\<not> sint (of_nat (unat ?n) :: i32) < 0"
      proof -
        have "int (unat ?n) \<le> 4096" using n by simp
        then have "sint (word_of_int (int (unat ?n)) :: i32) = int (unat ?n)"
          by (intro sint_of_small) linarith+
        then show ?thesis by simp
      qed
      then have "segment_loop e child fd va memsz filesz off perm (of_nat j) s
          = segment_loop e child fd va memsz filesz off perm (of_nat j + PGSIZE) s5"
        using lt True more st
        by (subst segment_loop.simps) (simp only: prod.case option.case if_False if_True sint_0 order_less_irrefl simp_thms snd_conv)
      moreover have "gives_page s s5 (va + of_nat j) (segment_page f (sint off) (unat filesz) j) perm"
        by (rule gives_page_cong [OF g]) (use n more in \<open>auto simp: segment_page_def x min_def add.assoc split: if_splits\<close>)
      ultimately show ?thesis by blast
    qed
    then obtain s1 where s1: "gives_page s s1 (va + of_nat j) (segment_page f (sint off) (unat filesz) j) perm"
      "segment_loop e child fd va memsz filesz off perm (of_nat j) s
        = segment_loop e child fd va memsz filesz off perm (of_nat j + PGSIZE) s1" by blast
    have "(of_nat j :: u32) + PGSIZE = of_nat (j + 4096)" by (simp add: kconst)
    moreover have "frames_known s1" using s1(1) by (simp add: gives_page_def)
    moreover have "unat memsz - (j + 4096) < unat memsz - j" "(j + 4096) mod 4096 = 0" "j + 4096 < 0x80000000"
      using True fits less.prems(2) by simp_all
    ultimately obtain s' where "segment_loop e child fd va memsz filesz off perm (of_nat j + PGSIZE) s1 = Some (Returned 0, s')"
      "pages_loaded f (sint off) (unat filesz) (unat memsz) va perm (j + 4096) s1 s'"
      using less.hyps [of "j + 4096" s1] by auto
    moreover have "unat memsz \<le> 4294967296" using fits by simp
    ultimately show ?thesis using loaded_step [OF s1(1)] True less.prems(2) s1(2) by auto
  qed
qed

text \<open>The pages that hold a segment.\<close>

definition segment_has :: "u32 \<Rightarrow> u32 \<Rightarrow> u32 \<Rightarrow> bool" where
  "segment_has va memsz a \<longleftrightarrow> (\<exists>k < PGOFF va + unat memsz. k mod 4096 = 0
     \<and> a - of_nat (PGOFF a) = va - of_nat (PGOFF va) + of_nat k)"

text \<open>The segment is in memory and nothing else has changed.\<close>

definition segment_loaded :: "(int \<Rightarrow> u8) \<Rightarrow> int \<Rightarrow> nat \<Rightarrow> u32 \<Rightarrow> u32 \<Rightarrow> u32 \<Rightarrow> spaces \<Rightarrow> spaces \<Rightarrow> bool" where
  "segment_loaded f off filesz va memsz perm s s' \<longleftrightarrow>
     (\<forall>x < unat memsz. child_byte s' (va + of_nat x) = Some (if x < filesz then f (off + int x) else 0, perm))
     \<and> (\<forall>a. \<not> segment_has va memsz a \<longrightarrow> child_byte s' a = child_byte s a)
     \<and> (\<forall>a. 4096 \<le> unat (a - UTEMP) \<longrightarrow> sp_ram s' a = sp_ram s a)
     \<and> (sp_temp s = None \<longrightarrow> sp_temp s' = None)"

lemma PGOFF_add: "PGOFF (va + of_nat x) = (PGOFF va + x) mod 4096"
proof -
  have "unat (va + of_nat x) = (unat va + x) mod 2 ^ 32" by (simp add: unat_word_ariths unat_of_nat mod_simps)
  then have "unat (va + of_nat x) mod 4096 = (unat va + x) mod 2 ^ 32 mod 4096" by (rule arg_cong)
  also have "\<dots> = (unat va + x) mod 4096" by (rule mod_mod_cancel) simp
  finally show ?thesis by (simp add: PGOFF_eq mod_simps)
qed

lemma loaded_segment:
  assumes known: "frames_known s"
    and l: "pages_loaded f (off - int (PGOFF va)) (filesz + PGOFF va) (unat memsz + PGOFF va) (va - of_nat (PGOFF va)) perm 0 s s'"
  shows "segment_loaded f off filesz va memsz perm s s'"
proof -
  let ?i = "PGOFF va" and ?va = "va - of_nat (PGOFF va)"
  have page: "\<exists>fr. sp_child s' (?va + of_nat k) = Some (fr, perm)
      \<and> (\<forall>x < 4096. frame_byte s' fr x = segment_page f (off - int ?i) (filesz + ?i) k x)"
    if "k < unat memsz + ?i" "k mod 4096 = 0" for k
    using l that unfolding pages_loaded_def by simp
  have byte: "child_byte s' (va + of_nat x) = Some (if x < filesz then f (off + int x) else 0, perm)" if x: "x < unat memsz" for x
  proof -
    let ?a = "va + of_nat x"
    define k where "k = (?i + x) mod 4096"
    define j where "j = ?i + x - k"
    have o: "PGOFF ?a = k" by (simp add: PGOFF_add k_def)
    have jk: "j + k = ?i + x" "j mod 4096 = 0" "k < 4096" by (simp_all add: j_def k_def)
    have "(of_nat j :: u32) + of_nat k = of_nat ?i + of_nat x" using jk(1) by (metis of_nat_add)
    then have pg: "?a - of_nat (PGOFF ?a) = ?va + of_nat j" unfolding o by (simp add: algebra_simps)
    have "j < unat memsz + ?i" using jk(1) x by linarith
    from page [OF this jk(2)] obtain fr where "sp_child s' (?va + of_nat j) = Some (fr, perm)"
      "frame_byte s' fr k = segment_page f (off - int ?i) (filesz + ?i) j k" using jk(3) by blast
    moreover have "segment_page f (off - int ?i) (filesz + ?i) j k = (if x < filesz then f (off + int x) else 0)"
    proof -
      have "j + k < filesz + ?i \<longleftrightarrow> x < filesz" "off - int ?i + int (j + k) = off + int x" using jk(1) by simp_all
      then show ?thesis by (simp only: segment_page_def)
    qed
    ultimately show ?thesis unfolding child_byte_def pg unfolding o by simp
  qed
  have rest: "\<And>p. (\<forall>k. 0 \<le> k \<longrightarrow> k < unat memsz + ?i \<longrightarrow> k mod 4096 = 0 \<longrightarrow> p \<noteq> ?va + of_nat k) \<Longrightarrow> sp_child s' p = sp_child s p"
    "\<And>fr x. fr < sp_next s \<Longrightarrow> x < 4096 \<Longrightarrow> frame_byte s' fr x = frame_byte s fr x"
    "\<And>a. 4096 \<le> unat (a - UTEMP) \<Longrightarrow> sp_ram s' a = sp_ram s a" "sp_temp s = None \<Longrightarrow> sp_temp s' = None"
    using l by (simp_all only: pages_loaded_def)
  have keep: "child_byte s' a = child_byte s a" if a: "\<not> segment_has va memsz a" for a
  proof -
    have "\<forall>k. 0 \<le> k \<longrightarrow> k < unat memsz + ?i \<longrightarrow> k mod 4096 = 0 \<longrightarrow> a - of_nat (PGOFF a) \<noteq> ?va + of_nat k"
    proof (intro allI impI notI)
      fix k assume "k < unat memsz + ?i" "k mod 4096 = 0" "a - of_nat (PGOFF a) = ?va + of_nat k"
      then have "segment_has va memsz a" unfolding segment_has_def by (intro exI [of _ k]) simp
      then show False using a by simp
    qed
    then have same: "sp_child s' (a - of_nat (PGOFF a)) = sp_child s (a - of_nat (PGOFF a))" by (rule rest(1))
    show ?thesis
    proof (cases "sp_child s (a - of_nat (PGOFF a))")
      case (Some q)
      then have "fst q < sp_next s" using known unfolding frames_known_def by (cases q) auto
      then show ?thesis using Some same rest(2) by (simp add: child_byte_def case_prod_beta)
    qed (simp add: child_byte_def same)
  qed
  show ?thesis unfolding segment_loaded_def using byte keep rest(3,4) by blast
qed

lemma map_segment_spec:
  assumes ok: "all_succeed e" and known: "frames_known s"
    and content: "holds_bytes e f (sint off - int (PGOFF va)) (sint off + int (unat filesz))"
    and off: "int (PGOFF va) \<le> sint off" "sint off + int (unat filesz) < 2147483648"
    and size: "PGOFF va + unat memsz \<le> 0x7FFFF000"
  shows "\<exists>s'. map_segment e child va memsz fd filesz off perm s = Some (Returned 0, s')
    \<and> segment_loaded f (sint off) (unat filesz) va memsz perm s s'"
proof -
  define i where "i = PGOFF va"
  have "i < 4096" by (simp add: i_def)
  then have ui: "unat (of_nat i :: u32) = i" by (intro small_offset) simp
  have run: "map_segment e child va memsz fd filesz off perm s
      = segment_loop e child fd (va - of_nat i) (memsz + of_nat i) (filesz + of_nat i) (off - of_nat i) perm (of_nat 0) s"
    unfolding map_segment_def i_def Let_def by (cases "of_nat (PGOFF va) = (0 :: u32)") (simp_all add: i_def [symmetric] ui)
  have m: "unat (memsz + of_nat i) = unat memsz + i" using size ui by (simp add: unat_plus_if' i_def)
  have "unat filesz < 2147483648" using off by linarith
  then have n: "unat (filesz + of_nat i) = unat filesz + i" using \<open>i < 4096\<close> ui by (simp add: unat_plus_if')
  have o: "sint (off - of_nat i) = sint off - int i"
  proof -
    have "sint (off - of_nat i) = sint (word_of_int (sint off - int i) :: i32)" by simp
    also have "\<dots> = sint off - int i" using off by (intro sint_of_small) (unfold i_def, linarith+)
    finally show ?thesis .
  qed
  have e: "sint (off - of_nat i) + int (unat (filesz + of_nat i)) = sint off + int (unat filesz)" unfolding o n by simp
  have "holds_bytes e f (sint (off - of_nat i)) (sint (off - of_nat i) + int (unat (filesz + of_nat i)))"
    unfolding e unfolding o using content by (simp add: i_def)
  moreover have "0 \<le> sint (off - of_nat i)" unfolding o using off by (simp add: i_def)
  moreover have "sint (off - of_nat i) + int (unat (filesz + of_nat i)) < 2147483648" unfolding e by (rule off(2))
  moreover have "unat (memsz + of_nat i) \<le> 0x7FFFF000" unfolding m using size by (simp add: i_def)
  ultimately obtain s' where
    "segment_loop e child fd (va - of_nat i) (memsz + of_nat i) (filesz + of_nat i) (off - of_nat i) perm (of_nat 0) s = Some (Returned 0, s')"
    "pages_loaded f (sint off - int i) (unat filesz + i) (unat memsz + i) (va - of_nat i) perm 0 s s'"
    using segment_loop_spec [OF ok known, of f "off - of_nat i" "filesz + of_nat i" "memsz + of_nat i" 0 child fd "va - of_nat i" perm]
    unfolding o m n by auto
  then show ?thesis using run loaded_segment [OF known] unfolding i_def by auto
qed

section \<open>Examples\<close>

text \<open>
  The arguments \<^verbatim>\<open>ls -l\<close> in the data of the caller; a file of 20000 bytes whose byte at \<open>x\<close>
  is \<open>x\<close> modulo 256, and calls that succeed.
\<close>

definition demo_args :: bmem where
  "demo_args = (\<lambda>_. 0xCC)(0x800000 := 0x6C, 0x800001 := 0x73, 0x800002 := 0, 0x800010 := 0x2D, 0x800011 := 0x6C, 0x800012 := 0)"

definition demo_spaces :: spaces where
  "demo_spaces = \<lparr>sp_ram = demo_args, sp_temp = None, sp_frame = \<lambda>_ _. 0, sp_next = 0, sp_child = \<lambda>_. None, sp_pos = 0, sp_made = []\<rparr>"

definition demo_outside :: outside where
  "demo_outside = \<lparr>answer = \<lambda>_. 0,
     file_bytes = \<lambda>p n. map (\<lambda>k. of_int (sint p + int k)) [0 ..< min n (nat (20000 - sint p))]\<rparr>"

lemma demo_args_at: "list_all2 (arg_at demo_args) [0x800000, 0x800010] [[0x6C, 0x73], [0x2D, 0x6C]]"
  by (simp add: arg_at_def demo_args_def apart_def UTEMP_def all_le_list)

lemma demo_spaces_known: "frames_known demo_spaces"
  by (simp add: frames_known_def demo_spaces_def)

lemma demo_outside_ok: "all_succeed demo_outside" "0 \<le> lo \<Longrightarrow> hi \<le> 20000 \<Longrightarrow> holds_bytes demo_outside of_int lo hi"
  by (simp_all add: all_succeed_def holds_bytes_def demo_outside_def min_def)

end
