(* ===== verification/Jos_Clock.thy ===== *)
theory Jos_Clock
  imports Jos_Printfmt "HOL-Library.Signed_Division"
begin

text \<open>
  \<^verbatim>\<open>kern/cmostime.c\<close>, the reading of the clock chip, and \<^verbatim>\<open>user/cal.c\<close>, which prints a
  calendar. The chip is a function from the number of the access and the register to the byte read,
  so it may tick between any two accesses.
\<close>

section \<open>The clock chip\<close>

record rtcdate =
  second :: u32
  minute :: u32
  hour :: u32
  day :: u32
  month :: u32
  year :: u32

type_synonym chip = "nat \<Rightarrow> u8 \<Rightarrow> u8"

definition CMOS_STATA :: u8 where "CMOS_STATA = 0x0A"
definition CMOS_STATB :: u8 where "CMOS_STATB = 0x0B"
definition CMOS_UIP :: u8 where "CMOS_UIP = 0x80"
definition SECS :: u8 where "SECS = 0x00"
definition MINS :: u8 where "MINS = 0x02"
definition HOURS :: u8 where "HOURS = 0x04"
definition DAY :: u8 where "DAY = 0x07"
definition MONTH :: u8 where "MONTH = 0x08"
definition YEAR :: u8 where "YEAR = 0x09"

definition cmos_read :: "chip \<Rightarrow> nat \<Rightarrow> u8 \<Rightarrow> u32 \<times> nat" where
  "cmos_read dev t reg = (ucast (dev t reg), t + 1)"

definition fill_rtcdate :: "chip \<Rightarrow> nat \<Rightarrow> rtcdate \<times> nat" where
  "fill_rtcdate dev t =
     (let (s, t) = cmos_read dev t SECS; (mi, t) = cmos_read dev t MINS; (h, t) = cmos_read dev t HOURS;
          (d, t) = cmos_read dev t DAY; (mo, t) = cmos_read dev t MONTH; (y, t) = cmos_read dev t YEAR
      in (\<lparr>second = s, minute = mi, hour = h, day = d, month = mo, year = y\<rparr>, t))"

text \<open>Read until two readings agree with no update between them; \<open>None\<close> if that never happens.\<close>

partial_function (option) stable_date :: "chip \<Rightarrow> nat \<Rightarrow> (rtcdate \<times> nat) option" where
  "stable_date dev t =
     (let (t1, t) = fill_rtcdate dev t; (a, t) = cmos_read dev t CMOS_STATA
      in if a AND ucast CMOS_UIP \<noteq> 0 then stable_date dev t
         else let (t2, t) = fill_rtcdate dev t in if t1 = t2 then Some (t1, t) else stable_date dev t)"

definition CONV :: "u32 \<Rightarrow> u32" where
  "CONV x = drop_bit 4 x * 10 + (x AND 0xF)"

definition cmostime :: "chip \<Rightarrow> nat \<Rightarrow> (rtcdate \<times> nat) option" where
  "cmostime dev t =
     (let (sb, t) = cmos_read dev t CMOS_STATB; bcd = (sb AND 4 = 0) in
      case stable_date dev t of
        None \<Rightarrow> None
      | Some (d, t) \<Rightarrow>
          let d = (if bcd then \<lparr>second = CONV (second d), minute = CONV (minute d), hour = CONV (hour d),
                day = CONV (day d), month = CONV (month d), year = CONV (year d)\<rparr> else d)
          in Some (d\<lparr>year := year d + 2000\<rparr>, t))"

text \<open>The date in the chip's registers at access \<open>t\<close>, all read at once.\<close>

definition registers :: "chip \<Rightarrow> nat \<Rightarrow> rtcdate" where
  "registers dev t = \<lparr>second = ucast (dev t SECS), minute = ucast (dev t MINS), hour = ucast (dev t HOURS),
     day = ucast (dev t DAY), month = ucast (dev t MONTH), year = ucast (dev t YEAR)\<rparr>"

definition updating :: "chip \<Rightarrow> nat \<Rightarrow> bool" where
  "updating dev t \<longleftrightarrow> (ucast (dev t CMOS_STATA) :: u32) AND ucast CMOS_UIP \<noteq> 0"

text \<open>Two-digit binary coded decimals.\<close>

definition to_bcd :: "nat \<Rightarrow> u32" where
  "to_bcd n = of_nat (n div 10 * 16 + n mod 10)"

lemma CONV_to_bcd:
  assumes "n < 100"
  shows "CONV (to_bcd n) = of_nat n"
proof -
  have "\<forall>n \<in> set [0 ..< 100]. CONV (to_bcd n) = of_nat n" by code_simp
  then show ?thesis using assms by simp
qed

definition sample :: "chip \<Rightarrow> nat \<Rightarrow> rtcdate" where
  "sample dev t = fst (fill_rtcdate dev t)"

lemma fill_sample: "fill_rtcdate dev t = (sample dev t, t + 6)"
  by (simp add: sample_def fill_rtcdate_def cmos_read_def)

lemma sample_registers:
  assumes "\<forall>i \<ge> t. registers dev i = d"
  shows "sample dev t = d"
proof -
  have f: "ucast (dev (t + i) SECS) = second d" "ucast (dev (t + i) MINS) = minute d" "ucast (dev (t + i) HOURS) = hour d"
    "ucast (dev (t + i) DAY) = day d" "ucast (dev (t + i) MONTH) = month d" "ucast (dev (t + i) YEAR) = year d" for i
    using assms [rule_format, of "t + i"] by (auto simp: registers_def)
  show ?thesis
    unfolding sample_def fill_rtcdate_def cmos_read_def Let_def prod.case fst_conv add.assoc
    using f(1) [of 0] f(2) [of 1] f(3) [of "1 + 1"] f(4) [of "1 + (1 + 1)"] f(5) [of "1 + (1 + (1 + 1))"]
      f(6) [of "1 + (1 + (1 + (1 + 1)))"] by (simp del: add_Suc_right)
qed

lemma stable_body:
  "(let (t1, t) = fill_rtcdate dev t; (a, t) = cmos_read dev t CMOS_STATA
    in if a AND ucast CMOS_UIP \<noteq> 0 then f dev t
       else let (t2, t) = fill_rtcdate dev t in if t1 = t2 then Some (t1, t) else f dev t)
   = (if updating dev (t + 6) then f dev (t + 7)
      else if sample dev t = sample dev (t + 7) then Some (sample dev t, t + 13) else f dev (t + 13))"
proof -
  have f: "fill_rtcdate dev (t + 7) = (sample dev (t + 7), t + 13)" using fill_sample [of dev "t + 7"] by simp
  have "t + 6 + 1 = t + 7" by simp
  then show ?thesis unfolding cmos_read_def updating_def Let_def fill_sample [of dev t] prod.case by (simp only: f prod.case)
qed

lemma stable_step:
  "stable_date dev t =
     (if updating dev (t + 6) then stable_date dev (t + 7)
      else if sample dev t = sample dev (t + 7) then Some (sample dev t, t + 13) else stable_date dev (t + 13))"
  by (subst stable_date.simps) (rule stable_body)

text \<open>Once the chip rests, the loop ends.\<close>

lemma stable_date_returns:
  assumes "\<forall>i \<ge> T. registers dev i = d" and "\<forall>i \<ge> T. \<not> updating dev i"
  shows "\<exists>r. stable_date dev t = Some r"
proof (induction "T - t" arbitrary: t rule: less_induct)
  case less
  show ?case
  proof (cases "T \<le> t")
    case True
    then have "sample dev t = d" "sample dev (t + 7) = d" "\<not> updating dev (t + 6)"
      using assms by (auto intro!: sample_registers)
    then show ?thesis by (subst stable_step) simp
  next
    case False
    have "T - (t + 7) < T - t" "T - (t + 13) < T - t" using False by simp_all
    then have "\<exists>r. stable_date dev (t + 7) = Some r" "\<exists>r. stable_date dev (t + 13) = Some r" using less by blast+
    then show ?thesis by (subst stable_step) (simp split: if_split)
  qed
qed

text \<open>Whatever is returned was read twice, without an update in between.\<close>

definition read_twice :: "chip \<Rightarrow> nat \<Rightarrow> rtcdate \<Rightarrow> bool" where
  "read_twice dev u d \<longleftrightarrow> sample dev u = d \<and> \<not> updating dev (u + 6) \<and> sample dev (u + 7) = d"


lemma stable_date_twice:
  "stable_date dev t = Some y \<Longrightarrow> \<exists>u \<ge> t. read_twice dev u (fst y)"
proof (erule stable_date.raw_induct [rotated])
  fix f :: "chip \<Rightarrow> nat \<Rightarrow> (rtcdate \<times> nat) option" and dev t y
  assume IH: "\<And>dev t y. f dev t = Some y \<Longrightarrow> \<exists>u \<ge> t. read_twice dev u (fst y)"
    and run: "(let (t1, t) = fill_rtcdate dev t; (a, t) = cmos_read dev t CMOS_STATA
      in if a AND ucast CMOS_UIP \<noteq> 0 then f dev t
         else let (t2, t) = fill_rtcdate dev t in if t1 = t2 then Some (t1, t) else f dev t) = Some y"
  have "\<exists>u \<ge> t. read_twice dev u (fst y)" if "f dev (t + k) = Some y" for k
    using IH [OF that] by (meson le_add1 le_trans)
  then show "\<exists>u \<ge> t. read_twice dev u (fst y)"
    using run [unfolded stable_body] by (auto simp: read_twice_def split: if_splits)
qed

text \<open>The chip shows a date as two-digit decimals, the year without its century.\<close>

definition shows_date :: "chip \<Rightarrow> nat \<Rightarrow> nat \<times> nat \<times> nat \<times> nat \<times> nat \<times> nat \<Rightarrow> bool" where
  "shows_date dev t = (\<lambda>(s, mi, h, d, mo, y). s < 100 \<and> mi < 100 \<and> h < 100 \<and> d < 100 \<and> mo < 100 \<and> y < 100 \<and>
     (\<forall>i \<ge> t. \<not> updating dev i \<and> registers dev i = \<lparr>second = to_bcd s, minute = to_bcd mi, hour = to_bcd h,
        day = to_bcd d, month = to_bcd mo, year = to_bcd y\<rparr>))"

lemma cmostime_decodes:
  assumes "shows_date dev t (s, mi, h, d, mo, y)" and "dev t CMOS_STATB AND 4 = 0"
  shows "\<exists>t'. cmostime dev t = Some (\<lparr>second = of_nat s, minute = of_nat mi, hour = of_nat h, day = of_nat d,
    month = of_nat mo, year = 2000 + of_nat y\<rparr>, t')"
proof -
  let ?r = "\<lparr>second = to_bcd s, minute = to_bcd mi, hour = to_bcd h, day = to_bcd d, month = to_bcd mo, year = to_bcd y\<rparr>"
  have lt: "s < 100" "mi < 100" "h < 100" "d < 100" "mo < 100" "y < 100" using assms(1) by (simp_all add: shows_date_def)
  have "sample dev (t + 1) = ?r" "sample dev (t + 1 + 7) = ?r" "\<not> updating dev (t + 1 + 6)"
    using assms(1) by (auto simp: shows_date_def intro!: sample_registers)
  then have st: "stable_date dev (t + 1) = Some (?r, t + 1 + 13)" by (subst stable_step) simp
  have "(ucast (dev t CMOS_STATB) :: u32) AND 4 = ucast (dev t CMOS_STATB AND 4)" by (simp add: unsigned_and_eq)
  then have "(ucast (dev t CMOS_STATB) :: u32) AND 4 = 0" using assms(2) by simp
  then show ?thesis using st lt by (simp add: cmostime_def cmos_read_def CONV_to_bcd del: add_Suc_right)
qed

section \<open>The calendar\<close>

text \<open>
  A year is a C \<^verbatim>\<open>int\<close>. The quotients are taken on doubles, which hold every 32-bit
  number exactly, and cut towards zero; the sum of \<^verbatim>\<open>determinedaycode\<close> is a 32-bit
  one, whose overflow, undefined in C, wraps here as it does in the compiled program.
\<close>

definition days_in_month :: "nat list" where
  "days_in_month = [0, 31, 28, 31, 30, 31, 30, 31, 31, 30, 31, 30, 31]"

definition months :: "string list" where
  "months = ['' '', ''\<newline>\<newline>\<newline>January'', ''\<newline>\<newline>\<newline>February'', ''\<newline>\<newline>\<newline>March'',
     ''\<newline>\<newline>\<newline>April'', ''\<newline>\<newline>\<newline>May'', ''\<newline>\<newline>\<newline>June'', ''\<newline>\<newline>\<newline>July'',
     ''\<newline>\<newline>\<newline>August'', ''\<newline>\<newline>\<newline>September'', ''\<newline>\<newline>\<newline>October'',
     ''\<newline>\<newline>\<newline>November'', ''\<newline>\<newline>\<newline>December'']"

definition determinedaycode :: "i32 \<Rightarrow> i32" where
  "determinedaycode y =
     (let d1 = word_of_int ((sint y - 1) sdiv 4);
          d2 = word_of_int ((sint y - 1) sdiv 100);
          d3 = word_of_int ((sint y - 1) sdiv 400)
      in word_of_int (sint (y + d1 - d2 + d3) smod 7))"

text \<open>The second component is the table of month lengths afterwards.\<close>

definition determineleapyear :: "i32 \<Rightarrow> nat list \<Rightarrow> i32 \<times> nat list" where
  "determineleapyear y dim =
     (if sint y smod 4 = 0 \<and> sint y smod 100 \<noteq> 0 \<or> sint y smod 400 = 0 then (1, dim[2 := 29]) else (0, dim[2 := 28]))"

text \<open>\<^verbatim>\<open>%2d\<close> of a day.\<close>

definition two :: "nat \<Rightarrow> string" where
  "two d = (if d < 10 then '' '' else [char_of (48 + d div 10)]) @ [char_of (48 + d mod 10)]"

text \<open>
  The day code is negative for years before 1, and then so are the remainders below; it stays
  between -6 and 6, so it is an integer from here on.
\<close>

definition day_text :: "int \<Rightarrow> nat \<Rightarrow> string" where
  "day_text daycode d = two d @ (if 0 < (int d + daycode) smod 7 then ''   '' else ''\<newline> '')"

definition heading :: string where
  "heading = ''\<newline>\<newline>Sun  Mon  Tue  Wed  Thu  Fri  Sat\<newline>''"

definition month_page :: "nat list \<Rightarrow> int \<Rightarrow> nat \<Rightarrow> string" where
  "month_page dim daycode m =
     months ! m @ heading @ replicate (nat (1 + daycode * 5)) (CHR '' '')
     @ concat (map (day_text daycode) [1 ..< Suc (dim ! m)])"

fun calendar_from :: "nat list \<Rightarrow> int \<Rightarrow> nat list \<Rightarrow> string" where
  "calendar_from dim daycode [] = []"
| "calendar_from dim daycode (m # ms) =
     month_page dim daycode m @ calendar_from dim ((daycode + int (dim ! m)) smod 7) ms"

definition calendar :: "nat list \<Rightarrow> int \<Rightarrow> string" where
  "calendar dim daycode = calendar_from dim daycode [1 ..< 13]"

definition monthcal :: "nat list \<Rightarrow> int \<Rightarrow> nat \<Rightarrow> string" where
  "monthcal dim daycode m = month_page dim daycode m"

text \<open>\<^verbatim>\<open>%d\<close> of an \<^verbatim>\<open>int\<close>, and the line that repeats the year.\<close>

definition decimal :: "int \<Rightarrow> string" where
  "decimal k = (if k < 0 then ''-'' else []) @ map (\<lambda>d. char_of (48 + d)) (digits 10 (nat \<bar>k\<bar>))"

definition year_line :: "i32 \<Rightarrow> string" where
  "year_line y = ''Input year: '' @ decimal (sint y) @ ''\<newline>''"

text \<open>
  What the program prints with an argument, and without one for the date of the clock. The
  conversion of the argument is commented out in the source, so the year of the first is whatever
  the uninitialised variable holds: it is the argument of the definition. A month behind the tables
  is read beyond their end: \<open>None\<close>.
\<close>

definition cal_year :: "i32 \<Rightarrow> string" where
  "cal_year y = year_line y @ (let daycode = determinedaycode y; (_, dim) = determineleapyear y days_in_month
     in calendar dim (sint daycode) @ ''\<newline>'')"

definition cal_now :: "rtcdate \<Rightarrow> string option" where
  "cal_now r = (let y = (ucast (year r) :: i32); daycode = determinedaycode y;
       (_, dim) = determineleapyear y days_in_month
     in if month r < 13 then Some (monthcal dim (sint daycode) (unat (month r))) else None)"

section \<open>The Gregorian calendar\<close>

definition leap :: "nat \<Rightarrow> bool" where
  "leap y \<longleftrightarrow> y mod 4 = 0 \<and> y mod 100 \<noteq> 0 \<or> y mod 400 = 0"

definition month_days :: "nat \<Rightarrow> nat \<Rightarrow> nat" where
  "month_days y m = (if m = 2 then if leap y then 29 else 28 else if m \<in> {4, 6, 9, 11} then 30 else 31)"

text \<open>Days are counted from the first of January of the year 1, a Monday; Sunday is 0.\<close>

definition days_before :: "nat \<Rightarrow> nat \<Rightarrow> nat" where
  "days_before y m = (\<Sum>k \<in> {1 ..< y}. \<Sum>m \<in> {1 ..< 13}. month_days k m) + (\<Sum>k \<in> {1 ..< m}. month_days y k)"

definition weekday :: "nat \<Rightarrow> nat \<Rightarrow> nat \<Rightarrow> nat" where
  "weekday y m d = (1 + days_before y m + (d - 1)) mod 7"

lemma year_days: "(\<Sum>m \<in> {1 ..< 13}. month_days k m) = (if leap k then 366 else 365)"
proof -
  have "{1 ..< 13} = set [1 ..< 13]" by simp
  also have "[1 ..< 13] = [1, 2, 3, 4, 5, 6, 7, 8, 9, 10, 11, 12 :: nat]" by (simp add: upt_rec)
  finally show ?thesis by (simp add: month_days_def)
qed

lemma div_Suc_mod: "0 < k \<Longrightarrow> Suc n div k = n div k + (if Suc n mod k = 0 then 1 else 0)"
  by (simp add: div_Suc)

text \<open>The closed form of the program counts the days of all years before.\<close>

lemma years_days:
  "(\<Sum>k \<in> {1 ..< Suc n}. \<Sum>m \<in> {1 ..< 13}. month_days k m) + n div 100 = 365 * n + n div 4 + n div 400"
proof (induction n)
  case (Suc n)
  have "Suc n mod 400 = 0 \<Longrightarrow> Suc n mod 100 = 0"
    using mod_mod_cancel [of 100 400 "Suc n"] by simp
  moreover have "Suc n mod 100 = 0 \<Longrightarrow> Suc n mod 4 = 0"
    using mod_mod_cancel [of 4 100 "Suc n"] by simp
  ultimately have step: "(if leap (Suc n) then 366 else 365 :: nat) + (if Suc n mod 100 = 0 then 1 else 0)
      = 365 + (if Suc n mod 4 = 0 then 1 else 0) + (if Suc n mod 400 = 0 then 1 else 0)"
    by (auto simp: leap_def)
  then show ?case
    using Suc div_Suc_mod [of 100 n] div_Suc_mod [of 4 n] div_Suc_mod [of 400 n]
    unfolding year_days by (simp add: leap_def)
qed simp

lemma sdiv_nonneg: "0 \<le> (a :: int) \<Longrightarrow> 0 < b \<Longrightarrow> a sdiv b = a div b"
  by (simp add: signed_divide_int_def sgn_if)

lemma smod_nonneg: "0 \<le> (a :: int) \<Longrightarrow> 0 < b \<Longrightarrow> a smod b = a mod b"
  by (simp add: signed_modulo_int_def sgn_if)

text \<open>The years whose sum stays inside 32 bits.\<close>

definition small_year :: "nat \<Rightarrow> bool" where
  "small_year y \<longleftrightarrow> 1 \<le> y \<and> y + (y - 1) div 4 < 2147483648"

lemma sint_year: "x < 2147483648 \<Longrightarrow> sint (of_nat x :: i32) = int x"
  using int_word_sint [of "int x", where 'a = 32] by simp

lemma daycode_correct:
  assumes "small_year y"
  shows "determinedaycode (of_nat y) = of_nat (weekday y 1 1)"
proof -
  obtain n where n: "y = Suc n" using assms by (cases y) (auto simp: small_year_def)
  have small: "Suc n + n div 4 < 2147483648" using assms by (simp add: small_year_def n)
  let ?S = "\<Sum>k \<in> {1 ..< Suc n}. \<Sum>m \<in> {1 ..< 13}. month_days k m"
  let ?s = "int (Suc n) + int n div 4 - int n div 100 + int n div 400"
  have "int ?S + int n div 100 = 365 * int n + int n div 4 + int n div 400"
    using arg_cong [OF years_days [of n], of int] by (simp only: of_nat_add of_nat_mult zdiv_int of_nat_numeral)
  then have S: "1 + int ?S = ?s + 7 * (52 * int n)" by simp
  have y: "sint (of_nat (Suc n) :: i32) = int (Suc n)" by (rule sint_year) (use small in linarith)
  have d: "(int (Suc n) - 1) sdiv k = int n div k" if "0 < k" for k using that by (simp add: sdiv_nonneg)
  have "(of_nat (Suc n) :: i32) + word_of_int (int n div 4) - word_of_int (int n div 100) + word_of_int (int n div 400)
      = word_of_int ?s" by simp
  then have sum: "determinedaycode (of_nat (Suc n)) = word_of_int (sint (word_of_int ?s :: i32) smod 7)"
    unfolding determinedaycode_def Let_def y using d [of 4] d [of 100] d [of 400] by (simp only: zero_less_numeral simp_thms)
  have le: "int n div 400 \<le> int n div 100" "int n div 100 \<le> int n" "0 \<le> int n div 4" "0 \<le> int n div 400"
    using zdiv_mono2 [of "int n" 100 400] by simp_all
  moreover have "int (Suc n) + int n div 4 < 2147483648"
    using small by (metis of_nat_add of_nat_less_iff of_nat_numeral zdiv_int)
  ultimately have s0: "0 \<le> ?s" "?s < 2147483648" by linarith+
  then have "sint (word_of_int ?s :: i32) = ?s" using int_word_sint [of ?s, where 'a = 32] by (simp only:) simp
  then have "determinedaycode (of_nat y) = word_of_int (?s mod 7)"
    using sum s0(1) by (simp only: n smod_nonneg zero_less_numeral)
  also have "?s mod 7 = (1 + int ?S) mod 7" unfolding S by (rule mod_mult_self2 [symmetric])
  also have "\<dots> = int (weekday (Suc n) 1 1)" by (simp add: weekday_def days_before_def zmod_int)
  finally show ?thesis by (simp add: n)
qed

lemma leap_correct:
  assumes "y < 2147483648"
  shows "determineleapyear (of_nat y) days_in_month = (if leap y then 1 else 0, days_in_month[2 := month_days y 2])"
proof -
  have "int y smod k = int y mod k" if "0 < k" for k using that by (simp add: smod_nonneg)
  moreover have "(int y mod 4 = 0) = (y mod 4 = 0)" "(int y mod 100 = 0) = (y mod 100 = 0)"
    "(int y mod 400 = 0) = (y mod 400 = 0)" by presburger+
  ultimately show ?thesis using assms by (simp add: determineleapyear_def leap_def month_days_def sint_year)
qed

text \<open>Day codes of the calendar are not negative.\<close>

lemma day_text_nat: "day_text (int w) d = two d @ (if 0 < (d + w) mod 7 then ''   '' else ''\<newline> '')"
proof -
  have "(int d + int w) smod 7 = int ((d + w) mod 7)" by (simp add: smod_nonneg zmod_int)
  then show ?thesis by (simp add: day_text_def)
qed

lemma calendar_from_nat:
  "calendar_from dim (int w) (m # ms) = month_page dim (int w) m @ calendar_from dim (int ((w + dim ! m) mod 7)) ms"
  by (simp add: smod_nonneg zmod_int)

lemma month_page_nat: "month_page dim (int w) m =
  months ! m @ heading @ replicate (1 + w * 5) (CHR '' '') @ concat (map (day_text (int w)) [1 ..< Suc (dim ! m)])"
proof -
  have "nat (1 + int w * 5) = 1 + w * 5" by simp
  then show ?thesis by (simp only: month_page_def)
qed

text \<open>The decimal number is what the conversion \<^verbatim>\<open>%d\<close> of \<open>Jos_Printfmt\<close> prints.\<close>

lemma decimal_printed: "vprintfmt m ap 0 [0x25, 0x64] = Some (map of_char (decimal (sint (ap 0))))"
proof -
  define i where "i = sint (ap 0)"
  have r: "- 2147483648 \<le> i" "i < 2147483648"
    using sint_greater_eq [of "ap 0"] sint_less [of "ap 0"] by (simp_all add: i_def)
  define v where "v = (word_of_int i :: u64)"
  have "scast (ap 0) = v" unfolding v_def i_def by (rule scast_eq)
  then have run: "vprintfmt m ap 0 [0x25, 0x64] = print_signed v fresh_escape" using vprintfmt_d [of m ap] by simp
  have sv: "sint v = i" using r by (simp add: v_def int_word_sint)
  have dig: "map hexdigit (digits 10 n) = map of_char (map (\<lambda>d. char_of (48 + d) :: char) (digits 10 n))" for n
  proof -
    have "\<forall>d \<in> set [0 ..< 10]. hexdigit d = of_char (char_of (48 + d) :: char)" by code_simp
    then show ?thesis using digits_less [of 10 _ n] by simp
  qed
  show ?thesis
  proof (cases "i < 0")
    case True
    have nv: "- v = word_of_int (- i)" by (simp add: v_def)
    have "unat (- v) = nat (- i)" unfolding nv using True r by (intro unat_int_u64) auto
    then show ?thesis using run True sv printnum_digits [of 10 "- v" "- 1" "0x20"] dig [of "nat (- i)"]
      by (simp add: print_signed_def fresh_escape_def decimal_def i_def [symmetric])
  next
    case False
    then have "unat v = nat i" using r by (simp add: v_def unat_int_u64)
    then show ?thesis using run False sv printnum_digits [of 10 v "- 1" "0x20"] dig [of "nat i"]
      by (simp add: print_signed_def fresh_escape_def decimal_def i_def [symmetric])
  qed
qed

lemma month_lengths:
  assumes "1 \<le> m" and "m < 13"
  shows "days_in_month[2 := month_days y 2] ! m = month_days y m"
proof -
  have "m \<in> set [1 ..< 13]" using assms by simp
  also have "[1 ..< 13] = [1, 2, 3, 4, 5, 6, 7, 8, 9, 10, 11, 12 :: nat]" by (simp add: upt_rec)
  finally show ?thesis by (auto simp: days_in_month_def month_days_def)
qed

lemma weekday_next_month:
  "1 \<le> m \<Longrightarrow> weekday y (Suc m) 1 = (weekday y m 1 + month_days y m) mod 7"
  by (simp add: weekday_def days_before_def mod_simps add.assoc)

lemma calendar_pages:
  assumes "1 \<le> m" and "\<forall>k. m \<le> k \<longrightarrow> k < 13 \<longrightarrow> dim ! k = month_days y k"
  shows "calendar_from dim (int (weekday y m 1)) [m ..< 13] = concat (map (\<lambda>m. month_page dim (int (weekday y m 1)) m) [m ..< 13])"
  using assms
proof (induction "13 - m" arbitrary: m)
  case (Suc k)
  then have "[m ..< 13] = m # [Suc m ..< 13]" by (simp add: upt_conv_Cons)
  then show ?case using Suc(1) [of "Suc m"] Suc(2-4)
    by (simp add: weekday_next_month [symmetric] calendar_from_nat del: One_nat_def calendar_from.simps(2))
qed simp

section \<open>The printed grid\<close>

definition column :: "string \<Rightarrow> nat" where
  "column s = length (takeWhile (\<lambda>c. c \<noteq> CHR 0x0A) (rev s))"

definition row :: "string \<Rightarrow> nat" where
  "row s = length (filter (\<lambda>c. c = CHR 0x0A) s)"

lemma column_append: "column (s @ t) = (if CHR 0x0A \<in> set t then column t else column s + length t)"
  by (auto simp: column_def takeWhile_append)

lemma row_append: "row (s @ t) = row s + row t"
  by (simp add: row_def)

lemma two_shape:
  assumes "d < 100"
  shows "length (two d) = 2" and "CHR 0x0A \<notin> set (two d)"
proof -
  have "CHR 0x0A \<noteq> char_of (48 + k)" if "k < 10" for k :: nat
  proof
    assume "CHR 0x0A = (char_of (48 + k) :: char)"
    then have "of_char (CHR 0x0A) = (of_char (char_of (48 + k) :: char) :: nat)" by simp
    then show False using that by simp
  qed
  then show "length (two d) = 2" and "CHR 0x0A \<notin> set (two d)" using assms by (auto simp: two_def)
qed

lemma day_text_shape:
  assumes "d < 100"
  shows "column (s @ day_text (int w) d) = (if (d + w) mod 7 = 0 then 1 else column s + 5)"
    and "row (day_text (int w) d) = (if (d + w) mod 7 = 0 then 1 else 0)"
proof -
  have t: "length (two d) = 2" "CHR 0x0A \<notin> set (two d)" using two_shape [OF assms] .
  then have "row (two d) = 0" by (auto simp: row_def filter_empty_conv)
  then show "row (day_text (int w) d) = (if (d + w) mod 7 = 0 then 1 else 0)"
    by (simp add: day_text_nat row_append) (simp add: row_def)
  show "column (s @ day_text (int w) d) = (if (d + w) mod 7 = 0 then 1 else column s + 5)"
    using t by (simp add: day_text_nat column_append) (simp add: column_def)
qed

definition grid :: "nat \<Rightarrow> nat \<Rightarrow> string" where
  "grid w n = replicate (1 + w * 5) (CHR '' '') @ concat (map (day_text (int w)) [1 ..< Suc n])"

lemma grid_shape:
  assumes "w < 7" and "n < 100"
  shows "column (s @ heading @ grid w n) = 1 + 5 * ((w + n) mod 7) \<and> row (grid w n) = (w + n) div 7"
  using assms(2)
proof (induction n)
  case 0
  have "column (s @ heading) = 0" by (simp add: column_def heading_def)
  then have "column ((s @ heading) @ replicate (1 + w * 5) (CHR '' '')) = 1 + w * 5" by (subst column_append) simp
  then show ?case using assms(1) by (simp add: grid_def row_def)
next
  case (Suc n)
  have g: "grid w (Suc n) = grid w n @ day_text (int w) (Suc n)" by (simp add: grid_def)
  have d: "(Suc n + w) mod 7 = 0 \<longleftrightarrow> Suc ((w + n) mod 7) = 7" by (simp add: mod_Suc add.commute)
  have "(w + Suc n) mod 7 = (if Suc ((w + n) mod 7) = 7 then 0 else Suc ((w + n) mod 7))" by (simp add: mod_Suc)
  moreover have "(w + Suc n) div 7 = (w + n) div 7 + (if Suc ((w + n) mod 7) = 7 then 1 else 0)"
    by (simp add: div_Suc mod_Suc)
  moreover have "column ((s @ heading @ grid w n) @ day_text (int w) (Suc n))
      = (if Suc ((w + n) mod 7) = 7 then 1 else column (s @ heading @ grid w n) + 5)"
    using day_text_shape(1) [of "Suc n" "s @ heading @ grid w n" w] Suc.prems d by simp
  moreover have "row (grid w n @ day_text (int w) (Suc n)) = row (grid w n) + (if Suc ((w + n) mod 7) = 7 then 1 else 0)"
    using day_text_shape(2) [of "Suc n" w] Suc.prems d by (simp add: row_append)
  ultimately show ?case using Suc unfolding g by simp
qed

text \<open>A text stands in a page at a row, counted in line ends before it, and a column.\<close>

definition at_cell :: "string \<Rightarrow> nat \<Rightarrow> nat \<Rightarrow> string \<Rightarrow> bool" where
  "at_cell page r c t \<longleftrightarrow> (\<exists>pre post. page = pre @ t @ post \<and> row pre = r \<and> column pre = c)"

lemma month_page_cells:
  assumes "w < 7" and "dim ! m < 100" and "1 \<le> d" and "d \<le> dim ! m"
  shows "at_cell (month_page dim (int w) m) (row (months ! m) + 3 + (w + (d - 1)) div 7) (1 + 5 * ((w + (d - 1)) mod 7)) (two d)"
proof -
  have "[1 ..< Suc (dim ! m)] = [1 ..< d] @ d # [Suc d ..< Suc (dim ! m)]"
    using assms(3,4) upt_add_eq_append [of 1 d "Suc (dim ! m) - d"] upt_conv_Cons [of d "Suc (dim ! m)"] by simp
  then have "month_page dim (int w) m = (months ! m @ heading @ grid w (d - 1)) @ two d
      @ (if 0 < (d + w) mod 7 then ''   '' else ''\<newline> '') @ concat (map (day_text (int w)) [Suc d ..< Suc (dim ! m)])"
    using assms(3) by (simp add: month_page_nat grid_def day_text_nat)
  moreover have "row heading = 3" by (simp add: row_def heading_def)
  ultimately have "\<exists>post. month_page dim (int w) m = (months ! m @ heading @ grid w (d - 1)) @ two d @ post" by blast
  moreover have "row (months ! m @ heading @ grid w (d - 1)) = row (months ! m) + 3 + (w + (d - 1)) div 7"
    "column (months ! m @ heading @ grid w (d - 1)) = 1 + 5 * ((w + (d - 1)) mod 7)"
    using grid_shape [of w "d - 1" "months ! m"] assms \<open>row heading = 3\<close> by (simp_all add: row_append)
  ultimately show ?thesis unfolding at_cell_def by blast
qed

text \<open>The page of a month, laid out by the weekdays of the Gregorian calendar.\<close>

definition page :: "nat \<Rightarrow> nat \<Rightarrow> string" where
  "page y m = month_page (days_in_month[2 := month_days y 2]) (int (weekday y m 1)) m"

lemma cal_year_pages:
  assumes "small_year y"
  shows "cal_year (of_nat y) = year_line (of_nat y) @ concat (map (page y) [1 ..< 13]) @ ''\<newline>''"
proof -
  have y: "1 \<le> y" "y < 2147483648" using assms by (simp_all add: small_year_def)
  have "calendar_from (days_in_month[2 := month_days y 2]) (int (weekday y 1 1)) [1 ..< 13]
      = concat (map (page y) [1 ..< 13])"
    unfolding page_def by (rule calendar_pages) (use month_lengths in auto)
  moreover have "sint (determinedaycode (of_nat y)) = int (weekday y 1 1)"
    unfolding daycode_correct [OF assms] by (rule sint_year) (simp add: weekday_def order_less_trans [OF mod_less_divisor])
  ultimately show ?thesis using leap_correct [OF y(2)] by (simp add: cal_year_def calendar_def del: One_nat_def)
qed

lemma month_days_bound: "28 \<le> month_days y m" "month_days y m \<le> 31"
  by (auto simp: month_days_def)

lemma weekday_day: "1 \<le> d \<Longrightarrow> (weekday y m 1 + (d - 1)) mod 7 = weekday y m d"
  by (simp only: weekday_def mod_simps diff_self_eq_0 add_0_right)

lemma page_cells:
  assumes "1 \<le> m" "m < 13" "1 \<le> d" "d \<le> month_days y m"
  shows "at_cell (page y m) (row (months ! m) + 3 + (weekday y m 1 + (d - 1)) div 7) (1 + 5 * weekday y m d) (two d)"
proof -
  have "weekday y m 1 < 7" by (simp add: weekday_def)
  then show ?thesis
    using month_page_cells [of "weekday y m 1" "days_in_month[2 := month_days y 2]" m d]
      assms month_lengths [OF assms(1,2), of y] month_days_bound(2) [of y m] weekday_day [OF assms(3), of y m]
    by (simp add: page_def)
qed

text \<open>
  Without arguments the program lays out the current month by the first weekday of the year. In a
  common year that is right in January and October only, in a leap year in January, April and July.
\<close>

lemma cal_now_page:
  assumes "ucast (year r) = (of_nat y :: i32)" and "small_year y" and "month r < 13"
  shows "cal_now r = Some (month_page (days_in_month[2 := month_days y 2]) (int (weekday y 1 1)) (unat (month r)))"
proof -
  have "y < 2147483648" using assms(2) by (simp add: small_year_def)
  moreover have "sint (determinedaycode (of_nat y)) = int (weekday y 1 1)"
    unfolding daycode_correct [OF assms(2)] by (rule sint_year) (simp add: weekday_def order_less_trans [OF mod_less_divisor])
  ultimately show ?thesis using assms leap_correct [of y] by (simp add: cal_now_def monthcal_def Let_def)
qed

lemma same_weekday:
  assumes "1 \<le> m" and "m < 13"
  shows "weekday y m 1 = weekday y 1 1 \<longleftrightarrow> m = 1 \<or> (if leap y then m = 4 \<or> m = 7 else m = 10)"
proof -
  have "m \<in> set [1 ..< 13]" using assms by simp
  also have "[1 ..< 13] = [1, 2, 3, 4, 5, 6, 7, 8, 9, 10, 11, 12 :: nat]" by (simp add: upt_rec)
  finally have m: "m \<in> set [1, 2, 3, 4, 5, 6, 7, 8, 9, 10, 11, 12]" .
  have off: "weekday y m 1 = weekday y 1 1 \<longleftrightarrow> (\<Sum>k \<in> {1 ..< m}. month_days y k) mod 7 = 0"
  proof -
    have "(a + b) mod 7 = a mod 7 \<longleftrightarrow> b mod 7 = 0" for a b :: nat
      using mod_eq_dvd_iff_nat [of a "a + b" 7] by (simp add: dvd_eq_mod_eq_0)
    moreover define S B where "S = (\<Sum>k \<in> {1 ..< y}. \<Sum>m \<in> {1 ..< 13}. month_days k m)"
      and "B = (\<Sum>k \<in> {1 ..< m}. month_days y k)"
    have "weekday y m 1 = (1 + S + B) mod 7" "weekday y 1 1 = (1 + S) mod 7"
      by (simp_all add: weekday_def days_before_def S_def B_def)
    ultimately show ?thesis by (simp only: B_def)
  qed
  define f where "f k = (\<Sum>k \<in> {1 ..< k}. month_days y k)" for k
  define l :: nat where "l = (if leap y then 1 else 0)"
  have step: "1 \<le> k \<Longrightarrow> f (Suc k) = f k + month_days y k" for k by (simp add: f_def)
  have f1: "f 1 = 0" by (simp add: f_def)
  moreover have f2: "f 2 = 31" using step [of 1] f1 by (simp add: month_days_def numeral_2_eq_2)
  moreover have f3: "f 3 = 59 + l" using step [of 2] f2 by (simp add: month_days_def l_def)
  moreover have f4: "f 4 = 90 + l" using step [of 3] f3 by (simp add: month_days_def l_def)
  moreover have f5: "f 5 = 120 + l" using step [of 4] f4 by (simp add: month_days_def l_def)
  moreover have f6: "f 6 = 151 + l" using step [of 5] f5 by (simp add: month_days_def l_def)
  moreover have f7: "f 7 = 181 + l" using step [of 6] f6 by (simp add: month_days_def l_def)
  moreover have f8: "f 8 = 212 + l" using step [of 7] f7 by (simp add: month_days_def l_def)
  moreover have f9: "f 9 = 243 + l" using step [of 8] f8 by (simp add: month_days_def l_def)
  moreover have f10: "f 10 = 273 + l" using step [of 9] f9 by (simp add: month_days_def l_def)
  moreover have f11: "f 11 = 304 + l" using step [of 10] f10 by (simp add: month_days_def l_def)
  moreover have f12: "f 12 = 334 + l" using step [of 11] f11 by (simp add: month_days_def l_def)
  ultimately have "f m mod 7 = 0 \<longleftrightarrow> m = 1 \<or> (if leap y then m = 4 \<or> m = 7 else m = 10)"
    using m by (cases "leap y") (auto simp: l_def)
  then show ?thesis unfolding off f_def .
qed

end
