(* ===== verification/Spec2Isabelle.thy ===== *)
theory Spec2Isabelle
  imports Jos_Demo Jos_Printfmt Jos_Fd_Demo Jos_Fork_Demo Jos_Syscall_Exact Jos_Kdebug Jos_Shell Jos_Args Jos_Spawn Jos_Clock
begin

text \<open>
  A verification development for the JOS operating system of this repository, the tree under
  \<^verbatim>\<open>src/Working/lab\<close>. It models the kernel below the system call interface, the trap
  path with the guest instruction emulation, copy-on-write fork in user space, the string and
  formatting routines, the file system server down to the sectors of the disk, the file
  descriptor layer through which programs reach the server, the kernel monitor with its symbol
  search, and the programs' side of the shell: argument parsing, program loading and the calendar.

  \<^bold>\<open>Parts and how they interact.\<close> A trap enters \<^verbatim>\<open>trap\<close>, which takes the kernel
  lock, dispatches to \<^verbatim>\<open>syscall\<close>, the page fault upcall or the guest emulator, and ends in
  \<^verbatim>\<open>env_run\<close> or the scheduler. System calls work on environments and their page tables.
  The file system server is a program of its own: its block cache faults blocks in from the disk,
  files and directories live in that cache, and requests arrive as pages. A program turns
  \<^verbatim>\<open>open\<close>, \<^verbatim>\<open>read\<close>, \<^verbatim>\<open>write\<close> and \<^verbatim>\<open>close\<close> into such requests and
  shares the descriptor page of an open file with the server. The shell parses a line in place, finds
  the program through \<^verbatim>\<open>stat\<close> and hands it to \<^verbatim>\<open>spawn\<close>, which builds the stack page and the
  segments of the child; there \<^verbatim>\<open>argnext\<close> reads the flags. After a panic the kernel monitor reads
  lines from the console and prints back traces with the names that \<^verbatim>\<open>debuginfo_eip\<close> finds.

  \<^bold>\<open>Theories.\<close>
  \<^item> \<open>Jos_Prelude\<close>: machine words, rounding, the state monad with early exit, its Hoare triples
    \<open>spec\<close>, and the interfaces \<open>bounded_fifo\<close> and \<open>map_store\<close>.
  \<^item> \<open>Jos_Mmu\<close>: \<^verbatim>\<open>inc/mmu.h\<close>, \<^verbatim>\<open>inc/memlayout.h\<close>, \<^verbatim>\<open>inc/error.h\<close>.
  \<^item> \<open>Jos_State\<close>: the kernel state: frames of memory, page descriptors, environments, processors.
  \<^item> \<open>Jos_Pmap\<close>, \<open>Jos_Pmap_Inv\<close>, \<open>Jos_Vm\<close>: \<^verbatim>\<open>kern/pmap.c\<close>: page allocation, page tables,
    user pointer checks; the invariant that counts match mappings, and the refinement of an address
    space to a finite map.
  \<^item> \<open>Jos_Env\<close>, \<open>Jos_Env_Inv\<close>, \<open>Jos_Sched\<close>: \<^verbatim>\<open>kern/env.c\<close>, \<^verbatim>\<open>kern/sched.c\<close>,
    \<^verbatim>\<open>kern/spinlock.c\<close>.
  \<^item> \<open>Jos_Syscall\<close>, \<open>Jos_Syscall_Inv\<close>: \<^verbatim>\<open>kern/syscall.c\<close>; the calls keep the invariant, a message
    send with an oversized permission word excepted. \<open>Jos_Syscall_Exact\<close>: the exact result of
    \<^verbatim>\<open>sys_page_map\<close>, \<^verbatim>\<open>sys_ipc_try_send\<close> and \<^verbatim>\<open>sys_exofork\<close> in every case.
  \<^item> \<open>Jos_Trap\<close>, \<open>Jos_Trap_Inv\<close>: \<^verbatim>\<open>kern/trap.c\<close>.
  \<^item> \<open>Jos_Fork\<close>: \<^verbatim>\<open>lib/fork.c\<close>, \<^verbatim>\<open>lib/pgfault.c\<close>, \<^verbatim>\<open>lib/pageref.c\<close> and the stubs of
    \<^verbatim>\<open>lib/syscall.c\<close> as a program of the running environment over the kernel state;
    \<open>Jos_Fork_Mem\<close>: its page tables seen through \<^verbatim>\<open>uvpt\<close> and what each call does to
    the mappings; \<open>Jos_Fork_Free\<close>: the pages the calls need; \<open>Jos_Fork_Stubs\<close>: the stubs on
    the caller's own space; \<open>Jos_Fork_Cow\<close>: the page fault handler; \<open>Jos_Fork_Inv\<close>,
    \<open>Jos_Fork_Run\<close>: the loop of \<^verbatim>\<open>fork\<close>, with the faults it takes on its own stack page.
  \<^item> \<open>Jos_Console\<close>: \<^verbatim>\<open>kern/console.c\<close>; \<open>Jos_CString\<close>: \<^verbatim>\<open>lib/string.c\<close>;
    \<open>Jos_Printfmt\<close>: \<^verbatim>\<open>lib/printfmt.c\<close> and its users.
  \<^item> \<open>Jos_Bc\<close>: \<^verbatim>\<open>fs/bc.c\<close>, \<^verbatim>\<open>fs/ide.c\<close>: the cache; \<open>fsmem\<close> is the contents of the
    disk as programs see them, \<open>runs\<close> and \<open>saves\<close> describe operations by their effect on it.
  \<^item> \<open>Jos_Fs\<close>: the operations of \<^verbatim>\<open>fs/fs.c\<close>; \<open>Jos_Fs_Bitmap\<close>, \<open>Jos_Fs_Map\<close>,
    \<open>Jos_Fs_Get\<close>: allocation and block maps with the well-formedness \<open>fsinv\<close>; \<open>Jos_Fs_Data\<close>,
    \<open>Jos_Fs_Write\<close>, \<open>Jos_Fs_Trunc\<close>: reading, writing and truncation seen as byte contents
    \<open>fbyte\<close>; \<open>Jos_Fs_Path\<close>: directories and paths; \<open>Jos_Fs_Sync\<close>, \<open>Jos_Fs_Flush\<close>: what
    is on the disk afterwards.
  \<^item> \<open>Jos_Serv\<close>: \<^verbatim>\<open>fs/serv.c\<close>; \<open>Jos_Fd\<close>: \<^verbatim>\<open>lib/fd.c\<close> and \<^verbatim>\<open>lib/file.c\<close>;
    \<open>Jos_Fd_Inv\<close>, \<open>Jos_Fd_Io\<close>, \<open>Jos_Fd_Open\<close>: reference counts, transfers, opening.
  \<^item> \<open>Jos_Kdebug\<close>: \<^verbatim>\<open>kern/kdebug.c\<close>: the search of the symbol table; \<open>bracket\<close> is what it
    should find. \<open>Jos_Line\<close>: \<^verbatim>\<open>lib/readline.c\<close> and the command interpreter of
    \<^verbatim>\<open>kern/monitor.c\<close>, against the words of the edited line.
  \<^item> \<open>Jos_CCopy\<close>: what \<^verbatim>\<open>strcpy\<close> and \<^verbatim>\<open>strcat\<close> leave unchanged; \<open>Jos_Shell\<close>: the
    scanner, parser and program search of \<^verbatim>\<open>user/sh.c\<close>, refined from a specification over token lists.
  \<^item> \<open>Jos_Args\<close>: \<^verbatim>\<open>lib/args.c\<close>, refined from a list of argument strings; \<open>Jos_Spawn\<close>:
    \<^verbatim>\<open>init_stack\<close> and \<^verbatim>\<open>map_segment\<close> of \<^verbatim>\<open>lib/spawn.c\<close> over the frames that caller and
    child map: a page reaches the child only through the calls that map it.
  \<^item> \<open>Jos_Clock\<close>: \<^verbatim>\<open>kern/cmostime.c\<close>: a date is returned only if two readings agree, the
    second after a status without an update, and is decoded; \<^verbatim>\<open>user/cal.c\<close>, in 32-bit
    arithmetic, against the Gregorian calendar counted in days.
  \<^item> \<open>Jos_Demo\<close>, \<open>Jos_Fork_Demo\<close>, \<open>Jos_Fs_Demo\<close>, \<open>Jos_Fd_Demo\<close>: small concrete states on which the
    hypotheses of the theorems hold.

  \<^bold>\<open>Conventions.\<close> A C function is a program of the state monad, named as in the source; a panic,
  a halt and a switch to user mode are exits; so is \<open>KstackOverflow\<close>, the end of page faults nested
  without end, which a guest reaches whose instruction the emulator cannot read. Integers are 32-bit words, pointers into arrays are
  indices or addresses, null is 0 or \<open>None\<close>. Memory that runs out, a disk that fails and the
  answers of devices are components of the state (\<open>grants\<close>, \<open>bad_sector\<close>, \<open>fd_grants\<close>,
  \<open>map_grants\<close> and the port streams), so the error paths are branches of the model.

  \<^bold>\<open>Bounds and fuel.\<close> The fault handler of the block cache can fault itself; \<open>NESTED\<close> is 4 and
  \<open>touch_ok\<close> shows that no access needs more than three levels. A name in the cache is searched
  for its end over one page. \<^verbatim>\<open>readn\<close> makes at most one request per byte. Loops of the file
  operations recurse on the distance to the end of the range. Scanners of strings in memory and the
  reading of the clock may run forever in the code and are \<open>None\<close> then; that they return is part of
  their theorems. All other recursion is structural or has a measure.

  \<^bold>\<open>Not modelled.\<close> Boot code, assembly entry points, descriptor tables and device registers
  (start-up, APIC, IDE and clock ports), the text that monitor commands print, self tests such as
  \<^verbatim>\<open>check_page\<close> and \<^verbatim>\<open>fs_test\<close>, the host tool \<^verbatim>\<open>fsformat.c\<close>, and the other example
  programs: they call what is modelled or have no state of their own. Of the user library the
  assembly entry \<^verbatim>\<open>pfentry.S\<close>, the order of the calls in \<^verbatim>\<open>spawn\<close> itself, and the message
  and wait loops are left out; the results of the system calls that the shell and the loader make are
  parameters. During \<^verbatim>\<open>fork\<close> and its handler no other environment runs; of the stack and the
  variables of the library the model has the pages and the faults on them, not the words written, and
  the theorem on \<^verbatim>\<open>fork\<close> takes both pages to be writable when it is called. The descriptor layer
  is modelled for one program at a time, with the kernel's page mapping reduced to its effect on the
  reference counts of the server's pages; the request page is not one of them, so a \<^verbatim>\<open>dup\<close> onto it
  is not followed. \<^verbatim>\<open>vsnprintf\<close> reads its arguments before it writes: buffers that overlap them
  are left out. The binary search of symbols is stated where it keeps its promise (see the two cases
  excluded there). Directories are read back by the properties; the effect of
  \<^verbatim>\<open>file_create\<close> on them is modelled but no theorem is stated about it. The other copies of
  these files in the repository are older stages of the same tree.
\<close>

section \<open>System calls and traps\<close>



text \<open>
  C2: Isolation: when a system call other than a message send returns to its caller, the record
  and the whole user address space of every other environment are unchanged unless that environment
  is a child of the caller. Calls that do not return, such as \<^verbatim>\<open>sys_yield\<close> and the destruction
  of the caller, enter another environment and so change its status and run count; the claim does not
  speak of them. Every page has fewer than 65535 references.
\<close>

theorem syscall_respects_other_envs:
  assumes "ready s K c" and "refs_ok s" and "no \<noteq> SYS_ipc_try_send"
    and "syscall no a1 a2 a3 a4 a5 s = (Ret v, t)"
    and "live s e" and "e \<noteq> c" and "env_parent_id (envs s e) \<noteq> env_id (envs s c)"
  shows "envs t e = envs s e
    \<and> (\<forall>d m. env_pgdir (envs s e) = Some d \<longrightarrow> m < 1024 * UPDX \<longrightarrow> umap t d m = umap s d m)"
  using syscall_isolation [OF assms] by (simp add: space_same_def)

theorem syscall_respects_other_envs_witness:
  "\<exists>v t. syscall SYS_page_unmap 0 UTEXT 0 0 0 demo = (Ret v, t) \<and> envs t 1 = envs demo 1"
proof -
  obtain v t where u: "sys_page_unmap 0 UTEXT demo = (Ret v, t)"
    using sys_page_unmap_spec [OF demo_ready] by blast
  then have "syscall SYS_page_unmap 0 UTEXT 0 0 0 demo = (Ret v, t)"
    by (simp add: syscall_def kconst)
  with syscall_respects_other_envs [OF demo_ready demo_refs_ok _ this, of 1] show ?thesis
    by (simp add: kconst)
qed



text \<open>
  C4: A system call with a user string checks the string but prints it with
  \<^verbatim>\<open>%.*s\<close>, which looks at the byte after the last one. When that byte lies on an
  unmapped page, a string at an address other than null (which prints \<^verbatim>\<open>(null)\<close>) that passes
  the check and has no null byte panics the kernel.
\<close>

theorem cputs_panics_past_checked_range:
  assumes "ready s K c" and "\<not> is_neg len" and "p \<noteq> 0"
    and "user_mem_check c p len (PTE_P OR PTE_U OR PTE_U OR PTE_P) s = (Ret 0, s)"
    and "\<And>i. i < unat len \<Longrightarrow> \<exists>b. vload8 (p + of_nat i) s = (Ret b, s) \<and> b \<noteq> 0"
    and "translate s (cr3 s) False (p + len) = None"
  shows "\<exists>t. sys_cputs p len s = (Stop (Panic ''page fault in kernel''), t)"
  using assms by (rule sys_cputs_reads_past_end)

theorem cputs_panics_past_checked_range_witness:
  "\<exists>t. sys_cputs 0x800FFF 1 demo = (Stop (Panic ''page fault in kernel''), t)"
proof (rule cputs_panics_past_checked_range [OF demo_ready])
  show "\<not> is_neg 1" by (simp add: is_neg_def)
  show "(0x800FFF :: u32) \<noteq> 0" by simp
  show "user_mem_check 0 0x800FFF 1 (PTE_P OR PTE_U OR PTE_U OR PTE_P) demo = (Ret 0, demo)"
    by (rule demo_check)
  fix i :: nat assume "i < unat (1 :: u32)"
  then have "i = 0" by simp
  then show "\<exists>b. vload8 (0x800FFF + of_nat i) demo = (Ret b, demo) \<and> b \<noteq> 0"
    using demo_last_byte by simp
next
  show "translate demo (cr3 demo) False (0x800FFF + 1) = None"
    using demo_next_page by simp
qed

section \<open>Copy-on-write fork\<close>

text \<open>
  C5: \<open>fork\<close> of the user library on the kernel below it, called while the pages of the
  program's stack and of the library's variables are writable and \<^verbatim>\<open>PFTEMP\<close> is free. Unless the
  exhausted environment table stops it, a call with enough free pages returns the identifier of a
  new runnable child: its registers are the caller's with 0 as the result, and every page of the
  caller except the exception stack is mapped at the same address in it, with the same contents and
  not writable. The caller has the same frames, not writable either, so that the first write of
  either side faults, with one exception: its stack, which its next call writes while \<open>fork\<close>
  still runs. Of that page it has a copy of its own, writable, with the contents it had, and the child
  keeps the original. The child has a zeroed exception stack of its own and the caller's page fault
  upcall; records and spaces of all other environments are as they were. The caller is again in a
  state in which the kernel invariant and the self-mapping of its page directory hold. It fails only
  if pages or slots are short, it has no upcall to pass on, or its exception stack is missing.
\<close>

theorem fork_correct:
  assumes "running (kst w) K c" and "thisenv w = c" and "room_for_child (kst w)" and "library_ready w"
  shows "fails (fork up h) w \<and> \<not> enough_to_fork w c up
    \<or> (\<exists>w'. fork up h w = (Stop (InKernel (BadPointer ''envs'')), w')) \<and> (\<forall>e < NENV. live (kst w) e)
    \<or> (\<exists>w' e. fork up h w = (Ret (env_id (envs (kst w') e)), w') \<and> running (kst w') K c
        \<and> forked (kst w) (kst w') c e (PGNUM (ustack w)) \<and> pgfault_handler w' = h
        \<and> (pgfault_handler w = 0 \<longrightarrow> env_pgfault_upcall (envs (kst w') c) = up)
        \<and> (\<forall>d m x. d = cr3 (kst w) \<and> m \<noteq> PGNUM (ustack w) \<or> env_pgdir (envs (kst w') e) = Some d
             \<longrightarrow> m < 1024 * UPDX \<longrightarrow> m \<noteq> XSPAGE \<longrightarrow> umap (kst w') d m = Some x \<longrightarrow> x AND PTE_W = 0))"
  using fork_run [OF assms, of up h] fork_read_only by blast

theorem fork_correct_witness:
  "\<exists>w' e. fork 0x800020 0x800040 fork_proc = (Ret (env_id (envs (kst w') e)), w') \<and> forked fork_demo (kst w') 0 e 2049"
proof -
  have k: "kst fork_proc = fork_demo" "PGNUM (ustack fork_proc) = 2049" by (simp_all add: fork_proc_def PGNUM_eq)
  have "\<not> (\<forall>e < NENV. live (kst fork_proc) e)" using fork_proc_facts(5) by (auto simp: enough_to_fork_def)
  then show ?thesis
    using fork_correct [OF fork_proc_facts(1-3,6), where up = "0x800020" and h = "0x800040"] fork_proc_facts(5)
    unfolding k by blast
qed

text \<open>
  C6: The page fault handler that \<open>fork\<close> installs. A fault at a mapped user page panics
  with the given message when it was no write or the page is not copy-on-write, and changes nothing
  then. Otherwise, with two free pages, the handler returns with the page replaced by a writable
  page of its own that holds the same words and that nobody else maps; the temporary mapping is
  gone, every other mapping of every address space is as it was, and so are the contents of every
  page that something else maps, the shared original included.
\<close>

theorem pgfault_correct:
  assumes "running (kst w) K c" and "va < UTOP" and "PGNUM va \<noteq> PFPAGE"
    and "umap (kst w) (cr3 (kst w)) (PGNUM va) = Some x"
  shows "if err AND FEC_WR = 0 then pgfault va err w = (Stop (UserPanic ''Fault not caused by write''), w)
    else if x AND PTE_COW = 0 then pgfault va err w = (Stop (UserPanic ''Page not copy on write''), w)
    else x AND PTE_U \<noteq> 0 \<longrightarrow> panics (pgfault va err) w \<and> \<not> has_free (kst w) 2
      \<or> (\<exists>t q. pgfault va err w = (Ret (), w\<lparr>kst := t\<rparr>) \<and> running t K c
           \<and> private_copy (kst w) t (PGNUM va) x q)"
  by (rule pgfault_run [OF assms])

theorem pgfault_correct_witness:
  "\<exists>t q. pgfault UTEXT FEC_WR fork_proc = (Ret (), fork_proc\<lparr>kst := t\<rparr>)
     \<and> private_copy fork_demo t 2048 (mk_pte 4 (PTE_COW OR PTE_P OR PTE_U)) q"
proof -
  have "PGNUM UTEXT = 2048" "kst fork_proc = fork_demo" by (simp_all add: PGNUM_eq kconst fork_proc_def)
  then show ?thesis
    using pgfault_correct [OF fork_proc_facts(1) fork_proc_cow(2,3,1), of FEC_WR] fork_proc_cow(4-7) by auto
qed

section \<open>Physical pages and address spaces\<close>

text \<open>
  C7: Mapping a page. \<^verbatim>\<open>page_insert\<close> of an allocated page at a user address either
  changes nothing and returns \<^verbatim>\<open>-E_NO_MEM\<close> (exactly when a page table is missing and no
  page is free) or returns 0 in a state where the invariant holds, the address space maps that
  page with those permissions, every other address of every address space is mapped as before,
  no page is lost, and no other page frame changed its contents.
\<close>

theorem page_insert_correct:
  assumes "mem_inv s D K fl" and "d \<in> D" and "va < UTOP"
    and "insertable s D K fl p" and "perm < 0x1000"
  shows "if tab_of s d (PDX va) = None \<and> fl = []
     then page_insert d p va perm s = (Ret (- E_NO_MEM), s)
     else \<exists>s' fl'. page_insert d p va perm s = (Ret 0, s') \<and> mem_inv s' D K fl'
       \<and> maps_agree s s' D d (PGNUM va) (Some (mk_pte p perm)) \<and> rest_same s s'
       \<and> (leak_free s (insert p K) fl \<longrightarrow> leak_free s' K fl')
       \<and> (\<forall>f. f \<notin> set fl \<longrightarrow> \<not> structural s D f \<longrightarrow> ram s' f = ram s f)"
  using assms by (rule page_insert_spec)

theorem page_insert_correct_witness:
  "\<exists>s' fl'. page_insert 5 4 UTEXT 5 demo = (Ret 0, s') \<and> mem_inv s' {2, 5} {0, 1} fl'
     \<and> umap s' 5 0x800 = Some (mk_pte 4 5) \<and> umap s' 2 0x800 = umap demo 2 0x800"
proof -
  have "UTEXT < UTOP" "(5 :: u32) < 0x1000" "PGNUM UTEXT = 0x800" by (simp_all add: kconst PGNUM_eq)
  with page_insert_correct [OF demo_mem _ _ demo_insertable, of 5 UTEXT 5]
  obtain s' fl' where "page_insert 5 4 UTEXT 5 demo = (Ret 0, s')" "mem_inv s' {2, 5} {0, 1} fl'"
    "maps_agree demo s' {2, 5} 5 0x800 (Some (mk_pte 4 5))"
    by (auto simp: demo_tab)
  then show ?thesis by (auto simp: maps_agree_def UPDX_def)
qed

text \<open>
  C8: Unmapping. \<^verbatim>\<open>page_remove\<close> always returns, removes exactly the given mapping,
  keeps the invariant, only adds to the free list, loses no page and writes only to page tables
  and page directories.
\<close>

theorem page_remove_correct:
  assumes "mem_inv s D K fl" and "d \<in> D" and "va < UTOP"
  shows "\<exists>s' fl'. page_remove d va s = (Ret (), s') \<and> mem_inv s' D K fl'
     \<and> maps_agree s s' D d (PGNUM va) None \<and> rest_same s s' \<and> set fl \<subseteq> set fl'
     \<and> (leak_free s K fl \<longrightarrow> leak_free s' K fl')
     \<and> (\<forall>f. \<not> structural s D f \<longrightarrow> ram s' f = ram s f)"
  using assms by (rule page_remove_spec)

theorem page_remove_correct_witness:
  "\<exists>s'. page_remove 2 UTEXT demo = (Ret (), s') \<and> umap s' 2 0x800 = None"
proof -
  have "UTEXT < UTOP" "PGNUM UTEXT = 0x800" by (simp_all add: kconst PGNUM_eq)
  with page_remove_correct [OF demo_mem, of 2 UTEXT] show ?thesis
    by (auto simp: maps_agree_def UPDX_def)
qed

text \<open>
  C9: An address space is a map: after any history of successful insertions and removals its
  page table answers exactly like the same updates applied to a finite map.
\<close>

theorem address_space_refines_map:
  assumes "as_inv D K s" and "mruns (as_guard D K d) (as_step d) xs s = Some t"
    and "n < 1024 * UPDX"
  shows "umap t d n = fold mop_apply xs (umap s d) n"
  using assms by (intro uspace.runs_view) auto

theorem address_space_refines_map_witness:
  "\<exists>t. mruns (as_guard {2, 5} {0, 1} 5) (as_step 5) [Ins 0x800 (mk_pte 4 5)] demo = Some t
     \<and> umap t 5 0x800 = Some (mk_pte 4 5)"
proof -
  obtain t where t: "mruns (as_guard {2, 5} {0, 1} 5) (as_step 5) [Ins 0x800 (mk_pte 4 5)] demo = Some t"
    using demo_history by blast
  have "as_inv {2, 5} {0, 1} demo" using demo_mem by (auto simp: as_inv_def)
  from address_space_refines_map [where n = "0x800", OF this t] t show ?thesis by (simp add: UPDX_def)
qed

text \<open>
  \<^verbatim>\<open>page_alloc\<close> takes the head of the free list, clears the whole page whatever
  flags are passed, leaves every mapping alone and hands out a page that can be mapped; it
  returns null exactly when no page is free.
\<close>

theorem page_alloc_correct:
  assumes "mem_inv s D K fl"
  shows "case fl of [] \<Rightarrow> page_alloc flags s = (Ret None, s)
    | p # fl' \<Rightarrow> \<exists>s'. page_alloc flags s = (Ret (Some p), s') \<and> mem_inv s' D K fl'
        \<and> insertable s' D K fl' p \<and> pp_ref (pages s' p) = 0
        \<and> ram s' = (ram s)(p := (\<lambda>_. 0)) \<and> rest_same s s'
        \<and> (leak_free s K fl \<longrightarrow> leak_free s' (insert p K) fl')
        \<and> (\<forall>x. target s' D x = target s D x)
        \<and> (\<forall>a \<in> D. \<forall>m < 1024 * UPDX. umap s' a m = umap s a m)"
  using assms by (rule page_alloc_spec)

theorem page_alloc_correct_witness:
  "\<exists>s'. page_alloc 0 demo = (Ret (Some 6), s') \<and> mem_inv s' {2, 5} {0, 1} [7]"
  using page_alloc_correct [OF demo_mem, of 0] by auto

text \<open>
  C10: \<^verbatim>\<open>page_init\<close> turns the zeroed page array into a state satisfying the memory
  invariant: the free list is duplicate-free, holds the pages of base memory except page 0 and
  the boot page of the other processors, and the pages above the kernel from page 256 plus the
  kernel's own page count on, so 256 usable pages stay allocated for good.
\<close>

theorem page_init_correct:
  assumes "\<forall>p. pages s p = \<lparr>pp_link = None, pp_ref = 0\<rparr>" and "page_free_list s = None"
    and "npages s \<le> 0x100000" and "npages_basemem s \<le> 256" and "npages_basemem s \<le> npages s"
    and "nextfree s \<noteq> 0" and "KERNBASE \<le> nextfree s"
  shows "\<exists>s' fl. fl = boot_free (npages_basemem s) (unat ((nextfree s - KERNBASE) div PGSIZE)) (npages s)
    \<and> page_init s = (Ret (), s') \<and> mem_inv s' {} {p. p \<notin> set fl} fl"
  using page_init_establishes [OF assms] by blast

theorem page_init_correct_witness:
  "\<exists>s' fl. fl = boot_free 2 2 300
    \<and> page_init (demo\<lparr>pages := (\<lambda>_. \<lparr>pp_link = None, pp_ref = 0\<rparr>), page_free_list := None, npages := 300\<rparr>)
        = (Ret (), s') \<and> mem_inv s' {} {p. p \<notin> set fl} fl"
  using page_init_correct
    [of "demo\<lparr>pages := (\<lambda>_. \<lparr>pp_link = None, pp_ref = 0\<rparr>), page_free_list := None, npages := 300\<rparr>"]
  by (simp add: demo_def kconst unat_div)

text \<open>
  C11: What \<^verbatim>\<open>user_mem_check\<close> really tests. It looks at every byte of the range and succeeds
  exactly when each lies below \<^verbatim>\<open>ULIM\<close> on a page table entry that has at least one of the
  requested permission bits; otherwise it reports the first address that does not. The comment above
  the function asks for all of \<^verbatim>\<open>perm | PTE_P\<close> (\<open>user_may\<close>). So a range the comment allows is never
  refused, the last part of the statement, but the converse fails: as the witness shows, a read-only
  page passes a check with \<^verbatim>\<open>PTE_U | PTE_W\<close>.
\<close>

theorem user_mem_check_correct:
  assumes "env_pgdir (envs s e) = Some d" and "tables_in_ram s d"
  shows "((\<forall>k < unat len. user_ok s d perm (va + of_nat k)) \<and> user_mem_check e va len perm s = (Ret 0, s)
    \<or> (\<exists>k < unat len. \<not> user_ok s d perm (va + of_nat k)
         \<and> (\<forall>j < k. user_ok s d perm (va + of_nat j))
         \<and> user_mem_check e va len perm s
             = (Ret (- E_FAULT), s\<lparr>user_mem_check_addr := va + of_nat k\<rparr>)))
    \<and> (perm \<noteq> 0 \<longrightarrow> (\<forall>k < unat len. user_may s d perm (va + of_nat k)) \<longrightarrow> user_mem_check e va len perm s = (Ret 0, s))"
  using user_mem_check_spec [OF assms, of len perm va] user_may_ok by blast

theorem user_mem_check_correct_witness:
  "user_mem_check 0 0x802000 1 PTE_U fork_demo = (Ret (- E_FAULT), fork_demo\<lparr>user_mem_check_addr := 0x802000\<rparr>)
   \<and> user_mem_check 0 0x800000 1 (PTE_U OR PTE_W) fork_demo = (Ret 0, fork_demo)
   \<and> \<not> user_may fork_demo 2 (PTE_U OR PTE_W) 0x800000"
proof -
  have tab: "tab_of fork_demo 2 2 = Some 3" using fork_tab(1) [of 2] by (simp add: UPDX_def)
  have "tab_of fork_demo 2 i = Some t \<Longrightarrow> t < npages fork_demo" if "i < 1024" for i t
    using that by (auto simp: tab_of_def fork_ram_def entry_frame_def present_def page2pa_def mk_pte_def PGNUM_eq PTE_ADDR_def kconst split: if_splits)
  then have t: "tables_in_ram fork_demo 2" by (auto simp: tables_in_ram_def)
  have x: "PDX 0x800000 = 2" "PDX 0x802000 = 2" "PTX 0x800000 = 0" "PTX 0x802000 = 2" by (simp_all add: PDX_eq PTX_eq)
  have pte: "pte_at fork_demo 2 0x800000 = Some (mk_pte 4 (PTE_COW OR PTE_P OR PTE_U))" "pte_at fork_demo 2 0x802000 = Some 0"
    by (simp_all add: pte_at_def x tab fork_ram_def)
  have "\<not> user_ok fork_demo 2 PTE_U 0x802000" "user_ok fork_demo 2 (PTE_U OR PTE_W) 0x800000"
    "\<not> user_may fork_demo 2 (PTE_U OR PTE_W) 0x800000"
    unfolding user_ok_def user_may_def pte by (simp_all add: mk_pte_def kconst)
  then show ?thesis
    using user_mem_check_correct [where e = 0 and s = fork_demo and d = 2 and len = 1 and va = "0x802000" and perm = PTE_U] t
      user_mem_check_correct [where e = 0 and s = fork_demo and d = 2 and len = 1 and va = "0x800000" and perm = "PTE_U OR PTE_W"]
    by auto
qed

text \<open>
  Memory is memory: a byte stored through a page table at a user address reads back.
\<close>

theorem user_store_reads_back:
  assumes "mem_inv s D K fl" and "cr3 s \<in> D" and "va < UTOP" and "vstore8 va b s = (Ret (), s')"
  shows "vload8 va s' = (Ret b, s')"
  using assms by (rule vload_vstore)

theorem user_store_reads_back_witness:
  "\<exists>s'. vstore8 0x800FFF 7 demo = (Ret (), s') \<and> vload8 0x800FFF s' = (Ret 7, s')"
proof -
  obtain s' where s': "vstore8 0x800FFF 7 demo = (Ret (), s')"
    using demo_store_byte by blast
  have "(0x800FFF :: u32) < UTOP" by (simp add: kconst)
  from user_store_reads_back [OF demo_mem _ this s'] s' show ?thesis by simp
qed

section \<open>System call handlers\<close>

text \<open>
  C12: \<^verbatim>\<open>sys_page_map\<close> always returns, with the documented error in each case: -E_BAD_ENV
  unless both identifiers name the caller or a child of it, -E_INVAL for a bad address, bad permissions,
  a source address that is not mapped, or write access to a read-only mapping, -E_NO_MEM when the
  destination lacks a page table and no page is free, each without any effect. Otherwise the destination
  maps the page that the source has at the given address, with the given permissions, and every other
  address of every space is mapped as before. Assumed are reference counts below 65535.
\<close>

theorem sys_page_map_correct:
  assumes "ready s K c" and "refs_ok s"
  shows "case (named_env s c True srcenvid, named_env s c True dstenvid) of
      (Some se, Some de) \<Rightarrow>
        (case umap s (env_space s se) (PGNUM srcva) of
           None \<Rightarrow> sys_page_map srcenvid srcva dstenvid dstva perm s = (Ret (- E_INVAL), s)
         | Some x \<Rightarrow>
             if bad_va srcva \<or> bad_va dstva \<or> bad_perm perm \<or> perm AND PTE_W \<noteq> 0 \<and> x AND PTE_W = 0
             then sys_page_map srcenvid srcva dstenvid dstva perm s = (Ret (- E_INVAL), s)
             else if no_table_page s (env_space s de) dstva
             then sys_page_map srcenvid srcva dstenvid dstva perm s = (Ret (- E_NO_MEM), s)
             else \<exists>t. sys_page_map srcenvid srcva dstenvid dstva perm s = (Ret 0, t) \<and> ready t K c
               \<and> rest_same s t \<and> contents_kept s t
               \<and> maps_agree s t (dirs s) (env_space s de) (PGNUM dstva) (Some (mk_pte (pte_frame x) perm)))
    | _ \<Rightarrow> sys_page_map srcenvid srcva dstenvid dstva perm s = (Ret (- E_BAD_ENV), s)"
  using assms by (rule sys_page_map_exact)

theorem sys_page_map_correct_witness:
  "\<exists>t. sys_page_map 0 UTEXT 0 UTEMP 5 demo = (Ret 0, t) \<and> umap t 2 0x400 = Some (mk_pte 4 5)"
proof -
  have "\<not> bad_va UTEXT" "\<not> bad_va UTEMP" "\<not> bad_perm 5" "(5 :: u32) AND PTE_W = 0" "PGNUM UTEMP = 0x400" "PGNUM UTEXT = 0x800"
    by (simp_all add: bad_va_def bad_perm_def PGNUM_eq kconst)
  moreover have "umap demo 2 0x800 = Some (mk_pte 4 7)" "named_env demo 0 True 0 = Some 0" "env_space demo 0 = 2"
    by (simp_all add: umap_def demo_tab demo_ram_def named_env_def env_space_def Let_def present_def mk_pte_def kconst)
  ultimately show ?thesis
    using sys_page_map_correct [OF demo_ready demo_refs_ok, where srcenvid = 0 and dstenvid = 0 and srcva = UTEXT
        and dstva = UTEMP and perm = 5]
    by (auto simp: no_table_page_def UPDX_def dest: maps_agree_self)
qed

text \<open>
  \<^verbatim>\<open>sys_page_alloc\<close> rejects bad addresses and permissions, then environments the
  caller does not control; otherwise it maps a zeroed page at the address in the target's
  address space and nowhere else, or reports that memory is exhausted without any mapping
  having changed.
\<close>

theorem sys_page_alloc_correct:
  assumes "ready s K c"
  shows "if bad_va va \<or> bad_perm perm then sys_page_alloc envid va perm s = (Ret (- E_INVAL), s)
    else envid2env envid True s = (Ret (- E_BAD_ENV, None), s)
        \<and> sys_page_alloc envid va perm s = (Ret (- E_BAD_ENV), s)
      \<or> (\<exists>e d t. envid2env envid True s = (Ret (0, Some e), s) \<and> e \<in> controlled s c
          \<and> env_pgdir (envs s e) = Some d \<and> ready t K c \<and> confined s t {e} \<and> envs t = envs s
          \<and> (sys_page_alloc envid va perm s = (Ret (- E_NO_MEM), t)
               \<and> (\<forall>a \<in> dirs s. \<forall>m < 1024 * UPDX. umap t a m = umap s a m)
             \<or> (\<exists>p. sys_page_alloc envid va perm s = (Ret 0, t)
               \<and> maps_agree s t (dirs s) d (PGNUM va) (Some (mk_pte p perm))
               \<and> (\<forall>i. ram t p i = 0))))"
  using assms by (rule sys_page_alloc_spec)

theorem sys_page_alloc_correct_witness:
  "sys_page_alloc 0x1001 UTEXT 7 demo = (Ret (- E_BAD_ENV), demo)"
proof -
  have "envid2env 0x1001 True demo = (Ret (- E_BAD_ENV, None), demo)"
    using envid2env_spec [OF demo_kinv, of 0 "0x1001" True] by auto
  moreover have "\<not> bad_va UTEXT" "\<not> bad_perm 7" by (simp_all add: bad_va_def bad_perm_def kconst)
  ultimately show ?thesis using sys_page_alloc_correct [OF demo_ready, of UTEXT 7 "0x1001"] by auto
qed

text \<open>
  \<^verbatim>\<open>sys_page_unmap\<close> always returns; it removes the given mapping of an address
  space under the caller's control and nothing else, or fails with no effect.
\<close>

theorem sys_page_unmap_correct:
  assumes "ready s K c"
  shows "\<exists>v t. sys_page_unmap envid va s = (Ret v, t) \<and> ready t K c
    \<and> confined s t (controlled s c)
    \<and> (if v \<noteq> 0 then t = s \<and> v \<in> {- E_BAD_ENV, - E_INVAL}
       else \<not> bad_va va \<and> (\<exists>d. controls_space s c d \<and> maps_agree s t (dirs s) d (PGNUM va) None))"
  using assms by (rule sys_page_unmap_spec)

theorem sys_page_unmap_correct_witness:
  "\<exists>v t. sys_page_unmap 0 UTEXT demo = (Ret v, t) \<and> ready t {0, 1} 0"
  using sys_page_unmap_correct [OF demo_ready] by blast

text \<open>
  C13: A message send always returns: -E_BAD_ENV when the identifier names no environment,
  -E_IPC_NOT_RECV when it does not wait for a message; when both sides named an address below
  \<^verbatim>\<open>UTOP\<close>, -E_INVAL for a page that is not mapped or is shared with more rights than the sender has,
  -E_NO_MEM for want of a page table, each without any effect. Otherwise the receiver gets exactly the
  value, the sender's identifier and the permission word and becomes runnable, its space maps the sender's
  page at the address it named exactly when both named one, and nobody else is affected. Unlike its
  comment says, the code checks neither the alignment of the address nor the permission word, and stores
  that word even when no page is sent; a word of more than 12 bits, excluded here, would spoil the
  frame number of the mapping. Reference counts are assumed below 65535.
\<close>

theorem ipc_send_correct:
  assumes "ready s K c" and "refs_ok s" and "perm < 0x1000"
  shows "case named_env s c False envid of
      None \<Rightarrow> sys_ipc_try_send envid value srcva perm s = (Ret (- E_BAD_ENV), s)
    | Some e \<Rightarrow>
        let dstva = env_ipc_dstva (envs s e); page = dstva < UTOP \<and> srcva < UTOP; x = umap s (env_space s c) (PGNUM srcva) in
        if \<not> env_ipc_recving (envs s e) then sys_ipc_try_send envid value srcva perm s = (Ret (- E_IPC_NOT_RECV), s)
        else if page \<and> (x = None \<or> perm AND PTE_W \<noteq> 0 \<and> the x AND PTE_W = 0)
        then sys_ipc_try_send envid value srcva perm s = (Ret (- E_INVAL), s)
        else if page \<and> no_table_page s (env_space s e) dstva
        then sys_ipc_try_send envid value srcva perm s = (Ret (- E_NO_MEM), s)
        else \<exists>t. sys_ipc_try_send envid value srcva perm s = (Ret 0, t) \<and> ready t K c \<and> confined s t {e}
          \<and> delivered s c e value perm (envs t e)
          \<and> (if page then maps_agree s t (dirs s) (env_space s e) (PGNUM dstva) (Some (mk_pte (pte_frame (the x)) perm))
             else \<forall>d n. umap t d n = umap s d n)"
  using assms by (rule sys_ipc_try_send_exact)

theorem ipc_send_correct_witness:
  "\<exists>t. sys_ipc_try_send 0x1001 42 UTEXT 5 demo = (Ret 0, t) \<and> delivered demo 0 1 42 5 (envs t 1)
     \<and> umap t 5 0 = Some (mk_pte 4 5)"
proof -
  have "PGNUM UTEXT = 0x800" "UTEXT < UTOP" "PGNUM 0 = 0" "(5 :: u32) AND PTE_W = 0" "ENVX 0x1001 = 1"
    by (simp_all add: PGNUM_eq kconst ENVX_eq)
  moreover have "umap demo 2 0x800 = Some (mk_pte 4 7)" "env_space demo 0 = 2" "env_space demo 1 = 5"
    by (simp_all add: umap_def demo_tab demo_ram_def env_space_def Let_def present_def mk_pte_def kconst)
  ultimately show ?thesis
    using ipc_send_correct [OF demo_ready demo_refs_ok, of 5 "0x1001" 42 UTEXT]
    by (auto simp: named_env_def Let_def no_table_page_def kconst dest: maps_agree_self)
qed

text \<open>
  C14: \<^verbatim>\<open>sys_exofork\<close>. When all 1024 slots are taken, the free list leads past the end of the
  array and the kernel follows it, instead of returning the documented -E_NO_FREE_ENV; otherwise, when
  no page is free, the result is -E_NO_MEM with no effect; in every other case the call creates a child
  of the caller that is not runnable, has an empty user address space and the caller's registers with
  \<^verbatim>\<open>eax\<close> zero, returns its identifier, and changes no other environment.
\<close>

theorem exofork_correct:
  assumes "ready s K c"
  shows "if \<forall>e < NENV. live s e then sys_exofork s = (Stop (BadPointer ''envs''), s)
    else if page_free_list s = None then sys_exofork s = (Ret (- E_NO_MEM), s)
    else \<exists>v e t. sys_exofork s = (Ret v, t) \<and> ready t K c \<and> confined s t {} \<and> \<not> live s e \<and> live t e
      \<and> 0 < sint v \<and> v = env_id (envs t e) \<and> env_parent_id (envs t e) = env_id (envs s c)
      \<and> env_status (envs t e) = ENV_NOT_RUNNABLE
      \<and> env_tf (envs t e) = (let f = env_tf (envs s c) in f\<lparr>tf_regs := (tf_regs f)\<lparr>reg_eax := 0\<rparr>\<rparr>)
      \<and> (\<forall>d m. env_pgdir (envs t e) = Some d \<longrightarrow> m < 1024 * UPDX \<longrightarrow> umap t d m = None)"
  using assms by (rule sys_exofork_exact)

theorem exofork_correct_witness:
  "\<exists>v e t. sys_exofork demo = (Ret v, t) \<and> ready t {0, 1} 0 \<and> \<not> live demo e \<and> live t e \<and> v = env_id (envs t e)
     \<and> env_status (envs t e) = ENV_NOT_RUNNABLE"
proof -
  have "\<not> live demo 2" "2 < NENV" by (simp_all add: NENV_def)
  then have "\<not> (\<forall>e < NENV. live demo e)" by blast
  then show ?thesis using exofork_correct [OF demo_ready] by (simp only: if_False demo_simps option.distinct) blast
qed

text \<open>
  \<^verbatim>\<open>sys_env_set_trapframe\<close> copies the segment registers of the given frame as they
  are and only forces the interrupt flag, although its comment promises to run the environment
  at privilege level 3.
\<close>

theorem set_trapframe_keeps_segments:
  assumes "ready s K c" and "envid2env envid True s = (Ret (0, Some e), s)"
    and "vload_tf tf s = (Ret f, s)" and "vload32 (tf + 48) s = (Ret (tf_eip f), s)"
    and "tf_eip f < UTOP"
  shows "\<exists>t. sys_env_set_trapframe envid tf s = (Ret 0, t)
    \<and> env_tf (envs t e) = f\<lparr>tf_eflags := tf_eflags f OR FL_IF\<rparr>"
  using assms by (rule set_trapframe_copies_segments)

theorem set_trapframe_keeps_segments_witness:
  "\<exists>t. sys_env_set_trapframe 0 UTEXT demo = (Ret 0, t) \<and> tf_cs (env_tf (envs t 0)) = 0"
proof -
  have e: "envid2env 0 True demo = (Ret (0, Some 0), demo)"
    using envid2env_spec [OF demo_kinv, of 0 0 True] by simp
  show ?thesis
    using set_trapframe_keeps_segments [OF demo_ready e demo_vload_tf, unfolded demo_eip, OF demo_load32]
    by (auto simp: demo_frame_def kconst)
qed

section \<open>Environments and scheduling\<close>

text \<open>
  C15: The scheduler runs the first ready environment after the current one in circular order
  of the table; without one it resumes the environment running on this processor or the idle
  one of this processor; without any it halts. The environment it enters is alive.
\<close>

theorem sched_yield_correct:
  assumes "kinv s K" and "holding s" and "cpunum s < NENV"
  shows "(\<exists>j d. sched_yield s = (Stop (EnterUser j), env_run_state j d s) \<and> live s j
      \<and> env_pgdir (envs s j) = Some d
      \<and> (if \<exists>r < NENV. sched_ready s r
         then sched_ready s j \<and> (\<forall>r < NENV. sched_ready s r \<longrightarrow>
                cdist (sched_last s) j \<le> cdist (sched_last s) r)
         else sched_mine s j \<or> j = cpunum s))
    \<or> (\<forall>r < NENV. \<not> sched_ready s r) \<and> (\<forall>r < NENV. \<not> sched_mine s r)
      \<and> sched_yield s = sched_halt s"
  using assms by (rule sched_yield_spec)

theorem sched_yield_correct_witness:
  "\<exists>d. sched_yield demo = (Stop (EnterUser 0), env_run_state 0 d demo)"
proof -
  have r: "sched_ready demo r \<longleftrightarrow> r = 0" for r by (rule demo_sched_ready)
  have "0 < NENV" by (simp add: NENV_def)
  then show ?thesis using sched_yield_correct [OF demo_kinv, unfolded r] by auto
qed

text \<open>
  C16: No starvation as long as nobody exits: an environment that stays ready is chosen within
  \<^verbatim>\<open>NENV\<close> calls of the scheduler, if at each call the environment that ran last, as the scheduler
  records it, is the one chosen before. An environment that is destroyed while it runs breaks that:
  \<^verbatim>\<open>curenv\<close> is null afterwards and the search starts at slot 1 again, so that environments which
  keep creating and destroying each other in low slots can hold up a ready one for ever.
\<close>

theorem sched_no_starvation:
  assumes "\<And>i. i < NENV \<Longrightarrow> kinv (st i) K \<and> holding (st i) \<and> cpunum (st i) < NENV
      \<and> sched_ready (st i) r \<and> (\<exists>t. sched_yield (st i) = (Stop (EnterUser (c i)), t))"
    and "\<And>i. Suc i < NENV \<Longrightarrow> sched_last (st (Suc i)) = c i"
    and "r < NENV"
  shows "\<exists>i < NENV. c i = r"
  using assms by (rule sched_yield_fair)

theorem sched_no_starvation_witness:
  "\<exists>i < NENV. (\<lambda>_. 0) i = (0 :: nat) \<and> sched_ready demo 0"
proof -
  have "\<exists>i < NENV. (\<lambda>_. 0) i = (0 :: nat)"
  proof (rule sched_no_starvation [where st = "\<lambda>_. demo"])
    show "kinv demo {0, 1} \<and> holding demo \<and> cpunum demo < NENV \<and> sched_ready demo 0
        \<and> (\<exists>t. sched_yield demo = (Stop (EnterUser 0), t))"
      using demo_kinv demo_sched_ready demo_yield by (auto simp: NENV_def)
    show "sched_last demo = 0" by (simp add: sched_last_def ENVX_eq)
  qed (simp add: NENV_def)
  then show ?thesis using demo_sched_ready by simp
qed

text \<open>
  C17: \<^verbatim>\<open>env_free\<close> returns every page of the environment that no other environment
  maps, its page tables and its page directory to the free list, keeps the invariant without
  losing a page, and leaves the records and address spaces of all other environments unchanged.
\<close>

theorem env_free_correct:
  assumes "kinv s K" and "live s e"
  shows "\<exists>u. env_free e s = (Ret (), u) \<and> \<not> live u e \<and> cpus u = cpus s \<and> cpunum u = cpunum s
    \<and> kernel_lock u = kernel_lock s \<and> kinv u K
    \<and> (\<forall>e'. e' \<noteq> e \<longrightarrow> envs u e' = envs s e')
    \<and> (\<forall>e' d. e' \<noteq> e \<longrightarrow> live s e' \<longrightarrow> env_pgdir (envs s e') = Some d \<longrightarrow>
         (\<forall>m < 1024 * UPDX. umap u d m = umap s d m))"
  using assms by (rule env_free_kinv)

theorem env_free_correct_witness:
  "\<exists>u. env_free 0 demo = (Ret (), u) \<and> \<not> live u 0 \<and> envs u 1 = demo_env 1 \<and> kinv u {0, 1}"
  using env_free_correct [OF demo_kinv, of 0] by auto

text \<open>
  A new environment takes a free slot, gets the next identifier of that slot, an empty user
  address space and a user-mode trap frame, and no existing environment is affected; otherwise
  the call reports exhausted memory without any effect, or every slot is taken.
\<close>

theorem env_alloc_correct:
  assumes "kinv s K"
  shows "(\<exists>e u. env_alloc_as typ parent s = (Ret (0, Some e), u) \<and> kinv u K \<and> \<not> live s e
      \<and> live u e \<and> cpus u = cpus s \<and> cpunum u = cpunum s \<and> kernel_lock u = kernel_lock s
      \<and> env_id (envs u e) = next_env_id (env_id (envs s e)) e \<and> env_parent_id (envs u e) = parent
      \<and> env_status (envs u e) = ENV_RUNNABLE \<and> env_tf (envs u e) = fresh_tf
      \<and> (\<forall>e'. e' \<noteq> e \<longrightarrow> envs u e' = envs s e')
      \<and> (\<forall>d m. env_pgdir (envs u e) = Some d \<longrightarrow> m < 1024 * UPDX \<longrightarrow> umap u d m = None)
      \<and> (\<forall>d \<in> dirs s. \<forall>m < 1024 * UPDX. umap u d m = umap s d m))
    \<or> env_alloc_as typ parent s = (Ret (- E_NO_MEM, None), s)
    \<or> (\<forall>e < NENV. live s e) \<and> env_alloc_as typ parent s = (Stop (BadPointer ''envs''), s)"
  using assms by (rule env_alloc_as_kinv)

theorem env_alloc_correct_witness:
  "(\<exists>e u. env_alloc 0 demo = (Ret (0, Some e), u) \<and> kinv u {0, 1} \<and> live u e)
    \<or> env_alloc 0 demo = (Ret (- E_NO_MEM, None), demo)"
proof -
  have "\<not> live demo 2" "2 < NENV" by (simp_all add: NENV_def)
  then show ?thesis
    unfolding env_alloc_def using env_alloc_correct [OF demo_kinv] by blast
qed

text \<open>
  \<^verbatim>\<open>env_destroy\<close> of another environment returns with the caller still current: the
  victim is freed, or marked dying if it runs on another processor, and nobody else changes.
  Destroying oneself never returns, and the freed slot is no longer alive.
\<close>

theorem env_destroy_correct:
  assumes "kinv s K" and "live s e" and "holding s" and "cpunum s < NENV"
  shows "case env_destroy e s of
      (Ret _, t) \<Rightarrow> kinv t K \<and> holding t \<and> curenv t = curenv s \<and> curenv s \<noteq> Some e
        \<and> (\<forall>x. x \<noteq> e \<longrightarrow> envs t x = envs s x) \<and> cpunum t = cpunum s
        \<and> (\<forall>x d. x \<noteq> e \<longrightarrow> live s x \<longrightarrow> env_pgdir (envs s x) = Some d \<longrightarrow>
             (\<forall>m < 1024 * UPDX. umap t d m = umap s d m))
        \<and> (if env_status (envs s e) = ENV_RUNNING then env_status (envs t e) = ENV_DYING
           else \<not> live t e)
    | (Stop x, t) \<Rightarrow> kinv t K \<and> curenv s = Some e \<and> (\<forall>msg. x \<noteq> Panic msg) \<and> \<not> live t e"
  using assms by (rule env_destroy_kinv)

theorem env_destroy_correct_witness:
  "\<exists>t. env_destroy 1 demo = (Ret (), t) \<and> kinv t {0, 1} \<and> \<not> live t 1"
proof -
  have "0 < NENV" by (simp add: NENV_def)
  then show ?thesis
    using env_destroy_correct [OF demo_kinv, of 1] by (auto split: prod.splits outcome.splits)
qed

text \<open>
  C18: \<^verbatim>\<open>envid2env\<close> is decided by the table alone: 0 names the caller, any other number
  is accepted exactly if it is the identifier of a live environment and, when permission is
  checked, that environment is the caller or its child.
\<close>

theorem envid2env_correct:
  assumes "kinv s K" and "curenv s = Some c" and "live s c"
  shows "envid2env envid checkperm s =
    (if envid = 0 then (Ret (0, Some c), s)
     else if \<exists>e. live s e \<and> env_id (envs s e) = envid
              \<and> (checkperm \<longrightarrow> e = c \<or> env_parent_id (envs s e) = env_id (envs s c))
     then (Ret (0, Some (ENVX envid)), s)
     else (Ret (- E_BAD_ENV, None), s))"
  using assms by (rule envid2env_spec)

theorem envid2env_correct_witness:
  "envid2env 0x1001 False demo = (Ret (0, Some 1), demo)
    \<and> envid2env 0x1001 True demo = (Ret (- E_BAD_ENV, None), demo)"
  using envid2env_correct [OF demo_kinv, of 0 "0x1001" False]
    envid2env_correct [OF demo_kinv, of 0 "0x1001" True] by (auto simp: ENVX_eq)

text \<open>
  Identifiers are not recycled at once: the identifier an environment had before its slot
  was reused no longer names anything.
\<close>

theorem stale_envid_rejected:
  assumes "kinv s K" and "curenv s = Some c" and "live s c"
    and "live s e" and "0 < sint oldid" and "ENVX oldid = e"
    and "env_id (envs s e) = next_env_id oldid e"
  shows "envid2env oldid checkperm s = (Ret (- E_BAD_ENV, None), s)"
  using assms by (rule stale_envid)

theorem stale_envid_rejected_witness:
  "envid2env 0x1000 False demo = (Ret (- E_BAD_ENV, None), demo)"
proof -
  have "next_env_id 0x1000 0 = 0x2000" by (simp add: next_env_id_def kconst)
  then show ?thesis
    using stale_envid_rejected [OF demo_kinv, of 0 0 "0x1000" False] by (simp add: ENVX_eq)
qed

text \<open>
  C19: \<^verbatim>\<open>env_init\<close> builds a free list that visits all 1024 slots in ascending order, but
  the last slot links to the one after the array, because the test that should end the list
  is always true; so with all slots taken, allocation leaves the array instead of returning
  \<^verbatim>\<open>-E_NO_FREE_ENV\<close>.
\<close>

theorem env_init_misses_end_of_list:
  "\<exists>t. env_init s = (Ret (), t) \<and> (\<forall>e < NENV. \<not> live t e)
     \<and> env_link (envs t (NENV - 1)) = Some NENV
     \<and> (curenv s = None \<longrightarrow> env_table t [0 ..< NENV] \<and> dirs t = {})
     \<and> (\<forall>u. env_table u [] \<longrightarrow> env_alloc_as ty parent u = (Stop (BadPointer ''envs''), u))"
proof -
  have "\<forall>u. env_table u [] \<longrightarrow> env_alloc_as ty parent u = (Stop (BadPointer ''envs''), u)"
    using env_alloc_exhausted by simp
  then show ?thesis using env_init_spec [of s] by simp
qed

theorem env_init_misses_end_of_list_witness:
  "\<exists>t. env_init demo = (Ret (), t) \<and> env_link (envs t (NENV - 1)) = Some NENV"
  using env_init_misses_end_of_list [of demo] by blast

section \<open>The console\<close>

text \<open>
  C20: Input arrives in order. As long as fewer than 512 characters are waiting,
  \<^verbatim>\<open>cons_getc\<close> returns the first of the characters that are buffered, then received on
  the serial line, then decoded from the keyboard, and keeps the others in that order; with
  nothing typed it returns 0.
\<close>

theorem cons_getc_in_order:
  assumes "cons_inv c" and "length (all_typed c) < CONSBUFSIZE"
  shows "\<exists>ch c'. cons_getc c = Some (ch, c') \<and> cons_inv c'
    \<and> (case all_typed c of [] \<Rightarrow> ch = 0 \<and> pending c' = [] | x # xs \<Rightarrow> ch = x \<and> pending c' = xs)"
  using assms by (rule cons_getc_delivers)

theorem cons_getc_in_order_witness:
  "\<exists>c'. cons_getc demo_console = Some (0x68, c') \<and> pending c' = [0x69, 0x61]"
proof -
  have "all_typed demo_console = [0x68, 0x69, 0x61]" by (rule demo_typed)
  moreover have "cons_inv demo_console" by (simp add: cons_inv_def demo_console_def kconst)
  ultimately show ?thesis using cons_getc_in_order [of demo_console] by (auto simp: CONSBUFSIZE_def)
qed

text \<open>
  The input buffer has no overflow check: one character more than 511 makes the write
  position meet the read position and all 512 waiting characters are lost.
\<close>

theorem console_overflow_loses_input:
  assumes "cons_inv c" and "length (pending c) = CONSBUFSIZE - 1"
  shows "pending (cons_put ch c) = [] \<and> cons_take (cons_put ch c) = (None, cons_put ch c)"
  using pending_overflow [OF assms] cons_put_inv [OF assms(1)] consq.get_Nil by blast

theorem console_overflow_loses_input_witness:
  "pending (cons_put 0x61 (demo_console\<lparr>wpos := 511\<rparr>)) = []"
proof -
  have "cons_inv (demo_console\<lparr>wpos := 511\<rparr>)" by (simp add: cons_inv_def demo_console_def kconst)
  moreover have "length (pending (demo_console\<lparr>wpos := 511\<rparr>)) = CONSBUFSIZE - 1"
    by (simp add: pending_def demo_console_def CONSBUFSIZE_def)
  ultimately show ?thesis by (rule console_overflow_loses_input [THEN conjunct1])
qed

text \<open>
  Whatever is printed, control characters, tabs and scrolling included, the cursor stays on
  the 80 by 25 screen, so no store leaves the screen buffer.
\<close>

theorem cursor_stays_on_screen:
  assumes "unat (crt_pos c) < 2000"
  shows "unat (crt_pos (fold cputchar chs c)) < 2000"
  using assms by (rule fold_cputchar_pos)

theorem cursor_stays_on_screen_witness:
  "unat (crt_pos (fold cputchar [0x61, 10, 9] (demo_console\<lparr>crt_pos := 1999\<rparr>))) < 2000"
  by (rule cursor_stays_on_screen) simp

section \<open>Strings and formatted output\<close>

text \<open>
  C21: \<^verbatim>\<open>memmove\<close> copies as if through a buffer: for any two ranges inside the address
  space, overlapping or not, aligned or not, and in whichever direction and unit the copy runs,
  the destination ends up with the old contents of the source and nothing else changes.
\<close>

theorem memmove_correct:
  assumes "unat src + unat n < 4294967296" and "unat dst + unat n \<le> 4294967296"
  shows "memmove m dst src n
    = (dst, \<lambda>a. if unat (a - dst) < unat n then m (src + (a - dst)) else m a)"
  using memmove_copies [OF assms] by (simp add: copied_def)

theorem memmove_correct_witness:
  "snd (memmove (\<lambda>a. ucast a) 0x1003 0x1000 8) 0x1007 = 4"
  using memmove_correct [of "0x1000" 8 "0x1003" "\<lambda>a. ucast a"] by simp

text \<open>
  \<^verbatim>\<open>strcmp\<close> decides the lexicographic order of two strings of unsigned bytes: it
  always returns, zero exactly for equal strings and a negative number exactly when the first
  comes before the second.
\<close>

theorem strcmp_is_lexicographic:
  assumes "cstr m p xs" and "cstr m q ys"
  shows "\<exists>r. strcmp m p q = Some r \<and> (r = 0 \<longleftrightarrow> xs = ys)
    \<and> (sint r < 0 \<longleftrightarrow> ord_class.lexordp xs ys)"
proof -
  have "0 \<notin> set xs" "0 \<notin> set ys" using assms by (auto simp: cstr_iff in_set_conv_nth)
  then show ?thesis using strcmp_cstr [OF assms] bytes_cmp_sign by blast
qed

theorem strcmp_is_lexicographic_witness:
  "\<exists>r. strcmp ((\<lambda>_. 0)(1 := 0x61, 2 := 0xC3, 5 := 0x61, 6 := 0x62)) 1 5 = Some r \<and> r \<noteq> 0"
  using strcmp_is_lexicographic [of "(\<lambda>_. 0)(1 := 0x61, 2 := 0xC3, 5 := 0x61, 6 := 0x62)"
      1 "[0x61, 0xC3]" 5 "[0x61, 0x62]"] by auto

text \<open>
  C22: Numbers survive printing and parsing: the characters that the conversion \<^verbatim>\<open>%d\<close>
  produces for any 32-bit argument, stored as a string, are read back by \<^verbatim>\<open>strtol\<close> in
  base 10 as that argument, with the end pointer after the last digit.
\<close>

theorem printed_number_reads_back:
  assumes "vprintfmt m ap 0 [0x25, 0x64] = Some out" and "cstr m' s (map ucast out)"
  shows "strtol m' s 10 = Some (ap 0, s + of_nat (length out))"
  using assms by (rule decimal_roundtrip)

theorem printed_number_reads_back_witness:
  "strtol ((\<lambda>_. 0)(8 := 0x2D, 9 := 0x34, 10 := 0x32)) 8 10 = Some (- 42, 11)"
proof -
  have "sint (- 42 :: u64) = - 42" "unat (42 :: u64) = 42" by simp_all
  then have "vprintfmt (\<lambda>_. 0) (\<lambda>_. - 42) 0 [0x25, 0x64] = Some [0x2D, 0x34, 0x32]"
    using printnum_digits [of 10 42 "- 1" "0x20"]
    unfolding vprintfmt_d by (simp add: print_signed_def fresh_escape_def digits.simps hexdigit_def)
  from printed_number_reads_back [OF this, of "(\<lambda>_. 0)(8 := 0x2D, 9 := 0x34, 10 := 0x32)" 8]
  show ?thesis by simp
qed

text \<open>
  C23: \<^verbatim>\<open>vsnprintf\<close> never writes outside its buffer: the formatted characters, cut to
  one less than the size of the buffer, arrive with a terminator behind them, every byte outside
  the buffer is unchanged, and the result is the number of characters before the cut. The format and
  the strings it names are read before the buffer is written: they must not overlap it.
\<close>

theorem vsnprintf_stays_in_buffer:
  assumes "vprintfmt m ap k fmt = Some out" and "buf \<noteq> 0" and "0 < sint n"
    and "unat buf + unat n \<le> 4294967296"
  shows "\<exists>m'. vsnprintf m buf n fmt ap k = Some (of_nat (length out), m')
    \<and> (\<forall>a. unat n \<le> unat (a - buf) \<longrightarrow> m' a = m a)
    \<and> (\<forall>i < min (length out) (unat n - 1). m' (buf + of_nat i) = ucast (out ! i))
    \<and> m' (buf + of_nat (min (length out) (unat n - 1))) = 0"
  using assms by (rule vsnprintf_bounded)

theorem vsnprintf_stays_in_buffer_witness:
  "\<exists>m'. vsnprintf (\<lambda>_. 0xFF) 0x1000 2 [0x61, 0x62] (\<lambda>_. 0) 0 = Some (2, m') \<and> m' 0x1002 = 0xFF"
proof -
  have "vprintfmt (\<lambda>_. 0xFF) (\<lambda>_. 0) 0 [0x61, 0x62] = Some [0x61, 0x62]" by simp
  from vsnprintf_stays_in_buffer [OF this, of "0x1000" 2]
  obtain m' where "vsnprintf (\<lambda>_. 0xFF) 0x1000 2 [0x61, 0x62] (\<lambda>_. 0) 0 = Some (2, m')"
    "\<forall>a. 2 \<le> unat (a - 0x1000) \<longrightarrow> m' a = 0xFF" by auto
  moreover have "unat ((0x1002 :: u32) - 0x1000) = 2" by simp
  ultimately show ?thesis by (metis order_refl)
qed

section \<open>The kernel monitor\<close>

text \<open>
  C24: A line typed at the monitor. Whatever printable characters and deletions are typed before
  Enter, the turn ends with the rest of the input unread and does what the edited line says: with no
  word nothing, with more than 15 words the complaint, otherwise the command whose name is the first
  word, or the report of an unknown one; its arguments are pointers to the words of the line, in order.
\<close>

theorem monitor_turn_correct:
  assumes "\<forall>c \<in> set cs. line_char c" and "e = 0x0A \<or> e = 0x0D"
    and "table_at m tab commands" and "table_apart b tab commands"
  shows "\<exists>m' argv. monitor_turn tab b (cs @ e # rs) m
      = Some (rs, m', Some (action_of (line_words (edited cs)) argv))
    \<and> (length (line_words (edited cs)) \<le> 15 \<longrightarrow> list_all2 (cstr m') argv (line_words (edited cs)))"
  using assms by (rule monitor_turn_spec)

theorem monitor_turn_correct_witness:
  "\<exists>m' p q. monitor_turn mon_table mon_buffer (mon_typed @ [0x0D]) mon_memory
      = Some ([], m', Some (Invoke mon_help [p, q])) \<and> cstr m' q [0x6D, 0x65]"
proof -
  obtain m' argv where r: "monitor_turn mon_table mon_buffer (mon_typed @ [0x0D]) mon_memory
      = Some ([], m', Some (action_of [ascii_bytes ''help'', [0x6D, 0x65]] argv))"
    "list_all2 (cstr m') argv [ascii_bytes ''help'', [0x6D, 0x65]]"
    using monitor_turn_correct [of mon_typed "0x0D" mon_memory mon_table mon_buffer "[]"] mon_example by auto
  then obtain p q where "argv = [p, q]" "cstr m' q [0x6D, 0x65]" by (auto simp: list_all2_Cons2)
  then show ?thesis using r(1) by (auto simp: action_of_def commands_def)
qed

text \<open>
  The line editor. For any characters before Enter \<^verbatim>\<open>readline\<close> returns with the
  buffer holding exactly what a line editor shows, at most 1023 characters and a terminator, and
  with every byte outside the 1024 of the buffer unchanged.
\<close>

theorem readline_correct:
  assumes "\<forall>c \<in> set cs. line_char c" and "e = 0x0A \<or> e = 0x0D"
  shows "\<exists>l. readline b prompt (cs @ e # rs) m = l \<and> line_end l = Line \<and> line_rest l = rs
    \<and> cstr (line_mem l) b (edited cs) \<and> length (edited cs) \<le> 1023
    \<and> (\<forall>a. 1024 \<le> unat (a - b) \<longrightarrow> line_mem l a = m a)"
  using assms by (rule readline_line)

theorem readline_correct_witness:
  "\<exists>l. readline 0x2000 None [0x61, 0x62, 0x08, 0x63, 0x0A, 0x64] (\<lambda>_. 0xFF) = l
    \<and> line_rest l = [0x64] \<and> cstr (line_mem l) 0x2000 [0x61, 0x63]"
proof -
  have "\<forall>c \<in> set [0x61, 0x62, 0x08, 0x63]. line_char c" by (simp add: line_char_def)
  moreover have "edited [0x61, 0x62, 0x08, 0x63] = [0x61, 0x63]" by (simp add: edited_def edit_def)
  ultimately show ?thesis
    using readline_correct [of "[0x61, 0x62, 0x08, 0x63]" "0x0A" "0x2000" None "[0x64]" "\<lambda>_. 0xFF"] by simp
qed

text \<open>
  C25: The search behind back traces. In a table whose entries of one type are in the order of their
  addresses, \<^verbatim>\<open>stab_binsearch\<close> returns and finds what its comment promises: the last entry of
  that type not behind the address, up to the entry before the next one behind it, or an empty region
  when there is no entry of the type. Two cases in which the code does not keep that promise are excluded:
  an entry that starts exactly one byte behind the address, and a table whose entries of the type
  all lie behind the address.
\<close>

theorem stab_binsearch_correct:
  assumes "readable st a b" and "ordered st t a b" and "addr < NOT 0"
    and "\<forall>i \<in> matching st t a b. value_of st i \<noteq> addr + 1"
    and "matching st t a b = {} \<or> (\<exists>i \<in> matching st t a b. value_of st i \<le> addr)"
  shows "stab_binsearch st a b t addr = Some (bracket st t a b addr)"
  using assms by (rule stab_binsearch_bracket)

theorem stab_binsearch_correct_witness:
  "stab_binsearch so_table 0 657 N_SO 0xF0100184 = Some (118, 554)"
  using stab_binsearch_correct [of so_table 0 657 N_SO "0xF0100184"] so_table_facts by simp

section \<open>Programs and the shell\<close>

text \<open>
  C26: A command line of the shell. The arguments, the redirections and the program that
  \<^verbatim>\<open>runcmd\<close> arrives at, or its way out, are those of the tokens of the line: words and symbols,
  a file name behind each redirection, the first directory of \<^verbatim>\<open>PATH\<close> that has the program. The
  scanner works one token ahead in the line itself, yet every word is terminated and kept when it is used. A
  line of exactly 16 words passes the check and overruns \<^verbatim>\<open>argv\<close>.
\<close>

theorem shell_line_correct:
  assumes "stat_of status st" and "shell_layout m b paths s cs"
  shows "\<exists>m' acts e. sh_runcmd opened status paths b m s lx = Some (m', acts, e)
    \<and> (case request_of opened st cs of (bs, q) \<Rightarrow>
         acts_rep (stretch s (length cs)) m' acts bs \<and> outcome_rep m' e q)"
  using assms by (rule sh_runcmd_spec)

theorem shell_line_correct_witness:
  "\<exists>m' acts p q. sh_runcmd (\<lambda>_. 0) (\<lambda>_ _. 0) [0x20000, 0x20010] 0xEEBFD000 sh_memory 0x10000 \<lparr>nc = 0, np1 = 0, np2 = 0\<rparr>
      = Some (m', acts, Spawns [p, q]) \<and> cstr m' p (ascii_bytes ''/bin/ls'') \<and> cstr m' q [0x2D, 0x6C]"
proof -
  obtain m' acts e where r: "sh_runcmd (\<lambda>_. 0) (\<lambda>_ _. 0) [0x20000, 0x20010] 0xEEBFD000 sh_memory 0x10000 \<lparr>nc = 0, np1 = 0, np2 = 0\<rparr>
      = Some (m', acts, e)" "outcome_rep m' e (Ask_Spawn [ascii_bytes ''/bin/ls'', [0x2D, 0x6C]])"
    using shell_line_correct [OF sh_example(1,2), of "\<lambda>_. 0" "\<lparr>nc = 0, np1 = 0, np2 = 0\<rparr>"] unfolding sh_example(3) by auto
  then obtain ps where "e = Spawns ps" "list_all2 (cstr m') ps [ascii_bytes ''/bin/ls'', [0x2D, 0x6C]]" by (cases e) auto
  then show ?thesis using r(1) by (auto simp: list_all2_Cons2)
qed

text \<open>
  C27: Reading all flags with \<^verbatim>\<open>argnext\<close> gives the characters of the leading flag groups,
  in order, up to the first argument that is not a flag, a single dash, or a double dash, and leaves
  exactly the arguments behind them in the array.
\<close>

theorem all_flags_correct:
  assumes "arg_str m e []" and "length args < length av - 1"
    and "list_all2 (arg_str m) (take (length args) (tl av)) args"
  shows "\<exists>b. all_flags m (argstart e (Suc (length args)) av) = Some (map b2i (fst (split_flags args)), b)
    \<and> argc b = Suc (length (snd (split_flags args)))
    \<and> list_all2 (arg_str m) (take (length (snd (split_flags args))) (tl (argv b))) (snd (split_flags args))"
  using all_flags_from_start [OF assms] by (auto simp: arg_rep_def)

theorem all_flags_correct_witness:
  "\<exists>b. all_flags args_memory (argstart 0xF00 4 [0xE00, 0x1000, 0x1008, 0x1010, 0]) = Some ([0x72, 0x78], b) \<and> argc b = 2"
proof -
  let ?args = "[[0x2D, 0x72, 0x78 :: u8], [0x2D, 0x2D], [0x64, 0x75, 0x68]]" and ?av = "[0xE00, 0x1000, 0x1008, 0x1010, 0 :: u32]"
  have "length ?args < length ?av - 1" "list_all2 (arg_str args_memory) (take (length ?args) (tl ?av)) ?args"
    using args_example(2) by simp_all
  then obtain b where "all_flags args_memory (argstart 0xF00 (Suc (length ?args)) ?av) = Some (map b2i [0x72, 0x78], b)"
    "argc b = Suc (length [[0x64, 0x75, 0x68 :: u8]])"
    using all_flags_correct [OF args_example(1), of ?args ?av] unfolding args_example(3) fst_conv snd_conv by blast
  moreover have "Suc (length ?args) = 4" "map b2i [0x72, 0x78] = [0x72, 0x78]" "Suc (length [[0x64, 0x75, 0x68 :: u8]]) = 2"
    by (simp_all add: b2i_def)
  ultimately show ?thesis by (intro exI [of _ b]) (simp only: simp_thms)
qed

text \<open>
  C28: The stack of a spawned program. Let the argument strings lie outside the page at
  \<^verbatim>\<open>UTEMP\<close> and strings and pointers take less than 4 MB together (beyond that the 32-bit sums
  wrap and the test for room can be passed), and let no call fail. When the arguments, their
  pointers and the two words for \<^verbatim>\<open>umain\<close> fit in a page, a new frame is mapped, readable and
  writable, as the page below \<^verbatim>\<open>USTACKTOP\<close> of the child; through that mapping the child finds at its
  initial stack pointer the number of arguments and the address of an array of pointers to exactly
  the given strings, ended by a null pointer; the caller has unmapped the page, its other memory and
  every other page of the child are as before, and exactly the three calls have been made. When they
  do not fit, -E_NO_MEM is returned before any call and nothing has changed.
\<close>

theorem init_stack_correct:
  assumes "list_all2 (arg_at (sp_ram s)) ps ss" and "room ss + 4 * length ss < 0x400000"
    and "frames_known s" and "\<forall>n. 0 \<le> sint (answer e n)"
  shows "if args_fit ss
    then \<exists>esp' s' g. init_stack e chd ps esp s = Some (0, esp', s')
      \<and> gives_page s s' (USTACKTOP - PGSIZE) g RWU \<and> argv_stack (child_ram s') esp' ss
      \<and> USTACKTOP - PGSIZE \<le> esp' \<and> esp' < USTACKTOP
      \<and> sp_temp s' = None \<and> sp_made s' = sp_made s @ stack_calls chd
    else init_stack e chd ps esp s = Some (- E_NO_MEM, esp, s)"
  using assms by (rule init_stack_spec)

theorem init_stack_correct_witness:
  "\<exists>esp' s'. init_stack demo_outside 0x1001 [0x800000, 0x800010] 0 demo_spaces = Some (0, esp', s')
    \<and> argv_stack (child_ram s') esp' [[0x6C, 0x73], [0x2D, 0x6C]] \<and> sp_temp s' = None \<and> sp_made s' = stack_calls 0x1001"
proof -
  have "args_fit [[0x6C, 0x73], [0x2D, 0x6C]]" by (simp add: args_fit_def)
  moreover have a: "list_all2 (arg_at (sp_ram demo_spaces)) [0x800000, 0x800010] [[0x6C, 0x73], [0x2D, 0x6C]]"
    using demo_args_at by (simp only: demo_spaces_def spaces.simps)
  moreover have "\<forall>n. 0 \<le> sint (answer demo_outside n)" "sp_made demo_spaces = []"
    by (simp_all add: demo_outside_def demo_spaces_def)
  ultimately show ?thesis
    using init_stack_correct [OF a _ demo_spaces_known, of demo_outside "0x1001" 0] by auto
qed

text \<open>
  C29: Loading a segment, with every sum taken in 32 bits. Let no call fail, reads inside the
  segment's range of the file give the bytes \<open>f\<close> of the file, the range lie at positions between 0 and
  two gigabytes and the pages of the segment take no more than two gigabytes less a page (so that no sum wraps). Then
  every byte of the segment, wherever it starts and ends inside its pages, is in the child's memory the
  byte of the file at its offset, or zero behind the part stored in the file, in a page with the
  permissions asked for; the pages of the child outside the segment and the caller's memory are as
  before, and the page at \<^verbatim>\<open>UTEMP\<close> is unmapped again.
\<close>

theorem map_segment_correct:
  assumes "all_succeed e" and "frames_known s"
    and "holds_bytes e f (sint off - int (PGOFF va)) (sint off + int (unat filesz))"
    and "int (PGOFF va) \<le> sint off" and "sint off + int (unat filesz) < 2147483648"
    and "PGOFF va + unat memsz \<le> 0x7FFFF000"
  shows "\<exists>s'. map_segment e chd va memsz fd filesz off perm s = Some (Returned 0, s')
    \<and> segment_loaded f (sint off) (unat filesz) va memsz perm s s'"
  using assms by (rule map_segment_spec)

theorem map_segment_correct_witness:
  "\<exists>s'. map_segment demo_outside 0x1001 0x800020 0x2000 3 0x1500 0x1020 PTE_U demo_spaces = Some (Returned 0, s')
    \<and> child_byte s' 0x801000 = Some (0, PTE_U) \<and> child_byte s' 0x801001 = Some (1, PTE_U)
    \<and> child_byte s' 0x802000 = Some (0, PTE_U) \<and> sp_temp s' = None"
proof -
  have "PGOFF 0x800020 = 0x20" by (simp add: PGOFF_eq)
  then obtain s' where c: "map_segment demo_outside 0x1001 0x800020 0x2000 3 0x1500 0x1020 PTE_U demo_spaces = Some (Returned 0, s')"
    "segment_loaded of_int 0x1020 0x1500 0x800020 0x2000 PTE_U demo_spaces s'"
    using map_segment_correct [OF demo_outside_ok(1) demo_spaces_known demo_outside_ok(2), of "0x1020" "0x800020" "0x1500" "0x2000" "0x1001" 3 PTE_U]
    by auto
  have b: "child_byte s' (0x800020 + of_nat x) = Some (if x < 0x1500 then of_int (0x1020 + int x) else 0, PTE_U)" if "x < 0x2000" for x
    using c(2) that by (simp add: segment_loaded_def)
  have "sp_temp s' = None" using c(2) by (simp add: segment_loaded_def demo_spaces_def)
  then show ?thesis using c(1) b [of "0xFE0"] b [of "0xFE1"] b [of "0x1FE0"] by simp
qed

text \<open>
  C30: The calendar of a year, for the years from 1 on for which the sum of \<^verbatim>\<open>determinedaycode\<close>
  stays inside 32 bits (up to about 1700 million): after the line that repeats the year come the twelve
  pages in order, and in each page every day of the month stands in the column of its weekday and the
  row of its week, by the Gregorian calendar counted from the first of January of the year 1, a
  Monday. The year is the value of the variable \<^verbatim>\<open>year\<close>, which the program never sets from its
  argument.
\<close>

theorem calendar_correct:
  assumes "small_year y"
  shows "cal_year (of_nat y) = year_line (of_nat y) @ concat (map (page y) [1 ..< 13]) @ ''\<newline>''
    \<and> (\<forall>m d. 1 \<le> m \<and> m < 13 \<and> 1 \<le> d \<and> d \<le> month_days y m \<longrightarrow>
         at_cell (page y m) (row (months ! m) + 3 + (weekday y m 1 + (d - 1)) div 7) (1 + 5 * weekday y m d) (two d))"
  using cal_year_pages [OF assms] page_cells by blast

theorem calendar_correct_witness:
  "cal_year 1 = ''Input year: 1\<newline>'' @ concat (map (page 1) [1 ..< 13]) @ ''\<newline>''
    \<and> at_cell (page 1 1) (row (months ! 1) + 4) 1 (two 7)"
proof -
  have "weekday 1 1 1 = 1" "weekday 1 1 7 = 0" by (simp_all add: weekday_def days_before_def)
  moreover have "month_days 1 1 = 31" by (simp add: month_days_def)
  moreover have c: "small_year 1" by (simp add: small_year_def)
  moreover have "year_line 1 = ''Input year: 1\<newline>''" by code_simp
  moreover have "cal_year 1 = year_line 1 @ concat (map (page 1) [1 ..< 13]) @ ''\<newline>''"
    using calendar_correct [OF c] unfolding of_nat_1 by blast
  ultimately show ?thesis
    using calendar_correct [OF c, THEN conjunct2, rule_format, of 1 7] by (simp add: add.commute)
qed

section \<open>The file system\<close>

text \<open>
  C31: Writing \<open>n\<close> bytes at a position of a file, when enough blocks are free, returns
  \<open>n\<close>, sets exactly those bytes and grows the file as far as needed. All other bytes of the
  file, and size and contents of every other file, stay as they are, and so does the well-formedness
  of the file system: no block is shared, leaked to the bitmap, or outside the disk.
\<close>

theorem file_write_correct:
  assumes "bc_ok s" and "fsinv (fsmem s) F" and "f \<in> F" and "plain (fsmem s) F f" and "pos + n \<le> 1034 * 4096"
    and "0 < n \<Longrightarrow> budget (fsmem s) f (pos div 4096) ((pos + n + 4095) div 4096) \<le> card (free_blocks (fsmem s))"
  shows "\<exists>t. file_write f buf (of_nat n) (of_nat pos) s = (Ret (of_nat n), t) \<and> bc_ok t \<and> fsinv (fsmem t) F
    \<and> unat (fsize (fsmem t) f) = max (unat (fsize (fsmem s) f)) (pos + n)
    \<and> (\<forall>j < n. fbyte (fsmem t) f (pos + j) = Some (buf j))
    \<and> (\<forall>p < 1034 * 4096. p < pos \<or> pos + n \<le> p \<longrightarrow> fbyte (fsmem s) f p \<noteq> None \<longrightarrow>
         fbyte (fsmem t) f p = fbyte (fsmem s) f p)
    \<and> (\<forall>g \<in> F. g \<noteq> f \<longrightarrow> fsize (fsmem t) g = fsize (fsmem s) g \<and> (plain (fsmem s) F g \<longrightarrow>
         (\<forall>p < 1034 * 4096. fbyte (fsmem s) g p \<noteq> None \<longrightarrow> fbyte (fsmem t) g p = fbyte (fsmem s) g p)))"
proof -
  obtain t where t: "file_write f buf (of_nat n) (of_nat pos) s = (Ret (of_nat n), t)" "bc_ok t"
    "changes (fsmem s) (fsmem t) F f {p. pos \<le> p \<and> p < pos + n}"
    "unat (fsize (fsmem t) f) = max (unat (fsize (fsmem s) f)) (pos + n)"
    "\<forall>j < n. fbyte (fsmem t) f (pos + j) = Some (buf j)"
    using file_write_ok [OF assms, of buf] by (auto simp: runs_def)
  note ch = changesD [OF t(3)]
  have "g \<in> F \<Longrightarrow> g \<noteq> f \<Longrightarrow> fsize (fsmem t) g = fsize (fsmem s) g" for g
    by (rule header_fsize [OF ch(5)])
  moreover have "fbyte (fsmem t) f p = fbyte (fsmem s) f p"
    if "p < 1034 * 4096" "p < pos \<or> pos + n \<le> p" "fbyte (fsmem s) f p \<noteq> None" for p
    using that by (intro ch(4) [OF assms(3,4)]) auto
  ultimately show ?thesis using t ch(1,4) by (intro exI [of _ t]) blast
qed

theorem file_write_correct_witness:
  "\<exists>t. file_write demo_file (\<lambda>_. 0x21) 4 4094 (demo_fs True) = (Ret 4, t)
     \<and> fbyte (fsmem t) demo_file 4097 = Some 0x21 \<and> unat (fsize (fsmem t) demo_file) = 4098"
proof -
  have "gaps (demo_image True) demo_file 0 2 \<subseteq> {0, 1}" by (auto simp: gaps_def)
  then have "card (gaps (demo_image True) demo_file 0 2) \<le> card {0, 1 :: nat}" by (rule card_mono [rotated]) simp
  then have "budget (demo_image True) demo_file 0 2 \<le> 3" by (simp add: budget_def)
  from order_trans [OF this demo_free_blocks(1)]
    file_write_correct [of "demo_fs True" "{demo_root, demo_file}" demo_file 4094 4 "\<lambda>_. 0x21"]
  obtain t where t: "file_write demo_file (\<lambda>_. 0x21) 4 4094 (demo_fs True) = (Ret 4, t)"
    "\<forall>j < 4. fbyte (fsmem t) demo_file (4094 + j) = Some 0x21" "unat (fsize (fsmem t) demo_file) = 4098"
    by (auto simp: demo_bc demo_fs_mem demo_fsinv demo_plain demo_sizes)
  have "fbyte (fsmem t) demo_file (4094 + 3) = Some 0x21" by (rule t(2) [rule_format]) simp
  then show ?thesis using t by simp
qed

text \<open>
  C32: What was written survives a restart: after a write and \<^verbatim>\<open>fs_sync\<close>, a server that
  starts on the same disk with nothing but the super block in its cache reads back exactly the
  bytes written.
\<close>

theorem written_data_survives_restart:
  assumes "bc_ok s" and "fsinv (fsmem s) F" and "f \<in> F" and "plain (fsmem s) F f" and "pos + n \<le> 1034 * 4096"
    and "0 < n \<Longrightarrow> budget (fsmem s) f (pos div 4096) ((pos + n + 4095) div 4096) \<le> card (free_blocks (fsmem s))"
  shows "\<exists>t u v. file_write f buf (of_nat n) (of_nat pos) s = (Ret (of_nat n), t) \<and> fs_sync t = (Ret (), u)
    \<and> file_read f (of_nat n) (of_nat pos) (remount u) = (Ret (of_nat n, map buf [0 ..< n]), v)"
  using assms by (rule write_sync_restart_read)

theorem written_data_survives_restart_witness:
  "\<exists>t u v. file_write demo_file (\<lambda>i. of_nat (65 + i)) 3 5 (demo_fs True) = (Ret 3, t) \<and> fs_sync t = (Ret (), u)
    \<and> file_read demo_file 3 5 (remount u) = (Ret (3, [65, 66, 67]), v)"
proof -
  have "budget (demo_image True) demo_file 0 1 = 0" by (auto simp: budget_def gaps_def demo_uses)
  then show ?thesis
    using written_data_survives_restart [of "demo_fs True" "{demo_root, demo_file}" demo_file 5 3 "\<lambda>i. of_nat (65 + i)"]
    by (simp add: demo_bc demo_fs_mem demo_fsinv demo_plain upt_rec)
qed

text \<open>
  C33: Setting the size of a file frees exactly the blocks behind the new end, together with the
  indirect block when the rest fits in the direct ones, keeps every byte in front of the new end
  and touches no other file.
\<close>

theorem file_set_size_correct:
  assumes "bc_ok s" and "fsinv (fsmem s) F" and "f \<in> F" and "plain (fsmem s) F f" and "n \<le> 1034 * 4096"
  defines "sz \<equiv> unat (fsize (fsmem s) f)"
  shows "\<exists>t. file_set_size f (of_nat n) s = (Ret 0, t) \<and> bc_ok t \<and> fsinv (fsmem t) F
    \<and> unat (fsize (fsmem t) f) = n
    \<and> (\<forall>c. block_used (fsmem t) c \<longleftrightarrow> block_used (fsmem s) c \<and> \<not> (c \<noteq> 0 \<and> n < sz
         \<and> ((\<exists>k. (n + 4095) div 4096 \<le> k \<and> k < (sz + 4095) div 4096 \<and> c = uses (fsmem s) f k)
            \<or> ((n + 4095) div 4096 \<le> 10 \<and> c = indirect (fsmem s) f))))
    \<and> (\<forall>p < n. fbyte (fsmem s) f p \<noteq> None \<longrightarrow> fbyte (fsmem t) f p = fbyte (fsmem s) f p)
    \<and> (\<forall>g \<in> F. g \<noteq> f \<longrightarrow> fsize (fsmem t) g = fsize (fsmem s) g \<and> (plain (fsmem s) F g \<longrightarrow>
         (\<forall>p < 1034 * 4096. fbyte (fsmem s) g p \<noteq> None \<longrightarrow> fbyte (fsmem t) g p = fbyte (fsmem s) g p)))"
proof -
  obtain t where t: "file_set_size f (of_nat n) s = (Ret 0, t)" "bc_ok t"
    "changes (fsmem s) (fsmem t) F f {p. n \<le> p}" "unat (fsize (fsmem t) f) = n"
    "\<And>c. block_used (fsmem t) c \<longleftrightarrow>
         block_used (fsmem s) c \<and> \<not> (\<exists>k \<in> freed_by sz n. c = uses (fsmem s) f k \<and> c \<noteq> 0)"
    using file_set_size_ok [OF assms(1-5)] unfolding sz_def runs_def by blast
  note ch = changesD [OF t(3)]
  have fr: "(\<exists>k \<in> freed_by sz n. c = uses (fsmem s) f k \<and> c \<noteq> 0) \<longleftrightarrow> c \<noteq> 0 \<and> n < sz
         \<and> ((\<exists>k. (n + 4095) div 4096 \<le> k \<and> k < (sz + 4095) div 4096 \<and> c = uses (fsmem s) f k)
            \<or> ((n + 4095) div 4096 \<le> 10 \<and> c = indirect (fsmem s) f))" for c
    by (auto simp: freed_by_def freed_positions_def uses_indirect)
  have sizes: "g \<in> F \<Longrightarrow> g \<noteq> f \<Longrightarrow> fsize (fsmem t) g = fsize (fsmem s) g" for g
    by (rule header_fsize [OF ch(5)])
  have kept: "fbyte (fsmem t) f p = fbyte (fsmem s) f p" if "p < n" "fbyte (fsmem s) f p \<noteq> None" for p
    using that assms(5) by (intro ch(4) [OF assms(3,4)]) auto
  show ?thesis
    by (intro exI [of _ t] conjI allI ballI impI t(1,2,4) t(5) [unfolded fr] ch(1) sizes kept ch(4)) simp_all
qed

theorem file_set_size_correct_witness:
  "\<exists>t. file_set_size demo_file 0 (demo_fs True) = (Ret 0, t) \<and> \<not> block_used (fsmem t) 4 \<and> block_used (fsmem t) 3"
proof -
  obtain t where t: "file_set_size demo_file 0 (demo_fs True) = (Ret 0, t)"
    "\<forall>c. block_used (fsmem t) c \<longleftrightarrow> block_used (demo_image True) c \<and> \<not> (c \<noteq> 0
         \<and> ((\<exists>k < 1. c = uses (demo_image True) demo_file k) \<or> c = indirect (demo_image True) demo_file))"
    using file_set_size_correct [of "demo_fs True" "{demo_root, demo_file}" demo_file 0]
    by (auto simp: demo_bc demo_fs_mem demo_fsinv demo_plain demo_sizes)
  then show ?thesis by (simp add: demo_uses demo_indirect demo_used)
qed

text \<open>
  C34: \<^verbatim>\<open>walk_path\<close> follows a path component by component, each the first entry of that
  name in the directory reached so far, with any number of slashes between components, and changes
  nothing on the disk.
\<close>

theorem walk_path_correct:
  assumes "bc_ok s" and "tree (fsmem s) F"
  shows "\<exists>t. walk_path path s =
      (Ret (resolve (fsmem s) (components path) 0 (DISKMAP + 0x1000 + s_root)), t)
    \<and> bc_ok t \<and> fsmem t = fsmem s"
  using walk_path_ok [OF assms] by (simp add: runs_def)

theorem walk_path_correct_witness:
  "\<exists>t. walk_path [0x2F, 0x2F, 0x66, 0x2F] (demo_fs True) = (Ret (0, demo_root, demo_file, []), t)"
proof -
  have "components [0x2F, 0x2F, 0x66, 0x2F] = [[0x66]]"
    by (simp add: components.simps [of "[0x2F, 0x2F, 0x66, 0x2F]"] components.simps [of "[0x2F]"])
  then show ?thesis
    using walk_path_correct [of "demo_fs True" "{demo_root, demo_file}" "[0x2F, 0x2F, 0x66, 0x2F]"] demo_tree
    by (simp add: demo_bc demo_fs_mem demo_lookup demo_types MAXNAMELEN_def demo_root_def [symmetric])
      (auto simp: demo_types)
qed

text \<open>
  \<^verbatim>\<open>file_get_block\<close> keeps the file system well formed: it returns the address of the
  block at the position, which is the block that was there or, for a hole, one that was free; every
  other block of every file, and every size, type and name, stays as it is, and as many blocks
  leave the free list as the position needed.
\<close>

theorem file_get_block_correct:
  assumes "bc_ok s" and "fsinv (fsmem s) F" and "f \<in> F" and "i < 1034"
    and "needed (fsmem s) f i \<le> card (free_blocks (fsmem s))"
  shows "\<exists>t. file_get_block f (of_nat i) s = (Ret (0, DISKMAP + uses (fsmem t) f i * BLKSIZE), t)
    \<and> bc_ok t \<and> fsinv (fsmem t) F \<and> uses (fsmem t) f i \<noteq> 0
    \<and> (if uses (fsmem s) f i = 0 then \<not> block_used (fsmem s) (uses (fsmem t) f i)
       else uses (fsmem t) f i = uses (fsmem s) f i)
    \<and> (\<forall>g \<in> F. header_same (fsmem s) (fsmem t) g
       \<and> (\<forall>l \<le> 1034. uses (fsmem s) g l \<noteq> 0 \<longrightarrow> uses (fsmem t) g l = uses (fsmem s) g l))
    \<and> card (free_blocks (fsmem t)) + needed (fsmem s) f i = card (free_blocks (fsmem s))"
proof -
  obtain t where t: "file_get_block f (of_nat i) s = (Ret (0, DISKMAP + uses (fsmem t) f i * BLKSIZE), t)"
    "bc_ok t" "mapin (fsmem s) (fsmem t) F f i" "uses (fsmem t) f i \<noteq> 0"
    "card (free_blocks (fsmem t)) + needed (fsmem s) f i = card (free_blocks (fsmem s))"
    using get_block_ok [OF assms] by (auto simp: runs_def)
  note mi = mapinD [OF t(3)]
  have "\<not> block_used (fsmem s) (uses (fsmem t) f i)" if "uses (fsmem s) f i = 0"
    using mi(8) [OF assms(3), of i] t(4) assms(4) that by simp
  then show ?thesis
    using t mi(1,4,5) assms(3,4) by (intro exI [of _ t]) (simp add: less_imp_le)
qed

theorem file_get_block_correct_witness:
  "\<exists>t. file_get_block demo_file 12 (demo_fs True) = (Ret (0, DISKMAP + uses (fsmem t) demo_file 12 * BLKSIZE), t)
     \<and> fsinv (fsmem t) {demo_root, demo_file}
     \<and> \<not> block_used (demo_image True) (uses (fsmem t) demo_file 12)"
proof -
  have "needed (demo_image True) demo_file 12 \<le> card (free_blocks (demo_image True))"
    using demo_free_blocks(1) by (simp add: needed_def)
  then show ?thesis
    using file_get_block_correct [of "demo_fs True" "{demo_root, demo_file}" demo_file 12]
    by (auto simp: demo_bc demo_fs_mem demo_fsinv demo_uses)
qed

text \<open>
  When the disk is full, filling a hole does not report -E_NO_DISK as documented: the
  negative error code is taken for a block number and the server panics.
\<close>

theorem full_disk_panics:
  assumes "bc_ok s" and "fsinv (fsmem s) F" and "f \<in> F" and "i < 1034" and "uses (fsmem s) f i = 0"
    and "free_blocks (fsmem s) = {}" and "i < 10 \<or> indirect (fsmem s) f \<noteq> 0"
  shows "\<exists>t. file_get_block f (of_nat i) s = (Stop FsPanic, t)"
  using assms by (rule full_disk_stops)

theorem full_disk_panics_witness: "\<exists>t. file_get_block demo_file 1 (demo_fs False) = (Stop FsPanic, t)"
  using full_disk_panics [of "demo_fs False" "{demo_root, demo_file}" demo_file 1]
  by (simp add: demo_bc demo_fs_mem demo_fsinv demo_uses demo_free_blocks)

text \<open>
  C35: The block cache is transparent: reading a word of a block in use returns what the file
  system holds there, whether the block is cached or must be fetched from the disk first, and
  \<^verbatim>\<open>flush_block\<close> leaves what programs see unchanged but makes the disk agree with it on
  that block, touching no other block of the disk.
\<close>

theorem block_cache_transparent:
  assumes "bc_ok s" and "\<not> outside_cache a" and "unat a mod 4 = 0" and "block_used (fsmem s) (blockno_of a)"
  shows "\<exists>t u. fs_load32 a s = (Ret (load4 a (fsmem s)), t) \<and> bc_ok t \<and> fsmem t = fsmem s
    \<and> flush_block a t = (Ret (), u) \<and> bc_ok u \<and> fsmem u = fsmem s
    \<and> (\<forall>x. \<not> outside_cache x \<longrightarrow> on_disk u x = (if PGNUM x = PGNUM a then fsmem s x else on_disk t x))"
proof -
  obtain t where t: "fs_load32 a s = (Ret (load4 a (fsmem s)), t)" "bc_ok t" "fsmem t = fsmem s"
    using runs_load [OF assms] by (auto simp: runs_def)
  then show ?thesis using flush_block_ok [OF t(2) assms(2)] by metis
qed

theorem block_cache_transparent_witness:
  "\<exists>t u. fs_load32 0x10003080 (demo_fs True) = (Ret 5, t) \<and> flush_block 0x10003080 t = (Ret (), u)"
proof -
  have "blockno_of 0x10003080 = 3" by (simp add: blockno_of_def kconst)
  moreover have "\<not> outside_cache 0x10003080" by (simp add: outside_PGNUM PGNUM_eq)
  ultimately show ?thesis
    using block_cache_transparent [of "demo_fs True" "0x10003080"]
    by (auto simp: demo_bc demo_fs_mem demo_used load4_demo demo_word_def)
qed

text \<open>
  C36: \<^verbatim>\<open>file_flush\<close> brings a file to the disk: read from the disk alone, its record, its size,
  its block map, indirect block included, and every byte up to the size are then what programs see. What
  programs see does not change, and every other place of the disk holds what it held or what the cache
  has for it.
\<close>

theorem file_flush_correct:
  assumes "bc_ok s" and "fsinv (fsmem s) F" and "f \<in> F" and "plain (fsmem s) F f"
  shows "\<exists>t. file_flush f s = (Ret (), t) \<and> bc_ok t \<and> fsmem t = fsmem s
    \<and> (\<forall>c < 256. on_disk t (f + of_nat c) = fsmem s (f + of_nat c))
    \<and> fsize (on_disk t) f = fsize (fsmem s) f \<and> (\<forall>k < 1034. uses (on_disk t) f k = uses (fsmem s) f k)
    \<and> (\<forall>p < unat (fsize (fsmem s) f). fbyte (on_disk t) f p = fbyte (fsmem s) f p)
    \<and> (\<forall>y. \<not> outside_cache y \<longrightarrow> on_disk t y = on_disk s y \<or> on_disk t y = fsmem s y)"
  using assms by (rule file_flush_disk)

theorem file_flush_correct_witness:
  "\<exists>t. file_flush demo_file (demo_fs True) = (Ret (), t) \<and> fsmem t = demo_image True
     \<and> fsize (on_disk t) demo_file = fsize (demo_image True) demo_file"
  using file_flush_correct [of "demo_fs True" "{demo_root, demo_file}" demo_file]
  by (auto simp: demo_bc demo_fs_mem demo_fsinv demo_plain)

section \<open>Open files and descriptors\<close>

text \<open>
  C37: Opening an existing file: the least unused descriptor is returned, and it shows the first
  slot of the server that nobody else uses, with the file the path leads to, offset 0 and the
  requested mode; if the path leads nowhere its error is returned and no descriptor changes. The
  contents of the file system stay as they are.
\<close>

theorem open_file_correct:
  assumes "bc_ok (fs (srv w))" and "tree (fsmem (fs (srv w))) F"
    and "resolve (fsmem (fs (srv w))) (components path) 0 (DISKMAP + 0x1000 + s_root) = (r, dir, f, name)"
    and "length path < 1024" and "0 \<notin> set path" and "mode AND O_CREAT = 0" and "mode AND O_TRUNC = 0"
    and "n < 32" and "upages w (INDEX2FD (of_nat n)) = None" and "\<And>m. m < n \<Longrightarrow> upages w (INDEX2FD (of_nat m)) \<noteq> None"
    and "map_grants w (INDEX2FD (of_nat n))"
    and "i < 1024" and "fd_ref (srv w) i \<le> 1" and "\<And>j. j < i \<Longrightarrow> 1 < fd_ref (srv w) j"
    and "fd_ref (srv w) i = 0 \<Longrightarrow> fd_grants (srv w) i"
    and "ids_ok (srv w)" and "\<not> is_neg (o_fileid (opentab (srv w) i) + 1024)"
  shows "\<exists>v. fsmem (fs (srv v)) = fsmem (fs (srv w)) \<and>
    (if is_neg r then open_file path mode w = (Ret r, v) \<and> upages v = upages w
     else open_file path mode w = (Ret (of_nat n), v) \<and> is_open v (of_nat n) i
       \<and> upages v = (upages w)(INDEX2FD (of_nat n) \<mapsto> SlotPage i)
       \<and> o_file (opentab (srv v) i) = f \<and> fd_offset (fd_page (srv v) i) = 0
       \<and> fd_omode (fd_page (srv v) i) = mode AND O_ACCMODE)"
proof -
  obtain t where t: "file_open path (fs (srv w)) = (Ret (r, f), t)" "fsmem t = fsmem (fs (srv w))"
    using file_open_run [OF assms(1-3)] by blast
  show ?thesis
    using open_file_run [OF assms(4-17) t(1)] t(2) by (cases "is_neg r") auto
qed

theorem open_file_correct_witness:
  "\<exists>v. open_file [0x2F, 0x66] O_RDWR demo_world = (Ret 0, v) \<and> o_file (opentab (srv v) 0) = demo_file"
  using open_file_correct [of demo_world "{demo_root, demo_file}" "[0x2F, 0x66]" 0 demo_root demo_file "[]" O_RDWR 0 0]
    demo_tree demo_resolve demo_bc demo_ids
  by (auto simp: demo_world_def demo_srv_def demo_fs_mem kconst is_neg_def)

text \<open>
  C38: What was written through a descriptor is read back through any descriptor that shows the
  same slot, once the offset has been set back: a write transfers up to 4088 bytes, and
  \<^verbatim>\<open>readn\<close> asks as often as it takes.
\<close>

theorem write_seek_read_back:
  assumes "is_open w d i" and "is_open w e i" and "fd_omode (fd_page (srv w) i) AND O_ACCMODE = O_RDWR"
    and "bc_ok (fs (srv w))" and "fsinv (fsmem (fs (srv w))) F" and "o_file (opentab (srv w) i) \<in> F"
    and "plain (fsmem (fs (srv w))) F (o_file (opentab (srv w) i))"
    and "fd_offset (fd_page (srv w) i) = of_nat pos" and "pos + min (unat n) 4088 \<le> 1034 * 4096"
    and "0 < min (unat n) 4088 \<Longrightarrow> budget (fsmem (fs (srv w))) (o_file (opentab (srv w) i)) (pos div 4096)
      ((pos + min (unat n) 4088 + 4095) div 4096) \<le> card (free_blocks (fsmem (fs (srv w))))"
  shows "\<exists>u v x. write_fd d buf n w = (Ret (of_nat (min (unat n) 4088)), u) \<and> seek e (of_nat pos) u = (Ret 0, v)
    \<and> readn e (of_nat (min (unat n) 4088)) v = (Ret (of_nat (min (unat n) 4088), map buf [0 ..< min (unat n) 4088]), x)"
  using assms(1-5,6,7) refl assms(8-10) by (rule write_seek_readn)

theorem write_seek_read_back_witness:
  "\<exists>w u v x. open_file [0x2F, 0x66] O_RDWR demo_world = (Ret 0, w) \<and> write_fd 0 (\<lambda>i. of_nat (65 + i)) 3 w = (Ret 3, u)
     \<and> seek 0 0 u = (Ret 0, v) \<and> readn 0 3 v = (Ret (3, [65, 66, 67]), x)"
proof -
  obtain w where w: "open_file [0x2F, 0x66] O_RDWR demo_world = (Ret 0, w)" "is_open w 0 0"
    "bc_ok (fs (srv w))" "fsmem (fs (srv w)) = demo_image True" "o_file (opentab (srv w) 0) = demo_file"
    "fd_offset (fd_page (srv w) 0) = 0" "fd_omode (fd_page (srv w) 0) = O_RDWR"
    by (rule demo_open) blast
  have "budget (demo_image True) demo_file 0 1 = 0" by (auto simp: budget_def gaps_def demo_uses)
  moreover have "O_RDWR AND O_ACCMODE = O_RDWR" by (simp add: kconst)
  ultimately show ?thesis
    using write_seek_read_back [of w 0 0 0 "{demo_root, demo_file}" 0 3 "\<lambda>i. of_nat (65 + i)"] w
    by (auto simp: demo_fsinv demo_plain upt_rec)
qed

text \<open>
  C39: A slot whose page a program still has mapped is never given to another open, whatever
  calls the program made before, in whatever order and with whatever arguments (only a \<^verbatim>\<open>dup\<close>
  onto the page of the request buffer itself is outside the model): the server's reference counts
  are exactly one more than the number of mappings.
\<close>

theorem open_slots_not_reused:
  assumes "nothing_open w" and "forM calls do_call w = (Ret u, v)" and "upages v a = Some (SlotPage i)"
    and "openfile_alloc (srv v) = (Ret (r, j), s)" and "\<not> is_neg r"
  shows "i \<noteq> j \<and> fd_ref (srv v) i = Suc (card {b. upages v b = Some (SlotPage i)})"
proof
  note ok = calls_refs [OF assms(1,2)]
  show "i \<noteq> j" by (rule alloc_not_mapped [OF ok assms(3-5)])
  show "fd_ref (srv v) i = Suc (card {b. upages v b = Some (SlotPage i)})"
    using ok[unfolded fd_refs_ok_def, rule_format, of i] mapped_allocated [OF ok assms(3)]
    by (simp add: shown_at_def split: if_splits)
qed

theorem open_slots_not_reused_witness:
  "\<exists>v r s. forM [CallOpen [0x2F, 0x66] O_RDWR] do_call demo_world = (Ret (), v) \<and> upages v (INDEX2FD 0) = Some (SlotPage 0)
     \<and> openfile_alloc (srv v) = (Ret (r, 1), s) \<and> (0 :: nat) \<noteq> 1 \<and> fd_ref (srv v) 0 = Suc (card {b. upages v b = Some (SlotPage 0)})"
proof -
  obtain v where v: "open_file [0x2F, 0x66] O_RDWR demo_world = (Ret 0, v)" "upages v = [INDEX2FD 0 \<mapsto> SlotPage 0]"
    "fd_grants (srv v) = (\<lambda>_. True)"
    "\<And>j. 0 < j \<Longrightarrow> opentab (srv v) j = \<lparr>o_fileid = of_nat j, o_file = 0, o_mode = 0\<rparr> \<and> fd_ref (srv v) j = 0"
    "fd_refs_ok v"
    by (rule demo_open) blast
  have c: "forM [CallOpen [0x2F, 0x66] O_RDWR] do_call demo_world = (Ret (), v)" by (simp add: v(1))
  have m: "upages v (INDEX2FD 0) = Some (SlotPage 0)" by (simp add: v(2))
  have "openfile_alloc (srv v) = (Ret (o_fileid (opentab (srv v) 1) + 1024, 1), taken 1 (srv v))"
    using mapped_allocated [OF v(5) m] v(3,4) by (intro openfile_first) auto
  then have a: "openfile_alloc (srv v) = (Ret (1025, 1), taken 1 (srv v))" using v(4) [of 1] by simp
  have "\<not> is_neg (1025 :: i32)" by (simp add: is_neg_def)
  from open_slots_not_reused [OF demo_nothing_open c m a this] c m a show ?thesis by blast
qed

text \<open>
  C40: Closing a descriptor brings the file to the disk, its record and every byte of its contents,
  removes exactly that descriptor and changes no contents; when it was the last one of the slot,
  every later request that names the file identifier is refused with no effect.
\<close>

theorem close_correct:
  assumes "fd_refs_ok w" and "is_open w d i" and "o_file (opentab (srv w) i) = f"
    and "bc_ok (fs (srv w))" and "fsinv (fsmem (fs (srv w))) F" and "f \<in> F" and "plain (fsmem (fs (srv w))) F f"
  shows "\<exists>v. close d w = (Ret 0, v) \<and> fd_refs_ok v \<and> upages v = (upages w)(INDEX2FD d := None)
    \<and> bc_ok (fs (srv v)) \<and> fsmem (fs (srv v)) = fsmem (fs (srv w))
    \<and> (\<forall>c < 256. on_disk (fs (srv v)) (f + of_nat c) = fsmem (fs (srv w)) (f + of_nat c))
    \<and> (\<forall>p < unat (fsize (fsmem (fs (srv w))) f). \<forall>b. fbyte (fsmem (fs (srv w))) f p = Some b \<longrightarrow>
         on_disk (fs (srv v)) (DISKMAP + uses (fsmem (fs (srv w))) f (p div 4096) * BLKSIZE + of_nat (p mod 4096)) = b)
    \<and> ({a. upages w a = Some (SlotPage i)} = {INDEX2FD d} \<longrightarrow>
         (\<forall>req \<in> id_requests. \<forall>pg. load4 0 pg = o_fileid (opentab (srv w) i) \<longrightarrow>
           serve_request req pg (srv v) = (Ret (- E_INVAL, None, pg), srv v)))"
  using close_ok [OF assms] unfolding shown_at_def .

theorem close_correct_witness:
  "\<exists>w v. open_file [0x2F, 0x66] O_RDWR demo_world = (Ret 0, w) \<and> close 0 w = (Ret 0, v) \<and> upages v (INDEX2FD 0) = None
     \<and> serve_request FSREQ_STAT (store4 0 (o_fileid (opentab (srv w) 0)) (\<lambda>_. 0)) (srv v)
       = (Ret (- E_INVAL, None, store4 0 (o_fileid (opentab (srv w) 0)) (\<lambda>_. 0)), srv v)"
proof -
  obtain w where w: "open_file [0x2F, 0x66] O_RDWR demo_world = (Ret 0, w)" "is_open w 0 0"
    "upages w = [INDEX2FD 0 \<mapsto> SlotPage 0]" "bc_ok (fs (srv w))" "fsmem (fs (srv w)) = demo_image True"
    "o_file (opentab (srv w) 0) = demo_file" "fd_refs_ok w"
    by (rule demo_open) blast
  have only: "{a. upages w a = Some (SlotPage 0)} = {INDEX2FD 0}" by (auto simp: w(3) split: if_splits)
  have "fsinv (fsmem (fs (srv w))) {demo_root, demo_file}" "plain (fsmem (fs (srv w))) {demo_root, demo_file} demo_file"
    by (simp_all add: w(5) demo_fsinv demo_plain)
  from close_correct [OF w(7,2,6,4) this(1) _ this(2)] only
  obtain v where v: "close 0 w = (Ret 0, v)" "upages v = (upages w)(INDEX2FD 0 := None)"
    "\<forall>req \<in> id_requests. \<forall>pg. load4 0 pg = o_fileid (opentab (srv w) 0) \<longrightarrow>
       serve_request req pg (srv v) = (Ret (- E_INVAL, None, pg), srv v)"
    by auto
  then show ?thesis using w(1) by (intro exI [of _ w] exI [of _ v]) (simp add: id_requests_def)
qed

text \<open>
  A request that names a slot no file was ever opened in brings the server down: the slot has
  no page whose references could be counted, its identifier is still its index, so the lookup
  accepts it and a null pointer is followed.
\<close>

theorem unopened_file_id_panics:
  assumes "fd_ref s i = 0" and "o_file (opentab s i) = 0" and "o_fileid (opentab s i) = of_nat i" and "i < 1024"
    and "uvpt (fs s) 0 AND PTE_P = 0" and "req \<in> id_requests" and "load4 0 pg = of_nat i"
  shows "serve_request req pg s = (Stop FsPanic, s)"
  using assms by (rule unopened_panics)

theorem unopened_file_id_panics_witness:
  "\<exists>s. serve_init demo_srv = (Ret (), s) \<and> serve_request FSREQ_STAT (store4 0 7 (\<lambda>_. 0)) s = (Stop FsPanic, s)"
proof -
  define s where "s = snd (serve_init demo_srv)"
  have s: "serve_init demo_srv = (Ret (), s)" by (simp add: s_def serve_init_def)
  have "serve_request FSREQ_STAT (store4 0 7 (\<lambda>_. 0)) s = (Stop FsPanic, s)"
    using unopened_file_id_panics [of s 7 FSREQ_STAT "store4 0 7 (\<lambda>_. 0)"] demo_uvpt
    by (simp add: s_def serve_init_def demo_srv_def id_requests_def)
  then show ?thesis using s by blast
qed

end
